(* ===== verification/Prelude.thy ===== *)
theory Prelude
  imports Main "HOL-Library.Word" "HOL-Library.Monad_Syntax"
begin

text \<open>
  Vocabulary shared by every component: the C types of rtdef.h, its error codes and macros,
  bounded reads and writes of C arrays, and the generic facts about lists, options and
  words that the component proofs use.

  Conventions of the whole development.
  \<^item> A C function that changes state takes the state and returns the new one.
  \<^item> The result type is an option.  \<^term>\<open>None\<close> means that the C program does not go on: an
    \<^verbatim>\<open>RT_ASSERT\<close> failed (the handler of kservice.c never returns), a NULL or foreign pointer was
    dereferenced, an array was accessed out of bounds, or a node already linked into a list
    was linked a second time.  Error codes the C code returns are ordinary values.
\<close>

unbundle bit_operations_syntax

section \<open>Types and constants of rtdef.h\<close>

type_synonym rt_uint8_t = "8 word"
type_synonym rt_uint16_t = "16 word"
type_synonym rt_uint32_t = "32 word"
type_synonym rt_tick_t = "32 word"
type_synonym rt_err_t = int

abbreviation RT_EOK :: rt_err_t where "RT_EOK \<equiv> 0"
abbreviation RT_ERROR :: rt_err_t where "RT_ERROR \<equiv> 1"
abbreviation RT_ETIMEOUT :: rt_err_t where "RT_ETIMEOUT \<equiv> 2"
abbreviation RT_EFULL :: rt_err_t where "RT_EFULL \<equiv> 3"
abbreviation RT_EEMPTY :: rt_err_t where "RT_EEMPTY \<equiv> 4"
abbreviation RT_ENOMEM :: rt_err_t where "RT_ENOMEM \<equiv> 5"
abbreviation RT_EINVAL :: rt_err_t where "RT_EINVAL \<equiv> 10"

abbreviation RT_UINT8_MAX :: nat where "RT_UINT8_MAX \<equiv> 255"
abbreviation RT_UINT16_MAX :: nat where "RT_UINT16_MAX \<equiv> 65535"
abbreviation RT_TICK_MAX :: rt_tick_t where "RT_TICK_MAX \<equiv> 0xffffffff"

text \<open>\<^verbatim>\<open>RT_ALIGN\<close> and \<^verbatim>\<open>RT_ALIGN_DOWN\<close> on 32-bit sizes; the addition wraps as in C.\<close>

definition RT_ALIGN :: "rt_uint32_t \<Rightarrow> rt_uint32_t \<Rightarrow> rt_uint32_t" where
  "RT_ALIGN sz algn = (sz + algn - 1) AND NOT (algn - 1)"

definition RT_ALIGN_DOWN :: "rt_uint32_t \<Rightarrow> rt_uint32_t \<Rightarrow> rt_uint32_t" where
  "RT_ALIGN_DOWN sz algn = sz AND NOT (algn - 1)"

text \<open>\<^verbatim>\<open>RT_ASSERT(ex)\<close>: continue only when the condition holds.\<close>

definition RT_ASSERT :: "bool \<Rightarrow> unit option" where
  "RT_ASSERT ex = (if ex then Some () else None)"

lemma RT_ASSERT_simps [simp]:
  "RT_ASSERT True = Some ()" "RT_ASSERT False = None"
  "RT_ASSERT ex = Some u \<longleftrightarrow> ex" "RT_ASSERT ex = None \<longleftrightarrow> \<not> ex"
  by (auto simp: RT_ASSERT_def)

section \<open>Options\<close>

lemma bind_Some_iff: "Option.bind m f = Some y \<longleftrightarrow> (\<exists>x. m = Some x \<and> f x = Some y)"
  by (cases m) auto

lemma bind_SomeE:
  assumes "Option.bind m f = Some y"
  obtains x where "m = Some x" "f x = Some y"
  using assms by (cases m) auto

section \<open>Arrays\<close>

text \<open>
  \<open>fetch src off n\<close> reads n cells from offset off, \<open>blit dst off xs\<close> is the memory copy of xs
  to offset off of dst; both fail when the access leaves the array.
\<close>

definition fetch :: "'a list \<Rightarrow> nat \<Rightarrow> nat \<Rightarrow> 'a list option" where
  "fetch src off n = (if off + n \<le> length src then Some (take n (drop off src)) else None)"

definition blit :: "'a list \<Rightarrow> nat \<Rightarrow> 'a list \<Rightarrow> 'a list option" where
  "blit dst off xs =
     (if off + length xs \<le> length dst
      then Some (take off dst @ xs @ drop (off + length xs) dst) else None)"

definition arr_get :: "'a list \<Rightarrow> nat \<Rightarrow> 'a option" where
  "arr_get a i = (if i < length a then Some (a ! i) else None)"

definition arr_set :: "'a list \<Rightarrow> nat \<Rightarrow> 'a \<Rightarrow> 'a list option" where
  "arr_set a i x = (if i < length a then Some (a[i := x]) else None)"

lemma fetch_ok: "off + n \<le> length src \<Longrightarrow> fetch src off n = Some (take n (drop off src))"
  by (simp add: fetch_def)

lemma blit_ok:
  "off + length xs \<le> length dst \<Longrightarrow>
   blit dst off xs = Some (take off dst @ xs @ drop (off + length xs) dst)"
  by (simp add: blit_def)

lemma blit_length: "blit dst off xs = Some d \<Longrightarrow> length d = length dst"
  by (auto simp: blit_def split: if_splits)

lemma blit_nth:
  "blit dst off xs = Some d \<Longrightarrow> i < length dst \<Longrightarrow>
   d ! i = (if off \<le> i \<and> i < off + length xs then xs ! (i - off) else dst ! i)"
  by (auto simp: blit_def nth_append min_def split: if_splits)

end
