(* ===== verification/Ffs.thy ===== *)
theory Ffs
  imports Prelude
begin

text \<open>
  The find-first-set routine of src/kservice.c with its 256-entry table.  The scheduler uses it
  to find the most urgent ready priority, event receive uses plain masks instead.
\<close>

definition lowest_bit_bitmap :: "nat list" where
  "lowest_bit_bitmap =
    [0, 0, 1, 0, 2, 0, 1, 0, 3, 0, 1, 0, 2, 0, 1, 0,
     4, 0, 1, 0, 2, 0, 1, 0, 3, 0, 1, 0, 2, 0, 1, 0,
     5, 0, 1, 0, 2, 0, 1, 0, 3, 0, 1, 0, 2, 0, 1, 0,
     4, 0, 1, 0, 2, 0, 1, 0, 3, 0, 1, 0, 2, 0, 1, 0,
     6, 0, 1, 0, 2, 0, 1, 0, 3, 0, 1, 0, 2, 0, 1, 0,
     4, 0, 1, 0, 2, 0, 1, 0, 3, 0, 1, 0, 2, 0, 1, 0,
     5, 0, 1, 0, 2, 0, 1, 0, 3, 0, 1, 0, 2, 0, 1, 0,
     4, 0, 1, 0, 2, 0, 1, 0, 3, 0, 1, 0, 2, 0, 1, 0,
     7, 0, 1, 0, 2, 0, 1, 0, 3, 0, 1, 0, 2, 0, 1, 0,
     4, 0, 1, 0, 2, 0, 1, 0, 3, 0, 1, 0, 2, 0, 1, 0,
     5, 0, 1, 0, 2, 0, 1, 0, 3, 0, 1, 0, 2, 0, 1, 0,
     4, 0, 1, 0, 2, 0, 1, 0, 3, 0, 1, 0, 2, 0, 1, 0,
     6, 0, 1, 0, 2, 0, 1, 0, 3, 0, 1, 0, 2, 0, 1, 0,
     4, 0, 1, 0, 2, 0, 1, 0, 3, 0, 1, 0, 2, 0, 1, 0,
     5, 0, 1, 0, 2, 0, 1, 0, 3, 0, 1, 0, 2, 0, 1, 0,
     4, 0, 1, 0, 2, 0, 1, 0, 3, 0, 1, 0, 2, 0, 1, 0]"

text \<open>The parameter is a C int used as a bit pattern only; the constant of the last case is
  unsigned, so that its shift is logical.\<close>

definition rt_ffs :: "32 word \<Rightarrow> nat" where
  "rt_ffs v =
     (if v = 0 then 0
      else if v AND 0xff \<noteq> 0 then lowest_bit_bitmap ! unat (v AND 0xff) + 1
      else if v AND 0xff00 \<noteq> 0 then lowest_bit_bitmap ! unat (drop_bit 8 (v AND 0xff00)) + 9
      else if v AND 0xff0000 \<noteq> 0 then lowest_bit_bitmap ! unat (drop_bit 16 (v AND 0xff0000)) + 17
      else lowest_bit_bitmap ! unat (drop_bit 24 (v AND 0xff000000)) + 25)"

fun table_ok :: "int \<Rightarrow> nat list \<Rightarrow> bool" where
  "table_ok i [] \<longleftrightarrow> True"
| "table_ok i (k # ks) \<longleftrightarrow> i mod (2 * 2 ^ k) = 2 ^ k \<and> table_ok (i + 1) ks"

lemma table_okD: "table_ok i ks \<Longrightarrow> n < length ks \<Longrightarrow> (i + int n) mod (2 * 2 ^ (ks ! n)) = 2 ^ (ks ! n)"
proof (induction ks arbitrary: i n)
  case (Cons k ks)
  then show ?case using Cons.IH [of "i + 1" "n - 1"] by (cases n) (auto simp: add.assoc)
qed simp

lemma bitmap_table: "table_ok 1 (tl lowest_bit_bitmap)" "length lowest_bit_bitmap = 256"
  by (simp_all add: lowest_bit_bitmap_def)

lemma bitmap_lowest:
  assumes "i \<noteq> 0" "i < 256"
  shows "bit i (lowest_bit_bitmap ! i)" "j < lowest_bit_bitmap ! i \<Longrightarrow> \<not> bit i j"
proof -
  let ?k = "lowest_bit_bitmap ! i"
  have "int i mod (2 * 2 ^ ?k) = 2 ^ ?k"
    using table_okD [OF bitmap_table(1), of "i - 1"] assms bitmap_table(2)
    by (simp add: nth_tl of_nat_diff)
  then have "int (i mod 2 ^ Suc ?k) = int (2 ^ ?k)" by (simp add: zmod_int)
  then have "i mod 2 ^ Suc ?k = 2 ^ ?k" by (simp only: of_nat_eq_iff)
  then have t: "take_bit (Suc ?k) i = 2 ^ ?k" by (simp add: take_bit_eq_mod)
  show "bit i ?k"
    using arg_cong [OF t, of "\<lambda>x. bit x ?k"] by (simp add: bit_take_bit_iff bit_exp_iff)
  show "\<not> bit i j" if "j < ?k"
    using arg_cong [OF t, of "\<lambda>x. bit x j"] that by (simp add: bit_take_bit_iff bit_exp_iff)
qed

text \<open>The lowest bit of one byte of a word.\<close>

lemma bit_0xff: "bit (0xff :: 32 word) j \<longleftrightarrow> j < 8"
proof -
  have "(0xff :: 32 word) = mask 8" by (simp add: mask_numeral)
  then show ?thesis by (simp only: bit_mask_iff) auto
qed

lemma byte_bit: "bit (unat ((x :: 32 word) AND 0xff)) j \<longleftrightarrow> bit x j \<and> j < 8"
proof -
  have "bit (unat (x AND 0xff)) j \<longleftrightarrow> bit (x AND 0xff) j" by (rule bit_unsigned_iff [THEN trans]) simp
  then show ?thesis by (simp only: bit_and_iff bit_0xff)
qed

lemma byte_less: "unat ((x :: 32 word) AND 0xff) < 256"
proof -
  have "(0xff :: 32 word) = mask 8" by (simp add: mask_numeral)
  then have "x AND 0xff = take_bit 8 x" by (simp add: take_bit_eq_mask)
  then show ?thesis by (simp add: unsigned_take_bit_eq take_bit_nat_less_exp [where n = 8, simplified])
qed

lemma byte_lowest:
  fixes v :: "32 word"
  assumes "drop_bit s v AND 0xff \<noteq> 0"
  defines "k \<equiv> lowest_bit_bitmap ! unat (drop_bit s v AND 0xff)"
  shows "bit v (s + k)" "k < 8" "j < k \<Longrightarrow> \<not> bit v (s + j)"
proof -
  let ?i = "unat (drop_bit s v AND 0xff)"
  have i: "?i \<noteq> 0" "?i < 256" using assms(1) by (simp_all add: unat_eq_0 byte_less)
  show "bit v (s + k)" "k < 8"
    using bitmap_lowest(1) [OF i] by (simp_all add: k_def byte_bit bit_drop_bit_eq)
  then show "\<not> bit v (s + j)" if "j < k"
    using bitmap_lowest(2) [OF i, of j] that by (simp add: k_def byte_bit bit_drop_bit_eq)
qed

lemma byte_zero:
  fixes v :: "32 word"
  assumes "drop_bit s v AND 0xff = 0" "s \<le> j" "j < s + 8"
  shows "\<not> bit v j"
proof
  assume "bit v j"
  moreover have "j - s < 8" using assms(2,3) by auto
  ultimately show False
    using byte_bit [of "drop_bit s v" "j - s"] assms(1,2) by (simp add: bit_drop_bit_eq)
qed

lemma masks:
  fixes v :: "32 word"
  shows "drop_bit 8 (v AND 0xff00) = drop_bit 8 v AND 0xff"
    "drop_bit 16 (v AND 0xff0000) = drop_bit 16 v AND 0xff"
    "drop_bit 24 (v AND 0xff000000) = drop_bit 24 v AND 0xff"
    "v AND 0xff00 = 0 \<longleftrightarrow> drop_bit 8 v AND 0xff = 0"
    "v AND 0xff0000 = 0 \<longleftrightarrow> drop_bit 16 v AND 0xff = 0"
proof -
  have m: "(0xff00 :: 32 word) = push_bit 8 0xff" "(0xff0000 :: 32 word) = push_bit 16 0xff"
    "(0xff000000 :: 32 word) = push_bit 24 0xff" by simp_all
  show "drop_bit 8 (v AND 0xff00) = drop_bit 8 v AND 0xff"
    "drop_bit 16 (v AND 0xff0000) = drop_bit 16 v AND 0xff"
    "drop_bit 24 (v AND 0xff000000) = drop_bit 24 v AND 0xff"
    by (simp_all add: drop_bit_and)
  have z: "v AND push_bit n 0xff = 0" if "drop_bit n v AND 0xff = 0" for n
  proof (rule bit_word_eqI)
    fix j
    show "bit (v AND push_bit n 0xff) j = bit (0 :: 32 word) j"
      using byte_zero [OF that, of j] le_diff_conv [of j n 7]
      by (simp only: bit_and_iff bit_push_bit_iff bit_0xff bit_0_eq bot_fun_def bot_bool_def)
        (simp, linarith)
  qed
  have iff: "v AND push_bit n 0xff = 0 \<longleftrightarrow> drop_bit n v AND 0xff = 0"
    if "drop_bit n (v AND push_bit n 0xff) = drop_bit n v AND 0xff" for n
    using z [of n] that by (metis drop_bit_of_0)
  show "v AND 0xff00 = 0 \<longleftrightarrow> drop_bit 8 v AND 0xff = 0"
    unfolding m(1) by (rule iff) (simp add: drop_bit_and)
  show "v AND 0xff0000 = 0 \<longleftrightarrow> drop_bit 16 v AND 0xff = 0"
    unfolding m(2) by (rule iff) (simp add: drop_bit_and)
qed

lemma rt_ffs_zero [simp]: "rt_ffs v = 0 \<longleftrightarrow> v = 0" "rt_ffs 0 = 0"
  by (simp_all add: rt_ffs_def)

text \<open>The byte the routine selects: the first one that is not zero.\<close>

lemma rt_ffs_byte:
  assumes "v \<noteq> 0"
  obtains s where "drop_bit s v AND 0xff \<noteq> 0" "s \<le> 24" "\<And>j. j < s \<Longrightarrow> \<not> bit v j"
    "rt_ffs v = lowest_bit_bitmap ! unat (drop_bit s v AND 0xff) + (s + 1)"
proof -
  have low: "\<not> bit v j" if "drop_bit 0 v AND 0xff = 0" "j < 8" for j
    using byte_zero [OF that(1), of j] that(2) by simp
  have mid: "\<not> bit v j" if "drop_bit 8 v AND 0xff = 0" "8 \<le> j" "j < 16" for j
    using byte_zero [OF that(1), of j] that(2,3) by simp
  have high: "\<not> bit v j" if "drop_bit 16 v AND 0xff = 0" "16 \<le> j" "j < 24" for j
    using byte_zero [OF that(1), of j] that(2,3) by simp
  consider "drop_bit 0 v AND 0xff \<noteq> 0"
    | "drop_bit 0 v AND 0xff = 0" "drop_bit 8 v AND 0xff \<noteq> 0"
    | "drop_bit 0 v AND 0xff = 0" "drop_bit 8 v AND 0xff = 0" "drop_bit 16 v AND 0xff \<noteq> 0"
    | "drop_bit 0 v AND 0xff = 0" "drop_bit 8 v AND 0xff = 0" "drop_bit 16 v AND 0xff = 0"
    by blast
  then show thesis
  proof cases
    case 1
    then show thesis using assms by (intro that [of 0]) (auto simp: rt_ffs_def)
  next
    case 2
    then show thesis
      using assms low by (intro that [of 8]) (auto simp: rt_ffs_def masks)
  next
    case 3
    then show thesis
      using assms low mid by (intro that [of 16]) (auto simp: rt_ffs_def masks not_less [symmetric])
  next
    case 4
    have lo: "\<not> bit v j" if "j < 24" for j
      using low [OF 4(1)] mid [OF 4(2)] high [OF 4(3)] that by (meson not_le)
    obtain n where "bit v n" using assms by (auto simp: bit_eq_iff)
    then have n: "24 \<le> n" "n < 32" using lo [of n] bit_imp_le_length [of v n]
      by (auto simp: not_less [symmetric])
    then have "drop_bit 24 v AND 0xff \<noteq> 0"
      using byte_zero [of 24 v n] \<open>bit v n\<close> by auto
    then show thesis
      using 4 assms lo by (intro that [of 24]) (auto simp: rt_ffs_def masks)
  qed
qed

lemma rt_ffs_lowest:
  assumes "v \<noteq> 0"
  shows "bit v (rt_ffs v - 1)" "0 < rt_ffs v" "rt_ffs v \<le> 32"
    "j < rt_ffs v - 1 \<Longrightarrow> \<not> bit v j"
proof -
  obtain s where s: "drop_bit s v AND 0xff \<noteq> 0" "s \<le> 24" "\<And>j. j < s \<Longrightarrow> \<not> bit v j"
      "rt_ffs v = lowest_bit_bitmap ! unat (drop_bit s v AND 0xff) + (s + 1)"
    using rt_ffs_byte [OF assms] by metis
  show "bit v (rt_ffs v - 1)" "0 < rt_ffs v" "rt_ffs v \<le> 32"
    using byte_lowest(1,2) [OF s(1)] s(2,4) by (simp_all add: add.commute)
  show "\<not> bit v j" if "j < rt_ffs v - 1"
    using byte_lowest(3) [OF s(1), of "j - s"] s(3) [of j] s(4) that by (cases "j < s") auto
qed

lemma rt_ffs_Least: "v \<noteq> 0 \<Longrightarrow> rt_ffs v = Suc (LEAST k. bit v k)"
proof -
  assume v: "v \<noteq> 0"
  have "(LEAST k. bit v k) = rt_ffs v - 1"
    using rt_ffs_lowest(1,4) [OF v] by (intro Least_equality) (auto simp: not_less [symmetric])
  then show ?thesis using rt_ffs_lowest(2) [OF v] by simp
qed


section \<open>Properties\<close>

text \<open>
  C22: __rt_ffs is the find-first-set function on all 32-bit words: zero for zero, otherwise one
  more than the index of the lowest set bit, hence between 1 and 32; every table access is
  within the 256 entries.
\<close>

theorem rt_ffs_correct:
  "rt_ffs v = (if v = 0 then 0 else Suc (LEAST k. bit v k)) \<and> rt_ffs v \<le> 32"
  using rt_ffs_lowest(3) [of v] rt_ffs_Least [of v] by (cases "v = 0") (auto simp: rt_ffs_zero)

end
