(* ===== verification/KState.thy ===== *)
theory KState
  imports Prelude Ffs
begin

text \<open>
  The state of the kernel: the thread control blocks, timers and IPC objects of
  include/rtdef.h and the global variables of scheduler.c, timer.c, clock.c, irq.c and idle.c.

  A pointer to an object is its number; the maps from numbers to objects are total, and the
  field \<open>..._obj\<close> says that \<^verbatim>\<open>rt_object_get_type\<close> returns the type of the structure (it is reset
  when the object is detached or deleted).  An intrusive list is the list of its members'
  numbers under the name of its head, and each member records the head it is linked under
  (\<^term>\<open>None\<close>: the node points to itself).  RtList justifies this view of
  \<^verbatim>\<open>rt_list_insert_before\<close>, \<^verbatim>\<open>rt_list_insert_after\<close> and \<^verbatim>\<open>rt_list_remove\<close>; linking a node that
  is linked already is an error of the model.

  Priorities are natural numbers (rt_uint8_t in the code).  Names, entry functions, user data
  and the hook functions (unset by default) are left out.
\<close>

section \<open>Threads\<close>

type_synonym tid = nat

text \<open>The list heads a thread's \<^verbatim>\<open>tlist\<close> node can be linked under.\<close>

datatype head =
    Ready nat        \<comment> \<open>rt_thread_priority_table[i]\<close>
  | SemQ nat         \<comment> \<open>sem->parent.suspend_thread\<close>
  | MutexQ nat
  | EventQ nat
  | MbRecvQ nat      \<comment> \<open>mb->parent.suspend_thread\<close>
  | MbSendQ nat      \<comment> \<open>mb->suspend_sender_thread\<close>
  | MqRecvQ nat
  | MqSendQ nat
  | MpQ nat          \<comment> \<open>mp->suspend_thread\<close>
  | CompletionQ nat  \<comment> \<open>completion->suspended_list\<close>
  | DqPushQ nat      \<comment> \<open>queue->suspended_push_list\<close>
  | DqPopQ nat       \<comment> \<open>queue->suspended_pop_list\<close>
  | Defunct          \<comment> \<open>_rt_thread_defunct\<close>

fun wait_queue :: "head \<Rightarrow> bool" where
  "wait_queue (Ready p) \<longleftrightarrow> False"
| "wait_queue Defunct \<longleftrightarrow> False"
| "wait_queue _ \<longleftrightarrow> True"

record rt_thread =
  th_obj :: bool
  th_system :: bool
  th_tlist :: "head option"
  th_sp :: nat
  th_stack_addr :: nat
  th_stack_size :: nat
  th_stack_guard :: rt_uint8_t
  th_error :: rt_err_t
  th_stat :: rt_uint8_t
  th_current_priority :: nat
  th_init_priority :: nat
  th_number_mask :: rt_uint32_t
  th_taken_object_list :: "nat list"
  th_pending_object :: "nat option"
  th_event_set :: rt_uint32_t
  th_event_info :: rt_uint8_t
  th_init_tick :: rt_uint32_t
  th_remaining_tick :: rt_uint32_t

abbreviation RT_THREAD_PRIORITY_MAX :: nat where "RT_THREAD_PRIORITY_MAX \<equiv> 32"

abbreviation RT_THREAD_INIT :: rt_uint8_t where "RT_THREAD_INIT \<equiv> 0"
abbreviation RT_THREAD_READY :: rt_uint8_t where "RT_THREAD_READY \<equiv> 1"
abbreviation RT_THREAD_SUSPEND :: rt_uint8_t where "RT_THREAD_SUSPEND \<equiv> 2"
abbreviation RT_THREAD_RUNNING :: rt_uint8_t where "RT_THREAD_RUNNING \<equiv> 3"
abbreviation RT_THREAD_CLOSE :: rt_uint8_t where "RT_THREAD_CLOSE \<equiv> 4"

text \<open>
  The status byte: \<open>stat_of\<close> is \<^verbatim>\<open>stat & RT_THREAD_STAT_MASK\<close>, \<open>set_stat k\<close> is
  \<^verbatim>\<open>k | (stat & ~RT_THREAD_STAT_MASK)\<close>; bit 3 is the yield flag, bit 6 the pending-signal flag.
\<close>

definition stat_of :: "rt_uint8_t \<Rightarrow> rt_uint8_t" where
  "stat_of st = st AND 7"

definition set_stat :: "rt_uint8_t \<Rightarrow> rt_uint8_t \<Rightarrow> rt_uint8_t" where
  "set_stat k st = k OR (st AND NOT 7)"

definition yield_flag :: "rt_uint8_t \<Rightarrow> bool" where
  "yield_flag st \<longleftrightarrow> st AND 8 \<noteq> 0"

definition set_yield :: "rt_uint8_t \<Rightarrow> rt_uint8_t" where
  "set_yield st = st OR 8"

definition clear_yield :: "rt_uint8_t \<Rightarrow> rt_uint8_t" where
  "clear_yield st = st AND NOT 8"


section \<open>Timers\<close>

datatype tmid = ThreadTimer tid | UserTimer nat

text \<open>The timeout function of a timer: the kernel's own for thread timers, or a user function.\<close>

datatype timeout_func = Thread_timeout tid | User_timeout nat

text \<open>The list heads of a timer's \<^verbatim>\<open>row[0]\<close>: the system list, or the local list of \<^verbatim>\<open>rt_timer_check\<close>.\<close>

datatype timer_head = Timer_list | Check_list

record rt_timer =
  tm_obj :: bool
  tm_system :: bool
  tm_row :: "timer_head option"
  tm_flag :: rt_uint8_t
  tm_timeout_func :: timeout_func
  tm_init_tick :: rt_tick_t
  tm_timeout_tick :: rt_tick_t

abbreviation RT_TIMER_FLAG_ACTIVATED :: rt_uint8_t where "RT_TIMER_FLAG_ACTIVATED \<equiv> 1"
abbreviation RT_TIMER_FLAG_PERIODIC :: rt_uint8_t where "RT_TIMER_FLAG_PERIODIC \<equiv> 2"


section \<open>IPC objects\<close>

text \<open>The flag byte of an IPC object: \<open>True\<close> for RT_IPC_FLAG_PRIO, \<open>False\<close> for RT_IPC_FLAG_FIFO.\<close>

record rt_semaphore =
  sem_obj :: bool
  sem_system :: bool
  sem_prio :: bool
  sem_value :: nat

record rt_mutex =
  mx_obj :: bool
  mx_system :: bool
  mx_ceiling_priority :: nat
  mx_priority :: nat
  mx_hold :: nat
  mx_owner :: "tid option"
  mx_taken_by :: "tid option"  \<comment> \<open>the thread whose taken_object_list holds taken_list\<close>

record rt_event =
  ev_obj :: bool
  ev_system :: bool
  ev_prio :: bool
  ev_set :: rt_uint32_t

record rt_mailbox =
  mb_obj :: bool
  mb_system :: bool
  mb_prio :: bool
  mb_msg_pool :: "rt_uint32_t list"
  mb_size :: nat
  mb_entry :: nat
  mb_in_offset :: nat
  mb_out_offset :: nat

text \<open>
  A message queue: message blocks are numbered; a block has the link of \<^verbatim>\<open>struct rt_mq_message\<close>
  and the bytes behind it.
\<close>

record rt_messagequeue =
  mq_obj :: bool
  mq_system :: bool
  mq_prio :: bool
  mq_next :: "nat \<Rightarrow> nat option"
  mq_data :: "nat \<Rightarrow> rt_uint8_t list"
  mq_msg_size :: nat
  mq_max_msgs :: nat
  mq_entry :: nat
  mq_head :: "nat option"
  mq_tail :: "nat option"
  mq_free :: "nat option"


section \<open>Memory pools\<close>

text \<open>
  The blocks of a memory pool are numbered; the first word of a block is the address of the next
  free block, NULL, or the address of the pool.
\<close>

datatype mp_word = Mp_null | Mp_block nat | Mp_pool nat

record rt_mempool =
  mp_obj :: bool
  mp_system :: bool
  mp_size :: nat
  mp_block_size :: nat
  mp_block_total_count :: nat
  mp_block_free_count :: nat
  mp_block_list :: "nat option"
  mp_words :: "nat \<Rightarrow> mp_word"


section \<open>IPC objects of the drivers\<close>

text \<open>Completions, data queues, wait queues and work queues of components/drivers/ipc.\<close>

record rt_completion =
  cp_flag :: bool                  \<comment> \<open>RT_COMPLETED\<close>

record rt_data_queue =
  dq_magic :: bool                 \<comment> \<open>magic is DATAQUEUE_MAGIC\<close>
  dq_size :: nat
  dq_lwm :: nat
  dq_get_index :: nat
  dq_put_index :: nat
  dq_is_empty :: bool
  dq_is_full :: bool
  dq_queue :: "(rt_uint32_t \<times> rt_uint32_t) list"  \<comment> \<open>data_ptr and data_size\<close>
  dq_evt_notify :: "nat option"    \<comment> \<open>the number of the notify function\<close>

record rt_wqueue =
  wq_flag :: bool                  \<comment> \<open>RT_WQ_FLAG_WAKEUP\<close>
  wq_waiting_list :: "nat list"

record rt_wqueue_node =
  wn_list :: "nat option"          \<comment> \<open>the queue the node is linked in\<close>
  wn_polling_thread :: tid
  wn_wakeup :: nat                 \<comment> \<open>the number of the wake function\<close>

datatype work_head = Work_list nat | Delayed_list nat

record rt_work =
  wk_list :: "work_head option"
  wk_func :: nat                   \<comment> \<open>the number of the work function\<close>
  wk_pending :: bool               \<comment> \<open>RT_WORK_STATE_PENDING\<close>
  wk_submitting :: bool            \<comment> \<open>RT_WORK_STATE_SUBMITTING\<close>
  wk_workqueue :: "nat option"

record rt_workqueue =
  wkq_work_list :: "nat list"
  wkq_delayed_list :: "nat list"
  wkq_current :: "nat option"
  wkq_sem :: nat
  wkq_thread :: tid

record drv_state =
  dv_completion :: "nat \<Rightarrow> rt_completion"
  dv_dq :: "nat \<Rightarrow> rt_data_queue"
  dv_wqueue :: "nat \<Rightarrow> rt_wqueue"
  dv_wnode :: "nat \<Rightarrow> rt_wqueue_node"
  dv_workq :: "nat \<Rightarrow> rt_workqueue"
  dv_work :: "nat \<Rightarrow> rt_work"


section \<open>The kernel state\<close>

record kstate =
  k_thread :: "tid \<Rightarrow> rt_thread"
  k_lists :: "head \<Rightarrow> tid list"
  k_group :: rt_uint32_t          \<comment> \<open>rt_thread_ready_priority_group\<close>
  k_current :: "tid option"       \<comment> \<open>rt_current_thread\<close>
  k_current_priority :: nat       \<comment> \<open>rt_current_priority\<close>
  k_lock_nest :: int              \<comment> \<open>rt_scheduler_lock_nest\<close>
  k_irq_nest :: nat               \<comment> \<open>rt_interrupt_nest\<close>
  k_tick :: rt_tick_t             \<comment> \<open>rt_tick\<close>
  k_timer :: "tmid \<Rightarrow> rt_timer"
  k_timers :: "timer_head \<Rightarrow> tmid list"
  k_sem :: "nat \<Rightarrow> rt_semaphore"
  k_mutex :: "nat \<Rightarrow> rt_mutex"
  k_event :: "nat \<Rightarrow> rt_event"
  k_mb :: "nat \<Rightarrow> rt_mailbox"
  k_mq :: "nat \<Rightarrow> rt_messagequeue"
  k_mp :: "nat \<Rightarrow> rt_mempool"
  k_drv :: drv_state

definition upd_thread :: "tid \<Rightarrow> (rt_thread \<Rightarrow> rt_thread) \<Rightarrow> kstate \<Rightarrow> kstate" where
  "upd_thread t f s = s\<lparr>k_thread := (k_thread s)(t := f (k_thread s t))\<rparr>"

definition upd_stat :: "(rt_uint8_t \<Rightarrow> rt_uint8_t) \<Rightarrow> tid \<Rightarrow> kstate \<Rightarrow> kstate" where
  "upd_stat f t = upd_thread t (\<lambda>th. th\<lparr>th_stat := f (th_stat th)\<rparr>)"

definition upd_timer :: "tmid \<Rightarrow> (rt_timer \<Rightarrow> rt_timer) \<Rightarrow> kstate \<Rightarrow> kstate" where
  "upd_timer i f s = s\<lparr>k_timer := (k_timer s)(i := f (k_timer s i))\<rparr>"

text \<open>\<^verbatim>\<open>1 << current_priority\<close>, the bit of a priority in the group word.\<close>

definition prio_mask :: "nat \<Rightarrow> rt_uint32_t" where
  "prio_mask p = push_bit p 1"

text \<open>\<^verbatim>\<open>thread->stat\<close> with and without its flags, and its priority.\<close>

abbreviation th_base :: "kstate \<Rightarrow> tid \<Rightarrow> rt_uint8_t" where
  "th_base s t \<equiv> stat_of (th_stat (k_thread s t))"

abbreviation th_prio :: "kstate \<Rightarrow> tid \<Rightarrow> nat" where
  "th_prio s t \<equiv> th_current_priority (k_thread s t)"


section \<open>List operations on thread nodes\<close>

definition tlist_remove :: "tid \<Rightarrow> kstate \<Rightarrow> kstate" where
  "tlist_remove t s =
     (case th_tlist (k_thread s t) of
        None \<Rightarrow> s
      | Some h \<Rightarrow> (upd_thread t (th_tlist_update (\<lambda>_. None)) s)
                    \<lparr>k_lists := (k_lists s)(h := remove1 t (k_lists s h))\<rparr>)"

text \<open>Link the node of t under h; xs is the new member list.\<close>

definition tlist_link :: "tid \<Rightarrow> head \<Rightarrow> tid list \<Rightarrow> kstate \<Rightarrow> kstate option" where
  "tlist_link t h xs s =
     (if th_tlist (k_thread s t) = None
      then Some ((upd_thread t (th_tlist_update (\<lambda>_. Some h)) s)
                    \<lparr>k_lists := (k_lists s)(h := xs)\<rparr>)
      else None)"

definition tlist_insert_first :: "tid \<Rightarrow> head \<Rightarrow> kstate \<Rightarrow> kstate option" where
  "tlist_insert_first t h s = tlist_link t h (t # k_lists s h) s"

definition tlist_insert_last :: "tid \<Rightarrow> head \<Rightarrow> kstate \<Rightarrow> kstate option" where
  "tlist_insert_last t h s = tlist_link t h (k_lists s h @ [t]) s"


section \<open>Facts\<close>

lemma stat_of_simps [simp]:
  "stat_of 0 = 0" "stat_of 1 = 1" "stat_of 2 = 2" "stat_of 3 = 3" "stat_of 4 = 4"
  by (simp_all add: stat_of_def)

lemma stat_of_set_stat [simp]: "stat_of (set_stat k st) = stat_of k"
proof -
  have "(k OR (st AND NOT 7)) AND 7 = k AND 7"
    by (rule bit_word_eqI) (auto simp: bit_simps)
  then show ?thesis by (simp add: stat_of_def set_stat_def)
qed

lemma stat_of_yield [simp]:
  "stat_of (set_yield st) = stat_of st" "stat_of (clear_yield st) = stat_of st"
proof -
  have "(st OR 8) AND 7 = (st AND 7) OR (8 AND 7)" by (rule bit.conj_disj_distrib2)
  moreover have "(st AND NOT 8) AND 7 = st AND (NOT 8 AND 7)" by (rule and.assoc)
  ultimately show "stat_of (set_yield st) = stat_of st" "stat_of (clear_yield st) = stat_of st"
    by (simp_all add: stat_of_def set_yield_def clear_yield_def)
qed

lemma yield_flag_simps [simp]:
  "yield_flag (set_yield st)" "\<not> yield_flag (clear_yield st)"
proof -
  have "(st OR 8) AND 8 = 8" "(st AND NOT 8) AND 8 = 0"
    by (rule bit_word_eqI; auto simp: bit_simps)+
  then show "yield_flag (set_yield st)" "\<not> yield_flag (clear_yield st)"
    by (simp_all add: yield_flag_def set_yield_def clear_yield_def)
qed

lemma yield_flag_set_stat [simp]:
  "yield_flag (set_stat 1 st) = yield_flag st" "yield_flag (set_stat 2 st) = yield_flag st"
  "yield_flag (set_stat 3 st) = yield_flag st"
proof -
  have "(k OR (st AND NOT 7)) AND 8 = (k AND 8) OR (st AND (NOT 7 AND 8))" for k
    by (simp only: bit.conj_disj_distrib2 and.assoc)
  then show "yield_flag (set_stat 1 st) = yield_flag st" "yield_flag (set_stat 2 st) = yield_flag st"
    "yield_flag (set_stat 3 st) = yield_flag st"
    by (simp_all add: yield_flag_def set_stat_def)
qed

lemma bit_prio_mask: "bit (prio_mask p) n \<longleftrightarrow> n = p \<and> p < 32"
  unfolding prio_mask_def by (auto simp only: bit_push_bit_iff bit_1_iff possible_bit_def) auto

lemma upd_thread_simps [simp]:
  "k_thread (upd_thread t f s) = (k_thread s)(t := f (k_thread s t))"
  "k_lists (upd_thread t f s) = k_lists s"
  "k_group (upd_thread t f s) = k_group s"
  "k_current (upd_thread t f s) = k_current s"
  "k_current_priority (upd_thread t f s) = k_current_priority s"
  "k_lock_nest (upd_thread t f s) = k_lock_nest s"
  "k_irq_nest (upd_thread t f s) = k_irq_nest s"
  "k_tick (upd_thread t f s) = k_tick s"
  "k_timer (upd_thread t f s) = k_timer s"
  "k_timers (upd_thread t f s) = k_timers s"
  "k_sem (upd_thread t f s) = k_sem s"
  "k_mutex (upd_thread t f s) = k_mutex s"
  "k_event (upd_thread t f s) = k_event s"
  "k_mb (upd_thread t f s) = k_mb s"
  "k_mq (upd_thread t f s) = k_mq s" "k_mp (upd_thread t f s) = k_mp s" "k_drv (upd_thread t f s) = k_drv s"
  by (simp_all add: upd_thread_def)

lemma upd_stat_simps [simp]:
  "k_thread (upd_stat f t s) = (k_thread s)(t := k_thread s t\<lparr>th_stat := f (th_stat (k_thread s t))\<rparr>)"
  "k_lists (upd_stat f t s) = k_lists s"
  "k_group (upd_stat f t s) = k_group s"
  "k_current (upd_stat f t s) = k_current s"
  "k_current_priority (upd_stat f t s) = k_current_priority s"
  "k_lock_nest (upd_stat f t s) = k_lock_nest s"
  "k_irq_nest (upd_stat f t s) = k_irq_nest s"
  "k_tick (upd_stat f t s) = k_tick s"
  "k_timer (upd_stat f t s) = k_timer s"
  "k_timers (upd_stat f t s) = k_timers s"
  "k_sem (upd_stat f t s) = k_sem s"
  "k_mutex (upd_stat f t s) = k_mutex s"
  "k_event (upd_stat f t s) = k_event s"
  "k_mb (upd_stat f t s) = k_mb s"
  "k_mq (upd_stat f t s) = k_mq s" "k_mp (upd_stat f t s) = k_mp s" "k_drv (upd_stat f t s) = k_drv s"
  by (simp_all add: upd_stat_def)

lemma upd_timer_simps [simp]:
  "k_thread (upd_timer i g s) = k_thread s"
  "k_lists (upd_timer i g s) = k_lists s"
  "k_group (upd_timer i g s) = k_group s"
  "k_current (upd_timer i g s) = k_current s"
  "k_current_priority (upd_timer i g s) = k_current_priority s"
  "k_lock_nest (upd_timer i g s) = k_lock_nest s"
  "k_irq_nest (upd_timer i g s) = k_irq_nest s"
  "k_tick (upd_timer i g s) = k_tick s"
  "k_timer (upd_timer i g s) = (k_timer s)(i := g (k_timer s i))"
  "k_timers (upd_timer i g s) = k_timers s"
  "k_sem (upd_timer i g s) = k_sem s"
  "k_mutex (upd_timer i g s) = k_mutex s"
  "k_event (upd_timer i g s) = k_event s"
  "k_mb (upd_timer i g s) = k_mb s"
  "k_mq (upd_timer i g s) = k_mq s" "k_mp (upd_timer i g s) = k_mp s" "k_drv (upd_timer i g s) = k_drv s"
  by (simp_all add: upd_timer_def)

end
