(* ===== verification/Sched.thy ===== *)
theory Sched
  imports KState
begin

text \<open>
  The scheduler of src/scheduler.c for one processor: the ready queues with their priority
  group word, the selection of the most urgent ready thread, \<^verbatim>\<open>rt_schedule\<close> and the scheduler
  lock.  A context switch is the change of \<^term>\<open>k_current\<close>; whether it is taken at once or
  pended until the interrupt returns makes no difference to the state.  What the thread that is
  switched in does next (the check for pending signals included) is not part of the call.
\<close>

section \<open>Operations\<close>

text \<open>
  \<^verbatim>\<open>_scheduler_stack_check\<close> loops for ever with interrupts disabled when the guard byte or the stack
  pointer is out of place; both warnings are output only.
\<close>

definition scheduler_stack_check :: "rt_thread \<Rightarrow> unit option" where
  "scheduler_stack_check th =
     (if th_stack_guard th \<noteq> 35 \<or> th_sp th \<le> th_stack_addr th
         \<or> th_sp th > th_stack_addr th + th_stack_size th
      then None else Some ())"

definition scheduler_get_highest_priority_thread :: "kstate \<Rightarrow> (tid \<times> nat) option" where
  "scheduler_get_highest_priority_thread s =
     (if rt_ffs (k_group s) = 0 then None
      else let highest_ready_priority = rt_ffs (k_group s) - 1 in
        (case k_lists s (Ready highest_ready_priority) of
           [] \<Rightarrow> None
         | t # _ \<Rightarrow> Some (t, highest_ready_priority)))"

text \<open>
  Initialising the ready queues: the heads become empty lists.  (Nodes that were linked before
  would keep pointing into the old lists; the call is the first of the start-up.)
\<close>

definition rt_system_scheduler_init :: "kstate \<Rightarrow> kstate" where
  "rt_system_scheduler_init s =
     s\<lparr>k_lock_nest := 0,
       k_lists := (\<lambda>h. case h of Ready p \<Rightarrow> (if p < RT_THREAD_PRIORITY_MAX then [] else k_lists s h)
                               | _ \<Rightarrow> k_lists s h),
       k_group := 0\<rparr>"

definition rt_schedule_insert_thread :: "tid \<Rightarrow> kstate \<Rightarrow> kstate option" where
  "rt_schedule_insert_thread t s =
     (if k_current s = Some t
      then Some (upd_stat (set_stat RT_THREAD_RUNNING) t s)
      else do {
        let s1 = upd_stat (set_stat RT_THREAD_READY) t s;
        let th = k_thread s1 t;
        RT_ASSERT (th_current_priority th < RT_THREAD_PRIORITY_MAX);
        s2 \<leftarrow> (if yield_flag (th_stat th)
               then tlist_insert_last t (Ready (th_current_priority th)) s1
               else tlist_insert_first t (Ready (th_current_priority th)) s1);
        Some (s2\<lparr>k_group := k_group s2 OR th_number_mask th\<rparr>)
      })"

definition rt_schedule_remove_thread :: "tid \<Rightarrow> kstate \<Rightarrow> kstate" where
  "rt_schedule_remove_thread t s =
     (let s1 = tlist_remove t s; th = k_thread s1 t in
      if k_lists s1 (Ready (th_current_priority th)) = []
      then s1\<lparr>k_group := k_group s1 AND NOT (th_number_mask th)\<rparr>
      else s1)"

definition rt_system_scheduler_start :: "kstate \<Rightarrow> kstate option" where
  "rt_system_scheduler_start s = do {
     (to_thread, highest_ready_priority) \<leftarrow> scheduler_get_highest_priority_thread s;
     let s1 = s\<lparr>k_current := Some to_thread\<rparr>;
     let s2 = rt_schedule_remove_thread to_thread s1;
     Some (upd_stat (\<lambda>_. RT_THREAD_RUNNING) to_thread s2)
   }"

text \<open>
  The decision of \<^verbatim>\<open>rt_schedule\<close>: the thread to run and whether the current thread goes back to
  the ready queue.
\<close>

definition schedule_choice :: "rt_thread \<Rightarrow> tid \<Rightarrow> tid \<Rightarrow> nat \<Rightarrow> tid \<times> bool" where
  "schedule_choice th cur to_thread highest =
     (if stat_of (th_stat th) = RT_THREAD_RUNNING
      then if th_current_priority th < highest then (cur, False)
           else if th_current_priority th = highest \<and> \<not> yield_flag (th_stat th) then (cur, False)
           else (to_thread, True)
      else (to_thread, False))"

definition rt_schedule :: "kstate \<Rightarrow> kstate option" where
  "rt_schedule s =
     (if k_lock_nest s = 0 \<and> k_group s \<noteq> 0
      then do {
        (to_thread0, highest_ready_priority) \<leftarrow> scheduler_get_highest_priority_thread s;
        cur \<leftarrow> k_current s;
        let (to_thread, need_insert_from_thread) =
          schedule_choice (k_thread s cur) cur to_thread0 highest_ready_priority;
        let s1 = (if th_base s cur = RT_THREAD_RUNNING
                  then upd_stat clear_yield cur s else s);
        if to_thread \<noteq> cur then do {
          let s2 = s1\<lparr>k_current_priority := highest_ready_priority mod 256,
                      k_current := Some to_thread\<rparr>;
          s3 \<leftarrow> (if need_insert_from_thread then rt_schedule_insert_thread cur s2 else Some s2);
          let s4 = rt_schedule_remove_thread to_thread s3;
          let s5 = upd_stat (set_stat RT_THREAD_RUNNING) to_thread s4;
          scheduler_stack_check (k_thread s5 to_thread);
          Some s5
        }
        else Some (upd_stat (set_stat RT_THREAD_RUNNING) cur
                     (rt_schedule_remove_thread cur s1))
      }
      else Some s)"

text \<open>The lock counter is an rt_int16_t; the increment wraps at 32768 nested calls.\<close>

definition int16 :: "int \<Rightarrow> int" where
  "int16 i = (i + 32768) mod 65536 - 32768"

definition rt_enter_critical :: "kstate \<Rightarrow> kstate" where
  "rt_enter_critical s = s\<lparr>k_lock_nest := int16 (k_lock_nest s + 1)\<rparr>"

definition rt_exit_critical :: "kstate \<Rightarrow> kstate option" where
  "rt_exit_critical s =
     (let s1 = s\<lparr>k_lock_nest := int16 (k_lock_nest s - 1)\<rparr> in
      if k_lock_nest s1 \<le> 0
      then (let s2 = s1\<lparr>k_lock_nest := 0\<rparr> in
            if k_current s2 \<noteq> None then rt_schedule s2 else Some s2)
      else Some s1)"

definition rt_critical_level :: "kstate \<Rightarrow> int" where
  "rt_critical_level s = k_lock_nest s mod 65536"

text \<open>\<^verbatim>\<open>RT_DEBUG_SCHEDULER_AVAILABLE(need_check)\<close> and \<^verbatim>\<open>RT_DEBUG_IN_THREAD_CONTEXT\<close> of rtdebug.h.\<close>

definition debug_in_thread_context :: "kstate \<Rightarrow> unit option" where
  "debug_in_thread_context s = do {
     RT_ASSERT (k_current s \<noteq> None);
     RT_ASSERT (k_irq_nest s = 0)
   }"

definition debug_scheduler_available :: "bool \<Rightarrow> kstate \<Rightarrow> unit option" where
  "debug_scheduler_available need_check s =
     (if need_check then do {
        RT_ASSERT (rt_critical_level s = 0);
        debug_in_thread_context s
      } else Some ())"

text \<open>\<^verbatim>\<open>rt_interrupt_enter\<close> and \<^verbatim>\<open>rt_interrupt_leave\<close> of src/irq.c; the counter is an rt_uint8_t.\<close>

definition rt_interrupt_enter :: "kstate \<Rightarrow> kstate" where
  "rt_interrupt_enter s = s\<lparr>k_irq_nest := (k_irq_nest s + 1) mod 256\<rparr>"

definition rt_interrupt_leave :: "kstate \<Rightarrow> kstate" where
  "rt_interrupt_leave s = s\<lparr>k_irq_nest := (k_irq_nest s + 255) mod 256\<rparr>"

definition rt_interrupt_get_nest :: "kstate \<Rightarrow> nat" where
  "rt_interrupt_get_nest s = k_irq_nest s"


section \<open>The scheduler invariant\<close>

text \<open>
  One thread control block: its status agrees with the list it is linked under, its priority is
  a valid queue index, and the mask of a started thread is the bit of its priority.
\<close>

definition thread_ok :: "rt_thread \<Rightarrow> bool" where
  "thread_ok th \<longleftrightarrow>
     th_current_priority th < RT_THREAD_PRIORITY_MAX
     \<and> (case th_tlist th of
          None \<Rightarrow> stat_of (th_stat th) \<noteq> RT_THREAD_READY
        | Some h \<Rightarrow>
            wait_queue h \<and> stat_of (th_stat th) = RT_THREAD_SUSPEND
            \<or> h = Defunct \<and> stat_of (th_stat th) = RT_THREAD_CLOSE
            \<or> h = Ready (th_current_priority th) \<and> stat_of (th_stat th) = RT_THREAD_READY)
     \<and> (stat_of (th_stat th) \<in> {RT_THREAD_READY, RT_THREAD_SUSPEND, RT_THREAD_RUNNING}
          \<longrightarrow> th_number_mask th = prio_mask (th_current_priority th))"

definition links_ok :: "kstate \<Rightarrow> bool" where
  "links_ok s \<longleftrightarrow>
     (\<forall>h. distinct (k_lists s h))
     \<and> (\<forall>h t. t \<in> set (k_lists s h) \<longleftrightarrow> th_tlist (k_thread s t) = Some h)"

definition group_ok :: "kstate \<Rightarrow> bool" where
  "group_ok s \<longleftrightarrow> (\<forall>p. bit (k_group s) p \<longleftrightarrow> k_lists s (Ready p) \<noteq> [])"

definition run_ok :: "kstate \<Rightarrow> bool" where
  "run_ok s \<longleftrightarrow>
     (\<forall>t. th_base s t = RT_THREAD_RUNNING \<longrightarrow> k_current s = Some t)
     \<and> (\<forall>t. k_current s = Some t \<longrightarrow>
           th_base s t \<in> {RT_THREAD_RUNNING, RT_THREAD_SUSPEND, RT_THREAD_CLOSE})"

definition queue_inv :: "kstate \<Rightarrow> bool" where
  "queue_inv s \<longleftrightarrow> (\<forall>t. thread_ok (k_thread s t)) \<and> links_ok s \<and> group_ok s"

definition sched_inv :: "kstate \<Rightarrow> bool" where
  "sched_inv s \<longleftrightarrow> queue_inv s \<and> run_ok s"

lemma sched_invD:
  assumes "sched_inv s"
  shows "queue_inv s" "run_ok s"
  using assms by (auto simp: sched_inv_def)

lemma queue_invD:
  assumes "queue_inv s"
  shows "thread_ok (k_thread s t)" "links_ok s" "group_ok s"
  using assms by (auto simp: queue_inv_def)

lemma queue_inv_distinct: "queue_inv s \<Longrightarrow> distinct (k_lists s h)"
  by (simp add: queue_inv_def links_ok_def)

lemma queue_inv_member:
  "queue_inv s \<Longrightarrow> t \<in> set (k_lists s h) \<longleftrightarrow> th_tlist (k_thread s t) = Some h"
  by (simp add: queue_inv_def links_ok_def)

lemma queue_inv_group: "queue_inv s \<Longrightarrow> bit (k_group s) p \<longleftrightarrow> k_lists s (Ready p) \<noteq> []"
  by (simp add: queue_inv_def group_ok_def)

lemma sched_inv_current:
  "sched_inv s \<Longrightarrow> k_current s = Some t \<Longrightarrow>
   th_base s t \<in> {RT_THREAD_RUNNING, RT_THREAD_SUSPEND, RT_THREAD_CLOSE}"
  by (simp add: sched_inv_def run_ok_def)

lemma sched_inv_running:
  "sched_inv s \<Longrightarrow> th_base s t = RT_THREAD_RUNNING \<Longrightarrow> k_current s = Some t"
  by (simp add: sched_inv_def run_ok_def)

lemma thread_ok_prio: "thread_ok th \<Longrightarrow> th_current_priority th < RT_THREAD_PRIORITY_MAX"
  by (simp add: thread_ok_def)

lemma thread_ok_cong:
  assumes "th_current_priority a = th_current_priority b" "th_tlist a = th_tlist b"
    "th_number_mask a = th_number_mask b" "stat_of (th_stat a) = stat_of (th_stat b)"
  shows "thread_ok a = thread_ok b"
  by (simp only: thread_ok_def assms)

text \<open>A thread is ready exactly when it is linked under the queue of its priority.\<close>

lemma thread_ok_ready:
  "thread_ok th \<Longrightarrow> stat_of (th_stat th) = RT_THREAD_READY \<longleftrightarrow>
     th_tlist th = Some (Ready (th_current_priority th))"
  by (auto simp: thread_ok_def split: option.splits)

lemma thread_ok_Ready:
  "thread_ok th \<Longrightarrow> th_tlist th = Some (Ready p) \<Longrightarrow> p = th_current_priority th"
  by (auto simp: thread_ok_def)

lemma thread_ok_running:
  "thread_ok th \<Longrightarrow> stat_of (th_stat th) = RT_THREAD_RUNNING \<Longrightarrow> th_tlist th = None"
  by (cases "th_tlist th") (auto simp: thread_ok_def)

lemma thread_ok_waiting:
  "thread_ok th \<Longrightarrow> th_tlist th = Some h \<Longrightarrow> wait_queue h \<Longrightarrow> stat_of (th_stat th) = RT_THREAD_SUSPEND"
  by (auto simp: thread_ok_def)

lemma thread_ok_mask:
  assumes "thread_ok th"
    "stat_of (th_stat th) \<in> {RT_THREAD_READY, RT_THREAD_SUSPEND, RT_THREAD_RUNNING}"
  shows "th_number_mask th = prio_mask (th_current_priority th)"
  using assms unfolding thread_ok_def by blast

lemma ready_queue_member:
  assumes "queue_inv s" "t \<in> set (k_lists s (Ready p))"
  shows "th_base s t = RT_THREAD_READY" "th_prio s t = p"
  using assms queue_invD(1) [OF assms(1), of t] thread_ok_Ready [of "k_thread s t" p]
    thread_ok_ready [of "k_thread s t"] by (auto simp: queue_inv_member)

lemma ready_queued: "queue_inv s \<Longrightarrow> th_base s t = RT_THREAD_READY \<Longrightarrow>
   t \<in> set (k_lists s (Ready (th_prio s t)))"
  using thread_ok_ready [OF queue_invD(1), of s t] by (simp add: queue_inv_member)

text \<open>The invariants read four components of the state only.\<close>

lemma queue_inv_cong:
  assumes "k_thread s' = k_thread s" "k_lists s' = k_lists s" "k_group s' = k_group s"
  shows "queue_inv s' = queue_inv s"
  using assms by (simp add: queue_inv_def links_ok_def group_ok_def)

lemma sched_inv_cong:
  assumes "k_thread s' = k_thread s" "k_lists s' = k_lists s" "k_group s' = k_group s"
    "k_current s' = k_current s"
  shows "sched_inv s' = sched_inv s"
  using assms by (simp add: sched_inv_def queue_inv_def links_ok_def group_ok_def run_ok_def)

text \<open>A step that changes one thread, moving it between at most two lists.\<close>

lemma queue_inv_update:
  assumes inv: "queue_inv s" and th: "k_thread s' = (k_thread s)(t := th')" and ok: "thread_ok th'"
    and dist: "\<And>h. distinct (k_lists s' h)"
    and lists: "\<And>h. set (k_lists s' h)
        = set (k_lists s h) - {t} \<union> (if th_tlist th' = Some h then {t} else {})"
    and group: "\<And>p. bit (k_group s') p \<longleftrightarrow> k_lists s' (Ready p) \<noteq> []"
  shows "queue_inv s'"
  using queue_inv_member [OF inv] assms
  by (auto simp: queue_inv_def links_ok_def group_ok_def)

lemma tlist_remove_simps [simp]:
  "k_thread (tlist_remove t s) = (k_thread s)(t := k_thread s t\<lparr>th_tlist := None\<rparr>)"
  "k_group (tlist_remove t s) = k_group s" "k_current (tlist_remove t s) = k_current s"
  "k_current_priority (tlist_remove t s) = k_current_priority s"
  "k_lock_nest (tlist_remove t s) = k_lock_nest s" "k_irq_nest (tlist_remove t s) = k_irq_nest s"
  "k_tick (tlist_remove t s) = k_tick s" "k_timer (tlist_remove t s) = k_timer s"
  "k_timers (tlist_remove t s) = k_timers s"
  "k_sem (tlist_remove t s) = k_sem s" "k_mutex (tlist_remove t s) = k_mutex s"
  "k_event (tlist_remove t s) = k_event s" "k_mb (tlist_remove t s) = k_mb s"
  "k_mq (tlist_remove t s) = k_mq s" "k_mp (tlist_remove t s) = k_mp s" "k_drv (tlist_remove t s) = k_drv s"
  by (auto simp: tlist_remove_def upd_thread_def fun_eq_iff split: option.splits)

text \<open>On linked states, removal takes the thread out of every list.\<close>

lemma tlist_remove_lists:
  assumes "queue_inv s"
  shows "k_lists (tlist_remove t s) h = remove1 t (k_lists s h)"
  using queue_inv_member [OF assms, of t] assms
  by (auto simp: tlist_remove_def remove1_idem split: option.splits)

text \<open>The ready queues after a thread left them.\<close>

lemma remove_thread_eq:
  assumes "queue_inv s"
    "th_base s t \<in> {RT_THREAD_READY, RT_THREAD_SUSPEND, RT_THREAD_RUNNING}"
  shows "bit (k_group (rt_schedule_remove_thread t s)) p
          \<longleftrightarrow> remove1 t (k_lists s (Ready p)) \<noteq> []"
    and "k_lists (rt_schedule_remove_thread t s) h = remove1 t (k_lists s h)"
    and "k_thread (rt_schedule_remove_thread t s)
          = (k_thread s)(t := k_thread s t\<lparr>th_tlist := None\<rparr>)"
    and "k_current (rt_schedule_remove_thread t s) = k_current s"
proof -
  let ?p = "th_prio s t"
  have mask: "th_number_mask (k_thread s t) = prio_mask ?p" and "?p < 32"
    using thread_ok_mask [OF queue_invD(1)] thread_ok_prio [OF queue_invD(1)] assms by auto
  have other: "remove1 t (k_lists s (Ready q)) = k_lists s (Ready q)" if "q \<noteq> ?p" for q
    using ready_queue_member(2) [OF assms(1), of t q] that by (intro remove1_idem) auto
  show "bit (k_group (rt_schedule_remove_thread t s)) p
      \<longleftrightarrow> remove1 t (k_lists s (Ready p)) \<noteq> []"
    using queue_inv_group [OF assms(1), of p] bit_imp_le_length [of "k_group s" p] mask \<open>?p < 32\<close> other [of p]
    by (cases "p = ?p")
      (auto simp: rt_schedule_remove_thread_def Let_def tlist_remove_lists [OF assms(1)]
        bit_and_iff bit_not_iff bit_prio_mask)
  show "k_lists (rt_schedule_remove_thread t s) h = remove1 t (k_lists s h)"
    "k_thread (rt_schedule_remove_thread t s) = (k_thread s)(t := k_thread s t\<lparr>th_tlist := None\<rparr>)"
    "k_current (rt_schedule_remove_thread t s) = k_current s"
    by (simp_all add: rt_schedule_remove_thread_def Let_def tlist_remove_lists [OF assms(1)])
qed

text \<open>The state after a thread that is linked nowhere joined its ready queue.\<close>

definition inserted :: "tid \<Rightarrow> kstate \<Rightarrow> kstate" where
  "inserted t s =
     (let th = k_thread s t; p = th_current_priority th; q = k_lists s (Ready p) in
      s\<lparr>k_thread := (k_thread s)(t := th\<lparr>th_stat := set_stat RT_THREAD_READY (th_stat th),
                                       th_tlist := Some (Ready p)\<rparr>),
        k_lists := (k_lists s)(Ready p := if yield_flag (set_stat RT_THREAD_READY (th_stat th))
                                          then q @ [t] else t # q),
        k_group := k_group s OR th_number_mask th\<rparr>)"

lemma insert_thread_eq:
  assumes "th_tlist (k_thread s t) = None" "k_current s \<noteq> Some t"
    "th_prio s t < RT_THREAD_PRIORITY_MAX"
  shows "rt_schedule_insert_thread t s = Some (inserted t s)"
  using assms
  by (simp add: rt_schedule_insert_thread_def inserted_def Let_def tlist_insert_first_def
      tlist_insert_last_def tlist_link_def upd_thread_def)

lemma inserted_simps [simp]:
  "k_current (inserted t s) = k_current s" "k_current_priority (inserted t s) = k_current_priority s"
  "k_lock_nest (inserted t s) = k_lock_nest s" "k_irq_nest (inserted t s) = k_irq_nest s"
  "k_tick (inserted t s) = k_tick s" "k_timer (inserted t s) = k_timer s"
  "k_timers (inserted t s) = k_timers s"
  "k_sem (inserted t s) = k_sem s" "k_mutex (inserted t s) = k_mutex s"
  "k_event (inserted t s) = k_event s" "k_mb (inserted t s) = k_mb s" "k_mq (inserted t s) = k_mq s" "k_mp (inserted t s) = k_mp s" "k_drv (inserted t s) = k_drv s"
  "k_thread (inserted t s) = (k_thread s)(t := k_thread s t
     \<lparr>th_stat := set_stat RT_THREAD_READY (th_stat (k_thread s t)),
      th_tlist := Some (Ready (th_prio s t))\<rparr>)"
  by (simp_all add: inserted_def Let_def)

lemma inserted_lists:
  "k_lists (inserted t s) h =
     (if h = Ready (th_prio s t)
      then if yield_flag (set_stat RT_THREAD_READY (th_stat (k_thread s t)))
           then k_lists s h @ [t] else t # k_lists s h
      else k_lists s h)"
  by (simp add: inserted_def Let_def)

lemma inserted_queue_inv:
  assumes "queue_inv s" "th_tlist (k_thread s t) = None"
    "th_base s t \<in> {RT_THREAD_SUSPEND, RT_THREAD_RUNNING}"
  shows "queue_inv (inserted t s)"
proof -
  let ?p = "th_prio s t"
  have mask: "th_number_mask (k_thread s t) = prio_mask ?p" and p: "?p < 32"
    using thread_ok_mask [OF queue_invD(1)] thread_ok_prio [OF queue_invD(1)] assms by auto
  have out: "t \<notin> set (k_lists s h)" for h
    using queue_inv_member [OF assms(1), of t h] assms(2) by simp
  have g: "k_group (inserted t s) = k_group s OR prio_mask ?p"
    using mask by (simp add: inserted_def Let_def)
  show ?thesis
  proof (rule queue_inv_update [OF assms(1)])
    show "thread_ok (k_thread s t\<lparr>th_stat := set_stat RT_THREAD_READY (th_stat (k_thread s t)),
        th_tlist := Some (Ready ?p)\<rparr>)"
      using mask p by (simp add: thread_ok_def)
    show "distinct (k_lists (inserted t s) h)" for h
      using queue_inv_distinct [OF assms(1), of h] out by (auto simp: inserted_lists)
    show "set (k_lists (inserted t s) h) = set (k_lists s h) - {t}
        \<union> (if th_tlist (k_thread s t\<lparr>th_stat := set_stat RT_THREAD_READY (th_stat (k_thread s t)),
            th_tlist := Some (Ready ?p)\<rparr>) = Some h then {t} else {})" for h
      using out by (auto simp: inserted_lists)
    show "bit (k_group (inserted t s)) q \<longleftrightarrow> k_lists (inserted t s) (Ready q) \<noteq> []" for q
      using queue_inv_group [OF assms(1), of q] p
      by (auto simp: g inserted_lists bit_or_iff bit_prio_mask)
  qed simp
qed

text \<open>A thread taken out of the queues, with its new status.\<close>

lemma removed_queue_inv:
  assumes "queue_inv s"
    "th_base s t \<in> {RT_THREAD_READY, RT_THREAD_SUSPEND, RT_THREAD_RUNNING}"
    "stat_of (f (th_stat (k_thread s t))) \<notin> {RT_THREAD_READY}"
  shows "queue_inv (upd_stat f t (rt_schedule_remove_thread t s))"
proof -
  have ok: "thread_ok (k_thread s t)" by (rule queue_invD(1) [OF assms(1)])
  show ?thesis
  proof (rule queue_inv_update [OF assms(1)])
    show "k_thread (upd_stat f t (rt_schedule_remove_thread t s))
        = (k_thread s)(t := k_thread s t\<lparr>th_tlist := None, th_stat := f (th_stat (k_thread s t))\<rparr>)"
      by (simp add: remove_thread_eq(3) [OF assms(1,2)])
    show "thread_ok (k_thread s t\<lparr>th_tlist := None, th_stat := f (th_stat (k_thread s t))\<rparr>)"
      using thread_ok_mask [OF ok assms(2)] thread_ok_prio [OF ok] assms(3)
      by (simp add: thread_ok_def)
  qed (simp_all add: remove_thread_eq [OF assms(1,2)] queue_inv_distinct [OF assms(1)]
      distinct_remove1)
qed

lemma highest_ok:
  assumes "queue_inv s" "k_group s \<noteq> 0"
  obtains t ts p where "scheduler_get_highest_priority_thread s = Some (t, p)"
    "k_lists s (Ready p) = t # ts" "p < RT_THREAD_PRIORITY_MAX"
    "th_base s t = RT_THREAD_READY" "th_prio s t = p"
    "\<And>u. th_base s u = RT_THREAD_READY \<Longrightarrow> p \<le> th_prio s u"
proof -
  let ?p = "rt_ffs (k_group s) - 1"
  have ne: "rt_ffs (k_group s) \<noteq> 0" using assms(2) by simp
  obtain t ts where q: "k_lists s (Ready ?p) = t # ts"
    using rt_ffs_lowest(1) [OF assms(2)] queue_inv_group [OF assms(1), of ?p]
    by (cases "k_lists s (Ready ?p)") auto
  have t: "th_base s t = RT_THREAD_READY" "th_prio s t = ?p"
    using ready_queue_member [OF assms(1), of t ?p] q by auto
  have low: "?p \<le> th_prio s u" if "th_base s u = RT_THREAD_READY" for u
    using rt_ffs_lowest(4) [OF assms(2), of "th_prio s u"] ready_queued [OF assms(1) that]
      queue_inv_group [OF assms(1), of "th_prio s u"] by (metis empty_iff empty_set leI)
  show thesis
    using ne q t low thread_ok_prio [OF queue_invD(1) [OF assms(1)], of t]
    by (intro that [of t ?p ts]) (auto simp: scheduler_get_highest_priority_thread_def Let_def)
qed

section \<open>What rt_schedule does\<close>

text \<open>Every started thread has an intact stack; otherwise switching to it hangs on purpose.\<close>

definition stacks_ok :: "kstate \<Rightarrow> bool" where
  "stacks_ok s \<longleftrightarrow>
     (\<forall>t. th_base s t \<in> {RT_THREAD_READY, RT_THREAD_SUSPEND, RT_THREAD_RUNNING}
        \<longrightarrow> scheduler_stack_check (k_thread s t) = Some ())"

text \<open>
  What scheduling leaves alone: everything but the ready queues, the current thread and the
  status and list of ready and running threads.
\<close>

definition th_core :: "rt_thread \<Rightarrow> rt_thread" where
  "th_core th = th\<lparr>th_stat := 0, th_tlist := None\<rparr>"

definition objs_frame :: "kstate \<Rightarrow> kstate \<Rightarrow> bool" where
  "objs_frame s s' \<longleftrightarrow>
     k_sem s' = k_sem s \<and> k_mutex s' = k_mutex s \<and> k_event s' = k_event s
     \<and> k_mb s' = k_mb s \<and> k_mq s' = k_mq s \<and> k_mp s' = k_mp s \<and> k_drv s' = k_drv s"

definition sched_frame :: "kstate \<Rightarrow> kstate \<Rightarrow> bool" where
  "sched_frame s s' \<longleftrightarrow>
     objs_frame s s' \<and> k_tick s' = k_tick s \<and> k_timer s' = k_timer s \<and> k_timers s' = k_timers s
     \<and> k_lock_nest s' = k_lock_nest s \<and> k_irq_nest s' = k_irq_nest s
     \<and> (\<forall>t. th_core (k_thread s' t) = th_core (k_thread s t))
     \<and> (\<forall>t. th_base s t \<notin> {RT_THREAD_READY, RT_THREAD_RUNNING} \<longrightarrow> k_thread s' t = k_thread s t)
     \<and> (\<forall>t. th_base s t \<in> {RT_THREAD_READY, RT_THREAD_RUNNING} \<longrightarrow>
           th_base s' t \<in> {RT_THREAD_READY, RT_THREAD_RUNNING})
     \<and> (\<forall>h. (\<forall>p. h \<noteq> Ready p) \<longrightarrow> k_lists s' h = k_lists s h)"

lemma th_core_simps:
  "th_core a = th_core b \<Longrightarrow> th_current_priority a = th_current_priority b
     \<and> th_number_mask a = th_number_mask b \<and> th_error a = th_error b \<and> th_obj a = th_obj b
     \<and> th_taken_object_list a = th_taken_object_list b \<and> th_pending_object a = th_pending_object b
     \<and> th_event_set a = th_event_set b \<and> th_event_info a = th_event_info b
     \<and> th_init_priority a = th_init_priority b \<and> th_system a = th_system b
     \<and> th_stack_addr a = th_stack_addr b \<and> th_stack_size a = th_stack_size b
     \<and> th_sp a = th_sp b \<and> th_stack_guard a = th_stack_guard b
     \<and> th_init_tick a = th_init_tick b \<and> th_remaining_tick a = th_remaining_tick b"
  by (cases a; cases b) (simp add: th_core_def)

lemma schedule_idle:
  "k_lock_nest s \<noteq> 0 \<or> k_group s = 0 \<Longrightarrow> rt_schedule s = Some s"
  by (auto simp: rt_schedule_def)

text \<open>The current thread keeps the processor.\<close>

definition kept :: "tid \<Rightarrow> kstate \<Rightarrow> kstate" where
  "kept c s = upd_stat (set_stat RT_THREAD_RUNNING) c
                (rt_schedule_remove_thread c (upd_stat clear_yield c s))"

definition keeps_cpu :: "kstate \<Rightarrow> tid \<Rightarrow> nat \<Rightarrow> bool" where
  "keeps_cpu s c p \<longleftrightarrow> th_base s c = RT_THREAD_RUNNING
     \<and> (th_prio s c < p \<or> th_prio s c = p \<and> \<not> yield_flag (th_stat (k_thread s c)))"

lemma schedule_keep_eq:
  assumes "k_lock_nest s = 0" "k_group s \<noteq> 0" "k_current s = Some c"
    "scheduler_get_highest_priority_thread s = Some (t, p)" "keeps_cpu s c p"
  shows "rt_schedule s = Some (kept c s)"
  using assms by (auto simp: rt_schedule_def schedule_choice_def kept_def keeps_cpu_def)

text \<open>The current thread, still running or not, is replaced by t.\<close>

definition switched :: "tid \<Rightarrow> tid \<Rightarrow> nat \<Rightarrow> kstate \<Rightarrow> kstate" where
  "switched c t p s =
     (let run = (th_base s c = RT_THREAD_RUNNING);
          s2 = (if run then upd_stat clear_yield c s else s)
                 \<lparr>k_current_priority := p mod 256, k_current := Some t\<rparr>;
          s3 = (if run then inserted c s2 else s2)
      in upd_stat (set_stat RT_THREAD_RUNNING) t (rt_schedule_remove_thread t s3))"

lemma yield_queue_inv:
  assumes "queue_inv s"
  shows "queue_inv (upd_stat clear_yield c s)"
proof -
  have "thread_ok (k_thread s c\<lparr>th_stat := clear_yield (th_stat (k_thread s c))\<rparr>)"
    using queue_invD(1) [OF assms, of c] by (rule iffD1 [OF thread_ok_cong, rotated -1]) simp_all
  then show ?thesis
    using assms by (auto simp: queue_inv_def links_ok_def group_ok_def)
qed

lemma schedule_switch_eq:
  assumes inv: "sched_inv s" and "k_lock_nest s = 0" "k_group s \<noteq> 0" "k_current s = Some c"
    and top: "scheduler_get_highest_priority_thread s = Some (t, p)" "th_base s t = RT_THREAD_READY"
    and "\<not> keeps_cpu s c p" and stack: "scheduler_stack_check (k_thread s t) = Some ()"
  shows "rt_schedule s = Some (switched c t p s)"
proof -
  have ct: "t \<noteq> c" using sched_inv_current [OF inv assms(4)] top(2) by auto
  let ?s2 = "(upd_stat clear_yield c s)\<lparr>k_current_priority := p mod 256, k_current := Some t\<rparr>"
  have ins: "rt_schedule_insert_thread c ?s2 = Some (inserted c ?s2)"
    if "th_base s c = RT_THREAD_RUNNING"
    using thread_ok_running [OF queue_invD(1) [OF sched_invD(1) [OF inv]] that] ct
      thread_ok_prio [OF queue_invD(1) [OF sched_invD(1) [OF inv], of c]]
    by (intro insert_thread_eq) auto
  have chk: "scheduler_stack_check (k_thread s t\<lparr>th_tlist := None, th_stat := x\<rparr>) = Some ()" for x
    using stack by (simp add: scheduler_stack_check_def split: if_splits)
  show ?thesis
    using assms(2-4) top(1) assms(7) ct ins chk
    by (simp add: rt_schedule_def schedule_choice_def switched_def keeps_cpu_def Let_def
        rt_schedule_remove_thread_def split: if_split) blast?
qed

lemma kept_ok:
  assumes inv: "sched_inv s" and run: "th_base s c = RT_THREAD_RUNNING"
  shows "sched_inv (kept c s)" and "sched_frame s (kept c s)"
    and "k_current (kept c s) = k_current s" and "k_lists (kept c s) = k_lists s"
    and "th_base (kept c s) t = th_base s t"
proof -
  let ?y = "upd_stat clear_yield c s"
  have q: "queue_inv s" by (rule sched_invD(1) [OF inv])
  then have qy: "queue_inv ?y" by (rule yield_queue_inv)
  have b: "th_base ?y c \<in> {RT_THREAD_READY, RT_THREAD_SUSPEND, RT_THREAD_RUNNING}"
    using run by simp
  note eqs = remove_thread_eq [OF qy b]
  have tl: "th_tlist (k_thread s c) = None"
    using thread_ok_running [OF queue_invD(1) [OF q] run] .
  have lists: "k_lists (kept c s) h = k_lists s h" for h
    using queue_inv_member [OF q, of c h] tl by (simp add: kept_def eqs(2) remove1_idem)
  then show "k_lists (kept c s) = k_lists s" by (rule ext)
  show cur: "k_current (kept c s) = k_current s" by (simp add: kept_def eqs(4))
  show base: "th_base (kept c s) t = th_base s t" for t
    using run by (simp add: kept_def eqs(3))
  have "queue_inv (kept c s)"
    unfolding kept_def by (rule removed_queue_inv [OF qy b]) simp
  moreover have "run_ok (kept c s)"
    using sched_invD(2) [OF inv] by (simp add: run_ok_def base cur)
  ultimately show "sched_inv (kept c s)" by (simp add: sched_inv_def)
  show "sched_frame s (kept c s)"
    unfolding sched_frame_def
    using run
    by (auto simp: base lists)
       (auto simp: kept_def eqs(3) th_core_def objs_frame_def rt_schedule_remove_thread_def Let_def)
qed

lemma remove_thread_frame [simp]:
  "k_current_priority (rt_schedule_remove_thread t s) = k_current_priority s"
  "k_lock_nest (rt_schedule_remove_thread t s) = k_lock_nest s"
  "k_irq_nest (rt_schedule_remove_thread t s) = k_irq_nest s"
  "k_tick (rt_schedule_remove_thread t s) = k_tick s"
  "k_timer (rt_schedule_remove_thread t s) = k_timer s"
  "k_timers (rt_schedule_remove_thread t s) = k_timers s"
  "k_sem (rt_schedule_remove_thread t s) = k_sem s"
  "k_mutex (rt_schedule_remove_thread t s) = k_mutex s"
  "k_event (rt_schedule_remove_thread t s) = k_event s"
  "k_mb (rt_schedule_remove_thread t s) = k_mb s"
  "k_mq (rt_schedule_remove_thread t s) = k_mq s" "k_mp (rt_schedule_remove_thread t s) = k_mp s" "k_drv (rt_schedule_remove_thread t s) = k_drv s"
  "k_thread (rt_schedule_remove_thread t s)
     = (k_thread s)(t := k_thread s t\<lparr>th_tlist := None\<rparr>)"
  by (simp_all add: rt_schedule_remove_thread_def Let_def)

lemma switched_ok:
  assumes inv: "sched_inv s" and cur: "k_current s = Some c"
    and t: "th_base s t = RT_THREAD_READY"
  shows "sched_inv (switched c t p s)" and "sched_frame s (switched c t p s)"
    and "k_current (switched c t p s) = Some t"
    and "th_base (switched c t p s) u =
      (if u = t then RT_THREAD_RUNNING
       else if u = c \<and> th_base s c = RT_THREAD_RUNNING then RT_THREAD_READY else th_base s u)"
    and "k_lists (switched c t p s) (Ready r) =
      (if th_base s c = RT_THREAD_RUNNING \<and> r = th_prio s c
       then remove1 t (if yield_flag (set_stat RT_THREAD_READY (clear_yield (th_stat (k_thread s c))))
                       then k_lists s (Ready r) @ [c] else c # k_lists s (Ready r))
       else remove1 t (k_lists s (Ready r)))"
proof -
  let ?run = "th_base s c = RT_THREAD_RUNNING"
  let ?s2 = "(if ?run then upd_stat clear_yield c s else s)
      \<lparr>k_current_priority := p mod 256, k_current := Some t\<rparr>"
  let ?s3 = "if ?run then inserted c ?s2 else ?s2"
  let ?s' = "switched c t p s"
  have eq: "?s' = upd_stat (set_stat RT_THREAD_RUNNING) t (rt_schedule_remove_thread t ?s3)"
    by (simp only: switched_def Let_def)
  have q: "queue_inv s" by (rule sched_invD(1) [OF inv])
  have ct: "t \<noteq> c" using sched_inv_current [OF inv cur] t by auto
  have tl: "th_tlist (k_thread s c) = None" if ?run
    using thread_ok_running [OF queue_invD(1) [OF q] that] .
  have q2: "queue_inv ?s2"
    using q yield_queue_inv [OF q, of c] queue_inv_cong [of ?s2] by (auto split: if_splits)
  have q3: "queue_inv ?s3"
    using q2 inserted_queue_inv [of ?s2 c] tl by auto
  have b3: "th_base ?s3 t \<in> {RT_THREAD_READY, RT_THREAD_SUSPEND, RT_THREAD_RUNNING}"
    using t ct by simp
  note eqs = remove_thread_eq [OF q3 b3]
  show k: "k_current ?s' = Some t" by (simp add: eq eqs(4) split: if_split)
  show base: "th_base ?s' u = (if u = t then RT_THREAD_RUNNING
       else if u = c \<and> ?run then RT_THREAD_READY else th_base s u)" for u
    using ct by (simp add: eq)
  show "k_lists ?s' (Ready r) = (if ?run \<and> r = th_prio s c
       then remove1 t (if yield_flag (set_stat RT_THREAD_READY (clear_yield (th_stat (k_thread s c))))
                       then k_lists s (Ready r) @ [c] else c # k_lists s (Ready r))
       else remove1 t (k_lists s (Ready r)))" for r
    unfolding eq by (simp add: eqs(2) inserted_lists)
  have "queue_inv ?s'"
    unfolding eq by (rule removed_queue_inv [OF q3 b3]) simp
  moreover have "run_ok ?s'"
    using sched_inv_running [OF inv] cur by (auto simp: run_ok_def base k)
  ultimately show "sched_inv ?s'" by (simp add: sched_inv_def)
  have wq: "k_lists ?s' h = k_lists s h" if "\<forall>p. h \<noteq> Ready p" for h
  proof -
    have "t \<notin> set (k_lists s h)"
      using that t thread_ok_ready [OF queue_invD(1) [OF q], of t]
      by (auto simp: queue_inv_member [OF q])
    then show ?thesis
      using that unfolding eq by (simp add: eqs(2) inserted_lists remove1_idem)
  qed
  show "sched_frame s ?s'"
    unfolding sched_frame_def
    using ct t wq
    by (simp add: base) (auto simp: eq th_core_def objs_frame_def)
qed

lemma stacks_okD:
  "stacks_ok s \<Longrightarrow> th_base s t \<in> {RT_THREAD_READY, RT_THREAD_SUSPEND, RT_THREAD_RUNNING}
   \<Longrightarrow> scheduler_stack_check (k_thread s t) = Some ()"
  unfolding stacks_ok_def by blast

lemma stack_check_core:
  "th_core a = th_core b \<Longrightarrow> scheduler_stack_check a = scheduler_stack_check b"
  using th_core_simps [of a b] by (simp add: scheduler_stack_check_def)

lemma sched_frame_refl: "sched_frame s s"
  by (auto simp: sched_frame_def objs_frame_def)

lemma sched_frameD:
  assumes "sched_frame s s'"
  shows "objs_frame s s'" "k_tick s' = k_tick s" "k_timer s' = k_timer s" "k_timers s' = k_timers s"
    "k_lock_nest s' = k_lock_nest s" "k_irq_nest s' = k_irq_nest s"
    "th_core (k_thread s' t) = th_core (k_thread s t)"
    "th_base s t \<notin> {RT_THREAD_READY, RT_THREAD_RUNNING} \<Longrightarrow> k_thread s' t = k_thread s t"
    "th_base s t \<in> {RT_THREAD_READY, RT_THREAD_RUNNING} \<Longrightarrow>
      th_base s' t \<in> {RT_THREAD_READY, RT_THREAD_RUNNING}"
    "(\<And>p. h \<noteq> Ready p) \<Longrightarrow> k_lists s' h = k_lists s h"
  using assms unfolding sched_frame_def by blast+

lemma sched_frame_suspended:
  assumes "sched_frame s s'"
  shows "th_base s' t = RT_THREAD_SUSPEND \<longleftrightarrow> th_base s t = RT_THREAD_SUSPEND"
proof (cases "th_base s t \<in> {RT_THREAD_READY, RT_THREAD_RUNNING}")
  case True
  then show ?thesis using sched_frameD(9) [OF assms True] by auto
next
  case False
  then show ?thesis using sched_frameD(8) [OF assms False] by simp
qed

lemma stacks_ok_frame:
  assumes "stacks_ok s" "sched_frame s s'"
  shows "stacks_ok s'"
  unfolding stacks_ok_def
proof (intro allI impI)
  fix t
  assume a: "th_base s' t \<in> {RT_THREAD_READY, RT_THREAD_SUSPEND, RT_THREAD_RUNNING}"
  have "th_base s t \<in> {RT_THREAD_READY, RT_THREAD_SUSPEND, RT_THREAD_RUNNING}"
  proof (cases "th_base s t \<in> {RT_THREAD_READY, RT_THREAD_RUNNING}")
    case False
    then show ?thesis using sched_frameD(8) [OF assms(2) False] a by simp
  qed auto
  then show "scheduler_stack_check (k_thread s' t) = Some ()"
    using stacks_okD [OF assms(1)] stack_check_core [OF sched_frameD(7) [OF assms(2)]] by simp
qed

text \<open>The current thread runs, and no ready thread is more urgent.\<close>

definition runs_most_urgent :: "kstate \<Rightarrow> bool" where
  "runs_most_urgent s \<longleftrightarrow>
     (\<exists>c. k_current s = Some c \<and> th_base s c = RT_THREAD_RUNNING
        \<and> (\<forall>t. th_base s t = RT_THREAD_READY \<longrightarrow> th_prio s c \<le> th_prio s t))"

lemma no_ready:
  assumes "queue_inv s" "k_group s = 0"
  shows "th_base s t \<noteq> RT_THREAD_READY"
proof
  assume "th_base s t = RT_THREAD_READY"
  then have "k_lists s (Ready (th_prio s t)) \<noteq> []"
    using ready_queued [OF assms(1), of t] by auto
  then show False using queue_inv_group [OF assms(1), of "th_prio s t"] assms(2) by simp
qed

text \<open>One call of \<^verbatim>\<open>rt_schedule\<close>: the three possible results.\<close>

lemma schedule_cases:
  assumes inv: "sched_inv s" and cur: "k_current s = Some c" and st: "stacks_ok s"
  obtains
    (same) "k_lock_nest s \<noteq> 0 \<or> k_group s = 0" "rt_schedule s = Some s"
  | (keep) t p ts where "k_lock_nest s = 0" "k_lists s (Ready p) = t # ts" "keeps_cpu s c p"
      "\<And>u. th_base s u = RT_THREAD_READY \<Longrightarrow> p \<le> th_prio s u" "rt_schedule s = Some (kept c s)"
  | (switch) t p ts where "k_lock_nest s = 0" "k_lists s (Ready p) = t # ts" "\<not> keeps_cpu s c p"
      "th_base s t = RT_THREAD_READY" "th_prio s t = p"
      "\<And>u. th_base s u = RT_THREAD_READY \<Longrightarrow> p \<le> th_prio s u"
      "rt_schedule s = Some (switched c t p s)"
proof (cases "k_lock_nest s \<noteq> 0 \<or> k_group s = 0")
  case True
  then show thesis using same schedule_idle by blast
next
  case False
  then have ne: "k_lock_nest s = 0" "k_group s \<noteq> 0" by auto
  obtain t ts p where top: "scheduler_get_highest_priority_thread s = Some (t, p)"
      "k_lists s (Ready p) = t # ts" "th_base s t = RT_THREAD_READY" "th_prio s t = p"
      "\<And>u. th_base s u = RT_THREAD_READY \<Longrightarrow> p \<le> th_prio s u"
    using highest_ok [OF sched_invD(1) [OF inv] ne(2)] by metis
  show thesis
  proof (cases "keeps_cpu s c p")
    case True
    then show thesis using keep ne top schedule_keep_eq [OF ne cur top(1)] by blast
  next
    case no: False
    have "scheduler_stack_check (k_thread s t) = Some ()"
      using stacks_okD [OF st] top(3) by simp
    then show thesis
      using switch ne no top schedule_switch_eq [OF inv ne cur top(1,3) no] by blast
  qed
qed

lemma schedule_ok:
  assumes inv: "sched_inv s" and cur: "k_current s = Some c" and st: "stacks_ok s"
  obtains s' where "rt_schedule s = Some s'" "sched_inv s'" "sched_frame s s'" "stacks_ok s'"
    "\<exists>c'. k_current s' = Some c'"
    "k_lock_nest s = 0 \<Longrightarrow>
      th_base s c = RT_THREAD_RUNNING \<or> (\<exists>t. th_base s t = RT_THREAD_READY) \<Longrightarrow> runs_most_urgent s'"
  using inv cur st
proof (cases rule: schedule_cases)
  case same
  show thesis
  proof (rule that [OF same(2) inv sched_frame_refl st])
    show "runs_most_urgent s"
      if "k_lock_nest s = 0"
        "th_base s c = RT_THREAD_RUNNING \<or> (\<exists>t. th_base s t = RT_THREAD_READY)"
      using no_ready [OF sched_invD(1) [OF inv]] same(1) that cur
      by (auto simp: runs_most_urgent_def)
  qed (use cur in auto)
next
  case (keep t p ts)
  have run: "th_base s c = RT_THREAD_RUNNING" and p: "th_prio s c \<le> p"
    using keep(3) by (auto simp: keeps_cpu_def)
  note k = kept_ok [OF inv run]
  have "th_prio (kept c s) u = th_prio s u" for u
    using th_core_simps [OF sched_frameD(7) [OF k(2), of u]] by simp
  then have "runs_most_urgent (kept c s)"
    using run p keep(4) cur order_trans by (fastforce simp: runs_most_urgent_def k(3,5))
  then show thesis
    using that [OF keep(5) k(1,2) stacks_ok_frame [OF st k(2)]] cur k(3) by simp
next
  case (switch t p ts)
  note k = switched_ok [OF inv cur switch(4), of p]
  have pr: "th_prio (switched c t p s) u = th_prio s u" for u
    using th_core_simps [OF sched_frameD(7) [OF k(2), of u]] by simp
  have "p \<le> th_prio s c" if "th_base s c = RT_THREAD_RUNNING"
    using switch(3) that by (auto simp: keeps_cpu_def)
  then have "runs_most_urgent (switched c t p s)"
    using switch(5,6) by (auto simp: runs_most_urgent_def k(3,4) pr split: if_splits)
  then show thesis
    using that [OF switch(7) k(1,2) stacks_ok_frame [OF st k(2)]] k(3) by simp
qed

end
