(* ===== verification/Timer.thy ===== *)
theory Timer
  imports Sched
begin

text \<open>
  The timer list of src/timer.c (one skip-list level, hard timers only, as configured):
  creation, start, stop, control and detachment.  The periodic check that calls the timeout
  functions is in Clock, because the timeout function of a thread timer reschedules.
\<close>

section \<open>Object registration\<close>

text \<open>
  The re-initialisation check of \<^verbatim>\<open>rt_object_init\<close> in src/object.c (RT_DEBUG is configured): the
  search for the object among the registered ones runs with the scheduler locked, and unlocking
  may reschedule.  Setting the type is left to the caller's record update.
\<close>

definition object_init_check :: "bool \<Rightarrow> kstate \<Rightarrow> kstate option" where
  "object_init_check registered s = do {
     let s1 = rt_enter_critical s;
     RT_ASSERT (\<not> registered);
     rt_exit_critical s1
   }"


section \<open>Operations\<close>

definition tm_activated :: "rt_timer \<Rightarrow> bool" where
  "tm_activated tm \<longleftrightarrow> tm_flag tm AND RT_TIMER_FLAG_ACTIVATED \<noteq> 0"

definition tm_periodic :: "rt_timer \<Rightarrow> bool" where
  "tm_periodic tm \<longleftrightarrow> tm_flag tm AND RT_TIMER_FLAG_PERIODIC \<noteq> 0"

definition flag_set :: "rt_uint8_t \<Rightarrow> rt_timer \<Rightarrow> rt_timer" where
  "flag_set m tm = tm\<lparr>tm_flag := tm_flag tm OR m\<rparr>"

definition flag_clear :: "rt_uint8_t \<Rightarrow> rt_timer \<Rightarrow> rt_timer" where
  "flag_clear m tm = tm\<lparr>tm_flag := tm_flag tm AND NOT m\<rparr>"

text \<open>\<^verbatim>\<open>RT_TICK_MAX / 2\<close>.\<close>

abbreviation TICK_HALF :: rt_tick_t where "TICK_HALF \<equiv> 0x7fffffff"

definition timer_init :: "timeout_func \<Rightarrow> rt_tick_t \<Rightarrow> rt_uint8_t \<Rightarrow> rt_timer \<Rightarrow> rt_timer" where
  "timer_init func time flag tm =
     flag_clear RT_TIMER_FLAG_ACTIVATED (tm\<lparr>tm_flag := flag\<rparr>)
       \<lparr>tm_timeout_func := func, tm_timeout_tick := 0, tm_init_tick := time, tm_row := None\<rparr>"

definition rt_timer_init ::
  "tmid \<Rightarrow> timeout_func \<Rightarrow> rt_tick_t \<Rightarrow> rt_uint8_t \<Rightarrow> kstate \<Rightarrow> kstate option" where
  "rt_timer_init i func time flag s = do {
     RT_ASSERT (time < TICK_HALF);
     s1 \<leftarrow> object_init_check (tm_obj (k_timer s i)) s;
     Some (upd_timer i (\<lambda>tm. timer_init func time flag (tm\<lparr>tm_obj := True, tm_system := True\<rparr>)) s1)
   }"

text \<open>The argument a is the answer of \<^verbatim>\<open>rt_object_allocate\<close>: no memory, or a new object.\<close>

definition rt_timer_create ::
  "nat option \<Rightarrow> timeout_func \<Rightarrow> rt_tick_t \<Rightarrow> rt_uint8_t \<Rightarrow> kstate \<Rightarrow> (tmid option \<times> kstate) option" where
  "rt_timer_create a func time flag s = do {
     RT_ASSERT (time < TICK_HALF);
     RT_ASSERT (k_irq_nest s = 0);
     (case a of
        None \<Rightarrow> Some (None, s)
      | Some n \<Rightarrow> Some (Some (UserTimer n),
          upd_timer (UserTimer n)
            (\<lambda>tm. timer_init func time flag (tm\<lparr>tm_obj := True, tm_system := False\<rparr>)) s))
   }"

definition timer_remove :: "tmid \<Rightarrow> kstate \<Rightarrow> kstate" where
  "timer_remove i s =
     (case tm_row (k_timer s i) of
        None \<Rightarrow> s
      | Some l \<Rightarrow> (upd_timer i (tm_row_update (\<lambda>_. None)) s)
                    \<lparr>k_timers := (k_timers s)(l := remove1 i (k_timers s l))\<rparr>)"

definition rt_timer_detach :: "tmid \<Rightarrow> kstate \<Rightarrow> kstate option" where
  "rt_timer_detach i s = do {
     RT_ASSERT (tm_obj (k_timer s i));
     RT_ASSERT (tm_system (k_timer s i));
     let s1 = upd_timer i (flag_clear RT_TIMER_FLAG_ACTIVATED) (timer_remove i s);
     Some (upd_timer i (\<lambda>tm. tm\<lparr>tm_obj := False\<rparr>) s1)
   }"

definition rt_timer_delete :: "tmid \<Rightarrow> kstate \<Rightarrow> kstate option" where
  "rt_timer_delete i s = do {
     RT_ASSERT (tm_obj (k_timer s i));
     RT_ASSERT (\<not> tm_system (k_timer s i));
     let s1 = upd_timer i (flag_clear RT_TIMER_FLAG_ACTIVATED) (timer_remove i s);
     Some (upd_timer i (\<lambda>tm. tm\<lparr>tm_obj := False\<rparr>) s1)
   }"

text \<open>
  The place of a timer in the list: the loop of \<^verbatim>\<open>rt_timer_start\<close> passes the timers of the same
  timeout and stops before the first one that is later in the wrapping order.
\<close>

fun timer_insert :: "(tmid \<Rightarrow> rt_tick_t) \<Rightarrow> tmid \<Rightarrow> tmid list \<Rightarrow> tmid list" where
  "timer_insert tick i [] = [i]"
| "timer_insert tick i (t # ts) =
     (if tick t - tick i = 0 then t # timer_insert tick i ts
      else if tick t - tick i < TICK_HALF then i # t # ts
      else t # timer_insert tick i ts)"

definition rt_timer_start :: "tmid \<Rightarrow> kstate \<Rightarrow> kstate option" where
  "rt_timer_start i s = do {
     RT_ASSERT (tm_obj (k_timer s i));
     let s1 = upd_timer i (flag_clear RT_TIMER_FLAG_ACTIVATED) (timer_remove i s);
     let s2 = upd_timer i (\<lambda>tm. tm\<lparr>tm_timeout_tick := k_tick s1 + tm_init_tick tm\<rparr>) s1;
     let s3 = upd_timer i (\<lambda>tm. tm\<lparr>tm_row := Some Timer_list\<rparr>) s2
                \<lparr>k_timers := (k_timers s2)(Timer_list :=
                    timer_insert (\<lambda>j. tm_timeout_tick (k_timer s2 j)) i (k_timers s2 Timer_list))\<rparr>;
     Some (upd_timer i (flag_set RT_TIMER_FLAG_ACTIVATED) s3)
   }"

definition rt_timer_stop :: "tmid \<Rightarrow> kstate \<Rightarrow> (rt_err_t \<times> kstate) option" where
  "rt_timer_stop i s = do {
     RT_ASSERT (tm_obj (k_timer s i));
     if \<not> tm_activated (k_timer s i) then Some (- RT_ERROR, s)
     else Some (RT_EOK, upd_timer i (flag_clear RT_TIMER_FLAG_ACTIVATED) (timer_remove i s))
   }"

datatype timer_cmd =
  CTRL_SET_TIME rt_tick_t | CTRL_GET_TIME | CTRL_SET_ONESHOT | CTRL_SET_PERIODIC
| CTRL_GET_STATE | CTRL_GET_REMAIN_TIME | CTRL_OTHER

text \<open>The result is the value stored through the argument pointer, if any.\<close>

definition rt_timer_control ::
  "tmid \<Rightarrow> timer_cmd \<Rightarrow> kstate \<Rightarrow> (rt_uint32_t option \<times> kstate) option" where
  "rt_timer_control i cmd s = do {
     RT_ASSERT (tm_obj (k_timer s i));
     (case cmd of
        CTRL_GET_TIME \<Rightarrow> Some (Some (tm_init_tick (k_timer s i)), s)
      | CTRL_SET_TIME tick \<Rightarrow> do {
          RT_ASSERT (tick < TICK_HALF);
          Some (None, upd_timer i (\<lambda>tm. tm\<lparr>tm_init_tick := tick\<rparr>) s)
        }
      | CTRL_SET_ONESHOT \<Rightarrow> Some (None, upd_timer i (flag_clear RT_TIMER_FLAG_PERIODIC) s)
      | CTRL_SET_PERIODIC \<Rightarrow> Some (None, upd_timer i (flag_set RT_TIMER_FLAG_PERIODIC) s)
      | CTRL_GET_STATE \<Rightarrow>
          Some (Some (if tm_activated (k_timer s i) then 1 else 0), s)
      | CTRL_GET_REMAIN_TIME \<Rightarrow> Some (Some (tm_timeout_tick (k_timer s i)), s)
      | CTRL_OTHER \<Rightarrow> Some (None, s))
   }"

definition timer_list_next_timeout :: "kstate \<Rightarrow> rt_tick_t option" where
  "timer_list_next_timeout s =
     (case k_timers s Timer_list of
        [] \<Rightarrow> None
      | i # _ \<Rightarrow> Some (tm_timeout_tick (k_timer s i)))"

definition rt_timer_next_timeout_tick :: "kstate \<Rightarrow> rt_tick_t" where
  "rt_timer_next_timeout_tick s =
     (case timer_list_next_timeout s of None \<Rightarrow> RT_TICK_MAX | Some t \<Rightarrow> t)"

definition rt_system_timer_init :: "kstate \<Rightarrow> kstate" where
  "rt_system_timer_init s = s\<lparr>k_timers := (k_timers s)(Timer_list := [])\<rparr>"


section \<open>The timer invariant\<close>

text \<open>
  A timer in the system list is activated; a thread's own timer is one-shot, calls
  \<^verbatim>\<open>_thread_timeout\<close> and is activated exactly while it is in the system list.
\<close>

definition timer_ok :: "tmid \<Rightarrow> rt_timer \<Rightarrow> bool" where
  "timer_ok i tm \<longleftrightarrow>
     (tm_row tm = Some Timer_list \<longrightarrow> tm_activated tm \<and> tm_obj tm)
     \<and> (case i of
          UserTimer n \<Rightarrow> True
        | ThreadTimer t \<Rightarrow> \<not> tm_periodic tm \<and> (tm_activated tm \<longrightarrow> tm_row tm = Some Timer_list)
            \<and> (tm_obj tm \<longrightarrow> tm_timeout_func tm = Thread_timeout t))"

definition timers_inv :: "kstate \<Rightarrow> bool" where
  "timers_inv s \<longleftrightarrow>
     (\<forall>i. timer_ok i (k_timer s i))
     \<and> (\<forall>l. distinct (k_timers s l))
     \<and> (\<forall>l i. i \<in> set (k_timers s l) \<longleftrightarrow> tm_row (k_timer s i) = Some l)"

lemma flag_bits [simp]:
  "tm_activated (flag_set 1 tm)" "\<not> tm_activated (flag_clear 1 tm)"
  "tm_activated (flag_set 2 tm) = tm_activated tm"
  "tm_activated (flag_clear 2 tm) = tm_activated tm"
  "tm_periodic (flag_set 2 tm)" "\<not> tm_periodic (flag_clear 2 tm)"
  "tm_periodic (flag_set 1 tm) = tm_periodic tm" "tm_periodic (flag_clear 1 tm) = tm_periodic tm"
proof -
  have a: "(x OR 1) AND 1 = (1 :: 8 word)" "(x AND NOT 1) AND 1 = (0 :: 8 word)"
    "(x OR 2) AND 2 = (2 :: 8 word)" "(x AND NOT 2) AND 2 = (0 :: 8 word)" for x
    by (rule bit_word_eqI; auto simp: bit_simps)+
  have "(x OR 2) AND 1 = (x AND 1) OR (2 AND 1)" "(x OR 1) AND 2 = (x AND 2) OR (1 AND 2)"
    "(x AND NOT 2) AND 1 = x AND (NOT 2 AND 1)" "(x AND NOT 1) AND 2 = x AND (NOT 1 AND 2)"
    for x :: "8 word"
    by (simp_all only: bit.conj_disj_distrib2 and.assoc)
  moreover have f: "tm_flag (flag_set m tm) = tm_flag tm OR m"
    "tm_flag (flag_clear m tm) = tm_flag tm AND NOT m" for m
    by (simp_all add: flag_set_def flag_clear_def)
  ultimately have b: "(x OR 2) AND 1 = x AND 1" "(x OR 1) AND 2 = x AND 2"
    "(x AND NOT 2) AND 1 = x AND 1" "(x AND NOT 1) AND 2 = x AND 2" for x :: "8 word"
    by simp_all
  show "tm_activated (flag_set 1 tm)" "\<not> tm_activated (flag_clear 1 tm)"
    "tm_activated (flag_set 2 tm) = tm_activated tm"
    "tm_activated (flag_clear 2 tm) = tm_activated tm"
    "tm_periodic (flag_set 2 tm)" "\<not> tm_periodic (flag_clear 2 tm)"
    "tm_periodic (flag_set 1 tm) = tm_periodic tm" "tm_periodic (flag_clear 1 tm) = tm_periodic tm"
    unfolding tm_activated_def tm_periodic_def f a b by simp_all
qed

lemma flag_fields [simp]:
  "tm_row (flag_set m tm) = tm_row tm" "tm_row (flag_clear m tm) = tm_row tm"
  "tm_obj (flag_set m tm) = tm_obj tm" "tm_obj (flag_clear m tm) = tm_obj tm"
  "tm_system (flag_set m tm) = tm_system tm" "tm_system (flag_clear m tm) = tm_system tm"
  "tm_timeout_func (flag_set m tm) = tm_timeout_func tm"
  "tm_timeout_func (flag_clear m tm) = tm_timeout_func tm"
  "tm_init_tick (flag_set m tm) = tm_init_tick tm" "tm_init_tick (flag_clear m tm) = tm_init_tick tm"
  "tm_timeout_tick (flag_set m tm) = tm_timeout_tick tm"
  "tm_timeout_tick (flag_clear m tm) = tm_timeout_tick tm"
  by (simp_all add: flag_set_def flag_clear_def)

lemma flag_update_fields [simp]:
  "tm_activated (tm\<lparr>tm_row := r\<rparr>) = tm_activated tm"
  "tm_periodic (tm\<lparr>tm_row := r\<rparr>) = tm_periodic tm"
  "tm_activated (tm\<lparr>tm_obj := b\<rparr>) = tm_activated tm"
  "tm_periodic (tm\<lparr>tm_obj := b\<rparr>) = tm_periodic tm"
  "tm_activated (tm\<lparr>tm_timeout_tick := k\<rparr>) = tm_activated tm"
  "tm_periodic (tm\<lparr>tm_timeout_tick := k\<rparr>) = tm_periodic tm"
  "tm_activated (tm\<lparr>tm_init_tick := k\<rparr>) = tm_activated tm"
  "tm_periodic (tm\<lparr>tm_init_tick := k\<rparr>) = tm_periodic tm"
  by (simp_all add: tm_activated_def tm_periodic_def)

lemma timers_invD:
  assumes "timers_inv s"
  shows "timer_ok i (k_timer s i)" "distinct (k_timers s l)"
    "i \<in> set (k_timers s l) \<longleftrightarrow> tm_row (k_timer s i) = Some l"
  using assms unfolding timers_inv_def by blast+

lemma timers_inv_cong:
  "k_timer s' = k_timer s \<Longrightarrow> k_timers s' = k_timers s \<Longrightarrow> timers_inv s' = timers_inv s"
  by (simp add: timers_inv_def)

text \<open>A step on one timer that moves it between lists.\<close>

lemma timers_inv_update:
  assumes inv: "timers_inv s" and tm: "k_timer s' = (k_timer s)(i := tm')" and "timer_ok i tm'"
    and "\<And>l. distinct (k_timers s' l)"
    and "\<And>l. set (k_timers s' l)
        = set (k_timers s l) - {i} \<union> (if tm_row tm' = Some l then {i} else {})"
  shows "timers_inv s'"
  using timers_invD [OF inv] assms by (auto simp: timers_inv_def)

lemma timer_remove_simps [simp]:
  "k_thread (timer_remove i s) = k_thread s" "k_lists (timer_remove i s) = k_lists s"
  "k_group (timer_remove i s) = k_group s" "k_current (timer_remove i s) = k_current s"
  "k_current_priority (timer_remove i s) = k_current_priority s"
  "k_lock_nest (timer_remove i s) = k_lock_nest s" "k_irq_nest (timer_remove i s) = k_irq_nest s"
  "k_tick (timer_remove i s) = k_tick s"
  "k_timer (timer_remove i s) = (k_timer s)(i := k_timer s i\<lparr>tm_row := None\<rparr>)"
  "k_sem (timer_remove i s) = k_sem s" "k_mutex (timer_remove i s) = k_mutex s"
  "k_event (timer_remove i s) = k_event s" "k_mb (timer_remove i s) = k_mb s"
  "k_mq (timer_remove i s) = k_mq s" "k_mp (timer_remove i s) = k_mp s" "k_drv (timer_remove i s) = k_drv s"
  by (auto simp: timer_remove_def upd_timer_def fun_eq_iff split: option.splits)

lemma timer_remove_lists:
  assumes "timers_inv s"
  shows "k_timers (timer_remove i s) l = remove1 i (k_timers s l)"
  using timers_invD(3) [OF assms, of i]
  by (auto simp: timer_remove_def remove1_idem split: option.splits)

lemma set_timer_insert: "set (timer_insert tick i ts) = insert i (set ts)"
  by (induction tick i ts rule: timer_insert.induct) auto

lemma distinct_timer_insert: "i \<notin> set ts \<Longrightarrow> distinct ts \<Longrightarrow> distinct (timer_insert tick i ts)"
  by (induction tick i ts rule: timer_insert.induct) (auto simp: set_timer_insert)

text \<open>A step of the timer component: it leaves the threads and IPC objects alone.\<close>

definition timer_frame :: "tmid set \<Rightarrow> kstate \<Rightarrow> kstate \<Rightarrow> bool" where
  "timer_frame I s s' \<longleftrightarrow>
     objs_frame s s' \<and> k_thread s' = k_thread s \<and> k_lists s' = k_lists s \<and> k_group s' = k_group s
     \<and> k_current s' = k_current s \<and> k_current_priority s' = k_current_priority s
     \<and> k_lock_nest s' = k_lock_nest s \<and> k_irq_nest s' = k_irq_nest s \<and> k_tick s' = k_tick s
     \<and> (\<forall>j. j \<notin> I \<longrightarrow> k_timer s' j = k_timer s j)
     \<and> (\<forall>j. tm_obj (k_timer s j) \<longrightarrow> j \<notin> I \<longrightarrow> tm_obj (k_timer s' j))"

lemma timer_frameD:
  assumes "timer_frame I s s'"
  shows "objs_frame s s'" "k_thread s' = k_thread s" "k_lists s' = k_lists s"
    "k_group s' = k_group s" "k_current s' = k_current s" "k_tick s' = k_tick s"
    "k_lock_nest s' = k_lock_nest s" "k_irq_nest s' = k_irq_nest s"
    "j \<notin> I \<Longrightarrow> k_timer s' j = k_timer s j"
  using assms by (auto simp: timer_frame_def)

lemma timer_frame_refl: "timer_frame I s s"
  by (simp add: timer_frame_def objs_frame_def)

lemma timer_frame_trans: "timer_frame I s s' \<Longrightarrow> timer_frame I s' s'' \<Longrightarrow> timer_frame I s s''"
  by (auto simp: timer_frame_def objs_frame_def)

lemma timer_frame_sched_inv: "timer_frame I s s' \<Longrightarrow> sched_inv s' = sched_inv s"
  by (rule sched_inv_cong) (auto simp: timer_frame_def)

lemma removed_timers_inv:
  assumes inv: "timers_inv s"
  shows "timers_inv (upd_timer i (flag_clear 1) (timer_remove i s))"
proof (rule timers_inv_update [OF inv, of _ i])
  show "timer_ok i (flag_clear 1 (k_timer s i\<lparr>tm_row := None\<rparr>))"
    using timers_invD(1) [OF inv, of i] by (auto simp: timer_ok_def split: tmid.splits)
qed (use timers_invD(2) [OF inv] in \<open>auto simp: timer_remove_lists [OF inv] set_remove1_eq\<close>)

lemma stop_ok:
  assumes inv: "timers_inv s" and obj: "tm_obj (k_timer s (ThreadTimer t))"
  obtains r s' where "rt_timer_stop (ThreadTimer t) s = Some (r, s')" "timers_inv s'"
    "timer_frame {ThreadTimer t} s s'" "tm_obj (k_timer s' (ThreadTimer t))"
    "tm_row (k_timer s' (ThreadTimer t)) \<noteq> Some Timer_list"
proof (cases "tm_activated (k_timer s (ThreadTimer t))")
  case False
  then show thesis
    using that [of "- RT_ERROR" s] timers_invD(1) [OF inv, of "ThreadTimer t"] inv obj
    by (auto simp: rt_timer_stop_def timer_frame_refl timer_ok_def)
next
  case True
  let ?s' = "upd_timer (ThreadTimer t) (flag_clear 1) (timer_remove (ThreadTimer t) s)"
  show thesis
  proof (rule that)
    show "rt_timer_stop (ThreadTimer t) s = Some (RT_EOK, ?s')"
      using True obj by (simp add: rt_timer_stop_def)
    show "timer_frame {ThreadTimer t} s ?s'" by (simp add: timer_frame_def objs_frame_def)
  qed (use obj removed_timers_inv [OF inv] in auto)
qed

lemma start_ok:
  assumes inv: "timers_inv s" and obj: "tm_obj (k_timer s i)"
  obtains s' where "rt_timer_start i s = Some s'" "timers_inv s'" "timer_frame {i} s s'"
    "tm_row (k_timer s' i) = Some Timer_list" "tm_obj (k_timer s' i)"
    "tm_timeout_tick (k_timer s' i) = k_tick s + tm_init_tick (k_timer s i)"
    "k_timers s' Timer_list = timer_insert (\<lambda>j. tm_timeout_tick (k_timer s' j)) i
       (remove1 i (k_timers s Timer_list))"
proof -
  define s1 where "s1 = upd_timer i (flag_clear 1) (timer_remove i s)"
  define s2 where
    "s2 = upd_timer i (\<lambda>tm. tm\<lparr>tm_timeout_tick := k_tick s1 + tm_init_tick tm\<rparr>) s1"
  define L where
    "L = timer_insert (\<lambda>j. tm_timeout_tick (k_timer s2 j)) i (k_timers s2 Timer_list)"
  define s' where "s' = upd_timer i (flag_set 1)
    (upd_timer i (\<lambda>tm. tm\<lparr>tm_row := Some Timer_list\<rparr>) s2\<lparr>k_timers := (k_timers s2)(Timer_list := L)\<rparr>)"
  have res: "rt_timer_start i s = Some s'"
    using obj unfolding rt_timer_start_def Let_def s1_def [symmetric] s2_def [symmetric]
      L_def [symmetric] s'_def [symmetric] by simp
  have inv1: "timers_inv s1" unfolding s1_def by (rule removed_timers_inv [OF inv])
  let ?tm = "flag_set 1 (k_timer s1 i\<lparr>tm_timeout_tick := k_tick s + tm_init_tick (k_timer s i),
               tm_row := Some Timer_list\<rparr>)"
  have tm: "k_timer s' = (k_timer s1)(i := ?tm)"
    by (simp add: s'_def s2_def s1_def)
  have "(\<lambda>j. tm_timeout_tick (k_timer s' j)) = (\<lambda>j. tm_timeout_tick (k_timer s2 j))"
    by (simp add: fun_eq_iff s'_def)
  then have lists: "k_timers s' = (k_timers s1)(Timer_list :=
      timer_insert (\<lambda>j. tm_timeout_tick (k_timer s' j)) i (k_timers s1 Timer_list))"
    by (simp add: s'_def L_def s2_def)
  have out: "i \<notin> set (k_timers s1 l)" for l
    using timers_invD(3) [OF inv1, of i l] by (simp add: s1_def)
  have "timers_inv s'"
  proof (rule timers_inv_update [OF inv1 tm])
    show "timer_ok i ?tm"
      using timers_invD(1) [OF inv1, of i] obj by (auto simp: timer_ok_def s1_def split: tmid.splits)
    show "distinct (k_timers s' l)" for l
      using timers_invD(2) [OF inv1] out by (simp add: lists distinct_timer_insert)
    show "set (k_timers s' l) = set (k_timers s1 l) - {i} \<union> (if tm_row ?tm = Some l then {i} else {})"
      for l
      using out [of l] by (auto simp: lists set_timer_insert)
  qed
  moreover have "timer_frame {i} s s'"
    by (simp add: s'_def s2_def s1_def timer_frame_def objs_frame_def)
  moreover have "k_timers s1 Timer_list = remove1 i (k_timers s Timer_list)"
    by (simp add: s1_def timer_remove_lists [OF inv])
  ultimately show thesis
    using that [OF res] obj tm lists by (simp add: s1_def)
qed

text \<open>\<^verbatim>\<open>rt_timer_control(RT_TIMER_CTRL_SET_TIME)\<close> followed by \<^verbatim>\<open>rt_timer_start\<close>, as every timed wait does.\<close>

definition timer_arm :: "tmid \<Rightarrow> rt_tick_t \<Rightarrow> kstate \<Rightarrow> kstate option" where
  "timer_arm i tick s = do {
     (_, s1) \<leftarrow> rt_timer_control i (CTRL_SET_TIME tick) s;
     rt_timer_start i s1
   }"

lemma arm_ok:
  assumes inv: "timers_inv s" and obj: "tm_obj (k_timer s i)" and tick: "tick < TICK_HALF"
  obtains s' where "timer_arm i tick s = Some s'" "timers_inv s'" "timer_frame {i} s s'"
    "tm_row (k_timer s' i) = Some Timer_list" "tm_obj (k_timer s' i)"
    "tm_timeout_tick (k_timer s' i) = k_tick s + tick"
proof -
  let ?s1 = "upd_timer i (\<lambda>tm. tm\<lparr>tm_init_tick := tick\<rparr>) s"
  have ctl: "rt_timer_control i (CTRL_SET_TIME tick) s = Some (None, ?s1)"
    using obj tick by (simp add: rt_timer_control_def)
  have "timers_inv ?s1"
  proof (rule timers_inv_update [OF inv, of _ i])
    show "timer_ok i (k_timer s i\<lparr>tm_init_tick := tick\<rparr>)"
      using timers_invD(1) [OF inv, of i] by (simp add: timer_ok_def split: tmid.splits)
  qed (use timers_invD(2,3) [OF inv] in auto)
  moreover have "tm_obj (k_timer ?s1 i)" using obj by simp
  ultimately obtain s' where s': "rt_timer_start i ?s1 = Some s'" "timers_inv s'"
      "timer_frame {i} ?s1 s'" "tm_row (k_timer s' i) = Some Timer_list" "tm_obj (k_timer s' i)"
      "tm_timeout_tick (k_timer s' i) = k_tick s + tick"
    by (rule start_ok [of ?s1 i]) auto
  moreover have "timer_frame {i} s ?s1" by (simp add: timer_frame_def objs_frame_def)
  ultimately show thesis
    using that ctl timer_frame_trans by (auto simp: timer_arm_def)
qed


section \<open>The order of the list\<close>

text \<open>Time left from a base tick b, in the wrapping order.\<close>

definition left_from :: "rt_tick_t \<Rightarrow> rt_tick_t \<Rightarrow> nat" where
  "left_from b k = unat (k - b)"

lemma half_range:
  fixes u v :: rt_tick_t
  assumes "unat u < 2 ^ 31 - 1" "unat v < 2 ^ 31 - 1"
  shows "u - v < TICK_HALF \<longleftrightarrow> unat v \<le> unat u"
proof -
  have "unat (u - v) = (if unat v \<le> unat u then unat u - unat v else unat u + 2 ^ 32 - unat v)"
    by (simp add: unat_sub_if')
  then show ?thesis using assms unfolding word_less_nat_alt by auto
qed

lemma left_from_diff:
  fixes x y b :: rt_tick_t
  assumes "left_from b x < 2 ^ 31 - 1" "left_from b y < 2 ^ 31 - 1"
  shows "x - y = 0 \<longleftrightarrow> left_from b x = left_from b y"
    and "x - y < TICK_HALF \<longleftrightarrow> left_from b y \<le> left_from b x"
proof -
  let ?u = "x - b" and ?v = "y - b"
  have uv: "x - y = ?u - ?v" by simp
  have b: "unat ?u < 2 ^ 31 - 1" "unat ?v < 2 ^ 31 - 1"
    using assms by (auto simp: left_from_def)
  show "x - y = 0 \<longleftrightarrow> left_from b x = left_from b y"
    unfolding uv left_from_def by (metis eq_iff_diff_eq_0 word_unat_eq_iff)
  show "x - y < TICK_HALF \<longleftrightarrow> left_from b y \<le> left_from b x"
    unfolding uv left_from_def by (rule half_range [OF b])
qed

lemma timer_insert_order:
  assumes "\<And>j. j \<in> insert i (set ts) \<Longrightarrow> left_from b (tick j) < 2 ^ 31 - 1"
    and "sorted (map (\<lambda>j. left_from b (tick j)) ts)"
  shows "timer_insert tick i ts
      = takeWhile (\<lambda>j. left_from b (tick j) \<le> left_from b (tick i)) ts @ i
        # dropWhile (\<lambda>j. left_from b (tick j) \<le> left_from b (tick i)) ts"
  using assms
proof (induction ts)
  case (Cons t ts)
  have d: "tick t - tick i = 0 \<longleftrightarrow> left_from b (tick t) = left_from b (tick i)"
    "tick t - tick i < TICK_HALF \<longleftrightarrow> left_from b (tick i) \<le> left_from b (tick t)"
    using left_from_diff [of b "tick t" "tick i"] Cons.prems(1) by auto
  have "timer_insert tick i ts = takeWhile (\<lambda>j. left_from b (tick j) \<le> left_from b (tick i)) ts @ i
      # dropWhile (\<lambda>j. left_from b (tick j) \<le> left_from b (tick i)) ts"
    using Cons by auto
  then show ?case using d by auto
qed simp

lemma timer_insert_sorted:
  assumes "\<And>j. j \<in> insert i (set ts) \<Longrightarrow> left_from b (tick j) < 2 ^ 31 - 1"
    and "sorted (map (\<lambda>j. left_from b (tick j)) ts)"
  shows "sorted (map (\<lambda>j. left_from b (tick j)) (timer_insert tick i ts))"
  using assms
proof (induction ts)
  case (Cons t ts)
  have d: "tick t - tick i = 0 \<longleftrightarrow> left_from b (tick t) = left_from b (tick i)"
    "tick t - tick i < TICK_HALF \<longleftrightarrow> left_from b (tick i) \<le> left_from b (tick t)"
    using left_from_diff [of b "tick t" "tick i"] Cons.prems(1) by auto
  have "sorted (map (\<lambda>j. left_from b (tick j)) (timer_insert tick i ts))"
    using Cons by auto
  then show ?case using d Cons.prems(2) by (auto simp: set_timer_insert)
qed simp

end
