(* ===== verification/Tick.thy ===== *)
theory Tick
  imports KState
begin

text \<open>
  The tick counter of src/clock.c and the conversion of milliseconds.  The increment with its
  time slice and timer check is in Clock.
\<close>

abbreviation RT_TICK_PER_SECOND :: int where "RT_TICK_PER_SECOND \<equiv> 1000"

definition rt_tick_get :: "kstate \<Rightarrow> rt_tick_t" where
  "rt_tick_get s = k_tick s"

definition rt_tick_set :: "rt_tick_t \<Rightarrow> kstate \<Rightarrow> kstate" where
  "rt_tick_set tick s = s\<lparr>k_tick := tick\<rparr>"

text \<open>The argument is a C int, the result is stored in a 32-bit tick.\<close>

definition rt_tick_from_millisecond :: "int \<Rightarrow> rt_tick_t" where
  "rt_tick_from_millisecond ms =
     (if ms < 0 then word_of_int (- 1)
      else let tick = word_of_int (RT_TICK_PER_SECOND * (ms div 1000))
           in tick + word_of_int ((RT_TICK_PER_SECOND * (ms mod 1000) + 999) div 1000))"

definition rt_tick_get_millisecond :: "kstate \<Rightarrow> rt_tick_t" where
  "rt_tick_get_millisecond s = rt_tick_get s * (1000 div word_of_int RT_TICK_PER_SECOND)"

text \<open>At the configured rate a non-negative time is its own number of ticks.\<close>

lemma tick_from_millisecond_nonneg:
  "0 \<le> ms \<Longrightarrow> rt_tick_from_millisecond ms = word_of_int ms"
proof -
  assume "0 \<le> ms"
  have "(1000 * (ms mod 1000) + 999) div 1000 = ms mod 1000" by simp
  then have "RT_TICK_PER_SECOND * (ms div 1000) + (RT_TICK_PER_SECOND * (ms mod 1000) + 999) div 1000 = ms"
    by simp
  then show ?thesis
    using \<open>0 \<le> ms\<close> unfolding rt_tick_from_millisecond_def Let_def wi_hom_add
    by (simp only:) simp
qed

text \<open>
  For every C int, rt_tick_from_millisecond gives the exact tick count of a non-negative
  time, with no wrap-around in the intermediate products, and the forever value otherwise.
\<close>

theorem tick_from_millisecond_exact:
  assumes "- (2 ^ 31) \<le> ms" "ms < 2 ^ 31"
  shows "uint (rt_tick_from_millisecond ms) = (if ms < 0 then 2 ^ 32 - 1 else ms)"
proof (cases "ms < 0")
  case True
  have "uint (- 1 :: rt_tick_t) = 2 ^ 32 - 1"
    by (simp add: unsigned_minus_1_eq_mask mask_eq_exp_minus_1)
  then show ?thesis using True by (simp add: rt_tick_from_millisecond_def)
next
  case False
  then show ?thesis
    using assms by (simp add: tick_from_millisecond_nonneg uint_word_of_int_eq take_bit_int_eq_self)
qed

theorem tick_from_millisecond_exact_witness:
  "uint (rt_tick_from_millisecond 2500) = 2500"
  using tick_from_millisecond_exact [of 2500] by simp

end
