(* ===== verification/Thread.thy ===== *)
theory Thread
  imports Timer Tick
begin

text \<open>
  Threads, src/thread.c: initialisation, start-up, suspension and resumption, yielding, delays,
  the timeout of a thread's timer and the change of priority.  Detaching and closing a thread
  releases what it waits for and is in ThreadEnd.

  A call that blocks is split where it gives up the processor: the first part ends with
  \<open>Blocked\<close> after \<^verbatim>\<open>rt_schedule\<close>, and a second function gives what the call does when the
  thread runs again.
\<close>

datatype 'a outcome = Returned 'a | Blocked

section \<open>Operations\<close>

definition rt_thread_self :: "kstate \<Rightarrow> tid option" where
  "rt_thread_self s = k_current s"

definition rt_thread_suspend :: "tid \<Rightarrow> kstate \<Rightarrow> (rt_err_t \<times> kstate) option" where
  "rt_thread_suspend t s = do {
     RT_ASSERT (th_obj (k_thread s t));
     RT_ASSERT (rt_thread_self s = Some t);
     if th_base s t \<noteq> RT_THREAD_READY \<and> th_base s t \<noteq> RT_THREAD_RUNNING
     then Some (- RT_ERROR, s)
     else do {
       let s1 = rt_schedule_remove_thread t s;
       let s2 = upd_stat (set_stat RT_THREAD_SUSPEND) t s1;
       (_, s3) \<leftarrow> rt_timer_stop (ThreadTimer t) s2;
       Some (RT_EOK, s3)
     }
   }"

definition rt_thread_resume :: "tid \<Rightarrow> kstate \<Rightarrow> (rt_err_t \<times> kstate) option" where
  "rt_thread_resume t s = do {
     RT_ASSERT (th_obj (k_thread s t));
     if th_base s t \<noteq> RT_THREAD_SUSPEND then Some (- RT_ERROR, s)
     else do {
       let s1 = tlist_remove t s;
       (_, s2) \<leftarrow> rt_timer_stop (ThreadTimer t) s1;
       s3 \<leftarrow> rt_schedule_insert_thread t s2;
       Some (RT_EOK, s3)
     }
   }"

text \<open>
  The initial stack pointer comes from the processor port (\<^verbatim>\<open>rt_hw_stack_init\<close>), a parameter.
  The memory fill writes the guard character into every stack that is not empty.
\<close>

definition thread_init ::
  "(nat \<Rightarrow> nat) \<Rightarrow> tid \<Rightarrow> nat \<Rightarrow> nat \<Rightarrow> nat \<Rightarrow> rt_uint32_t \<Rightarrow> kstate \<Rightarrow> (rt_err_t \<times> kstate) option" where
  "thread_init hw_stack_init t stack_start stack_size priority tick s = do {
     RT_ASSERT (priority < RT_THREAD_PRIORITY_MAX);
     let s1 = upd_thread t (\<lambda>th. th\<lparr>th_tlist := None,
                  th_stack_addr := stack_start, th_stack_size := stack_size,
                  th_stack_guard := (if stack_size = 0 then th_stack_guard th else 35),
                  th_sp := hw_stack_init (stack_start + stack_size - 4),
                  th_init_priority := priority, th_current_priority := priority,
                  th_number_mask := 0, th_taken_object_list := [], th_pending_object := None,
                  th_event_set := 0, th_event_info := 0,
                  th_init_tick := tick, th_remaining_tick := tick,
                  th_error := RT_EOK, th_stat := RT_THREAD_INIT\<rparr>) s;
     s2 \<leftarrow> rt_timer_init (ThreadTimer t) (Thread_timeout t) 0 0 s1;
     Some (RT_EOK, s2)
   }"

definition rt_thread_init ::
  "(nat \<Rightarrow> nat) \<Rightarrow> tid \<Rightarrow> nat \<Rightarrow> nat \<Rightarrow> nat \<Rightarrow> rt_uint32_t \<Rightarrow> kstate \<Rightarrow> (rt_err_t \<times> kstate) option" where
  "rt_thread_init hw_stack_init t stack_start stack_size priority tick s = do {
     RT_ASSERT (stack_start \<noteq> 0);
     s1 \<leftarrow> object_init_check (th_obj (k_thread s t)) s;
     let s2 = upd_thread t (\<lambda>th. th\<lparr>th_obj := True, th_system := True\<rparr>) s1;
     thread_init hw_stack_init t stack_start stack_size priority tick s2
   }"

text \<open>
  The arguments obj and stack are the answers of \<^verbatim>\<open>rt_object_allocate\<close> and \<^verbatim>\<open>RT_KERNEL_MALLOC\<close>
  (\<^term>\<open>None\<close>: no memory); the control block starts zeroed.
\<close>

definition rt_thread_create ::
  "(nat \<Rightarrow> nat) \<Rightarrow> tid option \<Rightarrow> nat option \<Rightarrow> nat \<Rightarrow> nat \<Rightarrow> rt_uint32_t \<Rightarrow> kstate
   \<Rightarrow> (tid option \<times> kstate) option" where
  "rt_thread_create hw_stack_init obj stack stack_size priority tick s = do {
     RT_ASSERT (k_irq_nest s = 0);
     (case obj of
        None \<Rightarrow> Some (None, s)
      | Some t \<Rightarrow>
          (let s1 = upd_thread t (\<lambda>th. th\<lparr>th_obj := True, th_system := False\<rparr>) s in
           case stack of
             None \<Rightarrow> Some (None, upd_thread t (\<lambda>th. th\<lparr>th_obj := False\<rparr>) s1)
           | Some a \<Rightarrow> do {
               (_, s2) \<leftarrow> thread_init hw_stack_init t a stack_size priority tick s1;
               Some (Some t, s2)
             }))
   }"

definition rt_thread_startup :: "tid \<Rightarrow> kstate \<Rightarrow> (rt_err_t \<times> kstate) option" where
  "rt_thread_startup t s = do {
     RT_ASSERT (th_base s t = RT_THREAD_INIT);
     RT_ASSERT (th_obj (k_thread s t));
     let s1 = upd_thread t (\<lambda>th. th\<lparr>th_number_mask := prio_mask (th_current_priority th),
                                    th_stat := RT_THREAD_SUSPEND\<rparr>) s;
     (_, s2) \<leftarrow> rt_thread_resume t s1;
     s3 \<leftarrow> (if rt_thread_self s2 \<noteq> None then rt_schedule s2 else Some s2);
     Some (RT_EOK, s3)
   }"

definition rt_thread_yield :: "kstate \<Rightarrow> kstate option" where
  "rt_thread_yield s = do {
     t \<leftarrow> rt_thread_self s;
     rt_schedule (upd_thread t (\<lambda>th. th\<lparr>th_remaining_tick := th_init_tick th,
                                        th_stat := set_yield (th_stat th)\<rparr>) s)
   }"

text \<open>The common part of the delays: suspend the caller and start its timer.\<close>

definition thread_wait_ticks :: "tid \<Rightarrow> rt_tick_t \<Rightarrow> kstate \<Rightarrow> kstate option" where
  "thread_wait_ticks t tick s = do {
     (_, s1) \<leftarrow> rt_thread_suspend t s;
     s2 \<leftarrow> timer_arm (ThreadTimer t) tick s1;
     rt_schedule s2
   }"

definition rt_thread_sleep :: "rt_tick_t \<Rightarrow> kstate \<Rightarrow> (rt_err_t outcome \<times> kstate) option" where
  "rt_thread_sleep tick s =
     (if tick = 0 then Some (Returned (- RT_EINVAL), s)
      else do {
        t \<leftarrow> rt_thread_self s;
        RT_ASSERT (th_obj (k_thread s t));
        debug_scheduler_available True s;
        let s1 = upd_thread t (\<lambda>th. th\<lparr>th_error := RT_EOK\<rparr>) s;
        s2 \<leftarrow> thread_wait_ticks t tick s1;
        Some (Blocked, s2)
      })"

text \<open>The rest of the call: a timeout is the normal end of the delay.\<close>

definition rt_thread_sleep_resume :: "tid \<Rightarrow> kstate \<Rightarrow> rt_err_t \<times> kstate" where
  "rt_thread_sleep_resume t s =
     (let s1 = (if th_error (k_thread s t) = - RT_ETIMEOUT
                then upd_thread t (\<lambda>th. th\<lparr>th_error := RT_EOK\<rparr>) s else s)
      in (th_error (k_thread s1 t), s1))"

definition rt_thread_delay :: "rt_tick_t \<Rightarrow> kstate \<Rightarrow> (rt_err_t outcome \<times> kstate) option" where
  "rt_thread_delay tick s = rt_thread_sleep tick s"

text \<open>The tick of the last wake-up is passed by reference: the new value is part of the result.\<close>

definition rt_thread_delay_until ::
  "rt_tick_t \<Rightarrow> rt_tick_t \<Rightarrow> kstate \<Rightarrow> (rt_err_t outcome \<times> rt_tick_t \<times> kstate) option" where
  "rt_thread_delay_until tick inc_tick s = do {
     t \<leftarrow> rt_thread_self s;
     RT_ASSERT (th_obj (k_thread s t));
     let s1 = upd_thread t (\<lambda>th. th\<lparr>th_error := RT_EOK\<rparr>) s;
     let cur_tick = rt_tick_get s1;
     if cur_tick - tick < inc_tick then do {
       let tick' = tick + inc_tick;
       s2 \<leftarrow> thread_wait_ticks t (tick' - cur_tick) s1;
       Some (Blocked, tick', s2)
     }
     else Some (Returned (th_error (k_thread s1 t)), cur_tick, s1)
   }"

definition rt_thread_mdelay :: "int \<Rightarrow> kstate \<Rightarrow> (rt_err_t outcome \<times> kstate) option" where
  "rt_thread_mdelay ms s = rt_thread_sleep (rt_tick_from_millisecond ms) s"

definition thread_timeout :: "tid \<Rightarrow> kstate \<Rightarrow> kstate option" where
  "thread_timeout t s = do {
     RT_ASSERT (th_base s t = RT_THREAD_SUSPEND);
     RT_ASSERT (th_obj (k_thread s t));
     let s1 = upd_thread t (\<lambda>th. th\<lparr>th_error := - RT_ETIMEOUT\<rparr>) s;
     let s2 = tlist_remove t s1;
     s3 \<leftarrow> rt_schedule_insert_thread t s2;
     rt_schedule s3
   }"

text \<open>
  \<^verbatim>\<open>rt_thread_control(RT_THREAD_CTRL_CHANGE_PRIORITY)\<close>.  The shift is undefined in C for a
  priority of 32 or more, and the queue index would be out of range.
\<close>

definition thread_change_priority :: "tid \<Rightarrow> nat \<Rightarrow> kstate \<Rightarrow> kstate option" where
  "thread_change_priority t priority s = do {
     RT_ASSERT (th_obj (k_thread s t));
     RT_ASSERT (priority < RT_THREAD_PRIORITY_MAX);
     let set_prio = upd_thread t (\<lambda>th. th\<lparr>th_current_priority := priority,
                                         th_number_mask := prio_mask priority\<rparr>);
     if th_base s t = RT_THREAD_READY
     then rt_schedule_insert_thread t (set_prio (rt_schedule_remove_thread t s))
     else Some (set_prio s)
   }"


section \<open>The kernel invariant\<close>

text \<open>
  The scheduler and timer invariants, and what links them: a started thread is a registered
  object with a registered timer and an intact stack, and only a suspended thread's timer runs.
\<close>

definition objs_ok :: "kstate \<Rightarrow> bool" where
  "objs_ok s \<longleftrightarrow>
     (\<forall>t. th_base s t \<in> {RT_THREAD_READY, RT_THREAD_SUSPEND, RT_THREAD_RUNNING}
        \<longrightarrow> th_obj (k_thread s t) \<and> tm_obj (k_timer s (ThreadTimer t)))"

definition timer_susp :: "kstate \<Rightarrow> bool" where
  "timer_susp s \<longleftrightarrow>
     (\<forall>t. tm_row (k_timer s (ThreadTimer t)) = Some Timer_list \<longrightarrow> th_base s t = RT_THREAD_SUSPEND)"

definition kinv :: "kstate \<Rightarrow> bool" where
  "kinv s \<longleftrightarrow> sched_inv s \<and> timers_inv s \<and> timer_susp s \<and> objs_ok s \<and> stacks_ok s"

lemma kinvD:
  assumes "kinv s"
  shows "sched_inv s" "timers_inv s" "timer_susp s" "objs_ok s" "stacks_ok s" "queue_inv s"
  using assms by (simp_all add: kinv_def sched_inv_def)

lemma kinv_objs:
  assumes "kinv s" "th_base s t \<in> {RT_THREAD_READY, RT_THREAD_SUSPEND, RT_THREAD_RUNNING}"
  shows "th_obj (k_thread s t)" "tm_obj (k_timer s (ThreadTimer t))"
  using kinvD(4) [OF assms(1)] assms(2) unfolding objs_ok_def by blast+

lemma kinv_cong:
  assumes "k_thread s' = k_thread s" "k_lists s' = k_lists s" "k_group s' = k_group s"
    "k_current s' = k_current s" "k_timer s' = k_timer s" "k_timers s' = k_timers s"
  shows "kinv s' = kinv s"
  using assms sched_inv_cong [of s' s] timers_inv_cong [of s' s]
  by (simp add: kinv_def timer_susp_def objs_ok_def stacks_ok_def)

text \<open>Scheduling keeps the invariant.\<close>

lemma kinv_sched_frame:
  assumes inv: "kinv s" and s': "sched_inv s'" and fr: "sched_frame s s'"
  shows "kinv s'"
proof -
  have tm: "k_timer s' = k_timer s" "k_timers s' = k_timers s" using sched_frameD [OF fr] by auto
  have "timers_inv s'" using timers_inv_cong [OF tm] kinvD(2) [OF inv] by simp
  moreover have "timer_susp s'"
    using kinvD(3) [OF inv] sched_frame_suspended [OF fr] by (simp add: timer_susp_def tm)
  moreover have "objs_ok s'"
    unfolding objs_ok_def
  proof (intro allI impI)
    fix t
    assume a: "th_base s' t \<in> {RT_THREAD_READY, RT_THREAD_SUSPEND, RT_THREAD_RUNNING}"
    have "th_base s t \<in> {RT_THREAD_READY, RT_THREAD_SUSPEND, RT_THREAD_RUNNING}"
    proof (cases "th_base s t \<in> {RT_THREAD_READY, RT_THREAD_RUNNING}")
      case False
      then show ?thesis using sched_frameD(8) [OF fr False] a by simp
    qed auto
    then show "th_obj (k_thread s' t) \<and> tm_obj (k_timer s' (ThreadTimer t))"
      using kinv_objs [OF inv] th_core_simps [OF sched_frameD(7) [OF fr, of t]] by (simp add: tm)
  qed
  ultimately show ?thesis
    using s' stacks_ok_frame [OF kinvD(5) [OF inv] fr] by (simp add: kinv_def)
qed

lemma schedule_kinv:
  assumes "kinv s" "k_current s = Some c"
  obtains s' where "rt_schedule s = Some s'" "kinv s'" "sched_frame s s'" "\<exists>c'. k_current s' = Some c'"
    "k_lock_nest s = 0 \<Longrightarrow>
      th_base s c = RT_THREAD_RUNNING \<or> (\<exists>t. th_base s t = RT_THREAD_READY) \<Longrightarrow> runs_most_urgent s'"
  using schedule_ok [OF kinvD(1) [OF assms(1)] assms(2) kinvD(5) [OF assms(1)]]
    kinv_sched_frame [OF assms(1)] by metis

text \<open>A step on thread t and its timer.\<close>

lemma kinv_update:
  assumes inv: "kinv s" and "sched_inv s'" "timers_inv s'"
    and thr: "\<And>u. u \<noteq> t \<Longrightarrow> k_thread s' u = k_thread s u"
    and tm: "\<And>u. u \<noteq> t \<Longrightarrow> k_timer s' (ThreadTimer u) = k_timer s (ThreadTimer u)"
    and started: "th_base s' t \<in> {RT_THREAD_READY, RT_THREAD_SUSPEND, RT_THREAD_RUNNING} \<Longrightarrow>
        th_obj (k_thread s' t) \<and> tm_obj (k_timer s' (ThreadTimer t))
        \<and> scheduler_stack_check (k_thread s' t) = Some ()"
    and active: "tm_row (k_timer s' (ThreadTimer t)) = Some Timer_list \<Longrightarrow>
        th_base s' t = RT_THREAD_SUSPEND"
  shows "kinv s'"
proof -
  have "timer_susp s'"
    unfolding timer_susp_def
  proof (intro allI impI)
    fix u
    assume "tm_row (k_timer s' (ThreadTimer u)) = Some Timer_list"
    then show "th_base s' u = RT_THREAD_SUSPEND"
      using active thr tm kinvD(3) [OF inv] by (cases "u = t") (auto simp: timer_susp_def)
  qed
  moreover have "objs_ok s'"
    unfolding objs_ok_def
  proof (intro allI impI)
    fix u
    assume "th_base s' u \<in> {RT_THREAD_READY, RT_THREAD_SUSPEND, RT_THREAD_RUNNING}"
    then show "th_obj (k_thread s' u) \<and> tm_obj (k_timer s' (ThreadTimer u))"
      using started thr tm kinv_objs [OF inv, of u] by (cases "u = t") auto
  qed
  moreover have "stacks_ok s'"
    unfolding stacks_ok_def
  proof (intro allI impI)
    fix u
    assume "th_base s' u \<in> {RT_THREAD_READY, RT_THREAD_SUSPEND, RT_THREAD_RUNNING}"
    then show "scheduler_stack_check (k_thread s' u) = Some ()"
      using started thr stacks_okD [OF kinvD(5) [OF inv], of u] by (cases "u = t") auto
  qed
  ultimately show ?thesis using assms(2,3) by (simp add: kinv_def)
qed

lemma queue_inv_thread:
  assumes "queue_inv s" "thread_ok (f (k_thread s t))"
    "th_tlist (f (k_thread s t)) = th_tlist (k_thread s t)"
  shows "queue_inv (upd_thread t f s)"
  using assms by (auto simp: queue_inv_def links_ok_def group_ok_def)

text \<open>What a kernel step on the threads T leaves alone.\<close>

definition thread_frame :: "tid set \<Rightarrow> kstate \<Rightarrow> kstate \<Rightarrow> bool" where
  "thread_frame T s s' \<longleftrightarrow>
     objs_frame s s' \<and> k_tick s' = k_tick s \<and> k_lock_nest s' = k_lock_nest s
     \<and> k_irq_nest s' = k_irq_nest s \<and> k_current s' = k_current s
     \<and> (\<forall>u. u \<notin> T \<longrightarrow> k_thread s' u = k_thread s u)
     \<and> (\<forall>u. th_core (k_thread s' u) = th_core (k_thread s u))
     \<and> (\<forall>i. i \<notin> ThreadTimer ` T \<longrightarrow> k_timer s' i = k_timer s i)"

lemma thread_frameD:
  assumes "thread_frame T s s'"
  shows "objs_frame s s'" "k_tick s' = k_tick s" "k_lock_nest s' = k_lock_nest s"
    "k_irq_nest s' = k_irq_nest s" "k_current s' = k_current s"
    "u \<notin> T \<Longrightarrow> k_thread s' u = k_thread s u" "th_core (k_thread s' u) = th_core (k_thread s u)"
    "i \<notin> ThreadTimer ` T \<Longrightarrow> k_timer s' i = k_timer s i"
  using assms unfolding thread_frame_def by blast+

lemma thread_frame_trans:
  "thread_frame T s s' \<Longrightarrow> thread_frame T s' s'' \<Longrightarrow> thread_frame T s s''"
  by (auto simp: thread_frame_def objs_frame_def)

lemma timer_frame_thread_frame:
  "timer_frame {ThreadTimer t} s s' \<Longrightarrow> thread_frame {t} s s'"
  by (auto simp: timer_frame_def thread_frame_def)

lemma stack_check_fields:
  "scheduler_stack_check (th\<lparr>th_tlist := l\<rparr>) = scheduler_stack_check th"
  "scheduler_stack_check (th\<lparr>th_stat := st\<rparr>) = scheduler_stack_check th"
  "scheduler_stack_check (th\<lparr>th_error := e\<rparr>) = scheduler_stack_check th"
  "scheduler_stack_check (th\<lparr>th_number_mask := m\<rparr>) = scheduler_stack_check th"
  "scheduler_stack_check (th\<lparr>th_current_priority := p\<rparr>) = scheduler_stack_check th"
  by (simp_all add: scheduler_stack_check_def)

lemma th_core_fields [simp]:
  "th_core (th\<lparr>th_tlist := l\<rparr>) = th_core th" "th_core (th\<lparr>th_stat := st\<rparr>) = th_core th"
  by (simp_all add: th_core_def)

text \<open>Suspending the running thread.\<close>

lemma suspend_ok:
  assumes inv: "kinv s" and cur: "k_current s = Some t" and run: "th_base s t = RT_THREAD_RUNNING"
  obtains s' where "rt_thread_suspend t s = Some (RT_EOK, s')" "kinv s'"
    "th_base s' t = RT_THREAD_SUSPEND" "th_tlist (k_thread s' t) = None" "k_lists s' = k_lists s"
    "thread_frame {t} s s'"
proof -
  let ?s1 = "upd_stat (set_stat RT_THREAD_SUSPEND) t (rt_schedule_remove_thread t s)"
  have q: "queue_inv s" using kinvD(6) [OF inv] .
  have b: "th_base s t \<in> {RT_THREAD_READY, RT_THREAD_SUSPEND, RT_THREAD_RUNNING}" using run by simp
  note obj = kinv_objs [OF inv b] and eqs = remove_thread_eq [OF q b]
  have tl: "th_tlist (k_thread s t) = None" using thread_ok_running [OF queue_invD(1) [OF q] run] .
  have lists: "k_lists ?s1 = k_lists s"
    using queue_inv_member [OF q, of t] tl by (auto simp: eqs(2) remove1_idem fun_eq_iff)
  have q1: "queue_inv ?s1" by (rule removed_queue_inv [OF q b]) simp
  have "run_ok ?s1"
    using sched_invD(2) [OF kinvD(1) [OF inv]] cur by (auto simp: run_ok_def eqs(4))
  then have inv1: "sched_inv ?s1" using q1 by (simp add: sched_inv_def)
  have "timers_inv ?s1" using kinvD(2) [OF inv] timers_inv_cong [of ?s1 s] by simp
  then obtain r s' where s': "rt_timer_stop (ThreadTimer t) ?s1 = Some (r, s')" "timers_inv s'"
      "timer_frame {ThreadTimer t} ?s1 s'" "tm_obj (k_timer s' (ThreadTimer t))"
      "tm_row (k_timer s' (ThreadTimer t)) \<noteq> Some Timer_list"
    using obj by (elim stop_ok [of ?s1 t]) auto
  have thr: "k_thread s' = k_thread ?s1" by (rule timer_frameD(2) [OF s'(3)])
  have tmf: "k_timer s' (ThreadTimer u) = k_timer s (ThreadTimer u)" if "u \<noteq> t" for u
    using timer_frameD(9) [OF s'(3), of "ThreadTimer u"] that by simp
  have sinv: "sched_inv s'" using timer_frame_sched_inv [OF s'(3)] inv1 by simp
  show thesis
  proof (rule that)
    show "rt_thread_suspend t s = Some (RT_EOK, s')"
      using obj cur run s'(1) by (simp add: rt_thread_suspend_def rt_thread_self_def)
    show "kinv s'"
    proof (rule kinv_update [OF inv sinv s'(2)])
      show "k_thread s' u = k_thread s u" if "u \<noteq> t" for u using that by (simp add: thr)
      show "k_timer s' (ThreadTimer u) = k_timer s (ThreadTimer u)" if "u \<noteq> t" for u
        using that by (rule tmf)
    qed (use obj s'(4,5) stacks_okD [OF kinvD(5) [OF inv] b] in
        \<open>auto simp: thr stack_check_fields\<close>)
    have "thread_frame {t} s ?s1"
      by (simp add: thread_frame_def objs_frame_def eqs(4))
    then show "thread_frame {t} s s'"
      using thread_frame_trans timer_frame_thread_frame [OF s'(3)] by blast
    show "k_lists s' = k_lists s" using timer_frameD(3) [OF s'(3)] lists by simp
  qed (simp_all add: thr)
qed

text \<open>Waking a suspended thread, the current one included.\<close>

lemma resume_ok:
  assumes inv: "kinv s" and sus: "th_base s t = RT_THREAD_SUSPEND"
  obtains s' where "rt_thread_resume t s = Some (RT_EOK, s')" "kinv s'"
    "th_base s' t = (if k_current s = Some t then RT_THREAD_RUNNING else RT_THREAD_READY)"
    "\<And>h. wait_queue h \<Longrightarrow> k_lists s' h = remove1 t (k_lists s h)"
    "thread_frame {t} s s'"
proof -
  let ?s1 = "tlist_remove t s"
  have q: "queue_inv s" using kinvD(6) [OF inv] .
  have b: "th_base s t \<in> {RT_THREAD_READY, RT_THREAD_SUSPEND, RT_THREAD_RUNNING}" using sus by simp
  note obj = kinv_objs [OF inv b] and ok = queue_invD(1) [OF q, of t]
  note lists1 = tlist_remove_lists [OF q, of t]
  have ready: "t \<notin> set (k_lists s (Ready p))" for p
    using ready_queue_member(1) [OF q, of t p] sus by auto
  have q1: "queue_inv ?s1"
  proof (rule queue_inv_update [OF q])
    show "thread_ok (k_thread s t\<lparr>th_tlist := None\<rparr>)"
      using thread_ok_mask [OF ok b] thread_ok_prio [OF ok] sus by (simp add: thread_ok_def)
    show "bit (k_group ?s1) p \<longleftrightarrow> k_lists ?s1 (Ready p) \<noteq> []" for p
      using queue_inv_group [OF q, of p] ready by (simp add: lists1 remove1_idem)
  qed (use queue_inv_distinct [OF q] in \<open>auto simp: lists1 distinct_remove1\<close>)
  have "timers_inv ?s1" using kinvD(2) [OF inv] timers_inv_cong [of ?s1 s] by simp
  then obtain r s2 where s2: "rt_timer_stop (ThreadTimer t) ?s1 = Some (r, s2)" "timers_inv s2"
      "timer_frame {ThreadTimer t} ?s1 s2" "tm_obj (k_timer s2 (ThreadTimer t))"
      "tm_row (k_timer s2 (ThreadTimer t)) \<noteq> Some Timer_list"
    using obj by (elim stop_ok [of ?s1 t]) auto
  note fr2 = timer_frameD [OF s2(3)]
  have q2: "queue_inv s2" using q1 queue_inv_cong [of s2 ?s1] fr2(2-4) by simp
  have cur2: "k_current s2 = k_current s" using fr2(5) by simp
  have run: "th_base s u = RT_THREAD_RUNNING \<Longrightarrow> k_current s = Some u" for u
    using sched_inv_running [OF kinvD(1) [OF inv]] .
  have curb: "k_current s = Some u \<Longrightarrow>
      th_base s u \<in> {RT_THREAD_RUNNING, RT_THREAD_SUSPEND, RT_THREAD_CLOSE}" for u
    using sched_inv_current [OF kinvD(1) [OF inv]] .
  define s' where "s' = (if k_current s = Some t
    then upd_stat (set_stat RT_THREAD_RUNNING) t s2 else inserted t s2)"
  have ins: "rt_schedule_insert_thread t s2 = Some s'"
    using insert_thread_eq [of s2 t] thread_ok_prio [OF ok] cur2
    by (auto simp: s'_def rt_schedule_insert_thread_def fr2(2))
  have thr: "u \<noteq> t \<Longrightarrow> k_thread s' u = k_thread s u" for u
    by (simp add: s'_def fr2(2))
  have tm: "k_timer s' = k_timer s2" "k_timers s' = k_timers s2" by (simp_all add: s'_def)
  have base: "th_base s' t = (if k_current s = Some t then RT_THREAD_RUNNING else RT_THREAD_READY)"
    by (simp add: s'_def)
  have core: "th_core (k_thread s' u) = th_core (k_thread s u)" for u
    by (simp add: s'_def fr2(2))
  have q': "queue_inv s'"
  proof (cases "k_current s = Some t")
    case True
    let ?th = "k_thread s2 t\<lparr>th_stat := set_stat RT_THREAD_RUNNING (th_stat (k_thread s2 t))\<rparr>"
    have "thread_ok ?th"
      using thread_ok_mask [OF ok b] thread_ok_prio [OF ok] by (simp add: thread_ok_def fr2(2))
    moreover have "th_tlist (k_thread s2 t) = None" by (simp add: fr2(2))
    ultimately have "queue_inv (upd_stat (set_stat RT_THREAD_RUNNING) t s2)"
      using q2 by (auto simp: queue_inv_def links_ok_def group_ok_def)
    then show ?thesis using True by (simp add: s'_def)
  next
    case False
    then show ?thesis using inserted_queue_inv [OF q2, of t] sus by (simp add: s'_def fr2(2))
  qed
  have "run_ok s'"
    unfolding run_ok_def
  proof (intro conjI allI impI)
    fix u
    assume a: "th_base s' u = RT_THREAD_RUNNING"
    show "k_current s' = Some u"
      using a run [of u] base thr [of u] cur2 by (cases "u = t") (auto simp: s'_def split: if_splits)
  next
    fix u
    assume "k_current s' = Some u"
    then have "k_current s = Some u" using cur2 by (simp add: s'_def split: if_splits)
    then show "th_base s' u \<in> {RT_THREAD_RUNNING, RT_THREAD_SUSPEND, RT_THREAD_CLOSE}"
      using curb [of u] base thr [of u] by (cases "u = t") auto
  qed
  then have sinv: "sched_inv s'" using q' by (simp add: sched_inv_def)
  have tinv: "timers_inv s'" using s2(2) timers_inv_cong [OF tm] by simp
  have fr: "thread_frame {t} s s'"
    unfolding thread_frame_def
    using fr2(1) thr core fr2(5-9)
    by (auto simp: objs_frame_def tm s'_def image_iff)
  show thesis
  proof (rule that)
    show "rt_thread_resume t s = Some (RT_EOK, s')"
      using obj sus s2(1) ins by (simp add: rt_thread_resume_def)
    show "kinv s'"
    proof (rule kinv_update [OF inv sinv tinv, of t])
      show "k_timer s' (ThreadTimer u) = k_timer s (ThreadTimer u)" if "u \<noteq> t" for u
        using fr2(9) [of "ThreadTimer u"] that by (simp add: tm)
      show "th_obj (k_thread s' t) \<and> tm_obj (k_timer s' (ThreadTimer t))
          \<and> scheduler_stack_check (k_thread s' t) = Some ()"
        using obj s2(4) th_core_simps [OF core [of t]] stack_check_core [OF core [of t]]
          stacks_okD [OF kinvD(5) [OF inv] b] by (simp add: tm)
      show "th_base s' t = RT_THREAD_SUSPEND"
        if "tm_row (k_timer s' (ThreadTimer t)) = Some Timer_list"
        using that s2(5) by (simp add: tm)
    qed (rule thr)
    show "k_lists s' h = remove1 t (k_lists s h)" if "wait_queue h" for h
      using that by (cases h) (auto simp: s'_def inserted_lists fr2(3) lists1)
  qed (rule base fr)+
qed

text \<open>Linking a suspended thread into a wait queue.\<close>

lemma link_ok:
  assumes inv: "kinv s" and sus: "th_base s t = RT_THREAD_SUSPEND"
    and tl: "th_tlist (k_thread s t) = None" and h: "wait_queue h"
    and xs: "distinct xs" "set xs = insert t (set (k_lists s h))"
  obtains s' where "tlist_link t h xs s = Some s'" "kinv s'" "k_lists s' = (k_lists s)(h := xs)"
    "k_thread s' = (k_thread s)(t := k_thread s t\<lparr>th_tlist := Some h\<rparr>)" "thread_frame {t} s s'"
    "k_timer s' = k_timer s"
proof -
  let ?s' = "(upd_thread t (th_tlist_update (\<lambda>_. Some h)) s)\<lparr>k_lists := (k_lists s)(h := xs)\<rparr>"
  have q: "queue_inv s" using kinvD(6) [OF inv] .
  have b: "th_base s t \<in> {RT_THREAD_READY, RT_THREAD_SUSPEND, RT_THREAD_RUNNING}" using sus by simp
  note ok = queue_invD(1) [OF q, of t]
  have out: "t \<notin> set (k_lists s h')" for h' using queue_inv_member [OF q, of t h'] tl by simp
  have hr: "h \<noteq> Ready p" for p using h by auto
  have "queue_inv ?s'"
  proof (rule queue_inv_update [OF q])
    show "thread_ok (k_thread s t\<lparr>th_tlist := Some h\<rparr>)"
      using thread_ok_mask [OF ok b] thread_ok_prio [OF ok] sus h by (simp add: thread_ok_def)
    show "distinct (k_lists ?s' h')" for h'
      using queue_inv_distinct [OF q, of h'] xs(1) by simp
    show "set (k_lists ?s' h') = set (k_lists s h') - {t}
        \<union> (if th_tlist (k_thread s t\<lparr>th_tlist := Some h\<rparr>) = Some h' then {t} else {})" for h'
      using out [of h'] out [of h] xs(2) by auto
    show "bit (k_group ?s') p \<longleftrightarrow> k_lists ?s' (Ready p) \<noteq> []" for p
      using queue_inv_group [OF q, of p] hr [of p] by (simp add: hr [symmetric])
  qed simp
  moreover have "run_ok ?s'"
    using sched_invD(2) [OF kinvD(1) [OF inv]] by (auto simp: run_ok_def)
  ultimately have sinv: "sched_inv ?s'" by (simp add: sched_inv_def)
  have tinv: "timers_inv ?s'" using kinvD(2) [OF inv] timers_inv_cong [of ?s' s] by simp
  have "kinv ?s'"
    by (rule kinv_update [OF inv sinv tinv, of t])
      (use kinv_objs [OF inv b] stacks_okD [OF kinvD(5) [OF inv] b] sus in
        \<open>auto simp: stack_check_fields\<close>)
  moreover have "thread_frame {t} s ?s'"
    by (simp add: thread_frame_def objs_frame_def)
  ultimately show thesis
    using that [of ?s'] tl by (simp add: tlist_link_def)
qed

text \<open>Starting the timer of a suspended thread.\<close>

lemma arm_kinv:
  assumes inv: "kinv s" and sus: "th_base s t = RT_THREAD_SUSPEND" and tick: "tick < TICK_HALF"
  obtains s' where "timer_arm (ThreadTimer t) tick s = Some s'" "kinv s'"
    "k_thread s' = k_thread s" "k_lists s' = k_lists s" "thread_frame {t} s s'"
    "tm_row (k_timer s' (ThreadTimer t)) = Some Timer_list"
    "tm_timeout_tick (k_timer s' (ThreadTimer t)) = k_tick s + tick"
proof -
  have b: "th_base s t \<in> {RT_THREAD_READY, RT_THREAD_SUSPEND, RT_THREAD_RUNNING}" using sus by simp
  note obj = kinv_objs [OF inv b]
  obtain s' where s': "timer_arm (ThreadTimer t) tick s = Some s'" "timers_inv s'"
      "timer_frame {ThreadTimer t} s s'" "tm_row (k_timer s' (ThreadTimer t)) = Some Timer_list"
      "tm_obj (k_timer s' (ThreadTimer t))"
      "tm_timeout_tick (k_timer s' (ThreadTimer t)) = k_tick s + tick"
    using arm_ok [OF kinvD(2) [OF inv] obj(2) tick] by metis
  note fr = timer_frameD [OF s'(3)]
  have sinv: "sched_inv s'" using timer_frame_sched_inv [OF s'(3)] kinvD(1) [OF inv] by simp
  have "kinv s'"
    by (rule kinv_update [OF inv sinv s'(2), of t])
      (use obj s'(5) stacks_okD [OF kinvD(5) [OF inv] b] sus fr(9) in \<open>auto simp: fr(2)\<close>)
  then show thesis
    using that [OF s'(1)] fr s'(4,6) timer_frame_thread_frame [OF s'(3)] by blast
qed

text \<open>Updates of fields the invariant does not read.\<close>

lemma kinv_upd_thread:
  assumes inv: "kinv s"
    and f: "th_stat (f (k_thread s t)) = th_stat (k_thread s t)"
      "th_tlist (f (k_thread s t)) = th_tlist (k_thread s t)"
      "th_current_priority (f (k_thread s t)) = th_current_priority (k_thread s t)"
      "th_number_mask (f (k_thread s t)) = th_number_mask (k_thread s t)"
      "th_obj (f (k_thread s t)) = th_obj (k_thread s t)"
      "scheduler_stack_check (f (k_thread s t)) = scheduler_stack_check (k_thread s t)"
  shows "kinv (upd_thread t f s)"
proof (rule kinv_update [OF inv, of _ t])
  let ?s' = "upd_thread t f s"
  have "thread_ok (f (k_thread s t)) = thread_ok (k_thread s t)"
    by (rule thread_ok_cong) (simp_all add: f)
  then have "queue_inv ?s'"
    using kinvD(6) [OF inv] f(2) by (auto simp: queue_inv_def links_ok_def group_ok_def)
  moreover have "run_ok ?s'"
    using sched_invD(2) [OF kinvD(1) [OF inv]] f(1) by (simp add: run_ok_def)
  ultimately show "sched_inv ?s'" by (simp add: sched_inv_def)
  show "timers_inv ?s'" using kinvD(2) [OF inv] timers_inv_cong [of ?s' s] by simp
  show "th_base ?s' t = RT_THREAD_SUSPEND"
    if "tm_row (k_timer ?s' (ThreadTimer t)) = Some Timer_list"
    using that kinvD(3) [OF inv] f(1) by (simp add: timer_susp_def)
qed (use kinv_objs [OF inv, of t] stacks_okD [OF kinvD(5) [OF inv], of t] f in auto)

lemma kinv_set_error: "kinv s \<Longrightarrow> kinv (upd_thread t (\<lambda>th. th\<lparr>th_error := e\<rparr>) s)"
  by (rule kinv_upd_thread) (simp_all add: stack_check_fields)

text \<open>
  The timeout of a suspended thread whose timer has been taken off the list is a resumption
  with the timeout error.
\<close>

lemma thread_timeout_eq:
  assumes "kinv s" "th_base s t = RT_THREAD_SUSPEND"
    "tm_row (k_timer s (ThreadTimer t)) \<noteq> Some Timer_list"
  shows "thread_timeout t s = do {
     (_, s3) \<leftarrow> rt_thread_resume t (upd_thread t (\<lambda>th. th\<lparr>th_error := - RT_ETIMEOUT\<rparr>) s);
     rt_schedule s3
   }"
proof -
  have "\<not> tm_activated (k_timer s (ThreadTimer t))"
    using timers_invD(1) [OF kinvD(2) [OF assms(1)], of "ThreadTimer t"] assms(3)
    by (auto simp: timer_ok_def)
  then show ?thesis
    using kinv_objs [OF assms(1), of t] assms(2)
    by (simp add: thread_timeout_def rt_thread_resume_def rt_timer_stop_def bind_eq_Some_conv
        del: not_None_eq split: bind_split)
qed

lemma timeout_ok:
  assumes inv: "kinv s" and sus: "th_base s t = RT_THREAD_SUSPEND"
    and tm: "tm_row (k_timer s (ThreadTimer t)) \<noteq> Some Timer_list" and cur: "k_current s = Some c"
  obtains s' where "thread_timeout t s = Some s'" "kinv s'" "\<exists>c'. k_current s' = Some c'"
    "th_error (k_thread s' t) = - RT_ETIMEOUT"
    "th_base s' t \<in> {RT_THREAD_READY, RT_THREAD_RUNNING}"
    "\<And>h. wait_queue h \<Longrightarrow> k_lists s' h = remove1 t (k_lists s h)"
    "k_timers s' = k_timers s" "k_timer s' = k_timer s" "k_tick s' = k_tick s" "objs_frame s s'"
    "\<And>u. th_core (k_thread s' u)
       = th_core (if u = t then k_thread s t\<lparr>th_error := - RT_ETIMEOUT\<rparr> else k_thread s u)"
    "\<And>u. th_base s u \<in> {RT_THREAD_READY, RT_THREAD_RUNNING} \<Longrightarrow>
       th_base s' u \<in> {RT_THREAD_READY, RT_THREAD_RUNNING}"
proof -
  let ?s1 = "upd_thread t (\<lambda>th. th\<lparr>th_error := - RT_ETIMEOUT\<rparr>) s"
  have inv1: "kinv ?s1" by (rule kinv_set_error [OF inv])
  have sus1: "th_base ?s1 t = RT_THREAD_SUSPEND" using sus by simp
  obtain s2 where s2: "rt_thread_resume t ?s1 = Some (RT_EOK, s2)" "kinv s2"
      "th_base s2 t = (if k_current ?s1 = Some t then RT_THREAD_RUNNING else RT_THREAD_READY)"
      "\<And>h. wait_queue h \<Longrightarrow> k_lists s2 h = remove1 t (k_lists ?s1 h)" "thread_frame {t} ?s1 s2"
    using resume_ok [OF inv1 sus1] by metis
  have "\<not> tm_activated (k_timer ?s1 (ThreadTimer t))"
    using timers_invD(1) [OF kinvD(2) [OF inv], of "ThreadTimer t"] tm by (auto simp: timer_ok_def)
  then have tms: "k_timer s2 = k_timer s" "k_timers s2 = k_timers s"
    using s2(1) by (auto simp: rt_thread_resume_def rt_timer_stop_def rt_schedule_insert_thread_def
        tlist_insert_first_def tlist_insert_last_def tlist_link_def Let_def bind_eq_Some_conv
        split: if_splits)
  have cur2: "k_current s2 = Some c" using thread_frameD(5) [OF s2(5)] cur by simp
  obtain s' where s': "rt_schedule s2 = Some s'" "kinv s'" "sched_frame s2 s'"
      "\<exists>c'. k_current s' = Some c'"
    using schedule_kinv [OF s2(2) cur2] by metis
  note fr = sched_frameD [OF s'(3)]
  show thesis
  proof (rule that)
    show "thread_timeout t s = Some s'"
      using s2(1) s'(1) by (simp add: thread_timeout_eq [OF inv sus tm])
    show "th_error (k_thread s' t) = - RT_ETIMEOUT"
      using th_core_simps [OF fr(7), of t] th_core_simps [OF thread_frameD(7) [OF s2(5), of t]]
      by simp
    show "th_base s' t \<in> {RT_THREAD_READY, RT_THREAD_RUNNING}"
      using fr(9) [of t] s2(3) by (auto split: if_splits)
    show "k_lists s' h = remove1 t (k_lists s h)" if "wait_queue h" for h
    proof -
      have "k_lists s' h = k_lists s2 h" using that by (intro fr(10)) auto
      then show ?thesis using s2(4) [OF that] by simp
    qed
    show "objs_frame s s'"
      using fr(1) thread_frameD(1) [OF s2(5)] by (auto simp: objs_frame_def)
    show "k_tick s' = k_tick s" using fr(2) thread_frameD(2) [OF s2(5)] by simp
    show "th_core (k_thread s' u)
        = th_core (if u = t then k_thread s t\<lparr>th_error := - RT_ETIMEOUT\<rparr> else k_thread s u)" for u
      using sched_frameD(7) [OF s'(3), of u] thread_frameD(7) [OF s2(5), of u] by simp
    show "th_base s' u \<in> {RT_THREAD_READY, RT_THREAD_RUNNING}"
      if "th_base s u \<in> {RT_THREAD_READY, RT_THREAD_RUNNING}" for u
    proof (rule sched_frameD(9) [OF s'(3)])
      have "u \<noteq> t" using that sus by auto
      then show "th_base s2 u \<in> {RT_THREAD_READY, RT_THREAD_RUNNING}"
        using thread_frameD(6) [OF s2(5), of u] that by simp
    qed
  qed (use s' tms fr(3,4) in auto)
qed

lemma change_priority_ok:
  assumes inv: "kinv s" and obj: "th_obj (k_thread s t)" and p: "p < RT_THREAD_PRIORITY_MAX"
  obtains s' where "thread_change_priority t p s = Some s'" "kinv s'" "th_prio s' t = p"
    "th_base s' t = th_base s t" "\<And>u. u \<noteq> t \<Longrightarrow> k_thread s' u = k_thread s u"
    "k_timer s' = k_timer s" "k_timers s' = k_timers s" "k_current s' = k_current s"
    "objs_frame s s'" "\<And>h. wait_queue h \<Longrightarrow> k_lists s' h = k_lists s h"
    "th_core (k_thread s' t)
      = th_core (k_thread s t\<lparr>th_current_priority := p, th_number_mask := prio_mask p\<rparr>)"
proof -
  let ?f = "\<lambda>th. th\<lparr>th_current_priority := p, th_number_mask := prio_mask p\<rparr>"
  have q: "queue_inv s" using kinvD(6) [OF inv] .
  note run = sched_invD(2) [OF kinvD(1) [OF inv]]
  have stack: "scheduler_stack_check (th\<lparr>th_current_priority := p, th_number_mask := m, th_tlist := l,
      th_stat := x\<rparr>) = scheduler_stack_check th" for th m l x
    by (simp add: scheduler_stack_check_def)
  show thesis
  proof (cases "th_base s t = RT_THREAD_READY")
    case ready: True
    then have b: "th_base s t \<in> {RT_THREAD_READY, RT_THREAD_SUSPEND, RT_THREAD_RUNNING}" by simp
    note eqs = remove_thread_eq [OF q b]
    have nc: "k_current s \<noteq> Some t"
      using sched_inv_current [OF kinvD(1) [OF inv], of t] ready by auto
    have wq: "t \<notin> set (k_lists s h)" if "wait_queue h" for h
      using thread_ok_waiting [OF queue_invD(1) [OF q], of t h] that ready
      by (auto simp: queue_inv_member [OF q])
    let ?s1 = "upd_stat (set_stat RT_THREAD_SUSPEND) t (rt_schedule_remove_thread t s)"
    let ?s2 = "upd_thread t ?f ?s1"
    have q1: "queue_inv ?s1" by (rule removed_queue_inv [OF q b]) simp
    have q2: "queue_inv ?s2"
      using p by (intro queue_inv_thread [OF q1]) (auto simp: thread_ok_def)
    have q3: "queue_inv (inserted t ?s2)"
      by (rule inserted_queue_inv [OF q2]) auto
    text \<open>The status in between does not matter.\<close>
    have ss: "set_stat RT_THREAD_READY (set_stat RT_THREAD_SUSPEND x) = set_stat RT_THREAD_READY x" for x
      by (simp add: set_stat_def bit.conj_disj_distrib2 and.assoc)
    let ?s' = "inserted t (upd_thread t ?f (rt_schedule_remove_thread t s))"
    have same: "?s' = inserted t ?s2"
      by (simp add: inserted_def upd_thread_def upd_stat_def Let_def ss)
    have res: "thread_change_priority t p s = Some ?s'"
      using obj p ready nc
      by (simp add: thread_change_priority_def insert_thread_eq eqs(4))
    have "run_ok ?s'" using run nc ready by (auto simp: run_ok_def eqs(4))
    then have sinv: "sched_inv ?s'" using q3 same by (simp add: sched_inv_def)
    have tinv: "timers_inv ?s'" using kinvD(2) [OF inv] timers_inv_cong [of ?s' s] by simp
    have kinv': "kinv ?s'"
      by (rule kinv_update [OF inv sinv tinv, of t])
        (use kinv_objs [OF inv b] stacks_okD [OF kinvD(5) [OF inv] b] kinvD(3) [OF inv] ready in
          \<open>auto simp: timer_susp_def scheduler_stack_check_def split: if_splits\<close>)
    show thesis
      by (rule that [OF res kinv'])
        (use ready in \<open>auto simp: eqs(2,4) inserted_lists objs_frame_def remove1_idem wq th_core_def\<close>)
  next
    case False
    let ?s' = "upd_thread t ?f s"
    have res: "thread_change_priority t p s = Some ?s'"
      using obj p False by (simp add: thread_change_priority_def)
    have "thread_ok (?f (k_thread s t))"
      using queue_invD(1) [OF q, of t] False p by (auto simp: thread_ok_def split: option.splits)
    then have "queue_inv ?s'" by (intro queue_inv_thread [OF q]) auto
    moreover have "run_ok ?s'" using run by (simp add: run_ok_def)
    ultimately have sinv: "sched_inv ?s'" by (simp add: sched_inv_def)
    have tinv: "timers_inv ?s'" using kinvD(2) [OF inv] timers_inv_cong [of ?s' s] by simp
    have kinv': "kinv ?s'"
      by (rule kinv_update [OF inv sinv tinv, of t])
        (use kinv_objs [OF inv, of t] stacks_okD [OF kinvD(5) [OF inv], of t] kinvD(3) [OF inv] in
          \<open>auto simp: timer_susp_def scheduler_stack_check_def split: if_splits\<close>)
    show thesis
      by (rule that [OF res kinv']) (simp_all add: objs_frame_def th_core_def)
  qed
qed

section \<open>Start-up, delays and yielding\<close>

lemma startup_ok:
  assumes inv: "kinv s" and init: "th_base s t = RT_THREAD_INIT" and obj: "th_obj (k_thread s t)"
    and tm: "tm_obj (k_timer s (ThreadTimer t))"
    and stack: "scheduler_stack_check (k_thread s t) = Some ()"
  obtains s1 where "rt_thread_startup t s = (if k_current s = None then Some (RT_EOK, s1)
        else map_option (Pair RT_EOK) (rt_schedule s1))"
    "kinv s1" "th_base s1 t = RT_THREAD_READY" "th_prio s1 t = th_prio s t"
    "k_current s1 = k_current s" "k_lock_nest s1 = k_lock_nest s"
    "\<And>u. u \<noteq> t \<Longrightarrow> k_thread s1 u = k_thread s u"
proof -
  let ?f = "\<lambda>th. th\<lparr>th_number_mask := prio_mask (th_current_priority th),
                     th_stat := RT_THREAD_SUSPEND\<rparr>"
  let ?s0 = "upd_thread t ?f s"
  have q: "queue_inv s" using kinvD(6) [OF inv] .
  have tl: "th_tlist (k_thread s t) = None"
    using queue_invD(1) [OF q, of t] init by (auto simp: thread_ok_def split: option.splits)
  have "queue_inv ?s0"
    using tl thread_ok_prio [OF queue_invD(1) [OF q, of t]]
    by (intro queue_inv_thread [OF q]) (auto simp: thread_ok_def)
  moreover have "run_ok ?s0"
    using sched_invD(2) [OF kinvD(1) [OF inv]] init by (auto simp: run_ok_def)
  ultimately have sinv: "sched_inv ?s0" by (simp add: sched_inv_def)
  have tinv: "timers_inv ?s0" using kinvD(2) [OF inv] timers_inv_cong [of ?s0 s] by simp
  have inv0: "kinv ?s0"
    by (rule kinv_update [OF inv sinv tinv, of t])
      (use obj tm stack in \<open>auto simp: scheduler_stack_check_def split: if_splits\<close>)
  have nc: "k_current s \<noteq> Some t"
    using sched_inv_current [OF kinvD(1) [OF inv], of t] init by auto
  have sus0: "th_base ?s0 t = RT_THREAD_SUSPEND" by simp
  obtain s1 where s1: "rt_thread_resume t ?s0 = Some (RT_EOK, s1)" "kinv s1"
      "th_base s1 t = (if k_current ?s0 = Some t then RT_THREAD_RUNNING else RT_THREAD_READY)"
      "thread_frame {t} ?s0 s1"
    using resume_ok [OF inv0 sus0] by blast
  note fr = thread_frameD [OF s1(4)]
  show thesis
  proof (rule that)
    show "rt_thread_startup t s = (if k_current s = None then Some (RT_EOK, s1)
        else map_option (Pair RT_EOK) (rt_schedule s1))"
      using init obj s1(1) fr(5)
      by (cases "rt_schedule s1") (auto simp: rt_thread_startup_def rt_thread_self_def Let_def)
    show "th_prio s1 t = th_prio s t" using th_core_simps [OF fr(7), of t] by simp
    show "k_thread s1 u = k_thread s u" if "u \<noteq> t" for u using fr(6) [of u] that by simp
  qed (use s1 nc fr(3,5) in auto)
qed

text \<open>A delay of the running thread.\<close>

lemma wait_ticks_ok:
  assumes inv: "kinv s" and cur: "k_current s = Some t" and run: "th_base s t = RT_THREAD_RUNNING"
    and tick: "tick < TICK_HALF"
  obtains s' where "thread_wait_ticks t tick s = Some s'" "kinv s'"
    "th_base s' t = RT_THREAD_SUSPEND" "th_tlist (k_thread s' t) = None"
    "tm_row (k_timer s' (ThreadTimer t)) = Some Timer_list"
    "tm_timeout_tick (k_timer s' (ThreadTimer t)) = k_tick s + tick"
    "th_core (k_thread s' t) = th_core (k_thread s t)"
    "k_lock_nest s = 0 \<Longrightarrow> \<exists>u. th_base s u = RT_THREAD_READY \<Longrightarrow> runs_most_urgent s'"
proof -
  obtain s1 where s1: "rt_thread_suspend t s = Some (RT_EOK, s1)" "kinv s1"
      "th_base s1 t = RT_THREAD_SUSPEND" "th_tlist (k_thread s1 t) = None" "k_lists s1 = k_lists s"
      "thread_frame {t} s s1"
    using suspend_ok [OF inv cur run] by metis
  note fr1 = thread_frameD [OF s1(6)]
  obtain s2 where s2: "timer_arm (ThreadTimer t) tick s1 = Some s2" "kinv s2"
      "k_thread s2 = k_thread s1" "k_lists s2 = k_lists s1" "thread_frame {t} s1 s2"
      "tm_row (k_timer s2 (ThreadTimer t)) = Some Timer_list"
      "tm_timeout_tick (k_timer s2 (ThreadTimer t)) = k_tick s1 + tick"
    using arm_kinv [OF s1(2,3) tick] by metis
  note fr2 = thread_frameD [OF s2(5)]
  have cur2: "k_current s2 = Some t" using fr1(5) fr2(5) cur by simp
  obtain s' where s': "rt_schedule s2 = Some s'" "kinv s'" "sched_frame s2 s'"
      "k_lock_nest s2 = 0 \<Longrightarrow> th_base s2 t = RT_THREAD_RUNNING \<or>
         (\<exists>t. th_base s2 t = RT_THREAD_READY) \<Longrightarrow> runs_most_urgent s'"
    using schedule_kinv [OF s2(2) cur2] by metis
  note fr = sched_frameD [OF s'(3)]
  have keep: "k_thread s' t = k_thread s1 t" using fr(8) [of t] s1(3) s2(3) by simp
  have rdy: "\<exists>u. th_base s2 u = RT_THREAD_READY" if "\<exists>u. th_base s u = RT_THREAD_READY"
  proof -
    from that obtain u where u: "th_base s u = RT_THREAD_READY" by blast
    then have "u \<noteq> t" using run by auto
    then show ?thesis using u fr1(6) [of u] s2(3) by (intro exI [of _ u]) simp
  qed
  show thesis
  proof (rule that)
    show "thread_wait_ticks t tick s = Some s'"
      using s1(1) s2(1) s'(1) by (simp add: thread_wait_ticks_def)
    show "runs_most_urgent s'" if "k_lock_nest s = 0" "\<exists>u. th_base s u = RT_THREAD_READY"
      using s'(4) rdy [OF that(2)] that(1) fr1(3) fr2(3) by simp
    show "th_core (k_thread s' t) = th_core (k_thread s t)" using keep fr1(7) by simp
  qed (use s'(2) keep s1(3,4) s2(6,7) fr(3) fr1(2) in auto)
qed

text \<open>
  A yield among threads of the most urgent priority: the head of the queue runs and the caller
  goes to the front of the queue (the yield flag is cleared before it is queued).
\<close>

lemma yield_ok:
  assumes inv: "kinv s" and cur: "k_current s = Some a" and run: "th_base s a = RT_THREAD_RUNNING"
    and lock: "k_lock_nest s = 0" and q: "k_lists s (Ready (th_prio s a)) = b # rest"
    and top: "\<And>u. th_base s u = RT_THREAD_READY \<Longrightarrow> th_prio s a \<le> th_prio s u"
  obtains s' where "rt_thread_yield s = Some s'" "kinv s'" "k_current s' = Some b"
    "th_base s' b = RT_THREAD_RUNNING" "k_lock_nest s' = 0"
    "k_lists s' (Ready (th_prio s a)) = a # rest" "\<And>u. th_prio s' u = th_prio s u"
    "\<And>u. th_base s' u = RT_THREAD_READY \<Longrightarrow> th_prio s a \<le> th_prio s u"
proof -
  let ?f = "\<lambda>th. th\<lparr>th_remaining_tick := th_init_tick th, th_stat := set_yield (th_stat th)\<rparr>"
  let ?s1 = "upd_thread a ?f s"
  have b: "th_base s b = RT_THREAD_READY" "th_prio s b = th_prio s a"
    using ready_queue_member [OF kinvD(6) [OF inv], of b "th_prio s a"] q by auto
  then have ab: "a \<noteq> b" using run by auto
  have base1: "th_base ?s1 u = th_base s u" for u by simp
  have prio1: "th_prio ?s1 u = th_prio s u" for u by simp
  have "queue_inv ?s1"
  proof (rule queue_inv_thread [OF kinvD(6) [OF inv]])
    show "thread_ok (?f (k_thread s a))"
      using queue_invD(1) [OF kinvD(6) [OF inv], of a]
      by (rule iffD1 [OF thread_ok_cong, rotated -1]) simp_all
  qed simp
  moreover have "run_ok ?s1"
    using sched_invD(2) [OF kinvD(1) [OF inv]] by (simp add: run_ok_def)
  ultimately have sinv: "sched_inv ?s1" by (simp add: sched_inv_def)
  have tinv: "timers_inv ?s1" using kinvD(2) [OF inv] timers_inv_cong [of ?s1 s] by simp
  have inv1: "kinv ?s1"
    by (rule kinv_update [OF inv sinv tinv, of a])
      (use run kinv_objs [OF inv, of a] stacks_okD [OF kinvD(5) [OF inv], of a] kinvD(3) [OF inv] in
        \<open>auto simp: timer_susp_def scheduler_stack_check_def split: if_splits\<close>)
  have nk: "\<not> keeps_cpu ?s1 a (th_prio s a)" by (simp add: keeps_cpu_def)
  have cur1: "k_current ?s1 = Some a" using cur by simp
  show thesis
    using kinvD(1) [OF inv1] cur1 kinvD(5) [OF inv1]
  proof (cases rule: schedule_cases)
    case same
    have "k_group s \<noteq> 0"
      using queue_inv_group [OF kinvD(6) [OF inv], of "th_prio s a"] q by auto
    then show thesis using same lock by simp
  next
    case (keep t p ts)
    have "th_prio s a \<le> p" "p \<le> th_prio s b"
      using ready_queue_member [OF kinvD(6) [OF inv1], of t p] keep(2) top [of t] keep(4) [of b] b ab
      by (auto split: if_splits)
    then have "p = th_prio s a" using b(2) by simp
    then show thesis using keep(3) nk by simp
  next
    case (switch t p ts)
    have "th_prio s a \<le> p" "p \<le> th_prio s b"
      using switch(4,5) top [of t] switch(6) [of b] b ab by (auto split: if_splits)
    then have p: "p = th_prio s a" using b(2) by simp
    then have t: "t = b" using switch(2) q by simp
    let ?s' = "switched a b p ?s1"
    have rdy: "th_base ?s1 b = RT_THREAD_READY" using b ab by simp
    note k = switched_ok [OF kinvD(1) [OF inv1] cur1 rdy, of p]
    note fr = sched_frameD [OF k(2)]
    have prio: "th_prio ?s' u = th_prio s u" for u
      using th_core_simps [OF fr(7), of u] prio1 [of u] by simp
    show thesis
    proof (rule that)
      show "rt_thread_yield s = Some ?s'"
        using switch(7) cur by (simp add: rt_thread_yield_def rt_thread_self_def t)
      show "kinv ?s'" by (rule kinv_sched_frame [OF inv1 k(1,2)])
      show "k_lists ?s' (Ready (th_prio s a)) = a # rest"
        using run q ab k(5) [of "th_prio s a"] by (simp add: p)
      show "th_prio s a \<le> th_prio s u" if "th_base ?s' u = RT_THREAD_READY" for u
        using that top [of u] by (auto simp: k(4) base1 split: if_splits)
    qed (use k(3,4) fr(5) lock prio in auto)
  qed
qed

end
