(* ===== verification/Samples.thy ===== *)
theory Samples
  imports Thread
begin

text \<open>
  A small concrete kernel state, well formed, used to instantiate the properties: thread 0 runs
  at priority 10, threads 1 and 2 are ready at priority 10, threads 3 to 6 wait on a semaphore,
  a mutex, an event and a mailbox, thread 7 sleeps until tick 105, all others are initialised
  but not started.  The current tick is 100.
\<close>

definition th_sample :: "nat \<Rightarrow> rt_uint8_t \<Rightarrow> head option \<Rightarrow> rt_thread" where
  "th_sample p st h =
     \<lparr>th_obj = True, th_system = True, th_tlist = h, th_sp = 1100, th_stack_addr = 1000,
      th_stack_size = 200, th_stack_guard = 35, th_error = 0, th_stat = st,
      th_current_priority = p, th_init_priority = p, th_number_mask = prio_mask p,
      th_taken_object_list = [], th_pending_object = None, th_event_set = 0, th_event_info = 0,
      th_init_tick = 10, th_remaining_tick = 10\<rparr>"

definition threads_sample :: "tid \<Rightarrow> rt_thread" where
  "threads_sample t =
     (if t = 0 then th_sample 10 RT_THREAD_RUNNING None
      else if t = 1 then th_sample 10 RT_THREAD_READY (Some (Ready 10))
      else if t = 2 then th_sample 10 RT_THREAD_READY (Some (Ready 10))
      else if t = 3 then th_sample 5 RT_THREAD_SUSPEND (Some (SemQ 0))
      else if t = 4 then (th_sample 8 RT_THREAD_SUSPEND (Some (MutexQ 0)))\<lparr>th_pending_object := Some 0\<rparr>
      else if t = 5 then (th_sample 9 RT_THREAD_SUSPEND (Some (EventQ 0)))
                           \<lparr>th_event_set := 5, th_event_info := 1\<rparr>
      else if t = 6 then th_sample 7 RT_THREAD_SUSPEND (Some (MbRecvQ 0))
      else if t = 7 then th_sample 6 RT_THREAD_SUSPEND None
      else th_sample 20 RT_THREAD_INIT None)"

definition lists_sample :: "head \<Rightarrow> tid list" where
  "lists_sample h =
     (if h = Ready 10 then [1, 2] else if h = SemQ 0 then [3] else if h = MutexQ 0 then [4]
      else if h = EventQ 0 then [5] else if h = MbRecvQ 0 then [6] else [])"

definition timers_sample :: "tmid \<Rightarrow> rt_timer" where
  "timers_sample i =
     \<lparr>tm_obj = True, tm_system = True,
      tm_row = (if i = ThreadTimer 7 then Some Timer_list else None),
      tm_flag = (if i = ThreadTimer 7 then 1 else 0),
      tm_timeout_func = (case i of ThreadTimer t \<Rightarrow> Thread_timeout t | UserTimer n \<Rightarrow> User_timeout n),
      tm_init_tick = 5, tm_timeout_tick = (if i = ThreadTimer 7 then 105 else 0)\<rparr>"

definition drv_sample :: drv_state where
  "drv_sample =
     \<lparr>dv_completion = (\<lambda>_. \<lparr>cp_flag = False\<rparr>),
      dv_dq = (\<lambda>_. \<lparr>dq_magic = True, dq_size = 2, dq_lwm = 1, dq_get_index = 0, dq_put_index = 0,
                      dq_is_empty = True, dq_is_full = False, dq_queue = [(0, 0), (0, 0)],
                      dq_evt_notify = None\<rparr>),
      dv_wqueue = (\<lambda>_. \<lparr>wq_flag = False, wq_waiting_list = []\<rparr>),
      dv_wnode = (\<lambda>_. \<lparr>wn_list = None, wn_polling_thread = 0, wn_wakeup = 0\<rparr>),
      dv_workq = (\<lambda>_. \<lparr>wkq_work_list = [], wkq_delayed_list = [],
                        wkq_current = None, wkq_sem = 1, wkq_thread = 7\<rparr>),
      dv_work = (\<lambda>n. \<lparr>wk_list = None, wk_func = n, wk_pending = False, wk_submitting = False, wk_workqueue = None\<rparr>)\<rparr>"

definition k_sample :: kstate where
  "k_sample =
     \<lparr>k_thread = threads_sample, k_lists = lists_sample, k_group = prio_mask 10,
      k_current = Some 0, k_current_priority = 10, k_lock_nest = 0, k_irq_nest = 0, k_tick = 100,
      k_timer = timers_sample,
      k_timers = (\<lambda>l. if l = Timer_list then [ThreadTimer 7] else []),
      k_sem = (\<lambda>_. \<lparr>sem_obj = True, sem_system = True, sem_prio = True, sem_value = 0\<rparr>),
      k_mutex = (\<lambda>n. \<lparr>mx_obj = True, mx_system = True, mx_ceiling_priority = 255,
                       mx_priority = 255, mx_hold = 0, mx_owner = None, mx_taken_by = None\<rparr>),
      k_event = (\<lambda>_. \<lparr>ev_obj = True, ev_system = True, ev_prio = False, ev_set = 0\<rparr>),
      k_mb = (\<lambda>_. \<lparr>mb_obj = True, mb_system = True, mb_prio = False, mb_msg_pool = [0, 0],
                     mb_size = 2, mb_entry = 0, mb_in_offset = 0, mb_out_offset = 0\<rparr>),
      k_mq = (\<lambda>_. \<lparr>mq_obj = True, mq_system = True, mq_prio = False,
                     mq_next = (\<lambda>b. if b = 0 then Some 1 else None), mq_data = (\<lambda>_. [0, 0, 0, 0]),
                     mq_msg_size = 4, mq_max_msgs = 2, mq_entry = 0, mq_head = None,
                     mq_tail = None, mq_free = Some 0\<rparr>),
      k_mp = (\<lambda>_. \<lparr>mp_obj = True, mp_system = True, mp_size = 24, mp_block_size = 8,
                     mp_block_total_count = 2, mp_block_free_count = 2, mp_block_list = Some 0,
                     mp_words = (\<lambda>i. if i = 0 then Mp_block 1 else Mp_null)\<rparr>),
      k_drv = drv_sample\<rparr>"

lemma th_sample_simps [simp]:
  "th_obj (th_sample p st h)" "th_tlist (th_sample p st h) = h" "th_stat (th_sample p st h) = st"
  "th_current_priority (th_sample p st h) = p" "th_init_priority (th_sample p st h) = p"
  "th_number_mask (th_sample p st h) = prio_mask p" "th_error (th_sample p st h) = 0"
  "th_taken_object_list (th_sample p st h) = []" "th_pending_object (th_sample p st h) = None"
  "th_event_set (th_sample p st h) = 0" "th_event_info (th_sample p st h) = 0"
  "th_system (th_sample p st h)" "th_remaining_tick (th_sample p st h) = 10"
  "th_init_tick (th_sample p st h) = 10"
  by (simp_all add: th_sample_def)

lemma k_sample_simps [simp]:
  "k_thread k_sample = threads_sample" "k_lists k_sample = lists_sample"
  "k_group k_sample = prio_mask 10" "k_current k_sample = Some 0" "k_lock_nest k_sample = 0"
  "k_irq_nest k_sample = 0" "k_tick k_sample = 100" "k_timer k_sample = timers_sample"
  "k_timers k_sample = (\<lambda>l. if l = Timer_list then [ThreadTimer 7] else [])"
  by (simp_all add: k_sample_def)

lemma threads_sample_simps [simp]:
  "threads_sample 0 = th_sample 10 RT_THREAD_RUNNING None"
  "threads_sample 1 = th_sample 10 RT_THREAD_READY (Some (Ready 10))"
  "threads_sample (Suc 0) = th_sample 10 RT_THREAD_READY (Some (Ready 10))"
  "threads_sample 2 = th_sample 10 RT_THREAD_READY (Some (Ready 10))"
  "threads_sample 3 = th_sample 5 RT_THREAD_SUSPEND (Some (SemQ 0))"
  "threads_sample 4 = (th_sample 8 RT_THREAD_SUSPEND (Some (MutexQ 0)))\<lparr>th_pending_object := Some 0\<rparr>"
  "threads_sample 5 = (th_sample 9 RT_THREAD_SUSPEND (Some (EventQ 0)))
                        \<lparr>th_event_set := 5, th_event_info := 1\<rparr>"
  "threads_sample 6 = th_sample 7 RT_THREAD_SUSPEND (Some (MbRecvQ 0))"
  "threads_sample 7 = th_sample 6 RT_THREAD_SUSPEND None"
  "threads_sample 8 = th_sample 20 RT_THREAD_INIT None"
  by (simp_all add: threads_sample_def)

lemma lists_sample_simps [simp]:
  "lists_sample (Ready 10) = [1, 2]" "lists_sample (SemQ 0) = [3]" "lists_sample (MutexQ 0) = [4]"
  "lists_sample (EventQ 0) = [5]" "lists_sample (MbRecvQ 0) = [6]"
  by (simp_all add: lists_sample_def)

lemma sample_thread_ok: "thread_ok (threads_sample t)"
  by (simp add: threads_sample_def thread_ok_def)

lemma sample_stack: "scheduler_stack_check (threads_sample t) = Some ()"
  by (simp add: threads_sample_def scheduler_stack_check_def th_sample_def)

lemma sample_base:
  "stat_of (th_stat (threads_sample t)) =
     (if t = 0 then RT_THREAD_RUNNING else if t \<le> 2 then RT_THREAD_READY
      else if t \<le> 7 then RT_THREAD_SUSPEND else RT_THREAD_INIT)"
  by (auto simp: threads_sample_def)

lemma sample_top:
  assumes "th_base k_sample u = RT_THREAD_READY"
  shows "10 \<le> th_prio k_sample u"
proof -
  have "u = 1 \<or> u = 2" using assms by (auto simp: sample_base split: if_splits)
  then show ?thesis by auto
qed

lemma kinv_sample: "kinv k_sample"
proof -
  have "links_ok k_sample"
    by (auto simp: links_ok_def lists_sample_def threads_sample_def)
  moreover have "group_ok k_sample"
    by (auto simp: group_ok_def lists_sample_def bit_prio_mask)
  moreover have "run_ok k_sample"
    by (auto simp: run_ok_def sample_base split: if_splits)
  ultimately have "sched_inv k_sample"
    by (simp add: sched_inv_def queue_inv_def sample_thread_ok)
  moreover have "timers_inv k_sample"
    by (auto simp: timers_inv_def timers_sample_def timer_ok_def tm_activated_def tm_periodic_def
        split: tmid.splits if_splits)
  moreover have "timer_susp k_sample"
    by (auto simp: timer_susp_def timers_sample_def split: if_splits)
  moreover have "objs_ok k_sample"
    by (auto simp: objs_ok_def timers_sample_def threads_sample_def)
  moreover have "stacks_ok k_sample"
    by (simp add: stacks_ok_def sample_stack)
  ultimately show ?thesis by (simp add: kinv_def)
qed

end
