(* ===== verification/ThreadProps.thy ===== *)
theory ThreadProps
  imports Samples
begin

text \<open>The properties of the scheduler, the timers and the threads.\<close>

section \<open>Scheduling\<close>

text \<open>
  C1: rt_schedule is safe and picks the right thread.  In a well-formed kernel with the
  scheduler unlocked it never fails, keeps the invariant, changes nothing but the ready queues,
  the current thread and the states of ready and running threads, and afterwards the current
  thread is running and no ready thread has a more urgent priority.
\<close>

theorem schedule_runs_most_urgent:
  assumes "kinv s" "k_current s = Some c" "k_lock_nest s = 0"
    and "th_base s c = RT_THREAD_RUNNING \<or> (\<exists>t. th_base s t = RT_THREAD_READY)"
  shows "\<exists>s'. rt_schedule s = Some s' \<and> kinv s' \<and> sched_frame s s' \<and> runs_most_urgent s'"
  using schedule_kinv [OF assms(1,2)] assms(3,4) by metis

theorem schedule_runs_most_urgent_witness:
  "\<exists>s'. rt_schedule k_sample = Some s' \<and> runs_most_urgent s'"
  using schedule_runs_most_urgent [OF kinv_sample, of 0] by auto

text \<open>
  Preemption.  When a thread t of a strictly more urgent priority heads the ready queues,
  rt_schedule switches to it and puts the preempted thread at the front of the queue of its
  own priority, so that it runs before its equals again.
\<close>

theorem preempted_thread_goes_first:
  assumes "kinv s" "k_current s = Some c" "k_lock_nest s = 0"
    and "th_base s c = RT_THREAD_RUNNING" "\<not> yield_flag (th_stat (k_thread s c))"
    and "th_base s t = RT_THREAD_READY" "th_prio s t < th_prio s c"
  shows "\<exists>s' u. rt_schedule s = Some s' \<and> kinv s' \<and> k_current s' = Some u
      \<and> th_base s' u = RT_THREAD_RUNNING \<and> th_base s' c = RT_THREAD_READY
      \<and> th_prio s u \<le> th_prio s t
      \<and> k_lists s' (Ready (th_prio s c)) = c # k_lists s (Ready (th_prio s c))
      \<and> hd (k_lists s (Ready (th_prio s u))) = u"
  using kinvD(1) [OF assms(1)] assms(2) kinvD(5) [OF assms(1)]
proof (cases rule: schedule_cases)
  case same
  then show ?thesis
    using assms(3,6) no_ready [OF kinvD(6) [OF assms(1)], of t] by auto
next
  case (keep u p ts)
  then show ?thesis using assms(4,7) keep(4) [OF assms(6)] by (auto simp: keeps_cpu_def)
next
  case (switch u p ts)
  note k = switched_ok [OF kinvD(1) [OF assms(1)] assms(2) switch(4), of p]
  have up: "th_prio s u \<le> th_prio s t" using switch(5,6) assms(6) by simp
  then have "u \<noteq> c" "p \<noteq> th_prio s c" using assms(7) switch(5) by auto
  moreover have "u \<notin> set (k_lists s (Ready (th_prio s c)))"
    using ready_queue_member(2) [OF kinvD(6) [OF assms(1)], of u "th_prio s c"] up assms(7) by auto
  moreover have "yield_flag (set_stat RT_THREAD_READY (clear_yield x)) = False" for x by simp
  ultimately show ?thesis
    using switch(2,5,7) k kinv_sched_frame [OF assms(1) k(1,2)] assms(4) up
    by (intro exI [of _ "switched c u p s"] exI [of _ u]) (simp add: remove1_idem)
qed

definition urgent_sample :: kstate where
  "urgent_sample = the (thread_change_priority 2 4 k_sample)"

lemma urgent_sample_facts:
  "kinv urgent_sample" "k_current urgent_sample = Some 0" "k_lock_nest urgent_sample = 0"
  "th_base urgent_sample 0 = RT_THREAD_RUNNING" "th_base urgent_sample 2 = RT_THREAD_READY"
  "th_prio urgent_sample 2 = 4" "th_prio urgent_sample 0 = 10"
  "\<not> yield_flag (th_stat (k_thread urgent_sample 0))"
proof -
  obtain s' where s': "thread_change_priority 2 4 k_sample = Some s'" "kinv s'" "th_prio s' 2 = 4"
      "th_base s' 2 = th_base k_sample 2" "\<And>u. u \<noteq> 2 \<Longrightarrow> k_thread s' u = k_thread k_sample u"
      "k_current s' = k_current k_sample"
    by (rule change_priority_ok [OF kinv_sample, of 2 4]) auto
  have "k_lock_nest s' = 0"
    using s'(1) by (auto simp: thread_change_priority_def rt_schedule_insert_thread_def Let_def
        tlist_insert_first_def tlist_insert_last_def tlist_link_def bind_eq_Some_conv split: if_splits)
  then show "kinv urgent_sample" "k_current urgent_sample = Some 0" "k_lock_nest urgent_sample = 0"
    "th_base urgent_sample 0 = RT_THREAD_RUNNING" "th_base urgent_sample 2 = RT_THREAD_READY"
    "th_prio urgent_sample 2 = 4" "th_prio urgent_sample 0 = 10"
    "\<not> yield_flag (th_stat (k_thread urgent_sample 0))"
    using s' by (simp_all add: urgent_sample_def yield_flag_def)
qed

theorem preempted_thread_goes_first_witness:
  "\<exists>s' u. rt_schedule urgent_sample = Some s' \<and> k_current s' = Some u
     \<and> k_lists s' (Ready 10) = 0 # k_lists urgent_sample (Ready 10)"
  using preempted_thread_goes_first [of urgent_sample 0 2] urgent_sample_facts by auto

text \<open>
  Yielding is not fair among three threads.  When the calling thread a and the threads
  \<open>b # rest\<close> of its queue are the most urgent ones, any number of successive rt_thread_yield
  calls by whichever thread runs alternates between a and b: the yield flag is cleared before
  the caller is queued, so it goes to the front, and the threads of rest never run.
\<close>

fun yields :: "nat \<Rightarrow> kstate \<Rightarrow> kstate option" where
  "yields 0 s = Some s"
| "yields (Suc n) s = Option.bind (rt_thread_yield s) (yields n)"

theorem yield_starves_third:
  assumes "kinv s" "k_current s = Some a" "th_base s a = RT_THREAD_RUNNING" "k_lock_nest s = 0"
    and "k_lists s (Ready (th_prio s a)) = b # rest"
    and "\<And>u. th_base s u = RT_THREAD_READY \<Longrightarrow> th_prio s a \<le> th_prio s u"
  shows "\<exists>s'. yields n s = Some s' \<and> kinv s'
      \<and> k_current s' = Some (if even n then a else b)
      \<and> k_lists s' (Ready (th_prio s a)) = (if even n then b else a) # rest"
  using assms
proof (induction n arbitrary: s a b)
  case 0
  then show ?case by simp
next
  case (Suc n)
  obtain s1 where s1: "rt_thread_yield s = Some s1" "kinv s1" "k_current s1 = Some b"
      "th_base s1 b = RT_THREAD_RUNNING" "k_lock_nest s1 = 0"
      "k_lists s1 (Ready (th_prio s a)) = a # rest" "\<And>u. th_prio s1 u = th_prio s u"
      "\<And>u. th_base s1 u = RT_THREAD_READY \<Longrightarrow> th_prio s a \<le> th_prio s u"
    using yield_ok [OF Suc.prems] by metis
  have "th_prio s b = th_prio s a"
    using ready_queue_member(2) [OF kinvD(6) [OF Suc.prems(1)], of b] Suc.prems(5) by auto
  then obtain s' where "yields n s1 = Some s'" "kinv s'"
      "k_current s' = Some (if even n then b else a)"
      "k_lists s' (Ready (th_prio s a)) = (if even n then a else b) # rest"
    using Suc.IH [OF s1(2-5), of a] s1(6-8) by auto
  then show ?case using s1(1) by auto
qed

theorem yield_starves_third_witness:
  "\<exists>s'. yields 1000 k_sample = Some s' \<and> k_current s' = Some 0 \<and> k_lists s' (Ready 10) = [1, 2]"
  using yield_starves_third [OF kinv_sample, of 0 1 "[2]" 1000] sample_top by auto

text \<open>
  Critical sections nest.  After n calls of rt_enter_critical (fewer than 32768)
  rt_schedule does nothing, the first n - 1 calls of rt_exit_critical only count down, and the
  last one performs exactly the scheduling that was held back.
\<close>

theorem critical_sections_nest:
  assumes "k_lock_nest s = 0" "k_current s \<noteq> None" "n < 32767"
  shows "rt_schedule ((rt_enter_critical ^^ Suc n) s) = Some ((rt_enter_critical ^^ Suc n) s)
    \<and> rt_exit_critical ((rt_enter_critical ^^ Suc n) s)
       = (if n = 0 then rt_schedule s else Some ((rt_enter_critical ^^ n) s))"
proof -
  have enter: "(rt_enter_critical ^^ m) s = s\<lparr>k_lock_nest := int m\<rparr>" if "m \<le> 32767" for m
    using that assms(1)
  proof (induction m)
    case (Suc m)
    then show ?case by (simp add: rt_enter_critical_def int16_def)
  qed simp
  have s0: "s\<lparr>k_lock_nest := 0\<rparr> = s" using assms(1) by simp
  show ?thesis
    using enter [of "Suc n"] enter [of n] assms
    by (auto simp: schedule_idle rt_exit_critical_def int16_def s0 simp del: funpow.simps)
qed

theorem critical_sections_nest_witness:
  "rt_exit_critical ((rt_enter_critical ^^ 1) k_sample) = rt_schedule k_sample"
  using critical_sections_nest [of k_sample 0] by simp


section \<open>Timers\<close>

text \<open>
  C15: rt_timer_start keeps the timer list sorted by expiry.  If the timeouts of the list and
  the new one all lie within half the tick range of a base tick, in spite of wrap-around, the
  timer is placed behind every timer that expires no later than it (so equal timeouts fire in
  the order they were started) and before all others, and the list stays sorted.
\<close>

theorem timer_start_keeps_order:
  assumes "timers_inv s" "tm_obj (k_timer s i)" "i \<notin> set (k_timers s Timer_list)"
    and "sorted (map (\<lambda>j. left_from b (tm_timeout_tick (k_timer s j))) (k_timers s Timer_list))"
    and "\<And>j. j \<in> set (k_timers s Timer_list) \<Longrightarrow>
          left_from b (tm_timeout_tick (k_timer s j)) < 2 ^ 31 - 1"
    and "left_from b (k_tick s + tm_init_tick (k_timer s i)) < 2 ^ 31 - 1"
  shows "\<exists>s'. rt_timer_start i s = Some s' \<and> timers_inv s'
      \<and> tm_timeout_tick (k_timer s' i) = k_tick s + tm_init_tick (k_timer s i)
      \<and> sorted (map (\<lambda>j. left_from b (tm_timeout_tick (k_timer s' j))) (k_timers s' Timer_list))
      \<and> k_timers s' Timer_list
        = takeWhile (\<lambda>j. left_from b (tm_timeout_tick (k_timer s j))
              \<le> left_from b (k_tick s + tm_init_tick (k_timer s i))) (k_timers s Timer_list)
          @ i # dropWhile (\<lambda>j. left_from b (tm_timeout_tick (k_timer s j))
              \<le> left_from b (k_tick s + tm_init_tick (k_timer s i))) (k_timers s Timer_list)"
proof -
  let ?L = "k_timers s Timer_list" and ?w = "k_tick s + tm_init_tick (k_timer s i)"
  obtain s' where s': "rt_timer_start i s = Some s'" "timers_inv s'" "timer_frame {i} s s'"
      "tm_timeout_tick (k_timer s' i) = ?w"
      "k_timers s' Timer_list = timer_insert (\<lambda>j. tm_timeout_tick (k_timer s' j)) i (remove1 i ?L)"
    using start_ok [OF assms(1,2)] by metis
  have old: "k_timer s' j = k_timer s j" if "j \<in> set ?L" for j
    using timer_frameD(9) [OF s'(3), of j] that assms(3) by auto
  have L: "k_timers s' Timer_list = timer_insert (\<lambda>j. tm_timeout_tick (k_timer s' j)) i ?L"
    using s'(5) assms(3) by (simp add: remove1_idem)
  have b: "left_from b (tm_timeout_tick (k_timer s' j)) < 2 ^ 31 - 1" if "j \<in> insert i (set ?L)" for j
    using that assms(5,6) old s'(4) by auto
  have eq: "map (\<lambda>j. left_from b (tm_timeout_tick (k_timer s' j))) ?L
      = map (\<lambda>j. left_from b (tm_timeout_tick (k_timer s j))) ?L"
    using old by (intro map_cong) simp_all
  then have srt: "sorted (map (\<lambda>j. left_from b (tm_timeout_tick (k_timer s' j))) ?L)"
    using assms(4) by (simp only: eq)
  have tw: "takeWhile (\<lambda>j. left_from b (tm_timeout_tick (k_timer s' j)) \<le> left_from b ?w) ?L
      = takeWhile (\<lambda>j. left_from b (tm_timeout_tick (k_timer s j)) \<le> left_from b ?w) ?L"
    "dropWhile (\<lambda>j. left_from b (tm_timeout_tick (k_timer s' j)) \<le> left_from b ?w) ?L
      = dropWhile (\<lambda>j. left_from b (tm_timeout_tick (k_timer s j)) \<le> left_from b ?w) ?L"
    using old by (auto intro!: takeWhile_cong dropWhile_cong)
  have "sorted (map (\<lambda>j. left_from b (tm_timeout_tick (k_timer s' j))) (k_timers s' Timer_list))"
    unfolding L by (rule timer_insert_sorted [OF b srt])
  moreover have "k_timers s' Timer_list = takeWhile (\<lambda>j. left_from b (tm_timeout_tick (k_timer s j))
        \<le> left_from b ?w) ?L
      @ i # dropWhile (\<lambda>j. left_from b (tm_timeout_tick (k_timer s j)) \<le> left_from b ?w) ?L"
    unfolding L by (subst timer_insert_order [OF b srt]) (simp_all only: s'(4) tw)
  ultimately show ?thesis using s'(1,2,4) by blast
qed

definition timer_sample :: kstate where
  "timer_sample = upd_timer (UserTimer 0) (\<lambda>tm. tm\<lparr>tm_init_tick := 5\<rparr>) k_sample"

theorem timer_start_keeps_order_witness:
  "\<exists>s'. rt_timer_start (UserTimer 0) timer_sample = Some s'
     \<and> k_timers s' Timer_list = [ThreadTimer 7, UserTimer 0]"
proof -
  have "timers_inv timer_sample"
    by (auto simp: timer_sample_def timers_inv_def timers_sample_def timer_ok_def tm_activated_def
        tm_periodic_def split: tmid.splits if_splits)
  then show ?thesis
    using timer_start_keeps_order [of timer_sample "UserTimer 0" 100]
    by (auto simp: timer_sample_def timers_sample_def left_from_def)
qed



section \<open>Threads\<close>

text \<open>
  Rt_thread_sleep.  Called by the running thread in a valid context with a delay of
  0 < tick < 2^31 - 1, it blocks: the thread is suspended in no queue, its timer is in the
  timer list for the current tick plus the delay, and another thread runs.
\<close>

theorem sleep_blocks:
  assumes "kinv s" "k_current s = Some t" "th_base s t = RT_THREAD_RUNNING"
    and "k_lock_nest s = 0" "k_irq_nest s = 0" "tick \<noteq> 0" "tick < TICK_HALF"
    and "\<exists>u. th_base s u = RT_THREAD_READY"
  shows "\<exists>s'. rt_thread_sleep tick s = Some (Blocked, s') \<and> kinv s'
      \<and> th_base s' t = RT_THREAD_SUSPEND \<and> th_tlist (k_thread s' t) = None
      \<and> tm_row (k_timer s' (ThreadTimer t)) = Some Timer_list
      \<and> tm_timeout_tick (k_timer s' (ThreadTimer t)) = k_tick s + tick
      \<and> th_error (k_thread s' t) = RT_EOK \<and> runs_most_urgent s'"
proof -
  let ?s1 = "upd_thread t (\<lambda>th. th\<lparr>th_error := RT_EOK\<rparr>) s"
  have b: "th_obj (k_thread s t)" using kinv_objs [OF assms(1), of t] assms(3) by simp
  obtain u where u: "th_base s u = RT_THREAD_READY" using assms(8) by blast
  have rdy: "\<exists>u. th_base ?s1 u = RT_THREAD_READY"
    by (rule exI [of _ u]) (use u in auto)
  obtain s' where s': "thread_wait_ticks t tick ?s1 = Some s'" "kinv s'"
      "th_base s' t = RT_THREAD_SUSPEND" "th_tlist (k_thread s' t) = None"
      "tm_row (k_timer s' (ThreadTimer t)) = Some Timer_list"
      "tm_timeout_tick (k_timer s' (ThreadTimer t)) = k_tick ?s1 + tick"
      "th_core (k_thread s' t) = th_core (k_thread ?s1 t)" "runs_most_urgent s'"
  proof (rule wait_ticks_ok [OF kinv_set_error [OF assms(1), of t RT_EOK] _ _ assms(7), of t])
    show "k_current ?s1 = Some t" "th_base ?s1 t = RT_THREAD_RUNNING" using assms(2,3) by simp_all
  qed (use assms(4) rdy in simp_all)
  have "th_error (k_thread s' t) = RT_EOK" using th_core_simps [OF s'(7)] by simp
  moreover have "rt_thread_sleep tick s = Some (Blocked, s')"
    using s'(1) b assms(2,4-6)
    by (simp add: rt_thread_sleep_def rt_thread_self_def debug_scheduler_available_def
        debug_in_thread_context_def rt_critical_level_def)
  ultimately show ?thesis using s'(2-6,8) by auto
qed

theorem sleep_blocks_witness:
  "\<exists>s'. rt_thread_sleep 20 k_sample = Some (Blocked, s') \<and> th_base s' 0 = RT_THREAD_SUSPEND
     \<and> tm_timeout_tick (k_timer s' (ThreadTimer 0)) = 120"
proof -
  have "th_base k_sample 1 = RT_THREAD_READY" by simp
  then have "\<exists>u. th_base k_sample u = RT_THREAD_READY" by (rule exI)
  then show ?thesis using sleep_blocks [OF kinv_sample, of 0 20] by auto
qed

text \<open>
  The timeout of a waiting thread.  When a suspended thread's timer has fired,
  _thread_timeout takes the thread out of whatever wait queue it is in (the other waiters keep
  their order), makes it runnable with the timeout error, reschedules, and a sleeping thread
  sees this as success.
\<close>

theorem timeout_wakes_thread:
  assumes "kinv s" "th_base s t = RT_THREAD_SUSPEND"
    and "tm_row (k_timer s (ThreadTimer t)) \<noteq> Some Timer_list" "k_current s = Some c"
  shows "\<exists>s'. thread_timeout t s = Some s' \<and> kinv s'
      \<and> th_base s' t \<in> {RT_THREAD_READY, RT_THREAD_RUNNING}
      \<and> th_error (k_thread s' t) = - RT_ETIMEOUT
      \<and> (\<forall>h. wait_queue h \<longrightarrow> k_lists s' h = remove1 t (k_lists s h) \<and> t \<notin> set (k_lists s' h))
      \<and> fst (rt_thread_sleep_resume t s') = RT_EOK"
proof -
  obtain s' where s': "thread_timeout t s = Some s'" "kinv s'"
      "th_error (k_thread s' t) = - RT_ETIMEOUT"
      "th_base s' t \<in> {RT_THREAD_READY, RT_THREAD_RUNNING}"
      "\<And>h. wait_queue h \<Longrightarrow> k_lists s' h = remove1 t (k_lists s h)"
    using timeout_ok [OF assms] by metis
  moreover have "t \<notin> set (remove1 t (k_lists s h))" for h
    using queue_inv_distinct [OF kinvD(6) [OF assms(1)], of h] by simp
  ultimately show ?thesis by (auto simp: rt_thread_sleep_resume_def Let_def)
qed

theorem timeout_wakes_thread_witness:
  "\<exists>s'. thread_timeout 3 k_sample = Some s' \<and> k_lists s' (SemQ 0) = []"
proof -
  have "remove1 3 (k_lists k_sample (SemQ 0)) = []" by simp
  then show ?thesis
    using timeout_wakes_thread [OF kinv_sample, of 3 0] sample_base [of 3]
    by (fastforce simp: timers_sample_def)
qed

text \<open>
  Rt_thread_startup of an initialised thread in a running, unlocked kernel returns RT_EOK,
  keeps the kernel well formed, and leaves the most urgent thread running; when the new thread
  is strictly more urgent than everything else, that thread is the new one.
\<close>

theorem startup_runs_most_urgent:
  assumes "kinv s" "th_base s t = RT_THREAD_INIT" "th_obj (k_thread s t)"
    and "tm_obj (k_timer s (ThreadTimer t))" "scheduler_stack_check (k_thread s t) = Some ()"
    and "k_current s = Some c" "k_lock_nest s = 0"
  shows "\<exists>s'. rt_thread_startup t s = Some (RT_EOK, s') \<and> kinv s' \<and> runs_most_urgent s'
      \<and> th_base s' t \<in> {RT_THREAD_READY, RT_THREAD_RUNNING}
      \<and> ((\<forall>u. u \<noteq> t \<longrightarrow> th_prio s t < th_prio s u) \<longrightarrow> k_current s' = Some t)"
proof -
  obtain s1 where s1: "rt_thread_startup t s = (if k_current s = None then Some (RT_EOK, s1)
        else map_option (Pair RT_EOK) (rt_schedule s1))"
    "kinv s1" "th_base s1 t = RT_THREAD_READY" "th_prio s1 t = th_prio s t"
    "k_current s1 = k_current s" "k_lock_nest s1 = k_lock_nest s"
    "\<And>u. u \<noteq> t \<Longrightarrow> k_thread s1 u = k_thread s u"
    using startup_ok [OF assms(1-5)] by blast
  have cur1: "k_current s1 = Some c" using s1(5) assms(6) by simp
  obtain s' where s': "rt_schedule s1 = Some s'" "kinv s'" "sched_frame s1 s'"
      "k_lock_nest s1 = 0 \<Longrightarrow> th_base s1 c = RT_THREAD_RUNNING \<or> (\<exists>t. th_base s1 t = RT_THREAD_READY)
         \<Longrightarrow> runs_most_urgent s'"
    using schedule_kinv [OF s1(2) cur1] by blast
  have run: "runs_most_urgent s'" using s'(4) s1(3,6) assms(7) by auto
  have base: "th_base s' t \<in> {RT_THREAD_READY, RT_THREAD_RUNNING}"
    using sched_frameD(9) [OF s'(3), of t] s1(3) by auto
  have prio: "th_prio s' u = th_prio s u" for u
    using th_core_simps [OF sched_frameD(7) [OF s'(3), of u]] s1(4) s1(7) [of u]
    by (cases "u = t") auto
  have "k_current s' = Some t" if "\<forall>u. u \<noteq> t \<longrightarrow> th_prio s t < th_prio s u"
  proof (cases "th_base s' t = RT_THREAD_RUNNING")
    case True
    then show ?thesis using sched_inv_running [OF kinvD(1) [OF s'(2)]] by blast
  next
    case False
    then have "th_base s' t = RT_THREAD_READY" using base by auto
    then obtain d where "k_current s' = Some d" "th_prio s d \<le> th_prio s t"
      using run by (auto simp: runs_most_urgent_def prio)
    then show ?thesis using that by (metis not_le)
  qed
  then show ?thesis
    using s1(1) s'(1,2) run base assms(6) by auto
qed

theorem startup_runs_most_urgent_witness:
  "\<exists>s'. rt_thread_startup 8 k_sample = Some (RT_EOK, s') \<and> runs_most_urgent s'"
  using startup_runs_most_urgent [OF kinv_sample, of 8 0] sample_base [of 8] sample_stack [of 8]
  by (auto simp: timers_sample_def)

end
