(* ===== verification/RtList.thy ===== *)
theory RtList
  imports Prelude
begin

text \<open>
  The intrusive lists of include/rtservice.h: doubly-linked circular lists (rt_list_t) whose
  head and members are nodes of the same kind, in a memory that maps a node's address to its
  two fields, and the singly-linked lists (rt_slist_t).  A circular list refines the abstract
  list of its members' addresses; the kernel theories work with those abstract lists.
\<close>

section \<open>The doubly-linked operations\<close>

record list_mem =
  nxt :: "nat \<Rightarrow> nat"
  prv :: "nat \<Rightarrow> nat"

definition set_nxt :: "nat \<Rightarrow> nat \<Rightarrow> list_mem \<Rightarrow> list_mem" where
  "set_nxt a v m = m\<lparr>nxt := (nxt m)(a := v)\<rparr>"

definition set_prv :: "nat \<Rightarrow> nat \<Rightarrow> list_mem \<Rightarrow> list_mem" where
  "set_prv a v m = m\<lparr>prv := (prv m)(a := v)\<rparr>"

definition rt_list_init :: "nat \<Rightarrow> list_mem \<Rightarrow> list_mem" where
  "rt_list_init l m = set_nxt l l (set_prv l l m)"

definition rt_list_insert_after :: "nat \<Rightarrow> nat \<Rightarrow> list_mem \<Rightarrow> list_mem" where
  "rt_list_insert_after l n m =
     (let m1 = set_prv (nxt m l) n m;
          m2 = set_nxt n (nxt m1 l) m1;
          m3 = set_nxt l n m2
      in set_prv n l m3)"

definition rt_list_insert_before :: "nat \<Rightarrow> nat \<Rightarrow> list_mem \<Rightarrow> list_mem" where
  "rt_list_insert_before l n m =
     (let m1 = set_nxt (prv m l) n m;
          m2 = set_prv n (prv m1 l) m1;
          m3 = set_prv l n m2
      in set_nxt n l m3)"

definition rt_list_remove :: "nat \<Rightarrow> list_mem \<Rightarrow> list_mem" where
  "rt_list_remove n m =
     (let m1 = set_prv (nxt m n) (prv m n) m;
          m2 = set_nxt (prv m1 n) (nxt m1 n) m1;
          m3 = set_prv n n m2
      in set_nxt n n m3)"

definition rt_list_isempty :: "nat \<Rightarrow> list_mem \<Rightarrow> bool" where
  "rt_list_isempty l m \<longleftrightarrow> nxt m l = l"

text \<open>The loop of \<^verbatim>\<open>rt_list_len\<close>; it runs for ever when the head is not reached again.\<close>

partial_function (option) list_len_loop :: "list_mem \<Rightarrow> nat \<Rightarrow> nat \<Rightarrow> nat \<Rightarrow> nat option" where
  "list_len_loop m l p len =
     (if nxt m p \<noteq> l then list_len_loop m l (nxt m p) (len + 1) else Some len)"

definition rt_list_len :: "nat \<Rightarrow> list_mem \<Rightarrow> nat option" where
  "rt_list_len l m = list_len_loop m l l 0"


section \<open>Circular lists\<close>

definition linked :: "list_mem \<Rightarrow> nat \<Rightarrow> nat \<Rightarrow> bool" where
  "linked m a b \<longleftrightarrow> nxt m a = b \<and> prv m b = a"

fun path :: "list_mem \<Rightarrow> nat list \<Rightarrow> bool" where
  "path m (x # y # zs) \<longleftrightarrow> linked m x y \<and> path m (y # zs)"
| "path m _ \<longleftrightarrow> True"

text \<open>The circular list with head l and members xs.\<close>

definition ring :: "list_mem \<Rightarrow> nat \<Rightarrow> nat list \<Rightarrow> bool" where
  "ring m l xs \<longleftrightarrow> distinct (l # xs) \<and> path m (l # xs @ [l])"

lemma path_append: "path m (xs @ x # ys) \<longleftrightarrow> path m (xs @ [x]) \<and> path m (x # ys)"
proof (induction xs)
  case Nil
  then show ?case by (cases ys) auto
next
  case (Cons y xs)
  then show ?case by (cases xs) auto
qed

lemma path_cong:
  assumes "\<And>a. a \<in> set (butlast xs) \<Longrightarrow> nxt m' a = nxt m a"
    and "\<And>a. a \<in> set (tl xs) \<Longrightarrow> prv m' a = prv m a"
  shows "path m' xs = path m xs"
  using assms
proof (induction m xs rule: path.induct)
  case (1 m x y zs)
  have "path m' (y # zs) = path m (y # zs)"
    using 1(2,3) by (intro 1(1)) (auto split: if_splits)
  then show ?case using 1(2) [of x] 1(3) [of y] by (auto simp: linked_def)
qed simp_all

text \<open>Memory outside a list does not matter to it.\<close>

lemma ring_frame:
  assumes "\<And>a. a \<in> set (l # xs) \<Longrightarrow> nxt m' a = nxt m a \<and> prv m' a = prv m a"
  shows "ring m' l xs = ring m l xs"
proof -
  have "path m' (l # xs @ [l]) = path m (l # xs @ [l])"
    using assms by (intro path_cong) (auto simp: butlast_append split: if_splits)
  then show ?thesis by (simp add: ring_def)
qed

lemma ring_empty: "ring m l [] \<longleftrightarrow> nxt m l = l \<and> prv m l = l"
  by (auto simp: ring_def linked_def)

lemma init_ring: "ring (rt_list_init l m) l []"
  by (simp add: ring_empty rt_list_init_def set_nxt_def set_prv_def)

lemma isempty_ring: "ring m l xs \<Longrightarrow> rt_list_isempty l m \<longleftrightarrow> xs = []"
  by (cases xs) (auto simp: ring_def rt_list_isempty_def linked_def)

text \<open>A node spliced into an edge, and a node spliced out.\<close>

lemma splice_in:
  assumes "path m (us @ a # b # vs)" "distinct (butlast (us @ a # b # vs))"
    "distinct (tl (us @ a # b # vs))" "n \<notin> set (us @ a # b # vs)"
    "nxt m' = (nxt m)(a := n, n := b)" "prv m' = (prv m)(b := n, n := a)"
  shows "path m' (us @ a # n # b # vs)"
proof -
  have p: "path m (us @ [a])" "path m (b # vs)"
    using assms(1) path_append [of m us a "b # vs"] by simp_all
  have d: "a \<notin> set us" "a \<notin> set (butlast (b # vs))" "b \<notin> set (tl (us @ [a]))" "b \<notin> set vs"
    using assms(2,3) by (auto simp: butlast_append tl_append split: list.splits if_splits)
  have "path m' (us @ [a]) = path m (us @ [a])"
  proof (rule path_cong)
    show "nxt m' x = nxt m x" if "x \<in> set (butlast (us @ [a]))" for x
      using that assms(4,5) d by auto
    show "prv m' x = prv m x" if "x \<in> set (tl (us @ [a]))" for x
      using that assms(4,6) d(3) list.set_sel(2) [of "us @ [a]" x] by auto
  qed
  moreover have "path m' (b # vs) = path m (b # vs)"
  proof (rule path_cong)
    show "nxt m' x = nxt m x" if "x \<in> set (butlast (b # vs))" for x
      using that assms(4,5) d(2) in_set_butlastD [of x "b # vs"] by auto
    show "prv m' x = prv m x" if "x \<in> set (tl (b # vs))" for x
      using that assms(4,6) d(4) by auto
  qed
  moreover have "linked m' a n" "linked m' n b"
    using assms(4-6) by (auto simp: linked_def)
  ultimately show ?thesis
    using p path_append [of m' us a "n # b # vs"] by simp
qed

lemma splice_out:
  assumes "path m (us @ a # n # b # vs)" "distinct (butlast (us @ a # n # b # vs))"
    "distinct (tl (us @ a # n # b # vs))" "n \<notin> set (us @ a # b # vs)"
    "nxt m' = (nxt m)(a := b, n := n)" "prv m' = (prv m)(b := a, n := n)"
  shows "path m' (us @ a # b # vs)"
proof -
  have p: "path m (us @ [a])" "path m (b # vs)"
    using assms(1) path_append [of m us a "n # b # vs"] by simp_all
  have d: "a \<notin> set us" "a \<notin> set (butlast (b # vs))" "b \<notin> set (tl (us @ [a]))" "b \<notin> set vs"
    using assms(2,3) by (auto simp: butlast_append tl_append split: list.splits if_splits)
  have "path m' (us @ [a]) = path m (us @ [a])"
  proof (rule path_cong)
    show "nxt m' x = nxt m x" if "x \<in> set (butlast (us @ [a]))" for x
      using that assms(4,5) d by auto
    show "prv m' x = prv m x" if "x \<in> set (tl (us @ [a]))" for x
      using that assms(4,6) d(3) list.set_sel(2) [of "us @ [a]" x] by auto
  qed
  moreover have "path m' (b # vs) = path m (b # vs)"
  proof (rule path_cong)
    show "nxt m' x = nxt m x" if "x \<in> set (butlast (b # vs))" for x
      using that assms(4,5) d(2) in_set_butlastD [of x "b # vs"] by auto
    show "prv m' x = prv m x" if "x \<in> set (tl (b # vs))" for x
      using that assms(4,6) d(4) by auto
  qed
  moreover have "linked m' a b"
    using assms(4-6) by (auto simp: linked_def)
  ultimately show ?thesis
    using p path_append [of m' us a "b # vs"] by simp
qed

text \<open>The two neighbours of the place between members as and bs of a list with head l.\<close>

lemma ring_split:
  assumes "ring m l (as @ bs)"
  shows "path m (butlast (l # as) @ last (l # as) # hd (bs @ [l]) # tl (bs @ [l]))"
    and "nxt m (last (l # as)) = hd (bs @ [l])" and "prv m (hd (bs @ [l])) = last (l # as)"
proof -
  have eq: "l # (as @ bs) @ [l]
      = butlast (l # as) @ last (l # as) # hd (bs @ [l]) # tl (bs @ [l])"
    using append_butlast_last_id [of "l # as"] by (cases bs) (simp_all del: last.simps butlast.simps)
  show p: "path m (butlast (l # as) @ last (l # as) # hd (bs @ [l]) # tl (bs @ [l]))"
    using assms unfolding ring_def eq by (rule conjunct2)
  have "path m (last (l # as) # hd (bs @ [l]) # tl (bs @ [l]))"
    by (rule conjunct2 [OF iffD1 [OF path_append p]])
  then show "nxt m (last (l # as)) = hd (bs @ [l])" "prv m (hd (bs @ [l])) = last (l # as)"
    unfolding path.simps linked_def by blast+
qed

lemma splice_in_ring:
  assumes r: "ring m l (as @ bs)" and n: "n \<notin> set (l # as @ bs)"
    and "nxt m' = (nxt m)(last (l # as) := n, n := hd (bs @ [l]))"
      "prv m' = (prv m)(hd (bs @ [l]) := n, n := last (l # as))"
  shows "ring m' l (as @ n # bs)"
proof -
  let ?us = "butlast (l # as)" and ?a = "last (l # as)" and ?b = "hd (bs @ [l])"
    and ?vs = "tl (bs @ [l])"
  have e: "?us @ [?a] = l # as" "?b # ?vs = bs @ [l]"
    using append_butlast_last_id [of "l # as"] by (simp_all del: last.simps butlast.simps)
  then have eq: "?us @ ?a # ?b # ?vs = l # as @ bs @ [l]"
    by (metis append_Cons append_assoc append_self_conv2)
  have "path m' (?us @ ?a # n # ?b # ?vs)"
  proof (rule splice_in)
    show "path m (?us @ ?a # ?b # ?vs)" by (rule ring_split(1) [OF r])
    show "distinct (butlast (?us @ ?a # ?b # ?vs))" "distinct (tl (?us @ ?a # ?b # ?vs))"
      using r by (auto simp only: eq ring_def) (auto simp: butlast_append)
    show "n \<notin> set (?us @ ?a # ?b # ?vs)" using n by (simp only: eq) auto
  qed (rule assms)+
  moreover have "?us @ ?a # n # ?b # ?vs = l # (as @ n # bs) @ [l]"
    using e by (metis append_Cons append_assoc append_self_conv2)
  ultimately have "path m' (l # (as @ n # bs) @ [l])" by (simp only:)
  then show ?thesis using r n by (auto simp: ring_def)
qed

text \<open>
  The three updates on abstract lists: insertion behind or in front of any node (the head
  included) and removal of a member.
\<close>

lemma ring_ends:
  assumes "n \<notin> set (l # as @ bs)"
  shows "last (l # as) \<noteq> n" "hd (bs @ [l]) \<noteq> n"
  using assms by (cases bs; auto)+

lemma insert_after_ring:
  assumes "ring m l (as @ bs)" "n \<notin> set (l # as @ bs)"
  shows "ring (rt_list_insert_after (last (l # as)) n m) l (as @ n # bs)"
proof -
  let ?a = "last (l # as)" and ?b = "hd (bs @ [l])"
  have "nxt m ?a = ?b" by (rule ring_split(2) [OF assms(1)])
  then have "nxt (rt_list_insert_after ?a n m) = (nxt m)(?a := n, n := ?b)"
      "prv (rt_list_insert_after ?a n m) = (prv m)(?b := n, n := ?a)"
    using ring_ends [OF assms(2)]
    by (simp_all del: last.simps add: rt_list_insert_after_def Let_def set_nxt_def set_prv_def
        fun_eq_iff)
  then show ?thesis by (rule splice_in_ring [OF assms])
qed

lemma insert_before_ring:
  assumes "ring m l (as @ bs)" "n \<notin> set (l # as @ bs)"
  shows "ring (rt_list_insert_before (hd (bs @ [l])) n m) l (as @ n # bs)"
proof -
  let ?a = "last (l # as)" and ?b = "hd (bs @ [l])"
  have "prv m ?b = ?a" by (rule ring_split(3) [OF assms(1)])
  then have "nxt (rt_list_insert_before ?b n m) = (nxt m)(?a := n, n := ?b)"
      "prv (rt_list_insert_before ?b n m) = (prv m)(?b := n, n := ?a)"
    using ring_ends [OF assms(2)]
    by (simp_all del: last.simps add: rt_list_insert_before_def Let_def set_nxt_def set_prv_def
        fun_eq_iff)
  then show ?thesis by (rule splice_in_ring [OF assms])
qed

lemma remove_ring:
  assumes r: "ring m l (as @ n # bs)"
  shows "ring (rt_list_remove n m) l (as @ bs)" "ring (rt_list_remove n m) n []"
proof -
  let ?us = "butlast (l # as)" and ?a = "last (l # as)" and ?b = "hd (bs @ [l])"
    and ?vs = "tl (bs @ [l])" and ?m = "rt_list_remove n m"
  have n: "n \<notin> set (l # as @ bs)" using r by (auto simp: ring_def)
  have link: "prv m n = ?a" "nxt m n = ?b"
    using ring_split(3) [OF r] ring_split(2) [of m l "as @ [n]" bs] r by simp_all
  have upd: "nxt ?m = (nxt m)(?a := ?b, n := n)" "prv ?m = (prv m)(?b := ?a, n := n)"
    using ring_ends [OF n] link
    by (simp_all del: last.simps add: rt_list_remove_def Let_def set_nxt_def set_prv_def fun_eq_iff)
  show "ring ?m n []" by (simp add: ring_empty upd)
  have e: "?us @ [?a] = l # as" "?b # ?vs = bs @ [l]"
    using append_butlast_last_id [of "l # as"] by (simp_all del: last.simps butlast.simps)
  then have eq: "?us @ ?a # n # ?b # ?vs = l # (as @ n # bs) @ [l]"
      "?us @ ?a # ?b # ?vs = l # (as @ bs) @ [l]"
    by (metis append_Cons append_assoc append_self_conv2)+
  have "path ?m (?us @ ?a # ?b # ?vs)"
  proof (rule splice_out [OF _ _ _ _ upd])
    show "path m (?us @ ?a # n # ?b # ?vs)" using r unfolding ring_def eq by (rule conjunct2)
    show "distinct (butlast (?us @ ?a # n # ?b # ?vs))" "distinct (tl (?us @ ?a # n # ?b # ?vs))"
      using r by (auto simp only: eq ring_def) (auto simp: butlast_append)
    show "n \<notin> set (?us @ ?a # ?b # ?vs)" using n by (simp only: eq) auto
  qed
  then have "path ?m (l # (as @ bs) @ [l])" by (simp only: eq)
  then show "ring ?m l (as @ bs)" using r by (auto simp: ring_def)
qed

text \<open>The loop of \<^verbatim>\<open>rt_list_len\<close> returns on every circular list.\<close>

lemma list_len_loop_path:
  "path m (p # ys @ [l]) \<Longrightarrow> l \<notin> set ys \<Longrightarrow>
   list_len_loop m l p k = Some (k + length ys)"
  by (induction ys arbitrary: p k) (auto simp: linked_def list_len_loop.simps)

lemma list_len_ring: "ring m l xs \<Longrightarrow> rt_list_len l m = Some (length xs)"
  using list_len_loop_path [of m l xs l 0] by (auto simp: ring_def rt_list_len_def)


section \<open>Singly-linked lists\<close>

text \<open>
  A memory of next pointers (\<^term>\<open>None\<close> for NULL); the loops run for ever on a cycle.
\<close>

type_synonym slist_mem = "nat \<Rightarrow> nat option"

definition rt_slist_init :: "nat \<Rightarrow> slist_mem \<Rightarrow> slist_mem" where
  "rt_slist_init l m = m(l := None)"

partial_function (option) rt_slist_tail :: "slist_mem \<Rightarrow> nat \<Rightarrow> nat option" where
  "rt_slist_tail m l = (case m l of None \<Rightarrow> Some l | Some n \<Rightarrow> rt_slist_tail m n)"

definition rt_slist_append :: "nat \<Rightarrow> nat \<Rightarrow> slist_mem \<Rightarrow> slist_mem option" where
  "rt_slist_append l n m = do { t \<leftarrow> rt_slist_tail m l; Some (m(t := Some n, n := None)) }"

definition rt_slist_insert :: "nat \<Rightarrow> nat \<Rightarrow> slist_mem \<Rightarrow> slist_mem" where
  "rt_slist_insert l n m = (let m1 = m(n := m l) in m1(l := Some n))"

partial_function (option) slist_len_loop :: "slist_mem \<Rightarrow> nat option \<Rightarrow> nat \<Rightarrow> nat option" where
  "slist_len_loop m p k = (case p of None \<Rightarrow> Some k | Some a \<Rightarrow> slist_len_loop m (m a) (k + 1))"

definition rt_slist_len :: "nat \<Rightarrow> slist_mem \<Rightarrow> nat option" where
  "rt_slist_len l m = slist_len_loop m (m l) 0"

partial_function (option) slist_find_pred :: "slist_mem \<Rightarrow> nat \<Rightarrow> nat \<Rightarrow> nat option" where
  "slist_find_pred m n p =
     (case m p of
        None \<Rightarrow> Some p
      | Some q \<Rightarrow> if q = n then Some p else slist_find_pred m n q)"

definition rt_slist_remove :: "nat \<Rightarrow> nat \<Rightarrow> slist_mem \<Rightarrow> slist_mem option" where
  "rt_slist_remove l n m = do {
     p \<leftarrow> slist_find_pred m n l;
     Some (case m p of None \<Rightarrow> m | Some q \<Rightarrow> m(p := m q))
   }"

fun schain :: "slist_mem \<Rightarrow> nat \<Rightarrow> nat list \<Rightarrow> bool" where
  "schain m l [] \<longleftrightarrow> m l = None"
| "schain m l (x # xs) \<longleftrightarrow> m l = Some x \<and> schain m x xs"

text \<open>The singly-linked list with head l and members xs.\<close>

definition slist :: "slist_mem \<Rightarrow> nat \<Rightarrow> nat list \<Rightarrow> bool" where
  "slist m l xs \<longleftrightarrow> distinct (l # xs) \<and> schain m l xs"

lemma schain_cong:
  "(\<And>a. a \<in> set (l # xs) \<Longrightarrow> m' a = m a) \<Longrightarrow> schain m' l xs = schain m l xs"
  by (induction xs arbitrary: l) auto

lemma schain_upd [simp]: "a \<notin> set (l # xs) \<Longrightarrow> schain (m(a := v)) l xs = schain m l xs"
  by (rule schain_cong) auto

lemma slist_tail_chain: "schain m l xs \<Longrightarrow> rt_slist_tail m l = Some (last (l # xs))"
  by (induction xs arbitrary: l) (auto simp: rt_slist_tail.simps)

lemma slist_len_chain: "schain m l xs \<Longrightarrow> slist_len_loop m (m l) k = Some (k + length xs)"
  by (induction xs arbitrary: l k) (auto simp: slist_len_loop.simps)

lemma schain_snoc:
  "distinct (l # xs) \<Longrightarrow> schain m l xs \<Longrightarrow> n \<notin> set (l # xs) \<Longrightarrow>
   schain (m(last (l # xs) := Some n, n := None)) l (xs @ [n])"
proof (induction xs arbitrary: l)
  case (Cons x xs)
  have "last (x # xs) \<in> set (x # xs)" by (rule last_in_set) simp
  then have "last (l # x # xs) \<noteq> l" using Cons.prems(1) by auto
  then show ?case using Cons by auto
qed simp

lemma slist_append_ok:
  assumes "slist m l xs" "n \<notin> set (l # xs)"
  shows "\<exists>m'. rt_slist_append l n m = Some m' \<and> slist m' l (xs @ [n])"
proof -
  have "schain m l xs" using assms(1) by (simp add: slist_def)
  then have "rt_slist_append l n m = Some (m(last (l # xs) := Some n, n := None))"
    by (simp add: rt_slist_append_def slist_tail_chain del: last.simps)
  then show ?thesis
    using assms schain_snoc [of l xs m n] by (auto simp: slist_def simp del: last.simps)
qed

lemma schain_remove:
  "distinct (l # xs) \<Longrightarrow> schain m l xs \<Longrightarrow>
   \<exists>p. slist_find_pred m n l = Some p \<and>
     schain (case m p of None \<Rightarrow> m | Some q \<Rightarrow> m(p := m q)) l (remove1 n xs) \<and> p \<in> set (l # xs)"
proof (induction xs arbitrary: l)
  case Nil
  then show ?case by (simp add: slist_find_pred.simps)
next
  case (Cons x xs)
  show ?case
  proof (cases "x = n")
    case True
    have "schain (m(l := m x)) l xs"
      using Cons.prems by (cases xs) auto
    then show ?thesis using Cons.prems True by (auto simp: slist_find_pred.simps)
  next
    case False
    obtain p where p: "slist_find_pred m n x = Some p" "p \<in> set (x # xs)"
        "schain (case m p of None \<Rightarrow> m | Some q \<Rightarrow> m(p := m q)) x (remove1 n xs)"
      using Cons.IH [of x] Cons.prems by auto
    then have "p \<noteq> l" using Cons.prems(1) by auto
    then have "schain (case m p of None \<Rightarrow> m | Some q \<Rightarrow> m(p := m q)) l (remove1 n (x # xs))"
      using p(3) Cons.prems False by (auto split: option.splits)
    then show ?thesis using p False Cons.prems by (auto simp: slist_find_pred.simps)
  qed
qed

lemma slist_remove_ok:
  assumes "slist m l xs"
  shows "\<exists>m'. rt_slist_remove l n m = Some m' \<and> slist m' l (remove1 n xs)"
  using assms schain_remove [of l xs m n]
  by (auto simp: slist_def rt_slist_remove_def notin_set_remove1)

lemma slist_insert_ok:
  assumes "slist m l xs" "n \<notin> set (l # xs)"
  shows "slist (rt_slist_insert l n m) l (n # xs)"
proof -
  have "schain (m(n := m l, l := Some n)) n xs"
    using assms by (cases xs) (auto simp: slist_def)
  then show ?thesis using assms by (auto simp: slist_def rt_slist_insert_def Let_def)
qed


text \<open>Every operation changes nodes of its list and the inserted node only.\<close>

lemma ring_closed:
  assumes "ring m l (as @ bs)"
  shows "nxt m (last (l # as)) \<in> set (l # as @ bs)" "prv m (hd (bs @ [l])) \<in> set (l # as @ bs)"
    "last (l # as) \<in> set (l # as @ bs)" "hd (bs @ [l]) \<in> set (l # as @ bs)"
proof -
  show last: "last (l # as) \<in> set (l # as @ bs)" and hd: "hd (bs @ [l]) \<in> set (l # as @ bs)"
    by (auto simp: hd_append)
  show "nxt m (last (l # as)) \<in> set (l # as @ bs)" "prv m (hd (bs @ [l])) \<in> set (l # as @ bs)"
    using ring_split(2,3) [OF assms] last hd by simp_all
qed

lemma ring_insert_frame:
  assumes "ring m l (as @ bs)" "ring m k ys" "set (k # ys) \<inter> set (n # l # as @ bs) = {}"
  shows "ring (rt_list_insert_after (last (l # as)) n m) k ys"
    and "ring (rt_list_insert_before (hd (bs @ [l])) n m) k ys"
proof -
  have out: "a \<noteq> n" "a \<noteq> last (l # as)" "a \<noteq> nxt m (last (l # as))" "a \<noteq> hd (bs @ [l])"
      "a \<noteq> prv m (hd (bs @ [l]))" if "a \<in> set (k # ys)" for a
    using that assms(3) ring_closed [OF assms(1)] by (auto simp del: last.simps)
  show "ring (rt_list_insert_after (last (l # as)) n m) k ys"
    using out assms(2) ring_frame [of k ys "rt_list_insert_after (last (l # as)) n m" m]
    by (simp add: rt_list_insert_after_def Let_def set_nxt_def set_prv_def del: last.simps)
  show "ring (rt_list_insert_before (hd (bs @ [l])) n m) k ys"
    using out assms(2) ring_frame [of k ys "rt_list_insert_before (hd (bs @ [l])) n m" m]
    by (simp add: rt_list_insert_before_def Let_def set_nxt_def set_prv_def del: last.simps)
qed

lemma ring_remove_frame:
  assumes r: "ring m l (as @ n # bs)" and "ring m k ys" "set (k # ys) \<inter> set (l # as @ n # bs) = {}"
  shows "ring (rt_list_remove n m) k ys"
proof -
  have "prv m n \<in> set (l # as @ n # bs)" "nxt m n \<in> set (l # as @ n # bs)"
    using ring_closed(2) [OF r] ring_closed(1) [of m l "as @ [n]" bs] r by simp_all
  then have out: "a \<noteq> n" "a \<noteq> prv m n" "a \<noteq> nxt m n" if "a \<in> set (k # ys)" for a
    using that assms(3) by auto
  then show ?thesis
    using assms(2) ring_closed(1) [OF r] ring_frame [of k ys "rt_list_remove n m" m]
    by (auto simp: rt_list_remove_def Let_def set_nxt_def set_prv_def)
qed

lemma init_frame:
  assumes "ring m k ys" "l \<notin> set (k # ys)"
  shows "ring (rt_list_init l m) k ys"
proof -
  have "ring (rt_list_init l m) k ys = ring m k ys"
    using assms(2) by (intro ring_frame) (auto simp: rt_list_init_def set_nxt_def set_prv_def)
  then show ?thesis using assms(1) by simp
qed


section \<open>Properties\<close>

text \<open>
  C20: the pointer operations of rtservice.h refine the list operations, on empty and non-empty
  lists alike.  Initialising a head makes it an empty list.  On a circular list with head l,
  inserting a fresh node before or after any node (the head included) places it there, removing
  a member leaves the other members in order and the removed node self-linked, the emptiness
  test is true exactly of the empty list and the length loop returns the length.  Every other
  list, over other nodes, stays as it is.
\<close>

theorem rt_list_refines:
  assumes "ring m l xs" "x \<notin> set (l # xs)"
    and "ring m k ys" "set (k # ys) \<inter> set (x # l # xs) = {}"
  shows "ring (rt_list_init x m) x [] \<and> ring (rt_list_init x m) l xs
    \<and> (\<forall>as bs. xs = as @ bs \<longrightarrow>
         ring (rt_list_insert_before (hd (bs @ [l])) x m) l (as @ x # bs)
         \<and> ring (rt_list_insert_before (hd (bs @ [l])) x m) k ys
         \<and> ring (rt_list_insert_after (last (l # as)) x m) l (as @ x # bs)
         \<and> ring (rt_list_insert_after (last (l # as)) x m) k ys)
    \<and> (\<forall>as n bs. xs = as @ n # bs \<longrightarrow>
         ring (rt_list_remove n m) l (as @ bs) \<and> ring (rt_list_remove n m) n []
         \<and> ring (rt_list_remove n m) k ys)
    \<and> rt_list_len l m = Some (length xs) \<and> (rt_list_isempty l m \<longleftrightarrow> xs = [])"
proof (intro conjI allI impI)
  show "ring (rt_list_init x m) x []" "ring (rt_list_init x m) l xs"
    using init_ring init_frame [OF assms(1,2)] by simp_all
  show "ring (rt_list_insert_before (hd (bs @ [l])) x m) l (as @ x # bs)"
      "ring (rt_list_insert_before (hd (bs @ [l])) x m) k ys"
      "ring (rt_list_insert_after (last (l # as)) x m) l (as @ x # bs)"
      "ring (rt_list_insert_after (last (l # as)) x m) k ys" if "xs = as @ bs" for as bs
    using insert_before_ring insert_after_ring ring_insert_frame [of m l as bs k ys x] assms that
    by blast+
  show "ring (rt_list_remove n m) l (as @ bs)" "ring (rt_list_remove n m) n []"
      "ring (rt_list_remove n m) k ys" if "xs = as @ n # bs" for as n bs
    using remove_ring [of m l as n bs] ring_remove_frame [of m l as n bs k ys] assms that by auto
  show "rt_list_len l m = Some (length xs)" by (rule list_len_ring [OF assms(1)])
  show "rt_list_isempty l m \<longleftrightarrow> xs = []" by (rule isempty_ring [OF assms(1)])
qed

text \<open>Two heads, 0 and 5, the first with member 1.\<close>

theorem rt_list_refines_witness:
  "let m = rt_list_insert_after 0 1 (rt_list_init 5 (rt_list_init 0 \<lparr>nxt = id, prv = id\<rparr>))
   in rt_list_len 0 m = Some 1 \<and> \<not> rt_list_isempty 0 m
     \<and> ring (rt_list_insert_before 0 2 m) 0 [1, 2] \<and> ring (rt_list_remove 1 m) 0 []
     \<and> ring (rt_list_remove 1 m) 5 []"
proof -
  let ?i = "rt_list_init 5 (rt_list_init 0 \<lparr>nxt = id, prv = id\<rparr>)"
  let ?m = "rt_list_insert_after 0 1 ?i"
  have i: "ring ?i 0 []" "ring ?i 5 []" using init_ring init_frame by simp_all
  have r: "ring ?m 0 [1]" "ring ?m 5 []"
    using insert_after_ring [of ?i 0 "[]" "[]" 1] ring_insert_frame(1) [of ?i 0 "[]" "[]" 5 "[]" 1] i
    by simp_all
  have m: "2 \<notin> set (0 # [1 :: nat])" "set (5 # []) \<inter> set (2 # 0 # [1 :: nat]) = {}" by simp_all
  note ref = rt_list_refines [OF r(1) m(1) r(2) m(2)]
  have "ring (rt_list_insert_before (hd ([] @ [0])) 2 ?m) 0 ([1] @ 2 # [])" using ref by blast
  moreover have "ring (rt_list_remove 1 ?m) 0 ([] @ [])" "ring (rt_list_remove 1 ?m) 5 []"
    using ref by blast+
  ultimately show ?thesis using ref by (simp add: Let_def)
qed

end
