(* ===== verification/Circular.thy ===== *)
theory Circular
  imports Prelude
begin

text \<open>
  Circular windows over an array, and the interface of a bounded first-in first-out buffer.
  The byte ring buffer (ringbuffer.c) and the mailbox (ipc.c) keep their items in an array
  cell window that wraps around at the end; both are instances of the interface.
\<close>

section \<open>Windows\<close>

text \<open>The n cells that start at index r of an array of sz cells, wrapping at sz.\<close>

definition window :: "'a list \<Rightarrow> nat \<Rightarrow> nat \<Rightarrow> nat \<Rightarrow> 'a list" where
  "window a sz r n = map (\<lambda>i. a ! ((r + i) mod sz)) [0..<n]"

lemma window_0 [simp]: "window a sz r 0 = []"
  by (simp add: window_def)

lemma length_window [simp]: "length (window a sz r n) = n"
  by (simp add: window_def)

lemma window_nth: "i < n \<Longrightarrow> window a sz r n ! i = a ! ((r + i) mod sz)"
  by (simp add: window_def)

lemma window_start_mod [simp]: "window a sz (r mod sz) n = window a sz r n"
  by (simp add: window_def mod_add_left_eq)

lemma window_append:
  "window a sz r (n + m) = window a sz r n @ window a sz (r + n) m"
  by (rule nth_equalityI) (auto simp: window_nth nth_append)

lemma window_Suc: "window a sz r (Suc n) = window a sz r n @ [a ! ((r + n) mod sz)]"
  by (simp add: window_def)

lemma window_drop: "k \<le> n \<Longrightarrow> drop k (window a sz r n) = window a sz (r + k) (n - k)"
  by (rule nth_equalityI) (auto simp: window_nth add.assoc)

lemma window_take: "k \<le> n \<Longrightarrow> take k (window a sz r n) = window a sz r k"
  by (rule nth_equalityI) (auto simp: window_nth)

lemma window_cong:
  "(\<And>i. i < n \<Longrightarrow> a ! ((r + i) mod sz) = b ! ((r + i) mod sz)) \<Longrightarrow>
   window a sz r n = window b sz r n"
  by (simp add: window_def)

text \<open>A window that does not wrap is a slice.\<close>

lemma window_slice:
  "r + n \<le> sz \<Longrightarrow> sz \<le> length a \<Longrightarrow> 0 < sz \<Longrightarrow> window a sz r n = take n (drop r a)"
  by (rule nth_equalityI) (auto simp: window_nth)

lemma mod_window_le:
  fixes sz :: nat
  assumes "(r + i) mod sz = (r + j) mod sz" "i \<le> j" "j < sz"
  shows "i = j"
proof -
  have "sz dvd (r + j) - (r + i)"
    by (intro mod_eq_dvd_iff_nat [THEN iffD1]) (use assms(1,2) in auto)
  then have "sz dvd j - i" by simp
  then show ?thesis
    using assms(2,3) by (auto dest!: dvd_imp_le)
qed

lemma mod_window_inj:
  "\<lbrakk>(r + i) mod sz = (r + j) mod sz; i < sz; j < (sz::nat)\<rbrakk> \<Longrightarrow> i = j"
  by (metis mod_window_le nat_le_linear)

text \<open>Writing one cell behind the window extends it.\<close>

lemma window_write_end:
  assumes "n < sz" "sz \<le> length a"
  shows "window (a[(r + n) mod sz := x]) sz r (Suc n) = window a sz r n @ [x]"
proof -
  have "(r + n) mod sz < length a"
    using assms by (intro less_le_trans [OF mod_less_divisor]) auto
  moreover have "(r + n) mod sz \<noteq> (r + i) mod sz" if "i < n" for i
    using mod_window_inj [of r n sz i] that assms by auto
  then have "window (a[(r + n) mod sz := x]) sz r n = window a sz r n"
    by (intro window_cong nth_list_update_neq) auto
  ultimately show ?thesis
    by (simp add: window_Suc)
qed


section \<open>Block writes\<close>

text \<open>
  Array b is array a after the items zs were written to consecutive cells from index w on,
  wrapping at sz: the written cells hold zs, the other cells below sz are as before.
\<close>

definition written :: "'a list \<Rightarrow> 'a list \<Rightarrow> nat \<Rightarrow> nat \<Rightarrow> 'a list \<Rightarrow> bool" where
  "written a b sz w zs \<longleftrightarrow>
     length b = length a
     \<and> (\<forall>j < length zs. b ! ((w + j) mod sz) = zs ! j)
     \<and> (\<forall>k < sz. (\<forall>j < length zs. k \<noteq> (w + j) mod sz) \<longrightarrow> b ! k = a ! k)"

lemma writtenD:
  assumes "written a b sz w zs"
  shows "length b = length a"
    and "j < length zs \<Longrightarrow> b ! ((w + j) mod sz) = zs ! j"
    and "k < sz \<Longrightarrow> (\<And>j. j < length zs \<Longrightarrow> k \<noteq> (w + j) mod sz) \<Longrightarrow> b ! k = a ! k"
  using assms by (auto simp: written_def)

text \<open>A write that does not reach the end of the array: one copy.\<close>

lemma written_flat:
  assumes "w + length zs \<le> sz" "sz \<le> length a" "0 < sz"
  shows "\<exists>b. blit a w zs = Some b \<and> written a b sz w zs"
proof -
  obtain b where b: "blit a w zs = Some b"
    using assms by (simp add: blit_def)
  have "written a b sz w zs"
    unfolding written_def
  proof (intro conjI allI impI)
    show "length b = length a" using b by (rule blit_length)
    show "b ! ((w + j) mod sz) = zs ! j" if "j < length zs" for j
      using blit_nth [OF b, of "w + j"] assms that by simp
    show "b ! k = a ! k" if k: "k < sz" "\<forall>j < length zs. k \<noteq> (w + j) mod sz" for k
    proof -
      have "\<not> (w \<le> k \<and> k < w + length zs)"
      proof
        assume "w \<le> k \<and> k < w + length zs"
        then have "k - w < length zs" "k = (w + (k - w)) mod sz" using k(1) by auto
        then show False using k(2) by blast
      qed
      then show ?thesis using blit_nth [OF b, of k] assms k(1) by auto
    qed
  qed
  with b show ?thesis by blast
qed

text \<open>A write that reaches the end: the first part behind w, the rest at the front.\<close>

lemma written_wrap:
  assumes "w < sz" "sz \<le> w + length zs" "length zs \<le> sz" "sz \<le> length a"
  shows "\<exists>b1 b2. blit a w (take (sz - w) zs) = Some b1 \<and> blit b1 0 (drop (sz - w) zs) = Some b2
           \<and> written a b2 sz w zs"
proof -
  let ?n = "sz - w"
  obtain b1 where b1: "blit a w (take ?n zs) = Some b1"
    using assms by (simp add: blit_def)
  have l1: "length b1 = length a" using b1 by (rule blit_length)
  have "0 + length (drop ?n zs) \<le> length b1"
    using assms l1 by simp
  then obtain b2 where b2: "blit b1 0 (drop ?n zs) = Some b2"
    by (metis blit_ok)
  have cell: "b2 ! k = (if k < length zs - ?n then zs ! (?n + k)
                        else if w \<le> k then zs ! (k - w) else a ! k)" if "k < sz" for k
    using blit_nth [OF b2, of k] blit_nth [OF b1, of k] assms l1 that by auto
  have "written a b2 sz w zs"
    unfolding written_def
  proof (intro conjI allI impI)
    show "length b2 = length a" using blit_length [OF b2] l1 by simp
    show "b2 ! ((w + j) mod sz) = zs ! j" if j: "j < length zs" for j
    proof (cases "w + j < sz")
      case True
      moreover have "\<not> w + j < length zs - ?n" using assms by linarith
      ultimately show ?thesis using cell [of "w + j"] by simp
    next
      case False
      then have "(w + j) mod sz = w + j - sz"
        using assms j by (simp add: mod_if)
      then show ?thesis using cell [of "w + j - sz"] assms j False by auto
    qed
    show "b2 ! k = a ! k" if k: "k < sz" "\<forall>j < length zs. k \<noteq> (w + j) mod sz" for k
    proof -
      have "\<not> k < length zs - ?n"
      proof
        assume "k < length zs - ?n"
        then have "?n + k < length zs" "k = (w + (?n + k)) mod sz" using assms k(1) by auto
        then show False using k(2) by blast
      qed
      moreover have "\<not> w \<le> k"
      proof
        assume "w \<le> k"
        then have "k - w < length zs" "k = (w + (k - w)) mod sz" using assms k(1) by auto
        then show False using k(2) by blast
      qed
      ultimately show ?thesis using cell [OF k(1)] by simp
    qed
  qed
  with b1 b2 show ?thesis by blast
qed


text \<open>
  The window after a write behind it: extended when there was room, and its last sz items
  when the write ran over the old ones.
\<close>

lemma window_written:
  assumes wr: "written a b sz (r + n) zs" and room: "n + length zs \<le> sz" and "0 < sz"
  shows "window b sz r (n + length zs) = window a sz r n @ zs"
proof -
  have old: "b ! ((r + i) mod sz) = a ! ((r + i) mod sz)" if i: "i < n" for i
  proof (rule writtenD(3) [OF wr])
    show "(r + i) mod sz < sz" using \<open>0 < sz\<close> by simp
    show "(r + i) mod sz \<noteq> (r + n + j) mod sz" if "j < length zs" for j
      using mod_window_inj [of r i sz "n + j"] i that room by (auto simp: add.assoc)
  qed
  have "window b sz (r + n) (length zs) = zs"
    by (rule nth_equalityI) (auto simp: window_nth writtenD(2) [OF wr])
  then show ?thesis
    by (simp add: window_append window_cong [OF old])
qed

lemma window_overwritten:
  assumes wr: "written a b sz (r + n) zs"
    and n: "n \<le> sz" and len: "length zs \<le> sz" and over: "sz \<le> n + length zs" and "0 < sz"
  shows "window b sz (r + n + length zs) sz = drop (n + length zs - sz) (window a sz r n @ zs)"
proof (rule nth_equalityI)
  show "length (window b sz (r + n + length zs) sz)
        = length (drop (n + length zs - sz) (window a sz r n @ zs))"
    using over by simp
  fix i assume "i < length (window b sz (r + n + length zs) sz)"
  then have i: "i < sz" by simp
  define k where "k = n + length zs - sz + i"
  have k: "k < n + length zs" using i over by (simp add: k_def)
  have "r + n + length zs + i = r + k + sz" using over by (simp add: k_def)
  then have "(r + n + length zs + i) mod sz = (r + k) mod sz" by (simp only: mod_add_self2)
  then have lhs: "window b sz (r + n + length zs) sz ! i = b ! ((r + k) mod sz)"
    by (simp only: window_nth [OF i])
  have rhs: "drop (n + length zs - sz) (window a sz r n @ zs) ! i = (window a sz r n @ zs) ! k"
    unfolding k_def by (rule nth_drop) simp
  show "window b sz (r + n + length zs) sz ! i
        = drop (n + length zs - sz) (window a sz r n @ zs) ! i"
  proof (cases "k < n")
    case True
    have "b ! ((r + k) mod sz) = a ! ((r + k) mod sz)"
    proof (rule writtenD(3) [OF wr])
      show "(r + k) mod sz < sz" using \<open>0 < sz\<close> by simp
      show "(r + k) mod sz \<noteq> (r + n + j) mod sz" if j: "j < length zs" for j
      proof
        assume "(r + k) mod sz = (r + n + j) mod sz"
        then have "(r + k + 0) mod sz = (r + k + (n + j - k)) mod sz"
          using True by (simp add: add.assoc)
        then have "0 = n + j - k"
          using mod_window_inj [of "r + k" 0 sz "n + j - k"] j over k_def \<open>0 < sz\<close> by simp
        then show False using True by simp
      qed
    qed
    then show ?thesis using lhs rhs True by (simp add: nth_append window_nth)
  next
    case False
    then have "b ! ((r + n + (k - n)) mod sz) = zs ! (k - n)"
      using k by (intro writtenD(2) [OF wr]) simp
    then show ?thesis using lhs rhs False by (simp add: nth_append)
  qed
qed

text \<open>The cell the write starts at may be given reduced.\<close>

lemma written_start_mod [simp]: "written a b sz (w mod sz) zs = written a b sz w zs"
  by (simp add: written_def mod_add_left_eq)


section \<open>Block reads\<close>

lemma fetch_flat:
  "r + n \<le> sz \<Longrightarrow> sz \<le> length a \<Longrightarrow> 0 < sz \<Longrightarrow> fetch a r n = Some (window a sz r n)"
  by (simp add: fetch_def window_slice)

lemma fetch_wrap:
  assumes "r < sz" "sz \<le> r + n" "n \<le> sz" "sz \<le> length a"
  shows "\<exists>xs ys. fetch a r (sz - r) = Some xs \<and> fetch a 0 (n - (sz - r)) = Some ys
           \<and> xs @ ys = window a sz r n"
proof -
  have "window a sz (r + (sz - r)) (n - (sz - r)) = window a sz 0 (n - (sz - r))"
    using assms(1) window_start_mod [of a sz sz] by (simp del: window_start_mod)
  moreover have "window a sz r n
      = window a sz r (sz - r) @ window a sz (r + (sz - r)) (n - (sz - r))"
    using assms window_append [of a sz r "sz - r" "n - (sz - r)"] by simp
  ultimately show ?thesis
    using assms fetch_flat [of r "sz - r" sz a] fetch_flat [of 0 "n - (sz - r)" sz a] by auto
qed

end
