(* ===== verification/Fifo.thy ===== *)
theory Fifo
  imports Prelude
begin

text \<open>
  The interface of a bounded first-in first-out buffer whose single-item operations may
  refuse: \<open>put\<close> appends an item or reports that the buffer is full, \<open>get\<close> takes the oldest item or
  reports that it is empty.  What a client may rely on is proved once here, for any sequence of
  the two operations; the ring buffer and the mailbox interpret the locale.
\<close>

datatype 'a fifo_op = Put 'a | Get

text \<open>
  A run of operations: the final state, the items accepted by \<open>put\<close> and the items returned by
  \<open>get\<close>, each in the order in which they passed.
\<close>

fun fifo_run ::
  "('s \<Rightarrow> 'a \<Rightarrow> ('s \<times> bool) option) \<Rightarrow> ('s \<Rightarrow> ('s \<times> 'a option) option) \<Rightarrow>
   's \<Rightarrow> 'a fifo_op list \<Rightarrow> ('s \<times> 'a list \<times> 'a list) option" where
  "fifo_run put get s [] = Some (s, [], [])"
| "fifo_run put get s (Put x # os) = do {
     (s1, ok) \<leftarrow> put s x;
     (s2, ins, outs) \<leftarrow> fifo_run put get s1 os;
     Some (s2, (if ok then x # ins else ins), outs)
   }"
| "fifo_run put get s (Get # os) = do {
     (s1, r) \<leftarrow> get s;
     (s2, ins, outs) \<leftarrow> fifo_run put get s1 os;
     Some (s2, ins, (case r of None \<Rightarrow> outs | Some y \<Rightarrow> y # outs))
   }"

locale bounded_fifo =
  fixes inv :: "'s \<Rightarrow> bool"
    and items :: "'s \<Rightarrow> 'a list"
    and cap :: "'s \<Rightarrow> nat"
    and put :: "'s \<Rightarrow> 'a \<Rightarrow> ('s \<times> bool) option"
    and get :: "'s \<Rightarrow> ('s \<times> 'a option) option"
  assumes bound: "inv s \<Longrightarrow> length (items s) \<le> cap s"
    and put_room: "\<lbrakk>inv s; length (items s) < cap s\<rbrakk> \<Longrightarrow>
      \<exists>s'. put s x = Some (s', True) \<and> inv s' \<and> items s' = items s @ [x] \<and> cap s' = cap s"
    and put_full: "\<lbrakk>inv s; length (items s) = cap s\<rbrakk> \<Longrightarrow> put s x = Some (s, False)"
    and get_item: "\<lbrakk>inv s; items s = y # ys\<rbrakk> \<Longrightarrow>
      \<exists>s'. get s = Some (s', Some y) \<and> inv s' \<and> items s' = ys \<and> cap s' = cap s"
    and get_empty: "\<lbrakk>inv s; items s = []\<rbrakk> \<Longrightarrow> get s = Some (s, None)"
begin

lemma put_total:
  assumes "inv s"
  shows "\<exists>s' ok. put s x = Some (s', ok) \<and> inv s' \<and> cap s' = cap s
    \<and> items s' = (if ok then items s @ [x] else items s)"
  using assms put_room put_full bound [OF assms] by (cases "length (items s) = cap s") fastforce+

lemma get_total:
  assumes "inv s"
  shows "\<exists>s' r. get s = Some (s', r) \<and> inv s' \<and> cap s' = cap s
    \<and> items s = (case r of None \<Rightarrow> items s' | Some y \<Rightarrow> y # items s')"
  using assms get_item get_empty by (cases "items s") fastforce+

text \<open>
  No item is lost, duplicated or reordered: what was stored at the start followed by what was
  accepted is what was returned followed by what is stored at the end.
\<close>

lemma run_conserves:
  "inv s \<Longrightarrow> \<exists>s' ins outs. fifo_run put get s ops = Some (s', ins, outs) \<and> inv s'
     \<and> cap s' = cap s \<and> items s @ ins = outs @ items s'"
proof (induction ops arbitrary: s)
  case Nil
  then show ?case by simp
next
  case (Cons op os)
  show ?case
  proof (cases op)
    case (Put x)
    obtain s1 ok where 1: "put s x = Some (s1, ok)" "inv s1" "cap s1 = cap s"
        "items s1 = (if ok then items s @ [x] else items s)"
      using put_total [OF Cons.prems] by blast
    obtain s' ins outs where "fifo_run put get s1 os = Some (s', ins, outs)" "inv s'"
        "cap s' = cap s1" "items s1 @ ins = outs @ items s'"
      using Cons.IH [OF 1(2)] by blast
    then show ?thesis using 1 Put by auto
  next
    case Get
    obtain s1 r where 1: "get s = Some (s1, r)" "inv s1" "cap s1 = cap s"
        "items s = (case r of None \<Rightarrow> items s1 | Some y \<Rightarrow> y # items s1)"
      using get_total [OF Cons.prems] by blast
    obtain s' ins outs where "fifo_run put get s1 os = Some (s', ins, outs)" "inv s'"
        "cap s' = cap s1" "items s1 @ ins = outs @ items s'"
      using Cons.IH [OF 1(2)] by blast
    then show ?thesis using 1 Get by (auto split: option.splits)
  qed
qed

end

end
