(* ===== verification/RingBuffer.thy ===== *)
theory RingBuffer
  imports Circular Fifo
begin

text \<open>
  The byte ring buffer of components/drivers/ipc/ringbuffer.c.  The state is the struct
  rt_ringbuffer: the two 15-bit indices, their 1-bit mirrors (booleans, complemented by the
  C operator) and the size; the pool is the array the pointer refers to.  Index arithmetic is
  written over the natural numbers with the 15-bit truncation of the bit fields; a difference
  \<open>buffer_size - index > length\<close> of C ints is written as \<open>index + length < buffer_size\<close>.

  The abstraction \<open>rb_data\<close> is the byte sequence stored; the lemmas show that every operation
  implements the corresponding operation on bounded byte queues.
\<close>

section \<open>State and operations\<close>

record rt_ringbuffer =
  buffer_ptr :: "rt_uint8_t list"
  read_mirror :: bool
  read_index :: nat
  write_mirror :: bool
  write_index :: nat
  buffer_size :: nat

datatype rt_ringbuffer_state =
  RT_RINGBUFFER_EMPTY | RT_RINGBUFFER_FULL | RT_RINGBUFFER_HALFFULL

definition trunc15 :: "nat \<Rightarrow> nat" where
  "trunc15 n = n mod 2 ^ 15"

definition rt_ringbuffer_status :: "rt_ringbuffer \<Rightarrow> rt_ringbuffer_state" where
  "rt_ringbuffer_status rb =
     (if read_index rb = write_index rb
      then (if read_mirror rb = write_mirror rb then RT_RINGBUFFER_EMPTY else RT_RINGBUFFER_FULL)
      else RT_RINGBUFFER_HALFFULL)"

definition rt_ringbuffer_data_len :: "rt_ringbuffer \<Rightarrow> nat" where
  "rt_ringbuffer_data_len rb =
     (case rt_ringbuffer_status rb of
        RT_RINGBUFFER_EMPTY \<Rightarrow> 0
      | RT_RINGBUFFER_FULL \<Rightarrow> buffer_size rb
      | RT_RINGBUFFER_HALFFULL \<Rightarrow>
          (let wi = write_index rb; ri = read_index rb
           in if ri < wi then wi - ri else buffer_size rb - (ri - wi)))"

definition rt_ringbuffer_space_len :: "rt_ringbuffer \<Rightarrow> nat" where
  "rt_ringbuffer_space_len rb = buffer_size rb - rt_ringbuffer_data_len rb"

definition rt_ringbuffer_init :: "rt_uint8_t list \<Rightarrow> int \<Rightarrow> rt_ringbuffer option" where
  "rt_ringbuffer_init pool sz = do {
     RT_ASSERT (0 < sz);
     Some \<lparr>buffer_ptr = pool, read_mirror = False, read_index = 0,
           write_mirror = False, write_index = 0, buffer_size = nat sz div 4 * 4\<rparr>
   }"

definition rt_ringbuffer_reset :: "rt_ringbuffer \<Rightarrow> rt_ringbuffer" where
  "rt_ringbuffer_reset rb =
     rb\<lparr>read_mirror := False, read_index := 0, write_mirror := False, write_index := 0\<rparr>"

definition rt_ringbuffer_put ::
  "rt_ringbuffer \<Rightarrow> rt_uint8_t list \<Rightarrow> nat \<Rightarrow> (rt_ringbuffer \<times> nat) option" where
  "rt_ringbuffer_put rb ptr len0 =
     (let sz = rt_ringbuffer_space_len rb in
      if sz = 0 then Some (rb, 0)
      else
        let len = (if sz < len0 then sz else len0) in
        if write_index rb + len < buffer_size rb then do {
          xs \<leftarrow> fetch ptr 0 len;
          pool \<leftarrow> blit (buffer_ptr rb) (write_index rb) xs;
          Some (rb\<lparr>buffer_ptr := pool, write_index := trunc15 (write_index rb + len)\<rparr>, len)
        } else
          let n1 = buffer_size rb - write_index rb in do {
          xs \<leftarrow> fetch ptr 0 n1;
          pool1 \<leftarrow> blit (buffer_ptr rb) (write_index rb) xs;
          ys \<leftarrow> fetch ptr n1 (len - n1);
          pool2 \<leftarrow> blit pool1 0 ys;
          Some (rb\<lparr>buffer_ptr := pool2, write_mirror := \<not> write_mirror rb,
                   write_index := trunc15 (len - n1)\<rparr>, len)
        })"

definition rt_ringbuffer_put_force ::
  "rt_ringbuffer \<Rightarrow> rt_uint8_t list \<Rightarrow> nat \<Rightarrow> (rt_ringbuffer \<times> nat) option" where
  "rt_ringbuffer_put_force rb ptr0 len0 =
     (let space = rt_ringbuffer_space_len rb;
          ptr = (if buffer_size rb < len0 then drop (len0 - buffer_size rb) ptr0 else ptr0);
          len = (if buffer_size rb < len0 then buffer_size rb else len0) in
      if write_index rb + len < buffer_size rb then do {
        xs \<leftarrow> fetch ptr 0 len;
        pool \<leftarrow> blit (buffer_ptr rb) (write_index rb) xs;
        let wi = trunc15 (write_index rb + len);
        let rb' = rb\<lparr>buffer_ptr := pool, write_index := wi\<rparr>;
        Some (if space < len then rb'\<lparr>read_index := wi\<rparr> else rb', len)
      } else
        let n1 = buffer_size rb - write_index rb in do {
        xs \<leftarrow> fetch ptr 0 n1;
        pool1 \<leftarrow> blit (buffer_ptr rb) (write_index rb) xs;
        ys \<leftarrow> fetch ptr n1 (len - n1);
        pool2 \<leftarrow> blit pool1 0 ys;
        let wi = trunc15 (len - n1);
        let rb' = rb\<lparr>buffer_ptr := pool2, write_mirror := \<not> write_mirror rb, write_index := wi\<rparr>;
        Some (if space < len
              then (if wi \<le> read_index rb
                    then rb'\<lparr>read_mirror := \<not> read_mirror rb, read_index := wi\<rparr>
                    else rb'\<lparr>read_index := wi\<rparr>)
              else rb', len)
      })"

definition rt_ringbuffer_get ::
  "rt_ringbuffer \<Rightarrow> nat \<Rightarrow> (rt_ringbuffer \<times> rt_uint8_t list) option" where
  "rt_ringbuffer_get rb len0 =
     (let sz = rt_ringbuffer_data_len rb in
      if sz = 0 then Some (rb, [])
      else
        let len = (if sz < len0 then sz else len0) in
        if read_index rb + len < buffer_size rb then do {
          xs \<leftarrow> fetch (buffer_ptr rb) (read_index rb) len;
          Some (rb\<lparr>read_index := trunc15 (read_index rb + len)\<rparr>, xs)
        } else
          let n1 = buffer_size rb - read_index rb in do {
          xs \<leftarrow> fetch (buffer_ptr rb) (read_index rb) n1;
          ys \<leftarrow> fetch (buffer_ptr rb) 0 (len - n1);
          Some (rb\<lparr>read_mirror := \<not> read_mirror rb, read_index := trunc15 (len - n1)\<rparr>, xs @ ys)
        })"

text \<open>
  \<^verbatim>\<open>rt_ringbuffer_peek\<close> returns a pointer into the pool and a length; the result here is the
  index the pointer refers to (\<^term>\<open>None\<close> for NULL) and the length.
\<close>

definition rt_ringbuffer_peek ::
  "rt_ringbuffer \<Rightarrow> rt_ringbuffer \<times> nat option \<times> nat" where
  "rt_ringbuffer_peek rb =
     (let sz = rt_ringbuffer_data_len rb in
      if sz = 0 then (rb, None, 0)
      else if read_index rb + sz < buffer_size rb
      then (rb\<lparr>read_index := trunc15 (read_index rb + sz)\<rparr>, Some (read_index rb), sz)
      else (rb\<lparr>read_mirror := \<not> read_mirror rb, read_index := 0\<rparr>,
            Some (read_index rb), buffer_size rb - read_index rb))"

definition rt_ringbuffer_putchar ::
  "rt_ringbuffer \<Rightarrow> rt_uint8_t \<Rightarrow> (rt_ringbuffer \<times> nat) option" where
  "rt_ringbuffer_putchar rb ch =
     (if rt_ringbuffer_space_len rb = 0 then Some (rb, 0)
      else do {
        pool \<leftarrow> arr_set (buffer_ptr rb) (write_index rb) ch;
        Some (if write_index rb + 1 = buffer_size rb
              then rb\<lparr>buffer_ptr := pool, write_mirror := \<not> write_mirror rb, write_index := 0\<rparr>
              else rb\<lparr>buffer_ptr := pool, write_index := trunc15 (write_index rb + 1)\<rparr>, 1)
      })"

definition rt_ringbuffer_putchar_force ::
  "rt_ringbuffer \<Rightarrow> rt_uint8_t \<Rightarrow> (rt_ringbuffer \<times> nat) option" where
  "rt_ringbuffer_putchar_force rb ch =
     (let old_state = rt_ringbuffer_status rb in do {
        pool \<leftarrow> arr_set (buffer_ptr rb) (write_index rb) ch;
        Some (if write_index rb + 1 = buffer_size rb
              then (let rb' = rb\<lparr>buffer_ptr := pool, write_mirror := \<not> write_mirror rb,
                                 write_index := 0\<rparr>
                    in if old_state = RT_RINGBUFFER_FULL
                       then rb'\<lparr>read_mirror := \<not> read_mirror rb, read_index := 0\<rparr> else rb')
              else (let rb' = rb\<lparr>buffer_ptr := pool, write_index := trunc15 (write_index rb + 1)\<rparr>
                    in if old_state = RT_RINGBUFFER_FULL
                       then rb'\<lparr>read_index := write_index rb'\<rparr> else rb'), 1)
      })"

definition rt_ringbuffer_getchar ::
  "rt_ringbuffer \<Rightarrow> (rt_ringbuffer \<times> rt_uint8_t option) option" where
  "rt_ringbuffer_getchar rb =
     (if rt_ringbuffer_data_len rb = 0 then Some (rb, None)
      else do {
        ch \<leftarrow> arr_get (buffer_ptr rb) (read_index rb);
        Some (if read_index rb + 1 = buffer_size rb
              then rb\<lparr>read_mirror := \<not> read_mirror rb, read_index := 0\<rparr>
              else rb\<lparr>read_index := trunc15 (read_index rb + 1)\<rparr>, Some ch)
      })"


section \<open>Invariant and abstraction\<close>

definition rb_inv :: "rt_ringbuffer \<Rightarrow> bool" where
  "rb_inv rb \<longleftrightarrow>
     0 < buffer_size rb \<and> buffer_size rb < 2 ^ 15 \<and> buffer_size rb \<le> length (buffer_ptr rb)
     \<and> read_index rb < buffer_size rb \<and> write_index rb < buffer_size rb
     \<and> (if read_mirror rb = write_mirror rb then read_index rb \<le> write_index rb
        else write_index rb \<le> read_index rb)"

definition rb_data :: "rt_ringbuffer \<Rightarrow> rt_uint8_t list" where
  "rb_data rb = window (buffer_ptr rb) (buffer_size rb) (read_index rb) (rt_ringbuffer_data_len rb)"

lemma length_rb_data: "length (rb_data rb) = rt_ringbuffer_data_len rb"
  by (simp add: rb_data_def)

lemma data_len_eq:
  "rb_inv rb \<Longrightarrow> rt_ringbuffer_data_len rb =
     (if read_mirror rb = write_mirror rb then write_index rb - read_index rb
      else buffer_size rb - (read_index rb - write_index rb))"
  by (auto simp: rb_inv_def rt_ringbuffer_data_len_def rt_ringbuffer_status_def Let_def
      split: if_splits)

text \<open>The two shapes of a well-formed buffer, by the mirrors.\<close>

lemma inv_same_mirror:
  "\<lbrakk>0 < buffer_size rb; buffer_size rb < 2 ^ 15; buffer_size rb \<le> length (buffer_ptr rb);
    read_mirror rb = write_mirror rb; read_index rb \<le> write_index rb; write_index rb < buffer_size rb\<rbrakk>
   \<Longrightarrow> rb_inv rb \<and> rt_ringbuffer_data_len rb = write_index rb - read_index rb"
  by (auto simp: rb_inv_def data_len_eq)

lemma inv_diff_mirror:
  "\<lbrakk>0 < buffer_size rb; buffer_size rb < 2 ^ 15; buffer_size rb \<le> length (buffer_ptr rb);
    read_mirror rb = (\<not> write_mirror rb); write_index rb \<le> read_index rb;
    read_index rb < buffer_size rb\<rbrakk>
   \<Longrightarrow> rb_inv rb \<and> rt_ringbuffer_data_len rb = buffer_size rb - (read_index rb - write_index rb)"
  by (auto simp: rb_inv_def data_len_eq)

lemma data_len_bound: "rb_inv rb \<Longrightarrow> rt_ringbuffer_data_len rb \<le> buffer_size rb"
  by (auto simp: data_len_eq rb_inv_def split: if_splits)

lemma space_len_eq:
  "rt_ringbuffer_space_len rb = buffer_size rb - length (rb_data rb)"
  by (simp add: rt_ringbuffer_space_len_def length_rb_data)

lemma trunc15_id: "n < 2 ^ 15 \<Longrightarrow> trunc15 n = n"
  by (simp add: trunc15_def)

text \<open>The write index is the end of the window, up to the wrap.\<close>

lemma write_index_eq:
  "rb_inv rb \<Longrightarrow>
   write_index rb mod buffer_size rb
   = (read_index rb + rt_ringbuffer_data_len rb) mod buffer_size rb"
  by (auto simp: data_len_eq rb_inv_def mod_if split: if_splits)

text \<open>
  How a new pool and new indices are read back: the data are the window at the new read
  index, whose length follows from the mirrors.
\<close>

lemma rb_data_window:
  assumes "rb_inv rb" "rt_ringbuffer_data_len rb = n" "read_index rb = r mod buffer_size rb"
  shows "rb_data rb = window (buffer_ptr rb) (buffer_size rb) r n"
  using assms by (simp add: rb_data_def)

lemma written_at_end:
  assumes "rb_inv rb" "written (buffer_ptr rb) b (buffer_size rb) (write_index rb) zs"
  shows "written (buffer_ptr rb) b (buffer_size rb) (read_index rb + length (rb_data rb)) zs"
proof -
  have "written (buffer_ptr rb) b (buffer_size rb) (write_index rb mod buffer_size rb) zs"
    using assms(2) by simp
  then have "written (buffer_ptr rb) b (buffer_size rb)
      ((read_index rb + rt_ringbuffer_data_len rb) mod buffer_size rb) zs"
    by (simp only: write_index_eq [OF assms(1)])
  then show ?thesis by (simp add: length_rb_data)
qed

lemma data_extended:
  assumes inv: "rb_inv rb" and wr: "written (buffer_ptr rb) b (buffer_size rb) (write_index rb) zs"
    and room: "length (rb_data rb) + length zs \<le> buffer_size rb"
    and inv': "rb_inv rb'" and "buffer_ptr rb' = b" "buffer_size rb' = buffer_size rb"
      "read_index rb' = read_index rb"
    and len: "rt_ringbuffer_data_len rb' = length (rb_data rb) + length zs"
  shows "rb_data rb' = rb_data rb @ zs"
proof -
  have "rb_data rb' = window b (buffer_size rb) (read_index rb) (length (rb_data rb) + length zs)"
    using assms by (simp add: rb_data_def)
  also have "\<dots> = window (buffer_ptr rb) (buffer_size rb) (read_index rb) (length (rb_data rb)) @ zs"
    using inv room by (intro window_written [OF written_at_end [OF inv wr]]) (auto simp: rb_inv_def)
  finally show ?thesis by (simp add: rb_data_def length_rb_data)
qed

section \<open>Put\<close>

lemma put_copy:
  assumes inv: "rb_inv rb" and len: "length zs \<le> buffer_size rb"
  shows "write_index rb + length zs < buffer_size rb \<Longrightarrow>
      \<exists>b. blit (buffer_ptr rb) (write_index rb) zs = Some b
        \<and> written (buffer_ptr rb) b (buffer_size rb) (write_index rb) zs"
    and "\<not> write_index rb + length zs < buffer_size rb \<Longrightarrow>
      \<exists>b1 b2. blit (buffer_ptr rb) (write_index rb) (take (buffer_size rb - write_index rb) zs) = Some b1
        \<and> blit b1 0 (drop (buffer_size rb - write_index rb) zs) = Some b2
        \<and> written (buffer_ptr rb) b2 (buffer_size rb) (write_index rb) zs"
  using inv len written_flat [of "write_index rb" zs "buffer_size rb" "buffer_ptr rb"]
    written_wrap [of "write_index rb" "buffer_size rb" zs "buffer_ptr rb"]
  by (auto simp: rb_inv_def)

text \<open>The bytes a put of n bytes from ptr copies.\<close>

lemma fetch_parts:
  assumes "n \<le> length ptr"
  shows "fetch ptr 0 n = Some (take n ptr)"
    and "k \<le> n \<Longrightarrow> fetch ptr 0 k = Some (take k (take n ptr))"
    and "k \<le> n \<Longrightarrow> fetch ptr k (n - k) = Some (drop k (take n ptr))"
  using assms by (auto simp: fetch_def min_def drop_take)

lemma put_ok:
  assumes inv: "rb_inv rb" and ptr: "len \<le> length ptr"
  defines "n \<equiv> min len (buffer_size rb - length (rb_data rb))"
  shows "\<exists>rb'. rt_ringbuffer_put rb ptr len = Some (rb', n) \<and> rb_inv rb'
      \<and> buffer_size rb' = buffer_size rb \<and> rb_data rb' = rb_data rb @ take n ptr"
proof (cases "rt_ringbuffer_space_len rb = 0")
  case True
  then show ?thesis using inv by (simp add: rt_ringbuffer_put_def n_def space_len_eq)
next
  case space: False
  let ?zs = "take n ptr" and ?sz = "buffer_size rb" and ?wi = "write_index rb"
  have len: "(if rt_ringbuffer_space_len rb < len then rt_ringbuffer_space_len rb else len) = n"
    by (simp add: n_def space_len_eq)
  have nptr: "n \<le> length ptr" using ptr by (simp add: n_def)
  then have zs: "length ?zs = n" by simp
  have d: "length (rb_data rb) + n \<le> ?sz"
    using data_len_bound [OF inv] by (simp add: n_def length_rb_data)
  have I: "0 < ?sz" "?sz < 2 ^ 15" "?sz \<le> length (buffer_ptr rb)" "read_index rb < ?sz" "?wi < ?sz"
    using inv by (auto simp: rb_inv_def)
  show ?thesis
  proof (cases "?wi + n < ?sz")
    case True
    obtain b where b: "blit (buffer_ptr rb) ?wi ?zs = Some b" "written (buffer_ptr rb) b ?sz ?wi ?zs"
      using put_copy(1) [OF inv, of ?zs] zs d True by auto
    let ?rb = "rb\<lparr>buffer_ptr := b, write_index := ?wi + n\<rparr>"
    have res: "rt_ringbuffer_put rb ptr len = Some (?rb, n)"
      unfolding rt_ringbuffer_put_def Let_def len
      using space True b fetch_parts(1) [OF nptr] I by (simp add: trunc15_id)
    have inv': "rb_inv ?rb" and len': "rt_ringbuffer_data_len ?rb = length (rb_data rb) + n"
      using inv True b(2) d
      by (auto simp: rb_inv_def written_def length_rb_data data_len_eq
          rt_ringbuffer_data_len_def rt_ringbuffer_status_def Let_def split: if_splits)
    show ?thesis
      using res inv' data_extended [OF inv b(2) _ inv'] d zs len' by auto
  next
    case False
    let ?n1 = "?sz - ?wi"
    obtain b1 b where b: "blit (buffer_ptr rb) ?wi (take ?n1 ?zs) = Some b1"
        "blit b1 0 (drop ?n1 ?zs) = Some b" "written (buffer_ptr rb) b ?sz ?wi ?zs"
      using put_copy(2) [OF inv, of ?zs] zs d False by auto
    let ?rb = "rb\<lparr>buffer_ptr := b, write_mirror := \<not> write_mirror rb, write_index := n - ?n1\<rparr>"
    have res: "rt_ringbuffer_put rb ptr len = Some (?rb, n)"
      unfolding rt_ringbuffer_put_def Let_def len
      using space False b fetch_parts(2,3) [OF nptr, of ?n1] I d by (simp add: trunc15_id)
    have inv': "rb_inv ?rb" and len': "rt_ringbuffer_data_len ?rb = length (rb_data rb) + n"
      using inv False b(3) d
      by (auto simp: rb_inv_def written_def length_rb_data data_len_eq
          rt_ringbuffer_data_len_def rt_ringbuffer_status_def Let_def split: if_splits)
    show ?thesis
      using res inv' data_extended [OF inv b(3) _ inv'] d zs len' by auto
  qed
qed


section \<open>Get, peek\<close>

lemma data_dropped:
  assumes "rb_inv rb" "n \<le> length (rb_data rb)"
    and "buffer_ptr rb' = buffer_ptr rb" "buffer_size rb' = buffer_size rb"
      "read_index rb' mod buffer_size rb = (read_index rb + n) mod buffer_size rb"
    and "rt_ringbuffer_data_len rb' = length (rb_data rb) - n"
  shows "rb_data rb' = drop n (rb_data rb)"
proof -
  have "rb_data rb' = window (buffer_ptr rb) (buffer_size rb) (read_index rb' mod buffer_size rb)
      (length (rb_data rb) - n)"
    using assms(3,4,6) by (simp add: rb_data_def)
  also have "\<dots> = window (buffer_ptr rb) (buffer_size rb) (read_index rb + n) (length (rb_data rb) - n)"
    by (simp only: assms(5) window_start_mod)
  also have "\<dots> = drop n (rb_data rb)"
    using assms(2) by (simp add: rb_data_def window_drop)
  finally show ?thesis .
qed

lemma get_ok:
  fixes len :: nat
  assumes inv: "rb_inv rb"
  defines "n \<equiv> min len (length (rb_data rb))"
  shows "\<exists>rb'. rt_ringbuffer_get rb len = Some (rb', take n (rb_data rb)) \<and> rb_inv rb'
      \<and> buffer_size rb' = buffer_size rb \<and> rb_data rb' = drop n (rb_data rb)"
proof (cases "rt_ringbuffer_data_len rb = 0")
  case True
  then show ?thesis using inv by (simp add: rt_ringbuffer_get_def n_def rb_data_def)
next
  case some: False
  let ?sz = "buffer_size rb" and ?ri = "read_index rb" and ?p = "buffer_ptr rb"
  have len: "(if rt_ringbuffer_data_len rb < len then rt_ringbuffer_data_len rb else len) = n"
    by (simp add: n_def length_rb_data)
  have n: "n \<le> rt_ringbuffer_data_len rb" "n \<le> length (rb_data rb)"
    by (simp_all add: n_def length_rb_data)
  have nsz: "n \<le> ?sz" using n(1) data_len_bound [OF inv] by simp
  have tk: "take n (rb_data rb) = window ?p ?sz ?ri n"
    using n by (simp add: rb_data_def window_take)
  have I: "0 < ?sz" "?sz < 2 ^ 15" "?sz \<le> length ?p" "?ri < ?sz" "write_index rb < ?sz"
    using inv by (auto simp: rb_inv_def)
  show ?thesis
  proof (cases "?ri + n < ?sz")
    case True
    let ?rb = "rb\<lparr>read_index := ?ri + n\<rparr>"
    have res: "rt_ringbuffer_get rb len = Some (?rb, take n (rb_data rb))"
      unfolding rt_ringbuffer_get_def Let_def len tk
      using some True fetch_flat [of ?ri n ?sz ?p] I by (simp add: trunc15_id)
    have inv': "rb_inv ?rb" and len': "rt_ringbuffer_data_len ?rb = length (rb_data rb) - n"
      using inv True n
      by (auto simp: rb_inv_def length_rb_data data_len_eq
          rt_ringbuffer_data_len_def rt_ringbuffer_status_def Let_def split: if_splits)
    show ?thesis using res inv' data_dropped [OF inv n(2), of ?rb] len' by auto
  next
    case False
    let ?n1 = "?sz - ?ri"
    let ?rb = "rb\<lparr>read_mirror := \<not> read_mirror rb, read_index := n - ?n1\<rparr>"
    obtain xs ys where "fetch ?p ?ri ?n1 = Some xs" "fetch ?p 0 (n - ?n1) = Some ys"
        "xs @ ys = window ?p ?sz ?ri n"
      using fetch_wrap [of ?ri ?sz n ?p] False nsz I by auto
    then have res: "rt_ringbuffer_get rb len = Some (?rb, take n (rb_data rb))"
      unfolding rt_ringbuffer_get_def Let_def len tk
      using some False nsz I by (simp add: trunc15_id)
    have inv': "rb_inv ?rb" and len': "rt_ringbuffer_data_len ?rb = length (rb_data rb) - n"
      using inv False n nsz
      by (auto simp: rb_inv_def length_rb_data data_len_eq
          rt_ringbuffer_data_len_def rt_ringbuffer_status_def Let_def split: if_splits)
    have "n - ?n1 = ?ri + n - ?sz" using I by linarith
    then have "(n - ?n1) mod ?sz = (?ri + n) mod ?sz"
      using False by (simp add: le_mod_geq)
    then show ?thesis using res inv' data_dropped [OF inv n(2), of ?rb] len' by auto
  qed
qed

text \<open>
  \<^verbatim>\<open>rt_ringbuffer_peek\<close> hands out the longest run of stored bytes that is contiguous in the
  pool, and consumes it.
\<close>

lemma peek_ok:
  assumes inv: "rb_inv rb"
  defines "n \<equiv> min (length (rb_data rb)) (buffer_size rb - read_index rb)"
  shows "\<exists>rb'. rt_ringbuffer_peek rb
        = (rb', (if rb_data rb = [] then None else Some (read_index rb)), n)
      \<and> rb_inv rb' \<and> rb_data rb' = drop n (rb_data rb)
      \<and> fetch (buffer_ptr rb) (read_index rb) n = Some (take n (rb_data rb))"
proof -
  let ?sz = "buffer_size rb" and ?ri = "read_index rb"
  have I: "0 < ?sz" "?sz < 2 ^ 15" "?sz \<le> length (buffer_ptr rb)" "?ri < ?sz"
    using inv by (auto simp: rb_inv_def)
  have tk: "take n (rb_data rb) = window (buffer_ptr rb) ?sz ?ri n"
    by (simp add: rb_data_def n_def window_take)
  have cont: "fetch (buffer_ptr rb) ?ri n = Some (take n (rb_data rb))"
    unfolding tk using I by (intro fetch_flat) (auto simp: n_def)
  have n: "n \<le> length (rb_data rb)" by (simp add: n_def)
  have empty: "rb_data rb = [] \<longleftrightarrow> rt_ringbuffer_data_len rb = 0"
    by (metis length_0_conv length_rb_data)
  show ?thesis
  proof (cases "?ri + rt_ringbuffer_data_len rb < ?sz")
    case True
    let ?rb = "rb\<lparr>read_index := ?ri + n\<rparr>"
    have n': "n = rt_ringbuffer_data_len rb" using True by (simp add: n_def length_rb_data)
    have inv': "rb_inv ?rb" and len': "rt_ringbuffer_data_len ?rb = length (rb_data rb) - n"
      using inv True n n'
      by (auto simp: rb_inv_def length_rb_data data_len_eq
          rt_ringbuffer_data_len_def rt_ringbuffer_status_def Let_def split: if_splits)
    have "rb_data ?rb = drop n (rb_data rb)"
      using data_dropped [OF inv n, of ?rb] len' by simp
    then show ?thesis
      using True cont inv' n' I by (auto simp: rt_ringbuffer_peek_def empty trunc15_id Let_def)
  next
    case False
    let ?rb = "rb\<lparr>read_mirror := \<not> read_mirror rb, read_index := 0\<rparr>"
    have n': "n = ?sz - ?ri" using False by (simp add: n_def length_rb_data)
    have inv': "rb_inv ?rb" and len': "rt_ringbuffer_data_len ?rb = length (rb_data rb) - n"
      using inv False n'
      by (auto simp: rb_inv_def length_rb_data data_len_eq
          rt_ringbuffer_data_len_def rt_ringbuffer_status_def Let_def split: if_splits)
    have "rb_data ?rb = drop n (rb_data rb)"
      using data_dropped [OF inv n, of ?rb] len' n' I by simp
    then show ?thesis
      using False cont inv' n' I by (auto simp: rt_ringbuffer_peek_def empty Let_def)
  qed
qed


section \<open>Single bytes\<close>

text \<open>
  The single-byte operations are the block operations at length one.
\<close>

lemma putchar_eq_put:
  assumes "rb_inv rb"
  shows "rt_ringbuffer_putchar rb ch = rt_ringbuffer_put rb [ch] 1"
proof (cases "rt_ringbuffer_space_len rb = 0")
  case True
  then show ?thesis by (simp add: rt_ringbuffer_putchar_def rt_ringbuffer_put_def)
next
  case False
  have I: "buffer_size rb < 2 ^ 15" "buffer_size rb \<le> length (buffer_ptr rb)"
      "write_index rb < buffer_size rb"
    using assms by (auto simp: rb_inv_def)
  have set: "blit (buffer_ptr rb) (write_index rb) [ch] = arr_set (buffer_ptr rb) (write_index rb) ch"
    using I by (simp add: blit_def arr_set_def upd_conv_take_nth_drop)
  show ?thesis
  proof (cases "write_index rb + 1 < buffer_size rb")
    case True
    then show ?thesis
      using False I set
      by (simp add: rt_ringbuffer_putchar_def rt_ringbuffer_put_def Let_def fetch_def)
  next
    case wrap: False
    then have "buffer_size rb - write_index rb = 1" "write_index rb + 1 = buffer_size rb"
      using I by auto
    then show ?thesis
      using False I set
      by (simp add: rt_ringbuffer_putchar_def rt_ringbuffer_put_def Let_def fetch_def blit_def
          trunc15_def arr_set_def)
  qed
qed

lemma putchar_ok:
  assumes "rb_inv rb"
  shows "\<exists>rb' n. rt_ringbuffer_putchar rb ch = Some (rb', n) \<and> rb_inv rb'
      \<and> buffer_size rb' = buffer_size rb
      \<and> (if length (rb_data rb) < buffer_size rb
         then n = 1 \<and> rb_data rb' = rb_data rb @ [ch] else n = 0 \<and> rb' = rb)"
proof (cases "length (rb_data rb) < buffer_size rb")
  case True
  then show ?thesis
    using put_ok [OF assms, of 1 "[ch]"] by (auto simp: putchar_eq_put [OF assms] min_def)
next
  case False
  then show ?thesis
    using assms by (simp add: rt_ringbuffer_putchar_def space_len_eq)
qed

lemma getchar_ok:
  assumes inv: "rb_inv rb"
  shows "\<exists>rb'. rt_ringbuffer_getchar rb
        = Some (rb', (case rb_data rb of [] \<Rightarrow> None | ch # _ \<Rightarrow> Some ch))
      \<and> rb_inv rb' \<and> buffer_size rb' = buffer_size rb
      \<and> rb_data rb' = tl (rb_data rb)"
proof (cases "rb_data rb")
  case Nil
  then have "rt_ringbuffer_data_len rb = 0" by (metis length_0_conv length_rb_data)
  then show ?thesis using inv Nil by (simp add: rt_ringbuffer_getchar_def)
next
  case (Cons ch rest)
  obtain m where d: "rt_ringbuffer_data_len rb = Suc m"
    using Cons by (metis length_Cons length_rb_data)
  have I: "buffer_size rb < 2 ^ 15" "buffer_size rb \<le> length (buffer_ptr rb)"
      "read_index rb < buffer_size rb"
    using inv by (auto simp: rb_inv_def)
  have "rb_data rb ! 0 = buffer_ptr rb ! (read_index rb mod buffer_size rb)"
    unfolding rb_data_def d by (subst window_nth) auto
  then have ch: "buffer_ptr rb ! read_index rb = ch"
    using I Cons by simp
  let ?rb = "if read_index rb + 1 = buffer_size rb
    then rb\<lparr>read_mirror := \<not> read_mirror rb, read_index := 0\<rparr>
    else rb\<lparr>read_index := read_index rb + 1\<rparr>"
  have res: "rt_ringbuffer_getchar rb = Some (?rb, Some ch)"
    using I d ch by (simp add: rt_ringbuffer_getchar_def arr_get_def trunc15_id)
  have "read_index rb + 1 = buffer_size rb \<or> read_index rb + 1 < buffer_size rb"
    using I by auto
  then have inv': "rb_inv ?rb" and len': "rt_ringbuffer_data_len ?rb = length (rb_data rb) - 1"
    using inv d
    by (auto simp: rb_inv_def length_rb_data data_len_eq
        rt_ringbuffer_data_len_def rt_ringbuffer_status_def Let_def split: if_splits)
  have "rb_data ?rb = drop 1 (rb_data rb)"
    using Cons len' I by (intro data_dropped [OF inv]) auto
  then show ?thesis using res inv' Cons by auto
qed

text \<open>The byte operations are a bounded fifo.\<close>

definition rb_put1 :: "rt_ringbuffer \<Rightarrow> rt_uint8_t \<Rightarrow> (rt_ringbuffer \<times> bool) option" where
  "rb_put1 rb ch = map_option (\<lambda>(rb', n). (rb', n \<noteq> 0)) (rt_ringbuffer_putchar rb ch)"

interpretation rb: bounded_fifo rb_inv rb_data buffer_size rb_put1 rt_ringbuffer_getchar
proof unfold_locales
  show "length (rb_data rb) \<le> buffer_size rb" if "rb_inv rb" for rb
    using data_len_bound [OF that] by (simp add: length_rb_data)
  show "\<exists>s'. rb_put1 rb ch = Some (s', True) \<and> rb_inv s' \<and> rb_data s' = rb_data rb @ [ch]
      \<and> buffer_size s' = buffer_size rb"
    if "rb_inv rb" "length (rb_data rb) < buffer_size rb" for rb ch
    using putchar_ok [OF that(1), of ch] that(2) by (auto simp: rb_put1_def)
  show "rb_put1 rb ch = Some (rb, False)"
    if "rb_inv rb" "length (rb_data rb) = buffer_size rb" for rb ch
    using putchar_ok [OF that(1), of ch] that(2) by (auto simp: rb_put1_def)
  show "\<exists>s'. rt_ringbuffer_getchar rb = Some (s', Some y) \<and> rb_inv s' \<and> rb_data s' = ys
      \<and> buffer_size s' = buffer_size rb"
    if "rb_inv rb" "rb_data rb = y # ys" for rb y ys
    using getchar_ok [OF that(1)] that(2) by auto
  show "rt_ringbuffer_getchar rb = Some (rb, None)" if "rb_inv rb" "rb_data rb = []" for rb
    using that(2) by (metis length_0_conv length_rb_data rt_ringbuffer_getchar_def)
qed


section \<open>Overwriting puts\<close>

lemma data_overwritten:
  assumes inv: "rb_inv rb" and wr: "written (buffer_ptr rb) b (buffer_size rb) (write_index rb) zs"
    and over: "buffer_size rb \<le> length (rb_data rb) + length zs" and zs: "length zs \<le> buffer_size rb"
    and "buffer_ptr rb' = b" "buffer_size rb' = buffer_size rb"
      "read_index rb' mod buffer_size rb = (write_index rb + length zs) mod buffer_size rb"
    and len: "rt_ringbuffer_data_len rb' = buffer_size rb"
  shows "rb_data rb' = drop (length (rb_data rb) + length zs - buffer_size rb) (rb_data rb @ zs)"
proof -
  let ?sz = "buffer_size rb"
  have "(write_index rb + length zs) mod ?sz
      = (write_index rb mod ?sz + length zs) mod ?sz"
    by (simp add: mod_add_left_eq)
  also have "\<dots> = (read_index rb + length (rb_data rb) + length zs) mod ?sz"
    by (simp only: write_index_eq [OF inv] length_rb_data mod_add_left_eq)
  finally have r: "read_index rb' mod ?sz
      = (read_index rb + length (rb_data rb) + length zs) mod ?sz"
    using assms(7) by simp
  have "rb_data rb' = window b ?sz (read_index rb' mod ?sz) ?sz"
    using assms(5,6) len by (simp add: rb_data_def)
  also have "\<dots> = window b ?sz (read_index rb + length (rb_data rb) + length zs) ?sz"
    by (simp only: r window_start_mod)
  also have "\<dots> = drop (length (rb_data rb) + length zs - ?sz)
      (window (buffer_ptr rb) ?sz (read_index rb) (length (rb_data rb)) @ zs)"
    using inv over zs data_len_bound [OF inv]
    by (intro window_overwritten [OF written_at_end [OF inv wr]])
      (auto simp: rb_inv_def length_rb_data)
  finally show ?thesis by (simp add: rb_data_def length_rb_data)
qed

lemma put_force_ok:
  assumes inv: "rb_inv rb" and ptr: "len \<le> length ptr"
  shows "\<exists>rb'. rt_ringbuffer_put_force rb ptr len = Some (rb', min len (buffer_size rb))
      \<and> rb_inv rb' \<and> buffer_size rb' = buffer_size rb
      \<and> rb_data rb' = drop (length (rb_data rb) + len - buffer_size rb) (rb_data rb @ take len ptr)"
proof -
  let ?sz = "buffer_size rb" and ?wi = "write_index rb" and ?ri = "read_index rb"
  define n where "n = (if ?sz < len then ?sz else len)"
  define src where "src = (if ?sz < len then drop (len - ?sz) ptr else ptr)"
  define zs where "zs = take n src"
  let ?over = "?sz - length (rb_data rb) < n"
  have nsrc: "n \<le> length src" using ptr by (cases "?sz < len") (auto simp: n_def src_def)
  have zs: "length zs = n" "n \<le> ?sz" using nsrc by (auto simp: zs_def n_def)
  have I: "0 < ?sz" "?sz < 2 ^ 15" "?sz \<le> length (buffer_ptr rb)" "?ri < ?sz" "?wi < ?sz"
    using inv by (auto simp: rb_inv_def)
  have d: "length (rb_data rb) \<le> ?sz"
    using data_len_bound [OF inv] by (simp add: length_rb_data)
  have goal: "drop (length (rb_data rb) + n - ?sz) (rb_data rb @ zs)
      = drop (length (rb_data rb) + len - ?sz) (rb_data rb @ take len ptr)"
    using d ptr by (auto simp: n_def src_def zs_def drop_take min_def)
  have "\<exists>rb'. rt_ringbuffer_put_force rb ptr len = Some (rb', n) \<and> rb_inv rb' \<and> buffer_size rb' = ?sz
      \<and> rb_data rb' = drop (length (rb_data rb) + n - ?sz) (rb_data rb @ zs)"
  proof (cases "?wi + n < ?sz")
    case True
    obtain b where b: "blit (buffer_ptr rb) ?wi zs = Some b" "written (buffer_ptr rb) b ?sz ?wi zs"
      using put_copy(1) [OF inv, of zs] zs True by auto
    let ?rb1 = "rb\<lparr>buffer_ptr := b, write_index := ?wi + n\<rparr>"
    let ?rb = "if ?over then ?rb1\<lparr>read_index := ?wi + n\<rparr> else ?rb1"
    have res: "rt_ringbuffer_put_force rb ptr len = Some (?rb, n)"
      unfolding rt_ringbuffer_put_force_def Let_def n_def [symmetric] src_def [symmetric]
      using True b fetch_parts(1) [OF nsrc] I by (simp add: trunc15_id zs_def space_len_eq)
    have inv': "rb_inv ?rb"
      and len': "rt_ringbuffer_data_len ?rb = (if ?over then ?sz else length (rb_data rb) + n)"
      using inv True b(2) d
      by (auto simp: rb_inv_def written_def length_rb_data data_len_eq
          rt_ringbuffer_data_len_def rt_ringbuffer_status_def Let_def split: if_splits)
    show ?thesis
      using res inv' len' zs d data_overwritten [OF inv b(2), of ?rb]
        data_extended [OF inv b(2) _ inv']
      by (cases ?over) auto
  next
    case False
    let ?n1 = "?sz - ?wi"
    obtain b1 b where b: "blit (buffer_ptr rb) ?wi (take ?n1 zs) = Some b1"
        "blit b1 0 (drop ?n1 zs) = Some b" "written (buffer_ptr rb) b ?sz ?wi zs"
      using put_copy(2) [OF inv, of zs] zs False by auto
    let ?rb1 = "rb\<lparr>buffer_ptr := b, write_mirror := \<not> write_mirror rb, write_index := n - ?n1\<rparr>"
    let ?rb = "if ?over
      then (if n - ?n1 \<le> ?ri then ?rb1\<lparr>read_mirror := \<not> read_mirror rb, read_index := n - ?n1\<rparr>
            else ?rb1\<lparr>read_index := n - ?n1\<rparr>)
      else ?rb1"
    have res: "rt_ringbuffer_put_force rb ptr len = Some (?rb, n)"
      unfolding rt_ringbuffer_put_force_def Let_def n_def [symmetric] src_def [symmetric]
      using False b fetch_parts(2,3) [OF nsrc, of ?n1] I zs
      by (simp add: trunc15_id zs_def space_len_eq)
    have lb: "length b = length (buffer_ptr rb)" using b(3) by (rule writtenD(1))
    have "rb_inv ?rb
        \<and> rt_ringbuffer_data_len ?rb = (if ?over then ?sz else length (rb_data rb) + n)"
    proof (cases "read_mirror rb = write_mirror rb")
      case same: True
      then have L: "length (rb_data rb) = ?wi - ?ri" "?ri \<le> ?wi"
        using inv by (simp_all add: length_rb_data data_len_eq rb_inv_def)
      show ?thesis
      proof (cases ?over)
        case True
        then have "\<not> n - ?n1 \<le> ?ri" "n - ?n1 < ?sz" using L I False zs by auto
        then show ?thesis using True inv_diff_mirror [of ?rb] I lb same by simp
      next
        case no: False
        then have "n - ?n1 \<le> ?ri" "n - ?n1 + ?sz = ?wi + n" using L I False zs by auto
        then show ?thesis using no inv_diff_mirror [of ?rb] I lb same L by auto
      qed
    next
      case diff: False
      then have L: "length (rb_data rb) = ?sz - (?ri - ?wi)" "?wi \<le> ?ri"
        using inv by (simp_all add: length_rb_data data_len_eq rb_inv_def)
      have over: ?over and "n - ?n1 \<le> ?ri" "n - ?n1 < ?sz" using L I False zs by auto
      then show ?thesis using inv_diff_mirror [of ?rb] I lb diff by auto
    qed
    then have inv': "rb_inv ?rb"
      and len': "rt_ringbuffer_data_len ?rb = (if ?over then ?sz else length (rb_data rb) + n)"
      by blast+
    have "n - ?n1 = ?wi + n - ?sz" using I by linarith
    then have idx: "(n - ?n1) mod ?sz = (?wi + n) mod ?sz"
      using False by (simp add: le_mod_geq)
    have fld: "buffer_ptr ?rb = b" "buffer_size ?rb = ?sz" by (simp_all split: if_split)
    have "rb_data ?rb = drop (length (rb_data rb) + n - ?sz) (rb_data rb @ zs)"
    proof (cases ?over)
      case True
      have "?sz \<le> length (rb_data rb) + length zs" using True zs by linarith
      moreover have "read_index ?rb = n - ?n1" using True by (simp split: if_split)
      then have "read_index ?rb mod ?sz = (?wi + length zs) mod ?sz"
        using idx by (simp only: zs(1))
      moreover have "rt_ringbuffer_data_len ?rb = ?sz" using len' True by (simp only: if_True)
      moreover have "length zs \<le> ?sz" using zs by simp
      ultimately have "rb_data ?rb
          = drop (length (rb_data rb) + length zs - ?sz) (rb_data rb @ zs)"
        using fld by (intro data_overwritten [OF inv b(3)])
      then show ?thesis by (simp only: zs(1))
    next
      case no: False
      then have "?rb = ?rb1" by (simp only: if_False)
      then show ?thesis
        using no zs d data_extended [OF inv b(3) _ inv'] len' by auto
    qed
    then show ?thesis using res inv' fld by blast
  qed
  moreover have "n = min len ?sz" by (simp add: n_def)
  ultimately show ?thesis unfolding goal by simp
qed


text \<open>Initialisation: an empty buffer whose size is the given one, rounded down to the alignment.\<close>

lemma init_ok:
  assumes "4 \<le> sz" "sz < 2 ^ 15" "nat sz \<le> length pool"
  shows "\<exists>rb. rt_ringbuffer_init pool sz = Some rb \<and> rb_inv rb \<and> rb_data rb = []
      \<and> buffer_size rb = nat sz div 4 * 4"
proof -
  have "0 < nat sz div 4 * 4" "nat sz div 4 * 4 \<le> nat sz" "nat sz < 2 ^ 15"
    using assms by auto
  then show ?thesis
    using assms
    by (auto simp: rt_ringbuffer_init_def rb_inv_def rb_data_def rt_ringbuffer_data_len_def
        rt_ringbuffer_status_def)
qed

lemma reset_ok:
  "rb_inv rb \<Longrightarrow> rb_inv (rt_ringbuffer_reset rb) \<and> rb_data (rt_ringbuffer_reset rb) = []"
  by (simp add: rt_ringbuffer_reset_def rb_inv_def rb_data_def rt_ringbuffer_data_len_def
      rt_ringbuffer_status_def)

lemma putchar_force_eq_put_force:
  assumes "rb_inv rb"
  shows "rt_ringbuffer_putchar_force rb ch = rt_ringbuffer_put_force rb [ch] 1"
proof -
  have I: "0 < buffer_size rb" "buffer_size rb < 2 ^ 15" "buffer_size rb \<le> length (buffer_ptr rb)"
      "write_index rb < buffer_size rb" "read_index rb < buffer_size rb"
    using assms by (auto simp: rb_inv_def)
  have full: "rt_ringbuffer_status rb = RT_RINGBUFFER_FULL \<longleftrightarrow> rt_ringbuffer_space_len rb < 1"
    using assms
    by (auto simp: rb_inv_def rt_ringbuffer_space_len_def rt_ringbuffer_data_len_def
        rt_ringbuffer_status_def Let_def split: if_splits)
  have fullD: "read_index rb = write_index rb" if "rt_ringbuffer_status rb = RT_RINGBUFFER_FULL"
    using that by (auto simp: rt_ringbuffer_status_def split: if_splits)
  obtain p where set: "blit (buffer_ptr rb) (write_index rb) [ch] = Some p"
      "arr_set (buffer_ptr rb) (write_index rb) ch = Some p"
    using I by (simp add: blit_def arr_set_def upd_conv_take_nth_drop)
  show ?thesis
  proof (cases "write_index rb + 1 < buffer_size rb")
    case True
    then show ?thesis
      using I set full
      by (auto simp: rt_ringbuffer_putchar_force_def rt_ringbuffer_put_force_def Let_def fetch_def)
  next
    case wrap: False
    then have "buffer_size rb - write_index rb = 1" "write_index rb + 1 = buffer_size rb"
      using I by auto
    then show ?thesis
      using I set full fullD
      by (simp add: rt_ringbuffer_putchar_force_def rt_ringbuffer_put_force_def Let_def fetch_def
          blit_def trunc15_def arr_set_def)
  qed
qed


section \<open>Properties\<close>

text \<open>A sample state for the witnesses: four cells, two bytes stored across the end.\<close>

definition rb_sample :: rt_ringbuffer where
  "rb_sample = \<lparr>buffer_ptr = [21, 22, 23, 24], read_mirror = False, read_index = 3,
     write_mirror = True, write_index = 1, buffer_size = 4\<rparr>"

lemma rb_sample_inv: "rb_inv rb_sample"
  by (simp add: rb_sample_def rb_inv_def)

lemma rb_sample_data: "rb_data rb_sample = [24, 21]" "buffer_size rb_sample = 4"
  by (simp_all add: rb_sample_def rb_data_def window_def rt_ringbuffer_data_len_def
      rt_ringbuffer_status_def upt_rec)

text \<open>
  Rt_ringbuffer_put on a well-formed buffer never leaves the pool, stores the first
  \<open>min length space\<close> bytes of the given block behind the bytes already stored, returns that
  number, and keeps the buffer well formed.
\<close>

theorem ringbuffer_put_appends:
  assumes "rb_inv rb" "len \<le> length ptr"
  shows "\<exists>rb' n. rt_ringbuffer_put rb ptr len = Some (rb', n)
      \<and> n = min len (buffer_size rb - length (rb_data rb))
      \<and> rb_inv rb' \<and> buffer_size rb' = buffer_size rb
      \<and> rb_data rb' = rb_data rb @ take n ptr"
  using put_ok [OF assms] by auto

theorem ringbuffer_put_appends_witness:
  "\<exists>rb'. rt_ringbuffer_put rb_sample [1, 2, 3] 3 = Some (rb', 2) \<and> rb_data rb' = [24, 21, 1, 2]"
  using ringbuffer_put_appends [OF rb_sample_inv, of 3 "[1, 2, 3]"]
  by (auto simp: rb_sample_data)

text \<open>
  Rt_ringbuffer_put_force never fails and never refuses: the buffer ends up holding the
  newest \<open>buffer_size\<close> bytes of what it held followed by the given block, whichever of the
  three overwriting cases (no wrap, wrap behind or past the read index) applies.
\<close>

theorem ringbuffer_put_force_keeps_newest:
  assumes "rb_inv rb" "len \<le> length ptr"
  shows "\<exists>rb'. rt_ringbuffer_put_force rb ptr len = Some (rb', min len (buffer_size rb))
      \<and> rb_inv rb' \<and> buffer_size rb' = buffer_size rb
      \<and> rb_data rb'
          = drop (length (rb_data rb) + len - buffer_size rb) (rb_data rb @ take len ptr)"
  using put_force_ok [OF assms] .

theorem ringbuffer_put_force_keeps_newest_witness:
  "\<exists>rb'. rt_ringbuffer_put_force rb_sample [1, 2, 3] 3 = Some (rb', 3)
     \<and> rb_data rb' = [21, 1, 2, 3]"
  using ringbuffer_put_force_keeps_newest [OF rb_sample_inv, of 3 "[1, 2, 3]"]
  by (auto simp: rb_sample_data)

text \<open>
  The stored bytes, read off the fields alone: a count from the indices and mirrors, and that
  many cells from the read index on, around the end of the buffer.
\<close>

definition rb_count :: "rt_ringbuffer \<Rightarrow> nat" where
  "rb_count rb =
     (if read_mirror rb = write_mirror rb then write_index rb - read_index rb
      else buffer_size rb + write_index rb - read_index rb)"

definition rb_bytes :: "rt_ringbuffer \<Rightarrow> rt_uint8_t list" where
  "rb_bytes rb = map (\<lambda>i. buffer_ptr rb ! ((read_index rb + i) mod buffer_size rb)) [0..<rb_count rb]"

lemma data_len_count: "rb_inv rb \<Longrightarrow> rt_ringbuffer_data_len rb = rb_count rb"
  by (auto simp: data_len_eq rb_count_def rb_inv_def)

lemma rb_data_bytes: "rb_inv rb \<Longrightarrow> rb_data rb = rb_bytes rb"
  by (simp add: rb_data_def rb_bytes_def window_def data_len_count)

text \<open>
  C21: round trip.  From every well-formed ring buffer, with whatever it stores and wherever
  the indices are, rt_ringbuffer_put followed by rt_ringbuffer_get returns the bytes stored
  first and then those accepted (as many as there is room for), in their order and as many as
  asked for, and keeps the others; the two length functions give the number of bytes stored and
  of free cells at each point, also when the data or a copy wrap around the end.
  Initialisation over a pool of at least four bytes and below the 15-bit limit gives such a
  buffer, empty, of the size rounded down to a multiple of four.
\<close>

theorem ringbuffer_roundtrip:
  assumes "rb_inv rb" "len \<le> length xs"
    and "n = min len (buffer_size rb - length (rb_bytes rb))"
  shows "\<exists>rb1 rb2. rt_ringbuffer_put rb xs len = Some (rb1, n)
      \<and> rt_ringbuffer_data_len rb1 = length (rb_bytes rb) + n
      \<and> rt_ringbuffer_space_len rb1 = buffer_size rb - (length (rb_bytes rb) + n)
      \<and> rt_ringbuffer_get rb1 k = Some (rb2, take k (rb_bytes rb @ take n xs))
      \<and> rb_inv rb2 \<and> rb_bytes rb2 = drop k (rb_bytes rb @ take n xs)
      \<and> rt_ringbuffer_data_len rb2 = length (rb_bytes rb) + n - k
      \<and> (4 \<le> sz \<and> sz < 2 ^ 15 \<and> nat sz \<le> length pool \<longrightarrow>
           (\<exists>rb0. rt_ringbuffer_init pool sz = Some rb0 \<and> rb_inv rb0 \<and> rb_bytes rb0 = []
              \<and> buffer_size rb0 = nat sz div 4 * 4))"
proof -
  note bytes = rb_data_bytes [OF assms(1)]
  obtain rb1 where rb1: "rt_ringbuffer_put rb xs len = Some (rb1, n)" "rb_inv rb1"
      "buffer_size rb1 = buffer_size rb" "rb_data rb1 = rb_bytes rb @ take n xs"
    using put_ok [OF assms(1,2)] unfolding bytes assms(3) by blast
  obtain rb2 where rb2: "rt_ringbuffer_get rb1 k = Some (rb2, take (min k (length (rb_data rb1))) (rb_data rb1))"
      "rb_inv rb2" "rb_data rb2 = drop (min k (length (rb_data rb1))) (rb_data rb1)"
    using get_ok [OF rb1(2), of k] by blast
  have n: "n \<le> length xs" using assms(2,3) by simp
  have len: "rt_ringbuffer_data_len rb1 = length (rb_bytes rb) + n"
      "rt_ringbuffer_data_len rb2 = length (rb_bytes rb) + n - k"
    using length_rb_data [of rb1] length_rb_data [of rb2] rb1(4) rb2(3) n by auto
  have take: "take (min k (length ys)) ys = take k ys" "drop (min k (length ys)) ys = drop k ys"
    for ys :: "rt_uint8_t list" by (simp_all add: min_def)
  have init: "\<exists>rb0. rt_ringbuffer_init pool sz = Some rb0 \<and> rb_inv rb0 \<and> rb_bytes rb0 = []
      \<and> buffer_size rb0 = nat sz div 4 * 4" if "4 \<le> sz \<and> sz < 2 ^ 15 \<and> nat sz \<le> length pool"
    using init_ok [of sz pool] that by (metis rb_data_bytes)
  show ?thesis
    using rb1 rb2 len init space_len_eq [of rb1] n
    unfolding take rb_data_bytes [OF rb2(2)] by auto
qed

text \<open>Two bytes stored across the end, two more put behind them, three taken.\<close>

theorem ringbuffer_roundtrip_witness:
  "\<exists>rb1 rb2. rt_ringbuffer_put rb_sample [7, 8, 9] 3 = Some (rb1, 2)
     \<and> rt_ringbuffer_data_len rb1 = 4 \<and> rt_ringbuffer_get rb1 3 = Some (rb2, [24, 21, 7])
     \<and> rb_bytes rb2 = [8]"
proof -
  have b: "rb_bytes rb_sample = [24, 21]" using rb_data_bytes [OF rb_sample_inv] rb_sample_data by simp
  have "3 \<le> length [7, 8, 9 :: rt_uint8_t]"
      "2 = min 3 (buffer_size rb_sample - length (rb_bytes rb_sample))"
    by (simp_all add: b rb_sample_data(2))
  note put_get = ringbuffer_roundtrip [OF rb_sample_inv this, of 3, unfolded b]
  obtain rb1 rb2 where "rt_ringbuffer_put rb_sample [7, 8, 9] 3 = Some (rb1, 2)"
      "rt_ringbuffer_data_len rb1 = length [24, 21 :: rt_uint8_t] + 2"
      "rt_ringbuffer_get rb1 3 = Some (rb2, take 3 ([24, 21] @ take 2 [7, 8, 9]))"
      "rb_bytes rb2 = drop 3 ([24, 21] @ take 2 [7, 8, 9])"
    using put_get by blast
  then show ?thesis by (intro exI [of _ rb1] exI [of _ rb2]) simp
qed

text \<open>
  Conservation.  Over any sequence of rt_ringbuffer_putchar and rt_ringbuffer_getchar
  calls, no access leaves the pool and no byte is lost, duplicated or reordered: the bytes
  stored first followed by those accepted are those returned followed by those still stored.
\<close>

theorem ringbuffer_bytes_conserved:
  assumes "rb_inv rb"
  shows "\<exists>rb' ins outs. fifo_run rb_put1 rt_ringbuffer_getchar rb ops = Some (rb', ins, outs)
      \<and> rb_inv rb' \<and> buffer_size rb' = buffer_size rb
      \<and> rb_data rb @ ins = outs @ rb_data rb'"
  using rb.run_conserves [OF assms] .

theorem ringbuffer_bytes_conserved_witness:
  "\<exists>rb' ins outs. fifo_run rb_put1 rt_ringbuffer_getchar rb_sample
       [Get, Put 1, Put 2, Get, Put 3, Put 4] = Some (rb', ins, outs)
     \<and> [24, 21] @ ins = outs @ rb_data rb'"
  using ringbuffer_bytes_conserved [OF rb_sample_inv, of "[Get, Put 1, Put 2, Get, Put 3, Put 4]"]
  by (simp only: rb_sample_data) blast

end
