(* ===== verification/IpcCore.thy ===== *)
theory IpcCore
  imports Samples
begin

text \<open>
  What the IPC objects of src/ipc.c share: suspending the running thread in a wait queue, in
  arrival or priority order, with an optional timeout, and waking the first or all waiters.
\<close>

section \<open>Operations\<close>

text \<open>
  The place in a priority-ordered queue: before the first waiter that is less urgent.  The flag
  is \<open>True\<close> for RT_IPC_FLAG_PRIO.
\<close>

fun prio_insert :: "(tid \<Rightarrow> nat) \<Rightarrow> tid \<Rightarrow> tid list \<Rightarrow> tid list" where
  "prio_insert pr t [] = [t]"
| "prio_insert pr t (u # us) = (if pr t < pr u then t # u # us else u # prio_insert pr t us)"

definition queue_insert :: "bool \<Rightarrow> (tid \<Rightarrow> nat) \<Rightarrow> tid \<Rightarrow> tid list \<Rightarrow> tid list" where
  "queue_insert flag pr t us = (if flag then prio_insert pr t us else us @ [t])"

definition ipc_list_suspend :: "head \<Rightarrow> tid \<Rightarrow> bool \<Rightarrow> kstate \<Rightarrow> kstate option" where
  "ipc_list_suspend h t flag s = do {
     (_, s1) \<leftarrow> rt_thread_suspend t s;
     tlist_link t h (queue_insert flag (th_prio s1) t (k_lists s1 h)) s1
   }"

text \<open>
  The same with any place in the queue: what rt_mp_alloc and the driver IPC objects do by hand.
\<close>

type_synonym place = "(tid \<Rightarrow> nat) \<Rightarrow> tid \<Rightarrow> tid list \<Rightarrow> tid list"

definition suspend_in :: "place \<Rightarrow> head \<Rightarrow> tid \<Rightarrow> kstate \<Rightarrow> kstate option" where
  "suspend_in pl h t s = do {
     (_, s1) \<leftarrow> rt_thread_suspend t s;
     tlist_link t h (pl (th_prio s1) t (k_lists s1 h)) s1
   }"

definition ipc_list_resume :: "head \<Rightarrow> kstate \<Rightarrow> kstate option" where
  "ipc_list_resume h s =
     (case k_lists s h of
        [] \<Rightarrow> None
      | t # _ \<Rightarrow> map_option snd (rt_thread_resume t s))"

text \<open>The loop would not end if a queued thread could not be resumed.\<close>

partial_function (option) ipc_list_resume_all :: "head \<Rightarrow> kstate \<Rightarrow> kstate option" where
  "ipc_list_resume_all h s =
     (case k_lists s h of
        [] \<Rightarrow> Some s
      | t # _ \<Rightarrow> do {
          (_, s1) \<leftarrow> rt_thread_resume t (upd_thread t (\<lambda>th. th\<lparr>th_error := - RT_ERROR\<rparr>) s);
          ipc_list_resume_all h s1
        })"

text \<open>\<^verbatim>\<open>if (timeout > 0)\<close>: set and start the thread's timer; the argument is read as a tick.\<close>

definition ipc_start_timer :: "tid \<Rightarrow> int \<Rightarrow> kstate \<Rightarrow> kstate option" where
  "ipc_start_timer t timeout s =
     (if 0 < timeout then timer_arm (ThreadTimer t) (word_of_int timeout) s else Some s)"

text \<open>Suspend in a queue, start the timer, reschedule: the common form of a blocking wait.\<close>

definition ipc_wait :: "head \<Rightarrow> bool \<Rightarrow> tid \<Rightarrow> int \<Rightarrow> kstate \<Rightarrow> kstate option" where
  "ipc_wait h flag t timeout s = do {
     s1 \<leftarrow> ipc_list_suspend h t flag s;
     s2 \<leftarrow> ipc_start_timer t timeout s1;
     rt_schedule s2
   }"

definition wait_in :: "place \<Rightarrow> head \<Rightarrow> tid \<Rightarrow> int \<Rightarrow> kstate \<Rightarrow> kstate option" where
  "wait_in pl h t timeout s = do {
     s1 \<leftarrow> suspend_in pl h t s;
     s2 \<leftarrow> ipc_start_timer t timeout s1;
     rt_schedule s2
   }"

text \<open>The remaining time after a wake-up: 32-bit signed arithmetic, cut off at zero.\<close>

definition remaining_timeout :: "int \<Rightarrow> rt_tick_t \<Rightarrow> rt_tick_t \<Rightarrow> int" where
  "remaining_timeout timeout start now =
     (if 0 < timeout
      then max 0 (sint (word_of_int timeout - (now - start) :: 32 word))
      else timeout)"


lemma assert_bind [simp]: "Option.bind (RT_ASSERT ex) f = Some y \<longleftrightarrow> ex \<and> f () = Some y"
  by (cases ex) auto


section \<open>Queue order\<close>

lemma set_prio_insert [simp]: "set (prio_insert pr t us) = insert t (set us)"
  by (induction us) auto

lemma distinct_prio_insert: "t \<notin> set us \<Longrightarrow> distinct us \<Longrightarrow> distinct (prio_insert pr t us)"
  by (induction us) auto

lemma sorted_prio_insert: "sorted (map pr us) \<Longrightarrow> sorted (map pr (prio_insert pr t us))"
  by (induction us) (auto simp: not_less)

text \<open>Behind all waiters that are at least as urgent, before the others.\<close>

lemma prio_insert_place:
  "sorted (map pr us) \<Longrightarrow>
   prio_insert pr t us = filter (\<lambda>u. pr u \<le> pr t) us @ t # filter (\<lambda>u. pr t < pr u) us"
proof (induction us)
  case (Cons u us)
  show ?case
  proof (cases "pr t < pr u")
    case True
    then have "\<forall>v \<in> set us. pr t < pr v" using Cons.prems by (auto intro: less_le_trans)
    then have "filter (\<lambda>v. pr v \<le> pr t) us = []" "filter (\<lambda>v. pr t < pr v) us = us"
      by (auto simp: filter_empty_conv not_le intro: filter_True)
    then show ?thesis using True by simp
  next
    case False
    then show ?thesis using Cons by simp
  qed
qed simp

lemma prio_insert_cong:
  "(\<And>u. u \<in> insert t (set us) \<Longrightarrow> pr u = pr' u) \<Longrightarrow> prio_insert pr t us = prio_insert pr' t us"
  by (induction us) auto

lemma queue_insert_props [simp]:
  "set (queue_insert flag pr t us) = insert t (set us)"
  "queue_insert flag pr t us \<noteq> []"
  by (cases us; auto simp: queue_insert_def)+

lemma distinct_queue_insert: "t \<notin> set us \<Longrightarrow> distinct us \<Longrightarrow> distinct (queue_insert flag pr t us)"
  by (auto simp: queue_insert_def distinct_prio_insert)


section \<open>Suspending\<close>

text \<open>A place is sound when it adds the thread and keeps the members distinct.\<close>

definition place_ok :: "place \<Rightarrow> bool" where
  "place_ok pl \<longleftrightarrow> (\<forall>pr t us. t \<notin> set us \<longrightarrow> distinct us \<longrightarrow>
     distinct (pl pr t us) \<and> set (pl pr t us) = insert t (set us))"

lemma place_ok_simps [simp]:
  "place_ok (queue_insert flag)" "place_ok (\<lambda>_ t us. t # us)" "place_ok (\<lambda>_ t us. us @ [t])"
  by (simp_all add: place_ok_def distinct_queue_insert)

lemma suspend_in_eq: "ipc_list_suspend h t flag = suspend_in (queue_insert flag) h t"
  "ipc_wait h flag t = wait_in (queue_insert flag) h t"
  by (simp_all add: fun_eq_iff ipc_list_suspend_def suspend_in_def ipc_wait_def wait_in_def)

lemma suspend_in_ok:
  assumes inv: "kinv s" and cur: "k_current s = Some t" and run: "th_base s t = RT_THREAD_RUNNING"
    and h: "wait_queue h" and pl: "place_ok pl"
  obtains s' where "suspend_in pl h t s = Some s'" "kinv s'"
    "th_base s' t = RT_THREAD_SUSPEND" "th_tlist (k_thread s' t) = Some h"
    "k_lists s' = (k_lists s)(h := pl (th_prio s) t (k_lists s h))"
    "thread_frame {t} s s'"
proof -
  obtain s1 where s1: "rt_thread_suspend t s = Some (RT_EOK, s1)" "kinv s1"
      "th_base s1 t = RT_THREAD_SUSPEND" "th_tlist (k_thread s1 t) = None" "k_lists s1 = k_lists s"
      "thread_frame {t} s s1"
    using suspend_ok [OF inv cur run] by metis
  have pr: "th_prio s1 = th_prio s"
    using th_core_simps [OF thread_frameD(7) [OF s1(6)]] by (simp add: fun_eq_iff)
  let ?xs = "pl (th_prio s) t (k_lists s h)"
  have "t \<notin> set (k_lists s1 h)"
    using queue_inv_member [OF kinvD(6) [OF s1(2)], of t h] s1(4) by simp
  then have "distinct ?xs" "set ?xs = insert t (set (k_lists s1 h))"
    using queue_inv_distinct [OF kinvD(6) [OF s1(2)], of h] s1(5) pl
    by (simp_all add: place_ok_def)
  then obtain s' where s': "tlist_link t h ?xs s1 = Some s'" "kinv s'"
      "k_lists s' = (k_lists s1)(h := ?xs)"
      "k_thread s' = (k_thread s1)(t := k_thread s1 t\<lparr>th_tlist := Some h\<rparr>)" "thread_frame {t} s1 s'"
    using link_ok [OF s1(2-4) h] by metis
  show thesis
  proof (rule that)
    show "suspend_in pl h t s = Some s'"
      using s1(1,5) s'(1) by (simp add: suspend_in_def pr)
  qed (use s' s1 thread_frame_trans in auto)
qed

lemmas list_suspend_ok = suspend_in_ok [where pl = "queue_insert flag" for flag, folded suspend_in_eq, OF _ _ _ _ place_ok_simps(1)]

text \<open>The valid timeouts of a wait: for ever, or less than half the tick range.\<close>

definition timeout_ok :: "int \<Rightarrow> bool" where
  "timeout_ok timeout \<longleftrightarrow> timeout < 2 ^ 31 - 1"

lemma timeout_word:
  assumes "0 < timeout" "timeout_ok timeout"
  shows "(word_of_int timeout :: rt_tick_t) < TICK_HALF"
proof -
  have "uint (word_of_int timeout :: rt_tick_t) = timeout"
    using assms by (simp add: timeout_ok_def uint_word_of_int_eq take_bit_int_eq_self)
  then show ?thesis using assms(2) unfolding word_less_def timeout_ok_def by simp
qed

lemma start_timer_ok:
  assumes inv: "kinv s" and sus: "th_base s t = RT_THREAD_SUSPEND" and "timeout_ok timeout"
  obtains s' where "ipc_start_timer t timeout s = Some s'" "kinv s'"
    "k_thread s' = k_thread s" "k_lists s' = k_lists s" "thread_frame {t} s s'"
    "0 < timeout \<Longrightarrow> tm_row (k_timer s' (ThreadTimer t)) = Some Timer_list
       \<and> tm_timeout_tick (k_timer s' (ThreadTimer t)) = k_tick s + word_of_int timeout"
proof (cases "0 < timeout")
  case True
  obtain s' where "timer_arm (ThreadTimer t) (word_of_int timeout) s = Some s'" "kinv s'"
      "k_thread s' = k_thread s" "k_lists s' = k_lists s" "thread_frame {t} s s'"
      "tm_row (k_timer s' (ThreadTimer t)) = Some Timer_list"
      "tm_timeout_tick (k_timer s' (ThreadTimer t)) = k_tick s + word_of_int timeout"
    using arm_kinv [OF inv sus timeout_word [OF True assms(3)]] by metis
  then show thesis using that True by (simp add: ipc_start_timer_def)
next
  case False
  have "thread_frame {t} s s" by (simp add: thread_frame_def objs_frame_def)
  then show thesis using that [of s] False inv by (simp add: ipc_start_timer_def)
qed

lemma objs_frame_trans: "objs_frame s s' \<Longrightarrow> objs_frame s' s'' \<Longrightarrow> objs_frame s s''"
  by (simp add: objs_frame_def)

text \<open>Scheduling a suspended current thread away.\<close>

lemma schedule_away:
  assumes inv: "kinv s" and cur: "k_current s = Some t" and sus: "th_base s t = RT_THREAD_SUSPEND"
  obtains s' where "rt_schedule s = Some s'" "kinv s'" "sched_frame s s'"
    "k_thread s' t = k_thread s t" "\<And>h. wait_queue h \<Longrightarrow> k_lists s' h = k_lists s h"
    "\<exists>c. k_current s' = Some c"
    "k_lock_nest s = 0 \<Longrightarrow> \<exists>u. th_base s u = RT_THREAD_READY \<Longrightarrow> runs_most_urgent s'"
proof -
  obtain s' where s': "rt_schedule s = Some s'" "kinv s'" "sched_frame s s'"
      "\<exists>c. k_current s' = Some c"
      "k_lock_nest s = 0 \<Longrightarrow> th_base s t = RT_THREAD_RUNNING \<or>
         (\<exists>t. th_base s t = RT_THREAD_READY) \<Longrightarrow> runs_most_urgent s'"
    using schedule_kinv [OF inv cur] by metis
  have "k_thread s' t = k_thread s t" using sched_frameD(8) [OF s'(3), of t] sus by simp
  moreover have "k_lists s' h = k_lists s h" if "wait_queue h" for h
    using that by (intro sched_frameD(10) [OF s'(3)]) auto
  ultimately show thesis using that s' by blast
qed

text \<open>The blocking wait.\<close>

lemma wait_in_ok:
  assumes inv: "kinv s" and cur: "k_current s = Some t" and run: "th_base s t = RT_THREAD_RUNNING"
    and h: "wait_queue h" and pl: "place_ok pl" and tmo: "timeout_ok timeout"
  obtains s' where "wait_in pl h t timeout s = Some s'" "kinv s'"
    "th_base s' t = RT_THREAD_SUSPEND" "th_tlist (k_thread s' t) = Some h"
    "\<And>g. wait_queue g \<Longrightarrow> k_lists s' g
       = (if g = h then pl (th_prio s) t (k_lists s h) else k_lists s g)"
    "0 < timeout \<Longrightarrow> tm_row (k_timer s' (ThreadTimer t)) = Some Timer_list
       \<and> tm_timeout_tick (k_timer s' (ThreadTimer t)) = k_tick s + word_of_int timeout"
    "objs_frame s s'" "k_tick s' = k_tick s" "\<And>u. th_core (k_thread s' u) = th_core (k_thread s u)"
    "k_lock_nest s = 0 \<Longrightarrow> \<exists>u. th_base s u = RT_THREAD_READY \<Longrightarrow> runs_most_urgent s'"
proof -
  obtain s1 where s1: "suspend_in pl h t s = Some s1" "kinv s1"
      "th_base s1 t = RT_THREAD_SUSPEND" "th_tlist (k_thread s1 t) = Some h"
      "k_lists s1 = (k_lists s)(h := pl (th_prio s) t (k_lists s h))"
      "thread_frame {t} s s1"
    using suspend_in_ok [OF inv cur run h pl] by metis
  note fr1 = thread_frameD [OF s1(6)]
  obtain s2 where s2: "ipc_start_timer t timeout s1 = Some s2" "kinv s2"
      "k_thread s2 = k_thread s1" "k_lists s2 = k_lists s1" "thread_frame {t} s1 s2"
      "0 < timeout \<Longrightarrow> tm_row (k_timer s2 (ThreadTimer t)) = Some Timer_list
         \<and> tm_timeout_tick (k_timer s2 (ThreadTimer t)) = k_tick s1 + word_of_int timeout"
    using start_timer_ok [OF s1(2,3) tmo] by metis
  note fr2 = thread_frameD [OF s2(5)]
  have cur2: "k_current s2 = Some t" and sus2: "th_base s2 t = RT_THREAD_SUSPEND"
    using fr1(5) fr2(5) cur s2(3) s1(3) by simp_all
  obtain s' where s': "rt_schedule s2 = Some s'" "kinv s'" "sched_frame s2 s'"
      "k_thread s' t = k_thread s2 t" "\<And>g. wait_queue g \<Longrightarrow> k_lists s' g = k_lists s2 g"
      "k_lock_nest s2 = 0 \<Longrightarrow> \<exists>u. th_base s2 u = RT_THREAD_READY \<Longrightarrow> runs_most_urgent s'"
    using schedule_away [OF s2(2) cur2 sus2] by metis
  have rdy: "\<exists>u. th_base s2 u = RT_THREAD_READY" if "\<exists>u. th_base s u = RT_THREAD_READY"
  proof -
    from that obtain u where u: "th_base s u = RT_THREAD_READY" by blast
    then have "u \<noteq> t" using run by auto
    then show ?thesis using u fr1(6) [of u] s2(3) by (intro exI [of _ u]) simp
  qed
  show thesis
  proof (rule that)
    show "wait_in pl h t timeout s = Some s'"
      using s1(1) s2(1) s'(1) by (simp add: wait_in_def)
    show "runs_most_urgent s'" if "k_lock_nest s = 0" "\<exists>u. th_base s u = RT_THREAD_READY"
      using s'(6) rdy [OF that(2)] that(1) fr1(3) fr2(3) by simp
    show "objs_frame s s'"
      using fr1(1) fr2(1) sched_frameD(1) [OF s'(3)] objs_frame_trans by blast
    show "th_core (k_thread s' u) = th_core (k_thread s u)" for u
      using sched_frameD(7) [OF s'(3), of u] s2(3) fr1(7) [of u] by simp
    show "k_lists s' g = (if g = h then pl (th_prio s) t (k_lists s h)
        else k_lists s g)" if "wait_queue g" for g
      using s'(5) [OF that] s2(4) s1(5) by simp
  qed (use s'(2,4) s1(3,4) s2(3,6) sched_frameD(2,3) [OF s'(3)] fr1(2) fr2(2) in auto)
qed

lemmas wait_ok = wait_in_ok [where pl = "queue_insert flag" for flag, folded suspend_in_eq, OF _ _ _ _ place_ok_simps(1)]


section \<open>Waking\<close>

text \<open>A waiter's list and status.\<close>

lemma waiter:
  assumes "kinv s" "t \<in> set (k_lists s h)" "wait_queue h"
  shows "th_base s t = RT_THREAD_SUSPEND" "th_tlist (k_thread s t) = Some h"
  using queue_inv_member [OF kinvD(6) [OF assms(1)], of t h] assms
    thread_ok_waiting [OF queue_invD(1) [OF kinvD(6) [OF assms(1)]], of t h] by auto

lemma waiter_one_queue:
  assumes "kinv s" "t \<in> set (k_lists s h)" "g \<noteq> h"
  shows "t \<notin> set (k_lists s g)"
  using queue_inv_member [OF kinvD(6) [OF assms(1)]] assms(2,3) by auto

lemma list_resume_ok:
  assumes inv: "kinv s" and h: "wait_queue h" and q: "k_lists s h = t # ts"
  obtains s' where "ipc_list_resume h s = Some s'" "rt_thread_resume t s = Some (RT_EOK, s')" "kinv s'"
    "th_base s' t = (if k_current s = Some t then RT_THREAD_RUNNING else RT_THREAD_READY)"
    "\<And>g. wait_queue g \<Longrightarrow> k_lists s' g = (if g = h then ts else k_lists s g)"
    "thread_frame {t} s s'"
proof -
  have sus: "th_base s t = RT_THREAD_SUSPEND" using waiter(1) [OF inv _ h] q by simp
  obtain s' where s': "rt_thread_resume t s = Some (RT_EOK, s')" "kinv s'"
      "th_base s' t = (if k_current s = Some t then RT_THREAD_RUNNING else RT_THREAD_READY)"
      "\<And>g. wait_queue g \<Longrightarrow> k_lists s' g = remove1 t (k_lists s g)" "thread_frame {t} s s'"
    using resume_ok [OF inv sus] by metis
  have "k_lists s' g = (if g = h then ts else k_lists s g)" if "wait_queue g" for g
    using s'(4) [OF that] q waiter_one_queue [OF inv, of t h g] by (auto simp: remove1_idem)
  then show thesis using that s' q by (simp add: ipc_list_resume_def)
qed

text \<open>All waiters are woken with the error code; the loop ends.\<close>

lemma resume_all_ok:
  assumes "kinv s" "wait_queue h"
  obtains s' where "ipc_list_resume_all h s = Some s'" "kinv s'"
    "\<And>g. wait_queue g \<Longrightarrow> k_lists s' g = (if g = h then [] else k_lists s g)"
    "\<And>t. t \<in> set (k_lists s h) \<Longrightarrow> th_error (k_thread s' t) = - RT_ERROR
        \<and> th_base s' t \<in> {RT_THREAD_READY, RT_THREAD_RUNNING}"
    "\<And>t. t \<notin> set (k_lists s h) \<Longrightarrow> k_thread s' t = k_thread s t"
    "objs_frame s s'" "k_current s' = k_current s" "k_lock_nest s' = k_lock_nest s"
    "\<And>t. th_prio s' t = th_prio s t"
proof -
  have "\<exists>s'. ipc_list_resume_all h s = Some s' \<and> kinv s'
      \<and> (\<forall>g. wait_queue g \<longrightarrow> k_lists s' g = (if g = h then [] else k_lists s g))
      \<and> (\<forall>t \<in> set (k_lists s h). th_error (k_thread s' t) = - RT_ERROR
            \<and> th_base s' t \<in> {RT_THREAD_READY, RT_THREAD_RUNNING})
      \<and> (\<forall>t. t \<notin> set (k_lists s h) \<longrightarrow> k_thread s' t = k_thread s t)
      \<and> objs_frame s s' \<and> k_current s' = k_current s \<and> k_lock_nest s' = k_lock_nest s
      \<and> (\<forall>t. th_prio s' t = th_prio s t)"
    using assms(1)
  proof (induction "k_lists s h" arbitrary: s)
    case Nil
    then show ?case
      using assms(2) by (intro exI [of _ s])
        (auto simp: ipc_list_resume_all.simps [of h s] objs_frame_def simp flip: Nil(1))
  next
    case (Cons t ts)
    let ?s0 = "upd_thread t (\<lambda>th. th\<lparr>th_error := - RT_ERROR\<rparr>) s"
    have inv0: "kinv ?s0" by (rule kinv_set_error [OF Cons.prems])
    have q0: "k_lists ?s0 h = t # ts" using Cons.hyps(2) by simp
    obtain s1 where s1: "rt_thread_resume t ?s0 = Some (RT_EOK, s1)" "kinv s1"
        "th_base s1 t = (if k_current ?s0 = Some t then RT_THREAD_RUNNING else RT_THREAD_READY)"
        "\<And>g. wait_queue g \<Longrightarrow> k_lists s1 g = (if g = h then ts else k_lists ?s0 g)"
        "thread_frame {t} ?s0 s1"
      using list_resume_ok [OF inv0 assms(2) q0] by blast
    note fr = thread_frameD [OF s1(5)]
    have ts: "ts = k_lists s1 h" using s1(4) [OF assms(2)] by simp
    have tn: "t \<notin> set ts"
      using queue_inv_distinct [OF kinvD(6) [OF Cons.prems], of h] Cons.hyps(2) by (metis distinct.simps(2))
    obtain s' where s': "ipc_list_resume_all h s1 = Some s'" "kinv s'"
        "\<forall>g. wait_queue g \<longrightarrow> k_lists s' g = (if g = h then [] else k_lists s1 g)"
        "\<forall>u \<in> set (k_lists s1 h). th_error (k_thread s' u) = - RT_ERROR
            \<and> th_base s' u \<in> {RT_THREAD_READY, RT_THREAD_RUNNING}"
        "\<forall>u. u \<notin> set (k_lists s1 h) \<longrightarrow> k_thread s' u = k_thread s1 u"
        "objs_frame s1 s'" "k_current s' = k_current s1" "k_lock_nest s' = k_lock_nest s1"
        "\<forall>u. th_prio s' u = th_prio s1 u"
      using Cons.hyps(1) [OF ts s1(2)] by blast
    have t1: "k_thread s' t = k_thread s1 t" using s'(5) tn ts by simp
    have err: "th_error (k_thread s1 t) = - RT_ERROR"
      using th_core_simps [OF fr(7), of t] by simp
    have prio: "th_prio s1 u = th_prio s u" for u
      using th_core_simps [OF fr(7), of u] by (cases "u = t") auto
    show ?case
    proof (intro exI [of _ s'] conjI ballI allI impI)
      show "ipc_list_resume_all h s = Some s'"
        using s1(1) s'(1) by (simp add: ipc_list_resume_all.simps [of h s] flip: Cons.hyps(2))
      show "k_lists s' g = (if g = h then [] else k_lists s g)" if "wait_queue g" for g
        using s'(3) s1(4) [OF that] that by simp
      show "th_error (k_thread s' u) = - RT_ERROR"
        "th_base s' u \<in> {RT_THREAD_READY, RT_THREAD_RUNNING}" if "u \<in> set (k_lists s h)" for u
        using that s'(4) ts t1 err s1(3) Cons.hyps(2) [symmetric] by (cases "u = t"; auto)+
      show "k_thread s' u = k_thread s u" if "u \<notin> set (k_lists s h)" for u
        using that s'(5) ts fr(6) [of u] Cons.hyps(2) [symmetric] by auto
      show "objs_frame s s'" using fr(1) s'(6) by (simp add: objs_frame_def)
      show "k_current s' = k_current s" using fr(5) s'(7) by simp
      show "k_lock_nest s' = k_lock_nest s" using fr(3) s'(8) by simp
      show "th_prio s' u = th_prio s u" for u using s'(9) prio by simp
    qed (rule s'(2))
  qed
  then show thesis using that by blast
qed

end
