(* ===== verification/Sem.thy ===== *)
theory Sem
  imports IpcCore
begin

text \<open>
  Counting semaphores of src/ipc.c.  A call of \<^verbatim>\<open>rt_sem_take\<close> that has to wait ends with
  \<open>Blocked\<close>; \<open>rt_sem_take_resume\<close> is its result once the thread runs again.
\<close>

section \<open>Operations\<close>

abbreviation RT_SEM_VALUE_MAX :: nat where "RT_SEM_VALUE_MAX \<equiv> RT_UINT16_MAX"

definition upd_sem :: "nat \<Rightarrow> (rt_semaphore \<Rightarrow> rt_semaphore) \<Rightarrow> kstate \<Rightarrow> kstate" where
  "upd_sem n f s = s\<lparr>k_sem := (k_sem s)(n := f (k_sem s n))\<rparr>"

text \<open>\<^verbatim>\<open>_ipc_object_init\<close>: the suspend list becomes empty.\<close>

definition ipc_object_init :: "head \<Rightarrow> kstate \<Rightarrow> kstate" where
  "ipc_object_init h s = s\<lparr>k_lists := (k_lists s)(h := [])\<rparr>"

definition rt_sem_init :: "nat \<Rightarrow> nat \<Rightarrow> rt_uint8_t \<Rightarrow> kstate \<Rightarrow> (rt_err_t \<times> kstate) option" where
  "rt_sem_init n value flag s = do {
     RT_ASSERT (value < 0x10000);
     RT_ASSERT (flag = 0 \<or> flag = 1);
     s1 \<leftarrow> object_init_check (sem_obj (k_sem s n)) s;
     Some (RT_EOK, upd_sem n (\<lambda>_. \<lparr>sem_obj = True, sem_system = True, sem_prio = (flag = 1),
                                 sem_value = value\<rparr>) (ipc_object_init (SemQ n) s1))
   }"

definition rt_sem_detach :: "nat \<Rightarrow> kstate \<Rightarrow> (rt_err_t \<times> kstate) option" where
  "rt_sem_detach n s = do {
     RT_ASSERT (sem_obj (k_sem s n));
     RT_ASSERT (sem_system (k_sem s n));
     s1 \<leftarrow> ipc_list_resume_all (SemQ n) s;
     Some (RT_EOK, upd_sem n (\<lambda>m. m\<lparr>sem_obj := False\<rparr>) s1)
   }"

text \<open>The argument obj is the answer of \<^verbatim>\<open>rt_object_allocate\<close>.\<close>

definition rt_sem_create ::
  "nat option \<Rightarrow> nat \<Rightarrow> rt_uint8_t \<Rightarrow> kstate \<Rightarrow> (nat option \<times> kstate) option" where
  "rt_sem_create obj value flag s = do {
     RT_ASSERT (value < 0x10000);
     RT_ASSERT (flag = 0 \<or> flag = 1);
     RT_ASSERT (k_irq_nest s = 0);
     (case obj of
        None \<Rightarrow> Some (None, s)
      | Some n \<Rightarrow> Some (Some n, upd_sem n (\<lambda>_. \<lparr>sem_obj = True, sem_system = False,
                       sem_prio = (flag = 1), sem_value = value\<rparr>) (ipc_object_init (SemQ n) s)))
   }"

definition rt_sem_delete :: "nat \<Rightarrow> kstate \<Rightarrow> (rt_err_t \<times> kstate) option" where
  "rt_sem_delete n s = do {
     RT_ASSERT (sem_obj (k_sem s n));
     RT_ASSERT (\<not> sem_system (k_sem s n));
     RT_ASSERT (k_irq_nest s = 0);
     s1 \<leftarrow> ipc_list_resume_all (SemQ n) s;
     Some (RT_EOK, upd_sem n (\<lambda>m. m\<lparr>sem_obj := False\<rparr>) s1)
   }"

definition rt_sem_take :: "nat \<Rightarrow> int \<Rightarrow> kstate \<Rightarrow> (rt_err_t outcome \<times> kstate) option" where
  "rt_sem_take n timeout s = do {
     RT_ASSERT (sem_obj (k_sem s n));
     if 0 < sem_value (k_sem s n)
     then Some (Returned RT_EOK, upd_sem n (\<lambda>m. m\<lparr>sem_value := sem_value m - 1\<rparr>) s)
     else if timeout = 0 then Some (Returned (- RT_ETIMEOUT), s)
     else do {
       debug_scheduler_available True s;
       t \<leftarrow> rt_thread_self s;
       let s1 = upd_thread t (\<lambda>th. th\<lparr>th_error := RT_EOK\<rparr>) s;
       s2 \<leftarrow> ipc_wait (SemQ n) (sem_prio (k_sem s n)) t timeout s1;
       Some (Blocked, s2)
     }
   }"

definition rt_sem_take_resume :: "tid \<Rightarrow> kstate \<Rightarrow> rt_err_t" where
  "rt_sem_take_resume t s =
     (if th_error (k_thread s t) \<noteq> RT_EOK then th_error (k_thread s t) else RT_EOK)"

definition rt_sem_trytake :: "nat \<Rightarrow> kstate \<Rightarrow> (rt_err_t outcome \<times> kstate) option" where
  "rt_sem_trytake n s = rt_sem_take n 0 s"

definition rt_sem_release :: "nat \<Rightarrow> kstate \<Rightarrow> (rt_err_t \<times> kstate) option" where
  "rt_sem_release n s = do {
     RT_ASSERT (sem_obj (k_sem s n));
     if k_lists s (SemQ n) \<noteq> []
     then do {
       s1 \<leftarrow> ipc_list_resume (SemQ n) s;
       s2 \<leftarrow> rt_schedule s1;
       Some (RT_EOK, s2)
     }
     else if sem_value (k_sem s n) < RT_SEM_VALUE_MAX
     then Some (RT_EOK, upd_sem n (\<lambda>m. m\<lparr>sem_value := sem_value m + 1\<rparr>) s)
     else Some (- RT_EFULL, s)
   }"

text \<open>The commands of the control functions: the reset, or any other number.\<close>

datatype ipc_cmd = IPC_CMD_RESET nat | IPC_CMD_OTHER

definition rt_sem_control :: "nat \<Rightarrow> ipc_cmd \<Rightarrow> kstate \<Rightarrow> (rt_err_t \<times> kstate) option" where
  "rt_sem_control n cmd s = do {
     RT_ASSERT (sem_obj (k_sem s n));
     (case cmd of
        IPC_CMD_RESET value \<Rightarrow> do {
          s1 \<leftarrow> ipc_list_resume_all (SemQ n) s;
          let s2 = upd_sem n (\<lambda>m. m\<lparr>sem_value := value mod 0x10000\<rparr>) s1;
          s3 \<leftarrow> rt_schedule s2;
          Some (RT_EOK, s3)
        }
      | IPC_CMD_OTHER \<Rightarrow> Some (- RT_ERROR, s))
   }"


section \<open>Facts\<close>

lemma upd_sem_simps [simp]:
  "k_thread (upd_sem n f s) = k_thread s" "k_lists (upd_sem n f s) = k_lists s"
  "k_group (upd_sem n f s) = k_group s" "k_current (upd_sem n f s) = k_current s"
  "k_lock_nest (upd_sem n f s) = k_lock_nest s" "k_irq_nest (upd_sem n f s) = k_irq_nest s"
  "k_tick (upd_sem n f s) = k_tick s" "k_timer (upd_sem n f s) = k_timer s"
  "k_timers (upd_sem n f s) = k_timers s" "k_sem (upd_sem n f s) = (k_sem s)(n := f (k_sem s n))"
  "k_mutex (upd_sem n f s) = k_mutex s" "k_event (upd_sem n f s) = k_event s"
  "k_mb (upd_sem n f s) = k_mb s" "k_mq (upd_sem n f s) = k_mq s" "k_mp (upd_sem n f s) = k_mp s" "k_drv (upd_sem n f s) = k_drv s"
  by (simp_all add: upd_sem_def)

lemma kinv_upd_sem [simp]: "kinv (upd_sem n f s) = kinv s"
  by (rule kinv_cong) simp_all

text \<open>A thread in a context where it may block: running, scheduler unlocked, no interrupt.\<close>

definition may_block :: "kstate \<Rightarrow> tid \<Rightarrow> bool" where
  "may_block s t \<longleftrightarrow> k_current s = Some t \<and> th_base s t = RT_THREAD_RUNNING
     \<and> k_lock_nest s = 0 \<and> k_irq_nest s = 0"

lemma may_blockD:
  assumes "may_block s t"
  shows "k_current s = Some t" "th_base s t = RT_THREAD_RUNNING" "k_lock_nest s = 0"
    "k_irq_nest s = 0" "debug_scheduler_available b s = Some ()" "debug_in_thread_context s = Some ()"
    "rt_thread_self s = Some t"
  using assms
  by (simp_all add: may_block_def debug_scheduler_available_def debug_in_thread_context_def
      rt_critical_level_def rt_thread_self_def)

lemma may_block_error: "may_block s t \<Longrightarrow> may_block (upd_thread u (\<lambda>th. th\<lparr>th_error := e\<rparr>) s) t"
  by (auto simp: may_block_def)

text \<open>A take that has to wait.\<close>

lemma sem_take_blocks:
  assumes inv: "kinv s" and t: "may_block s t" and obj: "sem_obj (k_sem s n)"
    and zero: "sem_value (k_sem s n) = 0" and tmo: "timeout \<noteq> 0" "timeout_ok timeout"
  obtains s' where "rt_sem_take n timeout s = Some (Blocked, s')" "kinv s'"
    "th_base s' t = RT_THREAD_SUSPEND" "k_sem s' = k_sem s"
    "\<And>g. wait_queue g \<Longrightarrow> k_lists s' g = (if g = SemQ n
       then queue_insert (sem_prio (k_sem s n)) (th_prio s) t (k_lists s (SemQ n)) else k_lists s g)"
    "0 < timeout \<Longrightarrow> tm_row (k_timer s' (ThreadTimer t)) = Some Timer_list
       \<and> tm_timeout_tick (k_timer s' (ThreadTimer t)) = k_tick s + word_of_int timeout"
    "th_error (k_thread s' t) = RT_EOK"
    "\<exists>u. th_base s u = RT_THREAD_READY \<Longrightarrow> runs_most_urgent s'"
proof -
  let ?s1 = "upd_thread t (\<lambda>th. th\<lparr>th_error := RT_EOK\<rparr>) s"
  note tD = may_blockD [OF t]
  have inv1: "kinv ?s1" by (rule kinv_set_error [OF inv])
  have c1: "k_current ?s1 = Some t" "th_base ?s1 t = RT_THREAD_RUNNING" using tD(1,2) by simp_all
  have h: "wait_queue (SemQ n)" by simp
  obtain s' where s': "ipc_wait (SemQ n) (sem_prio (k_sem s n)) t timeout ?s1 = Some s'" "kinv s'"
      "th_base s' t = RT_THREAD_SUSPEND" "th_tlist (k_thread s' t) = Some (SemQ n)"
      "\<And>g. wait_queue g \<Longrightarrow> k_lists s' g = (if g = SemQ n
         then queue_insert (sem_prio (k_sem s n)) (th_prio ?s1) t (k_lists ?s1 (SemQ n))
         else k_lists ?s1 g)"
      "0 < timeout \<Longrightarrow> tm_row (k_timer s' (ThreadTimer t)) = Some Timer_list
         \<and> tm_timeout_tick (k_timer s' (ThreadTimer t)) = k_tick ?s1 + word_of_int timeout"
      "objs_frame ?s1 s'" "th_core (k_thread s' t) = th_core (k_thread ?s1 t)"
      "k_lock_nest ?s1 = 0 \<Longrightarrow> \<exists>u. th_base ?s1 u = RT_THREAD_READY \<Longrightarrow> runs_most_urgent s'"
    by (rule wait_ok [OF inv1 c1 h tmo(2)]) blast
  have pr: "th_prio ?s1 = th_prio s" by auto
  have rdy: "\<exists>u. th_base ?s1 u = RT_THREAD_READY" if "\<exists>u. th_base s u = RT_THREAD_READY"
    using that by auto
  show thesis
  proof (rule that)
    show "rt_sem_take n timeout s = Some (Blocked, s')"
      using obj zero tmo(1) tD(5,7) s'(1) by (simp add: rt_sem_take_def)
    show "k_sem s' = k_sem s" using s'(7) by (simp add: objs_frame_def)
    show "th_error (k_thread s' t) = RT_EOK" using th_core_simps [OF s'(8)] by simp
    show "k_lists s' g = (if g = SemQ n
        then queue_insert (sem_prio (k_sem s n)) (th_prio s) t (k_lists s (SemQ n))
        else k_lists s g)" if "wait_queue g" for g
      using s'(5) [OF that] unfolding pr by simp
    show "runs_most_urgent s'" if "\<exists>u. th_base s u = RT_THREAD_READY"
      using s'(9) rdy [OF that] tD(3) by simp
  qed (use s' in auto)
qed

text \<open>A release that wakes the first waiter.\<close>

lemma sem_release_wakes:
  assumes inv: "kinv s" and cur: "k_current s = Some c" and obj: "sem_obj (k_sem s n)"
    and q: "k_lists s (SemQ n) = t # ts"
  obtains s' where "rt_sem_release n s = Some (RT_EOK, s')" "kinv s'" "k_sem s' = k_sem s"
    "th_base s' t \<in> {RT_THREAD_READY, RT_THREAD_RUNNING}"
    "th_error (k_thread s' t) = th_error (k_thread s t)"
    "\<And>g. wait_queue g \<Longrightarrow> k_lists s' g = (if g = SemQ n then ts else k_lists s g)"
    "k_lock_nest s = 0 \<Longrightarrow> runs_most_urgent s'"
proof -
  have h: "wait_queue (SemQ n)" by simp
  obtain s1 where s1: "ipc_list_resume (SemQ n) s = Some s1" "kinv s1"
      "th_base s1 t = (if k_current s = Some t then RT_THREAD_RUNNING else RT_THREAD_READY)"
      "\<And>g. wait_queue g \<Longrightarrow> k_lists s1 g = (if g = SemQ n then ts else k_lists s g)"
      "thread_frame {t} s s1"
    using list_resume_ok [OF inv h q] by blast
  note fr1 = thread_frameD [OF s1(5)]
  have cur1: "k_current s1 = Some c" using fr1(5) cur by simp
  obtain s' where s': "rt_schedule s1 = Some s'" "kinv s'" "sched_frame s1 s'"
      "k_lock_nest s1 = 0 \<Longrightarrow> th_base s1 c = RT_THREAD_RUNNING \<or>
         (\<exists>t. th_base s1 t = RT_THREAD_READY) \<Longrightarrow> runs_most_urgent s'"
    using schedule_kinv [OF s1(2) cur1] by metis
  note fr = sched_frameD [OF s'(3)]
  have run: "th_base s1 t \<in> {RT_THREAD_READY, RT_THREAD_RUNNING}" using s1(3) by simp
  show thesis
  proof (rule that)
    show "rt_sem_release n s = Some (RT_EOK, s')"
      using obj q s1(1) s'(1) by (simp add: rt_sem_release_def)
    show "k_sem s' = k_sem s" using fr(1) fr1(1) by (simp add: objs_frame_def)
    show "th_base s' t \<in> {RT_THREAD_READY, RT_THREAD_RUNNING}" using fr(9) [OF run] .
    show "th_error (k_thread s' t) = th_error (k_thread s t)"
      using th_core_simps [OF fr(7), of t] th_core_simps [OF fr1(7), of t] by simp
    show "k_lists s' g = (if g = SemQ n then ts else k_lists s g)" if "wait_queue g" for g
    proof -
      have "k_lists s' g = k_lists s1 g" using that by (intro fr(10)) auto
      then show ?thesis using s1(4) [OF that] by simp
    qed
    show "runs_most_urgent s'" if "k_lock_nest s = 0"
    proof -
      have "th_base s1 c = RT_THREAD_RUNNING \<or> (\<exists>t. th_base s1 t = RT_THREAD_READY)"
        using s1(3) cur by (cases "c = t") auto
      then show ?thesis using s'(4) that fr1(3) by simp
    qed
  qed (rule s'(2))
qed


section \<open>Accounting\<close>

text \<open>
  A semaphore's value is positive only while nobody waits.  The relation follows one semaphore
  through any history of takes, releases and other kernel activity (timeouts of waiters
  included) from any well-formed state, counting the units put in (initially or by releases that
  succeed) and the units granted.  A take that returns at once is a grant; a release grants as
  many units as there are waiters that it actually takes out of the queue, makes ready or
  running, and leaves without an error of their own.
\<close>

definition sem_ok :: "nat \<Rightarrow> kstate \<Rightarrow> bool" where
  "sem_ok n s \<longleftrightarrow> sem_value (k_sem s n) \<le> RT_SEM_VALUE_MAX
     \<and> (0 < sem_value (k_sem s n) \<longrightarrow> k_lists s (SemQ n) = [])"

definition sem_woken :: "nat \<Rightarrow> kstate \<Rightarrow> kstate \<Rightarrow> tid list" where
  "sem_woken n s s' = filter (\<lambda>t. t \<notin> set (k_lists s' (SemQ n))
     \<and> th_base s' t \<in> {RT_THREAD_READY, RT_THREAD_RUNNING}
     \<and> rt_sem_take_resume t s' = th_error (k_thread s t)) (k_lists s (SemQ n))"

inductive sem_history :: "nat \<Rightarrow> kstate \<Rightarrow> nat \<Rightarrow> nat \<Rightarrow> bool" for n where
  start: "\<lbrakk>kinv s; sem_ok n s\<rbrakk>
    \<Longrightarrow> sem_history n s (sem_value (k_sem s n)) 0"
| taken: "\<lbrakk>sem_history n s i g; may_block s t; timeout_ok timeout;
      rt_sem_take n timeout s = Some (Returned RT_EOK, s')\<rbrakk> \<Longrightarrow> sem_history n s' i (g + 1)"
| not_taken: "\<lbrakk>sem_history n s i g; may_block s t; timeout_ok timeout;
      rt_sem_take n timeout s = Some (r, s'); r \<noteq> Returned RT_EOK\<rbrakk> \<Longrightarrow> sem_history n s' i g"
| released: "\<lbrakk>sem_history n s i g; k_current s = Some c; rt_sem_release n s = Some (RT_EOK, s')\<rbrakk>
    \<Longrightarrow> sem_history n s' (i + 1) (g + length (sem_woken n s s'))"
| full: "\<lbrakk>sem_history n s i g; k_current s = Some c; rt_sem_release n s = Some (r, s'); r \<noteq> RT_EOK\<rbrakk>
    \<Longrightarrow> sem_history n s' i g"
| other: "\<lbrakk>sem_history n s i g; kinv s'; k_sem s' n = k_sem s n;
      set (k_lists s' (SemQ n)) \<subseteq> set (k_lists s (SemQ n))\<rbrakk> \<Longrightarrow> sem_history n s' i g"

lemma sem_take_step:
  assumes inv: "kinv s" and ok: "sem_ok n s" and t: "may_block s t" and tmo: "timeout_ok timeout"
    and take: "rt_sem_take n timeout s = Some (r, s')"
  shows "kinv s' \<and> sem_ok n s' \<and>
    (if r = Returned RT_EOK then sem_value (k_sem s n) = sem_value (k_sem s' n) + 1
     else sem_value (k_sem s n) = sem_value (k_sem s' n))"
proof (cases "0 < sem_value (k_sem s n) \<or> timeout = 0")
  case True
  then show ?thesis
    using take inv ok by (auto simp: rt_sem_take_def sem_ok_def split: if_splits)
next
  case False
  have obj: "sem_obj (k_sem s n)" using take by (auto simp: rt_sem_take_def bind_eq_Some_conv)
  obtain s'' where "rt_sem_take n timeout s = Some (Blocked, s'')" "kinv s''" "k_sem s'' = k_sem s"
    using sem_take_blocks [OF inv t obj _ _ tmo] False by (metis not_gr0)
  then show ?thesis using take False by (auto simp: sem_ok_def)
qed

lemma sem_release_step:
  assumes inv: "kinv s" and ok: "sem_ok n s" and cur: "k_current s = Some c"
    and rel: "rt_sem_release n s = Some (r, s')"
  shows "kinv s' \<and> sem_ok n s' \<and> (r = RT_EOK \<longrightarrow>
      sem_value (k_sem s' n) + length (sem_woken n s s') = sem_value (k_sem s n) + 1)
    \<and> (r \<noteq> RT_EOK \<longrightarrow> s' = s)"
proof (cases "k_lists s (SemQ n)")
  case Nil
  then show ?thesis
    using rel inv ok by (auto simp: rt_sem_release_def sem_ok_def sem_woken_def split: if_splits)
next
  case (Cons t ts)
  have obj: "sem_obj (k_sem s n)" using rel by (auto simp: rt_sem_release_def bind_eq_Some_conv)
  have "distinct (t # ts)" using queue_inv_distinct [OF kinvD(6) [OF inv], of "SemQ n"] Cons by simp
  then have notin: "t \<notin> set ts" by simp
  obtain s'' where w: "rt_sem_release n s = Some (RT_EOK, s'')" "kinv s''" "k_sem s'' = k_sem s"
      "th_base s'' t \<in> {RT_THREAD_READY, RT_THREAD_RUNNING}"
      "th_error (k_thread s'' t) = th_error (k_thread s t)"
      "\<And>g. wait_queue g \<Longrightarrow> k_lists s'' g = (if g = SemQ n then ts else k_lists s g)"
    using sem_release_wakes [OF inv cur obj Cons] by metis
  have l: "k_lists s'' (SemQ n) = ts" using w(6) [of "SemQ n"] by simp
  have "sem_woken n s s'' = [t]"
    using notin w(4,5) unfolding sem_woken_def l Cons
    by (auto simp: rt_sem_take_resume_def filter_empty_conv)
  then show ?thesis using rel ok Cons w(1-3) l by (auto simp: sem_ok_def)
qed

lemma sem_history_ok:
  "sem_history n s i g \<Longrightarrow> kinv s \<and> sem_ok n s \<and> i = g + sem_value (k_sem s n)"
proof (induction rule: sem_history.induct)
  case (start s)
  then show ?case by (simp add: sem_ok_def)
next
  case (taken s i g t timeout s')
  then show ?case using sem_take_step [of s n t timeout "Returned RT_EOK" s'] by auto
next
  case (not_taken s i g t timeout r s')
  then show ?case using sem_take_step [of s n t timeout r s'] by auto
next
  case (released s i g c s')
  then show ?case using sem_release_step [of s n c RT_EOK s'] by auto
next
  case (full s i g c r s')
  then show ?case using sem_release_step [of s n c r s'] by auto
next
  case (other s i g s')
  then show ?case by (auto simp: sem_ok_def)
qed


section \<open>Properties\<close>

text \<open>
  A take that has to wait.  With a priority-flagged semaphore of value zero the running
  thread is suspended in the wait queue behind all waiters that are at least as urgent and
  before all others, its timer runs if the timeout is positive, no other queue and no semaphore
  changes, and the processor goes to the most urgent ready thread.
\<close>

theorem sem_take_waits_in_priority_order:
  assumes "kinv s" "may_block s t" "sem_obj (k_sem s n)" "sem_value (k_sem s n) = 0"
    and "timeout \<noteq> 0" "timeout_ok timeout"
    and "sem_prio (k_sem s n)" "sorted (map (th_prio s) (k_lists s (SemQ n)))"
  shows "\<exists>s'. rt_sem_take n timeout s = Some (Blocked, s') \<and> kinv s'
      \<and> th_base s' t = RT_THREAD_SUSPEND \<and> k_sem s' = k_sem s
      \<and> k_lists s' (SemQ n) = filter (\<lambda>u. th_prio s u \<le> th_prio s t) (k_lists s (SemQ n))
          @ t # filter (\<lambda>u. th_prio s t < th_prio s u) (k_lists s (SemQ n))
      \<and> (\<forall>h. wait_queue h \<and> h \<noteq> SemQ n \<longrightarrow> k_lists s' h = k_lists s h)
      \<and> (0 < timeout \<longrightarrow> tm_row (k_timer s' (ThreadTimer t)) = Some Timer_list
           \<and> tm_timeout_tick (k_timer s' (ThreadTimer t)) = k_tick s + word_of_int timeout)
      \<and> ((\<exists>u. th_base s u = RT_THREAD_READY) \<longrightarrow> runs_most_urgent s')"
proof -
  obtain s' where s': "rt_sem_take n timeout s = Some (Blocked, s')" "kinv s'"
    "th_base s' t = RT_THREAD_SUSPEND" "k_sem s' = k_sem s"
    "\<And>g. wait_queue g \<Longrightarrow> k_lists s' g = (if g = SemQ n
       then queue_insert (sem_prio (k_sem s n)) (th_prio s) t (k_lists s (SemQ n)) else k_lists s g)"
    "0 < timeout \<Longrightarrow> tm_row (k_timer s' (ThreadTimer t)) = Some Timer_list
       \<and> tm_timeout_tick (k_timer s' (ThreadTimer t)) = k_tick s + word_of_int timeout"
    "\<exists>u. th_base s u = RT_THREAD_READY \<Longrightarrow> runs_most_urgent s'"
    by (rule sem_take_blocks [OF assms(1-6)]) blast
  show ?thesis
    using s'(1-4,6,7) s'(5) [of "SemQ n"] s'(5) assms(7) prio_insert_place [OF assms(8), of t]
    by (intro exI [of _ s']) (auto simp: queue_insert_def)
qed

lemma sample_may_block: "may_block k_sample 0"
  by (simp add: may_block_def)

theorem sem_take_waits_in_priority_order_witness:
  "\<exists>s'. rt_sem_take 0 50 k_sample = Some (Blocked, s') \<and> k_lists s' (SemQ 0) = [3, 0]
     \<and> tm_timeout_tick (k_timer s' (ThreadTimer 0)) = 150"
  using sem_take_waits_in_priority_order [OF kinv_sample sample_may_block, of 0 50]
  by (auto simp: k_sample_def timeout_ok_def)

text \<open>
  A release with waiters hands its unit to the first of them: that thread leaves the queue
  and becomes ready (or runs), its stored error is unchanged, the value stays as it is, and the
  most urgent thread runs if the scheduler is unlocked.
\<close>

theorem sem_release_hands_over:
  assumes "kinv s" "k_current s = Some c" "sem_obj (k_sem s n)" "k_lists s (SemQ n) = t # ts"
    and "k_lock_nest s = 0"
  shows "\<exists>s'. rt_sem_release n s = Some (RT_EOK, s') \<and> kinv s' \<and> k_sem s' = k_sem s
      \<and> k_lists s' (SemQ n) = ts \<and> th_base s' t \<in> {RT_THREAD_READY, RT_THREAD_RUNNING}
      \<and> rt_sem_take_resume t s' = th_error (k_thread s t)
      \<and> (\<forall>h. wait_queue h \<and> h \<noteq> SemQ n \<longrightarrow> k_lists s' h = k_lists s h)
      \<and> runs_most_urgent s'"
proof -
  obtain s' where s': "rt_sem_release n s = Some (RT_EOK, s')" "kinv s'" "k_sem s' = k_sem s"
    "th_base s' t \<in> {RT_THREAD_READY, RT_THREAD_RUNNING}"
    "th_error (k_thread s' t) = th_error (k_thread s t)"
    "\<And>g. wait_queue g \<Longrightarrow> k_lists s' g = (if g = SemQ n then ts else k_lists s g)"
    "k_lock_nest s = 0 \<Longrightarrow> runs_most_urgent s'"
    by (rule sem_release_wakes [OF assms(1-4)]) blast
  then show ?thesis
    using assms(5) s'(6) [of "SemQ n"]
    by (intro exI [of _ s']) (auto simp: rt_sem_take_resume_def)
qed

theorem sem_release_hands_over_witness:
  "\<exists>s'. rt_sem_release 0 k_sample = Some (RT_EOK, s') \<and> k_lists s' (SemQ 0) = []
     \<and> runs_most_urgent s'"
  using sem_release_hands_over [OF kinv_sample, of 0 0 3 "[]"] by (auto simp: k_sample_def)


text \<open>A release that wakes the waiter of the sample's semaphore 0.\<close>

lemma sample_sem_history:
  "\<exists>s. sem_history 0 s 1 1 \<and> k_lists s (SemQ 0) = [] \<and> sem_obj (k_sem s 0) \<and> k_current s \<noteq> None
     \<and> th_base s 3 \<in> {RT_THREAD_READY, RT_THREAD_RUNNING}"
proof -
  have q: "k_lists k_sample (SemQ 0) = [3]" by (simp add: lists_sample_def)
  have "sem_ok 0 k_sample" by (simp add: sem_ok_def k_sample_def)
  from sem_history.start [OF kinv_sample this]
  have h0: "sem_history 0 k_sample 0 0" by (simp add: k_sample_def)
  have cur: "k_current k_sample = Some 0" and obj: "sem_obj (k_sem k_sample 0)"
    by (simp_all add: k_sample_def)
  obtain s where s: "rt_sem_release 0 k_sample = Some (RT_EOK, s)" "kinv s" "k_sem s = k_sem k_sample"
      "th_base s 3 \<in> {RT_THREAD_READY, RT_THREAD_RUNNING}"
      "th_error (k_thread s 3) = th_error (k_thread k_sample 3)"
      "\<And>g. wait_queue g \<Longrightarrow> k_lists s g = (if g = SemQ 0 then [] else k_lists k_sample g)"
      "k_lock_nest k_sample = 0 \<Longrightarrow> runs_most_urgent s"
    by (rule sem_release_wakes [OF kinv_sample cur obj q]) blast
  have l: "k_lists s (SemQ 0) = []" using s(6) [of "SemQ 0"] by simp
  have "sem_woken 0 k_sample s = [3]"
    using s(4,5) unfolding sem_woken_def l q by (simp add: rt_sem_take_resume_def)
  then have "sem_history 0 s 1 1" using sem_history.released [OF h0 cur s(1)] by simp
  moreover have "runs_most_urgent s" by (rule s(7)) (simp add: k_sample_def)
  ultimately show ?thesis using l s(3,4) obj by (auto simp: runs_most_urgent_def)
qed


end
