(* ===== verification/Mutex.thy ===== *)
theory Mutex
  imports Sem
begin

text \<open>
  Mutexes of src/ipc.c: ownership with recursion, priority inheritance along the taken and
  pending objects of the threads, the priority ceiling, and the hand-over on release.
\<close>

section \<open>Operations\<close>

abbreviation RT_MUTEX_HOLD_MAX :: nat where "RT_MUTEX_HOLD_MAX \<equiv> RT_UINT8_MAX"

definition upd_mutex :: "nat \<Rightarrow> (rt_mutex \<Rightarrow> rt_mutex) \<Rightarrow> kstate \<Rightarrow> kstate" where
  "upd_mutex n f s = s\<lparr>k_mutex := (k_mutex s)(n := f (k_mutex s n))\<rparr>"

text \<open>
  \<^verbatim>\<open>mutex->taken_list\<close> as a node of a thread's \<^verbatim>\<open>taken_object_list\<close>: insertion behind the head,
  removal from whatever list it is in.
\<close>

definition taken_insert :: "nat \<Rightarrow> tid \<Rightarrow> kstate \<Rightarrow> kstate option" where
  "taken_insert n t s =
     (if mx_taken_by (k_mutex s n) = None
      then Some (upd_mutex n (\<lambda>m. m\<lparr>mx_taken_by := Some t\<rparr>)
             (upd_thread t (\<lambda>th. th\<lparr>th_taken_object_list := n # th_taken_object_list th\<rparr>) s))
      else None)"

definition taken_remove :: "nat \<Rightarrow> kstate \<Rightarrow> kstate" where
  "taken_remove n s =
     (case mx_taken_by (k_mutex s n) of
        None \<Rightarrow> s
      | Some t \<Rightarrow> upd_mutex n (\<lambda>m. m\<lparr>mx_taken_by := None\<rparr>)
          (upd_thread t (\<lambda>th. th\<lparr>th_taken_object_list := remove1 n (th_taken_object_list th)\<rparr>) s))"

text \<open>The priority of the first waiter, or 255.\<close>

definition waiters_priority :: "nat \<Rightarrow> kstate \<Rightarrow> nat" where
  "waiters_priority n s =
     (case k_lists s (MutexQ n) of [] \<Rightarrow> 255 | u # _ \<Rightarrow> th_prio s u)"

definition mutex_update_priority :: "nat \<Rightarrow> kstate \<Rightarrow> kstate" where
  "mutex_update_priority n s = upd_mutex n (\<lambda>m. m\<lparr>mx_priority := waiters_priority n s\<rparr>) s"

definition thread_get_mutex_priority :: "tid \<Rightarrow> kstate \<Rightarrow> nat" where
  "thread_get_mutex_priority t s =
     fold (\<lambda>n priority. if mx_priority (k_mutex s n) < priority
                        then mx_priority (k_mutex s n) else priority)
       (th_taken_object_list (k_thread s t)) (th_init_priority (k_thread s t))"

text \<open>The recursion follows the chain of owners; it would not end on a cycle (a deadlock).\<close>

partial_function (option) thread_update_priority :: "tid \<Rightarrow> nat \<Rightarrow> kstate \<Rightarrow> kstate option" where
  "thread_update_priority t priority s = do {
     s1 \<leftarrow> thread_change_priority t priority s;
     (case th_pending_object (k_thread s1 t) of
        None \<Rightarrow> Some s1
      | Some n \<Rightarrow>
          if th_base s1 t = RT_THREAD_SUSPEND \<and> mx_obj (k_mutex s1 n)
          then do {
            s2 \<leftarrow> ipc_list_suspend (MutexQ n) t True (tlist_remove t s1);
            let s3 = mutex_update_priority n s2;
            owner \<leftarrow> mx_owner (k_mutex s3 n);
            let mutex_priority = thread_get_mutex_priority owner s3;
            if mutex_priority \<noteq> th_prio s3 owner
            then thread_update_priority owner mutex_priority s3
            else Some s3
          }
          else Some s1)
   }"

definition mutex_new :: "bool \<Rightarrow> rt_mutex" where
  "mutex_new sys = \<lparr>mx_obj = True, mx_system = sys, mx_ceiling_priority = 255, mx_priority = 255,
     mx_hold = 0, mx_owner = None, mx_taken_by = None\<rparr>"

definition rt_mutex_init :: "nat \<Rightarrow> kstate \<Rightarrow> (rt_err_t \<times> kstate) option" where
  "rt_mutex_init n s = do {
     s1 \<leftarrow> object_init_check (mx_obj (k_mutex s n)) s;
     Some (RT_EOK, upd_mutex n (\<lambda>_. mutex_new True) (ipc_object_init (MutexQ n) s1))
   }"

definition rt_mutex_detach :: "nat \<Rightarrow> kstate \<Rightarrow> (rt_err_t \<times> kstate) option" where
  "rt_mutex_detach n s = do {
     RT_ASSERT (mx_obj (k_mutex s n));
     RT_ASSERT (mx_system (k_mutex s n));
     s1 \<leftarrow> ipc_list_resume_all (MutexQ n) s;
     Some (RT_EOK, upd_mutex n (\<lambda>m. m\<lparr>mx_obj := False\<rparr>) (taken_remove n s1))
   }"

text \<open>
  The common end of \<^verbatim>\<open>rt_mutex_drop_thread\<close> and of a failed wait: the mutex takes the priority of
  its first waiter, and an owner that had the departed thread's priority falls back.  The first
  read dereferences the owner.
\<close>

definition mutex_restore_owner :: "nat \<Rightarrow> tid \<Rightarrow> kstate \<Rightarrow> kstate option" where
  "mutex_restore_owner n t s = do {
     owner \<leftarrow> mx_owner (k_mutex s n);
     let need_update = (th_prio s owner = th_prio s t);
     let s1 = mutex_update_priority n s;
     if need_update then
       (let priority = thread_get_mutex_priority owner s1 in
        if priority \<noteq> th_prio s1 owner then thread_update_priority owner priority s1 else Some s1)
     else Some s1
   }"

definition rt_mutex_drop_thread :: "nat \<Rightarrow> tid \<Rightarrow> kstate \<Rightarrow> kstate option" where
  "rt_mutex_drop_thread n t s = mutex_restore_owner n t (tlist_remove t s)"

text \<open>\<^verbatim>\<open>rt_set_errno\<close> of kservice.c, in thread context.\<close>

definition rt_set_errno :: "rt_err_t \<Rightarrow> kstate \<Rightarrow> kstate" where
  "rt_set_errno e s =
     (case rt_thread_self s of
        None \<Rightarrow> s
      | Some t \<Rightarrow> if k_irq_nest s \<noteq> 0 then s else upd_thread t (\<lambda>th. th\<lparr>th_error := e\<rparr>) s)"

text \<open>The mutex argument is \<^term>\<open>None\<close> for a NULL pointer.\<close>

definition rt_mutex_setprioceiling :: "nat option \<Rightarrow> nat \<Rightarrow> kstate \<Rightarrow> nat \<times> kstate" where
  "rt_mutex_setprioceiling mutex priority s =
     (case mutex of
        Some n \<Rightarrow>
          if priority < RT_THREAD_PRIORITY_MAX
          then (mx_ceiling_priority (k_mutex s n),
                upd_mutex n (\<lambda>m. m\<lparr>mx_ceiling_priority := priority\<rparr>) s)
          else (255, rt_set_errno (- RT_EINVAL) s)
      | None \<Rightarrow> (255, rt_set_errno (- RT_EINVAL) s))"

definition rt_mutex_getprioceiling :: "nat option \<Rightarrow> kstate \<Rightarrow> nat" where
  "rt_mutex_getprioceiling mutex s =
     (case mutex of Some n \<Rightarrow> mx_ceiling_priority (k_mutex s n) | None \<Rightarrow> 255)"

definition rt_mutex_create :: "nat option \<Rightarrow> kstate \<Rightarrow> (nat option \<times> kstate) option" where
  "rt_mutex_create obj s = do {
     RT_ASSERT (k_irq_nest s = 0);
     (case obj of
        None \<Rightarrow> Some (None, s)
      | Some n \<Rightarrow> Some (Some n, upd_mutex n (\<lambda>_. mutex_new False) (ipc_object_init (MutexQ n) s)))
   }"

definition rt_mutex_delete :: "nat \<Rightarrow> kstate \<Rightarrow> (rt_err_t \<times> kstate) option" where
  "rt_mutex_delete n s = do {
     RT_ASSERT (mx_obj (k_mutex s n));
     RT_ASSERT (\<not> mx_system (k_mutex s n));
     RT_ASSERT (k_irq_nest s = 0);
     s1 \<leftarrow> ipc_list_resume_all (MutexQ n) s;
     Some (RT_EOK, upd_mutex n (\<lambda>m. m\<lparr>mx_obj := False\<rparr>) (taken_remove n s1))
   }"

definition rt_mutex_take :: "nat \<Rightarrow> int \<Rightarrow> kstate \<Rightarrow> (rt_err_t outcome \<times> kstate) option" where
  "rt_mutex_take n timeout s = do {
     debug_scheduler_available True s;
     RT_ASSERT (mx_obj (k_mutex s n));
     t \<leftarrow> rt_thread_self s;
     let s1 = upd_thread t (\<lambda>th. th\<lparr>th_error := RT_EOK\<rparr>) s;
     (case mx_owner (k_mutex s1 n) of
        None \<Rightarrow> do {
          let s2 = upd_mutex n (\<lambda>m. m\<lparr>mx_owner := Some t, mx_priority := 255, mx_hold := 1\<rparr>) s1;
          let ceiling = mx_ceiling_priority (k_mutex s2 n);
          s3 \<leftarrow> (if ceiling \<noteq> 255
                 then (if ceiling < th_prio s2 t then thread_update_priority t ceiling s2 else Some s2)
                 else taken_insert n t s2);
          Some (Returned RT_EOK, s3)
        }
      | Some owner \<Rightarrow>
          if owner = t then
            (if mx_hold (k_mutex s1 n) < RT_MUTEX_HOLD_MAX
             then Some (Returned RT_EOK, upd_mutex n (\<lambda>m. m\<lparr>mx_hold := mx_hold m + 1\<rparr>) s1)
             else Some (Returned (- RT_EFULL), s1))
          else if timeout = 0 then
            Some (Returned (- RT_ETIMEOUT), upd_thread t (\<lambda>th. th\<lparr>th_error := - RT_ETIMEOUT\<rparr>) s1)
          else do {
            let priority = th_prio s1 t;
            s2 \<leftarrow> ipc_list_suspend (MutexQ n) t True s1;
            let s3 = upd_thread t (\<lambda>th. th\<lparr>th_pending_object := Some n\<rparr>) s2;
            s4 \<leftarrow> (if priority < mx_priority (k_mutex s3 n)
                   then (let s4 = upd_mutex n (\<lambda>m. m\<lparr>mx_priority := priority\<rparr>) s3 in
                         if priority < th_prio s4 owner
                         then thread_update_priority owner priority s4 else Some s4)
                   else Some s3);
            s5 \<leftarrow> ipc_start_timer t timeout s4;
            s6 \<leftarrow> rt_schedule s5;
            Some (Blocked, s6)
          })
   }"

text \<open>The rest of a take that waited, when the thread runs again.\<close>

definition rt_mutex_take_resume :: "nat \<Rightarrow> tid \<Rightarrow> kstate \<Rightarrow> (rt_err_t \<times> kstate) option" where
  "rt_mutex_take_resume n t s =
     (if th_error (k_thread s t) = RT_EOK then Some (RT_EOK, s)
      else do {
        s1 \<leftarrow> mutex_restore_owner n t s;
        Some (th_error (k_thread s1 t), s1)
      })"

definition rt_mutex_trytake :: "nat \<Rightarrow> kstate \<Rightarrow> (rt_err_t outcome \<times> kstate) option" where
  "rt_mutex_trytake n s = rt_mutex_take n 0 s"

text \<open>
  The two halves of the last release: the releasing thread's priority, and the hand-over to the
  first waiter.  The flag says that a reschedule is needed.
\<close>

definition release_priority :: "nat \<Rightarrow> tid \<Rightarrow> kstate \<Rightarrow> (bool \<times> kstate) option" where
  "release_priority n t s =
     (if mx_ceiling_priority (k_mutex s n) \<noteq> 255 \<or> th_prio s t = mx_priority (k_mutex s n)
      then do {
        s1 \<leftarrow> thread_change_priority t (thread_get_mutex_priority t s) s;
        Some (True, s1)
      }
      else Some (False, s))"

definition release_handover :: "nat \<Rightarrow> kstate \<Rightarrow> (bool \<times> kstate) option" where
  "release_handover n s =
     (case k_lists s (MutexQ n) of
        next_thread # _ \<Rightarrow> do {
          let s1 = tlist_remove next_thread s;
          let s2 = upd_mutex n (\<lambda>m. m\<lparr>mx_owner := Some next_thread, mx_hold := 1\<rparr>) s1;
          s3 \<leftarrow> taken_insert n next_thread s2;
          let s4 = upd_thread next_thread (\<lambda>th. th\<lparr>th_pending_object := None\<rparr>) s3;
          (_, s5) \<leftarrow> rt_thread_resume next_thread s4;
          Some (True, mutex_update_priority n s5)
        }
      | [] \<Rightarrow> Some (False, upd_mutex n (\<lambda>m. m\<lparr>mx_owner := None, mx_priority := 255\<rparr>) s))"

definition rt_mutex_release :: "nat \<Rightarrow> kstate \<Rightarrow> (rt_err_t \<times> kstate) option" where
  "rt_mutex_release n s = do {
     RT_ASSERT (mx_obj (k_mutex s n));
     debug_in_thread_context s;
     t \<leftarrow> rt_thread_self s;
     if mx_owner (k_mutex s n) \<noteq> Some t
     then Some (- RT_ERROR, upd_thread t (\<lambda>th. th\<lparr>th_error := - RT_ERROR\<rparr>) s)
     else do {
       let s1 = upd_mutex n (\<lambda>m. m\<lparr>mx_hold := (mx_hold m + 255) mod 256\<rparr>) s;
       if mx_hold (k_mutex s1 n) = 0
       then do {
         (need1, s2) \<leftarrow> release_priority n t (taken_remove n s1);
         (need2, s3) \<leftarrow> release_handover n s2;
         s4 \<leftarrow> (if need1 \<or> need2 then rt_schedule s3 else Some s3);
         Some (RT_EOK, s4)
       }
       else Some (RT_EOK, s1)
     }
   }"

definition rt_mutex_control :: "nat \<Rightarrow> kstate \<Rightarrow> rt_err_t option" where
  "rt_mutex_control n s = do {
     RT_ASSERT (mx_obj (k_mutex s n));
     Some (- RT_ERROR)
   }"


section \<open>Frames\<close>

lemma upd_mutex_simps [simp]:
  "k_thread (upd_mutex n f s) = k_thread s" "k_lists (upd_mutex n f s) = k_lists s"
  "k_group (upd_mutex n f s) = k_group s" "k_current (upd_mutex n f s) = k_current s"
  "k_lock_nest (upd_mutex n f s) = k_lock_nest s" "k_irq_nest (upd_mutex n f s) = k_irq_nest s"
  "k_tick (upd_mutex n f s) = k_tick s" "k_timer (upd_mutex n f s) = k_timer s"
  "k_timers (upd_mutex n f s) = k_timers s"
  "k_mutex (upd_mutex n f s) = (k_mutex s)(n := f (k_mutex s n))"
  "k_sem (upd_mutex n f s) = k_sem s" "k_event (upd_mutex n f s) = k_event s"
  "k_mb (upd_mutex n f s) = k_mb s" "k_mq (upd_mutex n f s) = k_mq s" "k_mp (upd_mutex n f s) = k_mp s" "k_drv (upd_mutex n f s) = k_drv s"
  by (simp_all add: upd_mutex_def)

lemma kinv_upd_mutex [simp]: "kinv (upd_mutex n f s) = kinv s"
  by (rule kinv_cong) simp_all

lemma kinv_set_pending: "kinv s \<Longrightarrow> kinv (upd_thread t (\<lambda>th. th\<lparr>th_pending_object := p\<rparr>) s)"
  by (rule kinv_upd_thread) (simp_all add: scheduler_stack_check_def)

lemma kinv_set_taken: "kinv s \<Longrightarrow> kinv (upd_thread t (\<lambda>th. th\<lparr>th_taken_object_list := g th\<rparr>) s)"
  by (rule kinv_upd_thread) (simp_all add: scheduler_stack_check_def)

lemma kinv_mutex_update_priority [simp]: "kinv (mutex_update_priority n s) = kinv s"
  by (simp add: mutex_update_priority_def)

text \<open>A suspended thread that left its queue.\<close>

lemma unlink_ok:
  assumes inv: "kinv s" and sus: "th_base s t = RT_THREAD_SUSPEND"
  shows "kinv (tlist_remove t s)"
    and "\<And>g. k_lists (tlist_remove t s) g = remove1 t (k_lists s g)"
proof -
  let ?s1 = "tlist_remove t s"
  have q: "queue_inv s" using kinvD(6) [OF inv] .
  have b: "th_base s t \<in> {RT_THREAD_READY, RT_THREAD_SUSPEND, RT_THREAD_RUNNING}" using sus by simp
  note ok = queue_invD(1) [OF q, of t] and lists1 = tlist_remove_lists [OF q, of t]
  show "k_lists ?s1 g = remove1 t (k_lists s g)" for g by (rule lists1)
  have ready: "t \<notin> set (k_lists s (Ready p))" for p
    using ready_queue_member(1) [OF q, of t p] sus by auto
  have "queue_inv ?s1"
  proof (rule queue_inv_update [OF q])
    show "thread_ok (k_thread s t\<lparr>th_tlist := None\<rparr>)"
      using thread_ok_mask [OF ok b] thread_ok_prio [OF ok] sus by (simp add: thread_ok_def)
    show "bit (k_group ?s1) p \<longleftrightarrow> k_lists ?s1 (Ready p) \<noteq> []" for p
      using queue_inv_group [OF q, of p] ready by (simp add: lists1 remove1_idem)
  qed (use queue_inv_distinct [OF q] in \<open>auto simp: lists1 distinct_remove1\<close>)
  moreover have "run_ok ?s1"
    using sched_invD(2) [OF kinvD(1) [OF inv]] by (auto simp: run_ok_def)
  ultimately have sinv: "sched_inv ?s1" by (simp add: sched_inv_def)
  have tinv: "timers_inv ?s1" using kinvD(2) [OF inv] timers_inv_cong [of ?s1 s] by simp
  show "kinv ?s1"
    by (rule kinv_update [OF inv sinv tinv, of t])
      (use kinv_objs [OF inv b] stacks_okD [OF kinvD(5) [OF inv] b] sus in
        \<open>auto simp: stack_check_fields\<close>)
qed

end
