(* ===== verification/MutexInv.thy ===== *)
theory MutexInv
  imports Mutex Samples
begin

text \<open>
  Priority inheritance: the invariant of a set of mutexes in use without priority ceilings, its
  preservation by taking, releasing and giving up, and the behaviour of each of these.
\<close>

section \<open>The invariant\<close>

text \<open>
  Every waiter is recorded as pending, in priority order, and no more urgent than the mutex'
  priority; an owner is at least as urgent as that.  The priority of a mutex may be more urgent
  than its waiters while one that gave up has not run again.
\<close>

definition mutex_ok :: "kstate \<Rightarrow> nat \<Rightarrow> bool" where
  "mutex_ok s n \<longleftrightarrow>
     mx_obj (k_mutex s n) \<and> mx_ceiling_priority (k_mutex s n) = 255
     \<and> mx_hold (k_mutex s n) \<le> RT_MUTEX_HOLD_MAX
     \<and> sorted (map (th_prio s) (k_lists s (MutexQ n)))
     \<and> (\<forall>u \<in> set (k_lists s (MutexQ n)). th_pending_object (k_thread s u) = Some n
          \<and> mx_priority (k_mutex s n) \<le> th_prio s u)
     \<and> (case mx_owner (k_mutex s n) of
          None \<Rightarrow> mx_hold (k_mutex s n) = 0 \<and> mx_taken_by (k_mutex s n) = None
            \<and> k_lists s (MutexQ n) = []
        | Some t \<Rightarrow> 0 < mx_hold (k_mutex s n) \<and> mx_taken_by (k_mutex s n) = Some t
            \<and> th_prio s t \<le> mx_priority (k_mutex s n) \<and> th_obj (k_thread s t))"

text \<open>The lists of taken mutexes are exact.\<close>

definition taken_ok :: "nat set \<Rightarrow> kstate \<Rightarrow> tid \<Rightarrow> bool" where
  "taken_ok N s t \<longleftrightarrow>
     distinct (th_taken_object_list (k_thread s t))
     \<and> set (th_taken_object_list (k_thread s t)) = {n \<in> N. mx_taken_by (k_mutex s n) = Some t}
     \<and> (th_obj (k_thread s t) \<longrightarrow> th_init_priority (k_thread s t) < RT_THREAD_PRIORITY_MAX)"

definition mutexes_ok :: "nat set \<Rightarrow> kstate \<Rightarrow> bool" where
  "mutexes_ok N s \<longleftrightarrow> (\<forall>n \<in> N. mutex_ok s n) \<and> (\<forall>t. taken_ok N s t)"

text \<open>The owner is not itself waiting for a mutex, so its priority can be changed.\<close>

definition chain_free :: "kstate \<Rightarrow> tid \<Rightarrow> bool" where
  "chain_free s t \<longleftrightarrow> (th_base s t = RT_THREAD_SUSPEND \<longrightarrow> th_pending_object (k_thread s t) = None)"

lemma mutexes_okD:
  assumes "mutexes_ok N s"
  shows "n \<in> N \<Longrightarrow> mutex_ok s n" "taken_ok N s t"
  using assms by (simp_all add: mutexes_ok_def)

lemma mutex_okD:
  assumes "mutex_ok s n"
  shows "mx_obj (k_mutex s n)" "mx_ceiling_priority (k_mutex s n) = 255"
    "mx_hold (k_mutex s n) \<le> RT_MUTEX_HOLD_MAX" "sorted (map (th_prio s) (k_lists s (MutexQ n)))"
    "u \<in> set (k_lists s (MutexQ n)) \<Longrightarrow> th_pending_object (k_thread s u) = Some n"
    "u \<in> set (k_lists s (MutexQ n)) \<Longrightarrow> mx_priority (k_mutex s n) \<le> th_prio s u"
  using assms by (simp_all add: mutex_ok_def)

lemma mutex_ok_owner:
  assumes "mutex_ok s n" "mx_owner (k_mutex s n) = Some t"
  shows "0 < mx_hold (k_mutex s n)" "mx_taken_by (k_mutex s n) = Some t"
    "th_prio s t \<le> mx_priority (k_mutex s n)" "th_obj (k_thread s t)"
  using assms by (simp_all add: mutex_ok_def)

lemma mutex_ok_free:
  assumes "mutex_ok s n" "mx_owner (k_mutex s n) = None"
  shows "mx_hold (k_mutex s n) = 0" "mx_taken_by (k_mutex s n) = None" "k_lists s (MutexQ n) = []"
  using assms by (simp_all add: mutex_ok_def)

text \<open>What the invariant reads of a thread.\<close>

definition mview :: "rt_thread \<Rightarrow> nat \<times> nat \<times> bool \<times> nat list \<times> nat option" where
  "mview th = (th_current_priority th, th_init_priority th, th_obj th, th_taken_object_list th,
     th_pending_object th)"

lemma mview_core: "th_core a = th_core b \<Longrightarrow> mview a = mview b"
  using th_core_simps [of a b] by (simp add: mview_def)

lemma mutexes_ok_cong:
  assumes "\<And>n. n \<in> N \<Longrightarrow> k_mutex s' n = k_mutex s n"
    "\<And>n. n \<in> N \<Longrightarrow> k_lists s' (MutexQ n) = k_lists s (MutexQ n)"
    "\<And>t. mview (k_thread s' t) = mview (k_thread s t)"
  shows "mutexes_ok N s' = mutexes_ok N s"
proof -
  have th: "th_prio s' t = th_prio s t" "th_init_priority (k_thread s' t) = th_init_priority (k_thread s t)"
    "th_obj (k_thread s' t) = th_obj (k_thread s t)"
    "th_taken_object_list (k_thread s' t) = th_taken_object_list (k_thread s t)"
    "th_pending_object (k_thread s' t) = th_pending_object (k_thread s t)" for t
    using assms(3) [of t] by (simp_all add: mview_def)
  have prio: "th_prio s' = th_prio s" by (rule ext) (rule th(1))
  have "mutex_ok s' n = mutex_ok s n" if "n \<in> N" for n
    unfolding mutex_ok_def assms(1,2) [OF that] th prio ..
  moreover have "{n \<in> N. mx_taken_by (k_mutex s' n) = Some t} = {n \<in> N. mx_taken_by (k_mutex s n) = Some t}" for t
    using assms(1) by auto
  then have "taken_ok N s' t = taken_ok N s t" for t unfolding taken_ok_def th by (simp only:)
  ultimately show ?thesis by (simp add: mutexes_ok_def)
qed

lemma mutexes_ok_sched:
  assumes "sched_frame s s'"
  shows "mutexes_ok N s' = mutexes_ok N s"
proof (rule mutexes_ok_cong)
  show "k_mutex s' n = k_mutex s n" for n using sched_frameD(1) [OF assms] by (simp add: objs_frame_def)
  show "k_lists s' (MutexQ n) = k_lists s (MutexQ n)" for n by (intro sched_frameD(10) [OF assms]) simp
  show "mview (k_thread s' t) = mview (k_thread s t)" for t
    by (rule mview_core [OF sched_frameD(7) [OF assms]])
qed

lemma mutexes_ok_error:
  "mutexes_ok N (upd_thread t (\<lambda>th. th\<lparr>th_error := e\<rparr>) s) = mutexes_ok N s"
  by (rule mutexes_ok_cong) (simp_all add: mview_def)

text \<open>A running thread waits for nothing.\<close>

lemma running_not_queued:
  assumes "kinv s" "th_base s t = RT_THREAD_RUNNING"
  shows "t \<notin> set (k_lists s (MutexQ n))"
  using waiter(1) [OF assms(1), of t "MutexQ n"] assms(2) by auto

lemma chain_free_not_queued:
  assumes "kinv s" "mutexes_ok N s" "chain_free s t" "n \<in> N"
  shows "t \<notin> set (k_lists s (MutexQ n))"
  using waiter(1) [OF assms(1), of t "MutexQ n"] mutex_okD(5) [OF mutexes_okD(1) [OF assms(2,4)], of t] assms(3)
  by (auto simp: chain_free_def)

text \<open>The priority a thread's mutexes give it.\<close>

lemma mutex_priority_le:
  "thread_get_mutex_priority t s \<le> th_init_priority (k_thread s t)"
  "n \<in> set (th_taken_object_list (k_thread s t)) \<Longrightarrow> thread_get_mutex_priority t s \<le> mx_priority (k_mutex s n)"
proof -
  let ?f = "\<lambda>n priority. if mx_priority (k_mutex s n) < priority then mx_priority (k_mutex s n) else priority"
  have le: "fold ?f ns p \<le> p" for ns and p :: nat
  proof (induction ns arbitrary: p)
    case (Cons n ns)
    have "fold ?f ns (?f n p) \<le> ?f n p" by (rule Cons.IH)
    also have "\<dots> \<le> p" by simp
    finally show ?case by simp
  qed simp
  then show "thread_get_mutex_priority t s \<le> th_init_priority (k_thread s t)"
    by (simp add: thread_get_mutex_priority_def)
  have mem: "n \<in> set ns \<Longrightarrow> fold ?f ns p \<le> mx_priority (k_mutex s n)" for ns and p :: nat
  proof (induction ns arbitrary: p)
    case (Cons k ns)
    show ?case
    proof (cases "n = k")
      case True
      have "fold ?f ns (?f k p) \<le> ?f k p" by (rule le)
      also have "\<dots> \<le> mx_priority (k_mutex s k)" by simp
      finally show ?thesis using True by simp
    next
      case False
      then show ?thesis using Cons by simp
    qed
  qed simp
  show "thread_get_mutex_priority t s \<le> mx_priority (k_mutex s n)"
    if "n \<in> set (th_taken_object_list (k_thread s t))"
    using mem [OF that] by (simp add: thread_get_mutex_priority_def)
qed

lemma mutex_priority_Min:
  "thread_get_mutex_priority t s = Min (insert (th_init_priority (k_thread s t))
     ((\<lambda>n. mx_priority (k_mutex s n)) ` set (th_taken_object_list (k_thread s t))))"
proof -
  let ?f = "\<lambda>n priority. if mx_priority (k_mutex s n) < priority then mx_priority (k_mutex s n) else priority"
  have "fold ?f ns p = Min (insert p ((\<lambda>n. mx_priority (k_mutex s n)) ` set ns))" for ns p
  proof (induction ns arbitrary: p)
    case (Cons n ns)
    have "?f n p = min p (mx_priority (k_mutex s n))" by simp
    then show ?case using Cons.IH [of "?f n p"] by (cases "ns = []") (simp_all add: min.assoc min.commute)
  qed simp
  then show ?thesis by (simp add: thread_get_mutex_priority_def)
qed


section \<open>Changing an owner's priority\<close>

lemma change_priority_locks:
  "thread_change_priority t p s = Some s' \<Longrightarrow>
   k_lock_nest s' = k_lock_nest s \<and> k_irq_nest s' = k_irq_nest s \<and> k_tick s' = k_tick s"
  by (auto simp: thread_change_priority_def rt_schedule_insert_thread_def tlist_insert_first_def
      tlist_insert_last_def tlist_link_def Let_def bind_eq_Some_conv split: if_splits)

text \<open>A thread that waits for no mutex: the chain of updates ends with it.\<close>

lemma update_priority_ok:
  assumes inv: "kinv s" and obj: "th_obj (k_thread s t)" and p: "p < RT_THREAD_PRIORITY_MAX"
    and free: "chain_free s t"
  obtains s' where "thread_update_priority t p s = Some s'" "kinv s'" "th_prio s' = (th_prio s)(t := p)"
    "\<And>u. th_base s' u = th_base s u" "\<And>u. u \<noteq> t \<Longrightarrow> k_thread s' u = k_thread s u"
    "mview (k_thread s' t) = mview (k_thread s t\<lparr>th_current_priority := p\<rparr>)"
    "th_error (k_thread s' t) = th_error (k_thread s t)"
    "k_timer s' = k_timer s" "k_current s' = k_current s" "objs_frame s s'"
    "\<And>h. wait_queue h \<Longrightarrow> k_lists s' h = k_lists s h"
    "k_lock_nest s' = k_lock_nest s" "k_irq_nest s' = k_irq_nest s" "k_tick s' = k_tick s"
proof -
  obtain s' where s': "thread_change_priority t p s = Some s'" "kinv s'" "th_prio s' t = p"
    "th_base s' t = th_base s t" "\<And>u. u \<noteq> t \<Longrightarrow> k_thread s' u = k_thread s u"
    "k_timer s' = k_timer s" "k_timers s' = k_timers s" "k_current s' = k_current s"
    "objs_frame s s'" "\<And>h. wait_queue h \<Longrightarrow> k_lists s' h = k_lists s h"
    "th_core (k_thread s' t)
      = th_core (k_thread s t\<lparr>th_current_priority := p, th_number_mask := prio_mask p\<rparr>)"
    by (rule change_priority_ok [OF inv obj p]) blast
  note core = th_core_simps [OF s'(11)]
  have "thread_update_priority t p s = Some s'"
    using s'(1,4) core free by (simp add: thread_update_priority.simps [of t p s] chain_free_def split: option.splits)
  moreover have "mview (k_thread s' t) = mview (k_thread s t\<lparr>th_current_priority := p\<rparr>)"
    using core by (simp add: mview_def)
  moreover have "th_prio s' = (th_prio s)(t := p)" using s'(3,5) by (auto simp: fun_eq_iff)
  moreover have "th_base s' u = th_base s u" for u using s'(4,5) by (cases "u = t") simp_all
  ultimately show thesis
    using that s' core change_priority_locks [OF s'(1)] by simp
qed


lemma mviewD:
  "mview a = mview b \<Longrightarrow> th_current_priority a = th_current_priority b
     \<and> th_init_priority a = th_init_priority b \<and> th_obj a = th_obj b
     \<and> th_taken_object_list a = th_taken_object_list b \<and> th_pending_object a = th_pending_object b"
  by (simp add: mview_def)

lemma mutexes_ok_prio:
  assumes ok: "mutexes_ok N s"
    and m: "k_mutex s' = k_mutex s" and q: "\<And>n. k_lists s' (MutexQ n) = k_lists s (MutexQ n)"
    and v: "\<And>u. u \<noteq> t \<Longrightarrow> mview (k_thread s' u) = mview (k_thread s u)"
      "mview (k_thread s' t) = mview (k_thread s t\<lparr>th_current_priority := p\<rparr>)"
    and out: "\<And>n. n \<in> N \<Longrightarrow> t \<notin> set (k_lists s (MutexQ n))"
    and p: "\<And>n. n \<in> N \<Longrightarrow> mx_owner (k_mutex s n) = Some t \<Longrightarrow> p \<le> mx_priority (k_mutex s n)"
  shows "mutexes_ok N s'"
proof -
  have pr: "th_prio s' u = (if u = t then p else th_prio s u)" for u
    using mviewD [OF v(1), of u] mviewD [OF v(2)] by simp
  have rest: "th_init_priority (k_thread s' u) = th_init_priority (k_thread s u)"
    "th_obj (k_thread s' u) = th_obj (k_thread s u)"
    "th_taken_object_list (k_thread s' u) = th_taken_object_list (k_thread s u)"
    "th_pending_object (k_thread s' u) = th_pending_object (k_thread s u)" for u
    using mviewD [OF v(1), of u] mviewD [OF v(2)] by (cases "u = t"; simp)+
  have "mutex_ok s' n" if n: "n \<in> N" for n
  proof -
    note o = mutexes_okD(1) [OF ok n]
    have eq: "th_prio s' u = th_prio s u" if "u \<in> set (k_lists s (MutexQ n))" for u
      using that out [OF n] pr by auto
    then have "map (th_prio s') (k_lists s (MutexQ n)) = map (th_prio s) (k_lists s (MutexQ n))" by simp
    then have "sorted (map (th_prio s') (k_lists s (MutexQ n)))" using mutex_okD(4) [OF o] by (simp only:)
    then show ?thesis
      using o eq p [OF n] unfolding mutex_ok_def m q rest by (auto simp: pr split: option.splits)
  qed
  moreover have "taken_ok N s' u" for u
    using mutexes_okD(2) [OF ok, of u] unfolding taken_ok_def m rest .
  ultimately show ?thesis by (simp add: mutexes_ok_def)
qed


section \<open>Waiting\<close>

lemma mutexes_ok_wait:
  assumes ok: "mutexes_ok N s" and n: "n \<in> N" and own: "mx_owner (k_mutex s n) = Some owner" "owner \<noteq> t"
    and out: "\<And>k. t \<notin> set (k_lists s (MutexQ k))" "\<And>k. k \<in> N \<Longrightarrow> owner \<notin> set (k_lists s (MutexQ k))"
    and m: "k_mutex s' = (k_mutex s)(n := (k_mutex s n)\<lparr>mx_priority :=
              min (th_prio s t) (mx_priority (k_mutex s n))\<rparr>)"
    and q: "\<And>k. k_lists s' (MutexQ k)
       = (if k = n then prio_insert (th_prio s) t (k_lists s (MutexQ n)) else k_lists s (MutexQ k))"
    and v: "\<And>u. u \<noteq> t \<Longrightarrow> u \<noteq> owner \<Longrightarrow> mview (k_thread s' u) = mview (k_thread s u)"
      "mview (k_thread s' t) = mview (k_thread s t\<lparr>th_pending_object := Some n\<rparr>)"
      "mview (k_thread s' owner)
         = mview (k_thread s owner\<lparr>th_current_priority := min (th_prio s owner) (th_prio s t)\<rparr>)"
  shows "mutexes_ok N s'"
proof -
  have pr: "th_prio s' u = (if u = owner then min (th_prio s owner) (th_prio s t) else th_prio s u)" for u
    using mviewD [OF v(1), of u] mviewD [OF v(2)] mviewD [OF v(3)] own(2) by (cases "u = t"; cases "u = owner") auto
  have rest: "th_init_priority (k_thread s' u) = th_init_priority (k_thread s u)"
    "th_obj (k_thread s' u) = th_obj (k_thread s u)"
    "th_taken_object_list (k_thread s' u) = th_taken_object_list (k_thread s u)"
    "th_pending_object (k_thread s' u) = (if u = t then Some n else th_pending_object (k_thread s u))" for u
    using mviewD [OF v(1), of u] mviewD [OF v(2)] mviewD [OF v(3)] own(2)
    by (cases "u = t"; cases "u = owner"; auto)+
  have same: "sorted (map (th_prio s') (k_lists s (MutexQ k)))" if "k \<in> N" for k
  proof -
    have "map (th_prio s') (k_lists s (MutexQ k)) = map (th_prio s) (k_lists s (MutexQ k))"
      using out(2) [OF that] by (simp add: pr)
    then show ?thesis using mutex_okD(4) [OF mutexes_okD(1) [OF ok that]] by (simp only:)
  qed
  have "mutex_ok s' k" if k: "k \<in> N" for k
  proof (cases "k = n")
    case False
    then show ?thesis
      using mutexes_okD(1) [OF ok k] same [OF k] out(1) [of k] out(2) [OF k] unfolding mutex_ok_def rest
      by (auto simp: m q pr split: option.splits)
  next
    case True
    note o = mutexes_okD(1) [OF ok n]
    let ?q = "k_lists s (MutexQ n)"
    have "map (th_prio s') (prio_insert (th_prio s) t ?q) = map (th_prio s) (prio_insert (th_prio s) t ?q)"
      using out(2) [OF n] own(2) by (simp add: pr)
    then have sorted: "sorted (map (th_prio s') (prio_insert (th_prio s) t ?q))"
      using sorted_prio_insert [OF mutex_okD(4) [OF o], of t] by (simp only:)
    have le: "min (th_prio s t) (mx_priority (k_mutex s n)) \<le> th_prio s' u" if "u \<in> insert t (set ?q)" for u
      using that mutex_okD(6) [OF o, of u] out(2) [OF n] own(2) by (auto simp: pr min_le_iff_disj)
    show ?thesis
      unfolding True mutex_ok_def rest
      using o sorted le mutex_ok_owner [OF o own(1)] own(1) out(1) [of n]
      by (auto simp: mutex_ok_def m q pr min_le_iff_disj)
  qed
  moreover have "mx_taken_by (k_mutex s' k) = mx_taken_by (k_mutex s k)" for k by (simp add: m)
  then have "taken_ok N s' u" for u
    using mutexes_okD(2) [OF ok, of u] unfolding taken_ok_def rest by simp
  ultimately show ?thesis by (simp add: mutexes_ok_def)
qed


text \<open>Taking a mutex that another thread owns.\<close>

definition inherited :: "kstate \<Rightarrow> tid \<Rightarrow> tid \<Rightarrow> tid \<Rightarrow> nat" where
  "inherited s owner t = (th_prio s)(owner := min (th_prio s owner) (th_prio s t))"

lemma mutex_contended:
  assumes inv: "kinv s" and ok: "mutexes_ok N s" and n: "n \<in> N" and t: "may_block s t"
    and own: "mx_owner (k_mutex s n) = Some owner" "owner \<noteq> t" and free: "chain_free s owner"
    and tmo: "timeout_ok timeout" "timeout \<noteq> 0"
  obtains s' where "rt_mutex_take n timeout s = Some (Blocked, s')" "kinv s'" "mutexes_ok N s'"
    "th_base s' t = RT_THREAD_SUSPEND" "th_prio s' = inherited s owner t"
    "k_lists s' (MutexQ n) = prio_insert (th_prio s) t (k_lists s (MutexQ n))"
    "mx_owner (k_mutex s' n) = Some owner"
    "0 < timeout \<Longrightarrow> tm_row (k_timer s' (ThreadTimer t)) = Some Timer_list
       \<and> tm_timeout_tick (k_timer s' (ThreadTimer t)) = k_tick s + word_of_int timeout"
    "\<exists>u. th_base s u = RT_THREAD_READY \<Longrightarrow> runs_most_urgent s'"
proof -
  note o = mutexes_okD(1) [OF ok n] and b = may_blockD [OF t]
  note oo = mutex_ok_owner [OF o own(1)]
  have out: "t \<notin> set (k_lists s (MutexQ k))" for k by (rule running_not_queued [OF inv b(2)])
  have oout: "k \<in> N \<Longrightarrow> owner \<notin> set (k_lists s (MutexQ k))" for k
    by (rule chain_free_not_queued [OF inv ok free])
  let ?pr = "th_prio s" and ?m = "k_mutex s n"
  let ?s1 = "upd_thread t (\<lambda>th. th\<lparr>th_error := RT_EOK\<rparr>) s"
  have inv1: "kinv ?s1" by (rule kinv_set_error [OF inv])
  note b1 = may_blockD [OF may_block_error [OF t, of t RT_EOK]]
  have pr1: "th_prio ?s1 = ?pr" by (auto simp: fun_eq_iff)
  have w: "wait_queue (MutexQ n)" by simp
  obtain s2 where s2: "ipc_list_suspend (MutexQ n) t True ?s1 = Some s2" "kinv s2"
    "th_base s2 t = RT_THREAD_SUSPEND"
    "k_lists s2 = (k_lists ?s1)(MutexQ n := queue_insert True (th_prio ?s1) t (k_lists ?s1 (MutexQ n)))"
    "thread_frame {t} ?s1 s2"
    by (rule list_suspend_ok [OF inv1 b1(1,2) w]) blast
  note f2 = thread_frameD [OF s2(5)]
  have lists2: "k_lists s2 = (k_lists s)(MutexQ n := prio_insert ?pr t (k_lists s (MutexQ n)))"
    using s2(4) unfolding pr1 by (simp add: queue_insert_def)
  let ?s3 = "upd_thread t (\<lambda>th. th\<lparr>th_pending_object := Some n\<rparr>) s2"
  have inv3: "kinv ?s3" by (rule kinv_set_pending [OF s2(2)])
  have m3: "k_mutex ?s3 = k_mutex s" using f2(1) by (simp add: objs_frame_def)
  have th3: "u \<noteq> t \<Longrightarrow> k_thread ?s3 u = k_thread s u" for u using f2(6) [of u] by simp
  have prio3: "th_prio ?s3 u = ?pr u" for u using th_core_simps [OF f2(7), of u] by auto
  have view3: "mview (k_thread ?s3 t) = mview (k_thread s t\<lparr>th_pending_object := Some n\<rparr>)"
    using th_core_simps [OF f2(7), of t] by (simp add: mview_def)
  let ?boost = "if ?pr t < mx_priority ?m
     then (let s4 = upd_mutex n (\<lambda>m. m\<lparr>mx_priority := ?pr t\<rparr>) ?s3
           in if ?pr t < th_prio s4 owner then thread_update_priority owner (?pr t) s4 else Some s4)
     else Some ?s3"
  obtain s4 where s4: "?boost = Some s4" "kinv s4" "\<And>u. th_base s4 u = th_base ?s3 u"
    "\<And>u. u \<noteq> owner \<Longrightarrow> k_thread s4 u = k_thread ?s3 u"
    "mview (k_thread s4 owner) = mview (k_thread s owner\<lparr>th_current_priority := min (?pr owner) (?pr t)\<rparr>)"
    "k_current s4 = k_current ?s3" "k_lock_nest s4 = k_lock_nest ?s3" "k_tick s4 = k_tick ?s3"
    "k_mutex s4 = (k_mutex s)(n := ?m\<lparr>mx_priority := min (?pr t) (mx_priority ?m)\<rparr>)"
    "\<And>h. wait_queue h \<Longrightarrow> k_lists s4 h = k_lists ?s3 h"
  proof (cases "?pr t < mx_priority ?m \<and> ?pr t < ?pr owner")
    case True
    let ?s4 = "upd_mutex n (\<lambda>m. m\<lparr>mx_priority := ?pr t\<rparr>) ?s3"
    have inv4: "kinv ?s4" using inv3 by simp
    have obj4: "th_obj (k_thread ?s4 owner)" and free4: "chain_free ?s4 owner"
      using oo(4) free th3 [OF own(2)] by (simp_all add: chain_free_def)
    have p: "?pr t < RT_THREAD_PRIORITY_MAX"
      using queue_invD(1) [OF kinvD(6) [OF inv], of t] by (simp add: thread_ok_def)
    obtain s' where s': "thread_update_priority owner (?pr t) ?s4 = Some s'" "kinv s'"
      "\<And>u. th_base s' u = th_base ?s4 u" "\<And>u. u \<noteq> owner \<Longrightarrow> k_thread s' u = k_thread ?s4 u"
      "mview (k_thread s' owner) = mview (k_thread ?s4 owner\<lparr>th_current_priority := ?pr t\<rparr>)"
      "k_current s' = k_current ?s4" "objs_frame ?s4 s'"
      "\<And>h. wait_queue h \<Longrightarrow> k_lists s' h = k_lists ?s4 h"
      "k_lock_nest s' = k_lock_nest ?s4" "k_tick s' = k_tick ?s4"
      by (rule update_priority_ok [OF inv4 obj4 p free4]) blast
    show thesis
      by (rule that [of s'])
        (use s' True prio3 [of owner] th3 [OF own(2)] m3 in \<open>simp_all add: objs_frame_def Let_def min_absorb1 min_absorb2 less_imp_le\<close>)
  next
    case False
    have le: "?pr owner \<le> ?pr t" using False oo(3) by auto
    then have "k_thread s owner\<lparr>th_current_priority := min (?pr owner) (?pr t)\<rparr> = k_thread s owner"
      by (simp add: min_absorb1)
    then have v: "mview (k_thread ?s3 owner)
        = mview (k_thread s owner\<lparr>th_current_priority := min (?pr owner) (?pr t)\<rparr>)"
      using th3 [OF own(2)] by (simp only:)
    show thesis
    proof (cases "?pr t < mx_priority ?m")
      case True
      show thesis
        by (rule that [of "upd_mutex n (\<lambda>m. m\<lparr>mx_priority := ?pr t\<rparr>) ?s3"])
          (use True le inv3 v m3 prio3 [of owner] in \<open>simp_all add: Let_def min_absorb1\<close>)
    next
      case False
      then have "?m\<lparr>mx_priority := min (?pr t) (mx_priority ?m)\<rparr> = ?m" by (simp add: min_absorb2)
      then show thesis
        by (intro that [of ?s3]) (use False inv3 v m3 in simp_all)
    qed
  qed
  have own3: "th_base s4 t = RT_THREAD_SUSPEND" using s4(3) [of t] s2(3) by simp
  obtain s5 where s5: "ipc_start_timer t timeout s4 = Some s5" "kinv s5"
    "k_thread s5 = k_thread s4" "k_lists s5 = k_lists s4" "thread_frame {t} s4 s5"
    "0 < timeout \<Longrightarrow> tm_row (k_timer s5 (ThreadTimer t)) = Some Timer_list
       \<and> tm_timeout_tick (k_timer s5 (ThreadTimer t)) = k_tick s4 + word_of_int timeout"
    by (rule start_timer_ok [OF s4(2) own3 tmo(1)]) blast
  note f5 = thread_frameD [OF s5(5)]
  have cur5: "k_current s5 = Some t" and sus5: "th_base s5 t = RT_THREAD_SUSPEND"
    and lock5: "k_lock_nest s5 = 0" and tick5: "k_tick s4 = k_tick s"
    using f5(3,5) s4(6,7,8) f2(2,3,5) b1(1,3) s5(3) own3 by simp_all
  have lists5: "k_lists s5 (MutexQ k) = (if k = n then prio_insert ?pr t (k_lists s (MutexQ n))
      else k_lists s (MutexQ k))" for k
    using s4(10) [of "MutexQ k"] s5(4) lists2 by simp
  have ok5: "mutexes_ok N s5"
    by (rule mutexes_ok_wait [OF ok n own out oout _ lists5])
      (use f5(1) s4(4,5,9) s5(3) th3 view3 own(2) in \<open>simp_all add: objs_frame_def\<close>)
  obtain s6 where s6: "rt_schedule s5 = Some s6" "kinv s6" "sched_frame s5 s6"
    "k_thread s6 t = k_thread s5 t" "\<And>h. wait_queue h \<Longrightarrow> k_lists s6 h = k_lists s5 h"
    "k_lock_nest s5 = 0 \<Longrightarrow> \<exists>u. th_base s5 u = RT_THREAD_READY \<Longrightarrow> runs_most_urgent s6"
    by (rule schedule_away [OF s5(2) cur5 sus5]) blast
  note f6 = sched_frameD [OF s6(3)]
  have prio5: "th_prio s5 u = inherited s owner t u" for u
    using s4(4) [of u] mviewD [OF s4(5)] s5(3) prio3 [of u] by (simp add: inherited_def)
  have ready: "\<exists>u. th_base s5 u = RT_THREAD_READY" if "\<exists>u. th_base s u = RT_THREAD_READY"
  proof -
    from that obtain u where u: "th_base s u = RT_THREAD_READY" by blast
    then have "u \<noteq> t" using b(2) by auto
    then show ?thesis using u th3 [of u] s4(3) [of u] s5(3) by (intro exI [of _ u]) simp
  qed
  have take: "rt_mutex_take n timeout s = Some (Blocked, s6)"
    using b(5,7) mutex_okD(1) [OF o] own tmo(2) s2(1) s4(1) s5(1) s6(1)
    by (simp add: rt_mutex_take_def m3 [simplified] prio3 [simplified] Let_def)
  show thesis
  proof (rule that [OF take s6(2)])
    show "mutexes_ok N s6" using ok5 mutexes_ok_sched [OF s6(3)] by simp
    show "th_prio s6 = inherited s owner t"
      using th_core_simps [OF f6(7)] prio5 by (simp add: fun_eq_iff)
    show "runs_most_urgent s6" if "\<exists>u. th_base s u = RT_THREAD_READY"
      by (rule s6(6) [OF lock5 ready [OF that]])
    show "mx_owner (k_mutex s6 n) = Some owner"
      using f6(1) f5(1) s4(9) own(1) by (simp add: objs_frame_def)
  qed (use s6(4,5) lists5 [of n] sus5 s5(6) f6(3) tick5 in simp_all)
qed



section \<open>Releasing\<close>

text \<open>The mutex leaves its owner's list: the other mutexes stay in order.\<close>

lemma mutexes_ok_without:
  assumes ok: "mutexes_ok N s" and n: "n \<in> N" and taken: "mx_taken_by (k_mutex s n) = Some t"
    and f: "mx_taken_by (f (k_mutex s n)) = Some t"
  shows "mutexes_ok (N - {n}) (taken_remove n (upd_mutex n f s))"
proof -
  let ?s' = "taken_remove n (upd_mutex n f s)"
  have "\<And>u. th_prio ?s' u = th_prio s u \<and> th_init_priority (k_thread ?s' u) = th_init_priority (k_thread s u)
      \<and> th_obj (k_thread ?s' u) = th_obj (k_thread s u)
      \<and> th_pending_object (k_thread ?s' u) = th_pending_object (k_thread s u)"
    and tk: "\<And>u. th_taken_object_list (k_thread ?s' u)
      = (if u = t then remove1 n (th_taken_object_list (k_thread s t)) else th_taken_object_list (k_thread s u))"
    and m: "\<And>k. k \<noteq> n \<Longrightarrow> k_mutex ?s' k = k_mutex s k" and q: "k_lists ?s' = k_lists s"
    using f by (simp_all add: taken_remove_def)
  then have th: "th_prio ?s' u = th_prio s u" "th_init_priority (k_thread ?s' u) = th_init_priority (k_thread s u)"
    "th_obj (k_thread ?s' u) = th_obj (k_thread s u)"
    "th_pending_object (k_thread ?s' u) = th_pending_object (k_thread s u)" for u by simp_all
  have pr: "th_prio ?s' = th_prio s" by (rule ext) (rule th(1))
  have "mutex_ok ?s' k" if k: "k \<in> N - {n}" for k
  proof -
    have eq: "k_mutex ?s' k = k_mutex s k" using k by (intro m) simp
    show ?thesis using mutexes_okD(1) [OF ok, of k] k unfolding mutex_ok_def q th pr eq by simp
  qed
  moreover have "taken_ok (N - {n}) ?s' u" for u
  proof (cases "u = t")
    case True
    have "set (th_taken_object_list (k_thread ?s' t)) = {k \<in> N. mx_taken_by (k_mutex s k) = Some t} - {n}"
      using mutexes_okD(2) [OF ok, of t] tk [of t] by (auto simp: taken_ok_def)
    also have "\<dots> = {k \<in> N - {n}. mx_taken_by (k_mutex ?s' k) = Some t}" using m by auto
    finally show ?thesis
      using mutexes_okD(2) [OF ok, of t] tk [of t] True unfolding taken_ok_def th by auto
  next
    case False
    have "k \<in> {k \<in> N. mx_taken_by (k_mutex s k) = Some u}
        \<longleftrightarrow> k \<in> {k \<in> N - {n}. mx_taken_by (k_mutex ?s' k) = Some u}" for k
      using m [of k] taken False by (cases "k = n") auto
    then have "{k \<in> N. mx_taken_by (k_mutex s k) = Some u} = {k \<in> N - {n}. mx_taken_by (k_mutex ?s' k) = Some u}"
      by (rule set_eqI)
    then show ?thesis using mutexes_okD(2) [OF ok, of u] tk [of u] False unfolding taken_ok_def th by simp
  qed
  ultimately show ?thesis by (simp add: mutexes_ok_def)
qed

text \<open>The mutex joins the others again, free or with an owner.\<close>

lemma mutexes_ok_with:
  assumes ok: "mutexes_ok (N - {n}) s" and n: "n \<in> N"
    and m: "\<And>k. k \<noteq> n \<Longrightarrow> k_mutex s' k = k_mutex s k"
    and q: "\<And>k. k \<noteq> n \<Longrightarrow> k_lists s' (MutexQ k) = k_lists s (MutexQ k)"
    and v: "\<And>u. th_prio s' u = th_prio s u" "\<And>u. th_init_priority (k_thread s' u) = th_init_priority (k_thread s u)"
      "\<And>u. th_obj (k_thread s' u) = th_obj (k_thread s u)"
      "\<And>u. (\<forall>k. k \<noteq> n \<longrightarrow> u \<notin> set (k_lists s (MutexQ k))) \<or>
          th_pending_object (k_thread s' u) = th_pending_object (k_thread s u)"
      "\<And>u. th_taken_object_list (k_thread s' u) = (if mx_taken_by (k_mutex s' n) = Some u
          then n # th_taken_object_list (k_thread s u) else th_taken_object_list (k_thread s u))"
    and new: "mutex_ok s' n"
  shows "mutexes_ok N s'"
proof -
  have pr: "th_prio s' = th_prio s" by (rule ext) (rule v(1))
  have "mutex_ok s' k" if k: "k \<in> N" for k
  proof (cases "k = n")
    case False
    then have "mutex_ok s k" using mutexes_okD(1) [OF ok] k by simp
    moreover have "th_pending_object (k_thread s' u) = th_pending_object (k_thread s u)"
      if "u \<in> set (k_lists s (MutexQ k))" for u
      using v(4) [of u] that False by auto
    ultimately show ?thesis
      unfolding mutex_ok_def m [OF False] q [OF False] v(1,2,3) pr by simp
  qed (use new in simp)
  moreover have "taken_ok N s' u" for u
  proof -
    note t = mutexes_okD(2) [OF ok, of u]
    have "k \<in> {k \<in> N. mx_taken_by (k_mutex s' k) = Some u}
        \<longleftrightarrow> k \<in> {k \<in> N - {n}. mx_taken_by (k_mutex s k) = Some u}
          \<union> (if mx_taken_by (k_mutex s' n) = Some u then {n} else {})" for k
      using m [of k] n by (cases "k = n") auto
    then have "{k \<in> N. mx_taken_by (k_mutex s' k) = Some u} = {k \<in> N - {n}. mx_taken_by (k_mutex s k) = Some u}
        \<union> (if mx_taken_by (k_mutex s' n) = Some u then {n} else {})"
      by (rule set_eqI)
    then show ?thesis using t unfolding taken_ok_def v(2,3,5) by auto
  qed
  ultimately show ?thesis by (simp add: mutexes_ok_def)
qed


text \<open>The hand-over: the mutex goes to its first waiter, or becomes free.\<close>

lemma waiters_priority_le:
  assumes "sorted (map (th_prio s) (k_lists s (MutexQ n)))" "u \<in> set (k_lists s (MutexQ n))"
  shows "waiters_priority n s \<le> th_prio s u"
  using assms by (cases "k_lists s (MutexQ n)") (auto simp: waiters_priority_def)

lemma handover_ok:
  assumes inv: "kinv s" and ok: "mutexes_ok (N - {n}) s" and n: "n \<in> N"
    and m: "mx_obj (k_mutex s n)" "mx_ceiling_priority (k_mutex s n) = 255"
      "mx_taken_by (k_mutex s n) = None" "mx_hold (k_mutex s n) = 0"
    and q: "sorted (map (th_prio s) (k_lists s (MutexQ n)))"
      "\<And>u. u \<in> set (k_lists s (MutexQ n)) \<Longrightarrow> th_pending_object (k_thread s u) = Some n"
  obtains s' where "release_handover n s = Some (k_lists s (MutexQ n) \<noteq> [], s')" "kinv s'" "mutexes_ok N s'"
    "mx_owner (k_mutex s' n) = (case k_lists s (MutexQ n) of [] \<Rightarrow> None | u # _ \<Rightarrow> Some u)"
    "k_lists s' (MutexQ n) = tl (k_lists s (MutexQ n))" "th_prio s' = th_prio s"
    "k_current s' = k_current s" "k_lock_nest s' = k_lock_nest s"
    "\<And>u us. k_lists s (MutexQ n) = u # us \<Longrightarrow> th_error (k_thread s' u) = th_error (k_thread s u)
       \<and> th_base s' u = (if k_current s = Some u then RT_THREAD_RUNNING else RT_THREAD_READY)"
    "\<And>v. v \<notin> set (take 1 (k_lists s (MutexQ n))) \<Longrightarrow> k_thread s' v = k_thread s v"
    "\<And>k. k \<noteq> n \<Longrightarrow> k_mutex s' k = k_mutex s k"
    "k_lists s (MutexQ n) \<noteq> [] \<Longrightarrow> mx_hold (k_mutex s' n) = 1"
proof (cases "k_lists s (MutexQ n)")
  case Nil
  let ?s' = "upd_mutex n (\<lambda>m. m\<lparr>mx_owner := None, mx_priority := 255\<rparr>) s"
  have "mutex_ok ?s' n" using m Nil by (simp add: mutex_ok_def)
  then have "mutexes_ok N ?s'" by (rule mutexes_ok_with [OF ok n, rotated -1]) (use m in simp_all)
  then show thesis by (intro that [of ?s']) (use inv Nil in \<open>simp_all add: release_handover_def\<close>)
next
  case (Cons u us)
  have w: "wait_queue (MutexQ k)" for k by simp
  have mem: "u \<in> set (k_lists s (MutexQ n))" using Cons by simp
  have sus: "th_base s u = RT_THREAD_SUSPEND" by (rule waiter(1) [OF inv mem w])
  have obj: "th_obj (k_thread s u)" using kinv_objs [OF inv, of u] sus by simp
  have dist: "u \<notin> set us"
    using queue_inv_distinct [OF kinvD(6) [OF inv], of "MutexQ n"] unfolding Cons by simp
  have other: "u \<notin> set (k_lists s (MutexQ k))" if "k \<noteq> n" for k
    using waiter_one_queue [OF inv mem, of "MutexQ k"] that by simp
  let ?s1 = "tlist_remove u s"
  note un = unlink_ok [OF inv sus]
  let ?s3 = "upd_mutex n (\<lambda>m. m\<lparr>mx_taken_by := Some u\<rparr>)
     (upd_thread u (\<lambda>th. th\<lparr>th_taken_object_list := n # th_taken_object_list th\<rparr>)
       (upd_mutex n (\<lambda>m. m\<lparr>mx_owner := Some u, mx_hold := 1\<rparr>) ?s1))"
  let ?s4 = "upd_thread u (\<lambda>th. th\<lparr>th_pending_object := None\<rparr>) ?s3"
  have inv4: "kinv ?s4" using un(1) kinv_set_taken [of _ u] by (intro kinv_set_pending) simp
  have sus4: "th_base ?s4 u = RT_THREAD_SUSPEND" using sus by simp
  obtain s5 where s5: "rt_thread_resume u ?s4 = Some (RT_EOK, s5)" "kinv s5"
    "th_base s5 u = (if k_current ?s4 = Some u then RT_THREAD_RUNNING else RT_THREAD_READY)"
    "\<And>h. wait_queue h \<Longrightarrow> k_lists s5 h = remove1 u (k_lists ?s4 h)" "thread_frame {u} ?s4 s5"
    by (rule resume_ok [OF inv4 sus4]) blast
  note f = thread_frameD [OF s5(5)]
  let ?s' = "mutex_update_priority n s5"
  have thr: "v \<noteq> u \<Longrightarrow> k_thread ?s' v = k_thread s v" for v using f(6) [of v] by (simp add: mutex_update_priority_def)
  have core: "th_core (k_thread ?s' u) = th_core (k_thread s u\<lparr>th_pending_object := None,
      th_taken_object_list := n # th_taken_object_list (k_thread s u)\<rparr>)"
    using f(7) [of u] by (simp add: mutex_update_priority_def th_core_def)
  note cu = th_core_simps [OF core]
  have lists: "k_lists ?s' (MutexQ k) = (if k = n then us else k_lists s (MutexQ k))" for k
    using s5(4) [OF w, of k] un(2) other [of k] Cons dist by (simp add: mutex_update_priority_def remove1_idem)
  have mtx: "k_mutex ?s' k = (if k = n then (k_mutex s n)\<lparr>mx_owner := Some u, mx_hold := 1,
      mx_taken_by := Some u, mx_priority := waiters_priority n s5\<rparr> else k_mutex s k)" for k
    using f(1) by (simp add: mutex_update_priority_def objs_frame_def)
  have "th_prio ?s' v = th_prio s v" for v using thr [of v] cu by (cases "v = u") simp_all
  then have prio: "th_prio ?s' = th_prio s" by (rule ext)
  have sorted: "sorted (map (th_prio s) us)" and first: "\<And>v. v \<in> set us \<Longrightarrow> th_prio s u \<le> th_prio s v"
    using q(1) Cons by auto
  have p32: "th_prio s u < RT_THREAD_PRIORITY_MAX"
    using queue_invD(1) [OF kinvD(6) [OF inv], of u] by (simp add: thread_ok_def)
  have wp: "waiters_priority n s5 = waiters_priority n ?s'"
    by (cases "k_lists s5 (MutexQ n)") (simp_all add: waiters_priority_def mutex_update_priority_def)
  have le: "waiters_priority n s5 \<le> th_prio s v" if "v \<in> set us" for v
  proof -
    have q': "k_lists ?s' (MutexQ n) = us" using lists [of n] by simp
    have "sorted (map (th_prio ?s') (k_lists ?s' (MutexQ n)))" using sorted unfolding prio q' .
    then have "waiters_priority n ?s' \<le> th_prio ?s' v" using that q' by (intro waiters_priority_le) simp_all
    moreover have "th_prio ?s' v = th_prio s v" using prio by (rule fun_cong)
    ultimately show ?thesis using wp by (simp only:)
  qed
  have ge: "th_prio s u \<le> waiters_priority n s5"
  proof (cases us)
    case Nil
    then show ?thesis using lists [of n] p32 unfolding wp by (simp add: waiters_priority_def)
  next
    case (Cons v vs)
    have "th_prio ?s' v = th_prio s v" using prio by (rule fun_cong)
    then show ?thesis using lists [of n] first [of v] Cons unfolding wp by (simp add: waiters_priority_def)
  qed
  have pr: "th_prio ?s' v = th_prio s v" for v using prio by (rule fun_cong)
  have pend: "th_pending_object (k_thread ?s' v) = Some n" if "v \<in> set us" for v
  proof -
    have "v \<noteq> u" using that dist by auto
    then show ?thesis using thr [of v] q(2) [of v] that Cons by simp
  qed
  have q': "k_lists ?s' (MutexQ n) = us" using lists [of n] by simp
  have new: "mutex_ok ?s' n"
    unfolding mutex_ok_def q' pr
    using m(1,2) sorted pend le ge mtx [of n] cu obj by simp
  have ok': "mutexes_ok N ?s'"
  proof (rule mutexes_ok_with [OF ok n _ _ _ _ _ _ _ new])
    show "th_prio ?s' v = th_prio s v" for v using prio by (rule fun_cong)
    show "(\<forall>k. k \<noteq> n \<longrightarrow> v \<notin> set (k_lists s (MutexQ k)))
        \<or> th_pending_object (k_thread ?s' v) = th_pending_object (k_thread s v)" for v
      using other thr [of v] by (cases "v = u") auto
    show "th_taken_object_list (k_thread ?s' v) = (if mx_taken_by (k_mutex ?s' n) = Some v
        then n # th_taken_object_list (k_thread s v) else th_taken_object_list (k_thread s v))" for v
      using thr [of v] cu mtx [of n] by (cases "v = u") auto
    show "th_init_priority (k_thread ?s' v) = th_init_priority (k_thread s v)"
      "th_obj (k_thread ?s' v) = th_obj (k_thread s v)" for v
      using thr [of v] cu by (cases "v = u"; simp)+
  qed (simp_all add: lists mtx)
  have "release_handover n s = Some (True, ?s')"
    using Cons m(3) s5(1) by (simp add: release_handover_def taken_insert_def)
  moreover have "th_base ?s' u = (if k_current s = Some u then RT_THREAD_RUNNING else RT_THREAD_READY)"
    "k_current ?s' = k_current s" "k_lock_nest ?s' = k_lock_nest s" "kinv ?s'"
    using s5(2,3) f(3,5) by (simp_all add: mutex_update_priority_def)
  ultimately show thesis
    by (intro that [of ?s']) (use Cons ok' q' mtx prio thr cu in simp_all)
qed


text \<open>The last release: the owner's priority, then the hand-over, then the scheduler.\<close>

lemma release_last:
  assumes inv: "kinv s" and ok: "mutexes_ok N s" and n: "n \<in> N" and t: "may_block s t"
    and own: "mx_owner (k_mutex s n) = Some t" and hold: "mx_hold (k_mutex s n) = 1"
  obtains s' where "rt_mutex_release n s = Some (RT_EOK, s')" "kinv s'" "mutexes_ok N s'"
    "mx_owner (k_mutex s' n) = (case k_lists s (MutexQ n) of [] \<Rightarrow> None | u # _ \<Rightarrow> Some u)"
    "k_lists s' (MutexQ n) = tl (k_lists s (MutexQ n))"
    "th_prio s' = (th_prio s)(t := if th_prio s t = mx_priority (k_mutex s n)
       then thread_get_mutex_priority t (taken_remove n s) else th_prio s t)"
    "\<And>u us. k_lists s (MutexQ n) = u # us \<Longrightarrow> th_error (k_thread s' u) = th_error (k_thread s u)
       \<and> th_base s' u \<in> {RT_THREAD_READY, RT_THREAD_RUNNING}"
    "k_lists s (MutexQ n) \<noteq> [] \<Longrightarrow> mx_hold (k_mutex s' n) = 1 \<and> runs_most_urgent s'"
proof -
  note b = may_blockD [OF t] and o = mutexes_okD(1) [OF ok n]
  note oo = mutex_ok_owner [OF o own]
  let ?f = "\<lambda>m. m\<lparr>mx_hold := (mx_hold m + 255) mod 256\<rparr>"
  let ?s1 = "taken_remove n (upd_mutex n ?f s)"
  have ok1: "mutexes_ok (N - {n}) ?s1" by (rule mutexes_ok_without [OF ok n oo(2)]) (simp add: oo(2))
  have s1: "?s1 = upd_mutex n (\<lambda>m. m\<lparr>mx_taken_by := None\<rparr>)
      (upd_thread t (\<lambda>th. th\<lparr>th_taken_object_list := remove1 n (th_taken_object_list th)\<rparr>) (upd_mutex n ?f s))"
    using oo(2) by (simp add: taken_remove_def)
  have inv1: "kinv ?s1" unfolding s1 kinv_upd_mutex by (rule kinv_set_taken) (simp add: inv)
  have s1_simps: "k_lists ?s1 = k_lists s" "k_current ?s1 = Some t" "k_lock_nest ?s1 = 0"
    "k_thread ?s1 = (k_thread s)(t := k_thread s t\<lparr>th_taken_object_list :=
        remove1 n (th_taken_object_list (k_thread s t))\<rparr>)"
    "\<And>k. k \<noteq> n \<Longrightarrow> k_mutex ?s1 k = k_mutex s k"
    "k_mutex ?s1 n = (k_mutex s n)\<lparr>mx_hold := 0, mx_taken_by := None\<rparr>"
    unfolding s1 using hold b(1,3) by (simp_all add: fun_eq_iff)
  have gp: "thread_get_mutex_priority t ?s1 = thread_get_mutex_priority t (taken_remove n s)"
  proof -
    have n1: "n \<notin> set (remove1 n (th_taken_object_list (k_thread s t)))"
      using mutexes_okD(2) [OF ok, of t] by (simp add: taken_ok_def)
    then show ?thesis
      using oo(2) unfolding thread_get_mutex_priority_def s1_simps(4)
      by (auto simp: taken_remove_def intro!: fold_cong)
  qed
  let ?p = "thread_get_mutex_priority t ?s1"
  have obj: "th_obj (k_thread ?s1 t)" using oo(4) s1_simps(4) by simp
  have p32: "?p < RT_THREAD_PRIORITY_MAX"
    using mutex_priority_le(1) [of t ?s1] mutexes_okD(2) [OF ok1, of t] obj by (auto simp: taken_ok_def)
  let ?c = "th_prio s t = mx_priority (k_mutex s n)"
  obtain s2 where s2: "release_priority n t ?s1 = Some (?c, s2)" "kinv s2" "mutexes_ok (N - {n}) s2"
    "th_prio s2 = (th_prio s)(t := if ?c then ?p else th_prio s t)"
    "\<And>u. u \<noteq> t \<Longrightarrow> k_thread s2 u = k_thread ?s1 u" "k_mutex s2 = k_mutex ?s1"
    "\<And>h. wait_queue h \<Longrightarrow> k_lists s2 h = k_lists ?s1 h" "k_current s2 = k_current ?s1"
    "k_lock_nest s2 = k_lock_nest ?s1" "th_base s2 t = RT_THREAD_RUNNING"
  proof (cases ?c)
    case True
    obtain s2 where s2: "thread_change_priority t ?p ?s1 = Some s2" "kinv s2" "th_prio s2 t = ?p"
      "th_base s2 t = th_base ?s1 t" "\<And>u. u \<noteq> t \<Longrightarrow> k_thread s2 u = k_thread ?s1 u"
      "k_current s2 = k_current ?s1" "objs_frame ?s1 s2" "\<And>h. wait_queue h \<Longrightarrow> k_lists s2 h = k_lists ?s1 h"
      "th_core (k_thread s2 t)
        = th_core (k_thread ?s1 t\<lparr>th_current_priority := ?p, th_number_mask := prio_mask ?p\<rparr>)"
      by (rule change_priority_ok [OF inv1 obj p32]) blast
    have "th_prio s2 u = ((th_prio s)(t := if ?c then ?p else th_prio s t)) u" for u
      using s2(3,5) s1_simps(4) True by (cases "u = t") simp_all
    then have pr: "th_prio s2 = (th_prio s)(t := if ?c then ?p else th_prio s t)" by (rule ext)
    have "mutexes_ok (N - {n}) s2"
    proof (rule mutexes_ok_prio [OF ok1, where t = t and p = ?p])
      show "mview (k_thread s2 t) = mview (k_thread ?s1 t\<lparr>th_current_priority := ?p\<rparr>)"
        using th_core_simps [OF s2(9)] by (simp add: mview_def)
      show "t \<notin> set (k_lists ?s1 (MutexQ k))" for k
        using running_not_queued [OF inv b(2), of k] s1_simps(1) by simp
      show "?p \<le> mx_priority (k_mutex ?s1 k)" if "k \<in> N - {n}" "mx_owner (k_mutex ?s1 k) = Some t" for k
      proof (rule mutex_priority_le(2))
        have "mx_taken_by (k_mutex ?s1 k) = Some t"
          by (rule mutex_ok_owner(2) [OF mutexes_okD(1) [OF ok1 that(1)] that(2)])
        then show "k \<in> set (th_taken_object_list (k_thread ?s1 t))"
          using mutexes_okD(2) [OF ok1, of t] that(1) by (auto simp: taken_ok_def)
      qed
    qed (use s2 in \<open>simp_all add: objs_frame_def\<close>)
    then show thesis
      using that [of s2] s2 pr True s1_simps change_priority_locks [OF s2(1)] o b(2)
      by (simp add: release_priority_def objs_frame_def mutex_ok_def)
  next
    case False
    have "th_prio ?s1 = (th_prio s)(t := if ?c then ?p else th_prio s t)"
      using s1_simps(4) False by (auto simp: fun_eq_iff)
    then show thesis
      using that [of ?s1] False inv1 ok1 s1_simps o b(2) by (simp add: release_priority_def mutex_ok_def)
  qed
  have tq: "t \<notin> set (k_lists s (MutexQ n))" by (rule running_not_queued [OF inv b(2)])
  have q2: "k_lists s2 (MutexQ n) = k_lists s (MutexQ n)" using s2(7) [of "MutexQ n"] s1_simps(1) by simp
  have "map (th_prio s2) (k_lists s (MutexQ n)) = map (th_prio s) (k_lists s (MutexQ n))"
    using tq unfolding s2(4) by auto
  then have sorted2: "sorted (map (th_prio s2) (k_lists s2 (MutexQ n)))"
    using mutex_okD(4) [OF o] unfolding q2 by (simp only:)
  have pend2: "th_pending_object (k_thread s2 u) = Some n" if "u \<in> set (k_lists s2 (MutexQ n))" for u
  proof -
    have "u \<noteq> t" using that tq q2 by auto
    then show ?thesis using s2(5) [of u] s1_simps(4) mutex_okD(5) [OF o, of u] that q2 by simp
  qed
  have m2: "mx_obj (k_mutex s2 n)" "mx_ceiling_priority (k_mutex s2 n) = 255" "mx_taken_by (k_mutex s2 n) = None"
    "mx_hold (k_mutex s2 n) = 0" using s2(6) s1_simps(6) mutex_okD(1,2) [OF o] by simp_all
  obtain s3 where s3: "release_handover n s2 = Some (k_lists s2 (MutexQ n) \<noteq> [], s3)" "kinv s3" "mutexes_ok N s3"
    "mx_owner (k_mutex s3 n) = (case k_lists s2 (MutexQ n) of [] \<Rightarrow> None | u # _ \<Rightarrow> Some u)"
    "k_lists s3 (MutexQ n) = tl (k_lists s2 (MutexQ n))" "th_prio s3 = th_prio s2"
    "k_current s3 = k_current s2" "k_lock_nest s3 = k_lock_nest s2"
    "\<And>u us. k_lists s2 (MutexQ n) = u # us \<Longrightarrow> th_error (k_thread s3 u) = th_error (k_thread s2 u)
       \<and> th_base s3 u = (if k_current s2 = Some u then RT_THREAD_RUNNING else RT_THREAD_READY)"
    "\<And>v. v \<notin> set (take 1 (k_lists s2 (MutexQ n))) \<Longrightarrow> k_thread s3 v = k_thread s2 v"
    "k_lists s2 (MutexQ n) \<noteq> [] \<Longrightarrow> mx_hold (k_mutex s3 n) = 1"
    by (rule handover_ok [OF s2(2,3) n m2 sorted2 pend2]) (assumption | rule that)+
  have cur3: "k_current s3 = Some t" and lock3: "k_lock_nest s3 = 0"
    using s3(7,8) s2(8,9) s1_simps(2,3) by simp_all
  have "t \<notin> set (take 1 (k_lists s2 (MutexQ n)))" using tq q2 in_set_takeD by metis
  then have run3: "th_base s3 t = RT_THREAD_RUNNING" using s3(10) s2(10) by simp
  obtain s4 where s4: "rt_schedule s3 = Some s4" "kinv s4" "sched_frame s3 s4"
    "k_lock_nest s3 = 0 \<Longrightarrow> th_base s3 t = RT_THREAD_RUNNING \<or> (\<exists>t. th_base s3 t = RT_THREAD_READY)
       \<Longrightarrow> runs_most_urgent s4"
    by (rule schedule_kinv [OF s3(2) cur3]) blast
  note f4 = sched_frameD [OF s4(3)]
  let ?need = "?c \<or> k_lists s (MutexQ n) \<noteq> []"
  let ?s' = "if ?need then s4 else s3"
  have h0: "(mx_hold (k_mutex s n) + 255) mod 256 = 0" using hold by simp
  have rel: "rt_mutex_release n s = Some (RT_EOK, ?s')"
    using mutex_okD(1) [OF o] b(6,7) own h0 s2(1) s3(1) s4(1) q2
    by (simp add: rt_mutex_release_def)
  have err2: "th_error (k_thread s2 u) = th_error (k_thread s u)" if "u \<in> set (k_lists s (MutexQ n))" for u
  proof -
    have "u \<noteq> t" using that tq by auto
    then show ?thesis using s2(5) [of u] s1_simps(4) by simp
  qed
  have prio': "th_prio ?s' = th_prio s3"
  proof (rule ext)
    show "th_prio ?s' u = th_prio s3 u" for u using th_core_simps [OF f4(7), of u] by simp
  qed
  show thesis
  proof (rule that [OF rel])
    show "kinv ?s'" using s3(2) s4(2) by simp
    show "mutexes_ok N ?s'" using s3(3) mutexes_ok_sched [OF s4(3)] by simp
    show "mx_owner (k_mutex ?s' n) = (case k_lists s (MutexQ n) of [] \<Rightarrow> None | u # _ \<Rightarrow> Some u)"
      using s3(4) f4(1) q2 by (simp add: objs_frame_def)
    show "k_lists ?s' (MutexQ n) = tl (k_lists s (MutexQ n))"
      using s3(5) f4(10) [of "MutexQ n"] q2 by simp
    show "th_prio ?s' = (th_prio s)(t := if ?c then thread_get_mutex_priority t (taken_remove n s)
        else th_prio s t)"
      unfolding prio' s3(6) s2(4) gp ..
    show "th_error (k_thread ?s' u) = th_error (k_thread s u)
        \<and> th_base ?s' u \<in> {RT_THREAD_READY, RT_THREAD_RUNNING}" if q: "k_lists s (MutexQ n) = u # us" for u us
    proof -
      have "k_lists s2 (MutexQ n) = u # us" using q q2 by simp
      from s3(9) [OF this] err2 [of u] q
      have "th_error (k_thread s3 u) = th_error (k_thread s u)"
        "th_base s3 u \<in> {RT_THREAD_READY, RT_THREAD_RUNNING}" by simp_all
      then show ?thesis using f4(9) [of u] th_core_simps [OF f4(7), of u] q by auto
    qed
    show "mx_hold (k_mutex ?s' n) = 1 \<and> runs_most_urgent ?s'" if "k_lists s (MutexQ n) \<noteq> []"
      using s4(4) [OF lock3] run3 that s3(11) q2 f4(1) by (simp add: objs_frame_def)
  qed
qed

end
