(* ===== verification/MutexProps.thy ===== *)
theory MutexProps
  imports MutexInv
begin

text \<open>
  Histories of a set of mutexes, and the properties: bounded priority inversion, taking,
  handing over, and two ways in which the code fails.
\<close>

section \<open>Single steps\<close>

lemma mutexes_ok_minus:
  assumes ok: "mutexes_ok N s" and free: "mx_taken_by (k_mutex s n) = None"
  shows "mutexes_ok (N - {n}) s"
proof -
  have "{k \<in> N - {n}. mx_taken_by (k_mutex s k) = Some t} = {k \<in> N. mx_taken_by (k_mutex s k) = Some t}" for t
    using free by auto
  then show ?thesis using ok unfolding mutexes_ok_def taken_ok_def by simp
qed

text \<open>Taking a free mutex, and taking an owned one again.\<close>

lemma mutex_take_free:
  assumes inv: "kinv s" and ok: "mutexes_ok N s" and n: "n \<in> N" and t: "may_block s t"
    and own: "mx_owner (k_mutex s n) = None"
  obtains s' where "rt_mutex_take n timeout s = Some (Returned RT_EOK, s')" "kinv s'" "mutexes_ok N s'"
    "mx_owner (k_mutex s' n) = Some t" "mx_hold (k_mutex s' n) = 1" "k_lists s' = k_lists s"
    "th_prio s' = th_prio s"
proof -
  note b = may_blockD [OF t] and o = mutexes_okD(1) [OF ok n]
  note oo = mutex_ok_free [OF o own]
  let ?s1 = "upd_thread t (\<lambda>th. th\<lparr>th_error := RT_EOK\<rparr>) s"
  let ?s3 = "upd_mutex n (\<lambda>m. m\<lparr>mx_taken_by := Some t\<rparr>)
     (upd_thread t (\<lambda>th. th\<lparr>th_taken_object_list := n # th_taken_object_list th\<rparr>)
       (upd_mutex n (\<lambda>m. m\<lparr>mx_owner := Some t, mx_priority := 255, mx_hold := 1\<rparr>) ?s1))"
  have take: "rt_mutex_take n timeout s = Some (Returned RT_EOK, ?s3)"
    using b(5,7) mutex_okD(1,2) [OF o] own oo(2) by (simp add: rt_mutex_take_def taken_insert_def Let_def)
  have inv3: "kinv ?s3" using kinv_set_taken [of _ t] kinv_set_error [OF inv] by simp
  have obj: "th_obj (k_thread s t)" using kinv_objs [OF inv, of t] b(2) by simp
  have "th_prio s t < RT_THREAD_PRIORITY_MAX"
    using queue_invD(1) [OF kinvD(6) [OF inv], of t] by (simp add: thread_ok_def)
  then have new: "mutex_ok ?s3 n"
    using mutex_okD(1,2) [OF o] oo(3) obj by (simp add: mutex_ok_def)
  have "mutexes_ok N ?s3"
    by (rule mutexes_ok_with [OF mutexes_ok_minus [OF ok oo(2)] n _ _ _ _ _ _ _ new]) simp_all
  moreover have "th_prio ?s3 = th_prio s" by (auto simp: fun_eq_iff)
  ultimately show thesis by (intro that [OF take inv3]) simp_all
qed

lemma mutexes_ok_hold:
  assumes ok: "mutexes_ok N s" and n: "n \<in> N" and own: "mx_owner (k_mutex s n) \<noteq> None"
    and h: "0 < h" "h \<le> RT_MUTEX_HOLD_MAX" and f: "f (k_mutex s n) = (k_mutex s n)\<lparr>mx_hold := h\<rparr>"
  shows "mutexes_ok N (upd_mutex n f s)"
proof -
  let ?s' = "upd_mutex n f s"
  have "mutex_ok ?s' k" if "k \<in> N" for k
    using mutexes_okD(1) [OF ok that] own h by (auto simp: mutex_ok_def f split: option.splits)
  moreover have "mx_taken_by (k_mutex ?s' k) = mx_taken_by (k_mutex s k)" for k by (simp add: f)
  then have "taken_ok N ?s' t" for t using mutexes_okD(2) [OF ok, of t] by (simp add: taken_ok_def)
  ultimately show ?thesis by (simp add: mutexes_ok_def)
qed

lemma mutex_take_owned:
  assumes inv: "kinv s" and ok: "mutexes_ok N s" and n: "n \<in> N" and t: "may_block s t"
    and own: "mx_owner (k_mutex s n) = Some t"
  obtains s' where "rt_mutex_take n timeout s
      = Some (Returned (if mx_hold (k_mutex s n) < RT_MUTEX_HOLD_MAX then RT_EOK else - RT_EFULL), s')"
    "kinv s'" "mutexes_ok N s'" "mx_owner (k_mutex s' n) = Some t"
    "mx_hold (k_mutex s' n) = min RT_MUTEX_HOLD_MAX (mx_hold (k_mutex s n) + 1)"
    "k_lists s' = k_lists s" "th_prio s' = th_prio s"
proof -
  note b = may_blockD [OF t] and o = mutexes_okD(1) [OF ok n]
  let ?s1 = "upd_thread t (\<lambda>th. th\<lparr>th_error := RT_EOK\<rparr>) s"
  let ?s2 = "upd_mutex n (\<lambda>m. m\<lparr>mx_hold := mx_hold m + 1\<rparr>) ?s1"
  have inv1: "kinv ?s1" by (rule kinv_set_error [OF inv])
  have ok1: "mutexes_ok N ?s1" using ok by (simp add: mutexes_ok_error)
  have pr: "th_prio ?s1 = th_prio s" by (auto simp: fun_eq_iff)
  show thesis
  proof (cases "mx_hold (k_mutex s n) < RT_MUTEX_HOLD_MAX")
    case True
    have "mutexes_ok N ?s2"
      by (rule mutexes_ok_hold [OF ok1 n, where h = "mx_hold (k_mutex s n) + 1"]) (use own True in simp_all)
    moreover have "rt_mutex_take n timeout s = Some (Returned RT_EOK, ?s2)"
      using b(5,7) mutex_okD(1) [OF o] own True by (simp add: rt_mutex_take_def Let_def)
    ultimately show thesis using that [of ?s2] True inv1 own pr by simp
  next
    case False
    then have "mx_hold (k_mutex s n) = RT_MUTEX_HOLD_MAX" using mutex_okD(3) [OF o] by simp
    moreover have "rt_mutex_take n timeout s = Some (Returned (- RT_EFULL), ?s1)"
      using b(5,7) mutex_okD(1) [OF o] own False by (simp add: rt_mutex_take_def Let_def)
    ultimately show thesis using that [of ?s1] False inv1 ok1 own pr by simp
  qed
qed

lemma mutex_take_refused:
  assumes inv: "kinv s" and ok: "mutexes_ok N s" and n: "n \<in> N" and t: "may_block s t"
    and own: "mx_owner (k_mutex s n) = Some owner" "owner \<noteq> t"
  shows "\<exists>s'. rt_mutex_take n 0 s = Some (Returned (- RT_ETIMEOUT), s') \<and> kinv s' \<and> mutexes_ok N s'
     \<and> k_mutex s' = k_mutex s \<and> k_lists s' = k_lists s \<and> th_prio s' = th_prio s"
proof -
  note b = may_blockD [OF t] and o = mutexes_okD(1) [OF ok n]
  let ?s1 = "upd_thread t (\<lambda>th. th\<lparr>th_error := RT_EOK\<rparr>) s"
  let ?s2 = "upd_thread t (\<lambda>th. th\<lparr>th_error := - RT_ETIMEOUT\<rparr>) ?s1"
  have "rt_mutex_take n 0 s = Some (Returned (- RT_ETIMEOUT), ?s2)"
    using b(5,7) mutex_okD(1) [OF o] own by (simp add: rt_mutex_take_def Let_def)
  moreover have "kinv ?s2" by (intro kinv_set_error inv)
  moreover have "mutexes_ok N ?s2" using ok by (simp add: mutexes_ok_error)
  ultimately show ?thesis by (intro exI [of _ ?s2]) (auto simp: fun_eq_iff)
qed

lemma mutex_take_step:
  assumes inv: "kinv s" and ok: "mutexes_ok N s" and n: "n \<in> N" and t: "may_block s t"
    and tmo: "timeout_ok timeout"
    and free: "\<And>owner. mx_owner (k_mutex s n) = Some owner \<Longrightarrow> owner \<noteq> t \<Longrightarrow> chain_free s owner"
    and run: "rt_mutex_take n timeout s = Some (r, s')"
  shows "kinv s' \<and> mutexes_ok N s'"
proof (cases "mx_owner (k_mutex s n)")
  case None
  show ?thesis by (rule mutex_take_free [OF inv ok n t None, of timeout]) (use run in simp)
next
  case (Some owner)
  show ?thesis
  proof (cases "owner = t")
    case True
    then have own: "mx_owner (k_mutex s n) = Some t" using Some by simp
    show ?thesis by (rule mutex_take_owned [OF inv ok n t own, of timeout]) (use run in simp)
  next
    case other: False
    show ?thesis
    proof (cases "timeout = 0")
      case True
      then show ?thesis using mutex_take_refused [OF inv ok n t Some other] run by auto
    next
      case False
      show ?thesis
        by (rule mutex_contended [OF inv ok n t Some other free [OF Some other] tmo False])
          (use run in simp)
    qed
  qed
qed

lemma mutex_release_step:
  assumes inv: "kinv s" and ok: "mutexes_ok N s" and n: "n \<in> N" and t: "may_block s t"
    and run: "rt_mutex_release n s = Some (r, s')"
  shows "kinv s' \<and> mutexes_ok N s'"
proof -
  note b = may_blockD [OF t] and o = mutexes_okD(1) [OF ok n]
  show ?thesis
  proof (cases "mx_owner (k_mutex s n) = Some t")
    case False
    then have "s' = upd_thread t (\<lambda>th. th\<lparr>th_error := - RT_ERROR\<rparr>) s"
      using run b(6,7) mutex_okD(1) [OF o] by (auto simp: rt_mutex_release_def)
    then show ?thesis using kinv_set_error [OF inv] ok by (simp add: mutexes_ok_error)
  next
    case True
    note oo = mutex_ok_owner [OF o True]
    show ?thesis
    proof (cases "mx_hold (k_mutex s n) = 1")
      case one: True
      show ?thesis by (rule release_last [OF inv ok n t True one]) (use run in simp)
    next
      case False
      let ?f = "\<lambda>m. m\<lparr>mx_hold := (mx_hold m + 255) mod 256\<rparr>"
      have h: "(mx_hold (k_mutex s n) + 255) mod 256 = mx_hold (k_mutex s n) - 1"
      proof -
        obtain k where k: "mx_hold (k_mutex s n) = Suc k" using oo(1) by (cases "mx_hold (k_mutex s n)") auto
        have "(Suc k + 255) mod 256 = k mod 256" by simp
        then show ?thesis using k mutex_okD(3) [OF o] by simp
      qed
      have "s' = upd_mutex n ?f s"
        using run b(6,7) mutex_okD(1) [OF o] True h False oo(1) by (simp add: rt_mutex_release_def Let_def split: if_splits)
      moreover have "mutexes_ok N (upd_mutex n ?f s)"
        by (rule mutexes_ok_hold [OF ok n, where h = "mx_hold (k_mutex s n) - 1"])
          (use True h False oo(1) mutex_okD(3) [OF o] in simp_all)
      ultimately show ?thesis using inv by simp
    qed
  qed
qed

text \<open>A waiter leaves the queue by its timer, and runs again.\<close>

lemma mutexes_ok_leave:
  assumes ok: "mutexes_ok N s" and m: "k_mutex s' = k_mutex s"
    and q: "\<And>n. k_lists s' (MutexQ n) = remove1 t (k_lists s (MutexQ n))"
    and v: "\<And>u. mview (k_thread s' u) = mview (k_thread s u)"
  shows "mutexes_ok N s'"
proof -
  have th: "th_prio s' u = th_prio s u" "th_init_priority (k_thread s' u) = th_init_priority (k_thread s u)"
    "th_obj (k_thread s' u) = th_obj (k_thread s u)"
    "th_taken_object_list (k_thread s' u) = th_taken_object_list (k_thread s u)"
    "th_pending_object (k_thread s' u) = th_pending_object (k_thread s u)" for u
    using mviewD [OF v, of u] by simp_all
  have pr: "th_prio s' = th_prio s" by (rule ext) (rule th(1))
  have "mutex_ok s' n" if "n \<in> N" for n
    using mutexes_okD(1) [OF ok that] set_remove1_subset [of t "k_lists s (MutexQ n)"] unfolding mutex_ok_def m q pr th
    by (auto simp: sorted_map_remove1 split: option.splits)
  moreover have "taken_ok N s' u" for u using mutexes_okD(2) [OF ok, of u] unfolding taken_ok_def m th .
  ultimately show ?thesis by (simp add: mutexes_ok_def)
qed

lemma mutex_timeout_step:
  assumes inv: "kinv s" and ok: "mutexes_ok N s" and sus: "th_base s t = RT_THREAD_SUSPEND"
    and tm: "tm_row (k_timer s (ThreadTimer t)) \<noteq> Some Timer_list" and cur: "k_current s = Some c"
  obtains s' where "thread_timeout t s = Some s'" "kinv s'" "mutexes_ok N s'"
proof -
  obtain s' where s': "thread_timeout t s = Some s'" "kinv s'"
    "\<And>h. wait_queue h \<Longrightarrow> k_lists s' h = remove1 t (k_lists s h)" "objs_frame s s'"
    "\<And>u. th_core (k_thread s' u)
       = th_core (if u = t then k_thread s t\<lparr>th_error := - RT_ETIMEOUT\<rparr> else k_thread s u)"
    by (rule timeout_ok [OF inv sus tm cur]) blast
  have "mutexes_ok N s'"
  proof (rule mutexes_ok_leave [OF ok])
    show "k_mutex s' = k_mutex s" using s'(4) by (simp add: objs_frame_def)
    show "k_lists s' (MutexQ n) = remove1 t (k_lists s (MutexQ n))" for n by (rule s'(3)) simp
    show "mview (k_thread s' u) = mview (k_thread s u)" for u
      using mview_core [OF s'(5), of u] by (cases "u = t") (simp_all add: mview_def)
  qed
  then show thesis by (rule that [OF s'(1,2)])
qed

lemma restore_owner_ok:
  assumes inv: "kinv s" and ok: "mutexes_ok N s" and n: "n \<in> N"
    and own: "mx_owner (k_mutex s n) = Some owner" and free: "chain_free s owner"
  obtains s' where "mutex_restore_owner n t s = Some s'" "kinv s'" "mutexes_ok N s'"
    "\<And>u. th_error (k_thread s' u) = th_error (k_thread s u)" "\<And>u. u \<noteq> owner \<Longrightarrow> k_thread s' u = k_thread s u"
    "\<And>h. wait_queue h \<Longrightarrow> k_lists s' h = k_lists s h" "k_timer s' = k_timer s" "k_current s' = k_current s"
    "mx_owner (k_mutex s' n) = Some owner" "mx_priority (k_mutex s' n) = waiters_priority n s"
    "th_prio s owner = th_prio s t \<Longrightarrow> th_prio s' owner = thread_get_mutex_priority owner s'"
proof -
  note o = mutexes_okD(1) [OF ok n]
  note oo = mutex_ok_owner [OF o own]
  let ?s1 = "mutex_update_priority n s"
  have inv1: "kinv ?s1" using inv by simp
  have th1: "k_thread ?s1 = k_thread s" "k_lists ?s1 = k_lists s" by (simp_all add: mutex_update_priority_def)
  have m1: "k_mutex ?s1 = (k_mutex s)(n := (k_mutex s n)\<lparr>mx_priority := waiters_priority n s\<rparr>)"
    by (simp add: mutex_update_priority_def)
  have p32: "th_prio s owner < RT_THREAD_PRIORITY_MAX"
    using queue_invD(1) [OF kinvD(6) [OF inv], of owner] by (simp add: thread_ok_def)
  have ge: "th_prio s owner \<le> waiters_priority n s"
  proof (cases "k_lists s (MutexQ n)")
    case Nil
    then show ?thesis using p32 by (simp add: waiters_priority_def)
  next
    case (Cons u us)
    then show ?thesis using mutex_okD(6) [OF o, of u] oo(3) by (simp add: waiters_priority_def)
  qed
  have new: "mutex_ok ?s1 n"
    using o waiters_priority_le [OF mutex_okD(4) [OF o]] ge own
    by (simp add: mutex_ok_def th1 m1)
  have "mutex_ok ?s1 k" if k: "k \<in> N" for k
  proof (cases "k = n")
    case False
    then have eq: "k_mutex ?s1 k = k_mutex s k" by (simp add: m1)
    show ?thesis using mutexes_okD(1) [OF ok k] unfolding mutex_ok_def th1 eq .
  qed (use new in simp)
  moreover have "mx_taken_by (k_mutex ?s1 k) = mx_taken_by (k_mutex s k)" for k by (simp add: m1)
  then have "taken_ok N ?s1 u" for u using mutexes_okD(2) [OF ok, of u] by (simp add: taken_ok_def th1)
  ultimately have ok1: "mutexes_ok N ?s1" by (simp add: mutexes_ok_def)
  let ?p = "thread_get_mutex_priority owner ?s1"
  show thesis
  proof (cases "th_prio s owner = th_prio s t \<and> ?p \<noteq> th_prio ?s1 owner")
    case False
    have "mutex_restore_owner n t s = Some ?s1"
      using False own by (auto simp: mutex_restore_owner_def Let_def th1)
    then show thesis
      using that [of ?s1] inv1 ok1 own False by (auto simp: m1 th1 mutex_update_priority_def)
  next
    case True
    have obj1: "th_obj (k_thread ?s1 owner)" and free1: "chain_free ?s1 owner"
      using oo(4) free by (simp_all add: th1 chain_free_def)
    have p32': "?p < RT_THREAD_PRIORITY_MAX"
      using mutex_priority_le(1) [of owner ?s1] mutexes_okD(2) [OF ok1, of owner] obj1 by (auto simp: taken_ok_def)
    obtain s' where s': "thread_update_priority owner ?p ?s1 = Some s'" "kinv s'"
      "th_prio s' = (th_prio ?s1)(owner := ?p)" "\<And>u. u \<noteq> owner \<Longrightarrow> k_thread s' u = k_thread ?s1 u"
      "mview (k_thread s' owner) = mview (k_thread ?s1 owner\<lparr>th_current_priority := ?p\<rparr>)"
      "th_error (k_thread s' owner) = th_error (k_thread ?s1 owner)" "objs_frame ?s1 s'"
      "\<And>h. wait_queue h \<Longrightarrow> k_lists s' h = k_lists ?s1 h" "k_timer s' = k_timer ?s1"
      "k_current s' = k_current ?s1"
      by (rule update_priority_ok [OF inv1 obj1 p32' free1]) blast
    have ok': "mutexes_ok N s'"
    proof (rule mutexes_ok_prio [OF ok1, where t = owner and p = ?p])
      show "owner \<notin> set (k_lists ?s1 (MutexQ k))" if "k \<in> N" for k
        using chain_free_not_queued [OF inv ok free that] by (simp add: th1)
      show "?p \<le> mx_priority (k_mutex ?s1 k)" if "k \<in> N" "mx_owner (k_mutex ?s1 k) = Some owner" for k
      proof (rule mutex_priority_le(2))
        have "mx_taken_by (k_mutex ?s1 k) = Some owner"
          by (rule mutex_ok_owner(2) [OF mutexes_okD(1) [OF ok1 that(1)] that(2)])
        then show "k \<in> set (th_taken_object_list (k_thread ?s1 owner))"
          using mutexes_okD(2) [OF ok1, of owner] that(1) by (auto simp: taken_ok_def)
      qed
    qed (use s' in \<open>simp_all add: objs_frame_def\<close>)
    have err: "th_error (k_thread s' u) = th_error (k_thread s u)" for u
      using s'(4) [of u] s'(6) th1(1) by (cases "u = owner") simp_all
    have tmr: "k_timer s' = k_timer s" "k_current s' = k_current s"
      using s'(9,10) by (simp_all add: mutex_update_priority_def)
    have "mutex_restore_owner n t s = Some s'"
      using True own s'(1) by (simp add: mutex_restore_owner_def Let_def th1)
    moreover have "thread_get_mutex_priority owner s' = ?p"
    proof -
      have km: "k_mutex s' = k_mutex ?s1" using s'(7) by (simp add: objs_frame_def)
      show ?thesis using mviewD [OF s'(5)] unfolding thread_get_mutex_priority_def km by simp
    qed
    moreover have "th_prio s' owner = ?p" using s'(3) by (simp add: fun_eq_iff)
    ultimately show thesis
      using that [of s'] s'(2,4,7,8) ok' own m1 err tmr by (simp add: objs_frame_def th1)
  qed
qed

lemma mutex_resume_ok:
  assumes inv: "kinv s" and ok: "mutexes_ok N s" and n: "n \<in> N"
    and own: "mx_owner (k_mutex s n) = Some owner" and free: "chain_free s owner"
    and err: "th_error (k_thread s t) \<noteq> RT_EOK"
  obtains s' where "rt_mutex_take_resume n t s = Some (th_error (k_thread s t), s')" "kinv s'" "mutexes_ok N s'"
    "mx_owner (k_mutex s' n) = Some owner" "mx_priority (k_mutex s' n) = waiters_priority n s"
    "th_prio s owner = th_prio s t \<Longrightarrow> th_prio s' owner = thread_get_mutex_priority owner s'"
proof -
  obtain s' where s': "mutex_restore_owner n t s = Some s'" "kinv s'" "mutexes_ok N s'"
    "\<And>u. th_error (k_thread s' u) = th_error (k_thread s u)"
    "mx_owner (k_mutex s' n) = Some owner" "mx_priority (k_mutex s' n) = waiters_priority n s"
    "th_prio s owner = th_prio s t \<Longrightarrow> th_prio s' owner = thread_get_mutex_priority owner s'"
    by (rule restore_owner_ok [OF inv ok n own free, of t]) blast
  then show thesis using that [of s'] err by (simp add: rt_mutex_take_resume_def)
qed



section \<open>Histories\<close>

text \<open>
  The mutexes N, without ceilings, are taken, released and given up in any order by threads that
  may block.  An owner whose priority has to change is not itself waiting for a mutex; see
  \<open>mutex_nested_inheritance_fails\<close> for that case.  All other kernel activity leaves the mutexes,
  their queues and the priorities alone.
\<close>

inductive mutex_history :: "nat set \<Rightarrow> kstate \<Rightarrow> bool" for N where
  start: "\<lbrakk>kinv s; mutexes_ok N s\<rbrakk> \<Longrightarrow> mutex_history N s"
| take: "\<lbrakk>mutex_history N s; n \<in> N; may_block s t; timeout_ok timeout;
      \<forall>owner. mx_owner (k_mutex s n) = Some owner \<and> owner \<noteq> t \<longrightarrow> chain_free s owner;
      rt_mutex_take n timeout s = Some (r, s')\<rbrakk> \<Longrightarrow> mutex_history N s'"
| release: "\<lbrakk>mutex_history N s; n \<in> N; may_block s t; rt_mutex_release n s = Some (r, s')\<rbrakk>
    \<Longrightarrow> mutex_history N s'"
| timeout: "\<lbrakk>mutex_history N s; th_base s t = RT_THREAD_SUSPEND; k_current s = Some c;
      tm_row (k_timer s (ThreadTimer t)) \<noteq> Some Timer_list; thread_timeout t s = Some s'\<rbrakk>
    \<Longrightarrow> mutex_history N s'"
| resumed: "\<lbrakk>mutex_history N s; n \<in> N;
      \<forall>owner. mx_owner (k_mutex s n) = Some owner \<longrightarrow> chain_free s owner;
      rt_mutex_take_resume n t s = Some (r, s')\<rbrakk> \<Longrightarrow> mutex_history N s'"
| other: "\<lbrakk>mutex_history N s; kinv s'; \<forall>n \<in> N. k_mutex s' n = k_mutex s n;
      \<forall>n \<in> N. k_lists s' (MutexQ n) = k_lists s (MutexQ n);
      \<forall>t. mview (k_thread s' t) = mview (k_thread s t)\<rbrakk> \<Longrightarrow> mutex_history N s'"

lemma mutex_resume_step:
  assumes inv: "kinv s" and ok: "mutexes_ok N s" and n: "n \<in> N"
    and free: "\<forall>owner. mx_owner (k_mutex s n) = Some owner \<longrightarrow> chain_free s owner"
    and run: "rt_mutex_take_resume n t s = Some (r, s')"
  shows "kinv s' \<and> mutexes_ok N s'"
proof (cases "th_error (k_thread s t) = RT_EOK")
  case True
  then show ?thesis using run inv ok by (simp add: rt_mutex_take_resume_def)
next
  case False
  obtain owner where own: "mx_owner (k_mutex s n) = Some owner"
    using run False by (auto simp: rt_mutex_take_resume_def mutex_restore_owner_def bind_eq_Some_conv)
  have fo: "chain_free s owner" using free own by blast
  show ?thesis by (rule mutex_resume_ok [OF inv ok n own fo False]) (use run in simp)
qed

lemma mutex_history_ok: "mutex_history N s \<Longrightarrow> kinv s \<and> mutexes_ok N s"
proof (induction rule: mutex_history.induct)
  case (take s n t timeout r s')
  then show ?case using mutex_take_step [of s N n t timeout r s'] by blast
next
  case (release s n t r s')
  then show ?case using mutex_release_step [of s N n t r s'] by blast
next
  case (timeout s t c s')
  then have "kinv s" "mutexes_ok N s" by simp_all
  then show ?case
    by (rule mutex_timeout_step [OF _ _ timeout.hyps(2,4,3)]) (use timeout.hyps(5) in simp)
next
  case (resumed s n t r s')
  then show ?case using mutex_resume_step [of s N n t r s'] by blast
next
  case (other s s')
  then show ?case using mutexes_ok_cong [of N s' s] by blast
qed simp


section \<open>A sample\<close>

text \<open>Thread 0 runs at priority 4; the ready thread 1 of priority 10 owns mutex 1.\<close>

definition mutex_sample :: kstate where
  "mutex_sample = upd_mutex 1 (\<lambda>m. m\<lparr>mx_owner := Some 1, mx_hold := 1, mx_taken_by := Some 1\<rparr>)
     (upd_thread 1 (\<lambda>th. th\<lparr>th_taken_object_list := [1]\<rparr>)
       (upd_thread 0 (\<lambda>th. th\<lparr>th_current_priority := 4, th_number_mask := prio_mask 4\<rparr>) k_sample))"

lemma sample_mutex:
  "k_mutex k_sample n = \<lparr>mx_obj = True, mx_system = True, mx_ceiling_priority = 255,
     mx_priority = 255, mx_hold = 0, mx_owner = None, mx_taken_by = None\<rparr>"
  by (simp add: k_sample_def)

lemma mutex_sample_simps [simp]:
  "k_lists mutex_sample = lists_sample" "k_current mutex_sample = Some 0" "k_lock_nest mutex_sample = 0"
  "k_irq_nest mutex_sample = 0" "k_tick mutex_sample = 100"
  "k_mutex mutex_sample n = (if n = 1 then \<lparr>mx_obj = True, mx_system = True, mx_ceiling_priority = 255,
     mx_priority = 255, mx_hold = 1, mx_owner = Some 1, mx_taken_by = Some 1\<rparr> else k_mutex k_sample n)"
  "k_thread mutex_sample t = (if t = 1 then (th_sample 10 RT_THREAD_READY (Some (Ready 10)))\<lparr>th_taken_object_list := [1]\<rparr>
     else if t = 0 then (th_sample 10 RT_THREAD_RUNNING None)\<lparr>th_current_priority := 4, th_number_mask := prio_mask 4\<rparr>
     else threads_sample t)"
  by (simp_all add: mutex_sample_def sample_mutex)

lemma mutex_sample_kinv: "kinv mutex_sample"
proof -
  obtain s' where s': "thread_change_priority 0 4 k_sample = Some s'" "kinv s'"
    by (rule change_priority_ok [OF kinv_sample, of 0 4]) simp_all
  have "s' = upd_thread 0 (\<lambda>th. th\<lparr>th_current_priority := 4, th_number_mask := prio_mask 4\<rparr>) k_sample"
    using s'(1) by (simp add: thread_change_priority_def sample_base)
  then show ?thesis using kinv_set_taken [OF s'(2)] by (simp add: mutex_sample_def)
qed

lemma mutex_sample_block: "may_block mutex_sample 0"
  by (simp add: may_block_def)

lemma mutex_sample_ok: "mutexes_ok {1} mutex_sample"
proof -
  have "lists_sample (MutexQ 1) = []" by (simp add: lists_sample_def)
  then have "mutex_ok mutex_sample 1" by (simp add: mutex_ok_def)
  moreover have "taken_ok {1} mutex_sample t" for t
    by (auto simp: taken_ok_def threads_sample_def)
  ultimately show ?thesis by (simp add: mutexes_ok_def)
qed

lemma mutex_sample_free: "chain_free mutex_sample 1"
  by (simp add: chain_free_def)



section \<open>Properties\<close>

text \<open>
  C3: priority inversion is bounded.  In every history of mutexes without ceilings, no thread
  waits for a mutex whose owner is less urgent than the waiter; the waiters are in priority
  order; a mutex is held at least once exactly while it has an owner, and nobody waits for a
  mutex without one.
\<close>

theorem mutex_inversion_bounded:
  assumes "mutex_history N s" "n \<in> N"
  shows "kinv s \<and> sorted (map (th_prio s) (k_lists s (MutexQ n)))
     \<and> (case mx_owner (k_mutex s n) of
          None \<Rightarrow> mx_hold (k_mutex s n) = 0 \<and> k_lists s (MutexQ n) = []
        | Some owner \<Rightarrow> 0 < mx_hold (k_mutex s n) \<and> n \<in> set (th_taken_object_list (k_thread s owner))
            \<and> (\<forall>u \<in> set (k_lists s (MutexQ n)). th_prio s owner \<le> th_prio s u))"
proof -
  have ok: "kinv s" "mutexes_ok N s" using mutex_history_ok [OF assms(1)] by simp_all
  note o = mutexes_okD(1) [OF ok(2) assms(2)]
  show ?thesis
  proof (cases "mx_owner (k_mutex s n)")
    case None
    then show ?thesis using ok(1) mutex_okD(4) [OF o] mutex_ok_free [OF o None] by simp
  next
    case (Some owner)
    note oo = mutex_ok_owner [OF o Some]
    have "n \<in> set (th_taken_object_list (k_thread s owner))"
      using mutexes_okD(2) [OF ok(2), of owner] oo(2) assms(2) by (simp add: taken_ok_def)
    moreover have "th_prio s owner \<le> th_prio s u" if "u \<in> set (k_lists s (MutexQ n))" for u
      using mutex_okD(6) [OF o that] oo(3) by (rule order_trans [rotated])
    ultimately show ?thesis using ok(1) mutex_okD(4) [OF o] oo(1) Some by simp
  qed
qed

text \<open>Thread 0 waits for the mutex of thread 1, whose priority it raises.\<close>

lemma mutex_sample_history:
  "\<exists>s. mutex_history {1} s \<and> mx_owner (k_mutex s 1) = Some 1 \<and> k_lists s (MutexQ 1) = [0]"
proof -
  have h: "mutex_history {1} mutex_sample"
    by (rule mutex_history.start [OF mutex_sample_kinv mutex_sample_ok])
  have q: "lists_sample (MutexQ 1) = []" by (simp add: lists_sample_def)
  have own: "mx_owner (k_mutex mutex_sample 1) = Some 1" "(1 :: nat) \<noteq> 0" "1 \<in> {1 :: nat}" "timeout_ok 20"
    by (simp_all add: timeout_ok_def)
  obtain s' where s': "rt_mutex_take 1 20 mutex_sample = Some (Blocked, s')"
      "mx_owner (k_mutex s' 1) = Some 1" "k_lists s' (MutexQ 1) = prio_insert (th_prio mutex_sample) 0 (k_lists mutex_sample (MutexQ 1))"
    using mutex_contended [OF mutex_sample_kinv mutex_sample_ok own(3) mutex_sample_block own(1,2)
        mutex_sample_free own(4)] by (metis zero_neq_numeral)
  have "mutex_history {1} s'"
    by (rule mutex_history.take [OF h own(3) mutex_sample_block own(4) _ s'(1)])
      (use mutex_sample_free in simp)
  then show ?thesis using s'(2,3) q by (intro exI [of _ s']) simp
qed

theorem mutex_inversion_bounded_witness:
  "\<exists>s. k_lists s (MutexQ 1) = [0] \<and> th_prio s 1 \<le> th_prio s 0"
proof -
  obtain s where s: "mutex_history {1} s" "mx_owner (k_mutex s 1) = Some 1" "k_lists s (MutexQ 1) = [0]"
    using mutex_sample_history by blast
  have "1 \<in> {1 :: nat}" by simp
  from mutex_inversion_bounded [OF s(1) this] show ?thesis
    using s(2,3) by (intro exI [of _ s]) simp
qed

text \<open>
  C8: waiting for a mutex.  A take of a mutex that another thread owns queues the caller by
  priority, arms its timer, raises the owner to the caller's priority if that is more urgent and
  changes no other priority, and gives the processor to the most urgent ready thread.
\<close>

theorem mutex_take_inherits:
  assumes "kinv s" "mutexes_ok N s" "n \<in> N" "may_block s t"
    and "mx_owner (k_mutex s n) = Some owner" "owner \<noteq> t" "chain_free s owner"
    and "timeout_ok timeout" "timeout \<noteq> 0" "\<exists>u. th_base s u = RT_THREAD_READY"
  shows "\<exists>s'. rt_mutex_take n timeout s = Some (Blocked, s') \<and> kinv s' \<and> mutexes_ok N s'
     \<and> th_base s' t = RT_THREAD_SUSPEND \<and> mx_owner (k_mutex s' n) = Some owner
     \<and> k_lists s' (MutexQ n) = filter (\<lambda>u. th_prio s u \<le> th_prio s t) (k_lists s (MutexQ n))
           @ t # filter (\<lambda>u. th_prio s t < th_prio s u) (k_lists s (MutexQ n))
     \<and> (\<forall>u. th_prio s' u = (if u = owner then min (th_prio s owner) (th_prio s t) else th_prio s u))
     \<and> (0 < timeout \<longrightarrow> tm_row (k_timer s' (ThreadTimer t)) = Some Timer_list
          \<and> tm_timeout_tick (k_timer s' (ThreadTimer t)) = k_tick s + word_of_int timeout)
     \<and> runs_most_urgent s'"
proof -
  obtain s' where s': "rt_mutex_take n timeout s = Some (Blocked, s')" "kinv s'" "mutexes_ok N s'"
    "th_base s' t = RT_THREAD_SUSPEND" "th_prio s' = inherited s owner t"
    "k_lists s' (MutexQ n) = prio_insert (th_prio s) t (k_lists s (MutexQ n))"
    "mx_owner (k_mutex s' n) = Some owner"
    "0 < timeout \<Longrightarrow> tm_row (k_timer s' (ThreadTimer t)) = Some Timer_list
       \<and> tm_timeout_tick (k_timer s' (ThreadTimer t)) = k_tick s + word_of_int timeout"
    "\<exists>u. th_base s u = RT_THREAD_READY \<Longrightarrow> runs_most_urgent s'"
    by (rule mutex_contended [OF assms(1-9)]) blast
  have "th_prio s' u = (if u = owner then min (th_prio s owner) (th_prio s t) else th_prio s u)" for u
    using fun_cong [OF s'(5), of u] by (simp add: inherited_def)
  moreover note prio_insert_place [OF mutex_okD(4) [OF mutexes_okD(1) [OF assms(2,3)]], of t]
  ultimately show ?thesis using s' assms(10) by (intro exI [of _ s']) simp
qed

theorem mutex_take_inherits_witness:
  "\<exists>s'. rt_mutex_take 1 20 mutex_sample = Some (Blocked, s') \<and> k_lists s' (MutexQ 1) = [0]
     \<and> th_prio s' 1 = 4"
proof -
  have "\<exists>u. th_base mutex_sample u = RT_THREAD_READY" by (intro exI [of _ 2]) simp
  moreover have "mx_owner (k_mutex mutex_sample 1) = Some 1" "lists_sample (MutexQ 1) = []"
    by (simp_all add: lists_sample_def)
  ultimately show ?thesis
    using mutex_take_inherits [OF mutex_sample_kinv mutex_sample_ok _ mutex_sample_block _ _ mutex_sample_free,
        of 1 20] by (fastforce simp: timeout_ok_def)
qed

text \<open>
  Taking without waiting.  A free mutex goes to the caller, with one hold; the owner may
  take it again, up to 255 holds and then gets the error code; a take with timeout zero of a
  mutex that another thread owns returns the timeout error and changes no mutex and no priority.
\<close>

theorem mutex_take_without_waiting:
  assumes "kinv s" "mutexes_ok N s" "n \<in> N" "may_block s t"
  shows "case mx_owner (k_mutex s n) of
     None \<Rightarrow> \<exists>s'. rt_mutex_take n timeout s = Some (Returned RT_EOK, s') \<and> kinv s' \<and> mutexes_ok N s'
       \<and> mx_owner (k_mutex s' n) = Some t \<and> mx_hold (k_mutex s' n) = 1
   | Some owner \<Rightarrow>
       if owner = t then
         \<exists>s'. rt_mutex_take n timeout s
             = Some (Returned (if mx_hold (k_mutex s n) < 255 then RT_EOK else - RT_EFULL), s')
           \<and> kinv s' \<and> mutexes_ok N s' \<and> mx_owner (k_mutex s' n) = Some t
           \<and> mx_hold (k_mutex s' n) = min 255 (mx_hold (k_mutex s n) + 1)
       else
         \<exists>s'. rt_mutex_trytake n s = Some (Returned (- RT_ETIMEOUT), s') \<and> kinv s' \<and> mutexes_ok N s'
           \<and> k_mutex s' = k_mutex s \<and> k_lists s' = k_lists s \<and> th_prio s' = th_prio s"
proof (cases "mx_owner (k_mutex s n)")
  case None
  show ?thesis
    by (rule mutex_take_free [OF assms None, of timeout]) (use None in auto)
next
  case (Some owner)
  show ?thesis
  proof (cases "owner = t")
    case True
    then have own: "mx_owner (k_mutex s n) = Some t" using Some by simp
    show ?thesis
      by (rule mutex_take_owned [OF assms own, of timeout]) (use own in auto)
  next
    case False
    then show ?thesis using mutex_take_refused [OF assms Some False] Some by (simp add: rt_mutex_trytake_def)
  qed
qed

theorem mutex_take_without_waiting_witness:
  "\<exists>s'. rt_mutex_trytake 1 mutex_sample = Some (Returned (- RT_ETIMEOUT), s') \<and> mutexes_ok {1} s'"
proof -
  have "1 \<in> {1 :: nat}" by simp
  from mutex_take_without_waiting [OF mutex_sample_kinv mutex_sample_ok this mutex_sample_block] show ?thesis
    by auto
qed

text \<open>
  C7: the last release.  The mutex goes to its first waiter, which becomes ready with its wait's
  error code unchanged, or becomes free.  An owner running at the mutex' priority falls back to
  the most urgent of its own base priority and the mutexes it still holds; no other priority
  changes; with a waiter, the most urgent thread runs.
\<close>

theorem mutex_release_hands_over:
  assumes "kinv s" "mutexes_ok N s" "n \<in> N" "may_block s t"
    and "mx_owner (k_mutex s n) = Some t" "mx_hold (k_mutex s n) = 1"
  shows "\<exists>s'. rt_mutex_release n s = Some (RT_EOK, s') \<and> kinv s' \<and> mutexes_ok N s'
     \<and> k_lists s' (MutexQ n) = tl (k_lists s (MutexQ n))
     \<and> (\<forall>u. th_prio s' u = (if u = t \<and> th_prio s t = mx_priority (k_mutex s n)
            then Min (insert (th_init_priority (k_thread s t))
                   ((\<lambda>k. mx_priority (k_mutex s k)) ` (set (th_taken_object_list (k_thread s t)) - {n})))
            else th_prio s u))
     \<and> (case k_lists s (MutexQ n) of
          [] \<Rightarrow> mx_owner (k_mutex s' n) = None
        | u # _ \<Rightarrow> mx_owner (k_mutex s' n) = Some u \<and> mx_hold (k_mutex s' n) = 1
            \<and> th_base s' u \<in> {RT_THREAD_READY, RT_THREAD_RUNNING}
            \<and> (th_error (k_thread s u) = RT_EOK \<longrightarrow> rt_mutex_take_resume n u s' = Some (RT_EOK, s'))
            \<and> runs_most_urgent s')"
proof -
  let ?c = "th_prio s t = mx_priority (k_mutex s n)"
  obtain s' where s': "rt_mutex_release n s = Some (RT_EOK, s')" "kinv s'" "mutexes_ok N s'"
    "mx_owner (k_mutex s' n) = (case k_lists s (MutexQ n) of [] \<Rightarrow> None | u # _ \<Rightarrow> Some u)"
    "k_lists s' (MutexQ n) = tl (k_lists s (MutexQ n))"
    "th_prio s' = (th_prio s)(t := if ?c then thread_get_mutex_priority t (taken_remove n s) else th_prio s t)"
    "\<And>u us. k_lists s (MutexQ n) = u # us \<Longrightarrow> th_error (k_thread s' u) = th_error (k_thread s u)
       \<and> th_base s' u \<in> {RT_THREAD_READY, RT_THREAD_RUNNING}"
    "k_lists s (MutexQ n) \<noteq> [] \<Longrightarrow> mx_hold (k_mutex s' n) = 1 \<and> runs_most_urgent s'"
    by (rule release_last [OF assms]) blast
  let ?P = "Min (insert (th_init_priority (k_thread s t))
     ((\<lambda>k. mx_priority (k_mutex s k)) ` (set (th_taken_object_list (k_thread s t)) - {n})))"
  have "thread_get_mutex_priority t (taken_remove n s) = ?P"
  proof -
    have "mx_taken_by (k_mutex s n) = Some t"
      by (rule mutex_ok_owner(2) [OF mutexes_okD(1) [OF assms(2,3)] assms(5)])
    moreover have "set (remove1 n (th_taken_object_list (k_thread s t))) = set (th_taken_object_list (k_thread s t)) - {n}"
      using mutexes_okD(2) [OF assms(2), of t] by (simp add: taken_ok_def)
    ultimately show ?thesis
      unfolding mutex_priority_Min by (simp add: taken_remove_def)
  qed
  then have prio: "th_prio s' u = (if u = t \<and> ?c then ?P else th_prio s u)" for u
    using fun_cong [OF s'(6), of u] by simp
  have "rt_mutex_take_resume n u s' = Some (RT_EOK, s')"
    if "k_lists s (MutexQ n) = u # us" "th_error (k_thread s u) = RT_EOK" for u us
    using s'(7) [OF that(1)] that(2) by (simp add: rt_mutex_take_resume_def)
  then show ?thesis
    using s'(1-5,7,8) prio by (intro exI [of _ s']) (simp split: list.splits)
qed

text \<open>Thread 0 holds mutex 0 at the priority 8 it has from the waiting thread 4.\<close>

definition owner_sample :: kstate where
  "owner_sample = upd_mutex 0 (\<lambda>m. m\<lparr>mx_owner := Some 0, mx_hold := 1, mx_taken_by := Some 0, mx_priority := 8\<rparr>)
     (upd_thread 0 (\<lambda>th. th\<lparr>th_taken_object_list := [0]\<rparr>)
       (upd_thread 0 (\<lambda>th. th\<lparr>th_current_priority := 8, th_number_mask := prio_mask 8\<rparr>) k_sample))"

lemma owner_sample_simps [simp]:
  "k_lists owner_sample = lists_sample" "k_current owner_sample = Some 0" "k_lock_nest owner_sample = 0"
  "k_irq_nest owner_sample = 0"
  "k_mutex owner_sample n = (if n = 0 then \<lparr>mx_obj = True, mx_system = True, mx_ceiling_priority = 255,
     mx_priority = 8, mx_hold = 1, mx_owner = Some 0, mx_taken_by = Some 0\<rparr> else k_mutex k_sample n)"
  "k_thread owner_sample t = (if t = 0 then (th_sample 10 RT_THREAD_RUNNING None)\<lparr>th_current_priority := 8,
     th_number_mask := prio_mask 8, th_taken_object_list := [0]\<rparr> else threads_sample t)"
  by (simp_all add: owner_sample_def sample_mutex)

lemma owner_sample_facts: "kinv owner_sample" "mutexes_ok {0} owner_sample" "may_block owner_sample 0"
proof -
  obtain s' where s': "thread_change_priority 0 8 k_sample = Some s'" "kinv s'"
    by (rule change_priority_ok [OF kinv_sample, of 0 8]) simp_all
  have "s' = upd_thread 0 (\<lambda>th. th\<lparr>th_current_priority := 8, th_number_mask := prio_mask 8\<rparr>) k_sample"
    using s'(1) by (simp add: thread_change_priority_def sample_base)
  then show "kinv owner_sample" using kinv_set_taken [OF s'(2)] by (simp add: owner_sample_def)
  have "mutex_ok owner_sample 0" by (simp add: mutex_ok_def)
  moreover have "taken_ok {0} owner_sample t" for t
    by (auto simp: taken_ok_def threads_sample_def)
  ultimately show "mutexes_ok {0} owner_sample" by (simp add: mutexes_ok_def)
  show "may_block owner_sample 0" by (simp add: may_block_def)
qed

theorem mutex_release_hands_over_witness:
  "\<exists>s'. rt_mutex_release 0 owner_sample = Some (RT_EOK, s') \<and> mx_owner (k_mutex s' 0) = Some 4
     \<and> th_prio s' 0 = 10 \<and> rt_mutex_take_resume 0 4 s' = Some (RT_EOK, s')"
proof -
  have "0 \<in> {0 :: nat}" "mx_owner (k_mutex owner_sample 0) = Some 0" "mx_hold (k_mutex owner_sample 0) = 1"
    by simp_all
  from mutex_release_hands_over [OF owner_sample_facts(1,2) this(1) owner_sample_facts(3) this(2,3)]
  show ?thesis by auto
qed

text \<open>
  C11: giving up.  A thread whose wait failed while the mutex has an owner returns its error code;
  the mutex takes the priority of the waiters that are left, and an owner of the same priority
  falls back to what its base priority and its mutexes require.
\<close>

theorem mutex_give_up_restores:
  assumes "kinv s" "mutexes_ok N s" "n \<in> N" "mx_owner (k_mutex s n) = Some owner" "chain_free s owner"
    and "th_error (k_thread s t) \<noteq> RT_EOK"
  shows "\<exists>s'. rt_mutex_take_resume n t s = Some (th_error (k_thread s t), s') \<and> kinv s' \<and> mutexes_ok N s'
     \<and> mx_priority (k_mutex s' n) = (case k_lists s (MutexQ n) of [] \<Rightarrow> 255 | u # _ \<Rightarrow> th_prio s u)
     \<and> (th_prio s owner = th_prio s t \<longrightarrow> th_prio s' owner
          = Min (insert (th_init_priority (k_thread s' owner))
              ((\<lambda>k. mx_priority (k_mutex s' k)) ` set (th_taken_object_list (k_thread s' owner)))))"
proof -
  obtain s' where s': "rt_mutex_take_resume n t s = Some (th_error (k_thread s t), s')" "kinv s'" "mutexes_ok N s'"
    "mx_priority (k_mutex s' n) = waiters_priority n s"
    "th_prio s owner = th_prio s t \<Longrightarrow> th_prio s' owner = thread_get_mutex_priority owner s'"
    by (rule mutex_resume_ok [OF assms]) blast
  then show ?thesis by (intro exI [of _ s']) (simp add: waiters_priority_def mutex_priority_Min)
qed

theorem mutex_give_up_restores_witness:
  "\<exists>s'. rt_mutex_take_resume 1 0 (upd_thread 0 (\<lambda>th. th\<lparr>th_error := - RT_ETIMEOUT\<rparr>) mutex_sample)
     = Some (- RT_ETIMEOUT, s') \<and> mx_priority (k_mutex s' 1) = 255"
proof -
  let ?s = "upd_thread 0 (\<lambda>th. th\<lparr>th_error := - RT_ETIMEOUT\<rparr>) mutex_sample"
  have facts: "kinv ?s" "mutexes_ok {1} ?s" "1 \<in> {1 :: nat}" "mx_owner (k_mutex ?s 1) = Some 1" "chain_free ?s 1"
    "th_error (k_thread ?s 0) \<noteq> RT_EOK" "k_lists ?s (MutexQ 1) = []"
    using kinv_set_error [OF mutex_sample_kinv] mutex_sample_ok
    by (simp_all add: mutexes_ok_error chain_free_def lists_sample_def)
  show ?thesis using mutex_give_up_restores [OF facts(1-6)] facts(7) by auto
qed

text \<open>
  A wait that ends after its mutex was freed.  When the only waiter of a mutex has given up
  but has not run again, the owner's last release frees the mutex; the code of the waiter then
  reads the priority of an owner that is not there.
\<close>

theorem mutex_give_up_without_owner_fails:
  assumes "kinv s" "mutexes_ok N s" "n \<in> N" "may_block s t"
    and "mx_owner (k_mutex s n) = Some t" "mx_hold (k_mutex s n) = 1" "k_lists s (MutexQ n) = []"
  shows "\<exists>s'. rt_mutex_release n s = Some (RT_EOK, s') \<and> kinv s'
     \<and> (\<forall>u w. k_mutex u n = k_mutex s' n \<and> th_error (k_thread u w) = - RT_ETIMEOUT
          \<longrightarrow> rt_mutex_take_resume n w u = None)"
proof -
  obtain s' where s': "rt_mutex_release n s = Some (RT_EOK, s')" "kinv s'"
    "mx_owner (k_mutex s' n) = (case k_lists s (MutexQ n) of [] \<Rightarrow> None | u # _ \<Rightarrow> Some u)"
    by (rule release_last [OF assms(1-6)]) blast
  then show ?thesis
    using assms(7) by (intro exI [of _ s']) (simp add: rt_mutex_take_resume_def mutex_restore_owner_def)
qed

text \<open>Thread 0 holds mutex 1, and nobody waits for it.\<close>

lemma single_owner_sample:
  "\<exists>s. kinv s \<and> mutexes_ok {1} s \<and> may_block s 0 \<and> mx_owner (k_mutex s 1) = Some 0
     \<and> mx_hold (k_mutex s 1) = 1 \<and> k_lists s (MutexQ 1) = []"
proof -
  let ?s = "upd_mutex 1 (\<lambda>m. m\<lparr>mx_owner := Some 0, mx_hold := 1, mx_taken_by := Some 0\<rparr>)
     (upd_thread 0 (\<lambda>th. th\<lparr>th_taken_object_list := [1]\<rparr>) k_sample)"
  have q: "lists_sample (MutexQ 1) = []" by (simp add: lists_sample_def)
  then have "mutex_ok ?s 1" by (simp add: mutex_ok_def sample_mutex)
  moreover have "taken_ok {1} ?s t" for t by (auto simp: taken_ok_def threads_sample_def sample_mutex)
  ultimately have "mutexes_ok {1} ?s" by (simp add: mutexes_ok_def)
  moreover have "kinv ?s" using kinv_set_taken [OF kinv_sample] by simp
  ultimately show ?thesis
    using q sample_may_block by (intro exI [of _ ?s]) (simp add: may_block_def sample_mutex)
qed

theorem mutex_give_up_without_owner_fails_witness:
  "\<exists>s s'. rt_mutex_release 1 s = Some (RT_EOK, s')
     \<and> rt_mutex_take_resume 1 5 (upd_thread 5 (\<lambda>th. th\<lparr>th_error := - RT_ETIMEOUT\<rparr>) s') = None"
proof -
  obtain s where s: "kinv s" "mutexes_ok {1} s" "may_block s 0" "mx_owner (k_mutex s 1) = Some 0"
    "mx_hold (k_mutex s 1) = 1" "k_lists s (MutexQ 1) = []"
    using single_owner_sample by blast
  have n: "1 \<in> {1 :: nat}" by simp
  obtain s' where s': "rt_mutex_release 1 s = Some (RT_EOK, s')"
    "\<forall>u w. k_mutex u 1 = k_mutex s' 1 \<and> th_error (k_thread u w) = - RT_ETIMEOUT
       \<longrightarrow> rt_mutex_take_resume 1 w u = None"
    using mutex_give_up_without_owner_fails [OF s(1,2) n s(3-6)] by blast
  show ?thesis using s'(1) s'(2) by (intro exI [of _ s] exI [of _ s']) simp
qed

text \<open>
  Inheritance along a chain.  When the owner of a mutex waits for another mutex itself, a
  take by a more urgent thread does not pass the priority on: the code suspends the owner again
  to move it in that queue, and the suspension asserts that it is the current thread.
\<close>

theorem mutex_nested_inheritance_fails:
  assumes "kinv s" "may_block s t" "mx_obj (k_mutex s n)" "mx_owner (k_mutex s n) = Some owner" "owner \<noteq> t"
    and "th_base s owner = RT_THREAD_SUSPEND" "th_pending_object (k_thread s owner) = Some k"
    and "mx_obj (k_mutex s k)" "th_prio s t < mx_priority (k_mutex s n)" "th_prio s t < th_prio s owner"
    and "timeout \<noteq> 0"
  shows "rt_mutex_take n timeout s = None"
proof -
  note b = may_blockD [OF assms(2)]
  let ?s1 = "upd_thread t (\<lambda>th. th\<lparr>th_error := RT_EOK\<rparr>) s"
  have inv1: "kinv ?s1" by (rule kinv_set_error [OF assms(1)])
  note b1 = may_blockD [OF may_block_error [OF assms(2), of t RT_EOK]]
  have w: "wait_queue (MutexQ n)" by simp
  obtain s2 where s2: "ipc_list_suspend (MutexQ n) t True ?s1 = Some s2" "kinv s2"
    "th_base s2 t = RT_THREAD_SUSPEND" "thread_frame {t} ?s1 s2"
    by (rule list_suspend_ok [OF inv1 b1(1,2) w]) blast
  note f2 = thread_frameD [OF s2(4)]
  let ?s3 = "upd_thread t (\<lambda>th. th\<lparr>th_pending_object := Some n\<rparr>) s2"
  let ?s4 = "upd_mutex n (\<lambda>m. m\<lparr>mx_priority := th_prio s t\<rparr>) ?s3"
  have inv4: "kinv ?s4" using kinv_set_pending [OF s2(2)] by simp
  have m3: "k_mutex s2 = k_mutex s" using f2(1) by (simp add: objs_frame_def)
  have own: "k_thread ?s4 owner = k_thread s owner" using f2(6) [of owner] assms(5) by simp
  have obj: "th_obj (k_thread ?s4 owner)" using kinv_objs(1) [OF assms(1), of owner] assms(6) own by simp
  have p: "th_prio s t < RT_THREAD_PRIORITY_MAX"
    using queue_invD(1) [OF kinvD(6) [OF assms(1)], of t] by (simp add: thread_ok_def)
  obtain s5 where s5: "thread_change_priority owner (th_prio s t) ?s4 = Some s5"
    "th_base s5 owner = th_base ?s4 owner" "k_current s5 = k_current ?s4" "objs_frame ?s4 s5"
    "th_core (k_thread s5 owner)
      = th_core (k_thread ?s4 owner\<lparr>th_current_priority := th_prio s t, th_number_mask := prio_mask (th_prio s t)\<rparr>)"
    by (rule change_priority_ok [OF inv4 obj p]) blast
  have pend: "th_pending_object (k_thread s5 owner) = Some k" "th_base s5 owner = RT_THREAD_SUSPEND"
    using th_core_simps [OF s5(5)] s5(2) own assms(6,7) by simp_all
  have cur: "k_current s5 = Some t" using s5(3) f2(5) b1(1) by simp
  have objk: "mx_obj (k_mutex s5 k)" using s5(4) m3 assms(3,8) by (simp add: objs_frame_def)
  have "rt_thread_suspend owner u = None" if "k_current u = Some t" for u
    using that assms(5) by (simp add: rt_thread_suspend_def rt_thread_self_def)
  then have "thread_update_priority owner (th_prio s t) ?s4 = None"
    using s5(1) pend objk cur
    by (simp add: thread_update_priority.simps [of owner "th_prio s t" ?s4] ipc_list_suspend_def)
  moreover have "th_prio s2 owner = th_prio s owner" "th_prio s2 t = th_prio s t"
    using f2(6) [of owner] assms(5) th_core_simps [OF f2(7), of t] by simp_all
  ultimately show ?thesis
    using b(5,7) assms(3,4,5,9,10,11) s2(1) m3 by (simp add: rt_mutex_take_def Let_def)
qed

text \<open>Thread 4 waits for mutex 0 and owns mutex 1, which thread 0 takes.\<close>

theorem mutex_nested_inheritance_fails_witness:
  "rt_mutex_take 1 20 (upd_mutex 1 (\<lambda>m. m\<lparr>mx_owner := Some 4, mx_hold := 1\<rparr>) mutex_sample) = None"
proof -
  let ?s = "upd_mutex 1 (\<lambda>m. m\<lparr>mx_owner := Some 4, mx_hold := 1\<rparr>) mutex_sample"
  have "kinv ?s" "may_block ?s 0" using mutex_sample_kinv by (simp_all add: may_block_def)
  then show ?thesis
    by (rule mutex_nested_inheritance_fails [where owner = 4 and k = 0]) (simp_all add: sample_mutex)
qed

end
