(* ===== verification/ThreadEnd.thy ===== *)
theory ThreadEnd
  imports MutexProps
begin

text \<open>
  The end of a thread, src/thread.c and src/idle.c: exit, detachment, deletion, the control
  operation, and the idle thread with its hooks, which releases the ended threads.
\<close>

section \<open>Operations\<close>

definition rt_thread_defunct_enqueue :: "tid \<Rightarrow> kstate \<Rightarrow> kstate option" where
  "rt_thread_defunct_enqueue t s = tlist_insert_first t Defunct s"

definition rt_thread_defunct_dequeue :: "kstate \<Rightarrow> tid option \<times> kstate" where
  "rt_thread_defunct_dequeue s =
     (case k_lists s Defunct of
        [] \<Rightarrow> (None, s)
      | t # _ \<Rightarrow> (Some t, tlist_remove t s))"

definition thread_exit :: "kstate \<Rightarrow> kstate option" where
  "thread_exit s = do {
     t \<leftarrow> rt_thread_self s;
     s1 \<leftarrow> rt_timer_detach (ThreadTimer t) (rt_schedule_remove_thread t s);
     s2 \<leftarrow> rt_thread_defunct_enqueue t (upd_stat (\<lambda>_. RT_THREAD_CLOSE) t s1);
     rt_schedule s2
   }"

text \<open>
  The common part of \<^verbatim>\<open>rt_thread_detach\<close> and \<^verbatim>\<open>rt_thread_delete\<close>.  The pending object is a mutex
  as long as the mutex has not been detached or deleted.
\<close>

definition thread_close :: "tid \<Rightarrow> kstate \<Rightarrow> (rt_err_t \<times> kstate) option" where
  "thread_close t s =
     (if th_base s t = RT_THREAD_CLOSE then Some (RT_EOK, s)
      else do {
        let s1 = (if th_base s t \<noteq> RT_THREAD_INIT then rt_schedule_remove_thread t s else s);
        s2 \<leftarrow> rt_timer_detach (ThreadTimer t) s1;
        let s3 = upd_stat (\<lambda>_. RT_THREAD_CLOSE) t s2;
        s4 \<leftarrow> (case th_pending_object (k_thread s3 t) of
                 None \<Rightarrow> Some s3
               | Some n \<Rightarrow>
                   if mx_obj (k_mutex s3 n) then do {
                     s4 \<leftarrow> rt_mutex_drop_thread n t s3;
                     Some (upd_thread t (\<lambda>th. th\<lparr>th_pending_object := None\<rparr>) s4)
                   } else Some s3);
        s5 \<leftarrow> rt_thread_defunct_enqueue t s4;
        Some (RT_EOK, s5)
      })"

definition rt_thread_detach :: "tid \<Rightarrow> kstate \<Rightarrow> (rt_err_t \<times> kstate) option" where
  "rt_thread_detach t s = do {
     RT_ASSERT (th_obj (k_thread s t));
     RT_ASSERT (th_system (k_thread s t));
     thread_close t s
   }"

definition rt_thread_delete :: "tid \<Rightarrow> kstate \<Rightarrow> (rt_err_t \<times> kstate) option" where
  "rt_thread_delete t s = do {
     RT_ASSERT (th_obj (k_thread s t));
     RT_ASSERT (\<not> th_system (k_thread s t));
     thread_close t s
   }"

datatype thread_cmd = CTRL_STARTUP | CTRL_CLOSE | CTRL_CHANGE_PRIORITY nat | CTRL_UNKNOWN

definition rt_thread_control :: "tid \<Rightarrow> thread_cmd \<Rightarrow> kstate \<Rightarrow> (rt_err_t \<times> kstate) option" where
  "rt_thread_control t cmd s = do {
     RT_ASSERT (th_obj (k_thread s t));
     (case cmd of
        CTRL_CHANGE_PRIORITY priority \<Rightarrow> do {
          s1 \<leftarrow> thread_change_priority t priority s;
          Some (RT_EOK, s1)
        }
      | CTRL_STARTUP \<Rightarrow> rt_thread_startup t s
      | CTRL_CLOSE \<Rightarrow> do {
          (err, s1) \<leftarrow> (if th_system (k_thread s t) then rt_thread_detach t s else rt_thread_delete t s);
          s2 \<leftarrow> rt_schedule s1;
          Some (err, s2)
        }
      | CTRL_UNKNOWN \<Rightarrow> Some (RT_EOK, s))
   }"

text \<open>
  The loop of the idle thread over the ended threads.  The cleanup functions of the threads are
  a parameter; the result lists the threads whose stack and control block were given back to the
  heap.  (The release of signal handlers, a no-op for a thread without any, is left out.)
\<close>

partial_function (option) defunct_execute_loop ::
  "(tid \<Rightarrow> (kstate \<Rightarrow> kstate option) option) \<Rightarrow> tid list \<Rightarrow> kstate \<Rightarrow> (tid list \<times> kstate) option" where
  "defunct_execute_loop cleanup freed s =
     (case rt_thread_defunct_dequeue s of
        (None, s1) \<Rightarrow> Some (freed, s1)
      | (Some t, s1) \<Rightarrow>
          if th_system (k_thread s1 t) then do {
            let s2 = upd_thread t (\<lambda>th. th\<lparr>th_obj := False\<rparr>) s1;
            s3 \<leftarrow> (case cleanup t of None \<Rightarrow> Some s2 | Some f \<Rightarrow> f s2);
            defunct_execute_loop cleanup freed s3
          } else do {
            s3 \<leftarrow> (case cleanup t of None \<Rightarrow> Some s1 | Some f \<Rightarrow> f s1);
            defunct_execute_loop cleanup (freed @ [t]) (upd_thread t (\<lambda>th. th\<lparr>th_obj := False\<rparr>) s3)
          })"

definition rt_defunct_execute ::
  "(tid \<Rightarrow> (kstate \<Rightarrow> kstate option) option) \<Rightarrow> kstate \<Rightarrow> (tid list \<times> kstate) option" where
  "rt_defunct_execute cleanup s = defunct_execute_loop cleanup [] s"

text \<open>The table of idle hooks; \<^term>\<open>None\<close> is a NULL pointer, in the table and as argument.\<close>

abbreviation RT_ENOSYS :: rt_err_t where "RT_ENOSYS \<equiv> 6"

fun rt_thread_idle_sethook :: "nat option \<Rightarrow> nat option list \<Rightarrow> rt_err_t \<times> nat option list" where
  "rt_thread_idle_sethook hook [] = (- RT_EFULL, [])"
| "rt_thread_idle_sethook hook (h # hs) =
     (if h = None then (RT_EOK, hook # hs)
      else let (ret, hs') = rt_thread_idle_sethook hook hs in (ret, h # hs'))"

fun rt_thread_idle_delhook :: "nat option \<Rightarrow> nat option list \<Rightarrow> rt_err_t \<times> nat option list" where
  "rt_thread_idle_delhook hook [] = (- RT_ENOSYS, [])"
| "rt_thread_idle_delhook hook (h # hs) =
     (if h = hook then (RT_EOK, None # hs)
      else let (ret, hs') = rt_thread_idle_delhook hook hs in (ret, h # hs'))"

text \<open>One turn of the idle thread's loop; the hook functions and the power manager are parameters.\<close>

fun idle_hooks_call :: "(nat \<Rightarrow> kstate \<Rightarrow> kstate option) \<Rightarrow> nat option list \<Rightarrow> kstate \<Rightarrow> kstate option" where
  "idle_hooks_call call [] s = Some s"
| "idle_hooks_call call (h # hs) s =
     Option.bind (case h of None \<Rightarrow> Some s | Some f \<Rightarrow> call f s) (idle_hooks_call call hs)"

definition idle_thread_turn ::
  "(nat \<Rightarrow> kstate \<Rightarrow> kstate option) \<Rightarrow> (kstate \<Rightarrow> kstate option) \<Rightarrow>
   (tid \<Rightarrow> (kstate \<Rightarrow> kstate option) option) \<Rightarrow> nat option list \<Rightarrow> kstate \<Rightarrow> (tid list \<times> kstate) option" where
  "idle_thread_turn call power_manager cleanup hooks s = do {
     s1 \<leftarrow> idle_hooks_call call hooks s;
     (freed, s2) \<leftarrow> rt_defunct_execute cleanup s1;
     s3 \<leftarrow> power_manager s2;
     Some (freed, s3)
   }"

definition rt_thread_idle_init :: "(nat \<Rightarrow> nat) \<Rightarrow> tid \<Rightarrow> nat \<Rightarrow> kstate \<Rightarrow> kstate option" where
  "rt_thread_idle_init hw_stack_init idle_thread idle_thread_stack s = do {
     (_, s1) \<leftarrow> rt_thread_init hw_stack_init idle_thread idle_thread_stack 2048
                  (RT_THREAD_PRIORITY_MAX - 1) 32 s;
     (_, s2) \<leftarrow> rt_thread_startup idle_thread s1;
     Some s2
   }"


section \<open>Closing a thread\<close>

lemma timer_detach_ok:
  assumes inv: "timers_inv s" and obj: "tm_obj (k_timer s i)" "tm_system (k_timer s i)"
  obtains s' where "rt_timer_detach i s = Some s'" "timers_inv s'" "timer_frame {i} s s'"
    "\<not> tm_obj (k_timer s' i)" "tm_row (k_timer s' i) = None" "\<not> tm_activated (k_timer s' i)"
    "\<And>l. k_timers s' l = remove1 i (k_timers s l)"
proof -
  let ?s1 = "upd_timer i (flag_clear 1) (timer_remove i s)"
  let ?s2 = "upd_timer i (\<lambda>tm. tm\<lparr>tm_obj := False\<rparr>) ?s1"
  have inv1: "timers_inv ?s1" by (rule removed_timers_inv [OF inv])
  show thesis
  proof (rule that [of ?s2])
    show "rt_timer_detach i s = Some ?s2" using obj by (simp add: rt_timer_detach_def)
    show "timers_inv ?s2"
    proof (rule timers_inv_update [OF inv1, where i = i])
      show "timer_ok i (k_timer ?s1 i\<lparr>tm_obj := False\<rparr>)"
        using timers_invD(1) [OF inv1, of i] by (auto simp: timer_ok_def split: tmid.splits)
      show "set (k_timers ?s2 l) = set (k_timers ?s1 l) - {i}
          \<union> (if tm_row (k_timer ?s1 i\<lparr>tm_obj := False\<rparr>) = Some l then {i} else {})" for l
        using timers_invD(3) [OF inv1, of i l] by auto
    qed (use timers_invD(2) [OF inv1] in auto)
    show "timer_frame {i} s ?s2" by (simp add: timer_frame_def objs_frame_def)
    show "k_timers ?s2 l = remove1 i (k_timers s l)" for l
      by (simp add: timer_remove_lists [OF inv])
  qed simp_all
qed

text \<open>What closing needs of a thread: it exists, and so does its timer.\<close>

definition closable :: "kstate \<Rightarrow> tid \<Rightarrow> bool" where
  "closable s t \<longleftrightarrow> th_obj (k_thread s t) \<and> tm_obj (k_timer s (ThreadTimer t))
     \<and> tm_system (k_timer s (ThreadTimer t))
     \<and> th_base s t \<in> {RT_THREAD_INIT, RT_THREAD_READY, RT_THREAD_SUSPEND, RT_THREAD_RUNNING}"

text \<open>The thread has left every list and its timer is gone.\<close>

definition shut :: "tid \<Rightarrow> kstate \<Rightarrow> kstate option" where
  "shut t s = do {
     s2 \<leftarrow> rt_timer_detach (ThreadTimer t)
            (if th_base s t \<noteq> RT_THREAD_INIT then rt_schedule_remove_thread t s else s);
     Some (upd_stat (\<lambda>_. RT_THREAD_CLOSE) t s2)
   }"

lemma shut_ok:
  assumes inv: "kinv s" and c: "closable s t"
  obtains s' where "shut t s = Some s'" "kinv s'"
    "k_thread s' = (k_thread s)(t := k_thread s t\<lparr>th_tlist := None, th_stat := RT_THREAD_CLOSE\<rparr>)"
    "\<And>h. k_lists s' h = remove1 t (k_lists s h)" "objs_frame s s'" "k_current s' = k_current s"
    "k_tick s' = k_tick s" "k_lock_nest s' = k_lock_nest s" "k_irq_nest s' = k_irq_nest s"
    "\<And>i. i \<noteq> ThreadTimer t \<Longrightarrow> k_timer s' i = k_timer s i"
    "\<not> tm_obj (k_timer s' (ThreadTimer t))" "tm_row (k_timer s' (ThreadTimer t)) = None"
    "\<And>l. k_timers s' l = remove1 (ThreadTimer t) (k_timers s l)"
proof -
  note c' = c [unfolded closable_def]
  have q: "queue_inv s" using kinvD(6) [OF inv] .
  note ok = queue_invD(1) [OF q, of t]
  define s1 where "s1 = (if th_base s t \<noteq> RT_THREAD_INIT then rt_schedule_remove_thread t s else s)"
  have s1: "k_thread s1 = (k_thread s)(t := k_thread s t\<lparr>th_tlist := None\<rparr>)"
    "k_lists s1 h = remove1 t (k_lists s h)" "k_current s1 = k_current s"
    "queue_inv (upd_stat (\<lambda>_. RT_THREAD_CLOSE) t s1)" for h
  proof -
    have "k_thread s1 = (k_thread s)(t := k_thread s t\<lparr>th_tlist := None\<rparr>)
        \<and> (\<forall>h. k_lists s1 h = remove1 t (k_lists s h)) \<and> k_current s1 = k_current s
        \<and> queue_inv (upd_stat (\<lambda>_. RT_THREAD_CLOSE) t s1)"
    proof (cases "th_base s t = RT_THREAD_INIT")
      case True
      then have l: "th_tlist (k_thread s t) = None" using ok by (auto simp: thread_ok_def split: option.splits)
      have "queue_inv (upd_stat (\<lambda>_. RT_THREAD_CLOSE) t s)"
        unfolding upd_stat_def using l thread_ok_prio [OF ok]
        by (intro queue_inv_thread [OF q]) (simp_all add: thread_ok_def)
      moreover have "k_thread s t\<lparr>th_tlist := None\<rparr> = k_thread s t" using l by (cases "k_thread s t") simp
      moreover have "remove1 t (k_lists s h) = k_lists s h" for h
        using queue_inv_member [OF q, of t h] l by (simp add: remove1_idem)
      ultimately show ?thesis using True by (simp add: s1_def)
    next
      case False
      then have b: "th_base s t \<in> {RT_THREAD_READY, RT_THREAD_SUSPEND, RT_THREAD_RUNNING}" using c' by auto
      have "queue_inv (upd_stat (\<lambda>_. RT_THREAD_CLOSE) t (rt_schedule_remove_thread t s))"
        by (rule removed_queue_inv [OF q b]) simp
      then show ?thesis using False remove_thread_eq(2-4) [OF q b] by (simp add: s1_def)
    qed
    then show "k_thread s1 = (k_thread s)(t := k_thread s t\<lparr>th_tlist := None\<rparr>)"
      "k_lists s1 h = remove1 t (k_lists s h)" "k_current s1 = k_current s"
      "queue_inv (upd_stat (\<lambda>_. RT_THREAD_CLOSE) t s1)" by blast+
  qed
  have rest: "k_timer s1 = k_timer s" "k_timers s1 = k_timers s" "objs_frame s s1" "k_tick s1 = k_tick s"
    "k_lock_nest s1 = k_lock_nest s" "k_irq_nest s1 = k_irq_nest s"
    by (simp_all add: s1_def objs_frame_def)
  have tms: "timers_inv s1" using kinvD(2) [OF inv] timers_inv_cong [OF rest(1,2)] by simp
  obtain s2 where s2: "rt_timer_detach (ThreadTimer t) s1 = Some s2" "timers_inv s2"
    "timer_frame {ThreadTimer t} s1 s2" "\<not> tm_obj (k_timer s2 (ThreadTimer t))"
    "tm_row (k_timer s2 (ThreadTimer t)) = None" "\<not> tm_activated (k_timer s2 (ThreadTimer t))"
    "\<And>l. k_timers s2 l = remove1 (ThreadTimer t) (k_timers s1 l)"
    by (rule timer_detach_ok [OF tms, of "ThreadTimer t"]) (use c' rest in auto)
  note f = timer_frameD [OF s2(3)]
  let ?s3 = "upd_stat (\<lambda>_. RT_THREAD_CLOSE) t s2"
  have q3: "queue_inv ?s3"
    using s1(4) queue_inv_cong [of ?s3 "upd_stat (\<lambda>_. RT_THREAD_CLOSE) t s1"] f(2-4) by simp
  have "run_ok ?s3"
    using sched_invD(2) [OF kinvD(1) [OF inv]] s1(1,3) f(2,5) by (auto simp: run_ok_def)
  then have si: "sched_inv ?s3" using q3 by (simp add: sched_inv_def)
  have ti: "timers_inv ?s3" using s2(2) timers_inv_cong [of ?s3 s2] by simp
  have "kinv ?s3"
  proof (rule kinv_update [OF inv si ti, where t = t])
    show "k_thread ?s3 u = k_thread s u" if "u \<noteq> t" for u using that f(2) s1(1) by simp
    show "k_timer ?s3 (ThreadTimer u) = k_timer s (ThreadTimer u)" if "u \<noteq> t" for u
      using that f(9) [of "ThreadTimer u"] rest(1) by simp
  qed (use s2(5) in simp_all)
  moreover have "shut t s = Some ?s3" unfolding shut_def s1_def [symmetric] by (simp add: s2(1))
  moreover have "objs_frame s ?s3" using f(1) rest(3) by (simp add: objs_frame_def)
  moreover have "k_timer ?s3 i = k_timer s i" if "i \<noteq> ThreadTimer t" for i
    using that f(9) [of i] rest(1) by simp
  moreover have "k_thread ?s3 = (k_thread s)(t := k_thread s t\<lparr>th_tlist := None, th_stat := RT_THREAD_CLOSE\<rparr>)"
    by (simp add: f(2) s1(1))
  ultimately show thesis
    by (intro that [of ?s3]) (simp_all add: f(3,5-8) s1(2,3) rest(2,4-6) s2(4,5,7))
qed

lemma enqueue_ok:
  assumes inv: "kinv s" and t: "th_base s t = RT_THREAD_CLOSE" "th_tlist (k_thread s t) = None"
  obtains s' where "rt_thread_defunct_enqueue t s = Some s'" "kinv s'"
    "k_thread s' = (k_thread s)(t := k_thread s t\<lparr>th_tlist := Some Defunct\<rparr>)"
    "k_lists s' = (k_lists s)(Defunct := t # k_lists s Defunct)"
    "k_timer s' = k_timer s" "k_timers s' = k_timers s" "objs_frame s s'" "k_current s' = k_current s"
    "k_tick s' = k_tick s" "k_lock_nest s' = k_lock_nest s" "k_irq_nest s' = k_irq_nest s"
proof -
  let ?s' = "upd_thread t (th_tlist_update (\<lambda>_. Some Defunct)) s
      \<lparr>k_lists := (k_lists s)(Defunct := t # k_lists s Defunct)\<rparr>"
  have q: "queue_inv s" using kinvD(6) [OF inv] .
  have out: "t \<notin> set (k_lists s h)" for h using queue_inv_member [OF q, of t h] t(2) by simp
  have qi: "queue_inv ?s'"
  proof (rule queue_inv_update [OF q])
    show "thread_ok (k_thread s t\<lparr>th_tlist := Some Defunct\<rparr>)"
      using thread_ok_prio [OF queue_invD(1) [OF q, of t]] t by (simp add: thread_ok_def)
    show "bit (k_group ?s') p \<longleftrightarrow> k_lists ?s' (Ready p) \<noteq> []" for p
      using queue_inv_group [OF q, of p] by simp
    show "set (k_lists ?s' h) = set (k_lists s h) - {t}
        \<union> (if th_tlist (k_thread s t\<lparr>th_tlist := Some Defunct\<rparr>) = Some h then {t} else {})" for h
      using out [of h] by auto
  qed (use queue_inv_distinct [OF q] out in auto)
  have "run_ok ?s'"
    using sched_invD(2) [OF kinvD(1) [OF inv]] by (auto simp: run_ok_def)
  then have si: "sched_inv ?s'" using qi by (simp add: sched_inv_def)
  have ti: "timers_inv ?s'" using kinvD(2) [OF inv] timers_inv_cong [of ?s' s] by simp
  have "kinv ?s'"
    by (rule kinv_update [OF inv si ti, where t = t])
      (use t kinvD(3) [OF inv] in \<open>auto simp: timer_susp_def\<close>)
  then show thesis
    using that [of ?s'] t
    by (simp add: rt_thread_defunct_enqueue_def tlist_insert_first_def tlist_link_def objs_frame_def)
qed

text \<open>Priority changes do not touch the list of ended threads.\<close>

lemma change_priority_defunct:
  assumes "kinv s" "thread_change_priority t p s = Some s'"
  shows "k_lists s' Defunct = k_lists s Defunct"
proof (cases "th_base s t = RT_THREAD_READY")
  case True
  then have l: "th_tlist (k_thread s t) = Some (Ready (th_prio s t))"
    using thread_ok_ready [OF queue_invD(1) [OF kinvD(6) [OF assms(1)], of t]] by simp
  have "k_lists (rt_schedule_remove_thread t s) Defunct = k_lists s Defunct"
    using l by (simp add: rt_schedule_remove_thread_def Let_def tlist_remove_def)
  then show ?thesis
    using assms(2) True
    by (auto simp: thread_change_priority_def rt_schedule_insert_thread_def tlist_insert_first_def
        tlist_insert_last_def tlist_link_def Let_def bind_eq_Some_conv split: if_splits)
next
  case False
  then show ?thesis using assms(2) by (auto simp: thread_change_priority_def bind_eq_Some_conv)
qed

lemma update_priority_eq:
  assumes inv: "kinv s" and obj: "th_obj (k_thread s t)" and p: "p < RT_THREAD_PRIORITY_MAX"
    and free: "chain_free s t"
  shows "thread_update_priority t p s = thread_change_priority t p s"
proof -
  obtain s' where s': "thread_change_priority t p s = Some s'" "th_base s' t = th_base s t"
    "th_core (k_thread s' t)
      = th_core (k_thread s t\<lparr>th_current_priority := p, th_number_mask := prio_mask p\<rparr>)"
    by (rule change_priority_ok [OF inv obj p]) blast
  show ?thesis
    using s'(1,2) th_core_simps [OF s'(3)] free
    by (simp add: thread_update_priority.simps [of t p s] chain_free_def split: option.splits)
qed

lemma restore_owner_defunct:
  assumes inv: "kinv s" and own: "mx_owner (k_mutex s n) = Some owner" and free: "chain_free s owner"
    and run: "mutex_restore_owner n t s = Some s'"
  shows "k_lists s' Defunct = k_lists s Defunct"
proof -
  let ?s1 = "mutex_update_priority n s"
  have s1: "k_thread ?s1 = k_thread s" "k_lists ?s1 = k_lists s" by (simp_all add: mutex_update_priority_def)
  have "s' = ?s1 \<or> (\<exists>p. thread_update_priority owner p ?s1 = Some s')"
    using run own by (auto simp: mutex_restore_owner_def Let_def split: if_splits)
  then show ?thesis
  proof
    assume "\<exists>p. thread_update_priority owner p ?s1 = Some s'"
    then obtain p where p: "thread_update_priority owner p ?s1 = Some s'" by blast
    then obtain s2 where s2: "thread_change_priority owner p ?s1 = Some s2"
      by (auto simp: thread_update_priority.simps [of owner p ?s1] bind_eq_Some_conv)
    have obj: "th_obj (k_thread ?s1 owner)" "p < RT_THREAD_PRIORITY_MAX"
      using s2 by (auto simp: thread_change_priority_def bind_eq_Some_conv)
    have "chain_free ?s1 owner" using free by (simp add: chain_free_def s1)
    moreover have "kinv ?s1" using inv by simp
    ultimately have "thread_update_priority owner p ?s1 = thread_change_priority owner p ?s1"
      using obj by (intro update_priority_eq)
    then show ?thesis using change_priority_defunct [of ?s1] inv p s1(2) by simp
  qed (simp add: s1)
qed

lemma restore_owner_base:
  assumes inv: "kinv s" and own: "mx_owner (k_mutex s n) = Some owner" and free: "chain_free s owner"
    and run: "mutex_restore_owner n t s = Some s'"
  shows "th_base s' u = th_base s u"
proof -
  let ?s1 = "mutex_update_priority n s"
  have s1: "k_thread ?s1 = k_thread s" by (simp add: mutex_update_priority_def)
  have "s' = ?s1 \<or> (\<exists>p. thread_update_priority owner p ?s1 = Some s')"
    using run own by (auto simp: mutex_restore_owner_def Let_def split: if_splits)
  then show ?thesis
  proof
    assume "\<exists>p. thread_update_priority owner p ?s1 = Some s'"
    then obtain p where p: "thread_update_priority owner p ?s1 = Some s'" by blast
    then have obj: "th_obj (k_thread ?s1 owner)" "p < RT_THREAD_PRIORITY_MAX"
      by (auto simp: thread_update_priority.simps [of owner p ?s1] thread_change_priority_def bind_eq_Some_conv)
    have "kinv ?s1" "chain_free ?s1 owner" using inv free by (simp_all add: chain_free_def s1)
    then obtain s2 where "thread_update_priority owner p ?s1 = Some s2" "\<And>u. th_base s2 u = th_base ?s1 u"
      using update_priority_ok [OF _ obj] by metis
    then show ?thesis using p s1 by simp
  qed (simp add: s1)
qed

text \<open>A thread that waits for no mutex, and one that waits for a mutex of the invariant.\<close>

lemma thread_close_shut:
  assumes "closable s t" "shut t s = Some s3"
  shows "thread_close t s = do {
     s4 \<leftarrow> (case th_pending_object (k_thread s3 t) of
              None \<Rightarrow> Some s3
            | Some n \<Rightarrow>
                if mx_obj (k_mutex s3 n) then do {
                  s4 \<leftarrow> rt_mutex_drop_thread n t s3;
                  Some (upd_thread t (\<lambda>th. th\<lparr>th_pending_object := None\<rparr>) s4)
                } else Some s3);
     s5 \<leftarrow> rt_thread_defunct_enqueue t s4;
     Some (RT_EOK, s5)
   }"
proof -
  have "th_base s t \<noteq> RT_THREAD_CLOSE" using assms(1) by (auto simp: closable_def)
  then show ?thesis
    using assms(2) by (auto simp: thread_close_def shut_def Let_def bind_eq_Some_conv)
qed

text \<open>
  What is left behind of a wait for a mutex.  A thread keeps the mutex as its pending object when
  it gives up waiting, so the mutex may be free by now, or owned by the thread itself.  The
  invariant follows one owner: an owner that in its turn waits for a mutex is left out.
\<close>

definition pending_stale :: "kstate \<Rightarrow> tid \<Rightarrow> bool" where
  "pending_stale s t \<longleftrightarrow>
     (case th_pending_object (k_thread s t) of
        None \<Rightarrow> False
      | Some n \<Rightarrow> mx_obj (k_mutex s n) \<and> mx_owner (k_mutex s n) = None)"

definition pending_plain :: "nat set \<Rightarrow> kstate \<Rightarrow> tid \<Rightarrow> bool" where
  "pending_plain N s t \<longleftrightarrow>
     (case th_pending_object (k_thread s t) of
        None \<Rightarrow> True
      | Some n \<Rightarrow> mx_obj (k_mutex s n) \<longrightarrow> n \<in> N
          \<and> (\<forall>owner. mx_owner (k_mutex s n) = Some owner \<and> owner \<noteq> t \<longrightarrow> chain_free s owner))"

lemma mutexes_ok_forget:
  assumes ok: "mutexes_ok N s" and out: "\<And>h. t \<notin> set (k_lists s h)"
  shows "mutexes_ok N (upd_thread t (\<lambda>th. th\<lparr>th_pending_object := None\<rparr>) s)"
proof -
  let ?s' = "upd_thread t (\<lambda>th. th\<lparr>th_pending_object := None\<rparr>) s"
  have th: "th_prio ?s' u = th_prio s u" "th_init_priority (k_thread ?s' u) = th_init_priority (k_thread s u)"
    "th_obj (k_thread ?s' u) = th_obj (k_thread s u)"
    "th_taken_object_list (k_thread ?s' u) = th_taken_object_list (k_thread s u)" for u by simp_all
  have pr: "th_prio ?s' = th_prio s" by (rule ext) (rule th(1))
  have eq: "th_pending_object (k_thread ?s' u) = th_pending_object (k_thread s u)"
    if "u \<in> set (k_lists s h)" for u h
    using that out [of h] by auto
  have m: "k_mutex ?s' = k_mutex s" "k_lists ?s' = k_lists s" by simp_all
  have "mutex_ok ?s' n" if "n \<in> N" for n
    using mutexes_okD(1) [OF ok that] eq [of _ "MutexQ n"] unfolding mutex_ok_def m pr th by auto
  moreover have "taken_ok N ?s' u" for u
    using mutexes_okD(2) [OF ok, of u] unfolding taken_ok_def m th .
  ultimately show ?thesis by (simp add: mutexes_ok_def)
qed

lemma thread_close_ok:
  assumes inv: "kinv s" and ok: "mutexes_ok N s" and c: "closable s t" and pend: "pending_plain N s t" and fresh: "\<not> pending_stale s t"
  obtains s' where "thread_close t s = Some (RT_EOK, s')" "kinv s'" "mutexes_ok N s'"
    "th_base s' t = RT_THREAD_CLOSE" "k_lists s' Defunct = t # k_lists s Defunct"
    "\<And>h. wait_queue h \<Longrightarrow> k_lists s' h = remove1 t (k_lists s h)" "k_current s' = k_current s"
    "\<not> tm_obj (k_timer s' (ThreadTimer t))" "\<And>l. ThreadTimer t \<notin> set (k_timers s' l)"
proof -
  obtain s3 where s3: "shut t s = Some s3" "kinv s3"
    "k_thread s3 = (k_thread s)(t := k_thread s t\<lparr>th_tlist := None, th_stat := RT_THREAD_CLOSE\<rparr>)"
    "\<And>h. k_lists s3 h = remove1 t (k_lists s h)" "objs_frame s s3" "k_current s3 = k_current s"
    "\<not> tm_obj (k_timer s3 (ThreadTimer t))" "tm_row (k_timer s3 (ThreadTimer t)) = None"
    by (rule shut_ok [OF inv c]) blast
  have m3: "k_mutex s3 = k_mutex s" using s3(5) by (simp add: objs_frame_def)
  have ok3: "mutexes_ok N s3"
    by (rule mutexes_ok_leave [OF ok, where t = t]) (simp_all add: m3 s3(3,4) mview_def)
  have base3: "th_base s3 t = RT_THREAD_CLOSE" "th_tlist (k_thread s3 t) = None" by (simp_all add: s3(3))
  have "t \<notin> set (k_lists s Defunct)"
    using queue_inv_member [OF kinvD(6) [OF inv], of t Defunct] queue_invD(1) [OF kinvD(6) [OF inv], of t] c
    by (auto simp: closable_def thread_ok_def)
  then have def3: "k_lists s3 Defunct = k_lists s Defunct" by (simp add: s3(4) remove1_idem)
  obtain s4 where s4: "(case th_pending_object (k_thread s3 t) of
              None \<Rightarrow> Some s3
            | Some n \<Rightarrow>
                if mx_obj (k_mutex s3 n) then do {
                  s4 \<leftarrow> rt_mutex_drop_thread n t s3;
                  Some (upd_thread t (\<lambda>th. th\<lparr>th_pending_object := None\<rparr>) s4)
                } else Some s3) = Some s4"
    "kinv s4" "mutexes_ok N s4" "th_base s4 t = RT_THREAD_CLOSE" "th_tlist (k_thread s4 t) = None"
    "\<And>h. wait_queue h \<Longrightarrow> k_lists s4 h = k_lists s3 h" "k_lists s4 Defunct = k_lists s Defunct"
    "k_timer s4 = k_timer s3" "k_current s4 = k_current s3"
  proof (cases "th_pending_object (k_thread s3 t) = None
      \<or> \<not> mx_obj (k_mutex s3 (the (th_pending_object (k_thread s3 t))))")
    case True
    then show thesis by (intro that [of s3]) (use s3 ok3 base3 def3 in \<open>auto split: option.splits\<close>)
  next
    case False
    then obtain n where n: "th_pending_object (k_thread s3 t) = Some n" "mx_obj (k_mutex s3 n)" by auto
    then obtain owner where own: "n \<in> N" "mx_owner (k_mutex s n) = Some owner" "owner \<noteq> t \<longrightarrow> chain_free s owner"
      using pend fresh by (auto simp: pending_plain_def pending_stale_def s3(3) m3)
    have own3: "mx_owner (k_mutex s3 n) = Some owner" "chain_free s3 owner"
      using own by (simp_all add: m3 chain_free_def s3(3))
    have "tlist_remove t s3 = s3" using base3(2) by (simp add: tlist_remove_def)
    then have drop: "rt_mutex_drop_thread n t s3 = mutex_restore_owner n t s3"
      by (simp add: rt_mutex_drop_thread_def)
    obtain s4 where s4: "mutex_restore_owner n t s3 = Some s4" "kinv s4" "mutexes_ok N s4"
      "\<And>u. u \<noteq> owner \<Longrightarrow> k_thread s4 u = k_thread s3 u" "\<And>h. wait_queue h \<Longrightarrow> k_lists s4 h = k_lists s3 h"
      "k_timer s4 = k_timer s3" "k_current s4 = k_current s3"
      by (rule restore_owner_ok [OF s3(2) ok3 own(1) own3, of t]) blast
    have base4: "th_base s4 t = RT_THREAD_CLOSE"
      using restore_owner_base [OF s3(2) own3 s4(1)] base3(1) by simp
    have def4: "k_lists s4 Defunct = k_lists s Defunct"
      using restore_owner_defunct [OF s3(2) own3 s4(1)] def3 by simp
    have "t \<notin> set (k_lists s4 Defunct)"
      using queue_inv_member [OF kinvD(6) [OF s3(2)], of t Defunct] base3(2) by (simp add: def4 def3)
    then have t4: "th_tlist (k_thread s4 t) = None"
      using queue_inv_member [OF kinvD(6) [OF s4(2)], of t Defunct]
        queue_invD(1) [OF kinvD(6) [OF s4(2)], of t] base4
      by (auto simp: thread_ok_def split: option.splits)
    let ?s5 = "upd_thread t (\<lambda>th. th\<lparr>th_pending_object := None\<rparr>) s4"
    show thesis
    proof (rule that [of ?s5])
      show "kinv ?s5" by (rule kinv_set_pending [OF s4(2)])
      have "t \<notin> set (k_lists s4 h)" for h
        using queue_inv_member [OF kinvD(6) [OF s4(2)], of t h] t4 by simp
      then show "mutexes_ok N ?s5" by (rule mutexes_ok_forget [OF s4(3)])
    qed (use n drop s4 t4 base4 def4 in simp_all)
  qed
  obtain s5 where s5: "rt_thread_defunct_enqueue t s4 = Some s5" "kinv s5"
    "k_thread s5 = (k_thread s4)(t := k_thread s4 t\<lparr>th_tlist := Some Defunct\<rparr>)"
    "k_lists s5 = (k_lists s4)(Defunct := t # k_lists s4 Defunct)"
    "k_timer s5 = k_timer s4" "objs_frame s4 s5" "k_current s5 = k_current s4"
    by (rule enqueue_ok [OF s4(2,4,5)]) blast
  have "mutexes_ok N s5 = mutexes_ok N s4"
  proof (rule mutexes_ok_cong)
    show "k_mutex s5 n = k_mutex s4 n" for n using s5(6) by (simp add: objs_frame_def)
    show "k_lists s5 (MutexQ n) = k_lists s4 (MutexQ n)" for n by (simp add: s5(4))
    show "mview (k_thread s5 u) = mview (k_thread s4 u)" for u by (simp add: s5(3) mview_def)
  qed
  then have ok5: "mutexes_ok N s5" using s4(3) by simp
  show thesis
  proof (rule that)
    show "thread_close t s = Some (RT_EOK, s5)"
      using s4(1) s5(1) by (simp add: thread_close_shut [OF c s3(1)])
    show "mutexes_ok N s5" by (rule ok5)
    show "k_lists s5 h = remove1 t (k_lists s h)" if "wait_queue h" for h
      using that s5(4) s4(6) [OF that] s3(4) by auto
    show "ThreadTimer t \<notin> set (k_timers s5 l)" for l
      using timers_invD(3) [OF kinvD(2) [OF s5(2)], of "ThreadTimer t" l] s5(5) s4(8) s3(8) by simp
  qed (use s5 s4 s3 in simp_all)
qed

text \<open>The exit of the running thread.\<close>

lemma thread_exit_ok:
  assumes inv: "kinv s" and cur: "k_current s = Some t" and c: "closable s t"
    and run: "th_base s t = RT_THREAD_RUNNING" and lock: "k_lock_nest s = 0"
    and ready: "th_base s u = RT_THREAD_READY"
  obtains s' where "thread_exit s = Some s'" "kinv s'" "th_base s' t = RT_THREAD_CLOSE"
    "k_lists s' Defunct = t # k_lists s Defunct" "runs_most_urgent s'"
proof -
  obtain s3 where s3: "shut t s = Some s3" "kinv s3"
    "k_thread s3 = (k_thread s)(t := k_thread s t\<lparr>th_tlist := None, th_stat := RT_THREAD_CLOSE\<rparr>)"
    "\<And>h. k_lists s3 h = remove1 t (k_lists s h)" "k_current s3 = k_current s" "k_lock_nest s3 = k_lock_nest s"
    by (rule shut_ok [OF inv c]) blast
  have base: "th_base s3 t = RT_THREAD_CLOSE" "th_tlist (k_thread s3 t) = None" by (simp_all add: s3(3))
  obtain s5 where s5: "rt_thread_defunct_enqueue t s3 = Some s5" "kinv s5"
    "k_thread s5 = (k_thread s3)(t := k_thread s3 t\<lparr>th_tlist := Some Defunct\<rparr>)"
    "k_lists s5 = (k_lists s3)(Defunct := t # k_lists s3 Defunct)" "k_current s5 = k_current s3"
    "k_lock_nest s5 = k_lock_nest s3"
    by (rule enqueue_ok [OF s3(2) base]) blast
  have cur5: "k_current s5 = Some t" using s5(5) s3(5) cur by simp
  obtain s' where s': "rt_schedule s5 = Some s'" "kinv s'" "sched_frame s5 s'"
    "k_lock_nest s5 = 0 \<Longrightarrow>
      th_base s5 t = RT_THREAD_RUNNING \<or> (\<exists>v. th_base s5 v = RT_THREAD_READY) \<Longrightarrow> runs_most_urgent s'"
    by (rule schedule_kinv [OF s5(2) cur5]) blast
  have u: "u \<noteq> t" using run ready by auto
  have "k_lists s Defunct = k_lists s3 Defunct"
    using queue_inv_member [OF kinvD(6) [OF inv], of t Defunct] queue_invD(1) [OF kinvD(6) [OF inv], of t] run
    by (auto simp: s3(4) remove1_idem thread_ok_def)
  moreover have "k_lists s' Defunct = k_lists s5 Defunct" by (rule sched_frameD(10) [OF s'(3)]) simp
  moreover have "k_thread s' t = k_thread s5 t"
    by (rule sched_frameD(8) [OF s'(3)]) (simp add: s5(3) base)
  moreover have "thread_exit s = Some s'"
    using s3(1) s5(1) s'(1) cur run
    by (auto simp: thread_exit_def shut_def rt_thread_self_def bind_eq_Some_conv)
  moreover have "th_base s5 u = RT_THREAD_READY" using u ready by (simp add: s5(3) s3(3))
  ultimately show thesis
    using that [of s'] s'(2,4) s5(3,4,6) base s3(6) lock by auto
qed


section \<open>Releasing the ended threads\<close>

text \<open>A cleanup function returns and leaves the ended threads and their list alone.\<close>

definition cleanup_quiet :: "(tid \<Rightarrow> (kstate \<Rightarrow> kstate option) option) \<Rightarrow> bool" where
  "cleanup_quiet cleanup \<longleftrightarrow>
     (\<forall>t f s. cleanup t = Some f \<longrightarrow>
        (\<exists>s'. f s = Some s' \<and> (kinv s \<longrightarrow> kinv s') \<and> k_lists s' Defunct = k_lists s Defunct
           \<and> (\<forall>u. th_base s u = RT_THREAD_CLOSE \<longrightarrow> k_thread s' u = k_thread s u)))"

lemma cleanup_step:
  assumes "cleanup_quiet cleanup" "kinv s"
  obtains s' where "(case cleanup t of None \<Rightarrow> Some s | Some f \<Rightarrow> f s) = Some s'" "kinv s'"
    "k_lists s' Defunct = k_lists s Defunct"
    "\<And>u. th_base s u = RT_THREAD_CLOSE \<Longrightarrow> k_thread s' u = k_thread s u"
proof (cases "cleanup t")
  case None
  then show thesis using that [of s] assms(2) by simp
next
  case (Some f)
  then obtain s' where "f s = Some s'" "kinv s \<longrightarrow> kinv s'" "k_lists s' Defunct = k_lists s Defunct"
    "\<forall>u. th_base s u = RT_THREAD_CLOSE \<longrightarrow> k_thread s' u = k_thread s u"
    using assms(1) unfolding cleanup_quiet_def by blast
  then show thesis using that [of s'] assms(2) Some by simp
qed

text \<open>One ended thread leaves the list.\<close>

lemma dequeue_ok:
  assumes inv: "kinv s" and q: "k_lists s Defunct = t # ts"
  shows "rt_thread_defunct_dequeue s = (Some t, tlist_remove t s)" "kinv (tlist_remove t s)"
    "k_lists (tlist_remove t s) Defunct = ts" "th_base s t = RT_THREAD_CLOSE"
proof -
  let ?s1 = "tlist_remove t s"
  have qi: "queue_inv s" using kinvD(6) [OF inv] .
  have l: "th_tlist (k_thread s t) = Some Defunct"
    using queue_inv_member [OF qi, of t Defunct] q by simp
  note ok = queue_invD(1) [OF qi, of t]
  show base: "th_base s t = RT_THREAD_CLOSE" using ok l by (auto simp: thread_ok_def)
  show "rt_thread_defunct_dequeue s = (Some t, ?s1)" using q by (simp add: rt_thread_defunct_dequeue_def)
  show "k_lists ?s1 Defunct = ts" using q by (simp add: tlist_remove_lists [OF qi])
  have "queue_inv ?s1"
  proof (rule queue_inv_update [OF qi])
    show "thread_ok (k_thread s t\<lparr>th_tlist := None\<rparr>)"
      using thread_ok_prio [OF ok] base by (simp add: thread_ok_def)
    show "bit (k_group ?s1) p \<longleftrightarrow> k_lists ?s1 (Ready p) \<noteq> []" for p
    proof -
      have "t \<notin> set (k_lists s (Ready p))" using queue_inv_member [OF qi, of t "Ready p"] l by simp
      then show ?thesis using queue_inv_group [OF qi, of p] by (simp add: tlist_remove_lists [OF qi] remove1_idem)
    qed
  qed (use queue_inv_distinct [OF qi] in \<open>auto simp: tlist_remove_lists [OF qi] distinct_remove1\<close>)
  moreover have "run_ok ?s1" using sched_invD(2) [OF kinvD(1) [OF inv]] by (auto simp: run_ok_def)
  ultimately have si: "sched_inv ?s1" by (simp add: sched_inv_def)
  have ti: "timers_inv ?s1" using kinvD(2) [OF inv] timers_inv_cong [of ?s1 s] by simp
  have tr: "tm_row (k_timer s (ThreadTimer t)) \<noteq> Some Timer_list"
    using kinvD(3) [OF inv] base by (auto simp: timer_susp_def)
  show "kinv ?s1"
    by (rule kinv_update [OF inv si ti, where t = t]) (use base tr in auto)
qed

lemma unregister_ok:
  assumes inv: "kinv s" and base: "th_base s t = RT_THREAD_CLOSE"
  shows "kinv (upd_thread t (\<lambda>th. th\<lparr>th_obj := False\<rparr>) s)"
proof -
  let ?s1 = "upd_thread t (\<lambda>th. th\<lparr>th_obj := False\<rparr>) s"
  have "thread_ok (k_thread s t\<lparr>th_obj := False\<rparr>) = thread_ok (k_thread s t)" by (rule thread_ok_cong) simp_all
  then have "queue_inv ?s1"
    by (intro queue_inv_thread [OF kinvD(6) [OF inv]]) (simp_all add: queue_invD(1) [OF kinvD(6) [OF inv]])
  moreover have "run_ok ?s1" using sched_invD(2) [OF kinvD(1) [OF inv]] by (auto simp: run_ok_def)
  ultimately have si: "sched_inv ?s1" by (simp add: sched_inv_def)
  have ti: "timers_inv ?s1" using kinvD(2) [OF inv] timers_inv_cong [of ?s1 s] by simp
  have tr: "tm_row (k_timer s (ThreadTimer t)) \<noteq> Some Timer_list"
    using kinvD(3) [OF inv] base by (auto simp: timer_susp_def)
  show ?thesis
    by (rule kinv_update [OF inv si ti, where t = t]) (use base tr in auto)
qed

lemma defunct_loop_ok:
  assumes "kinv s" "cleanup_quiet cleanup" "k_lists s Defunct = ts"
  shows "\<exists>s'. defunct_execute_loop cleanup freed s
      = Some (freed @ filter (\<lambda>t. \<not> th_system (k_thread s t)) ts, s')
    \<and> kinv s' \<and> k_lists s' Defunct = [] \<and> (\<forall>t \<in> set ts. \<not> th_obj (k_thread s' t))
    \<and> (\<forall>t. t \<notin> set ts \<longrightarrow> th_base s t = RT_THREAD_CLOSE \<longrightarrow> k_thread s' t = k_thread s t)"
  using assms
proof (induction ts arbitrary: s freed)
  case Nil
  then show ?case
    by (simp add: defunct_execute_loop.simps [of cleanup freed s] rt_thread_defunct_dequeue_def)
next
  case (Cons t ts)
  note d = dequeue_ok [OF Cons.prems(1,3)]
  let ?s1 = "tlist_remove t s"
  have dist: "t \<notin> set ts" using queue_inv_distinct [OF kinvD(6) [OF Cons.prems(1)], of Defunct] Cons.prems(3) by simp
  have b1: "th_base ?s1 t = RT_THREAD_CLOSE" using d(4) by simp
  have closed: "th_base s u = RT_THREAD_CLOSE" if "u \<in> set ts" for u
    using queue_inv_member [OF kinvD(6) [OF Cons.prems(1)], of u Defunct] Cons.prems(3) that
      queue_invD(1) [OF kinvD(6) [OF Cons.prems(1)], of u] by (auto simp: thread_ok_def)
  let ?off = "upd_thread t (\<lambda>th. th\<lparr>th_obj := False\<rparr>)"
  obtain s3 where s3: "defunct_execute_loop cleanup freed s
      = defunct_execute_loop cleanup (if th_system (k_thread s t) then freed else freed @ [t]) s3"
    "kinv s3" "k_lists s3 Defunct = ts" "\<not> th_obj (k_thread s3 t)" "th_base s3 t = RT_THREAD_CLOSE"
    "\<And>u. u \<noteq> t \<Longrightarrow> th_base s u = RT_THREAD_CLOSE \<Longrightarrow> k_thread s3 u = k_thread s u"
  proof (cases "th_system (k_thread s t)")
    case True
    obtain s2 where s2: "(case cleanup t of None \<Rightarrow> Some (?off ?s1) | Some f \<Rightarrow> f (?off ?s1)) = Some s2" "kinv s2"
      "k_lists s2 Defunct = k_lists (?off ?s1) Defunct"
      "\<And>u. th_base (?off ?s1) u = RT_THREAD_CLOSE \<Longrightarrow> k_thread s2 u = k_thread (?off ?s1) u"
      by (rule cleanup_step [OF Cons.prems(2) unregister_ok [OF d(2) b1], of t]) blast
    show thesis
    proof (rule that [of s2])
      show "defunct_execute_loop cleanup freed s
          = defunct_execute_loop cleanup (if th_system (k_thread s t) then freed else freed @ [t]) s2"
        using True s2(1) d(1) by (simp add: defunct_execute_loop.simps [of cleanup freed s])
    qed (use s2(2,3) s2(4) [of t] s2(4) d(3,4) in auto)
  next
    case False
    obtain s2 where s2: "(case cleanup t of None \<Rightarrow> Some ?s1 | Some f \<Rightarrow> f ?s1) = Some s2" "kinv s2"
      "k_lists s2 Defunct = k_lists ?s1 Defunct"
      "\<And>u. th_base ?s1 u = RT_THREAD_CLOSE \<Longrightarrow> k_thread s2 u = k_thread ?s1 u"
      by (rule cleanup_step [OF Cons.prems(2) d(2), of t]) blast
    have b2: "th_base s2 t = RT_THREAD_CLOSE" using s2(4) [OF b1] b1 by simp
    show thesis
    proof (rule that [of "?off s2"])
      show "defunct_execute_loop cleanup freed s
          = defunct_execute_loop cleanup (if th_system (k_thread s t) then freed else freed @ [t]) (?off s2)"
        using False s2(1) d(1) by (simp add: defunct_execute_loop.simps [of cleanup freed s])
      show "kinv (?off s2)" by (rule unregister_ok [OF s2(2) b2])
    qed (use s2(3) s2(4) b2 d(3) in auto)
  qed
  let ?freed = "if th_system (k_thread s t) then freed else freed @ [t]"
  obtain s' where s': "defunct_execute_loop cleanup ?freed s3
      = Some (?freed @ filter (\<lambda>u. \<not> th_system (k_thread s3 u)) ts, s')"
    "kinv s'" "k_lists s' Defunct = []" "\<forall>u \<in> set ts. \<not> th_obj (k_thread s' u)"
    "\<forall>u. u \<notin> set ts \<longrightarrow> th_base s3 u = RT_THREAD_CLOSE \<longrightarrow> k_thread s' u = k_thread s3 u"
    using Cons.IH [OF s3(2) Cons.prems(2) s3(3), of ?freed] by blast
  have same: "k_thread s3 u = k_thread s u" if "u \<in> set ts" for u
    using s3(6) [of u] closed [OF that] that dist by auto
  then have "filter (\<lambda>u. \<not> th_system (k_thread s3 u)) ts = filter (\<lambda>u. \<not> th_system (k_thread s u)) ts"
    by (intro filter_cong) simp_all
  moreover have "\<not> th_obj (k_thread s' t)" using s'(5) dist s3(4,5) by simp
  moreover have "k_thread s' u = k_thread s u" if "u \<notin> set (t # ts)" "th_base s u = RT_THREAD_CLOSE" for u
    using s'(5) s3(6) [of u] that by simp
  ultimately show ?case using s'(1-4) s3(1) by (intro exI [of _ s']) auto
qed

text \<open>Idle hooks: the first free entry is used, and removing a new hook restores the table.\<close>

lemma idle_sethook_full: "fst (rt_thread_idle_sethook hook hs) = - RT_EFULL \<longleftrightarrow> None \<notin> set hs"
  by (induction hs) (auto split: prod.splits)

lemma idle_sethook_delhook:
  assumes "rt_thread_idle_sethook (Some f) hs = (RT_EOK, hs')" "Some f \<notin> set hs"
  shows "rt_thread_idle_delhook (Some f) hs' = (RT_EOK, hs)"
  using assms by (induction hs arbitrary: hs') (auto split: if_splits prod.splits)


section \<open>Properties\<close>

text \<open>
  A stale reference to a mutex.  A thread that once gave up waiting for a mutex keeps it as
  its pending object; when the mutex is free, detaching or deleting the thread reads the priority
  of an owner that is not there.
\<close>

lemma thread_close_stale_mutex_fails:
  assumes "kinv s" "closable s t" "pending_stale s t"
  shows "thread_close t s = None"
proof -
  obtain n where n: "th_pending_object (k_thread s t) = Some n" "mx_obj (k_mutex s n)" "mx_owner (k_mutex s n) = None"
    using assms(3) by (auto simp: pending_stale_def split: option.splits)
  obtain s3 where s3: "shut t s = Some s3"
    "k_thread s3 = (k_thread s)(t := k_thread s t\<lparr>th_tlist := None, th_stat := RT_THREAD_CLOSE\<rparr>)"
    "objs_frame s s3"
    by (rule shut_ok [OF assms(1,2)]) blast
  have "mx_owner (k_mutex (tlist_remove t s3) n) = None" using s3(3) n(3) by (simp add: objs_frame_def)
  then have "rt_mutex_drop_thread n t s3 = None"
    by (simp add: rt_mutex_drop_thread_def mutex_restore_owner_def)
  then show ?thesis
    using n(1,2) s3(2,3) by (simp add: thread_close_shut [OF assms(2) s3(1)] objs_frame_def)
qed

text \<open>
  C16: detaching or deleting a thread.  A thread in any state (initialised, ready, running or
  waiting for anything) leaves the ready queue, the wait queue and the timer list it is in and
  becomes the first of the ended threads, and all invariants are kept, those of the mutexes
  included.  The one exception is a fault of the program: when the thread still refers to a mutex
  it once gave up waiting for and the mutex has no owner now, the call does not return.  Threads
  whose mutex is owned by a thread that itself waits for a further mutex are not covered.
\<close>

theorem thread_close_unlinks:
  assumes "kinv s" "mutexes_ok N s" "closable s t" "pending_plain N s t"
  shows "if pending_stale s t
     then (if th_system (k_thread s t) then rt_thread_detach t s else rt_thread_delete t s) = None
     else \<exists>s'. (if th_system (k_thread s t) then rt_thread_detach t s else rt_thread_delete t s) = Some (RT_EOK, s')
     \<and> kinv s' \<and> mutexes_ok N s' \<and> th_base s' t = RT_THREAD_CLOSE
     \<and> k_lists s' Defunct = t # k_lists s Defunct
     \<and> (\<forall>h. wait_queue h \<longrightarrow> k_lists s' h = remove1 t (k_lists s h))
     \<and> (\<forall>p. t \<notin> set (k_lists s' (Ready p)))
     \<and> (\<forall>l. ThreadTimer t \<notin> set (k_timers s' l))"
proof (cases "pending_stale s t")
  case True
  then show ?thesis
    using thread_close_stale_mutex_fails [OF assms(1,3)]
    by (simp add: rt_thread_detach_def rt_thread_delete_def)
next
  case False
  obtain s' where s': "thread_close t s = Some (RT_EOK, s')" "kinv s'" "mutexes_ok N s'"
    "th_base s' t = RT_THREAD_CLOSE" "k_lists s' Defunct = t # k_lists s Defunct"
    "\<And>h. wait_queue h \<Longrightarrow> k_lists s' h = remove1 t (k_lists s h)"
    "\<And>l. ThreadTimer t \<notin> set (k_timers s' l)"
    by (rule thread_close_ok [OF assms False]) blast
  have "th_obj (k_thread s t)" using assms(3) by (simp add: closable_def)
  moreover have "t \<notin> set (k_lists s' (Ready p))" for p
    using ready_queue_member(1) [OF kinvD(6) [OF s'(2)], of t p] s'(4) by auto
  ultimately show ?thesis
    using s' False by (simp add: rt_thread_detach_def rt_thread_delete_def)
qed

text \<open>
  Thread 4, waiting for mutex 0 of thread 0, is detached; thread 7 sleeps, it had given up waiting
  for mutex 1, which is free now.
\<close>

theorem thread_close_unlinks_witness:
  "(\<exists>s'. rt_thread_detach 4 owner_sample = Some (RT_EOK, s') \<and> k_lists s' (MutexQ 0) = []
      \<and> k_lists s' Defunct = [4] \<and> mutexes_ok {0} s')
   \<and> rt_thread_detach 7 (upd_thread 7 (\<lambda>th. th\<lparr>th_pending_object := Some 1\<rparr>) k_sample) = None"
proof -
  have "closable owner_sample 4"
    by (simp add: closable_def) (simp add: owner_sample_def timers_sample_def)
  moreover have "pending_plain {0} owner_sample 4" "\<not> pending_stale owner_sample 4"
    by (simp_all add: pending_plain_def pending_stale_def chain_free_def)
  ultimately obtain s' where s': "rt_thread_detach 4 owner_sample = Some (RT_EOK, s')" "mutexes_ok {0} s'"
    "k_lists s' Defunct = 4 # k_lists owner_sample Defunct"
    "\<forall>h. wait_queue h \<longrightarrow> k_lists s' h = remove1 4 (k_lists owner_sample h)"
    using thread_close_unlinks [OF owner_sample_facts(1,2), of 4] by auto
  have "k_lists owner_sample Defunct = []" by (simp add: lists_sample_def)
  then have first: "\<exists>s'. rt_thread_detach 4 owner_sample = Some (RT_EOK, s') \<and> k_lists s' (MutexQ 0) = []
      \<and> k_lists s' Defunct = [4] \<and> mutexes_ok {0} s'" using s' by auto
  let ?s = "upd_thread 7 (\<lambda>th. th\<lparr>th_pending_object := Some 1\<rparr>) k_sample"
  have "kinv ?s" by (rule kinv_set_pending [OF kinv_sample])
  moreover have "closable ?s 7" by (simp add: closable_def timers_sample_def)
  moreover have "pending_stale ?s 7" by (simp add: pending_stale_def sample_mutex)
  ultimately have "thread_close 7 ?s = None" by (rule thread_close_stale_mutex_fails)
  then have "rt_thread_detach 7 ?s = None" by (simp add: rt_thread_detach_def)
  then show ?thesis using first by blast
qed

text \<open>
  C17: the idle thread releases the ended threads.  The loop ends with an empty list; the threads
  that were created dynamically are given back to the heap exactly once and in order, and none of
  the ended threads is a registered object any more.
\<close>

theorem defunct_execute_releases_all:
  assumes "kinv s" "cleanup_quiet cleanup"
  shows "\<exists>s'. rt_defunct_execute cleanup s
        = Some (filter (\<lambda>t. \<not> th_system (k_thread s t)) (k_lists s Defunct), s')
     \<and> kinv s' \<and> k_lists s' Defunct = [] \<and> (\<forall>t \<in> set (k_lists s Defunct). \<not> th_obj (k_thread s' t))"
  using defunct_loop_ok [OF assms refl, of "[]"] by (auto simp: rt_defunct_execute_def)

text \<open>Thread 7 was created dynamically and is deleted while it sleeps.\<close>

theorem defunct_execute_releases_all_witness:
  "\<exists>s s'. shut 7 (upd_thread 7 (\<lambda>th. th\<lparr>th_system := False\<rparr>) k_sample) \<bind> rt_thread_defunct_enqueue 7 = Some s
     \<and> rt_defunct_execute (\<lambda>_. None) s = Some ([7], s') \<and> \<not> th_obj (k_thread s' 7)"
proof -
  let ?s = "upd_thread 7 (\<lambda>th. th\<lparr>th_system := False\<rparr>) k_sample"
  have inv: "kinv ?s" by (rule kinv_upd_thread [OF kinv_sample]) (simp_all add: scheduler_stack_check_def)
  have c: "closable ?s 7" by (simp add: closable_def timers_sample_def)
  obtain s3 where s3: "shut 7 ?s = Some s3" "kinv s3"
    "k_thread s3 = (k_thread ?s)(7 := k_thread ?s 7\<lparr>th_tlist := None, th_stat := RT_THREAD_CLOSE\<rparr>)"
    "\<And>h. k_lists s3 h = remove1 7 (k_lists ?s h)"
    by (rule shut_ok [OF inv c]) blast
  have b: "th_base s3 7 = RT_THREAD_CLOSE" "th_tlist (k_thread s3 7) = None" by (simp_all add: s3(3))
  obtain s where s: "rt_thread_defunct_enqueue 7 s3 = Some s" "kinv s"
    "k_thread s = (k_thread s3)(7 := k_thread s3 7\<lparr>th_tlist := Some Defunct\<rparr>)"
    "k_lists s = (k_lists s3)(Defunct := 7 # k_lists s3 Defunct)"
    by (rule enqueue_ok [OF s3(2) b]) blast
  have "k_lists s Defunct = [7]" by (simp add: s(4) s3(4) lists_sample_def)
  moreover have "\<not> th_system (k_thread s 7)" by (simp add: s(3) s3(3))
  moreover have "cleanup_quiet (\<lambda>_. None)" by (simp add: cleanup_quiet_def)
  ultimately have "\<exists>s'. rt_defunct_execute (\<lambda>_. None) s = Some ([7], s') \<and> \<not> th_obj (k_thread s' 7)"
    using defunct_execute_releases_all [OF s(2), of "\<lambda>_. None"] by auto
  then show ?thesis using s3(1) s(1) by auto
qed

end
