(* ===== verification/Event.thy ===== *)
theory Event
  imports Sem
begin

text \<open>
  Event sets of src/ipc.c: threads wait for all (AND) or any (OR) of a set of bits, and may clear
  the bits they receive.  A send walks the wait queue once and wakes every waiter whose
  condition holds at its turn.
\<close>

section \<open>Operations\<close>

abbreviation RT_EVENT_FLAG_AND :: rt_uint8_t where "RT_EVENT_FLAG_AND \<equiv> 1"
abbreviation RT_EVENT_FLAG_OR :: rt_uint8_t where "RT_EVENT_FLAG_OR \<equiv> 2"
abbreviation RT_EVENT_FLAG_CLEAR :: rt_uint8_t where "RT_EVENT_FLAG_CLEAR \<equiv> 4"

definition upd_event :: "nat \<Rightarrow> (rt_event \<Rightarrow> rt_event) \<Rightarrow> kstate \<Rightarrow> kstate" where
  "upd_event n f s = s\<lparr>k_event := (k_event s)(n := f (k_event s n))\<rparr>"

definition rt_event_init :: "nat \<Rightarrow> rt_uint8_t \<Rightarrow> kstate \<Rightarrow> (rt_err_t \<times> kstate) option" where
  "rt_event_init n flag s = do {
     RT_ASSERT (flag = 0 \<or> flag = 1);
     s1 \<leftarrow> object_init_check (ev_obj (k_event s n)) s;
     Some (RT_EOK, upd_event n (\<lambda>_. \<lparr>ev_obj = True, ev_system = True, ev_prio = (flag = 1),
                                   ev_set = 0\<rparr>) (ipc_object_init (EventQ n) s1))
   }"

definition rt_event_detach :: "nat \<Rightarrow> kstate \<Rightarrow> (rt_err_t \<times> kstate) option" where
  "rt_event_detach n s = do {
     RT_ASSERT (ev_obj (k_event s n));
     RT_ASSERT (ev_system (k_event s n));
     s1 \<leftarrow> ipc_list_resume_all (EventQ n) s;
     Some (RT_EOK, upd_event n (\<lambda>e. e\<lparr>ev_obj := False\<rparr>) s1)
   }"

definition rt_event_create ::
  "nat option \<Rightarrow> rt_uint8_t \<Rightarrow> kstate \<Rightarrow> (nat option \<times> kstate) option" where
  "rt_event_create obj flag s = do {
     RT_ASSERT (flag = 0 \<or> flag = 1);
     RT_ASSERT (k_irq_nest s = 0);
     (case obj of
        None \<Rightarrow> Some (None, s)
      | Some n \<Rightarrow> Some (Some n, upd_event n (\<lambda>_. \<lparr>ev_obj = True, ev_system = False,
                       ev_prio = (flag = 1), ev_set = 0\<rparr>) (ipc_object_init (EventQ n) s)))
   }"

definition rt_event_delete :: "nat \<Rightarrow> kstate \<Rightarrow> (rt_err_t \<times> kstate) option" where
  "rt_event_delete n s = do {
     RT_ASSERT (ev_obj (k_event s n));
     RT_ASSERT (\<not> ev_system (k_event s n));
     RT_ASSERT (k_irq_nest s = 0);
     s1 \<leftarrow> ipc_list_resume_all (EventQ n) s;
     Some (RT_EOK, upd_event n (\<lambda>e. e\<lparr>ev_obj := False\<rparr>) s1)
   }"

text \<open>Waking a waiter in \<^verbatim>\<open>rt_event_send\<close>: clear its bits on request, then resume it.\<close>

definition event_wake :: "nat \<Rightarrow> tid \<Rightarrow> kstate \<Rightarrow> kstate option" where
  "event_wake n t s =
     (let s1 = (if th_event_info (k_thread s t) AND RT_EVENT_FLAG_CLEAR \<noteq> 0
                then upd_event n (\<lambda>e. e\<lparr>ev_set := ev_set e AND NOT (th_event_set (k_thread s t))\<rparr>) s
                else s)
      in map_option snd (rt_thread_resume t s1))"

text \<open>
  The loop of \<^verbatim>\<open>rt_event_send\<close> over the queued threads; a waiter without a condition ends it.
  The flag is \<^verbatim>\<open>need_schedule\<close>.
\<close>

fun event_scan :: "nat \<Rightarrow> tid list \<Rightarrow> bool \<Rightarrow> kstate \<Rightarrow> (rt_err_t \<times> bool \<times> kstate) option" where
  "event_scan n [] need s = Some (RT_EOK, need, s)"
| "event_scan n (t # ts) need s =
     (let th = k_thread s t; e = ev_set (k_event s n) in
      if th_event_info th AND RT_EVENT_FLAG_AND \<noteq> 0 then
        (if th_event_set th AND e = th_event_set th
         then Option.bind (event_wake n t s) (event_scan n ts True)
         else event_scan n ts need s)
      else if th_event_info th AND RT_EVENT_FLAG_OR \<noteq> 0 then
        (if th_event_set th AND e \<noteq> 0
         then Option.bind (event_wake n t
                (upd_thread t (\<lambda>th. th\<lparr>th_event_set := th_event_set th AND e\<rparr>) s))
                (event_scan n ts True)
         else event_scan n ts need s)
      else Some (- RT_EINVAL, need, s))"

definition rt_event_send :: "nat \<Rightarrow> rt_uint32_t \<Rightarrow> kstate \<Rightarrow> (rt_err_t \<times> kstate) option" where
  "rt_event_send n bits s = do {
     RT_ASSERT (ev_obj (k_event s n));
     if bits = 0 then Some (- RT_ERROR, s)
     else do {
       let s1 = upd_event n (\<lambda>e. e\<lparr>ev_set := ev_set e OR bits\<rparr>) s;
       (r, need, s2) \<leftarrow> event_scan n (k_lists s1 (EventQ n)) False s1;
       if r \<noteq> RT_EOK then Some (r, s2)
       else do {
         s3 \<leftarrow> (if need then rt_schedule s2 else Some s2);
         Some (RT_EOK, s3)
       }
     }
   }"

text \<open>The result holds the error code and what was stored through \<^verbatim>\<open>recved\<close>, if anything.\<close>

definition rt_event_recv ::
  "nat \<Rightarrow> rt_uint32_t \<Rightarrow> rt_uint8_t \<Rightarrow> int \<Rightarrow> kstate
   \<Rightarrow> ((rt_err_t \<times> rt_uint32_t option) outcome \<times> kstate) option" where
  "rt_event_recv n bits flags timeout s = do {
     RT_ASSERT (ev_obj (k_event s n));
     debug_scheduler_available True s;
     if bits = 0 then Some (Returned (- RT_ERROR, None), s)
     else do {
       t \<leftarrow> rt_thread_self s;
       let s1 = upd_thread t (\<lambda>th. th\<lparr>th_error := RT_EOK\<rparr>) s;
       let e = ev_set (k_event s1 n);
       RT_ASSERT (flags AND RT_EVENT_FLAG_AND \<noteq> 0 \<or> flags AND RT_EVENT_FLAG_OR \<noteq> 0);
       if (if flags AND RT_EVENT_FLAG_AND \<noteq> 0 then e AND bits = bits else e AND bits \<noteq> 0)
       then do {
         let s2 = upd_thread t (\<lambda>th. th\<lparr>th_event_set := e AND bits, th_event_info := flags\<rparr>) s1;
         let s3 = (if flags AND RT_EVENT_FLAG_CLEAR \<noteq> 0
                   then upd_event n (\<lambda>ev. ev\<lparr>ev_set := ev_set ev AND NOT bits\<rparr>) s2 else s2);
         Some (Returned (RT_EOK, Some (e AND bits)), s3)
       }
       else if timeout = 0 then
         Some (Returned (- RT_ETIMEOUT, None), upd_thread t (\<lambda>th. th\<lparr>th_error := - RT_ETIMEOUT\<rparr>) s1)
       else do {
         let s2 = upd_thread t (\<lambda>th. th\<lparr>th_event_set := bits, th_event_info := flags\<rparr>) s1;
         s3 \<leftarrow> ipc_wait (EventQ n) (ev_prio (k_event s n)) t timeout s2;
         Some (Blocked, s3)
       }
     }
   }"

text \<open>The result of a receive that waited, when the thread runs again.\<close>

definition rt_event_recv_resume :: "tid \<Rightarrow> kstate \<Rightarrow> rt_err_t \<times> rt_uint32_t option" where
  "rt_event_recv_resume t s =
     (if th_error (k_thread s t) \<noteq> RT_EOK then (th_error (k_thread s t), None)
      else (th_error (k_thread s t), Some (th_event_set (k_thread s t))))"

definition rt_event_control :: "nat \<Rightarrow> bool \<Rightarrow> kstate \<Rightarrow> (rt_err_t \<times> kstate) option" where
  "rt_event_control n reset s = do {
     RT_ASSERT (ev_obj (k_event s n));
     if reset then do {
       s1 \<leftarrow> ipc_list_resume_all (EventQ n) s;
       s2 \<leftarrow> rt_schedule (upd_event n (\<lambda>e. e\<lparr>ev_set := 0\<rparr>) s1);
       Some (RT_EOK, s2)
     }
     else Some (- RT_ERROR, s)
   }"


section \<open>Specification\<close>

text \<open>A waiter's condition on the event set, the bits it receives, and what remains.\<close>

definition event_valid :: "rt_thread \<Rightarrow> bool" where
  "event_valid th \<longleftrightarrow> th_event_info th AND RT_EVENT_FLAG_AND \<noteq> 0
     \<or> th_event_info th AND RT_EVENT_FLAG_OR \<noteq> 0"

definition event_sat :: "rt_thread \<Rightarrow> rt_uint32_t \<Rightarrow> bool" where
  "event_sat th e \<longleftrightarrow> (if th_event_info th AND RT_EVENT_FLAG_AND \<noteq> 0
     then th_event_set th AND e = th_event_set th else th_event_set th AND e \<noteq> 0)"

definition event_taken :: "rt_thread \<Rightarrow> rt_uint32_t \<Rightarrow> rt_uint32_t" where
  "event_taken th e = th_event_set th AND e"

definition event_rest :: "rt_thread \<Rightarrow> rt_uint32_t \<Rightarrow> rt_uint32_t" where
  "event_rest th e = (if th_event_info th AND RT_EVENT_FLAG_CLEAR \<noteq> 0
     then e AND NOT (event_taken th e) else e)"

text \<open>Who is woken with which bits, who stays, and the event set in the end.\<close>

fun wake_spec :: "(tid \<Rightarrow> rt_thread) \<Rightarrow> rt_uint32_t \<Rightarrow> tid list
    \<Rightarrow> (tid \<times> rt_uint32_t) list \<times> tid list \<times> rt_uint32_t" where
  "wake_spec f e [] = ([], [], e)"
| "wake_spec f e (t # ts) =
     (if event_sat (f t) e
      then (case wake_spec f (event_rest (f t) e) ts of (w, k, e') \<Rightarrow> ((t, event_taken (f t) e) # w, k, e'))
      else (case wake_spec f e ts of (w, k, e') \<Rightarrow> (w, t # k, e')))"

lemma wake_spec_cong:
  "(\<And>t. t \<in> set ts \<Longrightarrow> f t = g t) \<Longrightarrow> wake_spec f e ts = wake_spec g e ts"
  by (induction ts arbitrary: e) simp_all

lemma wake_spec_set:
  "wake_spec f e ts = (w, k, e') \<Longrightarrow> fst ` set w \<union> set k = set ts \<and> (distinct ts \<longrightarrow> fst ` set w \<inter> set k = {})"
proof (induction ts arbitrary: e w k e')
  case (Cons t ts)
  show ?case
  proof (cases "event_sat (f t) e")
    case True
    then obtain w0 where w0: "wake_spec f (event_rest (f t) e) ts = (w0, k, e')"
        "w = (t, event_taken (f t) e) # w0"
      using Cons.prems by (auto split: prod.splits)
    show ?thesis using Cons.IH [OF w0(1)] w0(2) by auto
  next
    case False
    then obtain k0 where k0: "wake_spec f e ts = (w, k0, e')" "k = t # k0"
      using Cons.prems by (auto split: prod.splits)
    show ?thesis using Cons.IH [OF k0(1)] k0(2) by auto
  qed
qed simp

lemma sat_mono:
  assumes "e' AND e = e'" "event_sat th e'"
  shows "event_sat th e"
proof -
  let ?x = "th_event_set th"
  have eq: "?x AND e' = (?x AND e) AND e'" using assms(1) by (metis and.assoc and.commute)
  show ?thesis
  proof (cases "th_event_info th AND RT_EVENT_FLAG_AND \<noteq> 0")
    case True
    then have "?x AND e' = ?x" using assms(2) by (simp add: event_sat_def)
    then have "?x AND e = ?x" using assms(1) by (metis and.assoc)
    then show ?thesis using True by (simp add: event_sat_def)
  next
    case False
    then have "?x AND e' \<noteq> 0" using assms(2) by (simp add: event_sat_def)
    then have "?x AND e \<noteq> 0" using eq by auto
    then show ?thesis using False by (simp add: event_sat_def)
  qed
qed

lemma rest_sub: "event_rest th e AND e = event_rest th e"
  by (auto simp: event_rest_def and.assoc and.commute and.left_commute)

lemma wake_spec_sub: "wake_spec f e ts = (w, k, e') \<Longrightarrow> e' AND e = e'"
proof (induction ts arbitrary: e w k e')
  case (Cons t ts)
  show ?case
  proof (cases "event_sat (f t) e")
    case True
    then obtain w0 where "wake_spec f (event_rest (f t) e) ts = (w0, k, e')"
      using Cons.prems by (auto split: prod.splits)
    then have "e' AND event_rest (f t) e = e'" by (rule Cons.IH)
    then show ?thesis using rest_sub [of "f t" e] by (metis and.assoc)
  next
    case False
    then obtain k0 where "wake_spec f e ts = (w, k0, e')"
      using Cons.prems by (auto split: prod.splits)
    then show ?thesis by (rule Cons.IH)
  qed
qed simp

text \<open>Nobody who stays is satisfied by the final set.\<close>

lemma wake_spec_kept:
  "wake_spec f e ts = (w, k, e') \<Longrightarrow> t \<in> set k \<Longrightarrow> \<not> event_sat (f t) e'"
proof (induction ts arbitrary: e w k e')
  case (Cons u ts)
  show ?case
  proof (cases "event_sat (f u) e")
    case True
    then show ?thesis using Cons by (auto split: prod.splits)
  next
    case False
    then obtain k0 where k0: "wake_spec f e ts = (w, k0, e')" "k = u # k0"
      using Cons.prems by (auto split: prod.splits)
    show ?thesis
    proof (cases "t \<in> set k0")
      case True
      then show ?thesis by (rule Cons.IH [OF k0(1)])
    next
      case False
      then have "t = u" using Cons.prems(2) k0(2) by simp
      then show ?thesis
        using sat_mono [OF wake_spec_sub [OF k0(1)]] \<open>\<not> event_sat (f u) e\<close> by blast
    qed
  qed
qed simp


section \<open>The walk over the waiters\<close>

lemma upd_event_simps [simp]:
  "k_thread (upd_event n f s) = k_thread s" "k_lists (upd_event n f s) = k_lists s"
  "k_group (upd_event n f s) = k_group s" "k_current (upd_event n f s) = k_current s"
  "k_lock_nest (upd_event n f s) = k_lock_nest s" "k_irq_nest (upd_event n f s) = k_irq_nest s"
  "k_tick (upd_event n f s) = k_tick s" "k_timer (upd_event n f s) = k_timer s"
  "k_timers (upd_event n f s) = k_timers s"
  "k_event (upd_event n f s) = (k_event s)(n := f (k_event s n))"
  "k_sem (upd_event n f s) = k_sem s" "k_mutex (upd_event n f s) = k_mutex s"
  "k_mb (upd_event n f s) = k_mb s" "k_mq (upd_event n f s) = k_mq s" "k_mp (upd_event n f s) = k_mp s" "k_drv (upd_event n f s) = k_drv s"
  by (simp_all add: upd_event_def)

lemma kinv_upd_event [simp]: "kinv (upd_event n f s) = kinv s"
  by (rule kinv_cong) simp_all

lemma kinv_set_event:
  "kinv s \<Longrightarrow> kinv (upd_thread t (\<lambda>th. th\<lparr>th_event_set := g th, th_event_info := h th\<rparr>) s)"
  "kinv s \<Longrightarrow> kinv (upd_thread t (\<lambda>th. th\<lparr>th_event_set := g th\<rparr>) s)"
  by (rule kinv_upd_thread; simp add: scheduler_stack_check_def)+

text \<open>What a walk leaves alone.\<close>

definition event_frame :: "nat \<Rightarrow> kstate \<Rightarrow> kstate \<Rightarrow> bool" where
  "event_frame n s s' \<longleftrightarrow>
     k_sem s' = k_sem s \<and> k_mutex s' = k_mutex s \<and> k_mb s' = k_mb s \<and> k_mq s' = k_mq s
     \<and> (\<forall>m. m \<noteq> n \<longrightarrow> k_event s' m = k_event s m)
     \<and> ev_obj (k_event s' n) = ev_obj (k_event s n) \<and> ev_prio (k_event s' n) = ev_prio (k_event s n)
     \<and> k_tick s' = k_tick s \<and> k_current s' = k_current s \<and> k_lock_nest s' = k_lock_nest s
     \<and> k_irq_nest s' = k_irq_nest s
     \<and> (\<forall>u. (th_core (k_thread s' u))\<lparr>th_event_set := 0\<rparr> = (th_core (k_thread s u))\<lparr>th_event_set := 0\<rparr>)"

lemma event_frame_refl: "event_frame n s s"
  by (simp add: event_frame_def)

lemma event_frame_trans: "event_frame n s s' \<Longrightarrow> event_frame n s' s'' \<Longrightarrow> event_frame n s s''"
  by (simp add: event_frame_def)

lemma event_frame_thread:
  "event_frame n s s' \<Longrightarrow> th_error (k_thread s' u) = th_error (k_thread s u)
     \<and> th_event_info (k_thread s' u) = th_event_info (k_thread s u) \<and> th_prio s' u = th_prio s u"
proof -
  assume "event_frame n s s'"
  then have "(th_core (k_thread s' u))\<lparr>th_event_set := 0\<rparr> = (th_core (k_thread s u))\<lparr>th_event_set := 0\<rparr>"
    by (simp add: event_frame_def)
  then show ?thesis by (cases "k_thread s u"; cases "k_thread s' u") (simp add: th_core_def)
qed

text \<open>One satisfied waiter; the bits it receives are in its event set already or stored there.\<close>

lemma event_wake_ok:
  assumes inv: "kinv s" and t: "t \<in> set (k_lists s (EventQ n))"
    and r: "r = event_taken (k_thread s t) (ev_set (k_event s n))"
  obtains s' where "event_wake n t (upd_thread t (\<lambda>th. th\<lparr>th_event_set := r\<rparr>) s) = Some s'" "kinv s'"
    "th_base s' t \<in> {RT_THREAD_READY, RT_THREAD_RUNNING}" "th_event_set (k_thread s' t) = r"
    "\<And>g. wait_queue g \<Longrightarrow>
       k_lists s' g = (if g = EventQ n then remove1 t (k_lists s g) else k_lists s g)"
    "ev_set (k_event s' n) = event_rest (k_thread s t) (ev_set (k_event s n))"
    "\<And>u. u \<noteq> t \<Longrightarrow> k_thread s' u = k_thread s u" "event_frame n s s'"
proof -
  let ?s0 = "upd_thread t (\<lambda>th. th\<lparr>th_event_set := r\<rparr>) s"
  let ?s1 = "if th_event_info (k_thread ?s0 t) AND RT_EVENT_FLAG_CLEAR \<noteq> 0
     then upd_event n (\<lambda>e. e\<lparr>ev_set := ev_set e AND NOT (th_event_set (k_thread ?s0 t))\<rparr>) ?s0 else ?s0"
  have inv1: "kinv ?s1" using kinv_set_event(2) [OF inv] by (simp split: if_split)
  have same: "k_thread ?s1 = k_thread ?s0" "k_lists ?s1 = k_lists s" by simp_all
  have sus: "th_base ?s1 t = RT_THREAD_SUSPEND" using waiter(1) [OF inv t] unfolding same by simp
  obtain s' where s': "rt_thread_resume t ?s1 = Some (RT_EOK, s')" "kinv s'"
      "th_base s' t = (if k_current ?s1 = Some t then RT_THREAD_RUNNING else RT_THREAD_READY)"
      "\<And>g. wait_queue g \<Longrightarrow> k_lists s' g = remove1 t (k_lists ?s1 g)" "thread_frame {t} ?s1 s'"
    by (rule resume_ok [OF inv1 sus]) blast
  note fr = thread_frameD [OF s'(5)]
  have core: "th_core (k_thread s' u) = th_core (k_thread ?s0 u)" for u
    using fr(7) [of u] unfolding same .
  have obj: "objs_frame ?s1 s'" by (rule fr(1))
  show thesis
  proof (rule that)
    show "event_wake n t ?s0 = Some s'" using s'(1) by (simp add: event_wake_def Let_def)
    show "kinv s'" by (rule s'(2))
    show "th_base s' t \<in> {RT_THREAD_READY, RT_THREAD_RUNNING}" using s'(3) by simp
    show "th_event_set (k_thread s' t) = r" using th_core_simps [OF core [of t]] by simp
    show "k_lists s' g = (if g = EventQ n then remove1 t (k_lists s g) else k_lists s g)"
      if "wait_queue g" for g
      using s'(4) [OF that] waiter_one_queue [OF inv t, of g] unfolding same
      by (auto simp: remove1_idem)
    show "ev_set (k_event s' n) = event_rest (k_thread s t) (ev_set (k_event s n))"
      using obj r by (auto simp: objs_frame_def event_rest_def split: if_splits)
    show "k_thread s' u = k_thread s u" if "u \<noteq> t" for u
      using fr(6) [of u] that unfolding same by simp
    have "(th_core (k_thread s' u))\<lparr>th_event_set := 0\<rparr> = (th_core (k_thread s u))\<lparr>th_event_set := 0\<rparr>" for u
      using core [of u] by (auto simp: th_core_def)
    then show "event_frame n s s'"
      using obj fr(2-5) by (auto simp: event_frame_def objs_frame_def split: if_splits)
  qed
qed


text \<open>A step of the walk.\<close>

lemma event_scan_step:
  assumes "event_valid (k_thread s t)"
  shows "event_scan n (t # ts) need s =
     (if event_sat (k_thread s t) (ev_set (k_event s n))
      then Option.bind (event_wake n t (upd_thread t (\<lambda>th. th\<lparr>th_event_set :=
             event_taken (k_thread s t) (ev_set (k_event s n))\<rparr>) s)) (event_scan n ts True)
      else event_scan n ts need s)"
proof -
  let ?th = "k_thread s t" and ?e = "ev_set (k_event s n)"
  have idem: "upd_thread t (\<lambda>th. th\<lparr>th_event_set := event_taken ?th ?e\<rparr>) s = s"
    if "th_event_set ?th AND ?e = th_event_set ?th"
  proof -
    have "?th\<lparr>th_event_set := event_taken ?th ?e\<rparr> = ?th" using that by (simp add: event_taken_def)
    then show ?thesis by (simp add: upd_thread_def)
  qed
  have upd: "upd_thread t (\<lambda>th. th\<lparr>th_event_set := th_event_set th AND ?e\<rparr>) s
      = upd_thread t (\<lambda>th. th\<lparr>th_event_set := event_taken ?th ?e\<rparr>) s"
    by (simp add: upd_thread_def event_taken_def)
  show ?thesis
    using assms idem upd by (auto simp: event_sat_def event_valid_def Let_def)
qed

text \<open>The walk does what the specification says.\<close>

lemma event_scan_ok:
  assumes "kinv s" "k_lists s (EventQ n) = ks @ ts" "\<And>t. t \<in> set ts \<Longrightarrow> event_valid (k_thread s t)"
    and "wake_spec (k_thread s) (ev_set (k_event s n)) ts = (w, k, e')"
  shows "\<exists>s'. event_scan n ts need s = Some (RT_EOK, need \<or> w \<noteq> [], s') \<and> kinv s'
      \<and> (\<forall>g. wait_queue g \<longrightarrow> k_lists s' g = (if g = EventQ n then ks @ k else k_lists s g))
      \<and> ev_set (k_event s' n) = e'
      \<and> (\<forall>t r. (t, r) \<in> set w \<longrightarrow> th_base s' t \<in> {RT_THREAD_READY, RT_THREAD_RUNNING}
            \<and> th_event_set (k_thread s' t) = r)
      \<and> (\<forall>u. u \<notin> fst ` set w \<longrightarrow> k_thread s' u = k_thread s u) \<and> event_frame n s s'"
  using assms
proof (induction ts arbitrary: s ks need w k e')
  case Nil
  then show ?case by (intro exI [of _ s]) (auto simp: event_frame_refl)
next
  case (Cons t ts)
  let ?th = "k_thread s t" and ?e = "ev_set (k_event s n)"
  have t: "t \<in> set (k_lists s (EventQ n))" using Cons.prems(2) by simp
  have dist: "distinct (ks @ t # ts)"
    using queue_inv_distinct [OF kinvD(6) [OF Cons.prems(1)], of "EventQ n"] Cons.prems(2) by simp
  note step = event_scan_step [OF Cons.prems(3) [of t, simplified], of n ts need]
  show ?case
  proof (cases "event_sat ?th ?e")
    case False
    then obtain k0 where k0: "wake_spec (k_thread s) ?e ts = (w, k0, e')" "k = t # k0"
      using Cons.prems(4) by (auto split: prod.splits)
    have q: "k_lists s (EventQ n) = (ks @ [t]) @ ts" using Cons.prems(2) by simp
    have valid: "event_valid (k_thread s u)" if "u \<in> set ts" for u using Cons.prems(3) that by simp
    have eq: "event_scan n (t # ts) need s = event_scan n ts need s" "ks @ k = (ks @ [t]) @ k0"
      using step False k0(2) by (simp_all only: if_False append.simps append_assoc)
    show ?thesis
      unfolding eq by (rule Cons.IH [OF Cons.prems(1) q valid k0(1)])
  next
    case True
    let ?r = "event_taken ?th ?e"
    obtain w0 where w0: "wake_spec (k_thread s) (event_rest ?th ?e) ts = (w0, k, e')" "w = (t, ?r) # w0"
      using Cons.prems(4) True by (auto split: prod.splits)
    obtain s1 where s1: "event_wake n t (upd_thread t (\<lambda>th. th\<lparr>th_event_set := ?r\<rparr>) s) = Some s1"
        "kinv s1" "th_base s1 t \<in> {RT_THREAD_READY, RT_THREAD_RUNNING}"
        "th_event_set (k_thread s1 t) = ?r"
        "\<And>g. wait_queue g \<Longrightarrow>
           k_lists s1 g = (if g = EventQ n then remove1 t (k_lists s g) else k_lists s g)"
        "ev_set (k_event s1 n) = event_rest ?th ?e"
        "\<And>u. u \<noteq> t \<Longrightarrow> k_thread s1 u = k_thread s u" "event_frame n s s1"
      by (rule event_wake_ok [OF Cons.prems(1) t refl]) blast
    have q: "k_lists s1 (EventQ n) = ks @ ts"
      using s1(5) [of "EventQ n"] Cons.prems(2) dist by (simp add: remove1_append)
    have same: "k_thread s1 u = k_thread s u" if "u \<in> set ts" for u
    proof -
      have "u \<noteq> t" using that dist by auto
      then show ?thesis by (rule s1(7))
    qed
    have valid: "event_valid (k_thread s1 u)" if "u \<in> set ts" for u
      using Cons.prems(3) [of u] same [OF that] that by simp
    have spec1: "wake_spec (k_thread s1) (ev_set (k_event s1 n)) ts = (w0, k, e')"
      using w0(1) wake_spec_cong [of ts "k_thread s1" "k_thread s"] same s1(6) by simp
    obtain s' where s': "event_scan n ts True s1 = Some (RT_EOK, True \<or> w0 \<noteq> [], s')" "kinv s'"
        "\<And>g. wait_queue g \<Longrightarrow> k_lists s' g = (if g = EventQ n then ks @ k else k_lists s1 g)"
        "ev_set (k_event s' n) = e'"
        "\<And>u r. (u, r) \<in> set w0 \<Longrightarrow> th_base s' u \<in> {RT_THREAD_READY, RT_THREAD_RUNNING}
            \<and> th_event_set (k_thread s' u) = r"
        "\<And>u. u \<notin> fst ` set w0 \<Longrightarrow> k_thread s' u = k_thread s1 u" "event_frame n s1 s'"
      using Cons.IH [OF s1(2) q _ spec1, of True] valid by blast
    have "t \<notin> fst ` set w0" using wake_spec_set [OF w0(1)] dist by auto
    then have tt: "k_thread s' t = k_thread s1 t" by (rule s'(6))
    show ?thesis
    proof (intro exI [of _ s'] conjI)
      show "event_scan n (t # ts) need s = Some (RT_EOK, need \<or> w \<noteq> [], s')"
        unfolding step using True s1(1) s'(1) w0(2) by simp
      show "\<forall>g. wait_queue g \<longrightarrow> k_lists s' g = (if g = EventQ n then ks @ k else k_lists s g)"
        using s'(3) s1(5) by simp
      show "\<forall>u r. (u, r) \<in> set w \<longrightarrow> th_base s' u \<in> {RT_THREAD_READY, RT_THREAD_RUNNING}
            \<and> th_event_set (k_thread s' u) = r"
        using s'(5) s1(3,4) tt w0(2) by auto
      show "\<forall>u. u \<notin> fst ` set w \<longrightarrow> k_thread s' u = k_thread s u"
        using s'(6) s1(7) w0(2) by auto
      show "event_frame n s s'" using event_frame_trans [OF s1(8) s'(7)] .
    qed (rule s'(2) s'(4))+
  qed
qed


section \<open>Sending and receiving\<close>

lemma event_scan_all:
  assumes "kinv s" "\<And>t. t \<in> set (k_lists s (EventQ n)) \<Longrightarrow> event_valid (k_thread s t)"
    and "wake_spec (k_thread s) (ev_set (k_event s n)) (k_lists s (EventQ n)) = (w, k, e')"
  obtains s' where "event_scan n (k_lists s (EventQ n)) False s = Some (RT_EOK, w \<noteq> [], s')"
    "kinv s'" "\<And>g. wait_queue g \<Longrightarrow> k_lists s' g = (if g = EventQ n then k else k_lists s g)"
    "ev_set (k_event s' n) = e'"
    "\<And>t r. (t, r) \<in> set w \<Longrightarrow> th_base s' t \<in> {RT_THREAD_READY, RT_THREAD_RUNNING}
       \<and> th_event_set (k_thread s' t) = r"
    "\<And>u. u \<notin> fst ` set w \<Longrightarrow> k_thread s' u = k_thread s u" "event_frame n s s'"
proof -
  have "k_lists s (EventQ n) = [] @ k_lists s (EventQ n)" by simp
  from event_scan_ok [OF assms(1) this _ assms(3), of False] assms(2) that show thesis
    unfolding append.simps simp_thms by blast
qed

lemma event_send_ok:
  assumes inv: "kinv s" and cur: "k_current s = Some c" and obj: "ev_obj (k_event s n)"
    and valid: "\<And>t. t \<in> set (k_lists s (EventQ n)) \<Longrightarrow> event_valid (k_thread s t)"
    and bits: "bits \<noteq> 0"
    and spec: "wake_spec (k_thread s) (ev_set (k_event s n) OR bits) (k_lists s (EventQ n)) = (w, k, e')"
  obtains s' where "rt_event_send n bits s = Some (RT_EOK, s')" "kinv s'"
    "\<And>g. wait_queue g \<Longrightarrow> k_lists s' g = (if g = EventQ n then k else k_lists s g)"
    "ev_set (k_event s' n) = e'"
    "\<And>t r. (t, r) \<in> set w \<Longrightarrow> th_base s' t \<in> {RT_THREAD_READY, RT_THREAD_RUNNING}
       \<and> th_event_set (k_thread s' t) = r \<and> th_error (k_thread s' t) = th_error (k_thread s t)"
    "\<And>t. t \<in> set k \<Longrightarrow> k_thread s' t = k_thread s t"
    "k_lock_nest s = 0 \<Longrightarrow> w \<noteq> [] \<Longrightarrow> runs_most_urgent s'"
proof -
  let ?s1 = "upd_event n (\<lambda>e. e\<lparr>ev_set := ev_set e OR bits\<rparr>) s"
  have inv1: "kinv ?s1" using inv by simp
  have spec1: "wake_spec (k_thread ?s1) (ev_set (k_event ?s1 n)) (k_lists ?s1 (EventQ n)) = (w, k, e')"
    using spec by simp
  have valid1: "event_valid (k_thread ?s1 t)" if "t \<in> set (k_lists ?s1 (EventQ n))" for t
    using valid that by simp
  obtain s2 where s2: "event_scan n (k_lists s (EventQ n)) False ?s1 = Some (RT_EOK, w \<noteq> [], s2)"
      "kinv s2" "\<And>g. wait_queue g \<Longrightarrow> k_lists s2 g = (if g = EventQ n then k else k_lists s g)"
      "ev_set (k_event s2 n) = e'"
      "\<And>t r. (t, r) \<in> set w \<Longrightarrow> th_base s2 t \<in> {RT_THREAD_READY, RT_THREAD_RUNNING}
            \<and> th_event_set (k_thread s2 t) = r"
      "\<And>u. u \<notin> fst ` set w \<Longrightarrow> k_thread s2 u = k_thread s u" "event_frame n ?s1 s2"
    by (rule event_scan_all [OF inv1 valid1 spec1]) simp_all
  have kept: "k_thread s2 t = k_thread s t \<and> t \<in> set (k_lists s (EventQ n))" if "t \<in> set k" for t
    using wake_spec_set [OF spec] queue_inv_distinct [OF kinvD(6) [OF inv], of "EventQ n"] that s2(6)
    by blast
  have err: "th_error (k_thread s2 t) = th_error (k_thread s t)" for t
    using event_frame_thread [OF s2(7), of t] by simp
  have cur2: "k_current s2 = Some c" "k_lock_nest s2 = k_lock_nest s"
    using s2(7) cur by (simp_all add: event_frame_def)
  show thesis
  proof (cases "w = []")
    case True
    then show thesis
      using that [of s2] s2 kept obj bits by (simp add: rt_event_send_def)
  next
    case False
    obtain s3 where s3: "rt_schedule s2 = Some s3" "kinv s3" "sched_frame s2 s3"
        "k_lock_nest s2 = 0 \<Longrightarrow> th_base s2 c = RT_THREAD_RUNNING \<or>
           (\<exists>t. th_base s2 t = RT_THREAD_READY) \<Longrightarrow> runs_most_urgent s3"
      using schedule_kinv [OF s2(2) cur2(1)] by metis
    note fr = sched_frameD [OF s3(3)]
    have "\<exists>t r. (t, r) \<in> set w" using False by (cases w) auto
    then have run: "th_base s2 c = RT_THREAD_RUNNING \<or> (\<exists>t. th_base s2 t = RT_THREAD_READY)"
    proof -
      obtain t r where "(t, r) \<in> set w" using \<open>\<exists>t r. (t, r) \<in> set w\<close> by blast
      then have b: "th_base s2 t \<in> {RT_THREAD_READY, RT_THREAD_RUNNING}" using s2(5) by blast
      have "t = c" if "th_base s2 t = RT_THREAD_RUNNING"
        using sched_inv_running [OF kinvD(1) [OF s2(2)] that] cur2(1) by simp
      then show ?thesis using b by auto
    qed
    show thesis
    proof (rule that)
      show "rt_event_send n bits s = Some (RT_EOK, s3)"
        using obj bits s2(1) s3(1) False by (simp add: rt_event_send_def)
      show "k_lists s3 g = (if g = EventQ n then k else k_lists s g)" if "wait_queue g" for g
      proof -
        have "k_lists s3 g = k_lists s2 g" using that by (intro fr(10)) auto
        then show ?thesis using s2(3) [OF that] by simp
      qed
      show "ev_set (k_event s3 n) = e'" using fr(1) s2(4) by (simp add: objs_frame_def)
      show "th_base s3 t \<in> {RT_THREAD_READY, RT_THREAD_RUNNING}
         \<and> th_event_set (k_thread s3 t) = r \<and> th_error (k_thread s3 t) = th_error (k_thread s t)"
        if "(t, r) \<in> set w" for t r
        using fr(9) [of t] s2(5) [OF that] th_core_simps [OF fr(7), of t] err [of t] by simp
      show "k_thread s3 t = k_thread s t" if "t \<in> set k" for t
      proof -
        have "th_base s2 t = RT_THREAD_SUSPEND"
          using kept [OF that] waiter(1) [OF inv, of t "EventQ n"] by simp
        then have "k_thread s3 t = k_thread s2 t" by (intro fr(8)) simp
        then show ?thesis using kept [OF that] by simp
      qed
      show "runs_most_urgent s3" if "k_lock_nest s = 0" "w \<noteq> []"
        using s3(4) run that cur2(2) by simp
    qed (rule s3(2))
  qed
qed


text \<open>A receive whose condition does not hold, with a timeout.\<close>

lemma event_recv_blocks:
  assumes inv: "kinv s" and t: "may_block s t" and obj: "ev_obj (k_event s n)"
    and bits: "bits \<noteq> 0"
    and th: "th = (k_thread s t)\<lparr>th_error := RT_EOK, th_event_set := bits, th_event_info := flags\<rparr>"
    and valid: "event_valid th" and unsat: "\<not> event_sat th (ev_set (k_event s n))"
    and tmo: "timeout \<noteq> 0" "timeout_ok timeout"
  obtains s' where "rt_event_recv n bits flags timeout s = Some (Blocked, s')" "kinv s'"
    "th_base s' t = RT_THREAD_SUSPEND" "th_core (k_thread s' t) = th_core th"
    "\<And>u. u \<noteq> t \<Longrightarrow> th_core (k_thread s' u) = th_core (k_thread s u)" "objs_frame s s'"
    "\<And>g. wait_queue g \<Longrightarrow> k_lists s' g = (if g = EventQ n
       then queue_insert (ev_prio (k_event s n)) (th_prio s) t (k_lists s (EventQ n)) else k_lists s g)"
    "0 < timeout \<Longrightarrow> tm_row (k_timer s' (ThreadTimer t)) = Some Timer_list
       \<and> tm_timeout_tick (k_timer s' (ThreadTimer t)) = k_tick s + word_of_int timeout"
    "\<exists>u. th_base s u = RT_THREAD_READY \<Longrightarrow> runs_most_urgent s'"
proof -
  let ?s2 = "upd_thread t (\<lambda>th. th\<lparr>th_event_set := bits, th_event_info := flags\<rparr>)
      (upd_thread t (\<lambda>th. th\<lparr>th_error := RT_EOK\<rparr>) s)"
  note tD = may_blockD [OF t]
  have inv2: "kinv ?s2" by (rule kinv_set_event(1) [OF kinv_set_error [OF inv]])
  have th2: "k_thread ?s2 = (k_thread s)(t := th)" using th by simp
  have c2: "k_current ?s2 = Some t" "th_base ?s2 t = RT_THREAD_RUNNING" using tD(1,2) by simp_all
  have h: "wait_queue (EventQ n)" by simp
  have pr: "th_prio ?s2 = th_prio s" by auto
  obtain s' where s': "ipc_wait (EventQ n) (ev_prio (k_event s n)) t timeout ?s2 = Some s'" "kinv s'"
      "th_base s' t = RT_THREAD_SUSPEND" "th_tlist (k_thread s' t) = Some (EventQ n)"
      "\<And>g. wait_queue g \<Longrightarrow> k_lists s' g = (if g = EventQ n
         then queue_insert (ev_prio (k_event s n)) (th_prio ?s2) t (k_lists ?s2 (EventQ n))
         else k_lists ?s2 g)"
      "0 < timeout \<Longrightarrow> tm_row (k_timer s' (ThreadTimer t)) = Some Timer_list
         \<and> tm_timeout_tick (k_timer s' (ThreadTimer t)) = k_tick ?s2 + word_of_int timeout"
      "objs_frame ?s2 s'" "\<And>u. th_core (k_thread s' u) = th_core (k_thread ?s2 u)"
      "k_lock_nest ?s2 = 0 \<Longrightarrow> \<exists>u. th_base ?s2 u = RT_THREAD_READY \<Longrightarrow> runs_most_urgent s'"
    by (rule wait_ok [OF inv2 c2 h tmo(2)]) blast
  have flags: "flags AND RT_EVENT_FLAG_AND \<noteq> 0 \<or> flags AND RT_EVENT_FLAG_OR \<noteq> 0"
    using valid by (simp add: th event_valid_def)
  have no: "\<not> (if flags AND RT_EVENT_FLAG_AND \<noteq> 0 then ev_set (k_event s n) AND bits = bits
      else ev_set (k_event s n) AND bits \<noteq> 0)"
    using unsat unfolding th event_sat_def by (auto simp: and.commute split: if_splits)
  have rdy: "\<exists>u. th_base ?s2 u = RT_THREAD_READY" if "\<exists>u. th_base s u = RT_THREAD_READY"
    using that by auto
  show thesis
  proof (rule that)
    show "rt_event_recv n bits flags timeout s = Some (Blocked, s')"
      using obj bits flags no tmo(1) tD(5,7) s'(1) by (simp add: rt_event_recv_def)
    show "k_lists s' g = (if g = EventQ n
        then queue_insert (ev_prio (k_event s n)) (th_prio s) t (k_lists s (EventQ n))
        else k_lists s g)" if "wait_queue g" for g
      using s'(5) [OF that] unfolding pr by simp
    show "runs_most_urgent s'" if "\<exists>u. th_base s u = RT_THREAD_READY"
      using s'(9) rdy [OF that] tD(3) by simp
    show "th_core (k_thread s' t) = th_core th" using s'(8) [of t] unfolding th2 by simp
    show "th_core (k_thread s' u) = th_core (k_thread s u)" if "u \<noteq> t" for u
      using s'(8) [of u] that unfolding th2 by simp
    show "objs_frame s s'" using s'(7) by (simp add: objs_frame_def)
  qed (use s' in auto)
qed

text \<open>A receive whose condition holds.\<close>

lemma event_recv_now:
  assumes t: "may_block s t" and obj: "ev_obj (k_event s n)" and bits: "bits \<noteq> 0"
    and th: "th = (k_thread s t)\<lparr>th_error := RT_EOK, th_event_set := bits, th_event_info := flags\<rparr>"
    and valid: "event_valid th" and sat: "event_sat th (ev_set (k_event s n))"
    and s1: "s1 = upd_thread t (\<lambda>th. th\<lparr>th_event_set := ev_set (k_event s n) AND bits, th_event_info := flags\<rparr>)
      (upd_thread t (\<lambda>th. th\<lparr>th_error := RT_EOK\<rparr>) s)"
  shows "rt_event_recv n bits flags timeout s = Some (Returned (RT_EOK, Some (ev_set (k_event s n) AND bits)),
      if flags AND RT_EVENT_FLAG_CLEAR \<noteq> 0
      then upd_event n (\<lambda>ev. ev\<lparr>ev_set := ev_set ev AND NOT bits\<rparr>) s1 else s1)"
proof -
  have "(if flags AND RT_EVENT_FLAG_AND \<noteq> 0 then ev_set (k_event s n) AND bits = bits
      else ev_set (k_event s n) AND bits \<noteq> 0)"
    using sat unfolding th event_sat_def by (auto simp: and.commute split: if_splits)
  moreover have "flags AND RT_EVENT_FLAG_AND \<noteq> 0 \<or> flags AND RT_EVENT_FLAG_OR \<noteq> 0"
    using valid by (simp add: th event_valid_def)
  ultimately show ?thesis
    using may_blockD [OF t] obj bits unfolding s1 by (simp add: rt_event_recv_def Let_def)
qed

text \<open>Any history of one event set: sends, receives, and whatever else removes waiters.\<close>

definition event_ok :: "nat \<Rightarrow> kstate \<Rightarrow> bool" where
  "event_ok n s \<longleftrightarrow> (\<forall>t \<in> set (k_lists s (EventQ n)).
     event_valid (k_thread s t) \<and> \<not> event_sat (k_thread s t) (ev_set (k_event s n)))"

lemma event_fields:
  assumes "th_core a = th_core b"
  shows "event_valid a = event_valid b" "event_sat a = event_sat b"
  using th_core_simps [OF assms] by (auto simp: event_valid_def event_sat_def fun_eq_iff)

lemma event_fields':
  assumes "th_event_set a = th_event_set b" "th_event_info a = th_event_info b"
  shows "event_valid a = event_valid b" "event_sat a = event_sat b"
  using assms by (auto simp: event_valid_def event_sat_def fun_eq_iff)

inductive event_history :: "nat \<Rightarrow> kstate \<Rightarrow> bool" for n where
  start: "\<lbrakk>kinv s; k_lists s (EventQ n) = []\<rbrakk> \<Longrightarrow> event_history n s"
| send: "\<lbrakk>event_history n s; k_current s = Some c; rt_event_send n bits s = Some (r, s')\<rbrakk>
    \<Longrightarrow> event_history n s'"
| recv: "\<lbrakk>event_history n s; may_block s t; timeout_ok timeout;
      rt_event_recv n bits flags timeout s = Some (r, s')\<rbrakk> \<Longrightarrow> event_history n s'"
| other: "\<lbrakk>event_history n s; kinv s'; k_event s' n = k_event s n;
      set (k_lists s' (EventQ n)) \<subseteq> set (k_lists s (EventQ n));
      \<And>t. t \<in> set (k_lists s' (EventQ n)) \<Longrightarrow> th_event_set (k_thread s' t) = th_event_set (k_thread s t)
        \<and> th_event_info (k_thread s' t) = th_event_info (k_thread s t)\<rbrakk> \<Longrightarrow> event_history n s'"

lemma event_send_step:
  assumes inv: "kinv s" and ok: "event_ok n s" and cur: "k_current s = Some c"
    and snd: "rt_event_send n bits s = Some (r, s')"
  shows "kinv s' \<and> event_ok n s'"
proof (cases "bits = 0")
  case True
  then show ?thesis using snd inv ok by (auto simp: rt_event_send_def)
next
  case False
  have obj: "ev_obj (k_event s n)" using snd by (auto simp: rt_event_send_def)
  have valid: "event_valid (k_thread s t)" if "t \<in> set (k_lists s (EventQ n))" for t
    using ok that by (simp add: event_ok_def)
  obtain w k e' where
    spec: "wake_spec (k_thread s) (ev_set (k_event s n) OR bits) (k_lists s (EventQ n)) = (w, k, e')"
    by (cases "wake_spec (k_thread s) (ev_set (k_event s n) OR bits) (k_lists s (EventQ n))") auto
  obtain s'' where s'': "rt_event_send n bits s = Some (RT_EOK, s'')" "kinv s''"
    "\<And>g. wait_queue g \<Longrightarrow> k_lists s'' g = (if g = EventQ n then k else k_lists s g)"
    "ev_set (k_event s'' n) = e'" "\<And>t. t \<in> set k \<Longrightarrow> k_thread s'' t = k_thread s t"
    by (rule event_send_ok [OF inv cur obj valid False spec]) blast+
  have "event_ok n s''"
    using s''(3) [of "EventQ n"] s''(4,5) wake_spec_kept [OF spec] wake_spec_set [OF spec] valid
    by (auto simp: event_ok_def)
  then show ?thesis using snd s''(1,2) by simp
qed

lemma event_recv_step:
  assumes inv: "kinv s" and ok: "event_ok n s" and t: "may_block s t" and tmo: "timeout_ok timeout"
    and rcv: "rt_event_recv n bits flags timeout s = Some (r, s')"
  shows "kinv s' \<and> event_ok n s'"
proof -
  let ?th = "(k_thread s t)\<lparr>th_error := RT_EOK, th_event_set := bits, th_event_info := flags\<rparr>"
  let ?e = "ev_set (k_event s n)"
  note tD = may_blockD [OF t]
  have waits: "t \<notin> set (k_lists s (EventQ n))"
    using waiter(1) [OF inv, of t "EventQ n"] tD(2) by auto
  have obj: "ev_obj (k_event s n)" using rcv by (auto simp: rt_event_recv_def)
  have flags: "event_valid ?th" if "bits \<noteq> 0"
    using rcv that tD(7) by (auto simp: rt_event_recv_def event_valid_def)
  have sat: "event_sat ?th ?e \<longleftrightarrow> (if flags AND RT_EVENT_FLAG_AND \<noteq> 0 then ?e AND bits = bits
      else ?e AND bits \<noteq> 0)"
    by (simp add: event_sat_def and.commute)
  consider (zero) "bits = 0" | (got) "bits \<noteq> 0" "event_sat ?th ?e"
    | (timeout) "bits \<noteq> 0" "\<not> event_sat ?th ?e" "timeout = 0"
    | (wait) "bits \<noteq> 0" "\<not> event_sat ?th ?e" "timeout \<noteq> 0" by blast
  then show ?thesis
  proof cases
    case zero
    then show ?thesis using rcv inv ok tD(5) by (auto simp: rt_event_recv_def)
  next
    case got
    define s1 where "s1 = upd_thread t (\<lambda>th. th\<lparr>th_event_set := ?e AND bits, th_event_info := flags\<rparr>)
      (upd_thread t (\<lambda>th. th\<lparr>th_error := RT_EOK\<rparr>) s)"
    have eq: "s' = (if flags AND RT_EVENT_FLAG_CLEAR \<noteq> 0
        then upd_event n (\<lambda>ev. ev\<lparr>ev_set := ev_set ev AND NOT bits\<rparr>) s1 else s1)"
      using event_recv_now [OF t obj got(1) refl flags [OF got(1)] got(2) s1_def] rcv by simp
    have inv1: "kinv s1" unfolding s1_def by (rule kinv_set_event(1) [OF kinv_set_error [OF inv]])
    have "k_lists s1 = k_lists s" "k_event s1 = k_event s" "\<And>u. u \<noteq> t \<Longrightarrow> k_thread s1 u = k_thread s u"
      by (simp_all add: s1_def)
    then have s': "kinv s'" "k_lists s' = k_lists s" "\<And>u. u \<noteq> t \<Longrightarrow> k_thread s' u = k_thread s u"
      "ev_set (k_event s' n) AND ?e = ev_set (k_event s' n)"
      using inv1 unfolding eq by (auto simp: and.assoc and.commute and.left_commute)
    have "\<not> event_sat (k_thread s u) (ev_set (k_event s' n))" if "u \<in> set (k_lists s (EventQ n))" for u
      using sat_mono [OF s'(4)] ok that by (auto simp: event_ok_def)
    moreover have "k_thread s' u = k_thread s u" if "u \<in> set (k_lists s (EventQ n))" for u
      using s'(3) [of u] waits that by auto
    ultimately show ?thesis using s'(1,2) ok by (simp add: event_ok_def)
  next
    case timeout
    have "s' = upd_thread t (\<lambda>th. th\<lparr>th_error := - RT_ETIMEOUT\<rparr>)
        (upd_thread t (\<lambda>th. th\<lparr>th_error := RT_EOK\<rparr>) s)"
      using rcv timeout(1,3) timeout(2) [unfolded sat] flags [OF timeout(1)] tD(5,7)
      by (auto simp: rt_event_recv_def event_valid_def Let_def split: if_splits)
    then show ?thesis
      using kinv_set_error [OF kinv_set_error [OF inv]] ok waits by (auto simp: event_ok_def)
  next
    case wait
    obtain s'' where s'': "rt_event_recv n bits flags timeout s = Some (Blocked, s'')" "kinv s''"
      "th_core (k_thread s'' t) = th_core ?th"
      "\<And>u. u \<noteq> t \<Longrightarrow> th_core (k_thread s'' u) = th_core (k_thread s u)" "objs_frame s s''"
      "\<And>g. wait_queue g \<Longrightarrow> k_lists s'' g = (if g = EventQ n
         then queue_insert (ev_prio (k_event s n)) (th_prio s) t (k_lists s (EventQ n)) else k_lists s g)"
      by (rule event_recv_blocks [OF inv t obj wait(1) refl flags [OF wait(1)] wait(2,3) tmo]) blast
    have e: "k_event s'' = k_event s" using s''(5) by (simp add: objs_frame_def)
    have "event_ok n s''"
      unfolding event_ok_def e
    proof
      fix u
      assume "u \<in> set (k_lists s'' (EventQ n))"
      then have "u = t \<or> u \<noteq> t \<and> u \<in> set (k_lists s (EventQ n))"
        using s''(6) [of "EventQ n"] by auto
      then show "event_valid (k_thread s'' u) \<and> \<not> event_sat (k_thread s'' u) ?e"
        using event_fields [OF s''(3)] event_fields [OF s''(4), of u] flags [OF wait(1)] wait(2) ok
        by (auto simp: event_ok_def)
    qed
    then show ?thesis using rcv s''(1,2) by simp
  qed
qed


lemma event_history_ok: "event_history n s \<Longrightarrow> kinv s \<and> event_ok n s"
proof (induction rule: event_history.induct)
  case (start s)
  then show ?case by (simp add: event_ok_def)
next
  case (send s c bits r s')
  then show ?case using event_send_step by blast
next
  case (recv s t timeout bits flags r s')
  then show ?case using event_recv_step by blast
next
  case (other s s')
  have "event_valid (k_thread s' t) \<and> \<not> event_sat (k_thread s' t) (ev_set (k_event s' n))"
    if t: "t \<in> set (k_lists s' (EventQ n))" for t
  proof -
    note f = other(5) [OF t]
    have "event_valid (k_thread s' t) = event_valid (k_thread s t)"
      "event_sat (k_thread s' t) = event_sat (k_thread s t)"
      by (rule event_fields'; use f in simp)+
    then show ?thesis using other t by (auto simp: event_ok_def)
  qed
  then show ?case using other(2) by (simp add: event_ok_def)
qed


section \<open>Properties\<close>

text \<open>
  C2: rt_event_send wakes exactly the threads it must.  The walk over the wait queue is the
  specification wake_spec on the event set with the new bits: in queue order, a waiter whose
  AND or OR condition holds at its turn leaves the queue, becomes ready, will return the bits it
  waited for (AND) or received (OR), and takes them out of the set if it asked to clear; the others
  keep their places and their data; afterwards the most urgent thread runs.
\<close>

theorem event_send_wakes_satisfied:
  assumes "kinv s" "k_current s = Some c" "k_lock_nest s = 0" "ev_obj (k_event s n)" "bits \<noteq> 0"
    and "\<forall>t \<in> set (k_lists s (EventQ n)). event_valid (k_thread s t)"
    and "wake_spec (k_thread s) (ev_set (k_event s n) OR bits) (k_lists s (EventQ n)) = (w, k, e')"
  shows "\<exists>s'. rt_event_send n bits s = Some (RT_EOK, s') \<and> kinv s'
      \<and> k_lists s' (EventQ n) = k \<and> ev_set (k_event s' n) = e'
      \<and> (\<forall>t r. (t, r) \<in> set w \<longrightarrow> th_base s' t \<in> {RT_THREAD_READY, RT_THREAD_RUNNING}
           \<and> (th_error (k_thread s t) = RT_EOK \<longrightarrow> rt_event_recv_resume t s' = (RT_EOK, Some r)))
      \<and> (\<forall>t \<in> set k. k_thread s' t = k_thread s t)
      \<and> (w \<noteq> [] \<longrightarrow> runs_most_urgent s')"
proof -
  have valid: "event_valid (k_thread s t)" if "t \<in> set (k_lists s (EventQ n))" for t
    using assms(6) that by simp
  obtain s' where s': "rt_event_send n bits s = Some (RT_EOK, s')" "kinv s'"
    "\<And>g. wait_queue g \<Longrightarrow> k_lists s' g = (if g = EventQ n then k else k_lists s g)"
    "ev_set (k_event s' n) = e'"
    "\<And>t r. (t, r) \<in> set w \<Longrightarrow> th_base s' t \<in> {RT_THREAD_READY, RT_THREAD_RUNNING}
       \<and> th_event_set (k_thread s' t) = r \<and> th_error (k_thread s' t) = th_error (k_thread s t)"
    "\<And>t. t \<in> set k \<Longrightarrow> k_thread s' t = k_thread s t"
    "k_lock_nest s = 0 \<Longrightarrow> w \<noteq> [] \<Longrightarrow> runs_most_urgent s'"
    by (rule event_send_ok [OF assms(1,2,4) valid assms(5,7)]) blast+
  show ?thesis
    using s'(1,2,4,6,7) s'(3) [of "EventQ n"] s'(5) assms(3)
    by (intro exI [of _ s']) (simp add: rt_event_recv_resume_def)
qed

lemma sample_event:
  "k_event k_sample m = \<lparr>ev_obj = True, ev_system = True, ev_prio = False, ev_set = 0\<rparr>"
  by (simp add: k_sample_def)

theorem event_send_wakes_satisfied_witness:
  "\<exists>s'. rt_event_send 0 7 k_sample = Some (RT_EOK, s') \<and> k_lists s' (EventQ 0) = []
     \<and> ev_set (k_event s' 0) = 7 \<and> rt_event_recv_resume 5 s' = (RT_EOK, Some 5)"
proof -
  have valid: "\<forall>t \<in> set (k_lists k_sample (EventQ 0)). event_valid (k_thread k_sample t)"
    by (simp add: event_valid_def)
  have spec: "wake_spec (k_thread k_sample) (ev_set (k_event k_sample 0) OR 7) (k_lists k_sample (EventQ 0))
      = ([(5, 5)], [], 7)"
    by (simp add: sample_event event_sat_def event_taken_def event_rest_def)
  show ?thesis
    using event_send_wakes_satisfied [OF kinv_sample _ _ _ _ valid spec, of 0]
    by (simp add: sample_event) blast
qed

text \<open>
  C5: no wake-up is lost.  In every history of an event set (sends, receives with any flags and
  timeout, and other kernel activity that only removes waiters, such as timeouts), no thread ever
  waits while its condition holds on the current set, and the kernel stays well formed.
\<close>

theorem event_no_lost_wakeup:
  assumes "event_history n s" "t \<in> set (k_lists s (EventQ n))"
  shows "kinv s \<and> th_base s t = RT_THREAD_SUSPEND \<and> event_valid (k_thread s t)
     \<and> \<not> event_sat (k_thread s t) (ev_set (k_event s n))"
  using event_history_ok [OF assms(1)] assms(2) waiter(1) [of s t "EventQ n"]
  by (simp add: event_ok_def)

lemma sample_event_history:
  "\<exists>s. event_history 1 s \<and> k_lists s (EventQ 1) = [0]"
proof -
  have h0: "event_history 1 k_sample"
    by (rule event_history.start [OF kinv_sample]) (simp add: lists_sample_def)
  have t: "may_block k_sample 0" by (simp add: may_block_def)
  let ?th = "(k_thread k_sample 0)\<lparr>th_error := RT_EOK, th_event_set := 3, th_event_info := 2\<rparr>"
  note ev = sample_event
  have th: "event_valid ?th" "\<not> event_sat ?th (ev_set (k_event k_sample 1))"
    by (simp_all add: event_valid_def event_sat_def ev)
  have obj: "ev_obj (k_event k_sample 1)" "(3 :: 32 word) \<noteq> 0" "(20 :: int) \<noteq> 0" "timeout_ok 20"
    by (simp_all add: ev timeout_ok_def)
  obtain s' where s': "rt_event_recv 1 3 2 20 k_sample = Some (Blocked, s')"
      "\<And>g. wait_queue g \<Longrightarrow> k_lists s' g = (if g = EventQ 1
         then queue_insert (ev_prio (k_event k_sample 1)) (th_prio k_sample) 0 (k_lists k_sample (EventQ 1))
         else k_lists k_sample g)"
    by (rule event_recv_blocks [OF kinv_sample t obj(1,2) refl th obj(3,4)]) blast
  have "event_history 1 s'"
    by (rule event_history.recv [OF h0 t _ s'(1)]) (simp add: timeout_ok_def)
  moreover have "k_lists s' (EventQ 1) = [0]"
    using s'(2) [of "EventQ 1"] by (simp add: ev queue_insert_def lists_sample_def)
  ultimately show ?thesis by blast
qed

theorem event_no_lost_wakeup_witness:
  "\<exists>s. event_history 1 s \<and> k_lists s (EventQ 1) = [0] \<and> th_base s 0 = RT_THREAD_SUSPEND"
  using sample_event_history event_no_lost_wakeup [of 1 _ 0] by fastforce

end
