(* ===== verification/Mailbox.thy ===== *)
theory Mailbox
  imports Sem Circular Fifo
begin

text \<open>
  Mailboxes of src/ipc.c: a circular array of machine words with waiting senders and receivers.
  A blocking call is a loop that suspends the thread and, each time it runs again without an
  error, looks at the mailbox anew with the time that is left; \<open>mb_send_loop\<close> and \<open>mb_recv_loop\<close> are one
  turn of that loop, \<open>Blocked\<close> is the suspension, and the \<open>_resume\<close> functions go on from there.
\<close>

section \<open>The message array\<close>

abbreviation RT_MB_ENTRY_MAX :: nat where "RT_MB_ENTRY_MAX \<equiv> RT_UINT16_MAX"

text \<open>
  Advance an offset (16 bits wide), and wrap it at the size.  Store at the input offset; the flag is \<open>False\<close> when the message counter is at its maximum.  An
  access outside the pool is an error of the model.
\<close>

definition mb_next_offset :: "nat \<Rightarrow> nat \<Rightarrow> nat" where
  "mb_next_offset i sz = (let j = (i + 1) mod 0x10000 in if sz \<le> j then 0 else j)"

definition mb_enqueue :: "rt_uint32_t \<Rightarrow> rt_mailbox \<Rightarrow> (bool \<times> rt_mailbox) option" where
  "mb_enqueue v m =
     (if mb_in_offset m < length (mb_msg_pool m)
      then (let m1 = m\<lparr>mb_msg_pool := (mb_msg_pool m)[mb_in_offset m := v],
                       mb_in_offset := mb_next_offset (mb_in_offset m) (mb_size m)\<rparr>
            in if mb_entry m1 < RT_MB_ENTRY_MAX
               then Some (True, m1\<lparr>mb_entry := mb_entry m1 + 1\<rparr>) else Some (False, m1))
      else None)"

definition mb_enqueue_front :: "rt_uint32_t \<Rightarrow> rt_mailbox \<Rightarrow> rt_mailbox option" where
  "mb_enqueue_front v m =
     (let i = (if 0 < mb_out_offset m then mb_out_offset m - 1 else mb_size m - 1) in
      if i < length (mb_msg_pool m)
      then Some (m\<lparr>mb_msg_pool := (mb_msg_pool m)[i := v], mb_out_offset := i,
                   mb_entry := (mb_entry m + 1) mod 0x10000\<rparr>)
      else None)"

definition mb_dequeue :: "rt_mailbox \<Rightarrow> (rt_uint32_t \<times> rt_mailbox) option" where
  "mb_dequeue m =
     (if mb_out_offset m < length (mb_msg_pool m)
      then Some (mb_msg_pool m ! mb_out_offset m,
                 m\<lparr>mb_out_offset := mb_next_offset (mb_out_offset m) (mb_size m),
                   mb_entry := (if 0 < mb_entry m then mb_entry m - 1 else mb_entry m)\<rparr>)
      else None)"


section \<open>Operations\<close>

definition upd_mb :: "nat \<Rightarrow> (rt_mailbox \<Rightarrow> rt_mailbox) \<Rightarrow> kstate \<Rightarrow> kstate" where
  "upd_mb n f s = s\<lparr>k_mb := (k_mb s)(n := f (k_mb s n))\<rparr>"

definition mb_new :: "bool \<Rightarrow> rt_uint32_t list \<Rightarrow> nat \<Rightarrow> bool \<Rightarrow> rt_mailbox" where
  "mb_new sys pool sz prio =
     \<lparr>mb_obj = True, mb_system = sys, mb_prio = prio, mb_msg_pool = pool, mb_size = sz,
      mb_entry = 0, mb_in_offset = 0, mb_out_offset = 0\<rparr>"

definition rt_mb_init ::
  "nat \<Rightarrow> rt_uint32_t list \<Rightarrow> nat \<Rightarrow> rt_uint8_t \<Rightarrow> kstate \<Rightarrow> (rt_err_t \<times> kstate) option" where
  "rt_mb_init n pool sz flag s = do {
     RT_ASSERT (flag = 0 \<or> flag = 1);
     s1 \<leftarrow> object_init_check (mb_obj (k_mb s n)) s;
     let s2 = upd_mb n (\<lambda>_. mb_new True pool (sz mod 0x10000) (flag = 1)) (ipc_object_init (MbRecvQ n) s1);
     Some (RT_EOK, ipc_object_init (MbSendQ n) s2)
   }"

definition rt_mb_detach :: "nat \<Rightarrow> kstate \<Rightarrow> (rt_err_t \<times> kstate) option" where
  "rt_mb_detach n s = do {
     RT_ASSERT (mb_obj (k_mb s n));
     RT_ASSERT (mb_system (k_mb s n));
     s1 \<leftarrow> ipc_list_resume_all (MbRecvQ n) s;
     s2 \<leftarrow> ipc_list_resume_all (MbSendQ n) s1;
     Some (RT_EOK, upd_mb n (\<lambda>m. m\<lparr>mb_obj := False\<rparr>) s2)
   }"

text \<open>The arguments obj and pool are the answers of the object and memory allocators.\<close>

definition rt_mb_create ::
  "nat option \<Rightarrow> rt_uint32_t list option \<Rightarrow> nat \<Rightarrow> rt_uint8_t \<Rightarrow> kstate \<Rightarrow> (nat option \<times> kstate) option" where
  "rt_mb_create obj pool sz flag s = do {
     RT_ASSERT (flag = 0 \<or> flag = 1);
     RT_ASSERT (k_irq_nest s = 0);
     (case obj of
        None \<Rightarrow> Some (None, s)
      | Some n \<Rightarrow>
          (let s1 = ipc_object_init (MbRecvQ n) s in
           case pool of
             None \<Rightarrow> Some (None, upd_mb n (\<lambda>m. m\<lparr>mb_obj := False, mb_prio := (flag = 1),
                                              mb_size := sz mod 0x10000\<rparr>) s1)
           | Some p \<Rightarrow> Some (Some n, ipc_object_init (MbSendQ n)
               (upd_mb n (\<lambda>_. mb_new False p (sz mod 0x10000) (flag = 1)) s1))))
   }"

definition rt_mb_delete :: "nat \<Rightarrow> kstate \<Rightarrow> (rt_err_t \<times> kstate) option" where
  "rt_mb_delete n s = do {
     RT_ASSERT (mb_obj (k_mb s n));
     RT_ASSERT (\<not> mb_system (k_mb s n));
     RT_ASSERT (k_irq_nest s = 0);
     s1 \<leftarrow> ipc_list_resume_all (MbRecvQ n) s;
     s2 \<leftarrow> ipc_list_resume_all (MbSendQ n) s1;
     Some (RT_EOK, upd_mb n (\<lambda>m. m\<lparr>mb_obj := False, mb_msg_pool := []\<rparr>) s2)
   }"

text \<open>Wake the first waiter of a queue, if there is one, and reschedule.\<close>

definition ipc_wake :: "head \<Rightarrow> kstate \<Rightarrow> kstate option" where
  "ipc_wake h s =
     (if k_lists s h \<noteq> [] then Option.bind (ipc_list_resume h s) rt_schedule else Some s)"

definition mb_send_finish :: "nat \<Rightarrow> rt_uint32_t \<Rightarrow> kstate \<Rightarrow> (rt_err_t outcome \<times> kstate) option" where
  "mb_send_finish n v s = do {
     (counted, m) \<leftarrow> mb_enqueue v (k_mb s n);
     let s1 = upd_mb n (\<lambda>_. m) s;
     if counted then do {
       s2 \<leftarrow> ipc_wake (MbRecvQ n) s1;
       Some (Returned RT_EOK, s2)
     }
     else Some (Returned (- RT_EFULL), s1)
   }"

definition mb_send_loop ::
  "nat \<Rightarrow> rt_uint32_t \<Rightarrow> int \<Rightarrow> tid option \<Rightarrow> kstate \<Rightarrow> (rt_err_t outcome \<times> kstate) option" where
  "mb_send_loop n v timeout self s =
     (if mb_entry (k_mb s n) = mb_size (k_mb s n)
      then do {
        t \<leftarrow> self;
        let s1 = upd_thread t (\<lambda>th. th\<lparr>th_error := RT_EOK\<rparr>) s;
        if timeout = 0 then Some (Returned (- RT_EFULL), s1)
        else do {
          s2 \<leftarrow> ipc_wait (MbSendQ n) (mb_prio (k_mb s n)) t timeout s1;
          Some (Blocked, s2)
        }
      }
      else mb_send_finish n v s)"

definition rt_mb_send_wait ::
  "nat \<Rightarrow> rt_uint32_t \<Rightarrow> int \<Rightarrow> kstate \<Rightarrow> (rt_err_t outcome \<times> kstate) option" where
  "rt_mb_send_wait n v timeout s = do {
     RT_ASSERT (mb_obj (k_mb s n));
     debug_scheduler_available (timeout \<noteq> 0) s;
     if mb_entry (k_mb s n) = mb_size (k_mb s n) \<and> timeout = 0
     then Some (Returned (- RT_EFULL), s)
     else mb_send_loop n v timeout (rt_thread_self s) s
   }"

text \<open>
  After the suspension; start is the tick at which it began, the timeout the one it began with.
\<close>

definition mb_send_resume ::
  "nat \<Rightarrow> rt_uint32_t \<Rightarrow> int \<Rightarrow> rt_tick_t \<Rightarrow> tid \<Rightarrow> kstate \<Rightarrow> (rt_err_t outcome \<times> kstate) option" where
  "mb_send_resume n v timeout start t s =
     (if th_error (k_thread s t) \<noteq> RT_EOK then Some (Returned (th_error (k_thread s t)), s)
      else mb_send_loop n v (remaining_timeout timeout start (rt_tick_get s)) (Some t) s)"

definition rt_mb_send :: "nat \<Rightarrow> rt_uint32_t \<Rightarrow> kstate \<Rightarrow> (rt_err_t outcome \<times> kstate) option" where
  "rt_mb_send n v s = rt_mb_send_wait n v 0 s"

definition rt_mb_urgent :: "nat \<Rightarrow> rt_uint32_t \<Rightarrow> kstate \<Rightarrow> (rt_err_t \<times> kstate) option" where
  "rt_mb_urgent n v s = do {
     RT_ASSERT (mb_obj (k_mb s n));
     if mb_entry (k_mb s n) = mb_size (k_mb s n) then Some (- RT_EFULL, s)
     else do {
       m \<leftarrow> mb_enqueue_front v (k_mb s n);
       s1 \<leftarrow> ipc_wake (MbRecvQ n) (upd_mb n (\<lambda>_. m) s);
       Some (RT_EOK, s1)
     }
   }"

text \<open>The result holds the error code and the message stored through \<^verbatim>\<open>value\<close>, if any.\<close>

definition mb_recv_loop ::
  "nat \<Rightarrow> int \<Rightarrow> tid option \<Rightarrow> kstate \<Rightarrow> ((rt_err_t \<times> rt_uint32_t option) outcome \<times> kstate) option" where
  "mb_recv_loop n timeout self s =
     (if mb_entry (k_mb s n) = 0
      then do {
        t \<leftarrow> self;
        let s1 = upd_thread t (\<lambda>th. th\<lparr>th_error := RT_EOK\<rparr>) s;
        if timeout = 0 then
          Some (Returned (- RT_ETIMEOUT, None), upd_thread t (\<lambda>th. th\<lparr>th_error := - RT_ETIMEOUT\<rparr>) s1)
        else do {
          s2 \<leftarrow> ipc_wait (MbRecvQ n) (mb_prio (k_mb s n)) t timeout s1;
          Some (Blocked, s2)
        }
      }
      else do {
        (v, m) \<leftarrow> mb_dequeue (k_mb s n);
        s1 \<leftarrow> ipc_wake (MbSendQ n) (upd_mb n (\<lambda>_. m) s);
        Some (Returned (RT_EOK, Some v), s1)
      })"

definition rt_mb_recv ::
  "nat \<Rightarrow> int \<Rightarrow> kstate \<Rightarrow> ((rt_err_t \<times> rt_uint32_t option) outcome \<times> kstate) option" where
  "rt_mb_recv n timeout s = do {
     RT_ASSERT (mb_obj (k_mb s n));
     debug_scheduler_available (timeout \<noteq> 0) s;
     if mb_entry (k_mb s n) = 0 \<and> timeout = 0
     then Some (Returned (- RT_ETIMEOUT, None), s)
     else mb_recv_loop n timeout (rt_thread_self s) s
   }"

definition mb_recv_resume ::
  "nat \<Rightarrow> int \<Rightarrow> rt_tick_t \<Rightarrow> tid \<Rightarrow> kstate \<Rightarrow> ((rt_err_t \<times> rt_uint32_t option) outcome \<times> kstate) option" where
  "mb_recv_resume n timeout start t s =
     (if th_error (k_thread s t) \<noteq> RT_EOK then Some (Returned (th_error (k_thread s t), None), s)
      else mb_recv_loop n (remaining_timeout timeout start (rt_tick_get s)) (Some t) s)"

definition rt_mb_control :: "nat \<Rightarrow> bool \<Rightarrow> kstate \<Rightarrow> (rt_err_t \<times> kstate) option" where
  "rt_mb_control n reset s = do {
     RT_ASSERT (mb_obj (k_mb s n));
     if reset then do {
       s1 \<leftarrow> ipc_list_resume_all (MbRecvQ n) s;
       s2 \<leftarrow> ipc_list_resume_all (MbSendQ n) s1;
       s3 \<leftarrow> rt_schedule (upd_mb n (\<lambda>m. m\<lparr>mb_entry := 0, mb_in_offset := 0, mb_out_offset := 0\<rparr>) s2);
       Some (RT_EOK, s3)
     }
     else Some (- RT_ERROR, s)
   }"


section \<open>The array is a bounded queue\<close>

definition mb_wf :: "rt_mailbox \<Rightarrow> bool" where
  "mb_wf m \<longleftrightarrow> mb_size m < 0x10000 \<and> mb_size m \<le> length (mb_msg_pool m)
     \<and> mb_entry m \<le> mb_size m \<and> mb_in_offset m = (mb_out_offset m + mb_entry m) mod mb_size m
     \<and> (if mb_size m = 0 then mb_out_offset m = 0 else mb_out_offset m < mb_size m)"

definition mb_msgs :: "rt_mailbox \<Rightarrow> rt_uint32_t list" where
  "mb_msgs m = window (mb_msg_pool m) (mb_size m) (mb_out_offset m) (mb_entry m)"

lemma length_mb_msgs [simp]: "length (mb_msgs m) = mb_entry m"
  by (simp add: mb_msgs_def)

lemma mb_new_wf: "sz < 0x10000 \<Longrightarrow> sz \<le> length p \<Longrightarrow> mb_wf (mb_new sys p sz prio) \<and> mb_msgs (mb_new sys p sz prio) = []"
  by (simp add: mb_wf_def mb_new_def mb_msgs_def)

lemma next_offset: "i < n \<Longrightarrow> n < 0x10000 \<Longrightarrow> mb_next_offset i n = (i + 1) mod n"
proof -
  assume "i < n" "n < 0x10000"
  then have "(i + 1) mod 0x10000 = i + 1" by simp
  then show ?thesis using \<open>i < n\<close> by (cases "i + 1 = n") (auto simp: mb_next_offset_def)
qed

text \<open>A free place: the message goes to the end, and the counter cannot overflow.\<close>

lemma mb_enqueue_ok:
  assumes wf: "mb_wf m" and room: "mb_entry m \<noteq> mb_size m"
  obtains m' where "mb_enqueue v m = Some (True, m')" "mb_wf m'" "mb_msgs m' = mb_msgs m @ [v]"
    "mb_size m' = mb_size m" "mb_obj m' = mb_obj m" "mb_prio m' = mb_prio m" "mb_system m' = mb_system m"
proof -
  note w = wf [unfolded mb_wf_def]
  have sz: "0 < mb_size m" "mb_entry m < mb_size m" "mb_in_offset m < mb_size m" "mb_size m < 0x10000"
    using w room by (auto split: if_splits)
  have len: "mb_in_offset m < length (mb_msg_pool m)" using sz w by linarith
  let ?m' = "m\<lparr>mb_msg_pool := (mb_msg_pool m)[mb_in_offset m := v],
     mb_in_offset := (mb_in_offset m + 1) mod mb_size m, mb_entry := mb_entry m + 1\<rparr>"
  have "mb_enqueue v m = Some (True, ?m')"
    using sz len next_offset [OF sz(3,4)] by (simp add: mb_enqueue_def)
  moreover have "(mb_in_offset m + 1) mod mb_size m = (mb_out_offset m + (mb_entry m + 1)) mod mb_size m"
    using w by (simp add: mod_Suc_eq)
  then have "mb_wf ?m'" using sz w by (simp add: mb_wf_def split: if_splits)
  moreover have "mb_msgs ?m' = mb_msgs m @ [v]"
    using window_write_end [OF sz(2), of "mb_msg_pool m" "mb_out_offset m" v] w
    by (simp add: mb_msgs_def)
  ultimately show thesis by (rule that) simp_all
qed

lemma window_write_front:
  assumes "n < sz" "sz \<le> length a"
  shows "window (a[(r + sz - 1) mod sz := x]) sz ((r + sz - 1) mod sz) (Suc n) = x # window a sz r n"
proof (rule nth_equalityI)
  fix i
  assume "i < length (window (a[(r + sz - 1) mod sz := x]) sz ((r + sz - 1) mod sz) (Suc n))"
  then have i: "i < Suc n" by simp
  have j: "(r + sz - 1) mod sz < length a" using assms by (intro less_le_trans [OF mod_less_divisor]) auto
  show "window (a[(r + sz - 1) mod sz := x]) sz ((r + sz - 1) mod sz) (Suc n) ! i
      = (x # window a sz r n) ! i"
  proof (cases i)
    case 0
    then show ?thesis using j i assms by (simp add: window_nth)
  next
    case (Suc k)
    have "((r + sz - 1) mod sz + Suc k) mod sz = (r + sz - 1 + Suc k) mod sz"
      by (rule mod_add_left_eq)
    also have "r + sz - 1 + Suc k = (r + k) + sz" using assms(1) by simp
    finally have eq: "((r + sz - 1) mod sz + Suc k) mod sz = (r + k) mod sz" by simp
    have "(r + (sz - 1)) mod sz \<noteq> (r + k) mod sz"
      using mod_window_inj [of r "sz - 1" sz k] assms(1) i Suc by auto
    then have "a[(r + sz - 1) mod sz := x] ! ((r + k) mod sz) = a ! ((r + k) mod sz)"
      using assms(1) by (intro nth_list_update_neq) simp
    moreover have "window (a[(r + sz - 1) mod sz := x]) sz ((r + sz - 1) mod sz) (Suc n) ! i
        = a[(r + sz - 1) mod sz := x] ! ((r + k) mod sz)"
      unfolding window_nth [OF i] using eq Suc by (simp only:)
    ultimately show ?thesis using Suc i by (simp only: nth_Cons_Suc window_nth Suc_less_eq)
  qed
qed simp

lemma mb_enqueue_front_ok:
  assumes wf: "mb_wf m" and room: "mb_entry m \<noteq> mb_size m"
  obtains m' where "mb_enqueue_front v m = Some m'" "mb_wf m'" "mb_msgs m' = v # mb_msgs m"
    "mb_size m' = mb_size m" "mb_obj m' = mb_obj m" "mb_prio m' = mb_prio m" "mb_system m' = mb_system m"
proof -
  note w = wf [unfolded mb_wf_def]
  have sz: "0 < mb_size m" "mb_entry m < mb_size m" "mb_out_offset m < mb_size m" "mb_size m < 0x10000"
    using w room by (auto split: if_splits)
  let ?i = "(mb_out_offset m + mb_size m - 1) mod mb_size m"
  let ?m' = "m\<lparr>mb_msg_pool := (mb_msg_pool m)[?i := v], mb_out_offset := ?i, mb_entry := mb_entry m + 1\<rparr>"
  have "(if 0 < mb_out_offset m then mb_out_offset m - 1 else mb_size m - 1) = ?i"
    using sz by (cases "mb_out_offset m") auto
  moreover have "?i < length (mb_msg_pool m)"
    using sz w by (intro less_le_trans [OF mod_less_divisor]) auto
  ultimately have "mb_enqueue_front v m = Some ?m'"
    using sz by (simp add: mb_enqueue_front_def Let_def)
  moreover have "(?i + (mb_entry m + 1)) mod mb_size m = mb_in_offset m"
  proof -
    have "(?i + (mb_entry m + 1)) mod mb_size m
        = (mb_out_offset m + mb_size m - 1 + (mb_entry m + 1)) mod mb_size m" by (rule mod_add_left_eq)
    also have "mb_out_offset m + mb_size m - 1 + (mb_entry m + 1) = mb_out_offset m + mb_entry m + mb_size m"
      using sz by simp
    finally show ?thesis using w by simp
  qed
  then have "mb_wf ?m'" using sz w by (simp add: mb_wf_def)
  moreover have "mb_msgs ?m' = v # mb_msgs m"
    using window_write_front [OF sz(2), of "mb_msg_pool m" "mb_out_offset m" v] w
    by (simp add: mb_msgs_def)
  ultimately show thesis by (rule that) simp_all
qed

lemma mb_dequeue_ok:
  assumes wf: "mb_wf m" and ne: "mb_entry m \<noteq> 0"
  obtains m' v where "mb_dequeue m = Some (v, m')" "mb_wf m'" "mb_msgs m = v # mb_msgs m'"
    "mb_size m' = mb_size m" "mb_obj m' = mb_obj m" "mb_prio m' = mb_prio m" "mb_system m' = mb_system m"
proof -
  note w = wf [unfolded mb_wf_def]
  have sz: "0 < mb_size m" "mb_out_offset m < mb_size m" "mb_size m < 0x10000"
    using w ne by (auto split: if_splits)
  have len: "mb_out_offset m < length (mb_msg_pool m)" using sz w by linarith
  let ?m' = "m\<lparr>mb_out_offset := (mb_out_offset m + 1) mod mb_size m, mb_entry := mb_entry m - 1\<rparr>"
  have deq: "mb_dequeue m = Some (mb_msg_pool m ! mb_out_offset m, ?m')"
    using sz len ne next_offset [OF sz(2,3)] by (simp add: mb_dequeue_def)
  have in_eq: "((mb_out_offset m + 1) mod mb_size m + (mb_entry m - 1)) mod mb_size m = mb_in_offset m"
  proof -
    obtain k where "mb_entry m = Suc k" using ne by (cases "mb_entry m") auto
    then show ?thesis using w mod_add_left_eq [of "mb_out_offset m + 1" "mb_size m" k] by simp
  qed
  have "mb_entry m - 1 \<le> mb_size m" using w by linarith
  then have "mb_wf ?m'" using sz w in_eq by (simp add: mb_wf_def)
  moreover have "mb_msgs m = mb_msg_pool m ! mb_out_offset m # mb_msgs ?m'"
  proof -
    have "mb_msgs m = window (mb_msg_pool m) (mb_size m) (mb_out_offset m) (1 + (mb_entry m - 1))"
      using ne by (simp add: mb_msgs_def)
    then show ?thesis
      unfolding window_append using sz by (simp add: mb_msgs_def window_def mod_add_left_eq)
  qed
  ultimately show thesis by (rule that [OF deq]) simp_all
qed


text \<open>The non-blocking core as an instance of the bounded queue.\<close>

definition mb_put :: "rt_mailbox \<Rightarrow> rt_uint32_t \<Rightarrow> (rt_mailbox \<times> bool) option" where
  "mb_put m v = (if mb_entry m = mb_size m then Some (m, False)
     else map_option (\<lambda>(ok, m'). (m', ok)) (mb_enqueue v m))"

definition mb_get :: "rt_mailbox \<Rightarrow> (rt_mailbox \<times> rt_uint32_t option) option" where
  "mb_get m = (if mb_entry m = 0 then Some (m, None)
     else map_option (\<lambda>(v, m'). (m', Some v)) (mb_dequeue m))"

interpretation mbq: bounded_fifo mb_wf mb_msgs mb_size mb_put mb_get
proof unfold_locales
  show "length (mb_msgs m) \<le> mb_size m" if "mb_wf m" for m
    using that by (simp add: mb_wf_def)
  show "\<exists>m'. mb_put m v = Some (m', True) \<and> mb_wf m' \<and> mb_msgs m' = mb_msgs m @ [v]
      \<and> mb_size m' = mb_size m" if wf: "mb_wf m" and room: "length (mb_msgs m) < mb_size m" for m v
  proof -
    have "mb_entry m \<noteq> mb_size m" using room by simp
    then obtain m' where "mb_enqueue v m = Some (True, m')" "mb_wf m'" "mb_msgs m' = mb_msgs m @ [v]"
        "mb_size m' = mb_size m"
      using mb_enqueue_ok [OF wf] by metis
    then show ?thesis using \<open>mb_entry m \<noteq> mb_size m\<close> by (simp add: mb_put_def)
  qed
  show "mb_put m v = Some (m, False)" if "mb_wf m" "length (mb_msgs m) = mb_size m" for m v
    using that by (simp add: mb_put_def)
  show "\<exists>m'. mb_get m = Some (m', Some v) \<and> mb_wf m' \<and> mb_msgs m' = vs \<and> mb_size m' = mb_size m"
    if wf: "mb_wf m" and items: "mb_msgs m = v # vs" for m v vs
  proof -
    have "mb_entry m \<noteq> 0" using items length_mb_msgs [of m] by auto
    then obtain m' w where "mb_dequeue m = Some (w, m')" "mb_wf m'" "mb_msgs m = w # mb_msgs m'"
        "mb_size m' = mb_size m"
      using mb_dequeue_ok [OF wf] by metis
    then show ?thesis using items \<open>mb_entry m \<noteq> 0\<close> by (simp add: mb_get_def)
  qed
  show "mb_get m = Some (m, None)" if "mb_wf m" "mb_msgs m = []" for m
    using that length_mb_msgs [of m] by (simp add: mb_get_def)
qed


section \<open>Waking and waiting\<close>

lemma upd_mb_simps [simp]:
  "k_thread (upd_mb n f s) = k_thread s" "k_lists (upd_mb n f s) = k_lists s"
  "k_group (upd_mb n f s) = k_group s" "k_current (upd_mb n f s) = k_current s"
  "k_lock_nest (upd_mb n f s) = k_lock_nest s" "k_irq_nest (upd_mb n f s) = k_irq_nest s"
  "k_tick (upd_mb n f s) = k_tick s" "k_timer (upd_mb n f s) = k_timer s"
  "k_timers (upd_mb n f s) = k_timers s" "k_mb (upd_mb n f s) = (k_mb s)(n := f (k_mb s n))"
  "k_sem (upd_mb n f s) = k_sem s" "k_mutex (upd_mb n f s) = k_mutex s"
  "k_event (upd_mb n f s) = k_event s" "k_mq (upd_mb n f s) = k_mq s" "k_mp (upd_mb n f s) = k_mp s" "k_drv (upd_mb n f s) = k_drv s"
  by (simp_all add: upd_mb_def)

lemma kinv_upd_mb [simp]: "kinv (upd_mb n f s) = kinv s"
  by (rule kinv_cong) simp_all

lemma ipc_wake_ok:
  assumes inv: "kinv s" and cur: "k_current s = Some c" and h: "wait_queue h"
  obtains s' where "ipc_wake h s = Some s'" "kinv s'" "objs_frame s s'" "k_tick s' = k_tick s"
    "\<exists>c'. k_current s' = Some c'"
    "\<And>g. wait_queue g \<Longrightarrow> k_lists s' g = (if g = h then tl (k_lists s h) else k_lists s g)"
    "\<And>u. th_core (k_thread s' u) = th_core (k_thread s u)"
    "\<And>t ts. k_lists s h = t # ts \<Longrightarrow> th_base s' t \<in> {RT_THREAD_READY, RT_THREAD_RUNNING}"
    "k_lock_nest s = 0 \<Longrightarrow> k_lists s h \<noteq> [] \<Longrightarrow> runs_most_urgent s'"
proof (cases "k_lists s h")
  case Nil
  then show thesis
    using that [of s] inv cur by (simp add: ipc_wake_def objs_frame_def)
next
  case (Cons t ts)
  obtain s1 where s1: "ipc_list_resume h s = Some s1" "kinv s1"
      "th_base s1 t = (if k_current s = Some t then RT_THREAD_RUNNING else RT_THREAD_READY)"
      "\<And>g. wait_queue g \<Longrightarrow> k_lists s1 g = (if g = h then ts else k_lists s g)"
      "thread_frame {t} s s1"
    using list_resume_ok [OF inv h Cons] by blast
  note fr1 = thread_frameD [OF s1(5)]
  have cur1: "k_current s1 = Some c" using fr1(5) cur by simp
  obtain s' where s': "rt_schedule s1 = Some s'" "kinv s'" "sched_frame s1 s'"
      "\<exists>c'. k_current s' = Some c'"
      "k_lock_nest s1 = 0 \<Longrightarrow> th_base s1 c = RT_THREAD_RUNNING \<or>
         (\<exists>t. th_base s1 t = RT_THREAD_READY) \<Longrightarrow> runs_most_urgent s'"
    using schedule_kinv [OF s1(2) cur1] by metis
  note fr = sched_frameD [OF s'(3)]
  have run: "th_base s1 t \<in> {RT_THREAD_READY, RT_THREAD_RUNNING}" using s1(3) by simp
  show thesis
  proof (rule that)
    show "ipc_wake h s = Some s'" using Cons s1(1) s'(1) by (simp add: ipc_wake_def)
    show "objs_frame s s'" using fr(1) fr1(1) objs_frame_trans by blast
    show "k_tick s' = k_tick s" using fr(2) fr1(2) by simp
    show "k_lists s' g = (if g = h then tl (k_lists s h) else k_lists s g)" if "wait_queue g" for g
    proof -
      have "k_lists s' g = k_lists s1 g" using that by (intro fr(10)) auto
      then show ?thesis using s1(4) [OF that] Cons by simp
    qed
    show "th_core (k_thread s' u) = th_core (k_thread s u)" for u
      using fr(7) [of u] fr1(7) [of u] by simp
    show "th_base s' u \<in> {RT_THREAD_READY, RT_THREAD_RUNNING}" if "k_lists s h = u # us" for u us
      using fr(9) [OF run] that Cons by simp
    show "runs_most_urgent s'" if "k_lock_nest s = 0" "k_lists s h \<noteq> []"
    proof -
      have "th_base s1 c = RT_THREAD_RUNNING \<or> (\<exists>t. th_base s1 t = RT_THREAD_READY)"
        using s1(3) cur by (cases "c = t") auto
      then show ?thesis using s'(5) that(1) fr1(3) by simp
    qed
  qed (rule s'(2) s'(4))+
qed

text \<open>The running thread clears its error and waits.\<close>

lemma block_in_ok:
  assumes inv: "kinv s" and t: "may_block s t" and h: "wait_queue h" and pl: "place_ok pl" and tmo: "timeout_ok timeout"
  obtains s' where "wait_in pl h t timeout (upd_thread t (\<lambda>th. th\<lparr>th_error := RT_EOK\<rparr>) s) = Some s'"
    "kinv s'" "th_base s' t = RT_THREAD_SUSPEND" "objs_frame s s'" "k_tick s' = k_tick s"
    "\<And>g. wait_queue g \<Longrightarrow> k_lists s' g
       = (if g = h then pl (th_prio s) t (k_lists s h) else k_lists s g)"
    "0 < timeout \<Longrightarrow> tm_row (k_timer s' (ThreadTimer t)) = Some Timer_list
       \<and> tm_timeout_tick (k_timer s' (ThreadTimer t)) = k_tick s + word_of_int timeout"
    "th_error (k_thread s' t) = RT_EOK"
    "\<exists>u. th_base s u = RT_THREAD_READY \<Longrightarrow> runs_most_urgent s'"
proof -
  let ?s1 = "upd_thread t (\<lambda>th. th\<lparr>th_error := RT_EOK\<rparr>) s"
  note tD = may_blockD [OF t]
  have inv1: "kinv ?s1" by (rule kinv_set_error [OF inv])
  have c1: "k_current ?s1 = Some t" "th_base ?s1 t = RT_THREAD_RUNNING" using tD(1,2) by simp_all
  have pr: "th_prio ?s1 = th_prio s" by auto
  obtain s' where s': "wait_in pl h t timeout ?s1 = Some s'" "kinv s'"
      "th_base s' t = RT_THREAD_SUSPEND" "th_tlist (k_thread s' t) = Some h"
      "\<And>g. wait_queue g \<Longrightarrow> k_lists s' g = (if g = h
         then pl (th_prio ?s1) t (k_lists ?s1 h) else k_lists ?s1 g)"
      "0 < timeout \<Longrightarrow> tm_row (k_timer s' (ThreadTimer t)) = Some Timer_list
         \<and> tm_timeout_tick (k_timer s' (ThreadTimer t)) = k_tick ?s1 + word_of_int timeout"
      "objs_frame ?s1 s'" "k_tick s' = k_tick ?s1"
      "\<And>u. th_core (k_thread s' u) = th_core (k_thread ?s1 u)"
      "k_lock_nest ?s1 = 0 \<Longrightarrow> \<exists>u. th_base ?s1 u = RT_THREAD_READY \<Longrightarrow> runs_most_urgent s'"
    by (rule wait_in_ok [OF inv1 c1 h pl tmo]) blast
  have rdy: "\<exists>u. th_base ?s1 u = RT_THREAD_READY" if "\<exists>u. th_base s u = RT_THREAD_READY"
    using that by auto
  show thesis
  proof (rule that)
    show "th_error (k_thread s' t) = RT_EOK" using th_core_simps [OF s'(9), of t] by simp
    show "k_lists s' g = (if g = h then pl (th_prio s) t (k_lists s h)
        else k_lists s g)" if "wait_queue g" for g
      using s'(5) [OF that] unfolding pr by simp
    show "runs_most_urgent s'" if "\<exists>u. th_base s u = RT_THREAD_READY"
      using s'(10) rdy [OF that] tD(3) by simp
    show "objs_frame s s'" using s'(7) by (simp add: objs_frame_def)
  qed (use s' in auto)
qed

lemmas block_ok = block_in_ok [where pl = "queue_insert flag" for flag, folded suspend_in_eq, OF _ _ _ place_ok_simps(1)]


section \<open>Sending and receiving\<close>

text \<open>What a mailbox operation leaves alone besides the queues.\<close>

definition mb_frame :: "nat \<Rightarrow> kstate \<Rightarrow> kstate \<Rightarrow> bool" where
  "mb_frame n s s' \<longleftrightarrow> (\<forall>m. m \<noteq> n \<longrightarrow> k_mb s' m = k_mb s m) \<and> k_sem s' = k_sem s
     \<and> k_mutex s' = k_mutex s \<and> k_event s' = k_event s \<and> k_mq s' = k_mq s \<and> k_tick s' = k_tick s
     \<and> mb_size (k_mb s' n) = mb_size (k_mb s n) \<and> mb_obj (k_mb s' n) = mb_obj (k_mb s n)
     \<and> mb_prio (k_mb s' n) = mb_prio (k_mb s n)"

lemma mb_update_wake_ok:
  assumes inv: "kinv s" and cur: "k_current s = Some c" and h: "wait_queue h"
    and m': "mb_size m' = mb_size (k_mb s n)" "mb_obj m' = mb_obj (k_mb s n)"
      "mb_prio m' = mb_prio (k_mb s n)"
  obtains s' where "ipc_wake h (upd_mb n (\<lambda>_. m') s) = Some s'" "kinv s'" "k_mb s' n = m'"
    "mb_frame n s s'" "\<exists>c'. k_current s' = Some c'"
    "\<And>g. wait_queue g \<Longrightarrow> k_lists s' g = (if g = h then tl (k_lists s h) else k_lists s g)"
    "\<And>u. th_core (k_thread s' u) = th_core (k_thread s u)"
    "\<And>t ts. k_lists s h = t # ts \<Longrightarrow> th_base s' t \<in> {RT_THREAD_READY, RT_THREAD_RUNNING}"
    "k_lock_nest s = 0 \<Longrightarrow> k_lists s h \<noteq> [] \<Longrightarrow> runs_most_urgent s'"
proof -
  let ?s1 = "upd_mb n (\<lambda>_. m') s"
  have inv1: "kinv ?s1" and cur1: "k_current ?s1 = Some c" using inv cur by simp_all
  obtain s' where s': "ipc_wake h ?s1 = Some s'" "kinv s'" "objs_frame ?s1 s'" "k_tick s' = k_tick ?s1"
    "\<exists>c'. k_current s' = Some c'"
    "\<And>g. wait_queue g \<Longrightarrow> k_lists s' g = (if g = h then tl (k_lists ?s1 h) else k_lists ?s1 g)"
    "\<And>u. th_core (k_thread s' u) = th_core (k_thread ?s1 u)"
    "\<And>t ts. k_lists ?s1 h = t # ts \<Longrightarrow> th_base s' t \<in> {RT_THREAD_READY, RT_THREAD_RUNNING}"
    "k_lock_nest ?s1 = 0 \<Longrightarrow> k_lists ?s1 h \<noteq> [] \<Longrightarrow> runs_most_urgent s'"
    by (rule ipc_wake_ok [OF inv1 cur1 h]) blast
  have mb: "k_mb s' = (k_mb s)(n := m')" using s'(3) by (simp add: objs_frame_def)
  have fr: "mb_frame n s s'" using s'(3,4) m' unfolding mb_frame_def mb by (simp add: objs_frame_def)
  show thesis by (rule that [OF s'(1,2) _ fr s'(5)]) (use s' mb in simp_all)
qed

lemma mb_send_finish_ok:
  assumes inv: "kinv s" and cur: "k_current s = Some c" and wf: "mb_wf (k_mb s n)"
    and room: "mb_entry (k_mb s n) \<noteq> mb_size (k_mb s n)"
  obtains s' where "mb_send_finish n v s = Some (Returned RT_EOK, s')" "kinv s'" "mb_wf (k_mb s' n)"
    "mb_msgs (k_mb s' n) = mb_msgs (k_mb s n) @ [v]" "mb_frame n s s'" "\<exists>c'. k_current s' = Some c'"
    "\<And>g. wait_queue g \<Longrightarrow> k_lists s' g = (if g = MbRecvQ n then tl (k_lists s g) else k_lists s g)"
    "\<And>u. th_core (k_thread s' u) = th_core (k_thread s u)"
    "\<And>t ts. k_lists s (MbRecvQ n) = t # ts \<Longrightarrow> th_base s' t \<in> {RT_THREAD_READY, RT_THREAD_RUNNING}"
    "k_lock_nest s = 0 \<Longrightarrow> k_lists s (MbRecvQ n) \<noteq> [] \<Longrightarrow> runs_most_urgent s'"
proof -
  obtain m' where m': "mb_enqueue v (k_mb s n) = Some (True, m')" "mb_wf m'"
      "mb_msgs m' = mb_msgs (k_mb s n) @ [v]" "mb_size m' = mb_size (k_mb s n)"
      "mb_obj m' = mb_obj (k_mb s n)" "mb_prio m' = mb_prio (k_mb s n)"
    using mb_enqueue_ok [OF wf room] by metis
  have h: "wait_queue (MbRecvQ n)" by simp
  obtain s' where s': "ipc_wake (MbRecvQ n) (upd_mb n (\<lambda>_. m') s) = Some s'" "kinv s'" "k_mb s' n = m'"
    "mb_frame n s s'" "\<exists>c'. k_current s' = Some c'"
    "\<And>g. wait_queue g \<Longrightarrow>
       k_lists s' g = (if g = MbRecvQ n then tl (k_lists s (MbRecvQ n)) else k_lists s g)"
    "\<And>u. th_core (k_thread s' u) = th_core (k_thread s u)"
    "\<And>t ts. k_lists s (MbRecvQ n) = t # ts \<Longrightarrow> th_base s' t \<in> {RT_THREAD_READY, RT_THREAD_RUNNING}"
    "k_lock_nest s = 0 \<Longrightarrow> k_lists s (MbRecvQ n) \<noteq> [] \<Longrightarrow> runs_most_urgent s'"
    by (rule mb_update_wake_ok [OF inv cur h m'(4-6)]) blast
  show thesis
    by (rule that [of s']) (use s' m' in \<open>simp_all add: mb_send_finish_def\<close>)
qed

lemma mb_take_ok:
  assumes inv: "kinv s" and cur: "k_current s = Some c" and wf: "mb_wf (k_mb s n)"
    and ne: "mb_entry (k_mb s n) \<noteq> 0"
  obtains s' v where "mb_recv_loop n timeout self s = Some (Returned (RT_EOK, Some v), s')" "kinv s'"
    "mb_wf (k_mb s' n)" "mb_msgs (k_mb s n) = v # mb_msgs (k_mb s' n)" "mb_frame n s s'"
    "\<exists>c'. k_current s' = Some c'"
    "\<And>g. wait_queue g \<Longrightarrow> k_lists s' g = (if g = MbSendQ n then tl (k_lists s g) else k_lists s g)"
    "\<And>u. th_core (k_thread s' u) = th_core (k_thread s u)"
    "\<And>t ts. k_lists s (MbSendQ n) = t # ts \<Longrightarrow> th_base s' t \<in> {RT_THREAD_READY, RT_THREAD_RUNNING}"
    "k_lock_nest s = 0 \<Longrightarrow> k_lists s (MbSendQ n) \<noteq> [] \<Longrightarrow> runs_most_urgent s'"
proof -
  obtain m' v where m': "mb_dequeue (k_mb s n) = Some (v, m')" "mb_wf m'"
      "mb_msgs (k_mb s n) = v # mb_msgs m'" "mb_size m' = mb_size (k_mb s n)"
      "mb_obj m' = mb_obj (k_mb s n)" "mb_prio m' = mb_prio (k_mb s n)"
    using mb_dequeue_ok [OF wf ne] by metis
  have h: "wait_queue (MbSendQ n)" by simp
  obtain s' where s': "ipc_wake (MbSendQ n) (upd_mb n (\<lambda>_. m') s) = Some s'" "kinv s'" "k_mb s' n = m'"
    "mb_frame n s s'" "\<exists>c'. k_current s' = Some c'"
    "\<And>g. wait_queue g \<Longrightarrow>
       k_lists s' g = (if g = MbSendQ n then tl (k_lists s (MbSendQ n)) else k_lists s g)"
    "\<And>u. th_core (k_thread s' u) = th_core (k_thread s u)"
    "\<And>t ts. k_lists s (MbSendQ n) = t # ts \<Longrightarrow> th_base s' t \<in> {RT_THREAD_READY, RT_THREAD_RUNNING}"
    "k_lock_nest s = 0 \<Longrightarrow> k_lists s (MbSendQ n) \<noteq> [] \<Longrightarrow> runs_most_urgent s'"
    by (rule mb_update_wake_ok [OF inv cur h m'(4-6)]) blast
  show thesis
    by (rule that [of v s']) (use s' m' ne in \<open>simp_all add: mb_recv_loop_def\<close>)
qed

text \<open>The time left after a wake-up is exact within half the tick range.\<close>

lemma remaining_exact:
  assumes "0 < timeout" "timeout_ok timeout" "unat (now - start) < 2 ^ 31"
  shows "remaining_timeout timeout start now = max 0 (timeout - int (unat (now - start)))"
proof -
  let ?e = "now - start"
  have e: "uint ?e = int (unat ?e)" "0 \<le> uint ?e" by simp_all
  have "int (unat ?e) < int (2 ^ 31)" using assms(3) by (simp only: of_nat_less_iff)
  then have lt: "uint ?e < 2147483648" unfolding e(1) by simp
  have w: "word_of_int timeout - ?e = (word_of_int (timeout - uint ?e) :: 32 word)"
    by simp
  have tmo: "timeout < 2147483647" using assms(2) by (simp add: timeout_ok_def)
  have "- 2147483648 \<le> timeout - uint ?e" "timeout - uint ?e < 2147483648"
    using assms(1) tmo e(2) lt by linarith+
  then have "sint (word_of_int (timeout - uint ?e) :: 32 word) = timeout - uint ?e"
    unfolding sint_sbintrunc' by (intro signed_take_bit_int_eq_self) simp_all
  then have "sint (word_of_int timeout - ?e :: 32 word) = timeout - int (unat ?e)"
    unfolding w e(1) .
  then show ?thesis using assms(1) unfolding remaining_timeout_def by (simp only: if_True)
qed

lemma remaining_ok:
  assumes "timeout_ok timeout" "unat (now - start) < 2 ^ 31"
  shows "timeout_ok (remaining_timeout timeout start now)"
proof (cases "0 < timeout")
  case True
  have "timeout - int (unat (now - start)) \<le> timeout" using of_nat_0_le_iff by linarith
  then have "timeout - int (unat (now - start)) < 2 ^ 31 - 1"
    using assms(1) unfolding timeout_ok_def by linarith
  then show ?thesis using remaining_exact [OF True assms] by (simp add: timeout_ok_def)
next
  case False
  then show ?thesis using assms(1) by (simp add: remaining_timeout_def)
qed


lemma mb_send_blocks:
  assumes inv: "kinv s" and t: "may_block s t" and full: "mb_entry (k_mb s n) = mb_size (k_mb s n)"
    and tmo: "timeout \<noteq> 0" "timeout_ok timeout"
  obtains s' where "mb_send_loop n v timeout (Some t) s = Some (Blocked, s')" "kinv s'"
    "k_mb s' = k_mb s"
proof -
  have h: "wait_queue (MbSendQ n)" by simp
  obtain s' where s': "ipc_wait (MbSendQ n) (mb_prio (k_mb s n)) t timeout
      (upd_thread t (\<lambda>th. th\<lparr>th_error := RT_EOK\<rparr>) s) = Some s'" "kinv s'" "objs_frame s s'"
    using block_ok [OF inv t h tmo(2), of "mb_prio (k_mb s n)"] by metis
  show thesis
    by (rule that [of s']) (use s' full tmo(1) in \<open>simp_all add: mb_send_loop_def objs_frame_def\<close>)
qed

lemma mb_recv_blocks:
  assumes inv: "kinv s" and t: "may_block s t" and empty: "mb_entry (k_mb s n) = 0"
    and tmo: "timeout \<noteq> 0" "timeout_ok timeout"
  obtains s' where "mb_recv_loop n timeout (Some t) s = Some (Blocked, s')" "kinv s'"
    "k_mb s' = k_mb s" "th_base s' t = RT_THREAD_SUSPEND"
    "k_lists s' (MbRecvQ n) = queue_insert (mb_prio (k_mb s n)) (th_prio s) t (k_lists s (MbRecvQ n))"
    "0 < timeout \<Longrightarrow> tm_row (k_timer s' (ThreadTimer t)) = Some Timer_list
       \<and> tm_timeout_tick (k_timer s' (ThreadTimer t)) = k_tick s + word_of_int timeout"
proof -
  have h: "wait_queue (MbRecvQ n)" by simp
  obtain s' where s': "ipc_wait (MbRecvQ n) (mb_prio (k_mb s n)) t timeout
      (upd_thread t (\<lambda>th. th\<lparr>th_error := RT_EOK\<rparr>) s) = Some s'" "kinv s'"
      "th_base s' t = RT_THREAD_SUSPEND" "objs_frame s s'" "k_tick s' = k_tick s"
      "\<And>g. wait_queue g \<Longrightarrow> k_lists s' g = (if g = MbRecvQ n
         then queue_insert (mb_prio (k_mb s n)) (th_prio s) t (k_lists s (MbRecvQ n)) else k_lists s g)"
      "0 < timeout \<Longrightarrow> tm_row (k_timer s' (ThreadTimer t)) = Some Timer_list
         \<and> tm_timeout_tick (k_timer s' (ThreadTimer t)) = k_tick s + word_of_int timeout"
    by (rule block_ok [OF inv t h tmo(2), of "mb_prio (k_mb s n)"]) blast
  show thesis
    by (rule that [of s']) (use s' empty tmo(1) in \<open>simp_all add: mb_recv_loop_def objs_frame_def\<close>)
qed

text \<open>One turn of either loop, whatever its outcome.\<close>

lemma mb_send_loop_step:
  assumes inv: "kinv s" and wf: "mb_wf (k_mb s n)" and cur: "k_current s = Some c"
    and t: "mb_entry (k_mb s n) = mb_size (k_mb s n) \<Longrightarrow> timeout \<noteq> 0 \<Longrightarrow> may_block s t"
    and tmo: "timeout_ok timeout" and run: "mb_send_loop n v timeout (Some t) s = Some (r, s')"
  shows "kinv s' \<and> mb_wf (k_mb s' n) \<and> mb_msgs (k_mb s' n)
     = mb_msgs (k_mb s n) @ (if r = Returned RT_EOK then [v] else [])"
proof (cases "mb_entry (k_mb s n) = mb_size (k_mb s n)")
  case False
  obtain s'' where "mb_send_finish n v s = Some (Returned RT_EOK, s'')" "kinv s''"
      "mb_wf (k_mb s'' n)" "mb_msgs (k_mb s'' n) = mb_msgs (k_mb s n) @ [v]"
    using mb_send_finish_ok [OF inv cur wf False] by metis
  then show ?thesis using run False by (simp add: mb_send_loop_def)
next
  case True
  show ?thesis
  proof (cases "timeout = 0")
    case True
    then show ?thesis
      using run inv wf \<open>mb_entry (k_mb s n) = mb_size (k_mb s n)\<close>
      by (auto simp: mb_send_loop_def kinv_set_error)
  next
    case False
    obtain s'' where "mb_send_loop n v timeout (Some t) s = Some (Blocked, s'')" "kinv s''"
        "k_mb s'' = k_mb s"
      using mb_send_blocks [OF inv t [OF True False] True False tmo] by metis
    then show ?thesis using run wf by auto
  qed
qed

definition received :: "(rt_err_t \<times> 'a option) outcome \<Rightarrow> 'a list" where
  "received r = (case r of Returned (e, Some v) \<Rightarrow> [v] | _ \<Rightarrow> [])"

lemma mb_recv_loop_step:
  assumes inv: "kinv s" and wf: "mb_wf (k_mb s n)" and cur: "k_current s = Some c"
    and t: "mb_entry (k_mb s n) = 0 \<Longrightarrow> timeout \<noteq> 0 \<Longrightarrow> may_block s t"
    and tmo: "timeout_ok timeout" and run: "mb_recv_loop n timeout (Some t) s = Some (r, s')"
  shows "kinv s' \<and> mb_wf (k_mb s' n) \<and> mb_msgs (k_mb s n) = received r @ mb_msgs (k_mb s' n)"
proof (cases "mb_entry (k_mb s n) = 0")
  case False
  obtain s'' v where "mb_recv_loop n timeout (Some t) s = Some (Returned (RT_EOK, Some v), s'')" "kinv s''"
      "mb_wf (k_mb s'' n)" "mb_msgs (k_mb s n) = v # mb_msgs (k_mb s'' n)"
    using mb_take_ok [OF inv cur wf False] by metis
  then show ?thesis using run by (auto simp: received_def)
next
  case True
  show ?thesis
  proof (cases "timeout = 0")
    case True
    then show ?thesis
      using run inv wf \<open>mb_entry (k_mb s n) = 0\<close>
      by (auto simp: mb_recv_loop_def received_def kinv_set_error)
  next
    case False
    obtain s'' where "mb_recv_loop n timeout (Some t) s = Some (Blocked, s'')" "kinv s''"
        "k_mb s'' = k_mb s"
      using mb_recv_blocks [OF inv t [OF True False] True False tmo] by metis
    then show ?thesis using run wf by (auto simp: received_def)
  qed
qed


section \<open>Histories\<close>

text \<open>
  A mailbox through any history of sends (from threads, waiting or not, and from interrupts),
  receives, resumptions of either, and other kernel activity; ins lists the messages whose send
  succeeded, outs the messages that were received, in order.
\<close>

inductive mb_history :: "nat \<Rightarrow> kstate \<Rightarrow> rt_uint32_t list \<Rightarrow> rt_uint32_t list \<Rightarrow> bool" for n where
  start: "\<lbrakk>kinv s; mb_wf (k_mb s n); mb_msgs (k_mb s n) = []\<rbrakk> \<Longrightarrow> mb_history n s [] []"
| send: "\<lbrakk>mb_history n s ins outs; may_block s t; timeout_ok timeout;
      rt_mb_send_wait n v timeout s = Some (r, s')\<rbrakk>
    \<Longrightarrow> mb_history n s' (ins @ (if r = Returned RT_EOK then [v] else [])) outs"
| send_interrupt: "\<lbrakk>mb_history n s ins outs; k_current s = Some c; rt_mb_send n v s = Some (r, s')\<rbrakk>
    \<Longrightarrow> mb_history n s' (ins @ (if r = Returned RT_EOK then [v] else [])) outs"
| send_resumed: "\<lbrakk>mb_history n s ins outs; may_block s t; timeout_ok timeout;
      unat (k_tick s - start) < 2 ^ 31; mb_send_resume n v timeout start t s = Some (r, s')\<rbrakk>
    \<Longrightarrow> mb_history n s' (ins @ (if r = Returned RT_EOK then [v] else [])) outs"
| recv: "\<lbrakk>mb_history n s ins outs; may_block s t; timeout_ok timeout;
      rt_mb_recv n timeout s = Some (r, s')\<rbrakk> \<Longrightarrow> mb_history n s' ins (outs @ received r)"
| recv_resumed: "\<lbrakk>mb_history n s ins outs; may_block s t; timeout_ok timeout;
      unat (k_tick s - start) < 2 ^ 31; mb_recv_resume n timeout start t s = Some (r, s')\<rbrakk>
    \<Longrightarrow> mb_history n s' ins (outs @ received r)"
| other: "\<lbrakk>mb_history n s ins outs; kinv s'; k_mb s' n = k_mb s n\<rbrakk> \<Longrightarrow> mb_history n s' ins outs"

lemma mb_send_step:
  assumes inv: "kinv s" and wf: "mb_wf (k_mb s n)" and cur: "k_current s = Some t"
    and t: "timeout \<noteq> 0 \<Longrightarrow> may_block s t" and tmo: "timeout_ok timeout"
    and run: "rt_mb_send_wait n v timeout s = Some (r, s')"
  shows "kinv s' \<and> mb_wf (k_mb s' n) \<and> mb_msgs (k_mb s' n)
     = mb_msgs (k_mb s n) @ (if r = Returned RT_EOK then [v] else [])"
proof (cases "mb_entry (k_mb s n) = mb_size (k_mb s n) \<and> timeout = 0")
  case True
  then have "r = Returned (- RT_EFULL) \<and> s' = s"
    using run by (auto simp: rt_mb_send_wait_def bind_eq_Some_conv)
  then show ?thesis using inv wf by simp
next
  case False
  then have loop: "mb_send_loop n v timeout (Some t) s = Some (r, s')"
    using run cur by (auto simp: rt_mb_send_wait_def rt_thread_self_def bind_eq_Some_conv)
  show ?thesis by (rule mb_send_loop_step [OF inv wf cur _ tmo loop]) (rule t)
qed

lemma mb_recv_step:
  assumes inv: "kinv s" and wf: "mb_wf (k_mb s n)" and cur: "k_current s = Some t"
    and t: "timeout \<noteq> 0 \<Longrightarrow> may_block s t" and tmo: "timeout_ok timeout"
    and run: "rt_mb_recv n timeout s = Some (r, s')"
  shows "kinv s' \<and> mb_wf (k_mb s' n) \<and> mb_msgs (k_mb s n) = received r @ mb_msgs (k_mb s' n)"
proof (cases "mb_entry (k_mb s n) = 0 \<and> timeout = 0")
  case True
  then have "r = Returned (- RT_ETIMEOUT, None) \<and> s' = s"
    using run by (auto simp: rt_mb_recv_def bind_eq_Some_conv)
  then show ?thesis using inv wf by (simp add: received_def)
next
  case False
  then have loop: "mb_recv_loop n timeout (Some t) s = Some (r, s')"
    using run cur by (auto simp: rt_mb_recv_def rt_thread_self_def bind_eq_Some_conv)
  show ?thesis by (rule mb_recv_loop_step [OF inv wf cur _ tmo loop]) (rule t)
qed

lemma mb_send_resume_step:
  assumes inv: "kinv s" and wf: "mb_wf (k_mb s n)" and t: "may_block s t"
    and tmo: "timeout_ok timeout" "unat (k_tick s - start) < 2 ^ 31"
    and run: "mb_send_resume n v timeout start t s = Some (r, s')"
  shows "kinv s' \<and> mb_wf (k_mb s' n) \<and> mb_msgs (k_mb s' n)
     = mb_msgs (k_mb s n) @ (if r = Returned RT_EOK then [v] else [])"
proof (cases "th_error (k_thread s t) = RT_EOK")
  case True
  then have loop: "mb_send_loop n v (remaining_timeout timeout start (k_tick s)) (Some t) s = Some (r, s')"
    using run by (simp add: mb_send_resume_def rt_tick_get_def)
  show ?thesis
    by (rule mb_send_loop_step [OF inv wf may_blockD(1) [OF t] _ remaining_ok [OF tmo] loop]) (rule t)
qed (use run inv wf in \<open>auto simp: mb_send_resume_def\<close>)

lemma mb_recv_resume_step:
  assumes inv: "kinv s" and wf: "mb_wf (k_mb s n)" and t: "may_block s t"
    and tmo: "timeout_ok timeout" "unat (k_tick s - start) < 2 ^ 31"
    and run: "mb_recv_resume n timeout start t s = Some (r, s')"
  shows "kinv s' \<and> mb_wf (k_mb s' n) \<and> mb_msgs (k_mb s n) = received r @ mb_msgs (k_mb s' n)"
proof (cases "th_error (k_thread s t) = RT_EOK")
  case True
  then have loop: "mb_recv_loop n (remaining_timeout timeout start (k_tick s)) (Some t) s = Some (r, s')"
    using run by (simp add: mb_recv_resume_def rt_tick_get_def)
  show ?thesis
    by (rule mb_recv_loop_step [OF inv wf may_blockD(1) [OF t] _ remaining_ok [OF tmo] loop]) (rule t)
qed (use run inv wf in \<open>auto simp: mb_recv_resume_def received_def\<close>)

lemma mb_history_ok:
  "mb_history n s ins outs \<Longrightarrow> kinv s \<and> mb_wf (k_mb s n) \<and> ins = outs @ mb_msgs (k_mb s n)"
proof (induction rule: mb_history.induct)
  case (send s ins outs t timeout v r s')
  then show ?case using mb_send_step [of s n t timeout v r s'] may_blockD(1) by auto
next
  case (send_interrupt s ins outs c v r s')
  then show ?case
    using mb_send_step [of s n c 0 v r s'] by (auto simp: rt_mb_send_def timeout_ok_def)
next
  case (send_resumed s ins outs t timeout start v r s')
  then show ?case using mb_send_resume_step [of s n t timeout start v r s'] by auto
next
  case (recv s ins outs t timeout r s')
  then show ?case using mb_recv_step [of s n t timeout r s'] may_blockD(1) by auto
next
  case (recv_resumed s ins outs t timeout start r s')
  then show ?case using mb_recv_resume_step [of s n t timeout start r s'] by auto
qed simp_all


section \<open>Properties\<close>

text \<open>
  C10: mailboxes deliver in order.  In every history, the successfully sent messages are
  exactly the received ones followed by the stored ones, in order: none is lost, duplicated or
  overtaken; never more than the size are stored, and the kernel stays well formed.
\<close>

theorem mailbox_delivers_in_order:
  assumes "mb_history n s ins outs"
  shows "ins = outs @ mb_msgs (k_mb s n) \<and> length (mb_msgs (k_mb s n)) \<le> mb_size (k_mb s n) \<and> kinv s"
  using mb_history_ok [OF assms] mbq.bound [of "k_mb s n"] by simp

lemma sample_mb:
  "k_mb k_sample m = \<lparr>mb_obj = True, mb_system = True, mb_prio = False, mb_msg_pool = [0, 0],
     mb_size = 2, mb_entry = 0, mb_in_offset = 0, mb_out_offset = 0\<rparr>"
  by (simp add: k_sample_def)

lemma sample_mb_wf: "mb_wf (k_mb k_sample m)" "mb_msgs (k_mb k_sample m) = []"
  by (simp_all add: sample_mb mb_wf_def mb_msgs_def)

lemma sample_mb_history: "\<exists>s. mb_history 1 s [7, 8] []"
proof -
  have h0: "mb_history 1 k_sample [] []"
    by (rule mb_history.start [OF kinv_sample sample_mb_wf])
  let ?s1 = "upd_mb 1 (\<lambda>m. m\<lparr>mb_msg_pool := [7, 0], mb_in_offset := 1, mb_entry := 1\<rparr>) k_sample"
  let ?s2 = "upd_mb 1 (\<lambda>m. m\<lparr>mb_msg_pool := [7, 8], mb_in_offset := 0, mb_entry := Suc (Suc 0)\<rparr>) ?s1"
  have q: "lists_sample (MbRecvQ 1) = []" by (simp add: lists_sample_def)
  have r1: "rt_mb_send 1 7 k_sample = Some (Returned RT_EOK, ?s1)"
    using q by (simp add: rt_mb_send_def rt_mb_send_wait_def mb_send_loop_def mb_send_finish_def
        mb_enqueue_def mb_next_offset_def ipc_wake_def sample_mb upd_mb_def debug_scheduler_available_def)
  have h1: "mb_history 1 ?s1 [7] []"
    using mb_history.send_interrupt [OF h0 _ r1, of 0] by simp
  have r2: "rt_mb_send 1 8 ?s1 = Some (Returned RT_EOK, ?s2)"
    using q by (simp add: rt_mb_send_def rt_mb_send_wait_def mb_send_loop_def mb_send_finish_def
        mb_enqueue_def mb_next_offset_def ipc_wake_def sample_mb upd_mb_def debug_scheduler_available_def)
  have "mb_history 1 ?s2 [7, 8] []"
    using mb_history.send_interrupt [OF h1 _ r2, of 0] by simp
  then show ?thesis by blast
qed

theorem mailbox_delivers_in_order_witness:
  "\<exists>s. mb_msgs (k_mb s 1) = [7, 8] \<and> kinv s"
proof -
  obtain s where h: "mb_history 1 s [7, 8] []" using sample_mb_history by blast
  show ?thesis using mailbox_delivers_in_order [OF h] by (intro exI [of _ s]) simp
qed

text \<open>
  A message for a waiting receiver.  Sending to an empty mailbox with waiting receivers
  stores the message, wakes the first of them and lets the most urgent thread run; when the
  woken thread runs before anybody else touches the mailbox, its receive returns this message,
  whatever time has passed.
\<close>

theorem mailbox_hands_over:
  assumes "kinv s" "k_current s = Some c" "k_lock_nest s = 0" "mb_obj (k_mb s n)" "mb_wf (k_mb s n)"
    and "mb_msgs (k_mb s n) = []" "mb_size (k_mb s n) \<noteq> 0" "k_lists s (MbRecvQ n) = t # ts"
    and "th_error (k_thread s t) = RT_EOK"
  shows "\<exists>s'. rt_mb_send n v s = Some (Returned RT_EOK, s') \<and> kinv s' \<and> runs_most_urgent s'
      \<and> k_lists s' (MbRecvQ n) = ts \<and> th_base s' t \<in> {RT_THREAD_READY, RT_THREAD_RUNNING}
      \<and> (\<forall>u. kinv u \<and> k_current u = Some t \<and> k_mb u n = k_mb s' n
           \<and> th_error (k_thread u t) = th_error (k_thread s' t) \<longrightarrow>
           (\<exists>u'. mb_recv_resume n timeout start t u = Some (Returned (RT_EOK, Some v), u')
              \<and> kinv u' \<and> mb_msgs (k_mb u' n) = []))"
proof -
  have entry: "mb_entry (k_mb s n) = 0" using length_mb_msgs [of "k_mb s n"] assms(6) by simp
  then have room: "mb_entry (k_mb s n) \<noteq> mb_size (k_mb s n)" using assms(7) by simp
  obtain s' where s': "mb_send_finish n v s = Some (Returned RT_EOK, s')" "kinv s'" "mb_wf (k_mb s' n)"
    "mb_msgs (k_mb s' n) = mb_msgs (k_mb s n) @ [v]"
    "\<And>g. wait_queue g \<Longrightarrow> k_lists s' g = (if g = MbRecvQ n then tl (k_lists s g) else k_lists s g)"
    "\<And>u. th_core (k_thread s' u) = th_core (k_thread s u)"
    "\<And>t ts. k_lists s (MbRecvQ n) = t # ts \<Longrightarrow> th_base s' t \<in> {RT_THREAD_READY, RT_THREAD_RUNNING}"
    "k_lock_nest s = 0 \<Longrightarrow> k_lists s (MbRecvQ n) \<noteq> [] \<Longrightarrow> runs_most_urgent s'"
    by (rule mb_send_finish_ok [OF assms(1,2,5) room]) blast
  have send: "rt_mb_send n v s = Some (Returned RT_EOK, s')"
    using assms(4) room s'(1)
    by (simp add: rt_mb_send_def rt_mb_send_wait_def mb_send_loop_def debug_scheduler_available_def)
  have resume: "\<exists>u'. mb_recv_resume n timeout start t u = Some (Returned (RT_EOK, Some v), u')
      \<and> kinv u' \<and> mb_msgs (k_mb u' n) = []"
    if u: "kinv u" "k_current u = Some t" "k_mb u n = k_mb s' n"
      "th_error (k_thread u t) = th_error (k_thread s' t)" for u
  proof -
    have msgs: "mb_msgs (k_mb u n) = [v]" and wf: "mb_wf (k_mb u n)"
      using u(3) s'(3,4) assms(6) by simp_all
    have ne: "mb_entry (k_mb u n) \<noteq> 0" using length_mb_msgs [of "k_mb u n"] msgs by auto
    have err: "th_error (k_thread u t) = RT_EOK"
      using u(4) th_core_simps [OF s'(6), of t] assms(9) by simp
    obtain u' w where "mb_recv_loop n (remaining_timeout timeout start (rt_tick_get u)) (Some t) u
        = Some (Returned (RT_EOK, Some w), u')" "kinv u'" "mb_msgs (k_mb u n) = w # mb_msgs (k_mb u' n)"
      using mb_take_ok [OF u(1,2) wf ne] by metis
    then show ?thesis using err msgs by (intro exI [of _ u']) (simp add: mb_recv_resume_def)
  qed
  show ?thesis
    using send s'(2,7,8) s'(5) [of "MbRecvQ n"] assms(3,8) resume by (intro exI [of _ s']) auto
qed

theorem mailbox_hands_over_witness:
  "\<exists>s'. rt_mb_send 0 9 k_sample = Some (Returned RT_EOK, s') \<and> k_lists s' (MbRecvQ 0) = []
     \<and> th_base s' 6 \<in> {RT_THREAD_READY, RT_THREAD_RUNNING}"
proof -
  have "mb_obj (k_mb k_sample 0)" "mb_size (k_mb k_sample 0) \<noteq> 0" by (simp_all add: sample_mb)
  then show ?thesis
    using mailbox_hands_over [OF kinv_sample _ _ _ sample_mb_wf, of 0 0 6 "[]" 9]
    by fastforce
qed

text \<open>
  C12: waiting again does not extend the deadline.  A receiver that is woken without an error but
  finds the mailbox empty again waits until the tick its first wait would have ended at, or
  returns the timeout error at once if that tick has come.
\<close>

theorem mailbox_wait_keeps_deadline:
  assumes "kinv s" "may_block s t" "th_error (k_thread s t) = RT_EOK" "mb_entry (k_mb s n) = 0"
    and "0 < timeout" "timeout_ok timeout" "unat (k_tick s - start) < 2 ^ 31"
  shows "if int (unat (k_tick s - start)) < timeout
     then \<exists>s'. mb_recv_resume n timeout start t s = Some (Blocked, s') \<and> kinv s'
        \<and> th_base s' t = RT_THREAD_SUSPEND \<and> t \<in> set (k_lists s' (MbRecvQ n))
        \<and> tm_row (k_timer s' (ThreadTimer t)) = Some Timer_list
        \<and> tm_timeout_tick (k_timer s' (ThreadTimer t)) = start + word_of_int timeout
     else \<exists>s'. mb_recv_resume n timeout start t s = Some (Returned (- RT_ETIMEOUT, None), s') \<and> kinv s'"
proof -
  let ?e = "k_tick s - start"
  let ?rest = "remaining_timeout timeout start (k_tick s)"
  have rest: "?rest = max 0 (timeout - int (unat ?e))"
    by (rule remaining_exact [OF assms(5-7)])
  have eq: "mb_recv_resume n timeout start t s = mb_recv_loop n ?rest (Some t) s"
    using assms(3) by (simp add: mb_recv_resume_def rt_tick_get_def)
  show ?thesis
  proof (cases "int (unat ?e) < timeout")
    case True
    have pos: "?rest = timeout - int (unat ?e)" "?rest \<noteq> 0" "0 < ?rest" using rest True by simp_all
    obtain s' where s': "mb_recv_loop n ?rest (Some t) s = Some (Blocked, s')" "kinv s'"
      "k_mb s' = k_mb s" "th_base s' t = RT_THREAD_SUSPEND"
      "k_lists s' (MbRecvQ n) = queue_insert (mb_prio (k_mb s n)) (th_prio s) t (k_lists s (MbRecvQ n))"
      "0 < ?rest \<Longrightarrow> tm_row (k_timer s' (ThreadTimer t)) = Some Timer_list
         \<and> tm_timeout_tick (k_timer s' (ThreadTimer t)) = k_tick s + word_of_int ?rest"
      by (rule mb_recv_blocks [OF assms(1,2,4) pos(2) remaining_ok [OF assms(6,7)]]) blast
    have "k_tick s + word_of_int ?rest = start + word_of_int timeout"
      unfolding pos(1) by (simp add: algebra_simps)
    then show ?thesis using True s' pos(3) unfolding eq by (auto intro!: exI [of _ s'])
  next
    case False
    then have "?rest = 0" using rest by simp
    then show ?thesis
      using False assms(1,4) unfolding eq by (simp add: mb_recv_loop_def kinv_set_error)
  qed
qed

theorem mailbox_wait_keeps_deadline_witness:
  "\<exists>s'. mb_recv_resume 1 30 90 0 k_sample = Some (Blocked, s')
     \<and> tm_timeout_tick (k_timer s' (ThreadTimer 0)) = 120"
proof -
  have "mb_entry (k_mb k_sample 1) = 0" by (simp add: sample_mb)
  then show ?thesis
    using mailbox_wait_keeps_deadline [OF kinv_sample sample_may_block, of 1 30 90]
    by (fastforce simp: timeout_ok_def)
qed

end
