(* ===== verification/MsgQueue.thy ===== *)
theory MsgQueue
  imports Mailbox
begin

text \<open>
  Message queues of src/ipc.c: fixed-size blocks on a free list and on a queue.  Interrupts are
  disabled only while a block is taken from or put on a list; in between, the block belongs to the
  call that took it, and its contents are copied with interrupts enabled.  The functions on
  \<^typ>\<open>rt_messagequeue\<close> below are these pieces, and the operations are composed of them; what
  happens when the pieces of several calls interleave is the subject of \<open>mq_sections\<close>.
\<close>

section \<open>Blocks\<close>

abbreviation RT_MQ_ENTRY_MAX :: nat where "RT_MQ_ENTRY_MAX \<equiv> RT_UINT16_MAX"

text \<open>Taking a free block, with interrupts disabled.\<close>

definition mq_alloc :: "rt_messagequeue \<Rightarrow> (nat \<times> rt_messagequeue) option" where
  "mq_alloc m =
     (case mq_free m of None \<Rightarrow> None | Some b \<Rightarrow> Some (b, m\<lparr>mq_free := mq_next m b\<rparr>))"

text \<open>Copying a message into a block, with interrupts enabled.\<close>

definition mq_copy :: "nat \<Rightarrow> rt_uint8_t list \<Rightarrow> rt_messagequeue \<Rightarrow> rt_messagequeue" where
  "mq_copy b buf m =
     m\<lparr>mq_data := (mq_data m)(b := buf @ drop (length buf) (mq_data m b))\<rparr>"

definition mq_fill :: "nat \<Rightarrow> rt_uint8_t list \<Rightarrow> rt_messagequeue \<Rightarrow> rt_messagequeue" where
  "mq_fill b buf m = mq_copy b buf (m\<lparr>mq_next := (mq_next m)(b := None)\<rparr>)"

text \<open>Linking a block at the end or in front, with interrupts disabled.\<close>

definition mq_count :: "rt_messagequeue \<Rightarrow> bool \<times> rt_messagequeue" where
  "mq_count m =
     (if mq_entry m < RT_MQ_ENTRY_MAX then (True, m\<lparr>mq_entry := mq_entry m + 1\<rparr>) else (False, m))"

definition mq_link :: "nat \<Rightarrow> rt_messagequeue \<Rightarrow> bool \<times> rt_messagequeue" where
  "mq_link b m =
     (let m1 = (case mq_tail m of
                  None \<Rightarrow> m | Some t \<Rightarrow> m\<lparr>mq_next := (mq_next m)(t := Some b)\<rparr>);
          m2 = m1\<lparr>mq_tail := Some b\<rparr>;
          m3 = (if mq_head m2 = None then m2\<lparr>mq_head := Some b\<rparr> else m2)
      in mq_count m3)"

definition mq_link_front :: "nat \<Rightarrow> rt_messagequeue \<Rightarrow> bool \<times> rt_messagequeue" where
  "mq_link_front b m =
     (let m1 = m\<lparr>mq_next := (mq_next m)(b := mq_head m), mq_head := Some b\<rparr>;
          m2 = (if mq_tail m1 = None then m1\<lparr>mq_tail := Some b\<rparr> else m1)
      in mq_count m2)"

text \<open>Taking the first block of the queue; a NULL head would be dereferenced.\<close>

definition mq_unlink :: "rt_messagequeue \<Rightarrow> (nat \<times> rt_messagequeue) option" where
  "mq_unlink m =
     (case mq_head m of
        None \<Rightarrow> None
      | Some b \<Rightarrow> Some (b, m\<lparr>mq_head := mq_next m b,
            mq_tail := (if mq_tail m = Some b then None else mq_tail m),
            mq_entry := (if 0 < mq_entry m then mq_entry m - 1 else mq_entry m)\<rparr>))"

text \<open>Copying a message out of a block, and giving the block back.\<close>

definition mq_read :: "nat \<Rightarrow> nat \<Rightarrow> rt_messagequeue \<Rightarrow> rt_uint8_t list" where
  "mq_read b len m = take (if mq_msg_size m < len then mq_msg_size m else len) (mq_data m b)"

definition mq_put_back :: "nat \<Rightarrow> rt_messagequeue \<Rightarrow> rt_messagequeue" where
  "mq_put_back b m = m\<lparr>mq_next := (mq_next m)(b := mq_free m), mq_free := Some b\<rparr>"

text \<open>The free list of a new queue: the blocks are pushed in order.\<close>

definition mq_free_all :: "rt_messagequeue \<Rightarrow> rt_messagequeue" where
  "mq_free_all m = fold mq_put_back [0..<mq_max_msgs m] (m\<lparr>mq_free := None\<rparr>)"

text \<open>The loop of the reset command; it would not end on a cyclic queue.\<close>

partial_function (option) mq_release_all :: "rt_messagequeue \<Rightarrow> rt_messagequeue option" where
  "mq_release_all m =
     (case mq_head m of
        None \<Rightarrow> Some m
      | Some b \<Rightarrow> mq_release_all (mq_put_back b (m\<lparr>mq_head := mq_next m b,
            mq_tail := (if mq_tail m = Some b then None else mq_tail m)\<rparr>)))"


section \<open>Operations\<close>

definition upd_mq :: "nat \<Rightarrow> (rt_messagequeue \<Rightarrow> rt_messagequeue) \<Rightarrow> kstate \<Rightarrow> kstate" where
  "upd_mq n f s = s\<lparr>k_mq := (k_mq s)(n := f (k_mq s n))\<rparr>"

text \<open>\<^verbatim>\<open>RT_ALIGN(msg_size, RT_ALIGN_SIZE)\<close> in 32 bits, stored in 16.\<close>

definition mq_align :: "nat \<Rightarrow> nat" where
  "mq_align msg_size = ((msg_size + 3) mod 2 ^ 32 div 4 * 4) mod 0x10000"

text \<open>The argument pool is what the blocks' memory holds before.\<close>

definition mq_new :: "bool \<Rightarrow> (nat \<Rightarrow> rt_uint8_t list) \<Rightarrow> nat \<Rightarrow> nat \<Rightarrow> bool \<Rightarrow> rt_messagequeue" where
  "mq_new sys pool msg_size max_msgs prio =
     mq_free_all \<lparr>mq_obj = True, mq_system = sys, mq_prio = prio, mq_next = (\<lambda>_. None), mq_data = pool,
       mq_msg_size = msg_size, mq_max_msgs = max_msgs, mq_entry = 0, mq_head = None,
       mq_tail = None, mq_free = None\<rparr>"

definition rt_mq_init ::
  "nat \<Rightarrow> (nat \<Rightarrow> rt_uint8_t list) \<Rightarrow> nat \<Rightarrow> nat \<Rightarrow> rt_uint8_t \<Rightarrow> kstate \<Rightarrow> (rt_err_t \<times> kstate) option" where
  "rt_mq_init n pool msg_size pool_size flag s = do {
     RT_ASSERT (flag = 0 \<or> flag = 1);
     s1 \<leftarrow> object_init_check (mq_obj (k_mq s n)) s;
     let sz = mq_align msg_size;
     let s2 = upd_mq n (\<lambda>_. mq_new True pool sz (pool_size div (sz + 4) mod 0x10000) (flag = 1))
                (ipc_object_init (MqRecvQ n) s1);
     Some (RT_EOK, ipc_object_init (MqSendQ n) s2)
   }"

definition rt_mq_detach :: "nat \<Rightarrow> kstate \<Rightarrow> (rt_err_t \<times> kstate) option" where
  "rt_mq_detach n s = do {
     RT_ASSERT (mq_obj (k_mq s n));
     RT_ASSERT (mq_system (k_mq s n));
     s1 \<leftarrow> ipc_list_resume_all (MqRecvQ n) s;
     s2 \<leftarrow> ipc_list_resume_all (MqSendQ n) s1;
     Some (RT_EOK, upd_mq n (\<lambda>m. m\<lparr>mq_obj := False\<rparr>) s2)
   }"

text \<open>The arguments obj and pool are the answers of the object and memory allocators.\<close>

definition rt_mq_create ::
  "nat option \<Rightarrow> (nat \<Rightarrow> rt_uint8_t list) option \<Rightarrow> nat \<Rightarrow> nat \<Rightarrow> rt_uint8_t \<Rightarrow> kstate
   \<Rightarrow> (nat option \<times> kstate) option" where
  "rt_mq_create obj pool msg_size max_msgs flag s = do {
     RT_ASSERT (flag = 0 \<or> flag = 1);
     RT_ASSERT (k_irq_nest s = 0);
     (case obj of
        None \<Rightarrow> Some (None, s)
      | Some n \<Rightarrow>
          (let s1 = ipc_object_init (MqRecvQ n) s in
           case pool of
             None \<Rightarrow> Some (None, upd_mq n (\<lambda>m. m\<lparr>mq_obj := False, mq_prio := (flag = 1),
                 mq_msg_size := mq_align msg_size, mq_max_msgs := max_msgs mod 0x10000\<rparr>) s1)
           | Some p \<Rightarrow> Some (Some n, ipc_object_init (MqSendQ n)
               (upd_mq n (\<lambda>_. mq_new False p (mq_align msg_size) (max_msgs mod 0x10000) (flag = 1)) s1))))
   }"

definition rt_mq_delete :: "nat \<Rightarrow> kstate \<Rightarrow> (rt_err_t \<times> kstate) option" where
  "rt_mq_delete n s = do {
     RT_ASSERT (mq_obj (k_mq s n));
     RT_ASSERT (\<not> mq_system (k_mq s n));
     RT_ASSERT (k_irq_nest s = 0);
     s1 \<leftarrow> ipc_list_resume_all (MqRecvQ n) s;
     s2 \<leftarrow> ipc_list_resume_all (MqSendQ n) s1;
     Some (RT_EOK, upd_mq n (\<lambda>m. m\<lparr>mq_obj := False\<rparr>) s2)
   }"

definition mq_send_finish ::
  "nat \<Rightarrow> rt_uint8_t list \<Rightarrow> kstate \<Rightarrow> (rt_err_t outcome \<times> kstate) option" where
  "mq_send_finish n buf s = do {
     (b, m1) \<leftarrow> mq_alloc (k_mq s n);
     let (counted, m2) = mq_link b (mq_fill b buf m1);
     let s1 = upd_mq n (\<lambda>_. m2) s;
     if counted then do {
       s2 \<leftarrow> ipc_wake (MqRecvQ n) s1;
       Some (Returned RT_EOK, s2)
     }
     else Some (Returned (- RT_EFULL), s1)
   }"

definition mq_send_loop ::
  "nat \<Rightarrow> rt_uint8_t list \<Rightarrow> int \<Rightarrow> tid option \<Rightarrow> kstate \<Rightarrow> (rt_err_t outcome \<times> kstate) option" where
  "mq_send_loop n buf timeout self s =
     (if mq_free (k_mq s n) = None
      then do {
        t \<leftarrow> self;
        let s1 = upd_thread t (\<lambda>th. th\<lparr>th_error := RT_EOK\<rparr>) s;
        if timeout = 0 then Some (Returned (- RT_EFULL), s1)
        else do {
          s2 \<leftarrow> ipc_wait (MqSendQ n) (mq_prio (k_mq s n)) t timeout s1;
          Some (Blocked, s2)
        }
      }
      else mq_send_finish n buf s)"

text \<open>The buffer is the list of its bytes; an empty list is \<^verbatim>\<open>size == 0\<close>.\<close>

definition rt_mq_send_wait ::
  "nat \<Rightarrow> rt_uint8_t list \<Rightarrow> int \<Rightarrow> kstate \<Rightarrow> (rt_err_t outcome \<times> kstate) option" where
  "rt_mq_send_wait n buf timeout s = do {
     RT_ASSERT (mq_obj (k_mq s n));
     RT_ASSERT (buf \<noteq> []);
     debug_scheduler_available (timeout \<noteq> 0) s;
     if mq_msg_size (k_mq s n) < length buf then Some (Returned (- RT_ERROR), s)
     else if mq_free (k_mq s n) = None \<and> timeout = 0 then Some (Returned (- RT_EFULL), s)
     else mq_send_loop n buf timeout (rt_thread_self s) s
   }"

definition mq_send_resume ::
  "nat \<Rightarrow> rt_uint8_t list \<Rightarrow> int \<Rightarrow> rt_tick_t \<Rightarrow> tid \<Rightarrow> kstate \<Rightarrow> (rt_err_t outcome \<times> kstate) option" where
  "mq_send_resume n buf timeout start t s =
     (if th_error (k_thread s t) \<noteq> RT_EOK then Some (Returned (th_error (k_thread s t)), s)
      else mq_send_loop n buf (remaining_timeout timeout start (rt_tick_get s)) (Some t) s)"

definition rt_mq_send :: "nat \<Rightarrow> rt_uint8_t list \<Rightarrow> kstate \<Rightarrow> (rt_err_t outcome \<times> kstate) option" where
  "rt_mq_send n buf s = rt_mq_send_wait n buf 0 s"

definition rt_mq_urgent :: "nat \<Rightarrow> rt_uint8_t list \<Rightarrow> kstate \<Rightarrow> (rt_err_t \<times> kstate) option" where
  "rt_mq_urgent n buf s = do {
     RT_ASSERT (mq_obj (k_mq s n));
     RT_ASSERT (buf \<noteq> []);
     if mq_msg_size (k_mq s n) < length buf then Some (- RT_ERROR, s)
     else (case mq_alloc (k_mq s n) of
        None \<Rightarrow> Some (- RT_EFULL, s)
      | Some (b, m1) \<Rightarrow> do {
          let (counted, m2) = mq_link_front b (mq_copy b buf m1);
          let s1 = upd_mq n (\<lambda>_. m2) s;
          if counted then do {
            s2 \<leftarrow> ipc_wake (MqRecvQ n) s1;
            Some (RT_EOK, s2)
          }
          else Some (- RT_EFULL, s1)
        })
   }"

text \<open>The result holds the error code and the bytes stored in the caller's buffer, if any.\<close>

definition mq_recv_loop ::
  "nat \<Rightarrow> nat \<Rightarrow> int \<Rightarrow> tid option \<Rightarrow> kstate \<Rightarrow> ((rt_err_t \<times> rt_uint8_t list option) outcome \<times> kstate) option" where
  "mq_recv_loop n len timeout self s =
     (if mq_entry (k_mq s n) = 0
      then do {
        t \<leftarrow> self;
        let s1 = upd_thread t (\<lambda>th. th\<lparr>th_error := RT_EOK\<rparr>) s;
        if timeout = 0 then
          Some (Returned (- RT_ETIMEOUT, None), upd_thread t (\<lambda>th. th\<lparr>th_error := - RT_ETIMEOUT\<rparr>) s1)
        else do {
          s2 \<leftarrow> ipc_wait (MqRecvQ n) (mq_prio (k_mq s n)) t timeout s1;
          Some (Blocked, s2)
        }
      }
      else do {
        (b, m1) \<leftarrow> mq_unlink (k_mq s n);
        s1 \<leftarrow> ipc_wake (MqSendQ n) (upd_mq n (\<lambda>_. mq_put_back b m1) s);
        Some (Returned (RT_EOK, Some (mq_read b len m1)), s1)
      })"

definition rt_mq_recv ::
  "nat \<Rightarrow> nat \<Rightarrow> int \<Rightarrow> kstate \<Rightarrow> ((rt_err_t \<times> rt_uint8_t list option) outcome \<times> kstate) option" where
  "rt_mq_recv n len timeout s = do {
     RT_ASSERT (mq_obj (k_mq s n));
     RT_ASSERT (len \<noteq> 0);
     debug_scheduler_available (timeout \<noteq> 0) s;
     if mq_entry (k_mq s n) = 0 \<and> timeout = 0
     then Some (Returned (- RT_ETIMEOUT, None), s)
     else mq_recv_loop n len timeout (rt_thread_self s) s
   }"

definition mq_recv_resume ::
  "nat \<Rightarrow> nat \<Rightarrow> int \<Rightarrow> rt_tick_t \<Rightarrow> tid \<Rightarrow> kstate
   \<Rightarrow> ((rt_err_t \<times> rt_uint8_t list option) outcome \<times> kstate) option" where
  "mq_recv_resume n len timeout start t s =
     (if th_error (k_thread s t) \<noteq> RT_EOK then Some (Returned (th_error (k_thread s t), None), s)
      else mq_recv_loop n len (remaining_timeout timeout start (rt_tick_get s)) (Some t) s)"

definition rt_mq_control :: "nat \<Rightarrow> bool \<Rightarrow> kstate \<Rightarrow> (rt_err_t \<times> kstate) option" where
  "rt_mq_control n reset s = do {
     RT_ASSERT (mq_obj (k_mq s n));
     if reset then do {
       s1 \<leftarrow> ipc_list_resume_all (MqRecvQ n) s;
       s2 \<leftarrow> ipc_list_resume_all (MqSendQ n) s1;
       m \<leftarrow> mq_release_all (k_mq s2 n);
       s3 \<leftarrow> rt_schedule (upd_mq n (\<lambda>_. m\<lparr>mq_entry := 0\<rparr>) s2);
       Some (RT_EOK, s3)
     }
     else Some (- RT_ERROR, s)
   }"


section \<open>Block ownership\<close>

text \<open>The blocks reached from p by the links.\<close>

fun block_path :: "(nat \<Rightarrow> nat option) \<Rightarrow> nat option \<Rightarrow> nat list \<Rightarrow> bool" where
  "block_path nx p [] \<longleftrightarrow> p = None"
| "block_path nx p (b # bs) \<longleftrightarrow> p = Some b \<and> block_path nx (nx b) bs"

text \<open>
  Every block is in the queue q, on the free list fr, or owned by a running call (F), and in
  one of them only.
\<close>

definition mq_inv :: "rt_messagequeue \<Rightarrow> nat list \<Rightarrow> nat list \<Rightarrow> nat set \<Rightarrow> bool" where
  "mq_inv m q fr F \<longleftrightarrow>
     block_path (mq_next m) (mq_head m) q \<and> block_path (mq_next m) (mq_free m) fr
     \<and> distinct (q @ fr) \<and> F \<inter> set (q @ fr) = {} \<and> F \<union> set (q @ fr) = {..<mq_max_msgs m}
     \<and> mq_tail m = (if q = [] then None else Some (last q)) \<and> mq_entry m = length q
     \<and> mq_max_msgs m < 0x10000 \<and> (\<forall>b < mq_max_msgs m. length (mq_data m b) = mq_msg_size m)"

lemma block_path_upd [simp]: "b \<notin> set bs \<Longrightarrow> block_path (nx(b := x)) p bs = block_path nx p bs"
  by (induction bs arbitrary: p) auto

lemma block_path_None [simp]: "block_path nx None bs \<longleftrightarrow> bs = []"
  by (cases bs) auto

lemma block_path_Some: "block_path nx (Some b) bs \<longleftrightarrow> (\<exists>cs. bs = b # cs \<and> block_path nx (nx b) cs)"
  by (cases bs) auto

lemma block_path_snoc:
  "block_path nx p bs \<Longrightarrow> bs \<noteq> [] \<Longrightarrow> b \<notin> set bs \<Longrightarrow> distinct bs \<Longrightarrow> nx b = None
   \<Longrightarrow> block_path (nx(last bs := Some b)) p (bs @ [b])"
proof (induction bs arbitrary: p)
  case (Cons c cs)
  then show ?case by (cases cs) auto
qed simp

text \<open>At most all blocks are queued, so the 16-bit counter has room for one in flight.\<close>

lemma mq_inv_room:
  assumes "mq_inv m q fr F" "b \<in> F"
  shows "length q < mq_max_msgs m" "mq_entry m < RT_MQ_ENTRY_MAX"
proof -
  have F: "F \<union> set (q @ fr) = {..<mq_max_msgs m}" "F \<inter> set (q @ fr) = {}" "distinct q"
    "mq_entry m = length q" "mq_max_msgs m < 0x10000"
    using assms(1) by (simp_all add: mq_inv_def)
  have "set q \<subset> {..<mq_max_msgs m}" using F(1,2) assms(2) by auto
  then have "card (set q) < card {..<mq_max_msgs m}" by (rule psubset_card_mono [rotated]) simp
  then show "length q < mq_max_msgs m" "mq_entry m < RT_MQ_ENTRY_MAX"
    using F(3-5) by (simp_all add: distinct_card)
qed

lemma mq_inv_owned:
  "mq_inv m q fr F \<Longrightarrow> b \<in> F \<Longrightarrow> b \<notin> set q \<and> b \<notin> set fr \<and> b < mq_max_msgs m"
  by (auto simp: mq_inv_def)

lemma mq_inv_congs:
  assumes "mq_inv m q fr F"
  shows "mq_free m = (case fr of [] \<Rightarrow> None | b # _ \<Rightarrow> Some b)"
    and "mq_head m = (case q of [] \<Rightarrow> None | b # _ \<Rightarrow> Some b)" and "mq_entry m = length q"
  using assms by (cases fr; cases q; auto simp: mq_inv_def)+

lemma mq_alloc_ok:
  assumes "mq_inv m q (b # fr) F"
  obtains m' where "mq_alloc m = Some (b, m')" "mq_inv m' q fr (insert b F)"
    "mq_data m' = mq_data m" "mq_msg_size m' = mq_msg_size m" "mq_obj m' = mq_obj m"
    "mq_prio m' = mq_prio m"
proof (rule that)
  show "mq_alloc m = Some (b, m\<lparr>mq_free := mq_next m b\<rparr>)"
    using assms by (simp add: mq_alloc_def mq_inv_def)
  show "mq_inv (m\<lparr>mq_free := mq_next m b\<rparr>) q fr (insert b F)"
    using assms by (auto simp: mq_inv_def)
qed simp_all

lemma mq_copy_ok:
  assumes "mq_inv m q fr F" "b \<in> F" "length buf \<le> mq_msg_size m"
  shows "mq_inv (mq_copy b buf m) q fr F" "mq_inv (mq_fill b buf m) q fr F"
    "mq_next (mq_fill b buf m) b = None"
proof -
  have b: "b \<notin> set (q @ fr)" "b < mq_max_msgs m" using assms(1,2) by (auto simp: mq_inv_def)
  have "length (mq_data m b) = mq_msg_size m" using assms(1) b(2) by (simp add: mq_inv_def)
  then have len: "length (buf @ drop (length buf) (mq_data m b)) = mq_msg_size m" using assms(3) by simp
  show "mq_inv (mq_copy b buf m) q fr F"
    using assms(1) len by (simp add: mq_inv_def mq_copy_def)
  show "mq_inv (mq_fill b buf m) q fr F"
    using assms(1) len b by (simp add: mq_inv_def mq_fill_def mq_copy_def)
  show "mq_next (mq_fill b buf m) b = None" by (simp add: mq_fill_def mq_copy_def)
qed

lemma mq_fill_simps [simp]:
  "mq_data (mq_fill b buf m) = (mq_data m)(b := buf @ drop (length buf) (mq_data m b))"
  "mq_data (mq_copy b buf m) = (mq_data m)(b := buf @ drop (length buf) (mq_data m b))"
  "mq_msg_size (mq_fill b buf m) = mq_msg_size m" "mq_msg_size (mq_copy b buf m) = mq_msg_size m"
  "mq_obj (mq_fill b buf m) = mq_obj m" "mq_obj (mq_copy b buf m) = mq_obj m"
  "mq_prio (mq_fill b buf m) = mq_prio m" "mq_prio (mq_copy b buf m) = mq_prio m"
  by (simp_all add: mq_fill_def mq_copy_def)

lemma mq_link_ok:
  assumes inv: "mq_inv m q fr F" and b: "b \<in> F" "mq_next m b = None"
  obtains m' where "mq_link b m = (True, m')" "mq_inv m' (q @ [b]) fr (F - {b})"
    "mq_data m' = mq_data m" "mq_msg_size m' = mq_msg_size m" "mq_obj m' = mq_obj m"
    "mq_prio m' = mq_prio m"
proof (cases "q = []")
  case True
  let ?m' = "m\<lparr>mq_tail := Some b, mq_head := Some b, mq_entry := 1\<rparr>"
  have "mq_link b m = (True, ?m')"
    using inv True by (simp add: mq_link_def mq_count_def mq_inv_def Let_def)
  moreover have "mq_inv ?m' (q @ [b]) fr (F - {b})"
    using inv b True by (auto simp: mq_inv_def)
  ultimately show thesis by (rule that) simp_all
next
  case False
  have "set q \<inter> set fr = {}" "last q \<in> set q" using inv False by (simp_all add: mq_inv_def)
  then have bq: "b \<notin> set q" "b \<notin> set fr" "last q \<in> set q" "last q \<notin> set fr"
    using mq_inv_owned [OF inv b(1)] by auto
  let ?nx = "(mq_next m)(last q := Some b)"
  let ?m' = "m\<lparr>mq_next := ?nx, mq_tail := Some b, mq_entry := mq_entry m + 1\<rparr>"
  have head: "mq_head m \<noteq> None" using mq_inv_congs(2) [OF inv] False by (simp split: list.splits)
  have "mq_link b m = (True, ?m')"
    using inv False head mq_inv_room(2) [OF inv b(1)]
    by (simp add: mq_link_def mq_count_def mq_inv_def Let_def)
  moreover have "block_path ?nx (mq_head m) (q @ [b])"
    using inv False bq(1) b(2) by (intro block_path_snoc) (auto simp: mq_inv_def)
  then have "mq_inv ?m' (q @ [b]) fr (F - {b})"
    using inv b(1) bq False by (auto simp: mq_inv_def)
  ultimately show thesis by (rule that) simp_all
qed

lemma mq_link_front_ok:
  assumes inv: "mq_inv m q fr F" and b: "b \<in> F"
  obtains m' where "mq_link_front b m = (True, m')" "mq_inv m' (b # q) fr (F - {b})"
    "mq_data m' = mq_data m" "mq_msg_size m' = mq_msg_size m" "mq_obj m' = mq_obj m"
    "mq_prio m' = mq_prio m"
proof -
  let ?m' = "m\<lparr>mq_next := (mq_next m)(b := mq_head m), mq_head := Some b,
     mq_tail := (if q = [] then Some b else mq_tail m), mq_entry := mq_entry m + 1\<rparr>"
  have "mq_link_front b m = (True, ?m')"
    using inv mq_inv_room(2) [OF inv b]
    by (auto simp: mq_link_front_def mq_count_def mq_inv_def Let_def)
  moreover have "mq_inv ?m' (b # q) fr (F - {b})"
    using inv b mq_inv_owned [OF inv b] by (auto simp: mq_inv_def)
  ultimately show thesis by (rule that) simp_all
qed

lemma mq_unlink_ok:
  assumes inv: "mq_inv m (b # q) fr F"
  obtains m' where "mq_unlink m = Some (b, m')" "mq_inv m' q fr (insert b F)"
    "mq_data m' = mq_data m" "mq_msg_size m' = mq_msg_size m" "mq_obj m' = mq_obj m"
    "mq_prio m' = mq_prio m"
proof -
  let ?m' = "m\<lparr>mq_head := mq_next m b, mq_tail := (if mq_tail m = Some b then None else mq_tail m),
     mq_entry := (if 0 < mq_entry m then mq_entry m - 1 else mq_entry m)\<rparr>"
  have "mq_unlink m = Some (b, ?m')" using inv by (simp add: mq_unlink_def mq_inv_def)
  moreover have "b \<notin> set q" using inv by (simp add: mq_inv_def)
  then have "q \<noteq> [] \<Longrightarrow> last q \<noteq> b" using last_in_set by metis
  then have "mq_inv ?m' q fr (insert b F)" using inv by (auto simp: mq_inv_def)
  ultimately show thesis by (rule that) simp_all
qed

lemma mq_put_back_ok:
  assumes inv: "mq_inv m q fr F" and b: "b \<in> F"
  shows "mq_inv (mq_put_back b m) q (b # fr) (F - {b})"
  using inv b mq_inv_owned [OF inv b] by (auto simp: mq_inv_def mq_put_back_def)

lemma mq_put_back_simps [simp]:
  "mq_data (mq_put_back b m) = mq_data m" "mq_msg_size (mq_put_back b m) = mq_msg_size m"
  "mq_obj (mq_put_back b m) = mq_obj m" "mq_prio (mq_put_back b m) = mq_prio m"
  "mq_max_msgs (mq_put_back b m) = mq_max_msgs m" "mq_entry (mq_put_back b m) = mq_entry m"
  "mq_head (mq_put_back b m) = mq_head m" "mq_tail (mq_put_back b m) = mq_tail m"
  by (simp_all add: mq_put_back_def)


section \<open>New and reset queues\<close>

lemma mq_free_all_inv:
  assumes "mq_head m = None" "mq_tail m = None" "mq_entry m = 0" "mq_max_msgs m < 0x10000"
    and "\<And>b. b < mq_max_msgs m \<Longrightarrow> length (mq_data m b) = mq_msg_size m"
  shows "mq_inv (mq_free_all m) [] (rev [0..<mq_max_msgs m]) {}" "mq_data (mq_free_all m) = mq_data m"
proof -
  let ?m0 = "m\<lparr>mq_free := None\<rparr>"
  have start: "mq_inv ?m0 [] [] {..<mq_max_msgs m}"
    using assms by (simp add: mq_inv_def)
  have "k \<le> mq_max_msgs m \<Longrightarrow>
      mq_inv (fold mq_put_back [0..<k] ?m0) [] (rev [0..<k]) {k..<mq_max_msgs m}
      \<and> mq_data (fold mq_put_back [0..<k] ?m0) = mq_data m" for k
  proof (induction k)
    case 0
    have "{0..<mq_max_msgs m} = {..<mq_max_msgs m}" by auto
    then show ?case using start by simp
  next
    case (Suc k)
    have "{k..<mq_max_msgs m} - {k} = {Suc k..<mq_max_msgs m}" by auto
    then show ?case
      using Suc mq_put_back_ok [of "fold mq_put_back [0..<k] ?m0" "[]" "rev [0..<k]" "{k..<mq_max_msgs m}" k]
      by simp
  qed
  from this [of "mq_max_msgs m"] show "mq_inv (mq_free_all m) [] (rev [0..<mq_max_msgs m]) {}"
    "mq_data (mq_free_all m) = mq_data m"
    by (simp_all add: mq_free_all_def)
qed

lemma mq_new_inv:
  assumes "max_msgs < 0x10000" "\<And>b. b < max_msgs \<Longrightarrow> length (pool b) = msg_size"
  shows "mq_inv (mq_new sys pool msg_size max_msgs prio) [] (rev [0..<max_msgs]) {}"
  using mq_free_all_inv(1) [of "\<lparr>mq_obj = True, mq_system = sys, mq_prio = prio, mq_next = (\<lambda>_. None),
       mq_data = pool, mq_msg_size = msg_size, mq_max_msgs = max_msgs, mq_entry = 0, mq_head = None,
       mq_tail = None, mq_free = None\<rparr>"] assms
  by (simp add: mq_new_def)

text \<open>The reset loop ends and gives all queued blocks back.\<close>

lemma mq_put_back_entry:
  "mq_put_back b (m\<lparr>mq_entry := e\<rparr>) = (mq_put_back b m)\<lparr>mq_entry := e\<rparr>"
  by (simp add: mq_put_back_def)

lemma mq_release_all_entry:
  assumes "mq_inv (m\<lparr>mq_entry := length q\<rparr>) q fr F"
  shows "\<exists>m' fr'. mq_release_all m = Some m' \<and> mq_inv (m'\<lparr>mq_entry := 0\<rparr>) [] fr' F
     \<and> mq_obj m' = mq_obj m \<and> mq_prio m' = mq_prio m \<and> mq_data m' = mq_data m
     \<and> (\<forall>c\<in>F. mq_next m' c = mq_next m c)"
  using assms
proof (induction q arbitrary: m fr)
  case Nil
  then have "mq_head m = None" by (simp add: mq_inv_def)
  then have "mq_release_all m = Some m" by (simp add: mq_release_all.simps)
  then show ?case using Nil by (intro exI [of _ m] exI [of _ fr]) simp
next
  case (Cons b q)
  let ?m1 = "m\<lparr>mq_head := mq_next m b, mq_tail := (if mq_tail m = Some b then None else mq_tail m)\<rparr>"
  have head: "mq_head m = Some b" and bF: "b \<notin> F" using Cons.prems by (simp_all add: mq_inv_def)
  obtain n' where n': "mq_unlink (m\<lparr>mq_entry := length (b # q)\<rparr>) = Some (b, n')"
      "mq_inv n' q fr (insert b F)"
    using mq_unlink_ok [OF Cons.prems] by metis
  have "n' = ?m1\<lparr>mq_entry := length q\<rparr>" using n'(1) head by (auto simp: mq_unlink_def split: if_splits)
  then have "mq_inv (mq_put_back b (?m1\<lparr>mq_entry := length q\<rparr>)) q (b # fr) F"
    using mq_put_back_ok [OF n'(2), of b] bF by simp
  then have inv1: "mq_inv ((mq_put_back b ?m1)\<lparr>mq_entry := length q\<rparr>) q (b # fr) F"
    unfolding mq_put_back_entry .
  have "mq_next (mq_put_back b ?m1) c = mq_next m c" if "c \<in> F" for c
    using that bF by (auto simp: mq_put_back_def)
  then show ?case
    using Cons.IH [OF inv1] head by (simp add: mq_release_all.simps [of m])
qed

lemma mq_release_all_ok:
  assumes "mq_inv m q fr F"
  obtains m' fr' where "mq_release_all m = Some m'" "mq_inv (m'\<lparr>mq_entry := 0\<rparr>) [] fr' F"
    "mq_obj m' = mq_obj m" "mq_prio m' = mq_prio m" "mq_data m' = mq_data m"
    "\<And>c. c \<in> F \<Longrightarrow> mq_next m' c = mq_next m c"
proof -
  have "m\<lparr>mq_entry := length q\<rparr> = m" using assms by (simp add: mq_inv_def)
  then show thesis using mq_release_all_entry [where m = m and q = q and fr = fr and F = F] assms that by auto
qed


section \<open>Interleaved sections\<close>

text \<open>
  Any number of calls, each in its own phase with a block: sending (allocated, then filled, or
  just copied into for an urgent message) or receiving (taken, with the message it took).  The
  list is the abstract queue of whole messages.  A receiver reads its block at any time between
  its two sections.
\<close>

datatype mq_phase = Allocated | Filled | Taken "rt_uint8_t list"

inductive mq_sections :: "rt_messagequeue \<Rightarrow> (nat \<rightharpoonup> mq_phase) \<Rightarrow> rt_uint8_t list list \<Rightarrow> bool" where
  start: "mq_inv m q fr {} \<Longrightarrow> mq_sections m Map.empty (map (mq_data m) q)"
| alloc: "\<lbrakk>mq_sections m F xs; mq_alloc m = Some (b, m')\<rbrakk> \<Longrightarrow> mq_sections m' (F(b \<mapsto> Allocated)) xs"
| fill: "\<lbrakk>mq_sections m F xs; F b = Some Allocated; length buf \<le> mq_msg_size m\<rbrakk>
    \<Longrightarrow> mq_sections (mq_fill b buf m) (F(b \<mapsto> Filled)) xs"
| copy: "\<lbrakk>mq_sections m F xs; F b = Some Allocated; length buf \<le> mq_msg_size m\<rbrakk>
    \<Longrightarrow> mq_sections (mq_copy b buf m) F xs"
| link: "\<lbrakk>mq_sections m F xs; F b = Some Filled; mq_link b m = (ok, m')\<rbrakk>
    \<Longrightarrow> mq_sections m' (F(b := None)) (xs @ [mq_data m b])"
| link_front: "\<lbrakk>mq_sections m F xs; F b = Some Allocated; mq_link_front b m = (ok, m')\<rbrakk>
    \<Longrightarrow> mq_sections m' (F(b := None)) (mq_data m b # xs)"
| unlink: "\<lbrakk>mq_sections m F xs; mq_entry m \<noteq> 0; mq_unlink m = Some (b, m')\<rbrakk>
    \<Longrightarrow> mq_sections m' (F(b \<mapsto> Taken (hd xs))) (tl xs)"
| put_back: "\<lbrakk>mq_sections m F xs; F b = Some (Taken d)\<rbrakk>
    \<Longrightarrow> mq_sections (mq_put_back b m) (F(b := None)) xs"
| reset: "\<lbrakk>mq_sections m F xs; mq_release_all m = Some m'\<rbrakk> \<Longrightarrow> mq_sections (m'\<lparr>mq_entry := 0\<rparr>) F []"

lemma mq_link_next:
  "mq_link b m = (ok, m') \<Longrightarrow> mq_tail m \<noteq> Some c \<Longrightarrow> mq_next m' c = mq_next m c"
  by (auto simp: mq_link_def mq_count_def Let_def split: option.splits if_splits)

definition sections_ok ::
  "rt_messagequeue \<Rightarrow> (nat \<rightharpoonup> mq_phase) \<Rightarrow> rt_uint8_t list list \<Rightarrow> nat list \<Rightarrow> nat list \<Rightarrow> bool" where
  "sections_ok m F xs q fr \<longleftrightarrow> mq_inv m q fr (dom F) \<and> xs = map (mq_data m) q
     \<and> (\<forall>b d. F b = Some (Taken d) \<longrightarrow> mq_data m b = d)
     \<and> (\<forall>b. F b = Some Filled \<longrightarrow> mq_next m b = None)"

lemma sections_okD:
  assumes "sections_ok m F xs q fr"
  shows "mq_inv m q fr (dom F)" "xs = map (mq_data m) q" "F b = Some (Taken d) \<Longrightarrow> mq_data m b = d"
    "F b = Some Filled \<Longrightarrow> mq_next m b = None"
  using assms by (simp_all add: sections_ok_def)

lemma sections_alloc:
  assumes ok: "sections_ok m F xs q fr" and a: "mq_alloc m = Some (b, m')"
  shows "\<exists>q fr. sections_ok m' (F(b \<mapsto> Allocated)) xs q fr"
proof -
  note o = sections_okD [OF ok]
  obtain fr' where fr: "fr = b # fr'"
    using a mq_inv_congs(1) [OF o(1)] by (cases fr) (auto simp: mq_alloc_def split: option.splits)
  have "mq_inv m q (b # fr') (dom F)" using o(1) fr by simp
  then have "mq_inv m' q fr' (dom (F(b \<mapsto> Allocated)))"
    using a by (elim mq_alloc_ok) simp
  moreover have "mq_data m' = mq_data m" "mq_next m' = mq_next m"
    using a by (auto simp: mq_alloc_def split: option.splits)
  ultimately have "sections_ok m' (F(b \<mapsto> Allocated)) xs q fr'"
    using o(2-4) by (simp add: sections_ok_def)
  then show ?thesis by blast
qed

lemma sections_fill:
  assumes ok: "sections_ok m F xs q fr" and b: "F b = Some Allocated" "length buf \<le> mq_msg_size m"
  shows "sections_ok (mq_fill b buf m) (F(b \<mapsto> Filled)) xs q fr"
    "sections_ok (mq_copy b buf m) F xs q fr"
proof -
  note o = sections_okD [OF ok]
  have bF: "b \<in> dom F" using b(1) by auto
  note own = mq_inv_owned [OF o(1) bF]
  have same: "map ((mq_data m)(b := x)) q = map (mq_data m) q" for x using own by auto
  have "dom (F(b \<mapsto> Filled)) = dom F" using bF by auto
  then show "sections_ok (mq_fill b buf m) (F(b \<mapsto> Filled)) xs q fr"
    using mq_copy_ok(2,3) [OF o(1) bF b(2)] o(2-4) same b(1)
    by (auto simp: sections_ok_def) (auto simp: mq_fill_def mq_copy_def)
  show "sections_ok (mq_copy b buf m) F xs q fr"
    using mq_copy_ok(1) [OF o(1) bF b(2)] o(2-4) same b(1)
    by (auto simp: sections_ok_def) (auto simp: mq_copy_def)
qed

lemma sections_link:
  assumes ok: "sections_ok m F xs q fr" and b: "F b = Some Filled" and l: "mq_link b m = (r, m')"
  shows "r \<and> sections_ok m' (F(b := None)) (xs @ [mq_data m b]) (q @ [b]) fr"
proof -
  note o = sections_okD [OF ok]
  have bF: "b \<in> dom F" using b by auto
  obtain m'' where m'': "mq_link b m = (True, m'')" "mq_inv m'' (q @ [b]) fr (dom F - {b})"
      "mq_data m'' = mq_data m"
    using mq_link_ok [OF o(1) bF o(4) [OF b]] by metis
  have tail: "mq_tail m \<noteq> Some c" if "c \<in> dom F" for c
    using o(1) mq_inv_owned [OF o(1) that] last_in_set [of q] by (auto simp: mq_inv_def)
  have "mq_next m'' c = None" if "F c = Some Filled" for c
  proof -
    have "c \<in> dom F" using that by blast
    then show ?thesis using mq_link_next [OF m''(1) tail] o(4) [OF that] by simp
  qed
  moreover have "dom (F(b := None)) = dom F - {b}" by auto
  ultimately show ?thesis using m'' l o(2,3) by (auto simp: sections_ok_def)
qed

lemma sections_link_front:
  assumes ok: "sections_ok m F xs q fr" and b: "F b = Some Allocated" and l: "mq_link_front b m = (r, m')"
  shows "r \<and> sections_ok m' (F(b := None)) (mq_data m b # xs) (b # q) fr"
proof -
  note o = sections_okD [OF ok]
  have bF: "b \<in> dom F" using b by auto
  obtain m'' where m'': "mq_link_front b m = (True, m'')" "mq_inv m'' (b # q) fr (dom F - {b})"
      "mq_data m'' = mq_data m"
    using mq_link_front_ok [OF o(1) bF] by metis
  have "mq_next m'' c = mq_next m c" if "c \<noteq> b" for c
    using m''(1) that by (auto simp: mq_link_front_def mq_count_def Let_def split: if_splits)
  moreover have "dom (F(b := None)) = dom F - {b}" by auto
  ultimately show ?thesis using m'' l o(2,3,4) b by (auto simp: sections_ok_def)
qed

lemma sections_unlink:
  assumes ok: "sections_ok m F xs q fr" and ne: "mq_entry m \<noteq> 0"
  obtains b m' where "mq_unlink m = Some (b, m')"
    "sections_ok m' (F(b \<mapsto> Taken (hd xs))) (tl xs) (tl q) fr"
proof -
  note o = sections_okD [OF ok]
  obtain b q' where q: "q = b # q'" using ne mq_inv_congs(3) [OF o(1)] by (cases q) auto
  obtain m' where m': "mq_unlink m = Some (b, m')" "mq_inv m' q' fr (insert b (dom F))"
      "mq_data m' = mq_data m"
    using mq_unlink_ok [OF o(1) [unfolded q]] by metis
  have "mq_next m' = mq_next m" using m'(1) by (auto simp: mq_unlink_def split: option.splits)
  then have "sections_ok m' (F(b \<mapsto> Taken (hd xs))) (tl xs) (tl q) fr"
    using m' o(2-4) q by (auto simp: sections_ok_def)
  then show thesis using that m'(1) by blast
qed

lemma sections_put_back:
  assumes ok: "sections_ok m F xs q fr" and b: "F b = Some (Taken d)"
  shows "sections_ok (mq_put_back b m) (F(b := None)) xs q (b # fr)"
proof -
  note o = sections_okD [OF ok]
  have bF: "b \<in> dom F" using b by auto
  have "dom (F(b := None)) = dom F - {b}" by auto
  then show ?thesis
    using mq_put_back_ok [OF o(1) bF] o(2-4) b
    by (auto simp: sections_ok_def) (auto simp: mq_put_back_def)
qed

lemma sections_reset:
  assumes ok: "sections_ok m F xs q fr"
  obtains m' fr' where "mq_release_all m = Some m'" "sections_ok (m'\<lparr>mq_entry := 0\<rparr>) F [] [] fr'"
proof -
  note o = sections_okD [OF ok]
  obtain m' fr' where m': "mq_release_all m = Some m'" "mq_inv (m'\<lparr>mq_entry := 0\<rparr>) [] fr' (dom F)"
      "mq_data m' = mq_data m" "\<And>c. c \<in> dom F \<Longrightarrow> mq_next m' c = mq_next m c"
    by (rule mq_release_all_ok [OF o(1)]) blast
  then have "sections_ok (m'\<lparr>mq_entry := 0\<rparr>) F [] [] fr'"
    using o(3,4) m'(4) [OF domI] by (auto simp: sections_ok_def)
  then show thesis by (rule that [OF m'(1)])
qed

lemma mq_sections_ok: "mq_sections m F xs \<Longrightarrow> \<exists>q fr. sections_ok m F xs q fr"
proof (induction rule: mq_sections.induct)
  case (start m q fr)
  then show ?case by (intro exI) (auto simp: sections_ok_def)
next
  case (alloc m F xs b m')
  then show ?case using sections_alloc by blast
next
  case (fill m F xs b buf)
  then show ?case using sections_fill(1) by blast
next
  case (copy m F xs b buf)
  then show ?case using sections_fill(2) by blast
next
  case (link m F xs b ok m')
  then show ?case using sections_link by blast
next
  case (link_front m F xs b ok m')
  then show ?case using sections_link_front by blast
next
  case (unlink m F xs b m')
  then obtain q fr where ok: "sections_ok m F xs q fr" by blast
  obtain c m'' where c: "mq_unlink m = Some (c, m'')"
      "sections_ok m'' (F(c \<mapsto> Taken (hd xs))) (tl xs) (tl q) fr"
    using sections_unlink [OF ok unlink.hyps(2)] by blast
  have eq: "c = b" "m'' = m'" using c(1) unlink.hyps(3) by simp_all
  show ?case using c(2) unfolding eq by blast
next
  case (put_back m F xs b d)
  then show ?case using sections_put_back by blast
next
  case (reset m F xs m')
  then obtain q fr where ok: "sections_ok m F xs q fr" by blast
  obtain m'' fr' where "mq_release_all m = Some m''" "sections_ok (m''\<lparr>mq_entry := 0\<rparr>) F [] [] fr'"
    by (rule sections_reset [OF ok])
  then show ?case using reset.hyps(2) by auto
qed


section \<open>Sending and receiving\<close>

lemma upd_mq_simps [simp]:
  "k_thread (upd_mq n f s) = k_thread s" "k_lists (upd_mq n f s) = k_lists s"
  "k_group (upd_mq n f s) = k_group s" "k_current (upd_mq n f s) = k_current s"
  "k_lock_nest (upd_mq n f s) = k_lock_nest s" "k_irq_nest (upd_mq n f s) = k_irq_nest s"
  "k_tick (upd_mq n f s) = k_tick s" "k_timer (upd_mq n f s) = k_timer s"
  "k_timers (upd_mq n f s) = k_timers s" "k_mq (upd_mq n f s) = (k_mq s)(n := f (k_mq s n))"
  "k_sem (upd_mq n f s) = k_sem s" "k_mutex (upd_mq n f s) = k_mutex s"
  "k_event (upd_mq n f s) = k_event s" "k_mb (upd_mq n f s) = k_mb s"
  "k_mp (upd_mq n f s) = k_mp s" "k_drv (upd_mq n f s) = k_drv s"
  by (simp_all add: upd_mq_def)

lemma kinv_upd_mq [simp]: "kinv (upd_mq n f s) = kinv s"
  by (rule kinv_cong) simp_all

text \<open>
  A queue between operations: no block is in flight.  Its messages are whole blocks; a shorter
  message is followed by what the block held before.
\<close>

definition mq_holds :: "rt_messagequeue \<Rightarrow> rt_uint8_t list list \<Rightarrow> bool" where
  "mq_holds m xs \<longleftrightarrow> (\<exists>q fr. mq_inv m q fr {} \<and> xs = map (mq_data m) q)"

lemma mq_holdsE:
  assumes "mq_holds m xs"
  obtains q fr where "mq_inv m q fr {}" "xs = map (mq_data m) q"
  using assms by (auto simp: mq_holds_def)

lemma mq_holds_length:
  assumes "mq_holds m xs"
  shows "mq_entry m = length xs" "length xs \<le> mq_max_msgs m"
    "mq_free m = None \<longleftrightarrow> length xs = mq_max_msgs m" "\<And>x. x \<in> set xs \<Longrightarrow> length x = mq_msg_size m"
proof -
  obtain q fr where q: "mq_inv m q fr {}" "xs = map (mq_data m) q" using assms by (rule mq_holdsE)
  have dist: "distinct (q @ fr)" and cover: "set (q @ fr) = {..<mq_max_msgs m}"
    using q(1) by (simp_all add: mq_inv_def)
  have "length (q @ fr) = mq_max_msgs m" using distinct_card [OF dist] cover by simp
  then have len: "length q + length fr = mq_max_msgs m" by simp
  show "mq_entry m = length xs" "length xs \<le> mq_max_msgs m" using q len by (simp_all add: mq_inv_def)
  show "mq_free m = None \<longleftrightarrow> length xs = mq_max_msgs m"
    using mq_inv_congs(1) [OF q(1)] q(2) len by (auto split: list.splits)
  show "length x = mq_msg_size m" if "x \<in> set xs" for x
    using that q cover by (auto simp: mq_inv_def)
qed

text \<open>The three updates of a whole queue.\<close>

lemma mq_send_update:
  assumes h: "mq_holds m xs" and room: "mq_free m \<noteq> None" and len: "length buf \<le> mq_msg_size m"
  obtains b m1 m2 x where "mq_alloc m = Some (b, m1)" "mq_link b (mq_fill b buf m1) = (True, m2)"
    "mq_holds m2 (xs @ [x])" "take (length buf) x = buf" "length x = mq_msg_size m"
    "mq_obj m2 = mq_obj m" "mq_prio m2 = mq_prio m" "mq_msg_size m2 = mq_msg_size m"
proof -
  obtain q fr where q: "mq_inv m q fr {}" "xs = map (mq_data m) q" using h by (rule mq_holdsE)
  obtain b fr' where fr: "fr = b # fr'" using mq_inv_congs(1) [OF q(1)] room by (cases fr) auto
  obtain m1 where m1: "mq_alloc m = Some (b, m1)" "mq_inv m1 q fr' (insert b {})"
      "mq_data m1 = mq_data m" "mq_msg_size m1 = mq_msg_size m" "mq_obj m1 = mq_obj m" "mq_prio m1 = mq_prio m"
    using mq_alloc_ok [OF q(1) [unfolded fr]] by metis
  have b: "b \<in> insert b {}" and len1: "length buf \<le> mq_msg_size m1" using len m1(4) by simp_all
  let ?mf = "mq_fill b buf m1" and ?x = "buf @ drop (length buf) (mq_data m b)"
  note f = mq_copy_ok(2,3) [OF m1(2) b len1]
  obtain m2 where m2: "mq_link b ?mf = (True, m2)" "mq_inv m2 (q @ [b]) fr' (insert b {} - {b})"
      "mq_data m2 = mq_data ?mf" "mq_msg_size m2 = mq_msg_size ?mf" "mq_obj m2 = mq_obj ?mf"
      "mq_prio m2 = mq_prio ?mf"
    using mq_link_ok [OF f(1) b f(2)] by metis
  have own: "b \<notin> set q" "b < mq_max_msgs m1" using mq_inv_owned [OF m1(2) b] by auto
  then have data: "map (mq_data m2) (q @ [b]) = xs @ [?x]" using m2(3) m1(3) q(2) by auto
  have "length (mq_data m1 b) = mq_msg_size m1" using m1(2) own(2) by (simp add: mq_inv_def)
  then have "length ?x = mq_msg_size m" using m1(3,4) len by simp
  moreover have "mq_holds m2 (xs @ [?x])" using m2(2) data unfolding mq_holds_def by fastforce
  ultimately show thesis
    by (intro that [of b m1 m2 ?x]) (use m1 m2 in simp_all)
qed

lemma mq_urgent_update:
  assumes h: "mq_holds m xs" and room: "mq_free m \<noteq> None" and len: "length buf \<le> mq_msg_size m"
  obtains b m1 m2 x where "mq_alloc m = Some (b, m1)" "mq_link_front b (mq_copy b buf m1) = (True, m2)"
    "mq_holds m2 (x # xs)" "take (length buf) x = buf" "length x = mq_msg_size m"
    "mq_obj m2 = mq_obj m" "mq_prio m2 = mq_prio m" "mq_msg_size m2 = mq_msg_size m"
proof -
  obtain q fr where q: "mq_inv m q fr {}" "xs = map (mq_data m) q" using h by (rule mq_holdsE)
  obtain b fr' where fr: "fr = b # fr'" using mq_inv_congs(1) [OF q(1)] room by (cases fr) auto
  obtain m1 where m1: "mq_alloc m = Some (b, m1)" "mq_inv m1 q fr' (insert b {})"
      "mq_data m1 = mq_data m" "mq_msg_size m1 = mq_msg_size m" "mq_obj m1 = mq_obj m" "mq_prio m1 = mq_prio m"
    using mq_alloc_ok [OF q(1) [unfolded fr]] by metis
  have b: "b \<in> insert b {}" and len1: "length buf \<le> mq_msg_size m1" using len m1(4) by simp_all
  let ?mf = "mq_copy b buf m1" and ?x = "buf @ drop (length buf) (mq_data m b)"
  obtain m2 where m2: "mq_link_front b ?mf = (True, m2)" "mq_inv m2 (b # q) fr' (insert b {} - {b})"
      "mq_data m2 = mq_data ?mf" "mq_msg_size m2 = mq_msg_size ?mf" "mq_obj m2 = mq_obj ?mf"
      "mq_prio m2 = mq_prio ?mf"
    using mq_link_front_ok [OF mq_copy_ok(1) [OF m1(2) b len1] b] by metis
  have own: "b \<notin> set q" "b < mq_max_msgs m1" using mq_inv_owned [OF m1(2) b] by auto
  then have data: "map (mq_data m2) (b # q) = ?x # xs" using m2(3) m1(3) q(2) by auto
  have "length (mq_data m1 b) = mq_msg_size m1" using m1(2) own(2) by (simp add: mq_inv_def)
  then have "length ?x = mq_msg_size m" using m1(3,4) len by simp
  moreover have "mq_holds m2 (?x # xs)" using m2(2) data unfolding mq_holds_def by fastforce
  ultimately show thesis
    by (intro that [of b m1 m2 ?x]) (use m1 m2 in simp_all)
qed

lemma mq_recv_update:
  assumes h: "mq_holds m (x # xs)"
  obtains b m1 where "mq_unlink m = Some (b, m1)" "mq_holds (mq_put_back b m1) xs"
    "mq_read b len m1 = take (min len (mq_msg_size m)) x"
    "mq_obj m1 = mq_obj m" "mq_prio m1 = mq_prio m" "mq_msg_size m1 = mq_msg_size m"
proof -
  obtain q fr where q: "mq_inv m q fr {}" "x # xs = map (mq_data m) q" using h by (rule mq_holdsE)
  then obtain b q' where bq: "q = b # q'" by (cases q) auto
  obtain m1 where m1: "mq_unlink m = Some (b, m1)" "mq_inv m1 q' fr (insert b {})"
      "mq_data m1 = mq_data m" "mq_msg_size m1 = mq_msg_size m" "mq_obj m1 = mq_obj m" "mq_prio m1 = mq_prio m"
    using mq_unlink_ok [OF q(1) [unfolded bq]] by metis
  have "mq_inv (mq_put_back b m1) q' (b # fr) {}" using mq_put_back_ok [OF m1(2), of b] by simp
  then have "mq_holds (mq_put_back b m1) xs" using q(2) bq m1(3) unfolding mq_holds_def by fastforce
  moreover have "mq_read b len m1 = take (min len (mq_msg_size m)) x"
    using q(2) bq m1(3,4) by (simp add: mq_read_def min_def)
  ultimately show thesis using that m1 by simp
qed


section \<open>The operations as steps of the abstract queue\<close>

lemma mq_wake_ok:
  assumes inv: "kinv s" and cur: "k_current s = Some c" and h: "wait_queue h"
  obtains s' where "ipc_wake h (upd_mq n (\<lambda>_. m') s) = Some s'" "kinv s'" "k_mq s' = (k_mq s)(n := m')"
    "k_tick s' = k_tick s"
    "\<And>g. wait_queue g \<Longrightarrow> k_lists s' g = (if g = h then tl (k_lists s h) else k_lists s g)"
    "\<And>t ts. k_lists s h = t # ts \<Longrightarrow> th_base s' t \<in> {RT_THREAD_READY, RT_THREAD_RUNNING}"
    "k_lock_nest s = 0 \<Longrightarrow> k_lists s h \<noteq> [] \<Longrightarrow> runs_most_urgent s'"
proof -
  let ?s1 = "upd_mq n (\<lambda>_. m') s"
  have inv1: "kinv ?s1" and cur1: "k_current ?s1 = Some c" using inv cur by simp_all
  obtain s' where s': "ipc_wake h ?s1 = Some s'" "kinv s'" "objs_frame ?s1 s'" "k_tick s' = k_tick ?s1"
    "\<And>g. wait_queue g \<Longrightarrow> k_lists s' g = (if g = h then tl (k_lists ?s1 h) else k_lists ?s1 g)"
    "\<And>t ts. k_lists ?s1 h = t # ts \<Longrightarrow> th_base s' t \<in> {RT_THREAD_READY, RT_THREAD_RUNNING}"
    "k_lock_nest ?s1 = 0 \<Longrightarrow> k_lists ?s1 h \<noteq> [] \<Longrightarrow> runs_most_urgent s'"
    by (rule ipc_wake_ok [OF inv1 cur1 h]) blast
  show thesis
    by (rule that [OF s'(1,2)]) (use s' in \<open>simp_all add: objs_frame_def\<close>)
qed

text \<open>What a stored message x says about the sent buffer.\<close>

definition mq_stored :: "nat \<Rightarrow> rt_uint8_t list \<Rightarrow> rt_uint8_t list \<Rightarrow> bool" where
  "mq_stored msg_size buf x \<longleftrightarrow> length x = msg_size \<and> take (length buf) x = buf \<and> length buf \<le> msg_size"

lemma mq_send_finish_ok:
  assumes inv: "kinv s" and cur: "k_current s = Some c" and h: "mq_holds (k_mq s n) xs"
    and room: "mq_free (k_mq s n) \<noteq> None" and len: "length buf \<le> mq_msg_size (k_mq s n)"
  obtains s' x where "mq_send_finish n buf s = Some (Returned RT_EOK, s')" "kinv s'"
    "mq_holds (k_mq s' n) (xs @ [x])" "mq_stored (mq_msg_size (k_mq s n)) buf x"
    "mq_msg_size (k_mq s' n) = mq_msg_size (k_mq s n)"
    "k_lists s' (MqRecvQ n) = tl (k_lists s (MqRecvQ n))"
    "\<And>t ts. k_lists s (MqRecvQ n) = t # ts \<Longrightarrow> th_base s' t \<in> {RT_THREAD_READY, RT_THREAD_RUNNING}"
    "k_lock_nest s = 0 \<Longrightarrow> k_lists s (MqRecvQ n) \<noteq> [] \<Longrightarrow> runs_most_urgent s'"
proof -
  obtain b m1 m2 x where m: "mq_alloc (k_mq s n) = Some (b, m1)" "mq_link b (mq_fill b buf m1) = (True, m2)"
    "mq_holds m2 (xs @ [x])" "take (length buf) x = buf" "length x = mq_msg_size (k_mq s n)"
    "mq_msg_size m2 = mq_msg_size (k_mq s n)"
    using mq_send_update [OF h room len] by metis
  have w: "wait_queue (MqRecvQ n)" by simp
  obtain s' where s': "ipc_wake (MqRecvQ n) (upd_mq n (\<lambda>_. m2) s) = Some s'" "kinv s'"
    "k_mq s' = (k_mq s)(n := m2)"
    "\<And>g. wait_queue g \<Longrightarrow> k_lists s' g = (if g = MqRecvQ n then tl (k_lists s (MqRecvQ n)) else k_lists s g)"
    "\<And>t ts. k_lists s (MqRecvQ n) = t # ts \<Longrightarrow> th_base s' t \<in> {RT_THREAD_READY, RT_THREAD_RUNNING}"
    "k_lock_nest s = 0 \<Longrightarrow> k_lists s (MqRecvQ n) \<noteq> [] \<Longrightarrow> runs_most_urgent s'"
    by (rule mq_wake_ok [OF inv cur w]) blast
  show thesis
    by (rule that [of s' x])
      (use s' m len in \<open>simp_all add: mq_send_finish_def mq_stored_def\<close>)
qed

lemma mq_take_ok:
  assumes inv: "kinv s" and cur: "k_current s = Some c" and h: "mq_holds (k_mq s n) (x # xs)"
  obtains s' where "mq_recv_loop n len timeout self s
      = Some (Returned (RT_EOK, Some (take (min len (mq_msg_size (k_mq s n))) x)), s')" "kinv s'"
    "mq_holds (k_mq s' n) xs" "mq_msg_size (k_mq s' n) = mq_msg_size (k_mq s n)"
    "k_lists s' (MqSendQ n) = tl (k_lists s (MqSendQ n))"
    "\<And>t ts. k_lists s (MqSendQ n) = t # ts \<Longrightarrow> th_base s' t \<in> {RT_THREAD_READY, RT_THREAD_RUNNING}"
    "k_lock_nest s = 0 \<Longrightarrow> k_lists s (MqSendQ n) \<noteq> [] \<Longrightarrow> runs_most_urgent s'"
proof -
  obtain b m1 where m: "mq_unlink (k_mq s n) = Some (b, m1)" "mq_holds (mq_put_back b m1) xs"
    "mq_read b len m1 = take (min len (mq_msg_size (k_mq s n))) x"
    "mq_msg_size m1 = mq_msg_size (k_mq s n)"
    using mq_recv_update [OF h] by metis
  have w: "wait_queue (MqSendQ n)" by simp
  obtain s' where s': "ipc_wake (MqSendQ n) (upd_mq n (\<lambda>_. mq_put_back b m1) s) = Some s'" "kinv s'"
    "k_mq s' = (k_mq s)(n := mq_put_back b m1)"
    "\<And>g. wait_queue g \<Longrightarrow> k_lists s' g = (if g = MqSendQ n then tl (k_lists s (MqSendQ n)) else k_lists s g)"
    "\<And>t ts. k_lists s (MqSendQ n) = t # ts \<Longrightarrow> th_base s' t \<in> {RT_THREAD_READY, RT_THREAD_RUNNING}"
    "k_lock_nest s = 0 \<Longrightarrow> k_lists s (MqSendQ n) \<noteq> [] \<Longrightarrow> runs_most_urgent s'"
    by (rule mq_wake_ok [OF inv cur w]) blast
  have ne: "mq_entry (k_mq s n) \<noteq> 0" using mq_holds_length(1) [OF h] by simp
  show thesis
    by (rule that [of s']) (use s' m ne in \<open>simp_all add: mq_recv_loop_def\<close>)
qed

lemma mq_send_loop_step:
  assumes inv: "kinv s" and h: "mq_holds (k_mq s n) xs" and cur: "k_current s = Some c"
    and t: "timeout \<noteq> 0 \<Longrightarrow> may_block s t" and tmo: "timeout_ok timeout"
    and len: "length buf \<le> mq_msg_size (k_mq s n)"
    and run: "mq_send_loop n buf timeout (Some t) s = Some (r, s')"
  shows "\<exists>ys. kinv s' \<and> mq_holds (k_mq s' n) (xs @ ys) \<and> mq_msg_size (k_mq s' n) = mq_msg_size (k_mq s n)
     \<and> list_all2 (mq_stored (mq_msg_size (k_mq s n))) (if r = Returned RT_EOK then [buf] else []) ys"
proof (cases "mq_free (k_mq s n) = None")
  case False
  obtain s'' x where "mq_send_finish n buf s = Some (Returned RT_EOK, s'')" "kinv s''"
      "mq_holds (k_mq s'' n) (xs @ [x])" "mq_stored (mq_msg_size (k_mq s n)) buf x"
      "mq_msg_size (k_mq s'' n) = mq_msg_size (k_mq s n)"
    using mq_send_finish_ok [OF inv cur h False len] by metis
  then show ?thesis using run False by (intro exI [of _ "[x]"]) (simp add: mq_send_loop_def)
next
  case True
  show ?thesis
  proof (cases "timeout = 0")
    case True
    then show ?thesis
      using run inv h \<open>mq_free (k_mq s n) = None\<close>
      by (intro exI [of _ "[]"]) (auto simp: mq_send_loop_def kinv_set_error)
  next
    case False
    have w: "wait_queue (MqSendQ n)" by simp
    obtain s'' where "ipc_wait (MqSendQ n) (mq_prio (k_mq s n)) t timeout
        (upd_thread t (\<lambda>th. th\<lparr>th_error := RT_EOK\<rparr>) s) = Some s''" "kinv s''" "objs_frame s s''"
      using block_ok [OF inv t [OF False] w tmo, of "mq_prio (k_mq s n)"] by metis
    then show ?thesis
      using run h True False
      by (intro exI [of _ "[]"]) (auto simp: mq_send_loop_def objs_frame_def)
  qed
qed

lemma mq_recv_loop_step:
  assumes inv: "kinv s" and h: "mq_holds (k_mq s n) xs" and cur: "k_current s = Some c"
    and t: "timeout \<noteq> 0 \<Longrightarrow> may_block s t" and tmo: "timeout_ok timeout"
    and run: "mq_recv_loop n len timeout (Some t) s = Some (r, s')"
  shows "\<exists>ys zs. kinv s' \<and> xs = ys @ zs \<and> mq_holds (k_mq s' n) zs
     \<and> mq_msg_size (k_mq s' n) = mq_msg_size (k_mq s n)
     \<and> received r = map (take (min len (mq_msg_size (k_mq s n)))) ys"
proof (cases xs)
  case (Cons x xs')
  then have h': "mq_holds (k_mq s n) (x # xs')" using h by simp
  obtain s'' where "mq_recv_loop n len timeout (Some t) s
      = Some (Returned (RT_EOK, Some (take (min len (mq_msg_size (k_mq s n))) x)), s'')" "kinv s''"
    "mq_holds (k_mq s'' n) xs'" "mq_msg_size (k_mq s'' n) = mq_msg_size (k_mq s n)"
    using mq_take_ok [OF inv cur h'] by metis
  then show ?thesis
    using run Cons by (intro exI [of _ "[x]"] exI [of _ xs']) (simp add: received_def)
next
  case Nil
  have empty: "mq_entry (k_mq s n) = 0" using mq_holds_length(1) [OF h] Nil by simp
  show ?thesis
  proof (cases "timeout = 0")
    case True
    then show ?thesis
      using run inv h empty Nil
      by (intro exI [of _ "[]"]) (auto simp: mq_recv_loop_def kinv_set_error received_def)
  next
    case False
    have w: "wait_queue (MqRecvQ n)" by simp
    obtain s'' where "ipc_wait (MqRecvQ n) (mq_prio (k_mq s n)) t timeout
        (upd_thread t (\<lambda>th. th\<lparr>th_error := RT_EOK\<rparr>) s) = Some s''" "kinv s''" "objs_frame s s''"
      using block_ok [OF inv t [OF False] w tmo, of "mq_prio (k_mq s n)"] by metis
    then show ?thesis
      using run h empty False Nil
      by (intro exI [of _ "[]"]) (auto simp: mq_recv_loop_def objs_frame_def received_def)
  qed
qed


section \<open>Histories\<close>

text \<open>
  The operations on one queue by any thread that may block, by interrupt handlers, and resumed
  after a wait; all other kernel activity leaves the queue alone.  A resumed send has passed the
  length check of its call.  The ins are the sent buffers, the outs the receivers' buffer lengths
  with what they received.
\<close>

inductive mq_history ::
  "nat \<Rightarrow> kstate \<Rightarrow> rt_uint8_t list list \<Rightarrow> (nat \<times> rt_uint8_t list) list \<Rightarrow> bool" for n where
  start: "\<lbrakk>kinv s; mq_holds (k_mq s n) []\<rbrakk> \<Longrightarrow> mq_history n s [] []"
| send: "\<lbrakk>mq_history n s ins outs; may_block s t; timeout_ok timeout;
      rt_mq_send_wait n buf timeout s = Some (r, s')\<rbrakk>
    \<Longrightarrow> mq_history n s' (ins @ (if r = Returned RT_EOK then [buf] else [])) outs"
| send_interrupt: "\<lbrakk>mq_history n s ins outs; k_current s = Some c; rt_mq_send n buf s = Some (r, s')\<rbrakk>
    \<Longrightarrow> mq_history n s' (ins @ (if r = Returned RT_EOK then [buf] else [])) outs"
| send_resumed: "\<lbrakk>mq_history n s ins outs; may_block s t; timeout_ok timeout;
      length buf \<le> mq_msg_size (k_mq s n);
      unat (k_tick s - start) < 2 ^ 31; mq_send_resume n buf timeout start t s = Some (r, s')\<rbrakk>
    \<Longrightarrow> mq_history n s' (ins @ (if r = Returned RT_EOK then [buf] else [])) outs"
| recv: "\<lbrakk>mq_history n s ins outs; may_block s t; timeout_ok timeout;
      rt_mq_recv n len timeout s = Some (r, s')\<rbrakk>
    \<Longrightarrow> mq_history n s' ins (outs @ map (Pair len) (received r))"
| recv_resumed: "\<lbrakk>mq_history n s ins outs; may_block s t; timeout_ok timeout;
      unat (k_tick s - start) < 2 ^ 31; mq_recv_resume n len timeout start t s = Some (r, s')\<rbrakk>
    \<Longrightarrow> mq_history n s' ins (outs @ map (Pair len) (received r))"
| other: "\<lbrakk>mq_history n s ins outs; kinv s'; k_mq s' n = k_mq s n\<rbrakk> \<Longrightarrow> mq_history n s' ins outs"

text \<open>One send and one receive, as steps of the abstract queue of blocks.\<close>

definition mq_sent :: "nat \<Rightarrow> kstate \<Rightarrow> rt_uint8_t list list \<Rightarrow> kstate \<Rightarrow> bool" where
  "mq_sent n s bufs s' \<longleftrightarrow> kinv s' \<and> mq_msg_size (k_mq s' n) = mq_msg_size (k_mq s n)
     \<and> (\<forall>xs. mq_holds (k_mq s n) xs \<longrightarrow> (\<exists>ys. mq_holds (k_mq s' n) (xs @ ys)
          \<and> list_all2 (mq_stored (mq_msg_size (k_mq s n))) bufs ys))"

definition mq_got :: "nat \<Rightarrow> nat \<Rightarrow> kstate \<Rightarrow> rt_uint8_t list list \<Rightarrow> kstate \<Rightarrow> bool" where
  "mq_got n len s got s' \<longleftrightarrow> kinv s' \<and> mq_msg_size (k_mq s' n) = mq_msg_size (k_mq s n)
     \<and> (\<forall>xs. mq_holds (k_mq s n) xs \<longrightarrow> (\<exists>ys zs. xs = ys @ zs \<and> mq_holds (k_mq s' n) zs
          \<and> got = map (take (min len (mq_msg_size (k_mq s n)))) ys))"

lemma mq_sent_none [simp]: "mq_sent n s [] s \<longleftrightarrow> kinv s"
  by (auto simp: mq_sent_def intro!: exI [of _ "[]"])

lemma mq_got_none [simp]: "mq_got n len s [] s \<longleftrightarrow> kinv s"
  by (auto simp: mq_got_def intro!: exI [of _ "[]"])

lemma mq_sent_loop:
  assumes "kinv s" "mq_holds (k_mq s n) xs" "k_current s = Some c"
    and "timeout \<noteq> 0 \<Longrightarrow> may_block s t" "timeout_ok timeout" "length buf \<le> mq_msg_size (k_mq s n)"
    and "mq_send_loop n buf timeout (Some t) s = Some (r, s')"
  shows "mq_sent n s (if r = Returned RT_EOK then [buf] else []) s'"
proof -
  note step = mq_send_loop_step [OF assms(1) _ assms(3) assms(4) assms(5,6,7)]
  then show ?thesis using step [OF assms(2)] unfolding mq_sent_def by blast
qed

lemma mq_got_loop:
  assumes "kinv s" "mq_holds (k_mq s n) xs" "k_current s = Some c"
    and "timeout \<noteq> 0 \<Longrightarrow> may_block s t" "timeout_ok timeout"
    and "mq_recv_loop n len timeout (Some t) s = Some (r, s')"
  shows "mq_got n len s (received r) s'"
proof -
  note step = mq_recv_loop_step [OF assms(1) _ assms(3) assms(4) assms(5,6)]
  then show ?thesis using step [OF assms(2)] unfolding mq_got_def by blast
qed

lemma mq_send_step:
  assumes inv: "kinv s" and h: "mq_holds (k_mq s n) xs" and cur: "k_current s = Some t"
    and t: "timeout \<noteq> 0 \<Longrightarrow> may_block s t" and tmo: "timeout_ok timeout"
    and run: "rt_mq_send_wait n buf timeout s = Some (r, s')"
  shows "mq_sent n s (if r = Returned RT_EOK then [buf] else []) s'"
proof (cases "mq_msg_size (k_mq s n) < length buf \<or> mq_free (k_mq s n) = None \<and> timeout = 0")
  case True
  then have "(r = Returned (- RT_ERROR) \<or> r = Returned (- RT_EFULL)) \<and> s' = s"
    using run by (auto simp: rt_mq_send_wait_def bind_eq_Some_conv split: if_splits)
  then show ?thesis using inv by auto
next
  case False
  then have loop: "mq_send_loop n buf timeout (Some t) s = Some (r, s')"
    and len: "length buf \<le> mq_msg_size (k_mq s n)"
    using run cur by (auto simp: rt_mq_send_wait_def rt_thread_self_def bind_eq_Some_conv)
  show ?thesis by (rule mq_sent_loop [OF inv h cur _ tmo len loop]) (rule t)
qed

lemma mq_recv_step:
  assumes inv: "kinv s" and h: "mq_holds (k_mq s n) xs" and cur: "k_current s = Some t"
    and t: "timeout \<noteq> 0 \<Longrightarrow> may_block s t" and tmo: "timeout_ok timeout"
    and run: "rt_mq_recv n len timeout s = Some (r, s')"
  shows "mq_got n len s (received r) s'"
proof (cases "mq_entry (k_mq s n) = 0 \<and> timeout = 0")
  case True
  then have "r = Returned (- RT_ETIMEOUT, None) \<and> s' = s"
    using run by (auto simp: rt_mq_recv_def bind_eq_Some_conv)
  then show ?thesis using inv by (simp add: received_def)
next
  case False
  then have loop: "mq_recv_loop n len timeout (Some t) s = Some (r, s')"
    using run cur by (auto simp: rt_mq_recv_def rt_thread_self_def bind_eq_Some_conv)
  show ?thesis by (rule mq_got_loop [OF inv h cur _ tmo loop]) (rule t)
qed

lemma mq_send_resume_step:
  assumes inv: "kinv s" and h: "mq_holds (k_mq s n) xs" and t: "may_block s t"
    and tmo: "timeout_ok timeout" "unat (k_tick s - start) < 2 ^ 31"
    and len: "length buf \<le> mq_msg_size (k_mq s n)"
    and run: "mq_send_resume n buf timeout start t s = Some (r, s')"
  shows "mq_sent n s (if r = Returned RT_EOK then [buf] else []) s'"
proof (cases "th_error (k_thread s t) = RT_EOK")
  case True
  then have loop: "mq_send_loop n buf (remaining_timeout timeout start (k_tick s)) (Some t) s = Some (r, s')"
    using run by (simp add: mq_send_resume_def rt_tick_get_def)
  show ?thesis
    by (rule mq_sent_loop [OF inv h may_blockD(1) [OF t] _ remaining_ok [OF tmo] len loop]) (rule t)
qed (use run inv in \<open>auto simp: mq_send_resume_def\<close>)

lemma mq_recv_resume_step:
  assumes inv: "kinv s" and h: "mq_holds (k_mq s n) xs" and t: "may_block s t"
    and tmo: "timeout_ok timeout" "unat (k_tick s - start) < 2 ^ 31"
    and run: "mq_recv_resume n len timeout start t s = Some (r, s')"
  shows "mq_got n len s (received r) s'"
proof (cases "th_error (k_thread s t) = RT_EOK")
  case True
  then have loop: "mq_recv_loop n len (remaining_timeout timeout start (k_tick s)) (Some t) s = Some (r, s')"
    using run by (simp add: mq_recv_resume_def rt_tick_get_def)
  show ?thesis
    by (rule mq_got_loop [OF inv h may_blockD(1) [OF t] _ remaining_ok [OF tmo] loop]) (rule t)
qed (use run inv in \<open>auto simp: mq_recv_resume_def received_def\<close>)

text \<open>The invariant of a history: gone are the blocks received, xs the ones still queued.\<close>

definition mq_ledger ::
  "nat \<Rightarrow> kstate \<Rightarrow> rt_uint8_t list list \<Rightarrow> (nat \<times> rt_uint8_t list) list \<Rightarrow> bool" where
  "mq_ledger n s ins outs \<longleftrightarrow> kinv s \<and> (\<exists>gone xs. mq_holds (k_mq s n) xs
     \<and> list_all2 (mq_stored (mq_msg_size (k_mq s n))) ins (gone @ xs)
     \<and> list_all2 (\<lambda>(len, got) x. got = take (min len (mq_msg_size (k_mq s n))) x) outs gone)"

lemma mq_ledger_sent:
  assumes "mq_ledger n s ins outs" "mq_sent n s bufs s'"
  shows "mq_ledger n s' (ins @ bufs) outs"
proof -
  let ?sz = "mq_msg_size (k_mq s n)"
  obtain gone xs where l: "mq_holds (k_mq s n) xs" "list_all2 (mq_stored ?sz) ins (gone @ xs)"
    "list_all2 (\<lambda>(len, got) x. got = take (min len ?sz) x) outs gone"
    using assms(1) unfolding mq_ledger_def by blast
  obtain ys where ys: "mq_holds (k_mq s' n) (xs @ ys)" "list_all2 (mq_stored ?sz) bufs ys"
    using assms(2) l(1) unfolding mq_sent_def by blast
  have eq: "mq_msg_size (k_mq s' n) = ?sz" and inv: "kinv s'" using assms(2) by (simp_all add: mq_sent_def)
  have "list_all2 (mq_stored ?sz) (ins @ bufs) (gone @ (xs @ ys))"
    using list_all2_appendI [OF l(2) ys(2)] by simp
  then show ?thesis using inv ys(1) l(3) unfolding mq_ledger_def eq by blast
qed

lemma mq_ledger_got:
  assumes "mq_ledger n s ins outs" "mq_got n len s got s'"
  shows "mq_ledger n s' ins (outs @ map (Pair len) got)"
proof -
  let ?sz = "mq_msg_size (k_mq s n)"
  let ?R = "\<lambda>(len, got) x. got = take (min len ?sz) x"
  obtain gone xs where l: "mq_holds (k_mq s n) xs" "list_all2 (mq_stored ?sz) ins (gone @ xs)"
    "list_all2 ?R outs gone"
    using assms(1) unfolding mq_ledger_def by blast
  obtain ys zs where ys: "xs = ys @ zs" "mq_holds (k_mq s' n) zs" "got = map (take (min len ?sz)) ys"
    using assms(2) l(1) unfolding mq_got_def by blast
  have eq: "mq_msg_size (k_mq s' n) = ?sz" and inv: "kinv s'" using assms(2) by (simp_all add: mq_got_def)
  have "list_all2 ?R (map (Pair len) got) ys" by (simp add: ys(3) list_all2_map1 list_all2_same)
  then have "list_all2 ?R (outs @ map (Pair len) got) (gone @ ys)" by (rule list_all2_appendI [OF l(3)])
  moreover have "list_all2 (mq_stored ?sz) ins ((gone @ ys) @ zs)" using l(2) ys(1) by simp
  ultimately show ?thesis using inv ys(2) unfolding mq_ledger_def eq by blast
qed

lemma mq_ledgerD:
  assumes "mq_ledger n s ins outs"
  obtains xs where "mq_holds (k_mq s n) xs" "kinv s"
  using assms by (auto simp: mq_ledger_def)

lemma mq_history_ok: "mq_history n s ins outs \<Longrightarrow> mq_ledger n s ins outs"
proof (induction rule: mq_history.induct)
  case (start s)
  then show ?case by (auto simp: mq_ledger_def)
next
  case (send s ins outs t timeout buf r s')
  obtain xs where xs: "mq_holds (k_mq s n) xs" "kinv s" by (rule mq_ledgerD [OF send.IH])
  show ?case
    using mq_ledger_sent [OF send.IH mq_send_step [OF xs(2,1) may_blockD(1) [OF send.hyps(2)] _ send.hyps(3,4)]]
      send.hyps(2) by blast
next
  case (send_interrupt s ins outs c buf r s')
  obtain xs where xs: "mq_holds (k_mq s n) xs" "kinv s" by (rule mq_ledgerD [OF send_interrupt.IH])
  have "mq_sent n s (if r = Returned RT_EOK then [buf] else []) s'"
    using mq_send_step [OF xs(2,1) send_interrupt.hyps(2), of 0 buf r s'] send_interrupt.hyps(3)
    by (simp add: rt_mq_send_def timeout_ok_def)
  then show ?case by (rule mq_ledger_sent [OF send_interrupt.IH])
next
  case (send_resumed s ins outs t timeout buf start r s')
  obtain xs where xs: "mq_holds (k_mq s n) xs" "kinv s" by (rule mq_ledgerD [OF send_resumed.IH])
  show ?case
    by (rule mq_ledger_sent [OF send_resumed.IH mq_send_resume_step [OF xs(2,1) send_resumed.hyps(2,3,5,4,6)]])
next
  case (recv s ins outs t timeout len r s')
  obtain xs where xs: "mq_holds (k_mq s n) xs" "kinv s" by (rule mq_ledgerD [OF recv.IH])
  show ?case
    using mq_ledger_got [OF recv.IH mq_recv_step [OF xs(2,1) may_blockD(1) [OF recv.hyps(2)] _ recv.hyps(3,4)]]
      recv.hyps(2) by blast
next
  case (recv_resumed s ins outs t timeout start len r s')
  obtain xs where xs: "mq_holds (k_mq s n) xs" "kinv s" by (rule mq_ledgerD [OF recv_resumed.IH])
  show ?case
    by (rule mq_ledger_got [OF recv_resumed.IH mq_recv_resume_step [OF xs(2,1) recv_resumed.hyps(2,3,4,5)]])
next
  case (other s ins outs s')
  then show ?case by (simp add: mq_ledger_def)
qed



section \<open>Properties\<close>

text \<open>
  C13: the critical sections of concurrent message queue calls implement a queue.  Whatever the
  interleaving of their sections, every block is free, queued, or owned by one call; the queued
  blocks hold the abstract queue; a receiver still finds the message it took in its block; a
  queue that counts messages has one to take; and the message counter never overflows.
\<close>

theorem mq_sections_refine_queue:
  assumes "mq_sections m F xs"
  shows "(\<exists>q fr. mq_inv m q fr (dom F) \<and> xs = map (mq_data m) q)
     \<and> (\<forall>b d. F b = Some (Taken d) \<longrightarrow> mq_data m b = d)
     \<and> (mq_entry m \<noteq> 0 \<longrightarrow> (\<exists>b m'. mq_unlink m = Some (b, m') \<and> mq_data m b = hd xs))
     \<and> (\<forall>b. F b = Some Filled \<longrightarrow> fst (mq_link b m))
     \<and> (\<forall>b. F b = Some Allocated \<longrightarrow> fst (mq_link_front b m))"
proof -
  obtain q fr where ok: "sections_ok m F xs q fr" using mq_sections_ok [OF assms] by blast
  have take: "\<exists>b m'. mq_unlink m = Some (b, m') \<and> mq_data m b = hd xs" if ne: "mq_entry m \<noteq> 0"
  proof -
    obtain b m' where b: "mq_unlink m = Some (b, m')"
        "sections_ok m' (F(b \<mapsto> Taken (hd xs))) (tl xs) (tl q) fr"
      using sections_unlink [OF ok ne] by blast
    have "mq_data m' = mq_data m" using b(1) by (auto simp: mq_unlink_def split: option.splits)
    then show ?thesis using b sections_okD(3) [OF b(2), of b "hd xs"] by auto
  qed
  have "fst (mq_link b m)" if "F b = Some Filled" for b
    using sections_link [OF ok that] by (cases "mq_link b m") auto
  moreover have "fst (mq_link_front b m)" if "F b = Some Allocated" for b
    using sections_link_front [OF ok that] by (cases "mq_link_front b m") auto
  ultimately show ?thesis using sections_okD(1,2,3) [OF ok] take by blast
qed

lemma sample_mq:
  "k_mq k_sample n = \<lparr>mq_obj = True, mq_system = True, mq_prio = False,
     mq_next = (\<lambda>b. if b = 0 then Some 1 else None), mq_data = (\<lambda>_. [0, 0, 0, 0]),
     mq_msg_size = 4, mq_max_msgs = 2, mq_entry = 0, mq_head = None,
     mq_tail = None, mq_free = Some 0\<rparr>"
  by (simp add: k_sample_def)

lemma sample_mq_inv: "mq_inv (k_mq k_sample n) [] [0, 1] {}"
proof -
  have "{0, 1} = {..<2 :: nat}" by auto
  then show ?thesis by (simp add: sample_mq mq_inv_def)
qed

lemma sample_mq_holds: "mq_holds (k_mq k_sample n) []"
  using sample_mq_inv unfolding mq_holds_def by fastforce

text \<open>Two senders have a block each; the second has linked its own first.\<close>

lemma sample_sections:
  "\<exists>m. mq_sections m [0 \<mapsto> Allocated] [[7, 0, 0, 0]] \<and> mq_entry m = 1"
proof -
  let ?m0 = "k_mq k_sample 0"
  have s0: "mq_sections ?m0 Map.empty []" using mq_sections.start [OF sample_mq_inv] by simp
  let ?m1 = "?m0\<lparr>mq_free := Some 1\<rparr>" and ?m2 = "?m0\<lparr>mq_free := None\<rparr>"
  have "mq_alloc ?m0 = Some (0, ?m1)" "mq_alloc ?m1 = Some (1, ?m2)"
    by (simp_all add: mq_alloc_def sample_mq)
  then have s2: "mq_sections ?m2 [0 \<mapsto> Allocated, 1 \<mapsto> Allocated] []"
    using mq_sections.alloc [OF mq_sections.alloc [OF s0]] by blast
  have s3: "mq_sections (mq_fill 1 [7] ?m2) [0 \<mapsto> Allocated, 1 \<mapsto> Filled] []"
    using mq_sections.fill [OF s2, of 1 "[7]"] by (simp add: sample_mq)
  obtain ok m' where l: "mq_link 1 (mq_fill 1 [7] ?m2) = (ok, m')" by fastforce
  have "mq_sections m' [0 \<mapsto> Allocated] [[7, 0, 0, 0]]"
    using mq_sections.link [OF s3 _ l] by (simp add: fun_upd_twist sample_mq)
  moreover have "mq_entry m' = 1"
    using l by (auto simp: mq_link_def mq_count_def mq_fill_def mq_copy_def sample_mq)
  ultimately show ?thesis by blast
qed

theorem mq_sections_refine_queue_witness:
  "\<exists>m b m'. mq_unlink m = Some (b, m') \<and> mq_data m b = [7, 0, 0, 0] \<and> fst (mq_link_front 0 m)"
proof -
  obtain m where m: "mq_sections m [0 \<mapsto> Allocated] [[7, 0, 0, 0]]" "mq_entry m = 1"
    using sample_sections by blast
  note props = mq_sections_refine_queue [OF m(1)]
  have "\<exists>b m'. mq_unlink m = Some (b, m') \<and> mq_data m b = hd [[7, 0, 0, 0]]"
    using props m(2) by simp
  moreover have "fst (mq_link_front 0 m)" using props by simp
  ultimately show ?thesis by auto
qed

text \<open>
  C14: message queues deliver in order.  In every history, the i-th received message is the i-th
  sent one, cut to the receiver's buffer; a longer buffer receives a whole block, whose rest is
  old memory.  The counter is the number of messages not received yet, never more than the
  queue's capacity, and the kernel stays well formed.
\<close>

theorem mq_delivers_in_order:
  assumes "mq_history n s ins outs"
  shows "(\<forall>i < length outs. case outs ! i of (len, got) \<Rightarrow>
        take (length (ins ! i)) got = take len (ins ! i) \<and> length got = min len (mq_msg_size (k_mq s n)))
     \<and> length ins = length outs + mq_entry (k_mq s n) \<and> mq_entry (k_mq s n) \<le> mq_max_msgs (k_mq s n)
     \<and> kinv s"
proof -
  let ?sz = "mq_msg_size (k_mq s n)"
  obtain gone xs where l: "kinv s" "mq_holds (k_mq s n) xs" "list_all2 (mq_stored ?sz) ins (gone @ xs)"
    "list_all2 (\<lambda>(len, got) x. got = take (min len ?sz) x) outs gone"
    using mq_history_ok [OF assms] unfolding mq_ledger_def by blast
  have len: "length outs = length gone" "length ins = length gone + length xs"
    using l(3,4) by (auto dest: list_all2_lengthD)
  have msg: "case outs ! i of (len, got) \<Rightarrow> take (length (ins ! i)) got = take len (ins ! i) \<and> length got = min len ?sz"
    if i: "i < length outs" for i
  proof -
    obtain len got where o: "outs ! i = (len, got)" by fastforce
    have got: "got = take (min len ?sz) (gone ! i)"
      using list_all2_nthD [OF l(4) i] o by simp
    have "mq_stored ?sz (ins ! i) (gone ! i)"
      using list_all2_nthD [OF l(3), of i] i len by (simp add: nth_append)
    then have st: "length (gone ! i) = ?sz" "take (length (ins ! i)) (gone ! i) = ins ! i"
      "length (ins ! i) \<le> ?sz" by (simp_all add: mq_stored_def)
    have "take (length (ins ! i)) got = take (min len ?sz) (take (length (ins ! i)) (gone ! i))"
      unfolding got by (simp add: take_take min.commute)
    also have "\<dots> = take len (ins ! i)" using st(2,3) by (simp add: min_def)
    finally show ?thesis using o got st(1) by simp
  qed
  then show ?thesis using len l(1) mq_holds_length(1,2) [OF l(2)] by simp
qed

lemma sample_mq_history: "\<exists>s. mq_history 1 s [[1, 2]] [(3, [1, 2, 0])]"
proof -
  have h0: "mq_history 1 k_sample [] []" by (rule mq_history.start [OF kinv_sample sample_mq_holds])
  have cur: "k_current k_sample = Some 0" by simp
  have q: "lists_sample (MqRecvQ 1) = []" "lists_sample (MqSendQ 1) = []"
    by (simp_all add: lists_sample_def)
  let ?m1 = "(k_mq k_sample 1)\<lparr>mq_free := Some 1\<rparr>"
  obtain m2 where m2: "mq_link 0 (mq_fill 0 [1, 2] ?m1) = (True, m2)" "mq_entry m2 = 1"
      "mq_data m2 0 = [1, 2, 0, 0]" "mq_head m2 = Some 0" "mq_msg_size m2 = 4" "mq_obj m2"
    by (simp add: sample_mq mq_link_def mq_fill_def mq_copy_def mq_count_def)
  let ?s1 = "upd_mq 1 (\<lambda>_. m2) k_sample"
  have r1: "rt_mq_send 1 [1, 2] k_sample = Some (Returned RT_EOK, ?s1)"
    using q m2(1) by (simp add: rt_mq_send_def rt_mq_send_wait_def mq_send_loop_def mq_send_finish_def
        sample_mq mq_alloc_def ipc_wake_def debug_scheduler_available_def)
  have fr: "may_block ?s1 0" using sample_may_block by (simp add: may_block_def)
  have h1: "mq_history 1 ?s1 [[1, 2]] []" using mq_history.send_interrupt [OF h0 cur r1] by simp
  obtain s2 where r2: "rt_mq_recv 1 3 0 ?s1 = Some (Returned (RT_EOK, Some [1, 2, 0]), s2)"
    using q m2 by (simp add: rt_mq_recv_def mq_recv_loop_def mq_unlink_def mq_read_def ipc_wake_def
        debug_scheduler_available_def)
  have "mq_history 1 s2 [[1, 2]] [(3, [1, 2, 0])]"
    using mq_history.recv [OF h1 fr _ r2] by (simp add: received_def timeout_ok_def)
  then show ?thesis by blast
qed

theorem mq_delivers_in_order_witness:
  "\<exists>s. kinv s \<and> mq_entry (k_mq s 1) = 0 \<and> length [1, 2, 0 :: rt_uint8_t] = min 3 (mq_msg_size (k_mq s 1))"
proof -
  obtain s where h: "mq_history 1 s [[1, 2]] [(3, [1, 2, 0])]" using sample_mq_history by blast
  show ?thesis using mq_delivers_in_order [OF h] by (intro exI [of _ s]) simp
qed

text \<open>
  An urgent message goes first.  On a queue with a free block \<^verbatim>\<open>rt_mq_urgent\<close> succeeds, wakes
  the first receiver, and the next receive on that queue returns this message; a message that is
  longer than a block is refused, and without a free block the call returns the error code.
\<close>

theorem mq_urgent_goes_first:
  assumes "kinv s" "k_current s = Some c" "mq_obj (k_mq s n)" "mq_holds (k_mq s n) xs" "buf \<noteq> []"
  shows "if mq_msg_size (k_mq s n) < length buf then rt_mq_urgent n buf s = Some (- RT_ERROR, s)
     else if length xs = mq_max_msgs (k_mq s n) then rt_mq_urgent n buf s = Some (- RT_EFULL, s)
     else \<exists>s'. rt_mq_urgent n buf s = Some (RT_EOK, s') \<and> kinv s'
       \<and> k_lists s' (MqRecvQ n) = tl (k_lists s (MqRecvQ n))
       \<and> (\<forall>u d timeout self. kinv u \<and> k_current u = Some d \<and> k_mq u n = k_mq s' n \<longrightarrow>
           (\<exists>u'. mq_recv_loop n (length buf) timeout self u = Some (Returned (RT_EOK, Some buf), u')
              \<and> kinv u' \<and> mq_holds (k_mq u' n) xs))"
proof -
  have full: "mq_free (k_mq s n) = None \<longleftrightarrow> length xs = mq_max_msgs (k_mq s n)"
    by (rule mq_holds_length(3) [OF assms(4)])
  have main: "\<exists>s'. rt_mq_urgent n buf s = Some (RT_EOK, s') \<and> kinv s'
       \<and> k_lists s' (MqRecvQ n) = tl (k_lists s (MqRecvQ n))
       \<and> (\<forall>u d timeout self. kinv u \<and> k_current u = Some d \<and> k_mq u n = k_mq s' n \<longrightarrow>
           (\<exists>u'. mq_recv_loop n (length buf) timeout self u = Some (Returned (RT_EOK, Some buf), u')
              \<and> kinv u' \<and> mq_holds (k_mq u' n) xs))"
    if len: "length buf \<le> mq_msg_size (k_mq s n)" and room: "mq_free (k_mq s n) \<noteq> None"
  proof -
    obtain b m1 m2 x where m: "mq_alloc (k_mq s n) = Some (b, m1)"
      "mq_link_front b (mq_copy b buf m1) = (True, m2)" "mq_holds m2 (x # xs)" "take (length buf) x = buf"
      "mq_msg_size m2 = mq_msg_size (k_mq s n)"
      using mq_urgent_update [OF assms(4) room len] by metis
    have w: "wait_queue (MqRecvQ n)" by simp
    obtain s' where s': "ipc_wake (MqRecvQ n) (upd_mq n (\<lambda>_. m2) s) = Some s'" "kinv s'"
      "k_mq s' = (k_mq s)(n := m2)"
      "\<And>g. wait_queue g \<Longrightarrow> k_lists s' g = (if g = MqRecvQ n then tl (k_lists s (MqRecvQ n)) else k_lists s g)"
      by (rule mq_wake_ok [OF assms(1,2) w]) blast
    have "\<exists>u'. mq_recv_loop n (length buf) timeout self u = Some (Returned (RT_EOK, Some buf), u')
              \<and> kinv u' \<and> mq_holds (k_mq u' n) xs"
      if u: "kinv u" "k_current u = Some d" "k_mq u n = k_mq s' n" for u d timeout self
    proof -
      have h: "mq_holds (k_mq u n) (x # xs)" and sz: "mq_msg_size (k_mq u n) = mq_msg_size (k_mq s n)"
        using u(3) s'(3) m(3,5) by simp_all
      show ?thesis
        by (rule mq_take_ok [OF u(1,2) h, of "length buf" timeout self])
          (use sz len m(4) in \<open>auto simp: min_absorb1\<close>)
    qed
    then show ?thesis using assms(3,5) len m s' by (intro exI [of _ s']) (auto simp: rt_mq_urgent_def)
  qed
  have "rt_mq_urgent n buf s = Some (- RT_EFULL, s)"
    if "length buf \<le> mq_msg_size (k_mq s n)" "mq_free (k_mq s n) = None"
    using that assms(3,5) by (simp add: rt_mq_urgent_def mq_alloc_def)
  then show ?thesis using main full assms(3,5) by (simp add: rt_mq_urgent_def)
qed

theorem mq_urgent_goes_first_witness:
  "\<exists>s'. rt_mq_urgent 0 [5, 6] k_sample = Some (RT_EOK, s') \<and> kinv s'"
proof -
  have "mq_obj (k_mq k_sample 0)" by (simp add: sample_mq)
  then show ?thesis
    using mq_urgent_goes_first [OF kinv_sample _ _ sample_mq_holds, of 0 0 "[5, 6]"]
    by (fastforce simp: sample_mq)
qed

text \<open>
  Resetting a message queue.  \<^verbatim>\<open>rt_mq_control\<close> with the reset command always ends; it empties
  the queue, gives every block back, and takes all waiting senders and receivers off the queue.
\<close>

theorem mq_reset_empties:
  assumes "kinv s" "k_current s = Some c" "mq_obj (k_mq s n)" "mq_holds (k_mq s n) xs"
  shows "\<exists>s'. rt_mq_control n True s = Some (RT_EOK, s') \<and> kinv s' \<and> mq_holds (k_mq s' n) []
     \<and> k_lists s' (MqRecvQ n) = [] \<and> k_lists s' (MqSendQ n) = []
     \<and> (\<forall>t \<in> set (k_lists s (MqRecvQ n)) \<union> set (k_lists s (MqSendQ n)).
          th_error (k_thread s' t) = - RT_ERROR \<and> th_base s' t \<in> {RT_THREAD_READY, RT_THREAD_RUNNING})"
proof -
  have w: "wait_queue (MqRecvQ n)" "wait_queue (MqSendQ n)" by simp_all
  let ?R = "set (k_lists s (MqRecvQ n))" and ?S = "set (k_lists s (MqSendQ n))"
  obtain s1 where s1: "ipc_list_resume_all (MqRecvQ n) s = Some s1" "kinv s1"
    "\<And>g. wait_queue g \<Longrightarrow> k_lists s1 g = (if g = MqRecvQ n then [] else k_lists s g)"
    "\<And>t. t \<in> ?R \<Longrightarrow> th_error (k_thread s1 t) = - RT_ERROR \<and> th_base s1 t \<in> {RT_THREAD_READY, RT_THREAD_RUNNING}"
    "objs_frame s s1" "k_current s1 = k_current s"
    by (rule resume_all_ok [OF assms(1) w(1)]) blast
  obtain s2 where s2: "ipc_list_resume_all (MqSendQ n) s1 = Some s2" "kinv s2"
    "\<And>g. wait_queue g \<Longrightarrow> k_lists s2 g = (if g = MqSendQ n then [] else k_lists s1 g)"
    "\<And>t. t \<in> set (k_lists s1 (MqSendQ n)) \<Longrightarrow> th_error (k_thread s2 t) = - RT_ERROR
        \<and> th_base s2 t \<in> {RT_THREAD_READY, RT_THREAD_RUNNING}"
    "\<And>t. t \<notin> set (k_lists s1 (MqSendQ n)) \<Longrightarrow> k_thread s2 t = k_thread s1 t"
    "objs_frame s1 s2" "k_current s2 = k_current s1"
    by (rule resume_all_ok [OF s1(2) w(2)]) blast
  have mq2: "k_mq s2 = k_mq s" using s1(5) s2(6) by (simp add: objs_frame_def)
  obtain q fr where q: "mq_inv (k_mq s n) q fr {}" using assms(4) by (rule mq_holdsE)
  obtain m fr' where m: "mq_release_all (k_mq s n) = Some m" "mq_inv (m\<lparr>mq_entry := 0\<rparr>) [] fr' {}"
    by (rule mq_release_all_ok [OF q]) blast
  let ?s3 = "upd_mq n (\<lambda>_. m\<lparr>mq_entry := 0\<rparr>) s2"
  have inv3: "kinv ?s3" and cur3: "k_current ?s3 = Some c" using s1(6) s2(2,7) assms(2) by simp_all
  obtain s' where s': "rt_schedule ?s3 = Some s'" "kinv s'" "sched_frame ?s3 s'"
    by (rule schedule_kinv [OF inv3 cur3]) blast
  note fr = sched_frameD [OF s'(3)]
  have woken: "th_error (k_thread s' t) = - RT_ERROR \<and> th_base s' t \<in> {RT_THREAD_READY, RT_THREAD_RUNNING}"
    if "t \<in> ?R \<union> ?S" for t
  proof -
    have "th_error (k_thread s2 t) = - RT_ERROR \<and> th_base s2 t \<in> {RT_THREAD_READY, RT_THREAD_RUNNING}"
      using that s1(3) [OF w(2)] s1(4) s2(4,5) by (cases "t \<in> ?S") auto
    then show ?thesis using fr(9) [of t] th_core_simps [OF fr(7), of t] by auto
  qed
  have lists: "k_lists s' g = k_lists s2 g" if "wait_queue g" for g
    using that sched_frameD(10) [OF s'(3), of g] by (cases g) auto
  have "mq_holds (k_mq s' n) []"
    using fr(1) m(2) unfolding mq_holds_def by (auto simp: objs_frame_def)
  moreover have "rt_mq_control n True s = Some (RT_EOK, s')"
    using assms(3) s1(1) s2(1) m(1) s'(1) mq2 by (simp add: rt_mq_control_def)
  ultimately show ?thesis
    using s'(2) woken lists [OF w(1)] lists [OF w(2)] s2(3) [OF w(1)] s2(3) [OF w(2)] s1(3) [OF w(1)]
    by (intro exI [of _ s']) auto
qed

theorem mq_reset_empties_witness:
  "\<exists>s'. rt_mq_control 0 True k_sample = Some (RT_EOK, s') \<and> mq_holds (k_mq s' 0) []"
proof -
  have "mq_obj (k_mq k_sample 0)" by (simp add: sample_mq)
  then show ?thesis using mq_reset_empties [OF kinv_sample _ _ sample_mq_holds, of 0 0] by auto
qed

end
