(* ===== verification/Clock.thy ===== *)
theory Clock
  imports Samples
begin

text \<open>
  The tick of src/clock.c with its time slice, and the check of src/timer.c that calls the
  timeout functions of the expired timers.  User timeout functions are a parameter.
\<close>

section \<open>Operations\<close>

text \<open>\<^verbatim>\<open>t->timeout_func(t->parameter)\<close>.\<close>

definition timeout_call :: "(nat \<Rightarrow> kstate \<Rightarrow> kstate option) \<Rightarrow> timeout_func \<Rightarrow> kstate \<Rightarrow> kstate option" where
  "timeout_call user f s =
     (case f of Thread_timeout t \<Rightarrow> thread_timeout t s | User_timeout n \<Rightarrow> user n s)"

text \<open>
  The first timer leaves the list, is linked in the local list while its function runs, and is
  started again if it is periodic and still active.
\<close>

definition timer_expire :: "tmid \<Rightarrow> kstate \<Rightarrow> kstate" where
  "timer_expire i s =
     (let s1 = timer_remove i s;
          s2 = (if tm_periodic (k_timer s1 i) then s1 else upd_timer i (flag_clear RT_TIMER_FLAG_ACTIVATED) s1)
      in upd_timer i (\<lambda>tm. tm\<lparr>tm_row := Some Check_list\<rparr>) s2
           \<lparr>k_timers := (k_timers s2)(Check_list := i # k_timers s2 Check_list)\<rparr>)"

definition timer_restart :: "tmid \<Rightarrow> kstate \<Rightarrow> kstate option" where
  "timer_restart i s =
     (if k_timers s Check_list = [] then Some s
      else let s1 = timer_remove i s in
           if tm_periodic (k_timer s1 i) \<and> tm_activated (k_timer s1 i)
           then rt_timer_start i (upd_timer i (flag_clear RT_TIMER_FLAG_ACTIVATED) s1)
           else Some s1)"

partial_function (option) timer_check_loop ::
  "(nat \<Rightarrow> kstate \<Rightarrow> kstate option) \<Rightarrow> rt_tick_t \<Rightarrow> kstate \<Rightarrow> kstate option" where
  "timer_check_loop user current_tick s =
     (case k_timers s Timer_list of
        [] \<Rightarrow> Some s
      | i # _ \<Rightarrow>
          if current_tick - tm_timeout_tick (k_timer s i) < TICK_HALF
          then do {
            s1 \<leftarrow> timeout_call user (tm_timeout_func (k_timer s i)) (timer_expire i s);
            s2 \<leftarrow> timer_restart i s1;
            timer_check_loop user (rt_tick_get s1) s2
          }
          else Some s)"

definition rt_timer_check :: "(nat \<Rightarrow> kstate \<Rightarrow> kstate option) \<Rightarrow> kstate \<Rightarrow> kstate option" where
  "rt_timer_check user s =
     timer_check_loop user (rt_tick_get s) (s\<lparr>k_timers := (k_timers s)(Check_list := [])\<rparr>)"

definition rt_tick_increase :: "(nat \<Rightarrow> kstate \<Rightarrow> kstate option) \<Rightarrow> kstate \<Rightarrow> kstate option" where
  "rt_tick_increase user s = do {
     let s1 = s\<lparr>k_tick := k_tick s + 1\<rparr>;
     t \<leftarrow> rt_thread_self s1;
     let s2 = upd_thread t (\<lambda>th. th\<lparr>th_remaining_tick := th_remaining_tick th - 1\<rparr>) s1;
     s3 \<leftarrow> (if th_remaining_tick (k_thread s2 t) = 0
            then rt_schedule (upd_thread t (\<lambda>th. th\<lparr>th_remaining_tick := th_init_tick th,
                                                    th_stat := set_yield (th_stat th)\<rparr>) s2)
            else Some s2);
     rt_timer_check user s3
   }"


section \<open>One expiry\<close>

text \<open>The timers expire within half the tick range from b on, in order, and no check is running.\<close>

definition timers_after :: "rt_tick_t \<Rightarrow> kstate \<Rightarrow> bool" where
  "timers_after b s \<longleftrightarrow> k_timers s Check_list = []
     \<and> (\<forall>i \<in> set (k_timers s Timer_list). left_from b (tm_timeout_tick (k_timer s i)) < 2 ^ 31 - 1)
     \<and> sorted (map (\<lambda>i. left_from b (tm_timeout_tick (k_timer s i))) (k_timers s Timer_list))"

lemma timers_afterD:
  assumes "timers_after b s"
  shows "k_timers s Check_list = []"
    "i \<in> set (k_timers s Timer_list) \<Longrightarrow> left_from b (tm_timeout_tick (k_timer s i)) < 2 ^ 31 - 1"
    "sorted (map (\<lambda>i. left_from b (tm_timeout_tick (k_timer s i))) (k_timers s Timer_list))"
  using assms by (auto simp: timers_after_def)

text \<open>A timer of such a list has expired exactly when its tick has come.\<close>

lemma expired_iff:
  fixes b k :: rt_tick_t
  assumes "left_from b k < 2 ^ 31 - 1"
  shows "b - k < TICK_HALF \<longleftrightarrow> k = b"
proof -
  have "left_from b b = 0" by (simp add: left_from_def)
  then have "b - k < TICK_HALF \<longleftrightarrow> left_from b k \<le> 0" using left_from_diff(2) [of b b k] assms by simp
  then show ?thesis by (auto simp: left_from_def unat_eq_0)
qed

text \<open>The invariant of a state that differs in the timer of thread t only.\<close>

lemma kinv_timer_step:
  assumes inv: "kinv s" and fr: "timer_frame {i} s s'" and tms: "timers_inv s'"
    and t: "\<And>t. i = ThreadTimer t \<Longrightarrow> tm_obj (k_timer s i) \<Longrightarrow> tm_obj (k_timer s' i)"
      "\<And>t. i = ThreadTimer t \<Longrightarrow> tm_row (k_timer s' i) = Some Timer_list \<Longrightarrow> th_base s t = RT_THREAD_SUSPEND"
  shows "kinv s'"
proof -
  note f = timer_frameD [OF fr]
  have "sched_inv s'" using timer_frame_sched_inv [OF fr] kinvD(1) [OF inv] by simp
  moreover have "timer_susp s'"
    unfolding timer_susp_def
  proof (intro allI impI)
    fix t
    assume a: "tm_row (k_timer s' (ThreadTimer t)) = Some Timer_list"
    show "th_base s' t = RT_THREAD_SUSPEND"
      using a t(2) [of t] f(9) [of "ThreadTimer t"] kinvD(3) [OF inv]
      by (cases "i = ThreadTimer t") (auto simp: timer_susp_def f(2))
  qed
  moreover have "objs_ok s'"
    unfolding objs_ok_def
  proof (intro allI impI)
    fix t
    assume "th_base s' t \<in> {RT_THREAD_READY, RT_THREAD_SUSPEND, RT_THREAD_RUNNING}"
    then have "th_base s t \<in> {RT_THREAD_READY, RT_THREAD_SUSPEND, RT_THREAD_RUNNING}" by (simp add: f(2))
    then show "th_obj (k_thread s' t) \<and> tm_obj (k_timer s' (ThreadTimer t))"
      using kinv_objs [OF inv, of t] t(1) [of t] f(9) [of "ThreadTimer t"]
      by (cases "i = ThreadTimer t") (auto simp: f(2))
  qed
  moreover have "stacks_ok s'" using kinvD(5) [OF inv] by (simp add: stacks_ok_def f(2))
  ultimately show ?thesis using tms by (simp add: kinv_def)
qed

lemma timer_expire_ok:
  assumes inv: "timers_inv s" and i: "k_timers s Timer_list = i # ts" and c: "k_timers s Check_list = []"
  shows "timers_inv (timer_expire i s)" "timer_frame {i} s (timer_expire i s)"
    "k_timers (timer_expire i s) Timer_list = ts" "k_timers (timer_expire i s) Check_list = [i]"
    "k_timer (timer_expire i s) i = (if tm_periodic (k_timer s i) then k_timer s i
        else flag_clear 1 (k_timer s i))\<lparr>tm_row := Some Check_list\<rparr>"
    "\<And>j. j \<noteq> i \<Longrightarrow> k_timer (timer_expire i s) j = k_timer s j"
proof -
  let ?s' = "timer_expire i s"
  have row: "tm_row (k_timer s i) = Some Timer_list" using timers_invD(3) [OF inv, of i Timer_list] i by simp
  have tm: "k_timer ?s' = (k_timer s)(i := (if tm_periodic (k_timer s i) then k_timer s i
      else flag_clear 1 (k_timer s i))\<lparr>tm_row := Some Check_list\<rparr>)"
    by (simp add: timer_expire_def Let_def flag_clear_def)
  have "i \<notin> set ts" using timers_invD(2) [OF inv, of Timer_list] i by simp
  then have lists: "k_timers ?s' = (k_timers s)(Timer_list := ts, Check_list := [i])"
    using row i c by (auto simp: timer_expire_def timer_remove_def Let_def fun_eq_iff)
  show "k_timers ?s' Timer_list = ts" "k_timers ?s' Check_list = [i]" using lists by simp_all
  show "k_timer ?s' i = (if tm_periodic (k_timer s i) then k_timer s i
        else flag_clear 1 (k_timer s i))\<lparr>tm_row := Some Check_list\<rparr>" using tm by simp
  show "\<And>j. j \<noteq> i \<Longrightarrow> k_timer ?s' j = k_timer s j" using tm by simp
  show "timers_inv ?s'"
  proof (rule timers_inv_update [OF inv tm])
    show "timer_ok i ((if tm_periodic (k_timer s i) then k_timer s i else flag_clear 1 (k_timer s i))
        \<lparr>tm_row := Some Check_list\<rparr>)"
      using timers_invD(1) [OF inv, of i] by (auto simp: timer_ok_def split: tmid.splits)
    show "distinct (k_timers ?s' l)" for l
      using timers_invD(2) [OF inv, of l] timers_invD(2) [OF inv, of Timer_list] i by (simp add: lists)
    show "set (k_timers ?s' l) = set (k_timers s l) - {i} \<union>
        (if tm_row ((if tm_periodic (k_timer s i) then k_timer s i else flag_clear 1 (k_timer s i))
           \<lparr>tm_row := Some Check_list\<rparr>) = Some l then {i} else {})" for l
      using \<open>i \<notin> set ts\<close> i c by (cases l) (auto simp: lists)
  qed
  show "timer_frame {i} s ?s'"
    by (simp add: timer_expire_def timer_frame_def objs_frame_def Let_def)
qed


text \<open>The local list is emptied; a periodic timer that is still active starts again.\<close>

lemma timer_drop_ok:
  assumes inv: "timers_inv s" and c: "k_timers s Check_list = [i]"
    and act: "\<And>t. i = ThreadTimer t \<Longrightarrow> \<not> tm_activated (k_timer s i)"
  shows "timers_inv (timer_remove i s)" "timer_frame {i} s (timer_remove i s)"
    "k_timers (timer_remove i s) = (k_timers s)(Check_list := [])"
    "k_timer (timer_remove i s) = (k_timer s)(i := k_timer s i\<lparr>tm_row := None\<rparr>)"
proof -
  have row: "tm_row (k_timer s i) = Some Check_list" using timers_invD(3) [OF inv, of i Check_list] c by simp
  show tm: "k_timer (timer_remove i s) = (k_timer s)(i := k_timer s i\<lparr>tm_row := None\<rparr>)" by simp
  show lists: "k_timers (timer_remove i s) = (k_timers s)(Check_list := [])"
    using row c by (simp add: timer_remove_def)
  show "timers_inv (timer_remove i s)"
  proof (rule timers_inv_update [OF inv tm])
    show "timer_ok i (k_timer s i\<lparr>tm_row := None\<rparr>)"
      using timers_invD(1) [OF inv, of i] act by (auto simp: timer_ok_def split: tmid.splits)
    show "distinct (k_timers (timer_remove i s) l)" for l
      using timers_invD(2) [OF inv, of l] by (simp add: lists)
    show "set (k_timers (timer_remove i s) l) = set (k_timers s l) - {i} \<union>
        (if tm_row (k_timer s i\<lparr>tm_row := None\<rparr>) = Some l then {i} else {})" for l
      using timers_invD(3) [OF inv, of i l] row c by (cases l) (auto simp: lists)
  qed
  show "timer_frame {i} s (timer_remove i s)" by (simp add: timer_frame_def objs_frame_def)
qed

lemma start_fields:
  assumes "rt_timer_start i s = Some s'" "timers_inv s"
  shows "k_timers s' Check_list = remove1 i (k_timers s Check_list)"
    "tm_periodic (k_timer s' i) = tm_periodic (k_timer s i)"
    "tm_init_tick (k_timer s' i) = tm_init_tick (k_timer s i)"
    "tm_timeout_func (k_timer s' i) = tm_timeout_func (k_timer s i)"
  using assms(1) by (auto simp: rt_timer_start_def Let_def bind_eq_Some_conv timer_remove_lists [OF assms(2)])

text \<open>
  What a user timeout function may do here: wake threads, which stops their timers, and change
  IPC objects; it leaves the tick and the user timers alone and does not block.
\<close>

abbreviation awake :: "kstate \<Rightarrow> tid \<Rightarrow> bool" where
  "awake s t \<equiv> th_base s t \<in> {RT_THREAD_READY, RT_THREAD_RUNNING}"

definition wakes_only :: "kstate \<Rightarrow> kstate \<Rightarrow> bool" where
  "wakes_only s s' \<longleftrightarrow> kinv s' \<and> k_current s' \<noteq> None \<and> k_tick s' = k_tick s
     \<and> k_timers s' Check_list = k_timers s Check_list
     \<and> (\<forall>n. k_timer s' (UserTimer n) = k_timer s (UserTimer n))
     \<and> k_timers s' Timer_list = filter (\<lambda>i. tm_row (k_timer s' i) = Some Timer_list) (k_timers s Timer_list)
     \<and> (\<forall>i \<in> set (k_timers s' Timer_list). k_timer s' i = k_timer s i)
     \<and> (\<forall>t. awake s t \<or> ThreadTimer t \<in> set (k_timers s Timer_list) - set (k_timers s' Timer_list)
           \<longrightarrow> awake s' t)"

definition user_quiet :: "(nat \<Rightarrow> kstate \<Rightarrow> kstate option) \<Rightarrow> bool" where
  "user_quiet user \<longleftrightarrow> (\<forall>n s. kinv s \<and> k_current s \<noteq> None \<longrightarrow> (\<exists>s'. user n s = Some s' \<and> wakes_only s s'))"

text \<open>A periodic timer has a period, and \<^verbatim>\<open>_thread_timeout\<close> belongs to thread timers.\<close>

fun user_func :: "tmid \<Rightarrow> timeout_func \<Rightarrow> bool" where
  "user_func (UserTimer n) (Thread_timeout t) \<longleftrightarrow> False"
| "user_func _ _ \<longleftrightarrow> True"

definition periods_ok :: "kstate \<Rightarrow> bool" where
  "periods_ok s \<longleftrightarrow> (\<forall>i \<in> set (k_timers s Timer_list). user_func i (tm_timeout_func (k_timer s i))
     \<and> (tm_periodic (k_timer s i) \<longrightarrow>
          0 < tm_init_tick (k_timer s i) \<and> tm_init_tick (k_timer s i) < TICK_HALF))"

text \<open>The timers that are due now.\<close>

definition due :: "kstate \<Rightarrow> tmid list" where
  "due s = filter (\<lambda>i. tm_timeout_tick (k_timer s i) = k_tick s) (k_timers s Timer_list)"

text \<open>One turn of the loop: what both kinds of timers have in common.\<close>

definition turn_ok :: "tmid \<Rightarrow> kstate \<Rightarrow> kstate \<Rightarrow> bool" where
  "turn_ok i s s' \<longleftrightarrow> kinv s' \<and> k_current s' \<noteq> None \<and> k_tick s' = k_tick s
     \<and> timers_after (k_tick s) s' \<and> periods_ok s'
     \<and> length (due s') < length (due s)
     \<and> (\<forall>t. awake s t \<or> ThreadTimer t \<in> set (k_timers s Timer_list) - set (k_timers s' Timer_list)
           \<longrightarrow> awake s' t)
     \<and> (\<forall>j \<in> set (k_timers s Timer_list) \<inter> set (k_timers s' Timer_list) - {i}. k_timer s' j = k_timer s j)"

text \<open>
  What a turn does exactly.  The timers of the user are followed one by one; the calls of the user's
  functions are observed by an arbitrary function of the state that the kernel's own steps keep (any
  function of the IPC objects does) and on which each user function has a fixed effect.  The
  threads outside \<open>W\<close> are those whose timers no user function stops.
\<close>

definition user_call :: "timeout_func \<Rightarrow> nat list" where
  "user_call f = (case f of Thread_timeout t \<Rightarrow> [] | User_timeout n \<Rightarrow> [n])"

definition user_calls :: "kstate \<Rightarrow> nat list" where
  "user_calls s = concat (map (\<lambda>i. user_call (tm_timeout_func (k_timer s i))) (due s))"

definition observer_ok ::
  "(nat \<Rightarrow> kstate \<Rightarrow> kstate option) \<Rightarrow> (kstate \<Rightarrow> 'a) \<Rightarrow> (nat \<Rightarrow> 'a \<Rightarrow> 'a) \<Rightarrow> bool" where
  "observer_ok user obs eff \<longleftrightarrow> (\<forall>s s'. objs_frame s s' \<longrightarrow> obs s' = obs s)
     \<and> (\<forall>n s s'. user n s = Some s' \<longrightarrow> obs s' = eff n (obs s))"

definition user_spares :: "(nat \<Rightarrow> kstate \<Rightarrow> kstate option) \<Rightarrow> tid set \<Rightarrow> bool" where
  "user_spares user W \<longleftrightarrow> (\<forall>n s s' t. user n s = Some s' \<longrightarrow> t \<notin> W \<longrightarrow>
     ThreadTimer t \<in> set (k_timers s Timer_list) \<longrightarrow> ThreadTimer t \<in> set (k_timers s' Timer_list))"

text \<open>A periodic timer runs again, one period from now.\<close>

definition rearmed :: "rt_tick_t \<Rightarrow> rt_timer \<Rightarrow> rt_timer \<Rightarrow> bool" where
  "rearmed now tm tm' \<longleftrightarrow> tm_activated tm' \<and> tm_timeout_tick tm' = now + tm_init_tick tm
     \<and> tm_periodic tm' \<and> tm_init_tick tm' = tm_init_tick tm \<and> tm_timeout_func tm' = tm_timeout_func tm"

definition user_timer_expired :: "nat \<Rightarrow> kstate \<Rightarrow> kstate \<Rightarrow> bool" where
  "user_timer_expired n s s' \<longleftrightarrow>
     (if tm_periodic (k_timer s (UserTimer n))
      then UserTimer n \<in> set (k_timers s' Timer_list)
        \<and> rearmed (k_tick s) (k_timer s (UserTimer n)) (k_timer s' (UserTimer n))
      else UserTimer n \<notin> set (k_timers s' Timer_list) \<and> \<not> tm_activated (k_timer s' (UserTimer n)))"

definition user_timer_kept :: "nat \<Rightarrow> kstate \<Rightarrow> kstate \<Rightarrow> bool" where
  "user_timer_kept n s s' \<longleftrightarrow> k_timer s' (UserTimer n) = k_timer s (UserTimer n)
     \<and> (UserTimer n \<in> set (k_timers s' Timer_list) \<longleftrightarrow> UserTimer n \<in> set (k_timers s Timer_list))"

definition turn_exact :: "(nat \<Rightarrow> kstate \<Rightarrow> kstate option) \<Rightarrow> (kstate \<Rightarrow> 'a) \<Rightarrow> (nat \<Rightarrow> 'a \<Rightarrow> 'a) \<Rightarrow> tid set
    \<Rightarrow> tmid \<Rightarrow> kstate \<Rightarrow> kstate \<Rightarrow> bool" where
  "turn_exact user obs eff W i s s' \<longleftrightarrow>
     (\<forall>n. if i = UserTimer n then user_timer_expired n s s' else user_timer_kept n s s')
     \<and> (user_spares user W \<longrightarrow> (\<forall>t. t \<notin> W \<and> i \<noteq> ThreadTimer t
           \<and> ThreadTimer t \<in> set (k_timers s Timer_list) \<longrightarrow> ThreadTimer t \<in> set (k_timers s' Timer_list)))
     \<and> user_calls s = user_call (tm_timeout_func (k_timer s i)) @ user_calls s'
     \<and> (observer_ok user obs eff \<longrightarrow>
          obs s' = fold eff (user_call (tm_timeout_func (k_timer s i))) (obs s))"

lemma calls_filter:
  assumes "\<And>j. j \<in> set js \<Longrightarrow> \<not> Q j \<Longrightarrow> g j = []"
  shows "concat (map g (filter P (filter Q js))) = concat (map g (filter P js))"
  using assms by (induction js) auto

lemma thread_turn:
  assumes inv: "kinv s" and cur: "k_current s \<noteq> None" and srt: "timers_after (k_tick s) s" and per: "periods_ok s"
    and L: "k_timers s Timer_list = i # ts" and i: "i = ThreadTimer t"
    and due: "tm_timeout_tick (k_timer s i) = k_tick s"
  obtains s1 s2 where "timeout_call user (tm_timeout_func (k_timer s i)) (timer_expire i s) = Some s1"
    "timer_restart i s1 = Some s2" "k_tick s1 = k_tick s" "turn_ok i s s2" "awake s2 t"
    "turn_exact user obs eff W i s s2"
proof -
  note tinv = kinvD(2) [OF inv]
  have row: "tm_row (k_timer s i) = Some Timer_list" using timers_invD(3) [OF tinv, of i Timer_list] L by simp
  have sus: "th_base s t = RT_THREAD_SUSPEND" using kinvD(3) [OF inv] row i by (simp add: timer_susp_def)
  have tm: "\<not> tm_periodic (k_timer s i)" "tm_timeout_func (k_timer s i) = Thread_timeout t"
    using timers_invD(1) [OF tinv, of i] row i by (auto simp: timer_ok_def)
  note ex = timer_expire_ok [OF tinv L timers_afterD(1) [OF srt]]
  let ?s3 = "timer_expire i s"
  note f3 = timer_frameD [OF ex(2)]
  have inv3: "kinv ?s3" by (rule kinv_timer_step [OF inv ex(2,1)]) (use ex(5) tm(1) in simp_all)
  have sus3: "th_base ?s3 t = RT_THREAD_SUSPEND" using sus by (simp add: f3(2))
  have row3: "tm_row (k_timer ?s3 (ThreadTimer t)) \<noteq> Some Timer_list" using ex(5) i by simp
  obtain c where cur3: "k_current ?s3 = Some c" using cur f3(5) by auto
  obtain s1 where s1: "thread_timeout t ?s3 = Some s1" "kinv s1" "\<exists>c'. k_current s1 = Some c'"
    "awake s1 t" "k_timers s1 = k_timers ?s3" "k_timer s1 = k_timer ?s3" "k_tick s1 = k_tick ?s3"
    "\<And>u. awake ?s3 u \<Longrightarrow> awake s1 u" "objs_frame ?s3 s1"
    by (rule timeout_ok [OF inv3 sus3 row3 cur3]) (rule that)
  have c1: "k_timers s1 Check_list = [i]" using s1(5) ex(4) by simp
  have act1: "\<not> tm_activated (k_timer s1 i)" using s1(6) ex(5) tm(1) by simp
  note dr = timer_drop_ok [OF kinvD(2) [OF s1(2)] c1 act1]
  let ?s2 = "timer_remove i s1"
  have inv2: "kinv ?s2" by (rule kinv_timer_step [OF s1(2) dr(2,1)]) (simp_all add: dr(4))
  have per1: "\<not> tm_periodic (k_timer s1 i)" using s1(6) ex(5) tm(1) by simp
  have res: "timer_restart i s1 = Some ?s2" using c1 per1 by (simp add: timer_restart_def dr(4))
  have L2: "k_timers ?s2 Timer_list = ts" "k_timers ?s2 Check_list = []" using dr(3) s1(5) ex(3) by simp_all
  have its: "i \<notin> set ts" using timers_invD(2) [OF tinv, of Timer_list] L by simp
  have tm2: "k_timer ?s2 j = k_timer s j" if "j \<noteq> i" for j using that s1(6) ex(6) [OF that] by (simp add: dr(4))
  have tick2: "k_tick ?s2 = k_tick s" using s1(7) f3(6) by simp
  have eq: "map (\<lambda>j. left_from (k_tick s) (tm_timeout_tick (k_timer ?s2 j))) ts
      = map (\<lambda>j. left_from (k_tick s) (tm_timeout_tick (k_timer s j))) ts"
    using its tm2 by (intro map_cong) auto
  have "sorted (map (\<lambda>j. left_from (k_tick s) (tm_timeout_tick (k_timer s j))) ts)"
    using timers_afterD(3) [OF srt] L by simp
  then have srt2: "timers_after (k_tick s) ?s2"
    using timers_afterD(2) [OF srt] L L2 its tm2 unfolding timers_after_def L2 eq by auto
  have per2: "periods_ok ?s2" using per L L2 its tm2 unfolding periods_ok_def by auto
  have due2: "due ?s2 = filter (\<lambda>j. tm_timeout_tick (k_timer s j) = k_tick s) ts"
    unfolding due_def L2 tick2 using its tm2 by (intro filter_cong) auto
  have "map (\<lambda>j. user_call (tm_timeout_func (k_timer ?s2 j))) (due ?s2)
      = map (\<lambda>j. user_call (tm_timeout_func (k_timer s j))) (due ?s2)"
    using its tm2 by (intro map_cong) (auto simp: due2)
  then have calls2: "user_calls ?s2 = concat (map (\<lambda>j. user_call (tm_timeout_func (k_timer s j))) (due ?s2))"
    by (simp only: user_calls_def)
  have calls: "user_calls s = user_call (tm_timeout_func (k_timer s i)) @ user_calls ?s2"
    unfolding calls2 due2 using L due by (simp add: user_calls_def due_def)
  have "objs_frame s ?s2" using ex(2) s1(9) by (auto simp: timer_frame_def objs_frame_def)
  then have obs: "obs ?s2 = obs s" if "observer_ok user obs eff" using that by (auto simp: observer_ok_def)
  have "turn_exact user obs eff W i s ?s2"
    using calls obs i tm(2) tm2 L L2 by (auto simp: turn_exact_def user_timer_kept_def user_call_def)
  note exact = this
  have "length (due ?s2) < length (due s)" using L due by (simp add: due2) (simp add: due_def)
  moreover have "awake ?s2 u" if "awake s u \<or> ThreadTimer u \<in> set (k_timers s Timer_list) - set (k_timers ?s2 Timer_list)" for u
  proof -
    have "awake s u \<Longrightarrow> awake s1 u" using s1(8) [of u] by (simp add: f3(2))
    then show ?thesis using that s1(4) L L2 i by auto
  qed
  ultimately have "turn_ok i s ?s2"
    using inv2 s1(3) srt2 per2 tick2 tm2 by (auto simp: turn_ok_def)
  then show thesis
    by (intro that [of s1 ?s2]) (use s1(1,4,7) res f3(6) tm(2) exact in \<open>simp_all add: timeout_call_def\<close>)
qed


lemma user_turn:
  assumes inv: "kinv s" and cur: "k_current s \<noteq> None" and srt: "timers_after (k_tick s) s" and per: "periods_ok s"
    and L: "k_timers s Timer_list = i # ts" and i: "i = UserTimer n"
    and due: "tm_timeout_tick (k_timer s i) = k_tick s"
    and func: "tm_timeout_func (k_timer s i) = User_timeout k" and quiet: "user_quiet user"
  obtains s1 s2 where "timeout_call user (tm_timeout_func (k_timer s i)) (timer_expire i s) = Some s1"
    "timer_restart i s1 = Some s2" "k_tick s1 = k_tick s" "turn_ok i s s2" "turn_exact user obs eff W i s s2"
proof -
  note tinv = kinvD(2) [OF inv]
  have row: "tm_row (k_timer s i) = Some Timer_list" using timers_invD(3) [OF tinv, of i Timer_list] L by simp
  have obj: "tm_obj (k_timer s i)" using timers_invD(1) [OF tinv, of i] row by (auto simp: timer_ok_def)
  note ex = timer_expire_ok [OF tinv L timers_afterD(1) [OF srt]]
  let ?s3 = "timer_expire i s"
  note f3 = timer_frameD [OF ex(2)]
  have inv3: "kinv ?s3" by (rule kinv_timer_step [OF inv ex(2,1)]) (use i in simp_all)
  have cur3: "k_current ?s3 \<noteq> None" using cur f3(5) by simp
  obtain s1 where s1: "user k ?s3 = Some s1" "wakes_only ?s3 s1"
    using quiet inv3 cur3 unfolding user_quiet_def by blast
  note W = s1(2) [unfolded wakes_only_def ex(3) ex(4) f3(2) f3(6)]
  have "k_timer s1 (UserTimer n) = k_timer ?s3 (UserTimer n)" using W by blast
  then have wi: "k_timer s1 i = k_timer ?s3 i" using i by simp
  have w: "kinv s1" "k_current s1 \<noteq> None" "k_tick s1 = k_tick s" "k_timers s1 Check_list = [i]"
    "k_timer s1 i = k_timer ?s3 i" "k_timers s1 Timer_list = filter (\<lambda>j. tm_row (k_timer s1 j) = Some Timer_list) ts"
    "\<And>j. j \<in> set (k_timers s1 Timer_list) \<Longrightarrow> k_timer s1 j = k_timer ?s3 j"
    "\<And>t. awake s t \<or> ThreadTimer t \<in> set ts - set (k_timers s1 Timer_list) \<Longrightarrow> awake s1 t"
    using W wi by blast+
  have nt: "\<And>t. i \<noteq> ThreadTimer t" using i by simp
  have act1: "\<not> tm_activated (k_timer s1 i)" if "i = ThreadTimer t" for t using that nt by blast
  note dr = timer_drop_ok [OF kinvD(2) [OF w(1)] w(4) act1]
  let ?s2 = "timer_remove i s1"
  have inv2: "kinv ?s2" by (rule kinv_timer_step [OF w(1) dr(2,1)]) (use nt in simp_all)
  have its: "i \<notin> set ts" using timers_invD(2) [OF tinv, of Timer_list] L by simp
  let ?L1 = "k_timers s1 Timer_list"
  have L1ts: "set ?L1 \<subseteq> set ts" "i \<notin> set ?L1" using w(6) its by auto
  have tm1: "k_timer s1 j = k_timer s j" if "j \<in> set ?L1" for j
    using w(7) [OF that] ex(6) [of j] that L1ts by auto
  let ?tick = "\<lambda>j. left_from (k_tick s) (tm_timeout_tick (k_timer s j))"
  have srt_ts: "sorted (map ?tick ts)" using timers_afterD(3) [OF srt] L by simp
  have srt1: "sorted (map ?tick ?L1)"
    unfolding w(6) by (rule sorted_filter [OF srt_ts])
  have rng: "?tick j < 2 ^ 31 - 1" if "j \<in> set ?L1" for j
    using timers_afterD(2) [OF srt, of j] that L L1ts(1) by auto
  have less: "length (filter (\<lambda>j. tm_timeout_tick (k_timer s j) = k_tick s) ?L1) < length (due s)"
  proof -
    have "length (filter P (filter Q ts)) \<le> length (filter P ts)" for P Q :: "tmid \<Rightarrow> bool"
      by (induction ts) auto
    then show ?thesis using due L unfolding w(6) due_def by (simp add: less_Suc_eq_le del: filter_filter)
  qed
  have aw: "awake s1 u" if "awake s u \<or> ThreadTimer u \<in> set (k_timers s Timer_list) - set ?L1" for u
    using that w(8) [of u] L nt by auto
  have um: "k_timer s1 (UserTimer m) = k_timer s (UserTimer m)"
    "UserTimer m \<in> set ?L1 \<longleftrightarrow> UserTimer m \<in> set (k_timers s Timer_list)" if "m \<noteq> n" for m
  proof -
    have "UserTimer m \<noteq> i" using that i by simp
    moreover have "k_timer s1 (UserTimer m) = k_timer ?s3 (UserTimer m)" using W by blast
    ultimately show "k_timer s1 (UserTimer m) = k_timer s (UserTimer m)" using ex(6) by simp
    then show "UserTimer m \<in> set ?L1 \<longleftrightarrow> UserTimer m \<in> set (k_timers s Timer_list)"
      using \<open>UserTimer m \<noteq> i\<close> timers_invD(3) [OF tinv, of "UserTimer m" Timer_list] L by (simp add: w(6))
  qed
  have spare: "ThreadTimer u \<in> set ?L1"
    if "user_spares user X" "u \<notin> X" "ThreadTimer u \<in> set (k_timers s Timer_list)" for X u
    using that s1(1) L nt ex(3) unfolding user_spares_def by (metis set_ConsD)
  let ?call = "\<lambda>j. user_call (tm_timeout_func (k_timer s j))"
  have none: "?call j = []" if j: "j \<in> set ts" "tm_row (k_timer s1 j) \<noteq> Some Timer_list" for j
  proof -
    have rj: "tm_row (k_timer s j) = Some Timer_list" using timers_invD(3) [OF tinv, of j Timer_list] j(1) L by simp
    have "j \<noteq> i" using j(1) its by blast
    then obtain u where "j = ThreadTimer u" using um(1) rj j(2) i by (cases j) auto
    then show ?thesis using timers_invD(1) [OF tinv, of j] rj by (auto simp: timer_ok_def user_call_def)
  qed
  have callsL1: "user_calls s = user_call (tm_timeout_func (k_timer s i))
      @ concat (map ?call (filter (\<lambda>j. tm_timeout_tick (k_timer s j) = k_tick s) ?L1))"
  proof -
    have "concat (map ?call (filter P (filter (\<lambda>j. tm_row (k_timer s1 j) = Some Timer_list) ts)))
        = concat (map ?call (filter P ts))" for P
      by (rule calls_filter) (rule none)
    then have "concat (map ?call (filter P ?L1)) = concat (map ?call (filter P ts))" for P
      by (simp only: w(6))
    then show ?thesis using L due by (simp add: user_calls_def due_def)
  qed
  have obs1: "obs' s1 = eff' k (obs' s)" if "observer_ok user obs' eff'" for obs' :: "kstate \<Rightarrow> 'c" and eff'
  proof -
    have "objs_frame s ?s3" using ex(2) by (simp add: timer_frame_def)
    then show ?thesis using that s1(1) unfolding observer_ok_def by metis
  qed
  show thesis
  proof (cases "tm_periodic (k_timer s1 i) \<and> tm_activated (k_timer s1 i)")
    case False
    have res: "timer_restart i s1 = Some ?s2" using w(4) False by (auto simp: timer_restart_def dr(4) Let_def)
    have L2: "k_timers ?s2 Timer_list = ?L1" "k_timers ?s2 Check_list = []" using dr(3) by simp_all
    have tm2: "k_timer ?s2 j = k_timer s j" if "j \<in> set ?L1" for j
      using tm1 [OF that] that L1ts(2) by (auto simp: dr(4))
    have tick2: "k_tick ?s2 = k_tick s" using w(3) by simp
    have eq: "map (\<lambda>j. left_from (k_tick s) (tm_timeout_tick (k_timer ?s2 j))) ?L1 = map ?tick ?L1"
      using tm2 by (intro map_cong) auto
    have "timers_after (k_tick s) ?s2" using srt1 rng tm2 unfolding timers_after_def L2 eq by auto
    moreover have "periods_ok ?s2" using per L L2 L1ts tm2 unfolding periods_ok_def by auto
    moreover have due2: "due ?s2 = filter (\<lambda>j. tm_timeout_tick (k_timer s j) = k_tick s) ?L1"
      unfolding due_def L2 tick2 using tm2 by (intro filter_cong) auto
    ultimately have "turn_ok i s ?s2"
      using inv2 w(2) tick2 less aw tm1 L2 by (simp add: turn_ok_def)
    moreover have "turn_exact user obs eff W i s ?s2"
    proof -
      have "map (\<lambda>j. user_call (tm_timeout_func (k_timer ?s2 j))) (due ?s2) = map ?call (due ?s2)"
        using tm2 by (intro map_cong) (auto simp: due2)
      then have calls: "user_calls s = user_call (tm_timeout_func (k_timer s i)) @ user_calls ?s2"
        unfolding callsL1 due2 [symmetric] by (simp only: user_calls_def)
      have "objs_frame s1 ?s2" using dr(2) by (simp add: timer_frame_def)
      then have obs2: "obs ?s2 = eff k (obs s)" if "observer_ok user obs eff"
        using obs1 [OF that] that by (auto simp: observer_ok_def)
      have "\<not> tm_periodic (k_timer s i)"
      proof
        assume p: "tm_periodic (k_timer s i)"
        then have "k_timer s1 i = k_timer s i\<lparr>tm_row := Some Check_list\<rparr>" using w(5) ex(5) by simp
        moreover have "tm_activated (k_timer s i)" using timers_invD(1) [OF tinv, of i] row by (auto simp: timer_ok_def)
        ultimately show False using False p by simp
      qed
      then have "user_timer_expired n s ?s2"
        using w(5) ex(5) L1ts(2) L2(1) i by (simp add: user_timer_expired_def dr(4))
      moreover have "user_timer_kept m s ?s2" if "m \<noteq> n" for m
        using um [OF that] that i L2(1) by (simp add: user_timer_kept_def dr(4))
      ultimately show ?thesis
        using calls obs2 spare i L2(1) func unfolding turn_exact_def by (auto simp: user_call_def)
    qed
    ultimately show thesis
      by (intro that [of s1 ?s2]) (use s1(1) res w(3) func in \<open>simp_all add: timeout_call_def\<close>)
  next
    case True
    let ?s2' = "upd_timer i (flag_clear 1) ?s2"
    have per_i: "tm_periodic (k_timer s i)"
      using True w(5) ex(5) by (simp split: if_splits)
    have fields: "tm_init_tick (k_timer s1 i) = tm_init_tick (k_timer s i)" "tm_obj (k_timer s1 i)"
      "tm_timeout_func (k_timer s1 i) = tm_timeout_func (k_timer s i)"
      using w(5) ex(5) obj by simp_all
    have init: "0 < tm_init_tick (k_timer s i)" "tm_init_tick (k_timer s i) < TICK_HALF"
      using per per_i L by (simp_all add: periods_ok_def)
    have tms': "timers_inv ?s2'"
    proof (rule timers_inv_update [OF dr(1), where i = i])
      show "timer_ok i (flag_clear 1 (k_timer ?s2 i))" using i by (simp add: timer_ok_def)
    qed (use timers_invD(2,3) [OF dr(1)] in auto)
    have obj': "tm_obj (k_timer ?s2' i)" using fields(2) by (simp add: dr(4))
    obtain s2 where s2: "rt_timer_start i ?s2' = Some s2" "timers_inv s2" "timer_frame {i} ?s2' s2"
      "tm_row (k_timer s2 i) = Some Timer_list" "tm_obj (k_timer s2 i)"
      "tm_timeout_tick (k_timer s2 i) = k_tick ?s2' + tm_init_tick (k_timer ?s2' i)"
      "k_timers s2 Timer_list = timer_insert (\<lambda>j. tm_timeout_tick (k_timer s2 j)) i
         (remove1 i (k_timers ?s2' Timer_list))"
      by (rule start_ok [OF tms' obj']) (rule that)
    note f2 = timer_frameD [OF s2(3)]
    have fr2: "timer_frame {i} ?s2 s2"
      by (rule timer_frame_trans [OF _ s2(3)]) (simp add: timer_frame_def objs_frame_def)
    have inv2': "kinv s2" by (rule kinv_timer_step [OF inv2 fr2 s2(2)]) (use nt in simp_all)
    have tick2: "k_tick s2 = k_tick s" using f2(6) w(3) by simp
    have tmi: "tm_timeout_tick (k_timer s2 i) = k_tick s + tm_init_tick (k_timer s i)"
      using s2(6) w(3) fields(1) by (simp add: dr(4))
    have tm2: "k_timer s2 j = k_timer s j" if "j \<in> set ?L1" for j
    proof -
      have "j \<noteq> i" using that L1ts(2) by auto
      then show ?thesis using f2(9) [of j] tm1 [OF that] by (simp add: dr(4))
    qed
    let ?t2 = "\<lambda>j. tm_timeout_tick (k_timer s2 j)"
    have L2: "k_timers s2 Timer_list = timer_insert ?t2 i ?L1"
      using s2(7) L1ts(2) by (simp add: dr(3) remove1_idem)
    have check2: "k_timers s2 Check_list = []"
      using start_fields(1) [OF s2(1) tms'] by (simp add: dr(3))
    have left_i: "left_from (k_tick s) (?t2 i) = unat (tm_init_tick (k_timer s i))"
      using tmi by (simp add: left_from_def)
    have rng2: "left_from (k_tick s) (?t2 j) < 2 ^ 31 - 1" if "j \<in> insert i (set ?L1)" for j
      using that rng tm2 left_i init(2) by (auto simp: word_less_nat_alt)
    have eq: "map (\<lambda>j. left_from (k_tick s) (?t2 j)) ?L1 = map ?tick ?L1" using tm2 by (intro map_cong) auto
    have "sorted (map (\<lambda>j. left_from (k_tick s) (?t2 j)) ?L1)" using srt1 by (simp only: eq)
    then have "sorted (map (\<lambda>j. left_from (k_tick s) (?t2 j)) (timer_insert ?t2 i ?L1))"
      by (rule timer_insert_sorted [rotated]) (rule rng2)
    then have srt2: "timers_after (k_tick s) s2"
      using check2 rng2 unfolding timers_after_def L2 by (simp add: set_timer_insert)
    have per2: "periods_ok s2"
    proof -
      have "tm_init_tick (k_timer s2 i) = tm_init_tick (k_timer s i)
          \<and> tm_timeout_func (k_timer s2 i) = tm_timeout_func (k_timer s i)"
        using start_fields(3,4) [OF s2(1) tms'] fields(1,3) by (simp add: dr(4))
      then show ?thesis using per L L1ts tm2 init func i unfolding periods_ok_def L2 by (auto simp: set_timer_insert)
    qed
    have not_due: "?t2 i \<noteq> k_tick s" using tmi init(1) by simp
    have "filter (\<lambda>j. ?t2 j = k_tick s) (timer_insert ?t2 i js) = filter (\<lambda>j. ?t2 j = k_tick s) js" for js
      using not_due by (induction ?t2 i js rule: timer_insert.induct) auto
    then have "due s2 = filter (\<lambda>j. ?t2 j = k_tick s) ?L1" unfolding due_def L2 tick2 .
    also have "\<dots> = filter (\<lambda>j. tm_timeout_tick (k_timer s j) = k_tick s) ?L1"
      using tm2 by (intro filter_cong) auto
    finally have due2: "due s2 = filter (\<lambda>j. tm_timeout_tick (k_timer s j) = k_tick s) ?L1" .
    then have "length (due s2) < length (due s)" using less by simp
    moreover have "awake s2 u" if "awake s u \<or> ThreadTimer u \<in> set (k_timers s Timer_list) - set (k_timers s2 Timer_list)" for u
      using that aw [of u] f2(2) by (auto simp: L2 set_timer_insert)
    ultimately have "turn_ok i s s2"
      using inv2' w(2) tick2 srt2 per2 tm2 f2(5) by (auto simp: turn_ok_def L2 set_timer_insert)
    moreover have "turn_exact user obs eff W i s s2"
    proof -
      have "map (\<lambda>j. user_call (tm_timeout_func (k_timer s2 j))) (due s2) = map ?call (due s2)"
        using tm2 by (intro map_cong) (auto simp: due2)
      then have calls: "user_calls s = user_call (tm_timeout_func (k_timer s i)) @ user_calls s2"
        unfolding callsL1 due2 [symmetric] by (simp only: user_calls_def)
      have "objs_frame s1 s2" using dr(2) fr2 by (auto simp: timer_frame_def objs_frame_def)
      then have obs2: "obs s2 = eff k (obs s)" if "observer_ok user obs eff"
        using obs1 [OF that] that by (auto simp: observer_ok_def)
      have "rearmed (k_tick s) (k_timer s i) (k_timer s2 i)"
        using start_fields(2-4) [OF s2(1) tms'] fields(1,3) tmi per_i w(5) ex(5) s2(4)
          timers_invD(1) [OF s2(2), of i]
        by (auto simp: rearmed_def dr(4) timer_ok_def)
      then have "user_timer_expired n s s2" using per_i i L2 by (simp add: user_timer_expired_def set_timer_insert)
      moreover have "user_timer_kept m s s2" if "m \<noteq> n" for m
        using um [OF that] that i L2 f2(9) [of "UserTimer m"]
        by (simp add: user_timer_kept_def dr(4) set_timer_insert)
      ultimately show ?thesis
        using calls obs2 spare i L2 func unfolding turn_exact_def by (auto simp: user_call_def set_timer_insert)
    qed
    moreover have "timer_restart i s1 = Some s2" using w(4) True s2(1) by (simp add: timer_restart_def dr(4) Let_def)
    ultimately show thesis
      by (intro that [of s1 s2]) (use s1(1) w(3) func in \<open>simp_all add: timeout_call_def\<close>)
  qed
qed



section \<open>The check and the tick\<close>

lemma due_of_thread: "turn_ok i s s' \<Longrightarrow> j \<noteq> i \<Longrightarrow> j \<in> set (due s) \<Longrightarrow> j \<in> set (k_timers s' Timer_list)
    \<Longrightarrow> j \<in> set (due s')"
  by (auto simp: turn_ok_def due_def)

text \<open>The loop ends with no due timer left, and has woken every thread whose timer was due.\<close>

definition check_ok :: "kstate \<Rightarrow> kstate \<Rightarrow> bool" where
  "check_ok s s' \<longleftrightarrow> kinv s' \<and> k_current s' \<noteq> None \<and> k_tick s' = k_tick s
     \<and> timers_after (k_tick s) s' \<and> periods_ok s' \<and> due s' = []
     \<and> (\<forall>t. awake s t \<or> ThreadTimer t \<in> set (due s) \<longrightarrow> awake s' t)
     \<and> (\<forall>t. ThreadTimer t \<in> set (k_timers s Timer_list) \<longrightarrow> awake s' t
          \<or> ThreadTimer t \<in> set (k_timers s' Timer_list) \<and> k_timer s' (ThreadTimer t) = k_timer s (ThreadTimer t))"

text \<open>
  And it has expired exactly the due timers: user timers that are due are switched off or started
  again by their kind, all others are untouched, thread timers that are not due stay where they are
  (with their threads suspended) unless a user function stops them, and the functions of the due user
  timers have been called once each, in the order of the list.
\<close>

definition check_exact :: "(nat \<Rightarrow> kstate \<Rightarrow> kstate option) \<Rightarrow> (kstate \<Rightarrow> 'a) \<Rightarrow> (nat \<Rightarrow> 'a \<Rightarrow> 'a) \<Rightarrow> tid set
    \<Rightarrow> kstate \<Rightarrow> kstate \<Rightarrow> bool" where
  "check_exact user obs eff W s s' \<longleftrightarrow>
     (\<forall>n. if UserTimer n \<in> set (due s) then user_timer_expired n s s' else user_timer_kept n s s')
     \<and> (user_spares user W \<longrightarrow> (\<forall>t. t \<notin> W \<and> ThreadTimer t \<in> set (k_timers s Timer_list) - set (due s)
          \<longrightarrow> ThreadTimer t \<in> set (k_timers s' Timer_list)
            \<and> k_timer s' (ThreadTimer t) = k_timer s (ThreadTimer t) \<and> th_base s' t = RT_THREAD_SUSPEND))
     \<and> (observer_ok user obs eff \<longrightarrow> obs s' = fold eff (user_calls s) (obs s))"

lemma check_exact_none:
  assumes "kinv s" "due s = []"
  shows "check_exact user obs eff W s s"
proof -
  have "th_base s t = RT_THREAD_SUSPEND" if "ThreadTimer t \<in> set (k_timers s Timer_list)" for t
    using timers_invD(3) [OF kinvD(2) [OF assms(1)], of "ThreadTimer t" Timer_list] kinvD(3) [OF assms(1)] that
    by (simp add: timer_susp_def)
  then show ?thesis using assms(2) by (simp add: check_exact_def user_timer_kept_def user_calls_def)
qed

lemma check_exact_turn:
  assumes turn: "turn_ok i s s2" "turn_exact user obs eff W i s s2" and i: "i \<in> set (due s)"
    and per: "periods_ok s" and rest: "check_exact user obs eff W s2 s'"
  shows "check_exact user obs eff W s s'"
proof -
  note k = turn(1) [unfolded turn_ok_def]
  note x = turn(2) [unfolded turn_exact_def]
  note r = rest [unfolded check_exact_def]
  have tick: "k_tick s2 = k_tick s" using k by blast
  have "if UserTimer n \<in> set (due s) then user_timer_expired n s s' else user_timer_kept n s s'" for n
  proof (cases "i = UserTimer n")
    case True
    have e: "user_timer_expired n s s2" using x True by (metis (full_types))
    have "UserTimer n \<notin> set (due s2)"
    proof (cases "tm_periodic (k_timer s (UserTimer n))")
      case p: True
      have "0 < tm_init_tick (k_timer s i)" using per p i True by (auto simp: periods_ok_def due_def)
      then show ?thesis using e p True by (auto simp: user_timer_expired_def rearmed_def due_def tick)
    next
      case False
      then show ?thesis using e by (simp add: user_timer_expired_def due_def)
    qed
    then have "user_timer_kept n s2 s'" using r by (metis (full_types))
    then have "user_timer_expired n s s'" using e by (simp add: user_timer_expired_def user_timer_kept_def)
    then show ?thesis using i True by simp
  next
    case False
    then have kept: "user_timer_kept n s s2" using x by (metis (full_types))
    then have due2: "UserTimer n \<in> set (due s2) \<longleftrightarrow> UserTimer n \<in> set (due s)"
      by (simp add: user_timer_kept_def due_def tick)
    show ?thesis
    proof (cases "UserTimer n \<in> set (due s)")
      case True
      then have "user_timer_expired n s2 s'" using r due2 by (metis (full_types))
      moreover have same: "k_timer s2 (UserTimer n) = k_timer s (UserTimer n)" using kept by (simp add: user_timer_kept_def)
      ultimately have "user_timer_expired n s s'" unfolding user_timer_expired_def tick same by blast
      then show ?thesis using True by simp
    next
      case False
      then have "user_timer_kept n s2 s'" using r due2 by (metis (full_types))
      then show ?thesis using False kept by (simp add: user_timer_kept_def)
    qed
  qed
  moreover have "ThreadTimer t \<in> set (k_timers s' Timer_list)
      \<and> k_timer s' (ThreadTimer t) = k_timer s (ThreadTimer t) \<and> th_base s' t = RT_THREAD_SUSPEND"
    if t: "user_spares user W" "t \<notin> W" "ThreadTimer t \<in> set (k_timers s Timer_list) - set (due s)" for t
  proof -
    have ne: "i \<noteq> ThreadTimer t" using i t(3) by blast
    have l2: "ThreadTimer t \<in> set (k_timers s2 Timer_list)" using x t ne by blast
    then have same: "k_timer s2 (ThreadTimer t) = k_timer s (ThreadTimer t)" using k t(3) ne by blast
    then have "ThreadTimer t \<notin> set (due s2)" using t(3) by (simp add: due_def tick)
    then show ?thesis using r t(1,2) l2 same by simp
  qed
  moreover have "obs s' = fold eff (user_calls s) (obs s)" if "observer_ok user obs eff"
    using r x that by simp
  ultimately show ?thesis unfolding check_exact_def by blast
qed

lemma timer_check_loop_ok:
  assumes "kinv s" "k_current s \<noteq> None" "timers_after (k_tick s) s" "periods_ok s" "user_quiet user"
  shows "\<exists>s'. timer_check_loop user (k_tick s) s = Some s' \<and> check_ok s s' \<and> check_exact user obs eff W s s'"
  using assms(1-4)
proof (induction "length (due s)" arbitrary: s rule: less_induct)
  case less
  note tinv = kinvD(2) [OF less.prems(1)]
  show ?case
  proof (cases "k_timers s Timer_list")
    case Nil
    then have "timer_check_loop user (k_tick s) s = Some s" by (simp add: timer_check_loop.simps [of user _ s])
    moreover have "check_ok s s" using less.prems Nil by (simp add: check_ok_def due_def)
    moreover have "check_exact user obs eff W s s"
      by (rule check_exact_none [OF less.prems(1)]) (simp add: due_def Nil)
    ultimately show ?thesis by blast
  next
    case L: (Cons i ts)
    have exp: "k_tick s - tm_timeout_tick (k_timer s i) < TICK_HALF \<longleftrightarrow> tm_timeout_tick (k_timer s i) = k_tick s"
      using timers_afterD(2) [OF less.prems(3), of i] L by (intro expired_iff) simp
    show ?thesis
    proof (cases "tm_timeout_tick (k_timer s i) = k_tick s")
      case False
      text \<open>The first timer is not due, and the others expire no earlier.\<close>
      have pos: "0 < left_from (k_tick s) (tm_timeout_tick (k_timer s i))"
        using False by (auto simp: left_from_def unat_eq_0 intro!: gr0I)
      have "tm_timeout_tick (k_timer s j) \<noteq> k_tick s" if "j \<in> set (k_timers s Timer_list)" for j
      proof -
        have "left_from (k_tick s) (tm_timeout_tick (k_timer s i)) \<le> left_from (k_tick s) (tm_timeout_tick (k_timer s j))"
          using timers_afterD(3) [OF less.prems(3)] that L by auto
        then show ?thesis using pos by (auto simp: left_from_def)
      qed
      then have "due s = []" by (simp add: due_def filter_empty_conv)
      then have "check_ok s s" "check_exact user obs eff W s s"
        using less.prems check_exact_none by (simp_all add: check_ok_def)
      moreover have "timer_check_loop user (k_tick s) s = Some s"
        using L False exp by (simp add: timer_check_loop.simps [of user _ s])
      ultimately show ?thesis by blast
    next
      case True
      obtain s1 s2 where s12: "timeout_call user (tm_timeout_func (k_timer s i)) (timer_expire i s) = Some s1"
        "timer_restart i s1 = Some s2" "k_tick s1 = k_tick s" "turn_ok i s s2"
        "turn_exact user obs eff W i s s2" "\<And>t. i = ThreadTimer t \<Longrightarrow> awake s2 t"
      proof (cases i)
        case (ThreadTimer t)
        show thesis
        proof (rule thread_turn [OF less.prems L ThreadTimer True, where user = user and obs = obs and eff = eff and W = W])
          fix s1 s2
          assume a: "timeout_call user (tm_timeout_func (k_timer s i)) (timer_expire i s) = Some s1"
            "timer_restart i s1 = Some s2" "k_tick s1 = k_tick s" "turn_ok i s s2" "awake s2 t"
            "turn_exact user obs eff W i s s2"
          show thesis by (rule that [OF a(1-4,6)]) (use a(5) ThreadTimer in simp)
        qed
      next
        case (UserTimer n)
        show thesis
        proof (cases "tm_timeout_func (k_timer s i)")
          case (User_timeout k)
          show thesis
          proof (rule user_turn [OF less.prems L UserTimer True User_timeout assms(5), where obs = obs and eff = eff and W = W])
            fix s1 s2
            assume a: "timeout_call user (tm_timeout_func (k_timer s i)) (timer_expire i s) = Some s1"
              "timer_restart i s1 = Some s2" "k_tick s1 = k_tick s" "turn_ok i s s2"
              "turn_exact user obs eff W i s s2"
            show thesis by (rule that [OF a]) (use UserTimer in simp)
          qed
        next
          case (Thread_timeout t)
          then show thesis using less.prems(4) L UserTimer by (simp add: periods_ok_def)
        qed
      qed
      note k = s12(4) [unfolded turn_ok_def]
      have dec: "length (due s2) < length (due s)" and tick2: "k_tick s2 = k_tick s" using k by blast+
      have pre: "kinv s2" "k_current s2 \<noteq> None" "timers_after (k_tick s2) s2" "periods_ok s2"
        using k unfolding tick2 by blast+
      obtain s' where s': "timer_check_loop user (k_tick s2) s2 = Some s'" "check_ok s2 s'"
        "check_exact user obs eff W s2 s'" using less.hyps [OF dec pre] by blast
      have "timer_check_loop user (k_tick s) s = Some s'"
        using L True s12(1-3) s'(1) tick2 by (simp add: timer_check_loop.simps [of user _ s] rt_tick_get_def)
      moreover have "check_ok s s'"
      proof -
        have "awake s' t" if "awake s t \<or> ThreadTimer t \<in> set (due s)" for t
        proof -
          have "awake s2 t \<or> ThreadTimer t \<in> set (due s2)"
          proof (cases "awake s t \<or> ThreadTimer t \<notin> set (k_timers s2 Timer_list)")
            case True
            have "ThreadTimer t \<in> set (k_timers s Timer_list)" if "ThreadTimer t \<in> set (due s)"
              using that by (simp add: due_def)
            then show ?thesis using True that k by blast
          next
            case False
            show ?thesis
            proof (cases "i = ThreadTimer t")
              case True
              then show ?thesis using s12(6) by blast
            next
              case not_i: False
              then show ?thesis using due_of_thread [OF s12(4), of "ThreadTimer t"] False that by blast
            qed
          qed
          then show ?thesis using s'(2) unfolding check_ok_def by blast
        qed
        moreover have "awake s' t \<or> ThreadTimer t \<in> set (k_timers s' Timer_list)
            \<and> k_timer s' (ThreadTimer t) = k_timer s (ThreadTimer t)"
          if t: "ThreadTimer t \<in> set (k_timers s Timer_list)" for t
        proof (cases "awake s2 t")
          case True
          then show ?thesis using s'(2) unfolding check_ok_def by blast
        next
          case False
          then have "ThreadTimer t \<in> set (k_timers s2 Timer_list)" "ThreadTimer t \<noteq> i"
            using t k s12(6) [of t] by blast+
          moreover from this have "k_timer s2 (ThreadTimer t) = k_timer s (ThreadTimer t)" using t k by blast
          ultimately show ?thesis using s'(2) unfolding check_ok_def by fastforce
        qed
        ultimately show ?thesis using s'(2) tick2 unfolding check_ok_def by auto
      qed
      moreover have "check_exact user obs eff W s s'"
        by (rule check_exact_turn [OF s12(4,5) _ less.prems(4) s'(3)]) (simp add: due_def L True)
      ultimately show ?thesis by blast
    qed
  qed
qed


text \<open>The time slice: the running thread's counter, and rescheduling at its end.\<close>

lemma slice_ok:
  assumes inv: "kinv s" and cur: "k_current s = Some t"
  obtains s3 where "(let s2 = upd_thread t (\<lambda>th. th\<lparr>th_remaining_tick := th_remaining_tick th - 1\<rparr>) s in
      if th_remaining_tick (k_thread s2 t) = 0
      then rt_schedule (upd_thread t (\<lambda>th. th\<lparr>th_remaining_tick := th_init_tick th,
                                                th_stat := set_yield (th_stat th)\<rparr>) s2)
      else Some s2) = Some s3" "kinv s3" "k_current s3 \<noteq> None" "k_tick s3 = k_tick s"
    "k_timer s3 = k_timer s" "k_timers s3 = k_timers s" "\<And>u. awake s u \<Longrightarrow> awake s3 u"
proof -
  let ?s2 = "upd_thread t (\<lambda>th. th\<lparr>th_remaining_tick := th_remaining_tick th - 1\<rparr>) s"
  have inv2: "kinv ?s2" by (rule kinv_upd_thread [OF inv]) (simp_all add: scheduler_stack_check_def)
  show thesis
  proof (cases "th_remaining_tick (k_thread ?s2 t) = 0")
    case False
    then show thesis by (intro that [of ?s2]) (use inv2 cur in auto)
  next
    case True
    let ?s2' = "upd_thread t (\<lambda>th. th\<lparr>th_remaining_tick := th_init_tick th, th_stat := set_yield (th_stat th)\<rparr>) ?s2"
    have inv2': "kinv ?s2'"
    proof (rule kinv_update [OF inv2, of _ t])
      have "thread_ok (k_thread ?s2' t)"
        using queue_invD(1) [OF kinvD(6) [OF inv2], of t] by (simp add: thread_ok_def split: option.splits)
      then have "queue_inv ?s2'" by (intro queue_inv_thread [OF kinvD(6) [OF inv2]]) simp_all
      moreover have "run_ok ?s2'" using sched_invD(2) [OF kinvD(1) [OF inv]] by (auto simp: run_ok_def)
      ultimately show "sched_inv ?s2'" by (simp add: sched_inv_def)
      show "timers_inv ?s2'" using kinvD(2) [OF inv2] timers_inv_cong [of ?s2' ?s2] by simp
      show "th_base ?s2' t = RT_THREAD_SUSPEND"
        if "tm_row (k_timer ?s2' (ThreadTimer t)) = Some Timer_list"
        using that kinvD(3) [OF inv] by (simp add: timer_susp_def)
    qed (use kinv_objs [OF inv2, of t] stacks_okD [OF kinvD(5) [OF inv2], of t] in
          \<open>auto simp: scheduler_stack_check_def\<close>)
    have cur2: "k_current ?s2' = Some t" using cur by simp
    obtain s3 where s3: "rt_schedule ?s2' = Some s3" "kinv s3" "sched_frame ?s2' s3" "\<exists>c'. k_current s3 = Some c'"
      by (rule schedule_kinv [OF inv2' cur2]) blast
    note f = sched_frameD [OF s3(3)]
    have aw: "awake s3 u" if "awake s u" for u
    proof (rule f(9))
      show "awake ?s2' u" using that by (cases "u = t") simp_all
    qed
    show thesis
      by (rule that [OF _ s3(2)]) (use True s3(1,4) f(2,3,4) aw in simp_all)
  qed
qed

text \<open>No timer is due and the next tick comes: the range moves on by one.\<close>

lemma sorted_map_pred: "sorted (map f xs) \<Longrightarrow> sorted (map (\<lambda>x. f x - 1 :: nat) xs)"
  by (induction xs) (auto intro: diff_le_mono)

lemma timers_after_next:
  assumes "timers_after b s" "\<And>i. i \<in> set (k_timers s Timer_list) \<Longrightarrow> tm_timeout_tick (k_timer s i) \<noteq> b"
  shows "timers_after (b + 1) s"
proof -
  have left: "left_from (b + 1) (tm_timeout_tick (k_timer s i)) = left_from b (tm_timeout_tick (k_timer s i)) - 1"
    if "i \<in> set (k_timers s Timer_list)" for i
  proof -
    let ?d = "tm_timeout_tick (k_timer s i) - b"
    have "?d \<noteq> 0" using assms(2) [OF that] by simp
    then have "unat (?d - 1) = unat ?d - 1" by (rule unat_minus_one)
    moreover have "tm_timeout_tick (k_timer s i) - (b + 1) = ?d - 1" by (rule diff_diff_eq [symmetric])
    ultimately show ?thesis unfolding left_from_def by (simp only:)
  qed
  have "sorted (map (\<lambda>i. left_from b (tm_timeout_tick (k_timer s i)) - 1) (k_timers s Timer_list))"
    by (rule sorted_map_pred [OF timers_afterD(3) [OF assms(1)]])
  moreover have "map (\<lambda>i. left_from (b + 1) (tm_timeout_tick (k_timer s i))) (k_timers s Timer_list)
      = map (\<lambda>i. left_from b (tm_timeout_tick (k_timer s i)) - 1) (k_timers s Timer_list)"
    using left by (intro map_cong) auto
  ultimately have "sorted (map (\<lambda>i. left_from (b + 1) (tm_timeout_tick (k_timer s i))) (k_timers s Timer_list))"
    by (simp only:)
  moreover have "left_from (b + 1) (tm_timeout_tick (k_timer s i)) < 2 ^ 31 - 1"
    if "i \<in> set (k_timers s Timer_list)" for i
    using left [OF that] timers_afterD(2) [OF assms(1) that] by simp
  ultimately show ?thesis using timers_afterD(1) [OF assms(1)] by (simp add: timers_after_def)
qed


text \<open>The state between ticks: no timer is due, and the list is in order from now on.\<close>

definition clock_inv :: "kstate \<Rightarrow> bool" where
  "clock_inv s \<longleftrightarrow> kinv s \<and> k_current s \<noteq> None \<and> timers_after (k_tick s) s \<and> due s = [] \<and> periods_ok s"

lemma timer_check_ok:
  assumes "kinv s" "k_current s \<noteq> None" "timers_after (k_tick s) s" "periods_ok s" "user_quiet user"
  shows "\<exists>s'. rt_timer_check user s = Some s' \<and> check_ok s s' \<and> check_exact user obs eff W s s'"
proof -
  have "(k_timers s)(Check_list := []) = k_timers s" using timers_afterD(1) [OF assms(3)] by (simp add: fun_eq_iff)
  then show ?thesis using timer_check_loop_ok [OF assms] by (simp add: rt_timer_check_def rt_tick_get_def)
qed

lemma tick_ok:
  assumes "clock_inv s" "user_quiet user"
  obtains s' where "rt_tick_increase user s = Some s'" "clock_inv s'" "k_tick s' = k_tick s + 1"
    "\<And>t. awake s t \<Longrightarrow> awake s' t"
    "\<And>t. ThreadTimer t \<in> set (k_timers s Timer_list) \<Longrightarrow> awake s' t \<or>
       ThreadTimer t \<in> set (k_timers s' Timer_list) \<and> k_timer s' (ThreadTimer t) = k_timer s (ThreadTimer t)"
proof -
  note c = assms(1) [unfolded clock_inv_def]
  let ?s1 = "s\<lparr>k_tick := k_tick s + 1\<rparr>"
  have inv: "kinv s" using c by blast
  have inv1: "kinv ?s1" using inv kinv_cong [of ?s1 s] by simp
  obtain t where cur: "k_current s = Some t" using c by auto
  have cur1: "k_current ?s1 = Some t" using cur by simp
  obtain s3 where s3: "(let s2 = upd_thread t (\<lambda>th. th\<lparr>th_remaining_tick := th_remaining_tick th - 1\<rparr>) ?s1 in
      if th_remaining_tick (k_thread s2 t) = 0
      then rt_schedule (upd_thread t (\<lambda>th. th\<lparr>th_remaining_tick := th_init_tick th,
                                                th_stat := set_yield (th_stat th)\<rparr>) s2)
      else Some s2) = Some s3" "kinv s3" "k_current s3 \<noteq> None" "k_tick s3 = k_tick ?s1"
    "k_timer s3 = k_timer ?s1" "k_timers s3 = k_timers ?s1" "\<And>u. awake ?s1 u \<Longrightarrow> awake s3 u"
    by (rule slice_ok [OF inv1 cur1]) blast
  have not_due: "tm_timeout_tick (k_timer s i) \<noteq> k_tick s" if "i \<in> set (k_timers s Timer_list)" for i
    using c that by (auto simp: due_def filter_empty_conv)
  have srt: "timers_after (k_tick s) s" using c by blast
  have "timers_after (k_tick s + 1) s" by (rule timers_after_next [OF srt not_due])
  then have srt3: "timers_after (k_tick s3) s3" using s3(4,5,6) by (simp add: timers_after_def)
  have per3: "periods_ok s3" using c s3(5,6) by (simp add: periods_ok_def)
  obtain s' where s': "rt_timer_check user s3 = Some s'" "check_ok s3 s'"
    using timer_check_ok [OF s3(2,3) srt3 per3 assms(2)] by blast
  have res: "rt_tick_increase user s = Some s'"
    using s3(1) s'(1) cur unfolding rt_tick_increase_def rt_thread_self_def Let_def by simp
  note ck = s'(2) [unfolded check_ok_def]
  show thesis
  proof (rule that [OF res])
    show "k_tick s' = k_tick s + 1" using ck s3(4) by simp
    show "clock_inv s'" using ck unfolding clock_inv_def by simp
    show "awake s' u" if "awake s u" for u
    proof -
      have "awake s3 u" using s3(7) [of u] that by simp
      then show ?thesis using ck by blast
    qed
    show "awake s' u \<or> ThreadTimer u \<in> set (k_timers s' Timer_list) \<and>
        k_timer s' (ThreadTimer u) = k_timer s (ThreadTimer u)"
      if "ThreadTimer u \<in> set (k_timers s Timer_list)" for u
    proof -
      have "ThreadTimer u \<in> set (k_timers s3 Timer_list)" using that s3(6) by simp
      then show ?thesis using ck s3(5) by fastforce
    qed
  qed
qed

text \<open>A number of ticks in a row.\<close>

primrec ticks :: "(nat \<Rightarrow> kstate \<Rightarrow> kstate option) \<Rightarrow> nat \<Rightarrow> kstate \<Rightarrow> kstate option" where
  "ticks user 0 s = Some s"
| "ticks user (Suc n) s = Option.bind (ticks user n s) (rt_tick_increase user)"

lemma ticks_ok:
  assumes "clock_inv s" "user_quiet user" "ThreadTimer t \<in> set (k_timers s Timer_list)"
  shows "\<exists>s'. ticks user n s = Some s' \<and> clock_inv s' \<and> k_tick s' = k_tick s + of_nat n
     \<and> (awake s' t \<or> ThreadTimer t \<in> set (k_timers s' Timer_list)
          \<and> k_timer s' (ThreadTimer t) = k_timer s (ThreadTimer t))"
proof (induction n)
  case 0
  then show ?case using assms by simp
next
  case (Suc n)
  then obtain s1 where s1: "ticks user n s = Some s1" "clock_inv s1" "k_tick s1 = k_tick s + of_nat n"
    "awake s1 t \<or> ThreadTimer t \<in> set (k_timers s1 Timer_list) \<and> k_timer s1 (ThreadTimer t) = k_timer s (ThreadTimer t)"
    by blast
  obtain s' where s': "rt_tick_increase user s1 = Some s'" "clock_inv s'" "k_tick s' = k_tick s1 + 1"
    "awake s1 t \<Longrightarrow> awake s' t"
    "ThreadTimer t \<in> set (k_timers s1 Timer_list) \<Longrightarrow> awake s' t \<or>
       ThreadTimer t \<in> set (k_timers s' Timer_list) \<and> k_timer s' (ThreadTimer t) = k_timer s1 (ThreadTimer t)"
    by (rule tick_ok [OF s1(2) assms(2)]) blast
  have "ticks user (Suc n) s = Some s'" using s1(1) s'(1) by simp
  moreover have "k_tick s' = k_tick s + of_nat (Suc n)" using s1(3) s'(3) by (simp add: algebra_simps)
  moreover have "awake s' t \<or> ThreadTimer t \<in> set (k_timers s' Timer_list)
      \<and> k_timer s' (ThreadTimer t) = k_timer s (ThreadTimer t)"
  proof (cases "awake s1 t")
    case True
    then show ?thesis by (intro disjI1 s'(4))
  next
    case False
    then show ?thesis using s1(4) s'(5) by auto
  qed
  ultimately show ?case using s'(2) by blast
qed


section \<open>Properties\<close>

text \<open>
  C6: the timer check expires exactly the due timers.  If the timers of the list expire in order
  within half the tick range, periodic timers have a period, and user functions only wake threads,
  the check ends with no due timer left and the list in order.  Every thread whose timer was due is
  awake; a thread timer that was not due is still in the list, unchanged, and its thread still
  suspended, unless a user function stops it.  Due user timers are switched off if they
  are one-shot and start again with their full period if they are periodic; no other user timer
  changes.  The functions of the due user timers are called once each, in the order of the list,
  and no other function is called: every observation of the IPC objects on which the user
  functions have a fixed effect shows just these effects.
\<close>

theorem timer_check_wakes_due:
  assumes "kinv s" "k_current s \<noteq> None" "timers_after (k_tick s) s" "periods_ok s" "user_quiet user"
  shows "\<exists>s'. rt_timer_check user s = Some s' \<and> kinv s' \<and> k_tick s' = k_tick s
     \<and> timers_after (k_tick s) s' \<and> due s' = [] \<and> periods_ok s'
     \<and> (\<forall>t. awake s t \<or> ThreadTimer t \<in> set (due s) \<longrightarrow> awake s' t)
     \<and> (\<forall>t. ThreadTimer t \<in> set (k_timers s Timer_list) \<longrightarrow> awake s' t
          \<or> ThreadTimer t \<in> set (k_timers s' Timer_list) \<and> k_timer s' (ThreadTimer t) = k_timer s (ThreadTimer t))
     \<and> (\<forall>t. user_spares user W \<and> t \<notin> W \<and> ThreadTimer t \<in> set (k_timers s Timer_list) - set (due s)
          \<longrightarrow> ThreadTimer t \<in> set (k_timers s' Timer_list)
            \<and> k_timer s' (ThreadTimer t) = k_timer s (ThreadTimer t) \<and> th_base s' t = RT_THREAD_SUSPEND)
     \<and> (\<forall>n. if UserTimer n \<in> set (due s) then user_timer_expired n s s' else user_timer_kept n s s')
     \<and> (observer_ok user obs eff \<longrightarrow> obs s' = fold eff (user_calls s) (obs s))"
proof -
  obtain s' where s': "rt_timer_check user s = Some s'" "check_ok s s'" "check_exact user obs eff W s s'"
    using timer_check_ok [OF assms] by blast
  note c2 = conjunct2 [OF s'(2) [unfolded check_ok_def]]
  note c3 = conjunct2 [OF c2] note c4 = conjunct2 [OF c3] note c5 = conjunct2 [OF c4]
  note c6 = conjunct2 [OF c5] note c7 = conjunct2 [OF c6]
  note exact = s'(3) [unfolded check_exact_def]
  show ?thesis
  proof (rule exI [of _ s'], intro conjI)
    show "rt_timer_check user s = Some s'" by (rule s'(1))
    show "kinv s'" by (rule conjunct1 [OF s'(2) [unfolded check_ok_def]])
    show "k_tick s' = k_tick s" by (rule conjunct1 [OF c3])
    show "timers_after (k_tick s) s'" by (rule conjunct1 [OF c4])
    show "due s' = []" by (rule conjunct1 [OF c6])
    show "periods_ok s'" by (rule conjunct1 [OF c5])
    show "\<forall>t. awake s t \<or> ThreadTimer t \<in> set (due s) \<longrightarrow> awake s' t" by (rule conjunct1 [OF c7])
    show "\<forall>t. ThreadTimer t \<in> set (k_timers s Timer_list) \<longrightarrow> awake s' t
          \<or> ThreadTimer t \<in> set (k_timers s' Timer_list) \<and> k_timer s' (ThreadTimer t) = k_timer s (ThreadTimer t)"
      by (rule conjunct2 [OF c7])
    show "\<forall>n. if UserTimer n \<in> set (due s) then user_timer_expired n s s' else user_timer_kept n s s'"
      by (rule conjunct1 [OF exact])
    show "observer_ok user obs eff \<longrightarrow> obs s' = fold eff (user_calls s) (obs s)"
      by (rule conjunct2 [OF conjunct2 [OF exact]])
    show "\<forall>t. user_spares user W \<and> t \<notin> W \<and> ThreadTimer t \<in> set (k_timers s Timer_list) - set (due s)
          \<longrightarrow> ThreadTimer t \<in> set (k_timers s' Timer_list)
            \<and> k_timer s' (ThreadTimer t) = k_timer s (ThreadTimer t) \<and> th_base s' t = RT_THREAD_SUSPEND"
      using conjunct1 [OF conjunct2 [OF exact]] by simp
  qed
qed

text \<open>Thread 7's timer expires at tick 105.\<close>

lemma clock_sample:
  "clock_inv k_sample" "ThreadTimer 7 \<in> set (k_timers k_sample Timer_list)"
  "tm_timeout_tick (k_timer k_sample (ThreadTimer 7)) = 105" "user_quiet (\<lambda>_. Some)"
proof -
  show t: "ThreadTimer 7 \<in> set (k_timers k_sample Timer_list)"
    "tm_timeout_tick (k_timer k_sample (ThreadTimer 7)) = 105"
    by (simp_all add: timers_sample_def)
  have "timers_after 100 k_sample"
    by (simp add: timers_after_def timers_sample_def left_from_def)
  moreover have "periods_ok k_sample" by (simp add: periods_ok_def timers_sample_def tm_periodic_def)
  moreover have "due k_sample = []" by (simp add: due_def timers_sample_def)
  ultimately show "clock_inv k_sample" using kinv_sample by (simp add: clock_inv_def)
  have "tm_row (k_timer s i) = Some Timer_list" if "kinv s" "i \<in> set (k_timers s Timer_list)" for s i
    using timers_invD(3) [OF kinvD(2) [OF that(1)], of i Timer_list] that(2) by simp
  then show "user_quiet (\<lambda>_. Some)"
    by (auto simp: user_quiet_def wakes_only_def intro!: filter_True [symmetric])
qed

text \<open>
  At tick 100 the periodic user timer 0 and the one-shot user timer 1 are due, thread 7 is not.  Each
  timeout function counts its calls in the value of a semaphore of its own.
\<close>

definition busy_sample :: kstate where
  "busy_sample = k_sample\<lparr>
     k_timer := (\<lambda>i. if i = UserTimer 0 then (timers_sample i)\<lparr>tm_row := Some Timer_list, tm_flag := 3, tm_timeout_tick := 100\<rparr>
       else if i = UserTimer 1 then (timers_sample i)\<lparr>tm_row := Some Timer_list, tm_flag := 1, tm_timeout_tick := 100\<rparr>
       else timers_sample i),
     k_timers := (\<lambda>l. if l = Timer_list then [UserTimer 0, UserTimer 1, ThreadTimer 7] else [])\<rparr>"

definition count_call :: "nat \<Rightarrow> (nat \<Rightarrow> rt_semaphore) \<Rightarrow> nat \<Rightarrow> rt_semaphore" where
  "count_call n f = f(n := (f n)\<lparr>sem_value := sem_value (f n) + 1\<rparr>)"

definition counting :: "nat \<Rightarrow> kstate \<Rightarrow> kstate option" where
  "counting n s = Some (s\<lparr>k_sem := count_call n (k_sem s)\<rparr>)"

lemma counting_ok: "user_quiet counting" "user_spares counting {}" "observer_ok counting k_sem count_call"
proof -
  have row: "tm_row (k_timer s i) = Some Timer_list" if "kinv s" "i \<in> set (k_timers s Timer_list)" for s i
    using timers_invD(3) [OF kinvD(2) [OF that(1)], of i Timer_list] that(2) by simp
  have "kinv (s\<lparr>k_sem := f\<rparr>) = kinv s" for s f by (rule kinv_cong) simp_all
  then show "user_quiet counting"
    using row by (auto simp: user_quiet_def wakes_only_def counting_def intro!: filter_True [symmetric])
  show "user_spares counting {}" by (auto simp: user_spares_def counting_def)
  show "observer_ok counting k_sem count_call" by (auto simp: observer_ok_def counting_def objs_frame_def)
qed

lemma busy_sample_ok:
  "kinv busy_sample" "timers_after (k_tick busy_sample) busy_sample" "periods_ok busy_sample"
  "due busy_sample = [UserTimer 0, UserTimer 1]" "user_calls busy_sample = [0, 1]"
  "k_current busy_sample \<noteq> None"
proof -
  have "timers_inv busy_sample"
    by (auto simp: busy_sample_def timers_inv_def timers_sample_def timer_ok_def tm_activated_def
        tm_periodic_def split: tmid.splits if_splits)
  then show "kinv busy_sample"
    using kinv_sample sched_inv_cong [of busy_sample k_sample]
    by (auto simp: kinv_def busy_sample_def timer_susp_def objs_ok_def stacks_ok_def timers_sample_def split: if_splits)
  show "timers_after (k_tick busy_sample) busy_sample" "periods_ok busy_sample"
    by (simp_all add: busy_sample_def timers_after_def timers_sample_def left_from_def periods_ok_def tm_periodic_def)
  show due: "due busy_sample = [UserTimer 0, UserTimer 1]"
    by (simp add: busy_sample_def due_def timers_sample_def)
  show "user_calls busy_sample = [0, 1]" unfolding user_calls_def due
    by (simp add: busy_sample_def timers_sample_def user_call_def)
  show "k_current busy_sample \<noteq> None" by (simp add: busy_sample_def)
qed

theorem timer_check_wakes_due_witness:
  "(\<exists>s'. rt_timer_check (\<lambda>_. Some) (k_sample\<lparr>k_tick := 105\<rparr>) = Some s' \<and> awake s' 7 \<and> due s' = [])
   \<and> (\<exists>s'. rt_timer_check counting busy_sample = Some s'
        \<and> sem_value (k_sem s' 0) = 1 \<and> sem_value (k_sem s' 1) = 1 \<and> sem_value (k_sem s' 2) = 0
        \<and> th_base s' 7 = RT_THREAD_SUSPEND \<and> \<not> tm_activated (k_timer s' (UserTimer 1))
        \<and> tm_timeout_tick (k_timer s' (UserTimer 0)) = 105)"
proof
  let ?s = "k_sample\<lparr>k_tick := 105\<rparr>"
  have k: "kinv ?s" using kinv_sample kinv_cong [of ?s k_sample] by simp
  have t: "timers_after (k_tick ?s) ?s" "periods_ok ?s" "ThreadTimer 7 \<in> set (due ?s)"
    by (simp_all add: timers_after_def timers_sample_def left_from_def periods_ok_def tm_periodic_def due_def)
  have c: "k_current ?s \<noteq> None" by simp
  obtain s' where s': "rt_timer_check (\<lambda>_. Some) ?s = Some s'"
    "\<forall>t. awake ?s t \<or> ThreadTimer t \<in> set (due ?s) \<longrightarrow> awake s' t" "due s' = []"
    using timer_check_wakes_due [OF k c t(1,2) clock_sample(4), of "{}" k_sem count_call]
    by (elim exE conjE) (rule that)
  have "awake s' 7" using s'(2) t(3) by blast
  then show "\<exists>s'. rt_timer_check (\<lambda>_. Some) ?s = Some s' \<and> awake s' 7 \<and> due s' = []"
    using s'(1,3) by blast
next
  note b = busy_sample_ok
  obtain s' where s': "rt_timer_check counting busy_sample = Some s'"
    "\<forall>t. user_spares counting {} \<and> t \<notin> {} \<and> ThreadTimer t \<in> set (k_timers busy_sample Timer_list) - set (due busy_sample)
          \<longrightarrow> ThreadTimer t \<in> set (k_timers s' Timer_list)
            \<and> k_timer s' (ThreadTimer t) = k_timer busy_sample (ThreadTimer t) \<and> th_base s' t = RT_THREAD_SUSPEND"
    "\<forall>n. if UserTimer n \<in> set (due busy_sample) then user_timer_expired n busy_sample s'
         else user_timer_kept n busy_sample s'"
    "observer_ok counting k_sem count_call \<longrightarrow> k_sem s' = fold count_call (user_calls busy_sample) (k_sem busy_sample)"
    using timer_check_wakes_due [OF b(1,6,2,3) counting_ok(1), of "{}" k_sem count_call] by (elim exE conjE) (rule that)
  have "ThreadTimer 7 \<in> set (k_timers busy_sample Timer_list)" by (simp add: busy_sample_def)
  then have "th_base s' 7 = RT_THREAD_SUSPEND" using s'(2) counting_ok(2) b(4) by simp
  moreover have "k_sem s' = fold count_call [0, 1] (k_sem busy_sample)" using s'(4) counting_ok(3) b(5) by simp
  then have "sem_value (k_sem s' 0) = 1" "sem_value (k_sem s' 1) = 1" "sem_value (k_sem s' 2) = 0"
    by (simp_all add: count_call_def busy_sample_def k_sample_def)
  moreover have "user_timer_expired 0 busy_sample s'" "user_timer_expired 1 busy_sample s'"
    using s'(3) b(4) by (metis (full_types) list.set_intros(1), metis (full_types) list.set_intros)
  then have "tm_timeout_tick (k_timer s' (UserTimer 0)) = 105" "\<not> tm_activated (k_timer s' (UserTimer 1))"
    by (simp_all add: user_timer_expired_def rearmed_def busy_sample_def timers_sample_def tm_periodic_def)
  ultimately show "\<exists>s'. rt_timer_check counting busy_sample = Some s'
        \<and> sem_value (k_sem s' 0) = 1 \<and> sem_value (k_sem s' 1) = 1 \<and> sem_value (k_sem s' 2) = 0
        \<and> th_base s' 7 = RT_THREAD_SUSPEND \<and> \<not> tm_activated (k_timer s' (UserTimer 1))
        \<and> tm_timeout_tick (k_timer s' (UserTimer 0)) = 105" using s'(1) by blast
qed

text \<open>
  C4: waits end in time.  From a state between ticks, the interrupts of the next n ticks all
  return, also across the wrap-around of the tick; a thread whose timer expires n ticks from now
  is awake after them, at the very tick of its timeout.
\<close>

theorem waits_end_in_time:
  assumes "clock_inv s" "user_quiet user" "ThreadTimer t \<in> set (k_timers s Timer_list)"
    and "n = unat (tm_timeout_tick (k_timer s (ThreadTimer t)) - k_tick s)"
  shows "\<exists>s'. ticks user n s = Some s' \<and> clock_inv s' \<and> awake s' t
     \<and> k_tick s' = tm_timeout_tick (k_timer s (ThreadTimer t))"
proof -
  obtain s' where s': "ticks user n s = Some s'" "clock_inv s'" "k_tick s' = k_tick s + of_nat n"
    "awake s' t \<or> ThreadTimer t \<in> set (k_timers s' Timer_list)
       \<and> k_timer s' (ThreadTimer t) = k_timer s (ThreadTimer t)"
    using ticks_ok [OF assms(1-3), of n] by blast
  have tick: "k_tick s' = tm_timeout_tick (k_timer s (ThreadTimer t))" using s'(3) assms(4) by simp
  have "awake s' t"
  proof (rule ccontr)
    assume "\<not> awake s' t"
    then have "ThreadTimer t \<in> set (due s')" using s'(4) tick by (auto simp: due_def)
    then show False using s'(2) by (simp add: clock_inv_def)
  qed
  then show ?thesis using s'(1,2) tick by blast
qed

theorem waits_end_in_time_witness:
  "\<exists>s'. ticks (\<lambda>_. Some) 5 k_sample = Some s' \<and> awake s' 7 \<and> k_tick s' = 105"
  using waits_end_in_time [OF clock_sample(1,4,2), of 5] clock_sample(3) by auto


section \<open>A periodic timer with period zero\<close>

definition zero_period :: "tmid \<Rightarrow> kstate \<Rightarrow> bool" where
  "zero_period i s \<longleftrightarrow> timers_inv s \<and> k_timers s Timer_list = [i] \<and> k_timers s Check_list = []
     \<and> tm_periodic (k_timer s i) \<and> tm_init_tick (k_timer s i) = 0 \<and> tm_timeout_tick (k_timer s i) = k_tick s
     \<and> (case tm_timeout_func (k_timer s i) of User_timeout n \<Rightarrow> True | Thread_timeout t \<Rightarrow> False)"

lemma zero_period_turn:
  assumes "zero_period i s"
  obtains s' where "timer_restart i (timer_expire i s) = Some s'" "zero_period i s'" "k_tick s' = k_tick s"
proof -
  note z = assms [unfolded zero_period_def]
  have inv: "timers_inv s" and L: "k_timers s Timer_list = [i]" and c: "k_timers s Check_list = []"
    and per: "tm_periodic (k_timer s i)" using z by blast+
  have row: "tm_row (k_timer s i) = Some Timer_list" using timers_invD(3) [OF inv, of i Timer_list] L by simp
  have act: "tm_activated (k_timer s i)" "tm_obj (k_timer s i)"
    using timers_invD(1) [OF inv, of i] row by (auto simp: timer_ok_def)
  have nt: "\<And>t. i \<noteq> ThreadTimer t" using timers_invD(1) [OF inv, of i] per by (auto simp: timer_ok_def)
  let ?s1 = "timer_expire i s"
  note ex = timer_expire_ok [OF inv L c]
  have act1: "\<not> tm_activated (k_timer ?s1 i)" if "i = ThreadTimer t" for t using that nt by blast
  note dr = timer_drop_ok [OF ex(1,4) act1]
  let ?s2 = "timer_remove i ?s1"
  let ?s3 = "upd_timer i (flag_clear 1) ?s2"
  have tms3: "timers_inv ?s3"
  proof (rule timers_inv_update [OF dr(1), where i = i])
    show "timer_ok i (flag_clear 1 (k_timer ?s2 i))" using nt by (auto simp: timer_ok_def split: tmid.splits)
  qed (use timers_invD(2,3) [OF dr(1)] in auto)
  have tm2: "k_timer ?s2 i = (k_timer s i)\<lparr>tm_row := None\<rparr>" using ex(5) per by (simp add: dr(4))
  have obj3: "tm_obj (k_timer ?s3 i)" using tm2 act(2) by simp
  obtain s' where s': "rt_timer_start i ?s3 = Some s'" "timers_inv s'" "timer_frame {i} ?s3 s'"
    "tm_timeout_tick (k_timer s' i) = k_tick ?s3 + tm_init_tick (k_timer ?s3 i)"
    "k_timers s' Timer_list = timer_insert (\<lambda>j. tm_timeout_tick (k_timer s' j)) i (remove1 i (k_timers ?s3 Timer_list))"
    by (rule start_ok [OF tms3 obj3]) blast
  have tick: "k_tick s' = k_tick s" using timer_frameD(6) [OF s'(3)] timer_frameD(6) [OF ex(2)] by simp
  have lists: "k_timers s' Timer_list = [i]" using s'(5) ex(3) by (simp add: dr(3))
  note sf = start_fields [OF s'(1) tms3]
  have check: "k_timers s' Check_list = []" using sf(1) by (simp add: dr(3))
  have same: "tm_periodic (k_timer s' i)" "tm_init_tick (k_timer s' i) = 0"
    "tm_timeout_func (k_timer s' i) = tm_timeout_func (k_timer s i)"
    using sf(2-4) ex(5) z per by simp_all
  have "tm_timeout_tick (k_timer s' i) = k_tick s'" using s'(4) tick ex(5) per z timer_frameD(6) [OF ex(2)] by simp
  then have "zero_period i s'" using s'(2) lists check same z by (simp add: zero_period_def)
  moreover have "timer_restart i ?s1 = Some s'"
    using s'(1) ex(4) tm2 per act(1) by (simp add: timer_restart_def Let_def)
  ultimately show thesis using that tick by blast
qed

lemma zero_period_loops:
  assumes "timer_check_loop user tick s = Some r"
  shows "user = (\<lambda>_. Some) \<longrightarrow> zero_period i s \<longrightarrow> tick \<noteq> k_tick s"
proof -
  let ?P = "\<lambda>user tick s (r :: kstate). user = (\<lambda>_. Some) \<longrightarrow> (\<forall>i. zero_period i s \<longrightarrow> tick \<noteq> k_tick s)"
  have "?P user tick s r"
  proof (rule timer_check_loop.raw_induct [where P = ?P, OF _ assms], intro impI allI notI)
    fix loop user tick s i and r :: kstate
    assume IH: "\<And>user tick s r. loop user tick s = Some r \<Longrightarrow> ?P user tick s r"
      and step: "(case k_timers s Timer_list of [] \<Rightarrow> Some s
        | j # _ \<Rightarrow> if tick - tm_timeout_tick (k_timer s j) < TICK_HALF
            then timeout_call user (tm_timeout_func (k_timer s j)) (timer_expire j s) \<bind>
              (\<lambda>s1. timer_restart j s1 \<bind> loop user (rt_tick_get s1))
            else Some s) = Some r"
      and u: "user = (\<lambda>_. Some)" and z: "zero_period i s" and tick: "tick = k_tick s"
    note zs = z [unfolded zero_period_def]
    obtain s' where s': "timer_restart i (timer_expire i s) = Some s'" "zero_period i s'" "k_tick s' = k_tick s"
      by (rule zero_period_turn [OF z])
    have tick1: "rt_tick_get (timer_expire i s) = k_tick s" by (simp add: rt_tick_get_def timer_expire_def Let_def)
    have "timeout_call user (tm_timeout_func (k_timer s i)) (timer_expire i s) = Some (timer_expire i s)"
      using zs u by (simp add: timeout_call_def split: timeout_func.splits)
    then have "loop user (k_tick s) s' = Some r"
      using step zs tick s'(1) tick1 by simp
    then have "user = (\<lambda>_. Some) \<longrightarrow> (\<forall>i. zero_period i s' \<longrightarrow> k_tick s \<noteq> k_tick s')" by (rule IH)
    with u have "\<forall>i. zero_period i s' \<longrightarrow> k_tick s \<noteq> k_tick s'" by (rule mp [rotated])
    then show False using s'(2,3) by (metis)
  qed
  then show ?thesis by blast
qed

text \<open>
  A periodic timer with period zero.  \<^verbatim>\<open>rt_timer_init\<close> and \<^verbatim>\<open>rt_timer_control\<close> accept it,
  but once it is due, and the only active timer, the check never returns: the timer is due again
  as soon as it is started.  The timeout function is one that changes nothing.
\<close>

theorem zero_period_never_returns:
  assumes "zero_period i s"
  shows "rt_timer_check (\<lambda>_. Some) s = None"
proof -
  have "(k_timers s)(Check_list := []) = k_timers s" using assms by (simp add: zero_period_def fun_eq_iff)
  then have "rt_timer_check (\<lambda>_. Some) s = timer_check_loop (\<lambda>_. Some) (k_tick s) s"
    by (simp add: rt_timer_check_def rt_tick_get_def)
  then show ?thesis
    using zero_period_loops [of "\<lambda>_. Some" "k_tick s" s _ i] assms
    by (cases "timer_check_loop (\<lambda>_. Some) (k_tick s) s") auto
qed

text \<open>A periodic timer with time zero, started at tick 100 in a kernel without other active timers.\<close>

definition zero_sample :: kstate where
  "zero_sample = k_sample\<lparr>
     k_timer := (\<lambda>i. (timers_sample i)\<lparr>tm_row := (if i = UserTimer 0 then Some Timer_list else None),
        tm_flag := (if i = UserTimer 0 then 3 else 0), tm_init_tick := 0, tm_timeout_tick := 100\<rparr>),
     k_timers := (\<lambda>l. if l = Timer_list then [UserTimer 0] else [])\<rparr>"

theorem zero_period_never_returns_witness: "rt_timer_check (\<lambda>_. Some) zero_sample = None"
proof (rule zero_period_never_returns [of "UserTimer 0"])
  have "timers_inv zero_sample"
    by (auto simp: zero_sample_def timers_inv_def timers_sample_def timer_ok_def tm_activated_def
        tm_periodic_def split: tmid.splits)
  then show "zero_period (UserTimer 0) zero_sample"
    by (simp add: zero_period_def zero_sample_def timers_sample_def tm_periodic_def)
qed

end
