(* ===== verification/Mem.thy ===== *)
theory Mem
  imports Prelude
begin

text \<open>
  The small memory allocator, src/mem.c (the system heap of this configuration).

  The state is one \<^verbatim>\<open>struct rt_small_mem\<close> with its heap.  Headers and user memory are addressed by
  their offset from \<^verbatim>\<open>heap_ptr\<close>; the headers (\<^verbatim>\<open>struct rt_small_mem_item\<close>) and the user bytes are
  separate maps, and the invariant keeps the headers outside the allocated areas.  Offsets are
  natural numbers: the heap lies in the 32-bit address space, so none of the code's sums and
  differences of offsets wraps while the invariant holds.  Sizes passed by the caller are machine
  words, because their alignment can wrap.  The owner's name stored in each header is left out.
\<close>

section \<open>Operations\<close>

record rt_small_mem_item =
  it_pool :: rt_uint32_t
  it_next :: nat
  it_prev :: nat

record rt_small_mem =
  sm_obj :: bool                     \<comment> \<open>the object is a registered memory object\<close>
  sm_addr :: rt_uint32_t             \<comment> \<open>its own address\<close>
  sm_heap_ptr :: nat
  sm_item :: "nat \<Rightarrow> rt_small_mem_item"
  sm_data :: "nat \<Rightarrow> rt_uint8_t"
  sm_heap_end :: nat
  sm_lfree :: nat
  sm_mem_size_aligned :: nat
  sm_used :: nat
  sm_max :: nat

abbreviation MIN_SIZE :: nat where "MIN_SIZE \<equiv> 12"
abbreviation MIN_SIZE_ALIGNED :: nat where "MIN_SIZE_ALIGNED \<equiv> 12"
abbreviation SIZEOF_STRUCT_MEM :: nat where "SIZEOF_STRUCT_MEM \<equiv> 16"
abbreviation RT_ALIGN_SIZE :: nat where "RT_ALIGN_SIZE \<equiv> 4"

text \<open>The lowest bit of \<^verbatim>\<open>pool_ptr\<close> is the used flag, the others are the address of the pool.\<close>

definition MEM_USED :: "rt_small_mem \<Rightarrow> rt_uint32_t" where
  "MEM_USED m = (sm_addr m AND 0xfffffffe) OR 1"

definition MEM_FREED :: "rt_small_mem \<Rightarrow> rt_uint32_t" where
  "MEM_FREED m = (sm_addr m AND 0xfffffffe) OR 0"

definition pool_used :: "rt_uint32_t \<Rightarrow> bool" where
  "pool_used w \<longleftrightarrow> w AND NOT 0xfffffffe \<noteq> 0"

definition pool_addr :: "rt_uint32_t \<Rightarrow> rt_uint32_t" where
  "pool_addr w = w AND 0xfffffffe"

definition MEM_ISUSED :: "rt_small_mem \<Rightarrow> nat \<Rightarrow> bool" where
  "MEM_ISUSED m p \<longleftrightarrow> pool_used (it_pool (sm_item m p))"

definition MEM_POOL :: "rt_small_mem \<Rightarrow> nat \<Rightarrow> rt_uint32_t" where
  "MEM_POOL m p = pool_addr (it_pool (sm_item m p))"

definition upd_item :: "nat \<Rightarrow> (rt_small_mem_item \<Rightarrow> rt_small_mem_item) \<Rightarrow> rt_small_mem \<Rightarrow> rt_small_mem" where
  "upd_item p f m = m\<lparr>sm_item := (sm_item m)(p := f (sm_item m p))\<rparr>"

text \<open>Combine the free block q with the free block p before it.\<close>

definition smem_merge :: "nat \<Rightarrow> nat \<Rightarrow> rt_small_mem \<Rightarrow> rt_small_mem" where
  "smem_merge p q m =
     (let m1 = (if sm_lfree m = q then m\<lparr>sm_lfree := p\<rparr> else m);
          m2 = upd_item q (\<lambda>it. it\<lparr>it_pool := 0\<rparr>) m1;
          m3 = upd_item p (\<lambda>it. it\<lparr>it_next := it_next (sm_item m2 q)\<rparr>) m2
      in upd_item (it_next (sm_item m3 q)) (\<lambda>it. it\<lparr>it_prev := p\<rparr>) m3)"

definition plug_holes :: "nat \<Rightarrow> rt_small_mem \<Rightarrow> rt_small_mem option" where
  "plug_holes mem m = do {
     RT_ASSERT (mem < sm_heap_end m);
     let nmem = it_next (sm_item m mem);
     let m1 = (if mem \<noteq> nmem \<and> \<not> MEM_ISUSED m nmem \<and> nmem \<noteq> sm_heap_end m
               then smem_merge mem nmem m else m);
     let pmem = it_prev (sm_item m1 mem);
     Some (if pmem \<noteq> mem \<and> \<not> MEM_ISUSED m1 pmem then smem_merge pmem mem m1 else m1)
   }"

text \<open>
  \<^verbatim>\<open>sizeof(struct rt_small_mem)\<close> is a parameter; \<open>items\<close> and \<open>bytes\<close> are what the memory held before.
  \<^term>\<open>None\<close> is the NULL result for too small a memory.
\<close>

definition rt_smem_init ::
  "rt_uint32_t \<Rightarrow> (nat \<Rightarrow> rt_small_mem_item) \<Rightarrow> (nat \<Rightarrow> rt_uint8_t) \<Rightarrow> rt_uint32_t \<Rightarrow> rt_uint32_t
   \<Rightarrow> rt_small_mem option" where
  "rt_smem_init sizeof_small_mem items bytes begin_addr sz =
     (let small_mem = RT_ALIGN begin_addr 4;
          start_addr = small_mem + sizeof_small_mem;
          begin_align = RT_ALIGN start_addr 4;
          end_align = RT_ALIGN_DOWN (begin_addr + sz) 4
      in if end_align > 32 \<and> end_align - 32 \<ge> start_addr
         then let mem_size = unat (end_align - begin_align - 32);
                  m = \<lparr>sm_obj = True, sm_addr = small_mem, sm_heap_ptr = unat begin_align,
                       sm_item = items, sm_data = bytes, sm_heap_end = 0, sm_lfree = 0,
                       sm_mem_size_aligned = mem_size, sm_used = 0, sm_max = 0\<rparr>;
                  m1 = upd_item 0 (\<lambda>_. \<lparr>it_pool = MEM_FREED m, it_next = mem_size + SIZEOF_STRUCT_MEM,
                                        it_prev = 0\<rparr>) m;
                  m2 = m1\<lparr>sm_heap_end := mem_size + SIZEOF_STRUCT_MEM\<rparr>
              in Some (upd_item (sm_heap_end m2)
                   (\<lambda>_. \<lparr>it_pool = MEM_USED m2, it_next = mem_size + SIZEOF_STRUCT_MEM,
                         it_prev = mem_size + SIZEOF_STRUCT_MEM\<rparr>) m2)
         else None)"

definition rt_smem_detach :: "rt_small_mem \<Rightarrow> (rt_err_t \<times> rt_small_mem) option" where
  "rt_smem_detach m = do {
     RT_ASSERT (sm_obj m);
     Some (RT_EOK, m\<lparr>sm_obj := False\<rparr>)
   }"

text \<open>The size of the block for a request, and the search of the first block with that much room.\<close>

definition smem_request :: "rt_uint32_t \<Rightarrow> nat" where
  "smem_request sz =
     (let sz = RT_ALIGN sz 4 in if unat sz < MIN_SIZE_ALIGNED then MIN_SIZE_ALIGNED else unat sz)"

definition smem_room :: "rt_small_mem \<Rightarrow> nat \<Rightarrow> nat" where
  "smem_room m p = it_next (sm_item m p) - (p + SIZEOF_STRUCT_MEM)"

partial_function (option) smem_find :: "rt_small_mem \<Rightarrow> nat \<Rightarrow> nat \<Rightarrow> nat option option" where
  "smem_find m sz ptr =
     (if ptr \<le> sm_mem_size_aligned m - sz
      then if \<not> MEM_ISUSED m ptr \<and> smem_room m ptr \<ge> sz
           then Some (Some ptr)
           else smem_find m sz (it_next (sm_item m ptr))
      else Some None)"

definition smem_account :: "nat \<Rightarrow> rt_small_mem \<Rightarrow> rt_small_mem" where
  "smem_account n m =
     (let m1 = m\<lparr>sm_used := sm_used m + n\<rparr>
      in if sm_max m1 < sm_used m1 then m1\<lparr>sm_max := sm_used m1\<rparr> else m1)"

text \<open>Split the block ptr behind its first \<open>sz\<close> bytes; the rest becomes a free block.\<close>

definition smem_split :: "nat \<Rightarrow> nat \<Rightarrow> rt_small_mem \<Rightarrow> rt_small_mem" where
  "smem_split ptr sz m =
     (let ptr2 = ptr + SIZEOF_STRUCT_MEM + sz;
          next = it_next (sm_item m ptr);
          m1 = upd_item ptr2 (\<lambda>_. \<lparr>it_pool = MEM_FREED m, it_next = next, it_prev = ptr\<rparr>) m;
          m2 = upd_item ptr (\<lambda>it. it\<lparr>it_next := ptr2\<rparr>) m1
      in if next \<noteq> sm_mem_size_aligned m + SIZEOF_STRUCT_MEM
         then upd_item next (\<lambda>it. it\<lparr>it_prev := ptr2\<rparr>) m2 else m2)"

partial_function (option) smem_next_free :: "rt_small_mem \<Rightarrow> nat \<Rightarrow> nat option" where
  "smem_next_free m p =
     (if MEM_ISUSED m p \<and> p \<noteq> sm_heap_end m
      then smem_next_free m (it_next (sm_item m p)) else Some p)"

definition smem_take :: "nat \<Rightarrow> nat \<Rightarrow> rt_small_mem \<Rightarrow> (nat \<times> rt_small_mem) option" where
  "smem_take ptr sz m = do {
     let m1 = (if smem_room m ptr \<ge> sz + SIZEOF_STRUCT_MEM + MIN_SIZE_ALIGNED
               then smem_account (sz + SIZEOF_STRUCT_MEM) (smem_split ptr sz m)
               else smem_account (it_next (sm_item m ptr) - ptr) m);
     let m2 = upd_item ptr (\<lambda>it. it\<lparr>it_pool := MEM_USED m1\<rparr>) m1;
     m3 \<leftarrow> (if ptr = sm_lfree m2
             then do {
               lfree \<leftarrow> smem_next_free m2 (sm_lfree m2);
               RT_ASSERT (lfree = sm_heap_end m2 \<or> \<not> MEM_ISUSED m2 lfree);
               Some (m2\<lparr>sm_lfree := lfree\<rparr>)
             } else Some m2);
     RT_ASSERT (ptr + SIZEOF_STRUCT_MEM + sz \<le> sm_heap_end m3);
     RT_ASSERT ((sm_heap_ptr m3 + ptr + SIZEOF_STRUCT_MEM) mod RT_ALIGN_SIZE = 0);
     RT_ASSERT ((sm_heap_ptr m3 + ptr) mod RT_ALIGN_SIZE = 0);
     Some (ptr + SIZEOF_STRUCT_MEM, m3)
   }"

definition rt_smem_alloc :: "rt_uint32_t \<Rightarrow> rt_small_mem \<Rightarrow> (nat option \<times> rt_small_mem) option" where
  "rt_smem_alloc sz m =
     (if sz = 0 then Some (None, m)
      else do {
        RT_ASSERT (sm_obj m);
        let n = smem_request sz;
        if n > sm_mem_size_aligned m then Some (None, m)
        else do {
          found \<leftarrow> smem_find m n (sm_lfree m);
          (case found of
             None \<Rightarrow> Some (None, m)
           | Some ptr \<Rightarrow> do {
               (r, m1) \<leftarrow> smem_take ptr n m;
               Some (Some r, m1)
             })
        }
      })"

text \<open>
  The pointer \<open>rmem\<close> is the offset of user memory, or \<^term>\<open>None\<close> for NULL.  A pointer below the first
  user byte, or whose header names another pool, is foreign to this heap.
\<close>

definition rt_smem_free :: "nat option \<Rightarrow> rt_small_mem \<Rightarrow> rt_small_mem option" where
  "rt_smem_free rmem m =
     (case rmem of
        None \<Rightarrow> Some m
      | Some r \<Rightarrow> do {
          RT_ASSERT ((sm_heap_ptr m + r) mod RT_ALIGN_SIZE = 0);
          RT_ASSERT (SIZEOF_STRUCT_MEM \<le> r);
          let mem = r - SIZEOF_STRUCT_MEM;
          RT_ASSERT (MEM_POOL m mem = sm_addr m);
          RT_ASSERT (MEM_ISUSED m mem);
          RT_ASSERT (sm_obj m);
          RT_ASSERT (r < sm_heap_end m);
          RT_ASSERT (MEM_POOL m (it_next (sm_item m mem)) = sm_addr m);
          let m1 = upd_item mem (\<lambda>it. it\<lparr>it_pool := MEM_FREED m\<rparr>) m;
          let m2 = (if mem < sm_lfree m1 then m1\<lparr>sm_lfree := mem\<rparr> else m1);
          let m3 = m2\<lparr>sm_used := sm_used m2 - (it_next (sm_item m2 mem) - mem)\<rparr>;
          plug_holes mem m3
        })"

definition smem_memcpy :: "nat \<Rightarrow> nat \<Rightarrow> nat \<Rightarrow> rt_small_mem \<Rightarrow> rt_small_mem" where
  "smem_memcpy dst src n m =
     m\<lparr>sm_data := (\<lambda>a. if dst \<le> a \<and> a < dst + n then sm_data m (src + (a - dst)) else sm_data m a)\<rparr>"

definition rt_smem_realloc ::
  "nat option \<Rightarrow> rt_uint32_t \<Rightarrow> rt_small_mem \<Rightarrow> (nat option \<times> rt_small_mem) option" where
  "rt_smem_realloc rmem newsize0 m = do {
     RT_ASSERT (sm_obj m);
     let newsize = unat (RT_ALIGN newsize0 4);
     if newsize > sm_mem_size_aligned m then Some (None, m)
     else if newsize = 0 then do {
       m1 \<leftarrow> rt_smem_free rmem m;
       Some (None, m1)
     }
     else (case rmem of
        None \<Rightarrow> rt_smem_alloc (RT_ALIGN newsize0 4) m
      | Some r \<Rightarrow> do {
          RT_ASSERT ((sm_heap_ptr m + r) mod RT_ALIGN_SIZE = 0);
          RT_ASSERT (SIZEOF_STRUCT_MEM \<le> r);
          RT_ASSERT (r < sm_heap_end m);
          let ptr = r - SIZEOF_STRUCT_MEM;
          let sz = smem_room m ptr;
          if sz = newsize then Some (Some r, m)
          else if newsize + SIZEOF_STRUCT_MEM + MIN_SIZE < sz then do {
            let m1 = m\<lparr>sm_used := sm_used m - (sz - newsize)\<rparr>;
            let ptr2 = ptr + SIZEOF_STRUCT_MEM + newsize;
            let m2 = smem_split ptr newsize m1;
            let m3 = (if ptr2 < sm_lfree m2 then m2\<lparr>sm_lfree := ptr2\<rparr> else m2);
            m4 \<leftarrow> plug_holes ptr2 m3;
            Some (Some r, m4)
          }
          else do {
            (nmem, m1) \<leftarrow> rt_smem_alloc (RT_ALIGN newsize0 4) m;
            (case nmem of
               None \<Rightarrow> Some (None, m1)
             | Some nr \<Rightarrow> do {
                 m2 \<leftarrow> rt_smem_free rmem (smem_memcpy nr r (if sz < newsize then sz else newsize) m1);
                 Some (nmem, m2)
               })
          }
        })
   }"


section \<open>Headers\<close>

lemma pool_tags [simp]:
  "pool_used (MEM_USED m)" "\<not> pool_used (MEM_FREED m)" "\<not> pool_used 0"
  "pool_addr (MEM_USED m) = sm_addr m AND 0xfffffffe" "pool_addr (MEM_FREED m) = sm_addr m AND 0xfffffffe"
proof -
  have n: "NOT (0xfffffffe :: rt_uint32_t) = 1" by simp
  have z: "(a AND 0xfffffffe) AND 1 = 0" for a :: rt_uint32_t by (simp add: and.assoc)
  show "pool_used (MEM_USED m)" "\<not> pool_used (MEM_FREED m)" "\<not> pool_used 0"
    unfolding pool_used_def MEM_USED_def MEM_FREED_def n bit.conj_disj_distrib2 z by simp_all
  show "pool_addr (MEM_USED m) = sm_addr m AND 0xfffffffe" "pool_addr (MEM_FREED m) = sm_addr m AND 0xfffffffe"
    unfolding pool_addr_def MEM_USED_def MEM_FREED_def by (simp_all add: bit.conj_disj_distrib2 and.assoc)
qed

lemma upd_item_simps [simp]:
  "sm_obj (upd_item p f m) = sm_obj m" "sm_addr (upd_item p f m) = sm_addr m"
  "sm_heap_ptr (upd_item p f m) = sm_heap_ptr m" "sm_data (upd_item p f m) = sm_data m"
  "sm_heap_end (upd_item p f m) = sm_heap_end m" "sm_lfree (upd_item p f m) = sm_lfree m"
  "sm_mem_size_aligned (upd_item p f m) = sm_mem_size_aligned m" "sm_used (upd_item p f m) = sm_used m"
  "sm_max (upd_item p f m) = sm_max m"
  "sm_item (upd_item p f m) = (sm_item m)(p := f (sm_item m p))"
  by (simp_all add: upd_item_def)

text \<open>The used flag and the pool depend on the header only.\<close>

lemma MEM_ISUSED_cong: "sm_item m' p = sm_item m p \<Longrightarrow> MEM_ISUSED m' p = MEM_ISUSED m p"
  by (simp add: MEM_ISUSED_def)

lemma MEM_POOL_cong: "sm_item m' p = sm_item m p \<Longrightarrow> MEM_POOL m' p = MEM_POOL m p"
  by (simp add: MEM_POOL_def)


section \<open>The invariant\<close>

text \<open>
  The headers form a doubly linked chain \<open>ps\<close> in address order from offset 0 to the end marker
  (whose back link is not maintained), with at least the room of a header between two of them.
\<close>

definition linked :: "rt_small_mem \<Rightarrow> nat \<Rightarrow> nat \<Rightarrow> bool" where
  "linked m p q \<longleftrightarrow> it_next (sm_item m p) = q \<and> p + SIZEOF_STRUCT_MEM \<le> q
     \<and> (q \<noteq> sm_heap_end m \<longrightarrow> it_prev (sm_item m q) = p)"

definition block_size :: "rt_small_mem \<Rightarrow> nat \<Rightarrow> nat" where
  "block_size m p = (if MEM_ISUSED m p then it_next (sm_item m p) - p else 0)"

definition chain_ok :: "rt_small_mem \<Rightarrow> nat list \<Rightarrow> bool" where
  "chain_ok m ps \<longleftrightarrow>
     ps \<noteq> [] \<and> hd ps = 0 \<and> last ps = sm_heap_end m \<and> it_prev (sm_item m 0) = 0
     \<and> it_next (sm_item m (sm_heap_end m)) = sm_heap_end m \<and> MEM_ISUSED m (sm_heap_end m)
     \<and> successively (linked m) ps
     \<and> (\<forall>p \<in> set ps. p mod RT_ALIGN_SIZE = 0 \<and> MEM_POOL m p = sm_addr m)"

text \<open>The lowest free block, and the accounting.\<close>

definition lfree_ok :: "rt_small_mem \<Rightarrow> nat list \<Rightarrow> bool" where
  "lfree_ok m ps \<longleftrightarrow> sm_lfree m \<in> set ps \<and> (MEM_ISUSED m (sm_lfree m) \<longrightarrow> sm_lfree m = sm_heap_end m)
     \<and> (\<forall>p \<in> set ps. \<not> MEM_ISUSED m p \<longrightarrow> sm_lfree m \<le> p)"

definition heap_const :: "rt_small_mem \<Rightarrow> bool" where
  "heap_const m \<longleftrightarrow> sm_obj m \<and> sm_addr m AND 0xfffffffe = sm_addr m
     \<and> sm_heap_ptr m mod RT_ALIGN_SIZE = 0 \<and> sm_mem_size_aligned m mod RT_ALIGN_SIZE = 0
     \<and> sm_heap_end m = sm_mem_size_aligned m + SIZEOF_STRUCT_MEM \<and> sm_heap_end m < 2 ^ 32"

definition rooms_ok :: "rt_small_mem \<Rightarrow> nat list \<Rightarrow> bool" where
  "rooms_ok m ps \<longleftrightarrow> (\<forall>p \<in> set ps. MEM_ISUSED m p \<longrightarrow> p \<noteq> sm_heap_end m \<longrightarrow> 0 < smem_room m p)"

definition heap_base :: "rt_small_mem \<Rightarrow> nat list \<Rightarrow> bool" where
  "heap_base m ps \<longleftrightarrow> heap_const m \<and> chain_ok m ps \<and> lfree_ok m ps \<and> rooms_ok m ps
     \<and> sm_used m = sum_list (map (block_size m) ps) \<and> sm_used m \<le> sm_max m"

text \<open>No two free blocks are adjacent.\<close>

definition coalesced :: "rt_small_mem \<Rightarrow> nat list \<Rightarrow> bool" where
  "coalesced m = successively (\<lambda>p q. MEM_ISUSED m p \<or> MEM_ISUSED m q)"

definition smem_inv :: "rt_small_mem \<Rightarrow> nat list \<Rightarrow> bool" where
  "smem_inv m ps \<longleftrightarrow> heap_base m ps \<and> coalesced m ps"

text \<open>The allocated areas: offset and length of the user memory of the used blocks.\<close>

definition live :: "rt_small_mem \<Rightarrow> nat list \<Rightarrow> (nat \<times> nat) set" where
  "live m ps = (\<lambda>p. (p + SIZEOF_STRUCT_MEM, smem_room m p))
     ` {p \<in> set ps. MEM_ISUSED m p \<and> p \<noteq> sm_heap_end m}"

lemma heap_baseD:
  assumes "heap_base m ps"
  shows "heap_const m" "chain_ok m ps" "lfree_ok m ps" "sm_used m = sum_list (map (block_size m) ps)"
    "sm_used m \<le> sm_max m" "rooms_ok m ps"
  using assms by (simp_all add: heap_base_def)

lemma heap_constD:
  assumes "heap_const m"
  shows "sm_obj m" "sm_addr m AND 0xfffffffe = sm_addr m" "sm_heap_ptr m mod 4 = 0"
    "sm_mem_size_aligned m mod 4 = 0" "sm_heap_end m = sm_mem_size_aligned m + 16" "sm_heap_end m < 2 ^ 32"
  using assms by (simp_all add: heap_const_def)

lemma chain_okD:
  assumes "chain_ok m ps"
  shows "ps \<noteq> []" "hd ps = 0" "last ps = sm_heap_end m" "it_prev (sm_item m 0) = 0"
    "it_next (sm_item m (sm_heap_end m)) = sm_heap_end m" "MEM_ISUSED m (sm_heap_end m)"
    "successively (linked m) ps" "p \<in> set ps \<Longrightarrow> p mod 4 = 0" "p \<in> set ps \<Longrightarrow> MEM_POOL m p = sm_addr m"
  using assms by (simp_all add: chain_ok_def)

lemma chain_sorted:
  assumes "successively (linked m) ps"
  shows "sorted_wrt (<) ps"
proof -
  have "successively (<) ps"
    by (rule successively_mono [OF assms]) (simp add: linked_def)
  then show ?thesis by (simp add: successively_conv_sorted_wrt)
qed

text \<open>A block of the chain, its neighbours, and the order of their offsets.\<close>

lemma chain_split:
  assumes "chain_ok m (as @ p # q # bs)"
  shows "linked m p q" "\<And>x. x \<in> set as \<Longrightarrow> x < p" "\<And>x. x \<in> set bs \<Longrightarrow> q < x" "p < q"
    "q \<le> sm_heap_end m" "p \<noteq> sm_heap_end m"
proof -
  have s: "sorted_wrt (<) (as @ p # q # bs)" by (rule chain_sorted [OF chain_okD(7) [OF assms]])
  show "linked m p q" using chain_okD(7) [OF assms] by (simp add: successively_append_iff)
  show "x < p" if "x \<in> set as" for x using s that by (simp add: sorted_wrt_append)
  show "q < x" if "x \<in> set bs" for x using s that by (simp add: sorted_wrt_append)
  show "p < q" using s by (simp add: sorted_wrt_append)
  have "last (q # bs) = sm_heap_end m" using chain_okD(3) [OF assms] by simp
  then show "q \<le> sm_heap_end m" using s last_in_set [of bs]
    by (cases "bs = []") (auto simp: sorted_wrt_append less_imp_le)
  then show "p \<noteq> sm_heap_end m" using \<open>p < q\<close> by simp
qed

lemma chain_block:
  assumes "chain_ok m ps" "p \<in> set ps" "p \<noteq> sm_heap_end m"
  obtains as q bs where "ps = as @ p # q # bs"
proof -
  obtain as cs where ps: "ps = as @ p # cs" using assms(2) by (auto simp: in_set_conv_decomp)
  have "cs \<noteq> []" using chain_okD(3) [OF assms(1)] assms(3) ps by auto
  then obtain q bs where "cs = q # bs" by (cases cs) auto
  then show thesis using that ps by simp
qed

lemma chain_le_end:
  assumes "chain_ok m ps" "p \<in> set ps"
  shows "p \<le> sm_heap_end m"
proof (cases "p = sm_heap_end m")
  case False
  obtain as q bs where ps: "ps = as @ p # q # bs" by (rule chain_block [OF assms False])
  show ?thesis using chain_split(4,5) [OF assms(1) [unfolded ps]] by simp
qed simp

text \<open>The allocated areas do not overlap each other or a header.\<close>

lemma live_disjoint:
  assumes ok: "chain_ok m ps" and r: "(r, n) \<in> live m ps" "(r', n') \<in> live m ps" "r \<noteq> r'"
  shows "{r ..< r + n} \<inter> {r' ..< r' + n'} = {}"
proof -
  obtain p where p: "p \<in> set ps" "p \<noteq> sm_heap_end m" "r = p + 16" "n = smem_room m p" using r(1) by (auto simp: live_def)
  obtain p' where p': "p' \<in> set ps" "p' \<noteq> sm_heap_end m" "r' = p' + 16" "n' = smem_room m p'"
    using r(2) by (auto simp: live_def)
  have sep: "a + 16 + smem_room m a \<le> b" if ab: "a \<in> set ps" "b \<in> set ps" "a < b" for a b
  proof -
    have "a \<noteq> sm_heap_end m" using chain_le_end [OF ok ab(2)] ab(3) by simp
    then obtain as q bs where ps: "ps = as @ a # q # bs" using chain_block [OF ok ab(1)] by blast
    note c = chain_split [OF ok [unfolded ps]]
    have "q \<le> b" using ab(2,3) c(2) [of b] c(3) [of b] by (auto simp: ps less_imp_le)
    then show ?thesis using c(1) by (simp add: linked_def smem_room_def)
  qed
  have "p < p' \<or> p' < p" using r(3) p(3) p'(3) by auto
  then show ?thesis using sep [OF p(1) p'(1)] sep [OF p'(1) p(1)] p(3,4) p'(3,4) by auto
qed


section \<open>Combining free blocks\<close>

lemma linked_cong:
  assumes "\<And>x. x \<in> set xs \<Longrightarrow> sm_item m' x = sm_item m x" "sm_heap_end m' = sm_heap_end m"
  shows "successively (linked m') xs = successively (linked m) xs"
  by (rule successively_cong) (simp_all add: linked_def assms)

lemma heap_const_cong:
  assumes "sm_obj m' = sm_obj m" "sm_addr m' = sm_addr m" "sm_heap_ptr m' = sm_heap_ptr m"
    "sm_mem_size_aligned m' = sm_mem_size_aligned m" "sm_heap_end m' = sm_heap_end m"
  shows "heap_const m' = heap_const m"
  by (simp add: heap_const_def assms)

lemma block_size_cong:
  "sm_item m' x = sm_item m x \<Longrightarrow> block_size m' x = block_size m x"
  by (simp add: block_size_def MEM_ISUSED_def)

lemma merge_simps [simp]:
  "sm_obj (smem_merge p q m) = sm_obj m" "sm_addr (smem_merge p q m) = sm_addr m"
  "sm_heap_ptr (smem_merge p q m) = sm_heap_ptr m" "sm_data (smem_merge p q m) = sm_data m"
  "sm_heap_end (smem_merge p q m) = sm_heap_end m"
  "sm_mem_size_aligned (smem_merge p q m) = sm_mem_size_aligned m" "sm_used (smem_merge p q m) = sm_used m"
  "sm_max (smem_merge p q m) = sm_max m"
  "sm_lfree (smem_merge p q m) = (if sm_lfree m = q then p else sm_lfree m)"
  by (simp_all add: smem_merge_def Let_def)

lemma merge_ok:
  assumes base: "heap_base m (as @ p # q # bs)" and bs: "bs \<noteq> []"
    and free: "\<not> MEM_ISUSED m p" "\<not> MEM_ISUSED m q"
  shows "heap_base (smem_merge p q m) (as @ p # bs)"
    "\<And>x. x \<in> set (as @ p # bs) \<Longrightarrow> MEM_ISUSED (smem_merge p q m) x = MEM_ISUSED m x"
    "live (smem_merge p q m) (as @ p # bs) = live m (as @ p # q # bs)"
    "\<not> MEM_ISUSED (smem_merge p q m) q"
proof -
  let ?m' = "smem_merge p q m"
  note ok = heap_baseD(2) [OF base] and lf = heap_baseD(3) [OF base]
  obtain r cs where bs': "bs = r # cs" using bs by (cases bs) auto
  note c = chain_split [OF ok]
  have ok2: "chain_ok m ((as @ [p]) @ q # r # cs)" using ok bs' by simp
  note c2 = chain_split [OF ok2]
  have nq: "it_next (sm_item m q) = r" "it_next (sm_item m p) = q" "p + 16 \<le> q" "q + 16 \<le> r"
    using c(1) c2(1) by (simp_all add: linked_def)
  have lt: "p < q" "q < r" using c(4) c2(4) by simp_all
  have item: "sm_item ?m' = (sm_item m)(q := sm_item m q\<lparr>it_pool := 0\<rparr>,
      p := sm_item m p\<lparr>it_next := r\<rparr>, r := sm_item m r\<lparr>it_prev := p\<rparr>)"
    using nq lt by (auto simp: smem_merge_def Let_def fun_eq_iff)
  have notin: "x \<noteq> p \<and> x \<noteq> q \<and> x \<noteq> r" if "x \<in> set as \<union> set cs" for x
    using that c(2) [of x] c2(3) [of x] lt by auto
  have same: "sm_item ?m' x = sm_item m x" if "x \<in> set as \<union> set cs" for x
    using notin [OF that] by (simp add: item)
  have p': "sm_item ?m' p = sm_item m p\<lparr>it_next := r\<rparr>" and r': "sm_item ?m' r = sm_item m r\<lparr>it_prev := p\<rparr>"
    and q': "it_pool (sm_item ?m' q) = 0" using lt by (simp_all add: item)
  have used: "MEM_ISUSED ?m' x = MEM_ISUSED m x" "MEM_POOL ?m' x = MEM_POOL m x" if "x \<in> set (as @ p # bs)" for x
    using that same [of x] p' r' by (auto simp: bs' MEM_ISUSED_def MEM_POOL_def)
  show "MEM_ISUSED ?m' x = MEM_ISUSED m x" if "x \<in> set (as @ p # bs)" for x by (rule used(1) [OF that])
  show "\<not> MEM_ISUSED ?m' q" by (simp add: MEM_ISUSED_def q')
  have next_same: "it_next (sm_item ?m' x) = it_next (sm_item m x)" if "x \<in> set as \<union> set bs" for x
    using that same [of x] r' by (auto simp: bs')
  have endr: "sm_heap_end m \<in> set bs" using chain_okD(3) [OF ok] last_in_set [OF bs] bs by simp
  have eq: "successively (linked ?m') as = successively (linked m) as"
    "successively (linked ?m') cs = successively (linked m) cs"
    using same by (auto intro!: linked_cong)
  have chain: "chain_ok ?m' (as @ p # bs)"
    unfolding chain_ok_def
  proof (intro conjI ballI)
    show "hd (as @ p # bs) = 0" using chain_okD(2) [OF ok] by (cases as) simp_all
    then show "it_prev (sm_item ?m' 0) = 0"
      using chain_okD(4) [OF ok] lt p' same [of 0] by (cases as) auto
    show "last (as @ p # bs) = sm_heap_end ?m'" using chain_okD(3) [OF ok] bs by simp
    show "it_next (sm_item ?m' (sm_heap_end ?m')) = sm_heap_end ?m'"
      using chain_okD(5) [OF ok] next_same [of "sm_heap_end m"] endr by simp
    show "MEM_ISUSED ?m' (sm_heap_end ?m')" using chain_okD(6) [OF ok] used(1) endr by simp
    have "linked ?m' a p" if "linked m a p" "a \<in> set as" for a
      using that same [of a] p' by (simp add: linked_def)
    then have "as = [] \<or> linked ?m' (last as) p" if "as = [] \<or> linked m (last as) p"
      using that last_in_set [of as] by blast
    moreover have "linked ?m' p r" using p' r' nq by (simp add: linked_def)
    moreover have "linked ?m' r d" if "linked m r d" "d \<in> set cs" for d
      using that same [of d] r' by (simp add: linked_def)
    then have "cs = [] \<or> linked ?m' r (hd cs)" if "cs = [] \<or> linked m r (hd cs)"
      using that hd_in_set [of cs] by blast
    ultimately show "successively (linked ?m') (as @ p # bs)"
      using chain_okD(7) [OF ok]
      by (auto simp: bs' successively_append_iff successively_Cons eq)
  qed (use chain_okD(8,9) [OF ok] used(2) in auto)
  have "lfree_ok ?m' (as @ p # bs)"
  proof -
    have "sm_lfree m \<le> p" using lf free(1) by (simp add: lfree_ok_def)
    then have "sm_lfree m \<noteq> q" "sm_lfree m \<in> set (as @ p # bs)" using lt lf by (auto simp: lfree_ok_def)
    then show ?thesis using lf used(1) by (auto simp: lfree_ok_def)
  qed
  moreover have "sum_list (map (block_size ?m') (as @ p # bs)) = sum_list (map (block_size m) (as @ p # q # bs))"
  proof -
    have "map (block_size ?m') xs = map (block_size m) xs" if "set xs \<subseteq> set as \<union> set bs" for xs
      using that next_same used(1) by (auto simp: block_size_def)
    then have "map (block_size ?m') as = map (block_size m) as" "map (block_size ?m') bs = map (block_size m) bs"
      by blast+
    moreover have "block_size ?m' p = 0" "block_size m p = 0" "block_size m q = 0"
      using free used(1) [of p] by (simp_all add: block_size_def)
    ultimately show ?thesis by (simp del: map_eq_conv)
  qed
  moreover have "heap_const ?m'" using heap_baseD(1) [OF base] by (simp add: heap_const_def)
  moreover have "rooms_ok ?m' (as @ p # bs)"
    using heap_baseD(6) [OF base] used(1) next_same free by (auto simp: rooms_ok_def smem_room_def)
  ultimately show "heap_base ?m' (as @ p # bs)" using chain heap_baseD(4,5) [OF base] by (simp add: heap_base_def)
  have "{x \<in> set (as @ p # bs). MEM_ISUSED ?m' x \<and> x \<noteq> sm_heap_end ?m'}
      = {x \<in> set (as @ p # q # bs). MEM_ISUSED m x \<and> x \<noteq> sm_heap_end m}"
    using used(1) free by auto
  moreover have "smem_room ?m' x = smem_room m x"
    if "x \<in> {x \<in> set (as @ p # q # bs). MEM_ISUSED m x \<and> x \<noteq> sm_heap_end m}" for x
    using that next_same [of x] free by (auto simp: smem_room_def)
  ultimately show "live ?m' (as @ p # bs) = live m (as @ p # q # bs)"
    unfolding live_def by (auto intro!: image_cong)
qed

lemma coalesced_cong:
  assumes "\<And>x. x \<in> set xs \<Longrightarrow> MEM_ISUSED m' x = MEM_ISUSED m x"
  shows "coalesced m' xs = coalesced m xs"
  unfolding coalesced_def by (rule successively_cong) (simp_all add: assms)

lemma coalesced_append:
  "coalesced m (as @ bs) \<longleftrightarrow> coalesced m as \<and> coalesced m bs
     \<and> (as = [] \<or> bs = [] \<or> MEM_ISUSED m (last as) \<or> MEM_ISUSED m (hd bs))"
  by (auto simp: coalesced_def successively_append_iff)

lemma coalesced_Cons:
  "coalesced m (x # bs) \<longleftrightarrow> bs = [] \<or> (MEM_ISUSED m x \<or> MEM_ISUSED m (hd bs)) \<and> coalesced m bs"
  by (simp add: coalesced_def successively_Cons)

text \<open>
  Plugging the holes around a free block p restores the invariant, if the blocks on either side
  of it are coalesced.
\<close>

lemma plug_backward:
  assumes base: "heap_base m (as @ p # xs)" and xs: "xs \<noteq> []" and free: "\<not> MEM_ISUSED m p"
    and used: "MEM_ISUSED m (hd xs)" and co: "coalesced m as" "coalesced m xs"
  obtains ps' where
    "smem_inv (if it_prev (sm_item m p) \<noteq> p \<and> \<not> MEM_ISUSED m (it_prev (sm_item m p))
               then smem_merge (it_prev (sm_item m p)) p m else m) ps'"
    "live (if it_prev (sm_item m p) \<noteq> p \<and> \<not> MEM_ISUSED m (it_prev (sm_item m p))
               then smem_merge (it_prev (sm_item m p)) p m else m) ps' = live m (as @ p # xs)"
    "\<not> MEM_ISUSED (if it_prev (sm_item m p) \<noteq> p \<and> \<not> MEM_ISUSED m (it_prev (sm_item m p))
               then smem_merge (it_prev (sm_item m p)) p m else m) p"
proof (cases "as = []")
  case True
  note ok = heap_baseD(2) [OF base]
  have "p = 0" using chain_okD(2) [OF ok] True by simp
  then have "it_prev (sm_item m p) = p" using chain_okD(4) [OF ok] by simp
  moreover have "coalesced m (as @ p # xs)" using True co(2) used by (simp add: coalesced_Cons)
  ultimately show thesis using that [of "as @ p # xs"] base free by (simp add: smem_inv_def)
next
  case False
  note ok = heap_baseD(2) [OF base]
  obtain as' a where as: "as = as' @ [a]" using False by (cases as rule: rev_cases) auto
  obtain x ys where xs': "xs = x # ys" using xs by (cases xs) auto
  have ok1: "chain_ok m (as' @ a # p # xs)" using ok as by simp
  have ok2: "chain_ok m (as @ p # x # ys)" using ok xs' by simp
  note c = chain_split [OF ok1]
  have prev: "it_prev (sm_item m p) = a" using c(1) chain_split(6) [OF ok2] by (simp add: linked_def)
  have "a \<noteq> p" using c(4) by simp
  show thesis
  proof (cases "MEM_ISUSED m a")
    case True
    then have "coalesced m (as @ p # xs)"
      using co used as by (simp add: coalesced_append coalesced_Cons)
    then show thesis using that [of "as @ p # xs"] base True prev free by (simp add: smem_inv_def)
  next
    case a: False
    have base': "heap_base m (as' @ a # p # xs)" using base as by simp
    note mg = merge_ok [OF base' xs a free]
    let ?m' = "smem_merge a p m"
    have eq: "coalesced ?m' ys = coalesced m ys" if "set ys \<subseteq> set as' \<union> set xs" for ys
      using that mg(2) by (intro coalesced_cong) auto
    have "as' = [] \<or> MEM_ISUSED ?m' (last as')"
      using co(1) as a mg(2) [of "last as'"] by (cases "as' = []") (simp_all add: coalesced_append)
    then have "coalesced ?m' (as' @ a # xs)"
      using co used as xs mg(2) [of "hd xs"] eq [of as'] eq [of xs]
      by (auto simp: coalesced_append coalesced_Cons)
    then have "smem_inv ?m' (as' @ a # xs)" using mg(1) by (simp add: smem_inv_def)
    then show thesis using that [of "as' @ a # xs"] prev a \<open>a \<noteq> p\<close> mg(3,4) as by simp
  qed
qed

lemma plug_holes_ok:
  assumes base: "heap_base m (as @ p # q # bs)" and free: "\<not> MEM_ISUSED m p"
    and co: "coalesced m as" "coalesced m (q # bs)"
  obtains m' ps' where "plug_holes p m = Some m'" "smem_inv m' ps'" "live m' ps' = live m (as @ p # q # bs)"
    "\<not> MEM_ISUSED m' p" "sm_data m' = sm_data m" "sm_heap_end m' = sm_heap_end m"
    "sm_heap_ptr m' = sm_heap_ptr m" "sm_mem_size_aligned m' = sm_mem_size_aligned m" "sm_addr m' = sm_addr m"
proof -
  note ok = heap_baseD(2) [OF base]
  note c = chain_split [OF ok]
  have pend: "p < sm_heap_end m" using c(4,5) by simp
  have nx: "it_next (sm_item m p) = q" using c(1) by (simp add: linked_def)
  define m1 where "m1 = (if \<not> MEM_ISUSED m q \<and> q \<noteq> sm_heap_end m then smem_merge p q m else m)"
  obtain xs where xs: "heap_base m1 (as @ p # xs)" "xs \<noteq> []" "\<not> MEM_ISUSED m1 p" "MEM_ISUSED m1 (hd xs)"
    "coalesced m1 as" "coalesced m1 xs" "live m1 (as @ p # xs) = live m (as @ p # q # bs)"
  proof (cases "MEM_ISUSED m q")
    case True
    show thesis by (rule that [of "q # bs"]) (use True base free co in \<open>simp_all add: m1_def\<close>)
  next
    case False
    have qe: "q \<noteq> sm_heap_end m" using False chain_okD(6) [OF ok] by auto
    have bs: "bs \<noteq> []" using chain_okD(3) [OF ok] qe by auto
    note mg = merge_ok [OF base bs free False]
    have m1: "m1 = smem_merge p q m" using False qe by (simp add: m1_def)
    show thesis
    proof (rule that [of bs])
      show "coalesced m1 as" unfolding m1 using co(1) mg(2) by (subst coalesced_cong [of _ _ m]) auto
      show "coalesced m1 bs" unfolding m1 using co(2) bs mg(2)
        by (subst coalesced_cong [of _ _ m]) (auto simp: coalesced_Cons)
      show "MEM_ISUSED m1 (hd bs)" unfolding m1 using mg(2) [of "hd bs"] bs False co(2) by (simp add: coalesced_Cons)
    qed (use mg(1,3) mg(2) [of p] free bs in \<open>simp_all add: m1\<close>)
  qed
  let ?m' = "if it_prev (sm_item m1 p) \<noteq> p \<and> \<not> MEM_ISUSED m1 (it_prev (sm_item m1 p))
               then smem_merge (it_prev (sm_item m1 p)) p m1 else m1"
  obtain ps' where ps': "smem_inv ?m' ps'" "live ?m' ps' = live m1 (as @ p # xs)" "\<not> MEM_ISUSED ?m' p"
    by (rule plug_backward [OF xs(1-6)]) blast
  have "plug_holes p m = Some ?m'"
    using pend nx c(4) by (simp add: plug_holes_def Let_def m1_def)
  moreover have "sm_data m1 = sm_data m" "sm_heap_end m1 = sm_heap_end m" "sm_heap_ptr m1 = sm_heap_ptr m"
    "sm_mem_size_aligned m1 = sm_mem_size_aligned m" "sm_addr m1 = sm_addr m" by (simp_all add: m1_def)
  ultimately show thesis using that [of ?m' ps'] ps' xs(7) by simp
qed


section \<open>Releasing a block\<close>

lemma chain_retag:
  assumes ok: "chain_ok m ps" and same: "\<And>x. it_next (sm_item m' x) = it_next (sm_item m x)"
    "\<And>x. it_prev (sm_item m' x) = it_prev (sm_item m x)" "sm_heap_end m' = sm_heap_end m" "sm_addr m' = sm_addr m"
    and pool: "\<And>x. x \<in> set ps \<Longrightarrow> MEM_POOL m' x = sm_addr m" and e: "MEM_ISUSED m' (sm_heap_end m)"
  shows "chain_ok m' ps"
proof -
  have "linked m' = linked m" by (simp add: linked_def fun_eq_iff same)
  then show ?thesis using ok pool e by (simp add: chain_ok_def same)
qed

lemma smem_invD:
  assumes "smem_inv m ps"
  shows "heap_base m ps" "coalesced m ps" "heap_const m" "chain_ok m ps" "lfree_ok m ps" "rooms_ok m ps"
  using assms by (simp_all add: smem_inv_def heap_base_def)

lemma free_ok:
  assumes inv: "smem_inv m ps" and r: "(r, n) \<in> live m ps"
  obtains m' ps' where "rt_smem_free (Some r) m = Some m'" "smem_inv m' ps'" "live m' ps' = live m ps - {(r, n)}"
    "\<not> MEM_ISUSED m' (r - SIZEOF_STRUCT_MEM)" "sm_data m' = sm_data m" "sm_heap_end m' = sm_heap_end m"
    "sm_heap_ptr m' = sm_heap_ptr m" "sm_mem_size_aligned m' = sm_mem_size_aligned m" "sm_addr m' = sm_addr m"
proof -
  note I = smem_invD [OF inv] and hc = heap_constD [OF smem_invD(3) [OF inv]]
  obtain p where p: "p \<in> set ps" "MEM_ISUSED m p" "p \<noteq> sm_heap_end m" "r = p + 16" "n = smem_room m p"
    using r by (auto simp: live_def)
  obtain as q bs where ps: "ps = as @ p # q # bs" by (rule chain_block [OF I(4) p(1,3)])
  note c = chain_split [OF I(4) [unfolded ps]]
  have nx: "it_next (sm_item m p) = q" "p + 16 \<le> q" using c(1) by (simp_all add: linked_def)
  have room: "p + 16 < q" using I(6) p(1-3) nx by (auto simp: rooms_ok_def smem_room_def)
  let ?m1 = "upd_item p (\<lambda>it. it\<lparr>it_pool := MEM_FREED m\<rparr>) m"
  let ?m2 = "if p < sm_lfree ?m1 then ?m1\<lparr>sm_lfree := p\<rparr> else ?m1"
  define m3 where "m3 = ?m2\<lparr>sm_used := sm_used ?m2 - (it_next (sm_item ?m2 p) - p)\<rparr>"
  have tag: "MEM_ISUSED m3 x = (MEM_ISUSED m x \<and> x \<noteq> p)" "MEM_POOL m3 x = (if x = p then sm_addr m else MEM_POOL m x)" for x
    using hc(2) by (auto simp: m3_def MEM_ISUSED_def MEM_POOL_def)
  have next3: "it_next (sm_item m3 x) = it_next (sm_item m x)" "it_prev (sm_item m3 x) = it_prev (sm_item m x)" for x
    by (simp_all add: m3_def)
  have flds: "sm_data m3 = sm_data m" "sm_heap_end m3 = sm_heap_end m" "sm_heap_ptr m3 = sm_heap_ptr m"
    "sm_mem_size_aligned m3 = sm_mem_size_aligned m" "sm_addr m3 = sm_addr m" "sm_obj m3 = sm_obj m"
    "sm_used m3 = sm_used m - (q - p)" "sm_max m3 = sm_max m" "sm_lfree m3 = min p (sm_lfree m)"
    using nx(1) by (auto simp: m3_def)
  have "chain_ok m3 ps"
    by (rule chain_retag [OF I(4) next3 flds(2,5)])
      (use chain_okD(6,9) [OF I(4)] p(3) tag in auto)
  moreover have "lfree_ok m3 ps"
    using I(5) p(1,2) unfolding lfree_ok_def flds tag by (auto simp: min_def)
  moreover have "sm_used m3 = sum_list (map (block_size m3) ps)"
  proof -
    have "block_size m3 x = (if x = p then 0 else block_size m x)" for x
      unfolding block_size_def tag next3 by simp
    moreover have "p \<notin> set as" "p \<notin> set (q # bs)" using c(2-4) by fastforce+
    ultimately have "map (block_size m3) as = map (block_size m) as"
      "map (block_size m3) (q # bs) = map (block_size m) (q # bs)" "block_size m3 p = 0" by auto
    moreover have "block_size m p = q - p" using p(2) nx by (simp add: block_size_def)
    ultimately show ?thesis using heap_baseD(4) [OF I(1)] unfolding ps flds by (simp del: map_eq_conv)
  qed
  moreover have "rooms_ok m3 ps"
    using I(6) unfolding rooms_ok_def flds tag smem_room_def next3 by blast
  moreover have "heap_const m3" using I(3) unfolding heap_const_def flds .
  ultimately have base: "heap_base m3 (as @ p # q # bs)"
    using heap_baseD(5) [OF I(1)] flds(7,8) unfolding ps heap_base_def by simp
  have co: "coalesced m3 as" "coalesced m3 (q # bs)"
  proof -
    have "x \<noteq> p" if "x \<in> set as \<union> set (q # bs)" for x using that c(2-4) by fastforce
    then have "coalesced m3 as = coalesced m as" "coalesced m3 (q # bs) = coalesced m (q # bs)"
      by (intro coalesced_cong; use tag in auto)+
    then show "coalesced m3 as" "coalesced m3 (q # bs)"
      using I(2) by (simp_all add: ps coalesced_append coalesced_Cons)
  qed
  obtain m' ps' where m': "plug_holes p m3 = Some m'" "smem_inv m' ps'" "live m' ps' = live m3 (as @ p # q # bs)"
    "\<not> MEM_ISUSED m' p" "sm_data m' = sm_data m3" "sm_heap_end m' = sm_heap_end m3"
    "sm_heap_ptr m' = sm_heap_ptr m3" "sm_mem_size_aligned m' = sm_mem_size_aligned m3" "sm_addr m' = sm_addr m3"
    by (rule plug_holes_ok [OF base _ co]) (use tag in blast)+
  have "live m3 ps = live m ps - {(r, n)}"
    unfolding live_def flds tag smem_room_def next3 using p by (auto simp: smem_room_def)
  moreover have "rt_smem_free (Some r) m = Some m'"
  proof -
    have "(sm_heap_ptr m + r) mod 4 = 0" using hc(3) chain_okD(8) [OF I(4) p(1)] p(4) by presburger
    moreover have "r < sm_heap_end m" using room c(5) p(4) by simp
    moreover have "MEM_POOL m p = sm_addr m" "MEM_POOL m q = sm_addr m"
      using chain_okD(9) [OF I(4)] by (simp_all add: ps)
    ultimately show ?thesis
      using p(2,4) nx(1) hc(1) m'(1) by (simp add: rt_smem_free_def m3_def)
  qed
  ultimately show thesis using that [of m' ps'] m' flds p(4) unfolding ps by simp
qed


section \<open>Searching\<close>

text \<open>Both loops follow the chain to its end.\<close>

lemma find_ok:
  assumes "chain_ok m (as @ x # cs)" and const: "heap_const m" and n: "n \<le> sm_mem_size_aligned m" "0 < n"
  shows "smem_find m n x = Some (find (\<lambda>p. \<not> MEM_ISUSED m p \<and> n \<le> smem_room m p) (x # cs))"
  using assms(1)
proof (induction cs arbitrary: as x)
  case Nil
  then have "x = sm_heap_end m" using chain_okD(3) [OF Nil] by simp
  then have "\<not> x \<le> sm_mem_size_aligned m - n" "MEM_ISUSED m x"
    using heap_constD(5) [OF const] chain_okD(6) [OF Nil] by simp_all
  then show ?case by (simp add: smem_find.simps [of m n x])
next
  case (Cons q bs)
  note c = chain_split [OF Cons.prems]
  have IH: "smem_find m n q = Some (find (\<lambda>p. \<not> MEM_ISUSED m p \<and> n \<le> smem_room m p) (q # bs))"
    by (rule Cons.IH [of "as @ [x]"]) (use Cons.prems in simp)
  have nx: "it_next (sm_item m x) = q" using c(1) by (simp add: linked_def)
  show ?case
  proof (cases "x \<le> sm_mem_size_aligned m - n")
    case True
    then show ?thesis using IH nx by (simp add: smem_find.simps [of m n x])
  next
    case False
    text \<open>Behind the last offset that is tried, no block has room.\<close>
    have late: "smem_room m y < n \<or> MEM_ISUSED m y" if y: "y \<in> set (x # q # bs)" for y
    proof (cases "y = sm_heap_end m")
      case True
      then show ?thesis using chain_okD(6) [OF Cons.prems] by simp
    next
      case ne: False
      have "y \<in> set (as @ x # q # bs)" using y by auto
      then obtain as' q' bs' where ps: "as @ x # q # bs = as' @ y # q' # bs'"
        using chain_block [OF Cons.prems _ ne] by blast
      note c' = chain_split [OF Cons.prems [unfolded ps]]
      have "x \<le> y" using y c(3,4) by (fastforce simp: less_imp_le)
      moreover have "it_next (sm_item m y) \<le> sm_heap_end m" using c'(1,5) by (simp add: linked_def)
      ultimately have "smem_room m y < n"
        using False n heap_constD(5) [OF const] unfolding smem_room_def by linarith
      then show ?thesis ..
    qed
    then have "find (\<lambda>p. \<not> MEM_ISUSED m p \<and> n \<le> smem_room m p) (x # q # bs) = None"
      unfolding find_None_iff using linorder_not_less by blast
    then show ?thesis using False by (simp add: smem_find.simps [of m n x])
  qed
qed

text \<open>The blocks before the lowest free one do not matter.\<close>

lemma find_lfree:
  assumes inv: "smem_inv m ps" and n: "n \<le> sm_mem_size_aligned m" "0 < n"
  shows "smem_find m n (sm_lfree m) = Some (find (\<lambda>p. \<not> MEM_ISUSED m p \<and> n \<le> smem_room m p) ps)"
proof -
  note I = smem_invD [OF inv]
  obtain as cs where ps: "ps = as @ sm_lfree m # cs"
    using I(5) by (auto simp: lfree_ok_def in_set_conv_decomp)
  have "sorted_wrt (<) ps" by (rule chain_sorted [OF chain_okD(7) [OF I(4)]])
  then have "x < sm_lfree m" if "x \<in> set as" for x using that ps by (auto simp: sorted_wrt_append)
  then have "\<forall>x \<in> set as. MEM_ISUSED m x" using I(5) ps by (fastforce simp: lfree_ok_def)
  then have "find (\<lambda>p. \<not> MEM_ISUSED m p \<and> n \<le> smem_room m p) as = None"
    by (simp add: find_None_iff)
  moreover have "find P (as @ bs) = find P bs" if "find P as = None" for P bs
    using that by (induction as) (auto split: if_splits)
  ultimately have "find (\<lambda>p. \<not> MEM_ISUSED m p \<and> n \<le> smem_room m p) ps
      = find (\<lambda>p. \<not> MEM_ISUSED m p \<and> n \<le> smem_room m p) (sm_lfree m # cs)" by (simp only: ps)
  moreover have "chain_ok m (as @ sm_lfree m # cs)" using I(4) by (simp only: ps)
  ultimately show ?thesis using find_ok [OF _ I(3) n, of as "sm_lfree m" cs] by (simp only:)
qed

lemma next_free_ok:
  assumes "chain_ok m (as @ x # cs)"
  obtains y where "smem_next_free m x = Some y" "y \<in> set (x # cs)" "MEM_ISUSED m y \<longrightarrow> y = sm_heap_end m"
    "\<And>z. z \<in> set (x # cs) \<Longrightarrow> \<not> MEM_ISUSED m z \<Longrightarrow> y \<le> z"
  using assms
proof (induction cs arbitrary: as x thesis)
  case Nil
  then have "x = sm_heap_end m" using chain_okD(3) [OF Nil.prems(2)] by simp
  then have "smem_next_free m x = Some x" by (subst smem_next_free.simps) simp
  then show ?case using Nil.prems(1) [of x] \<open>x = sm_heap_end m\<close> by simp
next
  case (Cons q bs)
  note c = chain_split [OF Cons.prems(2)]
  have nx: "it_next (sm_item m x) = q" using c(1) by (simp add: linked_def)
  show ?case
  proof (cases "MEM_ISUSED m x")
    case False
    show ?thesis
    proof (rule Cons.prems(1) [of x])
      show "smem_next_free m x = Some x" using False by (simp add: smem_next_free.simps [of m x])
      show "x \<le> z" if "z \<in> set (x # q # bs)" for z using that c(3,4) by (fastforce simp: less_imp_le)
    qed (use False in simp_all)
  next
    case True
    have "chain_ok m ((as @ [x]) @ q # bs)" using Cons.prems(2) by simp
    then obtain y where y: "smem_next_free m q = Some y" "y \<in> set (q # bs)"
      "MEM_ISUSED m y \<longrightarrow> y = sm_heap_end m" "\<And>z. z \<in> set (q # bs) \<Longrightarrow> \<not> MEM_ISUSED m z \<Longrightarrow> y \<le> z"
      using Cons.IH [where as = "as @ [x]" and x = q] by blast
    show ?thesis
      by (rule Cons.prems(1) [of y]) (use y True nx c(6) in \<open>auto simp: smem_next_free.simps [of m x]\<close>)
  qed
qed


section \<open>Splitting a block\<close>

lemma split_simps [simp]:
  "sm_obj (smem_split p n m) = sm_obj m" "sm_addr (smem_split p n m) = sm_addr m"
  "sm_heap_ptr (smem_split p n m) = sm_heap_ptr m" "sm_data (smem_split p n m) = sm_data m"
  "sm_heap_end (smem_split p n m) = sm_heap_end m" "sm_lfree (smem_split p n m) = sm_lfree m"
  "sm_mem_size_aligned (smem_split p n m) = sm_mem_size_aligned m" "sm_used (smem_split p n m) = sm_used m"
  "sm_max (smem_split p n m) = sm_max m"
  by (simp_all add: smem_split_def Let_def)

lemma split_ok:
  assumes ok: "chain_ok m (as @ p # q # bs)" and const: "heap_const m"
    and n: "n mod 4 = 0" "p + 16 + n + 16 \<le> q"
  shows "chain_ok (smem_split p n m) (as @ p # (p + 16 + n) # q # bs)"
    "\<not> MEM_ISUSED (smem_split p n m) (p + 16 + n)"
    "\<And>x. x \<in> set (as @ p # q # bs) \<Longrightarrow> MEM_ISUSED (smem_split p n m) x = MEM_ISUSED m x"
    "\<And>x. x \<in> set (as @ q # bs) \<Longrightarrow> it_next (sm_item (smem_split p n m) x) = it_next (sm_item m x)"
    "it_next (sm_item (smem_split p n m) p) = p + 16 + n" "it_next (sm_item (smem_split p n m) (p + 16 + n)) = q"
proof -
  let ?m' = "smem_split p n m" and ?p2 = "p + 16 + n"
  note c = chain_split [OF ok] and hc = heap_constD [OF const]
  have nx: "it_next (sm_item m p) = q" using c(1) by (simp add: linked_def)
  have lt: "p < ?p2" "?p2 < q" using n(2) by simp_all
  have item: "sm_item ?m' = (let f = (sm_item m)(?p2 := \<lparr>it_pool = MEM_FREED m, it_next = q, it_prev = p\<rparr>,
      p := sm_item m p\<lparr>it_next := ?p2\<rparr>)
      in if q \<noteq> sm_heap_end m then f(q := sm_item m q\<lparr>it_prev := ?p2\<rparr>) else f)"
    using nx lt by (simp add: smem_split_def Let_def hc(5) add.assoc add.left_commute)
  have same: "sm_item ?m' x = sm_item m x" if "x \<in> set as \<union> set bs" for x
  proof -
    have "x \<noteq> p \<and> x \<noteq> ?p2 \<and> x \<noteq> q" using that c(2) [of x] c(3) [of x] lt by auto
    then show ?thesis by (simp add: item Let_def)
  qed
  have p': "sm_item ?m' p = sm_item m p\<lparr>it_next := ?p2\<rparr>"
    and p2': "sm_item ?m' ?p2 = \<lparr>it_pool = MEM_FREED m, it_next = q, it_prev = p\<rparr>"
    and q': "it_next (sm_item ?m' q) = it_next (sm_item m q)" "it_pool (sm_item ?m' q) = it_pool (sm_item m q)"
      "q \<noteq> sm_heap_end m \<Longrightarrow> it_prev (sm_item ?m' q) = ?p2"
    using lt by (auto simp: item Let_def)
  show used: "MEM_ISUSED ?m' x = MEM_ISUSED m x" if "x \<in> set (as @ p # q # bs)" for x
    using that same [of x] p' q' by (auto simp: MEM_ISUSED_def)
  have pool: "MEM_POOL ?m' x = sm_addr m" if "x \<in> set (as @ p # ?p2 # q # bs)" for x
    using that same [of x] p' p2' q' chain_okD(9) [OF ok, of x] hc(2) by (auto simp: MEM_POOL_def)
  show "\<not> MEM_ISUSED ?m' ?p2" by (simp add: MEM_ISUSED_def p2')
  show next_same: "it_next (sm_item ?m' x) = it_next (sm_item m x)" if "x \<in> set (as @ q # bs)" for x
    using that same [of x] q' by auto
  show "it_next (sm_item ?m' p) = ?p2" "it_next (sm_item ?m' ?p2) = q" by (simp_all add: p' p2')
  have endq: "sm_heap_end m \<in> set (q # bs)" using chain_okD(3) [OF ok] last_in_set [of "q # bs"] by simp
  have eq: "successively (linked ?m') as = successively (linked m) as"
    "successively (linked ?m') bs = successively (linked m) bs"
    using same by (auto intro!: linked_cong)
  show "chain_ok ?m' (as @ p # ?p2 # q # bs)"
    unfolding chain_ok_def
  proof (intro conjI ballI)
    show "hd (as @ p # ?p2 # q # bs) = 0" using chain_okD(2) [OF ok] by (cases as) simp_all
    then show "it_prev (sm_item ?m' 0) = 0"
      using chain_okD(4) [OF ok] p' same [of 0] by (cases as) auto
    show "last (as @ p # ?p2 # q # bs) = sm_heap_end ?m'" using chain_okD(3) [OF ok] by simp
    show "it_next (sm_item ?m' (sm_heap_end ?m')) = sm_heap_end ?m'"
      using chain_okD(5) [OF ok] next_same [of "sm_heap_end m"] endq by auto
    show "MEM_ISUSED ?m' (sm_heap_end ?m')" using chain_okD(6) [OF ok] used [of "sm_heap_end m"] endq by auto
    have "linked ?m' a p" if "linked m a p" "a \<in> set as" for a
      using that same [of a] p' by (simp add: linked_def)
    then have "as = [] \<or> linked ?m' (last as) p" if "as = [] \<or> linked m (last as) p"
      using that last_in_set [of as] by blast
    moreover have "linked ?m' p ?p2" "linked ?m' ?p2 q" using p' p2' q' n(2) by (simp_all add: linked_def)
    moreover have "linked ?m' q d" if "linked m q d" "d \<in> set bs" for d
      using that same [of d] q' by (simp add: linked_def)
    then have "bs = [] \<or> linked ?m' q (hd bs)" if "bs = [] \<or> linked m q (hd bs)"
      using that hd_in_set [of bs] by blast
    ultimately show "successively (linked ?m') (as @ p # ?p2 # q # bs)"
      using chain_okD(7) [OF ok]
      by (auto simp: successively_append_iff successively_Cons eq)
    have "?p2 mod 4 = 0" using n(1) chain_okD(8) [OF ok, of p] by (simp add: mod_add_eq) presburger
    then show "x mod 4 = 0" if "x \<in> set (as @ p # ?p2 # q # bs)" for x
      using that chain_okD(8) [OF ok, of x] by auto
  qed (use pool in simp_all)
qed


section \<open>Allocation\<close>

lemma account_simps [simp]:
  "sm_obj (smem_account k m) = sm_obj m" "sm_addr (smem_account k m) = sm_addr m"
  "sm_heap_ptr (smem_account k m) = sm_heap_ptr m" "sm_data (smem_account k m) = sm_data m"
  "sm_heap_end (smem_account k m) = sm_heap_end m" "sm_lfree (smem_account k m) = sm_lfree m"
  "sm_mem_size_aligned (smem_account k m) = sm_mem_size_aligned m" "sm_item (smem_account k m) = sm_item m"
  "sm_used (smem_account k m) = sm_used m + k" "sm_used m + k \<le> sm_max (smem_account k m)"
  by (simp_all add: smem_account_def Let_def)

lemma account_item [simp]:
  "MEM_ISUSED (smem_account k m) x = MEM_ISUSED m x" "chain_ok (smem_account k m) ps = chain_ok m ps"
  "block_size (smem_account k m) = block_size m" "coalesced (smem_account k m) = coalesced m"
  by (simp_all add: MEM_ISUSED_def chain_ok_def linked_def [abs_def] MEM_POOL_def block_size_def [abs_def]
      coalesced_def [abs_def] cong: if_cong)

lemma lfree_update [simp]:
  "MEM_ISUSED (m\<lparr>sm_lfree := y\<rparr>) x = MEM_ISUSED m x" "chain_ok (m\<lparr>sm_lfree := y\<rparr>) ps = chain_ok m ps"
  "block_size (m\<lparr>sm_lfree := y\<rparr>) = block_size m" "coalesced (m\<lparr>sm_lfree := y\<rparr>) = coalesced m"
  "rooms_ok (m\<lparr>sm_lfree := y\<rparr>) ps = rooms_ok m ps" "heap_const (m\<lparr>sm_lfree := y\<rparr>) = heap_const m"
  "live (m\<lparr>sm_lfree := y\<rparr>) ps = live m ps"
  by (simp_all add: MEM_ISUSED_def chain_ok_def linked_def [abs_def] MEM_POOL_def block_size_def [abs_def]
      coalesced_def [abs_def] rooms_ok_def smem_room_def heap_const_def live_def cong: if_cong)

text \<open>The first part of taking a block: cut off what is not needed, and count the rest as used.\<close>

definition smem_cut :: "nat \<Rightarrow> nat \<Rightarrow> rt_small_mem \<Rightarrow> rt_small_mem" where
  "smem_cut p n m =
     (if smem_room m p \<ge> n + SIZEOF_STRUCT_MEM + MIN_SIZE_ALIGNED
      then smem_account (n + SIZEOF_STRUCT_MEM) (smem_split p n m)
      else smem_account (it_next (sm_item m p) - p) m)"

lemma cut_ok:
  assumes inv: "smem_inv m (as @ p # q # bs)" and free: "\<not> MEM_ISUSED m p"
    and n: "n \<le> smem_room m p" "n mod 4 = 0"
  obtains qs len where "chain_ok (smem_cut p n m) (as @ p # qs)" "qs \<noteq> []" "n \<le> len" "len < n + 28"
    "it_next (sm_item (smem_cut p n m) p) = p + 16 + len" "set (q # bs) \<subseteq> set qs" "\<And>x. x \<in> set qs \<Longrightarrow> p < x"
    "\<And>x. x \<in> set qs \<Longrightarrow> MEM_ISUSED (smem_cut p n m) x = (MEM_ISUSED m x \<and> x \<in> set (q # bs))"
    "\<And>x. x \<in> set as \<Longrightarrow> MEM_ISUSED (smem_cut p n m) x = MEM_ISUSED m x"
    "\<And>x. x \<in> set (as @ q # bs) \<Longrightarrow> it_next (sm_item (smem_cut p n m) x) = it_next (sm_item m x)"
    "coalesced (smem_cut p n m) qs" "sm_used (smem_cut p n m) = sm_used m + (16 + len)"
    "sum_list (map (block_size (smem_cut p n m)) qs) = sum_list (map (block_size m) (q # bs))"
proof -
  note I = smem_invD [OF inv]
  note c = chain_split [OF I(4)]
  have nx: "it_next (sm_item m p) = q" "p + 16 \<le> q" using c(1) by (simp_all add: linked_def)
  have room: "smem_room m p = q - (p + 16)" by (simp add: smem_room_def nx)
  have co: "coalesced m (q # bs)" "MEM_ISUSED m q"
    using I(2) free by (auto simp: coalesced_append coalesced_Cons)
  have gt: "p < x" if "x \<in> set (q # bs)" for x using that c(3) [of x] c(4) by auto
  show thesis
  proof (cases "smem_room m p \<ge> n + 16 + 12")
    case True
    let ?m' = "smem_split p n m" and ?p2 = "p + 16 + n"
    have cut: "smem_cut p n m = smem_account (n + 16) ?m'" using True by (simp add: smem_cut_def)
    have le: "p + 16 + n + 16 \<le> q" using True nx(2) unfolding room by linarith
    note sp = split_ok [OF I(4,3) n(2) le]
    have new: "?p2 \<notin> set (as @ p # q # bs)" using c(2,3) le by fastforce
    show thesis
    proof (rule that [of "?p2 # q # bs" n])
      show "chain_ok (smem_cut p n m) (as @ p # ?p2 # q # bs)" using sp(1) by (simp add: cut)
      show "p < x" if "x \<in> set (?p2 # q # bs)" for x using that gt [of x] by auto
      show "MEM_ISUSED (smem_cut p n m) x = (MEM_ISUSED m x \<and> x \<in> set (q # bs))" if "x \<in> set (?p2 # q # bs)" for x
        using that sp(2) sp(3) [of x] new by (auto simp: cut)
      have eq: "coalesced ?m' (q # bs) = coalesced m (q # bs)" by (rule coalesced_cong) (use sp(3) in auto)
      have "MEM_ISUSED ?m' q" using co(2) sp(3) [of q] by simp
      then show "coalesced (smem_cut p n m) (?p2 # q # bs)"
        using eq co(1) by (simp add: cut coalesced_Cons [of _ ?p2])
      have "block_size ?m' x = block_size m x" if "x \<in> set (q # bs)" for x
        using that sp(3) [of x] sp(4) [of x] by (auto simp: block_size_def)
      then have "map (block_size ?m') (q # bs) = map (block_size m) (q # bs)" by (rule map_cong [OF refl])
      moreover have "block_size ?m' ?p2 = 0" using sp(2) by (simp add: block_size_def)
      ultimately show "sum_list (map (block_size (smem_cut p n m)) (?p2 # q # bs)) = sum_list (map (block_size m) (q # bs))"
        by (simp add: cut del: map_eq_conv)
    qed (use sp(3-5) in \<open>auto simp: cut\<close>)
  next
    case False
    have cut: "smem_cut p n m = smem_account (q - p) m" using False nx(1) by (simp add: smem_cut_def)
    show thesis
      by (rule that [of "q # bs" "smem_room m p"])
        (use I(4) n(1) False gt co nx room in \<open>auto simp: cut\<close>)
  qed
qed

lemma take_ok:
  assumes inv: "smem_inv m (as @ p # q # bs)" and free: "\<not> MEM_ISUSED m p"
    and n: "n \<le> smem_room m p" "n mod 4 = 0" "0 < n"
  obtains m' ps' len where "smem_take p n m = Some (p + 16, m')" "smem_inv m' ps'"
    "live m' ps' = insert (p + 16, len) (live m (as @ p # q # bs))" "n \<le> len" "len < n + 28"
    "sm_data m' = sm_data m" "sm_heap_end m' = sm_heap_end m" "sm_heap_ptr m' = sm_heap_ptr m"
    "sm_mem_size_aligned m' = sm_mem_size_aligned m" "sm_addr m' = sm_addr m"
proof -
  note I = smem_invD [OF inv] and hc = heap_constD [OF smem_invD(3) [OF inv]]
  define m1 where "m1 = smem_cut p n m"
  obtain qs len where q: "chain_ok m1 (as @ p # qs)" "qs \<noteq> []" "n \<le> len" "len < n + 28"
    "it_next (sm_item m1 p) = p + 16 + len" "set (q # bs) \<subseteq> set qs" "\<And>x. x \<in> set qs \<Longrightarrow> p < x"
    "\<And>x. x \<in> set qs \<Longrightarrow> MEM_ISUSED m1 x = (MEM_ISUSED m x \<and> x \<in> set (q # bs))"
    "\<And>x. x \<in> set as \<Longrightarrow> MEM_ISUSED m1 x = MEM_ISUSED m x"
    "\<And>x. x \<in> set (as @ q # bs) \<Longrightarrow> it_next (sm_item m1 x) = it_next (sm_item m x)"
    "coalesced m1 qs" "sm_used m1 = sm_used m + (16 + len)"
    "sum_list (map (block_size m1) qs) = sum_list (map (block_size m) (q # bs))"
    unfolding m1_def by (rule cut_ok [OF inv free n(1,2)]) blast
  have m1f: "sm_obj m1 = sm_obj m" "sm_addr m1 = sm_addr m" "sm_heap_ptr m1 = sm_heap_ptr m" "sm_data m1 = sm_data m"
    "sm_heap_end m1 = sm_heap_end m" "sm_lfree m1 = sm_lfree m" "sm_mem_size_aligned m1 = sm_mem_size_aligned m"
    "sm_used m1 \<le> sm_max m1"
    using account_simps(10) [of "smem_split p n m"] by (auto simp: m1_def smem_cut_def)
  define m2 where "m2 = upd_item p (\<lambda>it. it\<lparr>it_pool := MEM_USED m1\<rparr>) m1"
  let ?ps = "as @ p # qs"
  note c = chain_split [OF I(4)]
  have pa: "x < p" if "x \<in> set as" for x using c(2) that by blast
  have pne: "p \<noteq> sm_heap_end m" by (rule c(6))
  have out: "p \<notin> set as" "p \<notin> set qs" using pa q(7) by (meson less_irrefl)+
  have tag: "MEM_ISUSED m2 x = (MEM_ISUSED m1 x \<or> x = p)" "MEM_POOL m2 x = (if x = p then sm_addr m else MEM_POOL m1 x)" for x
    using hc(2) by (auto simp: m2_def MEM_ISUSED_def MEM_POOL_def m1f)
  have next2: "it_next (sm_item m2 x) = it_next (sm_item m1 x)" "it_prev (sm_item m2 x) = it_prev (sm_item m1 x)" for x
    by (simp_all add: m2_def)
  have m2f: "sm_obj m2 = sm_obj m" "sm_addr m2 = sm_addr m" "sm_heap_ptr m2 = sm_heap_ptr m" "sm_data m2 = sm_data m"
    "sm_heap_end m2 = sm_heap_end m" "sm_lfree m2 = sm_lfree m" "sm_mem_size_aligned m2 = sm_mem_size_aligned m"
    "sm_used m2 = sm_used m + (16 + len)" "sm_used m2 \<le> sm_max m2"
    using m1f q(12) by (simp_all add: m2_def)
  have chain2: "chain_ok m2 ?ps"
    by (rule chain_retag [OF q(1) next2]) (use tag m1f m2f chain_okD(6,9) [OF q(1)] in auto)
  have const2: "heap_const m2" using I(3) unfolding heap_const_def m2f .
  have rooms2: "rooms_ok m2 ?ps"
    using I(6) q(3,5,6,8,9,10) n(3) unfolding rooms_ok_def m2f tag smem_room_def next2
    by (auto simp: smem_room_def)
  have sum2: "sm_used m2 = sum_list (map (block_size m2) ?ps)"
  proof -
    have "block_size m2 x = block_size m1 x" if "x \<noteq> p" for x
      using that unfolding block_size_def tag next2 by simp
    then have "map (block_size m2) as = map (block_size m1) as" "map (block_size m2) qs = map (block_size m1) qs"
      by (intro map_cong [OF refl]; use pa q(7) in \<open>metis less_irrefl\<close>)+
    moreover have "map (block_size m1) as = map (block_size m) as"
      using q(9,10) by (auto simp: block_size_def)
    moreover have "block_size m2 p = 16 + len" "block_size m p = 0"
      using q(5) free unfolding block_size_def tag next2 by simp_all
    ultimately show ?thesis
      using heap_baseD(4) [OF I(1)] q(13) m2f(8) by (simp del: map_eq_conv)
  qed
  have co2: "coalesced m2 ?ps"
  proof -
    have "coalesced m2 as = coalesced m as" "coalesced m2 qs = coalesced m1 qs"
      using out q(9) by (auto intro!: coalesced_cong simp: tag)
    then show ?thesis
      using I(2) q(11) tag(1) [of p] by (simp add: coalesced_append coalesced_Cons)
  qed
  have live2: "live m2 ?ps = insert (p + 16, len) (live m (as @ p # q # bs))"
  proof -
    have "{x \<in> set ?ps. MEM_ISUSED m2 x \<and> x \<noteq> sm_heap_end m2}
        = insert p {x \<in> set (as @ p # q # bs). MEM_ISUSED m x \<and> x \<noteq> sm_heap_end m}"
      using q(6,8,9) pne free unfolding tag m2f by auto
    moreover have "smem_room m2 x = smem_room m x" if "x \<in> {x \<in> set (as @ p # q # bs). MEM_ISUSED m x \<and> x \<noteq> sm_heap_end m}" for x
      using that q(10) [of x] free unfolding smem_room_def next2 by auto
    moreover have "smem_room m2 p = len" unfolding smem_room_def next2 q(5) by simp
    ultimately show ?thesis unfolding live_def by (auto intro!: image_eqI)
  qed
  obtain y where y: "(if p = sm_lfree m2
             then do {
               lfree \<leftarrow> smem_next_free m2 (sm_lfree m2);
               RT_ASSERT (lfree = sm_heap_end m2 \<or> \<not> MEM_ISUSED m2 lfree);
               Some (m2\<lparr>sm_lfree := lfree\<rparr>)
             } else Some m2) = Some (m2\<lparr>sm_lfree := y\<rparr>)"
    "lfree_ok (m2\<lparr>sm_lfree := y\<rparr>) ?ps"
  proof (cases "p = sm_lfree m2")
    case True
    obtain y where y: "smem_next_free m2 p = Some y" "y \<in> set (p # qs)" "MEM_ISUSED m2 y \<longrightarrow> y = sm_heap_end m2"
      "\<And>z. z \<in> set (p # qs) \<Longrightarrow> \<not> MEM_ISUSED m2 z \<Longrightarrow> y \<le> z"
      by (rule next_free_ok [OF chain2]) blast
    have "MEM_ISUSED m x" if "x \<in> set as" for x
      using that I(5) pa [OF that] True by (fastforce simp: lfree_ok_def m2f)
    then have "MEM_ISUSED m2 x" if "x \<in> set as" for x using that q(9) by (simp add: tag)
    then have "lfree_ok (m2\<lparr>sm_lfree := y\<rparr>) ?ps"
      using y(2-4) by (auto simp: lfree_ok_def)
    then show thesis using that [of y] True y(1,3) by auto
  next
    case False
    have l: "sm_lfree m \<in> set (as @ p # q # bs)" "sm_lfree m \<le> p" "MEM_ISUSED m (sm_lfree m) \<longrightarrow> sm_lfree m = sm_heap_end m"
      "\<And>x. x \<in> set (as @ p # q # bs) \<Longrightarrow> \<not> MEM_ISUSED m x \<Longrightarrow> sm_lfree m \<le> x"
      using I(5) free by (auto simp: lfree_ok_def)
    have las: "sm_lfree m \<in> set as" using l(1,2) False c(3,4) by (fastforce simp: m2f)
    have "lfree_ok m2 ?ps"
      unfolding lfree_ok_def m2f
    proof (intro conjI ballI impI)
      show "sm_lfree m = sm_heap_end m" if "MEM_ISUSED m2 (sm_lfree m)"
        using that l(3) q(9) [OF las] pa [OF las] by (simp add: tag)
      show "sm_lfree m \<le> x" if "x \<in> set ?ps" "\<not> MEM_ISUSED m2 x" for x
        using that l(2) l(4) [of x] q(7) [of x] q(9) [of x] by (auto simp: tag)
    qed (use las in simp)
    then show thesis using that [of "sm_lfree m2"] False by simp
  qed
  let ?m3 = "m2\<lparr>sm_lfree := y\<rparr>"
  have inv3: "smem_inv ?m3 ?ps"
    using y(2) chain2 const2 rooms2 sum2 co2 m2f(9) by (simp add: smem_inv_def heap_base_def)
  have "smem_take p n m = Some (p + 16, ?m3)"
  proof -
    have "p + 16 + len \<le> sm_heap_end m"
      using q(5) chain_le_end [OF q(1)] chain_split(1,5) [of m1 as p "hd qs" "tl qs"] q(1,2) m1f(5)
      by (cases qs) (auto simp: linked_def)
    moreover have "(sm_heap_ptr m + p) mod 4 = 0"
      using hc(3) chain_okD(8) [OF I(4), of p] by (simp add: mod_add_eq [symmetric])
    moreover from this have "(sm_heap_ptr m + p + 16) mod 4 = 0" by presburger
    ultimately show ?thesis
      using y(1) q(3) hc(3)
      unfolding smem_take_def m2_def [symmetric] smem_cut_def [symmetric] m1_def [symmetric] Let_def
      by (simp add: m2f)
  qed
  then show thesis using that [of ?m3 ?ps len] inv3 live2 q(3,4) m2f by simp
qed

section \<open>Alignment\<close>

lemma low_bits_cleared:
  fixes v :: rt_uint32_t
  shows "unat (v AND NOT 3) = unat v div 4 * 4"
proof -
  have "(v AND 3) OR (v AND NOT 3) = v"
    by (simp only: bit.conj_disj_distrib [symmetric] bit.disj_cancel_right) simp
  moreover have "(v AND 3) AND (v AND NOT 3) = 0" by (rule bit_word_eqI) (auto simp: bit_simps)
  ultimately have s: "v = (v AND 3) + (v AND NOT 3)" by (metis disjunctive_add_eq_or)
  have t: "v AND 3 = take_bit 2 v" by (simp add: take_bit_eq_mask mask_eq_exp_minus_1)
  have u: "unat (v AND 3) = unat v mod 4" unfolding t unsigned_take_bit_eq by (simp add: take_bit_eq_mod)
  have "v AND NOT 3 = v - (v AND 3)" using s by (metis add_diff_cancel_left')
  moreover have "v AND 3 \<le> v" using u by (simp add: word_le_nat_alt)
  ultimately have "unat (v AND NOT 3) = unat v - unat v mod 4" using u by (simp add: unat_sub)
  then show ?thesis by (simp add: minus_mod_eq_div_mult)
qed

lemma RT_ALIGN_4:
  "unat (RT_ALIGN w 4) = (if unat w \<le> 2 ^ 32 - 4 then (unat w + 3) div 4 * 4 else 0)"
proof -
  have "w + 4 - 1 = w + 3" "4 - 1 = (3 :: rt_uint32_t)" by simp_all
  then have "RT_ALIGN w 4 = (w + 3) AND NOT 3" by (simp only: RT_ALIGN_def)
  then have e: "unat (RT_ALIGN w 4) = unat (w + 3) div 4 * 4" by (simp only: low_bits_cleared)
  show ?thesis
  proof (cases "unat w \<le> 2 ^ 32 - 4")
    case True
    then have "unat (w + 3) = unat w + 3" by (simp add: unat_word_ariths)
    then show ?thesis using True e by simp
  next
    case False
    have "unat w < 2 ^ 32" using unsigned_less [of w] by simp
    then have "unat w = 2 ^ 32 - 3 \<or> unat w = 2 ^ 32 - 2 \<or> unat w = 2 ^ 32 - 1" using False by simp arith
    then have "unat (w + 3) < 3" by (auto simp: unat_word_ariths)
    then show ?thesis using False e by simp
  qed
qed

lemma request_ok:
  "smem_request sz mod 4 = 0" "12 \<le> smem_request sz"
  "unat sz \<le> 2 ^ 32 - 4 \<Longrightarrow> unat sz \<le> smem_request sz"
  "\<not> unat sz \<le> 2 ^ 32 - 4 \<Longrightarrow> smem_request sz = 12"
  by (simp_all add: smem_request_def Let_def RT_ALIGN_4) arith?


section \<open>Allocation and reallocation\<close>

lemma alloc_ok:
  assumes inv: "smem_inv m ps" and sz: "sz \<noteq> 0"
  shows "(\<exists>m' ps' r len. rt_smem_alloc sz m = Some (Some r, m') \<and> smem_inv m' ps'
            \<and> live m' ps' = insert (r, len) (live m ps) \<and> smem_request sz \<le> len \<and> len < smem_request sz + 28
            \<and> (\<forall>n. (r, n) \<notin> live m ps)
            \<and> sm_data m' = sm_data m \<and> sm_heap_end m' = sm_heap_end m \<and> sm_heap_ptr m' = sm_heap_ptr m
            \<and> sm_mem_size_aligned m' = sm_mem_size_aligned m \<and> sm_addr m' = sm_addr m)
     \<or> (rt_smem_alloc sz m = Some (None, m)
          \<and> (\<forall>p \<in> set ps. \<not> MEM_ISUSED m p \<longrightarrow> smem_room m p < smem_request sz))"
proof -
  note I = smem_invD [OF inv] and hc = heap_constD [OF smem_invD(3) [OF inv]]
  let ?n = "smem_request sz"
  note rq = request_ok(1,2) [of sz]
  show ?thesis
  proof (cases "?n > sm_mem_size_aligned m")
    case True
    have "smem_room m p < ?n" if p: "p \<in> set ps" "\<not> MEM_ISUSED m p" for p
    proof -
      have "p \<noteq> sm_heap_end m" using p(2) chain_okD(6) [OF I(4)] by auto
      then obtain as q bs where ps: "ps = as @ p # q # bs" using chain_block [OF I(4) p(1)] by blast
      note c = chain_split [OF I(4) [unfolded ps]]
      have "it_next (sm_item m p) \<le> sm_mem_size_aligned m + 16" using c(1,5) hc(5) by (simp add: linked_def)
      then show ?thesis using True unfolding smem_room_def by linarith
    qed
    then show ?thesis using True sz hc(1) by (simp add: rt_smem_alloc_def Let_def)
  next
    case False
    let ?P = "\<lambda>p. \<not> MEM_ISUSED m p \<and> ?n \<le> smem_room m p"
    have found: "smem_find m ?n (sm_lfree m) = Some (find ?P ps)"
      by (rule find_lfree [OF inv]) (use False rq in simp_all)
    show ?thesis
    proof (cases "find ?P ps")
      case None
      then have "rt_smem_alloc sz m = Some (None, m)"
        using found False sz hc(1) by (simp add: rt_smem_alloc_def Let_def)
      moreover have "smem_room m p < ?n" if "p \<in> set ps" "\<not> MEM_ISUSED m p" for p
        using None [unfolded find_None_iff] that by (meson linorder_not_less)
      ultimately show ?thesis by blast
    next
      case (Some p)
      then have p: "p \<in> set ps" "\<not> MEM_ISUSED m p" "?n \<le> smem_room m p" by (auto simp: find_Some_iff)
      have "p \<noteq> sm_heap_end m" using p(2) chain_okD(6) [OF I(4)] by auto
      then obtain as q bs where ps: "ps = as @ p # q # bs" using chain_block [OF I(4) p(1)] by blast
      obtain m' ps' len where m': "smem_take p ?n m = Some (p + 16, m')" "smem_inv m' ps'"
        "live m' ps' = insert (p + 16, len) (live m (as @ p # q # bs))" "?n \<le> len" "len < ?n + 28"
        "sm_data m' = sm_data m" "sm_heap_end m' = sm_heap_end m" "sm_heap_ptr m' = sm_heap_ptr m"
        "sm_mem_size_aligned m' = sm_mem_size_aligned m" "sm_addr m' = sm_addr m"
        by (rule take_ok [OF inv [unfolded ps] p(2,3) rq(1)]) (use rq(2) in auto)
      have "rt_smem_alloc sz m = Some (Some (p + 16), m')"
        using found Some False sz hc(1) m'(1) by (simp add: rt_smem_alloc_def Let_def)
      moreover have "\<forall>n. (p + 16, n) \<notin> live m ps" using p(2) by (auto simp: live_def)
      ultimately show ?thesis using m' unfolding ps by blast
    qed
  qed
qed

text \<open>Copying user bytes does not concern the headers.\<close>

lemma memcpy_update [simp]:
  "smem_inv (m\<lparr>sm_data := d\<rparr>) ps = smem_inv m ps" "live (m\<lparr>sm_data := d\<rparr>) ps = live m ps"
proof -
  have i: "MEM_ISUSED (m\<lparr>sm_data := d\<rparr>) = MEM_ISUSED m" "MEM_POOL (m\<lparr>sm_data := d\<rparr>) = MEM_POOL m"
    "linked (m\<lparr>sm_data := d\<rparr>) = linked m" "smem_room (m\<lparr>sm_data := d\<rparr>) = smem_room m"
    by (simp_all add: fun_eq_iff MEM_ISUSED_def MEM_POOL_def linked_def smem_room_def)
  then have "block_size (m\<lparr>sm_data := d\<rparr>) = block_size m" by (simp add: fun_eq_iff block_size_def)
  then show "smem_inv (m\<lparr>sm_data := d\<rparr>) ps = smem_inv m ps" "live (m\<lparr>sm_data := d\<rparr>) ps = live m ps"
    using i by (simp_all add: smem_inv_def heap_base_def heap_const_def chain_ok_def lfree_ok_def rooms_ok_def
        coalesced_def live_def)
qed

lemma memcpy_eq:
  "smem_memcpy dst src n m =
     m\<lparr>sm_data := (\<lambda>a. if dst \<le> a \<and> a < dst + n then sm_data m (src + (a - dst)) else sm_data m a)\<rparr>"
  by (simp add: smem_memcpy_def)

lemma live_room:
  assumes "smem_inv m ps" "(r, n) \<in> live m ps"
  shows "16 \<le> r" "smem_room m (r - 16) = n" "r < sm_heap_end m" "(sm_heap_ptr m + r) mod 4 = 0"
    "r + n \<le> sm_heap_end m"
proof -
  note I = smem_invD [OF assms(1)] and hc = heap_constD [OF smem_invD(3) [OF assms(1)]]
  obtain p where p: "p \<in> set ps" "MEM_ISUSED m p" "p \<noteq> sm_heap_end m" "r = p + 16" "n = smem_room m p"
    using assms(2) by (auto simp: live_def)
  obtain as q bs where ps: "ps = as @ p # q # bs" using chain_block [OF I(4) p(1,3)] by blast
  note c = chain_split [OF I(4) [unfolded ps]]
  have q: "p + 16 + n = q" "0 < n"
    using c(1) p(5) I(6) p(1-3) by (auto simp: linked_def smem_room_def rooms_ok_def)
  show "16 \<le> r" "smem_room m (r - 16) = n" using p by simp_all
  show "r < sm_heap_end m" "r + n \<le> sm_heap_end m" using q c(5) p(4) by simp_all
  show "(sm_heap_ptr m + r) mod 4 = 0"
    using hc(3) chain_okD(8) [OF I(4) p(1)] p(4) by presburger
qed

text \<open>Shrinking in place.\<close>

lemma shrink_ok:
  assumes inv: "smem_inv m ps" and r: "(r, n) \<in> live m ps"
    and k: "k mod 4 = 0" "0 < k" "k + 28 < n"
  obtains m4 ps' where
    "plug_holes (r + k) (let m2 = smem_split (r - 16) k (m\<lparr>sm_used := sm_used m - (n - k)\<rparr>)
        in if r + k < sm_lfree m2 then m2\<lparr>sm_lfree := r + k\<rparr> else m2) = Some m4"
    "smem_inv m4 ps'" "live m4 ps' = insert (r, k) (live m ps - {(r, n)})" "sm_data m4 = sm_data m"
    "sm_heap_end m4 = sm_heap_end m" "sm_heap_ptr m4 = sm_heap_ptr m"
    "sm_mem_size_aligned m4 = sm_mem_size_aligned m" "sm_addr m4 = sm_addr m"
proof -
  note I = smem_invD [OF inv] and hc = heap_constD [OF smem_invD(3) [OF inv]]
  obtain p where p: "p \<in> set ps" "MEM_ISUSED m p" "p \<noteq> sm_heap_end m" "r = p + 16" "n = smem_room m p"
    using r by (auto simp: live_def)
  obtain as q bs where ps: "ps = as @ p # q # bs" by (rule chain_block [OF I(4) p(1,3)])
  note c = chain_split [OF I(4) [unfolded ps]]
  have nx: "it_next (sm_item m p) = q" "q = p + 16 + n" using c(1) p(5) by (auto simp: linked_def smem_room_def)
  let ?p2 = "p + 16 + k"
  define m1 where "m1 = m\<lparr>sm_used := sm_used m - (n - k)\<rparr>"
  have m1: "chain_ok m1 (as @ p # q # bs)" "heap_const m1" "MEM_ISUSED m1 x = MEM_ISUSED m x" "sm_item m1 = sm_item m" for x
    using I(3,4) unfolding ps by (simp_all add: m1_def chain_ok_def heap_const_def linked_def [abs_def] MEM_POOL_def MEM_ISUSED_def)
  have le: "p + 16 + k + 16 \<le> q" using k(3) nx(2) by simp
  note sp = split_ok [OF m1(1,2) k(1) le]
  define m2 where "m2 = smem_split p k m1"
  define m3 where "m3 = (if ?p2 < sm_lfree m2 then m2\<lparr>sm_lfree := ?p2\<rparr> else m2)"
  have m3f: "sm_obj m3 = sm_obj m" "sm_addr m3 = sm_addr m" "sm_heap_ptr m3 = sm_heap_ptr m" "sm_data m3 = sm_data m"
    "sm_heap_end m3 = sm_heap_end m" "sm_mem_size_aligned m3 = sm_mem_size_aligned m"
    "sm_used m3 = sm_used m - (n - k)" "sm_max m3 = sm_max m" "sm_lfree m3 = min ?p2 (sm_lfree m)" "sm_item m3 = sm_item m2"
    by (auto simp: m3_def m2_def m1_def)
  have used3: "MEM_ISUSED m3 = MEM_ISUSED m2" "MEM_POOL m3 = MEM_POOL m2" "linked m3 = linked m2"
    by (auto simp: fun_eq_iff MEM_ISUSED_def MEM_POOL_def linked_def m3_def)
  let ?ps = "as @ p # ?p2 # q # bs"
  have chain3: "chain_ok m3 ?ps" using sp(1) [folded m2_def] by (simp add: m3_def)
  have out: "?p2 \<notin> set (as @ p # q # bs)" using c(2,3) le by fastforce
  have u3: "MEM_ISUSED m3 x = MEM_ISUSED m x" if "x \<in> set (as @ p # q # bs)" for x
    using sp(3) [OF that] m1(3) used3(1) by (simp add: m2_def)
  have u2: "\<not> MEM_ISUSED m3 ?p2" using sp(2) used3(1) by (simp add: m2_def)
  have nx3: "it_next (sm_item m3 x) = it_next (sm_item m x)" if "x \<in> set (as @ q # bs)" for x
    using sp(4) [OF that] m1(4) m3f(10) by (simp add: m2_def)
  have np3: "it_next (sm_item m3 p) = ?p2" "it_next (sm_item m3 ?p2) = q"
    using sp(5,6) m3f(10) by (simp_all add: m2_def)
  have lf: "lfree_ok m3 ?ps"
    using I(5) u2 u3 c(2-5) le out p(2,3) unfolding lfree_ok_def m3f(5,9) ps
    by (auto simp: min_def)
  have pn: "p \<notin> set as" "p \<notin> set (q # bs)" using c(2-4) by fastforce+
  have sum3: "sm_used m3 = sum_list (map (block_size m3) ?ps)"
  proof -
    have "block_size m3 x = block_size m x" if "x \<in> set (as @ q # bs)" for x
      using that u3 [of x] nx3 [of x] by (auto simp: block_size_def)
    then have "map (block_size m3) as = map (block_size m) as" "map (block_size m3) (q # bs) = map (block_size m) (q # bs)"
      by (auto intro!: map_cong)
    moreover have "block_size m3 p = 16 + k" "block_size m p = 16 + n" "block_size m3 ?p2 = 0"
      using u3 [of p] u2 np3 p(2) nx by (simp_all add: block_size_def)
    ultimately show ?thesis
      using heap_baseD(4) [OF I(1)] k(3) unfolding m3f(7) ps by (simp del: map_eq_conv)
  qed
  have rooms3: "rooms_ok m3 ?ps"
    using I(6) u2 u3 nx3 np3(1) k(2) pn unfolding rooms_ok_def m3f(5) ps by (auto simp: smem_room_def)
  have const3: "heap_const m3" using I(3) unfolding heap_const_def m3f .
  have "sm_used m3 \<le> sm_max m3" using heap_baseD(5) [OF I(1)] m3f(7,8) by simp
  then have base: "heap_base m3 ((as @ [p]) @ ?p2 # q # bs)"
    using chain3 const3 lf rooms3 sum3 by (simp add: heap_base_def)
  have co: "coalesced m3 (as @ [p])" "coalesced m3 (q # bs)"
  proof -
    have "coalesced m3 (as @ [p]) = coalesced m (as @ [p])" "coalesced m3 (q # bs) = coalesced m (q # bs)"
      by (intro coalesced_cong; use u3 in auto)+
    then show "coalesced m3 (as @ [p])" "coalesced m3 (q # bs)"
      using I(2) p(2) unfolding ps by (simp_all add: coalesced_append coalesced_Cons)
  qed
  obtain m4 ps' where m4: "plug_holes ?p2 m3 = Some m4" "smem_inv m4 ps'" "live m4 ps' = live m3 ((as @ [p]) @ ?p2 # q # bs)"
    "sm_data m4 = sm_data m3" "sm_heap_end m4 = sm_heap_end m3" "sm_heap_ptr m4 = sm_heap_ptr m3"
    "sm_mem_size_aligned m4 = sm_mem_size_aligned m3" "sm_addr m4 = sm_addr m3"
    by (rule plug_holes_ok [OF base u2 co]) blast
  have "live m3 ?ps = insert (r, k) (live m ps - {(r, n)})"
  proof -
    have s: "{x \<in> set ?ps. MEM_ISUSED m3 x \<and> x \<noteq> sm_heap_end m3} = {x \<in> set ps. MEM_ISUSED m x \<and> x \<noteq> sm_heap_end m}"
      using u2 u3 unfolding m3f(5) ps by auto
    have "smem_room m3 x = (if x = p then k else smem_room m x)" if "x \<in> set ps" for x
      using that nx3 [of x] np3(1) pn unfolding ps by (auto simp: smem_room_def)
    then show ?thesis unfolding live_def s using p by (auto simp: image_iff)
  qed
  moreover have "plug_holes (r + k) (let m2 = smem_split (r - 16) k (m\<lparr>sm_used := sm_used m - (n - k)\<rparr>)
        in if r + k < sm_lfree m2 then m2\<lparr>sm_lfree := r + k\<rparr> else m2) = Some m4"
    using m4(1) p(4) by (auto simp: m3_def m2_def m1_def Let_def split: if_splits)
  ultimately show thesis using that [of m4 ps'] m4(2-) m3f by simp
qed

lemma realloc_ok:
  assumes inv: "smem_inv m ps" and r: "(r, n) \<in> live m ps"
    and w: "w \<noteq> 0" "unat w \<le> 2 ^ 32 - 4"
  shows "(\<exists>m' ps' r' len. rt_smem_realloc (Some r) w m = Some (Some r', m') \<and> smem_inv m' ps'
            \<and> live m' ps' = insert (r', len) (live m ps - {(r, n)}) \<and> unat w \<le> len
            \<and> (\<forall>i < min n (unat w). sm_data m' (r' + i) = sm_data m (r + i))
            \<and> (\<forall>(a, k) \<in> live m ps - {(r, n)}. \<forall>i < k. sm_data m' (a + i) = sm_data m (a + i)))
     \<or> rt_smem_realloc (Some r) w m = Some (None, m)"
proof -
  note I = smem_invD [OF inv] and hc = heap_constD [OF smem_invD(3) [OF inv]]
  note lr = live_room [OF inv r]
  let ?k = "unat (RT_ALIGN w 4)"
  have w0: "0 < unat w" using w(1) by (simp add: unat_gt_0)
  have k: "?k = (unat w + 3) div 4 * 4" using w(2) by (simp add: RT_ALIGN_4)
  have kw: "unat w \<le> ?k" "0 < ?k" "?k mod 4 = 0" using w0 unfolding k by simp_all
  consider (big) "sm_mem_size_aligned m < ?k" | (same) "?k \<le> sm_mem_size_aligned m" "n = ?k"
    | (shrink) "?k \<le> sm_mem_size_aligned m" "?k + 28 < n"
    | (move) "?k \<le> sm_mem_size_aligned m" "n \<noteq> ?k" "\<not> ?k + 28 < n" by linarith
  then show ?thesis
  proof cases
    case big
    then show ?thesis using hc(1) by (simp add: rt_smem_realloc_def Let_def)
  next
    case same
    have "rt_smem_realloc (Some r) w m = Some (Some r, m)"
      using same hc(1) lr kw by (simp add: rt_smem_realloc_def Let_def)
    moreover have "live m ps = insert (r, n) (live m ps - {(r, n)})" using r by blast
    ultimately show ?thesis using inv same kw(1) by blast
  next
    case shrink
    obtain m' ps' where m': "plug_holes (r + ?k) (let m2 = smem_split (r - 16) ?k (m\<lparr>sm_used := sm_used m - (n - ?k)\<rparr>)
        in if r + ?k < sm_lfree m2 then m2\<lparr>sm_lfree := r + ?k\<rparr> else m2) = Some m'"
      "smem_inv m' ps'" "live m' ps' = insert (r, ?k) (live m ps - {(r, n)})" "sm_data m' = sm_data m"
      by (rule shrink_ok [OF inv r kw(3,2) shrink(2)]) blast
    have "rt_smem_realloc (Some r) w m = Some (Some r, m')"
      using shrink hc(1) lr kw m'(1) by (simp add: rt_smem_realloc_def Let_def)
    then show ?thesis
      by (intro disjI1 exI [of _ m'] exI [of _ ps'] exI [of _ r] exI [of _ ?k] conjI m'(2,3) kw(1))
        (simp_all add: m'(4))
  next
    case move
    let ?c = "if n < ?k then n else ?k"
    have rq: "RT_ALIGN w 4 \<noteq> 0" "?k \<le> smem_request (RT_ALIGN w 4)"
      using kw(2,3) request_ok(3) [of "RT_ALIGN w 4"] k w(2) by (auto simp: unat_eq_zero)
    have pre: "rt_smem_realloc (Some r) w m = do {
        (nmem, m1) \<leftarrow> rt_smem_alloc (RT_ALIGN w 4) m;
        (case nmem of
           None \<Rightarrow> Some (None, m1)
         | Some nr \<Rightarrow> do {
             m2 \<leftarrow> rt_smem_free (Some r) (smem_memcpy nr r ?c m1);
             Some (nmem, m2)
           })}"
      unfolding rt_smem_realloc_def Let_def option.case lr(2) using move hc(1) lr(1,3,4) kw(2) by simp
    from alloc_ok [OF inv rq(1)] show ?thesis
    proof (elim disjE exE conjE)
      fix m1 ps1 nr len
      assume a: "rt_smem_alloc (RT_ALIGN w 4) m = Some (Some nr, m1)" "smem_inv m1 ps1"
        "live m1 ps1 = insert (nr, len) (live m ps)" "smem_request (RT_ALIGN w 4) \<le> len"
        "\<forall>n. (nr, n) \<notin> live m ps" "sm_data m1 = sm_data m"
      let ?m2 = "smem_memcpy nr r ?c m1"
      have inv2: "smem_inv ?m2 ps1" and live2: "live ?m2 ps1 = insert (nr, len) (live m ps)"
        using a(2,3) by (simp_all add: memcpy_eq)
      have r2: "(r, n) \<in> live ?m2 ps1" using live2 r by simp
      obtain m' ps' where m': "rt_smem_free (Some r) ?m2 = Some m'" "smem_inv m' ps'"
        "live m' ps' = live ?m2 ps1 - {(r, n)}" "sm_data m' = sm_data ?m2"
        by (rule free_ok [OF inv2 r2]) blast
      have nr: "nr \<noteq> r" using a(5) r by auto
      have disj: "{nr ..< nr + len} \<inter> {x ..< x + y} = {}" if "(x, y) \<in> live m ps" for x y
        by (rule live_disjoint [OF smem_invD(4) [OF a(2)], of nr len x y])
          (use that a(3,5) in auto)
      have cl: "?c \<le> len" using a(4) rq(2) by simp
      have res: "rt_smem_realloc (Some r) w m = Some (Some nr, m')" using pre a(1) m'(1) by simp
      have "live m' ps' = insert (nr, len) (live m ps - {(r, n)})" using m'(3) live2 nr by auto
      moreover have "sm_data m' (nr + i) = sm_data m (r + i)" if "i < min n (unat w)" for i
        using that kw(1) a(6) m'(4) by (simp add: memcpy_eq)
      moreover have "sm_data m' (x + i) = sm_data m (x + i)" if "(x, y) \<in> live m ps" "i < y" for x y i
      proof -
        have "\<not> (nr \<le> x + i \<and> x + i < nr + len)"
          using disj [OF that(1)] that(2) by (auto simp: disjoint_iff)
        then show ?thesis using cl a(6) m'(4) by (auto simp: memcpy_eq)
      qed
      moreover have "unat w \<le> len" using kw(1) rq(2) a(4) by linarith
      ultimately show ?thesis using res m'(2)
        by (intro disjI1 exI [of _ m'] exI [of _ ps'] exI [of _ nr] exI [of _ len]) auto
    next
      assume "rt_smem_alloc (RT_ALIGN w 4) m = Some (None, m)"
      then show ?thesis using pre by simp
    qed
  qed
qed


section \<open>Initialisation\<close>

lemma RT_ALIGN_DOWN_4: "unat (RT_ALIGN_DOWN w 4) = unat w div 4 * 4"
proof -
  have "4 - 1 = (3 :: rt_uint32_t)" by simp
  then have "RT_ALIGN_DOWN w 4 = w AND NOT 3" by (simp only: RT_ALIGN_DOWN_def)
  then show ?thesis by (simp only: low_bits_cleared)
qed

lemma round_up:
  fixes x :: nat
  shows "x \<le> (x + 3) div 4 * 4" "(x + 3) div 4 * 4 \<le> x + 3" "y div 4 * 4 \<le> y"
    "(y div 4 * 4 - (x + 3) div 4 * 4 - 32) mod 4 = 0"
proof -
  show "x \<le> (x + 3) div 4 * 4" "(x + 3) div 4 * 4 \<le> x + 3" "y div 4 * 4 \<le> y" by presburger+
  have "(a * 4 - b * 4 - 32) mod 4 = 0" for a b :: nat
  proof -
    have "a * 4 - b * 4 - 32 = (a - b - 8) * 4" by (simp add: diff_mult_distrib)
    then show ?thesis by simp
  qed
  then show "(y div 4 * 4 - (x + 3) div 4 * 4 - 32) mod 4 = 0" .
qed

lemma aligned_room:
  fixes x y :: nat
  assumes "x \<le> y div 4 * 4 - 32" "32 < y div 4 * 4"
  shows "(x + 3) div 4 * 4 + 32 \<le> y div 4 * 4"
proof -
  have "x + 3 \<le> 4 * (y div 4 - 8) + 3" using assms(1) by (simp add: diff_mult_distrib2)
  then have "(x + 3) div 4 \<le> (4 * (y div 4 - 8) + 3) div 4" by (rule div_le_mono)
  also have "\<dots> = y div 4 - 8" by simp
  finally show ?thesis using assms(2) by simp
qed

lemma smem_init_ok:
  assumes run: "rt_smem_init sz items bytes b n = Some m"
    and nowrap: "unat b + unat n < 2 ^ 32" "unat b + unat sz + 8 < 2 ^ 32"
  shows "smem_inv m [0, sm_heap_end m]" "live m [0, sm_heap_end m] = {}" "sm_data m = bytes"
    "unat b + unat sz \<le> sm_heap_ptr m" "sm_heap_ptr m + sm_heap_end m + 16 \<le> unat b + unat n"
proof -
  let ?a = "RT_ALIGN b 4"
  let ?st = "?a + sz"
  let ?ba = "RT_ALIGN ?st 4"
  let ?e = "RT_ALIGN_DOWN (b + n) 4"
  have a: "unat ?a = (unat b + 3) div 4 * 4" using nowrap(2) by (simp add: RT_ALIGN_4)
  have al: "unat b \<le> unat ?a" "unat ?a \<le> unat b + 3" unfolding a by (rule round_up)+
  have st: "unat ?st = unat ?a + unat sz" using al(2) nowrap(2) by (simp add: unat_word_ariths)
  have ba: "unat ?ba = (unat ?st + 3) div 4 * 4" using st al(2) nowrap(2) by (simp add: RT_ALIGN_4)
  have bn: "unat (b + n) = unat b + unat n" using nowrap(1) by (simp add: unat_word_ariths)
  have e: "unat ?e = (unat b + unat n) div 4 * 4" by (simp add: RT_ALIGN_DOWN_4 bn)
  have c: "?e > 32 \<and> ?e - 32 \<ge> ?st" using run by (simp add: rt_smem_init_def Let_def split: if_splits)
  have e32: "unat (?e - 32) = unat ?e - 32" using c by (simp add: unat_sub word_le_nat_alt word_less_nat_alt)
  have ge: "unat ?st \<le> unat ?e - 32" "32 < unat ?e" using c e32 by (auto simp: word_le_nat_alt word_less_nat_alt)
  have be: "unat ?ba + 32 \<le> unat ?e" using aligned_room ge unfolding ba e .
  have ms: "unat (?e - ?ba - 32) = unat ?e - unat ?ba - 32"
  proof -
    have "unat (?e - ?ba) = unat ?e - unat ?ba" using be by (simp add: unat_sub word_le_nat_alt)
    then show ?thesis using be by (simp add: unat_sub word_le_nat_alt)
  qed
  let ?ms = "unat ?e - unat ?ba - 32"
  have m4: "?ms mod 4 = 0" "unat ?ba mod 4 = 0" unfolding ba e by (rule round_up) simp
  have addr: "?a AND 0xfffffffe = ?a"
  proof -
    have "?a = (b + 4 - 1) AND NOT (4 - 1)" by (simp only: RT_ALIGN_def)
    moreover have "NOT (4 - 1) AND 0xfffffffe = (NOT (4 - 1) :: rt_uint32_t)" by simp
    ultimately show ?thesis by (simp only: and.assoc)
  qed
  define h where "h = ?ms + 16"
  have item: "sm_item m = items(0 := \<lparr>it_pool = (?a AND 0xfffffffe) OR 0, it_next = h, it_prev = 0\<rparr>,
      h := \<lparr>it_pool = (?a AND 0xfffffffe) OR 1, it_next = h, it_prev = h\<rparr>)"
    and f: "sm_obj m" "sm_addr m = ?a" "sm_heap_ptr m = unat ?ba" "sm_data m = bytes" "sm_heap_end m = h"
      "sm_lfree m = 0" "sm_mem_size_aligned m = ?ms" "sm_used m = 0" "sm_max m = 0"
    using run c by (auto simp: rt_smem_init_def Let_def ms h_def MEM_FREED_def MEM_USED_def upd_item_def fun_eq_iff split: if_splits)
  have tags: "MEM_ISUSED m h" "\<not> MEM_ISUSED m 0" "MEM_POOL m h = sm_addr m" "MEM_POOL m 0 = sm_addr m"
    using pool_tags(1,2,4,5) [of m] addr f(2)
    by (simp_all add: MEM_ISUSED_def MEM_POOL_def item h_def MEM_FREED_def MEM_USED_def)
  show "smem_inv m [0, sm_heap_end m]"
    unfolding smem_inv_def heap_base_def chain_ok_def lfree_ok_def rooms_ok_def heap_const_def coalesced_def f
    using tags m4 addr f(2) e bn nowrap(1) unsigned_less [of ?e]
    by (auto simp: linked_def item f block_size_def h_def) 
  show "live m [0, sm_heap_end m] = {}" using tags by (auto simp: live_def f intro!: Nat.gr0I)
  show "sm_data m = bytes" by (rule f(4))
  show "unat b + unat sz \<le> sm_heap_ptr m" using al(1) st round_up(1) [of "unat ?st"] unfolding f(3) ba by linarith
  have "unat ?e \<le> unat b + unat n" unfolding e by (rule round_up)
  then show "sm_heap_ptr m + sm_heap_end m + 16 \<le> unat b + unat n" using be unfolding f h_def by linarith
qed


section \<open>Properties\<close>

text \<open>A heap of 256 bytes at 0x20000000, as initialised.\<close>

definition smem_sample :: rt_small_mem where
  "smem_sample = the (rt_smem_init 44 (\<lambda>_. \<lparr>it_pool = 0, it_next = 0, it_prev = 0\<rparr>) (\<lambda>_. 7) 0x20000000 256)"

lemma smem_sample_init:
  "rt_smem_init 44 (\<lambda>_. \<lparr>it_pool = 0, it_next = 0, it_prev = 0\<rparr>) (\<lambda>_. 7) 0x20000000 256 = Some smem_sample"
  by (simp add: smem_sample_def rt_smem_init_def RT_ALIGN_def RT_ALIGN_DOWN_def Let_def)

lemma smem_sample_facts:
  "sm_heap_end smem_sample = 196" "sm_mem_size_aligned smem_sample = 180" "smem_inv smem_sample [0, 196]"
  "live smem_sample [0, 196] = {}" "smem_room smem_sample 0 = 180" "\<not> MEM_ISUSED smem_sample 0"
proof -
  show e: "sm_heap_end smem_sample = 196" "sm_mem_size_aligned smem_sample = 180" "smem_room smem_sample 0 = 180"
    by (simp_all add: smem_sample_def rt_smem_init_def RT_ALIGN_def RT_ALIGN_DOWN_def Let_def smem_room_def)
  show inv: "smem_inv smem_sample [0, 196]" "live smem_sample [0, 196] = {}"
    using smem_init_ok(1,2) [OF smem_sample_init] e(1) by simp_all
  then show "\<not> MEM_ISUSED smem_sample 0" using e(1) by (auto simp: live_def)
qed

text \<open>
  C18: allocation.  A request returns an aligned block that is at least as long as asked for,
  lies in the heap, overlaps no allocated block and no header, and leaves every other block
  allocated and every byte unchanged; it returns NULL only when no free block has enough room.
\<close>

theorem smem_alloc_gives_new_block:
  assumes "smem_inv m ps" "sz \<noteq> 0" "unat sz \<le> 2 ^ 32 - 4"
  shows "(\<exists>m' ps' r len. rt_smem_alloc sz m = Some (Some r, m') \<and> smem_inv m' ps'
            \<and> live m' ps' = insert (r, len) (live m ps) \<and> unat sz \<le> len \<and> sm_data m' = sm_data m
            \<and> r + len \<le> sm_heap_end m \<and> (sm_heap_ptr m + r) mod RT_ALIGN_SIZE = 0
            \<and> (\<forall>(a, k) \<in> live m ps. {r ..< r + len} \<inter> {a ..< a + k} = {}))
     \<or> (rt_smem_alloc sz m = Some (None, m)
          \<and> (\<forall>p \<in> set ps. \<not> MEM_ISUSED m p \<longrightarrow> smem_room m p < max 12 (unat (RT_ALIGN sz 4))))"
  using alloc_ok [OF assms(1,2)]
proof (elim disjE exE conjE)
  fix m' ps' r len
  assume a: "rt_smem_alloc sz m = Some (Some r, m')" "smem_inv m' ps'" "live m' ps' = insert (r, len) (live m ps)"
    "smem_request sz \<le> len" "\<forall>n. (r, n) \<notin> live m ps" "sm_data m' = sm_data m" "sm_heap_end m' = sm_heap_end m"
    "sm_heap_ptr m' = sm_heap_ptr m"
  have "(r, len) \<in> live m' ps'" using a(3) by simp
  note lr = live_room [OF a(2) this]
  have "{r ..< r + len} \<inter> {x ..< x + k} = {}" if "(x, k) \<in> live m ps" for x k
    by (rule live_disjoint [OF smem_invD(4) [OF a(2)], of r len x k]) (use that a(3,5) in auto)
  moreover have "unat sz \<le> len" using request_ok(3) [OF assms(3)] a(4) by simp
  ultimately show ?thesis using a(1-3,6-8) lr(4,5) by auto
next
  assume "rt_smem_alloc sz m = Some (None, m)"
    "\<forall>p \<in> set ps. \<not> MEM_ISUSED m p \<longrightarrow> smem_room m p < smem_request sz"
  moreover have "smem_request sz = max 12 (unat (RT_ALIGN sz 4))" by (simp add: smem_request_def Let_def)
  ultimately show ?thesis by simp
qed

lemma smem_sample_alloc:
  obtains m ps r len where "rt_smem_alloc 20 smem_sample = Some (Some r, m)" "smem_inv m ps"
    "live m ps = {(r, len)}" "20 \<le> len"
proof -
  have "smem_request 20 = 20" by (simp add: smem_request_def RT_ALIGN_4)
  then show thesis
    using alloc_ok [OF smem_sample_facts(3), of 20] smem_sample_facts(4-6) that by auto
qed

theorem smem_alloc_gives_new_block_witness:
  "\<exists>m ps r len. rt_smem_alloc 20 smem_sample = Some (Some r, m) \<and> live m ps = {(r, len)} \<and> 20 \<le> len"
proof -
  have "RT_ALIGN 20 4 = (20 :: rt_uint32_t)" by (simp add: RT_ALIGN_def)
  then show ?thesis
    using smem_alloc_gives_new_block [OF smem_sample_facts(3), of 20] smem_sample_facts(4-6) by auto
qed

text \<open>
  Release.  An allocated block can be released; the others stay allocated, no byte changes,
  adjacent free blocks are combined, and releasing it a second time fails an assertion.
\<close>

theorem smem_free_releases:
  assumes "smem_inv m ps" "(r, n) \<in> live m ps"
  shows "\<exists>m' ps'. rt_smem_free (Some r) m = Some m' \<and> smem_inv m' ps' \<and> live m' ps' = live m ps - {(r, n)}
     \<and> sm_data m' = sm_data m \<and> rt_smem_free (Some r) m' = None"
proof -
  obtain m' ps' where m': "rt_smem_free (Some r) m = Some m'" "smem_inv m' ps'" "live m' ps' = live m ps - {(r, n)}"
    "\<not> MEM_ISUSED m' (r - 16)" "sm_data m' = sm_data m"
    by (rule free_ok [OF assms]) blast
  have "rt_smem_free (Some r) m' = None"
    using m'(4) by (simp add: rt_smem_free_def RT_ASSERT_def)
  then show ?thesis using m' by blast
qed

theorem smem_free_releases_witness:
  "\<exists>m m' r. rt_smem_alloc 20 smem_sample = Some (Some r, m) \<and> rt_smem_free (Some r) m = Some m'
     \<and> rt_smem_free (Some r) m' = None"
proof -
  obtain m ps r len where m: "rt_smem_alloc 20 smem_sample = Some (Some r, m)" "smem_inv m ps" "live m ps = {(r, len)}"
    by (rule smem_sample_alloc) blast
  then show ?thesis using smem_free_releases [OF m(2), of r len] by auto
qed

text \<open>
  C19: reallocation.  It returns NULL and leaves the heap as it is, or a block of at least the new
  size that starts with the bytes of the old one, which is released; the contents of all other
  blocks stay the same.
\<close>

theorem smem_realloc_keeps_contents:
  assumes "smem_inv m ps" "(r, n) \<in> live m ps" "w \<noteq> 0" "unat w \<le> 2 ^ 32 - 4"
  shows "(\<exists>m' ps' r' len. rt_smem_realloc (Some r) w m = Some (Some r', m') \<and> smem_inv m' ps'
            \<and> live m' ps' = insert (r', len) (live m ps - {(r, n)}) \<and> unat w \<le> len
            \<and> (\<forall>i < min n (unat w). sm_data m' (r' + i) = sm_data m (r + i))
            \<and> (\<forall>(a, k) \<in> live m ps - {(r, n)}. \<forall>i < k. sm_data m' (a + i) = sm_data m (a + i)))
     \<or> rt_smem_realloc (Some r) w m = Some (None, m)"
  by (rule realloc_ok [OF assms])

theorem smem_realloc_keeps_contents_witness:
  "\<exists>m r x. rt_smem_alloc 20 smem_sample = Some (Some r, m) \<and> rt_smem_realloc (Some r) 40 m = Some x"
proof -
  obtain m ps r len where m: "rt_smem_alloc 20 smem_sample = Some (Some r, m)" "smem_inv m ps" "live m ps = {(r, len)}"
    by (rule smem_sample_alloc) blast
  then show ?thesis using smem_realloc_keeps_contents [OF m(2), of r len 40] by auto
qed

text \<open>
  No fragmentation is left.  When every block has been released the heap is one free block
  again, nothing is counted as used, and every request that fits the heap succeeds.
\<close>

theorem smem_all_released:
  assumes "smem_inv m ps" "live m ps = {}"
  shows "ps = [0, sm_heap_end m] \<and> sm_used m = 0
     \<and> (\<forall>sz. sz \<noteq> 0 \<longrightarrow> smem_request sz \<le> sm_mem_size_aligned m
          \<longrightarrow> (\<exists>m'. rt_smem_alloc sz m = Some (Some SIZEOF_STRUCT_MEM, m')))"
proof -
  note I = smem_invD [OF assms(1)] and hc = heap_constD [OF smem_invD(3) [OF assms(1)]]
  have free: "\<not> MEM_ISUSED m p" if "p \<in> set ps" "p \<noteq> sm_heap_end m" for p
    using assms(2) that by (auto simp: live_def)
  have "sm_heap_end m \<noteq> 0" using hc(5) by simp
  moreover have "0 \<in> set ps" using chain_okD(1,2) [OF I(4)] hd_in_set by metis
  ultimately obtain as q bs where ps: "ps = as @ 0 # q # bs" using chain_block [OF I(4)] by metis
  note c = chain_split [OF I(4) [unfolded ps]]
  have as: "as = []" using c(2) by (cases as) auto
  have q: "q = sm_heap_end m"
  proof (rule ccontr)
    assume ne: "q \<noteq> sm_heap_end m"
    have "\<not> MEM_ISUSED m 0" "\<not> MEM_ISUSED m q" using free [of 0] free [of q] ne c(6) ps by auto
    then show False using I(2) by (simp add: ps as coalesced_Cons)
  qed
  have bs: "bs = []" using c(3) chain_le_end [OF I(4)] q by (cases bs) (fastforce simp: ps)+
  have eq: "ps = [0, sm_heap_end m]" using ps as q bs by simp
  have "sm_used m = 0"
    using heap_baseD(4) [OF I(1)] free [of 0] c(6) chain_okD(5) [OF I(4)] by (simp add: eq block_size_def)
  moreover have "\<exists>m'. rt_smem_alloc sz m = Some (Some 16, m')" if fit: "sz \<noteq> 0" "smem_request sz \<le> sm_mem_size_aligned m" for sz
  proof -
    have u0: "\<not> MEM_ISUSED m 0" using free [of 0] c(6) ps by auto
    moreover have "smem_room m 0 = sm_mem_size_aligned m" using c(1) q hc(5) by (simp add: linked_def smem_room_def)
    ultimately have "smem_find m (smem_request sz) (sm_lfree m) = Some (Some 0)"
      using find_lfree [OF assms(1) fit(2)] request_ok(2) [of sz] fit(2) by (simp add: eq)
    moreover obtain m' where "smem_take 0 (smem_request sz) m = Some (0 + 16, m')"
      by (rule take_ok [OF assms(1) [unfolded ps] u0 _ request_ok(1)])
        (use fit(2) request_ok(2) [of sz] \<open>smem_room m 0 = sm_mem_size_aligned m\<close> in auto)
    ultimately show ?thesis using fit hc(1) by (simp add: rt_smem_alloc_def Let_def)
  qed
  ultimately show ?thesis using eq by blast
qed

theorem smem_all_released_witness: "\<exists>m'. rt_smem_alloc 180 smem_sample = Some (Some 16, m')"
proof -
  have "smem_request 180 \<le> sm_mem_size_aligned smem_sample" "(180 :: rt_uint32_t) \<noteq> 0"
    by (simp_all add: smem_sample_facts smem_request_def RT_ALIGN_4)
  then show ?thesis using smem_all_released [OF smem_sample_facts(3,4)] by blast
qed

text \<open>
  Requests of almost the whole address space.  The alignment of the last three sizes wraps to
  zero, and the allocator returns a block of less than 40 bytes for them.
\<close>

theorem smem_alloc_wraps:
  assumes "smem_inv m ps" "2 ^ 32 - 4 < unat sz" "p \<in> set ps" "\<not> MEM_ISUSED m p" "12 \<le> smem_room m p"
  shows "\<exists>m' ps' r len. rt_smem_alloc sz m = Some (Some r, m') \<and> smem_inv m' ps'
     \<and> live m' ps' = insert (r, len) (live m ps) \<and> len < 40"
proof -
  have r: "smem_request sz = 12" using request_ok(4) assms(2) by simp
  have "sz \<noteq> 0" using assms(2) by auto
  then show ?thesis using alloc_ok [OF assms(1), of sz] assms(3-5) unfolding r by fastforce
qed

theorem smem_alloc_wraps_witness:
  "\<exists>m' r. rt_smem_alloc 0xfffffffd smem_sample = Some (Some r, m')"
  using smem_alloc_wraps [OF smem_sample_facts(3), of "0xfffffffd" 0] smem_sample_facts(5,6) by auto

end
