(* ===== verification/CTime.thy ===== *)
theory CTime
  imports Mutex "HOL-Library.Signed_Division"
begin

text \<open>
  Calendar time, src/rt-thread/components/libc/compilers/common/ctime.c: seconds since 1970 and
  broken-down time, in both directions, time zones and the text of \<^verbatim>\<open>asctime\<close>.

  \<^verbatim>\<open>time_t\<close> and the members of \<^verbatim>\<open>struct tm\<close> are integers; conversions to int are written out as
  \<open>c_int\<close>, and division is that of C.  The theorems bound the values so that no
  intermediate result leaves the C types.  A NULL pointer is \<^term>\<open>None\<close>.
\<close>

section \<open>Operations\<close>

type_synonym time_t = int

record tm =
  tm_sec :: int
  tm_min :: int
  tm_hour :: int
  tm_mday :: int
  tm_mon :: int
  tm_year :: int
  tm_wday :: int
  tm_yday :: int
  tm_isdst :: int

abbreviation EFAULT :: rt_err_t where "EFAULT \<equiv> 14"
abbreviation ERRNO_EINVAL :: rt_err_t where "ERRNO_EINVAL \<equiv> 22"
abbreviation SPD :: int where "SPD \<equiv> 24 * 60 * 60"

definition c_int :: "int \<Rightarrow> int" where
  "c_int x = sint (word_of_int x :: 32 word)"

text \<open>The days before the first of each month in a year that is not a leap year.\<close>

definition spm :: "int list" where
  "spm = [0, 31, 31 + 28, 31 + 28 + 31, 31 + 28 + 31 + 30, 31 + 28 + 31 + 30 + 31,
     31 + 28 + 31 + 30 + 31 + 30, 31 + 28 + 31 + 30 + 31 + 30 + 31,
     31 + 28 + 31 + 30 + 31 + 30 + 31 + 31, 31 + 28 + 31 + 30 + 31 + 30 + 31 + 31 + 30,
     31 + 28 + 31 + 30 + 31 + 30 + 31 + 31 + 30 + 31,
     31 + 28 + 31 + 30 + 31 + 30 + 31 + 31 + 30 + 31 + 30,
     31 + 28 + 31 + 30 + 31 + 30 + 31 + 31 + 30 + 31 + 30 + 31]"

definition spm_get :: "int \<Rightarrow> int option" where
  "spm_get i = (if 0 \<le> i then arr_get spm (nat i) else None)"

definition isleap :: "int \<Rightarrow> bool" where
  "isleap year \<longleftrightarrow> year smod 4 = 0 \<and> (year smod 100 \<noteq> 0 \<or> year smod 400 = 0)"

text \<open>The year loop of \<^verbatim>\<open>gmtime_r\<close>: the days left and the year reached.\<close>

function gmtime_year :: "int \<Rightarrow> int \<Rightarrow> int \<times> int" where
  "gmtime_year work i =
     (let k = (if isleap i then 366 else 365)
      in if work \<ge> k then gmtime_year (work - k) (i + 1) else (work, i))"
  by pat_completeness auto
termination
  by (relation "measure (\<lambda>(work, i). nat work)") (auto split: if_splits)

declare gmtime_year.simps [simp del]

text \<open>The month loop: the last month that has begun before day \<open>work\<close>, from month i downwards.\<close>

fun gmtime_mon :: "nat \<Rightarrow> int \<Rightarrow> nat" where
  "gmtime_mon 0 work = 0"
| "gmtime_mon (Suc i) work = (if spm ! Suc i > work then gmtime_mon i work else Suc i)"

text \<open>The day 29 February is taken out: the first value of \<open>tm_mday\<close> and the day left.\<close>

definition gmtime_leap :: "int \<Rightarrow> int \<Rightarrow> int \<times> int" where
  "gmtime_leap i work = (if isleap i \<and> work > 58 then (if work = 59 then 2 else 1, work - 1) else (1, work))"

definition tz_is_dst :: int where
  "tz_is_dst = 0"

text \<open>
  The pointer to the time is read before the NULL check, so a NULL time is a fault whatever
  \<open>r\<close> is; \<open>r\<close> says whether the result pointer is not NULL.
\<close>

definition gmtime_r :: "time_t option \<Rightarrow> bool \<Rightarrow> kstate \<Rightarrow> (tm option \<times> kstate) option" where
  "gmtime_r timep r s = do {
     t \<leftarrow> timep;
     let work = c_int (t smod SPD);
     if \<not> r then Some (None, rt_set_errno EFAULT s)
     else do {
       let sec = work smod 60;
       let work = work sdiv 60;
       let mi = work smod 60;
       let hour = work sdiv 60;
       let work = c_int (t sdiv SPD);
       let wday = (4 + work) smod 7;
       let (work, i) = gmtime_year work 1970;
       let year = i - 1900;
       let yday = work;
       let (mday, work) = gmtime_leap i work;
       let mon = gmtime_mon 11 work;
       Some (Some \<lparr>tm_sec = sec, tm_min = mi, tm_hour = hour, tm_mday = mday + (work - spm ! mon),
          tm_mon = int mon, tm_year = year, tm_wday = wday, tm_yday = yday, tm_isdst = tz_is_dst\<rparr>, s)
     }
   }"

text \<open>The current time zone \<open>tz\<close>, in hours, is the state of \<^verbatim>\<open>tz_get\<close> and \<^verbatim>\<open>tz_set\<close>.\<close>

definition localtime_r :: "8 word \<Rightarrow> time_t option \<Rightarrow> bool \<Rightarrow> kstate \<Rightarrow> (tm option \<times> kstate) option" where
  "localtime_r tz t r s = do {
     t0 \<leftarrow> t;
     gmtime_r (Some (t0 + sint tz * 3600)) r s
   }"

text \<open>The normalisation of the day of the month in \<^verbatim>\<open>timegm\<close>, on day, month and year.\<close>

partial_function (option) timegm_mday :: "int \<Rightarrow> int \<Rightarrow> int \<Rightarrow> (int \<times> int \<times> int) option" where
  "timegm_mday mday mon year = do {
     next \<leftarrow> spm_get (1 + mon);
     if mday > next
     then do {
       first \<leftarrow> spm_get mon;
       let mday = (if mon = 1 \<and> isleap (year + 1900) then mday - 1 else mday) - first;
       let mon = mon + 1;
       if mon > 11 then timegm_mday mday 0 (year + 1) else timegm_mday mday mon year
     }
     else Some (mday, mon, year)
   }"

definition timegm_carry :: "tm \<Rightarrow> tm" where
  "timegm_carry t =
     (let t = (if tm_sec t > 60 then t\<lparr>tm_min := tm_min t + tm_sec t sdiv 60, tm_sec := tm_sec t smod 60\<rparr> else t);
          t = (if tm_min t \<ge> 60 then t\<lparr>tm_hour := tm_hour t + tm_min t sdiv 60, tm_min := tm_min t smod 60\<rparr> else t);
          t = (if tm_hour t \<ge> 24 then t\<lparr>tm_mday := tm_mday t + tm_hour t sdiv 24, tm_hour := tm_hour t smod 24\<rparr> else t)
      in if tm_mon t \<ge> 12 then t\<lparr>tm_year := tm_year t + tm_mon t sdiv 12, tm_mon := tm_mon t smod 12\<rparr> else t)"

text \<open>The days from 1970 to the start of the year \<open>1970 + years\<close>.\<close>

definition timegm_days :: "int \<Rightarrow> int" where
  "timegm_days years =
     (let day = years * 365 + (years + 1) sdiv 4
      in if years \<ge> 131
         then let years = (years - 131) sdiv 100;
                  day = day - (drop_bit 2 years * 3 + 1);
                  years = years AND 3;
                  years = (if years = 3 then years - 1 else years)
              in day - years
         else day)"

text \<open>The result is the time, the normalised broken-down time and the kernel state.\<close>

definition timegm :: "tm option \<Rightarrow> kstate \<Rightarrow> (time_t \<times> tm option \<times> kstate) option" where
  "timegm tp s =
     (case tp of
        None \<Rightarrow> Some (-1, None, rt_set_errno EFAULT s)
      | Some t0 \<Rightarrow> do {
          let years = tm_year t0 - 70;
          let t = timegm_carry t0;
          (mday, mon, year) \<leftarrow> timegm_mday (tm_mday t) (tm_mon t) (tm_year t);
          let t = t\<lparr>tm_mday := mday, tm_mon := mon, tm_year := year\<rparr>;
          if year < 70 then Some (-1, Some t, rt_set_errno ERRNO_EINVAL s)
          else do {
            first \<leftarrow> spm_get mon;
            let yday = first + mday - 1 + (if isleap (year + 1900) \<and> mon > 1 then 1 else 0);
            let day = timegm_days years + yday;
            let t = t\<lparr>tm_yday := yday, tm_wday := c_int ((day + 4) smod 7)\<rparr>;
            Some (((day * 24 + tm_hour t) * 60 + tm_min t) * 60 + tm_sec t, Some t, s)
          }
        })"

definition mktime :: "8 word \<Rightarrow> tm option \<Rightarrow> kstate \<Rightarrow> (time_t \<times> tm option \<times> kstate) option" where
  "mktime tz t s = do {
     (timestamp, t', s') \<leftarrow> timegm t s;
     Some (timestamp - 3600 * sint tz, t', s')
   }"

text \<open>
  The text of a broken-down time.  The buffer is a list of at least 26 bytes; \<^verbatim>\<open>num2str\<close> writes two
  digits at the given offset.
\<close>

definition aligned_days :: "rt_uint8_t list" where
  "aligned_days = map of_char ''Sun Mon Tue Wed Thu Fri Sat ''"

definition aligned_months :: "rt_uint8_t list" where
  "aligned_months = map of_char ''Jan Feb Mar Apr May Jun Jul Aug Sep Oct Nov Dec ''"

definition num2str :: "nat \<Rightarrow> int \<Rightarrow> rt_uint8_t list \<Rightarrow> rt_uint8_t list option" where
  "num2str c i buf = blit buf c [word_of_int (i sdiv 10 + 48), word_of_int (i smod 10 + 48)]"

text \<open>The bytes 8 to 25: day, time of day and the year given in its two halves.\<close>

definition asctime_tail :: "tm \<Rightarrow> int \<Rightarrow> int \<Rightarrow> rt_uint8_t list \<Rightarrow> rt_uint8_t list option" where
  "asctime_tail t century year buf = do {
     b \<leftarrow> num2str 8 (tm_mday t) buf;
     c \<leftarrow> arr_get b 8;
     b \<leftarrow> (if c = 48 then arr_set b 8 32 else Some b);
     b \<leftarrow> arr_set b 10 32;
     b \<leftarrow> num2str 11 (tm_hour t) b;
     b \<leftarrow> arr_set b 13 58;
     b \<leftarrow> num2str 14 (tm_min t) b;
     b \<leftarrow> arr_set b 16 58;
     b \<leftarrow> num2str 17 (tm_sec t) b;
     b \<leftarrow> arr_set b 19 32;
     b \<leftarrow> num2str 20 century b;
     b \<leftarrow> num2str 22 year b;
     b \<leftarrow> arr_set b 24 10;
     arr_set b 25 0
   }"

text \<open>The four bytes at \<open>tab\<close> plus \<open>i\<close> times four.\<close>

definition name_at :: "rt_uint8_t list \<Rightarrow> int \<Rightarrow> rt_uint8_t list option" where
  "name_at tab i = (if 0 \<le> i then fetch tab (nat i * 4) 4 else None)"

definition asctime_r :: "tm option \<Rightarrow> rt_uint8_t list option \<Rightarrow> kstate \<Rightarrow> (rt_uint8_t list option \<times> kstate) option" where
  "asctime_r tp bufp s =
     (case (tp, bufp) of
        (Some t, Some buf) \<Rightarrow> do {
          b \<leftarrow> blit buf 0 (replicate 26 0);
          if 28 \<le> tm_wday t * 4 \<or> 48 \<le> tm_mon t * 4
          then do {
            b \<leftarrow> blit b 0 (take 4 aligned_days);
            b \<leftarrow> blit b 4 (take 4 aligned_months);
            b \<leftarrow> asctime_tail t (2000 sdiv 100) (2000 smod 100) b;
            Some (Some b, s)
          }
          else do {
            d \<leftarrow> name_at aligned_days (tm_wday t);
            b \<leftarrow> blit b 0 d;
            m \<leftarrow> name_at aligned_months (tm_mon t);
            b \<leftarrow> blit b 4 m;
            b \<leftarrow> asctime_tail t ((tm_year t + 1900) sdiv 100) ((tm_year t + 1900) smod 100) b;
            Some (Some b, s)
          }
        }
      | _ \<Rightarrow> Some (None, rt_set_errno EFAULT s))"

definition ctime_r :: "8 word \<Rightarrow> time_t option \<Rightarrow> rt_uint8_t list option \<Rightarrow> kstate
    \<Rightarrow> (rt_uint8_t list option \<times> kstate) option" where
  "ctime_r tz tim_p buf s = do {
     (t, s1) \<leftarrow> localtime_r tz tim_p True s;
     asctime_r t buf s1
   }"


section \<open>The calendar\<close>

text \<open>
  The reference: the Gregorian calendar as sums of year and month lengths, with the leap-year
  rule written out.  A date is a year, a month from 0 and a day of the month from 1.
\<close>

definition gregorian_leap :: "int \<Rightarrow> bool" where
  "gregorian_leap y \<longleftrightarrow> 400 dvd y \<or> (4 dvd y \<and> \<not> 100 dvd y)"

definition year_len :: "int \<Rightarrow> int" where
  "year_len y = (if gregorian_leap y then 366 else 365)"

definition mon_len :: "int \<Rightarrow> nat \<Rightarrow> int" where
  "mon_len y m = [31, if gregorian_leap y then 29 else 28, 31, 30, 31, 30, 31, 31, 30, 31, 30, 31] ! m"

definition days_before_year :: "nat \<Rightarrow> int" where
  "days_before_year n = (\<Sum>k<n. year_len (1970 + int k))"

definition days_before_mon :: "int \<Rightarrow> nat \<Rightarrow> int" where
  "days_before_mon y m = (\<Sum>k<m. mon_len y k)"

definition valid_date :: "nat \<Rightarrow> nat \<Rightarrow> int \<Rightarrow> bool" where
  "valid_date n m d \<longleftrightarrow> m < 12 \<and> 1 \<le> d \<and> d \<le> mon_len (1970 + int n) m"

definition day_number :: "nat \<Rightarrow> nat \<Rightarrow> int \<Rightarrow> int" where
  "day_number n m d = days_before_year n + days_before_mon (1970 + int n) m + (d - 1)"

text \<open>The remainder of C is zero exactly on the multiples, so the program's rule is this one.\<close>

lemma smod_eq_0: "y smod n = 0 \<longleftrightarrow> n dvd (y::int)"
  by (auto simp: signed_modulo_int_def sgn_if dvd_eq_mod_eq_0 [symmetric])

lemma isleap_gregorian: "isleap y \<longleftrightarrow> gregorian_leap y"
proof -
  have "4 dvd y" "100 dvd y" if "400 dvd y" using that by presburger+
  then show ?thesis by (auto simp: isleap_def gregorian_leap_def smod_eq_0)
qed

lemma year_len_isleap: "year_len y = (if isleap y then 366 else 365)"
  by (simp add: year_len_def isleap_gregorian)

lemma mon_len_isleap:
  "mon_len y m = [31, if isleap y then 29 else 28, 31, 30, 31, 30, 31, 31, 30, 31, 30, 31] ! m"
  by (simp add: mon_len_def isleap_gregorian)

lemma month_cases:
  "m < 12 \<Longrightarrow> m = 0 \<or> m = 1 \<or> m = 2 \<or> m = 3 \<or> m = 4 \<or> m = 5 \<or> m = 6 \<or> m = 7 \<or> m = 8 \<or> m = 9 \<or> m = 10 \<or> m = (11::nat)"
  by arith

lemma spm_days: "m < 12 \<Longrightarrow> days_before_mon y m = spm ! m + (if isleap y \<and> m > 1 then 1 else 0)"
  by (drule month_cases, elim disjE)
    (simp_all add: days_before_mon_def mon_len_isleap spm_def lessThan_Suc numeral_eq_Suc)

lemma mon_len_bounds: "m < 12 \<Longrightarrow> 28 \<le> mon_len y m \<and> mon_len y m \<le> 31"
  by (drule month_cases, elim disjE) (simp_all add: mon_len_isleap)

lemma isleap_iff: "0 \<le> y \<Longrightarrow> isleap y \<longleftrightarrow> y mod 4 = 0 \<and> (y mod 100 \<noteq> 0 \<or> y mod 400 = 0)"
  by (cases "y = 0") (auto simp: isleap_def signed_modulo_int_def)

text \<open>The year loop.\<close>

lemma gmtime_year_ok:
  assumes "0 \<le> work"
  shows "\<exists>n. gmtime_year work (1970 + int k) = (work - (\<Sum>j\<in>{k..<n}. year_len (1970 + int j)), 1970 + int n)
    \<and> k \<le> n \<and> 0 \<le> work - (\<Sum>j\<in>{k..<n}. year_len (1970 + int j))
    \<and> work - (\<Sum>j\<in>{k..<n}. year_len (1970 + int j)) < year_len (1970 + int n)"
  using assms
proof (induction "nat work" arbitrary: work k rule: less_induct)
  case less
  let ?l = "year_len (1970 + int k)"
  have l: "365 \<le> ?l" by (simp add: year_len_isleap)
  show ?case
  proof (cases "?l \<le> work")
    case True
    have "nat (work - ?l) < nat work" "0 \<le> work - ?l" using True l by auto
    then obtain n where n: "gmtime_year (work - ?l) (1970 + int (Suc k)) = (work - ?l - (\<Sum>j\<in>{Suc k..<n}. year_len (1970 + int j)), 1970 + int n)"
       "Suc k \<le> n" "0 \<le> work - ?l - (\<Sum>j\<in>{Suc k..<n}. year_len (1970 + int j))"
       "work - ?l - (\<Sum>j\<in>{Suc k..<n}. year_len (1970 + int j)) < year_len (1970 + int n)"
      using less(1) [of "work - ?l" "Suc k"] by blast
    have "(\<Sum>j\<in>{k..<n}. year_len (1970 + int j)) = ?l + (\<Sum>j\<in>{Suc k..<n}. year_len (1970 + int j))"
      using n(2) by (simp add: sum.atLeast_Suc_lessThan)
    moreover have "gmtime_year work (1970 + int k) = gmtime_year (work - ?l) (1970 + int (Suc k))"
      using True by (subst gmtime_year.simps) (simp add: year_len_isleap Let_def add.commute add.left_commute)
    ultimately show ?thesis using n by (intro exI [of _ n]) (simp add: algebra_simps)
  next
    case False
    then show ?thesis using less(2)
      by (intro exI [of _ k]) (subst gmtime_year.simps, simp add: year_len_isleap Let_def)
  qed
qed

lemma gmtime_year_days:
  assumes "0 \<le> work"
  obtains n where "gmtime_year work 1970 = (work - days_before_year n, 1970 + int n)"
    "0 \<le> work - days_before_year n" "work - days_before_year n < year_len (1970 + int n)"
  using gmtime_year_ok [OF assms, of 0] that by (auto simp: days_before_year_def lessThan_atLeast0)

text \<open>The month loop.\<close>

lemma gmtime_mon_ok:
  "0 \<le> work \<Longrightarrow> gmtime_mon n work \<le> n \<and> spm ! gmtime_mon n work \<le> work
     \<and> (gmtime_mon n work < n \<longrightarrow> work < spm ! Suc (gmtime_mon n work))"
proof (induction n)
  case 0
  then show ?case by (simp add: spm_def)
next
  case (Suc n)
  then show ?case by (cases "gmtime_mon n work = n") (auto simp del: nth_Cons_Suc)
qed

lemma month_of_day:
  assumes "0 \<le> w" "w < year_len y"
    and d: "gmtime_leap y w = (d, w')"
    and m: "m = gmtime_mon 11 w'"
  shows "m < 12" "1 \<le> d + (w' - spm ! m)" "d + (w' - spm ! m) \<le> mon_len y m"
    "days_before_mon y m + (d + (w' - spm ! m) - 1) = w"
proof -
  have w': "0 \<le> w'" "w' < 365" using assms(1,2) d by (auto simp: gmtime_leap_def year_len_isleap split: if_splits)
  note g = gmtime_mon_ok [OF w'(1), of 11, folded m]
  show m12: "m < 12" using g by simp
  have "1 \<le> d + (w' - spm ! m) \<and> d + (w' - spm ! m) \<le> mon_len y m
    \<and> days_before_mon y m + (d + (w' - spm ! m) - 1) = w"
    unfolding spm_days [OF m12]
    using month_cases [OF m12] g w' d assms(1,2)
    by (elim disjE) (auto simp: gmtime_leap_def spm_def mon_len_isleap year_len_isleap split: if_splits)
  then show "1 \<le> d + (w' - spm ! m)" "d + (w' - spm ! m) \<le> mon_len y m"
    "days_before_mon y m + (d + (w' - spm ! m) - 1) = w" by blast+
qed

text \<open>The closed formula for the days before a year.\<close>

lemma timegm_days_early: "0 \<le> y \<Longrightarrow> y < 131 \<Longrightarrow> timegm_days y = y * 365 + (y + 1) div 4"
  by (simp add: timegm_days_def Let_def signed_divide_int_def)

lemma timegm_days_late:
  assumes "0 \<le> a" "0 \<le> b" "b < 4" "0 \<le> c" "c < 100"
  shows "timegm_days (131 + 400 * a + 100 * b + c) =
    (131 + 400 * a + 100 * b + c) * 365 + (33 + 100 * a + 25 * b + c div 4) - (3 * a + 1 + min 2 b)"
proof -
  have "(400 * a + 100 * b + c) sdiv 100 = (c + (4 * a + b) * 100) div 100"
    using assms by (simp add: signed_divide_int_def algebra_simps sgn_if)
  also have "\<dots> = 4 * a + b" using assms by (subst div_mult_self1) simp_all
  finally have z: "(400 * a + 100 * b + c) sdiv 100 = 4 * a + b" .
  have "(4 * a + b) AND 3 = (4 * a + b) mod 4"
    using take_bit_eq_mask [of 2 "4 * a + b"] by (simp add: take_bit_eq_mod mask_eq_exp_minus_1)
  then have q: "(4 * a + b) AND 3 = b" using assms by simp
  have d: "drop_bit 2 (4 * a + b) = a" using assms by (simp add: drop_bit_eq_div)
  have "(132 + 400 * a + 100 * b + c) div 4 = (c + (33 + 100 * a + 25 * b) * 4) div 4" by (simp add: algebra_simps)
  also have "\<dots> = 33 + 100 * a + 25 * b + c div 4" by (subst div_mult_self1) simp_all
  finally have f: "(131 + 400 * a + 100 * b + c + 1) sdiv 4 = 33 + 100 * a + 25 * b + c div 4"
    using assms by (simp add: signed_divide_int_def algebra_simps)
  define x where "x = 400 * a + 100 * b + c"
  have x: "0 \<le> x" "131 + 400 * a + 100 * b + c = 131 + x" using assms by (simp_all add: x_def)
  have "timegm_days (131 + x) = (131 + x) * 365 + (33 + 100 * a + 25 * b + c div 4) - (3 * a + 1 + min 2 b)"
    unfolding timegm_days_def f [unfolded x(2)] Let_def add_diff_cancel_left' z [folded x_def] q d
    using x(1) assms(2,3) by (simp add: min_def)
  then show ?thesis by (simp only: x(2))
qed

lemma timegm_days_step:
  assumes "0 \<le> y"
  shows "timegm_days (y + 1) = timegm_days y + year_len (1970 + y)"
proof (cases "131 \<le> y")
  case False
  have q: "(y + 2) div 4 = (y + 1) div 4 + (if (1970 + y) mod 4 = 0 then 1 else 0)" by presburger
  have h: "(1970 + y) mod 100 = 0 \<longleftrightarrow> y = 30 \<or> y = 130" using False assms by presburger
  consider "y = 130" | "y = 30" | "y < 130" "y \<noteq> 30" using False by linarith
  then show ?thesis
  proof cases
    case 1
    then show ?thesis
      using timegm_days_late [of 0 0 0] by (simp add: timegm_days_early year_len_isleap isleap_iff)
  next
    case 2
    then show ?thesis by (simp add: timegm_days_early year_len_isleap isleap_iff)
  next
    case 3
    then show ?thesis using assms q h
      by (simp add: timegm_days_early year_len_isleap isleap_iff add.commute [of y 2])
  qed
next
  case True
  define x a b c where "x = y - 131" and "a = x div 100 div 4" and "b = x div 100 mod 4" and "c = x mod 100"
  have "x = 100 * (x div 100) + c" "x div 100 = 4 * a + b" by (simp_all add: a_def b_def c_def)
  then have y: "y = 131 + 400 * a + 100 * b + c" by (simp add: x_def)
  have r: "0 \<le> a" "0 \<le> b" "b < 4" "0 \<le> c" "c < 100" using True by (simp_all add: a_def b_def c_def x_def)
  note L = timegm_days_late [OF r, folded y]
  have leap: "isleap (1970 + y) \<longleftrightarrow> (c + 1) mod 4 = 0 \<and> (c \<noteq> 99 \<or> b = 2)"
  proof -
    have "(1970 + y) mod 4 = (c + 1 + (525 + 100 * a + 25 * b) * 4) mod 4" by (simp add: y algebra_simps)
    also have "\<dots> = (c + 1) mod 4" by (rule mod_mult_self1)
    finally have 4: "(1970 + y) mod 4 = (c + 1) mod 4" .
    have "(1970 + y) mod 100 = (c + 1 + (21 + 4 * a + b) * 100) mod 100" by (simp add: y algebra_simps)
    also have "\<dots> = (c + 1) mod 100" by (rule mod_mult_self1)
    finally have 100: "(1970 + y) mod 100 = (c + 1) mod 100" .
    have "(1970 + y) mod 400 = (100 * b + c + 101 + (5 + a) * 400) mod 400" by (simp add: y algebra_simps)
    also have "\<dots> = (100 * b + c + 101) mod 400" by (rule mod_mult_self1)
    finally have 400: "(1970 + y) mod 400 = (100 * b + c + 101) mod 400" .
    have "(c + 1) mod 100 \<noteq> 0 \<longleftrightarrow> c \<noteq> 99" using r by (cases "c = 99") simp_all
    moreover have "c = 99 \<Longrightarrow> (100 * b + c + 101) mod 400 = 0 \<longleftrightarrow> b = 2" using r by presburger
    ultimately show ?thesis using True unfolding 4 100 400 by (subst isleap_iff) (auto simp: 4 100 400)
  qed
  show ?thesis
  proof (cases "c = 99")
    case False
    have "timegm_days (y + 1) = (y + 1) * 365 + (33 + 100 * a + 25 * b + (c + 1) div 4) - (3 * a + 1 + min 2 b)"
      using timegm_days_late [OF r(1-3), of "c + 1"] r False by (simp add: y add.assoc)
    moreover have "(c + 1) div 4 = c div 4 + (if (c + 1) mod 4 = 0 then 1 else 0)" by presburger
    ultimately show ?thesis using False by (simp add: L leap year_len_isleap)
  next
    case c: True
    show ?thesis
    proof (cases "b = 3")
      case True
      then have "timegm_days (y + 1) = (y + 1) * 365 + (33 + 100 * (a + 1)) - (3 * (a + 1) + 1)"
        using timegm_days_late [of "a + 1" 0 0] r c by (simp add: y algebra_simps)
      then show ?thesis using True c by (simp add: L leap year_len_isleap)
    next
      case False
      then have "timegm_days (y + 1) = (y + 1) * 365 + (33 + 100 * a + 25 * (b + 1)) - (3 * a + 1 + min 2 (b + 1))"
        using timegm_days_late [of a "b + 1" 0] r c by (simp add: y algebra_simps)
      moreover have "b = 0 \<or> b = 1 \<or> b = 2" using False r by linarith
      ultimately show ?thesis using c by (auto simp: L leap year_len_isleap)
    qed
  qed
qed

lemma timegm_days_years: "timegm_days (int n) = days_before_year n"
proof (induction n)
  case 0
  then show ?case by (simp add: timegm_days_early days_before_year_def)
next
  case (Suc n)
  then show ?case using timegm_days_step [of "int n"] by (simp add: days_before_year_def add.commute)
qed


section \<open>Conversions\<close>

text \<open>The seconds from 1970 to a date and time of day.\<close>

definition seconds_at :: "nat \<Rightarrow> nat \<Rightarrow> int \<Rightarrow> int \<Rightarrow> int \<Rightarrow> int \<Rightarrow> time_t" where
  "seconds_at n m d h mi sec = ((day_number n m d * 24 + h) * 60 + mi) * 60 + sec"

definition valid_clock :: "int \<Rightarrow> int \<Rightarrow> int \<Rightarrow> bool" where
  "valid_clock h mi sec \<longleftrightarrow> 0 \<le> h \<and> h < 24 \<and> 0 \<le> mi \<and> mi < 60 \<and> 0 \<le> sec \<and> sec < 60"

text \<open>The broken-down time that names a date and time of day.\<close>

definition tm_at :: "nat \<Rightarrow> nat \<Rightarrow> int \<Rightarrow> int \<Rightarrow> int \<Rightarrow> int \<Rightarrow> tm" where
  "tm_at n m d h mi sec = \<lparr>tm_sec = sec, tm_min = mi, tm_hour = h, tm_mday = d, tm_mon = int m,
     tm_year = 70 + int n, tm_wday = (day_number n m d + 4) mod 7,
     tm_yday = days_before_mon (1970 + int n) m + (d - 1), tm_isdst = 0\<rparr>"

lemma c_int_id: "- (2 ^ 31) \<le> x \<Longrightarrow> x < 2 ^ 31 \<Longrightarrow> c_int x = x"
  by (simp add: c_int_def sint_sbintrunc' signed_take_bit_int_eq_self)

lemma days_before_year_nonneg: "0 \<le> days_before_year n"
  unfolding days_before_year_def by (rule sum_nonneg) (simp add: year_len_isleap)

lemma days_before_mon_nonneg: "m < 12 \<Longrightarrow> 0 \<le> days_before_mon y m"
  by (drule month_cases, elim disjE) (simp_all add: days_before_mon_def mon_len_isleap lessThan_Suc numeral_eq_Suc)

lemma day_number_nonneg: "valid_date n m d \<Longrightarrow> 0 \<le> day_number n m d"
  using days_before_year_nonneg [of n] days_before_mon_nonneg [of m "1970 + int n"]
  by (simp add: day_number_def valid_date_def)

lemma nonneg_sdiv [simp]: "0 \<le> a \<Longrightarrow> 0 < b \<Longrightarrow> a sdiv b = a div b" "0 \<le> a \<Longrightarrow> 0 < b \<Longrightarrow> a smod b = a mod b" for a b :: int
  by (auto simp: signed_divide_int_def signed_modulo_int_def sgn_if)

lemma seconds_split:
  "D * 86400 + w = t \<Longrightarrow> q * 60 + s = w \<Longrightarrow> h * 60 + mi = q \<Longrightarrow> ((D * 24 + h) * 60 + mi) * 60 + s = t" for t :: int
  by simp

lemma gmtime_ok:
  assumes "0 \<le> t" "t < 2 ^ 47"
  obtains n m d h mi sec where "gmtime_r (Some t) True s = Some (Some (tm_at n m d h mi sec), s)"
    "valid_date n m d" "valid_clock h mi sec" "t = seconds_at n m d h mi sec"
proof -
  let ?w = "t mod 86400" and ?D = "t div 86400"
  have w: "0 \<le> ?w" "?w < 86400" and D: "0 \<le> ?D" "?D < 2 ^ 31 - 4" using assms by simp_all
  obtain n where n: "gmtime_year ?D 1970 = (?D - days_before_year n, 1970 + int n)"
    "0 \<le> ?D - days_before_year n" "?D - days_before_year n < year_len (1970 + int n)"
    by (rule gmtime_year_days [OF D(1)])
  let ?yd = "?D - days_before_year n"
  obtain md w' where md0: "gmtime_leap (1970 + int n) ?yd = (md, w')" by (rule prod.exhaust)
  note md = md0 [unfolded add.commute [of "1970::int"]]
  define m where "m = gmtime_mon 11 w'"
  note M = month_of_day [OF n(2,3) md0 m_def]
  let ?d = "md + (w' - spm ! m)"
  let ?h = "?w div 60 div 60" and ?mi = "?w div 60 mod 60" and ?s = "?w mod 60"
  have vd: "valid_date n m ?d" using M by (simp add: valid_date_def)
  have dn: "day_number n m ?d = ?D" using M(4) by (simp add: day_number_def)
  have ci: "c_int ?w = ?w" "c_int ?D = ?D" using w D by (simp_all add: c_int_id)
  have "gmtime_r (Some t) True s = Some (Some (tm_at n m ?d ?h ?mi ?s), s)"
    using assms w D M(4) unfolding gmtime_r_def
    by (simp add: Let_def ci n(1) md m_def [symmetric] tm_at_def dn tz_is_dst_def
        add.commute [of "4::int"] add.commute [of "1970::int"])
  moreover have "valid_clock ?h ?mi ?s"
    using w zdiv_mono1 [of ?w 86399 3600] by (simp add: valid_clock_def pos_imp_zdiv_nonneg_iff zdiv_zmult2_eq [symmetric])
  moreover have "t = seconds_at n m ?d ?h ?mi ?s"
    unfolding seconds_at_def dn
    by (rule seconds_split [OF div_mult_mod_eq div_mult_mod_eq div_mult_mod_eq, symmetric])
  ultimately show thesis using that vd by blast
qed

lemma timegm_mday_valid:
  assumes "valid_date n m d"
  shows "timegm_mday d (int m) y = Some (d, int m, y)"
proof -
  have m: "m < 12" "d \<le> mon_len (1970 + int n) m" using assms by (simp_all add: valid_date_def)
  have "spm_get (1 + int m) = Some (spm ! Suc m) \<and> mon_len (1970 + int n) m \<le> spm ! Suc m"
    using month_cases [OF m(1)]
    by (elim disjE) (simp_all add: spm_get_def arr_get_def spm_def mon_len_isleap)
  then show ?thesis using m(2) by (subst timegm_mday.simps) simp
qed

text \<open>The value of \<^verbatim>\<open>timegm\<close> once the members are normalised.\<close>

lemma timegm_eval:
  assumes "timegm_carry t0 = t" "timegm_mday (tm_mday t) (tm_mon t) (tm_year t) = Some (d, int m, 70 + int n)"
    and "m < 12" "tm_year t0 = 70 + int k"
    and yd: "yd = days_before_mon (1970 + int n) m + (d - 1)"
  shows "timegm (Some t0) s = Some
    ((((days_before_year k + yd) * 24 + tm_hour t) * 60 + tm_min t) * 60 + tm_sec t,
     Some (t\<lparr>tm_mday := d, tm_mon := int m, tm_year := 70 + int n, tm_yday := yd,
        tm_wday := c_int ((days_before_year k + yd + 4) smod 7)\<rparr>), s)"
proof -
  have sp: "spm_get (int m) = Some (spm ! m)" using assms(3) by (simp add: spm_get_def arr_get_def spm_def)
  have y: "\<not> 70 + int n < 70" by simp
  have eq: "spm ! m + d - 1 + (if isleap (70 + int n + 1900) \<and> int m > 1 then 1 else 0) = yd"
    using assms(3) by (simp add: yd spm_days)
  have dk: "timegm_days (70 + int k - 70) = days_before_year k" by (simp add: timegm_days_years)
  show ?thesis
    unfolding timegm_def option.case Let_def assms(1,2,4) bind.bind_lunit prod.case if_not_P [OF y] sp eq dk
    by simp
qed

lemma timegm_ok:
  assumes "valid_date n m d" "valid_clock h mi sec"
    "tm_sec t = sec" "tm_min t = mi" "tm_hour t = h" "tm_mday t = d" "tm_mon t = int m" "tm_year t = 70 + int n"
  shows "timegm (Some t) s = Some (seconds_at n m d h mi sec,
    Some (t\<lparr>tm_yday := days_before_mon (1970 + int n) m + (d - 1), tm_wday := (day_number n m d + 4) mod 7\<rparr>), s)"
proof -
  have c: "timegm_carry t = t" using assms by (simp add: timegm_carry_def valid_clock_def valid_date_def)
  have m: "m < 12" using assms(1) by (simp add: valid_date_def)
  have dn: "day_number n m d = days_before_year n + (days_before_mon (1970 + int n) m + (d - 1))"
    by (simp add: day_number_def)
  have ci: "c_int ((day_number n m d + 4) smod 7) = (day_number n m d + 4) mod 7"
    using day_number_nonneg [OF assms(1)] by (simp add: c_int_id)
  have "t\<lparr>tm_mday := d, tm_mon := int m, tm_year := 70 + int n\<rparr> = t" using assms by simp
  then show ?thesis
    using timegm_eval [OF c _ m assms(8) refl, of d n] timegm_mday_valid [OF assms(1)] assms(3-8)
    by (simp only: dn [symmetric] ci seconds_at_def)
qed

text \<open>The text of \<^verbatim>\<open>asctime\<close>, and the writes that produce it.\<close>

definition two_digits :: "int \<Rightarrow> rt_uint8_t list" where
  "two_digits i = [word_of_int (i div 10 + 48), word_of_int (i mod 10 + 48)]"

definition asc_text :: "tm \<Rightarrow> rt_uint8_t list" where
  "asc_text t =
     take 4 (drop (nat (tm_wday t) * 4) aligned_days) @ take 4 (drop (nat (tm_mon t) * 4) aligned_months)
     @ (if tm_mday t < 10 then [32, word_of_int (tm_mday t + 48)] else two_digits (tm_mday t))
     @ [32] @ two_digits (tm_hour t) @ [58] @ two_digits (tm_min t) @ [58] @ two_digits (tm_sec t)
     @ [32] @ two_digits ((tm_year t + 1900) div 100) @ two_digits ((tm_year t + 1900) mod 100) @ [10, 0]"

definition valid_tm :: "tm \<Rightarrow> bool" where
  "valid_tm t \<longleftrightarrow> 0 \<le> tm_wday t \<and> tm_wday t < 7 \<and> 0 \<le> tm_mon t \<and> tm_mon t < 12
     \<and> 1 \<le> tm_mday t \<and> tm_mday t \<le> 31 \<and> valid_clock (tm_hour t) (tm_min t) (tm_sec t)
     \<and> 0 \<le> tm_year t + 1900 \<and> tm_year t + 1900 < 10000"

lemma name_at_ok:
  "0 \<le> i \<Longrightarrow> nat i * 4 + 4 \<le> length tab \<Longrightarrow> name_at tab i = Some (take 4 (drop (nat i * 4) tab))"
  by (simp add: name_at_def fetch_def)

lemma asctime_tail_ok:
  assumes "length pre = 8" "length mid = 18" "valid_tm t" "0 \<le> c" "0 \<le> y"
  shows "asctime_tail t c y (pre @ mid @ rest) = Some (pre
     @ (if tm_mday t < 10 then [32, word_of_int (tm_mday t + 48)] else two_digits (tm_mday t))
     @ [32] @ two_digits (tm_hour t) @ [58] @ two_digits (tm_min t) @ [58] @ two_digits (tm_sec t)
     @ [32] @ two_digits c @ two_digits y @ [10, 0] @ rest)"
proof -
  obtain m0 m1 m2 m3 m4 m5 m6 m7 m8 m9 m10 m11 m12 m13 m14 m15 m16 m17 where
    mid: "mid = [m0, m1, m2, m3, m4, m5, m6, m7, m8, m9, m10, m11, m12, m13, m14, m15, m16, m17]"
    using assms(2) by (auto simp: numeral_eq_Suc length_Suc_conv)
  have "tm_mday t div 10 \<in> {0, 1, 2, 3} \<and> (tm_mday t div 10 = 0 \<longleftrightarrow> tm_mday t < 10)"
    using assms(3) by (auto simp: valid_tm_def)
  then have d: "(word_of_int (tm_mday t div 10 + 48) :: rt_uint8_t) = 48 \<longleftrightarrow> tm_mday t < 10" by auto
  have m: "tm_mday t < 10 \<Longrightarrow> tm_mday t mod 10 = tm_mday t" using assms(3) by (simp add: valid_tm_def)
  show ?thesis
    using assms(1,3,4,5) d m
    by (simp add: asctime_tail_def num2str_def blit_def arr_get_def arr_set_def mid two_digits_def valid_tm_def
        valid_clock_def nth_append list_update_append)
qed


section \<open>Properties\<close>

text \<open>
  C23: \<^verbatim>\<open>gmtime_r\<close> computes the Gregorian calendar: for every time of the next four million years the
  year and month loops stop, and the result is the valid date and time of day whose distance from
  the start of 1970, as a sum of year and month lengths, is the time; the day of the week and of
  the year agree with it.
\<close>

theorem gmtime_is_calendar:
  assumes "0 \<le> t" "t < 2 ^ 47"
  shows "\<exists>n m d h mi sec. gmtime_r (Some t) True s = Some (Some (tm_at n m d h mi sec), s)
     \<and> valid_date n m d \<and> valid_clock h mi sec \<and> t = seconds_at n m d h mi sec"
  using gmtime_ok [OF assms] by metis

theorem gmtime_is_calendar_witness:
  "\<exists>n m d h mi sec. gmtime_r (Some 951782400) True k_sample = Some (Some (tm_at n m d h mi sec), k_sample)
     \<and> valid_date n m d"
proof -
  have "(0::int) \<le> 951782400" "951782400 < (2::int) ^ 47" by simp_all
  then show ?thesis using gmtime_is_calendar by metis
qed

text \<open>
  C24: \<^verbatim>\<open>mktime\<close> undoes \<^verbatim>\<open>localtime_r\<close> in every time zone, for all times from 1970 on as seen in that
  zone, and finds nothing to normalise.
\<close>

theorem mktime_localtime:
  assumes "0 \<le> t + sint tz * 3600" "t + sint tz * 3600 < 2 ^ 47"
    and "localtime_r tz (Some t) True s = Some (Some r, s')"
  shows "mktime tz (Some r) s = Some (t, Some r, s)"
proof -
  obtain n m d h mi sec where
    g: "gmtime_r (Some (t + sint tz * 3600)) True s = Some (Some (tm_at n m d h mi sec), s)"
      "valid_date n m d" "valid_clock h mi sec" "t + sint tz * 3600 = seconds_at n m d h mi sec"
    by (rule gmtime_ok [OF assms(1,2)])
  have r: "r = tm_at n m d h mi sec" using assms(3) g(1) by (simp add: localtime_r_def)
  have "timegm (Some r) s = Some (t + sint tz * 3600, Some r, s)"
    using timegm_ok [OF g(2,3), of r s] unfolding g(4) by (simp add: r tm_at_def)
  then show ?thesis by (simp add: mktime_def)
qed

theorem mktime_localtime_witness:
  "\<exists>r. localtime_r 8 (Some 951782400) True k_sample = Some (Some r, k_sample)
     \<and> mktime 8 (Some r) k_sample = Some (951782400, Some r, k_sample)"
proof -
  have b: "0 \<le> 951782400 + sint (8 :: 8 word) * 3600" "951782400 + sint (8 :: 8 word) * 3600 < 2 ^ 47" by simp_all
  obtain r where "localtime_r 8 (Some 951782400) True k_sample = Some (Some r, k_sample)"
    using gmtime_ok [OF b, of k_sample] by (auto simp: localtime_r_def)
  then show ?thesis using mktime_localtime [OF b] by blast
qed

text \<open>
  A month number of 12 or more is not carried into the year.  The year is read before the
  members are normalised, so the result names the right date, but the time is that of the same
  date one year earlier.
\<close>

theorem timegm_month_carry_fails:
  assumes "valid_date (Suc n) m d" "valid_clock (tm_hour t) (tm_min t) (tm_sec t)"
    and "tm_mday t = d" "tm_mon t = int m + 12" "tm_year t = 70 + int n"
  shows "\<exists>r. timegm (Some t) s = Some
      (seconds_at (Suc n) m d (tm_hour t) (tm_min t) (tm_sec t) - year_len (1970 + int n) * 86400, Some r, s)
    \<and> tm_mon r = int m \<and> tm_year r = 70 + int (Suc n)"
proof -
  have m: "m < 12" using assms(1) by (simp add: valid_date_def)
  have c: "timegm_carry t = t\<lparr>tm_year := 70 + int (Suc n), tm_mon := int m\<rparr>"
    using assms(2-5) m by (simp add: timegm_carry_def valid_clock_def Let_def)
  have "days_before_year (Suc n) = days_before_year n + year_len (1970 + int n)"
    by (simp add: days_before_year_def)
  moreover have "timegm_mday d (int m) y = Some (d, int m, y)" for y by (rule timegm_mday_valid [OF assms(1)])
  ultimately show ?thesis
    using timegm_eval [OF c _ m assms(5) refl, of d "Suc n" s] assms(3)
    by (simp add: seconds_at_def day_number_def algebra_simps)
qed

text \<open>The first of month 12 of 1998, which is the first of January 1999.\<close>

definition carry_sample :: tm where
  "carry_sample = \<lparr>tm_sec = 0, tm_min = 0, tm_hour = 0, tm_mday = 1, tm_mon = 12, tm_year = 98,
     tm_wday = 0, tm_yday = 0, tm_isdst = 0\<rparr>"

theorem timegm_month_carry_fails_witness:
  "\<exists>r. timegm (Some carry_sample) k_sample = Some (seconds_at 29 0 1 0 0 0 - 365 * 86400, Some r, k_sample)"
proof -
  have "valid_date (Suc 28) 0 1" by (simp add: valid_date_def mon_len_isleap)
  moreover have "year_len 1998 = 365" by (simp add: year_len_isleap isleap_iff)
  ultimately show ?thesis
    using timegm_month_carry_fails [of 28 0 1 carry_sample k_sample]
    by (auto simp: carry_sample_def valid_clock_def)
qed

text \<open>
  A day past the end of January is not carried correctly.  The loop subtracts the days before
  the month it leaves, none for January, instead of the length of that month, so January 31 + d
  becomes February 31 + d, 31 days too late.
\<close>

theorem timegm_day_carry_fails:
  assumes "1 \<le> d" "d \<le> 28" "valid_clock (tm_hour t) (tm_min t) (tm_sec t)"
    and "tm_mday t = 31 + d" "tm_mon t = 0" "tm_year t = 70 + int n"
  shows "\<exists>r. timegm (Some t) s =
      Some (seconds_at n 1 d (tm_hour t) (tm_min t) (tm_sec t) + 31 * 86400, Some r, s)
    \<and> tm_mon r = 1 \<and> tm_mday r = 31 + d"
proof -
  have c: "timegm_carry t = t" using assms by (simp add: timegm_carry_def valid_clock_def)
  have l: "timegm_mday (31 + d) 0 y = Some (31 + d, 1, y)" for y
    using assms(1,2)
    by (subst timegm_mday.simps, simp add: spm_get_def arr_get_def spm_def)
      (subst timegm_mday.simps, simp add: spm_get_def arr_get_def spm_def)
  have "timegm_mday (tm_mday t) (tm_mon t) (tm_year t) = Some (31 + d, int 1, 70 + int n)"
    using l assms(4-6) by simp
  moreover have "days_before_mon (1970 + int n) 1 = 31" by (simp add: days_before_mon_def mon_len_isleap)
  ultimately show ?thesis
    using timegm_eval [OF c _ _ assms(6) refl, of "31 + d" 1 n s]
    by (simp add: seconds_at_def day_number_def algebra_simps)
qed

theorem timegm_day_carry_fails_witness:
  "\<exists>r. timegm (Some (carry_sample\<lparr>tm_mon := 0, tm_mday := 32\<rparr>)) k_sample
     = Some (seconds_at 28 1 1 0 0 0 + 31 * 86400, Some r, k_sample) \<and> tm_mday r = 32"
  using timegm_day_carry_fails [of 1 "carry_sample\<lparr>tm_mon := 0, tm_mday := 32\<rparr>" 28 k_sample]
  by (auto simp: carry_sample_def valid_clock_def)

text \<open>
  \<^verbatim>\<open>asctime_r\<close> writes exactly the 26 bytes of the standard text, with its line end and its
  terminating zero, and no byte of the buffer behind them.
\<close>

theorem asctime_writes_text:
  assumes "valid_tm t" "26 \<le> length buf"
  shows "asctime_r (Some t) (Some buf) s = Some (Some (asc_text t @ drop 26 buf), s)"
proof -
  have v: "0 \<le> tm_wday t" "nat (tm_wday t) * 4 + 4 \<le> length aligned_days" "tm_wday t * 4 < 28"
    "0 \<le> tm_mon t" "nat (tm_mon t) * 4 + 4 \<le> length aligned_months" "tm_mon t * 4 < 48" "0 \<le> tm_year t + 1900"
    using assms(1) by (auto simp: valid_tm_def aligned_days_def aligned_months_def)
  define d m where "d = take 4 (drop (nat (tm_wday t) * 4) aligned_days)"
    and "m = take 4 (drop (nat (tm_mon t) * 4) aligned_months)"
  have len: "length d = 4" "length m = 4" using v by (simp_all add: d_def m_def)
  have "blit buf 0 (replicate 26 0) = Some (replicate 26 0 @ drop 26 buf)" using assms(2) by (simp add: blit_def)
  moreover have "blit (replicate 26 0 @ drop 26 buf) 0 d = Some (d @ replicate 22 0 @ drop 26 buf)"
    "blit (d @ replicate 22 0 @ drop 26 buf) 4 m = Some ((d @ m) @ replicate 18 0 @ drop 26 buf)"
    using assms(2) len by (simp_all add: blit_def)
  moreover have "name_at aligned_days (tm_wday t) = Some d" "name_at aligned_months (tm_mon t) = Some m"
    unfolding d_def m_def using v by (simp_all add: name_at_ok)
  moreover have "asctime_tail t ((tm_year t + 1900) sdiv 100) ((tm_year t + 1900) smod 100) ((d @ m) @ replicate 18 0 @ drop 26 buf)
      = Some (asc_text t @ drop 26 buf)"
    using asctime_tail_ok [of "d @ m" "replicate 18 0" t "(tm_year t + 1900) div 100" "(tm_year t + 1900) mod 100" "drop 26 buf"]
      len assms(1) v(7) by (simp add: asc_text_def d_def m_def pos_imp_zdiv_nonneg_iff)
  ultimately show ?thesis using v by (simp add: asctime_r_def)
qed

theorem asctime_writes_text_witness:
  "asctime_r (Some (carry_sample\<lparr>tm_mon := 5, tm_mday := 30\<rparr>)) (Some (replicate 27 1)) k_sample
     = Some (Some (map of_char ''Sun Jun 30 00:00:00 1998'' @ [10, 0, 1]), k_sample)"
proof -
  let ?t = "carry_sample\<lparr>tm_mon := 5, tm_mday := 30\<rparr>"
  have "asc_text ?t = map of_char ''Sun Jun 30 00:00:00 1998'' @ [10, 0]"
    by (simp add: asc_text_def carry_sample_def two_digits_def aligned_days_def aligned_months_def)
  moreover have "valid_tm ?t" by (simp add: valid_tm_def valid_clock_def carry_sample_def)
  ultimately show ?thesis
    using asctime_writes_text [of ?t "replicate 27 1" k_sample] by simp
qed

end
