(* ===== verification/Mempool.thy ===== *)
theory Mempool
  imports Mailbox Mutex
begin

text \<open>
  Memory pools, src/mempool.c: a fixed number of blocks of one size.  The free blocks form a
  list through their first words; the first word of an allocated block is the address of its pool.
  A pointer to a block is the number of the pool and the number of the block in it.  As in the
  mailboxes, \<open>mp_alloc_loop\<close> is one turn of the waiting loop of \<^verbatim>\<open>rt_mp_alloc\<close>.
\<close>

section \<open>Operations\<close>

definition upd_mp :: "nat \<Rightarrow> (rt_mempool \<Rightarrow> rt_mempool) \<Rightarrow> kstate \<Rightarrow> kstate" where
  "upd_mp n f s = s\<lparr>k_mp := (k_mp s)(n := f (k_mp s n))\<rparr>"

text \<open>
  The list of all blocks, built in a memory of \<open>mem\<close> bytes with \<open>step\<close> bytes per block.  The last
  write goes to the block before the loop's end, which is before the memory when there is none.
\<close>

fun mp_link_loop :: "nat \<Rightarrow> (nat \<Rightarrow> mp_word) \<Rightarrow> (nat \<Rightarrow> mp_word)" where
  "mp_link_loop 0 w = w"
| "mp_link_loop (Suc k) w = (mp_link_loop k w)(k := Mp_block (k + 1))"

definition mp_format :: "nat \<Rightarrow> nat \<Rightarrow> nat \<Rightarrow> (nat \<Rightarrow> mp_word) \<Rightarrow> (nat \<Rightarrow> mp_word) option" where
  "mp_format mem step cnt w =
     (if 0 < cnt \<and> (cnt - 1) * step + 4 \<le> mem
      then Some ((mp_link_loop cnt w)(cnt - 1 := Mp_null)) else None)"

text \<open>A division by zero is an error of the model; \<open>w\<close> is what the memory held before.\<close>

definition rt_mp_init ::
  "nat \<Rightarrow> (nat \<Rightarrow> mp_word) \<Rightarrow> rt_uint32_t \<Rightarrow> rt_uint32_t \<Rightarrow> kstate \<Rightarrow> (rt_err_t \<times> kstate) option" where
  "rt_mp_init n w sz block_size s = do {
     RT_ASSERT (0 < sz \<and> 0 < block_size);
     s1 \<leftarrow> object_init_check (mp_obj (k_mp s n)) s;
     let size_down = RT_ALIGN_DOWN sz 4;
     let bs = RT_ALIGN block_size 4;
     RT_ASSERT (bs + 4 \<noteq> 0);
     let cnt = unat (size_down div (bs + 4));
     words \<leftarrow> mp_format (unat size_down) (unat (bs + 4)) cnt w;
     Some (RT_EOK, upd_mp n (\<lambda>_. \<lparr>mp_obj = True, mp_system = True, mp_size = unat size_down,
         mp_block_size = unat bs, mp_block_total_count = cnt, mp_block_free_count = cnt,
         mp_block_list = Some 0, mp_words = words\<rparr>) (ipc_object_init (MpQ n) s1))
   }"

definition rt_mp_detach :: "nat \<Rightarrow> kstate \<Rightarrow> (rt_err_t \<times> kstate) option" where
  "rt_mp_detach n s = do {
     RT_ASSERT (mp_obj (k_mp s n));
     RT_ASSERT (mp_system (k_mp s n));
     s1 \<leftarrow> ipc_list_resume_all (MpQ n) s;
     Some (RT_EOK, upd_mp n (\<lambda>m. m\<lparr>mp_obj := False\<rparr>) s1)
   }"

text \<open>
  The arguments obj and pool are the answers of the object and memory allocators; the memory has
  the requested size, which is computed in 32 bits.
\<close>

definition rt_mp_create ::
  "nat option \<Rightarrow> (nat \<Rightarrow> mp_word) option \<Rightarrow> rt_uint32_t \<Rightarrow> rt_uint32_t \<Rightarrow> kstate \<Rightarrow> (nat option \<times> kstate) option" where
  "rt_mp_create obj pool block_count block_size s = do {
     RT_ASSERT (k_irq_nest s = 0);
     RT_ASSERT (0 < block_count \<and> 0 < block_size);
     (case obj of
        None \<Rightarrow> Some (None, s)
      | Some n \<Rightarrow>
          (let bs = RT_ALIGN block_size 4;
               mem = (bs + 4) * block_count
           in case pool of
                None \<Rightarrow> Some (None, upd_mp n (\<lambda>m. m\<lparr>mp_obj := False, mp_block_size := unat bs,
                                                 mp_size := unat mem\<rparr>) s)
              | Some w \<Rightarrow> do {
                  words \<leftarrow> mp_format (unat mem) (unat (bs + 4)) (unat block_count) w;
                  Some (Some n, upd_mp n (\<lambda>_. \<lparr>mp_obj = True, mp_system = False, mp_size = unat mem,
                      mp_block_size = unat bs, mp_block_total_count = unat block_count,
                      mp_block_free_count = unat block_count, mp_block_list = Some 0,
                      mp_words = words\<rparr>) (ipc_object_init (MpQ n) s))
                }))
   }"

definition rt_mp_delete :: "nat \<Rightarrow> kstate \<Rightarrow> (rt_err_t \<times> kstate) option" where
  "rt_mp_delete n s = do {
     RT_ASSERT (k_irq_nest s = 0);
     RT_ASSERT (mp_obj (k_mp s n));
     RT_ASSERT (\<not> mp_system (k_mp s n));
     s1 \<leftarrow> ipc_list_resume_all (MpQ n) s;
     Some (RT_EOK, upd_mp n (\<lambda>m. m\<lparr>mp_obj := False\<rparr>) s1)
   }"

text \<open>The link of a free block; the address of a pool is not a block.\<close>

definition mp_link :: "mp_word \<Rightarrow> nat option option" where
  "mp_link w = (case w of Mp_null \<Rightarrow> Some None | Mp_block j \<Rightarrow> Some (Some j) | Mp_pool _ \<Rightarrow> None)"

definition mp_take :: "nat \<Rightarrow> rt_mempool \<Rightarrow> (nat \<times> rt_mempool) option" where
  "mp_take n m = do {
     i \<leftarrow> mp_block_list m;
     next \<leftarrow> mp_link (mp_words m i);
     Some (i, m\<lparr>mp_block_free_count := mp_block_free_count m - 1, mp_block_list := next,
                mp_words := (mp_words m)(i := Mp_pool n)\<rparr>)
   }"

definition mp_give :: "nat \<Rightarrow> rt_mempool \<Rightarrow> rt_mempool" where
  "mp_give i m = m\<lparr>mp_block_free_count := mp_block_free_count m + 1,
     mp_words := (mp_words m)(i := (case mp_block_list m of None \<Rightarrow> Mp_null | Some j \<Rightarrow> Mp_block j)),
     mp_block_list := Some i\<rparr>"

text \<open>A thread that has to wait is put in front of the other waiters.\<close>

abbreviation at_front :: place where "at_front \<equiv> \<lambda>_ t us. t # us"

definition mp_alloc_loop :: "nat \<Rightarrow> int \<Rightarrow> tid option \<Rightarrow> kstate \<Rightarrow> (nat option outcome \<times> kstate) option" where
  "mp_alloc_loop n timeout self s =
     (if mp_block_free_count (k_mp s n) = 0
      then if timeout = 0 then Some (Returned None, rt_set_errno (- RT_ETIMEOUT) s)
           else do {
             RT_ASSERT (k_irq_nest s = 0);
             t \<leftarrow> self;
             s1 \<leftarrow> wait_in at_front (MpQ n) t timeout (upd_thread t (\<lambda>th. th\<lparr>th_error := RT_EOK\<rparr>) s);
             Some (Blocked, s1)
           }
      else do {
        (i, m) \<leftarrow> mp_take n (k_mp s n);
        Some (Returned (Some i), upd_mp n (\<lambda>_. m) s)
      })"

definition rt_mp_alloc :: "nat \<Rightarrow> int \<Rightarrow> kstate \<Rightarrow> (nat option outcome \<times> kstate) option" where
  "rt_mp_alloc n timeout s = mp_alloc_loop n timeout (rt_thread_self s) s"

definition mp_alloc_resume ::
  "nat \<Rightarrow> int \<Rightarrow> rt_tick_t \<Rightarrow> tid \<Rightarrow> kstate \<Rightarrow> (nat option outcome \<times> kstate) option" where
  "mp_alloc_resume n timeout start t s =
     (if th_error (k_thread s t) \<noteq> RT_EOK then Some (Returned None, s)
      else mp_alloc_loop n (remaining_timeout timeout start (rt_tick_get s)) (Some t) s)"

text \<open>
  Freeing reads the pool from the word before the block.  A word that is not the address of the
  pool of the block is followed as a wild pointer.
\<close>

definition rt_mp_free :: "(nat \<times> nat) option \<Rightarrow> kstate \<Rightarrow> kstate option" where
  "rt_mp_free block s =
     (case block of
        None \<Rightarrow> Some s
      | Some (n, i) \<Rightarrow> do {
          RT_ASSERT (i < mp_block_total_count (k_mp s n));
          RT_ASSERT (mp_words (k_mp s n) i = Mp_pool n);
          let s1 = upd_mp n (mp_give i) s;
          (case k_lists s1 (MpQ n) of
             [] \<Rightarrow> Some s1
           | t # _ \<Rightarrow> do {
               (_, s2) \<leftarrow> rt_thread_resume t (upd_thread t (\<lambda>th. th\<lparr>th_error := RT_EOK\<rparr>) s1);
               rt_schedule s2
             })
        })"


section \<open>The free list\<close>

text \<open>\<open>fl\<close> lists the free blocks; every other block of the pool carries the address of the pool.\<close>

fun free_path :: "(nat \<Rightarrow> mp_word) \<Rightarrow> nat option \<Rightarrow> nat list \<Rightarrow> bool" where
  "free_path w p [] \<longleftrightarrow> p = None"
| "free_path w p (i # is) \<longleftrightarrow> p = Some i \<and> (\<exists>q. mp_link (w i) = Some q \<and> free_path w q is)"

definition mp_inv :: "nat \<Rightarrow> rt_mempool \<Rightarrow> nat list \<Rightarrow> bool" where
  "mp_inv n m fl \<longleftrightarrow> free_path (mp_words m) (mp_block_list m) fl \<and> distinct fl
     \<and> set fl \<subseteq> {..<mp_block_total_count m} \<and> mp_block_free_count m = length fl
     \<and> (\<forall>i < mp_block_total_count m. i \<notin> set fl \<longrightarrow> mp_words m i = Mp_pool n)"

lemma mp_link_simps [simp]:
  "mp_link Mp_null = Some None" "mp_link (Mp_block j) = Some (Some j)" "mp_link (Mp_pool m) = None"
  by (simp_all add: mp_link_def)

lemma free_path_upd: "i \<notin> set fl \<Longrightarrow> free_path (w(i := x)) p fl = free_path w p fl"
  by (induction fl arbitrary: p) auto

lemma free_path_cong: "(\<And>i. i \<in> set fl \<Longrightarrow> w' i = w i) \<Longrightarrow> free_path w' p fl = free_path w p fl"
  by (induction fl arbitrary: p) auto

lemma link_loop: "mp_link_loop k w i = (if i < k then Mp_block (i + 1) else w i)"
  by (induction k) auto

lemma format_ok:
  assumes "mp_format mem step cnt w = Some w'"
  shows "0 < cnt" "free_path w' (Some 0) [0..<cnt]"
proof -
  show c: "0 < cnt" using assms by (simp add: mp_format_def split: if_splits)
  have w': "w' i = (if i = cnt - 1 then Mp_null else Mp_block (i + 1))" if "i < cnt" for i
    using assms that by (auto simp: mp_format_def link_loop split: if_splits)
  have "free_path w' (if k < cnt then Some k else None) [k..<cnt]" if "k \<le> cnt" for k
    using that
  proof (induction "cnt - k" arbitrary: k)
    case (Suc d)
    then have k: "k < cnt" "[k..<cnt] = k # [Suc k..<cnt]" by (auto simp: upt_conv_Cons)
    have "free_path w' (if Suc k < cnt then Some (Suc k) else None) [Suc k..<cnt]"
      using Suc.hyps(2) k(1) by (intro Suc.hyps(1)) auto
    then show ?case using k w' [OF k(1)] by (cases "Suc k < cnt") auto
  qed simp
  from this [of 0] show "free_path w' (Some 0) [0..<cnt]" using c by simp
qed

lemma format_inv:
  assumes "mp_format mem step cnt w = Some w'" "mp_words m = w'" "mp_block_list m = Some 0"
    and "mp_block_total_count m = cnt" "mp_block_free_count m = cnt"
  shows "mp_inv n m [0..<cnt]"
  using format_ok [OF assms(1)] assms(2-5) by (auto simp: mp_inv_def)

lemma mp_take_ok:
  assumes inv: "mp_inv n m fl" and ne: "mp_block_free_count m \<noteq> 0"
  obtains i fl' m' where "mp_take n m = Some (i, m')" "fl = i # fl'" "mp_inv n m' fl'"
    "i < mp_block_total_count m" "mp_block_total_count m' = mp_block_total_count m"
proof -
  obtain i fl' where fl: "fl = i # fl'" using inv ne by (cases fl) (auto simp: mp_inv_def)
  obtain q where q: "mp_block_list m = Some i" "mp_link (mp_words m i) = Some q" "free_path (mp_words m) q fl'"
    using inv by (auto simp: mp_inv_def fl)
  let ?m = "m\<lparr>mp_block_free_count := mp_block_free_count m - 1, mp_block_list := q,
      mp_words := (mp_words m)(i := Mp_pool n)\<rparr>"
  have "mp_inv n ?m fl'" using inv q(3) by (auto simp: mp_inv_def fl free_path_upd)
  moreover have "mp_take n m = Some (i, ?m)" using q by (simp add: mp_take_def)
  moreover have "i < mp_block_total_count m" using inv by (simp add: mp_inv_def fl)
  ultimately show thesis using that fl by simp
qed

lemma mp_give_ok:
  assumes inv: "mp_inv n m fl" and i: "i < mp_block_total_count m" "i \<notin> set fl"
  shows "mp_inv n (mp_give i m) (i # fl)"
  using inv i
  by (cases fl; auto simp: mp_inv_def mp_give_def free_path_upd split: option.splits)


section \<open>Operations on the kernel state\<close>

lemma upd_mp_simps [simp]:
  "k_thread (upd_mp n f s) = k_thread s" "k_lists (upd_mp n f s) = k_lists s"
  "k_group (upd_mp n f s) = k_group s" "k_current (upd_mp n f s) = k_current s"
  "k_lock_nest (upd_mp n f s) = k_lock_nest s" "k_irq_nest (upd_mp n f s) = k_irq_nest s"
  "k_tick (upd_mp n f s) = k_tick s" "k_timer (upd_mp n f s) = k_timer s"
  "k_timers (upd_mp n f s) = k_timers s" "k_mp (upd_mp n f s) = (k_mp s)(n := f (k_mp s n))"
  by (simp_all add: upd_mp_def)

lemma kinv_upd_mp [simp]: "kinv (upd_mp n f s) = kinv s"
  by (rule kinv_cong) simp_all

lemma set_errno_ok:
  "kinv s \<Longrightarrow> kinv (rt_set_errno e s)"
  "k_mp (rt_set_errno e s) = k_mp s" "k_lists (rt_set_errno e s) = k_lists s"
  by (auto simp: rt_set_errno_def kinv_set_error split: option.split)

definition mp_got :: "nat option outcome \<Rightarrow> nat set" where
  "mp_got r = (case r of Returned (Some i) \<Rightarrow> {i} | _ \<Rightarrow> {})"

definition mp_ok :: "nat \<Rightarrow> kstate \<Rightarrow> nat set \<Rightarrow> bool" where
  "mp_ok n s A \<longleftrightarrow> kinv s \<and> (\<exists>fl. mp_inv n (k_mp s n) fl \<and> A = {..<mp_block_total_count (k_mp s n)} - set fl)"

lemma mp_alloc_blocks:
  assumes inv: "kinv s" and t: "may_block s t" and none: "mp_block_free_count (k_mp s n) = 0"
    and tmo: "timeout \<noteq> 0" "timeout_ok timeout"
  obtains s' where "mp_alloc_loop n timeout (Some t) s = Some (Blocked, s')" "kinv s'" "k_mp s' = k_mp s"
    "th_base s' t = RT_THREAD_SUSPEND" "k_lists s' (MpQ n) = t # k_lists s (MpQ n)"
    "th_error (k_thread s' t) = RT_EOK" "k_tick s' = k_tick s"
proof -
  have h: "wait_queue (MpQ n)" by simp
  obtain s' where s': "wait_in at_front (MpQ n) t timeout (upd_thread t (\<lambda>th. th\<lparr>th_error := RT_EOK\<rparr>) s) = Some s'"
    "kinv s'" "th_base s' t = RT_THREAD_SUSPEND" "objs_frame s s'" "k_tick s' = k_tick s"
    "\<And>g. wait_queue g \<Longrightarrow> k_lists s' g = (if g = MpQ n then t # k_lists s (MpQ n) else k_lists s g)"
    "0 < timeout \<Longrightarrow> tm_row (k_timer s' (ThreadTimer t)) = Some Timer_list
       \<and> tm_timeout_tick (k_timer s' (ThreadTimer t)) = k_tick s + word_of_int timeout"
    "th_error (k_thread s' t) = RT_EOK"
    by (rule block_in_ok [OF inv t h place_ok_simps(2) tmo(2)]) blast
  show thesis
    by (rule that [of s'])
      (use s' none tmo(1) may_blockD(4) [OF t] in \<open>simp_all add: mp_alloc_loop_def objs_frame_def\<close>)
qed

text \<open>One turn of the loop, whatever its outcome.\<close>

lemma mp_alloc_loop_step:
  assumes ok: "mp_ok n s A"
    and t: "mp_block_free_count (k_mp s n) = 0 \<Longrightarrow> timeout \<noteq> 0 \<Longrightarrow> may_block s t"
    and tmo: "timeout_ok timeout" and run: "mp_alloc_loop n timeout (Some t) s = Some (r, s')"
  shows "mp_ok n s' (A \<union> mp_got r) \<and> mp_got r \<inter> A = {}
     \<and> mp_block_total_count (k_mp s' n) = mp_block_total_count (k_mp s n)"
proof -
  obtain fl where fl: "kinv s" "mp_inv n (k_mp s n) fl" "A = {..<mp_block_total_count (k_mp s n)} - set fl"
    using ok by (auto simp: mp_ok_def)
  consider "mp_block_free_count (k_mp s n) \<noteq> 0" | "mp_block_free_count (k_mp s n) = 0" "timeout = 0"
    | "mp_block_free_count (k_mp s n) = 0" "timeout \<noteq> 0" by blast
  then show ?thesis
  proof cases
    case 1
    obtain i fl' m' where m': "mp_take n (k_mp s n) = Some (i, m')" "fl = i # fl'" "mp_inv n m' fl'"
      "i < mp_block_total_count (k_mp s n)" "mp_block_total_count m' = mp_block_total_count (k_mp s n)"
      by (rule mp_take_ok [OF fl(2) 1])
    have rs: "r = Returned (Some i)" "s' = upd_mp n (\<lambda>_. m') s"
      using run 1 m'(1) by (simp_all add: mp_alloc_loop_def)
    have "i \<notin> set fl'" using fl(2) m'(2) by (simp add: mp_inv_def)
    then show ?thesis
      using fl m' rs by (auto simp: mp_ok_def mp_got_def intro!: exI [of _ fl'])
  next
    case 2
    then have rs: "r = Returned None" "s' = rt_set_errno (- RT_ETIMEOUT) s"
      using run by (simp_all add: mp_alloc_loop_def)
    then show ?thesis using ok set_errno_ok by (auto simp: mp_ok_def mp_got_def)
  next
    case 3
    obtain s'' where "mp_alloc_loop n timeout (Some t) s = Some (Blocked, s'')" "kinv s''" "k_mp s'' = k_mp s"
      by (rule mp_alloc_blocks [OF fl(1) t [OF 3] 3 tmo]) blast
    then show ?thesis using run fl by (auto simp: mp_ok_def mp_got_def)
  qed
qed

lemma mp_free_step:
  assumes ok: "mp_ok n s A" and cur: "k_current s = Some c" and i: "i \<in> A"
  obtains s' where "rt_mp_free (Some (n, i)) s = Some s'" "mp_ok n s' (A - {i})"
    "mp_block_total_count (k_mp s' n) = mp_block_total_count (k_mp s n)"
    "k_mp s' n = mp_give i (k_mp s n)" "k_lists s' (MpQ n) = tl (k_lists s (MpQ n))"
    "\<And>t ts. k_lists s (MpQ n) = t # ts \<Longrightarrow> th_base s' t \<in> {RT_THREAD_READY, RT_THREAD_RUNNING}
       \<and> th_error (k_thread s' t) = RT_EOK"
proof -
  let ?s1 = "upd_mp n (mp_give i) s"
  obtain fl where fl: "kinv s" "mp_inv n (k_mp s n) fl" "A = {..<mp_block_total_count (k_mp s n)} - set fl"
    using ok by (auto simp: mp_ok_def)
  have bi: "i < mp_block_total_count (k_mp s n)" "i \<notin> set fl" "mp_words (k_mp s n) i = Mp_pool n"
    using fl(2,3) i by (auto simp: mp_inv_def)
  have g: "mp_inv n (mp_give i (k_mp s n)) (i # fl)" by (rule mp_give_ok [OF fl(2) bi(1,2)])
  have tc: "mp_block_total_count (mp_give i m) = mp_block_total_count m" for m by (simp add: mp_give_def)
  have ok': "mp_ok n s' (A - {i})" if "kinv s'" "k_mp s' n = mp_give i (k_mp s n)" for s'
    using that g fl(3) by (auto simp: mp_ok_def tc intro!: exI [of _ "i # fl"])
  show thesis
  proof (cases "k_lists s (MpQ n)")
    case Nil
    have "rt_mp_free (Some (n, i)) s = Some ?s1" using bi Nil by (simp add: rt_mp_free_def)
    then show thesis using that [of ?s1] ok' [of ?s1] fl(1) Nil tc by simp
  next
    case (Cons t ts)
    let ?s2 = "upd_thread t (\<lambda>th. th\<lparr>th_error := RT_EOK\<rparr>) ?s1"
    have inv2: "kinv ?s2" by (rule kinv_set_error) (simp add: fl(1))
    have q2: "k_lists ?s2 (MpQ n) = t # ts" using Cons by simp
    have h: "wait_queue (MpQ n)" by simp
    obtain s3 where s3: "rt_thread_resume t ?s2 = Some (RT_EOK, s3)" "kinv s3"
        "th_base s3 t = (if k_current ?s2 = Some t then RT_THREAD_RUNNING else RT_THREAD_READY)"
        "\<And>g. wait_queue g \<Longrightarrow> k_lists s3 g = (if g = MpQ n then ts else k_lists ?s2 g)"
        "thread_frame {t} ?s2 s3"
      using list_resume_ok [OF inv2 h q2] by blast
    note fr3 = thread_frameD [OF s3(5)]
    have c3: "k_current s3 = Some c" using fr3(5) cur by simp
    obtain s' where s': "rt_schedule s3 = Some s'" "kinv s'" "sched_frame s3 s'"
      using schedule_kinv [OF s3(2) c3] by metis
    note fr = sched_frameD [OF s'(3)]
    have mp: "k_mp s' n = mp_give i (k_mp s n)" using fr(1) fr3(1) by (simp add: objs_frame_def)
    have rdy: "th_base s3 t \<in> {RT_THREAD_READY, RT_THREAD_RUNNING}" using s3(3) by simp
    have err: "th_error (k_thread s' t) = RT_EOK"
      using th_core_simps [OF fr(7), of t] th_core_simps [OF fr3(7), of t] by simp
    have l: "k_lists s' (MpQ n) = ts" using fr(10) [of "MpQ n"] s3(4) [OF h] by simp
    have run: "rt_mp_free (Some (n, i)) s = Some s'"
      using bi Cons s3(1) s'(1) by (simp add: rt_mp_free_def)
    show thesis
      by (rule that [OF run ok' [OF s'(2) mp] _ mp]) (use l Cons fr(9) [OF rdy] rdy err tc mp in auto)
  qed
qed

text \<open>An initialised pool has all blocks free.\<close>

lemma mp_init_inv:
  assumes "rt_mp_init n w sz bs s = Some (e, s')"
  shows "mp_inv n (k_mp s' n) [0..<mp_block_total_count (k_mp s' n)] \<and> 0 < mp_block_total_count (k_mp s' n)"
  using assms format_inv [of _ _ _ _ _ "k_mp s' n" n] format_ok(1)
  by (fastforce simp: rt_mp_init_def Let_def bind_eq_Some_conv)

lemma mp_create_inv:
  assumes "rt_mp_create (Some n) (Some w) cnt bs s = Some (Some n, s')"
  shows "mp_inv n (k_mp s' n) [0..<unat cnt]"
  using assms format_inv [of _ _ _ _ _ "k_mp s' n" n]
  by (fastforce simp: rt_mp_create_def Let_def bind_eq_Some_conv)


section \<open>Histories\<close>

text \<open>
  A pool through any history of allocations (from threads, waiting or not, and from interrupts),
  resumptions, releases of allocated blocks and other kernel activity; A is the set of the blocks
  handed out and not yet released.
\<close>

inductive mp_history :: "nat \<Rightarrow> kstate \<Rightarrow> nat set \<Rightarrow> bool" for n where
  start: "\<lbrakk>kinv s; mp_inv n (k_mp s n) [0..<mp_block_total_count (k_mp s n)]\<rbrakk> \<Longrightarrow> mp_history n s {}"
| alloc: "\<lbrakk>mp_history n s A; may_block s t; timeout_ok timeout; rt_mp_alloc n timeout s = Some (r, s')\<rbrakk>
    \<Longrightarrow> mp_history n s' (A \<union> mp_got r)"
| alloc_interrupt: "\<lbrakk>mp_history n s A; k_current s = Some c; rt_mp_alloc n 0 s = Some (r, s')\<rbrakk>
    \<Longrightarrow> mp_history n s' (A \<union> mp_got r)"
| alloc_resumed: "\<lbrakk>mp_history n s A; may_block s t; timeout_ok timeout; unat (k_tick s - start) < 2 ^ 31;
      mp_alloc_resume n timeout start t s = Some (r, s')\<rbrakk> \<Longrightarrow> mp_history n s' (A \<union> mp_got r)"
| free: "\<lbrakk>mp_history n s A; k_current s = Some c; i \<in> A; rt_mp_free (Some (n, i)) s = Some s'\<rbrakk>
    \<Longrightarrow> mp_history n s' (A - {i})"
| other: "\<lbrakk>mp_history n s A; kinv s'; k_mp s' n = k_mp s n\<rbrakk> \<Longrightarrow> mp_history n s' A"

lemma mp_history_ok: "mp_history n s A \<Longrightarrow> mp_ok n s A"
proof (induction rule: mp_history.induct)
  case (start s)
  then show ?case by (auto simp: mp_ok_def)
next
  case (alloc s A t timeout r s')
  then show ?case
    using mp_alloc_loop_step [OF alloc.IH, of timeout t r s'] may_blockD(1,7) [OF alloc.hyps(2)]
    by (simp add: rt_mp_alloc_def)
next
  case (alloc_interrupt s A c r s')
  then have "mp_alloc_loop n 0 (Some c) s = Some (r, s')" by (simp add: rt_mp_alloc_def rt_thread_self_def)
  then show ?case using mp_alloc_loop_step [OF alloc_interrupt.IH, of 0 c r s'] by (simp add: timeout_ok_def)
next
  case (alloc_resumed s A t timeout start r s')
  show ?case
  proof (cases "th_error (k_thread s t) = RT_EOK")
    case True
    then have "mp_alloc_loop n (remaining_timeout timeout start (k_tick s)) (Some t) s = Some (r, s')"
      using alloc_resumed.hyps by (simp add: mp_alloc_resume_def rt_tick_get_def)
    then show ?thesis
      using mp_alloc_loop_step [OF alloc_resumed.IH _ remaining_ok [OF alloc_resumed.hyps(3,4)]] alloc_resumed.hyps(2) by blast
  next
    case False
    then have "r = Returned None \<and> s' = s" using alloc_resumed.hyps by (simp add: mp_alloc_resume_def)
    then show ?thesis using alloc_resumed.IH by (simp add: mp_got_def)
  qed
next
  case (free s A c i s')
  then show ?case using mp_free_step [OF free.IH, of c i] by (metis option.inject)
next
  case (other s A s')
  then show ?case by (auto simp: mp_ok_def)
qed

lemma mp_ok_count:
  assumes "mp_ok n s A"
  shows "A \<subseteq> {..<mp_block_total_count (k_mp s n)}"
    "mp_block_free_count (k_mp s n) + card A = mp_block_total_count (k_mp s n)"
proof -
  obtain fl where fl: "mp_inv n (k_mp s n) fl" "A = {..<mp_block_total_count (k_mp s n)} - set fl"
    using assms by (auto simp: mp_ok_def)
  have "card A = mp_block_total_count (k_mp s n) - card (set fl)"
    using fl by (simp add: card_Diff_subset mp_inv_def)
  moreover have "card (set fl) \<le> mp_block_total_count (k_mp s n)"
    using fl(1) card_mono [of "{..<mp_block_total_count (k_mp s n)}" "set fl"] by (simp add: mp_inv_def)
  ultimately show "mp_block_free_count (k_mp s n) + card A = mp_block_total_count (k_mp s n)"
    using fl(1) by (simp add: mp_inv_def distinct_card)
  show "A \<subseteq> {..<mp_block_total_count (k_mp s n)}" using fl(2) by blast
qed


section \<open>Properties\<close>

text \<open>
  C25: memory pools hand out free blocks only.  After any history of a pool, an allocation of a
  thread either returns a block that nobody holds, or all blocks are held and it waits, or with
  timeout zero returns NULL; the free counter is exact.
\<close>

theorem mempool_allocates_free_block:
  assumes "mp_history n s A" "may_block s t" "timeout_ok timeout"
  shows "\<exists>r s'. rt_mp_alloc n timeout s = Some (r, s') \<and> mp_history n s' (A \<union> mp_got r)
     \<and> mp_block_free_count (k_mp s n) + card A = mp_block_total_count (k_mp s n)
     \<and> (case r of
          Returned (Some i) \<Rightarrow> i \<notin> A \<and> i < mp_block_total_count (k_mp s n)
        | Returned None \<Rightarrow> timeout = 0 \<and> card A = mp_block_total_count (k_mp s n)
        | Blocked \<Rightarrow> timeout \<noteq> 0 \<and> card A = mp_block_total_count (k_mp s n) \<and> th_base s' t = RT_THREAD_SUSPEND)"
proof -
  have ok: "mp_ok n s A" by (rule mp_history_ok [OF assms(1)])
  note c = mp_ok_count [OF ok]
  have eq: "rt_mp_alloc n timeout s = mp_alloc_loop n timeout (Some t) s"
    using may_blockD(7) [OF assms(2)] by (simp add: rt_mp_alloc_def)
  have "\<exists>r s'. mp_alloc_loop n timeout (Some t) s = Some (r, s') \<and> (case r of
          Returned (Some i) \<Rightarrow> i \<notin> A \<and> i < mp_block_total_count (k_mp s n)
        | Returned None \<Rightarrow> timeout = 0 \<and> card A = mp_block_total_count (k_mp s n)
        | Blocked \<Rightarrow> timeout \<noteq> 0 \<and> card A = mp_block_total_count (k_mp s n) \<and> th_base s' t = RT_THREAD_SUSPEND)"
  proof (cases "mp_block_free_count (k_mp s n) = 0")
    case False
    obtain fl where fl: "mp_inv n (k_mp s n) fl" "A = {..<mp_block_total_count (k_mp s n)} - set fl"
      using ok by (auto simp: mp_ok_def)
    obtain i fl' m' where m': "mp_take n (k_mp s n) = Some (i, m')" "fl = i # fl'" "i < mp_block_total_count (k_mp s n)"
      using mp_take_ok [OF fl(1) False] by metis
    show ?thesis
      by (rule exI [of _ "Returned (Some i)"], rule exI [of _ "upd_mp n (\<lambda>_. m') s"])
        (use m' fl False in \<open>simp add: mp_alloc_loop_def\<close>)
  next
    case none: True
    have kinv: "kinv s" using ok by (simp add: mp_ok_def)
    show ?thesis
    proof (cases "timeout = 0")
      case True
      show ?thesis
        by (rule exI [of _ "Returned None"], rule exI [of _ "rt_set_errno (- RT_ETIMEOUT) s"])
          (use none True c in \<open>simp add: mp_alloc_loop_def\<close>)
    next
      case False
      obtain s' where s': "mp_alloc_loop n timeout (Some t) s = Some (Blocked, s')" "th_base s' t = RT_THREAD_SUSPEND"
        using mp_alloc_blocks [OF kinv assms(2) none False assms(3)] by metis
      show ?thesis
        by (rule exI [of _ Blocked], rule exI [of _ s']) (use none False c s' in simp)
    qed
  qed
  then obtain r s' where r: "mp_alloc_loop n timeout (Some t) s = Some (r, s')" "case r of
          Returned (Some i) \<Rightarrow> i \<notin> A \<and> i < mp_block_total_count (k_mp s n)
        | Returned None \<Rightarrow> timeout = 0 \<and> card A = mp_block_total_count (k_mp s n)
        | Blocked \<Rightarrow> timeout \<noteq> 0 \<and> card A = mp_block_total_count (k_mp s n) \<and> th_base s' t = RT_THREAD_SUSPEND"
    by blast
  have "rt_mp_alloc n timeout s = Some (r, s')" by (simp add: eq r(1))
  moreover from this have "mp_history n s' (A \<union> mp_got r)" by (rule mp_history.alloc [OF assms])
  ultimately show ?thesis using c(2) r(2) by (intro exI [of _ r] exI [of _ s'] conjI)
qed

lemma sample_mp_history: "mp_history n k_sample {}" "may_block k_sample 0"
proof -
  have w: "free_path (\<lambda>i. if i = 0 then Mp_block 1 else Mp_null) (Some 0) [0, Suc 0]" by simp
  have "[0..<2] = [0, Suc 0]" by (simp add: upt_rec)
  then have "mp_inv n (k_mp k_sample n) [0..<mp_block_total_count (k_mp k_sample n)]"
    using w by (auto simp: k_sample_def mp_inv_def)
  then show "mp_history n k_sample {}" by (intro mp_history.start kinv_sample)
  show "may_block k_sample 0" by (rule sample_may_block)
qed

theorem mempool_allocates_free_block_witness:
  "\<exists>r s'. rt_mp_alloc 0 5 k_sample = Some (r, s') \<and> mp_history 0 s' (mp_got r)"
  using mempool_allocates_free_block [OF sample_mp_history, of 5 0] by (auto simp: timeout_ok_def)

text \<open>
  Releasing a held block always succeeds, makes the block free again and wakes the thread in
  front of the waiters; releasing it once more is caught, as its first word is no longer the pool.
\<close>

theorem mempool_free_releases:
  assumes "mp_history n s A" "k_current s = Some c" "i \<in> A"
  shows "\<exists>s'. rt_mp_free (Some (n, i)) s = Some s' \<and> mp_history n s' (A - {i})
     \<and> rt_mp_free (Some (n, i)) s' = None \<and> k_lists s' (MpQ n) = tl (k_lists s (MpQ n))
     \<and> (\<forall>t ts. k_lists s (MpQ n) = t # ts \<longrightarrow> th_base s' t \<in> {RT_THREAD_READY, RT_THREAD_RUNNING}
          \<and> th_error (k_thread s' t) = RT_EOK)"
proof -
  obtain s' where s': "rt_mp_free (Some (n, i)) s = Some s'" "k_mp s' n = mp_give i (k_mp s n)"
    "k_lists s' (MpQ n) = tl (k_lists s (MpQ n))"
    "\<And>t ts. k_lists s (MpQ n) = t # ts \<Longrightarrow> th_base s' t \<in> {RT_THREAD_READY, RT_THREAD_RUNNING}
       \<and> th_error (k_thread s' t) = RT_EOK"
    using mp_free_step [OF mp_history_ok [OF assms(1)] assms(2,3)] by metis
  have "rt_mp_free (Some (n, i)) s' = None"
    by (simp add: rt_mp_free_def s'(2) mp_give_def RT_ASSERT_def split: option.splits)
  then show ?thesis using s' mp_history.free [OF assms s'(1)] by blast
qed

theorem mempool_free_releases_witness:
  "\<exists>i s1 s'. rt_mp_alloc 0 0 k_sample = Some (Returned (Some i), s1) \<and> rt_mp_free (Some (0, i)) s1 = Some s'
     \<and> rt_mp_free (Some (0, i)) s' = None"
proof -
  have c: "mp_block_free_count (k_mp k_sample 0) = 2" by (simp add: k_sample_def)
  then obtain i s1 where a: "rt_mp_alloc 0 0 k_sample = Some (Returned (Some i), s1)"
    by (simp add: rt_mp_alloc_def mp_alloc_loop_def mp_take_def k_sample_def)
  have "k_current s1 = Some 0"
    using a by (auto simp: rt_mp_alloc_def mp_alloc_loop_def bind_eq_Some_conv k_sample_def split: if_splits)
  moreover have "mp_history 0 s1 {i}"
    using mp_history.alloc [OF sample_mp_history _ a] by (simp add: timeout_ok_def mp_got_def)
  ultimately show ?thesis using a mempool_free_releases [of 0 s1 "{i}" 0 i] by blast
qed

text \<open>
  A memory too small for one block.  \<^verbatim>\<open>rt_mp_init\<close> does not refuse it; the pool gets no
  block, and the end of the free list is written in front of the memory.
\<close>

theorem mempool_init_too_small_fails:
  assumes "RT_ALIGN_DOWN sz 4 < RT_ALIGN block_size 4 + 4"
  shows "rt_mp_init n w sz block_size s = None"
proof -
  have "RT_ALIGN_DOWN sz 4 div (RT_ALIGN block_size 4 + 4) = 0" using assms by (simp add: div_word_less)
  then show ?thesis by (simp add: rt_mp_init_def Let_def mp_format_def RT_ASSERT_def Option.bind_eq_None_conv)
qed

theorem mempool_init_too_small_fails_witness: "rt_mp_init 0 (\<lambda>_. Mp_null) 10 8 k_sample = None"
  using mempool_init_too_small_fails [of 10 8] by (simp add: RT_ALIGN_def RT_ALIGN_DOWN_def)

text \<open>
  The size of a created pool is computed in 32 bits without an overflow check.  When the
  blocks do not fit the address space, the memory that is allocated is too small, and building the
  free list leaves it.
\<close>

theorem mempool_create_overflow_fails:
  assumes "2 ^ 32 \<le> unat (RT_ALIGN block_size 4 + 4) * unat block_count"
  shows "rt_mp_create (Some n) (Some w) block_count block_size s = None"
proof -
  let ?b = "RT_ALIGN block_size 4 + 4"
  let ?p = "unat ?b * unat block_count"
  have m: "unat (?b * block_count) = ?p mod 2 ^ 32" by (simp add: unat_word_ariths)
  have c: "0 < unat block_count" "unat ?b < 2 ^ 32" using assms unsigned_less [of ?b] by (auto intro: Nat.gr0I)
  have "?p mod 2 ^ 32 \<le> ?p - 2 ^ 32" using assms by (simp add: le_mod_geq)
  moreover have "(unat block_count - 1) * unat ?b = ?p - unat ?b" by (simp add: diff_mult_distrib mult.commute)
  moreover have "unat ?b \<le> ?p" using c(1) by simp
  ultimately have "\<not> (unat block_count - 1) * unat ?b + 4 \<le> unat (?b * block_count)"
    using assms c(2) unfolding m by linarith
  then have "mp_format (unat (?b * block_count)) (unat ?b) (unat block_count) w = None"
    by (simp add: mp_format_def)
  then show ?thesis by (simp add: rt_mp_create_def Let_def RT_ASSERT_def Option.bind_eq_None_conv)
qed

theorem mempool_create_overflow_fails_witness:
  "rt_mp_create (Some 0) (Some (\<lambda>_. Mp_null)) 0x1000001 0xfc k_sample = None"
proof -
  have "unat (RT_ALIGN 0xfc 4 + 4) = 256" by (simp add: RT_ALIGN_def)
  then show ?thesis using mempool_create_overflow_fails [of "0xfc" "0x1000001"] by simp
qed

end
