(* ===== verification/Completion.thy ===== *)
theory Completion
  imports Mailbox
begin

text \<open>
  Completions, src/rt-thread/components/drivers/ipc/completion.c: a flag that one thread waits for
  and another thread or an interrupt sets.  This theory also holds what the driver IPC objects
  share: their part of the kernel state, and waiting at the end of a queue.
\<close>

section \<open>The state of the driver IPC objects\<close>

definition upd_drv :: "(drv_state \<Rightarrow> drv_state) \<Rightarrow> kstate \<Rightarrow> kstate" where
  "upd_drv f s = s\<lparr>k_drv := f (k_drv s)\<rparr>"

lemma upd_drv_simps [simp]:
  "k_thread (upd_drv f s) = k_thread s" "k_lists (upd_drv f s) = k_lists s"
  "k_group (upd_drv f s) = k_group s" "k_current (upd_drv f s) = k_current s"
  "k_lock_nest (upd_drv f s) = k_lock_nest s" "k_irq_nest (upd_drv f s) = k_irq_nest s"
  "k_tick (upd_drv f s) = k_tick s" "k_timer (upd_drv f s) = k_timer s"
  "k_timers (upd_drv f s) = k_timers s" "k_drv (upd_drv f s) = f (k_drv s)"
  "k_sem (upd_drv f s) = k_sem s"
  by (simp_all add: upd_drv_def)

lemma kinv_upd_drv [simp]: "kinv (upd_drv f s) = kinv s"
  by (rule kinv_cong) simp_all

lemma objs_frame_drv: "objs_frame s s' \<Longrightarrow> k_drv s' = k_drv s" "objs_frame s s' \<Longrightarrow> k_sem s' = k_sem s"
  by (simp_all add: objs_frame_def)

lemma enter_critical_simps [simp]:
  "k_thread (rt_enter_critical s) = k_thread s" "k_lists (rt_enter_critical s) = k_lists s"
  "k_current (rt_enter_critical s) = k_current s" "k_drv (rt_enter_critical s) = k_drv s"
  "k_sem (rt_enter_critical s) = k_sem s" "k_timer (rt_enter_critical s) = k_timer s"
  "k_timers (rt_enter_critical s) = k_timers s" "k_tick (rt_enter_critical s) = k_tick s"
  "kinv (rt_enter_critical s) = kinv s"
  using kinv_cong [of "rt_enter_critical s" s] by (simp_all add: rt_enter_critical_def)

text \<open>What rescheduling, and leaving a critical section, keep.\<close>

definition calm :: "kstate \<Rightarrow> kstate \<Rightarrow> bool" where
  "calm s s' \<longleftrightarrow> kinv s' \<and> (\<exists>c. k_current s' = Some c) \<and> k_drv s' = k_drv s \<and> k_sem s' = k_sem s
     \<and> k_timer s' = k_timer s \<and> k_timers s' = k_timers s \<and> k_tick s' = k_tick s
     \<and> (\<forall>g. wait_queue g \<longrightarrow> k_lists s' g = k_lists s g)
     \<and> (\<forall>u. th_core (k_thread s' u) = th_core (k_thread s u))
     \<and> (\<forall>u. th_base s u \<in> {RT_THREAD_READY, RT_THREAD_RUNNING} \<longrightarrow> th_base s' u \<in> {RT_THREAD_READY, RT_THREAD_RUNNING})"

lemma schedule_calm:
  assumes "kinv s" "k_current s = Some c"
  obtains s' where "rt_schedule s = Some s'" "calm s s'"
proof -
  obtain s' where s': "rt_schedule s = Some s'" "kinv s'" "sched_frame s s'" "\<exists>c'. k_current s' = Some c'"
    using schedule_kinv [OF assms] by metis
  note fr = sched_frameD [OF s'(3)]
  have "k_lists s' g = k_lists s g" if "wait_queue g" for g by (rule fr(10)) (use that in auto)
  then have "calm s s'" unfolding calm_def using s'(2,4) fr(2-4,7,9) objs_frame_drv [OF fr(1)] by blast
  then show thesis using that s'(1) by blast
qed

lemma exit_critical_calm:
  assumes "kinv s" "k_current s = Some c"
  obtains s' where "rt_exit_critical s = Some s'" "calm s s'"
proof -
  have inv: "kinv (s\<lparr>k_lock_nest := i\<rparr>)" for i
    using assms(1) kinv_cong [of "s\<lparr>k_lock_nest := i\<rparr>" s] by simp
  show thesis
  proof (cases "int16 (k_lock_nest s - 1) \<le> 0")
    case True
    have cur0: "k_current (s\<lparr>k_lock_nest := 0\<rparr>) = Some c" using assms(2) by simp
    obtain s' where s': "rt_schedule (s\<lparr>k_lock_nest := 0\<rparr>) = Some s'" "calm (s\<lparr>k_lock_nest := 0\<rparr>) s'"
      by (rule schedule_calm [OF inv cur0])
    have "rt_exit_critical s = Some s'" using True s'(1) assms(2) by (simp add: rt_exit_critical_def Let_def)
    moreover have "calm s s'" using s'(2) by (simp add: calm_def)
    ultimately show thesis by (rule that)
  next
    case False
    let ?s = "s\<lparr>k_lock_nest := int16 (k_lock_nest s - 1)\<rparr>"
    have "rt_exit_critical s = Some ?s" using False by (simp add: rt_exit_critical_def Let_def)
    moreover have "calm s ?s" using inv assms(2) by (simp add: calm_def)
    ultimately show thesis by (rule that)
  qed
qed

text \<open>The driver objects queue a waiting thread behind the others, whatever its priority.\<close>

abbreviation at_back :: place where "at_back \<equiv> \<lambda>_ t us. us @ [t]"

definition drv_wait :: "head \<Rightarrow> tid \<Rightarrow> int \<Rightarrow> kstate \<Rightarrow> kstate option" where
  "drv_wait h t timeout s = wait_in at_back h t timeout (upd_thread t (\<lambda>th. th\<lparr>th_error := RT_EOK\<rparr>) s)"

lemma drv_wait_ok:
  assumes inv: "kinv s" and t: "may_block s t" and h: "wait_queue h" and tmo: "timeout_ok timeout"
  obtains s' where "drv_wait h t timeout s = Some s'"
    "kinv s'" "th_base s' t = RT_THREAD_SUSPEND" "objs_frame s s'" "k_tick s' = k_tick s"
    "\<And>g. wait_queue g \<Longrightarrow> k_lists s' g = (if g = h then k_lists s h @ [t] else k_lists s g)"
    "0 < timeout \<Longrightarrow> tm_row (k_timer s' (ThreadTimer t)) = Some Timer_list
       \<and> tm_timeout_tick (k_timer s' (ThreadTimer t)) = k_tick s + word_of_int timeout"
    "th_error (k_thread s' t) = RT_EOK"
    "\<exists>u. th_base s u = RT_THREAD_READY \<Longrightarrow> runs_most_urgent s'"
  unfolding drv_wait_def by (rule block_in_ok [OF inv t h place_ok_simps(3) tmo]) blast


section \<open>Operations\<close>

abbreviation cp_of :: "kstate \<Rightarrow> nat \<Rightarrow> rt_completion" where
  "cp_of s c \<equiv> dv_completion (k_drv s) c"

definition set_cp_flag :: "nat \<Rightarrow> bool \<Rightarrow> kstate \<Rightarrow> kstate" where
  "set_cp_flag c b = upd_drv (\<lambda>d. d\<lparr>dv_completion := (dv_completion d)(c := \<lparr>cp_flag = b\<rparr>)\<rparr>)"

definition rt_completion_init :: "nat \<Rightarrow> kstate \<Rightarrow> kstate" where
  "rt_completion_init c s = ipc_object_init (CompletionQ c) (set_cp_flag c False s)"

definition rt_completion_wait :: "nat \<Rightarrow> int \<Rightarrow> kstate \<Rightarrow> (rt_err_t outcome \<times> kstate) option" where
  "rt_completion_wait c timeout s = do {
     debug_scheduler_available (timeout \<noteq> 0) s;
     if cp_flag (cp_of s c) then Some (Returned RT_EOK, set_cp_flag c False s)
     else do {
       RT_ASSERT (k_lists s (CompletionQ c) = []);
       if timeout = 0 then Some (Returned (- RT_ETIMEOUT), s)
       else do {
         t \<leftarrow> rt_thread_self s;
         s1 \<leftarrow> drv_wait (CompletionQ c) t timeout s;
         Some (Blocked, s1)
       }
     }
   }"

text \<open>After the suspension.\<close>

definition rt_completion_wait_resume :: "nat \<Rightarrow> tid \<Rightarrow> kstate \<Rightarrow> rt_err_t \<times> kstate" where
  "rt_completion_wait_resume c t s = (th_error (k_thread s t), set_cp_flag c False s)"

definition rt_completion_done :: "nat \<Rightarrow> kstate \<Rightarrow> kstate option" where
  "rt_completion_done c s =
     (if cp_flag (cp_of s c) then Some s else ipc_wake (CompletionQ c) (set_cp_flag c True s))"


section \<open>Histories\<close>

lemma set_cp_flag_simps [simp]:
  "k_thread (set_cp_flag c b s) = k_thread s" "k_lists (set_cp_flag c b s) = k_lists s"
  "k_current (set_cp_flag c b s) = k_current s" "k_lock_nest (set_cp_flag c b s) = k_lock_nest s"
  "k_irq_nest (set_cp_flag c b s) = k_irq_nest s" "k_tick (set_cp_flag c b s) = k_tick s"
  "k_timer (set_cp_flag c b s) = k_timer s" "k_timers (set_cp_flag c b s) = k_timers s"
  "cp_of (set_cp_flag c b s) c = \<lparr>cp_flag = b\<rparr>" "kinv (set_cp_flag c b s) = kinv s"
  by (simp_all add: set_cp_flag_def)

definition completion_ok :: "nat \<Rightarrow> kstate \<Rightarrow> bool" where
  "completion_ok c s \<longleftrightarrow> kinv s \<and> length (k_lists s (CompletionQ c)) \<le> 1
     \<and> (cp_flag (cp_of s c) \<longrightarrow> k_lists s (CompletionQ c) = [])"

lemma completion_wait_blocks:
  assumes ok: "completion_ok c s" and t: "may_block s t" and nf: "\<not> cp_flag (cp_of s c)"
    and empty: "k_lists s (CompletionQ c) = []" and tmo: "timeout \<noteq> 0" "timeout_ok timeout"
  obtains s' where "rt_completion_wait c timeout s = Some (Blocked, s')" "completion_ok c s'"
    "k_lists s' (CompletionQ c) = [t]" "th_base s' t = RT_THREAD_SUSPEND" "\<not> cp_flag (cp_of s' c)"
    "th_error (k_thread s' t) = RT_EOK"
    "0 < timeout \<Longrightarrow> tm_row (k_timer s' (ThreadTimer t)) = Some Timer_list
       \<and> tm_timeout_tick (k_timer s' (ThreadTimer t)) = k_tick s + word_of_int timeout"
proof -
  have inv: "kinv s" using ok by (simp add: completion_ok_def)
  have h: "wait_queue (CompletionQ c)" by simp
  obtain s' where s': "drv_wait (CompletionQ c) t timeout s = Some s'"
    "kinv s'" "th_base s' t = RT_THREAD_SUSPEND" "objs_frame s s'"
    "\<And>g. wait_queue g \<Longrightarrow> k_lists s' g = (if g = CompletionQ c then k_lists s (CompletionQ c) @ [t] else k_lists s g)"
    "0 < timeout \<Longrightarrow> tm_row (k_timer s' (ThreadTimer t)) = Some Timer_list
       \<and> tm_timeout_tick (k_timer s' (ThreadTimer t)) = k_tick s + word_of_int timeout"
    "th_error (k_thread s' t) = RT_EOK"
    by (rule drv_wait_ok [OF inv t h tmo(2)]) blast
  show thesis
    by (rule that [of s'])
      (use s' nf empty tmo(1) may_blockD [OF t] objs_frame_drv(1) [OF s'(4)]
        in \<open>simp_all add: rt_completion_wait_def completion_ok_def\<close>)
qed

lemma completion_done_ok:
  assumes ok: "completion_ok c s" and cur: "k_current s = Some x"
  obtains s' where "rt_completion_done c s = Some s'" "completion_ok c s'" "cp_flag (cp_of s' c)"
    "k_lists s' (CompletionQ c) = []"
    "\<And>t ts. k_lists s (CompletionQ c) = t # ts \<Longrightarrow> th_base s' t \<in> {RT_THREAD_READY, RT_THREAD_RUNNING}"
    "\<And>u. th_error (k_thread s' u) = th_error (k_thread s u)"
proof (cases "cp_flag (cp_of s c)")
  case True
  then have "k_lists s (CompletionQ c) = []" using ok by (simp add: completion_ok_def)
  then show thesis using that [of s] True ok by (simp add: rt_completion_done_def)
next
  case False
  let ?s1 = "set_cp_flag c True s"
  have inv1: "kinv ?s1" "k_current ?s1 = Some x" using ok cur by (simp_all add: completion_ok_def)
  have h: "wait_queue (CompletionQ c)" by simp
  obtain s' where s': "ipc_wake (CompletionQ c) ?s1 = Some s'" "kinv s'" "objs_frame ?s1 s'"
    "\<And>g. wait_queue g \<Longrightarrow> k_lists s' g = (if g = CompletionQ c then tl (k_lists ?s1 (CompletionQ c)) else k_lists ?s1 g)"
    "\<And>u. th_core (k_thread s' u) = th_core (k_thread ?s1 u)"
    "\<And>t ts. k_lists ?s1 (CompletionQ c) = t # ts \<Longrightarrow> th_base s' t \<in> {RT_THREAD_READY, RT_THREAD_RUNNING}"
    by (rule ipc_wake_ok [OF inv1 h]) blast
  have l: "k_lists s' (CompletionQ c) = []"
    using s'(4) [OF h] ok by (cases "k_lists s (CompletionQ c)") (auto simp: completion_ok_def)
  have f: "cp_flag (cp_of s' c)" unfolding objs_frame_drv(1) [OF s'(3)] by simp
  have e: "th_error (k_thread s' u) = th_error (k_thread s u)" for u
    using th_core_simps [OF s'(5), of u] by simp
  show thesis
    by (rule that [of s']) (use s' False l f e in \<open>auto simp: rt_completion_done_def completion_ok_def\<close>)
qed

text \<open>
  A completion through any history of waits, resumptions, signals (from threads and interrupts)
  and other kernel activity, which may take waiters out of the queue (when their time is over).
\<close>

inductive completion_history :: "nat \<Rightarrow> kstate \<Rightarrow> bool" for c where
  start: "\<lbrakk>kinv s; \<not> cp_flag (cp_of s c); k_lists s (CompletionQ c) = []\<rbrakk> \<Longrightarrow> completion_history c s"
| wait: "\<lbrakk>completion_history c s; may_block s t; timeout_ok timeout;
      rt_completion_wait c timeout s = Some (r, s')\<rbrakk> \<Longrightarrow> completion_history c s'"
| resumed: "\<lbrakk>completion_history c s; rt_completion_wait_resume c t s = (e, s')\<rbrakk> \<Longrightarrow> completion_history c s'"
| signal: "\<lbrakk>completion_history c s; k_current s = Some x; rt_completion_done c s = Some s'\<rbrakk>
    \<Longrightarrow> completion_history c s'"
| other: "\<lbrakk>completion_history c s; kinv s'; cp_of s' c = cp_of s c;
      k_lists s' (CompletionQ c) = k_lists s (CompletionQ c) \<or> k_lists s' (CompletionQ c) = []\<rbrakk>
    \<Longrightarrow> completion_history c s'"

lemma completion_wait_step:
  assumes ok: "completion_ok c s" and t: "may_block s t" and tmo: "timeout_ok timeout"
    and run: "rt_completion_wait c timeout s = Some (r, s')"
  shows "completion_ok c s'"
proof (cases "cp_flag (cp_of s c) \<or> timeout = 0")
  case True
  then show ?thesis
    using run ok may_blockD(5) [OF t]
    by (auto simp: rt_completion_wait_def completion_ok_def RT_ASSERT_def bind_eq_Some_conv split: if_splits)
next
  case False
  then have "k_lists s (CompletionQ c) = []"
    using run by (auto simp: rt_completion_wait_def bind_eq_Some_conv split: if_splits)
  then show ?thesis
    using completion_wait_blocks [OF ok t _ _ _ tmo] False run by (metis (no_types, lifting) option.inject prod.inject)
qed

lemma completion_history_ok: "completion_history c s \<Longrightarrow> completion_ok c s"
proof (induction rule: completion_history.induct)
  case (wait s t timeout r s')
  then show ?case using completion_wait_step by blast
next
  case (resumed s t e s')
  then show ?case by (auto simp: rt_completion_wait_resume_def completion_ok_def)
next
  case (signal s x s')
  then show ?case using completion_done_ok [OF signal.IH, of x] by (metis option.inject)
qed (auto simp: completion_ok_def)


section \<open>Properties\<close>

text \<open>
  C27: no lost wake-up.  In every history of a completion at most one thread waits, and none waits
  while the completion is signalled.
\<close>

theorem completion_no_lost_wakeup:
  assumes "completion_history c s"
  shows "kinv s \<and> length (k_lists s (CompletionQ c)) \<le> 1
     \<and> (cp_flag (cp_of s c) \<longrightarrow> k_lists s (CompletionQ c) = [])"
  using completion_history_ok [OF assms] by (simp add: completion_ok_def)

lemma sample_completion: "completion_history c k_sample" "\<not> cp_flag (cp_of k_sample c)" "k_lists k_sample (CompletionQ c) = []"
proof -
  show "\<not> cp_flag (cp_of k_sample c)" "k_lists k_sample (CompletionQ c) = []"
    by (simp_all add: k_sample_def drv_sample_def lists_sample_def)
  then show "completion_history c k_sample" by (intro completion_history.start kinv_sample)
qed

theorem completion_no_lost_wakeup_witness:
  "\<exists>s. rt_completion_wait 0 5 k_sample = Some (Blocked, s) \<and> k_lists s (CompletionQ 0) = [0] \<and> kinv s"
proof -
  have ok: "completion_ok 0 k_sample" by (rule completion_history_ok [OF sample_completion(1)])
  have tmo: "(5::int) \<noteq> 0" "timeout_ok 5" by (simp_all add: timeout_ok_def)
  obtain s where s: "rt_completion_wait 0 5 k_sample = Some (Blocked, s)" "k_lists s (CompletionQ 0) = [0]"
    by (rule completion_wait_blocks [OF ok sample_may_block sample_completion(2,3) tmo]) blast
  have "completion_history 0 s"
    by (rule completion_history.wait [OF sample_completion(1) sample_may_block tmo(2) s(1)])
  then show ?thesis using completion_no_lost_wakeup s by blast
qed

text \<open>
  A completion can be lost.  When the waiting thread has timed out and the completion is
  signalled before that thread runs again, the thread still returns its timeout error and clears
  the flag, and the next wait blocks although the completion was signalled.
\<close>

theorem completion_lost_on_timeout:
  assumes "completion_history c s" "k_current s = Some x" "k_lists s (CompletionQ c) = []"
    and "th_error (k_thread s t) = - RT_ETIMEOUT"
  shows "\<exists>s1 s2. rt_completion_done c s = Some s1 \<and> cp_flag (cp_of s1 c)
     \<and> rt_completion_wait_resume c t s1 = (- RT_ETIMEOUT, s2) \<and> \<not> cp_flag (cp_of s2 c)
     \<and> (\<forall>u timeout. may_block s2 u \<longrightarrow> timeout \<noteq> 0 \<longrightarrow> timeout_ok timeout \<longrightarrow>
          (\<exists>s3. rt_completion_wait c timeout s2 = Some (Blocked, s3)))"
proof -
  obtain s1 where s1: "rt_completion_done c s = Some s1" "completion_ok c s1" "cp_flag (cp_of s1 c)"
    "k_lists s1 (CompletionQ c) = []" "th_error (k_thread s1 t) = th_error (k_thread s t)"
    using completion_done_ok [OF completion_history_ok [OF assms(1)] assms(2)] by metis
  define s2 where "s2 = set_cp_flag c False s1"
  have r: "rt_completion_wait_resume c t s1 = (- RT_ETIMEOUT, s2)"
    using s1(5) assms(4) by (simp add: rt_completion_wait_resume_def s2_def)
  have "completion_ok c s2" using s1(2) by (simp add: s2_def completion_ok_def)
  moreover have "\<not> cp_flag (cp_of s2 c)" "k_lists s2 (CompletionQ c) = []" using s1(4) by (simp_all add: s2_def)
  ultimately show ?thesis using s1(1,3) r completion_wait_blocks [of c s2] by metis
qed

text \<open>Thread 7 of the sample has timed out.\<close>

theorem completion_lost_on_timeout_witness:
  "\<exists>s1 s2. rt_completion_done 0 (upd_thread 7 (\<lambda>th. th\<lparr>th_error := - RT_ETIMEOUT\<rparr>) k_sample) = Some s1
     \<and> rt_completion_wait_resume 0 7 s1 = (- RT_ETIMEOUT, s2) \<and> \<not> cp_flag (cp_of s2 0)"
proof -
  let ?s = "upd_thread 7 (\<lambda>th. th\<lparr>th_error := - RT_ETIMEOUT\<rparr>) k_sample"
  have "completion_history 0 ?s"
    by (rule completion_history.other [OF sample_completion(1)]) (simp_all add: kinv_set_error kinv_sample)
  moreover have "k_current ?s = Some 0" "k_lists ?s (CompletionQ 0) = []"
    using sample_completion(3) by (simp_all add: k_sample_def)
  ultimately show ?thesis using completion_lost_on_timeout [of 0 ?s 0 7] by auto
qed

end
