(* ===== verification/WaitQueue.thy ===== *)
theory WaitQueue
  imports Completion Tick
begin

text \<open>
  Wait queues, src/rt-thread/components/drivers/ipc/waitqueue.c: a list of nodes, one for each
  waiting thread (on its stack), and a flag that remembers a wake-up without a waiter.  The wake
  function of a node is a parameter; \<open>wakes f i key\<close> says that function number f returns 0 for node i.
  The node of \<^verbatim>\<open>rt_wqueue_wait\<close> has the default function, which always does.
\<close>

section \<open>Operations\<close>

abbreviation wq_of :: "kstate \<Rightarrow> nat \<Rightarrow> rt_wqueue" where "wq_of s q \<equiv> dv_wqueue (k_drv s) q"
abbreviation wn_of :: "kstate \<Rightarrow> nat \<Rightarrow> rt_wqueue_node" where "wn_of s i \<equiv> dv_wnode (k_drv s) i"

definition upd_wq :: "nat \<Rightarrow> (rt_wqueue \<Rightarrow> rt_wqueue) \<Rightarrow> kstate \<Rightarrow> kstate" where
  "upd_wq q f = upd_drv (\<lambda>d. d\<lparr>dv_wqueue := (dv_wqueue d)(q := f (dv_wqueue d q))\<rparr>)"

definition upd_wn :: "nat \<Rightarrow> (rt_wqueue_node \<Rightarrow> rt_wqueue_node) \<Rightarrow> kstate \<Rightarrow> kstate" where
  "upd_wn i f = upd_drv (\<lambda>d. d\<lparr>dv_wnode := (dv_wnode d)(i := f (dv_wnode d i))\<rparr>)"

definition rt_wqueue_init :: "nat \<Rightarrow> kstate \<Rightarrow> kstate" where
  "rt_wqueue_init q = upd_wq q (\<lambda>_. \<lparr>wq_flag = False, wq_waiting_list = []\<rparr>)"

text \<open>Linking a linked node is an error of the model, as in the thread lists.\<close>

definition rt_wqueue_add :: "nat \<Rightarrow> nat \<Rightarrow> kstate \<Rightarrow> kstate option" where
  "rt_wqueue_add q i s = do {
     RT_ASSERT (wn_list (wn_of s i) = None);
     Some (upd_wq q (\<lambda>w. w\<lparr>wq_waiting_list := wq_waiting_list w @ [i]\<rparr>)
       (upd_wn i (\<lambda>n. n\<lparr>wn_list := Some q\<rparr>) s))
   }"

definition rt_wqueue_remove :: "nat \<Rightarrow> kstate \<Rightarrow> kstate" where
  "rt_wqueue_remove i s =
     (case wn_list (wn_of s i) of
        None \<Rightarrow> s
      | Some q \<Rightarrow> upd_wq q (\<lambda>w. w\<lparr>wq_waiting_list := remove1 i (wq_waiting_list w)\<rparr>)
          (upd_wn i (\<lambda>n. n\<lparr>wn_list := None\<rparr>) s))"

definition wqueue_default_wake :: nat where
  "wqueue_default_wake = 0"

text \<open>The loop of \<^verbatim>\<open>rt_wqueue_wakeup\<close>: the first node whose wake function returns 0.\<close>

fun wqueue_find :: "(nat \<Rightarrow> nat \<Rightarrow> 'k \<Rightarrow> bool) \<Rightarrow> 'k \<Rightarrow> kstate \<Rightarrow> nat list \<Rightarrow> nat option" where
  "wqueue_find wakes key s [] = None"
| "wqueue_find wakes key s (i # is) =
     (if wakes (wn_wakeup (wn_of s i)) i key then Some i else wqueue_find wakes key s is)"

definition rt_wqueue_wakeup :: "(nat \<Rightarrow> nat \<Rightarrow> 'k \<Rightarrow> bool) \<Rightarrow> nat \<Rightarrow> 'k \<Rightarrow> kstate \<Rightarrow> kstate option" where
  "rt_wqueue_wakeup wakes q key s =
     (let s1 = upd_wq q (\<lambda>w. w\<lparr>wq_flag := True\<rparr>) s in
      case wqueue_find wakes key s1 (wq_waiting_list (wq_of s1 q)) of
        None \<Rightarrow> Some s1
      | Some i \<Rightarrow> do {
          (_, s2) \<leftarrow> rt_thread_resume (wn_polling_thread (wn_of s1 i)) s1;
          rt_schedule (rt_wqueue_remove i s2)
        })"

text \<open>
  The node on the stack of thread t has the number of the thread.  \<open>rt_wqueue_wait_exit\<close> is the
  end of the function, after the suspension or at once when the flag is set.
\<close>

definition rt_wqueue_wait_exit :: "nat \<Rightarrow> tid \<Rightarrow> kstate \<Rightarrow> rt_err_t \<times> kstate" where
  "rt_wqueue_wait_exit q t s =
     (let s1 = rt_wqueue_remove t (upd_wq q (\<lambda>w. w\<lparr>wq_flag := False\<rparr>) s)
      in (th_error (k_thread s1 t), s1))"

definition rt_wqueue_wait :: "nat \<Rightarrow> bool \<Rightarrow> int \<Rightarrow> kstate \<Rightarrow> (rt_err_t outcome \<times> kstate) option" where
  "rt_wqueue_wait q condition msec s = do {
     t \<leftarrow> rt_thread_self s;
     debug_scheduler_available True s;
     let tick = rt_tick_from_millisecond msec;
     if condition \<or> tick = 0 then Some (Returned RT_EOK, s)
     else do {
       let s1 = upd_wn t (\<lambda>_. \<lparr>wn_list = None, wn_polling_thread = t, wn_wakeup = wqueue_default_wake\<rparr>) s;
       let s2 = upd_thread t (\<lambda>th. th\<lparr>th_error := RT_EOK\<rparr>) s1;
       if wq_flag (wq_of s2 q) then (let (e, s3) = rt_wqueue_wait_exit q t s2 in Some (Returned e, s3))
       else do {
         s3 \<leftarrow> rt_wqueue_add q t s2;
         (_, s4) \<leftarrow> rt_thread_suspend t s3;
         s5 \<leftarrow> (if tick \<noteq> RT_TICK_MAX then timer_arm (ThreadTimer t) tick s4 else Some s4);
         s6 \<leftarrow> rt_schedule s5;
         Some (Blocked, s6)
       }
     }
   }"


section \<open>Facts\<close>

lemma upd_wq_simps [simp]:
  "k_thread (upd_wq q f s) = k_thread s" "k_lists (upd_wq q f s) = k_lists s"
  "k_current (upd_wq q f s) = k_current s" "k_lock_nest (upd_wq q f s) = k_lock_nest s"
  "k_irq_nest (upd_wq q f s) = k_irq_nest s" "k_tick (upd_wq q f s) = k_tick s" "kinv (upd_wq q f s) = kinv s"
  "dv_wqueue (k_drv (upd_wq q f s)) = (dv_wqueue (k_drv s))(q := f (wq_of s q))"
  "dv_wnode (k_drv (upd_wq q f s)) = dv_wnode (k_drv s)"
  by (simp_all add: upd_wq_def)

lemma upd_wn_simps [simp]:
  "k_thread (upd_wn i g s) = k_thread s" "k_lists (upd_wn i g s) = k_lists s"
  "k_current (upd_wn i g s) = k_current s" "k_lock_nest (upd_wn i g s) = k_lock_nest s"
  "k_irq_nest (upd_wn i g s) = k_irq_nest s" "k_tick (upd_wn i g s) = k_tick s" "kinv (upd_wn i g s) = kinv s"
  "dv_wqueue (k_drv (upd_wn i g s)) = dv_wqueue (k_drv s)"
  "dv_wnode (k_drv (upd_wn i g s)) = (dv_wnode (k_drv s))(i := g (wn_of s i))"
  by (simp_all add: upd_wn_def)

lemma wqueue_remove_simps [simp]:
  "k_thread (rt_wqueue_remove i s) = k_thread s" "k_lists (rt_wqueue_remove i s) = k_lists s"
  "k_current (rt_wqueue_remove i s) = k_current s" "kinv (rt_wqueue_remove i s) = kinv s"
  by (auto simp: rt_wqueue_remove_def split: option.split)

text \<open>The nodes of a queue know it, and occur once.\<close>

definition wqueue_ok :: "nat \<Rightarrow> kstate \<Rightarrow> bool" where
  "wqueue_ok q s \<longleftrightarrow> kinv s \<and> distinct (wq_waiting_list (wq_of s q))
     \<and> (\<forall>i. i \<in> set (wq_waiting_list (wq_of s q)) \<longleftrightarrow> wn_list (wn_of s i) = Some q)"

lemma wqueue_find_Some:
  assumes "wqueue_find wakes key s is = Some i"
  shows "i \<in> set is" "wakes (wn_wakeup (wn_of s i)) i key"
  using assms by (induction "is") (auto split: if_splits)

lemma wqueue_find_cong:
  "dv_wnode (k_drv s') = dv_wnode (k_drv s) \<Longrightarrow> wqueue_find wakes key s' is = wqueue_find wakes key s is"
  by (induction "is") auto

lemma wqueue_remove_ok:
  assumes "wqueue_ok q s" "i \<in> set (wq_waiting_list (wq_of s q))"
  shows "wqueue_ok q (rt_wqueue_remove i s)"
    "wq_of (rt_wqueue_remove i s) q = (wq_of s q)\<lparr>wq_waiting_list := remove1 i (wq_waiting_list (wq_of s q))\<rparr>"
  using assms by (auto simp: wqueue_ok_def rt_wqueue_remove_def)

text \<open>A wake-up that finds a node: whether its thread still waits or not, the node is taken out.\<close>

lemma wakeup_ok:
  assumes ok: "wqueue_ok q s" and cur: "k_current s = Some c"
    and found: "wqueue_find wakes key s (wq_waiting_list (wq_of s q)) = Some i"
    and obj: "th_obj (k_thread s (wn_polling_thread (wn_of s i)))"
  obtains s' where "rt_wqueue_wakeup wakes q key s = Some s'" "wqueue_ok q s'"
    "wq_of s' q = \<lparr>wq_flag = True, wq_waiting_list = remove1 i (wq_waiting_list (wq_of s q))\<rparr>"
    "\<And>u. th_core (k_thread s' u) = th_core (k_thread s u)"
    "th_base s (wn_polling_thread (wn_of s i)) = RT_THREAD_SUSPEND
       \<Longrightarrow> th_base s' (wn_polling_thread (wn_of s i)) \<in> {RT_THREAD_READY, RT_THREAD_RUNNING}"
    "\<And>u. u \<noteq> wn_polling_thread (wn_of s i) \<or> th_base s u \<noteq> RT_THREAD_SUSPEND \<Longrightarrow>
       th_base s u = RT_THREAD_SUSPEND \<longleftrightarrow> th_base s' u = RT_THREAD_SUSPEND"
proof -
  let ?s1 = "upd_wq q (\<lambda>w. w\<lparr>wq_flag := True\<rparr>) s" and ?t = "wn_polling_thread (wn_of s i)"
  have ok1: "wqueue_ok q ?s1" using ok by (simp add: wqueue_ok_def)
  have inv1: "kinv ?s1" using ok1 by (simp add: wqueue_ok_def)
  have f1: "wqueue_find wakes key ?s1 (wq_waiting_list (wq_of ?s1 q)) = Some i"
    using found by (simp add: wqueue_find_cong [of ?s1 s])
  have i: "i \<in> set (wq_waiting_list (wq_of s q))" by (rule wqueue_find_Some(1) [OF found])
  have res: "\<exists>e s2. rt_thread_resume ?t ?s1 = Some (e, s2) \<and> kinv s2 \<and> thread_frame {?t} ?s1 s2
      \<and> (if th_base s ?t = RT_THREAD_SUSPEND then th_base s2 ?t \<in> {RT_THREAD_READY, RT_THREAD_RUNNING} else s2 = ?s1)"
  proof (cases "th_base s ?t = RT_THREAD_SUSPEND")
    case True
    then have "th_base ?s1 ?t = RT_THREAD_SUSPEND" by simp
    then obtain s2 where "rt_thread_resume ?t ?s1 = Some (RT_EOK, s2)" "kinv s2" "thread_frame {?t} ?s1 s2"
      "th_base s2 ?t = (if k_current ?s1 = Some ?t then RT_THREAD_RUNNING else RT_THREAD_READY)"
      using resume_ok [OF inv1] by metis
    then show ?thesis using True by auto
  next
    case False
    have "thread_frame {?t} ?s1 ?s1" by (simp add: thread_frame_def objs_frame_def)
    then show ?thesis using False obj inv1 by (simp add: rt_thread_resume_def)
  qed
  then obtain e s2 where s2: "rt_thread_resume ?t ?s1 = Some (e, s2)" "kinv s2" "thread_frame {?t} ?s1 s2"
    "if th_base s ?t = RT_THREAD_SUSPEND then th_base s2 ?t \<in> {RT_THREAD_READY, RT_THREAD_RUNNING} else s2 = ?s1"
    by blast
  note fr2 = thread_frameD [OF s2(3)]
  have drv2: "k_drv s2 = k_drv ?s1" by (rule objs_frame_drv(1) [OF fr2(1)])
  have ok2: "wqueue_ok q s2" using ok1 s2(2) unfolding wqueue_ok_def drv2 by simp
  have i2: "i \<in> set (wq_waiting_list (wq_of s2 q))" unfolding drv2 using i by simp
  let ?s3 = "rt_wqueue_remove i s2"
  note r = wqueue_remove_ok [OF ok2 i2]
  have "kinv ?s3" "k_current ?s3 = Some c" using s2(2) fr2(5) cur by simp_all
  then obtain s' where s': "rt_schedule ?s3 = Some s'" "kinv s'" "sched_frame ?s3 s'"
    using schedule_kinv by metis
  note fr = sched_frameD [OF s'(3)]
  have drv': "k_drv s' = k_drv ?s3" by (rule objs_frame_drv(1) [OF fr(1)])
  show thesis
  proof (rule that [of s'])
    show "rt_wqueue_wakeup wakes q key s = Some s'"
      using f1 s2(1) s'(1) by (simp add: rt_wqueue_wakeup_def Let_def)
    show "wqueue_ok q s'" using r(1) s'(2) unfolding wqueue_ok_def drv' by simp
    show "wq_of s' q = \<lparr>wq_flag = True, wq_waiting_list = remove1 i (wq_waiting_list (wq_of s q))\<rparr>"
      unfolding drv' r(2) drv2 by simp
    show "th_core (k_thread s' u) = th_core (k_thread s u)" for u
      using fr(7) [of u] fr2(7) [of u] by simp
    show "th_base s' ?t \<in> {RT_THREAD_READY, RT_THREAD_RUNNING}" if "th_base s ?t = RT_THREAD_SUSPEND"
      using fr(9) [of ?t] s2(4) that by simp
    show "th_base s u = RT_THREAD_SUSPEND \<longleftrightarrow> th_base s' u = RT_THREAD_SUSPEND"
      if u: "u \<noteq> ?t \<or> th_base s u \<noteq> RT_THREAD_SUSPEND" for u
    proof -
      have t2: "k_thread s2 u = k_thread s u" if "u \<noteq> ?t" using fr2(6) [of u] that by simp
      have b2: "th_base s2 u = th_base s u \<or> (u = ?t \<and> th_base s u \<noteq> RT_THREAD_SUSPEND \<and> s2 = ?s1)"
        using t2 s2(4) u by (cases "u = ?t") auto
      then show ?thesis using sched_frame_suspended [OF s'(3), of u] by auto
    qed
  qed
qed

text \<open>A wait that has to block.\<close>

lemma wqueue_wait_blocks:
  assumes ok: "wqueue_ok q s" and t: "may_block s t" and nf: "\<not> wq_flag (wq_of s q)"
    and new: "t \<notin> set (wq_waiting_list (wq_of s q))"
    and ms: "0 < msec" "timeout_ok msec"
  obtains s' where "rt_wqueue_wait q False msec s = Some (Blocked, s')" "wqueue_ok q s'"
    "wq_of s' q = \<lparr>wq_flag = False, wq_waiting_list = wq_waiting_list (wq_of s q) @ [t]\<rparr>"
    "wn_of s' t = \<lparr>wn_list = Some q, wn_polling_thread = t, wn_wakeup = wqueue_default_wake\<rparr>"
    "\<And>i. i \<noteq> t \<Longrightarrow> wn_of s' i = wn_of s i"
    "th_base s' t = RT_THREAD_SUSPEND" "th_error (k_thread s' t) = RT_EOK"
    "tm_timeout_tick (k_timer s' (ThreadTimer t)) = k_tick s + word_of_int msec" "\<exists>c. k_current s' = Some c"
proof -
  note tD = may_blockD [OF t]
  let ?tick = "rt_tick_from_millisecond msec"
  have tick: "?tick = word_of_int msec" "?tick < TICK_HALF"
    using ms tick_from_millisecond_nonneg [of msec] timeout_word [OF ms] by simp_all
  have tick': "?tick \<noteq> 0" "?tick \<noteq> RT_TICK_MAX"
  proof -
    have "uint (word_of_int msec :: rt_tick_t) = msec"
      using ms by (simp add: timeout_ok_def uint_word_of_int_eq take_bit_int_eq_self)
    then show "?tick \<noteq> 0" using ms(1) unfolding tick(1) by auto
    show "?tick \<noteq> RT_TICK_MAX" using tick(2) by auto
  qed
  let ?n = "\<lparr>wn_list = None, wn_polling_thread = t, wn_wakeup = wqueue_default_wake\<rparr>"
  let ?s1 = "upd_wn t (\<lambda>_. ?n) s"
  let ?s2 = "upd_thread t (\<lambda>th. th\<lparr>th_error := RT_EOK\<rparr>) ?s1"
  let ?s3 = "upd_wq q (\<lambda>w. w\<lparr>wq_waiting_list := wq_waiting_list w @ [t]\<rparr>) (upd_wn t (\<lambda>n. n\<lparr>wn_list := Some q\<rparr>) ?s2)"
  have drv: "k_drv (upd_thread t f s0) = k_drv s0" for f s0 by simp
  have add: "rt_wqueue_add q t ?s2 = Some ?s3" by (simp add: rt_wqueue_add_def drv)
  have inv: "kinv s" using ok by (simp add: wqueue_ok_def)
  have inv3: "kinv ?s3" by (simp add: kinv_set_error inv)
  have c3: "k_current ?s3 = Some t" "th_base ?s3 t = RT_THREAD_RUNNING" using tD(1,2) by simp_all
  have wq3: "wq_of ?s3 q = \<lparr>wq_flag = False, wq_waiting_list = wq_waiting_list (wq_of s q) @ [t]\<rparr>"
    using nf by simp
  have wn3: "wn_of ?s3 i = (if i = t then ?n\<lparr>wn_list := Some q\<rparr> else wn_of s i)" for i by simp
  obtain s4 where s4: "rt_thread_suspend t ?s3 = Some (RT_EOK, s4)" "kinv s4" "th_base s4 t = RT_THREAD_SUSPEND"
    "thread_frame {t} ?s3 s4"
    by (rule suspend_ok [OF inv3 c3]) blast
  note fr4 = thread_frameD [OF s4(4)]
  obtain s5 where s5: "timer_arm (ThreadTimer t) ?tick s4 = Some s5" "kinv s5" "k_thread s5 = k_thread s4"
    "thread_frame {t} s4 s5" "tm_timeout_tick (k_timer s5 (ThreadTimer t)) = k_tick s4 + ?tick"
    by (rule arm_kinv [OF s4(2,3) tick(2)]) blast
  note fr5 = thread_frameD [OF s5(4)]
  have c5: "k_current s5 = Some t" "th_base s5 t = RT_THREAD_SUSPEND" using fr4(5) fr5(5) c3(1) s5(3) s4(3) by simp_all
  obtain s' where s': "rt_schedule s5 = Some s'" "kinv s'" "sched_frame s5 s'" "k_thread s' t = k_thread s5 t"
    "\<exists>c. k_current s' = Some c"
    by (rule schedule_away [OF s5(2) c5]) blast
  note fr = sched_frameD [OF s'(3)]
  have drv': "k_drv s' = k_drv ?s3"
    using objs_frame_drv(1) [OF fr(1)] objs_frame_drv(1) [OF fr5(1)] objs_frame_drv(1) [OF fr4(1)] by simp
  have err: "th_error (k_thread s' t) = RT_EOK" using s'(4) s5(3) th_core_simps [OF fr4(7), of t] by simp
  show thesis
  proof (rule that [of s'])
    show "rt_wqueue_wait q False msec s = Some (Blocked, s')"
      using tD(5,7) tick' nf add s4(1) s5(1) s'(1) by (simp add: rt_wqueue_wait_def Let_def drv)
    show "wqueue_ok q s'"
      unfolding wqueue_ok_def drv' wq3
    proof (intro conjI allI)
      show "i \<in> set (wq_waiting_list \<lparr>wq_flag = False, wq_waiting_list = wq_waiting_list (wq_of s q) @ [t]\<rparr>)
          \<longleftrightarrow> wn_list (wn_of ?s3 i) = Some q" for i
        using ok unfolding wn3 by (simp add: wqueue_ok_def)
    qed (use ok new s'(2) in \<open>simp_all add: wqueue_ok_def\<close>)
    show "wq_of s' q = \<lparr>wq_flag = False, wq_waiting_list = wq_waiting_list (wq_of s q) @ [t]\<rparr>"
      unfolding drv' by (rule wq3)
    show "wn_of s' t = \<lparr>wn_list = Some q, wn_polling_thread = t, wn_wakeup = wqueue_default_wake\<rparr>"
      unfolding drv' wn3 by simp
    show "wn_of s' i = wn_of s i" if "i \<noteq> t" for i unfolding drv' wn3 using that by simp
    show "th_base s' t = RT_THREAD_SUSPEND" using s'(4) c5(2) by simp
    show "tm_timeout_tick (k_timer s' (ThreadTimer t)) = k_tick s + word_of_int msec"
      using fr(3) s5(5) fr4(2) tick(1) by simp
  qed (rule err s'(5))+
qed


section \<open>Properties\<close>

text \<open>
  A wake-up serves exactly one waiter.  It wakes the thread of the first node whose wake
  function agrees, takes that node out of the queue and leaves every other waiting thread
  suspended; the woken call returns RT_EOK.
\<close>

theorem wqueue_wakes_one:
  assumes "wqueue_ok q s" "k_current s = Some c"
    and "wqueue_find wakes key s (wq_waiting_list (wq_of s q)) = Some i"
    and "wn_polling_thread (wn_of s i) = t" "th_base s t = RT_THREAD_SUSPEND"
  shows "\<exists>s'. rt_wqueue_wakeup wakes q key s = Some s' \<and> wqueue_ok q s'
     \<and> wq_waiting_list (wq_of s' q) = remove1 i (wq_waiting_list (wq_of s q))
     \<and> th_base s' t \<in> {RT_THREAD_READY, RT_THREAD_RUNNING}
     \<and> (\<forall>u. u \<noteq> t \<longrightarrow> (th_base s' u = RT_THREAD_SUSPEND \<longleftrightarrow> th_base s u = RT_THREAD_SUSPEND))
     \<and> fst (rt_wqueue_wait_exit q t s') = th_error (k_thread s t)"
proof -
  have inv: "kinv s" using assms(1) by (simp add: wqueue_ok_def)
  have obj: "th_obj (k_thread s (wn_polling_thread (wn_of s i)))"
    using kinv_objs(1) [OF inv, of t] assms(4,5) by simp
  obtain s' where s': "rt_wqueue_wakeup wakes q key s = Some s'" "wqueue_ok q s'"
    "wq_of s' q = \<lparr>wq_flag = True, wq_waiting_list = remove1 i (wq_waiting_list (wq_of s q))\<rparr>"
    "\<And>u. th_core (k_thread s' u) = th_core (k_thread s u)"
    "th_base s (wn_polling_thread (wn_of s i)) = RT_THREAD_SUSPEND
       \<Longrightarrow> th_base s' (wn_polling_thread (wn_of s i)) \<in> {RT_THREAD_READY, RT_THREAD_RUNNING}"
    "\<And>u. u \<noteq> wn_polling_thread (wn_of s i) \<or> th_base s u \<noteq> RT_THREAD_SUSPEND \<Longrightarrow>
       th_base s u = RT_THREAD_SUSPEND \<longleftrightarrow> th_base s' u = RT_THREAD_SUSPEND"
    by (rule wakeup_ok [OF assms(1-3) obj]) blast
  have "fst (rt_wqueue_wait_exit q t s') = th_error (k_thread s t)"
    using th_core_simps [OF s'(4), of t] by (simp add: rt_wqueue_wait_exit_def Let_def)
  then show ?thesis using s'(1,2,5,6) assms(4,5) by (simp add: s'(3))
qed

lemma sample_wqueue:
  obtains s where "rt_wqueue_wait 0 False 5 k_sample = Some (Blocked, s)" "wqueue_ok 0 s"
    "wq_waiting_list (wq_of s 0) = [0]" "wn_polling_thread (wn_of s 0) = 0" "th_base s 0 = RT_THREAD_SUSPEND"
    "\<exists>c. k_current s = Some c"
proof -
  have w: "wq_of k_sample 0 = \<lparr>wq_flag = False, wq_waiting_list = []\<rparr>" "wn_list (wn_of k_sample i) = None" for i
    by (simp_all add: k_sample_def drv_sample_def)
  have ok: "wqueue_ok 0 k_sample" using w kinv_sample by (simp add: wqueue_ok_def)
  have nf: "\<not> wq_flag (wq_of k_sample 0)" "0 \<notin> set (wq_waiting_list (wq_of k_sample 0))" using w(1) by simp_all
  have tmo: "(0::int) < 5" "timeout_ok 5" by (simp_all add: timeout_ok_def)
  obtain s where s: "rt_wqueue_wait 0 False 5 k_sample = Some (Blocked, s)" "wqueue_ok 0 s"
    "wq_of s 0 = \<lparr>wq_flag = False, wq_waiting_list = wq_waiting_list (wq_of k_sample 0) @ [0]\<rparr>"
    "wn_of s 0 = \<lparr>wn_list = Some 0, wn_polling_thread = 0, wn_wakeup = wqueue_default_wake\<rparr>"
    "th_base s 0 = RT_THREAD_SUSPEND" "\<exists>c. k_current s = Some c"
    by (rule wqueue_wait_blocks [OF ok sample_may_block nf tmo]) blast
  show thesis by (rule that [OF s(1,2)]) (use s w(1) in simp_all)
qed

theorem wqueue_wakes_one_witness:
  "\<exists>s s'. rt_wqueue_wait 0 False 5 k_sample = Some (Blocked, s)
     \<and> rt_wqueue_wakeup (\<lambda>_ _ _. True) 0 () s = Some s' \<and> wq_waiting_list (wq_of s' 0) = []"
proof -
  obtain s c where s: "rt_wqueue_wait 0 False 5 k_sample = Some (Blocked, s)" "wqueue_ok 0 s"
    "wq_waiting_list (wq_of s 0) = [0]" "wn_polling_thread (wn_of s 0) = 0" "th_base s 0 = RT_THREAD_SUSPEND"
    "k_current s = Some c"
    by (rule sample_wqueue) blast
  have "wqueue_find (\<lambda>_ _ _. True) () s (wq_waiting_list (wq_of s 0)) = Some 0" using s(3) by simp
  then show ?thesis using wqueue_wakes_one [OF s(2,6) _ s(4,5)] s(1,3) by fastforce
qed

text \<open>
  A wake-up can be lost.  When the thread of the first node has timed out but has not run yet,
  a wake-up is spent on it: the other waiting threads stay suspended, that thread returns its
  timeout error all the same, and it clears the flag that would have remembered the wake-up.
\<close>

theorem wqueue_wakeup_lost:
  assumes "wqueue_ok q s" "k_current s = Some c"
    and "wqueue_find wakes key s (wq_waiting_list (wq_of s q)) = Some i"
    and "wn_polling_thread (wn_of s i) = t" "th_obj (k_thread s t)" "th_base s t = RT_THREAD_READY"
    and "th_error (k_thread s t) = - RT_ETIMEOUT"
  shows "\<exists>s' s''. rt_wqueue_wakeup wakes q key s = Some s'
     \<and> (\<forall>u. th_base s' u = RT_THREAD_SUSPEND \<longleftrightarrow> th_base s u = RT_THREAD_SUSPEND)
     \<and> rt_wqueue_wait_exit q t s' = (- RT_ETIMEOUT, s'') \<and> \<not> wq_flag (wq_of s'' q)"
proof -
  have obj: "th_obj (k_thread s (wn_polling_thread (wn_of s i)))" using assms(4,5) by simp
  obtain s' where s': "rt_wqueue_wakeup wakes q key s = Some s'"
    "\<And>u. th_core (k_thread s' u) = th_core (k_thread s u)"
    "\<And>u. u \<noteq> wn_polling_thread (wn_of s i) \<or> th_base s u \<noteq> RT_THREAD_SUSPEND \<Longrightarrow>
       th_base s u = RT_THREAD_SUSPEND \<longleftrightarrow> th_base s' u = RT_THREAD_SUSPEND"
    by (rule wakeup_ok [OF assms(1-3) obj]) blast
  have "th_base s' u = RT_THREAD_SUSPEND \<longleftrightarrow> th_base s u = RT_THREAD_SUSPEND" for u
    using s'(3) [of u] assms(4,6) by auto
  moreover have "fst (rt_wqueue_wait_exit q t s') = - RT_ETIMEOUT"
    using th_core_simps [OF s'(2), of t] assms(7) by (simp add: rt_wqueue_wait_exit_def Let_def)
  moreover have "\<not> wq_flag (wq_of (snd (rt_wqueue_wait_exit q t s')) q)"
    by (auto simp: rt_wqueue_wait_exit_def Let_def rt_wqueue_remove_def split: option.split)
  ultimately show ?thesis using s'(1) by (intro exI conjI) (auto simp: prod_eq_iff)
qed

text \<open>In the sample, thread 1 is ready; give it the timeout error and the only node.\<close>

definition lost_sample :: kstate where
  "lost_sample = upd_wq 0 (\<lambda>w. w\<lparr>wq_waiting_list := [1]\<rparr>)
     (upd_wn 1 (\<lambda>_. \<lparr>wn_list = Some 0, wn_polling_thread = 1, wn_wakeup = wqueue_default_wake\<rparr>)
       (upd_thread 1 (\<lambda>th. th\<lparr>th_error := - RT_ETIMEOUT\<rparr>) k_sample))"

theorem wqueue_wakeup_lost_witness:
  "\<exists>s' s''. rt_wqueue_wakeup (\<lambda>_ _ _. True) 0 () lost_sample = Some s'
     \<and> rt_wqueue_wait_exit 0 1 s' = (- RT_ETIMEOUT, s'')"
proof -
  have "wqueue_ok 0 lost_sample"
    by (auto simp: wqueue_ok_def lost_sample_def kinv_set_error kinv_sample) (simp add: k_sample_def drv_sample_def)
  moreover have "k_current lost_sample = Some 0" "th_obj (k_thread lost_sample 1)"
    "th_base lost_sample 1 = RT_THREAD_READY" "th_error (k_thread lost_sample 1) = - RT_ETIMEOUT"
    by (simp_all add: lost_sample_def k_sample_def threads_sample_def)
  moreover have "wqueue_find (\<lambda>_ _ _. True) () lost_sample (wq_waiting_list (wq_of lost_sample 0)) = Some 1"
    "wn_polling_thread (wn_of lost_sample 1) = 1" by (simp_all add: lost_sample_def)
  ultimately obtain s' s'' where "rt_wqueue_wakeup (\<lambda>_ _ _. True) 0 () lost_sample = Some s'"
    "rt_wqueue_wait_exit 0 1 s' = (- RT_ETIMEOUT, s'')"
    using wqueue_wakeup_lost [of 0 lost_sample 0 "\<lambda>_ _ _. True" "()" 1 1] by blast
  then show ?thesis by blast
qed

end
