(* ===== verification/DataQueue.thy ===== *)
theory DataQueue
  imports Completion
begin

text \<open>
  Data queues, src/rt-thread/components/drivers/ipc/dataqueue.c: a circular array of data pointers
  with waiting pushers and poppers and a low water mark.  The notify function of a queue is a
  parameter: \<open>notify f q e s\<close> is the call of function number f for queue q with event e.  As for the
  mailboxes, \<open>dq_push_loop\<close> and \<open>dq_pop_loop\<close> are one turn of the waiting loop together with what
  follows it inside the critical section; they return the event to notify, if there is one.
\<close>

section \<open>The array\<close>

abbreviation RT_DATAQUEUE_EVENT_POP :: rt_uint32_t where "RT_DATAQUEUE_EVENT_POP \<equiv> 1"
abbreviation RT_DATAQUEUE_EVENT_PUSH :: rt_uint32_t where "RT_DATAQUEUE_EVENT_PUSH \<equiv> 2"
abbreviation RT_DATAQUEUE_EVENT_LWM :: rt_uint32_t where "RT_DATAQUEUE_EVENT_LWM \<equiv> 3"

type_synonym data_item = "rt_uint32_t \<times> rt_uint32_t"

text \<open>Advance an index, a bit field of 15 bits, and wrap it at the size, which has 16 bits.\<close>

definition dq_next :: "nat \<Rightarrow> nat \<Rightarrow> nat" where
  "dq_next i sz = (let j = (i + 1) mod 0x8000 in if j = sz then 0 else j)"

text \<open>An access outside the array is an error of the model.\<close>

definition dq_store :: "data_item \<Rightarrow> rt_data_queue \<Rightarrow> rt_data_queue option" where
  "dq_store x m =
     (if dq_put_index m < length (dq_queue m)
      then (let m1 = m\<lparr>dq_queue := (dq_queue m)[dq_put_index m := x],
                       dq_put_index := dq_next (dq_put_index m) (dq_size m), dq_is_empty := False\<rparr>
            in Some (if dq_put_index m1 = dq_get_index m1 then m1\<lparr>dq_is_full := True\<rparr> else m1))
      else None)"

definition dq_fetch :: "rt_data_queue \<Rightarrow> (data_item \<times> rt_data_queue) option" where
  "dq_fetch m =
     (if dq_get_index m < length (dq_queue m)
      then (let m1 = m\<lparr>dq_get_index := dq_next (dq_get_index m) (dq_size m), dq_is_full := False\<rparr>
            in Some (dq_queue m ! dq_get_index m,
                 if dq_put_index m1 = dq_get_index m1 then m1\<lparr>dq_is_empty := True\<rparr> else m1))
      else None)"

text \<open>The length is computed in an rt_int16_t and returned as an rt_uint16_t.\<close>

definition dq_len :: "rt_data_queue \<Rightarrow> nat" where
  "dq_len m =
     (if dq_is_empty m then 0
      else if dq_get_index m < dq_put_index m then dq_put_index m - dq_get_index m
      else nat ((int (dq_size m) + int (dq_put_index m) - int (dq_get_index m)) mod 0x10000))"


section \<open>Operations\<close>

abbreviation dq_of :: "kstate \<Rightarrow> nat \<Rightarrow> rt_data_queue" where "dq_of s q \<equiv> dv_dq (k_drv s) q"

definition upd_dq :: "nat \<Rightarrow> (rt_data_queue \<Rightarrow> rt_data_queue) \<Rightarrow> kstate \<Rightarrow> kstate" where
  "upd_dq q f = upd_drv (\<lambda>d. d\<lparr>dv_dq := (dv_dq d)(q := f (dv_dq d q))\<rparr>)"

text \<open>The argument mem is the answer of \<^verbatim>\<open>rt_malloc\<close>: an array, or nothing.\<close>

definition rt_data_queue_init ::
  "nat \<Rightarrow> nat \<Rightarrow> nat \<Rightarrow> nat option \<Rightarrow> data_item list option \<Rightarrow> kstate \<Rightarrow> (rt_err_t \<times> kstate) option" where
  "rt_data_queue_init q sz lwm evt_notify mem s = do {
     RT_ASSERT (0 < sz);
     let s1 = upd_dq q (\<lambda>m. m\<lparr>dq_evt_notify := evt_notify, dq_magic := True, dq_size := sz, dq_lwm := lwm,
                           dq_get_index := 0, dq_put_index := 0, dq_is_empty := True, dq_is_full := False\<rparr>) s;
     let s2 = ipc_object_init (DqPopQ q) (ipc_object_init (DqPushQ q) s1);
     (case mem of
        None \<Rightarrow> Some (- RT_ENOMEM, upd_dq q (\<lambda>m. m\<lparr>dq_queue := []\<rparr>) s2)
      | Some p \<Rightarrow> Some (RT_EOK, upd_dq q (\<lambda>m. m\<lparr>dq_queue := p\<rparr>) s2))
   }"

definition dq_notify ::
  "(nat \<Rightarrow> nat \<Rightarrow> rt_uint32_t \<Rightarrow> kstate \<Rightarrow> kstate option) \<Rightarrow> nat \<Rightarrow> rt_uint32_t option \<Rightarrow> kstate \<Rightarrow> kstate option" where
  "dq_notify notify q event s =
     (case (event, dq_evt_notify (dq_of s q)) of
        (Some e, Some f) \<Rightarrow> notify f q e s
      | _ \<Rightarrow> Some s)"

definition dq_push_loop ::
  "nat \<Rightarrow> data_item \<Rightarrow> int \<Rightarrow> tid option \<Rightarrow> kstate \<Rightarrow> (rt_err_t outcome \<times> rt_uint32_t option \<times> kstate) option" where
  "dq_push_loop q x timeout self s =
     (if dq_is_full (dq_of s q)
      then if timeout = 0 then Some (Returned (- RT_ETIMEOUT), None, s)
           else do {
             t \<leftarrow> self;
             s1 \<leftarrow> drv_wait (DqPushQ q) t timeout s;
             Some (Blocked, None, s1)
           }
      else do {
        m \<leftarrow> dq_store x (dq_of s q);
        let s1 = upd_dq q (\<lambda>_. m) s;
        if k_lists s1 (DqPopQ q) \<noteq> [] then do {
          s2 \<leftarrow> ipc_wake (DqPopQ q) s1;
          Some (Returned RT_EOK, None, s2)
        }
        else Some (Returned RT_EOK, Some RT_DATAQUEUE_EVENT_PUSH, s1)
      })"

definition rt_data_queue_push ::
  "(nat \<Rightarrow> nat \<Rightarrow> rt_uint32_t \<Rightarrow> kstate \<Rightarrow> kstate option) \<Rightarrow> nat \<Rightarrow> data_item \<Rightarrow> int \<Rightarrow> kstate
     \<Rightarrow> (rt_err_t outcome \<times> kstate) option" where
  "rt_data_queue_push notify q x timeout s = do {
     RT_ASSERT (dq_magic (dq_of s q));
     debug_scheduler_available (timeout \<noteq> 0) s;
     (r, event, s1) \<leftarrow> dq_push_loop q x timeout (rt_thread_self s) s;
     s2 \<leftarrow> dq_notify notify q event s1;
     Some (r, s2)
   }"

text \<open>After the suspension: the same timeout is used again if the thread has to wait again.\<close>

definition dq_push_woken ::
  "nat \<Rightarrow> data_item \<Rightarrow> int \<Rightarrow> tid \<Rightarrow> kstate \<Rightarrow> (rt_err_t outcome \<times> rt_uint32_t option \<times> kstate) option" where
  "dq_push_woken q x timeout t s =
     (if th_error (k_thread s t) \<noteq> RT_EOK then Some (Returned (th_error (k_thread s t)), None, s)
      else dq_push_loop q x timeout (Some t) s)"

definition rt_data_queue_push_resume ::
  "(nat \<Rightarrow> nat \<Rightarrow> rt_uint32_t \<Rightarrow> kstate \<Rightarrow> kstate option) \<Rightarrow> nat \<Rightarrow> data_item \<Rightarrow> int \<Rightarrow> tid \<Rightarrow> kstate
     \<Rightarrow> (rt_err_t outcome \<times> kstate) option" where
  "rt_data_queue_push_resume notify q x timeout t s = do {
     (r, event, s1) \<leftarrow> dq_push_woken q x timeout t s;
     s2 \<leftarrow> dq_notify notify q event s1;
     Some (r, s2)
   }"

definition dq_pop_loop ::
  "nat \<Rightarrow> int \<Rightarrow> tid option \<Rightarrow> kstate
     \<Rightarrow> ((rt_err_t \<times> data_item option) outcome \<times> rt_uint32_t option \<times> kstate) option" where
  "dq_pop_loop q timeout self s =
     (if dq_is_empty (dq_of s q)
      then if timeout = 0 then Some (Returned (- RT_ETIMEOUT, None), None, s)
           else do {
             t \<leftarrow> self;
             s1 \<leftarrow> drv_wait (DqPopQ q) t timeout s;
             Some (Blocked, None, s1)
           }
      else do {
        (x, m) \<leftarrow> dq_fetch (dq_of s q);
        let s1 = upd_dq q (\<lambda>_. m) s;
        if dq_len m \<le> dq_lwm m then do {
          s2 \<leftarrow> ipc_wake (DqPushQ q) s1;
          Some (Returned (RT_EOK, Some x), Some RT_DATAQUEUE_EVENT_LWM, s2)
        }
        else Some (Returned (RT_EOK, Some x), Some RT_DATAQUEUE_EVENT_POP, s1)
      })"

definition rt_data_queue_pop ::
  "(nat \<Rightarrow> nat \<Rightarrow> rt_uint32_t \<Rightarrow> kstate \<Rightarrow> kstate option) \<Rightarrow> nat \<Rightarrow> int \<Rightarrow> kstate
     \<Rightarrow> ((rt_err_t \<times> data_item option) outcome \<times> kstate) option" where
  "rt_data_queue_pop notify q timeout s = do {
     RT_ASSERT (dq_magic (dq_of s q));
     debug_scheduler_available (timeout \<noteq> 0) s;
     (r, event, s1) \<leftarrow> dq_pop_loop q timeout (rt_thread_self s) s;
     s2 \<leftarrow> dq_notify notify q event s1;
     Some (r, s2)
   }"

definition dq_pop_woken ::
  "nat \<Rightarrow> int \<Rightarrow> tid \<Rightarrow> kstate
     \<Rightarrow> ((rt_err_t \<times> data_item option) outcome \<times> rt_uint32_t option \<times> kstate) option" where
  "dq_pop_woken q timeout t s =
     (if th_error (k_thread s t) \<noteq> RT_EOK then Some (Returned (th_error (k_thread s t), None), None, s)
      else dq_pop_loop q timeout (Some t) s)"

definition rt_data_queue_pop_resume ::
  "(nat \<Rightarrow> nat \<Rightarrow> rt_uint32_t \<Rightarrow> kstate \<Rightarrow> kstate option) \<Rightarrow> nat \<Rightarrow> int \<Rightarrow> tid \<Rightarrow> kstate
     \<Rightarrow> ((rt_err_t \<times> data_item option) outcome \<times> kstate) option" where
  "rt_data_queue_pop_resume notify q timeout t s = do {
     (r, event, s1) \<leftarrow> dq_pop_woken q timeout t s;
     s2 \<leftarrow> dq_notify notify q event s1;
     Some (r, s2)
   }"

definition rt_data_queue_peek :: "nat \<Rightarrow> kstate \<Rightarrow> (rt_err_t \<times> data_item option) option" where
  "rt_data_queue_peek q s = do {
     RT_ASSERT (dq_magic (dq_of s q));
     if dq_is_empty (dq_of s q) then Some (- RT_EEMPTY, None)
     else do {
       RT_ASSERT (dq_get_index (dq_of s q) < length (dq_queue (dq_of s q)));
       Some (RT_EOK, Some (dq_queue (dq_of s q) ! dq_get_index (dq_of s q)))
     }
   }"

definition rt_data_queue_reset :: "nat \<Rightarrow> kstate \<Rightarrow> kstate option" where
  "rt_data_queue_reset q s = do {
     RT_ASSERT (dq_magic (dq_of s q));
     let s1 = upd_dq q (\<lambda>m. m\<lparr>dq_get_index := 0, dq_put_index := 0, dq_is_empty := True, dq_is_full := False\<rparr>) s;
     s2 \<leftarrow> ipc_list_resume_all (DqPopQ q) (rt_enter_critical s1);
     s3 \<leftarrow> ipc_list_resume_all (DqPushQ q) s2;
     s4 \<leftarrow> rt_exit_critical s3;
     rt_schedule s4
   }"

definition rt_data_queue_deinit :: "nat \<Rightarrow> kstate \<Rightarrow> (rt_err_t \<times> kstate) option" where
  "rt_data_queue_deinit q s = do {
     RT_ASSERT (dq_magic (dq_of s q));
     s1 \<leftarrow> rt_data_queue_reset q s;
     Some (RT_EOK, upd_dq q (\<lambda>m. m\<lparr>dq_magic := False, dq_queue := []\<rparr>) s1)
   }"

definition rt_data_queue_len :: "nat \<Rightarrow> kstate \<Rightarrow> nat option" where
  "rt_data_queue_len q s = do {
     RT_ASSERT (dq_magic (dq_of s q));
     Some (dq_len (dq_of s q))
   }"


section \<open>The array is a bounded queue\<close>

text \<open>The queue holds n items from the read index on; sizes up to 2 ^ 15 fit the indices.\<close>

definition dq_shape :: "rt_data_queue \<Rightarrow> nat \<Rightarrow> bool" where
  "dq_shape m n \<longleftrightarrow> 0 < dq_size m \<and> dq_size m \<le> 0x8000 \<and> dq_size m \<le> length (dq_queue m)
     \<and> dq_get_index m < dq_size m \<and> n \<le> dq_size m
     \<and> dq_put_index m = (dq_get_index m + n) mod dq_size m
     \<and> (dq_is_empty m \<longleftrightarrow> n = 0) \<and> (dq_is_full m \<longleftrightarrow> n = dq_size m)"

definition dq_wf :: "rt_data_queue \<Rightarrow> bool" where
  "dq_wf m \<longleftrightarrow> dq_shape m (dq_len m)"

definition dq_items :: "rt_data_queue \<Rightarrow> data_item list" where
  "dq_items m = window (dq_queue m) (dq_size m) (dq_get_index m) (dq_len m)"

lemma length_dq_items [simp]: "length (dq_items m) = dq_len m"
  by (simp add: dq_items_def)

lemma dq_next_mod: "i < sz \<Longrightarrow> sz \<le> 0x8000 \<Longrightarrow> dq_next i sz = (i + 1) mod sz"
proof -
  assume i: "i < sz" "sz \<le> 0x8000"
  show "dq_next i sz = (i + 1) mod sz"
  proof (cases "i + 1 = sz")
    case True
    then show ?thesis using i by (cases "sz = 0x8000") (simp_all add: dq_next_def Let_def)
  next
    case False
    then have "(i + 1) mod 0x8000 = i + 1" "(i + 1) mod sz = i + 1" using i by simp_all
    then show ?thesis using False by (simp add: dq_next_def Let_def)
  qed
qed

text \<open>The indices and flags determine the number of items.\<close>

lemma shape_len:
  assumes "dq_shape m n"
  shows "dq_len m = n"
proof (cases "n = 0")
  case True
  then show ?thesis using assms by (simp add: dq_shape_def dq_len_def)
next
  case False
  note sh = assms [unfolded dq_shape_def]
  let ?g = "dq_get_index m" and ?p = "dq_put_index m" and ?z = "dq_size m"
  show ?thesis
  proof (cases "?g + n < ?z")
    case True
    then have "?p = ?g + n" using sh by simp
    then show ?thesis using sh False by (simp add: dq_len_def)
  next
    case ge: False
    then have "?p = ?g + n - ?z" using sh by (auto simp: mod_if [of "?g + n"])
    then have "\<not> ?g < ?p" "int ?z + int ?p - int ?g = int n" using sh ge by auto
    moreover have "nat (int n mod 0x10000) = n" using sh by (auto simp: nat_mod_distrib)
    ultimately show ?thesis using sh False by (simp only: dq_len_def if_False)
  qed
qed

lemma shape_wf: "dq_shape m n \<Longrightarrow> dq_wf m"
  using shape_len by (simp add: dq_wf_def)

lemma dq_wfD:
  assumes "dq_wf m"
  shows "dq_len m \<le> dq_size m" "dq_is_empty m \<longleftrightarrow> dq_items m = []" "dq_is_full m \<longleftrightarrow> dq_len m = dq_size m"
    "0 < dq_size m" "dq_size m \<le> length (dq_queue m)"
proof -
  show "dq_is_empty m \<longleftrightarrow> dq_items m = []"
    using assms length_dq_items [of m] by (cases "dq_items m") (simp_all add: dq_wf_def dq_shape_def)
qed (use assms in \<open>simp_all add: dq_wf_def dq_shape_def\<close>)

lemma dq_store_ok:
  assumes wf: "dq_wf m" and room: "\<not> dq_is_full m"
  obtains m' where "dq_store x m = Some m'" "dq_wf m'" "dq_items m' = dq_items m @ [x]"
    "dq_size m' = dq_size m" "dq_lwm m' = dq_lwm m" "dq_evt_notify m' = dq_evt_notify m" "dq_magic m' = dq_magic m"
proof -
  let ?n = "dq_len m"
  note sh = wf [unfolded dq_wf_def dq_shape_def]
  have lt: "?n < dq_size m" using sh room by auto
  have p: "dq_put_index m < dq_size m" using sh by simp
  have p': "(dq_put_index m + 1) mod dq_size m = (dq_get_index m + Suc ?n) mod dq_size m"
    using sh by (simp add: mod_Suc_eq)
  have full: "(dq_get_index m + Suc ?n) mod dq_size m = dq_get_index m \<longleftrightarrow> Suc ?n = dq_size m"
  proof
    assume "(dq_get_index m + Suc ?n) mod dq_size m = dq_get_index m"
    then have "(dq_get_index m + Suc ?n) mod dq_size m = (dq_get_index m + 0) mod dq_size m" using sh by simp
    then show "Suc ?n = dq_size m" using mod_window_inj [of "dq_get_index m" "Suc ?n" "dq_size m" 0] sh lt
      by (cases "Suc ?n < dq_size m") auto
  qed (use sh in simp)
  define m1 where "m1 = m\<lparr>dq_queue := (dq_queue m)[dq_put_index m := x],
     dq_put_index := (dq_get_index m + Suc ?n) mod dq_size m, dq_is_empty := False\<rparr>"
  let ?m' = "if Suc ?n = dq_size m then m1\<lparr>dq_is_full := True\<rparr> else m1"
  have len: "dq_put_index m < length (dq_queue m)" using p sh by linarith
  have "dq_next (dq_put_index m) (dq_size m) = (dq_get_index m + Suc ?n) mod dq_size m"
    unfolding p' [symmetric] using dq_next_mod [OF p] sh by blast
  then have st: "dq_store x m = Some ?m'"
    using len full by (simp only: dq_store_def Let_def m1_def if_True) simp
  have "dq_get_index m < dq_size m" "dq_size m \<le> 0x8000" "dq_size m \<le> length (dq_queue m)" using sh by simp_all
  then have "dq_shape ?m' (Suc ?n)" using lt room full by (auto simp: dq_shape_def m1_def dest: sym)
  then have w: "dq_wf ?m'" "dq_len ?m' = Suc ?n" by (rule shape_wf, rule shape_len)
  have put: "dq_put_index m = (dq_get_index m + ?n) mod dq_size m" using sh by simp
  have "window ((dq_queue m)[dq_put_index m := x]) (dq_size m) (dq_get_index m) (Suc ?n) = dq_items m @ [x]"
    unfolding put dq_items_def using lt sh by (intro window_write_end) simp_all
  then have "dq_items ?m' = dq_items m @ [x]"
    unfolding dq_items_def [of ?m'] w(2) by (cases "Suc ?n = dq_size m") (simp_all add: m1_def)
  then show thesis by (rule that [OF st w(1)]) (simp_all add: m1_def)
qed

lemma dq_fetch_ok:
  assumes wf: "dq_wf m" and ne: "\<not> dq_is_empty m"
  obtains m' x where "dq_fetch m = Some (x, m')" "dq_wf m'" "dq_items m = x # dq_items m'"
    "dq_size m' = dq_size m" "dq_lwm m' = dq_lwm m" "dq_evt_notify m' = dq_evt_notify m" "dq_magic m' = dq_magic m"
proof -
  note sh = wf [unfolded dq_wf_def dq_shape_def]
  obtain n where n: "dq_len m = Suc n" using sh ne by (cases "dq_len m") auto
  let ?g = "(dq_get_index m + 1) mod dq_size m"
  define m1 where "m1 = m\<lparr>dq_get_index := ?g, dq_is_full := False\<rparr>"
  let ?m' = "if n = 0 then m1\<lparr>dq_is_empty := True\<rparr> else m1"
  have lt: "n < dq_size m" using sh n by simp
  have put: "dq_put_index m = (?g + n) mod dq_size m"
    using sh n mod_add_left_eq [of "dq_get_index m + 1" "dq_size m" n] by simp
  have empty: "dq_put_index m = ?g \<longleftrightarrow> n = 0"
  proof
    assume "dq_put_index m = ?g"
    then have "(?g + n) mod dq_size m = (?g + 0) mod dq_size m" using put by simp
    then show "n = 0" using mod_window_inj [of ?g n "dq_size m" 0] lt by simp
  qed (use put in simp)
  have "dq_get_index m < length (dq_queue m)" using sh by linarith
  then have ft: "dq_fetch m = Some (dq_queue m ! dq_get_index m, ?m')"
    using sh empty by (simp add: dq_fetch_def dq_next_mod Let_def m1_def)
  have "dq_shape ?m' n" using sh lt put n by (auto simp: dq_shape_def m1_def)
  then have w: "dq_wf ?m'" "dq_len ?m' = n" by (rule shape_wf, rule shape_len)
  have "dq_items m = window (dq_queue m) (dq_size m) (dq_get_index m) (1 + n)"
    using n by (simp add: dq_items_def)
  also have "\<dots> = dq_queue m ! dq_get_index m # dq_items ?m'"
    unfolding window_append dq_items_def [of ?m'] w(2) using sh
    by (simp add: m1_def window_def mod_add_left_eq)
  finally show thesis by (rule that [OF ft w(1)]) (simp_all add: m1_def)
qed

text \<open>The non-blocking core as an instance of the bounded queue.\<close>

definition dq_put :: "rt_data_queue \<Rightarrow> data_item \<Rightarrow> (rt_data_queue \<times> bool) option" where
  "dq_put m x = (if dq_is_full m then Some (m, False) else map_option (\<lambda>m'. (m', True)) (dq_store x m))"

definition dq_get :: "rt_data_queue \<Rightarrow> (rt_data_queue \<times> data_item option) option" where
  "dq_get m = (if dq_is_empty m then Some (m, None)
     else map_option (\<lambda>(x, m'). (m', Some x)) (dq_fetch m))"

interpretation dqq: bounded_fifo dq_wf dq_items dq_size dq_put dq_get
proof unfold_locales
  show "length (dq_items m) \<le> dq_size m" if "dq_wf m" for m
    using dq_wfD(1) [OF that] by simp
  show "\<exists>m'. dq_put m x = Some (m', True) \<and> dq_wf m' \<and> dq_items m' = dq_items m @ [x] \<and> dq_size m' = dq_size m"
    if wf: "dq_wf m" and room: "length (dq_items m) < dq_size m" for m x
  proof -
    have nf: "\<not> dq_is_full m" using dq_wfD(3) [OF wf] room by simp
    show ?thesis using dq_store_ok [OF wf nf, of x] nf by (auto simp: dq_put_def)
  qed
  show "dq_put m x = Some (m, False)" if "dq_wf m" "length (dq_items m) = dq_size m" for m x
    using dq_wfD(3) [OF that(1)] that(2) by (simp add: dq_put_def)
  show "\<exists>m'. dq_get m = Some (m', Some x) \<and> dq_wf m' \<and> dq_items m' = xs \<and> dq_size m' = dq_size m"
    if wf: "dq_wf m" and items: "dq_items m = x # xs" for m x xs
  proof -
    have ne: "\<not> dq_is_empty m" using dq_wfD(2) [OF wf] items by simp
    obtain m' y where "dq_fetch m = Some (y, m')" "dq_wf m'" "dq_items m = y # dq_items m'" "dq_size m' = dq_size m"
      by (rule dq_fetch_ok [OF wf ne])
    then show ?thesis using ne items by (simp add: dq_get_def)
  qed
  show "dq_get m = Some (m, None)" if "dq_wf m" "dq_items m = []" for m
    using dq_wfD(2) [OF that(1)] that(2) by (simp add: dq_get_def)
qed


text \<open>
  The indices cannot count to a size above 2 ^ 15: the array wraps after 32768 items, is then
  marked full, and its length is reported as its size.
\<close>

lemma dq_large_size_miscounts:
  assumes "0x8000 < dq_size m" "dq_size m < 0x10000" "dq_size m \<le> length (dq_queue m)"
    and "dq_get_index m = 0" "dq_put_index m = 0x7FFF"
  shows "\<exists>m'. dq_store x m = Some m' \<and> dq_put_index m' = 0 \<and> dq_is_full m' \<and> dq_len m' = dq_size m"
proof -
  have "dq_next 0x7FFF (dq_size m) = 0" using assms(1) by (simp add: dq_next_def)
  moreover have "nat (int (dq_size m) mod 0x10000) = dq_size m" using assms(2) by (simp add: nat_mod_distrib)
  ultimately show ?thesis using assms by (simp add: dq_store_def dq_len_def Let_def)
qed


section \<open>Pushing and popping\<close>

lemma upd_dq_simps [simp]:
  "k_thread (upd_dq q f s) = k_thread s" "k_lists (upd_dq q f s) = k_lists s"
  "k_current (upd_dq q f s) = k_current s" "k_lock_nest (upd_dq q f s) = k_lock_nest s"
  "k_irq_nest (upd_dq q f s) = k_irq_nest s" "k_tick (upd_dq q f s) = k_tick s"
  "k_timer (upd_dq q f s) = k_timer s" "kinv (upd_dq q f s) = kinv s"
  "dv_dq (k_drv (upd_dq q f s)) = (dv_dq (k_drv s))(q := f (dq_of s q))"
  by (simp_all add: upd_dq_def)

lemma dq_update_wake_ok:
  assumes inv: "kinv s" and cur: "k_current s = Some c" and h: "wait_queue h"
  obtains s' where "ipc_wake h (upd_dq q (\<lambda>_. m') s) = Some s'" "kinv s'" "dq_of s' q = m'"
    "\<exists>c'. k_current s' = Some c'"
    "\<And>g. wait_queue g \<Longrightarrow> k_lists s' g = (if g = h then tl (k_lists s h) else k_lists s g)"
    "\<And>t ts. k_lists s h = t # ts \<Longrightarrow> th_base s' t \<in> {RT_THREAD_READY, RT_THREAD_RUNNING}"
proof -
  let ?s1 = "upd_dq q (\<lambda>_. m') s"
  have inv1: "kinv ?s1" and cur1: "k_current ?s1 = Some c" using inv cur by simp_all
  obtain s' where s': "ipc_wake h ?s1 = Some s'" "kinv s'" "objs_frame ?s1 s'"
    "\<exists>c'. k_current s' = Some c'"
    "\<And>g. wait_queue g \<Longrightarrow> k_lists s' g = (if g = h then tl (k_lists ?s1 h) else k_lists ?s1 g)"
    "\<And>t ts. k_lists ?s1 h = t # ts \<Longrightarrow> th_base s' t \<in> {RT_THREAD_READY, RT_THREAD_RUNNING}"
    by (rule ipc_wake_ok [OF inv1 cur1 h]) blast
  have "dq_of s' q = m'" unfolding objs_frame_drv(1) [OF s'(3)] by simp
  then show thesis by (rule that [OF s'(1,2) _ s'(4)]) (use s'(5,6) in simp_all)
qed

lemma dq_push_ok:
  assumes inv: "kinv s" and cur: "k_current s = Some c" and wf: "dq_wf (dq_of s q)"
    and room: "\<not> dq_is_full (dq_of s q)"
  obtains s' where "dq_push_loop q x timeout self s = Some (Returned RT_EOK,
      if k_lists s (DqPopQ q) = [] then Some RT_DATAQUEUE_EVENT_PUSH else None, s')" "kinv s'"
    "dq_wf (dq_of s' q)" "dq_items (dq_of s' q) = dq_items (dq_of s q) @ [x]" "dq_size (dq_of s' q) = dq_size (dq_of s q)"
    "\<exists>c'. k_current s' = Some c'"
    "\<And>g. wait_queue g \<Longrightarrow> k_lists s' g = (if g = DqPopQ q then tl (k_lists s g) else k_lists s g)"
    "\<And>t ts. k_lists s (DqPopQ q) = t # ts \<Longrightarrow> th_base s' t \<in> {RT_THREAD_READY, RT_THREAD_RUNNING}"
proof -
  obtain m' where m': "dq_store x (dq_of s q) = Some m'" "dq_wf m'" "dq_items m' = dq_items (dq_of s q) @ [x]"
      "dq_size m' = dq_size (dq_of s q)"
    by (rule dq_store_ok [OF wf room])
  have h: "wait_queue (DqPopQ q)" by simp
  obtain s' where s': "ipc_wake (DqPopQ q) (upd_dq q (\<lambda>_. m') s) = Some s'" "kinv s'" "dq_of s' q = m'"
    "\<exists>c'. k_current s' = Some c'"
    "\<And>g. wait_queue g \<Longrightarrow> k_lists s' g = (if g = DqPopQ q then tl (k_lists s (DqPopQ q)) else k_lists s g)"
    "\<And>t ts. k_lists s (DqPopQ q) = t # ts \<Longrightarrow> th_base s' t \<in> {RT_THREAD_READY, RT_THREAD_RUNNING}"
    by (rule dq_update_wake_ok [OF inv cur h]) blast
  have "dq_push_loop q x timeout self s = Some (Returned RT_EOK,
      if k_lists s (DqPopQ q) = [] then Some RT_DATAQUEUE_EVENT_PUSH else None, s')"
  proof (cases "k_lists s (DqPopQ q)")
    case Nil
    then have "s' = upd_dq q (\<lambda>_. m') s" using s'(1) by (simp add: ipc_wake_def)
    then show ?thesis using m'(1) room Nil by (simp add: dq_push_loop_def)
  qed (use m'(1) s'(1) room in \<open>simp add: dq_push_loop_def\<close>)
  then show thesis by (rule that) (use s' m' in simp_all)
qed

lemma dq_pop_ok:
  assumes inv: "kinv s" and cur: "k_current s = Some c" and wf: "dq_wf (dq_of s q)"
    and items: "dq_items (dq_of s q) = x # xs"
  obtains s' where "dq_pop_loop q timeout self s = Some (Returned (RT_EOK, Some x),
      Some (if length xs \<le> dq_lwm (dq_of s q) then RT_DATAQUEUE_EVENT_LWM else RT_DATAQUEUE_EVENT_POP), s')"
    "kinv s'" "dq_wf (dq_of s' q)" "dq_items (dq_of s' q) = xs" "dq_size (dq_of s' q) = dq_size (dq_of s q)"
    "\<exists>c'. k_current s' = Some c'"
    "\<And>g. wait_queue g \<Longrightarrow> k_lists s' g
       = (if g = DqPushQ q \<and> length xs \<le> dq_lwm (dq_of s q) then tl (k_lists s g) else k_lists s g)"
    "\<And>t ts. k_lists s (DqPushQ q) = t # ts \<Longrightarrow> length xs \<le> dq_lwm (dq_of s q)
       \<Longrightarrow> th_base s' t \<in> {RT_THREAD_READY, RT_THREAD_RUNNING}"
    "\<And>t. \<not> length xs \<le> dq_lwm (dq_of s q) \<Longrightarrow> k_thread s' t = k_thread s t"
proof -
  have ne: "\<not> dq_is_empty (dq_of s q)" using dq_wfD(2) [OF wf] items by simp
  obtain m' y where m': "dq_fetch (dq_of s q) = Some (y, m')" "dq_wf m'" "dq_items (dq_of s q) = y # dq_items m'"
      "dq_size m' = dq_size (dq_of s q)" "dq_lwm m' = dq_lwm (dq_of s q)"
    by (rule dq_fetch_ok [OF wf ne])
  have y: "y = x" "dq_items m' = xs" "dq_len m' = length xs"
    using m'(3) items length_dq_items [of m'] by auto
  have h: "wait_queue (DqPushQ q)" by simp
  obtain s' where s': "ipc_wake (DqPushQ q) (upd_dq q (\<lambda>_. m') s) = Some s'" "kinv s'" "dq_of s' q = m'"
    "\<exists>c'. k_current s' = Some c'"
    "\<And>g. wait_queue g \<Longrightarrow> k_lists s' g = (if g = DqPushQ q then tl (k_lists s (DqPushQ q)) else k_lists s g)"
    "\<And>t ts. k_lists s (DqPushQ q) = t # ts \<Longrightarrow> th_base s' t \<in> {RT_THREAD_READY, RT_THREAD_RUNNING}"
    by (rule dq_update_wake_ok [OF inv cur h]) blast
  show thesis
  proof (cases "length xs \<le> dq_lwm (dq_of s q)")
    case True
    have "dq_pop_loop q timeout self s = Some (Returned (RT_EOK, Some x),
      Some (if length xs \<le> dq_lwm (dq_of s q) then RT_DATAQUEUE_EVENT_LWM else RT_DATAQUEUE_EVENT_POP), s')"
      using m'(1,5) s'(1) ne y True by (simp add: dq_pop_loop_def)
    then show thesis by (rule that) (use s' m' y True in simp_all)
  next
    case False
    let ?s = "upd_dq q (\<lambda>_. m') s"
    have "dq_pop_loop q timeout self s = Some (Returned (RT_EOK, Some x),
      Some (if length xs \<le> dq_lwm (dq_of s q) then RT_DATAQUEUE_EVENT_LWM else RT_DATAQUEUE_EVENT_POP), ?s)"
      using m'(1,5) ne y False by (simp add: dq_pop_loop_def)
    then show thesis by (rule that) (use m' y False inv cur in simp_all)
  qed
qed

lemma dq_push_blocks:
  assumes inv: "kinv s" and t: "may_block s t" and full: "dq_is_full (dq_of s q)"
    and tmo: "timeout \<noteq> 0" "timeout_ok timeout"
  obtains s' where "dq_push_loop q x timeout (Some t) s = Some (Blocked, None, s')" "kinv s'"
    "dq_of s' q = dq_of s q" "th_base s' t = RT_THREAD_SUSPEND" "k_lists s' (DqPushQ q) = k_lists s (DqPushQ q) @ [t]"
    "0 < timeout \<Longrightarrow> tm_row (k_timer s' (ThreadTimer t)) = Some Timer_list
       \<and> tm_timeout_tick (k_timer s' (ThreadTimer t)) = k_tick s + word_of_int timeout"
    "\<exists>u. th_base s u = RT_THREAD_READY \<Longrightarrow> runs_most_urgent s'"
proof -
  have h: "wait_queue (DqPushQ q)" by simp
  obtain s' where s': "drv_wait (DqPushQ q) t timeout s = Some s'"
    "kinv s'" "th_base s' t = RT_THREAD_SUSPEND" "objs_frame s s'"
    "\<And>g. wait_queue g \<Longrightarrow> k_lists s' g = (if g = DqPushQ q then k_lists s (DqPushQ q) @ [t] else k_lists s g)"
    "0 < timeout \<Longrightarrow> tm_row (k_timer s' (ThreadTimer t)) = Some Timer_list
       \<and> tm_timeout_tick (k_timer s' (ThreadTimer t)) = k_tick s + word_of_int timeout"
    "\<exists>u. th_base s u = RT_THREAD_READY \<Longrightarrow> runs_most_urgent s'"
    by (rule drv_wait_ok [OF inv t h tmo(2)]) blast
  show thesis
    by (rule that [of s']) (use s' full tmo(1) objs_frame_drv(1) [OF s'(4)] in \<open>simp_all add: dq_push_loop_def\<close>)
qed

lemma dq_pop_blocks:
  assumes inv: "kinv s" and t: "may_block s t" and empty: "dq_is_empty (dq_of s q)"
    and tmo: "timeout \<noteq> 0" "timeout_ok timeout"
  obtains s' where "dq_pop_loop q timeout (Some t) s = Some (Blocked, None, s')" "kinv s'" "dq_of s' q = dq_of s q"
proof -
  have h: "wait_queue (DqPopQ q)" by simp
  obtain s' where s': "drv_wait (DqPopQ q) t timeout s = Some s'" "kinv s'" "objs_frame s s'"
    by (rule drv_wait_ok [OF inv t h tmo(2)]) blast
  show thesis
    by (rule that [of s']) (use s' empty tmo(1) objs_frame_drv(1) [OF s'(3)] in \<open>simp_all add: dq_pop_loop_def\<close>)
qed


section \<open>Histories\<close>

text \<open>
  A data queue through any history of pushes and pops (from threads, waiting or not, and from
  interrupts), resumptions of either, and other kernel activity; a notify function is such other
  activity, or further pushes and pops.  ins lists the items whose push succeeded, outs the items
  that were popped, in order.  A reset starts a new history.
\<close>

inductive dq_history :: "nat \<Rightarrow> kstate \<Rightarrow> data_item list \<Rightarrow> data_item list \<Rightarrow> bool" for q where
  start: "\<lbrakk>kinv s; dq_wf (dq_of s q); dq_items (dq_of s q) = []\<rbrakk> \<Longrightarrow> dq_history q s [] []"
| push: "\<lbrakk>dq_history q s ins outs; k_current s = Some t; timeout = 0 \<or> may_block s t; timeout_ok timeout;
      dq_push_loop q x timeout (rt_thread_self s) s = Some (r, ev, s')\<rbrakk>
    \<Longrightarrow> dq_history q s' (ins @ (if r = Returned RT_EOK then [x] else [])) outs"
| push_woken: "\<lbrakk>dq_history q s ins outs; may_block s t; timeout_ok timeout;
      dq_push_woken q x timeout t s = Some (r, ev, s')\<rbrakk>
    \<Longrightarrow> dq_history q s' (ins @ (if r = Returned RT_EOK then [x] else [])) outs"
| pop: "\<lbrakk>dq_history q s ins outs; k_current s = Some t; timeout = 0 \<or> may_block s t; timeout_ok timeout;
      dq_pop_loop q timeout (rt_thread_self s) s = Some (r, ev, s')\<rbrakk>
    \<Longrightarrow> dq_history q s' ins (outs @ received r)"
| pop_woken: "\<lbrakk>dq_history q s ins outs; may_block s t; timeout_ok timeout;
      dq_pop_woken q timeout t s = Some (r, ev, s')\<rbrakk> \<Longrightarrow> dq_history q s' ins (outs @ received r)"
| other: "\<lbrakk>dq_history q s ins outs; kinv s'; dq_of s' q = dq_of s q\<rbrakk> \<Longrightarrow> dq_history q s' ins outs"

lemma dq_push_step:
  assumes inv: "kinv s" and wf: "dq_wf (dq_of s q)" and cur: "k_current s = Some t"
    and t: "timeout = 0 \<or> may_block s t" and tmo: "timeout_ok timeout"
    and run: "dq_push_loop q x timeout (Some t) s = Some (r, ev, s')"
  shows "kinv s' \<and> dq_wf (dq_of s' q)
     \<and> dq_items (dq_of s' q) = dq_items (dq_of s q) @ (if r = Returned RT_EOK then [x] else [])"
proof (cases "dq_is_full (dq_of s q)")
  case False
  obtain ev2 s2 where "dq_push_loop q x timeout (Some t) s = Some (Returned RT_EOK, ev2, s2)" "kinv s2"
      "dq_wf (dq_of s2 q)" "dq_items (dq_of s2 q) = dq_items (dq_of s q) @ [x]"
    by (rule dq_push_ok [OF inv cur wf False])
  then show ?thesis using run by simp
next
  case True
  show ?thesis
  proof (cases "timeout = 0")
    case 0: True
    then have "r = Returned (- RT_ETIMEOUT) \<and> s' = s" using run True by (simp add: dq_push_loop_def)
    then show ?thesis using inv wf by simp
  next
    case False
    then have "may_block s t" using t by simp
    then obtain s2 where "dq_push_loop q x timeout (Some t) s = Some (Blocked, None, s2)" "kinv s2"
        "dq_of s2 q = dq_of s q"
      by (rule dq_push_blocks [OF inv _ True False tmo])
    then show ?thesis using run wf by auto
  qed
qed

lemma dq_pop_step:
  assumes inv: "kinv s" and wf: "dq_wf (dq_of s q)" and cur: "k_current s = Some t"
    and t: "timeout = 0 \<or> may_block s t" and tmo: "timeout_ok timeout"
    and run: "dq_pop_loop q timeout (Some t) s = Some (r, ev, s')"
  shows "kinv s' \<and> dq_wf (dq_of s' q) \<and> dq_items (dq_of s q) = received r @ dq_items (dq_of s' q)"
proof (cases "dq_items (dq_of s q)")
  case (Cons x xs)
  obtain ev2 s2 where "dq_pop_loop q timeout (Some t) s = Some (Returned (RT_EOK, Some x), ev2, s2)" "kinv s2"
      "dq_wf (dq_of s2 q)" "dq_items (dq_of s2 q) = xs"
    by (rule dq_pop_ok [OF inv cur wf Cons])
  then show ?thesis using run Cons by (auto simp: received_def)
next
  case Nil
  then have empty: "dq_is_empty (dq_of s q)" using dq_wfD(2) [OF wf] by simp
  show ?thesis
  proof (cases "timeout = 0")
    case True
    then have "r = Returned (- RT_ETIMEOUT, None) \<and> s' = s" using run empty by (simp add: dq_pop_loop_def)
    then show ?thesis using inv wf by (simp add: received_def)
  next
    case False
    then have "may_block s t" using t by simp
    then obtain s2 where "dq_pop_loop q timeout (Some t) s = Some (Blocked, None, s2)" "kinv s2"
        "dq_of s2 q = dq_of s q"
      by (rule dq_pop_blocks [OF inv _ empty False tmo])
    then show ?thesis using run wf by (auto simp: received_def)
  qed
qed

lemma dq_push_woken_step:
  assumes inv: "kinv s" and wf: "dq_wf (dq_of s q)" and t: "may_block s t" and tmo: "timeout_ok timeout"
    and run: "dq_push_woken q x timeout t s = Some (r, ev, s')"
  shows "kinv s' \<and> dq_wf (dq_of s' q)
     \<and> dq_items (dq_of s' q) = dq_items (dq_of s q) @ (if r = Returned RT_EOK then [x] else [])"
proof (cases "th_error (k_thread s t) = RT_EOK")
  case True
  then have "dq_push_loop q x timeout (Some t) s = Some (r, ev, s')" using run by (simp add: dq_push_woken_def)
  then show ?thesis using dq_push_step [OF inv wf may_blockD(1) [OF t] _ tmo] t by blast
next
  case False
  then have "r = Returned (th_error (k_thread s t)) \<and> s' = s" using run by (auto simp: dq_push_woken_def)
  then show ?thesis using inv wf False by simp
qed

lemma dq_pop_woken_step:
  assumes inv: "kinv s" and wf: "dq_wf (dq_of s q)" and t: "may_block s t" and tmo: "timeout_ok timeout"
    and run: "dq_pop_woken q timeout t s = Some (r, ev, s')"
  shows "kinv s' \<and> dq_wf (dq_of s' q) \<and> dq_items (dq_of s q) = received r @ dq_items (dq_of s' q)"
proof (cases "th_error (k_thread s t) = RT_EOK")
  case True
  then have "dq_pop_loop q timeout (Some t) s = Some (r, ev, s')" using run by (simp add: dq_pop_woken_def)
  then show ?thesis using dq_pop_step [OF inv wf may_blockD(1) [OF t] _ tmo] t by blast
next
  case False
  then have "r = Returned (th_error (k_thread s t), None) \<and> s' = s" using run by (auto simp: dq_pop_woken_def)
  then show ?thesis using inv wf by (simp add: received_def)
qed

lemma dq_history_ok:
  "dq_history q s ins outs \<Longrightarrow> kinv s \<and> dq_wf (dq_of s q) \<and> ins = outs @ dq_items (dq_of s q)"
proof (induction rule: dq_history.induct)
  case (push s ins outs t timeout x r ev s')
  then show ?case using dq_push_step [of s q t timeout x r ev s'] by (simp add: rt_thread_self_def)
next
  case (push_woken s ins outs t timeout x r ev s')
  then show ?case using dq_push_woken_step [of s q t timeout x r ev s'] by simp
next
  case (pop s ins outs t timeout r ev s')
  then show ?case using dq_pop_step [of s q t timeout r ev s'] by (simp add: rt_thread_self_def)
next
  case (pop_woken s ins outs t timeout r ev s')
  then show ?case using dq_pop_woken_step [of s q t timeout r ev s'] by simp
qed simp_all


section \<open>Properties\<close>

text \<open>
  C26: data queues deliver in order.  In every history, the successfully pushed items are exactly
  the popped ones followed by the stored ones, in order; never more than the size are stored, and
  the kernel stays well formed.
\<close>

theorem dataqueue_delivers_in_order:
  assumes "dq_history q s ins outs"
  shows "ins = outs @ dq_items (dq_of s q) \<and> length (dq_items (dq_of s q)) \<le> dq_size (dq_of s q) \<and> kinv s"
  using dq_history_ok [OF assms] dqq.bound [of "dq_of s q"] by simp

text \<open>A full queue of two items; the running thread waits to push a third one.\<close>

definition full_sample :: kstate where
  "full_sample = upd_dq 0 (\<lambda>_. \<lparr>dq_magic = True, dq_size = 2, dq_lwm = 1, dq_get_index = 0, dq_put_index = 0,
     dq_is_empty = False, dq_is_full = True, dq_queue = [(1, 2), (3, 4)], dq_evt_notify = None\<rparr>) k_sample"

lemma full_sample:
  "kinv full_sample" "may_block full_sample 0" "dq_wf (dq_of full_sample 0)"
  "dq_items (dq_of full_sample 0) = [(1, 2), (3, 4)]" "dq_is_full (dq_of full_sample 0)"
  "k_lists full_sample (DqPushQ 0) = []" "\<exists>u. th_base full_sample u = RT_THREAD_READY"
  "dq_lwm (dq_of full_sample 0) = 1" "th_error (k_thread full_sample 0) = RT_EOK"
proof -
  have t: "[0..<2] = [0, Suc 0]" by (simp add: upt_rec)
  have "dq_shape (dq_of full_sample 0) 2" by (simp add: dq_shape_def full_sample_def)
  then show "dq_wf (dq_of full_sample 0)" "dq_items (dq_of full_sample 0) = [(1, 2), (3, 4)]"
    by (rule shape_wf) (simp add: full_sample_def dq_items_def dq_len_def window_def t)
  show "may_block full_sample 0" using sample_may_block by (simp add: may_block_def full_sample_def)
  show "\<exists>u. th_base full_sample u = RT_THREAD_READY"
    by (rule exI [of _ 1]) (simp add: full_sample_def)
qed (simp_all add: full_sample_def kinv_sample lists_sample_def)

theorem dataqueue_delivers_in_order_witness:
  "\<exists>s. dq_history 0 s [(7, 8)] [] \<and> [(7, 8)] = [] @ dq_items (dq_of s 0)"
proof -
  have "dq_shape (dq_of k_sample 0) 0" by (simp add: dq_shape_def k_sample_def drv_sample_def)
  then have w: "dq_wf (dq_of k_sample 0)" "dq_items (dq_of k_sample 0) = []"
    using shape_len [of "dq_of k_sample 0" 0] by (auto simp: shape_wf dq_items_def)
  have nf: "\<not> dq_is_full (dq_of k_sample 0)" by (simp add: k_sample_def drv_sample_def)
  have cur: "k_current k_sample = Some 0" by simp
  have h0: "dq_history 0 k_sample [] []" by (rule dq_history.start [OF kinv_sample w])
  obtain ev s where p: "dq_push_loop 0 (7, 8) 0 (rt_thread_self k_sample) k_sample = Some (Returned RT_EOK, ev, s)"
    by (rule dq_push_ok [OF kinv_sample cur w(1) nf])
  have "dq_history 0 s [(7, 8)] []"
    using dq_history.push [OF h0 cur _ _ p] by (simp add: timeout_ok_def)
  then show ?thesis using dataqueue_delivers_in_order by blast
qed

text \<open>
  The low water mark.  A pop returns the oldest item; it wakes the first waiting pusher (and
  notifies the low water event) only when no more items than the mark are left, otherwise no
  pusher is woken although there is room.
\<close>

theorem dataqueue_wakes_at_low_water:
  assumes "kinv s" "k_current s = Some c" "dq_wf (dq_of s q)" "dq_items (dq_of s q) = x # xs"
    and "k_lists s (DqPushQ q) = t # ts"
  shows "\<exists>s'. dq_pop_loop q timeout self s = Some (Returned (RT_EOK, Some x),
       Some (if length xs \<le> dq_lwm (dq_of s q) then RT_DATAQUEUE_EVENT_LWM else RT_DATAQUEUE_EVENT_POP), s')
     \<and> kinv s' \<and> dq_items (dq_of s' q) = xs
     \<and> (if length xs \<le> dq_lwm (dq_of s q)
        then k_lists s' (DqPushQ q) = ts \<and> th_base s' t \<in> {RT_THREAD_READY, RT_THREAD_RUNNING}
        else k_lists s' (DqPushQ q) = t # ts \<and> th_base s' t = RT_THREAD_SUSPEND)"
proof -
  have sus: "th_base s t = RT_THREAD_SUSPEND" using waiter(1) [OF assms(1), of t "DqPushQ q"] assms(5) by simp
  obtain s' where "dq_pop_loop q timeout self s = Some (Returned (RT_EOK, Some x),
      Some (if length xs \<le> dq_lwm (dq_of s q) then RT_DATAQUEUE_EVENT_LWM else RT_DATAQUEUE_EVENT_POP), s')"
    "kinv s'" "dq_items (dq_of s' q) = xs"
    "\<And>g. wait_queue g \<Longrightarrow> k_lists s' g
       = (if g = DqPushQ q \<and> length xs \<le> dq_lwm (dq_of s q) then tl (k_lists s g) else k_lists s g)"
    "\<And>t ts. k_lists s (DqPushQ q) = t # ts \<Longrightarrow> length xs \<le> dq_lwm (dq_of s q)
       \<Longrightarrow> th_base s' t \<in> {RT_THREAD_READY, RT_THREAD_RUNNING}"
    "\<And>t. \<not> length xs \<le> dq_lwm (dq_of s q) \<Longrightarrow> k_thread s' t = k_thread s t"
    by (rule dq_pop_ok [OF assms(1-4)]) blast
  then show ?thesis using assms(5) sus by (intro exI [of _ s']) simp
qed

lemma full_sample_waits:
  obtains s where "dq_push_woken 0 (5, 6) 30 0 full_sample = Some (Blocked, None, s)" "kinv s"
    "dq_of s 0 = dq_of full_sample 0" "k_lists s (DqPushQ 0) = [0]" "\<exists>c. k_current s = Some c"
proof -
  have tmo: "(30::int) \<noteq> 0" "timeout_ok 30" by (simp_all add: timeout_ok_def)
  obtain s where s: "dq_push_loop 0 (5, 6) 30 (Some 0) full_sample = Some (Blocked, None, s)" "kinv s"
    "dq_of s 0 = dq_of full_sample 0" "k_lists s (DqPushQ 0) = k_lists full_sample (DqPushQ 0) @ [0]"
    "\<exists>u. th_base full_sample u = RT_THREAD_READY \<Longrightarrow> runs_most_urgent s"
    by (rule dq_push_blocks [OF full_sample(1,2,5) tmo]) blast
  have "\<exists>c. k_current s = Some c" using s(5) [OF full_sample(7)] by (auto simp: runs_most_urgent_def)
  then show thesis by (intro that [of s]) (use s full_sample(6,9) in \<open>simp_all add: dq_push_woken_def\<close>)
qed

theorem dataqueue_wakes_at_low_water_witness:
  "\<exists>s s'. dq_pop_loop 0 0 None s = Some (Returned (RT_EOK, Some (1, 2)), Some RT_DATAQUEUE_EVENT_LWM, s')
     \<and> k_lists s (DqPushQ 0) = [0] \<and> k_lists s' (DqPushQ 0) = []"
proof -
  obtain s where s: "kinv s" "dq_of s 0 = dq_of full_sample 0" "k_lists s (DqPushQ 0) = [0]" "\<exists>c. k_current s = Some c"
    by (rule full_sample_waits)
  then have "dq_wf (dq_of s 0)" "dq_items (dq_of s 0) = [(1, 2), (3, 4)]" "dq_lwm (dq_of s 0) = 1"
    using full_sample(3,4,8) by simp_all
  then show ?thesis using dataqueue_wakes_at_low_water [of s _ 0 "(1, 2)" "[(3, 4)]" 0 "[]" 0 None] s by fastforce
qed

text \<open>
  Waiting again extends the deadline.  A pusher that is woken without an error but finds the
  queue full again waits for its whole timeout once more, from the current tick on, whenever it
  began to wait.
\<close>

theorem dataqueue_wait_extends_deadline:
  assumes "kinv s" "may_block s t" "th_error (k_thread s t) = RT_EOK" "dq_is_full (dq_of s q)"
    and "0 < timeout" "timeout_ok timeout"
  shows "\<exists>s'. dq_push_woken q x timeout t s = Some (Blocked, None, s') \<and> kinv s'
     \<and> k_lists s' (DqPushQ q) = k_lists s (DqPushQ q) @ [t]
     \<and> tm_row (k_timer s' (ThreadTimer t)) = Some Timer_list
     \<and> tm_timeout_tick (k_timer s' (ThreadTimer t)) = k_tick s + word_of_int timeout"
proof -
  have "timeout \<noteq> 0" using assms(5) by simp
  then obtain s' where "dq_push_loop q x timeout (Some t) s = Some (Blocked, None, s')" "kinv s'"
    "k_lists s' (DqPushQ q) = k_lists s (DqPushQ q) @ [t]"
    "tm_row (k_timer s' (ThreadTimer t)) = Some Timer_list
       \<and> tm_timeout_tick (k_timer s' (ThreadTimer t)) = k_tick s + word_of_int timeout"
    using dq_push_blocks [OF assms(1,2,4) _ assms(6)] assms(5) by metis
  then show ?thesis using assms(3) by (simp add: dq_push_woken_def)
qed

theorem dataqueue_wait_extends_deadline_witness:
  "\<exists>s'. dq_push_woken 0 (5, 6) 30 0 full_sample = Some (Blocked, None, s')
     \<and> tm_timeout_tick (k_timer s' (ThreadTimer 0)) = k_tick full_sample + 30"
  using dataqueue_wait_extends_deadline [OF full_sample(1,2,9,5), of 30 "(5, 6)"] by (auto simp: timeout_ok_def)


section \<open>Resetting\<close>

text \<open>
  A reset always returns.  It empties the queue and wakes every waiting pusher and popper
  with the error code, so that their calls fail, and keeps the size and the mark.
\<close>

theorem dataqueue_reset_wakes_all:
  assumes "kinv s" "k_current s = Some c" "dq_wf (dq_of s q)" "dq_magic (dq_of s q)"
  shows "\<exists>s'. rt_data_queue_reset q s = Some s' \<and> kinv s' \<and> dq_wf (dq_of s' q) \<and> dq_items (dq_of s' q) = []
     \<and> dq_size (dq_of s' q) = dq_size (dq_of s q) \<and> k_lists s' (DqPopQ q) = [] \<and> k_lists s' (DqPushQ q) = []
     \<and> (\<forall>t \<in> set (k_lists s (DqPopQ q)) \<union> set (k_lists s (DqPushQ q)).
          th_base s' t \<in> {RT_THREAD_READY, RT_THREAD_RUNNING}
          \<and> (\<forall>x timeout. dq_push_woken q x timeout t s' = Some (Returned (- RT_ERROR), None, s'))
          \<and> (\<forall>timeout. dq_pop_woken q timeout t s' = Some (Returned (- RT_ERROR, None), None, s')))"
proof -
  let ?m = "(dq_of s q)\<lparr>dq_get_index := 0, dq_put_index := 0, dq_is_empty := True, dq_is_full := False\<rparr>"
  let ?f = "\<lambda>m. m\<lparr>dq_get_index := 0, dq_put_index := 0, dq_is_empty := True, dq_is_full := False\<rparr>"
  let ?s1 = "rt_enter_critical (upd_dq q ?f s)"
  have "dq_shape ?m 0" using assms(3) by (auto simp: dq_wf_def dq_shape_def)
  then have m: "dq_wf ?m" "dq_items ?m = []" using shape_len [of ?m 0] by (auto simp: shape_wf dq_items_def)
  have s1: "kinv ?s1" "k_current ?s1 = Some c" "k_lists ?s1 = k_lists s" "k_thread ?s1 = k_thread s" "dq_of ?s1 q = ?m"
    using assms(1,2) by simp_all
  have pop: "wait_queue (DqPopQ q)" and push: "wait_queue (DqPushQ q)" by simp_all
  obtain s2 where s2: "ipc_list_resume_all (DqPopQ q) ?s1 = Some s2" "kinv s2"
    "\<And>g. wait_queue g \<Longrightarrow> k_lists s2 g = (if g = DqPopQ q then [] else k_lists ?s1 g)"
    "\<And>t. t \<in> set (k_lists ?s1 (DqPopQ q)) \<Longrightarrow> th_error (k_thread s2 t) = - RT_ERROR
        \<and> th_base s2 t \<in> {RT_THREAD_READY, RT_THREAD_RUNNING}"
    "objs_frame ?s1 s2" "k_current s2 = k_current ?s1"
    by (rule resume_all_ok [OF s1(1) pop]) blast
  obtain s3 where s3: "ipc_list_resume_all (DqPushQ q) s2 = Some s3" "kinv s3"
    "\<And>g. wait_queue g \<Longrightarrow> k_lists s3 g = (if g = DqPushQ q then [] else k_lists s2 g)"
    "\<And>t. t \<in> set (k_lists s2 (DqPushQ q)) \<Longrightarrow> th_error (k_thread s3 t) = - RT_ERROR
        \<and> th_base s3 t \<in> {RT_THREAD_READY, RT_THREAD_RUNNING}"
    "\<And>t. t \<notin> set (k_lists s2 (DqPushQ q)) \<Longrightarrow> k_thread s3 t = k_thread s2 t"
    "objs_frame s2 s3" "k_current s3 = k_current s2"
    by (rule resume_all_ok [OF s2(2) push]) blast
  have cur3: "k_current s3 = Some c" using s3(7) s2(6) s1(2) by simp
  obtain s4 where s4: "rt_exit_critical s3 = Some s4" "calm s3 s4" by (rule exit_critical_calm [OF s3(2) cur3])
  then obtain c4 where c4: "kinv s4" "k_current s4 = Some c4" by (auto simp: calm_def)
  obtain s5 where s5: "rt_schedule s4 = Some s5" "calm s4 s5" by (rule schedule_calm [OF c4])
  have run: "rt_data_queue_reset q s = Some s5"
    using assms(4) s2(1) s3(1) s4(1) s5(1) by (simp add: rt_data_queue_reset_def)
  have drv: "dq_of s5 q = ?m"
    using s4(2) s5(2) objs_frame_drv(1) [OF s2(5)] objs_frame_drv(1) [OF s3(6)] s1(5) by (simp add: calm_def)
  have lists: "k_lists s5 g = k_lists s3 g" if "wait_queue g" for g
    using s4(2) s5(2) that by (simp add: calm_def)
  have woken3: "th_error (k_thread s3 t) = - RT_ERROR \<and> th_base s3 t \<in> {RT_THREAD_READY, RT_THREAD_RUNNING}"
    if "t \<in> set (k_lists s (DqPopQ q)) \<union> set (k_lists s (DqPushQ q))" for t
  proof (cases "t \<in> set (k_lists s2 (DqPushQ q))")
    case False
    then show ?thesis using that s3(5) [OF False] s2(3) [OF push] s2(4) [of t] s1(3) by auto
  qed (rule s3(4))
  have woken: "th_error (k_thread s5 t) = - RT_ERROR \<and> th_base s5 t \<in> {RT_THREAD_READY, RT_THREAD_RUNNING}"
    if "t \<in> set (k_lists s (DqPopQ q)) \<union> set (k_lists s (DqPushQ q))" for t
  proof -
    have "th_core (k_thread s5 t) = th_core (k_thread s3 t)" using s4(2) s5(2) by (simp add: calm_def)
    then have "th_error (k_thread s5 t) = th_error (k_thread s3 t)" using th_core_simps by blast
    moreover have "th_base s5 t \<in> {RT_THREAD_READY, RT_THREAD_RUNNING}"
      using woken3 [OF that] s4(2) s5(2) by (simp only: calm_def)
    ultimately show ?thesis using woken3 [OF that] by simp
  qed
  show ?thesis
  proof (intro exI [of _ s5] conjI ballI)
    fix t assume t: "t \<in> set (k_lists s (DqPopQ q)) \<union> set (k_lists s (DqPushQ q))"
    show "th_base s5 t \<in> {RT_THREAD_READY, RT_THREAD_RUNNING}" using woken [OF t] by simp
    show "\<forall>x timeout. dq_push_woken q x timeout t s5 = Some (Returned (- RT_ERROR), None, s5)"
      "\<forall>timeout. dq_pop_woken q timeout t s5 = Some (Returned (- RT_ERROR, None), None, s5)"
      using woken [OF t] by (simp_all add: dq_push_woken_def dq_pop_woken_def)
  next
    show "kinv s5" using s5(2) by (simp add: calm_def)
    show "k_lists s5 (DqPopQ q) = []" "k_lists s5 (DqPushQ q) = []"
      unfolding lists [OF pop] lists [OF push] s3(3) [OF pop] s3(3) [OF push] s2(3) [OF pop] by simp_all
  qed (unfold drv, rule run, rule m(1), rule m(2), simp)
qed

theorem dataqueue_reset_wakes_all_witness:
  "\<exists>s s'. rt_data_queue_reset 0 s = Some s' \<and> dq_items (dq_of s' 0) = [] \<and> k_lists s (DqPushQ 0) = [0]
     \<and> dq_push_woken 0 (5, 6) 30 0 s' = Some (Returned (- RT_ERROR), None, s')"
proof -
  obtain s where s: "kinv s" "dq_of s 0 = dq_of full_sample 0" "k_lists s (DqPushQ 0) = [0]" "\<exists>c. k_current s = Some c"
    by (rule full_sample_waits)
  have "dq_magic (dq_of full_sample 0)" by (simp add: full_sample_def)
  then show ?thesis using dataqueue_reset_wakes_all [OF s(1), of _ 0] s(2-4) full_sample(3) by fastforce
qed

end
