(* ===== verification/Workqueue.thy ===== *)
theory Workqueue
  imports ThreadEnd Completion Clock
begin

text \<open>
  Work queues, src/rt-thread/components/drivers/ipc/workqueue.c: a thread that runs submitted work
  items in order, and delayed items that a timer submits when their time has come.  The timer
  embedded in work item w is \<^term>\<open>UserTimer w\<close>, and \<^term>\<open>User_timeout w\<close> stands for the call of
  \<^verbatim>\<open>_delayed_work_timeout_handler\<close> with it.  The work functions are a parameter.
\<close>

section \<open>Lists and states\<close>

abbreviation RT_EBUSY :: rt_err_t where "RT_EBUSY \<equiv> 7"

abbreviation wkq_of :: "kstate \<Rightarrow> nat \<Rightarrow> rt_workqueue" where "wkq_of s q \<equiv> dv_workq (k_drv s) q"
abbreviation wk_of :: "kstate \<Rightarrow> nat \<Rightarrow> rt_work" where "wk_of s w \<equiv> dv_work (k_drv s) w"

definition upd_wkq :: "nat \<Rightarrow> (rt_workqueue \<Rightarrow> rt_workqueue) \<Rightarrow> kstate \<Rightarrow> kstate" where
  "upd_wkq q f = upd_drv (\<lambda>d. d\<lparr>dv_workq := (dv_workq d)(q := f (dv_workq d q))\<rparr>)"

definition upd_wk :: "nat \<Rightarrow> (rt_work \<Rightarrow> rt_work) \<Rightarrow> kstate \<Rightarrow> kstate" where
  "upd_wk w f = upd_drv (\<lambda>d. d\<lparr>dv_work := (dv_work d)(w := f (dv_work d w))\<rparr>)"

text \<open>\<^verbatim>\<open>rt_list_remove(&(work->list))\<close> takes the item out of whatever list it is in.\<close>

definition work_unlink :: "nat \<Rightarrow> kstate \<Rightarrow> kstate" where
  "work_unlink w s =
     (case wk_list (wk_of s w) of
        None \<Rightarrow> s
      | Some (Work_list q) \<Rightarrow> upd_wkq q (\<lambda>k. k\<lparr>wkq_work_list := remove1 w (wkq_work_list k)\<rparr>)
          (upd_wk w (\<lambda>k. k\<lparr>wk_list := None\<rparr>) s)
      | Some (Delayed_list q) \<Rightarrow> upd_wkq q (\<lambda>k. k\<lparr>wkq_delayed_list := remove1 w (wkq_delayed_list k)\<rparr>)
          (upd_wk w (\<lambda>k. k\<lparr>wk_list := None\<rparr>) s))"

text \<open>At the back of the work list, which makes the item pending; the delayed list; the front.\<close>

definition work_append :: "nat \<Rightarrow> nat \<Rightarrow> kstate \<Rightarrow> kstate" where
  "work_append q w s = upd_wkq q (\<lambda>k. k\<lparr>wkq_work_list := wkq_work_list k @ [w]\<rparr>)
     (upd_wk w (\<lambda>k. k\<lparr>wk_list := Some (Work_list q), wk_pending := True\<rparr>) s)"

definition work_delay :: "nat \<Rightarrow> nat \<Rightarrow> kstate \<Rightarrow> kstate" where
  "work_delay q w s = upd_wkq q (\<lambda>k. k\<lparr>wkq_delayed_list := wkq_delayed_list k @ [w]\<rparr>)
     (upd_wk w (\<lambda>k. k\<lparr>wk_list := Some (Delayed_list q), wk_workqueue := Some q\<rparr>) s)"

definition work_prepend :: "nat \<Rightarrow> nat \<Rightarrow> kstate \<Rightarrow> kstate" where
  "work_prepend q w s = upd_wkq q (\<lambda>k. k\<lparr>wkq_work_list := w # wkq_work_list k\<rparr>)
     (upd_wk w (\<lambda>k. k\<lparr>wk_list := Some (Work_list q)\<rparr>) s)"

text \<open>Resume the worker thread if it is idle.\<close>

definition wake_worker :: "nat \<Rightarrow> kstate \<Rightarrow> kstate option" where
  "wake_worker q s =
     (if wkq_current (wkq_of s q) = None \<and> th_base s (wkq_thread (wkq_of s q)) = RT_THREAD_SUSPEND
      then do {
        (_, s1) \<leftarrow> rt_thread_resume (wkq_thread (wkq_of s q)) s;
        rt_schedule s1
      }
      else Some s)"


section \<open>Operations\<close>

text \<open>\<^verbatim>\<open>_workqueue_work_completion\<close>: wake every thread that waits for the end of a work item.\<close>

partial_function (option) work_completion_loop :: "nat \<Rightarrow> kstate \<Rightarrow> (rt_err_t \<times> kstate) option" where
  "work_completion_loop n s = do {
     (r, s1) \<leftarrow> rt_sem_trytake n s;
     (case r of
        Blocked \<Rightarrow> None
      | Returned e \<Rightarrow>
          if e = - RT_ETIMEOUT then do {
            (_, s2) \<leftarrow> rt_sem_release n s1;
            work_completion_loop n s2
          }
          else if e = RT_EOK then Some (RT_EOK, s1)
          else Some (- RT_ERROR, s1))
   }"

definition workqueue_work_completion :: "nat \<Rightarrow> kstate \<Rightarrow> (rt_err_t \<times> kstate) option" where
  "workqueue_work_completion q s = do {
     (r, s1) \<leftarrow> work_completion_loop (wkq_sem (wkq_of s q)) (rt_enter_critical s);
     s2 \<leftarrow> rt_exit_critical s1;
     Some (r, s2)
   }"

text \<open>
  One turn of \<^verbatim>\<open>_workqueue_thread_entry\<close>: the thread suspends itself when there is nothing to do,
  or takes the first item, runs it, and reports its end.
\<close>

definition workqueue_thread_take :: "nat \<Rightarrow> kstate \<Rightarrow> (nat option \<times> kstate) option" where
  "workqueue_thread_take q s =
     (case wkq_work_list (wkq_of s q) of
        [] \<Rightarrow> do {
          t \<leftarrow> rt_thread_self s;
          (_, s1) \<leftarrow> rt_thread_suspend t s;
          s2 \<leftarrow> rt_schedule s1;
          Some (None, s2)
        }
      | w # _ \<Rightarrow> Some (Some w,
          upd_wk w (\<lambda>k. k\<lparr>wk_pending := False, wk_workqueue := None\<rparr>)
            (upd_wkq q (\<lambda>k. k\<lparr>wkq_current := Some w\<rparr>) (work_unlink w s))))"

definition workqueue_thread_done :: "nat \<Rightarrow> kstate \<Rightarrow> kstate option" where
  "workqueue_thread_done q s =
     map_option snd (workqueue_work_completion q (upd_wkq q (\<lambda>k. k\<lparr>wkq_current := None\<rparr>) s))"

definition workqueue_thread_turn ::
  "(nat \<Rightarrow> nat \<Rightarrow> kstate \<Rightarrow> kstate option) \<Rightarrow> nat \<Rightarrow> kstate \<Rightarrow> kstate option" where
  "workqueue_thread_turn work q s = do {
     (r, s1) \<leftarrow> workqueue_thread_take q s;
     (case r of
        None \<Rightarrow> Some s1
      | Some w \<Rightarrow> Option.bind (work (wk_func (wk_of s1 w)) w s1) (workqueue_thread_done q))
   }"

text \<open>\<^verbatim>\<open>RT_TIMER_FLAG_ONE_SHOT | RT_TIMER_FLAG_SOFT_TIMER\<close>; soft timers are handled as hard ones.\<close>

abbreviation WORK_TIMER_FLAG :: rt_uint8_t where "WORK_TIMER_FLAG \<equiv> 4"

definition workqueue_submit_work :: "nat \<Rightarrow> nat \<Rightarrow> rt_tick_t \<Rightarrow> kstate \<Rightarrow> (rt_err_t \<times> kstate) option" where
  "workqueue_submit_work q w delay s =
     (let s1 = upd_wk w (\<lambda>k. k\<lparr>wk_pending := False\<rparr>) (work_unlink w s) in
      if delay = 0 then do {
        let (err, s2) = (if wkq_current (wkq_of s1 q) \<noteq> Some w
                         then (RT_EOK, upd_wk w (\<lambda>k. k\<lparr>wk_workqueue := Some q\<rparr>) (work_append q w s1))
                         else (- RT_EBUSY, s1));
        s3 \<leftarrow> wake_worker q s2;
        Some (err, s3)
      }
      else if delay < TICK_HALF then do {
        s2 \<leftarrow> (if wk_submitting (wk_of s1 w)
               then do {
                 (_, a) \<leftarrow> rt_timer_stop (UserTimer w) s1;
                 (_, b) \<leftarrow> rt_timer_control (UserTimer w) (CTRL_SET_TIME delay) a;
                 Some b
               }
               else do {
                 a \<leftarrow> rt_timer_init (UserTimer w) (User_timeout w) delay WORK_TIMER_FLAG s1;
                 Some (upd_wk w (\<lambda>k. k\<lparr>wk_submitting := True\<rparr>) a)
               });
        s3 \<leftarrow> rt_timer_start (UserTimer w) (work_delay q w s2);
        Some (RT_EOK, s3)
      }
      else Some (- RT_ERROR, s1))"

definition workqueue_cancel_work :: "nat \<Rightarrow> nat \<Rightarrow> kstate \<Rightarrow> (rt_err_t \<times> kstate) option" where
  "workqueue_cancel_work q w s = do {
     let s1 = upd_wk w (\<lambda>k. k\<lparr>wk_pending := False\<rparr>) (work_unlink w s);
     s2 \<leftarrow> (if wk_submitting (wk_of s1 w)
            then do {
              (_, a) \<leftarrow> rt_timer_stop (UserTimer w) s1;
              b \<leftarrow> rt_timer_detach (UserTimer w) a;
              Some (upd_wk w (\<lambda>k. k\<lparr>wk_submitting := False\<rparr>) b)
            }
            else Some s1);
     Some (if wkq_current (wkq_of s2 q) \<noteq> Some w then RT_EOK else - RT_EBUSY,
           upd_wk w (\<lambda>k. k\<lparr>wk_workqueue := None\<rparr>) s2)
   }"

definition delayed_work_timeout_handler :: "nat \<Rightarrow> kstate \<Rightarrow> kstate option" where
  "delayed_work_timeout_handler w s = do {
     q \<leftarrow> wk_workqueue (wk_of s w);
     s1 \<leftarrow> rt_timer_detach (UserTimer w) s;
     let s2 = work_unlink w (upd_wk w (\<lambda>k. k\<lparr>wk_submitting := False\<rparr>) s1);
     wake_worker q (if wkq_current (wkq_of s2 q) \<noteq> Some w then work_append q w s2 else s2)
   }"

definition rt_work_init :: "nat \<Rightarrow> nat \<Rightarrow> kstate \<Rightarrow> kstate" where
  "rt_work_init w func = upd_wk w (\<lambda>_. \<lparr>wk_list = None, wk_func = func, wk_pending = False,
     wk_submitting = False, wk_workqueue = None\<rparr>)"

text \<open>
  The arguments are the answers of the allocators: a work queue (with the semaphore n inside), and
  what \<^const>\<open>rt_thread_create\<close> needs.
\<close>

definition rt_workqueue_create ::
  "(nat \<Rightarrow> nat) \<Rightarrow> (nat \<times> nat) option \<Rightarrow> tid option \<Rightarrow> nat option \<Rightarrow> nat \<Rightarrow> nat \<Rightarrow> kstate
     \<Rightarrow> (nat option \<times> kstate) option" where
  "rt_workqueue_create hw_stack_init mem obj stack stack_size priority s =
     (case mem of
        None \<Rightarrow> Some (None, s)
      | Some (q, n) \<Rightarrow> do {
          let s1 = upd_wkq q (\<lambda>k. k\<lparr>wkq_work_list := [], wkq_delayed_list := [], wkq_current := None, wkq_sem := n\<rparr>) s;
          (_, s2) \<leftarrow> rt_sem_init n 0 0 s1;
          (t, s3) \<leftarrow> rt_thread_create hw_stack_init obj stack stack_size priority 10 s2;
          (case t of
             None \<Rightarrow> Some (None, s3)
           | Some u \<Rightarrow> do {
               (_, s4) \<leftarrow> rt_thread_startup u (upd_wkq q (\<lambda>k. k\<lparr>wkq_thread := u\<rparr>) s3);
               Some (Some q, s4)
             })
        })"

definition rt_workqueue_dowork :: "nat \<Rightarrow> nat \<Rightarrow> kstate \<Rightarrow> (rt_err_t \<times> kstate) option" where
  "rt_workqueue_dowork q w s = workqueue_submit_work q w 0 s"

definition rt_workqueue_submit_work :: "nat \<Rightarrow> nat \<Rightarrow> rt_tick_t \<Rightarrow> kstate \<Rightarrow> (rt_err_t \<times> kstate) option" where
  "rt_workqueue_submit_work q w delay s = do {
     RT_ASSERT (delay < TICK_HALF);
     workqueue_submit_work q w delay s
   }"

definition rt_workqueue_urgent_work :: "nat \<Rightarrow> nat \<Rightarrow> kstate \<Rightarrow> (rt_err_t \<times> kstate) option" where
  "rt_workqueue_urgent_work q w s =
     map_option (Pair RT_EOK) (wake_worker q (work_prepend q w (work_unlink w s)))"

definition rt_workqueue_cancel_work :: "nat \<Rightarrow> nat \<Rightarrow> kstate \<Rightarrow> (rt_err_t \<times> kstate) option" where
  "rt_workqueue_cancel_work q w s = workqueue_cancel_work q w s"

text \<open>
  The answer is RT_EOK, also when the wait for the semaphore fails.  \<open>cancel_work_wait\<close> is the
  wait for a work item that was seen running.
\<close>

definition cancel_work_wait :: "nat \<Rightarrow> kstate \<Rightarrow> (rt_err_t outcome \<times> kstate) option" where
  "cancel_work_wait q s = do {
     (r, s1) \<leftarrow> rt_sem_take (wkq_sem (wkq_of s q)) (- 1) s;
     Some (case r of Blocked \<Rightarrow> Blocked | Returned _ \<Rightarrow> Returned RT_EOK, s1)
   }"

definition rt_workqueue_cancel_work_sync :: "nat \<Rightarrow> nat \<Rightarrow> kstate \<Rightarrow> (rt_err_t outcome \<times> kstate) option" where
  "rt_workqueue_cancel_work_sync q w s =
     (if wkq_current (wkq_of s q) = Some w then cancel_work_wait q s
      else map_option (\<lambda>(_, s1). (Returned RT_EOK, s1)) (workqueue_cancel_work q w s))"

text \<open>The two loops of \<^verbatim>\<open>rt_workqueue_cancel_all_work\<close>, for the list given by its selector.\<close>

partial_function (option) cancel_loop :: "(rt_workqueue \<Rightarrow> nat list) \<Rightarrow> nat \<Rightarrow> kstate \<Rightarrow> kstate option" where
  "cancel_loop lst q s =
     (case lst (wkq_of s q) of
        [] \<Rightarrow> Some s
      | w # _ \<Rightarrow> do {
          (_, s1) \<leftarrow> workqueue_cancel_work q w s;
          cancel_loop lst q s1
        })"

definition rt_workqueue_cancel_all_work :: "nat \<Rightarrow> kstate \<Rightarrow> (rt_err_t \<times> kstate) option" where
  "rt_workqueue_cancel_all_work q s = do {
     s1 \<leftarrow> cancel_loop wkq_work_list q (rt_enter_critical s);
     s2 \<leftarrow> cancel_loop wkq_delayed_list q s1;
     s3 \<leftarrow> rt_exit_critical s2;
     Some (RT_EOK, s3)
   }"

definition rt_workqueue_destroy :: "nat \<Rightarrow> kstate \<Rightarrow> (rt_err_t \<times> kstate) option" where
  "rt_workqueue_destroy q s = do {
     (_, s1) \<leftarrow> rt_workqueue_cancel_all_work q s;
     (_, s2) \<leftarrow> rt_thread_delete (wkq_thread (wkq_of s1 q)) s1;
     (_, s3) \<leftarrow> rt_sem_detach (wkq_sem (wkq_of s2 q)) s2;
     Some (RT_EOK, s3)
   }"


section \<open>Facts on the lists\<close>

lemma upd_wkq_simps [simp]:
  "k_thread (upd_wkq q f s) = k_thread s" "k_lists (upd_wkq q f s) = k_lists s"
  "k_current (upd_wkq q f s) = k_current s" "k_lock_nest (upd_wkq q f s) = k_lock_nest s"
  "k_irq_nest (upd_wkq q f s) = k_irq_nest s" "k_tick (upd_wkq q f s) = k_tick s"
  "k_timer (upd_wkq q f s) = k_timer s" "k_timers (upd_wkq q f s) = k_timers s"
  "k_sem (upd_wkq q f s) = k_sem s" "kinv (upd_wkq q f s) = kinv s"
  "dv_workq (k_drv (upd_wkq q f s)) = (dv_workq (k_drv s))(q := f (wkq_of s q))"
  "dv_work (k_drv (upd_wkq q f s)) = dv_work (k_drv s)"
  by (simp_all add: upd_wkq_def)

lemma upd_wk_simps [simp]:
  "k_thread (upd_wk w g s) = k_thread s" "k_lists (upd_wk w g s) = k_lists s"
  "k_current (upd_wk w g s) = k_current s" "k_lock_nest (upd_wk w g s) = k_lock_nest s"
  "k_irq_nest (upd_wk w g s) = k_irq_nest s" "k_tick (upd_wk w g s) = k_tick s"
  "k_timer (upd_wk w g s) = k_timer s" "k_timers (upd_wk w g s) = k_timers s"
  "k_sem (upd_wk w g s) = k_sem s" "kinv (upd_wk w g s) = kinv s"
  "dv_workq (k_drv (upd_wk w g s)) = dv_workq (k_drv s)"
  "dv_work (k_drv (upd_wk w g s)) = (dv_work (k_drv s))(w := g (wk_of s w))"
  by (simp_all add: upd_wk_def)

lemma wk_list_None: "wk_list k = None \<Longrightarrow> k\<lparr>wk_list := None\<rparr> = k"
  by (cases k) simp

lemma work_unlink_simps [simp]:
  "k_thread (work_unlink w s) = k_thread s" "k_lists (work_unlink w s) = k_lists s"
  "k_current (work_unlink w s) = k_current s" "k_lock_nest (work_unlink w s) = k_lock_nest s"
  "k_tick (work_unlink w s) = k_tick s" "k_timer (work_unlink w s) = k_timer s"
  "k_timers (work_unlink w s) = k_timers s" "k_sem (work_unlink w s) = k_sem s"
  "kinv (work_unlink w s) = kinv s"
  "dv_work (k_drv (work_unlink w s)) = (dv_work (k_drv s))(w := (wk_of s w)\<lparr>wk_list := None\<rparr>)"
  "wkq_current (wkq_of (work_unlink w s) q) = wkq_current (wkq_of s q)"
  "wkq_sem (wkq_of (work_unlink w s) q) = wkq_sem (wkq_of s q)"
  "wkq_thread (wkq_of (work_unlink w s) q) = wkq_thread (wkq_of s q)"
  by (auto simp: work_unlink_def wk_list_None fun_eq_iff split: option.split work_head.split)

lemma work_link_simps [simp]:
  "k_thread (work_append q w s) = k_thread s" "k_current (work_append q w s) = k_current s"
  "k_tick (work_append q w s) = k_tick s" "k_timer (work_append q w s) = k_timer s"
  "k_timers (work_append q w s) = k_timers s" "kinv (work_append q w s) = kinv s"
  "k_thread (work_delay q w s) = k_thread s" "k_current (work_delay q w s) = k_current s"
  "k_tick (work_delay q w s) = k_tick s" "k_timer (work_delay q w s) = k_timer s"
  "k_timers (work_delay q w s) = k_timers s" "kinv (work_delay q w s) = kinv s"
  "k_thread (work_prepend q w s) = k_thread s" "k_current (work_prepend q w s) = k_current s"
  "k_timer (work_prepend q w s) = k_timer s" "kinv (work_prepend q w s) = kinv s"
  by (simp_all add: work_append_def work_delay_def work_prepend_def)

text \<open>
  Every list holds exactly the items that say so, each once, and the timer of a delayed item is
  registered.
\<close>

definition works_ok :: "kstate \<Rightarrow> bool" where
  "works_ok s \<longleftrightarrow>
     (\<forall>q. distinct (wkq_work_list (wkq_of s q)) \<and> distinct (wkq_delayed_list (wkq_of s q)))
     \<and> (\<forall>q w. w \<in> set (wkq_work_list (wkq_of s q)) \<longleftrightarrow> wk_list (wk_of s w) = Some (Work_list q))
     \<and> (\<forall>q w. w \<in> set (wkq_delayed_list (wkq_of s q)) \<longleftrightarrow> wk_list (wk_of s w) = Some (Delayed_list q))
     \<and> (\<forall>w. wk_submitting (wk_of s w) \<longrightarrow> tm_obj (k_timer s (UserTimer w)) \<and> tm_system (k_timer s (UserTimer w)))"

lemma works_okD:
  assumes "works_ok s"
  shows "distinct (wkq_work_list (wkq_of s q))" "distinct (wkq_delayed_list (wkq_of s q))"
    "w \<in> set (wkq_work_list (wkq_of s q)) \<longleftrightarrow> wk_list (wk_of s w) = Some (Work_list q)"
    "w \<in> set (wkq_delayed_list (wkq_of s q)) \<longleftrightarrow> wk_list (wk_of s w) = Some (Delayed_list q)"
    "wk_submitting (wk_of s w) \<Longrightarrow> tm_obj (k_timer s (UserTimer w)) \<and> tm_system (k_timer s (UserTimer w))"
  using assms unfolding works_ok_def by blast+

lemma unlink_lists:
  assumes "works_ok s"
  shows "wkq_work_list (wkq_of (work_unlink w s) q) = remove1 w (wkq_work_list (wkq_of s q))"
    "wkq_delayed_list (wkq_of (work_unlink w s) q) = remove1 w (wkq_delayed_list (wkq_of s q))"
  using works_okD(3,4) [OF assms, of w q]
  by (auto simp: work_unlink_def remove1_idem split: option.split work_head.split)

lemma works_ok_unlink: "works_ok s \<Longrightarrow> works_ok (work_unlink w s)"
  by (auto simp: works_ok_def [of "work_unlink w s"] unlink_lists works_okD)

lemma works_ok_fields:
  assumes "works_ok s" "wk_list (g (wk_of s w)) = wk_list (wk_of s w)"
    "wk_submitting (g (wk_of s w)) \<Longrightarrow> wk_submitting (wk_of s w) \<or> tm_obj (k_timer s (UserTimer w)) \<and> tm_system (k_timer s (UserTimer w))"
  shows "works_ok (upd_wk w g s)"
  using assms works_okD [OF assms(1)] by (auto simp: works_ok_def)

text \<open>Linking an unlinked item: an update of one list and of the item's link.\<close>

lemma works_ok_link:
  assumes ok: "works_ok s" and none: "wk_list (wk_of s w) = None"
    and tm: "k_timer s' = k_timer s"
    and wk: "\<And>v. wk_list (wk_of s' v) = (if v = w then Some h else wk_list (wk_of s v))"
      "\<And>v. wk_submitting (wk_of s' v) = wk_submitting (wk_of s v)"
    and wl: "\<And>q. distinct (wkq_work_list (wkq_of s q)) \<Longrightarrow> w \<notin> set (wkq_work_list (wkq_of s q)) \<Longrightarrow>
        distinct (wkq_work_list (wkq_of s' q))
        \<and> set (wkq_work_list (wkq_of s' q)) = (if h = Work_list q then {w} else {}) \<union> set (wkq_work_list (wkq_of s q))"
    and dl: "\<And>q. distinct (wkq_delayed_list (wkq_of s q)) \<Longrightarrow> w \<notin> set (wkq_delayed_list (wkq_of s q)) \<Longrightarrow>
        distinct (wkq_delayed_list (wkq_of s' q))
        \<and> set (wkq_delayed_list (wkq_of s' q)) = (if h = Delayed_list q then {w} else {}) \<union> set (wkq_delayed_list (wkq_of s q))"
  shows "works_ok s'"
proof -
  note D = works_okD [OF ok]
  have out: "w \<notin> set (wkq_work_list (wkq_of s q))" "w \<notin> set (wkq_delayed_list (wkq_of s q))" for q
    using D(3,4) none by simp_all
  note wl' = wl [OF D(1) out(1)] and dl' = dl [OF D(2) out(2)]
  show ?thesis
    unfolding works_ok_def
  proof (intro conjI allI impI)
    fix q v
    show "distinct (wkq_work_list (wkq_of s' q))" "distinct (wkq_delayed_list (wkq_of s' q))" using wl' dl' by blast+
    show "v \<in> set (wkq_work_list (wkq_of s' q)) \<longleftrightarrow> wk_list (wk_of s' v) = Some (Work_list q)"
      unfolding conjunct2 [OF wl'] wk(1) using D(3) [of v q] out(1) [of q] by auto
    show "v \<in> set (wkq_delayed_list (wkq_of s' q)) \<longleftrightarrow> wk_list (wk_of s' v) = Some (Delayed_list q)"
      unfolding conjunct2 [OF dl'] wk(1) using D(4) [of v q] out(2) [of q] by auto
  next
    fix v
    assume "wk_submitting (wk_of s' v)"
    then show "tm_obj (k_timer s' (UserTimer v))" "tm_system (k_timer s' (UserTimer v))" using D(5) wk(2) tm by simp_all
  qed
qed

lemma works_ok_append: "works_ok s \<Longrightarrow> wk_list (wk_of s w) = None \<Longrightarrow> works_ok (work_append q w s)"
  by (rule works_ok_link [where h = "Work_list q" and w = w]) (auto simp: work_append_def)

lemma works_ok_delay: "works_ok s \<Longrightarrow> wk_list (wk_of s w) = None \<Longrightarrow> works_ok (work_delay q w s)"
  by (rule works_ok_link [where h = "Delayed_list q" and w = w]) (auto simp: work_delay_def)

lemma works_ok_prepend: "works_ok s \<Longrightarrow> wk_list (wk_of s w) = None \<Longrightarrow> works_ok (work_prepend q w s)"
  by (rule works_ok_link [where h = "Work_list q" and w = w]) (auto simp: work_prepend_def)

lemma works_ok_cong:
  assumes "works_ok s" "k_drv s' = k_drv s"
    "\<And>n. wk_submitting (wk_of s n) \<Longrightarrow> tm_obj (k_timer s (UserTimer n)) \<and> tm_system (k_timer s (UserTimer n))
       \<Longrightarrow> tm_obj (k_timer s' (UserTimer n)) \<and> tm_system (k_timer s' (UserTimer n))"
  shows "works_ok s'"
  using assms by (simp add: works_ok_def)

section \<open>Kernel steps\<close>

text \<open>A step that leaves the driver objects alone, and all user timers but those of the items W.\<close>

definition work_step :: "nat set \<Rightarrow> kstate \<Rightarrow> kstate \<Rightarrow> bool" where
  "work_step W s s' \<longleftrightarrow> kinv s' \<and> (\<exists>c. k_current s' = Some c) \<and> k_drv s' = k_drv s \<and> k_tick s' = k_tick s
     \<and> (\<forall>n. n \<notin> W \<longrightarrow> k_timer s' (UserTimer n) = k_timer s (UserTimer n))"

lemma work_step_trans: "work_step W s s' \<Longrightarrow> work_step V s' s'' \<Longrightarrow> W \<subseteq> X \<Longrightarrow> V \<subseteq> X \<Longrightarrow> work_step X s s''"
  unfolding work_step_def by (metis subsetD)

lemma calm_work_step: "calm s s' \<Longrightarrow> work_step {} s s'"
  by (simp add: calm_def work_step_def)

lemma wake_worker_ok:
  assumes inv: "kinv s" and cur: "k_current s = Some c"
  obtains s' where "wake_worker q s = Some s'" "work_step {} s s'"
    "wkq_current (wkq_of s q) = None \<Longrightarrow> th_base s (wkq_thread (wkq_of s q)) = RT_THREAD_SUSPEND \<Longrightarrow>
      th_base s' (wkq_thread (wkq_of s q)) \<in> {RT_THREAD_READY, RT_THREAD_RUNNING}"
proof (cases "wkq_current (wkq_of s q) = None \<and> th_base s (wkq_thread (wkq_of s q)) = RT_THREAD_SUSPEND")
  case False
  then show thesis using that [of s] inv cur by (auto simp: wake_worker_def work_step_def)
next
  case True
  let ?t = "wkq_thread (wkq_of s q)"
  obtain s1 where s1: "rt_thread_resume ?t s = Some (RT_EOK, s1)" "kinv s1"
    "th_base s1 ?t = (if k_current s = Some ?t then RT_THREAD_RUNNING else RT_THREAD_READY)" "thread_frame {?t} s s1"
    using resume_ok [OF inv] True by metis
  note fr = thread_frameD [OF s1(4)]
  have cur1: "k_current s1 = Some c" using fr(5) cur by simp
  obtain s' where s': "rt_schedule s1 = Some s'" "calm s1 s'" by (rule schedule_calm [OF s1(2) cur1])
  have "k_timer s1 (UserTimer n) = k_timer s (UserTimer n)" for n by (rule fr(8)) auto
  then have "work_step {} s s'"
    using s'(2) fr(2) objs_frame_drv(1) [OF fr(1)] by (simp add: calm_def work_step_def)
  moreover have "th_base s1 ?t \<in> {RT_THREAD_READY, RT_THREAD_RUNNING}" using s1(3) by simp
  then have "th_base s' ?t \<in> {RT_THREAD_READY, RT_THREAD_RUNNING}" using s'(2) unfolding calm_def by blast
  ultimately show thesis
    using that [of s'] True s1(1) s'(1) by (simp add: wake_worker_def)
qed

text \<open>The operations on the timer of an item.\<close>

lemma user_timer_step:
  assumes inv: "kinv s" and cur: "k_current s = Some c"
    and fr: "timer_frame {UserTimer w} s s'" and tms: "timers_inv s'"
  shows "work_step {w} s s'"
  using kinv_timer_step [OF inv fr tms] timer_frameD [OF fr] objs_frame_drv(1) [of s s'] cur
  by (simp add: work_step_def)

lemma stop_user:
  assumes inv: "kinv s" and cur: "k_current s = Some c" and obj: "tm_obj (k_timer s (UserTimer w))"
  obtains r s' where "rt_timer_stop (UserTimer w) s = Some (r, s')" "work_step {w} s s'"
    "tm_obj (k_timer s' (UserTimer w))" "tm_system (k_timer s' (UserTimer w)) = tm_system (k_timer s (UserTimer w))"
proof (cases "tm_activated (k_timer s (UserTimer w))")
  case False
  have "rt_timer_stop (UserTimer w) s = Some (- RT_ERROR, s)" using False obj by (simp add: rt_timer_stop_def)
  moreover have "work_step {w} s s" using inv cur by (simp add: work_step_def)
  ultimately show thesis using that obj by blast
next
  case True
  let ?s' = "upd_timer (UserTimer w) (flag_clear 1) (timer_remove (UserTimer w) s)"
  have "rt_timer_stop (UserTimer w) s = Some (RT_EOK, ?s')" using True obj by (simp add: rt_timer_stop_def)
  moreover have "timer_frame {UserTimer w} s ?s'" by (simp add: timer_frame_def objs_frame_def)
  then have "work_step {w} s ?s'"
    by (rule user_timer_step [OF inv cur]) (rule removed_timers_inv [OF kinvD(2) [OF inv]])
  ultimately show thesis by (rule that) (use obj in simp_all)
qed

lemma control_user:
  assumes inv: "kinv s" and cur: "k_current s = Some c" and obj: "tm_obj (k_timer s (UserTimer w))"
    and delay: "delay < TICK_HALF"
  obtains s' where "rt_timer_control (UserTimer w) (CTRL_SET_TIME delay) s = Some (None, s')" "work_step {w} s s'"
    "k_timer s' (UserTimer w) = (k_timer s (UserTimer w))\<lparr>tm_init_tick := delay\<rparr>"
proof -
  let ?s' = "upd_timer (UserTimer w) (\<lambda>tm. tm\<lparr>tm_init_tick := delay\<rparr>) s"
  have "timers_inv ?s'"
  proof (rule timers_inv_update [OF kinvD(2) [OF inv], of _ "UserTimer w"])
    show "timer_ok (UserTimer w) (k_timer s (UserTimer w)\<lparr>tm_init_tick := delay\<rparr>)"
      using timers_invD(1) [OF kinvD(2) [OF inv], of "UserTimer w"] by (simp add: timer_ok_def)
  qed (use timers_invD(2,3) [OF kinvD(2) [OF inv]] in auto)
  moreover have "timer_frame {UserTimer w} s ?s'" by (simp add: timer_frame_def objs_frame_def)
  ultimately have "work_step {w} s ?s'" by (intro user_timer_step [OF inv cur])
  then show thesis using that obj delay by (simp add: rt_timer_control_def)
qed

lemma start_user:
  assumes inv: "kinv s" and cur: "k_current s = Some c" and obj: "tm_obj (k_timer s (UserTimer w))"
  obtains s' where "rt_timer_start (UserTimer w) s = Some s'" "work_step {w} s s'"
    "tm_row (k_timer s' (UserTimer w)) = Some Timer_list" "tm_obj (k_timer s' (UserTimer w))"
    "tm_system (k_timer s' (UserTimer w)) = tm_system (k_timer s (UserTimer w))"
    "tm_timeout_tick (k_timer s' (UserTimer w)) = k_tick s + tm_init_tick (k_timer s (UserTimer w))"
    "tm_timeout_func (k_timer s' (UserTimer w)) = tm_timeout_func (k_timer s (UserTimer w))"
proof -
  obtain s' where s': "rt_timer_start (UserTimer w) s = Some s'" "timers_inv s'" "timer_frame {UserTimer w} s s'"
    "tm_row (k_timer s' (UserTimer w)) = Some Timer_list" "tm_obj (k_timer s' (UserTimer w))"
    "tm_timeout_tick (k_timer s' (UserTimer w)) = k_tick s + tm_init_tick (k_timer s (UserTimer w))"
    by (rule start_ok [OF kinvD(2) [OF inv] obj]) blast
  have "tm_system (k_timer s' (UserTimer w)) = tm_system (k_timer s (UserTimer w))"
    using s'(1) by (auto simp: rt_timer_start_def Let_def bind_eq_Some_conv)
  then show thesis
    using that s' user_timer_step [OF inv cur s'(3,2)] start_fields(4) [OF s'(1) kinvD(2) [OF inv]] by blast
qed

lemma detach_user:
  assumes inv: "kinv s" and cur: "k_current s = Some c"
    and obj: "tm_obj (k_timer s (UserTimer w))" "tm_system (k_timer s (UserTimer w))"
  obtains s' where "rt_timer_detach (UserTimer w) s = Some s'" "work_step {w} s s'"
    "tm_row (k_timer s' (UserTimer w)) = None" "\<not> tm_obj (k_timer s' (UserTimer w))"
proof -
  obtain s' where s': "rt_timer_detach (UserTimer w) s = Some s'" "timers_inv s'" "timer_frame {UserTimer w} s s'"
    "\<not> tm_obj (k_timer s' (UserTimer w))" "tm_row (k_timer s' (UserTimer w)) = None"
    by (rule timer_detach_ok [OF kinvD(2) [OF inv] obj]) blast
  then show thesis using that user_timer_step [OF inv cur s'(3,2)] by blast
qed

lemma init_user:
  assumes inv: "kinv s" and cur: "k_current s = Some c" and delay: "delay < TICK_HALF"
    and new: "\<not> tm_obj (k_timer s (UserTimer w))" "tm_row (k_timer s (UserTimer w)) = None"
  obtains s' where "rt_timer_init (UserTimer w) func delay flag s = Some s'" "work_step {w} s s'"
    "tm_obj (k_timer s' (UserTimer w))" "tm_system (k_timer s' (UserTimer w))"
    "tm_init_tick (k_timer s' (UserTimer w)) = delay" "tm_timeout_func (k_timer s' (UserTimer w)) = func"
proof -
  have inv1: "kinv (rt_enter_critical s)" "k_current (rt_enter_critical s) = Some c" using inv cur by simp_all
  obtain s1 where s1: "rt_exit_critical (rt_enter_critical s) = Some s1" "calm (rt_enter_critical s) s1"
    by (rule exit_critical_calm [OF inv1])
  have st1: "work_step {} s s1" using s1(2) by (simp add: calm_def work_step_def)
  then obtain c1 where c1: "kinv s1" "k_current s1 = Some c1" by (auto simp: work_step_def)
  let ?tm = "timer_init func delay flag ((k_timer s1 (UserTimer w))\<lparr>tm_obj := True, tm_system := True\<rparr>)"
  let ?s' = "upd_timer (UserTimer w) (\<lambda>tm. timer_init func delay flag (tm\<lparr>tm_obj := True, tm_system := True\<rparr>)) s1"
  have row: "tm_row (k_timer s1 (UserTimer w)) = None" using st1 new(2) by (simp add: work_step_def)
  have "timers_inv ?s'"
  proof (rule timers_inv_update [OF kinvD(2) [OF c1(1)], of _ "UserTimer w"])
    show "timer_ok (UserTimer w) ?tm" by (simp add: timer_ok_def timer_init_def)
    show "set (k_timers ?s' l) = set (k_timers s1 l) - {UserTimer w} \<union> (if tm_row ?tm = Some l then {UserTimer w} else {})"
      for l using timers_invD(3) [OF kinvD(2) [OF c1(1)], of "UserTimer w" l] row by (auto simp: timer_init_def)
  qed (use timers_invD(2) [OF kinvD(2) [OF c1(1)]] in auto)
  moreover have "timer_frame {UserTimer w} s1 ?s'" by (simp add: timer_frame_def objs_frame_def)
  ultimately have "work_step {w} s1 ?s'" by (intro user_timer_step [OF c1])
  then have "work_step {w} s ?s'" using work_step_trans [OF st1] by blast
  moreover have "rt_timer_init (UserTimer w) func delay flag s = Some ?s'"
    using s1(1) new(1) delay by (simp add: rt_timer_init_def object_init_check_def Let_def)
  ultimately show thesis by (intro that [of ?s']) (simp_all add: timer_init_def)
qed


lemma works_ok_step:
  assumes "works_ok s" "work_step W s s'"
    "\<And>w. w \<in> W \<Longrightarrow> wk_submitting (wk_of s w) \<Longrightarrow> tm_obj (k_timer s' (UserTimer w)) \<and> tm_system (k_timer s' (UserTimer w))"
  shows "works_ok s'"
proof (rule works_ok_cong [OF assms(1)])
  show "k_drv s' = k_drv s" using assms(2) by (simp add: work_step_def)
  fix n
  assume "wk_submitting (wk_of s n)" "tm_obj (k_timer s (UserTimer n)) \<and> tm_system (k_timer s (UserTimer n))"
  then show "tm_obj (k_timer s' (UserTimer n)) \<and> tm_system (k_timer s' (UserTimer n))"
    using assms(2,3) by (cases "n \<in> W") (auto simp: work_step_def)
qed


section \<open>Submitting and cancelling\<close>

abbreviation unlinked :: "nat \<Rightarrow> kstate \<Rightarrow> kstate" where
  "unlinked w s \<equiv> upd_wk w (\<lambda>k. k\<lparr>wk_pending := False\<rparr>) (work_unlink w s)"

lemma works_ok_unlinked: "works_ok s \<Longrightarrow> works_ok (unlinked w s)"
  by (rule works_ok_fields [OF works_ok_unlink]) simp_all

lemma submit_now:
  assumes inv: "kinv s" and cur: "k_current s = Some c" and ok: "works_ok s"
  obtains s' where "workqueue_submit_work q w 0 s
      = Some (if wkq_current (wkq_of s q) \<noteq> Some w then RT_EOK else - RT_EBUSY, s')"
    "works_ok s'" "work_step {} (if wkq_current (wkq_of s q) \<noteq> Some w
       then upd_wk w (\<lambda>k. k\<lparr>wk_workqueue := Some q\<rparr>) (work_append q w (unlinked w s)) else unlinked w s) s'"
proof -
  let ?s1 = "unlinked w s"
  let ?s2 = "if wkq_current (wkq_of s q) \<noteq> Some w
     then upd_wk w (\<lambda>k. k\<lparr>wk_workqueue := Some q\<rparr>) (work_append q w ?s1) else ?s1"
  have ok1: "works_ok ?s1" by (rule works_ok_unlinked [OF ok])
  have "works_ok (work_append q w ?s1)" by (rule works_ok_append [OF ok1]) simp
  then have "works_ok (upd_wk w (\<lambda>k. k\<lparr>wk_workqueue := Some q\<rparr>) (work_append q w ?s1))"
    by (rule works_ok_fields) simp_all
  then have ok2: "works_ok ?s2" using ok1 by simp
  have c2: "kinv ?s2" "k_current ?s2 = Some c" using inv cur by simp_all
  obtain s' where s': "wake_worker q ?s2 = Some s'" "work_step {} ?s2 s'" by (rule wake_worker_ok [OF c2])
  have "workqueue_submit_work q w 0 s
      = Some (if wkq_current (wkq_of s q) \<noteq> Some w then RT_EOK else - RT_EBUSY, s')"
    using s'(1) by (cases "wkq_current (wkq_of s q) = Some w") (simp_all add: workqueue_submit_work_def Let_def)
  moreover have "works_ok s'" by (rule works_ok_step [OF ok2 s'(2)]) simp
  ultimately show thesis using s'(2) by (rule that)
qed

lemma submit_later:
  assumes inv: "kinv s" and cur: "k_current s = Some c" and ok: "works_ok s" and delay: "delay \<noteq> 0" "delay < TICK_HALF"
    and tm: "wk_submitting (wk_of s w) \<or> \<not> tm_obj (k_timer s (UserTimer w)) \<and> tm_row (k_timer s (UserTimer w)) = None"
  obtains s' where "workqueue_submit_work q w delay s = Some (RT_EOK, s')" "kinv s'" "\<exists>c. k_current s' = Some c" "works_ok s'"
    "k_tick s' = k_tick s" "tm_row (k_timer s' (UserTimer w)) = Some Timer_list"
    "tm_timeout_tick (k_timer s' (UserTimer w)) = k_tick s + delay"
    "\<not> wk_submitting (wk_of s w) \<Longrightarrow> tm_timeout_func (k_timer s' (UserTimer w)) = User_timeout w"
    "wk_of s' w = (wk_of s w)\<lparr>wk_list := Some (Delayed_list q), wk_pending := False, wk_submitting := True, wk_workqueue := Some q\<rparr>"
    "\<And>p. wkq_of s' p = wkq_of (work_delay q w (work_unlink w s)) p"
proof -
  let ?s1 = "unlinked w s" and ?W = "wk_of s w\<lparr>wk_list := None, wk_pending := False, wk_submitting := True\<rparr>"
  have ok1: "works_ok ?s1" by (rule works_ok_unlinked [OF ok])
  have c1: "kinv ?s1" "k_current ?s1 = Some c" using inv cur by simp_all
  have "\<exists>s2. (if wk_submitting (wk_of ?s1 w)
               then do {
                 (_, a) \<leftarrow> rt_timer_stop (UserTimer w) ?s1;
                 (_, b) \<leftarrow> rt_timer_control (UserTimer w) (CTRL_SET_TIME delay) a;
                 Some b
               }
               else do {
                 a \<leftarrow> rt_timer_init (UserTimer w) (User_timeout w) delay WORK_TIMER_FLAG ?s1;
                 Some (upd_wk w (\<lambda>k. k\<lparr>wk_submitting := True\<rparr>) a)
               }) = Some s2
     \<and> kinv s2 \<and> (\<exists>c. k_current s2 = Some c) \<and> works_ok s2 \<and> k_tick s2 = k_tick s
     \<and> tm_obj (k_timer s2 (UserTimer w)) \<and> tm_system (k_timer s2 (UserTimer w)) \<and> tm_init_tick (k_timer s2 (UserTimer w)) = delay
     \<and> (\<not> wk_submitting (wk_of s w) \<longrightarrow> tm_timeout_func (k_timer s2 (UserTimer w)) = User_timeout w)
     \<and> wk_of s2 w = ?W \<and> dv_workq (k_drv s2) = dv_workq (k_drv (work_unlink w s))"
  proof (cases "wk_submitting (wk_of s w)")
    case True
    have obj: "tm_obj (k_timer ?s1 (UserTimer w))" "tm_system (k_timer ?s1 (UserTimer w))"
      using works_okD(5) [OF ok True] by simp_all
    obtain r a where a: "rt_timer_stop (UserTimer w) ?s1 = Some (r, a)" "work_step {w} ?s1 a"
      "tm_obj (k_timer a (UserTimer w))" "tm_system (k_timer a (UserTimer w)) = tm_system (k_timer ?s1 (UserTimer w))"
      by (rule stop_user [OF c1 obj(1)])
    obtain ca where ca: "kinv a" "k_current a = Some ca" using a(2) by (auto simp: work_step_def)
    obtain b where b: "rt_timer_control (UserTimer w) (CTRL_SET_TIME delay) a = Some (None, b)" "work_step {w} a b"
      "k_timer b (UserTimer w) = (k_timer a (UserTimer w))\<lparr>tm_init_tick := delay\<rparr>"
      by (rule control_user [OF ca a(3) delay(2)])
    have st: "work_step {w} ?s1 b" by (rule work_step_trans [OF a(2) b(2)]) simp_all
    have okb: "works_ok b" by (rule works_ok_step [OF ok1 st]) (use a(3,4) b(3) obj in simp)
    have "wk_of s w\<lparr>wk_submitting := True\<rparr> = wk_of s w" using True by (cases "wk_of s w") simp
    then have "wk_of ?s1 w = ?W" by (cases "wk_of s w") simp
    then show ?thesis using True a b(1,3) obj(2) st okb by (intro exI [of _ b]) (simp add: work_step_def)
  next
    case False
    have new: "\<not> tm_obj (k_timer ?s1 (UserTimer w))" "tm_row (k_timer ?s1 (UserTimer w)) = None" using tm False by simp_all
    obtain a where a: "rt_timer_init (UserTimer w) (User_timeout w) delay WORK_TIMER_FLAG ?s1 = Some a" "work_step {w} ?s1 a"
      "tm_obj (k_timer a (UserTimer w))" "tm_system (k_timer a (UserTimer w))"
      "tm_init_tick (k_timer a (UserTimer w)) = delay" "tm_timeout_func (k_timer a (UserTimer w)) = User_timeout w"
      by (rule init_user [OF c1 delay(2) new])
    have oka: "works_ok a" by (rule works_ok_step [OF ok1 a(2)]) (use a(3,4) in simp)
    let ?b = "upd_wk w (\<lambda>k. k\<lparr>wk_submitting := True\<rparr>) a"
    have okb: "works_ok ?b" by (rule works_ok_fields [OF oka]) (use a(3,4) in simp_all)
    show ?thesis using False a okb by (intro exI [of _ ?b]) (simp add: work_step_def)
  qed
  then obtain s2 where s2: "(if wk_submitting (wk_of ?s1 w)
               then do {
                 (_, a) \<leftarrow> rt_timer_stop (UserTimer w) ?s1;
                 (_, b) \<leftarrow> rt_timer_control (UserTimer w) (CTRL_SET_TIME delay) a;
                 Some b
               }
               else do {
                 a \<leftarrow> rt_timer_init (UserTimer w) (User_timeout w) delay WORK_TIMER_FLAG ?s1;
                 Some (upd_wk w (\<lambda>k. k\<lparr>wk_submitting := True\<rparr>) a)
               }) = Some s2"
      "kinv s2" "\<exists>c. k_current s2 = Some c" "works_ok s2" "k_tick s2 = k_tick s"
      "tm_obj (k_timer s2 (UserTimer w))" "tm_system (k_timer s2 (UserTimer w))" "tm_init_tick (k_timer s2 (UserTimer w)) = delay"
      "\<not> wk_submitting (wk_of s w) \<longrightarrow> tm_timeout_func (k_timer s2 (UserTimer w)) = User_timeout w"
      "wk_of s2 w = ?W" "dv_workq (k_drv s2) = dv_workq (k_drv (work_unlink w s))"
    by blast
  let ?s3 = "work_delay q w s2"
  obtain c3 where c3: "kinv ?s3" "k_current ?s3 = Some c3" using s2(2,3) by auto
  have ok3: "works_ok ?s3" by (rule works_ok_delay [OF s2(4)]) (simp add: s2(10))
  have obj3: "tm_obj (k_timer ?s3 (UserTimer w))" using s2(6) by simp
  obtain s' where s': "rt_timer_start (UserTimer w) ?s3 = Some s'" "work_step {w} ?s3 s'"
    "tm_row (k_timer s' (UserTimer w)) = Some Timer_list" "tm_obj (k_timer s' (UserTimer w))"
    "tm_system (k_timer s' (UserTimer w)) = tm_system (k_timer ?s3 (UserTimer w))"
    "tm_timeout_tick (k_timer s' (UserTimer w)) = k_tick ?s3 + tm_init_tick (k_timer ?s3 (UserTimer w))"
    "tm_timeout_func (k_timer s' (UserTimer w)) = tm_timeout_func (k_timer ?s3 (UserTimer w))"
    by (rule start_user [OF c3 obj3])
  have drv: "k_drv s' = k_drv ?s3" using s'(2) by (simp add: work_step_def)
  show thesis
  proof (rule that [of s'])
    show "workqueue_submit_work q w delay s = Some (RT_EOK, s')"
      using delay s2(1) s'(1) by (simp add: workqueue_submit_work_def Let_def)
    show "works_ok s'" by (rule works_ok_step [OF ok3 s'(2)]) (use s'(4,5) s2(7) in simp)
    show "wk_of s' w = (wk_of s w)\<lparr>wk_list := Some (Delayed_list q), wk_pending := False, wk_submitting := True, wk_workqueue := Some q\<rparr>"
      unfolding drv using s2(10) by (simp add: work_delay_def)
    show "wkq_of s' p = wkq_of (work_delay q w (work_unlink w s)) p" for p
      unfolding drv using s2(11) by (simp add: work_delay_def)
  qed (use s'(2,3,6,7) s2(5,8,9) in \<open>simp_all add: work_step_def\<close>)
qed


lemma cancel_ok:
  assumes inv: "kinv s" and cur: "k_current s = Some c" and ok: "works_ok s"
  obtains r s' where "workqueue_cancel_work q w s = Some (r, s')" "kinv s'" "\<exists>c. k_current s' = Some c" "works_ok s'"
    "dv_work (k_drv s') = (dv_work (k_drv s))(w := (wk_of s w)\<lparr>wk_list := None, wk_pending := False,
       wk_submitting := False, wk_workqueue := None\<rparr>)"
    "dv_workq (k_drv s') = dv_workq (k_drv (work_unlink w s))"
    "\<And>v. v \<noteq> w \<Longrightarrow> k_timer s' (UserTimer v) = k_timer s (UserTimer v)"
    "wk_submitting (wk_of s w) \<Longrightarrow> tm_row (k_timer s' (UserTimer w)) = None"
    "\<not> wk_submitting (wk_of s w) \<Longrightarrow> k_timer s' (UserTimer w) = k_timer s (UserTimer w)"
proof -
  let ?s1 = "unlinked w s"
  have ok1: "works_ok ?s1" by (rule works_ok_unlinked [OF ok])
  have c1: "kinv ?s1" "k_current ?s1 = Some c" using inv cur by simp_all
  show thesis
  proof (cases "wk_submitting (wk_of s w)")
    case False
    let ?s' = "upd_wk w (\<lambda>k. k\<lparr>wk_workqueue := None\<rparr>) ?s1"
    have ok': "works_ok ?s'" by (rule works_ok_fields [OF ok1]) simp_all
    have e: "wk_of s w\<lparr>wk_submitting := False\<rparr> = wk_of s w" using False by (cases "wk_of s w") simp
    have "wk_of ?s' w = wk_of s w\<lparr>wk_submitting := False, wk_list := None, wk_pending := False, wk_workqueue := None\<rparr>"
      unfolding e by simp
    then have "dv_work (k_drv ?s') = (dv_work (k_drv s))(w := wk_of s w\<lparr>wk_list := None, wk_pending := False,
        wk_submitting := False, wk_workqueue := None\<rparr>)"
      by (cases "wk_of s w") (auto simp: fun_eq_iff)
    moreover have "\<exists>r. workqueue_cancel_work q w s = Some (r, ?s')"
      using False by (simp add: workqueue_cancel_work_def Let_def)
    ultimately show thesis using that [of _ ?s'] False c1 ok' by fastforce
  next
    case True
    have obj: "tm_obj (k_timer ?s1 (UserTimer w))" "tm_system (k_timer ?s1 (UserTimer w))"
      using works_okD(5) [OF ok True] by simp_all
    obtain r a where a: "rt_timer_stop (UserTimer w) ?s1 = Some (r, a)" "work_step {w} ?s1 a"
      "tm_obj (k_timer a (UserTimer w))" "tm_system (k_timer a (UserTimer w)) = tm_system (k_timer ?s1 (UserTimer w))"
      by (rule stop_user [OF c1 obj(1)])
    obtain ca where ca: "kinv a" "k_current a = Some ca" using a(2) by (auto simp: work_step_def)
    have sys: "tm_system (k_timer a (UserTimer w))" using a(4) obj(2) by simp
    obtain b where b: "rt_timer_detach (UserTimer w) a = Some b" "work_step {w} a b"
      "tm_row (k_timer b (UserTimer w)) = None" "\<not> tm_obj (k_timer b (UserTimer w))"
      by (rule detach_user [OF ca a(3) sys])
    have st: "work_step {w} ?s1 b" by (rule work_step_trans [OF a(2) b(2)]) simp_all
    let ?s' = "upd_wk w (\<lambda>k. k\<lparr>wk_workqueue := None\<rparr>) (upd_wk w (\<lambda>k. k\<lparr>wk_submitting := False\<rparr>) b)"
    have drv: "k_drv b = k_drv ?s1" using st by (simp add: work_step_def)
    have ok': "works_ok ?s'"
      unfolding works_ok_def
    proof (intro conjI allI impI)
      note D = works_okD [OF ok1]
      fix v p
      show "distinct (wkq_work_list (wkq_of ?s' p))" "distinct (wkq_delayed_list (wkq_of ?s' p))"
        using D(1,2) [of p] by (simp_all add: drv)
      show "v \<in> set (wkq_work_list (wkq_of ?s' p)) \<longleftrightarrow> wk_list (wk_of ?s' v) = Some (Work_list p)"
        "v \<in> set (wkq_delayed_list (wkq_of ?s' p)) \<longleftrightarrow> wk_list (wk_of ?s' v) = Some (Delayed_list p)"
        using D(3,4) [of v p] by (simp_all add: drv)
    next
      fix v
      assume "wk_submitting (wk_of ?s' v)"
      then have "v \<noteq> w" "wk_submitting (wk_of s v)" by (auto simp: drv split: if_splits)
      then show "tm_obj (k_timer ?s' (UserTimer v))" "tm_system (k_timer ?s' (UserTimer v))"
        using works_okD(5) [OF ok] st by (simp_all add: work_step_def)
    qed
    have "workqueue_cancel_work q w s = Some (if wkq_current (wkq_of b q) \<noteq> Some w then RT_EOK else - RT_EBUSY, ?s')"
      using True a(1) b(1) by (simp add: workqueue_cancel_work_def Let_def)
    then show thesis
      by (rule that) (use True st ok' b(3) in \<open>auto simp: work_step_def drv fun_eq_iff\<close>)
  qed
qed

text \<open>An item that was cancelled: it is in no list, belongs to no queue and its timer does not run.\<close>

definition dropped :: "nat \<Rightarrow> kstate \<Rightarrow> kstate \<Rightarrow> bool" where
  "dropped w s s' \<longleftrightarrow> wk_list (wk_of s' w) = None \<and> \<not> wk_pending (wk_of s' w) \<and> \<not> wk_submitting (wk_of s' w)
     \<and> wk_workqueue (wk_of s' w) = None
     \<and> (tm_row (k_timer s' (UserTimer w)) = None
        \<or> \<not> wk_submitting (wk_of s w) \<and> k_timer s' (UserTimer w) = k_timer s (UserTimer w))"

definition same_work :: "nat \<Rightarrow> kstate \<Rightarrow> kstate \<Rightarrow> bool" where
  "same_work w s s' \<longleftrightarrow> wk_of s' w = wk_of s w \<and> k_timer s' (UserTimer w) = k_timer s (UserTimer w)"

lemma dropped_trans:
  "dropped w s s1 \<or> same_work w s s1 \<Longrightarrow> dropped w s1 s' \<or> same_work w s1 s' \<Longrightarrow> dropped w s s' \<or> same_work w s s'"
  by (auto simp: dropped_def same_work_def)

lemma cancel_loop_ok:
  assumes lst: "lst = wkq_work_list \<or> lst = wkq_delayed_list"
  shows "kinv s \<Longrightarrow> k_current s = Some c \<Longrightarrow> works_ok s \<Longrightarrow> \<exists>s'. cancel_loop lst q s = Some s' \<and> kinv s'
     \<and> (\<exists>c. k_current s' = Some c) \<and> works_ok s' \<and> lst (wkq_of s' q) = []
     \<and> (\<forall>p. wkq_work_list (wkq_of s p) = [] \<longrightarrow> wkq_work_list (wkq_of s' p) = [])
     \<and> (\<forall>w. dropped w s s' \<or> same_work w s s')"
proof (induction "lst (wkq_of s q)" arbitrary: s c)
  case Nil
  then show ?case
    by (intro exI [of _ s]) (auto simp: cancel_loop.simps [of lst q s] same_work_def simp flip: Nil(1))
next
  case (Cons w ws)
  obtain r s1 where s1: "workqueue_cancel_work q w s = Some (r, s1)" "kinv s1" "\<exists>c. k_current s1 = Some c" "works_ok s1"
    "dv_work (k_drv s1) = (dv_work (k_drv s))(w := (wk_of s w)\<lparr>wk_list := None, wk_pending := False,
       wk_submitting := False, wk_workqueue := None\<rparr>)"
    "dv_workq (k_drv s1) = dv_workq (k_drv (work_unlink w s))"
    "\<And>v. v \<noteq> w \<Longrightarrow> k_timer s1 (UserTimer v) = k_timer s (UserTimer v)"
    "wk_submitting (wk_of s w) \<Longrightarrow> tm_row (k_timer s1 (UserTimer w)) = None"
    "\<not> wk_submitting (wk_of s w) \<Longrightarrow> k_timer s1 (UserTimer w) = k_timer s (UserTimer w)"
    by (rule cancel_ok [OF Cons.prems]) blast
  then obtain c1 where c1: "k_current s1 = Some c1" by blast
  note ul = unlink_lists [OF Cons.prems(3), of w]
  have ws: "ws = lst (wkq_of s1 q)" using lst ul Cons.hyps(2) unfolding s1(6) by (metis remove1.simps(2))
  obtain s' where s': "cancel_loop lst q s1 = Some s'" "kinv s'" "\<exists>c. k_current s' = Some c" "works_ok s'"
      "lst (wkq_of s' q) = []" "\<forall>p. wkq_work_list (wkq_of s1 p) = [] \<longrightarrow> wkq_work_list (wkq_of s' p) = []"
      "\<forall>v. dropped v s1 s' \<or> same_work v s1 s'"
    using Cons.hyps(1) [OF ws s1(2) c1 s1(4)] by blast
  have "dropped w s s1"
    using s1(8,9) by (cases "wk_submitting (wk_of s w)") (simp_all add: dropped_def s1(5))
  then have "dropped v s s1 \<or> same_work v s s1" for v
    using s1(7) by (cases "v = w") (simp_all add: same_work_def s1(5))
  then have "\<forall>v. dropped v s s' \<or> same_work v s s'" using dropped_trans s'(7) by blast
  moreover have "cancel_loop lst q s = Some s'"
    using s1(1) s'(1) by (simp add: cancel_loop.simps [of lst q s] flip: Cons.hyps(2))
  moreover have "wkq_work_list (wkq_of s1 p) = []" if "wkq_work_list (wkq_of s p) = []" for p
    using ul(1) [of p] that unfolding s1(6) by simp
  ultimately show ?case using s'(2-6) by blast
qed


text \<open>The end of a delay: the item is submitted to its queue, and its timer is gone.\<close>

lemma work_timeout_ok:
  assumes inv: "kinv s" and cur: "k_current s = Some c" and ok: "works_ok s"
    and w: "wk_submitting (wk_of s w)" "wk_workqueue (wk_of s w) = Some q"
  obtains s' where "delayed_work_timeout_handler w s = Some s'" "kinv s'" "\<exists>c. k_current s' = Some c" "works_ok s'"
    "tm_row (k_timer s' (UserTimer w)) = None" "\<not> wk_submitting (wk_of s' w)"
    "wkq_current (wkq_of s q) \<noteq> Some w \<Longrightarrow>
      wkq_work_list (wkq_of s' q) = remove1 w (wkq_work_list (wkq_of s q)) @ [w] \<and> wk_pending (wk_of s' w)"
proof -
  have obj: "tm_obj (k_timer s (UserTimer w))" "tm_system (k_timer s (UserTimer w))" using works_okD(5) [OF ok w(1)] by simp_all
  obtain s1 where s1: "rt_timer_detach (UserTimer w) s = Some s1" "work_step {w} s s1"
    "tm_row (k_timer s1 (UserTimer w)) = None" "\<not> tm_obj (k_timer s1 (UserTimer w))"
    by (rule detach_user [OF inv cur obj])
  obtain c1 where c1: "kinv s1" "k_current s1 = Some c1" using s1(2) by (auto simp: work_step_def)
  have drv: "k_drv s1 = k_drv s" using s1(2) by (simp add: work_step_def)
  let ?u = "upd_wk w (\<lambda>k. k\<lparr>wk_submitting := False\<rparr>) s1"
  have oku: "works_ok ?u"
    unfolding works_ok_def
  proof (intro conjI allI impI)
    note D = works_okD [OF ok]
    fix v p
    show "distinct (wkq_work_list (wkq_of ?u p))" "distinct (wkq_delayed_list (wkq_of ?u p))"
      using D(1,2) [of p] by (simp_all add: drv)
    show "v \<in> set (wkq_work_list (wkq_of ?u p)) \<longleftrightarrow> wk_list (wk_of ?u v) = Some (Work_list p)"
      "v \<in> set (wkq_delayed_list (wkq_of ?u p)) \<longleftrightarrow> wk_list (wk_of ?u v) = Some (Delayed_list p)"
      using D(3,4) [of v p] by (simp_all add: drv)
  next
    fix v
    assume "wk_submitting (wk_of ?u v)"
    then have "v \<noteq> w" "wk_submitting (wk_of s v)" by (auto simp: drv split: if_splits)
    then show "tm_obj (k_timer ?u (UserTimer v))" "tm_system (k_timer ?u (UserTimer v))"
      using works_okD(5) [OF ok] s1(2) by (simp_all add: work_step_def)
  qed
  let ?s2 = "work_unlink w ?u"
  let ?s3 = "if wkq_current (wkq_of ?s2 q) \<noteq> Some w then work_append q w ?s2 else ?s2"
  have ok2: "works_ok ?s2" by (rule works_ok_unlink [OF oku])
  have "works_ok (work_append q w ?s2)" by (rule works_ok_append [OF ok2]) simp
  then have ok3: "works_ok ?s3" using ok2 by simp
  have c3: "kinv ?s3" "k_current ?s3 = Some c1" using c1 by simp_all
  obtain s' where s': "wake_worker q ?s3 = Some s'" "work_step {} ?s3 s'" by (rule wake_worker_ok [OF c3])
  have drv': "k_drv s' = k_drv ?s3" using s'(2) by (simp add: work_step_def)
  show thesis
  proof (rule that [of s'])
    show "delayed_work_timeout_handler w s = Some s'"
      using w(2) s1(1) s'(1) by (simp add: delayed_work_timeout_handler_def Let_def del: if_split)
    show "works_ok s'" by (rule works_ok_step [OF ok3 s'(2)]) simp
    show "\<not> wk_submitting (wk_of s' w)" unfolding drv' by (simp add: work_append_def)
    show "wkq_work_list (wkq_of s' q) = remove1 w (wkq_work_list (wkq_of s q)) @ [w] \<and> wk_pending (wk_of s' w)"
      if "wkq_current (wkq_of s q) \<noteq> Some w"
      unfolding drv' using that unlink_lists(1) [OF oku, of w q] by (simp add: work_append_def drv)
  qed (use s'(2) s1(3) in \<open>simp_all add: work_step_def\<close>)
qed


section \<open>The end of a work item\<close>

text \<open>A release that wakes a waiter keeps everybody else that can run.\<close>

lemma wake_calm:
  assumes inv: "kinv s" and cur: "k_current s = Some c" and q: "k_lists s (SemQ n) = t # ts" and obj: "sem_obj (k_sem s n)"
  obtains s' where "rt_sem_release n s = Some (RT_EOK, s')" "kinv s'" "\<exists>c. k_current s' = Some c" "k_sem s' = k_sem s"
    "k_drv s' = k_drv s" "k_lists s' (SemQ n) = ts" "th_base s' t \<in> {RT_THREAD_READY, RT_THREAD_RUNNING}"
    "\<And>u. th_base s u \<in> {RT_THREAD_READY, RT_THREAD_RUNNING} \<Longrightarrow> th_base s' u \<in> {RT_THREAD_READY, RT_THREAD_RUNNING}"
proof -
  have h: "wait_queue (SemQ n)" by simp
  obtain s1 where s1: "ipc_list_resume (SemQ n) s = Some s1" "kinv s1"
      "th_base s1 t = (if k_current s = Some t then RT_THREAD_RUNNING else RT_THREAD_READY)"
      "\<And>g. wait_queue g \<Longrightarrow> k_lists s1 g = (if g = SemQ n then ts else k_lists s g)"
      "thread_frame {t} s s1"
    using list_resume_ok [OF inv h q] by blast
  note fr = thread_frameD [OF s1(5)]
  have cur1: "k_current s1 = Some c" using fr(5) cur by simp
  obtain s' where s': "rt_schedule s1 = Some s'" "calm s1 s'" by (rule schedule_calm [OF s1(2) cur1])
  have t1: "th_base s1 t \<in> {RT_THREAD_READY, RT_THREAD_RUNNING}" using s1(3) by simp
  show thesis
  proof (rule that [of s'])
    show "rt_sem_release n s = Some (RT_EOK, s')" using obj q s1(1) s'(1) by (simp add: rt_sem_release_def)
    show "th_base s' t \<in> {RT_THREAD_READY, RT_THREAD_RUNNING}" using s'(2) t1 unfolding calm_def by blast
    show "th_base s' u \<in> {RT_THREAD_READY, RT_THREAD_RUNNING}" if "th_base s u \<in> {RT_THREAD_READY, RT_THREAD_RUNNING}" for u
    proof -
      have "th_base s1 u \<in> {RT_THREAD_READY, RT_THREAD_RUNNING}" using t1 that fr(6) [of u] by (cases "u = t") auto
      then show ?thesis using s'(2) unfolding calm_def by blast
    qed
  qed (use s'(2) objs_frame_drv [OF fr(1)] s1(4) [OF h] in \<open>simp_all add: calm_def\<close>)
qed

lemma completion_loop_ok:
  "kinv s \<Longrightarrow> k_current s = Some c \<Longrightarrow> sem_obj (k_sem s n) \<Longrightarrow> sem_value (k_sem s n) = 0 \<Longrightarrow>
   \<exists>s'. work_completion_loop n s = Some (RT_EOK, s') \<and> kinv s' \<and> (\<exists>c. k_current s' = Some c)
     \<and> sem_obj (k_sem s' n) \<and> sem_value (k_sem s' n) = 0 \<and> k_lists s' (SemQ n) = [] \<and> k_drv s' = k_drv s
     \<and> (\<forall>t \<in> set (k_lists s (SemQ n)). th_base s' t \<in> {RT_THREAD_READY, RT_THREAD_RUNNING})
     \<and> (\<forall>t. th_base s t \<in> {RT_THREAD_READY, RT_THREAD_RUNNING} \<longrightarrow> th_base s' t \<in> {RT_THREAD_READY, RT_THREAD_RUNNING})"
proof (induction "k_lists s (SemQ n)" arbitrary: s c)
  case Nil
  have no: "k_lists s (SemQ n) = []" using Nil.hyps by simp
  have take0: "rt_sem_trytake n s = Some (Returned (- RT_ETIMEOUT), s)"
    using Nil.prems by (simp add: rt_sem_trytake_def rt_sem_take_def)
  let ?s1 = "upd_sem n (\<lambda>m. m\<lparr>sem_value := sem_value m + 1\<rparr>) s"
  let ?s2 = "upd_sem n (\<lambda>m. m\<lparr>sem_value := sem_value m - 1\<rparr>) ?s1"
  have rel: "rt_sem_release n s = Some (RT_EOK, ?s1)" using Nil.prems no by (simp add: rt_sem_release_def)
  have take1: "rt_sem_trytake n ?s1 = Some (Returned RT_EOK, ?s2)"
    using Nil.prems by (simp add: rt_sem_trytake_def rt_sem_take_def)
  have "work_completion_loop n ?s1 = Some (RT_EOK, ?s2)"
    unfolding work_completion_loop.simps [of n ?s1] take1 by simp
  then have "work_completion_loop n s = Some (RT_EOK, ?s2)"
    unfolding work_completion_loop.simps [of n s] take0 by (simp add: rel)
  moreover have "k_drv ?s2 = k_drv s" by (simp add: upd_sem_def)
  ultimately show ?case using Nil.prems no by (intro exI [of _ ?s2]) auto
next
  case (Cons t ts)
  have q: "k_lists s (SemQ n) = t # ts" using Cons.hyps(2) by simp
  have take0: "rt_sem_trytake n s = Some (Returned (- RT_ETIMEOUT), s)"
    using Cons.prems by (simp add: rt_sem_trytake_def rt_sem_take_def)
  obtain s1 where s1: "rt_sem_release n s = Some (RT_EOK, s1)" "kinv s1" "\<exists>c. k_current s1 = Some c" "k_sem s1 = k_sem s"
    "k_drv s1 = k_drv s" "k_lists s1 (SemQ n) = ts" "th_base s1 t \<in> {RT_THREAD_READY, RT_THREAD_RUNNING}"
    "\<And>u. th_base s u \<in> {RT_THREAD_READY, RT_THREAD_RUNNING} \<Longrightarrow> th_base s1 u \<in> {RT_THREAD_READY, RT_THREAD_RUNNING}"
    by (rule wake_calm [OF Cons.prems(1,2) q Cons.prems(3)]) blast
  then obtain c1 where c1: "k_current s1 = Some c1" by blast
  have p1: "sem_obj (k_sem s1 n)" "sem_value (k_sem s1 n) = 0" using Cons.prems s1(4) by simp_all
  obtain s' where s': "work_completion_loop n s1 = Some (RT_EOK, s')" "kinv s'" "\<exists>c. k_current s' = Some c"
     "sem_obj (k_sem s' n)" "sem_value (k_sem s' n) = 0" "k_lists s' (SemQ n) = []" "k_drv s' = k_drv s1"
     "\<forall>t \<in> set (k_lists s1 (SemQ n)). th_base s' t \<in> {RT_THREAD_READY, RT_THREAD_RUNNING}"
     "\<forall>t. th_base s1 t \<in> {RT_THREAD_READY, RT_THREAD_RUNNING} \<longrightarrow> th_base s' t \<in> {RT_THREAD_READY, RT_THREAD_RUNNING}"
    using Cons.hyps(1) [OF s1(6) [symmetric] s1(2) c1 p1] by blast
  have "work_completion_loop n s = Some (RT_EOK, s')"
    unfolding work_completion_loop.simps [of n s] take0 using s'(1) by (simp add: s1(1))
  moreover have "th_base s' u \<in> {RT_THREAD_READY, RT_THREAD_RUNNING}" if "u \<in> set (k_lists s (SemQ n))" for u
  proof (cases "u = t")
    case True
    then show ?thesis using s'(9) s1(7) by blast
  next
    case False
    then have "u \<in> set (k_lists s1 (SemQ n))" using that q s1(6) by simp
    then show ?thesis using s'(8) by blast
  qed
  moreover have "th_base s' u \<in> {RT_THREAD_READY, RT_THREAD_RUNNING}"
    if "th_base s u \<in> {RT_THREAD_READY, RT_THREAD_RUNNING}" for u using s'(9) s1(8) [OF that] by blast
  ultimately show ?case using s'(2-7) s1(5) by (intro exI [of _ s']) simp
qed


lemma work_done_ok:
  assumes inv: "kinv s" and cur: "k_current s = Some c"
    and sem: "sem_obj (k_sem s (wkq_sem (wkq_of s q)))" "sem_value (k_sem s (wkq_sem (wkq_of s q))) = 0"
  obtains s' where "workqueue_thread_done q s = Some s'" "kinv s'" "\<exists>c. k_current s' = Some c"
    "k_drv s' = k_drv (upd_wkq q (\<lambda>k. k\<lparr>wkq_current := None\<rparr>) s)"
    "sem_obj (k_sem s' (wkq_sem (wkq_of s q)))" "sem_value (k_sem s' (wkq_sem (wkq_of s q))) = 0"
    "k_lists s' (SemQ (wkq_sem (wkq_of s q))) = []"
    "\<And>t. t \<in> set (k_lists s (SemQ (wkq_sem (wkq_of s q)))) \<Longrightarrow> th_base s' t \<in> {RT_THREAD_READY, RT_THREAD_RUNNING}"
proof -
  let ?n = "wkq_sem (wkq_of s q)" and ?s0 = "upd_wkq q (\<lambda>k. k\<lparr>wkq_current := None\<rparr>) s"
  let ?s1 = "rt_enter_critical ?s0"
  have p1: "kinv ?s1" "k_current ?s1 = Some c" "sem_obj (k_sem ?s1 ?n)" "sem_value (k_sem ?s1 ?n) = 0"
    using inv cur sem by simp_all
  obtain s2 where s2: "work_completion_loop ?n ?s1 = Some (RT_EOK, s2)" "kinv s2" "\<exists>c. k_current s2 = Some c"
     "sem_obj (k_sem s2 ?n)" "sem_value (k_sem s2 ?n) = 0" "k_lists s2 (SemQ ?n) = []" "k_drv s2 = k_drv ?s1"
     "\<forall>t \<in> set (k_lists ?s1 (SemQ ?n)). th_base s2 t \<in> {RT_THREAD_READY, RT_THREAD_RUNNING}"
    using completion_loop_ok [OF p1] by blast
  then obtain c2 where c2: "k_current s2 = Some c2" by blast
  obtain s' where s': "rt_exit_critical s2 = Some s'" "calm s2 s'" by (rule exit_critical_calm [OF s2(2) c2])
  have n: "wkq_sem (wkq_of ?s0 q) = ?n" by simp
  show thesis
  proof (rule that [of s'])
    show "workqueue_thread_done q s = Some s'"
      unfolding workqueue_thread_done_def workqueue_work_completion_def n using s2(1) s'(1) by simp
    fix t
    assume "t \<in> set (k_lists s (SemQ ?n))"
    then have "th_base s2 t \<in> {RT_THREAD_READY, RT_THREAD_RUNNING}" using s2(8) by simp
    then show "th_base s' t \<in> {RT_THREAD_READY, RT_THREAD_RUNNING}" using s'(2) unfolding calm_def by blast
  qed (use s'(2) s2(4-7) in \<open>simp_all add: calm_def\<close>)
qed

lemma work_take_ok:
  assumes ok: "works_ok s" and list: "wkq_work_list (wkq_of s q) = w # ws"
  obtains s' where "workqueue_thread_take q s = Some (Some w, s')" "works_ok s'" "wkq_work_list (wkq_of s' q) = ws"
    "wkq_current (wkq_of s' q) = Some w" "wk_workqueue (wk_of s' w) = None" "wk_submitting (wk_of s' w) = wk_submitting (wk_of s w)"
    "kinv s' = kinv s" "k_timer s' = k_timer s" "k_timers s' = k_timers s" "k_tick s' = k_tick s" "k_current s' = k_current s"
proof -
  let ?s' = "upd_wk w (\<lambda>k. k\<lparr>wk_pending := False, wk_workqueue := None\<rparr>)
            (upd_wkq q (\<lambda>k. k\<lparr>wkq_current := Some w\<rparr>) (work_unlink w s))"
  have run: "workqueue_thread_take q s = Some (Some w, ?s')" using list by (simp add: workqueue_thread_take_def)
  have ok1: "works_ok (work_unlink w s)" by (rule works_ok_unlink [OF ok])
  have "works_ok (upd_wkq q (\<lambda>k. k\<lparr>wkq_current := Some w\<rparr>) (work_unlink w s))"
    unfolding works_ok_def using works_okD [OF ok1] by simp
  then have "works_ok ?s'" by (rule works_ok_fields) simp_all
  moreover have "wkq_work_list (wkq_of ?s' q) = ws" using unlink_lists(1) [OF ok, of w q] list by simp
  ultimately show thesis by (rule that [OF run]) simp_all
qed


section \<open>Histories\<close>

text \<open>
  The work queues through any history of submissions, urgent submissions, cancellations, ends of
  delays, turns of the worker threads and other kernel activity (the work functions included).  A
  timer that is not started is in no list, and the other activity leaves the registration of the
  items' timers alone.
\<close>

inductive workq_history :: "kstate \<Rightarrow> bool" where
  start: "\<lbrakk>kinv s; works_ok s\<rbrakk> \<Longrightarrow> workq_history s"
| submit: "\<lbrakk>workq_history s; k_current s = Some c;
      wk_submitting (wk_of s w) \<or> tm_row (k_timer s (UserTimer w)) = None;
      workqueue_submit_work q w delay s = Some (e, s')\<rbrakk> \<Longrightarrow> workq_history s'"
| urgent: "\<lbrakk>workq_history s; k_current s = Some c; rt_workqueue_urgent_work q w s = Some (e, s')\<rbrakk> \<Longrightarrow> workq_history s'"
| cancel: "\<lbrakk>workq_history s; k_current s = Some c; workqueue_cancel_work q w s = Some (e, s')\<rbrakk> \<Longrightarrow> workq_history s'"
| timeout: "\<lbrakk>workq_history s; k_current s = Some c; wk_submitting (wk_of s w);
      delayed_work_timeout_handler w s = Some s'\<rbrakk> \<Longrightarrow> workq_history s'"
| take: "\<lbrakk>workq_history s; workqueue_thread_take q s = Some (Some w, s')\<rbrakk> \<Longrightarrow> workq_history s'"
| finished: "\<lbrakk>workq_history s; k_current s = Some c; sem_obj (k_sem s (wkq_sem (wkq_of s q)));
      sem_value (k_sem s (wkq_sem (wkq_of s q))) = 0; workqueue_thread_done q s = Some s';
      \<forall>n. tm_obj (k_timer s' (UserTimer n)) = tm_obj (k_timer s (UserTimer n))
         \<and> tm_system (k_timer s' (UserTimer n)) = tm_system (k_timer s (UserTimer n))\<rbrakk> \<Longrightarrow> workq_history s'"
| other: "\<lbrakk>workq_history s; kinv s'; k_drv s' = k_drv s;
      \<forall>n. tm_obj (k_timer s' (UserTimer n)) = tm_obj (k_timer s (UserTimer n))
         \<and> tm_system (k_timer s' (UserTimer n)) = tm_system (k_timer s (UserTimer n))\<rbrakk> \<Longrightarrow> workq_history s'"

lemma works_ok_current:
  "works_ok s \<Longrightarrow> works_ok (upd_wkq q (\<lambda>k. k\<lparr>wkq_current := x\<rparr>) s)"
  unfolding works_ok_def [of "upd_wkq q f s" for f] using works_okD [of s] by simp

lemma submit_step:
  assumes "kinv s" "works_ok s" "k_current s = Some c"
    and "wk_submitting (wk_of s w) \<or> tm_row (k_timer s (UserTimer w)) = None"
    and run: "workqueue_submit_work q w delay s = Some (e, s')"
  shows "kinv s' \<and> works_ok s'"
proof (cases "delay = 0 \<or> \<not> delay < TICK_HALF")
  case False
  have "\<not> wk_submitting (wk_of s w) \<Longrightarrow> \<not> tm_obj (k_timer s (UserTimer w))"
    using run False by (auto simp: workqueue_submit_work_def Let_def rt_timer_init_def object_init_check_def bind_eq_Some_conv)
  then have "wk_submitting (wk_of s w) \<or> \<not> tm_obj (k_timer s (UserTimer w)) \<and> tm_row (k_timer s (UserTimer w)) = None"
    using assms(4) by blast
  moreover have "delay \<noteq> 0" "delay < TICK_HALF" using False by simp_all
  ultimately obtain s1 where "workqueue_submit_work q w delay s = Some (RT_EOK, s1)" "kinv s1" "works_ok s1"
    using submit_later [OF assms(1,3,2)] by metis
  then show ?thesis using run by simp
next
  case True
  show ?thesis
  proof (cases "delay = 0")
    case True
    obtain s1 e1 where "workqueue_submit_work q w 0 s = Some (e1, s1)" "works_ok s1" "kinv s1"
      using submit_now [OF assms(1,3,2)] unfolding work_step_def by metis
    then show ?thesis using run True by simp
  next
    case False
    then have "s' = unlinked w s" using run \<open>delay = 0 \<or> \<not> delay < TICK_HALF\<close> by (simp add: workqueue_submit_work_def Let_def)
    then show ?thesis using works_ok_unlinked [OF assms(2)] assms(1) by simp
  qed
qed

lemma workq_history_ok: "workq_history s \<Longrightarrow> kinv s \<and> works_ok s"
proof (induction rule: workq_history.induct)
  case (submit s c w q delay e s')
  then show ?case using submit_step by blast
next
  case (urgent s c q w e s')
  have ok: "works_ok (work_prepend q w (work_unlink w s))"
    by (rule works_ok_prepend [OF works_ok_unlink]) (use urgent.IH in simp_all)
  have inv: "kinv (work_prepend q w (work_unlink w s))" "k_current (work_prepend q w (work_unlink w s)) = Some c"
    using urgent.IH urgent.hyps(2) by simp_all
  obtain s1 where s1: "wake_worker q (work_prepend q w (work_unlink w s)) = Some s1"
    "work_step {} (work_prepend q w (work_unlink w s)) s1" by (rule wake_worker_ok [OF inv])
  have "works_ok s1" by (rule works_ok_step [OF ok s1(2)]) simp
  then show ?case using urgent.hyps(3) s1 by (simp add: rt_workqueue_urgent_work_def work_step_def)
next
  case (cancel s c q w e s')
  obtain r s1 where "workqueue_cancel_work q w s = Some (r, s1)" "kinv s1" "works_ok s1"
    by (rule cancel_ok [OF conjunct1 [OF cancel.IH] cancel.hyps(2) conjunct2 [OF cancel.IH]])
  then show ?case using cancel.hyps(3) by simp
next
  case (timeout s c w s')
  obtain q where q: "wk_workqueue (wk_of s w) = Some q"
    using timeout.hyps(4) by (auto simp: delayed_work_timeout_handler_def bind_eq_Some_conv)
  obtain s1 where "delayed_work_timeout_handler w s = Some s1" "kinv s1" "works_ok s1"
    by (rule work_timeout_ok [OF conjunct1 [OF timeout.IH] timeout.hyps(2) conjunct2 [OF timeout.IH] timeout.hyps(3) q])
  then show ?case using timeout.hyps(4) by simp
next
  case (take s q w s')
  show ?case
  proof (cases "wkq_work_list (wkq_of s q)")
    case Nil
    then show ?thesis using take.hyps(2) by (auto simp: workqueue_thread_take_def bind_eq_Some_conv)
  next
    case (Cons v vs)
    obtain s1 where "workqueue_thread_take q s = Some (Some v, s1)" "works_ok s1" "kinv s1 = kinv s"
      by (rule work_take_ok [OF conjunct2 [OF take.IH] Cons])
    then show ?thesis using take.hyps(2) take.IH by simp
  qed
next
  case (finished s c q s')
  obtain s1 where s1: "workqueue_thread_done q s = Some s1" "kinv s1"
    "k_drv s1 = k_drv (upd_wkq q (\<lambda>k. k\<lparr>wkq_current := None\<rparr>) s)"
    by (rule work_done_ok [OF conjunct1 [OF finished.IH] finished.hyps(2-4)]) blast
  have "works_ok s1"
    by (rule works_ok_cong [OF works_ok_current [OF conjunct2 [OF finished.IH], of q None] s1(3)])
      (use finished.hyps(5,6) s1(1) in simp)
  then show ?case using s1(1,2) finished.hyps(5) by simp
next
  case (other s s')
  then show ?case using works_ok_cong [of s s'] by simp
qed simp


section \<open>Properties\<close>

text \<open>
  C28: an item is queued once.  In every history no item occurs twice, in one list or in the lists
  of different queues, however it was submitted, resubmitted, delayed or cancelled; so one
  submission is run at most once.
\<close>

theorem workqueue_items_once:
  assumes "workq_history s"
  shows "distinct (wkq_work_list (wkq_of s q)) \<and> distinct (wkq_delayed_list (wkq_of s q))
     \<and> (w \<in> set (wkq_work_list (wkq_of s q)) \<longrightarrow> (\<forall>p. w \<notin> set (wkq_delayed_list (wkq_of s p)))
          \<and> (\<forall>p. p \<noteq> q \<longrightarrow> w \<notin> set (wkq_work_list (wkq_of s p))))
     \<and> (w \<in> set (wkq_delayed_list (wkq_of s q)) \<longrightarrow> (\<forall>p. p \<noteq> q \<longrightarrow> w \<notin> set (wkq_delayed_list (wkq_of s p))))
     \<and> kinv s"
  using workq_history_ok [OF assms] works_okD [of s] by auto

lemma sample_works: "works_ok k_sample" "workq_history k_sample" "wkq_of k_sample q
     = \<lparr>wkq_work_list = [], wkq_delayed_list = [], wkq_current = None, wkq_sem = 1, wkq_thread = 7\<rparr>"
  "\<not> wk_submitting (wk_of k_sample w)" "wk_list (wk_of k_sample w) = None" "tm_row (k_timer k_sample (UserTimer w)) = None"
proof -
  show "works_ok k_sample" by (simp add: works_ok_def k_sample_def drv_sample_def)
  then show "workq_history k_sample" by (intro workq_history.start kinv_sample)
  show "tm_row (k_timer k_sample (UserTimer w)) = None" by (simp add: timers_sample_def)
qed (simp_all add: k_sample_def drv_sample_def)

theorem workqueue_items_once_witness:
  "\<exists>s. workqueue_submit_work 0 3 0 k_sample = Some (RT_EOK, s) \<and> wkq_work_list (wkq_of s 0) = [3]
     \<and> 3 \<notin> set (wkq_delayed_list (wkq_of s 0))"
proof -
  have cur: "k_current k_sample = Some 0" by simp
  obtain s where s: "workqueue_submit_work 0 3 0 k_sample
      = Some (if wkq_current (wkq_of k_sample 0) \<noteq> Some 3 then RT_EOK else - RT_EBUSY, s)"
    "work_step {} (if wkq_current (wkq_of k_sample 0) \<noteq> Some 3
       then upd_wk 3 (\<lambda>k. k\<lparr>wk_workqueue := Some 0\<rparr>) (work_append 0 3 (unlinked 3 k_sample)) else unlinked 3 k_sample) s"
    by (rule submit_now [OF kinv_sample cur sample_works(1)])
  have run: "workqueue_submit_work 0 3 0 k_sample = Some (RT_EOK, s)" using s(1) sample_works(3) by simp
  have l: "wkq_work_list (wkq_of s 0) = [3]"
    using s(2) sample_works(3,5) by (simp add: work_step_def work_append_def work_unlink_def)
  have "workq_history s"
    by (rule workq_history.submit [OF sample_works(2) cur disjI2 [OF sample_works(6)] run])
  then show ?thesis using workqueue_items_once [of s 0 3] run l by auto
qed

text \<open>
  The end of a work item.  Reporting it always returns: it wakes every thread that waits for the
  end of an item, and leaves the semaphore at zero for the next one.
\<close>

theorem workqueue_done_wakes_waiters:
  assumes "kinv s" "k_current s = Some c" "wkq_sem (wkq_of s q) = n" "sem_obj (k_sem s n)" "sem_value (k_sem s n) = 0"
  shows "\<exists>s'. workqueue_thread_done q s = Some s' \<and> kinv s' \<and> wkq_current (wkq_of s' q) = None
     \<and> k_lists s' (SemQ n) = [] \<and> sem_value (k_sem s' n) = 0
     \<and> (\<forall>t \<in> set (k_lists s (SemQ n)). th_base s' t \<in> {RT_THREAD_READY, RT_THREAD_RUNNING})"
proof -
  obtain s' where s': "workqueue_thread_done q s = Some s'" "kinv s'"
    "k_drv s' = k_drv (upd_wkq q (\<lambda>k. k\<lparr>wkq_current := None\<rparr>) s)"
    "sem_value (k_sem s' (wkq_sem (wkq_of s q))) = 0" "k_lists s' (SemQ (wkq_sem (wkq_of s q))) = []"
    "\<And>t. t \<in> set (k_lists s (SemQ (wkq_sem (wkq_of s q)))) \<Longrightarrow> th_base s' t \<in> {RT_THREAD_READY, RT_THREAD_RUNNING}"
    by (rule work_done_ok [OF assms(1,2), of q]) (use assms(3-5) in simp_all)
  have "wkq_current (wkq_of s' q) = None" unfolding s'(3) by simp
  then show ?thesis using s'(1,2,4-6) unfolding assms(3) by (intro exI [of _ s'] conjI ballI) blast+
qed


text \<open>Thread 3 waits for the end of item 3 in a sample whose queue 0 uses semaphore 0.\<close>

theorem workqueue_done_wakes_waiters_witness:
  "\<exists>s s'. k_lists s (SemQ 0) = [3] \<and> workqueue_thread_done 0 s = Some s' \<and> k_lists s' (SemQ 0) = []
     \<and> th_base s' 3 \<in> {RT_THREAD_READY, RT_THREAD_RUNNING}"
proof -
  let ?s = "upd_wkq 0 (\<lambda>k. k\<lparr>wkq_sem := 0, wkq_current := Some 3\<rparr>) k_sample"
  have p: "kinv ?s" "k_current ?s = Some 0" "wkq_sem (wkq_of ?s 0) = 0" "sem_obj (k_sem ?s 0)" "sem_value (k_sem ?s 0) = 0"
    using kinv_sample by (simp_all add: k_sample_def)
  have l: "k_lists ?s (SemQ 0) = [3]" by (simp add: lists_sample_def)
  obtain s' where s': "workqueue_thread_done 0 ?s = Some s'" "k_lists s' (SemQ 0) = []"
    "\<forall>t \<in> set (k_lists ?s (SemQ 0)). th_base s' t \<in> {RT_THREAD_READY, RT_THREAD_RUNNING}"
    using workqueue_done_wakes_waiters [OF p] by blast
  have "th_base s' 3 \<in> {RT_THREAD_READY, RT_THREAD_RUNNING}" by (rule bspec [OF s'(3)]) (simp only: l, simp)
  then show ?thesis using s'(1,2) l by blast
qed

text \<open>
  A delayed item that is submitted again without a delay keeps its timer.  The worker takes the
  item, which leaves it without a queue, and when the delay is over the timeout handler fails its
  assertion in the tick interrupt.
\<close>

theorem workqueue_stale_timer_fails:
  assumes "kinv s" "k_current s = Some c" "works_ok s" "delay \<noteq> 0" "delay < TICK_HALF"
    and "wkq_work_list (wkq_of s q) = []" "wkq_current (wkq_of s q) = None"
    and "wk_list (wk_of s w) = None" "\<not> wk_submitting (wk_of s w)"
    and "\<not> tm_obj (k_timer s (UserTimer w))" "tm_row (k_timer s (UserTimer w)) = None"
  shows "\<exists>s1 s2 s3. workqueue_submit_work q w delay s = Some (RT_EOK, s1)
     \<and> workqueue_submit_work q w 0 s1 = Some (RT_EOK, s2) \<and> workqueue_thread_take q s2 = Some (Some w, s3)
     \<and> UserTimer w \<in> set (k_timers s3 Timer_list) \<and> tm_timeout_func (k_timer s3 (UserTimer w)) = User_timeout w
     \<and> tm_timeout_tick (k_timer s3 (UserTimer w)) = k_tick s + delay
     \<and> delayed_work_timeout_handler w s3 = None"
proof -
  obtain s1 where s1: "workqueue_submit_work q w delay s = Some (RT_EOK, s1)" "kinv s1" "\<exists>c. k_current s1 = Some c" "works_ok s1"
    "tm_row (k_timer s1 (UserTimer w)) = Some Timer_list"
    "tm_timeout_tick (k_timer s1 (UserTimer w)) = k_tick s + delay"
    "\<not> wk_submitting (wk_of s w) \<Longrightarrow> tm_timeout_func (k_timer s1 (UserTimer w)) = User_timeout w"
    "\<And>p. wkq_of s1 p = wkq_of (work_delay q w (work_unlink w s)) p"
    by (rule submit_later [OF assms(1-5), of w q]) (use assms(10,11) in blast)+
  then obtain c1 where c1: "k_current s1 = Some c1" by blast
  have k1: "wkq_work_list (wkq_of s1 q) = []" "wkq_current (wkq_of s1 q) = None"
    unfolding s1(8) using assms(6-8) by (simp_all add: work_delay_def work_unlink_def)
  let ?t = "upd_wk w (\<lambda>k. k\<lparr>wk_workqueue := Some q\<rparr>) (work_append q w (unlinked w s1))"
  obtain s2 where s2: "workqueue_submit_work q w 0 s1
      = Some (if wkq_current (wkq_of s1 q) \<noteq> Some w then RT_EOK else - RT_EBUSY, s2)" "works_ok s2"
    "work_step {} (if wkq_current (wkq_of s1 q) \<noteq> Some w then ?t else unlinked w s1) s2"
    by (rule submit_now [OF s1(2) c1 s1(4)])
  have st: "work_step {} ?t s2" using s2(3) k1(2) by simp
  have l2: "wkq_work_list (wkq_of s2 q) = [w]"
    using st unlink_lists(1) [OF s1(4), of w q] k1(1) by (simp add: work_step_def work_append_def)
  obtain s3 where s3: "workqueue_thread_take q s2 = Some (Some w, s3)" "wk_workqueue (wk_of s3 w) = None"
    "kinv s3 = kinv s2" "k_timer s3 = k_timer s2"
    by (rule work_take_ok [OF s2(2) l2])
  have tm: "k_timer s3 (UserTimer w) = k_timer s1 (UserTimer w)" using st s3(4) by (simp add: work_step_def)
  have "kinv s3" using st s3(3) by (simp add: work_step_def)
  then have "UserTimer w \<in> set (k_timers s3 Timer_list)" using timers_invD(3) [OF kinvD(2)] tm s1(5) by metis
  moreover have "delayed_work_timeout_handler w s3 = None" using s3(2) by (simp add: delayed_work_timeout_handler_def)
  ultimately show ?thesis using s1(1,6,7) s2(1) k1(2) s3(1) tm assms(9) by (intro exI [of _ s1] exI [of _ s2] exI [of _ s3]) simp
qed

text \<open>The timers of the sample are registered; here item 3 has a timer that is not.\<close>

theorem workqueue_stale_timer_fails_witness:
  "\<exists>s s1 s2 s3. workqueue_submit_work 0 3 10 s = Some (RT_EOK, s1) \<and> workqueue_submit_work 0 3 0 s1 = Some (RT_EOK, s2)
     \<and> workqueue_thread_take 0 s2 = Some (Some 3, s3) \<and> delayed_work_timeout_handler 3 s3 = None"
proof -
  let ?s = "upd_timer (UserTimer 3) (\<lambda>tm. tm\<lparr>tm_obj := False\<rparr>) k_sample"
  have row: "tm_row (k_timer k_sample (UserTimer 3)) = None" by (rule sample_works(6))
  have ti: "timers_inv ?s"
  proof (rule timers_inv_update [OF kinvD(2) [OF kinv_sample], of _ "UserTimer 3"])
    show "timer_ok (UserTimer 3) (k_timer k_sample (UserTimer 3)\<lparr>tm_obj := False\<rparr>)" using row by (simp add: timer_ok_def)
  qed (use timers_invD(2,3) [OF kinvD(2) [OF kinv_sample]] row in auto)
  have fr: "timer_frame {UserTimer 3} k_sample ?s" by (simp add: timer_frame_def objs_frame_def)
  have inv: "kinv ?s" using kinv_timer_step [OF kinv_sample fr ti] by blast
  have drv: "k_drv ?s = k_drv k_sample" by simp
  have ok: "works_ok ?s" by (rule works_ok_cong [OF sample_works(1) drv]) (use sample_works(4) in simp)
  have p: "k_current ?s = Some 0" "(10 :: rt_tick_t) \<noteq> 0" "(10 :: rt_tick_t) < TICK_HALF" "wkq_work_list (wkq_of ?s 0) = []"
    "wkq_current (wkq_of ?s 0) = None" "wk_list (wk_of ?s 3) = None" "\<not> wk_submitting (wk_of ?s 3)"
    "\<not> tm_obj (k_timer ?s (UserTimer 3))" "tm_row (k_timer ?s (UserTimer 3)) = None"
    using sample_works(3-5) row by simp_all
  show ?thesis using workqueue_stale_timer_fails [OF inv p(1) ok p(2-9)] by blast
qed

text \<open>
  Cancelling all work returns.  Both lists are empty afterwards, no item that was in them
  belongs to a queue, and the timer of none of the delayed ones runs.
\<close>

theorem workqueue_cancel_all_returns:
  assumes "kinv s" "k_current s = Some c" "works_ok s"
  shows "\<exists>s'. rt_workqueue_cancel_all_work q s = Some (RT_EOK, s') \<and> kinv s' \<and> works_ok s'
     \<and> wkq_work_list (wkq_of s' q) = [] \<and> wkq_delayed_list (wkq_of s' q) = []
     \<and> (\<forall>w \<in> set (wkq_work_list (wkq_of s q)) \<union> set (wkq_delayed_list (wkq_of s q)). wk_workqueue (wk_of s' w) = None
          \<and> (wk_submitting (wk_of s w) \<longrightarrow> tm_row (k_timer s' (UserTimer w)) = None))"
proof -
  let ?s0 = "rt_enter_critical s"
  have p0: "kinv ?s0" "k_current ?s0 = Some c" "works_ok ?s0" using assms by (simp_all add: works_ok_def)
  obtain s1 where s1: "cancel_loop wkq_work_list q ?s0 = Some s1" "kinv s1" "\<exists>c. k_current s1 = Some c" "works_ok s1"
    "wkq_work_list (wkq_of s1 q) = []" "\<forall>w. dropped w ?s0 s1 \<or> same_work w ?s0 s1"
    using cancel_loop_ok [OF disjI1 [OF refl] p0, of q] by blast
  then obtain c1 where c1: "k_current s1 = Some c1" by blast
  obtain s2 where s2: "cancel_loop wkq_delayed_list q s1 = Some s2" "kinv s2" "\<exists>c. k_current s2 = Some c" "works_ok s2"
    "wkq_delayed_list (wkq_of s2 q) = []" "\<forall>p. wkq_work_list (wkq_of s1 p) = [] \<longrightarrow> wkq_work_list (wkq_of s2 p) = []"
    "\<forall>w. dropped w s1 s2 \<or> same_work w s1 s2"
    using cancel_loop_ok [OF disjI2 [OF refl] s1(2) c1 s1(4), of q] by blast
  then obtain c2 where c2: "k_current s2 = Some c2" by blast
  have l2: "wkq_work_list (wkq_of s2 q) = []" using s1(5) s2(6) by simp
  obtain s3 where s3: "rt_exit_critical s2 = Some s3" "calm s2 s3" by (rule exit_critical_calm [OF s2(2) c2])
  have same: "k_drv s3 = k_drv s2" "k_timer s3 = k_timer s2" using s3(2) by (simp_all add: calm_def)
  have items: "wk_workqueue (wk_of s3 w) = None \<and> (wk_submitting (wk_of s w) \<longrightarrow> tm_row (k_timer s3 (UserTimer w)) = None)"
    if w: "w \<in> set (wkq_work_list (wkq_of s q)) \<union> set (wkq_delayed_list (wkq_of s q))" for w
  proof -
    have d: "dropped w ?s0 s2 \<or> same_work w ?s0 s2" using dropped_trans s1(6) s2(7) by blast
    have "wk_list (wk_of s w) = Some (Work_list q) \<or> wk_list (wk_of s w) = Some (Delayed_list q)"
      using w works_okD(3,4) [OF assms(3), of w q] by blast
    moreover have "wk_list (wk_of s2 w) \<noteq> Some (Work_list q)" "wk_list (wk_of s2 w) \<noteq> Some (Delayed_list q)"
      using works_okD(3,4) [OF s2(4), of w q] l2 s2(5) by simp_all
    ultimately have "\<not> same_work w ?s0 s2" by (auto simp: same_work_def)
    then have "dropped w ?s0 s2" using d by blast
    then show ?thesis unfolding same by (auto simp: dropped_def)
  qed
  have ok3: "works_ok s3" by (rule works_ok_cong [OF s2(4) same(1)]) (simp add: same(2))
  have run: "rt_workqueue_cancel_all_work q s = Some (RT_EOK, s3)"
    using s1(1) s2(1) s3(1) by (simp add: rt_workqueue_cancel_all_work_def)
  show ?thesis
    by (rule exI [of _ s3]) (use run s3(2) ok3 l2 s2(5) items in \<open>simp add: same calm_def\<close>)
qed

theorem workqueue_cancel_all_returns_witness:
  "\<exists>s s'. wkq_work_list (wkq_of s 0) = [3] \<and> rt_workqueue_cancel_all_work 0 s = Some (RT_EOK, s')
     \<and> wkq_work_list (wkq_of s' 0) = []"
proof -
  have ok: "works_ok (work_append 0 3 k_sample)" by (rule works_ok_append [OF sample_works(1,5)])
  have p: "kinv (work_append 0 3 k_sample)" "k_current (work_append 0 3 k_sample) = Some 0"
    "wkq_work_list (wkq_of (work_append 0 3 k_sample) 0) = [3]"
    using kinv_sample sample_works(3) by (simp_all add: work_append_def)
  show ?thesis using workqueue_cancel_all_returns [OF p(1,2) ok, of 0] p(3) by blast
qed

text \<open>
  A thread that waits for a work item can miss its end.  It has seen the item running; when
  the worker finishes the item before the thread takes the semaphore, the thread blocks without a
  timeout although its item is done, until the end of some later item.
\<close>

theorem workqueue_cancel_sync_blocks:
  assumes "kinv s" "k_current s = Some c" "wkq_sem (wkq_of s q) = n" "sem_obj (k_sem s n)" "sem_value (k_sem s n) = 0"
  shows "\<exists>s'. workqueue_thread_done q s = Some s' \<and> wkq_current (wkq_of s' q) = None
     \<and> (\<forall>u t. kinv u \<and> may_block u t \<and> k_sem u = k_sem s' \<and> k_drv u = k_drv s' \<longrightarrow>
          (\<exists>u'. cancel_work_wait q u = Some (Blocked, u') \<and> th_base u' t = RT_THREAD_SUSPEND
             \<and> t \<in> set (k_lists u' (SemQ n))))"
proof -
  obtain s' where s': "workqueue_thread_done q s = Some s'" "k_drv s' = k_drv (upd_wkq q (\<lambda>k. k\<lparr>wkq_current := None\<rparr>) s)"
    "sem_obj (k_sem s' (wkq_sem (wkq_of s q)))" "sem_value (k_sem s' (wkq_sem (wkq_of s q))) = 0"
    by (rule work_done_ok [OF assms(1,2), of q]) (use assms(3-5) in simp_all)
  have wait: "\<exists>u'. cancel_work_wait q u = Some (Blocked, u') \<and> th_base u' t = RT_THREAD_SUSPEND \<and> t \<in> set (k_lists u' (SemQ n))"
    if u: "kinv u" "may_block u t" "k_sem u = k_sem s'" "k_drv u = k_drv s'" for u t
  proof -
    have o: "sem_obj (k_sem u n)" "sem_value (k_sem u n) = 0" using s'(3,4) assms(3) u(3) by simp_all
    have tmo: "(- 1 :: int) \<noteq> 0" "timeout_ok (- 1)" by (simp_all add: IpcCore.timeout_ok_def)
    have n: "wkq_sem (wkq_of u q) = n" unfolding u(4) s'(2) using assms(3) by simp
    have h: "wait_queue (SemQ n)" by simp
    obtain u' where u': "rt_sem_take n (- 1) u = Some (Blocked, u')" "th_base u' t = RT_THREAD_SUSPEND"
      "\<And>g. wait_queue g \<Longrightarrow> k_lists u' g = (if g = SemQ n
         then queue_insert (sem_prio (k_sem u n)) (th_prio u) t (k_lists u (SemQ n)) else k_lists u g)"
      by (rule sem_take_blocks [OF u(1,2) o tmo]) blast
    show ?thesis using u'(1,2) u'(3) [OF h] by (intro exI [of _ u']) (simp add: cancel_work_wait_def n)
  qed
  have "wkq_current (wkq_of s' q) = None" unfolding s'(2) by simp
  then show ?thesis using s'(1) wait by blast
qed

theorem workqueue_cancel_sync_blocks_witness:
  "\<exists>s'. workqueue_thread_done 0 k_sample = Some s' \<and> wkq_current (wkq_of s' 0) = None"
proof -
  have "k_current k_sample = Some 0" "wkq_sem (wkq_of k_sample 0) = 1" "sem_obj (k_sem k_sample 1)" "sem_value (k_sem k_sample 1) = 0"
    using sample_works(3) by (simp_all add: k_sample_def)
  then show ?thesis using workqueue_cancel_sync_blocks [OF kinv_sample] by blast
qed

end
