(* ===== verification/KString.thy ===== *)
theory KString
  imports Prelude
begin

text \<open>
  The memory and string functions of src/kservice.c.  The memory is an array of bytes that starts
  at an aligned address, and an address is an index into it; an access outside it is an error of
  the model.  A word has four bytes, and a plain char is unsigned, as on the processor of the board.
\<close>

type_synonym memory = "rt_uint8_t list"

section \<open>Filling and copying\<close>

fun memset_bytes :: "rt_uint8_t \<Rightarrow> nat \<Rightarrow> nat \<Rightarrow> memory \<Rightarrow> memory option" where
  "memset_bytes d a 0 m = Some m"
| "memset_bytes d a (Suc n) m = Option.bind (arr_set m a d) (memset_bytes d (a + 1) n)"

text \<open>Words of four bytes, four at a time and then one at a time; with the address and the rest.\<close>

fun memset_blocks :: "rt_uint8_t \<Rightarrow> nat \<Rightarrow> nat \<Rightarrow> memory \<Rightarrow> (nat \<times> nat \<times> memory) option" where
  "memset_blocks d a n m =
     (if n < 16 then Some (a, n, m)
      else do {
        m1 \<leftarrow> blit m a (replicate 4 d);
        m2 \<leftarrow> blit m1 (a + 4) (replicate 4 d);
        m3 \<leftarrow> blit m2 (a + 8) (replicate 4 d);
        m4 \<leftarrow> blit m3 (a + 12) (replicate 4 d);
        memset_blocks d (a + 16) (n - 16) m4
      })"

fun memset_words :: "rt_uint8_t \<Rightarrow> nat \<Rightarrow> nat \<Rightarrow> memory \<Rightarrow> (nat \<times> nat \<times> memory) option" where
  "memset_words d a n m =
     (if n < 4 then Some (a, n, m)
      else do {
        m1 \<leftarrow> blit m a (replicate 4 d);
        memset_words d (a + 4) (n - 4) m1
      })"

definition rt_memset :: "nat \<Rightarrow> int \<Rightarrow> nat \<Rightarrow> memory \<Rightarrow> memory option" where
  "rt_memset s c count m =
     (let d = word_of_int c in
      if \<not> count < 4 \<and> s mod 4 = 0
      then do {
        (a, n, m1) \<leftarrow> memset_blocks d s count m;
        (a, n, m2) \<leftarrow> memset_words d a n m1;
        memset_bytes d a n m2
      }
      else memset_bytes d s count m)"

definition copy_word :: "nat \<Rightarrow> nat \<Rightarrow> memory \<Rightarrow> memory option" where
  "copy_word d s m = Option.bind (fetch m s 4) (blit m d)"

fun memcpy_bytes :: "nat \<Rightarrow> nat \<Rightarrow> nat \<Rightarrow> memory \<Rightarrow> memory option" where
  "memcpy_bytes d s 0 m = Some m"
| "memcpy_bytes d s (Suc n) m = do {
     x \<leftarrow> arr_get m s;
     m1 \<leftarrow> arr_set m d x;
     memcpy_bytes (d + 1) (s + 1) n m1
   }"

fun memcpy_blocks :: "nat \<Rightarrow> nat \<Rightarrow> nat \<Rightarrow> memory \<Rightarrow> (nat \<times> nat \<times> nat \<times> memory) option" where
  "memcpy_blocks d s n m =
     (if n < 16 then Some (d, s, n, m)
      else do {
        m1 \<leftarrow> copy_word d s m;
        m2 \<leftarrow> copy_word (d + 4) (s + 4) m1;
        m3 \<leftarrow> copy_word (d + 8) (s + 8) m2;
        m4 \<leftarrow> copy_word (d + 12) (s + 12) m3;
        memcpy_blocks (d + 16) (s + 16) (n - 16) m4
      })"

fun memcpy_words :: "nat \<Rightarrow> nat \<Rightarrow> nat \<Rightarrow> memory \<Rightarrow> (nat \<times> nat \<times> nat \<times> memory) option" where
  "memcpy_words d s n m =
     (if n < 4 then Some (d, s, n, m)
      else do {
        m1 \<leftarrow> copy_word d s m;
        memcpy_words (d + 4) (s + 4) (n - 4) m1
      })"

definition rt_memcpy :: "nat \<Rightarrow> nat \<Rightarrow> nat \<Rightarrow> memory \<Rightarrow> memory option" where
  "rt_memcpy dst src count m =
     (if \<not> count < 16 \<and> src mod 4 = 0 \<and> dst mod 4 = 0
      then do {
        (d, s, n, m1) \<leftarrow> memcpy_blocks dst src count m;
        (d, s, n, m2) \<leftarrow> memcpy_words d s n m1;
        memcpy_bytes d s n m2
      }
      else memcpy_bytes dst src count m)"

text \<open>From the end; d and s are the beginnings.\<close>

fun memmove_back :: "nat \<Rightarrow> nat \<Rightarrow> nat \<Rightarrow> memory \<Rightarrow> memory option" where
  "memmove_back d s 0 m = Some m"
| "memmove_back d s (Suc n) m = do {
     x \<leftarrow> arr_get m (s + n);
     m1 \<leftarrow> arr_set m (d + n) x;
     memmove_back d s n m1
   }"

definition rt_memmove :: "nat \<Rightarrow> nat \<Rightarrow> nat \<Rightarrow> memory \<Rightarrow> memory option" where
  "rt_memmove dest src n m =
     (if src < dest \<and> dest < src + n then memmove_back dest src n m else memcpy_bytes dest src n m)"

fun rt_memcmp :: "nat \<Rightarrow> nat \<Rightarrow> nat \<Rightarrow> memory \<Rightarrow> int option" where
  "rt_memcmp cs ct 0 m = Some 0"
| "rt_memcmp cs ct (Suc n) m = do {
     x \<leftarrow> arr_get m cs;
     y \<leftarrow> arr_get m ct;
     if uint x - uint y \<noteq> 0 then Some (uint x - uint y) else rt_memcmp (cs + 1) (ct + 1) n m
   }"


section \<open>Strings\<close>

text \<open>The search for the end of a string; k counts the bytes.\<close>

partial_function (option) strlen_loop :: "memory \<Rightarrow> nat \<Rightarrow> nat \<Rightarrow> nat option" where
  "strlen_loop m s k = do {
     c \<leftarrow> arr_get m (s + k);
     if c \<noteq> 0 then strlen_loop m s (k + 1) else Some k
   }"

definition rt_strlen :: "nat \<Rightarrow> memory \<Rightarrow> nat option" where
  "rt_strlen s m = strlen_loop m s 0"

partial_function (option) strnlen_loop :: "memory \<Rightarrow> nat \<Rightarrow> nat \<Rightarrow> nat \<Rightarrow> nat option" where
  "strnlen_loop m s maxlen k = do {
     c \<leftarrow> arr_get m (s + k);
     if c \<noteq> 0 \<and> k < maxlen then strnlen_loop m s maxlen (k + 1) else Some k
   }"

definition rt_strnlen :: "nat \<Rightarrow> nat \<Rightarrow> memory \<Rightarrow> nat option" where
  "rt_strnlen s maxlen m = strnlen_loop m s maxlen 0"

partial_function (option) rt_strcmp :: "nat \<Rightarrow> nat \<Rightarrow> memory \<Rightarrow> int option" where
  "rt_strcmp cs ct m = do {
     x \<leftarrow> arr_get m cs;
     if x = 0 then map_option (\<lambda>y. uint x - uint y) (arr_get m ct)
     else do {
       y \<leftarrow> arr_get m ct;
       if x = y then rt_strcmp (cs + 1) (ct + 1) m else Some (uint x - uint y)
     }
   }"

text \<open>The difference is kept in a signed char.\<close>

fun rt_strncmp :: "nat \<Rightarrow> nat \<Rightarrow> nat \<Rightarrow> memory \<Rightarrow> int option" where
  "rt_strncmp cs ct 0 m = Some 0"
| "rt_strncmp cs ct (Suc n) m = do {
     x \<leftarrow> arr_get m cs;
     y \<leftarrow> arr_get m ct;
     if sint (x - y) \<noteq> 0 \<or> x = 0 then Some (sint (x - y)) else rt_strncmp (cs + 1) (ct + 1) n m
   }"

definition to_lower :: "rt_uint8_t \<Rightarrow> int" where
  "to_lower c = (if 65 \<le> uint c \<and> uint c \<le> 90 then uint c + 32 else uint c)"

partial_function (option) rt_strcasecmp :: "nat \<Rightarrow> nat \<Rightarrow> memory \<Rightarrow> int option" where
  "rt_strcasecmp a b m = do {
     x \<leftarrow> arr_get m a;
     y \<leftarrow> arr_get m b;
     if to_lower x = to_lower y \<and> to_lower x \<noteq> 0 then rt_strcasecmp (a + 1) (b + 1) m
     else Some (to_lower x - to_lower y)
   }"

partial_function (option) rt_strcpy :: "nat \<Rightarrow> nat \<Rightarrow> memory \<Rightarrow> memory option" where
  "rt_strcpy dst src m = do {
     c \<leftarrow> arr_get m src;
     if c \<noteq> 0 then Option.bind (arr_set m dst c) (rt_strcpy (dst + 1) (src + 1))
     else arr_set m dst 0
   }"

fun strncpy_loop :: "nat \<Rightarrow> nat \<Rightarrow> nat \<Rightarrow> memory \<Rightarrow> memory option" where
  "strncpy_loop d s 0 m = Some m"
| "strncpy_loop d s (Suc n) m = do {
     c \<leftarrow> arr_get m s;
     m1 \<leftarrow> arr_set m d c;
     if c = 0 then memset_bytes 0 (d + 1) n m1 else strncpy_loop (d + 1) (s + 1) n m1
   }"

definition rt_strncpy :: "nat \<Rightarrow> nat \<Rightarrow> nat \<Rightarrow> memory \<Rightarrow> memory option" where
  "rt_strncpy dst src n m = strncpy_loop dst src n m"

fun strstr_loop :: "nat \<Rightarrow> nat \<Rightarrow> nat \<Rightarrow> nat \<Rightarrow> memory \<Rightarrow> nat option option" where
  "strstr_loop s1 s2 l2 0 m = Some None"
| "strstr_loop s1 s2 l2 (Suc l1) m =
     (if Suc l1 < l2 then Some None
      else do {
        r \<leftarrow> rt_memcmp s1 s2 l2 m;
        if r = 0 then Some (Some s1) else strstr_loop (s1 + 1) s2 l2 l1 m
      })"

definition rt_strstr :: "nat \<Rightarrow> nat \<Rightarrow> memory \<Rightarrow> nat option option" where
  "rt_strstr s1 s2 m = do {
     l2 \<leftarrow> rt_strlen s2 m;
     if l2 = 0 then Some (Some s1)
     else do {
       l1 \<leftarrow> rt_strlen s1 m;
       strstr_loop s1 s2 l2 l1 m
     }
   }"


section \<open>Facts on runs of bytes\<close>

lemma blit_None: "length m < a \<Longrightarrow> blit m a xs = None"
  by (simp add: blit_def)

lemma blit_append: "Option.bind (blit m a xs) (\<lambda>m'. blit m' (a + length xs) ys) = blit m a (xs @ ys)"
proof (cases "a + length xs \<le> length m")
  case True
  then show ?thesis by (auto simp: blit_def ac_simps)
qed (simp add: blit_def)

lemma arr_set_blit: "arr_set m a x = blit m a [x]"
  by (simp add: arr_set_def blit_def upd_conv_take_nth_drop Suc_le_eq)

lemma blit_Nil [simp]: "blit m a [] = (if a \<le> length m then Some m else None)"
  by (simp add: blit_def)

text \<open>The run of a fill, whichever step is taken.\<close>

lemma blit_replicate:
  assumes "k \<le> n"
  shows "Option.bind (blit m a (replicate k d)) (\<lambda>m'. blit m' (a + k) (replicate (n - k) d))
    = blit m a (replicate n d)"
  using assms blit_append [of m a "replicate k d" "replicate (n - k) d"]
  by (simp flip: replicate_add)

lemma memset_bytes_ok: "a \<le> length m \<Longrightarrow> memset_bytes d a n m = blit m a (replicate n d)"
proof (induction n arbitrary: a m)
  case (Suc n)
  have "memset_bytes d a (Suc n) m = Option.bind (blit m a (replicate 1 d)) (memset_bytes d (a + 1) n)"
    by (simp add: arr_set_blit)
  also have "\<dots> = Option.bind (blit m a (replicate 1 d)) (\<lambda>m'. blit m' (a + 1) (replicate (Suc n - 1) d))"
    using Suc.IH by (auto simp: blit_def split: if_splits intro!: Option.bind_cong)
  finally show ?case using blit_replicate [of 1 "Suc n" m a d] by simp
qed simp

declare memset_blocks.simps [simp del] memset_words.simps [simp del]
  memcpy_blocks.simps [simp del] memcpy_words.simps [simp del]

text \<open>Both loops can be cut anywhere.\<close>

lemma memset_bytes_add:
  "memset_bytes d a (j + k) m = Option.bind (memset_bytes d a j m) (memset_bytes d (a + j) k)"
  by (induction j arbitrary: a m) (auto intro!: Option.bind_cong)

lemma memcpy_bytes_add:
  "memcpy_bytes d s (j + k) m = Option.bind (memcpy_bytes d s j m) (memcpy_bytes (d + j) (s + j) k)"
  by (induction j arbitrary: d s m) (auto intro!: Option.bind_cong)

lemma memset_bytes_split:
  "k \<le> n \<Longrightarrow> memset_bytes d a n m = Option.bind (memset_bytes d a k m) (memset_bytes d (a + k) (n - k))"
  using memset_bytes_add [of d a k "n - k" m] by simp

lemma memcpy_bytes_split:
  "k \<le> n \<Longrightarrow> memcpy_bytes d s n m =
     Option.bind (memcpy_bytes d s k m) (memcpy_bytes (d + k) (s + k) (n - k))"
  using memcpy_bytes_add [of d s k "n - k" m] by simp

lemma memset_word: "blit m a (replicate 4 d) = memset_bytes d a 4 m"
proof (cases "a \<le> length m")
  case False
  then show ?thesis by (simp add: blit_None arr_set_def eval_nat_numeral)
qed (simp add: memset_bytes_ok)

lemma memset_words_bytes:
  "Option.bind (memset_words d a n m) (\<lambda>(a, n, m). memset_bytes d a n m) = memset_bytes d a n m"
proof (induction d a n m rule: memset_words.induct)
  case (1 d a n m)
  then show ?case
    by (subst memset_words.simps)
      (auto simp: memset_word memset_bytes_split [of 4 n] intro!: Option.bind_cong)
qed

lemma memset_blocks_bytes:
  "Option.bind (memset_blocks d a n m) (\<lambda>(a, n, m). memset_bytes d a n m) = memset_bytes d a n m"
proof (induction d a n m rule: memset_blocks.induct)
  case (1 d a n m)
  have 16: "memset_bytes d a 16 m = do { m1 \<leftarrow> memset_bytes d a 4 m; m2 \<leftarrow> memset_bytes d (a + 4) 4 m1;
      m3 \<leftarrow> memset_bytes d (a + 8) 4 m2; memset_bytes d (a + 12) 4 m3 }" for a m
    using memset_bytes_add [of d a 4 12 m] memset_bytes_add [of d _ 4 8] memset_bytes_add [of d _ 4 4]
    by (auto simp: add.commute intro!: Option.bind_cong)
  show ?case
    using 1 by (subst memset_blocks.simps)
      (auto simp: memset_word memset_bytes_split [of 16 n] 16 intro!: Option.bind_cong)
qed

text \<open>A copy of bytes whose destination does not run into the source to come.\<close>

lemma memcpy_bytes_None:
  "0 < n \<Longrightarrow> length m < s + n \<or> length m < d + n \<Longrightarrow> memcpy_bytes d s n m = None"
proof (induction n arbitrary: d s m)
  case (Suc n)
  then show ?case by (cases "n = 0") (auto simp: arr_get_def arr_set_def)
qed simp

lemma memcpy_bytes_nth:
  assumes "d \<le> s \<or> s + n \<le> d" "s + n \<le> length m" "d + n \<le> length m"
  shows "\<exists>m'. memcpy_bytes d s n m = Some m' \<and> length m' = length m
    \<and> (\<forall>i < length m. m' ! i = (if d \<le> i \<and> i < d + n then m ! (s + i - d) else m ! i))"
  using assms
proof (induction n arbitrary: d s m)
  case (Suc n)
  let ?m = "m[d := m ! s]"
  have "d + 1 \<le> s + 1 \<or> s + 1 + n \<le> d + 1" "s + 1 + n \<le> length ?m" "d + 1 + n \<le> length ?m"
    using Suc.prems by auto
  from Suc.IH [OF this] obtain m' where m': "memcpy_bytes (d + 1) (s + 1) n ?m = Some m'"
      "length m' = length m"
      "\<forall>i < length m. m' ! i = (if d + 1 \<le> i \<and> i < d + 1 + n then ?m ! (s + 1 + i - (d + 1)) else ?m ! i)"
    by auto
  have "m' ! i = (if d \<le> i \<and> i < d + Suc n then m ! (s + i - d) else m ! i)" if "i < length m" for i
    using that m'(3) Suc.prems by (auto simp: nth_list_update Suc_diff_le)
  then show ?case using Suc.prems m'(1,2) by (auto simp: arr_get_def arr_set_def)
qed (simp, metis not_le)

lemma copy_run_eqI:
  assumes "s + n \<le> length m" "d + n \<le> length m" "length m' = length m"
    "\<forall>i < length m. m' ! i = (if d \<le> i \<and> i < d + n then m ! (s + i - d) else m ! i)"
  shows "Some m' = blit m d (take n (drop s m))"
  using assms by (auto simp: blit_def nth_append min_def intro!: nth_equalityI)

lemma memcpy_bytes_ok:
  assumes "d \<le> s \<or> s + n \<le> d" "s + n \<le> length m" "d + n \<le> length m"
  shows "memcpy_bytes d s n m = blit m d (take n (drop s m))"
  using memcpy_bytes_nth [OF assms] copy_run_eqI [OF assms(2,3)] by force

lemma memcpy_word:
  assumes "s mod 4 = 0" "d mod 4 = 0"
  shows "copy_word d s m = memcpy_bytes d s 4 m"
proof (cases "s + 4 \<le> length m \<and> d + 4 \<le> length m")
  case True
  have "d \<le> s \<or> s + 4 \<le> d" using assms by presburger
  then show ?thesis using True by (simp add: copy_word_def fetch_def memcpy_bytes_ok)
next
  case False
  then have "memcpy_bytes d s 4 m = None" by (intro memcpy_bytes_None) auto
  then show ?thesis using False by (auto simp: copy_word_def fetch_def blit_def)
qed

lemma memcpy_words_bytes:
  "s mod 4 = 0 \<Longrightarrow> d mod 4 = 0 \<Longrightarrow>
   Option.bind (memcpy_words d s n m) (\<lambda>(d, s, n, m). memcpy_bytes d s n m) = memcpy_bytes d s n m"
proof (induction d s n m rule: memcpy_words.induct)
  case (1 d s n m)
  then show ?case
    by (subst memcpy_words.simps)
      (auto simp: memcpy_word memcpy_bytes_split [of 4 n] intro!: Option.bind_cong)
qed

lemma memcpy_bytes_16:
  "memcpy_bytes d s 16 m = do { m1 \<leftarrow> memcpy_bytes d s 4 m; m2 \<leftarrow> memcpy_bytes (d + 4) (s + 4) 4 m1;
     m3 \<leftarrow> memcpy_bytes (d + 8) (s + 8) 4 m2; memcpy_bytes (d + 12) (s + 12) 4 m3 }"
  using memcpy_bytes_add [of d s 4 12 m] memcpy_bytes_add [of _ _ 4 8] memcpy_bytes_add [of _ _ 4 4]
  by (auto simp: add.commute intro!: Option.bind_cong)

lemma memcpy_blocks_bytes:
  "s mod 4 = 0 \<Longrightarrow> d mod 4 = 0 \<Longrightarrow>
   Option.bind (memcpy_blocks d s n m) (\<lambda>(d, s, n, m). memcpy_bytes d s n m) = memcpy_bytes d s n m"
proof (induction d s n m rule: memcpy_blocks.induct)
  case (1 d s n m)
  have al: "(s + 8) mod 4 = 0" "(d + 8) mod 4 = 0" "(s + 12) mod 4 = 0" "(d + 12) mod 4 = 0"
      "(s + 16) mod 4 = 0" "(d + 16) mod 4 = 0"
    using 1(2,3) by presburger+
  show ?case
    using 1 al by (subst memcpy_blocks.simps)
      (auto simp: memcpy_word memcpy_bytes_split [of 16 n] memcpy_bytes_16 intro!: Option.bind_cong)
qed

text \<open>What the block loops leave is still aligned, so that the word loops may follow.\<close>

lemma memcpy_blocks_aligned:
  "memcpy_blocks d s n m = Some (d', s', n', m') \<Longrightarrow> s mod 4 = 0 \<Longrightarrow> d mod 4 = 0 \<Longrightarrow>
   s' mod 4 = 0 \<and> d' mod 4 = 0"
proof (induction d s n m rule: memcpy_blocks.induct)
  case (1 d s n m)
  have al: "(s + 16) mod 4 = 0" "(d + 16) mod 4 = 0"
    using 1(3,4) by presburger+
  show ?case
    using 1 al by (subst (asm) (2) memcpy_blocks.simps) (auto simp: bind_Some_iff split: if_splits)
qed

text \<open>
  Rt_memset fills word by word when the address is aligned and the count is at least a word;
  for every address, value and count it does what the loop over single bytes does, accesses
  outside the memory included.
\<close>

theorem memset_is_byte_loop: "rt_memset s c n m = memset_bytes (word_of_int c) s n m"
proof -
  have "Option.bind (memset_blocks d s n m) (\<lambda>(a, n, m).
      Option.bind (memset_words d a n m) (\<lambda>(a, n, m). memset_bytes d a n m)) = memset_bytes d s n m" for d
    by (subst memset_words_bytes) (simp add: memset_blocks_bytes)
  then show ?thesis by (simp add: rt_memset_def Let_def)
qed

text \<open>
  C31: rt_memcpy copies word by word when both addresses are aligned and the count is at least four
  words; for every pair of addresses and every count, overlapping regions and accesses outside the
  memory included, it does what the loop over single bytes does.
\<close>

theorem memcpy_is_byte_loop: "rt_memcpy d s n m = memcpy_bytes d s n m"
proof (cases "\<not> n < 16 \<and> s mod 4 = 0 \<and> d mod 4 = 0")
  case True
  have "rt_memcpy d s n m = Option.bind (memcpy_blocks d s n m) (\<lambda>(d, s, n, m).
      Option.bind (memcpy_words d s n m) (\<lambda>(d, s, n, m). memcpy_bytes d s n m))"
    using True by (simp add: rt_memcpy_def)
  also have "\<dots> = Option.bind (memcpy_blocks d s n m) (\<lambda>(d, s, n, m). memcpy_bytes d s n m)"
    using True memcpy_blocks_aligned [of d s n m]
    by (intro Option.bind_cong) (auto simp: memcpy_words_bytes)
  finally show ?thesis using True by (simp add: memcpy_blocks_bytes)
qed (auto simp: rt_memcpy_def)

lemma memmove_back_nth:
  assumes "s \<le> d" "d + n \<le> length m"
  shows "\<exists>m'. memmove_back d s n m = Some m' \<and> length m' = length m
    \<and> (\<forall>i < length m. m' ! i = (if d \<le> i \<and> i < d + n then m ! (s + i - d) else m ! i))"
  using assms
proof (induction n arbitrary: m)
  case (Suc n)
  let ?m = "m[d + n := m ! (s + n)]"
  have "d + n \<le> length ?m" using Suc.prems by simp
  from Suc.IH [OF Suc.prems(1) this] obtain m' where m': "memmove_back d s n ?m = Some m'"
      "length m' = length m"
      "\<forall>i < length m. m' ! i = (if d \<le> i \<and> i < d + n then ?m ! (s + i - d) else ?m ! i)"
    by auto
  have "m' ! i = (if d \<le> i \<and> i < d + Suc n then m ! (s + i - d) else m ! i)" if "i < length m" for i
  proof (cases "i = d + n")
    case True
    then show ?thesis using that m'(3) by simp
  next
    case False
    then show ?thesis using that m'(3) Suc.prems(1) by (auto simp: nth_list_update)
  qed
  then show ?case using Suc.prems m'(1,2) by (auto simp: arr_get_def arr_set_def)
qed (simp, metis not_le)

text \<open>
  Rt_memmove leaves at the destination what the source held before the call, however the two
  regions overlap, and changes nothing else.
\<close>

theorem memmove_copies_overlapping:
  assumes "s + n \<le> length m" "d + n \<le> length m"
  shows "rt_memmove d s n m = blit m d (take n (drop s m))"
proof (cases "s < d \<and> d < s + n")
  case True
  then have "\<exists>m'. memmove_back d s n m = Some m' \<and> length m' = length m
      \<and> (\<forall>i < length m. m' ! i = (if d \<le> i \<and> i < d + n then m ! (s + i - d) else m ! i))"
    using assms by (intro memmove_back_nth) auto
  then show ?thesis using True copy_run_eqI [OF assms] by (force simp: rt_memmove_def)
next
  case False
  then have "d \<le> s \<or> s + n \<le> d" by auto
  then show ?thesis using False assms memcpy_bytes_ok by (auto simp: rt_memmove_def)
qed

theorem memmove_copies_overlapping_witness:
  "rt_memmove 1 0 3 [1, 2, 3, 4, 5] = Some [1, 1, 2, 3, 5]"
  using memmove_copies_overlapping [of 0 3 "[1, 2, 3, 4, 5]" 1]
  by (simp add: blit_def eval_nat_numeral)

text \<open>rt_memcmp is 0 exactly when the two runs of bytes are the same.\<close>

lemma memcmp_zero_iff:
  assumes "a + n \<le> length m" "b + n \<le> length m"
  shows "\<exists>r. rt_memcmp a b n m = Some r \<and> (r = 0 \<longleftrightarrow> take n (drop a m) = take n (drop b m))"
  using assms
proof (induction n arbitrary: a b)
  case (Suc n)
  have "drop a m = m ! a # drop (a + 1) m" "drop b m = m ! b # drop (b + 1) m"
    using Suc.prems by (auto simp: Cons_nth_drop_Suc)
  then show ?case using Suc.IH [of "a + 1" "b + 1"] Suc.prems
    by (auto simp: arr_get_def word_uint_eq_iff)
qed simp


section \<open>What the string functions compute\<close>

text \<open>The string xs stands at address a of the memory.\<close>

fun cstr :: "memory \<Rightarrow> nat \<Rightarrow> rt_uint8_t list \<Rightarrow> bool" where
  "cstr m a [] = (arr_get m a = Some 0)"
| "cstr m a (x # xs) = (arr_get m a = Some x \<and> x \<noteq> 0 \<and> cstr m (a + 1) xs)"

lemma cstr_take: "cstr m a xs \<Longrightarrow> k \<le> length xs \<Longrightarrow> take k (drop a m) = take k xs"
proof (induction xs arbitrary: a k)
  case (Cons x xs)
  then have "drop a m = x # drop (a + 1) m" by (auto simp: arr_get_def Cons_nth_drop_Suc split: if_splits)
  then show ?case using Cons by (cases k) auto
qed simp

lemma cstr_length: "cstr m a xs \<Longrightarrow> a + length xs < length m"
proof (induction xs arbitrary: a)
  case (Cons x xs)
  then show ?case using Cons.IH [of "a + 1"] by simp
qed (simp add: arr_get_def split: if_splits)

lemma cstr_drop: "cstr m a xs \<Longrightarrow> k \<le> length xs \<Longrightarrow> cstr m (a + k) (drop k xs)"
proof (induction xs arbitrary: a k)
  case (Cons x xs)
  then show ?case using Cons.IH [of "a + 1" "k - 1"] by (cases k) auto
qed simp

lemma strlen_loop_ok: "cstr m (s + k) xs \<Longrightarrow> strlen_loop m s k = Some (k + length xs)"
  by (induction xs arbitrary: k) (subst strlen_loop.simps, simp)+

lemma strlen_ok: "cstr m s xs \<Longrightarrow> rt_strlen s m = Some (length xs)"
  using strlen_loop_ok [of m s 0 xs] by (simp add: rt_strlen_def)

lemma strnlen_loop_ok:
  "cstr m (s + k) xs \<Longrightarrow> strnlen_loop m s n k = Some (if n \<le> k then k else min n (k + length xs))"
  by (induction xs arbitrary: k) (subst strnlen_loop.simps, simp add: min_def)+

text \<open>rt_strnlen is the length of the string, the limit at most.\<close>

lemma strnlen_ok: "cstr m s xs \<Longrightarrow> rt_strnlen s n m = Some (min n (length xs))"
  using strnlen_loop_ok [of m s 0 xs n] by (simp add: rt_strnlen_def)

text \<open>
  rt_strnlen reads the byte behind the limit before it looks at the limit: a run of bytes that
  fills the memory to its end and holds no terminator makes it read outside, although its comment
  says it looks only at the first maxlen characters.
\<close>

lemma strnlen_reads_past_limit:
  assumes "\<forall>i < n. m ! (s + i) \<noteq> 0" "s + n = length m"
  shows "rt_strnlen s n m = None"
proof -
  have "strnlen_loop m s n k = None" if "k \<le> n" for k
    using that
  proof (induction "n - k" arbitrary: k)
    case 0
    then show ?case using assms(2) by (subst strnlen_loop.simps) (simp add: arr_get_def)
  next
    case (Suc j)
    then have "k < n" "strnlen_loop m s n (Suc k) = None" by auto
    then show ?case using assms by (subst strnlen_loop.simps) (simp add: arr_get_def)
  qed
  then show ?thesis by (simp add: rt_strnlen_def)
qed

lemma strnlen_reads_past_limit_witness: "rt_strnlen 1 2 [0, 1, 1] = None"
  using strnlen_reads_past_limit [of 2 "[0, 1, 1]" 1] by (simp add: less_Suc_eq numeral_2_eq_2)

section \<open>Comparisons\<close>

text \<open>The order of the unsigned bytes, from the first difference on.\<close>

fun bytes_less :: "rt_uint8_t list \<Rightarrow> rt_uint8_t list \<Rightarrow> bool" where
  "bytes_less xs [] = False"
| "bytes_less [] (y # ys) = True"
| "bytes_less (x # xs) (y # ys) = (x < y \<or> x = y \<and> bytes_less xs ys)"

lemma uint_diff_0: "(uint x - uint y = 0) = (x = y)" for x y :: rt_uint8_t
  by (simp add: word_uint_eq_iff)

lemma uint_diff_neg: "(uint x - uint y < 0) = (x < y)" for x y :: rt_uint8_t
  by (simp add: word_less_def)

text \<open>
  Rt_strcmp returns for two strings of any bytes; the result is 0 exactly when they are the
  same string and negative exactly when the first is smaller in the lexicographic order of
  unsigned bytes.
\<close>

theorem strcmp_is_lexicographic:
  assumes "cstr m a xs" "cstr m b ys"
  shows "\<exists>r. rt_strcmp a b m = Some r \<and> (r = 0 \<longleftrightarrow> xs = ys) \<and> (r < 0 \<longleftrightarrow> bytes_less xs ys)"
  using assms
proof (induction xs ys arbitrary: a b rule: bytes_less.induct)
  case (1 xs)
  then show ?case by (cases xs) (auto simp: rt_strcmp.simps [of a b] word_uint_eq_iff)
next
  case (2 y ys)
  then show ?case
    by (auto simp: rt_strcmp.simps [of a b] word_uint_eq_iff word_less_def order_neq_le_trans [OF _ uint_ge_0])
next
  case (3 x xs y ys)
  show ?case
  proof (cases "x = y")
    case True
    then show ?thesis using 3 by (auto simp: rt_strcmp.simps [of a b])
  next
    case False
    then show ?thesis using 3 by (simp add: rt_strcmp.simps [of a b] word_uint_eq_iff word_less_def)
  qed
qed

theorem strcmp_is_lexicographic_witness:
  "\<exists>r. rt_strcmp 0 3 [97, 98, 0, 97, 200, 0] = Some r \<and> (r = 0 \<longleftrightarrow> [97, 98] = [97, 200 :: rt_uint8_t])
     \<and> (r < 0 \<longleftrightarrow> bytes_less [97, 98] [97, 200])"
  by (rule strcmp_is_lexicographic) (simp_all add: arr_get_def)

lemma sint_diff_ascii:
  fixes x y :: rt_uint8_t
  assumes "x < 128" "y < 128"
  shows "sint (x - y) = uint x - uint y"
proof -
  have "uint x < 128" "uint y < 128"
    using assms by (simp_all add: word_less_def)
  then have "- 128 \<le> uint x - uint y" "uint x - uint y < 128"
    using uint_ge_0 [of x] uint_ge_0 [of y] by linarith+
  then have "signed_take_bit 7 (uint x - uint y) = uint x - uint y"
    by (intro signed_take_bit_int_eq_self) auto
  moreover have "(uint x - uint y) mod 256 = take_bit 8 (uint x - uint y)"
    by (simp add: take_bit_eq_mod)
  ultimately show ?thesis by (simp add: sint_uint uint_word_ariths(2) signed_take_bit_take_bit)
qed

lemma sint_ascii: "x < 128 \<Longrightarrow> sint x = uint x" for x :: rt_uint8_t
  using sint_diff_ascii [of x 0] by simp

lemma sint_minus_ascii: "x < 128 \<Longrightarrow> sint (- x) = - uint x" for x :: rt_uint8_t
  using sint_diff_ascii [of 0 x] by simp

text \<open>
  Rt_strncmp on two strings of ASCII characters compares their beginnings of at most the given
  length: 0 exactly when these are the same, negative exactly when the first is smaller.
\<close>

theorem strncmp_ascii:
  assumes "cstr m a xs" "cstr m b ys" "\<forall>c \<in> set xs \<union> set ys. c < 128"
  shows "\<exists>r. rt_strncmp a b n m = Some r \<and> (r = 0 \<longleftrightarrow> take n xs = take n ys)
    \<and> (r < 0 \<longleftrightarrow> bytes_less (take n xs) (take n ys))"
  using assms
proof (induction xs ys arbitrary: a b n rule: bytes_less.induct)
  case (1 xs)
  then show ?case by (cases n; cases xs) (auto simp: sint_ascii word_uint_eq_iff)
next
  case (2 y ys)
  then show ?case by (cases n) (auto simp: sint_minus_ascii word_uint_eq_iff order_neq_le_trans [OF _ uint_ge_0])
next
  case (3 x xs y ys)
  show ?case
  proof (cases n)
    case (Suc k)
    show ?thesis
    proof (cases "x = y")
      case True
      then show ?thesis using 3 Suc by auto
    next
      case False
      then show ?thesis using 3 Suc
        by (simp add: sint_diff_ascii word_uint_eq_iff word_less_def)
    qed
  qed simp
qed

theorem strncmp_ascii_witness:
  "\<exists>r. rt_strncmp 0 4 2 [97, 98, 99, 0, 97, 98, 100, 0] = Some r
     \<and> (r = 0 \<longleftrightarrow> take 2 [97, 98, 99] = take 2 [97, 98, 100 :: rt_uint8_t])
     \<and> (r < 0 \<longleftrightarrow> bytes_less (take 2 [97, 98, 99]) (take 2 [97, 98, 100]))"
  by (rule strncmp_ascii) (simp_all add: arr_get_def)

text \<open>
  rt_strncmp keeps the difference in a signed char: for two bytes more than half of the range apart
  the sign is the opposite of that of rt_strcmp.
\<close>

lemma strncmp_sign_wraps:
  fixes x y :: rt_uint8_t
  assumes "uint y - uint x > 128" "arr_get m a = Some x" "arr_get m b = Some y"
  shows "\<exists>r. rt_strncmp a b (Suc n) m = Some r \<and> 0 < r"
proof -
  let ?d = "uint x - uint y"
  have b: "0 \<le> ?d + 256" "?d + 256 < 128"
    using assms(1) uint_ge_0 [of x] uint_bounded [of y] by (simp_all, linarith)
  have "sint (x - y) = signed_take_bit 7 (take_bit 8 ?d)"
    by (simp add: sint_uint uint_word_ariths(2) take_bit_eq_mod)
  also have "take_bit 8 ?d = (?d + 256) mod 256"
    by (simp add: take_bit_eq_mod)
  also have "\<dots> = ?d + 256"
    using b by (intro mod_pos_pos_trivial) auto
  also have "signed_take_bit 7 (?d + 256) = ?d + 256"
    using b by (intro signed_take_bit_int_eq_self) auto
  finally have "0 < sint (x - y)"
    using b assms(1) uint_bounded [of y] uint_ge_0 [of x] by (simp, linarith)
  then show ?thesis using assms by auto
qed

lemma strcasecmp_folds_case:
  "cstr m a xs \<Longrightarrow> cstr m b ys \<Longrightarrow>
   \<exists>r. rt_strcasecmp a b m = Some r \<and> (r = 0 \<longleftrightarrow> map to_lower xs = map to_lower ys)"
proof (induction xs ys arbitrary: a b rule: bytes_less.induct)
  case (1 xs)
  then show ?case
    by (cases xs) (auto simp: rt_strcasecmp.simps [of a b] to_lower_def word_uint_eq_iff)
next
  case (2 y ys)
  then show ?case by (auto simp: rt_strcasecmp.simps [of a b] to_lower_def word_uint_eq_iff)
next
  case (3 x xs y ys)
  then have "to_lower x \<noteq> 0" by (auto simp: to_lower_def word_uint_eq_iff)
  with 3 show ?case by (cases "to_lower x = to_lower y") (auto simp: rt_strcasecmp.simps [of a b])
qed

section \<open>Copies and the search\<close>

lemma strcpy_byte:
  "arr_get m src = Some c \<Longrightarrow> c \<noteq> 0 \<Longrightarrow>
   rt_strcpy dst src m = Option.bind (arr_set m dst c) (rt_strcpy (dst + 1) (src + 1))"
  by (subst rt_strcpy.simps) simp

lemma cstr_upd:
  "cstr m a xs \<Longrightarrow> k < a \<or> a + length xs < k \<Longrightarrow> cstr (m[k := x]) a xs"
  by (induction xs arbitrary: a) (auto simp: arr_get_def nth_list_update split: if_splits)

lemma blit_Cons: "Option.bind (arr_set m a x) (\<lambda>m'. blit m' (a + 1) xs) = blit m a (x # xs)"
  using blit_append [of m a "[x]" xs] by (simp add: arr_set_blit)

text \<open>
  rt_strcpy copies the string and its terminator and nothing else, when the destination has room
  and does not start inside the source.
\<close>

lemma strcpy_ok:
  "cstr m s xs \<Longrightarrow> d \<le> s \<or> s + length xs < d \<Longrightarrow> d \<le> length m \<Longrightarrow> rt_strcpy d s m = blit m d (xs @ [0])"
proof (induction xs arbitrary: d s m)
  case Nil
  then show ?case by (subst rt_strcpy.simps) (simp add: arr_set_blit)
next
  case (Cons x xs)
  have "cstr (m[d := x]) (s + 1) xs" using Cons.prems(1,2) by (intro cstr_upd) auto
  then have "rt_strcpy (d + 1) (s + 1) (m[d := x]) = blit (m[d := x]) (d + 1) (xs @ [0])" if "d < length m"
    using Cons.prems(2) that by (intro Cons.IH) auto
  then have "Option.bind (arr_set m d x) (rt_strcpy (d + 1) (s + 1))
      = Option.bind (arr_set m d x) (\<lambda>m'. blit m' (d + 1) (xs @ [0]))"
    by (simp add: arr_set_def)
  then show ?case using Cons.prems(1) blit_Cons [of m d x "xs @ [0]"] by (simp add: strcpy_byte)
qed

text \<open>
  Rt_strncpy writes exactly n bytes: the first n of the string, and zeros behind it when it is
  shorter; a string of n bytes or more is left without a terminator.
\<close>

theorem strncpy_pads:
  assumes "cstr m s xs" "d \<le> s \<or> s + length xs < d" "d \<le> length m"
  shows "rt_strncpy d s n m = blit m d (take n (xs @ replicate n 0))"
  using assms unfolding rt_strncpy_def
proof (induction xs arbitrary: d s m n)
  case Nil
  then show ?case
    using blit_Cons [of m d 0 "replicate (n - 1) 0"]
    by (cases n) (auto simp: arr_set_def memset_bytes_ok)
next
  case (Cons x xs)
  show ?case
  proof (cases n)
    case 0
    then show ?thesis using Cons.prems by simp
  next
    case (Suc k)
    have "cstr (m[d := x]) (s + 1) xs" using Cons.prems(1,2) by (intro cstr_upd) auto
    then have "strncpy_loop (d + 1) (s + 1) k (m[d := x]) = blit (m[d := x]) (d + 1) (take k (xs @ replicate k 0))"
      if "d < length m"
      using Cons.prems(2) that by (intro Cons.IH) auto
    moreover have "take n ((x # xs) @ replicate n 0) = x # take k (xs @ replicate k 0)"
      using Suc by (cases "k - length xs") (auto simp: min_def)
    ultimately show ?thesis
      using Cons.prems(1) Suc blit_Cons [of m d x "take k (xs @ replicate k 0)"]
      by (simp add: arr_set_def del: take_append split: if_splits)
  qed
qed

theorem strncpy_pads_witness:
  "rt_strncpy 3 0 3 [97, 98, 0, 1, 1, 1, 1, 1] = Some [97, 98, 0, 97, 98, 0, 1, 1]"
  using strncpy_pads [of "[97, 98, 0, 1, 1, 1, 1, 1]" 0 "[97, 98]" 3 3]
  by (simp add: arr_get_def blit_def)

lemma memcmp_at:
  assumes "cstr m a xs" "cstr m b ys" "length ys \<le> length xs"
  shows "\<exists>r. rt_memcmp a b (length ys) m = Some r \<and> (r = 0 \<longleftrightarrow> take (length ys) xs = ys)"
  using memcmp_zero_iff [of a "length ys" m b] cstr_take [OF assms(1,3)] cstr_take [OF assms(2)]
    cstr_length [OF assms(1)] cstr_length [OF assms(2)] assms(3) by simp

lemma find_upt_Suc: "i < j \<Longrightarrow> find P [i..<j] = (if P i then Some i else find P [Suc i..<j])"
  by (simp add: upt_rec [of i])

lemma strstr_loop_ok:
  assumes "cstr m a xs" "cstr m b ys" "ys \<noteq> []"
  shows "i \<le> length xs \<Longrightarrow> strstr_loop (a + i) b (length ys) (length xs - i) m
    = Some (map_option ((+) a) (find (\<lambda>i. take (length ys) (drop i xs) = ys) [i..<Suc (length xs)]))"
proof (induction "length xs - i" arbitrary: i)
  case 0
  then show ?case using assms(3) by simp
next
  case (Suc k)
  let ?P = "\<lambda>i. take (length ys) (drop i xs) = ys"
  have i: "i < length xs" "length xs - i = Suc k" using Suc by auto
  have up: "find ?P [i..<Suc (length xs)] = (if ?P i then Some i else find ?P [Suc i..<Suc (length xs)])"
    using i(1) by (intro find_upt_Suc) simp
  show ?case
  proof (cases "Suc k < length ys")
    case True
    have "\<not> ?P j" if "i \<le> j" for j
    proof
      assume "?P j"
      then have "length (take (length ys) (drop j xs)) = length ys" by simp
      then show False using True i that by simp
    qed
    then have "find ?P [i..<Suc (length xs)] = None" by (auto simp: find_None_iff)
    then show ?thesis using True i by simp
  next
    case False
    then obtain r where "rt_memcmp (a + i) b (length ys) m = Some r" "r = 0 \<longleftrightarrow> ?P i"
      using memcmp_at [OF cstr_drop [OF assms(1), of i] assms(2)] i by auto
    moreover have "strstr_loop (a + Suc i) b (length ys) k m
        = Some (map_option ((+) a) (find ?P [Suc i..<Suc (length xs)]))"
      using Suc(1) [of "Suc i"] i(1) Suc_diff_Suc [OF i(1)] i(2) by (simp del: upt_Suc)
    ultimately show ?thesis using False i up by (simp del: upt_Suc)
  qed
qed

text \<open>
  Rt_strstr returns the first place where the second string occurs in the first, the beginning
  for an empty one and NULL when it does not occur, and reads nothing outside the two strings.
\<close>

theorem strstr_finds_first:
  assumes "cstr m a xs" "cstr m b ys"
  shows "rt_strstr a b m
    = Some (map_option ((+) a) (find (\<lambda>i. take (length ys) (drop i xs) = ys) [0..<Suc (length xs)]))"
proof (cases "ys = []")
  case True
  then show ?thesis using strlen_ok [OF assms(2)] by (simp add: rt_strstr_def upt_rec)
next
  case False
  then show ?thesis
    using strstr_loop_ok [OF assms False, of 0] strlen_ok [OF assms(1)] strlen_ok [OF assms(2)]
    by (simp add: rt_strstr_def)
qed

theorem strstr_finds_first_witness:
  "rt_strstr 0 5 [97, 98, 99, 98, 0, 98, 0] = Some (Some 1)"
  using strstr_finds_first [of "[97, 98, 99, 98, 0, 98, 0]" 0 "[97, 98, 99, 98]" 5 "[98]"]
  by (simp add: arr_get_def upt_rec)

end
