(* ===== verification/Memheap.thy ===== *)
theory Memheap
  imports Mem RtList Mutex
begin

text \<open>
  The memory heap objects, src/memheap.c: a heap over a separate memory region.  The blocks are
  linked in a circle in address order, from the first block to an empty used block at the end of
  the region; the free blocks are linked in a second circle through the header \<^verbatim>\<open>free_header\<close> of the
  object.  Both circles are the circular lists of RtList.  Addresses are natural numbers; the region
  lies in the 32-bit address space, so that no sum or difference of its addresses wraps while the
  invariant holds.  Sizes passed by the caller are machine words, because their alignment can wrap.
  The owner's name stored in each header is left out.

  Each function works under the semaphore of the heap, unless the heap is marked as locked from
  outside.  What a function does between taking and releasing it is one definition
  (\<^verbatim>\<open>memheap_..._section\<close>) on the heap alone, and \<^verbatim>\<open>memheap_locked\<close> puts the semaphore around it.
\<close>

section \<open>Operations\<close>

abbreviation RT_MEMHEAP_MAGIC :: rt_uint32_t where "RT_MEMHEAP_MAGIC \<equiv> 0x1ea01ea0"
abbreviation RT_MEMHEAP_MASK :: rt_uint32_t where "RT_MEMHEAP_MASK \<equiv> 0xFFFFFFFE"
abbreviation RT_MEMHEAP_USED :: rt_uint32_t where "RT_MEMHEAP_USED \<equiv> 0x01"
abbreviation RT_MEMHEAP_FREED :: rt_uint32_t where "RT_MEMHEAP_FREED \<equiv> 0x00"
abbreviation RT_MEMHEAP_MINIALLOC :: nat where "RT_MEMHEAP_MINIALLOC \<equiv> 12"
abbreviation RT_MEMHEAP_SIZE :: nat where "RT_MEMHEAP_SIZE \<equiv> 28"

text \<open>The fields of the headers are maps from their addresses; address 0 is NULL.\<close>

record rt_memheap =
  mh_obj :: bool
  mh_system :: bool
  mh_addr :: nat                  \<comment> \<open>the address of the object itself\<close>
  mh_start_addr :: nat
  mh_pool_size :: nat
  mh_available_size :: nat
  mh_max_used_size :: nat
  mh_block_list :: nat
  mh_free_list :: nat             \<comment> \<open>the address of \<^verbatim>\<open>free_header\<close>\<close>
  mh_lock :: nat                  \<comment> \<open>its semaphore\<close>
  mh_locked :: bool
  mh_magic :: "nat \<Rightarrow> rt_uint32_t"
  mh_pool_ptr :: "nat \<Rightarrow> nat"
  mh_blk :: list_mem              \<comment> \<open>\<^verbatim>\<open>next\<close> and \<^verbatim>\<open>prev\<close>\<close>
  mh_free :: list_mem             \<comment> \<open>\<^verbatim>\<open>next_free\<close> and \<^verbatim>\<open>prev_free\<close>\<close>
  mh_data :: "nat \<Rightarrow> rt_uint8_t"

definition RT_MEMHEAP_IS_USED :: "rt_memheap \<Rightarrow> nat \<Rightarrow> bool" where
  "RT_MEMHEAP_IS_USED h p \<longleftrightarrow> mh_magic h p AND RT_MEMHEAP_USED \<noteq> 0"

definition MEMITEM_SIZE :: "rt_memheap \<Rightarrow> nat \<Rightarrow> nat" where
  "MEMITEM_SIZE h p = nxt (mh_blk h) p - p - RT_MEMHEAP_SIZE"

definition set_magic :: "nat \<Rightarrow> rt_uint32_t \<Rightarrow> rt_memheap \<Rightarrow> rt_memheap" where
  "set_magic p w h = h\<lparr>mh_magic := (mh_magic h)(p := w)\<rparr>"

text \<open>Take a block out of the circle of free blocks; its own links keep their values.\<close>

definition free_unlink :: "nat \<Rightarrow> rt_memheap \<Rightarrow> rt_memheap" where
  "free_unlink p h =
     (let m1 = set_prv (nxt (mh_free h) p) (prv (mh_free h) p) (mh_free h);
          m2 = set_nxt (prv m1 p) (nxt m1 p) m1
      in h\<lparr>mh_free := m2\<rparr>)"

definition free_null :: "nat \<Rightarrow> rt_memheap \<Rightarrow> rt_memheap" where
  "free_null p h = h\<lparr>mh_free := set_prv p 0 (set_nxt p 0 (mh_free h))\<rparr>"

text \<open>Put a block at the front of the circle of free blocks.\<close>

definition free_insert :: "nat \<Rightarrow> rt_memheap \<Rightarrow> rt_memheap" where
  "free_insert p h =
     (let l = mh_free_list h;
          m1 = set_nxt p (nxt (mh_free h) l) (mh_free h);
          m2 = set_prv p l m1;
          m3 = set_prv (nxt m2 l) p m2
      in h\<lparr>mh_free := set_nxt l p m3\<rparr>)"

definition free_insert_before :: "nat \<Rightarrow> nat \<Rightarrow> rt_memheap \<Rightarrow> rt_memheap" where
  "free_insert_before n p h =
     (let m1 = set_nxt p n (mh_free h);
          m2 = set_prv p (prv m1 n) m1;
          m3 = set_nxt (prv m2 n) p m2
      in h\<lparr>mh_free := set_prv n p m3\<rparr>)"

text \<open>A new free block at address q behind the block p.\<close>

definition memheap_new_block :: "nat \<Rightarrow> nat \<Rightarrow> rt_memheap \<Rightarrow> rt_memheap" where
  "memheap_new_block q p h =
     (let h1 = set_magic q (RT_MEMHEAP_MAGIC OR RT_MEMHEAP_FREED) h;
          h2 = h1\<lparr>mh_pool_ptr := (mh_pool_ptr h1)(q := mh_addr h1)\<rparr>;
          m1 = set_prv q p (mh_blk h2);
          m2 = set_nxt q (nxt m1 p) m1;
          m3 = set_prv (nxt m2 p) q m2
      in h2\<lparr>mh_blk := set_nxt p q m3\<rparr>)"

definition memheap_account :: "nat \<Rightarrow> rt_memheap \<Rightarrow> rt_memheap" where
  "memheap_account n h =
     (let h1 = h\<lparr>mh_available_size := mh_available_size h - n\<rparr>
      in if mh_pool_size h1 - mh_available_size h1 > mh_max_used_size h1
         then h1\<lparr>mh_max_used_size := mh_pool_size h1 - mh_available_size h1\<rparr> else h1)"

text \<open>The arguments \<open>h0\<close> and \<open>s\<close> of the initialisation are what the memory and the kernel held before.\<close>

definition memheap_format :: "nat \<Rightarrow> rt_uint32_t \<Rightarrow> rt_memheap \<Rightarrow> rt_memheap" where
  "memheap_format start_addr sz h0 =
     (let pool = unat (RT_ALIGN_DOWN sz 4);
          h1 = h0\<lparr>mh_obj := True, mh_system := True, mh_start_addr := start_addr, mh_pool_size := pool,
                 mh_available_size := pool - 2 * RT_MEMHEAP_SIZE,
                 mh_max_used_size := pool - (pool - 2 * RT_MEMHEAP_SIZE)\<rparr>;
          l = mh_free_list h1;
          h2 = (set_magic l (RT_MEMHEAP_MAGIC OR RT_MEMHEAP_FREED) h1)
                 \<lparr>mh_pool_ptr := (mh_pool_ptr h1)(l := mh_addr h1),
                  mh_blk := set_nxt l 0 (set_prv l 0 (mh_blk h1)),
                  mh_free := set_nxt l l (set_prv l l (mh_free h1))\<rparr>;
          item = start_addr;
          tailer = item + mh_available_size h2 + RT_MEMHEAP_SIZE;
          h3 = (set_magic item (RT_MEMHEAP_MAGIC OR RT_MEMHEAP_FREED) h2)
                 \<lparr>mh_pool_ptr := (mh_pool_ptr h2)(item := mh_addr h2),
                  mh_blk := set_prv item tailer (set_nxt item tailer (mh_blk h2)),
                  mh_block_list := item\<rparr>;
          h4 = free_insert item h3
      in (set_magic tailer (RT_MEMHEAP_MAGIC OR RT_MEMHEAP_USED) h4)
           \<lparr>mh_pool_ptr := (mh_pool_ptr h4)(tailer := mh_addr h4),
            mh_blk := set_prv tailer start_addr (set_nxt tailer start_addr (mh_blk h4)),
            mh_free := set_nxt tailer 0 (set_prv tailer 0 (mh_free h4)),
            mh_locked := False\<rparr>)"

definition rt_memheap_init ::
  "nat \<Rightarrow> rt_uint32_t \<Rightarrow> rt_memheap \<times> kstate \<Rightarrow> (rt_err_t \<times> rt_memheap \<times> kstate) option" where
  "rt_memheap_init start_addr sz hs = do {
     let (h, s) = hs;
     s1 \<leftarrow> object_init_check (mh_obj h) s;
     let h1 = memheap_format start_addr sz h;
     (r, s2) \<leftarrow> rt_sem_init (mh_lock h1) 1 1 s1;
     Some (RT_EOK, h1, s2)
   }"

definition rt_memheap_detach :: "rt_memheap \<times> kstate \<Rightarrow> (rt_err_t \<times> rt_memheap \<times> kstate) option" where
  "rt_memheap_detach hs = do {
     let (h, s) = hs;
     RT_ASSERT (mh_obj h);
     RT_ASSERT (mh_system h);
     (r, s1) \<leftarrow> rt_sem_detach (mh_lock h) s;
     Some (RT_EOK, h\<lparr>mh_obj := False\<rparr>, s1)
   }"

text \<open>
  A section under the lock of the heap.  A take that has to wait ends with \<open>Blocked\<close>; once the
  thread has the semaphore it goes on with the section.  \<open>bad\<close> is the result when the take fails.
\<close>

definition memheap_leave :: "rt_memheap \<Rightarrow> kstate \<Rightarrow> kstate option" where
  "memheap_leave h s = (if mh_locked h then Some s else map_option snd (rt_sem_release (mh_lock h) s))"

definition memheap_locked ::
  "(rt_memheap \<Rightarrow> ('a \<times> rt_memheap) option) \<Rightarrow> 'a \<Rightarrow> rt_memheap \<times> kstate
   \<Rightarrow> ('a outcome \<times> rt_memheap \<times> kstate) option" where
  "memheap_locked body bad hs = do {
     let (h, s) = hs;
     (r, s1) \<leftarrow> (if mh_locked h then Some (Returned RT_EOK, s) else rt_sem_take (mh_lock h) (-1) s);
     (case r of
        Blocked \<Rightarrow> Some (Blocked, h, s1)
      | Returned e \<Rightarrow>
          if e \<noteq> RT_EOK then Some (Returned bad, h, rt_set_errno e s1)
          else do {
            (x, h1) \<leftarrow> body h;
            s2 \<leftarrow> memheap_leave h1 s1;
            Some (Returned x, h1, s2)
          })
   }"

text \<open>The block size for a request.\<close>

definition memheap_request :: "rt_uint32_t \<Rightarrow> nat" where
  "memheap_request sz =
     (let sz = RT_ALIGN sz 4 in if unat sz < RT_MEMHEAP_MINIALLOC then RT_MEMHEAP_MINIALLOC else unat sz)"

text \<open>The search for a free block with enough room, and the room of the last block it looked at.\<close>

partial_function (option) memheap_find :: "rt_memheap \<Rightarrow> nat \<Rightarrow> nat \<Rightarrow> nat \<Rightarrow> (nat \<times> nat) option" where
  "memheap_find h sz p free_size =
     (if p \<noteq> mh_free_list h \<and> free_size < sz
      then let free_size = MEMITEM_SIZE h p
           in memheap_find h sz (if free_size < sz then nxt (mh_free h) p else p) free_size
      else Some (p, free_size))"

definition memheap_take :: "nat \<Rightarrow> nat \<Rightarrow> nat \<Rightarrow> rt_memheap \<Rightarrow> rt_memheap" where
  "memheap_take p free_size sz h =
     (let h1 =
        (if free_size \<ge> sz + RT_MEMHEAP_SIZE + RT_MEMHEAP_MINIALLOC
         then let new_ptr = p + sz + RT_MEMHEAP_SIZE;
                  h1 = memheap_new_block new_ptr p h;
                  h2 = free_null p (free_unlink p h1);
                  h3 = free_insert new_ptr h2
              in memheap_account (sz + RT_MEMHEAP_SIZE) h3
         else free_null p (free_unlink p (memheap_account free_size h)))
      in set_magic p (RT_MEMHEAP_MAGIC OR RT_MEMHEAP_USED) h1)"

definition memheap_alloc_section :: "nat \<Rightarrow> rt_memheap \<Rightarrow> (nat option \<times> rt_memheap) option" where
  "memheap_alloc_section sz h = do {
     (p, free_size) \<leftarrow> memheap_find h sz (nxt (mh_free h) (mh_free_list h)) 0;
     Some (if free_size \<ge> sz then (Some (p + RT_MEMHEAP_SIZE), memheap_take p free_size sz h) else (None, h))
   }"

definition rt_memheap_alloc ::
  "rt_uint32_t \<Rightarrow> rt_memheap \<times> kstate \<Rightarrow> (nat option outcome \<times> rt_memheap \<times> kstate) option" where
  "rt_memheap_alloc sz hs = do {
     RT_ASSERT (mh_obj (fst hs));
     let n = memheap_request sz;
     if n < mh_available_size (fst hs) then memheap_locked (memheap_alloc_section n) None hs
     else Some (Returned None, hs)
   }"

text \<open>A release: the combination with the block before, with the block behind, and the free list.\<close>

definition memheap_merge_left :: "nat \<Rightarrow> rt_memheap \<Rightarrow> nat \<times> bool \<times> rt_memheap" where
  "memheap_merge_left p h =
     (if \<not> RT_MEMHEAP_IS_USED h (prv (mh_blk h) p)
      then let h1 = h\<lparr>mh_available_size := mh_available_size h + RT_MEMHEAP_SIZE\<rparr>;
               m1 = set_nxt (prv (mh_blk h1) p) (nxt (mh_blk h1) p) (mh_blk h1);
               m2 = set_prv (nxt m1 p) (prv m1 p) m1
           in (prv m2 p, False, h1\<lparr>mh_blk := m2\<rparr>)
      else (p, True, h))"

definition memheap_merge_right :: "nat \<Rightarrow> rt_memheap \<Rightarrow> rt_memheap" where
  "memheap_merge_right p h =
     (if \<not> RT_MEMHEAP_IS_USED h (nxt (mh_blk h) p)
      then let h1 = h\<lparr>mh_available_size := mh_available_size h + RT_MEMHEAP_SIZE\<rparr>;
               n = nxt (mh_blk h1) p;
               m1 = set_prv (nxt (mh_blk h1) n) p (mh_blk h1);
               m2 = set_nxt p (nxt m1 n) m1
           in free_unlink n (h1\<lparr>mh_blk := m2\<rparr>)
      else h)"

definition memheap_free_section :: "nat \<Rightarrow> rt_memheap \<Rightarrow> (unit \<times> rt_memheap) option" where
  "memheap_free_section p h =
     (let h1 = set_magic p (RT_MEMHEAP_MAGIC OR RT_MEMHEAP_FREED) h;
          h2 = h1\<lparr>mh_available_size := mh_available_size h1 + MEMITEM_SIZE h1 p\<rparr>;
          (q, insert_header, h3) = memheap_merge_left p h2;
          h4 = memheap_merge_right q h3
      in Some ((), if insert_header then free_insert_before (nxt (mh_free h4) (mh_free_list h4)) q h4 else h4))"

definition rt_memheap_free ::
  "nat option \<Rightarrow> rt_memheap \<times> kstate \<Rightarrow> (unit outcome \<times> rt_memheap \<times> kstate) option" where
  "rt_memheap_free ptr hs =
     (case ptr of
        None \<Rightarrow> Some (Returned (), hs)
      | Some a \<Rightarrow> do {
          let h = fst hs;
          let p = a - RT_MEMHEAP_SIZE;
          RT_ASSERT (mh_magic h p = RT_MEMHEAP_MAGIC OR RT_MEMHEAP_USED);
          RT_ASSERT (mh_magic h (nxt (mh_blk h) p) AND RT_MEMHEAP_MASK = RT_MEMHEAP_MAGIC);
          RT_ASSERT (mh_pool_ptr h p = mh_addr h);
          RT_ASSERT (mh_obj h);
          memheap_locked (memheap_free_section p) () hs
        })"

definition memheap_memcpy :: "nat \<Rightarrow> nat \<Rightarrow> nat \<Rightarrow> rt_memheap \<Rightarrow> rt_memheap" where
  "memheap_memcpy dst src n h =
     h\<lparr>mh_data := (\<lambda>a. if dst \<le> a \<and> a < dst + n then mh_data h (src + (a - dst)) else mh_data h a)\<rparr>"

text \<open>\<^verbatim>\<open>_remove_next_ptr\<close>: out of both circles.\<close>

definition remove_next_ptr :: "nat \<Rightarrow> rt_memheap \<Rightarrow> rt_memheap" where
  "remove_next_ptr n h =
     (let h1 = free_unlink n h;
          m1 = set_prv (nxt (mh_blk h1) n) (prv (mh_blk h1) n) (mh_blk h1);
          m2 = set_nxt (prv m1 n) (nxt m1 n) m1
      in h1\<lparr>mh_blk := m2\<rparr>)"

text \<open>
  Growing a block into the free block behind it; the result tells whether that was possible.  The
  comparison adds to the aligned size in 32 bits.
\<close>

definition memheap_grow_section :: "nat \<Rightarrow> nat \<Rightarrow> nat \<Rightarrow> rt_memheap \<Rightarrow> (bool \<times> rt_memheap) option" where
  "memheap_grow_section p oldsize newsize h = do {
     let next_ptr = nxt (mh_blk h) p;
     RT_ASSERT (next_ptr > p);
     if \<not> RT_MEMHEAP_IS_USED h next_ptr
        \<and> (MEMITEM_SIZE h next_ptr + oldsize) mod 2 ^ 32 > (newsize + RT_MEMHEAP_MINIALLOC) mod 2 ^ 32
     then let h1 = memheap_account (newsize - oldsize) h;
              h2 = remove_next_ptr next_ptr h1;
              new_ptr = p + RT_MEMHEAP_SIZE + newsize;
              h3 = memheap_new_block new_ptr p h2
          in Some (True, free_insert new_ptr h3)
     else Some (False, h)
   }"

definition memheap_shrink_section :: "nat \<Rightarrow> nat \<Rightarrow> rt_memheap \<Rightarrow> (unit \<times> rt_memheap) option" where
  "memheap_shrink_section p newsize h =
     (let new_ptr = p + newsize + RT_MEMHEAP_SIZE;
          h1 = memheap_new_block new_ptr p h;
          f = nxt (mh_blk h1) new_ptr;
          h2 = (if \<not> RT_MEMHEAP_IS_USED h1 f
                then let h2 = h1\<lparr>mh_available_size := mh_available_size h1 - MEMITEM_SIZE h1 f\<rparr>;
                         m1 = set_prv (nxt (mh_blk h2) f) new_ptr (mh_blk h2);
                         m2 = set_nxt new_ptr (nxt m1 f) m1
                     in free_unlink f (h2\<lparr>mh_blk := m2\<rparr>)
                else h1);
          h3 = free_insert new_ptr h2
      in Some ((), h3\<lparr>mh_available_size := mh_available_size h3 + MEMITEM_SIZE h3 new_ptr\<rparr>))"

text \<open>
  The reallocation.  A part that has to wait for the semaphore ends it with \<open>Blocked\<close>.  The argument
  of \<^verbatim>\<open>memheap_locked\<close> for a failed take of the shrinking branch stands for its NULL result.
\<close>

definition memheap_move ::
  "nat \<Rightarrow> nat \<Rightarrow> nat \<Rightarrow> rt_memheap \<times> kstate \<Rightarrow> (nat option outcome \<times> rt_memheap \<times> kstate) option" where
  "memheap_move a oldsize newsize hs = do {
     (r, h1, s1) \<leftarrow> rt_memheap_alloc (word_of_nat newsize) hs;
     (case r of
        Returned (Some new_ptr) \<Rightarrow> do {
          let h2 = memheap_memcpy new_ptr a (if oldsize < newsize then oldsize else newsize) h1;
          (r2, h3, s2) \<leftarrow> rt_memheap_free (Some a) (h2, s1);
          Some (case r2 of Blocked \<Rightarrow> Blocked | Returned _ \<Rightarrow> Returned (Some new_ptr), h3, s2)
        }
      | _ \<Rightarrow> Some (r, h1, s1))
   }"

definition rt_memheap_realloc ::
  "nat option \<Rightarrow> rt_uint32_t \<Rightarrow> rt_memheap \<times> kstate
   \<Rightarrow> (nat option outcome \<times> rt_memheap \<times> kstate) option" where
  "rt_memheap_realloc ptr newsize0 hs = do {
     RT_ASSERT (mh_obj (fst hs));
     if newsize0 = 0
     then do {
       (r, hs1) \<leftarrow> rt_memheap_free ptr hs;
       Some (case r of Blocked \<Rightarrow> Blocked | Returned _ \<Rightarrow> Returned None, hs1)
     }
     else do {
       let newsize = memheap_request newsize0;
       (case ptr of
          None \<Rightarrow> rt_memheap_alloc (word_of_nat newsize) hs
        | Some a \<Rightarrow> do {
            let p = a - RT_MEMHEAP_SIZE;
            let oldsize = MEMITEM_SIZE (fst hs) p;
            if newsize > oldsize
            then do {
              (r, hs1) \<leftarrow> memheap_locked (\<lambda>h. map_option (\<lambda>(x, h). (Some x, h)) (memheap_grow_section p oldsize newsize h)) None hs;
              (case r of
                 Blocked \<Rightarrow> Some (Blocked, hs1)
               | Returned None \<Rightarrow> Some (Returned None, hs1)
               | Returned (Some True) \<Rightarrow> Some (Returned (Some a), hs1)
               | Returned (Some False) \<Rightarrow> memheap_move a oldsize newsize hs1)
            }
            else if newsize + RT_MEMHEAP_SIZE + RT_MEMHEAP_MINIALLOC \<ge> oldsize
            then Some (Returned (Some a), hs)
            else memheap_locked (\<lambda>h. map_option (\<lambda>(_, h). (Some a, h)) (memheap_shrink_section p newsize h)) None hs
          })
     }
   }"

definition rt_memheap_info ::
  "rt_memheap \<times> kstate \<Rightarrow> ((nat \<times> nat \<times> nat) option outcome \<times> rt_memheap \<times> kstate) option" where
  "rt_memheap_info hs =
     memheap_locked (\<lambda>h. Some (Some (mh_pool_size h, mh_pool_size h - mh_available_size h, mh_max_used_size h), h))
       None hs"


section \<open>Circles of blocks\<close>

text \<open>The circular list of RtList whose head is its first member.\<close>

definition circle :: "list_mem \<Rightarrow> nat list \<Rightarrow> bool" where
  "circle m bs \<longleftrightarrow> bs \<noteq> [] \<and> ring m (hd bs) (tl bs)"

lemma circle_distinct: "circle m bs \<Longrightarrow> distinct bs"
  by (cases bs) (auto simp: circle_def ring_def)

lemma circle_shape: "hd (as @ p # bs) # tl (as @ p # bs) = as @ p # bs"
  by (cases as) simp_all

lemma circle_step:
  assumes "circle m (as @ p # q # cs)"
  shows "nxt m p = q" "prv m q = p"
proof -
  let ?l = "hd (as @ p # q # cs)"
  have "path m (?l # tl (as @ p # q # cs) @ [?l])" using assms by (simp add: circle_def ring_def)
  then have "path m (as @ p # q # cs @ [?l])" using circle_shape [of as p "q # cs"] by (metis append_Cons append_assoc)
  then have "path m (p # q # cs @ [?l])" using path_append by blast
  then show "nxt m p = q" "prv m q = p" by (simp_all add: linked_def)
qed

lemma circle_ends:
  assumes "circle m bs"
  shows "nxt m (last bs) = hd bs" "prv m (hd bs) = last bs"
proof -
  obtain b cs where bs: "bs = b # cs" using assms by (cases bs) (auto simp: circle_def)
  have r: "ring m b (cs @ [])" using assms by (simp add: circle_def bs)
  show "nxt m (last bs) = hd bs" "prv m (hd bs) = last bs"
    using ring_split(2,3) [OF r] by (simp_all only: bs append_Nil list.sel)
qed

lemma circle_insert:
  assumes c: "circle m (as @ p # q # cs)" and n: "n \<notin> set (as @ p # q # cs)"
    and "nxt m' = (nxt m)(p := n, n := q)" "prv m' = (prv m)(q := n, n := p)"
  shows "circle m' (as @ p # n # q # cs)"
proof -
  let ?l = "hd (as @ [p])" and ?as = "tl (as @ [p])"
  have l: "?l # ?as = as @ [p]" by simp
  have r: "ring m ?l (?as @ q # cs)" using c by (cases as) (simp_all add: circle_def)
  have "last (?l # ?as) = p" unfolding l by simp
  moreover have "hd ((q # cs) @ [?l]) = q" by simp
  moreover have "set (?l # ?as @ q # cs) = set (as @ p # q # cs)" by (cases as) auto
  ultimately have "ring m' ?l (?as @ n # q # cs)"
    using splice_in_ring [OF r, of n m'] assms(2-4) by simp
  then show ?thesis by (cases as) (simp_all add: circle_def)
qed

text \<open>A node spliced out; its own links may hold anything.\<close>

lemma unlink_ring:
  assumes r: "ring m l (as @ n # bs)"
    and "\<And>x. x \<noteq> n \<Longrightarrow> nxt m' x = ((nxt m)(last (l # as) := hd (bs @ [l]))) x"
    and "\<And>x. x \<noteq> n \<Longrightarrow> prv m' x = ((prv m)(hd (bs @ [l]) := last (l # as))) x"
  shows "ring m' l (as @ bs)"
proof -
  have n: "n \<notin> set (l # as @ bs)" using r by (auto simp: ring_def)
  have link: "prv m n = last (l # as)" "nxt m n = hd (bs @ [l])"
    using ring_split(3) [OF r] ring_split(2) [of m l "as @ [n]" bs] r by simp_all
  have "ring m' l (as @ bs) = ring (rt_list_remove n m) l (as @ bs)"
  proof (rule ring_frame)
    fix a assume a: "a \<in> set (l # as @ bs)"
    then have "a \<noteq> n" using n by blast
    then show "nxt m' a = nxt (rt_list_remove n m) a \<and> prv m' a = prv (rt_list_remove n m) a"
      using assms(2,3) link ring_ends [OF n]
      by (simp del: last.simps add: rt_list_remove_def Let_def set_nxt_def set_prv_def)
  qed
  then show ?thesis using remove_ring(1) [OF r] by simp
qed

lemma circle_remove:
  assumes c: "circle m (as @ p # n # q # cs)"
    and "\<And>x. x \<noteq> n \<Longrightarrow> nxt m' x = ((nxt m)(p := q)) x"
    and "\<And>x. x \<noteq> n \<Longrightarrow> prv m' x = ((prv m)(q := p)) x"
  shows "circle m' (as @ p # q # cs)"
proof -
  let ?l = "hd (as @ [p])" and ?as = "tl (as @ [p])"
  have l: "?l # ?as = as @ [p]" by simp
  have r: "ring m ?l (?as @ n # q # cs)" using c by (cases as) (simp_all add: circle_def)
  have "last (?l # ?as) = p" unfolding l by simp
  then have "ring m' ?l (?as @ q # cs)"
    using assms(2,3) by (intro unlink_ring [OF r]) simp_all
  then show ?thesis by (cases as) (simp_all add: circle_def)
qed

lemma circle_frame:
  assumes "\<And>a. a \<in> set bs \<Longrightarrow> nxt m' a = nxt m a \<and> prv m' a = prv m a"
  shows "circle m' bs = circle m bs"
proof (cases bs)
  case (Cons b cs)
  have "ring m' b cs = ring m b cs"
    by (rule ring_frame) (use assms Cons in blast)
  then show ?thesis by (simp add: circle_def Cons)
qed (simp add: circle_def)


section \<open>The invariant\<close>

text \<open>The fields that no operation changes.\<close>

definition mh_const :: "rt_memheap \<Rightarrow> bool" where
  "mh_const h \<longleftrightarrow> mh_obj h \<and> mh_block_list h = mh_start_addr h
     \<and> mh_start_addr h mod 4 = 0 \<and> mh_pool_size h mod 4 = 0 \<and> 68 \<le> mh_pool_size h
     \<and> 0 < mh_start_addr h \<and> mh_start_addr h + mh_pool_size h \<le> 2 ^ 32
     \<and> \<not> (mh_start_addr h \<le> mh_free_list h \<and> mh_free_list h < mh_start_addr h + mh_pool_size h)"

text \<open>
  The blocks \<open>bs\<close> in address order: the circle, at least the room of a header and of the smallest
  block between two of them, intact headers, and the empty used block at the end.
\<close>

definition block_gap :: "nat \<Rightarrow> nat \<Rightarrow> bool" where
  "block_gap p q \<longleftrightarrow> p + RT_MEMHEAP_SIZE + RT_MEMHEAP_MINIALLOC \<le> q"

definition header_ok :: "rt_memheap \<Rightarrow> nat \<Rightarrow> bool" where
  "header_ok h p \<longleftrightarrow> p mod 4 = 0 \<and> mh_pool_ptr h p = mh_addr h
     \<and> (mh_magic h p = RT_MEMHEAP_MAGIC OR RT_MEMHEAP_USED \<or> mh_magic h p = RT_MEMHEAP_MAGIC OR RT_MEMHEAP_FREED)"

definition mh_blocks :: "rt_memheap \<Rightarrow> nat list \<Rightarrow> bool" where
  "mh_blocks h bs \<longleftrightarrow> circle (mh_blk h) bs \<and> hd bs = mh_start_addr h
     \<and> last bs + RT_MEMHEAP_SIZE = mh_start_addr h + mh_pool_size h
     \<and> successively block_gap bs
     \<and> (\<forall>p \<in> set bs. header_ok h p) \<and> RT_MEMHEAP_IS_USED h (last bs)"

definition free_blocks :: "rt_memheap \<Rightarrow> nat list \<Rightarrow> nat set" where
  "free_blocks h bs = {p \<in> set bs. \<not> RT_MEMHEAP_IS_USED h p}"

definition mh_frees :: "rt_memheap \<Rightarrow> nat list \<Rightarrow> nat list \<Rightarrow> bool" where
  "mh_frees h bs fs \<longleftrightarrow> ring (mh_free h) (mh_free_list h) fs \<and> set fs = free_blocks h bs"

text \<open>No two free blocks are adjacent.\<close>

definition mh_apart :: "rt_memheap \<Rightarrow> nat list \<Rightarrow> bool" where
  "mh_apart h = successively (\<lambda>p q. RT_MEMHEAP_IS_USED h p \<or> RT_MEMHEAP_IS_USED h q)"

definition mh_inv :: "rt_memheap \<Rightarrow> nat list \<Rightarrow> nat list \<Rightarrow> bool" where
  "mh_inv h bs fs \<longleftrightarrow> mh_const h \<and> mh_blocks h bs \<and> mh_frees h bs fs \<and> mh_apart h bs
     \<and> mh_available_size h = (\<Sum>p \<in> free_blocks h bs. MEMITEM_SIZE h p)
     \<and> mh_pool_size h - mh_available_size h \<le> mh_max_used_size h"

text \<open>The allocated areas.\<close>

definition mh_live :: "rt_memheap \<Rightarrow> nat list \<Rightarrow> (nat \<times> nat) set" where
  "mh_live h bs = (\<lambda>p. (p + RT_MEMHEAP_SIZE, MEMITEM_SIZE h p)) ` {p \<in> set bs. RT_MEMHEAP_IS_USED h p \<and> p \<noteq> last bs}"

lemma magic_used [simp]:
  "RT_MEMHEAP_MAGIC OR RT_MEMHEAP_USED = 0x1ea01ea1" "RT_MEMHEAP_MAGIC OR RT_MEMHEAP_FREED = RT_MEMHEAP_MAGIC"
  by simp_all

lemma IS_USED_set_magic [simp]:
  "RT_MEMHEAP_IS_USED (set_magic p (0x1ea01ea1) h) x \<longleftrightarrow> x = p \<or> RT_MEMHEAP_IS_USED h x"
  "RT_MEMHEAP_IS_USED (set_magic p RT_MEMHEAP_MAGIC h) x \<longleftrightarrow> x \<noteq> p \<and> RT_MEMHEAP_IS_USED h x"
  by (simp_all add: RT_MEMHEAP_IS_USED_def set_magic_def)

lemma IS_USED_cong: "mh_magic h' = mh_magic h \<Longrightarrow> RT_MEMHEAP_IS_USED h' = RT_MEMHEAP_IS_USED h"
  by (simp add: RT_MEMHEAP_IS_USED_def fun_eq_iff)

lemma SIZE_cong: "mh_blk h' = mh_blk h \<Longrightarrow> MEMITEM_SIZE h' = MEMITEM_SIZE h"
  by (simp add: MEMITEM_SIZE_def fun_eq_iff)

lemma mh_blocksD:
  assumes "mh_blocks h bs"
  shows "circle (mh_blk h) bs" "hd bs = mh_start_addr h" "last bs + 28 = mh_start_addr h + mh_pool_size h"
    "successively block_gap bs" "p \<in> set bs \<Longrightarrow> header_ok h p" "RT_MEMHEAP_IS_USED h (last bs)"
    "bs \<noteq> []" "distinct bs"
  using assms circle_distinct by (auto simp: mh_blocks_def circle_def)

lemma mh_invD:
  assumes "mh_inv h bs fs"
  shows "mh_const h" "mh_blocks h bs" "mh_frees h bs fs" "mh_apart h bs"
    "mh_available_size h = (\<Sum>p \<in> free_blocks h bs. MEMITEM_SIZE h p)"
    "mh_pool_size h - mh_available_size h \<le> mh_max_used_size h"
  using assms mh_inv_def by metis+

lemma mh_constD:
  assumes "mh_const h"
  shows "mh_obj h" "0 < mh_start_addr h" "mh_start_addr h mod 4 = 0" "mh_pool_size h mod 4 = 0"
    "mh_start_addr h + mh_pool_size h \<le> 2 ^ 32"
    "mh_start_addr h \<le> mh_free_list h \<Longrightarrow> mh_start_addr h + mh_pool_size h \<le> mh_free_list h"
    "68 \<le> mh_pool_size h"
  using assms by (auto simp: mh_const_def)

lemma gap_sorted: "successively block_gap bs \<Longrightarrow> sorted_wrt (<) bs"
  unfolding successively_conv_sorted_wrt [OF transp_on_less, symmetric]
  by (erule successively_mono) (simp add: block_gap_def)

text \<open>A block, the one behind it, and the order of the addresses.\<close>

lemma blocks_split:
  assumes "mh_blocks h (as @ p # q # cs)"
  shows "nxt (mh_blk h) p = q" "prv (mh_blk h) q = p" "p + 40 \<le> q" "MEMITEM_SIZE h p = q - p - 28"
    "\<And>x. x \<in> set as \<Longrightarrow> x < p" "\<And>x. x \<in> set cs \<Longrightarrow> q < x" "p \<noteq> last (as @ p # q # cs)"
    "mh_start_addr h \<le> p" "q + 28 \<le> mh_start_addr h + mh_pool_size h"
proof -
  note B = mh_blocksD [OF assms]
  show n: "nxt (mh_blk h) p = q" "prv (mh_blk h) q = p" using circle_step [OF B(1)] by simp_all
  show g: "p + 40 \<le> q" using B(4) by (simp add: successively_append_iff block_gap_def)
  show "MEMITEM_SIZE h p = q - p - 28" using n by (simp add: MEMITEM_SIZE_def)
  have s: "sorted_wrt (<) (as @ p # q # cs)" by (rule gap_sorted [OF B(4)])
  show a: "x < p" if "x \<in> set as" for x using s that by (simp add: sorted_wrt_append)
  show c: "q < x" if "x \<in> set cs" for x using s that by (simp add: sorted_wrt_append)
  have "last (q # cs) \<in> set (q # cs)" by (rule last_in_set) simp
  then have le: "q \<le> last (q # cs)" using c by (auto simp: less_imp_le)
  then show "p \<noteq> last (as @ p # q # cs)" using g by auto
  show "q + 28 \<le> mh_start_addr h + mh_pool_size h" using le B(3) by simp
  show "mh_start_addr h \<le> p" using B(2) a by (cases as) (auto simp: less_imp_le)
qed

lemma blocks_member:
  assumes "mh_blocks h bs" "p \<in> set bs" "p \<noteq> last bs"
  obtains as q cs where "bs = as @ p # q # cs"
proof -
  obtain as ds where bs: "bs = as @ p # ds" using assms(2) by (auto simp: in_set_conv_decomp)
  then have "ds \<noteq> []" using assms(3) by auto
  then show thesis using that bs by (cases ds) auto
qed


section \<open>The steps on the two circles\<close>

lemma op_fields [simp]:
  "mh_obj (set_magic p w h) = mh_obj h" "mh_addr (set_magic p w h) = mh_addr h"
  "mh_start_addr (set_magic p w h) = mh_start_addr h" "mh_pool_size (set_magic p w h) = mh_pool_size h"
  "mh_available_size (set_magic p w h) = mh_available_size h" "mh_max_used_size (set_magic p w h) = mh_max_used_size h"
  "mh_block_list (set_magic p w h) = mh_block_list h" "mh_free_list (set_magic p w h) = mh_free_list h"
  "mh_lock (set_magic p w h) = mh_lock h" "mh_locked (set_magic p w h) = mh_locked h"
  "mh_pool_ptr (set_magic p w h) = mh_pool_ptr h" "mh_blk (set_magic p w h) = mh_blk h"
  "mh_free (set_magic p w h) = mh_free h" "mh_data (set_magic p w h) = mh_data h"
  "mh_magic (set_magic p w h) = (mh_magic h)(p := w)"
  by (simp_all add: set_magic_def)

text \<open>Everything but the links of the free blocks.\<close>

definition same_blocks :: "rt_memheap \<Rightarrow> rt_memheap \<Rightarrow> bool" where
  "same_blocks h h' \<longleftrightarrow> (\<exists>m. h' = h\<lparr>mh_free := m\<rparr>)"

lemma same_blocks_ops:
  "same_blocks h (free_unlink p h)" "same_blocks h (free_null p h)" "same_blocks h (free_insert p h)"
  "same_blocks h (free_insert_before n p h)"
  by (auto simp: same_blocks_def free_unlink_def free_null_def free_insert_def free_insert_before_def Let_def)

lemma same_blocksD:
  assumes "same_blocks h h'"
  shows "mh_obj h' = mh_obj h" "mh_addr h' = mh_addr h" "mh_start_addr h' = mh_start_addr h"
    "mh_pool_size h' = mh_pool_size h" "mh_available_size h' = mh_available_size h"
    "mh_max_used_size h' = mh_max_used_size h" "mh_block_list h' = mh_block_list h"
    "mh_free_list h' = mh_free_list h" "mh_lock h' = mh_lock h" "mh_locked h' = mh_locked h"
    "mh_pool_ptr h' = mh_pool_ptr h" "mh_blk h' = mh_blk h" "mh_data h' = mh_data h"
    "mh_magic h' = mh_magic h" "mh_system h' = mh_system h"
  using assms by (auto simp: same_blocks_def)

lemmas free_op_fields [simp] = same_blocks_ops [THEN same_blocksD(1)] same_blocks_ops [THEN same_blocksD(2)]
  same_blocks_ops [THEN same_blocksD(3)] same_blocks_ops [THEN same_blocksD(4)] same_blocks_ops [THEN same_blocksD(5)]
  same_blocks_ops [THEN same_blocksD(6)] same_blocks_ops [THEN same_blocksD(7)] same_blocks_ops [THEN same_blocksD(8)]
  same_blocks_ops [THEN same_blocksD(9)] same_blocks_ops [THEN same_blocksD(10)] same_blocks_ops [THEN same_blocksD(11)]
  same_blocks_ops [THEN same_blocksD(12)] same_blocks_ops [THEN same_blocksD(13)] same_blocks_ops [THEN same_blocksD(14)]

lemma new_block_fields [simp]:
  "mh_obj (memheap_new_block q p h) = mh_obj h" "mh_addr (memheap_new_block q p h) = mh_addr h"
  "mh_start_addr (memheap_new_block q p h) = mh_start_addr h" "mh_pool_size (memheap_new_block q p h) = mh_pool_size h"
  "mh_available_size (memheap_new_block q p h) = mh_available_size h"
  "mh_max_used_size (memheap_new_block q p h) = mh_max_used_size h"
  "mh_block_list (memheap_new_block q p h) = mh_block_list h" "mh_free_list (memheap_new_block q p h) = mh_free_list h"
  "mh_lock (memheap_new_block q p h) = mh_lock h" "mh_locked (memheap_new_block q p h) = mh_locked h"
  "mh_free (memheap_new_block q p h) = mh_free h" "mh_data (memheap_new_block q p h) = mh_data h"
  "mh_magic (memheap_new_block q p h) = (mh_magic h)(q := RT_MEMHEAP_MAGIC)"
  "mh_pool_ptr (memheap_new_block q p h) = (mh_pool_ptr h)(q := mh_addr h)"
  by (simp_all add: memheap_new_block_def Let_def)

lemma account_fields [simp]:
  "mh_obj (memheap_account n h) = mh_obj h" "mh_addr (memheap_account n h) = mh_addr h"
  "mh_start_addr (memheap_account n h) = mh_start_addr h" "mh_pool_size (memheap_account n h) = mh_pool_size h"
  "mh_available_size (memheap_account n h) = mh_available_size h - n"
  "mh_block_list (memheap_account n h) = mh_block_list h" "mh_free_list (memheap_account n h) = mh_free_list h"
  "mh_lock (memheap_account n h) = mh_lock h" "mh_locked (memheap_account n h) = mh_locked h"
  "mh_free (memheap_account n h) = mh_free h" "mh_data (memheap_account n h) = mh_data h"
  "mh_magic (memheap_account n h) = mh_magic h" "mh_pool_ptr (memheap_account n h) = mh_pool_ptr h"
  "mh_blk (memheap_account n h) = mh_blk h"
  by (simp_all add: memheap_account_def Let_def)

lemma IS_USED_ops [simp]:
  "RT_MEMHEAP_IS_USED (free_unlink p h) = RT_MEMHEAP_IS_USED h" "RT_MEMHEAP_IS_USED (free_null p h) = RT_MEMHEAP_IS_USED h"
  "RT_MEMHEAP_IS_USED (free_insert p h) = RT_MEMHEAP_IS_USED h"
  "RT_MEMHEAP_IS_USED (free_insert_before n p h) = RT_MEMHEAP_IS_USED h"
  "RT_MEMHEAP_IS_USED (memheap_account k h) = RT_MEMHEAP_IS_USED h"
  "RT_MEMHEAP_IS_USED (memheap_new_block q p h) x \<longleftrightarrow> x \<noteq> q \<and> RT_MEMHEAP_IS_USED h x"
  by (simp_all add: RT_MEMHEAP_IS_USED_def fun_eq_iff)

lemma SIZE_ops [simp]:
  "MEMITEM_SIZE (free_unlink p h) = MEMITEM_SIZE h" "MEMITEM_SIZE (free_null p h) = MEMITEM_SIZE h"
  "MEMITEM_SIZE (free_insert p h) = MEMITEM_SIZE h" "MEMITEM_SIZE (free_insert_before n p h) = MEMITEM_SIZE h"
  "MEMITEM_SIZE (memheap_account k h) = MEMITEM_SIZE h" "MEMITEM_SIZE (set_magic p w h) = MEMITEM_SIZE h"
  by (simp_all add: MEMITEM_SIZE_def fun_eq_iff)

lemma account_max: "mh_pool_size h - mh_available_size (memheap_account n h) \<le> mh_max_used_size (memheap_account n h)"
  by (simp add: memheap_account_def Let_def)

lemma mh_const_cong:
  "mh_obj h' = mh_obj h \<Longrightarrow> mh_start_addr h' = mh_start_addr h \<Longrightarrow> mh_pool_size h' = mh_pool_size h \<Longrightarrow>
   mh_block_list h' = mh_block_list h \<Longrightarrow> mh_free_list h' = mh_free_list h \<Longrightarrow> mh_const h' = mh_const h"
  by (simp add: mh_const_def)

text \<open>The circle of free blocks.\<close>

lemma free_unlink_ring:
  assumes r: "ring (mh_free h) l (as @ p # bs)"
  shows "ring (mh_free (free_unlink p h)) l (as @ bs)"
proof (rule unlink_ring [OF r])
  have n: "p \<notin> set (l # as @ bs)" using r by (auto simp: ring_def)
  have link: "prv (mh_free h) p = last (l # as)" "nxt (mh_free h) p = hd (bs @ [l])"
    using ring_split(3) [OF r] ring_split(2) [of "mh_free h" l "as @ [p]" bs] r by simp_all
  show "nxt (mh_free (free_unlink p h)) x = ((nxt (mh_free h))(last (l # as) := hd (bs @ [l]))) x"
    "prv (mh_free (free_unlink p h)) x = ((prv (mh_free h))(hd (bs @ [l]) := last (l # as))) x" if "x \<noteq> p" for x
    using link ring_ends [OF n] by (simp_all del: last.simps add: free_unlink_def Let_def set_nxt_def set_prv_def)
qed

lemma free_null_ring:
  assumes "ring (mh_free h) l fs" "p \<notin> set (l # fs)"
  shows "ring (mh_free (free_null p h)) l fs"
proof -
  have "ring (mh_free (free_null p h)) l fs = ring (mh_free h) l fs"
    using assms(2) by (intro ring_frame) (auto simp: free_null_def set_nxt_def set_prv_def)
  then show ?thesis using assms(1) by simp
qed

lemma free_insert_ring:
  assumes r: "ring (mh_free h) (mh_free_list h) fs" and p: "p \<notin> set (mh_free_list h # fs)"
  shows "ring (mh_free (free_insert p h)) (mh_free_list h) (p # fs)"
proof -
  let ?l = "mh_free_list h"
  have r': "ring (mh_free h) ?l ([] @ fs)" using r by simp
  have n: "nxt (mh_free h) ?l = hd (fs @ [?l])" using ring_split(2) [OF r'] by simp
  have pn: "p \<noteq> ?l" "p \<noteq> hd (fs @ [?l])" using p by (cases fs; auto)+
  have "ring (mh_free (free_insert p h)) ?l ([] @ p # fs)"
    by (rule splice_in_ring [OF r'])
      (use p n pn in \<open>auto simp: free_insert_def Let_def set_nxt_def set_prv_def fun_eq_iff\<close>)
  then show ?thesis by simp
qed

lemma free_insert_before_ring:
  assumes r: "ring (mh_free h) (mh_free_list h) fs" and p: "p \<notin> set (mh_free_list h # fs)"
  shows "ring (mh_free (free_insert_before (nxt (mh_free h) (mh_free_list h)) p h)) (mh_free_list h) (p # fs)"
proof -
  let ?l = "mh_free_list h"
  have r': "ring (mh_free h) ?l ([] @ fs)" using r by simp
  have n: "nxt (mh_free h) ?l = hd (fs @ [?l])" "prv (mh_free h) (hd (fs @ [?l])) = ?l"
    using ring_split(2,3) [OF r'] by simp_all
  have pn: "p \<noteq> ?l" "p \<noteq> hd (fs @ [?l])" using p by (cases fs; auto)+
  have "ring (mh_free (free_insert_before (nxt (mh_free h) ?l) p h)) ?l ([] @ p # fs)"
    by (rule splice_in_ring [OF r'])
      (use p n pn in \<open>auto simp: free_insert_before_def Let_def set_nxt_def set_prv_def fun_eq_iff\<close>)
  then show ?thesis by simp
qed

text \<open>The circle of blocks: a block more, a block less, another tag.\<close>

lemma blocks_cong:
  assumes "mh_blk h' = mh_blk h" "mh_magic h' = mh_magic h" "mh_pool_ptr h' = mh_pool_ptr h" "mh_addr h' = mh_addr h"
    "mh_start_addr h' = mh_start_addr h" "mh_pool_size h' = mh_pool_size h"
  shows "mh_blocks h' bs = mh_blocks h bs"
  using assms by (simp add: mh_blocks_def header_ok_def RT_MEMHEAP_IS_USED_def)

lemma blocks_insert:
  assumes B: "mh_blocks h (as @ p # q # cs)" and n: "block_gap p n" "block_gap n q" "n mod 4 = 0"
  shows "mh_blocks (memheap_new_block n p h) (as @ p # n # q # cs)"
    "MEMITEM_SIZE (memheap_new_block n p h) x
      = (if x = p then n - p - 28 else if x = n then q - n - 28 else MEMITEM_SIZE h x)"
    "n \<notin> set (as @ p # q # cs)"
proof -
  let ?h = "memheap_new_block n p h"
  note D = mh_blocksD [OF B] and S = blocks_split [OF B]
  have lt: "p < n" "n < q" using n by (simp_all add: block_gap_def)
  show nin: "n \<notin> set (as @ p # q # cs)" using lt S(5) S(6) by force
  have links: "nxt (mh_blk ?h) = (nxt (mh_blk h))(p := n, n := q)" "prv (mh_blk ?h) = (prv (mh_blk h))(q := n, n := p)"
    using lt S(1) by (auto simp: memheap_new_block_def Let_def set_nxt_def set_prv_def fun_eq_iff)
  have c: "circle (mh_blk ?h) (as @ p # n # q # cs)"
    by (rule circle_insert [OF D(1) nin links])
  have "hd (as @ p # n # q # cs) = hd (as @ p # q # cs)" by (cases as) simp_all
  moreover have "last (as @ p # n # q # cs) = last (as @ p # q # cs)" by simp
  moreover have "successively block_gap (as @ p # n # q # cs)"
    using D(4) n by (simp add: successively_append_iff)
  moreover have "header_ok ?h x" if "x \<in> set (as @ p # n # q # cs)" for x
    using that D(5) [of x] n(3) by (auto simp: header_ok_def)
  moreover have "RT_MEMHEAP_IS_USED ?h (last (as @ p # q # cs))"
    using D(6) nin last_in_set [of "as @ p # q # cs"] by (auto simp: RT_MEMHEAP_IS_USED_def)
  ultimately show "mh_blocks ?h (as @ p # n # q # cs)"
    using c D(2,3) by (simp add: mh_blocks_def)
  show "MEMITEM_SIZE ?h x = (if x = p then n - p - 28 else if x = n then q - n - 28 else MEMITEM_SIZE h x)"
    using lt by (simp add: MEMITEM_SIZE_def links)
qed

lemma blocks_remove:
  assumes B: "mh_blocks h (as @ p # n # q # cs)"
    and links: "\<And>x. x \<noteq> n \<Longrightarrow> nxt (mh_blk h') x = ((nxt (mh_blk h))(p := q)) x"
      "\<And>x. x \<noteq> n \<Longrightarrow> prv (mh_blk h') x = ((prv (mh_blk h))(q := p)) x"
    and same: "mh_magic h' = mh_magic h" "mh_pool_ptr h' = mh_pool_ptr h" "mh_addr h' = mh_addr h"
      "mh_start_addr h' = mh_start_addr h" "mh_pool_size h' = mh_pool_size h"
  shows "mh_blocks h' (as @ p # q # cs)"
    "x \<noteq> n \<Longrightarrow> MEMITEM_SIZE h' x = (if x = p then MEMITEM_SIZE h p + MEMITEM_SIZE h n + 28 else MEMITEM_SIZE h x)"
proof -
  note D = mh_blocksD [OF B] and S = blocks_split [OF B]
  have B2: "mh_blocks h ((as @ [p]) @ n # q # cs)" using B by simp
  note S2 = blocks_split [OF B2]
  have c: "circle (mh_blk h') (as @ p # q # cs)" by (rule circle_remove [OF D(1) links])
  have "hd (as @ p # n # q # cs) = hd (as @ p # q # cs)" by (cases as) simp_all
  moreover have "last (as @ p # n # q # cs) = last (as @ p # q # cs)" by simp
  moreover have "successively block_gap (as @ p # q # cs)"
    using D(4) by (auto simp: successively_append_iff block_gap_def)
  moreover have "header_ok h' x" if "x \<in> set (as @ p # q # cs)" for x
    using that D(5) [of x] by (auto simp: header_ok_def same)
  moreover have "RT_MEMHEAP_IS_USED h' = RT_MEMHEAP_IS_USED h" by (rule IS_USED_cong [OF same(1)])
  ultimately show "mh_blocks h' (as @ p # q # cs)"
    using c D(2,3,6) by (simp add: mh_blocks_def same)
  show "MEMITEM_SIZE h' x = (if x = p then MEMITEM_SIZE h p + MEMITEM_SIZE h n + 28 else MEMITEM_SIZE h x)" if "x \<noteq> n"
    using links(1) [OF that] that S(1-3) S2(1,3) by (auto simp: MEMITEM_SIZE_def)
qed

lemma blocks_retag:
  assumes B: "mh_blocks h bs" and p: "p \<noteq> last bs" and w: "w = 0x1ea01ea1 \<or> w = RT_MEMHEAP_MAGIC"
  shows "mh_blocks (set_magic p w h) bs" "MEMITEM_SIZE (set_magic p w h) = MEMITEM_SIZE h"
proof -
  have "header_ok (set_magic p w h) x" if "x \<in> set bs" for x
    using mh_blocksD(5) [OF B that] w by (auto simp: header_ok_def)
  moreover have "RT_MEMHEAP_IS_USED (set_magic p w h) (last bs)"
    using mh_blocksD(6) [OF B] p w by auto
  ultimately show "mh_blocks (set_magic p w h) bs" using B by (simp add: mh_blocks_def)
  show "MEMITEM_SIZE (set_magic p w h) = MEMITEM_SIZE h" by (rule SIZE_cong) simp
qed


section \<open>Allocation\<close>

text \<open>What every section leaves as it is.\<close>

definition mh_frame :: "rt_memheap \<Rightarrow> rt_memheap \<Rightarrow> bool" where
  "mh_frame h h' \<longleftrightarrow> mh_obj h' = mh_obj h \<and> mh_addr h' = mh_addr h \<and> mh_start_addr h' = mh_start_addr h
     \<and> mh_pool_size h' = mh_pool_size h \<and> mh_block_list h' = mh_block_list h \<and> mh_free_list h' = mh_free_list h
     \<and> mh_lock h' = mh_lock h \<and> mh_locked h' = mh_locked h \<and> mh_data h' = mh_data h"

lemma mh_frameD:
  assumes "mh_frame h h'"
  shows "mh_obj h' = mh_obj h" "mh_addr h' = mh_addr h" "mh_start_addr h' = mh_start_addr h"
    "mh_pool_size h' = mh_pool_size h" "mh_block_list h' = mh_block_list h" "mh_free_list h' = mh_free_list h"
    "mh_lock h' = mh_lock h" "mh_locked h' = mh_locked h" "mh_data h' = mh_data h"
  using assms by (simp_all add: mh_frame_def)

lemma mh_const_frame: "mh_frame h h' \<Longrightarrow> mh_const h' = mh_const h"
  by (rule mh_const_cong) (simp_all add: mh_frame_def)

text \<open>
  The invariant without the requirements that free blocks lie apart and are all in the free list,
  which do not hold between the steps.
\<close>

definition mh_mid :: "rt_memheap \<Rightarrow> nat list \<Rightarrow> nat list \<Rightarrow> bool" where
  "mh_mid h bs fs \<longleftrightarrow> mh_const h \<and> mh_blocks h bs \<and> ring (mh_free h) (mh_free_list h) fs
     \<and> mh_available_size h = (\<Sum>p \<in> free_blocks h bs. MEMITEM_SIZE h p)
     \<and> mh_pool_size h - mh_available_size h \<le> mh_max_used_size h"

lemma mh_inv_mid: "mh_inv h bs fs \<longleftrightarrow> mh_mid h bs fs \<and> set fs = free_blocks h bs \<and> mh_apart h bs"
  unfolding mh_inv_def mh_mid_def mh_frees_def by blast

lemma mh_midD:
  assumes "mh_mid h bs fs"
  shows "mh_const h" "mh_blocks h bs" "ring (mh_free h) (mh_free_list h) fs"
    "mh_available_size h = (\<Sum>p \<in> free_blocks h bs. MEMITEM_SIZE h p)"
    "mh_pool_size h - mh_available_size h \<le> mh_max_used_size h"
  using assms mh_mid_def by metis+

lemma finite_free [simp]: "finite (free_blocks h bs)"
  by (simp add: free_blocks_def)

lemma mh_find_ok:
  assumes "ring (mh_free h) (mh_free_list h) (as @ bs)" "f < sz"
  shows "(\<exists>p \<in> set bs. sz \<le> MEMITEM_SIZE h p
            \<and> memheap_find h sz (hd (bs @ [mh_free_list h])) f = Some (p, MEMITEM_SIZE h p))
     \<or> (\<forall>p \<in> set bs. MEMITEM_SIZE h p < sz)
        \<and> (\<exists>g < sz. memheap_find h sz (hd (bs @ [mh_free_list h])) f = Some (mh_free_list h, g))"
  using assms
proof (induction bs arbitrary: as f)
  case Nil
  then show ?case by (subst (1 2) memheap_find.simps) simp
next
  case (Cons p bs)
  let ?l = "mh_free_list h" and ?g = "MEMITEM_SIZE h p"
  have p: "p \<noteq> ?l" using Cons.prems(1) by (auto simp: ring_def)
  have nx: "nxt (mh_free h) p = hd (bs @ [?l])"
    using ring_split(2) [of "mh_free h" ?l "as @ [p]" bs] Cons.prems(1) by simp
  show ?case
  proof (cases "?g < sz")
    case True
    then have "memheap_find h sz p f = memheap_find h sz (hd (bs @ [?l])) ?g"
      using p Cons.prems(2) nx by (subst memheap_find.simps) simp
    moreover have "ring (mh_free h) ?l ((as @ [p]) @ bs)" using Cons.prems(1) by simp
    ultimately show ?thesis using Cons.IH [OF _ True, of "as @ [p]"] True by auto
  next
    case False
    then have "memheap_find h sz p ?g = Some (p, ?g)" by (subst memheap_find.simps) simp
    then have "memheap_find h sz p f = Some (p, ?g)"
      using p Cons.prems(2) False by (subst memheap_find.simps) simp
    then show ?thesis using False by auto
  qed
qed

text \<open>The blocks after an allocation; \<open>qs\<close> is the rest of a split block.\<close>

lemma mh_apart_Nil [simp]: "mh_apart h []"
  by (simp add: mh_apart_def)

lemma mh_apart_append:
  "mh_apart h (as @ bs) \<longleftrightarrow> mh_apart h as \<and> mh_apart h bs
     \<and> (as = [] \<or> bs = [] \<or> RT_MEMHEAP_IS_USED h (last as) \<or> RT_MEMHEAP_IS_USED h (hd bs))"
  by (auto simp: mh_apart_def successively_append_iff)

lemma mh_apart_Cons:
  "mh_apart h (x # bs) \<longleftrightarrow> bs = [] \<or> (RT_MEMHEAP_IS_USED h x \<or> RT_MEMHEAP_IS_USED h (hd bs)) \<and> mh_apart h bs"
  by (simp add: mh_apart_def successively_Cons)

lemma mh_apart_cong:
  assumes "\<And>x. x \<in> set bs \<Longrightarrow> RT_MEMHEAP_IS_USED h' x = RT_MEMHEAP_IS_USED h x"
  shows "mh_apart h' bs = mh_apart h bs"
  unfolding mh_apart_def by (rule successively_cong) (simp_all add: assms)

lemma take_whole:
  assumes inv: "mh_inv h (as @ p # q # cs) (f1 @ p # f2)"
    and n: "MEMITEM_SIZE h p < n + 40" "n \<le> MEMITEM_SIZE h p"
  shows "mh_inv (memheap_take p (MEMITEM_SIZE h p) n h) (as @ p # q # cs) (f1 @ f2)"
    "mh_live (memheap_take p (MEMITEM_SIZE h p) n h) (as @ p # q # cs)
      = insert (p + 28, MEMITEM_SIZE h p) (mh_live h (as @ p # q # cs))"
    "mh_frame h (memheap_take p (MEMITEM_SIZE h p) n h)"
proof -
  let ?bs = "as @ p # q # cs" and ?s = "MEMITEM_SIZE h p"
  let ?h1 = "memheap_account ?s h"
  let ?h = "set_magic p 0x1ea01ea1 (free_null p (free_unlink p ?h1))"
  have eq: "memheap_take p ?s n h = ?h" using n by (simp add: memheap_take_def)
  note I = mh_invD [OF inv] and B = mh_blocksD [OF mh_invD(2) [OF inv]] and S = blocks_split [OF mh_invD(2) [OF inv]]
  have ring: "ring (mh_free h) (mh_free_list h) (f1 @ p # f2)" and fs: "set (f1 @ p # f2) = free_blocks h ?bs"
    using I(3) by (simp_all add: mh_frees_def)
  have pf: "p \<in> free_blocks h ?bs" using fs by auto
  have dist: "p \<notin> set (f1 @ f2)" "p \<noteq> mh_free_list h" using ring by (auto simp: ring_def)
  show frame: "mh_frame h (memheap_take p ?s n h)" unfolding eq by (simp add: mh_frame_def)
  have used: "RT_MEMHEAP_IS_USED ?h x = (x = p \<or> RT_MEMHEAP_IS_USED h x)" for x
    by simp
  have sz: "MEMITEM_SIZE ?h = MEMITEM_SIZE h" by simp
  have fb: "free_blocks ?h ?bs = free_blocks h ?bs - {p}" by (auto simp: free_blocks_def)
  have "mh_blocks (free_null p (free_unlink p ?h1)) ?bs = mh_blocks h ?bs" by (rule blocks_cong) simp_all
  then have blocks: "mh_blocks ?h ?bs" using I(2) S(7) by (intro blocks_retag) simp_all
  have "ring (mh_free (free_unlink p ?h1)) (mh_free_list h) (f1 @ f2)"
    by (rule free_unlink_ring) (use ring in simp)
  then have "ring (mh_free (free_null p (free_unlink p ?h1))) (mh_free_list h) (f1 @ f2)"
    by (rule free_null_ring) (use dist in simp)
  then have frees: "mh_frees ?h ?bs (f1 @ f2)"
    using fs dist by (auto simp: mh_frees_def fb)
  have "mh_apart ?h ?bs"
    unfolding mh_apart_def
    by (rule successively_mono [OF I(4) [unfolded mh_apart_def]]) auto
  moreover have "mh_available_size ?h = (\<Sum>x \<in> free_blocks ?h ?bs. MEMITEM_SIZE ?h x)"
    using sum.remove [OF finite_free pf, of "MEMITEM_SIZE h"] I(5) by (simp add: fb sz)
  moreover have "mh_pool_size ?h - mh_available_size ?h \<le> mh_max_used_size ?h"
    using account_max [of h ?s] by (simp add: set_magic_def)
  ultimately show "mh_inv (memheap_take p ?s n h) ?bs (f1 @ f2)"
    using blocks frees I(1) mh_const_frame [OF frame] unfolding eq mh_inv_def by blast
  have "{x \<in> set ?bs. RT_MEMHEAP_IS_USED ?h x \<and> x \<noteq> last ?bs} = insert p {x \<in> set ?bs. RT_MEMHEAP_IS_USED h x \<and> x \<noteq> last ?bs}"
    using S(7) by auto
  then show "mh_live (memheap_take p ?s n h) ?bs = insert (p + 28, ?s) (mh_live h ?bs)"
    unfolding eq mh_live_def sz by simp
qed

text \<open>A new free block behind p, at the front of the free list.\<close>

lemma add_block:
  assumes C: "mh_const g" and B: "mh_blocks g (as @ p # q # cs)" and R: "ring (mh_free g) (mh_free_list g) fs"
    and fs: "set fs \<subseteq> set (as @ p # q # cs)" and gaps: "block_gap p n" "block_gap n q" "n mod 4 = 0"
    and h: "h = free_insert n (memheap_new_block n p g)"
  shows "mh_blocks h (as @ p # n # q # cs)" "ring (mh_free h) (mh_free_list h) (n # fs)"
    "free_blocks h (as @ p # n # q # cs) = insert n (free_blocks g (as @ p # q # cs))"
    "n \<notin> set (as @ p # q # cs)" "RT_MEMHEAP_IS_USED h x \<longleftrightarrow> x \<noteq> n \<and> RT_MEMHEAP_IS_USED g x"
    "MEMITEM_SIZE h x = (if x = p then n - p - 28 else if x = n then q - n - 28 else MEMITEM_SIZE g x)"
    "(\<Sum>x \<in> insert n (free_blocks g (as @ p # q # cs) - {p}). MEMITEM_SIZE h x)
      = (q - n - 28) + (\<Sum>x \<in> free_blocks g (as @ p # q # cs) - {p}. MEMITEM_SIZE g x)"
    "n \<notin> set xs \<Longrightarrow> mh_apart h xs = mh_apart g xs" "mh_frame g h"
    "mh_available_size h = mh_available_size g" "mh_max_used_size h = mh_max_used_size g"
    "mh_live h (as @ p # n # q # cs) - {(p + 28, n - p - 28)} = mh_live g (as @ p # q # cs) - {(p + 28, MEMITEM_SIZE g p)}"
proof -
  let ?bs = "as @ p # q # cs" and ?bs' = "as @ p # n # q # cs" and ?h1 = "memheap_new_block n p g"
  note S = blocks_split [OF B] and Ins = blocks_insert [OF B gaps]
  show nb: "n \<notin> set ?bs" by (rule Ins(3))
  show used: "RT_MEMHEAP_IS_USED h x \<longleftrightarrow> x \<noteq> n \<and> RT_MEMHEAP_IS_USED g x" for x by (simp add: h)
  show sz: "MEMITEM_SIZE h x = (if x = p then n - p - 28 else if x = n then q - n - 28 else MEMITEM_SIZE g x)" for x
    using Ins(2) [of x] by (simp add: h)
  show "mh_blocks h ?bs'" using Ins(1) unfolding h by (subst blocks_cong [of _ ?h1]) simp_all
  have "n \<noteq> mh_free_list g"
    using mh_constD(6) [OF C] S(8,9) gaps(1,2) by (auto simp: block_gap_def)
  then show "ring (mh_free h) (mh_free_list h) (n # fs)"
    using free_insert_ring [of ?h1 fs n] R nb fs by (auto simp: h)
  show "free_blocks h ?bs' = insert n (free_blocks g ?bs)" using nb by (auto simp: free_blocks_def used)
  have "(\<Sum>x \<in> free_blocks g ?bs - {p}. MEMITEM_SIZE h x) = (\<Sum>x \<in> free_blocks g ?bs - {p}. MEMITEM_SIZE g x)"
    using nb by (intro sum.cong refl) (auto simp: sz free_blocks_def)
  then show "(\<Sum>x \<in> insert n (free_blocks g ?bs - {p}). MEMITEM_SIZE h x)
      = (q - n - 28) + (\<Sum>x \<in> free_blocks g ?bs - {p}. MEMITEM_SIZE g x)"
    using nb by (subst sum.insert) (auto simp: sz free_blocks_def)
  show "mh_apart h xs = mh_apart g xs" if "n \<notin> set xs" for xs
    using that by (intro mh_apart_cong) (auto simp: used)
  show "mh_frame g h" by (simp add: h mh_frame_def)
  show "mh_available_size h = mh_available_size g" "mh_max_used_size h = mh_max_used_size g" by (simp_all add: h)
  show "mh_live h ?bs' - {(p + 28, n - p - 28)} = mh_live g ?bs - {(p + 28, MEMITEM_SIZE g p)}"
    using nb by (auto simp: mh_live_def sz used)
qed

lemma new_block_commute:
  "free_null p (free_unlink p (memheap_new_block n r h)) = memheap_new_block n r (free_null p (free_unlink p h))"
  by (simp add: memheap_new_block_def free_null_def free_unlink_def set_magic_def Let_def)

lemma take_split:
  assumes inv: "mh_inv h (as @ p # q # cs) (f1 @ p # f2)"
    and n: "n + 40 \<le> MEMITEM_SIZE h p" "12 \<le> n" "n mod 4 = 0"
  shows "mh_inv (memheap_take p (MEMITEM_SIZE h p) n h) (as @ p # (p + n + 28) # q # cs) ((p + n + 28) # f1 @ f2)"
    "mh_live (memheap_take p (MEMITEM_SIZE h p) n h) (as @ p # (p + n + 28) # q # cs)
      = insert (p + 28, n) (mh_live h (as @ p # q # cs))"
    "mh_frame h (memheap_take p (MEMITEM_SIZE h p) n h)"
proof -
  let ?bs = "as @ p # q # cs" and ?s = "MEMITEM_SIZE h p" and ?n = "p + n + 28"
  let ?bs' = "as @ p # ?n # q # cs"
  define g where "g = free_null p (free_unlink p h)"
  define h3 where "h3 = free_insert ?n (memheap_new_block ?n p g)"
  let ?h = "set_magic p 0x1ea01ea1 (memheap_account (n + 28) h3)"
  have eq: "memheap_take p ?s n h = ?h"
    using n by (simp add: memheap_take_def Let_def new_block_commute g_def h3_def)
  note I = mh_invD [OF inv] and mid = mh_inv_mid [THEN iffD1, OF inv] and S = blocks_split [OF mh_invD(2) [OF inv]]
  have pf: "p \<in> free_blocks h ?bs" using mid by auto
  then have pu: "\<not> RT_MEMHEAP_IS_USED h p" by (simp add: free_blocks_def)
  have dist: "p \<notin> set (f1 @ f2)" "p \<noteq> mh_free_list h" using mh_midD(3) [OF conjunct1 [OF mid]] by (auto simp: ring_def)
  have g: "RT_MEMHEAP_IS_USED g = RT_MEMHEAP_IS_USED h" "MEMITEM_SIZE g = MEMITEM_SIZE h" "mh_frame h g"
    "mh_available_size g = mh_available_size h" "mh_max_used_size g = mh_max_used_size h"
    by (simp_all add: g_def mh_frame_def)
  have fbg: "free_blocks g ?bs = free_blocks h ?bs" by (simp add: free_blocks_def g)
  have Bg: "mh_blocks g ?bs" using I(2) unfolding g_def by (subst blocks_cong [of _ h]) simp_all
  have Cg: "mh_const g" using mh_const_frame [OF g(3)] I(1) by simp
  have "ring (mh_free (free_unlink p h)) (mh_free_list h) (f1 @ f2)"
    using mh_midD(3) [of h ?bs] mid by (intro free_unlink_ring) simp
  then have Rg: "ring (mh_free g) (mh_free_list g) (f1 @ f2)" unfolding g_def using dist by (simp add: free_null_ring)
  have fs: "set (f1 @ f2) = free_blocks h ?bs - {p}" using mid dist by auto
  have gaps: "block_gap p ?n" "block_gap ?n q" "?n mod 4 = 0"
    using n S(3,4) mh_blocksD(5) [OF I(2), of p] mod_add_eq [of p 4 n] mod_add_eq [of "p + n" 4 28]
    by (simp_all add: block_gap_def header_ok_def)
  have sub: "set (f1 @ f2) \<subseteq> set ?bs" unfolding fs by (auto simp: free_blocks_def)
  note A = add_block [OF Cg Bg Rg sub gaps h3_def]
  have used: "RT_MEMHEAP_IS_USED ?h x = (x = p \<or> x \<noteq> ?n \<and> RT_MEMHEAP_IS_USED h x)" for x by (simp add: A(5) g)
  have frame: "mh_frame h ?h" using mh_frameD [OF g(3)] mh_frameD [OF A(9)] by (simp add: mh_frame_def)
  then show "mh_frame h (memheap_take p ?s n h)" unfolding eq .
  have fb: "free_blocks ?h ?bs' = insert ?n (free_blocks g ?bs - {p})"
    using A(4) by (auto simp: free_blocks_def A(5) g(1))
  have "mh_mid ?h ?bs' (?n # f1 @ f2)"
    unfolding mh_mid_def
  proof (intro conjI)
    show "mh_const ?h" using mh_const_frame [OF frame] I(1) by simp
    have "mh_blocks (memheap_account (n + 28) h3) ?bs'" using A(1) by (subst blocks_cong [of _ h3]) simp_all
    then show "mh_blocks ?h ?bs'" using S(7) by (intro blocks_retag) simp_all
    show "ring (mh_free ?h) (mh_free_list ?h) (?n # f1 @ f2)" using A(2) by simp
    show "mh_available_size ?h = (\<Sum>x \<in> free_blocks ?h ?bs'. MEMITEM_SIZE ?h x)"
      using A(7) S(4) n(1) I(5) sum.remove [OF finite_free pf, of "MEMITEM_SIZE h"] unfolding fb
      by (simp add: A(10) g fbg)
    show "mh_pool_size ?h - mh_available_size ?h \<le> mh_max_used_size ?h" using account_max [of h3 "n + 28"] by simp
  qed
  moreover have "set (?n # f1 @ f2) = free_blocks ?h ?bs'" unfolding fb fbg using fs by simp
  moreover have "mh_apart ?h ?bs'"
  proof -
    have "mh_apart h as" "mh_apart h (q # cs)" "as = [] \<or> RT_MEMHEAP_IS_USED h (last as)" "RT_MEMHEAP_IS_USED h q"
      using I(4) pu by (auto simp: mh_apart_append mh_apart_Cons)
    moreover have "mh_apart ?h as = mh_apart h as" "mh_apart ?h (q # cs) = mh_apart h (q # cs)"
      using A(4) mh_blocksD(8) [OF I(2)] by (intro mh_apart_cong; auto simp: A(5) g(1))+
    ultimately show ?thesis using A(4) by (auto simp: mh_apart_append mh_apart_Cons A(5) g(1))
  qed
  ultimately show "mh_inv (memheap_take p ?s n h) ?bs' (?n # f1 @ f2)" unfolding eq by (simp add: mh_inv_mid)
  have "MEMITEM_SIZE ?h x = (if x = p then n else if x = ?n then q - ?n - 28 else MEMITEM_SIZE h x)" for x
    using A(6) by (simp add: g)
  then show "mh_live (memheap_take p ?s n h) ?bs' = insert (p + 28, n) (mh_live h ?bs)"
    unfolding eq using A(4) S(7) pu by (auto simp: mh_live_def A(5) g(1))
qed

lemma live_base:
  assumes "mh_blocks h bs" "(a, n) \<in> mh_live h bs"
  obtains p as q cs where "bs = as @ p # q # cs" "a = p + 28" "n = MEMITEM_SIZE h p" "RT_MEMHEAP_IS_USED h p"
proof -
  obtain p where "p \<in> set bs" "p \<noteq> last bs" "a = p + 28" "n = MEMITEM_SIZE h p" "RT_MEMHEAP_IS_USED h p"
    using assms(2) by (auto simp: mh_live_def)
  then show thesis using that blocks_member [OF assms(1)] by metis
qed

lemma live_except:
  "mh_live h bs - {(p + 28, MEMITEM_SIZE h p)}
    = (\<lambda>p. (p + 28, MEMITEM_SIZE h p)) ` ({p \<in> set bs. RT_MEMHEAP_IS_USED h p \<and> p \<noteq> last bs} - {p})"
  by (auto simp: mh_live_def)

lemma alloc_section_ok:
  assumes inv: "mh_inv h bs fs" and n: "n mod 4 = 0" "12 \<le> n"
  shows "(\<exists>h' bs' fs' a len. memheap_alloc_section n h = Some (Some a, h') \<and> mh_inv h' bs' fs'
            \<and> mh_live h' bs' = insert (a, len) (mh_live h bs) \<and> n \<le> len \<and> len < n + 40
            \<and> (\<forall>k. (a, k) \<notin> mh_live h bs) \<and> mh_frame h h')
     \<or> (memheap_alloc_section n h = Some (None, h) \<and> (\<forall>p \<in> free_blocks h bs. MEMITEM_SIZE h p < n))"
proof -
  note I = mh_invD [OF inv]
  let ?l = "mh_free_list h"
  have ring: "ring (mh_free h) ?l ([] @ fs)" and fs: "set fs = free_blocks h bs"
    using I(3) by (simp_all add: mh_frees_def)
  have first: "nxt (mh_free h) ?l = hd (fs @ [?l])" using ring_split(2) [OF ring] by simp
  have "0 < n" using n(2) by simp
  from mh_find_ok [OF ring this] consider
    (found) p where "p \<in> set fs" "n \<le> MEMITEM_SIZE h p" "memheap_find h n (hd (fs @ [?l])) 0 = Some (p, MEMITEM_SIZE h p)"
  | (none) g where "\<forall>p \<in> set fs. MEMITEM_SIZE h p < n" "g < n" "memheap_find h n (hd (fs @ [?l])) 0 = Some (?l, g)"
    by blast
  then show ?thesis
  proof cases
    case found
    let ?h = "memheap_take p (MEMITEM_SIZE h p) n h"
    have sec: "memheap_alloc_section n h = Some (Some (p + 28), ?h)"
      using found(2,3) by (simp add: memheap_alloc_section_def first)
    have p: "p \<in> set bs" "\<not> RT_MEMHEAP_IS_USED h p" using found(1) fs by (auto simp: free_blocks_def)
    then have "p \<noteq> last bs" using mh_blocksD(6) [OF I(2)] by auto
    then obtain as q cs where bs: "bs = as @ p # q # cs" using blocks_member [OF I(2) p(1)] by blast
    obtain f1 f2 where f: "fs = f1 @ p # f2" using found(1) by (auto simp: in_set_conv_decomp)
    have new: "(p + 28, k) \<notin> mh_live h bs" for k using p(2) by (auto simp: mh_live_def)
    show ?thesis
    proof (cases "n + 40 \<le> MEMITEM_SIZE h p")
      case True
      note t = take_split [OF inv [unfolded bs f] True n(2,1)]
      show ?thesis using sec t new unfolding bs by (intro disjI1 exI conjI) (assumption | simp)+
    next
      case False
      then have "MEMITEM_SIZE h p < n + 40" by simp
      note t = take_whole [OF inv [unfolded bs f] this found(2)]
      show ?thesis using sec t new found(2) False unfolding bs by (intro disjI1 exI conjI) (assumption | simp)+
    qed
  next
    case none
    then show ?thesis using fs by (simp add: memheap_alloc_section_def first)
  qed
qed

text \<open>The lock is free, and it is free again when the section has returned.\<close>

definition memheap_lock_free :: "rt_memheap \<Rightarrow> kstate \<Rightarrow> bool" where
  "memheap_lock_free h s \<longleftrightarrow> mh_locked h
     \<or> sem_obj (k_sem s (mh_lock h)) \<and> 0 < sem_value (k_sem s (mh_lock h))
       \<and> sem_value (k_sem s (mh_lock h)) \<le> RT_SEM_VALUE_MAX \<and> k_lists s (SemQ (mh_lock h)) = []"

lemma locked_run:
  assumes f: "memheap_lock_free h s" and b: "body h = Some (x, h1)" and same: "mh_lock h1 = mh_lock h" "mh_locked h1 = mh_locked h"
  shows "memheap_locked body bad (h, s) = Some (Returned x, h1, s)"
proof (cases "mh_locked h")
  case True
  then show ?thesis using b same by (simp add: memheap_locked_def memheap_leave_def)
next
  case False
  let ?n = "mh_lock h"
  have q: "sem_obj (k_sem s ?n)" "0 < sem_value (k_sem s ?n)" "sem_value (k_sem s ?n) \<le> RT_SEM_VALUE_MAX"
    "k_lists s (SemQ ?n) = []" using f False by (auto simp: memheap_lock_free_def)
  let ?s1 = "upd_sem ?n (\<lambda>m. m\<lparr>sem_value := sem_value m - 1\<rparr>) s"
  have "upd_sem ?n (\<lambda>m. m\<lparr>sem_value := sem_value m + 1\<rparr>) ?s1 = s"
    using q(2) by (simp add: upd_sem_def)
  moreover have "rt_sem_take ?n (-1) s = Some (Returned RT_EOK, ?s1)" using q by (simp add: rt_sem_take_def)
  moreover have "rt_sem_release ?n ?s1 = Some (RT_EOK, upd_sem ?n (\<lambda>m. m\<lparr>sem_value := sem_value m + 1\<rparr>) ?s1)"
    using q by (simp add: rt_sem_release_def)
  ultimately show ?thesis using b same False by (simp add: memheap_locked_def memheap_leave_def)
qed

lemma memheap_request_eq: "memheap_request = smem_request"
  by (simp add: memheap_request_def smem_request_def fun_eq_iff)

lemma mh_lock_frame: "mh_frame h h' \<Longrightarrow> memheap_lock_free h' s = memheap_lock_free h s"
  by (simp add: memheap_lock_free_def mh_frame_def)

lemma memheap_alloc_ok:
  assumes inv: "mh_inv h bs fs" and lk: "memheap_lock_free h s"
  shows "(\<exists>h' bs' fs' a len. rt_memheap_alloc sz (h, s) = Some (Returned (Some a), h', s) \<and> mh_inv h' bs' fs'
            \<and> mh_live h' bs' = insert (a, len) (mh_live h bs) \<and> memheap_request sz \<le> len \<and> len < memheap_request sz + 40
            \<and> (\<forall>k. (a, k) \<notin> mh_live h bs) \<and> mh_frame h h')
     \<or> (rt_memheap_alloc sz (h, s) = Some (Returned None, h, s)
         \<and> ((\<forall>p \<in> free_blocks h bs. MEMITEM_SIZE h p < memheap_request sz) \<or> mh_available_size h = memheap_request sz))"
proof -
  let ?n = "memheap_request sz"
  note I = mh_invD [OF inv]
  have n: "?n mod 4 = 0" "12 \<le> ?n" using request_ok(1,2) [of sz] by (simp_all add: memheap_request_eq)
  have obj: "mh_obj h" using mh_constD(1) [OF I(1)] .
  show ?thesis
  proof (cases "?n < mh_available_size h")
    case False
    have "MEMITEM_SIZE h p \<le> mh_available_size h" if "p \<in> free_blocks h bs" for p
      using member_le_sum [OF that, of "MEMITEM_SIZE h"] I(5) by simp
    then show ?thesis using False obj by (fastforce simp: rt_memheap_alloc_def)
  next
    case True
    from alloc_section_ok [OF inv n] show ?thesis
    proof (elim disjE exE conjE)
      fix h' bs' fs' a len
      assume a: "memheap_alloc_section ?n h = Some (Some a, h')" "mh_inv h' bs' fs'" "mh_live h' bs' = insert (a, len) (mh_live h bs)"
        "?n \<le> len" "len < ?n + 40" "\<forall>k. (a, k) \<notin> mh_live h bs" "mh_frame h h'"
      have "memheap_locked (memheap_alloc_section ?n) None (h, s) = Some (Returned (Some a), h', s)"
        by (rule locked_run [where body = "memheap_alloc_section ?n", OF lk a(1)]) (use a(7) in \<open>simp_all add: mh_frame_def\<close>)
      then show ?thesis using a(2-7) True obj by (intro disjI1) (simp add: rt_memheap_alloc_def, blast)
    next
      assume a: "memheap_alloc_section ?n h = Some (None, h)" "\<forall>p \<in> free_blocks h bs. MEMITEM_SIZE h p < ?n"
      have "memheap_locked (memheap_alloc_section ?n) None (h, s) = Some (Returned None, h, s)"
        by (rule locked_run [where body = "memheap_alloc_section ?n", OF lk a(1)]) simp_all
      then show ?thesis using a(2) True obj by (simp add: rt_memheap_alloc_def)
    qed
  qed
qed


section \<open>Release\<close>

lemma sum_merge:
  fixes S S' :: "nat \<Rightarrow> nat"
  assumes "finite F" "p \<in> F" "n \<in> F" "p \<noteq> n" "S' p = S p + S n + k" "\<And>x. x \<in> F \<Longrightarrow> x \<noteq> p \<Longrightarrow> x \<noteq> n \<Longrightarrow> S' x = S x"
  shows "sum S' (F - {n}) = sum S F + k"
proof -
  have "sum S' (F - {n}) = S' p + sum S' (F - {n} - {p})" using assms(1-4) by (intro sum.remove) auto
  also have "sum S' (F - {n} - {p}) = sum S (F - {n} - {p})" using assms(6) by (intro sum.cong) auto
  also have "S' p + \<dots> = (S p + sum S (F - {n} - {p})) + S n + k" using assms(5) by simp
  also have "S p + sum S (F - {n} - {p}) = sum S (F - {n})" using assms(1-4) by (intro sum.remove [symmetric]) auto
  also have "sum S (F - {n}) + S n = sum S F" using assms(1,3) by (simp add: sum.remove [of F n])
  finally show ?thesis .
qed

text \<open>Two neighbouring free blocks become one; the second is not, or no longer, in the free list.\<close>

lemma merge_blocks:
  assumes B: "mh_blocks h (as @ p # n # q # cs)" and free: "\<not> RT_MEMHEAP_IS_USED h p" "\<not> RT_MEMHEAP_IS_USED h n"
    and links: "\<And>x. x \<noteq> n \<Longrightarrow> nxt (mh_blk h') x = ((nxt (mh_blk h))(p := q)) x"
      "\<And>x. x \<noteq> n \<Longrightarrow> prv (mh_blk h') x = ((prv (mh_blk h))(q := p)) x"
    and same: "mh_magic h' = mh_magic h" "mh_pool_ptr h' = mh_pool_ptr h" "mh_addr h' = mh_addr h"
      "mh_start_addr h' = mh_start_addr h" "mh_pool_size h' = mh_pool_size h"
  shows "mh_blocks h' (as @ p # q # cs)"
    "free_blocks h' (as @ p # q # cs) = free_blocks h (as @ p # n # q # cs) - {n}"
    "(\<Sum>x \<in> free_blocks h' (as @ p # q # cs). MEMITEM_SIZE h' x)
      = (\<Sum>x \<in> free_blocks h (as @ p # n # q # cs). MEMITEM_SIZE h x) + 28"
    "mh_live h' (as @ p # q # cs) = mh_live h (as @ p # n # q # cs)"
    "\<And>xs. mh_apart h' xs = mh_apart h xs"
proof -
  note R = blocks_remove [OF B links same]
  show "mh_blocks h' (as @ p # q # cs)" by (rule R(1))
  have used: "RT_MEMHEAP_IS_USED h' = RT_MEMHEAP_IS_USED h" by (rule IS_USED_cong [OF same(1)])
  have dist: "n \<notin> set (as @ p # q # cs)" "p \<noteq> n" using mh_blocksD(8) [OF B] by auto
  show fb: "free_blocks h' (as @ p # q # cs) = free_blocks h (as @ p # n # q # cs) - {n}"
    using dist by (auto simp: free_blocks_def used)
  have sz: "MEMITEM_SIZE h' p = MEMITEM_SIZE h p + MEMITEM_SIZE h n + 28"
    "\<And>x. x \<noteq> p \<Longrightarrow> x \<noteq> n \<Longrightarrow> MEMITEM_SIZE h' x = MEMITEM_SIZE h x" using R(2) dist(2) by auto
  show "(\<Sum>x \<in> free_blocks h' (as @ p # q # cs). MEMITEM_SIZE h' x)
      = (\<Sum>x \<in> free_blocks h (as @ p # n # q # cs). MEMITEM_SIZE h x) + 28"
    unfolding fb by (rule sum_merge [OF finite_free _ _ dist(2) sz]) (use free in \<open>auto simp: free_blocks_def\<close>)
  have "{x \<in> set (as @ p # q # cs). RT_MEMHEAP_IS_USED h' x \<and> x \<noteq> last (as @ p # q # cs)}
      = {x \<in> set (as @ p # n # q # cs). RT_MEMHEAP_IS_USED h x \<and> x \<noteq> last (as @ p # n # q # cs)}"
    using free by (auto simp: used)
  moreover have "MEMITEM_SIZE h' x = MEMITEM_SIZE h x" if "RT_MEMHEAP_IS_USED h x" for x
    using sz(2) [of x] that free by auto
  ultimately show "mh_live h' (as @ p # q # cs) = mh_live h (as @ p # n # q # cs)"
    unfolding mh_live_def by (auto intro!: image_cong)
  show "mh_apart h' xs = mh_apart h xs" for xs by (rule mh_apart_cong) (simp add: used)
qed

lemma apart_tl: "mh_apart h (x # xs) \<Longrightarrow> mh_apart h xs"
  by (cases xs) (auto simp: mh_apart_Cons)

text \<open>The block x is free and its right neighbour is used, or it is combined with it.\<close>

lemma merge_right_ok:
  assumes mid: "mh_mid h (as @ x # q # cs) fs" and x: "\<not> RT_MEMHEAP_IS_USED h x"
    and fs: "free_blocks h (as @ x # q # cs) - {x} \<subseteq> set fs" "set fs \<subseteq> free_blocks h (as @ x # q # cs)"
    and ap: "mh_apart h as" "as = [] \<or> RT_MEMHEAP_IS_USED h (last as)" "mh_apart h (q # cs)"
  obtains ys f where "mh_mid (memheap_merge_right x h) (as @ x # ys) f" "mh_apart (memheap_merge_right x h) (as @ x # ys)"
    "\<not> RT_MEMHEAP_IS_USED (memheap_merge_right x h) x"
    "free_blocks (memheap_merge_right x h) (as @ x # ys) - {x} \<subseteq> set f"
    "set f \<subseteq> free_blocks (memheap_merge_right x h) (as @ x # ys)" "x \<in> set f \<longleftrightarrow> x \<in> set fs"
    "mh_live (memheap_merge_right x h) (as @ x # ys) = mh_live h (as @ x # q # cs)"
    "mh_frame h (memheap_merge_right x h)"
proof (cases "RT_MEMHEAP_IS_USED h q")
  case True
  have nx: "nxt (mh_blk h) x = q" by (rule blocks_split(1) [OF mh_midD(2) [OF mid]])
  then have eq: "memheap_merge_right x h = h" using True by (simp add: memheap_merge_right_def)
  show thesis
  proof (rule that [of "q # cs" fs])
    show "mh_apart (memheap_merge_right x h) (as @ x # q # cs)"
      unfolding eq using ap True by (auto simp: mh_apart_append mh_apart_Cons)
    show "mh_frame h (memheap_merge_right x h)" unfolding eq by (simp add: mh_frame_def)
  qed (use mid x fs in \<open>simp_all add: eq\<close>)
next
  case q: False
  note M = mh_midD [OF mid]
  have "q \<noteq> last (as @ x # q # cs)" using mh_blocksD(6) [OF M(2)] q by metis
  then obtain y ds where cs: "cs = y # ds" by (cases cs) auto
  have B: "mh_blocks h (as @ x # q # y # ds)" using M(2) cs by simp
  have B2: "mh_blocks h ((as @ [x]) @ q # y # ds)" using B by simp
  note S = blocks_split [OF B] and S2 = blocks_split [OF B2]
  let ?h' = "memheap_merge_right x h"
  define h1 where "h1 = h\<lparr>mh_available_size := mh_available_size h + 28,
    mh_blk := set_nxt x (nxt (mh_blk h) q) (set_prv (nxt (mh_blk h) q) x (mh_blk h))\<rparr>"
  have eq: "?h' = free_unlink q h1"
    using S(1) S2(1) q by (simp add: memheap_merge_right_def Let_def h1_def set_nxt_def set_prv_def)
  have f1: "mh_obj h1 = mh_obj h" "mh_addr h1 = mh_addr h" "mh_start_addr h1 = mh_start_addr h"
    "mh_pool_size h1 = mh_pool_size h" "mh_block_list h1 = mh_block_list h" "mh_free_list h1 = mh_free_list h"
    "mh_lock h1 = mh_lock h" "mh_locked h1 = mh_locked h" "mh_data h1 = mh_data h" "mh_free h1 = mh_free h"
    "mh_magic h1 = mh_magic h" "mh_pool_ptr h1 = mh_pool_ptr h" "mh_max_used_size h1 = mh_max_used_size h"
    "mh_available_size h1 = mh_available_size h + 28" by (simp_all add: h1_def)
  have links: "nxt (mh_blk ?h') z = ((nxt (mh_blk h))(x := y)) z" "prv (mh_blk ?h') z = ((prv (mh_blk h))(y := x)) z" for z
    using S2(1) by (simp_all add: eq h1_def set_nxt_def set_prv_def)
  note R = merge_blocks [OF B x q links]
  have same: "mh_magic ?h' = mh_magic h" "mh_pool_ptr ?h' = mh_pool_ptr h" "mh_addr ?h' = mh_addr h"
    "mh_start_addr ?h' = mh_start_addr h" "mh_pool_size ?h' = mh_pool_size h" by (simp_all add: eq f1)
  note R = R [OF same]
  have frame: "mh_frame h ?h'" by (simp add: mh_frame_def eq f1)
  have used: "RT_MEMHEAP_IS_USED ?h' = RT_MEMHEAP_IS_USED h" by (rule IS_USED_cong [OF same(1)])
  have dist: "distinct (as @ x # q # y # ds)" by (rule mh_blocksD(8) [OF B])
  have "q \<in> set fs" using fs(1) q dist cs by (auto simp: free_blocks_def)
  then obtain fa fb where f: "fs = fa @ q # fb" by (auto simp: in_set_conv_decomp)
  have qf: "q \<notin> set (fa @ fb)" using M(3) f by (auto simp: ring_def)
  have ring: "ring (mh_free ?h') (mh_free_list ?h') (fa @ fb)"
    unfolding eq using free_unlink_ring [of h1 "mh_free_list h" fa q fb] M(3) f by (simp add: f1)
  have y: "RT_MEMHEAP_IS_USED h y" using ap(3) q by (simp add: cs mh_apart_Cons)
  show thesis
  proof (rule that [of "y # ds" "fa @ fb"])
    show "mh_mid ?h' (as @ x # y # ds) (fa @ fb)"
      unfolding mh_mid_def
    proof (intro conjI)
      show "mh_const ?h'" using mh_const_frame [OF frame] M(1) by simp
      show "mh_available_size ?h' = (\<Sum>p \<in> free_blocks ?h' (as @ x # y # ds). MEMITEM_SIZE ?h' p)"
        using R(3) M(4) by (simp add: cs eq f1)
      show "mh_pool_size ?h' - mh_available_size ?h' \<le> mh_max_used_size ?h'" using M(5) by (simp add: eq f1)
    qed (rule R(1) ring)+
    show "mh_apart ?h' (as @ x # y # ds)"
      unfolding R(5) using ap y apart_tl [of h q "y # ds"] cs by (auto simp: mh_apart_append mh_apart_Cons)
    show "\<not> RT_MEMHEAP_IS_USED ?h' x" using x by (simp add: used)
    show "free_blocks ?h' (as @ x # y # ds) - {x} \<subseteq> set (fa @ fb)" "set (fa @ fb) \<subseteq> free_blocks ?h' (as @ x # y # ds)"
      using fs qf unfolding R(2) cs f by auto
    show "x \<in> set (fa @ fb) \<longleftrightarrow> x \<in> set fs" using dist f by auto
    show "mh_live ?h' (as @ x # y # ds) = mh_live h (as @ x # q # cs)" using R(4) by (simp add: cs)
  qed (rule frame)
qed

lemma IS_USED_merge_right [simp]: "RT_MEMHEAP_IS_USED (memheap_merge_right x h) = RT_MEMHEAP_IS_USED h"
  by (rule IS_USED_cong) (simp add: memheap_merge_right_def Let_def)

lemma mh_frame_trans: "mh_frame h h1 \<Longrightarrow> mh_frame h1 h2 \<Longrightarrow> mh_frame h h2"
  by (simp add: mh_frame_def)

lemma merge_left_ok:
  assumes mid: "mh_mid h (as @ r # p # q # cs) fs" and free: "\<not> RT_MEMHEAP_IS_USED h r" "\<not> RT_MEMHEAP_IS_USED h p"
  obtains h' where "memheap_merge_left p h = (r, False, h')" "mh_mid h' (as @ r # q # cs) fs"
    "free_blocks h' (as @ r # q # cs) = free_blocks h (as @ r # p # q # cs) - {p}"
    "mh_live h' (as @ r # q # cs) = mh_live h (as @ r # p # q # cs)" "RT_MEMHEAP_IS_USED h' = RT_MEMHEAP_IS_USED h"
    "mh_frame h h'"
proof -
  note M = mh_midD [OF mid]
  have B2: "mh_blocks h ((as @ [r]) @ p # q # cs)" using M(2) by simp
  note S = blocks_split [OF M(2)] and S2 = blocks_split [OF B2]
  define h' where "h' = h\<lparr>mh_available_size := mh_available_size h + 28,
    mh_blk := set_prv q r (set_nxt r q (mh_blk h))\<rparr>"
  have ne: "r \<noteq> p" "q \<noteq> p" using S(3) S2(3) by auto
  have eq: "memheap_merge_left p h = (r, False, h')"
    using S(1,2) S2(1,2) free(1) ne by (simp add: memheap_merge_left_def Let_def h'_def set_nxt_def set_prv_def)
  have links: "nxt (mh_blk h') z = ((nxt (mh_blk h))(r := q)) z" "prv (mh_blk h') z = ((prv (mh_blk h))(q := r)) z" for z
    by (simp_all add: h'_def set_nxt_def set_prv_def)
  have same: "mh_magic h' = mh_magic h" "mh_pool_ptr h' = mh_pool_ptr h" "mh_addr h' = mh_addr h"
    "mh_start_addr h' = mh_start_addr h" "mh_pool_size h' = mh_pool_size h" by (simp_all add: h'_def)
  note R = merge_blocks [OF M(2) free links same]
  have frame: "mh_frame h h'" by (simp add: mh_frame_def h'_def)
  have "mh_mid h' (as @ r # q # cs) fs"
    unfolding mh_mid_def
  proof (intro conjI)
    show "mh_const h'" using mh_const_frame [OF frame] M(1) by simp
    show "ring (mh_free h') (mh_free_list h') fs" using M(3) by (simp add: h'_def)
    show "mh_available_size h' = (\<Sum>p \<in> free_blocks h' (as @ r # q # cs). MEMITEM_SIZE h' p)"
      using R(3) M(4) by (simp add: h'_def)
    show "mh_pool_size h' - mh_available_size h' \<le> mh_max_used_size h'" using M(5) by (simp add: h'_def)
  qed (rule R(1))
  then show thesis using that [OF eq] R(2,4) IS_USED_cong [OF same(1)] frame by blast
qed

text \<open>Marking a used block as free, before it is combined and linked.\<close>

definition memheap_unmark :: "nat \<Rightarrow> rt_memheap \<Rightarrow> rt_memheap" where
  "memheap_unmark p h =
     (let h1 = set_magic p RT_MEMHEAP_MAGIC h
      in h1\<lparr>mh_available_size := mh_available_size h1 + MEMITEM_SIZE h1 p\<rparr>)"

lemma unmark_fields [simp]:
  "RT_MEMHEAP_IS_USED (memheap_unmark p h) x \<longleftrightarrow> x \<noteq> p \<and> RT_MEMHEAP_IS_USED h x"
  "MEMITEM_SIZE (memheap_unmark p h) = MEMITEM_SIZE h" "mh_blk (memheap_unmark p h) = mh_blk h"
  "mh_free_list (memheap_unmark p h) = mh_free_list h" "mh_frame h (memheap_unmark p h)"
  "mh_available_size (memheap_unmark p h) = mh_available_size h + MEMITEM_SIZE h p"
  "mh_pool_size (memheap_unmark p h) = mh_pool_size h" "mh_free (memheap_unmark p h) = mh_free h"
  by (simp_all add: memheap_unmark_def RT_MEMHEAP_IS_USED_def MEMITEM_SIZE_def mh_frame_def fun_eq_iff)

lemma unmark_ok:
  assumes inv: "mh_inv h (as @ p # q # cs) fs" and p: "RT_MEMHEAP_IS_USED h p"
  shows "mh_mid (memheap_unmark p h) (as @ p # q # cs) fs"
    "free_blocks (memheap_unmark p h) (as @ p # q # cs) = insert p (set fs)" "p \<notin> set fs"
    "mh_live (memheap_unmark p h) (as @ p # q # cs) = mh_live h (as @ p # q # cs) - {(p + 28, MEMITEM_SIZE h p)}"
    "mh_apart (memheap_unmark p h) as" "mh_apart (memheap_unmark p h) (q # cs)"
    "p \<noteq> mh_free_list h"
proof -
  let ?bs = "as @ p # q # cs" and ?h1 = "set_magic p RT_MEMHEAP_MAGIC h" and ?h = "memheap_unmark p h"
  note I = mh_invD [OF inv] and mid = mh_inv_mid [THEN iffD1, OF inv] and S = blocks_split [OF mh_invD(2) [OF inv]]
  have dist: "distinct ?bs" by (rule mh_blocksD(8) [OF I(2)])
  have fs: "set fs = free_blocks h ?bs" using mid by simp
  show pfs: "p \<notin> set fs" using p by (simp add: fs free_blocks_def)
  show fb: "free_blocks ?h ?bs = insert p (set fs)" by (auto simp: fs free_blocks_def)
  show "p \<noteq> mh_free_list h" using mh_constD(6) [OF I(1)] S(3,8,9) by linarith
  show "mh_mid ?h ?bs fs"
    unfolding mh_mid_def
  proof (intro conjI)
    show "mh_const ?h" using mh_const_frame [OF unmark_fields(5)] I(1) by simp
    have "mh_blocks ?h1 ?bs" using I(2) S(7) by (intro blocks_retag) simp_all
    then show "mh_blocks ?h ?bs" by (subst blocks_cong [of _ ?h1]) (simp_all add: memheap_unmark_def)
    show "ring (mh_free ?h) (mh_free_list ?h) fs" using mid by (simp add: mh_mid_def memheap_unmark_def)
    show "mh_available_size ?h = (\<Sum>x \<in> free_blocks ?h ?bs. MEMITEM_SIZE ?h x)"
      using I(5) pfs unfolding fb by (simp add: fs)
    show "mh_pool_size ?h - mh_available_size ?h \<le> mh_max_used_size ?h" using I(6) by (simp add: memheap_unmark_def Let_def)
  qed
  show "mh_live ?h ?bs = mh_live h ?bs - {(p + 28, MEMITEM_SIZE h p)}"
    unfolding mh_live_def by auto
  have "mh_apart h as" "mh_apart h (q # cs)" using I(4) by (auto simp: mh_apart_append dest: apart_tl)
  moreover have "mh_apart ?h as = mh_apart h as" "mh_apart ?h (q # cs) = mh_apart h (q # cs)"
    using dist by (intro mh_apart_cong; auto)+
  ultimately show "mh_apart ?h as" "mh_apart ?h (q # cs)" by simp_all
qed

lemma free_section_eq:
  "memheap_free_section p h
    = (let (q, ins, h3) = memheap_merge_left p (memheap_unmark p h); h4 = memheap_merge_right q h3
       in Some ((), if ins then free_insert_before (nxt (mh_free h4) (mh_free_list h4)) q h4 else h4))"
  by (simp add: memheap_free_section_def memheap_unmark_def Let_def)

text \<open>The last step of a release: the combined block x is linked into the free list.\<close>

lemma link_block:
  assumes mid: "mh_mid h bs f" and ap: "mh_apart h bs" and x: "x \<in> free_blocks h bs"
    and f: "free_blocks h bs - {x} \<subseteq> set f" "set f \<subseteq> free_blocks h bs"
    and s: "same_blocks h h'" and r: "ring (mh_free h') (mh_free_list h) (x # f)"
  shows "mh_inv h' bs (x # f)" "mh_live h' bs = mh_live h bs" "mh_frame h h'"
    "RT_MEMHEAP_IS_USED h' = RT_MEMHEAP_IS_USED h"
proof -
  note M = mh_midD [OF mid] and E = same_blocksD [OF s]
  show frame: "mh_frame h h'" using E by (simp add: mh_frame_def)
  show used: "RT_MEMHEAP_IS_USED h' = RT_MEMHEAP_IS_USED h" by (rule IS_USED_cong [OF E(14)])
  have sz: "MEMITEM_SIZE h' = MEMITEM_SIZE h" by (rule SIZE_cong [OF E(12)])
  have fb: "free_blocks h' bs = free_blocks h bs" by (simp add: free_blocks_def used)
  have "mh_mid h' bs (x # f)"
    using M r mh_const_frame [OF frame] blocks_cong [OF E(12,14,11,2,3,4)] unfolding mh_mid_def fb sz E by simp
  moreover have "set (x # f) = free_blocks h' bs" unfolding fb using x f by auto
  moreover have "mh_apart h' bs" using ap by (subst mh_apart_cong [of _ _ h]) (simp_all add: used)
  ultimately show "mh_inv h' bs (x # f)" by (simp add: mh_inv_mid)
  show "mh_live h' bs = mh_live h bs" by (simp add: mh_live_def used sz)
qed

text \<open>The block before is used, or there is none.\<close>

lemma free_section_used_left:
  assumes inv: "mh_inv h (as @ p # q # cs) fs" and p: "RT_MEMHEAP_IS_USED h p" and l: "as = [] \<or> RT_MEMHEAP_IS_USED h (last as)"
  obtains h' ys f where "memheap_free_section p h = Some ((), h')" "mh_inv h' (as @ p # ys) f"
    "mh_live h' (as @ p # ys) = mh_live h (as @ p # q # cs) - {(p + 28, MEMITEM_SIZE h p)}"
    "\<not> RT_MEMHEAP_IS_USED h' p" "mh_frame h h'"
proof -
  note U = unmark_ok [OF inv p] and I = mh_invD [OF inv]
  let ?h2 = "memheap_unmark p h" and ?bs = "as @ p # q # cs"
  have dist: "distinct ?bs" by (rule mh_blocksD(8) [OF I(2)])
  have a1: "as = [] \<or> RT_MEMHEAP_IS_USED ?h2 (last as)" using l dist last_in_set [of as] by auto
  have "RT_MEMHEAP_IS_USED ?h2 (prv (mh_blk ?h2) p)"
  proof (cases as rule: rev_cases)
    case Nil
    then have "prv (mh_blk h) p = last ?bs" using circle_ends(2) [OF mh_blocksD(1) [OF I(2)]] by simp
    then show ?thesis using mh_blocksD(6) [OF mh_midD(2) [OF U(1)]] by simp
  next
    case (snoc as' r)
    then have "prv (mh_blk h) p = r" using circle_step(2) [of "mh_blk h" as' r p "q # cs"] mh_blocksD(1) [OF I(2)] by simp
    then show ?thesis using a1 snoc by simp
  qed
  then have ml: "memheap_merge_left p ?h2 = (p, True, ?h2)" by (simp add: memheap_merge_left_def)
  let ?h4 = "memheap_merge_right p ?h2"
  obtain ys f where R: "mh_mid ?h4 (as @ p # ys) f" "mh_apart ?h4 (as @ p # ys)" "\<not> RT_MEMHEAP_IS_USED ?h4 p"
    "free_blocks ?h4 (as @ p # ys) - {p} \<subseteq> set f" "set f \<subseteq> free_blocks ?h4 (as @ p # ys)" "p \<in> set f \<longleftrightarrow> p \<in> set fs"
    "mh_live ?h4 (as @ p # ys) = mh_live ?h2 ?bs" "mh_frame ?h2 ?h4"
    by (rule merge_right_ok [OF U(1)]) (use U a1 in auto)
  note M = mh_midD [OF R(1)]
  let ?h5 = "free_insert_before (nxt (mh_free ?h4) (mh_free_list ?h4)) p ?h4"
  have pn: "p \<notin> set (mh_free_list ?h4 # f)" using R(6) U(3,7) mh_frameD(6) [OF R(8)] by simp
  have "p \<in> free_blocks ?h4 (as @ p # ys)" using R(3) by (simp add: free_blocks_def)
  note K = link_block [OF R(1,2) this R(4,5) same_blocks_ops(4) free_insert_before_ring [OF M(3) pn]]
  moreover have "memheap_free_section p h = Some ((), ?h5)" unfolding free_section_eq by (simp add: ml Let_def)
  ultimately show thesis
    using that [of ?h5] R(3,7) U(4) mh_frame_trans [OF unmark_fields(5) mh_frame_trans [OF R(8) K(3)]] by simp
qed

text \<open>The block r before is free.\<close>

lemma free_section_free_left:
  assumes inv: "mh_inv h (as @ r # p # q # cs) fs" and p: "RT_MEMHEAP_IS_USED h p" and r: "\<not> RT_MEMHEAP_IS_USED h r"
  obtains h' ys f where "memheap_free_section p h = Some ((), h')" "mh_inv h' (as @ r # ys) f"
    "mh_live h' (as @ r # ys) = mh_live h (as @ r # p # q # cs) - {(p + 28, MEMITEM_SIZE h p)}"
    "\<not> RT_MEMHEAP_IS_USED h' p" "mh_frame h h'"
proof -
  have inv': "mh_inv h ((as @ [r]) @ p # q # cs) fs" using inv by simp
  note U = unmark_ok [OF inv' p, unfolded append_assoc append_Cons append_Nil] and I = mh_invD [OF inv]
  let ?h2 = "memheap_unmark p h" and ?bs = "as @ r # p # q # cs"
  have rp: "r \<noteq> p" using p r by auto
  obtain h3 where L: "memheap_merge_left p ?h2 = (r, False, h3)" "mh_mid h3 (as @ r # q # cs) fs"
    "free_blocks h3 (as @ r # q # cs) = free_blocks ?h2 ?bs - {p}"
    "mh_live h3 (as @ r # q # cs) = mh_live ?h2 ?bs" "RT_MEMHEAP_IS_USED h3 = RT_MEMHEAP_IS_USED ?h2" "mh_frame ?h2 h3"
    by (rule merge_left_ok [OF U(1)]) (use r in auto)
  have ap3: "mh_apart h3 xs = mh_apart ?h2 xs" for xs by (rule mh_apart_cong) (simp add: L(5))
  have fs3: "set fs = free_blocks h3 (as @ r # q # cs)" unfolding L(3) U(2) using U(3) by auto
  have a1: "mh_apart ?h2 as" "as = [] \<or> RT_MEMHEAP_IS_USED ?h2 (last as)"
    using U(5) r rp by (auto simp: mh_apart_append)
  let ?h4 = "memheap_merge_right r h3"
  obtain ys f where R: "mh_mid ?h4 (as @ r # ys) f" "mh_apart ?h4 (as @ r # ys)" "\<not> RT_MEMHEAP_IS_USED ?h4 r"
    "free_blocks ?h4 (as @ r # ys) - {r} \<subseteq> set f" "set f \<subseteq> free_blocks ?h4 (as @ r # ys)" "r \<in> set f \<longleftrightarrow> r \<in> set fs"
    "mh_live ?h4 (as @ r # ys) = mh_live h3 (as @ r # q # cs)" "mh_frame h3 ?h4"
    by (rule merge_right_ok [OF L(2)]) (use fs3 U(6) a1 r rp in \<open>auto simp: L(5) ap3\<close>)
  have "r \<in> free_blocks h ?bs" using r by (simp add: free_blocks_def)
  then have "r \<in> set fs" using inv by (simp add: mh_inv_mid)
  then have "set f = free_blocks ?h4 (as @ r # ys)" using R(4-6) by auto
  then have "mh_inv ?h4 (as @ r # ys) f" using R(1,2) by (simp add: mh_inv_mid)
  moreover have "mh_live ?h4 (as @ r # ys) = mh_live h ?bs - {(p + 28, MEMITEM_SIZE h p)}" using R(7) L(4) U(4) by simp
  moreover have "memheap_free_section p h = Some ((), ?h4)" unfolding free_section_eq by (simp add: L(1) Let_def)
  moreover have "\<not> RT_MEMHEAP_IS_USED ?h4 p" by (simp add: L(5))
  ultimately show thesis using that [of ?h4] mh_frame_trans [OF unmark_fields(5) mh_frame_trans [OF L(6) R(8)]] by simp
qed

lemma free_section_ok:
  assumes inv: "mh_inv h bs fs" and a: "(a, n) \<in> mh_live h bs"
  obtains h' bs' fs' where "memheap_free_section (a - 28) h = Some ((), h')" "mh_inv h' bs' fs'"
    "mh_live h' bs' = mh_live h bs - {(a, n)}" "\<not> RT_MEMHEAP_IS_USED h' (a - 28)" "mh_frame h h'"
proof -
  obtain p as q cs where bs: "bs = as @ p # q # cs" and p: "a = p + 28" "n = MEMITEM_SIZE h p" "RT_MEMHEAP_IS_USED h p"
    by (rule live_base [OF mh_invD(2) [OF inv] a])
  show thesis
  proof (cases "as = [] \<or> RT_MEMHEAP_IS_USED h (last as)")
    case True
    show ?thesis by (rule free_section_used_left [OF inv [unfolded bs] p(3) True]) (use that p bs in simp)
  next
    case False
    then obtain as' r where as: "as = as' @ [r]" and r: "\<not> RT_MEMHEAP_IS_USED h r" by (cases as rule: rev_cases) auto
    have "mh_inv h (as' @ r # p # q # cs) fs" using inv bs as by simp
    then show ?thesis by (rule free_section_free_left [OF _ p(3) r]) (use that p bs as in simp)
  qed
qed

lemma memheap_free_ok:
  assumes inv: "mh_inv h bs fs" and lk: "memheap_lock_free h s" and a: "(a, n) \<in> mh_live h bs"
  obtains h' bs' fs' where "rt_memheap_free (Some a) (h, s) = Some (Returned (), h', s)" "mh_inv h' bs' fs'"
    "mh_live h' bs' = mh_live h bs - {(a, n)}" "\<not> RT_MEMHEAP_IS_USED h' (a - 28)" "mh_frame h h'"
proof -
  note I = mh_invD [OF inv]
  obtain p as q cs where bs: "bs = as @ p # q # cs" and p: "a = p + 28" "n = MEMITEM_SIZE h p" "RT_MEMHEAP_IS_USED h p"
    by (rule live_base [OF I(2) a])
  note S = blocks_split [OF I(2) [unfolded bs]]
  have "header_ok h p" "header_ok h q" using mh_blocksD(5) [OF I(2)] bs by simp_all
  then have hd: "mh_magic h p = 0x1ea01ea1" "mh_magic h q AND RT_MEMHEAP_MASK = RT_MEMHEAP_MAGIC" "mh_pool_ptr h p = mh_addr h"
    using p(3) by (auto simp: header_ok_def RT_MEMHEAP_IS_USED_def)
  obtain h' bs' fs' where f: "memheap_free_section (a - 28) h = Some ((), h')" "mh_inv h' bs' fs'"
    "mh_live h' bs' = mh_live h bs - {(a, n)}" "\<not> RT_MEMHEAP_IS_USED h' (a - 28)" "mh_frame h h'"
    by (rule free_section_ok [OF inv a])
  have "memheap_locked (memheap_free_section p) () (h, s) = Some (Returned (), h', s)"
    by (rule locked_run [where body = "memheap_free_section p", OF lk]) (use f(1) p(1) mh_frameD [OF f(5)] in simp_all)
  then have "rt_memheap_free (Some a) (h, s) = Some (Returned (), h', s)"
    using hd S(1) mh_constD(1) [OF I(1)] by (simp add: rt_memheap_free_def p(1))
  then show thesis using that f(2-5) by blast
qed

lemma memheap_free_unused: "\<not> RT_MEMHEAP_IS_USED h (a - 28) \<Longrightarrow> rt_memheap_free (Some a) (h, s) = None"
  by (auto simp: rt_memheap_free_def RT_MEMHEAP_IS_USED_def RT_ASSERT_def Let_def)


section \<open>Reallocation\<close>

text \<open>
  Both reallocations in place end by cutting the rest of a used block off, as a free block in
  front of a used one.
\<close>

lemma mh_cut_ok:
  assumes C: "mh_const g" and B: "mh_blocks g (as @ p # q # cs)" and R: "ring (mh_free g) (mh_free_list g) fs"
    and fs: "set fs = free_blocks g (as @ p # q # cs)" and p: "RT_MEMHEAP_IS_USED g p" and q: "RT_MEMHEAP_IS_USED g q"
    and ap: "mh_apart g as" "mh_apart g (q # cs)"
    and gaps: "block_gap p n" "block_gap n q" "n mod 4 = 0"
    and h: "h = (free_insert n (memheap_new_block n p g))\<lparr>mh_available_size := av\<rparr>"
    and av: "av = (\<Sum>x \<in> free_blocks g (as @ p # q # cs). MEMITEM_SIZE g x) + (q - n - 28)"
      "mh_pool_size g - av \<le> mh_max_used_size g"
  shows "mh_inv h (as @ p # n # q # cs) (n # fs)"
    "mh_live h (as @ p # n # q # cs) = insert (p + 28, n - p - 28) (mh_live g (as @ p # q # cs) - {(p + 28, MEMITEM_SIZE g p)})"
    "mh_frame g h"
proof -
  let ?bs = "as @ p # q # cs" and ?bs' = "as @ p # n # q # cs"
  define h0 where "h0 = free_insert n (memheap_new_block n p g)"
  have sub: "set fs \<subseteq> set ?bs" unfolding fs by (auto simp: free_blocks_def)
  note A = add_block [OF C B R sub gaps h0_def] and S = blocks_split [OF B]
  have hh: "h = h0\<lparr>mh_available_size := av\<rparr>" by (simp add: h h0_def)
  have used: "RT_MEMHEAP_IS_USED h x = (x \<noteq> n \<and> RT_MEMHEAP_IS_USED g x)" for x
    using A(5) [of x] by (simp add: hh RT_MEMHEAP_IS_USED_def)
  have sz: "MEMITEM_SIZE h = MEMITEM_SIZE h0" by (rule SIZE_cong) (simp add: hh)
  have fb: "free_blocks h ?bs' = insert n (free_blocks g ?bs)" using A(4) by (auto simp: free_blocks_def used)
  have pf: "free_blocks g ?bs - {p} = free_blocks g ?bs" using p by (auto simp: free_blocks_def)
  show frame: "mh_frame g h" using A(9) by (simp add: hh mh_frame_def)
  have "mh_mid h ?bs' (n # fs)"
    unfolding mh_mid_def
  proof (intro conjI)
    show "mh_const h" using mh_const_frame [OF frame] C by simp
    show "mh_blocks h ?bs'" using A(1) by (subst blocks_cong [of _ h0]) (simp_all add: hh)
    show "ring (mh_free h) (mh_free_list h) (n # fs)" using A(2) by (simp add: hh)
    show "mh_available_size h = (\<Sum>x \<in> free_blocks h ?bs'. MEMITEM_SIZE h x)"
      using A(7) unfolding fb sz pf by (simp add: hh av)
    show "mh_pool_size h - mh_available_size h \<le> mh_max_used_size h"
      using av(2) A(11) mh_frameD(4) [OF A(9)] by (simp add: hh)
  qed
  moreover have "mh_apart h ?bs'"
  proof -
    have "mh_apart h as = mh_apart g as" "mh_apart h (q # cs) = mh_apart g (q # cs)"
      using A(4) by (intro mh_apart_cong; auto simp: used)+
    then show ?thesis using ap p q A(4) by (auto simp: mh_apart_append mh_apart_Cons used)
  qed
  ultimately show "mh_inv h ?bs' (n # fs)" using fs fb by (simp add: mh_inv_mid)
  have "(p + 28, n - p - 28) \<in> mh_live h ?bs'"
    using p A(4) S(7) A(6) [of p] by (auto simp: mh_live_def used sz image_iff)
  moreover have "mh_live h ?bs' = mh_live h0 ?bs'" unfolding mh_live_def sz used A(5) by simp
  ultimately show "mh_live h ?bs' = insert (p + 28, n - p - 28) (mh_live g ?bs - {(p + 28, MEMITEM_SIZE g p)})"
    using A(12) by auto
qed

lemma grow_section_ok:
  assumes inv: "mh_inv h (as @ p # q # y # ds) (f1 @ q # f2)" and p: "RT_MEMHEAP_IS_USED h p" and q: "\<not> RT_MEMHEAP_IS_USED h q"
    and n: "MEMITEM_SIZE h p < n" "n + 12 < MEMITEM_SIZE h q + MEMITEM_SIZE h p" "n mod 4 = 0"
  obtains h' where "memheap_grow_section p (MEMITEM_SIZE h p) n h = Some (True, h')"
    "mh_inv h' (as @ p # (p + 28 + n) # y # ds) ((p + 28 + n) # f1 @ f2)"
    "mh_live h' (as @ p # (p + 28 + n) # y # ds)
      = insert (p + 28, n) (mh_live h (as @ p # q # y # ds) - {(p + 28, MEMITEM_SIZE h p)})" "mh_frame h h'"
proof -
  let ?bs = "as @ p # q # y # ds" and ?o = "MEMITEM_SIZE h p" and ?N = "p + 28 + n" and ?bs1 = "as @ p # y # ds"
  let ?h1 = "memheap_account (n - ?o) h"
  define g where "g = remove_next_ptr q ?h1"
  define h' where "h' = free_insert ?N (memheap_new_block ?N p g)"
  note I = mh_invD [OF inv] and mid = mh_inv_mid [THEN iffD1, OF inv]
  have B2: "mh_blocks h ((as @ [p]) @ q # y # ds)" using I(2) by simp
  note S = blocks_split [OF I(2)] and S2 = blocks_split [OF B2]
  have dist: "distinct ?bs" by (rule mh_blocksD(8) [OF I(2)])
  have sq: "y = p + 28 + ?o + 28 + MEMITEM_SIZE h q" "q = p + 28 + ?o" using S(3,4) S2(3,4) by simp_all
  have "MEMITEM_SIZE h q + ?o < 2 ^ 32" "n + 12 < 2 ^ 32"
    using S2(9) sq mh_constD(5) [OF I(1)] n(2) by simp_all
  then have sec: "memheap_grow_section p ?o n h = Some (True, h')"
    using S(1,3) q n(2) by (simp add: memheap_grow_section_def Let_def h'_def g_def)
  have f: "mh_magic g = mh_magic h" "mh_pool_ptr g = mh_pool_ptr h" "mh_addr g = mh_addr h" "mh_start_addr g = mh_start_addr h"
    "mh_pool_size g = mh_pool_size h" "mh_available_size g = mh_available_size h - (n - ?o)"
    "mh_max_used_size g = mh_max_used_size ?h1" "mh_free g = mh_free (free_unlink q ?h1)" "mh_frame h g"
    by (simp_all add: g_def remove_next_ptr_def Let_def mh_frame_def)
  have ne: "q \<noteq> p" "q \<noteq> y" "p \<noteq> y" using dist by auto
  have links: "nxt (mh_blk g) z = ((nxt (mh_blk h))(p := y)) z" "prv (mh_blk g) z = ((prv (mh_blk h))(y := p)) z" for z
    using S(2) S2(1) ne by (simp_all add: g_def remove_next_ptr_def Let_def set_nxt_def set_prv_def)
  note R = blocks_remove [OF I(2) links f(1-5)]
  have used: "RT_MEMHEAP_IS_USED g = RT_MEMHEAP_IS_USED h" by (rule IS_USED_cong [OF f(1)])
  have y: "RT_MEMHEAP_IS_USED h y" and aps: "mh_apart h as" "mh_apart h (y # ds)"
    using I(4) q by (auto simp: mh_apart_append mh_apart_Cons)
  have ap: "mh_apart g xs = mh_apart h xs" for xs by (rule mh_apart_cong) (simp add: used)
  have fbg: "free_blocks g ?bs1 = free_blocks h ?bs - {q}" using dist by (auto simp: free_blocks_def used)
  have qf: "q \<in> free_blocks h ?bs" using q by (simp add: free_blocks_def)
  have ring: "ring (mh_free g) (mh_free_list g) (f1 @ f2)"
    using mh_midD(3) [of h ?bs] mid free_unlink_ring [of ?h1 "mh_free_list h" f1 q f2] mh_frameD(6) [OF f(9)] by (simp add: f)
  have fs: "set (f1 @ f2) = free_blocks g ?bs1"
    using mid mh_midD(3) [OF conjunct1 [OF mid]] unfolding fbg by (auto simp: ring_def)
  have gaps: "block_gap p ?N" "block_gap ?N y" "?N mod 4 = 0"
    using n sq S(3) mh_blocksD(5) [OF I(2), of p] mod_add_eq [of "p + 28" 4 n] mod_add_eq [of p 4 28]
    by (simp_all add: block_gap_def header_ok_def)
  have "(\<Sum>x \<in> free_blocks g ?bs1. MEMITEM_SIZE g x) = (\<Sum>x \<in> free_blocks h ?bs - {q}. MEMITEM_SIZE h x)"
    unfolding fbg using p R(2) by (intro sum.cong refl) (auto simp: free_blocks_def)
  then have av: "mh_available_size g = (\<Sum>x \<in> free_blocks g ?bs1. MEMITEM_SIZE g x) + (y - ?N - 28)"
    using sum.remove [OF finite_free qf, of "MEMITEM_SIZE h"] I(5) n(1,2) sq(1) by (simp add: f)
  have h'eq: "h' = (free_insert ?N (memheap_new_block ?N p g))\<lparr>mh_available_size := mh_available_size g\<rparr>"
    by (simp add: h'_def free_insert_def memheap_new_block_def set_magic_def Let_def)
  have mx: "mh_pool_size g - mh_available_size g \<le> mh_max_used_size g" using account_max [of h "n - ?o"] by (simp add: f)
  have Cg: "mh_const g" using mh_const_frame [OF f(9)] I(1) by simp
  note K = mh_cut_ok [OF Cg R(1) ring fs _ _ _ _ gaps h'eq av mx, unfolded used ap, OF p y aps]
  have "MEMITEM_SIZE g x = MEMITEM_SIZE h x" if "RT_MEMHEAP_IS_USED h x" "x \<noteq> p" for x
    using that q R(2) [of x] by (cases "x = q") auto
  moreover have "{x \<in> set ?bs1. RT_MEMHEAP_IS_USED h x \<and> x \<noteq> last ?bs1} = {x \<in> set ?bs. RT_MEMHEAP_IS_USED h x \<and> x \<noteq> last ?bs}"
    using q by auto
  ultimately have "mh_live g ?bs1 - {(p + 28, MEMITEM_SIZE g p)} = mh_live h ?bs - {(p + 28, ?o)}"
    unfolding live_except used by (intro image_cong) auto
  then show thesis using that [OF sec K(1)] K(2) mh_frame_trans [OF f(9) K(3)] by simp
qed

text \<open>A used block whose rest has been cut off as a free block, not yet in the free list.\<close>

lemma cut_mid:
  assumes inv: "mh_inv h (as @ p # q # cs) fs" and p: "RT_MEMHEAP_IS_USED h p"
    and gaps: "block_gap p m" "block_gap m q" "m mod 4 = 0"
    and g: "g = (memheap_new_block m p h)\<lparr>mh_available_size := mh_available_size h + (q - m - 28)\<rparr>"
  shows "mh_mid g (as @ p # m # q # cs) fs" "free_blocks g (as @ p # m # q # cs) = insert m (set fs)" "m \<notin> set fs"
    "mh_apart g (as @ [p])" "mh_apart g (q # cs)" "RT_MEMHEAP_IS_USED g x = (x \<noteq> m \<and> RT_MEMHEAP_IS_USED h x)"
    "mh_live g (as @ p # m # q # cs) = insert (p + 28, m - p - 28) (mh_live h (as @ p # q # cs) - {(p + 28, MEMITEM_SIZE h p)})"
    "mh_frame h g" "p \<noteq> m"
proof -
  let ?bs = "as @ p # q # cs" and ?bs' = "as @ p # m # q # cs"
  note I = mh_invD [OF inv] and mid = mh_inv_mid [THEN iffD1, OF inv] and S = blocks_split [OF mh_invD(2) [OF inv]]
  note Ins = blocks_insert [OF I(2) gaps]
  define h1 where "h1 = memheap_new_block m p h"
  have same: "mh_blk g = mh_blk h1" "mh_magic g = mh_magic h1" by (simp_all add: g h1_def)
  show frame: "mh_frame h g" by (simp add: g mh_frame_def)
  show used: "RT_MEMHEAP_IS_USED g x = (x \<noteq> m \<and> RT_MEMHEAP_IS_USED h x)" for x
    using IS_USED_cong [OF same(2)] by (simp add: h1_def)
  have sz: "MEMITEM_SIZE g x = (if x = p then m - p - 28 else if x = m then q - m - 28 else MEMITEM_SIZE h x)" for x
    using SIZE_cong [OF same(1)] Ins(2) [of x] by (simp add: h1_def)
  have fs: "set fs = free_blocks h ?bs" using mid by simp
  show Nf: "m \<notin> set fs" using Ins(3) by (auto simp: fs free_blocks_def)
  show fb: "free_blocks g ?bs' = insert m (set fs)" using Ins(3) by (auto simp: fs free_blocks_def used)
  show pm: "p \<noteq> m" using Ins(3) by auto
  show "mh_mid g ?bs' fs"
    unfolding mh_mid_def
  proof (intro conjI)
    show "mh_const g" using mh_const_frame [OF frame] I(1) by simp
    show "mh_blocks g ?bs'" using Ins(1) by (subst blocks_cong [of _ h1]) (simp_all add: g h1_def)
    show "ring (mh_free g) (mh_free_list g) fs" using mh_midD(3) [OF conjunct1 [OF mid]] by (simp add: g)
    have "(\<Sum>x \<in> set fs. MEMITEM_SIZE g x) = (\<Sum>x \<in> set fs. MEMITEM_SIZE h x)"
      using p Nf by (intro sum.cong refl) (auto simp: sz fs free_blocks_def)
    then show "mh_available_size g = (\<Sum>x \<in> free_blocks g ?bs'. MEMITEM_SIZE g x)"
      unfolding fb using Nf I(5) sz [of m] pm by (simp add: g fs)
    show "mh_pool_size g - mh_available_size g \<le> mh_max_used_size g" using I(6) by (simp add: g)
  qed
  have "mh_apart h (as @ [p])" "mh_apart h (q # cs)" using I(4) p by (auto simp: mh_apart_append mh_apart_Cons)
  moreover have "mh_apart g (as @ [p]) = mh_apart h (as @ [p])" "mh_apart g (q # cs) = mh_apart h (q # cs)"
    using Ins(3) by (intro mh_apart_cong; auto simp: used)+
  ultimately show "mh_apart g (as @ [p])" "mh_apart g (q # cs)" by simp_all
  let ?X = "{x \<in> set ?bs. RT_MEMHEAP_IS_USED h x \<and> x \<noteq> last ?bs} - {p}"
  have X: "{x \<in> set ?bs'. RT_MEMHEAP_IS_USED g x \<and> x \<noteq> last ?bs'} = insert p ?X"
    using p S(7) Ins(3) by (auto simp: used)
  have "(\<lambda>x. (x + 28, MEMITEM_SIZE g x)) ` ?X = (\<lambda>x. (x + 28, MEMITEM_SIZE h x)) ` ?X"
    using Ins(3) by (intro image_cong) (auto simp: sz)
  then show "mh_live g ?bs' = insert (p + 28, m - p - 28) (mh_live h ?bs - {(p + 28, MEMITEM_SIZE h p)})"
    unfolding live_except by (simp only: mh_live_def X image_insert sz [of p] simp_thms if_True)
qed

lemma shrink_section_eq:
  assumes inv: "mh_inv h (as @ p # q # cs) fs" and gaps: "block_gap p m" "block_gap m q" "m mod 4 = 0" and m: "m = p + n + 28"
    and g: "g = (memheap_new_block m p h)\<lparr>mh_available_size := mh_available_size h + (q - m - 28)\<rparr>"
  shows "memheap_shrink_section p n h = Some ((), free_insert m (memheap_merge_right m g))"
proof -
  note I = mh_invD [OF inv] and S = blocks_split [OF mh_invD(2) [OF inv]]
  note Ins = blocks_insert [OF I(2) gaps]
  let ?h1 = "memheap_new_block m p h"
  have nx: "nxt (mh_blk ?h1) m = q" using blocks_split(1) [of ?h1 "as @ [p]" m q cs] Ins(1) by simp
  have uq: "RT_MEMHEAP_IS_USED ?h1 q = RT_MEMHEAP_IS_USED h q" using Ins(3) by auto
  show ?thesis
  proof (cases "RT_MEMHEAP_IS_USED h q")
    case True
    have "MEMITEM_SIZE (free_insert m ?h1) m = q - m - 28" using Ins(2) [of m] Ins(3) by auto
    moreover have "memheap_merge_right m g = g"
      using True nx uq IS_USED_cong [of g ?h1] by (simp add: memheap_merge_right_def g)
    moreover have "free_insert m g = (free_insert m ?h1)\<lparr>mh_available_size := mh_available_size h + (q - m - 28)\<rparr>"
      by (simp add: g free_insert_def Let_def)
    ultimately show ?thesis
      using True nx uq by (simp add: memheap_shrink_section_def Let_def flip: m)
  next
    case False
    have "q \<noteq> last (as @ p # q # cs)" using mh_blocksD(6) [OF I(2)] False by metis
    then obtain y ds where cs: "cs = y # ds" by (cases cs) auto
    have nq: "nxt (mh_blk ?h1) q = y" "q + 40 \<le> y" "MEMITEM_SIZE ?h1 q = y - q - 28"
      using blocks_split(1,3,4) [of ?h1 "as @ [p, m]" q y ds] Ins(1) by (simp_all add: cs)
    have "q \<in> free_blocks h (as @ p # q # cs)" using False by (simp add: free_blocks_def)
    then have "MEMITEM_SIZE h q \<le> mh_available_size h"
      unfolding I(5) by (rule member_le_sum) simp_all
    moreover have "MEMITEM_SIZE h q = y - q - 28" using Ins(2) [of q] Ins(3) nq(3) S(3) by auto
    ultimately have av: "mh_available_size h - (y - q - 28) + (y - m - 28) = mh_available_size h + (q - m - 28) + 28"
      using gaps(2) nq(2) by (simp add: block_gap_def)
    define b where "b = set_nxt m y (set_prv y m (mh_blk ?h1))"
    have mq: "m \<noteq> q" "y \<noteq> m" using gaps(2) nq(2) by (auto simp: block_gap_def)
    have r: "memheap_merge_right m g = free_unlink q (?h1\<lparr>mh_available_size := mh_available_size h + (q - m - 28) + 28, mh_blk := b\<rparr>)"
      using nx nq(1) uq False mq IS_USED_cong [of g ?h1]
      by (simp add: memheap_merge_right_def g Let_def b_def) (simp add: set_prv_def)
    have sz: "MEMITEM_SIZE (free_insert m (free_unlink q (?h1\<lparr>mh_available_size := v, mh_blk := b\<rparr>))) m = y - m - 28" for v
      by (simp add: MEMITEM_SIZE_def b_def set_nxt_def)
    have cm: "(free_insert m (free_unlink q (k\<lparr>mh_available_size := v, mh_blk := b\<rparr>)))\<lparr>mh_available_size := w\<rparr>
        = free_insert m (free_unlink q (k\<lparr>mh_available_size := w, mh_blk := b\<rparr>))" for k v w
      by (simp add: free_insert_def free_unlink_def Let_def)
    let ?H = "\<lambda>v. free_insert m (free_unlink q (?h1\<lparr>mh_available_size := v, mh_blk := b\<rparr>))"
    let ?v = "mh_available_size h - MEMITEM_SIZE ?h1 q"
    have "memheap_shrink_section p n h
        = Some ((), (?H ?v)\<lparr>mh_available_size := mh_available_size (?H ?v) + MEMITEM_SIZE (?H ?v) m\<rparr>)"
      using nx nq(1) uq False by (simp add: memheap_shrink_section_def Let_def b_def set_prv_def flip: m)
    also have "\<dots> = Some ((), ?H (?v + (y - m - 28)))" unfolding cm sz by simp
    finally show ?thesis unfolding r nq(3) av .
  qed
qed

lemma shrink_section_ok:
  assumes inv: "mh_inv h (as @ p # q # cs) fs" and p: "RT_MEMHEAP_IS_USED h p"
    and n: "n + 40 < MEMITEM_SIZE h p" "12 \<le> n" "n mod 4 = 0"
  obtains h' bs' f where "memheap_shrink_section p n h = Some ((), h')" "mh_inv h' bs' f"
    "mh_live h' bs' = insert (p + 28, n) (mh_live h (as @ p # q # cs) - {(p + 28, MEMITEM_SIZE h p)})" "mh_frame h h'"
proof -
  let ?m = "p + n + 28"
  note I = mh_invD [OF inv] and S = blocks_split [OF mh_invD(2) [OF inv]]
  define g where "g = (memheap_new_block ?m p h)\<lparr>mh_available_size := mh_available_size h + (q - ?m - 28)\<rparr>"
  have gaps: "block_gap p ?m" "block_gap ?m q" "?m mod 4 = 0"
    using n S(3,4) mh_blocksD(5) [OF I(2), of p] mod_add_eq [of p 4 n] mod_add_eq [of "p + n" 4 28]
    by (simp_all add: block_gap_def header_ok_def)
  note G = cut_mid [OF inv p gaps g_def]
  let ?h4 = "memheap_merge_right ?m g"
  have mg: "mh_mid g ((as @ [p]) @ ?m # q # cs) fs" using G(1) by simp
  have pu: "RT_MEMHEAP_IS_USED g p" using p G(9) by (simp add: G(6))
  obtain ys f where R: "mh_mid ?h4 ((as @ [p]) @ ?m # ys) f" "mh_apart ?h4 ((as @ [p]) @ ?m # ys)" "\<not> RT_MEMHEAP_IS_USED ?h4 ?m"
    "free_blocks ?h4 ((as @ [p]) @ ?m # ys) - {?m} \<subseteq> set f" "set f \<subseteq> free_blocks ?h4 ((as @ [p]) @ ?m # ys)"
    "?m \<in> set f \<longleftrightarrow> ?m \<in> set fs" "mh_live ?h4 ((as @ [p]) @ ?m # ys) = mh_live g ((as @ [p]) @ ?m # q # cs)" "mh_frame g ?h4"
    by (rule merge_right_ok [OF mg]) (use G pu in auto)
  have "?m \<noteq> mh_free_list h" using mh_constD(6) [OF I(1)] S(8,9) gaps(2) by (auto simp: block_gap_def)
  then have mn: "?m \<notin> set (mh_free_list ?h4 # f)"
    using R(6) G(3) mh_frameD(6) [OF R(8)] mh_frameD(6) [OF G(8)] by simp
  have "?m \<in> free_blocks ?h4 ((as @ [p]) @ ?m # ys)" using R(3) by (simp add: free_blocks_def)
  note K = link_block [OF R(1,2) this R(4,5) same_blocks_ops(3) free_insert_ring [OF mh_midD(3) [OF R(1)] mn]]
  have "mh_live (free_insert ?m ?h4) ((as @ [p]) @ ?m # ys)
      = insert (p + 28, n) (mh_live h (as @ p # q # cs) - {(p + 28, MEMITEM_SIZE h p)})"
    using K(2) R(7) G(7) by simp
  then show thesis
    using that [OF shrink_section_eq [OF inv gaps refl g_def] K(1)] mh_frame_trans [OF G(8) mh_frame_trans [OF R(8) K(3)]] by blast
qed

lemma mh_live_disjoint:
  assumes B: "mh_blocks h bs" and r: "(a, n) \<in> mh_live h bs" "(b, k) \<in> mh_live h bs" "a \<noteq> b"
  shows "{a ..< a + n} \<inter> {b ..< b + k} = {}"
proof -
  obtain p where p: "p \<in> set bs" "p \<noteq> last bs" "a = p + 28" "n = MEMITEM_SIZE h p" using r(1) by (auto simp: mh_live_def)
  obtain p' where p': "p' \<in> set bs" "p' \<noteq> last bs" "b = p' + 28" "k = MEMITEM_SIZE h p'" using r(2) by (auto simp: mh_live_def)
  have sep: "x + 28 + MEMITEM_SIZE h x \<le> y" if xy: "x \<in> set bs" "x \<noteq> last bs" "y \<in> set bs" "x < y" for x y
  proof -
    obtain as q cs where bs: "bs = as @ x # q # cs" using blocks_member [OF B xy(1,2)] by blast
    note S = blocks_split [OF B [unfolded bs]]
    have "q \<le> y" using xy(3,4) S(5) [of y] S(6) [of y] by (auto simp: bs less_imp_le)
    then show ?thesis using S(3,4) by simp
  qed
  have "p < p' \<or> p' < p" using r(3) p(3) p'(3) by auto
  then show ?thesis using sep [OF p(1,2) p'(1)] sep [OF p'(1,2) p(1)] p(3,4) p'(3,4) by auto
qed

lemma memcpy_fields [simp]:
  "mh_blk (memheap_memcpy d a n h) = mh_blk h" "mh_free (memheap_memcpy d a n h) = mh_free h"
  "mh_magic (memheap_memcpy d a n h) = mh_magic h" "mh_pool_ptr (memheap_memcpy d a n h) = mh_pool_ptr h"
  "mh_obj (memheap_memcpy d a n h) = mh_obj h" "mh_addr (memheap_memcpy d a n h) = mh_addr h"
  "mh_start_addr (memheap_memcpy d a n h) = mh_start_addr h" "mh_pool_size (memheap_memcpy d a n h) = mh_pool_size h"
  "mh_available_size (memheap_memcpy d a n h) = mh_available_size h"
  "mh_max_used_size (memheap_memcpy d a n h) = mh_max_used_size h"
  "mh_block_list (memheap_memcpy d a n h) = mh_block_list h" "mh_free_list (memheap_memcpy d a n h) = mh_free_list h"
  "mh_lock (memheap_memcpy d a n h) = mh_lock h" "mh_locked (memheap_memcpy d a n h) = mh_locked h"
  by (simp_all add: memheap_memcpy_def)

lemma memcpy_inv [simp]:
  "mh_inv (memheap_memcpy d a n h) bs fs = mh_inv h bs fs" "mh_live (memheap_memcpy d a n h) bs = mh_live h bs"
  by (simp_all add: mh_inv_def mh_const_def mh_blocks_def header_ok_def mh_frees_def mh_apart_def free_blocks_def
      mh_live_def RT_MEMHEAP_IS_USED_def MEMITEM_SIZE_def)

text \<open>What a reallocation of the block at a, of n bytes, gives; r is the new block.\<close>

definition realloc_result ::
  "rt_memheap \<Rightarrow> nat list \<Rightarrow> nat \<Rightarrow> nat \<Rightarrow> nat \<Rightarrow> nat \<Rightarrow> rt_memheap \<Rightarrow> bool" where
  "realloc_result h bs a n want r h' \<longleftrightarrow>
     (\<exists>bs' fs' len. mh_inv h' bs' fs' \<and> want \<le> len
        \<and> mh_live h' bs' = insert (r, len) (mh_live h bs - {(a, n)}) \<and> (r, len) \<notin> mh_live h bs - {(a, n)}
        \<and> (\<forall>i < min n want. mh_data h' (r + i) = mh_data h (a + i))
        \<and> (\<forall>(b, k) \<in> mh_live h bs - {(a, n)}. \<forall>i < k. mh_data h' (b + i) = mh_data h (b + i)))"

lemma live_one_size:
  assumes "mh_blocks h bs" "(a, n) \<in> mh_live h bs" "(a, k) \<in> mh_live h bs"
  shows "n = k"
  using assms by (auto simp: mh_live_def)

lemma realloc_in_place:
  assumes "mh_inv h' bs' fs'" "mh_live h' bs' = insert (a, len) (mh_live h bs - {(a, n)})" "want \<le> len"
    "mh_blocks h bs" "(a, n) \<in> mh_live h bs" "mh_data h' = mh_data h"
  shows "realloc_result h bs a n want a h'"
proof -
  have "(a, len) \<notin> mh_live h bs - {(a, n)}" using live_one_size [OF assms(4,5), of len] by auto
  then show ?thesis using assms unfolding realloc_result_def
    by - (rule exI [of _ bs'], rule exI [of _ fs'], rule exI [of _ len], simp)
qed

lemma request_word:
  assumes "unat sz \<le> 2 ^ 32 - 16"
  shows "memheap_request sz + 12 < 2 ^ 32" "memheap_request (word_of_nat (memheap_request sz)) = memheap_request sz"
proof -
  have "unat (RT_ALIGN sz 4) \<le> 2 ^ 32 - 16" using assms by (simp add: RT_ALIGN_4)
  then have r: "memheap_request sz \<le> 2 ^ 32 - 16" by (simp add: memheap_request_def Let_def)
  then show "memheap_request sz + 12 < 2 ^ 32" by simp
  have m: "memheap_request sz mod 4 = 0" "12 \<le> memheap_request sz" using request_ok(1,2) [of sz] by (simp_all add: memheap_request_eq)
  have u: "unat (word_of_nat (memheap_request sz) :: rt_uint32_t) = memheap_request sz"
    using r by (simp add: unat_of_nat take_bit_nat_eq_self)
  have "unat (RT_ALIGN (word_of_nat (memheap_request sz)) 4) = memheap_request sz"
    using r m(1) by (simp add: RT_ALIGN_4 u) presburger
  then show "memheap_request (word_of_nat (memheap_request sz)) = memheap_request sz"
    using m(2) by (simp add: memheap_request_def [of "word_of_nat _"] Let_def)
qed

lemma move_ok:
  assumes inv: "mh_inv h bs fs" and lk: "memheap_lock_free h s" and a: "(a, n) \<in> mh_live h bs"
    and w: "memheap_request (word_of_nat want) = want" "n < want"
  shows "memheap_move a n want (h, s) = Some (Returned None, h, s)
     \<or> (\<exists>r h'. memheap_move a n want (h, s) = Some (Returned (Some r), h', s) \<and> realloc_result h bs a n want r h')"
proof -
  note I = mh_invD [OF inv]
  from memheap_alloc_ok [OF inv lk, of "word_of_nat want"] show ?thesis
  proof (elim disjE exE conjE)
    fix h1 b1 f1 r len
    assume al: "rt_memheap_alloc (word_of_nat want) (h, s) = Some (Returned (Some r), h1, s)" "mh_inv h1 b1 f1"
      "mh_live h1 b1 = insert (r, len) (mh_live h bs)" "memheap_request (word_of_nat want) \<le> len"
      "\<forall>k. (r, k) \<notin> mh_live h bs" "mh_frame h h1"
    let ?h2 = "memheap_memcpy r a n h1"
    have inv2: "mh_inv ?h2 b1 f1" and live2: "mh_live ?h2 b1 = insert (r, len) (mh_live h bs)" using al(2,3) by simp_all
    have lk2: "memheap_lock_free ?h2 s" using lk mh_lock_frame [OF al(6)] by (simp add: memheap_lock_free_def)
    have "(a, n) \<in> mh_live ?h2 b1" using a live2 by simp
    then obtain h3 b3 f3 where fr: "rt_memheap_free (Some a) (?h2, s) = Some (Returned (), h3, s)" "mh_inv h3 b3 f3"
      "mh_live h3 b3 = mh_live ?h2 b1 - {(a, n)}" "mh_frame ?h2 h3"
      using memheap_free_ok [OF inv2 lk2] by metis
    have ne: "(r, len) \<noteq> (a, n)" using a al(5) by auto
    have mv: "memheap_move a n want (h, s) = Some (Returned (Some r), h3, s)"
      using al(1) fr(1) w(2) by (simp add: memheap_move_def)
    have d1: "mh_data h1 = mh_data h" by (rule mh_frameD(9) [OF al(6)])
    have d: "mh_data h3 x = (if r \<le> x \<and> x < r + n then mh_data h (a + (x - r)) else mh_data h x)" for x
      using mh_frameD(9) [OF fr(4)] d1 by (simp add: memheap_memcpy_def)
    have keep: "mh_data h3 (b + i) = mh_data h (b + i)" if b: "(b, k) \<in> mh_live h bs - {(a, n)}" "i < k" for b k i
    proof -
      have "(b, k) \<in> mh_live h1 b1" "(r, len) \<in> mh_live h1 b1" using b(1) al(3) by auto
      moreover have "b \<noteq> r" using b(1) al(5) by auto
      ultimately have "{b ..< b + k} \<inter> {r ..< r + len} = {}"
        by (rule mh_live_disjoint [OF mh_invD(2) [OF al(2)]])
      moreover have "b + i \<in> {b ..< b + k}" using b(2) by simp
      moreover have "r + n \<le> r + len" using al(4) w by simp
      ultimately have "\<not> (r \<le> b + i \<and> b + i < r + n)" by (auto simp: disjoint_iff)
      then show ?thesis unfolding d by (rule if_not_P)
    qed
    have "realloc_result h bs a n want r h3"
      unfolding realloc_result_def
    proof (rule exI [of _ b3], rule exI [of _ f3], rule exI [of _ len], intro conjI)
      show "mh_live h3 b3 = insert (r, len) (mh_live h bs - {(a, n)})" using fr(3) live2 ne by auto
      show "(r, len) \<notin> mh_live h bs - {(a, n)}" using al(5) by simp
      show "\<forall>i < min n want. mh_data h3 (r + i) = mh_data h (a + i)" by (simp add: d)
      show "\<forall>(b, k) \<in> mh_live h bs - {(a, n)}. \<forall>i < k. mh_data h3 (b + i) = mh_data h (b + i)" using keep by blast
    qed (use fr(2) al(4) w(1) in simp_all)
    then show ?thesis using mv by blast
  qed (simp_all add: memheap_move_def)
qed

lemma memheap_realloc_ok:
  assumes inv: "mh_inv h bs fs" and lk: "memheap_lock_free h s" and a: "(a, n) \<in> mh_live h bs"
    and w: "newsize \<noteq> 0" "unat newsize \<le> 2 ^ 32 - 16"
  shows "rt_memheap_realloc (Some a) newsize (h, s) = Some (Returned None, h, s)
     \<or> (\<exists>r h'. rt_memheap_realloc (Some a) newsize (h, s) = Some (Returned (Some r), h', s)
          \<and> realloc_result h bs a n (memheap_request newsize) r h')"
proof -
  let ?w = "memheap_request newsize"
  note I = mh_invD [OF inv] and wd = request_word [OF w(2)]
  have obj: "mh_obj h" by (rule mh_constD(1) [OF I(1)])
  have w4: "?w mod 4 = 0" "12 \<le> ?w" using request_ok(1,2) [of newsize] by (simp_all add: memheap_request_eq)
  obtain p as q cs where bs: "bs = as @ p # q # cs" and p: "a = p + 28" "n = MEMITEM_SIZE h p" "RT_MEMHEAP_IS_USED h p"
    by (rule live_base [OF I(2) a])
  note S = blocks_split [OF I(2) [unfolded bs]]
  consider (grow) "n < ?w" | (keep) "?w \<le> n" "n \<le> ?w + 40" | (shrink) "?w + 40 < n" by linarith
  then show ?thesis
  proof cases
    case grow
    let ?sec = "\<lambda>h. map_option (\<lambda>(x, h). (Some x, h)) (memheap_grow_section p n ?w h)"
    show ?thesis
    proof (cases "\<not> RT_MEMHEAP_IS_USED h q \<and> ?w + 12 < MEMITEM_SIZE h q + n")
      case True
      then have "q \<noteq> last bs" using mh_blocksD(6) [OF I(2)] by auto
      then obtain y ds where cs: "cs = y # ds" using bs by (cases cs) auto
      have "q \<in> set fs" using True inv bs by (simp add: mh_inv_mid free_blocks_def)
      then obtain f1 f2 where f: "fs = f1 @ q # f2" by (auto simp: in_set_conv_decomp)
      obtain h' where g: "memheap_grow_section p n ?w h = Some (True, h')" "mh_inv h' (as @ p # (p + 28 + ?w) # y # ds) ((p + 28 + ?w) # f1 @ f2)"
        "mh_live h' (as @ p # (p + 28 + ?w) # y # ds) = insert (a, ?w) (mh_live h bs - {(a, n)})" "mh_frame h h'"
        using grow_section_ok [OF inv [unfolded bs cs f] p(3)] True grow w4(1) p(1,2) bs cs by metis
      have "memheap_locked ?sec None (h, s) = Some (Returned (Some True), h', s)"
        by (rule locked_run [where body = ?sec, OF lk]) (use g(1) mh_frameD [OF g(4)] in simp_all)
      then have "rt_memheap_realloc (Some a) newsize (h, s) = Some (Returned (Some a), h', s)"
        using obj w(1) grow p(1,2) by (simp add: rt_memheap_realloc_def)
      moreover have "realloc_result h bs a n ?w a h'"
        by (rule realloc_in_place [OF g(2,3) order_refl I(2) a mh_frameD(9) [OF g(4)]])
      ultimately show ?thesis by blast
    next
      case False
      have "(MEMITEM_SIZE h q + n) mod 2 ^ 32 \<le> (?w + 12) mod 2 ^ 32" if "\<not> RT_MEMHEAP_IS_USED h q"
        using that False wd(1) by simp
      then have "memheap_grow_section p n ?w h = Some (False, h)"
        using S(1,3) by (auto simp: memheap_grow_section_def Let_def not_less)
      then have "memheap_locked ?sec None (h, s) = Some (Returned (Some False), h, s)"
        by (intro locked_run [where body = ?sec, OF lk]) simp_all
      then have "rt_memheap_realloc (Some a) newsize (h, s) = memheap_move a n ?w (h, s)"
        using obj w(1) grow p(1,2) by (simp add: rt_memheap_realloc_def)
      then show ?thesis using move_ok [OF inv lk a wd(2) grow] by simp
    qed
  next
    case keep
    then have "rt_memheap_realloc (Some a) newsize (h, s) = Some (Returned (Some a), h, s)"
      using obj w(1) p(1,2) by (simp add: rt_memheap_realloc_def)
    moreover have "mh_live h bs = insert (a, n) (mh_live h bs - {(a, n)})" using a by blast
    then have "realloc_result h bs a n ?w a h"
      by (rule realloc_in_place [OF inv _ keep(1) I(2) a refl])
    ultimately show ?thesis by blast
  next
    case shrink
    let ?sec = "\<lambda>h. map_option (\<lambda>(_, h). (Some a, h)) (memheap_shrink_section p ?w h)"
    obtain h' bs' f where g: "memheap_shrink_section p ?w h = Some ((), h')" "mh_inv h' bs' f"
      "mh_live h' bs' = insert (a, ?w) (mh_live h bs - {(a, n)})" "mh_frame h h'"
      using shrink_section_ok [OF inv [unfolded bs] p(3)] shrink w4 p(1,2) bs by metis
    have "memheap_locked ?sec None (h, s) = Some (Returned (Some a), h', s)"
      by (rule locked_run [where body = ?sec, OF lk]) (use g(1) mh_frameD [OF g(4)] in simp_all)
    then have "rt_memheap_realloc (Some a) newsize (h, s) = Some (Returned (Some a), h', s)"
      using obj w(1) shrink p(1,2) by (simp add: rt_memheap_realloc_def)
    moreover have "realloc_result h bs a n ?w a h'"
      by (rule realloc_in_place [OF g(2,3) order_refl I(2) a mh_frameD(9) [OF g(4)]])
    ultimately show ?thesis by blast
  qed
qed


section \<open>Properties\<close>

text \<open>A new heap: one free block, and nothing allocated.\<close>

lemma mh_format_ok:
  assumes "0 < a" "a mod 4 = 0" "68 \<le> unat (RT_ALIGN_DOWN sz 4)" "a + unat (RT_ALIGN_DOWN sz 4) \<le> 2 ^ 32"
    "unat (RT_ALIGN_DOWN sz 4) mod 4 = 0"
    "\<not> (a \<le> mh_free_list h0 \<and> mh_free_list h0 < a + unat (RT_ALIGN_DOWN sz 4))"
  shows "mh_inv (memheap_format a sz h0) [a, a + unat (RT_ALIGN_DOWN sz 4) - 28] [a]"
    "mh_live (memheap_format a sz h0) [a, a + unat (RT_ALIGN_DOWN sz 4) - 28] = {}"
proof -
  let ?pool = "unat (RT_ALIGN_DOWN sz 4)" and ?l = "mh_free_list h0" and ?h = "memheap_format a sz h0"
  let ?t = "a + ?pool - 28"
  have t: "a + (?pool - 56) + 28 = ?t" "a < ?t" using assms(3) by simp_all
  have al: "?l \<noteq> a" "?l \<noteq> ?t" using assms(3,6) by auto
  have flds: "mh_obj ?h" "mh_addr ?h = mh_addr h0" "mh_start_addr ?h = a" "mh_pool_size ?h = ?pool"
    "mh_available_size ?h = ?pool - 56" "mh_max_used_size ?h = ?pool - (?pool - 56)" "mh_block_list ?h = a"
    "mh_free_list ?h = ?l"
    by (simp_all add: memheap_format_def Let_def)
  have mg: "mh_magic ?h a = RT_MEMHEAP_MAGIC" "mh_magic ?h ?t = 0x1ea01ea1" "mh_pool_ptr ?h a = mh_addr h0"
    "mh_pool_ptr ?h ?t = mh_addr h0"
    using t al by (simp_all add: memheap_format_def Let_def)
  have blk: "nxt (mh_blk ?h) a = ?t" "prv (mh_blk ?h) ?t = a" "nxt (mh_blk ?h) ?t = a" "prv (mh_blk ?h) a = ?t"
    using t by (simp_all add: memheap_format_def Let_def set_nxt_def set_prv_def)
  have free: "nxt (mh_free ?h) ?l = a" "prv (mh_free ?h) a = ?l" "nxt (mh_free ?h) a = ?l" "prv (mh_free ?h) ?l = a"
    using t al by (simp_all add: memheap_format_def Let_def set_nxt_def set_prv_def free_insert_def)
  have used: "\<not> RT_MEMHEAP_IS_USED ?h a" "RT_MEMHEAP_IS_USED ?h ?t" by (simp_all add: RT_MEMHEAP_IS_USED_def mg)
  have sz: "MEMITEM_SIZE ?h a = ?pool - 56" using assms(3) by (simp add: MEMITEM_SIZE_def blk)
  have fb: "free_blocks ?h [a, ?t] = {a}" using used t(2) by (auto simp: free_blocks_def)
  have "mh_const ?h" using assms by (simp add: mh_const_def flds)
  moreover have "mh_blocks ?h [a, ?t]"
  proof -
    have "?t mod 4 = 0" using assms(2,3,5) by presburger
    then show ?thesis
      using t assms(2,3) by (simp add: mh_blocks_def flds circle_def ring_def linked_def blk header_ok_def mg used block_gap_def)
  qed
  moreover have "mh_frees ?h [a, ?t] [a]" using al by (simp add: mh_frees_def fb ring_def linked_def free flds)
  moreover have "mh_apart ?h [a, ?t]" using used by (simp add: mh_apart_def)
  ultimately show "mh_inv ?h [a, ?t] [a]" by (simp add: mh_inv_def fb sz flds)
  show "mh_live ?h [a, ?t] = {}" using used t(2) by (auto simp: mh_live_def)
qed

lemma live_in_region:
  assumes "mh_inv h bs fs" "(a, n) \<in> mh_live h bs"
  shows "a mod 4 = 0" "mh_start_addr h \<le> a" "a + n \<le> mh_start_addr h + mh_pool_size h"
proof -
  note I = mh_invD [OF assms(1)]
  obtain p as q cs where bs: "bs = as @ p # q # cs" and p: "a = p + 28" "n = MEMITEM_SIZE h p"
    by (rule live_base [OF I(2) assms(2)])
  note S = blocks_split [OF I(2) [unfolded bs]]
  have "p mod 4 = 0" using mh_blocksD(5) [OF I(2), of p] bs by (simp add: header_ok_def)
  then show "a mod 4 = 0" unfolding p(1) by presburger
  show "mh_start_addr h \<le> a" "a + n \<le> mh_start_addr h + mh_pool_size h" using S(3,4,8,9) p by simp_all
qed

text \<open>
  C29: allocation from a memory heap object.  It returns an aligned block inside the region that is at
  least as long as the request and overlaps no other allocated block, and releases the lock; or it
  returns NULL, changes nothing, and every free block is too short, or the request asks for exactly
  all the free bytes, which is refused even when they are one block.
\<close>

theorem memheap_alloc_gives_new_block:
  assumes "mh_inv h bs fs" "memheap_lock_free h s" "unat sz \<le> 2 ^ 32 - 4"
  shows "(\<exists>h' bs' fs' a len. rt_memheap_alloc sz (h, s) = Some (Returned (Some a), h', s) \<and> mh_inv h' bs' fs'
            \<and> mh_live h' bs' = insert (a, len) (mh_live h bs) \<and> unat sz \<le> len \<and> mh_data h' = mh_data h
            \<and> a mod RT_ALIGN_SIZE = 0 \<and> mh_start_addr h \<le> a \<and> a + len \<le> mh_start_addr h + mh_pool_size h
            \<and> (\<forall>(b, k) \<in> mh_live h bs. {a ..< a + len} \<inter> {b ..< b + k} = {}))
     \<or> (rt_memheap_alloc sz (h, s) = Some (Returned None, h, s)
          \<and> ((\<forall>p \<in> free_blocks h bs. MEMITEM_SIZE h p < memheap_request sz) \<or> mh_available_size h = memheap_request sz))"
  using memheap_alloc_ok [OF assms(1,2), of sz]
proof (elim disjE)
  assume "\<exists>h' bs' fs' a len. rt_memheap_alloc sz (h, s) = Some (Returned (Some a), h', s) \<and> mh_inv h' bs' fs'
            \<and> mh_live h' bs' = insert (a, len) (mh_live h bs) \<and> memheap_request sz \<le> len \<and> len < memheap_request sz + 40
            \<and> (\<forall>k. (a, k) \<notin> mh_live h bs) \<and> mh_frame h h'"
  then obtain h' bs' fs' a len where al: "rt_memheap_alloc sz (h, s) = Some (Returned (Some a), h', s)" "mh_inv h' bs' fs'"
    "mh_live h' bs' = insert (a, len) (mh_live h bs)" "memheap_request sz \<le> len" "\<forall>k. (a, k) \<notin> mh_live h bs" "mh_frame h h'"
    by blast
  have al': "(a, len) \<in> mh_live h' bs'" using al(3) by simp
  have "unat sz \<le> len" using request_ok(3) [OF assms(3)] al(4) by (simp add: memheap_request_eq)
  moreover have "{a ..< a + len} \<inter> {b ..< b + k} = {}" if "(b, k) \<in> mh_live h bs" for b k
    by (rule mh_live_disjoint [OF mh_invD(2) [OF al(2)] al']) (use that al(3,5) in auto)
  ultimately show ?thesis
    using al(1-3) mh_frameD [OF al(6)] live_in_region [OF al(2) al'] by (intro disjI1) auto
qed simp

text \<open>
  Release to a memory heap object.  An allocated block can be released; the others stay allocated,
  no byte changes, adjacent free blocks are combined, the lock is released, and releasing the block a
  second time fails an assertion.
\<close>

theorem memheap_free_releases:
  assumes "mh_inv h bs fs" "memheap_lock_free h s" "(a, n) \<in> mh_live h bs"
  shows "\<exists>h' bs' fs'. rt_memheap_free (Some a) (h, s) = Some (Returned (), h', s) \<and> mh_inv h' bs' fs'
     \<and> mh_live h' bs' = mh_live h bs - {(a, n)} \<and> mh_data h' = mh_data h \<and> rt_memheap_free (Some a) (h', s) = None"
proof -
  obtain h' bs' fs' where f: "rt_memheap_free (Some a) (h, s) = Some (Returned (), h', s)" "mh_inv h' bs' fs'"
    "mh_live h' bs' = mh_live h bs - {(a, n)}" "\<not> RT_MEMHEAP_IS_USED h' (a - 28)" "mh_frame h h'"
    by (rule memheap_free_ok [OF assms])
  then show ?thesis using memheap_free_unused [OF f(4)] mh_frameD(9) [OF f(5)] by blast
qed

text \<open>
  C30: reallocation in a memory heap object.  It returns NULL and changes nothing, or a block of at least
  the new size that starts with the bytes of the old one, which is gone; the other blocks stay
  allocated and keep their contents.
\<close>

theorem memheap_realloc_keeps_contents:
  assumes "mh_inv h bs fs" "memheap_lock_free h s" "(a, n) \<in> mh_live h bs" "w \<noteq> 0" "unat w \<le> 2 ^ 32 - 16"
  shows "rt_memheap_realloc (Some a) w (h, s) = Some (Returned None, h, s)
     \<or> (\<exists>r h' bs' fs' len. rt_memheap_realloc (Some a) w (h, s) = Some (Returned (Some r), h', s) \<and> mh_inv h' bs' fs'
          \<and> mh_live h' bs' = insert (r, len) (mh_live h bs - {(a, n)}) \<and> unat w \<le> len
          \<and> (\<forall>i < min n (unat w). mh_data h' (r + i) = mh_data h (a + i))
          \<and> (\<forall>(b, k) \<in> mh_live h bs - {(a, n)}. \<forall>i < k. mh_data h' (b + i) = mh_data h (b + i)))"
proof -
  have w: "unat w \<le> memheap_request w" using request_ok(3) [of w] assms(5) by (simp add: memheap_request_eq)
  from memheap_realloc_ok [OF assms] show ?thesis
  proof (elim disjE exE conjE)
    fix r h'
    assume r: "rt_memheap_realloc (Some a) w (h, s) = Some (Returned (Some r), h', s)"
      "realloc_result h bs a n (memheap_request w) r h'"
    from r(2) obtain bs' fs' len where q: "mh_inv h' bs' fs'" "memheap_request w \<le> len"
      "mh_live h' bs' = insert (r, len) (mh_live h bs - {(a, n)})"
      "\<forall>i < min n (memheap_request w). mh_data h' (r + i) = mh_data h (a + i)"
      "\<forall>(b, k) \<in> mh_live h bs - {(a, n)}. \<forall>i < k. mh_data h' (b + i) = mh_data h (b + i)"
      unfolding realloc_result_def by blast
    have "unat w \<le> len" "\<forall>i < min n (unat w). mh_data h' (r + i) = mh_data h (a + i)" using q(2,4) w by simp_all
    then show ?thesis using r(1) q(1,3,5) by (intro disjI2) blast
  qed simp
qed

text \<open>
  No fragmentation is left.  When every block has been released the heap is one free block again,
  all the bytes between the two headers are counted as available, and the free list holds that block.
\<close>

theorem memheap_all_released:
  assumes "mh_inv h bs fs" "mh_live h bs = {}"
  shows "bs = [mh_start_addr h, mh_start_addr h + mh_pool_size h - RT_MEMHEAP_SIZE] \<and> fs = [mh_start_addr h]
     \<and> mh_available_size h = mh_pool_size h - 2 * RT_MEMHEAP_SIZE"
proof -
  note I = mh_invD [OF assms(1)] and B = mh_blocksD [OF mh_invD(2) [OF assms(1)]] and mid = mh_inv_mid [THEN iffD1, OF assms(1)]
  have free: "\<not> RT_MEMHEAP_IS_USED h p" if "p \<in> set bs" "p \<noteq> last bs" for p
    using assms(2) that by (auto simp: mh_live_def)
  obtain x ds where xs: "bs = x # ds" using B(7) by (cases bs) auto
  have hl: "x \<noteq> last bs" using B(2,3) mh_constD(7) [OF I(1)] xs by auto
  then obtain q cs where ds: "ds = q # cs" using xs by (cases ds) auto
  have bs: "bs = x # q # cs" by (simp add: xs ds)
  have q: "q = last bs"
  proof (rule ccontr)
    assume "q \<noteq> last bs"
    then have "\<not> RT_MEMHEAP_IS_USED h q" "\<not> RT_MEMHEAP_IS_USED h x" using free [of q] free [of x] hl bs by auto
    then show False using I(4) by (simp add: bs mh_apart_Cons)
  qed
  have cs: "cs = []"
  proof (rule ccontr)
    assume "cs \<noteq> []"
    then have "q \<in> set cs" using q bs by simp
    then show False using B(8) by (simp add: bs)
  qed
  have eq: "bs = [x, q]" using bs cs by simp
  have x: "x = mh_start_addr h" "q + 28 = mh_start_addr h + mh_pool_size h" using B(2,3) by (simp_all add: eq)
  have "\<not> RT_MEMHEAP_IS_USED h x" "RT_MEMHEAP_IS_USED h q" using free [of x] hl B(6) by (simp_all add: eq)
  then have fb: "free_blocks h bs = {x}" by (auto simp: free_blocks_def eq)
  have fs: "distinct fs" "set fs = {x}" using mh_midD(3) [OF conjunct1 [OF mid]] mid fb by (simp_all add: ring_def)
  have "length fs = 1" using distinct_card [OF fs(1)] fs(2) by simp
  then obtain y where "fs = [y]" by (cases fs) auto
  then have "fs = [x]" using fs(2) by simp
  moreover have "mh_blocks h ([] @ x # q # [])" using I(2) by (simp add: eq)
  then have "MEMITEM_SIZE h x = q - x - 28" by (rule blocks_split(4))
  then have "mh_available_size h = q - x - 28" using I(5) fb by simp
  moreover have "q = mh_start_addr h + mh_pool_size h - 28" using x(2) by simp
  ultimately show ?thesis unfolding eq using x(1) by simp
qed

text \<open>
  The comparison of \<^verbatim>\<open>rt_memheap_realloc\<close> with the room of the free block behind wraps: for the aligned
  sizes from 2 ^ 32 - 12 on, a block in front of a free one is returned as if it had been enlarged.
\<close>

lemma memheap_realloc_grow_wraps:
  assumes inv: "mh_inv h (as @ p # q # cs) fs" and lk: "memheap_lock_free h s"
    and p: "RT_MEMHEAP_IS_USED h p" and q: "\<not> RT_MEMHEAP_IS_USED h q"
    and w: "2 ^ 32 - 16 < unat w" "unat w \<le> 2 ^ 32 - 4"
  shows "\<exists>h'. rt_memheap_realloc (Some (p + RT_MEMHEAP_SIZE)) w (h, s) = Some (Returned (Some (p + RT_MEMHEAP_SIZE)), h', s)"
proof -
  note I = mh_invD [OF inv] and S = blocks_split [OF mh_invD(2) [OF inv]]
  let ?n = "memheap_request w" and ?o = "MEMITEM_SIZE h p"
  have "unat (RT_ALIGN w 4) = (unat w + 3) div 4 * 4" using w by (simp add: RT_ALIGN_4)
  then have "?n = (unat w + 3) div 4 * 4" using w(1) by (simp add: memheap_request_def Let_def)
  then have n: "2 ^ 32 - 12 \<le> ?n" "?n \<le> 2 ^ 32 - 4" using w by simp_all
  then have m: "(?n + 12) mod 2 ^ 32 \<le> 8" by (simp add: mod_if [of "?n + 12"])
  have "q \<noteq> last (as @ p # q # cs)" using mh_blocksD(6) [OF I(2)] q by metis
  then obtain y ds where cs: "cs = y # ds" by (cases cs) auto
  have "mh_blocks h ((as @ [p]) @ q # y # ds)" using I(2) cs by simp
  note S2 = blocks_split [OF this]
  have sz: "MEMITEM_SIZE h q + ?o < 2 ^ 32" "12 \<le> ?o" using S(3,4,8) S2(3,4,9) mh_constD(5) [OF I(1)] by simp_all
  let ?sec = "\<lambda>h. map_option (\<lambda>(x, h). (Some x, h)) (memheap_grow_section p ?o ?n h)"
  obtain h' where g: "memheap_grow_section p ?o ?n h = Some (True, h')" "mh_lock h' = mh_lock h" "mh_locked h' = mh_locked h"
    using S(1,3) q m sz by (simp add: memheap_grow_section_def Let_def remove_next_ptr_def)
  have "memheap_locked ?sec None (h, s) = Some (Returned (Some True), h', s)"
    by (rule locked_run [where body = ?sec, OF lk]) (use g in simp_all)
  moreover have "?n > ?o" using sz(1) n(1) S2(3,4) by simp
  moreover have "w \<noteq> 0" using w(1) by auto
  ultimately show ?thesis using mh_constD(1) [OF I(1)] by (simp add: rt_memheap_realloc_def)
qed


section \<open>A concrete heap\<close>

definition memheap_sample :: rt_memheap where
  "memheap_sample = memheap_format 4096 256
     \<lparr>mh_obj = False, mh_system = False, mh_addr = 64, mh_start_addr = 0, mh_pool_size = 0, mh_available_size = 0,
      mh_max_used_size = 0, mh_block_list = 0, mh_free_list = 96, mh_lock = 5, mh_locked = False,
      mh_magic = (\<lambda>_. 0), mh_pool_ptr = (\<lambda>_. 0), mh_blk = \<lparr>nxt = \<lambda>_. 0, prv = \<lambda>_. 0\<rparr>,
      mh_free = \<lparr>nxt = \<lambda>_. 0, prv = \<lambda>_. 0\<rparr>, mh_data = (\<lambda>_. 0)\<rparr>"

definition k_memheap :: kstate where
  "k_memheap = upd_sem 5 (\<lambda>m. m\<lparr>sem_value := 1\<rparr>) k_sample"

lemma memheap_sample_facts:
  "mh_inv memheap_sample [4096, 4324] [4096]" "mh_live memheap_sample [4096, 4324] = {}"
  "memheap_lock_free memheap_sample k_memheap" "mh_available_size memheap_sample = 200"
  "free_blocks memheap_sample [4096, 4324] = {4096}" "MEMITEM_SIZE memheap_sample 4096 = 200"
proof -
  have al: "unat (RT_ALIGN_DOWN 256 4 :: rt_uint32_t) = 256" by (simp add: RT_ALIGN_DOWN_def)
  show inv: "mh_inv memheap_sample [4096, 4324] [4096]" and l: "mh_live memheap_sample [4096, 4324] = {}"
    unfolding memheap_sample_def using mh_format_ok [of 4096 256] by (simp_all add: al)
  have "mh_lock memheap_sample = 5" "\<not> mh_locked memheap_sample"
    by (simp_all add: memheap_sample_def memheap_format_def Let_def)
  then show "memheap_lock_free memheap_sample k_memheap"
    by (simp add: memheap_lock_free_def k_memheap_def k_sample_def lists_sample_def)
  have "mh_pool_size memheap_sample = 256"
    by (simp add: memheap_sample_def memheap_format_def Let_def al)
  then show av: "mh_available_size memheap_sample = 200" using memheap_all_released [OF inv l] by simp
  show fb: "free_blocks memheap_sample [4096, 4324] = {4096}" using inv by (simp add: mh_inv_mid)
  show "MEMITEM_SIZE memheap_sample 4096 = 200" using mh_invD(5) [OF inv] av by (simp add: fb)
qed

lemma memheap_request_20: "memheap_request 20 = 20"
  by (simp add: memheap_request_def RT_ALIGN_def)

theorem memheap_alloc_gives_new_block_witness:
  "\<exists>h bs fs a len. rt_memheap_alloc 20 (memheap_sample, k_memheap) = Some (Returned (Some a), h, k_memheap)
     \<and> mh_inv h bs fs \<and> mh_live h bs = {(a, len)} \<and> 20 \<le> len \<and> a mod 4 = 0"
proof -
  have no: "\<not> ((\<forall>p \<in> free_blocks memheap_sample [4096, 4324]. MEMITEM_SIZE memheap_sample p < memheap_request 20)
      \<or> mh_available_size memheap_sample = memheap_request 20)"
    by (simp add: memheap_sample_facts(4-6) memheap_request_20)
  have le: "unat (20 :: rt_uint32_t) \<le> 2 ^ 32 - 4" by simp
  have u: "unat (20 :: rt_uint32_t) = 20" by simp
  from memheap_alloc_gives_new_block [OF memheap_sample_facts(1,3) le] show ?thesis
  proof (elim disjE exE conjE, goal_cases)
    case (1 h bs fs a len)
    then show ?case by (intro exI [of _ h] exI) (simp add: memheap_sample_facts(2))
  next
    case 2
    then show ?case using no by blast
  next
    case 3
    then show ?case using no by blast
  qed
qed

lemma memheap_sample_alloc:
  obtains h bs fs a len where "rt_memheap_alloc 20 (memheap_sample, k_memheap) = Some (Returned (Some a), h, k_memheap)"
    "mh_inv h bs fs" "mh_live h bs = {(a, len)}" "memheap_lock_free h k_memheap"
proof -
  have no: "\<not> ((\<forall>p \<in> free_blocks memheap_sample [4096, 4324]. MEMITEM_SIZE memheap_sample p < memheap_request 20)
      \<or> mh_available_size memheap_sample = memheap_request 20)"
    by (simp add: memheap_sample_facts(4-6) memheap_request_20)
  from memheap_alloc_ok [OF memheap_sample_facts(1,3), of 20] show thesis
  proof (elim disjE exE conjE, goal_cases)
    case (1 h bs fs a len)
    show ?case
      by (rule that [OF 1(1,2)])
        (simp_all only: 1(3) memheap_sample_facts(2,3) mh_lock_frame [OF 1(7)])
  next
    case 2
    then show ?case using no by blast
  next
    case 3
    then show ?case using no by blast
  qed
qed

theorem memheap_free_releases_witness:
  "\<exists>h h' a. rt_memheap_alloc 20 (memheap_sample, k_memheap) = Some (Returned (Some a), h, k_memheap)
     \<and> rt_memheap_free (Some a) (h, k_memheap) = Some (Returned (), h', k_memheap)
     \<and> rt_memheap_free (Some a) (h', k_memheap) = None"
proof -
  obtain h bs fs a len where m: "rt_memheap_alloc 20 (memheap_sample, k_memheap) = Some (Returned (Some a), h, k_memheap)"
    "mh_inv h bs fs" "mh_live h bs = {(a, len)}" "memheap_lock_free h k_memheap" by (rule memheap_sample_alloc)
  then show ?thesis using memheap_free_releases [OF m(2,4), of a len] by auto
qed

theorem memheap_realloc_keeps_contents_witness:
  "\<exists>h a x. rt_memheap_alloc 20 (memheap_sample, k_memheap) = Some (Returned (Some a), h, k_memheap)
     \<and> rt_memheap_realloc (Some a) 40 (h, k_memheap) = Some x"
proof -
  obtain h bs fs a len where m: "rt_memheap_alloc 20 (memheap_sample, k_memheap) = Some (Returned (Some a), h, k_memheap)"
    "mh_inv h bs fs" "mh_live h bs = {(a, len)}" "memheap_lock_free h k_memheap" by (rule memheap_sample_alloc)
  then show ?thesis using memheap_realloc_keeps_contents [OF m(2,4), of a len 40] by auto
qed

theorem memheap_all_released_witness: "mh_available_size memheap_sample = 200"
  using memheap_all_released [OF memheap_sample_facts(1,2)]
  by (simp add: memheap_sample_def memheap_format_def Let_def RT_ALIGN_DOWN_def)

end
