(* ===== verification/Heap.thy ===== *)
theory Heap
  imports Memheap KString
begin

text \<open>
  The system heap of src/kservice.c: \<^verbatim>\<open>rt_malloc\<close>, \<^verbatim>\<open>rt_realloc\<close>, \<^verbatim>\<open>rt_free\<close> over the small memory heap
  of Mem, under the heap mutex, and the functions built on them: \<^verbatim>\<open>rt_calloc\<close>, \<^verbatim>\<open>rt_strdup\<close>,
  \<^verbatim>\<open>rt_malloc_align\<close> and \<^verbatim>\<open>rt_free_align\<close>.  What these need of a heap is the locale \<open>allocator\<close>, which
  the system heap and the memory heap objects both provide.  Addresses here are those of the memory.
\<close>

section \<open>The system heap\<close>

text \<open>The argument lk is the number of the heap mutex \<^verbatim>\<open>_lock\<close>.\<close>

definition heap_lock :: "nat \<Rightarrow> kstate \<Rightarrow> (rt_err_t outcome \<times> kstate) option" where
  "heap_lock lk s =
     (if k_current s \<noteq> None then rt_mutex_take lk (-1) s else Some (Returned RT_EOK, s))"

definition heap_unlock :: "nat \<Rightarrow> rt_err_t \<Rightarrow> kstate \<Rightarrow> kstate option" where
  "heap_unlock lk level s = do {
     RT_ASSERT (level = RT_EOK);
     if k_current s \<noteq> None then map_option snd (rt_mutex_release lk s) else Some s
   }"

text \<open>A call that has to wait for the mutex ends with \<open>Blocked\<close>; it goes on with the body when it has it.\<close>

definition heap_locked ::
  "nat \<Rightarrow> (rt_small_mem \<Rightarrow> ('a \<times> rt_small_mem) option) \<Rightarrow> rt_small_mem \<times> kstate
   \<Rightarrow> ('a outcome \<times> rt_small_mem \<times> kstate) option" where
  "heap_locked lk body ms = do {
     let (m, s) = ms;
     (r, s1) \<leftarrow> heap_lock lk s;
     (case r of
        Blocked \<Rightarrow> Some (Blocked, m, s1)
      | Returned level \<Rightarrow> do {
          (x, m1) \<leftarrow> body m;
          s2 \<leftarrow> heap_unlock lk level s1;
          Some (Returned x, m1, s2)
        })
   }"

definition heap_init_ok :: "rt_uint32_t \<Rightarrow> rt_uint32_t \<Rightarrow> bool" where
  "heap_init_ok begin_addr end_addr \<longleftrightarrow> RT_ALIGN_DOWN end_addr 4 > RT_ALIGN begin_addr 4"

text \<open>The heap over the memory that held \<open>items\<close> and \<open>bytes\<close>; \<^term>\<open>None\<close> inside is a NULL heap.\<close>

definition rt_system_heap_init ::
  "nat \<Rightarrow> rt_uint32_t \<Rightarrow> (nat \<Rightarrow> rt_small_mem_item) \<Rightarrow> (nat \<Rightarrow> rt_uint8_t) \<Rightarrow> rt_uint32_t \<Rightarrow> rt_uint32_t
   \<Rightarrow> kstate \<Rightarrow> (rt_small_mem option \<times> kstate) option" where
  "rt_system_heap_init lk sizeof_small_mem items bytes begin_addr end_addr s = do {
     RT_ASSERT (heap_init_ok begin_addr end_addr);
     let m = rt_smem_init sizeof_small_mem items bytes begin_addr
               (RT_ALIGN_DOWN end_addr 4 - RT_ALIGN begin_addr 4);
     (r, s1) \<leftarrow> rt_mutex_init lk s;
     Some (m, s1)
   }"

definition rt_malloc ::
  "nat \<Rightarrow> rt_uint32_t \<Rightarrow> rt_small_mem \<times> kstate \<Rightarrow> (nat option outcome \<times> rt_small_mem \<times> kstate) option" where
  "rt_malloc lk sz ms =
     heap_locked lk (\<lambda>m. map_option (\<lambda>(r, m'). (map_option ((+) (sm_heap_ptr m)) r, m')) (rt_smem_alloc sz m)) ms"

definition rt_realloc ::
  "nat \<Rightarrow> nat option \<Rightarrow> rt_uint32_t \<Rightarrow> rt_small_mem \<times> kstate
   \<Rightarrow> (nat option outcome \<times> rt_small_mem \<times> kstate) option" where
  "rt_realloc lk rmem newsize ms =
     heap_locked lk (\<lambda>m. map_option (\<lambda>(r, m'). (map_option ((+) (sm_heap_ptr m)) r, m'))
       (rt_smem_realloc (map_option (\<lambda>a. a - sm_heap_ptr m) rmem) newsize m)) ms"

definition rt_free ::
  "nat \<Rightarrow> nat option \<Rightarrow> rt_small_mem \<times> kstate \<Rightarrow> (unit outcome \<times> rt_small_mem \<times> kstate) option" where
  "rt_free lk rmem ms =
     (case rmem of
        None \<Rightarrow> Some (Returned (), ms)
      | Some a \<Rightarrow> heap_locked lk (\<lambda>m. map_option (Pair ()) (rt_smem_free (Some (a - sm_heap_ptr m)) m)) ms)"

definition rt_memory_info ::
  "nat \<Rightarrow> rt_small_mem \<times> kstate \<Rightarrow> ((nat \<times> nat \<times> nat) outcome \<times> rt_small_mem \<times> kstate) option" where
  "rt_memory_info lk ms =
     heap_locked lk (\<lambda>m. Some ((sm_mem_size_aligned m, sm_used m, sm_max m), m)) ms"


section \<open>Functions over any heap\<close>

text \<open>
  The functions built on \<^verbatim>\<open>rt_malloc\<close> and \<^verbatim>\<open>rt_free\<close>, with the heap operations as arguments: alloc,
  release, the store of a run of bytes, and the byte at an address.
\<close>

definition rt_calloc ::
  "(rt_uint32_t \<Rightarrow> 'h \<Rightarrow> (nat option outcome \<times> 'h) option) \<Rightarrow> (nat \<Rightarrow> rt_uint8_t list \<Rightarrow> 'h \<Rightarrow> 'h)
   \<Rightarrow> rt_uint32_t \<Rightarrow> rt_uint32_t \<Rightarrow> 'h \<Rightarrow> (nat option outcome \<times> 'h) option" where
  "rt_calloc alloc store count sz h = do {
     (r, h1) \<leftarrow> alloc (count * sz) h;
     Some (r, case r of Returned (Some p) \<Rightarrow> store p (replicate (unat (count * sz)) 0) h1 | _ \<Rightarrow> h1)
   }"

text \<open>The string stands at address a of the memory src.\<close>

definition rt_strdup ::
  "(rt_uint32_t \<Rightarrow> 'h \<Rightarrow> (nat option outcome \<times> 'h) option) \<Rightarrow> (nat \<Rightarrow> rt_uint8_t list \<Rightarrow> 'h \<Rightarrow> 'h)
   \<Rightarrow> memory \<Rightarrow> nat \<Rightarrow> 'h \<Rightarrow> (nat option outcome \<times> 'h) option" where
  "rt_strdup alloc store src a h = do {
     n \<leftarrow> rt_strlen a src;
     let len = word_of_nat (n + 1);
     (r, h1) \<leftarrow> alloc len h;
     (case r of
        Returned (Some tmp) \<Rightarrow> do {
          xs \<leftarrow> fetch src a (unat len);
          Some (r, store tmp xs h1)
        }
      | _ \<Rightarrow> Some (r, h1))
   }"

text \<open>A pointer in memory, lowest byte first.\<close>

definition word_bytes :: "rt_uint32_t \<Rightarrow> rt_uint8_t list" where
  "word_bytes w = map (\<lambda>i. ucast (drop_bit (8 * i) w)) [0, 1, 2, 3]"

definition load_word :: "('h \<Rightarrow> nat \<Rightarrow> rt_uint8_t) \<Rightarrow> 'h \<Rightarrow> nat \<Rightarrow> rt_uint32_t" where
  "load_word byte h a =
     ucast (byte h a) OR push_bit 8 (ucast (byte h (a + 1))) OR push_bit 16 (ucast (byte h (a + 2)))
       OR push_bit 24 (ucast (byte h (a + 3)))"

definition align_up :: "rt_uint32_t \<Rightarrow> rt_uint32_t \<Rightarrow> rt_uint32_t" where
  "align_up ptr algn =
     (if ptr AND (algn - 1) = 0 then ptr + algn else (ptr + (algn - 1)) AND NOT (algn - 1))"

definition rt_malloc_align ::
  "(rt_uint32_t \<Rightarrow> 'h \<Rightarrow> (nat option outcome \<times> 'h) option) \<Rightarrow> (nat \<Rightarrow> rt_uint8_t list \<Rightarrow> 'h \<Rightarrow> 'h)
   \<Rightarrow> rt_uint32_t \<Rightarrow> rt_uint32_t \<Rightarrow> 'h \<Rightarrow> (nat option outcome \<times> 'h) option" where
  "rt_malloc_align alloc store sz algn0 h = do {
     let algn = (algn0 + 3) AND NOT 3;
     let align_size = ((sz + 3) AND NOT 3) + algn;
     (r, h1) \<leftarrow> alloc align_size h;
     Some (case r of
        Returned (Some p) \<Rightarrow>
          (let align_ptr = align_up (word_of_nat p) algn
           in (Returned (Some (unat align_ptr)), store (unat (align_ptr - 4)) (word_bytes (word_of_nat p)) h1))
      | _ \<Rightarrow> (r, h1))
   }"

definition rt_free_align ::
  "(nat \<Rightarrow> 'h \<Rightarrow> (unit outcome \<times> 'h) option) \<Rightarrow> ('h \<Rightarrow> nat \<Rightarrow> rt_uint8_t)
   \<Rightarrow> nat option \<Rightarrow> 'h \<Rightarrow> (unit outcome \<times> 'h) option" where
  "rt_free_align release byte ptr h =
     (case ptr of
        None \<Rightarrow> Some (Returned (), h)
      | Some a \<Rightarrow> release (unat (load_word byte h (a - 4))) h)"


section \<open>Aligned addresses\<close>

lemma clear_low_bits:
  fixes v :: rt_uint32_t
  assumes "k < 32"
  shows "unat (v AND NOT (mask k)) = unat v div 2 ^ k * 2 ^ k"
proof -
  have "(v AND mask k) OR (v AND NOT (mask k)) = v"
    by (simp only: bit.conj_disj_distrib [symmetric] bit.disj_cancel_right) simp
  moreover have "(v AND mask k) AND (v AND NOT (mask k)) = 0" by (rule bit_word_eqI) (auto simp: bit_simps)
  ultimately have s: "v = (v AND mask k) + (v AND NOT (mask k))" by (metis disjunctive_add_eq_or)
  have u: "unat (v AND mask k) = unat v mod 2 ^ k"
    by (simp only: take_bit_eq_mask [symmetric] unsigned_take_bit_eq) (simp add: take_bit_eq_mod)
  have "v AND NOT (mask k) = v - (v AND mask k)" using s by (metis add_diff_cancel_left')
  moreover have "v AND mask k \<le> v" using u by (simp add: word_le_nat_alt)
  ultimately have "unat (v AND NOT (mask k)) = unat v - unat v mod 2 ^ k" using u by (simp add: unat_sub)
  then show ?thesis by (simp add: minus_mod_eq_div_mult)
qed

lemma power_minus_1: "unat w = 2 ^ k \<Longrightarrow> w - 1 = mask k" for w :: rt_uint32_t
proof -
  assume w: "unat w = 2 ^ k"
  have "w = word_of_nat (unat w)" by simp
  also have "\<dots> = 2 ^ k" unfolding w by simp
  finally have "w = 2 ^ k" .
  then show ?thesis by (simp add: mask_eq_exp_minus_1)
qed

lemma div_up:
  fixes p m :: nat
  assumes "p mod m \<noteq> 0" "0 < m"
  shows "(p + (m - 1)) div m = p div m + 1"
proof -
  have r: "p mod m - 1 < m" using mod_less_divisor [OF assms(2), of p] by linarith
  have "p + (m - 1) = (p mod m - 1) + (p div m + 1) * m"
    using assms div_mult_mod_eq [of p m] by (simp only: add_mult_distrib)
  then have "(p + (m - 1)) div m = (p mod m - 1 + (p div m + 1) * m) div m" by simp
  also have "\<dots> = (p mod m - 1) div m + (p div m + 1)" using assms(2) by (subst div_mult_self1) simp_all
  finally show ?thesis using r by simp
qed

lemma pow_4: "2 \<le> k \<Longrightarrow> (4 :: nat) dvd 2 ^ k"
  using le_imp_power_dvd [of 2 k "2 :: nat"] by simp

text \<open>The aligned address lies behind the start of the block, far enough for a pointer before it.\<close>

lemma align_up_ok:
  assumes w: "unat algn = 2 ^ k" "2 \<le> k" "k < 32" and p: "p mod 4 = 0" "p + 2 ^ k < 2 ^ 32"
  shows "unat (align_up (word_of_nat p) algn) mod 2 ^ k = 0" "p + 4 \<le> unat (align_up (word_of_nat p) algn)"
    "unat (align_up (word_of_nat p) algn) \<le> p + 2 ^ k"
proof -
  note m = power_minus_1 [OF w(1)]
  have up: "unat (word_of_nat p :: rt_uint32_t) = p" using p(2) by (simp add: unat_of_nat)
  note four = pow_4 [OF w(2)]
  have res: "unat (word_of_nat p AND (algn - 1)) = p mod 2 ^ k"
    unfolding m take_bit_eq_mask [symmetric] unsigned_take_bit_eq up by (simp add: take_bit_eq_mod)
  have "unat (align_up (word_of_nat p) algn) mod 2 ^ k = 0 \<and> p + 4 \<le> unat (align_up (word_of_nat p) algn)
    \<and> unat (align_up (word_of_nat p) algn) \<le> p + 2 ^ k"
  proof (cases "p mod 2 ^ k = 0")
    case True
    then have "align_up (word_of_nat p) algn = word_of_nat p + algn"
      using res by (simp add: align_up_def unat_eq_zero [symmetric] del: unat_eq_zero)
    moreover have "unat (word_of_nat p + algn) = p + 2 ^ k" using up w(1) p(2) by (simp add: unat_word_ariths)
    moreover have "4 \<le> (2 :: nat) ^ k" using four by (simp add: dvd_imp_le)
    ultimately show ?thesis using True by simp
  next
    case False
    then have e: "align_up (word_of_nat p) algn = (word_of_nat p + mask k) AND NOT (mask k)"
      using res m by (auto simp: align_up_def)
    have "unat (mask k :: rt_uint32_t) = 2 ^ k - 1" using m w(1) by (metis unat_minus_one unat_eq_zero power_eq_0_iff zero_neq_numeral)
    then have "unat (word_of_nat p + mask k :: rt_uint32_t) = p + (2 ^ k - 1)" using up p(2) by (simp add: unat_word_ariths)
    then have q: "unat (align_up (word_of_nat p) algn) = (p + (2 ^ k - 1)) div 2 ^ k * 2 ^ k"
      unfolding e clear_low_bits [OF w(3)] by simp
    have "(p + (2 ^ k - 1)) div 2 ^ k = p div 2 ^ k + 1" by (rule div_up [OF False]) simp
    then have q2: "unat (align_up (word_of_nat p) algn) = p div 2 ^ k * 2 ^ k + 2 ^ k" using q by simp
    have "p mod 2 ^ k mod 4 = 0" using p(1) four by (simp add: mod_mod_cancel)
    then obtain c where c: "p mod 2 ^ k = 4 * c" by auto
    obtain d where d: "(2 :: nat) ^ k = 4 * d" using four by auto
    have "p mod 2 ^ k < 2 ^ k" by simp
    then have "c < d" using c d by simp
    then have r: "p mod 2 ^ k + 4 \<le> 2 ^ k" using c d by simp
    have "p = p div 2 ^ k * 2 ^ k + p mod 2 ^ k" by (rule div_mult_mod_eq [symmetric])
    then have "p + 4 \<le> p div 2 ^ k * 2 ^ k + 2 ^ k" "p div 2 ^ k * 2 ^ k + 2 ^ k \<le> p + 2 ^ k"
      using r by linarith+
    moreover have "(p div 2 ^ k * 2 ^ k + 2 ^ k) mod 2 ^ k = 0" by simp
    ultimately show ?thesis unfolding q2 by blast
  qed
  then show "unat (align_up (word_of_nat p) algn) mod 2 ^ k = 0" "p + 4 \<le> unat (align_up (word_of_nat p) algn)"
    "unat (align_up (word_of_nat p) algn) \<le> p + 2 ^ k" by blast+
qed

lemma load_word_bytes:
  assumes "\<And>i. i < 4 \<Longrightarrow> byte h (a + i) = word_bytes w ! i"
  shows "load_word byte h a = w"
proof -
  have b: "byte h a = ucast w" "byte h (a + 1) = ucast (drop_bit 8 w)" "byte h (a + 2) = ucast (drop_bit 16 w)"
    "byte h (a + 3) = ucast (drop_bit 24 w)"
    using assms [of 0] assms [of 1] assms [of 2] assms [of 3] by (simp_all add: word_bytes_def)
  have k: "n < 8 \<or> 8 \<le> n \<and> n < 16 \<or> 16 \<le> n \<and> n < 24 \<or> 24 \<le> n \<and> n < 32" if "n < 32" for n :: nat using that by arith
  show ?thesis unfolding load_word_def b
  proof (rule bit_word_eqI)
    fix n assume n: "n < LENGTH(32)"
    then show "bit (ucast (ucast w :: rt_uint8_t) OR push_bit 8 (ucast (ucast (drop_bit 8 w) :: rt_uint8_t))
        OR push_bit 16 (ucast (ucast (drop_bit 16 w) :: rt_uint8_t))
        OR push_bit 24 (ucast (ucast (drop_bit 24 w) :: rt_uint8_t)) :: rt_uint32_t) n = bit w n"
      using k [of n] by (auto simp: bit_simps)
  qed
qed

text \<open>A string and its terminator.\<close>

lemma cstr_fetch: "cstr m a xs \<Longrightarrow> fetch m a (length xs + 1) = Some (xs @ [0])"
proof (induction xs arbitrary: a)
  case Nil
  then show ?case by (auto simp: fetch_def arr_get_def take_Suc_conv_app_nth Cons_nth_drop_Suc [symmetric] split: if_splits)
next
  case (Cons x xs)
  then have "drop a m = x # drop (a + 1) m" "fetch m (a + 1) (length xs + 1) = Some (xs @ [0])"
    by (auto simp: arr_get_def Cons_nth_drop_Suc split: if_splits)
  then show ?case by (auto simp: fetch_def split: if_splits)
qed


section \<open>What a heap promises\<close>

text \<open>
  A heap owns the allocated blocks L, pairs of address and length.  A result of an allocation: a new
  block apart from the others, whose bytes are unchanged.
\<close>

definition new_block ::
  "('h \<Rightarrow> nat \<Rightarrow> rt_uint8_t) \<Rightarrow> ('h \<Rightarrow> (nat \<times> nat) set \<Rightarrow> bool) \<Rightarrow> 'h \<Rightarrow> (nat \<times> nat) set \<Rightarrow> nat \<Rightarrow> nat \<Rightarrow> 'h \<Rightarrow> bool" where
  "new_block byte owns h L a len h' \<longleftrightarrow> owns h' (insert (a, len) L)
     \<and> (\<forall>(b, k) \<in> L. {a ..< a + len} \<inter> {b ..< b + k} = {})
     \<and> (\<forall>(b, k) \<in> L. \<forall>x \<in> {b ..< b + k}. byte h' x = byte h x)"

definition no_block ::
  "('h \<Rightarrow> nat \<Rightarrow> rt_uint8_t) \<Rightarrow> ('h \<Rightarrow> (nat \<times> nat) set \<Rightarrow> bool) \<Rightarrow> 'h \<Rightarrow> (nat \<times> nat) set
   \<Rightarrow> (nat option outcome \<times> 'h) option \<Rightarrow> bool" where
  "no_block byte owns h L r \<longleftrightarrow> (\<exists>h'. r = Some (Returned None, h') \<and> owns h' L \<and> byte h' = byte h)"

locale allocator =
  fixes alloc :: "rt_uint32_t \<Rightarrow> 'h \<Rightarrow> (nat option outcome \<times> 'h) option"
    and release :: "nat \<Rightarrow> 'h \<Rightarrow> (unit outcome \<times> 'h) option"
    and store :: "nat \<Rightarrow> rt_uint8_t list \<Rightarrow> 'h \<Rightarrow> 'h"
    and byte :: "'h \<Rightarrow> nat \<Rightarrow> rt_uint8_t"
    and owns :: "'h \<Rightarrow> (nat \<times> nat) set \<Rightarrow> bool"
  assumes alloc_law: "owns h L \<Longrightarrow> sz \<noteq> 0 \<Longrightarrow> unat sz \<le> 2 ^ 32 - 4 \<Longrightarrow>
      no_block byte owns h L (alloc sz h)
      \<or> (\<exists>h' a len. alloc sz h = Some (Returned (Some a), h') \<and> new_block byte owns h L a len h'
           \<and> unat sz \<le> len \<and> a mod 4 = 0 \<and> a + len \<le> 2 ^ 32)"
    and release_law: "owns h L \<Longrightarrow> (a, n) \<in> L \<Longrightarrow>
      \<exists>h'. release a h = Some (Returned (), h') \<and> owns h' (L - {(a, n)}) \<and> byte h' = byte h"
    and store_owns: "owns h L \<Longrightarrow> (b, n) \<in> L \<Longrightarrow> b \<le> a \<Longrightarrow> a + length xs \<le> b + n \<Longrightarrow> owns (store a xs h) L"
    and store_byte: "owns h L \<Longrightarrow> (b, n) \<in> L \<Longrightarrow> b \<le> a \<Longrightarrow> a + length xs \<le> b + n \<Longrightarrow>
      byte (store a xs h) x = (if a \<le> x \<and> x < a + length xs then xs ! (x - a) else byte h x)"
begin

text \<open>Writing into a new block leaves it a new block.\<close>

lemma store_new_block:
  assumes "new_block byte owns h L a len h'" "a \<le> q" "q + length xs \<le> a + len"
  shows "new_block byte owns h L a len (store q xs h')"
proof -
  have o: "owns h' (insert (a, len) L)" and d: "\<And>b k. (b, k) \<in> L \<Longrightarrow> {a ..< a + len} \<inter> {b ..< b + k} = {}"
    and e: "\<And>b k x. (b, k) \<in> L \<Longrightarrow> x \<in> {b ..< b + k} \<Longrightarrow> byte h' x = byte h x"
    using assms(1) by (auto simp: new_block_def)
  have "byte (store q xs h') x = byte h x" if "(b, k) \<in> L" "x \<in> {b ..< b + k}" for b k x
  proof -
    have "x \<notin> {a ..< a + len}" using d [OF that(1)] that(2) by blast
    then have "\<not> (q \<le> x \<and> x < q + length xs)" using assms(2,3) by auto
    then have "byte (store q xs h') x = byte h' x"
      by (simp only: store_byte [OF o insertI1 assms(2,3)] if_False)
    then show ?thesis using e [OF that] by simp
  qed
  then show ?thesis unfolding new_block_def using store_owns [OF o insertI1 assms(2,3)] d by blast
qed

lemma written_bytes:
  assumes "new_block byte owns h L a len h'" "a \<le> q" "q + length xs \<le> a + len" "i < length xs"
  shows "byte (store q xs h') (q + i) = xs ! i"
proof -
  have "owns h' (insert (a, len) L)" using assms(1) by (simp add: new_block_def)
  then show ?thesis using assms(4) by (simp add: store_byte [OF _ insertI1 assms(2,3)])
qed

lemma calloc_zeroes:
  assumes "owns h L" "count \<noteq> 0" "sz \<noteq> 0" "unat count * unat sz \<le> 2 ^ 32 - 4"
  shows "no_block byte owns h L (rt_calloc alloc store count sz h)
    \<or> (\<exists>h' a len. rt_calloc alloc store count sz h = Some (Returned (Some a), h') \<and> new_block byte owns h L a len h'
         \<and> unat count * unat sz \<le> len \<and> (\<forall>i < unat count * unat sz. byte h' (a + i) = 0))"
proof -
  have n: "unat (count * sz) = unat count * unat sz" using assms(4) by (simp add: unat_word_ariths)
  moreover have "0 < unat count * unat sz" using assms(2,3) by (simp add: unat_gt_0)
  ultimately have nz: "count * sz \<noteq> 0" by auto
  from alloc_law [OF assms(1) nz] n assms(4) consider
      (none) "no_block byte owns h L (alloc (count * sz) h)"
    | (some) h' a len where "alloc (count * sz) h = Some (Returned (Some a), h')" "new_block byte owns h L a len h'"
        "unat count * unat sz \<le> len" by auto
  then show ?thesis
  proof cases
    case none
    then obtain h' where "alloc (count * sz) h = Some (Returned None, h')" "owns h' L" "byte h' = byte h"
      by (auto simp: no_block_def)
    then show ?thesis by (intro disjI1) (simp add: no_block_def rt_calloc_def)
  next
    case some
    let ?xs = "replicate (unat (count * sz)) (0 :: rt_uint8_t)"
    have l: "a \<le> a" "a + length ?xs \<le> a + len" using some(3) n by simp_all
    have "rt_calloc alloc store count sz h = Some (Returned (Some a), store a ?xs h')"
      using some(1) by (simp add: rt_calloc_def)
    moreover have "byte (store a ?xs h') (a + i) = 0" if "i < unat count * unat sz" for i
      using written_bytes [OF some(2) l, of i] that n by simp
    ultimately show ?thesis using store_new_block [OF some(2) l] some(3) by blast
  qed
qed

lemma strdup_copies:
  assumes "owns h L" "cstr src s xs" "length xs < 2 ^ 32 - 4"
  shows "no_block byte owns h L (rt_strdup alloc store src s h)
    \<or> (\<exists>h' a len. rt_strdup alloc store src s h = Some (Returned (Some a), h') \<and> new_block byte owns h L a len h'
         \<and> length xs < len \<and> map (\<lambda>i. byte h' (a + i)) [0 ..< length xs + 1] = xs @ [0])"
proof -
  let ?len = "word_of_nat (length xs + 1) :: rt_uint32_t"
  have n: "unat ?len = length xs + 1" using assms(3) by (simp only: unat_of_nat) simp
  then have nz: "?len \<noteq> 0" by (metis Suc_eq_plus1 nat.distinct(1) unat_0)
  have sl: "rt_strlen s src = Some (length xs)" by (rule strlen_ok [OF assms(2)])
  have f: "fetch src s (length xs + 1) = Some (xs @ [0])" by (rule cstr_fetch [OF assms(2)])
  from alloc_law [OF assms(1) nz] n assms(3) consider
      (none) "no_block byte owns h L (alloc ?len h)"
    | (some) h' a len where "alloc ?len h = Some (Returned (Some a), h')" "new_block byte owns h L a len h'"
        "length xs + 1 \<le> len" by auto
  then show ?thesis
  proof cases
    case none
    then obtain h' where "alloc ?len h = Some (Returned None, h')" "owns h' L" "byte h' = byte h"
      by (auto simp: no_block_def)
    then show ?thesis using sl by (intro disjI1) (simp add: no_block_def rt_strdup_def Let_def)
  next
    case some
    have l: "a \<le> a" "a + length (xs @ [0]) \<le> a + len" using some(3) by simp_all
    have "rt_strdup alloc store src s h = Some (Returned (Some a), store a (xs @ [0]) h')"
      unfolding rt_strdup_def sl by (simp only: bind.bind_lunit Let_def some(1) n f prod.case outcome.case option.case)
    moreover have "map (\<lambda>i. byte (store a (xs @ [0]) h') (a + i)) [0 ..< length xs + 1] = xs @ [0]"
      by (rule nth_equalityI) (use written_bytes [OF some(2) l] in \<open>auto simp del: upt_Suc\<close>)
    ultimately show ?thesis using store_new_block [OF some(2) l] some(3) by (intro disjI2) force
  qed
qed

text \<open>The request of an aligned allocation, when it does not wrap.\<close>

lemma malloc_align_ok:
  assumes "owns h L" "unat algn = 2 ^ k" "2 \<le> k" "k < 32" "sz \<noteq> 0" "unat sz + 2 ^ k \<le> 2 ^ 32 - 8"
  shows "no_block byte owns h L (rt_malloc_align alloc store sz algn h)
    \<or> (\<exists>h' a len q. rt_malloc_align alloc store sz algn h = Some (Returned (Some q), h') \<and> new_block byte owns h L a len h'
         \<and> q mod 2 ^ k = 0 \<and> a + 4 \<le> q \<and> q + unat sz \<le> a + len \<and> load_word byte h' (q - 4) = word_of_nat a \<and> a < 2 ^ 32)"
proof -
  let ?n = "((sz + 3) AND NOT 3) + ((algn + 3) AND NOT 3)"
  obtain d where d: "(2 :: nat) ^ k = 4 * d" using pow_4 [OF assms(3)] by auto
  have p: "0 < (2 :: nat) ^ k" by simp
  have al: "(algn + 3) AND NOT 3 = algn"
  proof -
    have "unat (algn + 3) = 4 * d + 3" using assms(2,6) d by (simp add: unat_word_ariths)
    then have "unat ((algn + 3) AND NOT 3) = unat algn" unfolding low_bits_cleared using assms(2) d by simp
    then show ?thesis by (simp only: word_unat_eq_iff)
  qed
  have sz: "unat ((sz + 3) AND NOT 3) = (unat sz + 3) div 4 * 4"
  proof -
    have "unat (sz + 3) = unat sz + 3" using assms(6) p by (simp add: unat_word_ariths)
    then show ?thesis by (simp only: low_bits_cleared)
  qed
  have up: "unat sz \<le> (unat sz + 3) div 4 * 4" "(unat sz + 3) div 4 * 4 \<le> unat sz + 3" by presburger+
  have n: "unat ?n = (unat sz + 3) div 4 * 4 + 2 ^ k" unfolding al
    using up assms(2,6) sz by (simp add: unat_word_ariths)
  then have nz: "?n \<noteq> 0" using p by (metis add_gr_0 less_numeral_extra(3) unat_0)
  have le: "unat ?n \<le> 2 ^ 32 - 4" using n up assms(6) by simp
  from alloc_law [OF assms(1) nz le] consider
      (none) "no_block byte owns h L (alloc ?n h)"
    | (some) h' a len where "alloc ?n h = Some (Returned (Some a), h')" "new_block byte owns h L a len h'"
        "unat ?n \<le> len" "a mod 4 = 0" "a + len \<le> 2 ^ 32" by auto
  then show ?thesis
  proof cases
    case none
    then obtain h' where "alloc ?n h = Some (Returned None, h')" "owns h' L" "byte h' = byte h"
      by (auto simp: no_block_def)
    then show ?thesis by (intro disjI1) (simp add: no_block_def rt_malloc_align_def Let_def)
  next
    case some
    have "0 < unat sz" using assms(5) by (simp add: unat_gt_0)
    then have small: "a + 2 ^ k < 2 ^ 32" using some(3,5) n up by linarith
    let ?q = "align_up (word_of_nat a) algn"
    note A = align_up_ok [OF assms(2-4) some(4) small]
    have m: "unat (?q - 4) = unat ?q - 4" using A(2) by (subst unat_sub) (simp_all add: word_le_nat_alt)
    have l: "a \<le> unat ?q - 4" "unat ?q - 4 + length (word_bytes (word_of_nat a)) \<le> a + len"
      using A(2,3) some(3) n up by (simp_all add: word_bytes_def)
    have run: "rt_malloc_align alloc store sz algn h
        = Some (Returned (Some (unat ?q)), store (unat ?q - 4) (word_bytes (word_of_nat a)) h')"
      unfolding rt_malloc_align_def Let_def al some(1) [unfolded al] by (simp add: m)
    have "load_word byte (store (unat ?q - 4) (word_bytes (word_of_nat a)) h') (unat ?q - 4) = word_of_nat a"
      by (rule load_word_bytes, rule written_bytes [OF some(2) l]) (simp add: word_bytes_def)
    moreover have "unat ?q + unat sz \<le> a + len" using A(3) some(3) n up by simp
    moreover have "a < 2 ^ 32" using small by simp
    moreover note run store_new_block [OF some(2) l] A(1,2)
    ultimately show ?thesis
      by (intro disjI2 exI [of _ a] exI [of _ len] exI [of _ "unat ?q"] exI conjI) assumption+
  qed
qed

text \<open>Releasing an aligned block releases the block it lies in.\<close>

lemma free_align_ok:
  assumes "owns h L" "(a, len) \<in> L" "load_word byte h (q - 4) = word_of_nat a" "a < 2 ^ 32"
  shows "\<exists>h'. rt_free_align release byte (Some q) h = Some (Returned (), h') \<and> owns h' (L - {(a, len)}) \<and> byte h' = byte h"
proof -
  have "unat (load_word byte h (q - 4)) = a" using assms(3,4) by (simp add: unat_of_nat)
  then show ?thesis using release_law [OF assms(1,2)] by (simp add: rt_free_align_def)
qed

lemma align_roundtrip:
  assumes "owns h L" "unat algn = 2 ^ k" "2 \<le> k" "k < 32" "sz \<noteq> 0" "unat sz + 2 ^ k \<le> 2 ^ 32 - 8"
  shows "no_block byte owns h L (rt_malloc_align alloc store sz algn h)
    \<or> (\<exists>h' a len q. rt_malloc_align alloc store sz algn h = Some (Returned (Some q), h') \<and> new_block byte owns h L a len h'
         \<and> q mod 2 ^ k = 0 \<and> a \<le> q \<and> q + unat sz \<le> a + len
         \<and> (\<forall>xs. length xs \<le> unat sz \<longrightarrow>
              (\<exists>h''. rt_free_align release byte (Some q) (store q xs h') = Some (Returned (), h'') \<and> owns h'' L)))"
  using malloc_align_ok [OF assms]
proof (elim disjE exE conjE)
  fix h' a len q
  assume q: "rt_malloc_align alloc store sz algn h = Some (Returned (Some q), h')" "new_block byte owns h L a len h'"
    "q mod 2 ^ k = 0" "a + 4 \<le> q" "q + unat sz \<le> a + len" "load_word byte h' (q - 4) = word_of_nat a" "a < 2 ^ 32"
  have fresh: "(a, len) \<notin> L"
  proof
    assume "(a, len) \<in> L"
    then have "{a ..< a + len} \<inter> {a ..< a + len} = {}" using q(2) unfolding new_block_def by blast
    then show False using q(4,5) by simp
  qed
  have "\<exists>h''. rt_free_align release byte (Some q) (store q xs h') = Some (Returned (), h'') \<and> owns h'' L"
    if xs: "length xs \<le> unat sz" for xs
  proof -
    have l: "a \<le> q" "q + length xs \<le> a + len" using q(4,5) xs by simp_all
    have o: "owns h' (insert (a, len) L)" using q(2) by (simp add: new_block_def)
    have "byte (store q xs h') (q - 4 + i) = byte h' (q - 4 + i)" if "i < 4" for i
    proof -
      have "\<not> (q \<le> q - 4 + i \<and> q - 4 + i < q + length xs)" using that q(4) by linarith
      then show ?thesis by (simp only: store_byte [OF o insertI1 l] if_False)
    qed
    from this [of 0] this [of 1] this [of 2] this [of 3]
    have "load_word byte (store q xs h') (q - 4) = load_word byte h' (q - 4)" by (simp add: load_word_def)
    then have w: "load_word byte (store q xs h') (q - 4) = word_of_nat a" using q(6) by simp
    have "owns (store q xs h') (insert (a, len) L)" by (rule store_owns [OF o insertI1 l])
    from free_align_ok [OF this insertI1 w q(7)] show ?thesis using fresh by (simp add: insert_Diff_if) blast
  qed
  then show ?thesis using q(1-5) by (intro disjI2 exI [of _ h'] exI [of _ a] exI [of _ len] exI [of _ q]) simp
qed simp


end



section \<open>The system heap keeps the promise\<close>

definition heap_lock_free :: "nat \<Rightarrow> kstate \<Rightarrow> bool" where
  "heap_lock_free lk s \<longleftrightarrow>
     (case k_current s of
        None \<Rightarrow> True
      | Some t \<Rightarrow> k_lock_nest s = 0 \<and> k_irq_nest s = 0 \<and> th_prio s t \<noteq> 255
          \<and> k_lists s (MutexQ lk) = [] \<and> mx_obj (k_mutex s lk) \<and> mx_owner (k_mutex s lk) = None
          \<and> mx_taken_by (k_mutex s lk) = None \<and> mx_ceiling_priority (k_mutex s lk) = 255)"

lemma heap_locked_run:
  assumes "heap_lock_free lk s" "body m = Some (x, m1)"
  obtains s' where "heap_locked lk body (m, s) = Some (Returned x, m1, s')" "heap_lock_free lk s'"
proof (cases "k_current s")
  case None
  then show ?thesis using assms that [of s]
    by (simp add: heap_locked_def heap_lock_def heap_unlock_def heap_lock_free_def RT_ASSERT_def)
next
  case (Some t)
  note f = assms(1) [unfolded heap_lock_free_def Some option.case]
  then have ctx: "debug_scheduler_available True s = Some ()" "rt_thread_self s = Some t"
    by (simp_all add: Some debug_scheduler_available_def debug_in_thread_context_def rt_critical_level_def
        rt_interrupt_get_nest_def rt_thread_self_def RT_ASSERT_def)
  let ?s1 = "upd_thread t (\<lambda>th. th\<lparr>th_error := RT_EOK\<rparr>) s"
  let ?s2 = "upd_mutex lk (\<lambda>m. m\<lparr>mx_owner := Some t, mx_priority := 255, mx_hold := 1\<rparr>) ?s1"
  let ?s3 = "upd_mutex lk (\<lambda>m. m\<lparr>mx_taken_by := Some t\<rparr>)
             (upd_thread t (\<lambda>th. th\<lparr>th_taken_object_list := lk # th_taken_object_list th\<rparr>) ?s2)"
  have take: "rt_mutex_take lk (-1) s = Some (Returned RT_EOK, ?s3)"
    using f ctx by (simp add: rt_mutex_take_def taken_insert_def RT_ASSERT_def)
  let ?s4 = "upd_mutex lk (\<lambda>m. m\<lparr>mx_hold := (mx_hold m + 255) mod 256\<rparr>) ?s3"
  let ?s5 = "upd_mutex lk (\<lambda>m. m\<lparr>mx_taken_by := None\<rparr>)
      (upd_thread t (\<lambda>th. th\<lparr>th_taken_object_list := remove1 lk (th_taken_object_list th)\<rparr>) ?s4)"
  let ?s6 = "upd_mutex lk (\<lambda>m. m\<lparr>mx_owner := None, mx_priority := 255\<rparr>) ?s5"
  have "debug_in_thread_context ?s3 = Some ()" "rt_thread_self ?s3 = Some t"
    using f by (simp_all add: Some debug_in_thread_context_def rt_interrupt_get_nest_def rt_thread_self_def RT_ASSERT_def)
  then have rel: "rt_mutex_release lk ?s3 = Some (RT_EOK, ?s6)"
    using f by (simp add: rt_mutex_release_def taken_remove_def release_priority_def release_handover_def RT_ASSERT_def)
  have "heap_locked lk body (m, s) = Some (Returned x, m1, ?s6)"
    using take rel assms(2) by (simp add: heap_locked_def heap_lock_def heap_unlock_def Some RT_ASSERT_def)
  moreover have "heap_lock_free lk ?s6" using f by (simp add: heap_lock_free_def Some)
  ultimately show ?thesis by (rule that)
qed

text \<open>The addresses of the heap's memory, and what it owns.\<close>

definition heap_byte :: "rt_small_mem \<times> kstate \<Rightarrow> nat \<Rightarrow> rt_uint8_t" where
  "heap_byte ms x = (if x < sm_heap_ptr (fst ms) then 0 else sm_data (fst ms) (x - sm_heap_ptr (fst ms)))"

definition heap_store :: "nat \<Rightarrow> rt_uint8_t list \<Rightarrow> rt_small_mem \<times> kstate \<Rightarrow> rt_small_mem \<times> kstate" where
  "heap_store a xs ms =
     (let o1 = a - sm_heap_ptr (fst ms)
      in ((fst ms)\<lparr>sm_data := (\<lambda>i. if o1 \<le> i \<and> i < o1 + length xs then xs ! (i - o1) else sm_data (fst ms) i)\<rparr>, snd ms))"

definition heap_owns :: "nat \<Rightarrow> rt_small_mem \<times> kstate \<Rightarrow> (nat \<times> nat) set \<Rightarrow> bool" where
  "heap_owns lk ms L \<longleftrightarrow> heap_lock_free lk (snd ms)
     \<and> sm_heap_ptr (fst ms) + sm_heap_end (fst ms) \<le> 2 ^ 32
     \<and> (\<exists>ps. smem_inv (fst ms) ps \<and> L = (\<lambda>(r, n). (sm_heap_ptr (fst ms) + r, n)) ` live (fst ms) ps)"


lemma heap_byte_cong:
  "sm_heap_ptr m' = sm_heap_ptr m \<Longrightarrow> sm_data m' = sm_data m \<Longrightarrow> heap_byte (m', s') = heap_byte (m, s)"
  by (simp add: heap_byte_def fun_eq_iff)

text \<open>A block the heap owns, as an offset.\<close>

lemma heap_ownsE:
  assumes "heap_owns lk (m, s) L" "(a, n) \<in> L"
  obtains ps r where "smem_inv m ps" "L = (\<lambda>(r, n). (sm_heap_ptr m + r, n)) ` live m ps" "(r, n) \<in> live m ps"
    "a = sm_heap_ptr m + r" "heap_lock_free lk s" "sm_heap_ptr m + sm_heap_end m \<le> 2 ^ 32"
  using assms by (auto simp: heap_owns_def)

lemma heap_alloc_law:
  assumes o: "heap_owns lk h L" and sz: "sz \<noteq> 0" "unat sz \<le> 2 ^ 32 - 4"
  shows "no_block heap_byte (heap_owns lk) h L (rt_malloc lk sz h)
    \<or> (\<exists>h' a len. rt_malloc lk sz h = Some (Returned (Some a), h') \<and> new_block heap_byte (heap_owns lk) h L a len h'
         \<and> unat sz \<le> len \<and> a mod 4 = 0 \<and> a + len \<le> 2 ^ 32)"
proof -
  obtain m s where h: "h = (m, s)" by (cases h)
  obtain ps where ps: "smem_inv m ps" "L = (\<lambda>(r, n). (sm_heap_ptr m + r, n)) ` live m ps" and f: "heap_lock_free lk s"
    and e: "sm_heap_ptr m + sm_heap_end m \<le> 2 ^ 32" using o by (auto simp: heap_owns_def h)
  let ?body = "\<lambda>m. map_option (\<lambda>(r, m'). (map_option ((+) (sm_heap_ptr m)) r, m')) (rt_smem_alloc sz m)"
  from alloc_ok [OF ps(1) sz(1)] show ?thesis
  proof (elim disjE exE conjE)
    fix m' ps' r len
    assume a: "rt_smem_alloc sz m = Some (Some r, m')" "smem_inv m' ps'" "live m' ps' = insert (r, len) (live m ps)"
      "smem_request sz \<le> len" "\<forall>n. (r, n) \<notin> live m ps" "sm_data m' = sm_data m" "sm_heap_end m' = sm_heap_end m"
      "sm_heap_ptr m' = sm_heap_ptr m"
    obtain s' where s': "heap_locked lk ?body (m, s) = Some (Returned (Some (sm_heap_ptr m + r)), m', s')" "heap_lock_free lk s'"
      by (rule heap_locked_run [OF f, of ?body m "Some (sm_heap_ptr m + r)" m']) (use a(1) in auto)
    have al: "(r, len) \<in> live m' ps'" using a(3) by simp
    note lr = live_room [OF a(2) al]
    have d: "{sm_heap_ptr m + r ..< sm_heap_ptr m + r + len} \<inter> {b ..< b + k} = {}" if bk: "(b, k) \<in> L" for b k
    proof -
      obtain x where x: "b = sm_heap_ptr m + x" "(x, k) \<in> live m ps" using bk ps(2) by auto
      have "{r ..< r + len} \<inter> {x ..< x + k} = {}"
        by (rule live_disjoint [OF smem_invD(4) [OF a(2)], of r len x k]) (use x(2) a(3,5) in auto)
      moreover have "{sm_heap_ptr m + r ..< sm_heap_ptr m + r + len} \<inter> {b ..< b + k} = (+) (sm_heap_ptr m) ` ({r ..< r + len} \<inter> {x ..< x + k})"
        unfolding x(1) by (auto simp: image_iff Bex_def)
      ultimately show ?thesis by simp
    qed
    have ow: "heap_owns lk (m', s') (insert (sm_heap_ptr m + r, len) L)"
      unfolding heap_owns_def using s'(2) a(2,3,7,8) e ps(2) by (intro conjI exI [of _ ps']) simp_all
    have bt: "heap_byte (m', s') = heap_byte (m, s)" by (rule heap_byte_cong [OF a(8,6)])
    have "new_block heap_byte (heap_owns lk) h L (sm_heap_ptr m + r) len (m', s')"
      using ow d by (simp add: new_block_def h bt) blast
    moreover have "unat sz \<le> len" using request_ok(3) [OF sz(2)] a(4) by simp
    moreover have "(sm_heap_ptr m + r) mod 4 = 0" "sm_heap_ptr m + r + len \<le> 2 ^ 32" using lr(4,5) a(7,8) e by simp_all
    ultimately show ?thesis using s'(1) unfolding rt_malloc_def h
      by (intro disjI2 exI [of _ "(m', s')"] exI [of _ "sm_heap_ptr m + r"] exI [of _ len] conjI) assumption+
  next
    assume none: "rt_smem_alloc sz m = Some (None, m)"
    obtain s' where "heap_locked lk ?body (m, s) = Some (Returned None, m, s')" "heap_lock_free lk s'"
      by (rule heap_locked_run [OF f, of ?body m None m]) (use none in auto)
    moreover have "heap_owns lk (m, s') L" unfolding heap_owns_def using calculation(2) e ps by auto
    ultimately show ?thesis using heap_byte_cong [of m m s' s] by (auto simp: no_block_def rt_malloc_def h)
  qed
qed

lemma heap_release_law:
  assumes "heap_owns lk h L" "(a, n) \<in> L"
  shows "\<exists>h'. rt_free lk (Some a) h = Some (Returned (), h') \<and> heap_owns lk h' (L - {(a, n)}) \<and> heap_byte h' = heap_byte h"
proof -
  obtain m s where h: "h = (m, s)" by (cases h)
  obtain ps r where p: "smem_inv m ps" "L = (\<lambda>(r, n). (sm_heap_ptr m + r, n)) ` live m ps" "(r, n) \<in> live m ps"
    "a = sm_heap_ptr m + r" "heap_lock_free lk s" "sm_heap_ptr m + sm_heap_end m \<le> 2 ^ 32"
    by (rule heap_ownsE [OF assms [unfolded h]])
  obtain m' ps' where m': "rt_smem_free (Some r) m = Some m'" "smem_inv m' ps'" "live m' ps' = live m ps - {(r, n)}"
    "sm_data m' = sm_data m" "sm_heap_end m' = sm_heap_end m" "sm_heap_ptr m' = sm_heap_ptr m"
    by (rule free_ok [OF p(1,3)]) blast
  let ?body = "\<lambda>m. map_option (Pair ()) (rt_smem_free (Some (a - sm_heap_ptr m)) m)"
  obtain s' where s': "heap_locked lk ?body (m, s) = Some (Returned (), m', s')" "heap_lock_free lk s'"
    by (rule heap_locked_run [OF p(5), of ?body m "()" m']) (use m'(1) p(4) in auto)
  have inj: "inj (\<lambda>(r, n :: nat). (sm_heap_ptr m + r, n))" by (auto simp: inj_def)
  have "L - {(a, n)} = (\<lambda>(r, n). (sm_heap_ptr m' + r, n)) ` live m' ps'"
    unfolding m'(3,6) p(2,4) image_set_diff [OF inj] by simp
  then have "heap_owns lk (m', s') (L - {(a, n)})"
    unfolding heap_owns_def using s'(2) m'(2,5,6) p(6) by auto
  then show ?thesis using s'(1) heap_byte_cong [OF m'(6,4)] by (auto simp: rt_free_def h)
qed

lemma heap_store_law:
  assumes "heap_owns lk h L" "(b, n) \<in> L" "b \<le> a" "a + length xs \<le> b + n"
  shows "heap_owns lk (heap_store a xs h) L"
    "heap_byte (heap_store a xs h) x = (if a \<le> x \<and> x < a + length xs then xs ! (x - a) else heap_byte h x)"
proof -
  obtain m s where h: "h = (m, s)" by (cases h)
  show "heap_owns lk (heap_store a xs h) L" using assms(1) by (simp add: h heap_owns_def heap_store_def Let_def)
  obtain ps r where "smem_inv m ps" "(r, n) \<in> live m ps" "b = sm_heap_ptr m + r"
    by (rule heap_ownsE [OF assms(1,2) [unfolded h]])
  then have "sm_heap_ptr m \<le> a" using assms(3) by simp
  then show "heap_byte (heap_store a xs h) x = (if a \<le> x \<and> x < a + length xs then xs ! (x - a) else heap_byte h x)"
    by (auto simp: h heap_byte_def heap_store_def Let_def)
qed

interpretation system_heap: allocator "rt_malloc lk" "\<lambda>a. rt_free lk (Some a)" heap_store heap_byte "heap_owns lk" for lk
  by unfold_locales (fact heap_alloc_law heap_release_law heap_store_law)+


section \<open>Memory heap objects keep it as well\<close>

definition mh_store :: "nat \<Rightarrow> rt_uint8_t list \<Rightarrow> rt_memheap \<times> kstate \<Rightarrow> rt_memheap \<times> kstate" where
  "mh_store a xs hs =
     ((fst hs)\<lparr>mh_data := (\<lambda>i. if a \<le> i \<and> i < a + length xs then xs ! (i - a) else mh_data (fst hs) i)\<rparr>, snd hs)"

definition mh_owns :: "rt_memheap \<times> kstate \<Rightarrow> (nat \<times> nat) set \<Rightarrow> bool" where
  "mh_owns hs L \<longleftrightarrow> memheap_lock_free (fst hs) (snd hs) \<and> (\<exists>bs fs. mh_inv (fst hs) bs fs \<and> L = mh_live (fst hs) bs)"

lemma mh_alloc_law:
  assumes "mh_owns h L" "sz \<noteq> 0" "unat sz \<le> 2 ^ 32 - 4"
  shows "no_block (mh_data \<circ> fst) mh_owns h L (rt_memheap_alloc sz h)
    \<or> (\<exists>h' a len. rt_memheap_alloc sz h = Some (Returned (Some a), h') \<and> new_block (mh_data \<circ> fst) mh_owns h L a len h'
         \<and> unat sz \<le> len \<and> a mod 4 = 0 \<and> a + len \<le> 2 ^ 32)"
proof -
  obtain k s where h: "h = (k, s)" by (cases h)
  obtain bs fs where k: "mh_inv k bs fs" "L = mh_live k bs" "memheap_lock_free k s"
    using assms(1) by (auto simp: mh_owns_def h)
  from memheap_alloc_ok [OF k(1,3), of sz] show ?thesis
  proof (elim disjE exE conjE)
    fix k' bs' fs' a len
    assume al: "rt_memheap_alloc sz (k, s) = Some (Returned (Some a), k', s)" "mh_inv k' bs' fs'"
      "mh_live k' bs' = insert (a, len) (mh_live k bs)" "memheap_request sz \<le> len" "\<forall>n. (a, n) \<notin> mh_live k bs" "mh_frame k k'"
    have al': "(a, len) \<in> mh_live k' bs'" using al(3) by simp
    have d: "{a ..< a + len} \<inter> {b ..< b + n} = {}" if "(b, n) \<in> mh_live k bs" for b n
      by (rule mh_live_disjoint [OF mh_invD(2) [OF al(2)] al']) (use that al(3,5) in auto)
    have "memheap_lock_free k' s" using k(3) mh_frameD [OF al(6)] by (simp add: memheap_lock_free_def)
    then have "mh_owns (k', s) (insert (a, len) L)" unfolding mh_owns_def using al(2,3) k(2) by auto
    then have "new_block (mh_data \<circ> fst) mh_owns h L a len (k', s)"
      unfolding new_block_def h k(2) using d mh_frameD [OF al(6)] by auto
    moreover have "unat sz \<le> len" using request_ok(3) [OF assms(3)] al(4) by (simp add: memheap_request_eq)
    moreover have "a mod 4 = 0" "a + len \<le> 2 ^ 32"
      using live_in_region [OF al(2) al'] mh_invD(1) [OF al(2)] by (simp_all add: mh_const_def)
    ultimately show ?thesis using al(1) unfolding h
      by (intro disjI2 exI [of _ "(k', s)"] exI [of _ a] exI [of _ len] conjI) assumption+
  next
    assume "rt_memheap_alloc sz (k, s) = Some (Returned None, k, s)"
    then show ?thesis using assms(1) by (auto simp: no_block_def h)
  next
    assume "rt_memheap_alloc sz (k, s) = Some (Returned None, k, s)"
    then show ?thesis using assms(1) by (auto simp: no_block_def h)
  qed
qed

lemma mh_release_law:
  assumes "mh_owns h L" "(a, n) \<in> L"
  shows "\<exists>h'. rt_memheap_free (Some a) h = Some (Returned (), h') \<and> mh_owns h' (L - {(a, n)})
     \<and> (mh_data \<circ> fst) h' = (mh_data \<circ> fst) h"
proof -
  obtain k s where h: "h = (k, s)" by (cases h)
  obtain bs fs where k: "mh_inv k bs fs" "L = mh_live k bs" "memheap_lock_free k s"
    using assms(1) by (auto simp: mh_owns_def h)
  obtain k' bs' fs' where f: "rt_memheap_free (Some a) (k, s) = Some (Returned (), k', s)" "mh_inv k' bs' fs'"
    "mh_live k' bs' = mh_live k bs - {(a, n)}" "mh_frame k k'"
    by (rule memheap_free_ok [OF k(1,3)]) (use assms(2) k(2) in auto)
  have "memheap_lock_free k' s" using k(3) mh_frameD [OF f(4)] by (simp add: memheap_lock_free_def)
  then have "mh_owns (k', s) (L - {(a, n)})" unfolding mh_owns_def using f(2,3) k(2) by auto
  then show ?thesis using f(1) mh_frameD [OF f(4)] by (auto simp: h)
qed

lemma mh_store_law:
  shows "mh_owns h L \<Longrightarrow> mh_owns (mh_store a xs h) L"
    "(mh_data \<circ> fst) (mh_store a xs h) x = (if a \<le> x \<and> x < a + length xs then xs ! (x - a) else (mh_data \<circ> fst) h x)"
  by (auto simp: mh_owns_def mh_store_def memheap_lock_free_def mh_inv_def mh_const_def mh_blocks_def header_ok_def
      mh_frees_def mh_apart_def free_blocks_def mh_live_def RT_MEMHEAP_IS_USED_def MEMITEM_SIZE_def)

interpretation memory_heap: allocator rt_memheap_alloc "\<lambda>a. rt_memheap_free (Some a)" mh_store "mh_data \<circ> fst" mh_owns
  by unfold_locales (rule mh_alloc_law mh_release_law mh_store_law; assumption)+


section \<open>Properties\<close>

text \<open>After the initialisation, before the first thread runs, the system heap owns no block.\<close>

lemma system_heap_init_owns:
  assumes run: "rt_system_heap_init lk sz items bytes b e s = Some (Some m, s')" and cur: "k_current s = None"
    and bnd: "unat b + unat sz + 8 < 2 ^ 32"
  shows "heap_owns lk (m, s') {}"
proof -
  have ok: "heap_init_ok b e" and m: "rt_smem_init sz items bytes b (RT_ALIGN_DOWN e 4 - RT_ALIGN b 4) = Some m"
    and l: "map_option snd (rt_mutex_init lk s) = Some s'"
    using run by (auto simp: rt_system_heap_init_def RT_ASSERT_def Let_def split: if_splits Option.bind_splits)
  have lt: "RT_ALIGN b 4 < RT_ALIGN_DOWN e 4" using ok by (simp add: heap_init_ok_def)
  have "unat (RT_ALIGN b 4) = (unat b + 3) div 4 * 4" using bnd by (simp add: RT_ALIGN_4)
  then have ub: "unat b \<le> unat (RT_ALIGN b 4)" using round_up(1) [of "unat b"] by simp
  have d: "unat (RT_ALIGN_DOWN e 4 - RT_ALIGN b 4) = unat (RT_ALIGN_DOWN e 4) - unat (RT_ALIGN b 4)"
    using lt by (simp add: unat_sub)
  have n: "unat b + unat (RT_ALIGN_DOWN e 4 - RT_ALIGN b 4) < 2 ^ 32"
  proof -
    have "unat (RT_ALIGN_DOWN e 4) < 2 ^ 32" using unsigned_less [of "RT_ALIGN_DOWN e 4"] by simp
    then show ?thesis using lt ub d by (simp add: word_less_nat_alt)
  qed
  note I = smem_init_ok [OF m n bnd]
  obtain s1 where s1: "object_init_check (mx_obj (k_mutex s lk)) s = Some s1"
    "s' = upd_mutex lk (\<lambda>_. mutex_new True) (ipc_object_init (MutexQ lk) s1)"
    using l by (auto simp: rt_mutex_init_def split: Option.bind_splits)
  have "k_current s1 = None"
    using s1(1) cur by (auto simp: object_init_check_def rt_enter_critical_def rt_exit_critical_def Let_def
        RT_ASSERT_def split: if_splits Option.bind_splits)
  then have "k_current s' = None" by (simp add: s1(2) ipc_object_init_def)
  then show ?thesis using I n by (auto simp: heap_owns_def heap_lock_free_def)
qed

text \<open>
  Rt_calloc on the system heap.  When the product of its arguments does not wrap it returns NULL
  and the heap keeps its blocks, or a new block, apart from all others, whose first count * size bytes
  are zero; no byte of another block changes and the heap mutex is free again.
\<close>

theorem heap_calloc_zeroes:
  assumes "heap_owns lk h L" "count \<noteq> 0" "sz \<noteq> 0" "unat count * unat sz \<le> 2 ^ 32 - 4"
  shows "no_block heap_byte (heap_owns lk) h L (rt_calloc (rt_malloc lk) heap_store count sz h)
    \<or> (\<exists>h' a len. rt_calloc (rt_malloc lk) heap_store count sz h = Some (Returned (Some a), h')
         \<and> new_block heap_byte (heap_owns lk) h L a len h'
         \<and> unat count * unat sz \<le> len \<and> (\<forall>i < unat count * unat sz. heap_byte h' (a + i) = 0))"
  by (rule system_heap.calloc_zeroes [OF assms])

text \<open>
  Rt_strdup on the system heap.  It returns NULL and the heap keeps its blocks, or a new block that
  starts with the characters of the string and the terminator; no byte of another block changes.
\<close>

theorem heap_strdup_copies:
  assumes "heap_owns lk h L" "cstr src s xs" "length xs < 2 ^ 32 - 4"
  shows "no_block heap_byte (heap_owns lk) h L (rt_strdup (rt_malloc lk) heap_store src s h)
    \<or> (\<exists>h' a len. rt_strdup (rt_malloc lk) heap_store src s h = Some (Returned (Some a), h')
         \<and> new_block heap_byte (heap_owns lk) h L a len h'
         \<and> length xs < len \<and> map (\<lambda>i. heap_byte h' (a + i)) [0 ..< length xs + 1] = xs @ [0])"
  by (rule system_heap.strdup_copies [OF assms])

text \<open>
  C32: aligned blocks.  For an alignment that is a power of two, rt_malloc_align returns NULL, or an
  aligned address in a new block with size bytes behind it; and whatever the caller writes into these
  bytes, rt_free_align of that address gives the block back, and the heap owns what it owned before.
\<close>

theorem heap_align_roundtrip:
  assumes "heap_owns lk h L" "unat algn = 2 ^ k" "2 \<le> k" "k < 32" "sz \<noteq> 0" "unat sz + 2 ^ k \<le> 2 ^ 32 - 8"
  shows "no_block heap_byte (heap_owns lk) h L (rt_malloc_align (rt_malloc lk) heap_store sz algn h)
    \<or> (\<exists>h' a len q. rt_malloc_align (rt_malloc lk) heap_store sz algn h = Some (Returned (Some q), h')
         \<and> new_block heap_byte (heap_owns lk) h L a len h' \<and> q mod 2 ^ k = 0 \<and> a \<le> q \<and> q + unat sz \<le> a + len
         \<and> (\<forall>xs. length xs \<le> unat sz \<longrightarrow>
              (\<exists>h''. rt_free_align (\<lambda>a. rt_free lk (Some a)) heap_byte (Some q) (heap_store q xs h') = Some (Returned (), h'')
                \<and> heap_owns lk h'' L)))"
  by (rule system_heap.align_roundtrip [OF assms])

text \<open>
  The product in rt_calloc wraps: 65536 objects of 65537 bytes get a block of 65536 bytes.
\<close>

lemma calloc_wraps:
  "rt_calloc (rt_malloc lk) heap_store 0x10000 0x10001 h = Some (Returned (Some a), h')
   \<Longrightarrow> \<exists>h1. rt_malloc lk 0x10000 h = Some (Returned (Some a), h1)"
proof -
  have eq: "(0x10000 * 0x10001 :: rt_uint32_t) = 0x10000" by (simp add: word_unat_eq_iff)
  show "rt_calloc (rt_malloc lk) heap_store 0x10000 0x10001 h = Some (Returned (Some a), h')
    \<Longrightarrow> \<exists>h1. rt_malloc lk 0x10000 h = Some (Returned (Some a), h1)"
    unfolding rt_calloc_def eq by (auto split: Option.bind_splits)
qed

text \<open>The sample heap, with a free mutex.\<close>

lemma heap_sample_owns: "heap_owns 1 (smem_sample, k_sample) {}"
proof -
  have "sm_heap_ptr smem_sample = 0x2000002c"
    by (simp add: smem_sample_def rt_smem_init_def RT_ALIGN_def RT_ALIGN_DOWN_def Let_def)
  moreover have "heap_lock_free 1 k_sample" by (simp add: heap_lock_free_def k_sample_def lists_sample_def)
  ultimately show ?thesis using smem_sample_facts(1,3,4)
    unfolding heap_owns_def by (intro conjI exI [of _ "[0, 196]"]) simp_all
qed

lemma heap_sample_malloc:
  assumes "unat n \<le> 20" "n \<noteq> 0"
  obtains h' a where "rt_malloc 1 n (smem_sample, k_sample) = Some (Returned (Some a), h')"
proof -
  let ?body = "\<lambda>m. map_option (\<lambda>(r, m'). (map_option ((+) (sm_heap_ptr m)) r, m')) (rt_smem_alloc n m)"
  have "smem_request n \<le> 20" using assms(1) by (simp add: smem_request_def Let_def RT_ALIGN_4) presburger
  then obtain m r where "rt_smem_alloc n smem_sample = Some (Some r, m)"
    using alloc_ok [OF smem_sample_facts(3) assms(2)] smem_sample_facts(5,6) by auto
  then obtain s' where "heap_locked 1 ?body (smem_sample, k_sample) = Some (Returned (Some (sm_heap_ptr smem_sample + r)), m, s')"
    using heap_locked_run [of 1 k_sample ?body smem_sample "Some (sm_heap_ptr smem_sample + r)" m] heap_sample_owns
    by (auto simp: heap_owns_def)
  then show ?thesis using that by (simp add: rt_malloc_def)
qed

theorem heap_calloc_zeroes_witness:
  "\<exists>h' a. rt_calloc (rt_malloc 1) heap_store 5 4 (smem_sample, k_sample) = Some (Returned (Some a), h')
     \<and> (\<forall>i < 20. heap_byte h' (a + i) = 0)"
proof -
  obtain h1 a where "rt_malloc 1 20 (smem_sample, k_sample) = Some (Returned (Some a), h1)"
    by (rule heap_sample_malloc [of 20]) auto
  then have "\<not> no_block heap_byte (heap_owns 1) (smem_sample, k_sample) {} (rt_calloc (rt_malloc 1) heap_store 5 4 (smem_sample, k_sample))"
    by (simp add: no_block_def rt_calloc_def)
  with heap_calloc_zeroes [OF heap_sample_owns, of 5 4] show ?thesis by auto
qed

theorem heap_strdup_copies_witness:
  "\<exists>h' a. rt_strdup (rt_malloc 1) heap_store [0, 104, 105, 0] 1 (smem_sample, k_sample) = Some (Returned (Some a), h')
     \<and> map (\<lambda>i. heap_byte h' (a + i)) [0 ..< 3] = [104, 105, 0]"
proof -
  have c: "cstr [0, 104, 105, 0] 1 [104, 105]" by (simp add: arr_get_def)
  obtain h1 a where m: "rt_malloc 1 3 (smem_sample, k_sample) = Some (Returned (Some a), h1)"
    by (rule heap_sample_malloc [of 3]) auto
  have "rt_strlen 1 [0, 104, 105, 0] = Some 2" using strlen_ok [OF c] by simp
  then have "\<not> no_block heap_byte (heap_owns 1) (smem_sample, k_sample) {}
      (rt_strdup (rt_malloc 1) heap_store [0, 104, 105, 0] 1 (smem_sample, k_sample))"
    using m by (simp add: no_block_def rt_strdup_def fetch_def)
  with heap_strdup_copies [OF heap_sample_owns c] show ?thesis by (auto simp: numeral_3_eq_3)
qed

theorem heap_align_roundtrip_witness:
  "\<exists>h' h'' q. rt_malloc_align (rt_malloc 1) heap_store 4 16 (smem_sample, k_sample) = Some (Returned (Some q), h')
     \<and> q mod 16 = 0 \<and> rt_free_align (\<lambda>a. rt_free 1 (Some a)) heap_byte (Some q) (heap_store q [1, 2, 3, 4] h') = Some (Returned (), h'')
     \<and> heap_owns 1 h'' {}"
proof -
  obtain h1 a where "rt_malloc 1 20 (smem_sample, k_sample) = Some (Returned (Some a), h1)"
    by (rule heap_sample_malloc [of 20]) auto
  then have n: "\<not> no_block heap_byte (heap_owns 1) (smem_sample, k_sample) {}
      (rt_malloc_align (rt_malloc 1) heap_store 4 16 (smem_sample, k_sample))"
    by (simp add: no_block_def rt_malloc_align_def Let_def)
  have "length [1, 2, 3, 4 :: rt_uint8_t] \<le> unat (4 :: rt_uint32_t)" by simp
  with heap_align_roundtrip [OF heap_sample_owns, of 16 4 4] n show ?thesis by fastforce
qed

end
