(* ===== verification/Object.thy ===== *)
theory Object
  imports Samples RtList KString
begin

text \<open>
  The object registry of src/object.c: the containers of the object classes, in the configuration of
  src/rtconfig.h, and the registration, removal and lookup of objects.  An object is the number of its
  list node, and the head of the list of container i is the node i; the list pointers are those of
  RtList.  Names are arrays of \<^verbatim>\<open>RT_NAME_MAX\<close> bytes, which the string functions of KString fill and
  compare; a name given by the caller stands at an address of a memory of its own.
\<close>

section \<open>Operations\<close>

abbreviation RT_NAME_MAX :: nat where "RT_NAME_MAX \<equiv> 8"
abbreviation RT_Object_Class_Static :: rt_uint8_t where "RT_Object_Class_Static \<equiv> 0x80"

record rt_object =
  ob_name :: "rt_uint8_t list"
  ob_type :: rt_uint8_t
  ob_flag :: rt_uint8_t

record registry =
  rg_obj :: "nat \<Rightarrow> rt_object"
  rg_list :: list_mem

text \<open>The classes of the containers: thread to timer, and memory; modules are not configured.\<close>

definition object_container :: "rt_uint8_t list" where
  "object_container = [0x01, 0x02, 0x03, 0x04, 0x05, 0x06, 0x07, 0x08, 0x09, 0x0a, 0x0c]"

fun information_loop :: "rt_uint8_t list \<Rightarrow> rt_uint8_t \<Rightarrow> nat \<Rightarrow> nat option" where
  "information_loop [] type i = None"
| "information_loop (c # cs) type i = (if c = type then Some i else information_loop cs type (i + 1))"

definition rt_object_get_information :: "rt_uint8_t \<Rightarrow> nat option" where
  "rt_object_get_information type = information_loop object_container type 0"

text \<open>The loops over a list with head l, at node p.\<close>

partial_function (option) object_count :: "list_mem \<Rightarrow> nat \<Rightarrow> nat \<Rightarrow> nat \<Rightarrow> nat option" where
  "object_count m l p k = (if p \<noteq> l then object_count m l (nxt m p) (k + 1) else Some k)"

definition rt_object_get_length :: "rt_uint8_t \<Rightarrow> registry \<Rightarrow> nat option" where
  "rt_object_get_length type r =
     (case rt_object_get_information type of
        None \<Rightarrow> Some 0
      | Some i \<Rightarrow> object_count (rg_list r) i (nxt (rg_list r) i) 0)"

partial_function (option) object_pointers :: "list_mem \<Rightarrow> nat \<Rightarrow> int \<Rightarrow> nat \<Rightarrow> nat list \<Rightarrow> nat list option" where
  "object_pointers m l maxlen p ps =
     (if p \<noteq> l
      then let ps1 = ps @ [p]
           in if int (length ps1) \<ge> maxlen then Some ps1 else object_pointers m l maxlen (nxt m p) ps1
      else Some ps)"

text \<open>The array that is filled; the function returns its length.\<close>

definition rt_object_get_pointers :: "rt_uint8_t \<Rightarrow> int \<Rightarrow> registry \<Rightarrow> nat list option" where
  "rt_object_get_pointers type maxlen r =
     (if maxlen \<le> 0 then Some []
      else (case rt_object_get_information type of
              None \<Rightarrow> Some []
            | Some i \<Rightarrow> object_pointers (rg_list r) i maxlen (nxt (rg_list r) i) []))"

definition copy_name :: "memory \<Rightarrow> nat \<Rightarrow> rt_object \<Rightarrow> rt_object option" where
  "copy_name src a ob = do {
     m \<leftarrow> rt_strncpy 0 (RT_NAME_MAX + a) RT_NAME_MAX (ob_name ob @ src);
     Some (ob\<lparr>ob_name := take RT_NAME_MAX m\<rparr>)
   }"

text \<open>The check that an object is not registered yet.\<close>

partial_function (option) object_absent :: "list_mem \<Rightarrow> nat \<Rightarrow> nat \<Rightarrow> nat \<Rightarrow> unit option" where
  "object_absent m l obj p =
     (if p \<noteq> l then Option.bind (RT_ASSERT (p \<noteq> obj)) (\<lambda>_. object_absent m l obj (nxt m p)) else Some ())"

definition rt_object_init ::
  "nat \<Rightarrow> rt_uint8_t \<Rightarrow> memory \<Rightarrow> nat \<Rightarrow> registry \<times> kstate \<Rightarrow> (registry \<times> kstate) option" where
  "rt_object_init obj type src a rs = do {
     let (r, s) = rs;
     i \<leftarrow> rt_object_get_information type;
     let s1 = rt_enter_critical s;
     object_absent (rg_list r) i obj (nxt (rg_list r) i);
     s2 \<leftarrow> rt_exit_critical s1;
     ob \<leftarrow> copy_name src a ((rg_obj r obj)\<lparr>ob_type := type OR RT_Object_Class_Static\<rparr>);
     Some (r\<lparr>rg_obj := (rg_obj r)(obj := ob), rg_list := rt_list_insert_after i obj (rg_list r)\<rparr>, s2)
   }"

definition rt_object_detach :: "nat \<Rightarrow> registry \<Rightarrow> registry" where
  "rt_object_detach obj r =
     r\<lparr>rg_obj := (rg_obj r)(obj := (rg_obj r obj)\<lparr>ob_type := 0\<rparr>), rg_list := rt_list_remove obj (rg_list r)\<rparr>"

text \<open>The argument \<open>mem\<close> is the answer of the heap: no memory, or the new object.\<close>

definition rt_object_allocate ::
  "rt_uint8_t \<Rightarrow> memory \<Rightarrow> nat \<Rightarrow> nat option \<Rightarrow> registry \<times> kstate \<Rightarrow> (nat option \<times> registry) option" where
  "rt_object_allocate type src a mem rs = do {
     let (r, s) = rs;
     RT_ASSERT (k_irq_nest s = 0);
     i \<leftarrow> rt_object_get_information type;
     (case mem of
        None \<Rightarrow> Some (None, r)
      | Some obj \<Rightarrow> do {
          ob \<leftarrow> copy_name src a \<lparr>ob_name = replicate RT_NAME_MAX 0, ob_type = type, ob_flag = 0\<rparr>;
          Some (Some obj, r\<lparr>rg_obj := (rg_obj r)(obj := ob), rg_list := rt_list_insert_after i obj (rg_list r)\<rparr>)
        })
   }"

definition rt_object_is_systemobject :: "nat \<Rightarrow> registry \<Rightarrow> bool" where
  "rt_object_is_systemobject obj r \<longleftrightarrow> ob_type (rg_obj r obj) AND RT_Object_Class_Static \<noteq> 0"

definition rt_object_get_type :: "nat \<Rightarrow> registry \<Rightarrow> rt_uint8_t" where
  "rt_object_get_type obj r = ob_type (rg_obj r obj) AND NOT RT_Object_Class_Static"

definition rt_object_delete :: "nat \<Rightarrow> registry \<Rightarrow> registry option" where
  "rt_object_delete obj r = do {
     RT_ASSERT (\<not> rt_object_is_systemobject obj r);
     Some (rt_object_detach obj r)
   }"

partial_function (option) object_find_loop ::
  "registry \<Rightarrow> nat \<Rightarrow> memory \<Rightarrow> nat \<Rightarrow> nat \<Rightarrow> nat option option" where
  "object_find_loop r l src a p =
     (if p \<noteq> l
      then do {
        c \<leftarrow> rt_strncmp 0 (RT_NAME_MAX + a) RT_NAME_MAX (ob_name (rg_obj r p) @ src);
        if c = 0 then Some (Some p) else object_find_loop r l src a (nxt (rg_list r) p)
      }
      else Some None)"

definition rt_object_find ::
  "memory \<Rightarrow> nat option \<Rightarrow> rt_uint8_t \<Rightarrow> registry \<times> kstate \<Rightarrow> (nat option \<times> kstate) option" where
  "rt_object_find src name type rs =
     (let (r, s) = rs
      in case (name, rt_object_get_information type) of
           (Some a, Some i) \<Rightarrow> do {
             RT_ASSERT (k_irq_nest s = 0);
             let s1 = rt_enter_critical s;
             found \<leftarrow> object_find_loop r i src a (nxt (rg_list r) i);
             s2 \<leftarrow> rt_exit_critical s1;
             Some (found, s2)
           }
         | _ \<Rightarrow> Some (None, s))"


section \<open>Names\<close>

text \<open>The name array for a string: cut to its length, or padded with zeros.\<close>

definition name_of :: "rt_uint8_t list \<Rightarrow> rt_uint8_t list" where
  "name_of xs = take RT_NAME_MAX (xs @ replicate RT_NAME_MAX 0)"

lemma name_of_length [simp]: "length (name_of xs) = 8"
  by (simp add: name_of_def)

lemma cstr_nonzero: "cstr m a xs \<Longrightarrow> 0 \<notin> set xs"
  by (induction xs arbitrary: a) auto

lemma cstr_shift: "cstr m a xs \<Longrightarrow> cstr (ys @ m) (length ys + a) xs"
proof (induction xs arbitrary: a)
  case (Cons x xs)
  then show ?case using Cons.IH [of "a + 1"] by (auto simp: arr_get_def nth_append split: if_splits)
qed (auto simp: arr_get_def nth_append split: if_splits)

lemma copy_name_ok:
  assumes "length (ob_name ob) = 8" "cstr src a xs"
  shows "copy_name src a ob = Some (ob\<lparr>ob_name := name_of xs\<rparr>)"
proof -
  have "cstr (ob_name ob @ src) (8 + a) xs" using cstr_shift [OF assms(2), of "ob_name ob"] assms(1) by simp
  then have "rt_strncpy 0 (8 + a) 8 (ob_name ob @ src) = blit (ob_name ob @ src) 0 (name_of xs)"
    unfolding name_of_def by (rule strncpy_pads) simp_all
  then show ?thesis using assms(1) by (simp add: copy_name_def blit_def)
qed

text \<open>The comparison of a padded name with a string tells whether they are the same name.\<close>

lemma strncmp_padded:
  assumes "take n (drop p m) = take n (ys @ replicate n 0)" "p + n \<le> length m" "0 \<notin> set ys" "cstr m q xs"
  shows "\<exists>c. rt_strncmp p q n m = Some c \<and> (c = 0 \<longleftrightarrow> take n (ys @ replicate n 0) = take n (xs @ replicate n 0))"
  using assms
proof (induction n arbitrary: p q xs ys)
  case (Suc n)
  let ?x = "case ys of [] \<Rightarrow> 0 | y # _ \<Rightarrow> y" and ?y = "case xs of [] \<Rightarrow> 0 | x # _ \<Rightarrow> x"
  have hd: "take (Suc n) (zs @ replicate (Suc n) 0) = (case zs of [] \<Rightarrow> 0 | z # _ \<Rightarrow> z) # take n (tl zs @ replicate n 0)"
    for zs :: "rt_uint8_t list"
    by (cases zs) (auto simp: replicate_Suc [symmetric] Suc_diff_Suc simp del: replicate_Suc)
  have dr: "drop p m = m ! p # drop (Suc p) m" using Suc.prems(2) by (intro Cons_nth_drop_Suc [symmetric]) simp
  have x: "m ! p = ?x" "take n (drop (Suc p) m) = take n (tl ys @ replicate n 0)"
    using Suc.prems(1) unfolding hd dr by simp_all
  have gx: "arr_get m p = Some ?x" using x(1) Suc.prems(2) by (simp add: arr_get_def)
  have gy: "arr_get m q = Some ?y" using Suc.prems(4) by (cases xs) simp_all
  have eq0: "sint (?x - ?y) = 0 \<longleftrightarrow> ?x = ?y" by (simp only: signed_eq_0_iff right_minus_eq)
  have step: "rt_strncmp p q (Suc n) m
      = (if ?x \<noteq> ?y \<or> ?x = 0 then Some (sint (?x - ?y)) else rt_strncmp (p + 1) (q + 1) n m)"
    unfolding rt_strncmp.simps gx gy bind.bind_lunit eq0 ..
  show ?case
  proof (cases "?x = ?y \<and> ?x \<noteq> 0")
    case True
    then have ne: "ys \<noteq> []" "xs \<noteq> []" by (auto split: list.splits)
    have "cstr m (q + 1) (tl xs)" using Suc.prems(4) ne(2) by (cases xs) auto
    moreover have "0 \<notin> set (tl ys)" using Suc.prems(3) ne(1) by (cases ys) auto
    ultimately obtain c where c: "rt_strncmp (p + 1) (q + 1) n m = Some c"
      "c = 0 \<longleftrightarrow> take n (tl ys @ replicate n 0) = take n (tl xs @ replicate n 0)"
      using Suc.IH [of "p + 1" "tl ys" "q + 1" "tl xs"] x(2) Suc.prems(2) by auto
    have no: "\<not> (?x \<noteq> ?y \<or> ?x = 0)" using True by blast
    have "rt_strncmp p q (Suc n) m = Some c" unfolding step if_not_P [OF no] by (rule c(1))
    then show ?thesis using c(2) True unfolding hd by simp
  next
    case False
    have run: "rt_strncmp p q (Suc n) m = Some (sint (?x - ?y))" unfolding step using False by (intro if_P) blast
    show ?thesis
    proof (cases "?x = ?y")
      case True
      then have "?x = 0" "?y = 0" using False by auto
      then have "ys = []" "xs = []" using Suc.prems(3) cstr_nonzero [OF Suc.prems(4)] by (auto split: list.splits)
      then show ?thesis using run by simp
    next
      case False
      then show ?thesis using run eq0 unfolding hd by auto
    qed
  qed
qed simp

lemma name_compare:
  assumes "ob_name ob = name_of ys" "0 \<notin> set ys" "cstr src a xs"
  shows "\<exists>c. rt_strncmp 0 (8 + a) 8 (ob_name ob @ src) = Some c \<and> (c = 0 \<longleftrightarrow> ob_name ob = name_of xs)"
proof -
  have "cstr (ob_name ob @ src) (8 + a) xs" using cstr_shift [OF assms(3), of "ob_name ob"] assms(1) by simp
  moreover have "take 8 (drop 0 (ob_name ob @ src)) = take 8 (ys @ replicate 8 0)" using assms(1) by (simp add: name_of_def)
  ultimately show ?thesis using strncmp_padded [of 8 0 "ob_name ob @ src" ys "8 + a" xs] assms(1,2) by (simp add: name_of_def)
qed


section \<open>The containers\<close>

lemma information_loop_sound:
  "information_loop cs type k = Some i \<Longrightarrow> k \<le> i \<and> i - k < length cs \<and> cs ! (i - k) = type"
proof (induction cs type k rule: information_loop.induct)
  case (2 c cs type k)
  show ?case
  proof (cases "c = type")
    case False
    then have "k + 1 \<le> i" "i - (k + 1) < length cs" "cs ! (i - (k + 1)) = type" using 2 by auto
    then show ?thesis by (simp add: Suc_diff_le [symmetric] nth_Cons' Suc_le_eq)
  qed (use 2 in auto)
qed simp

lemma information_loop_complete:
  "distinct cs \<Longrightarrow> i < length cs \<Longrightarrow> information_loop cs (cs ! i) k = Some (k + i)"
proof (induction cs arbitrary: i k)
  case (Cons c cs)
  then show ?case by (cases i) auto
qed simp

lemma get_information_Some:
  "rt_object_get_information type = Some i \<longleftrightarrow> i < 11 \<and> type = object_container ! i"
proof
  assume "rt_object_get_information type = Some i"
  then show "i < 11 \<and> type = object_container ! i"
    using information_loop_sound [of object_container type 0 i] by (simp add: rt_object_get_information_def object_container_def)
next
  assume i: "i < 11 \<and> type = object_container ! i"
  have "distinct object_container" "length object_container = 11" by (simp_all add: object_container_def)
  then show "rt_object_get_information type = Some i"
    using i information_loop_complete [of object_container i 0] by (simp add: rt_object_get_information_def)
qed

lemma get_information: "i < 11 \<Longrightarrow> rt_object_get_information (object_container ! i) = Some i"
  by (simp add: get_information_Some)

lemma container_class:
  assumes "i < 11"
  shows "(object_container ! i OR RT_Object_Class_Static) AND NOT RT_Object_Class_Static = object_container ! i"
    "object_container ! i AND NOT RT_Object_Class_Static = object_container ! i"
proof -
  have "object_container ! i \<in> set object_container" using assms by (simp add: object_container_def del: set_simps)
  moreover have "\<forall>c \<in> set object_container. (c OR 0x80) AND NOT 0x80 = c \<and> c AND NOT 0x80 = c"
    by (simp add: object_container_def)
  ultimately show "(object_container ! i OR RT_Object_Class_Static) AND NOT RT_Object_Class_Static = object_container ! i"
    "object_container ! i AND NOT RT_Object_Class_Static = object_container ! i" by blast+
qed

text \<open>What is registered: the list of container i holds the objects L i, each of the class of the container.\<close>

definition object_ok :: "rt_uint8_t \<Rightarrow> rt_object \<Rightarrow> bool" where
  "object_ok c ob \<longleftrightarrow> ob_type ob AND NOT RT_Object_Class_Static = c \<and> (\<exists>ys. 0 \<notin> set ys \<and> ob_name ob = name_of ys)"

definition reg_inv :: "registry \<Rightarrow> (nat \<Rightarrow> nat list) \<Rightarrow> bool" where
  "reg_inv r L \<longleftrightarrow>
     (\<forall>i < 11. ring (rg_list r) i (L i) \<and> (\<forall>ob \<in> set (L i). 11 \<le> ob \<and> object_ok (object_container ! i) (rg_obj r ob)))
     \<and> (\<forall>i < 11. \<forall>j < 11. i \<noteq> j \<longrightarrow> set (L i) \<inter> set (L j) = {})
     \<and> (\<forall>ob. length (ob_name (rg_obj r ob)) = 8)"

lemma reg_invD:
  assumes "reg_inv r L" "i < 11"
  shows "ring (rg_list r) i (L i)" "\<And>ob. ob \<in> set (L i) \<Longrightarrow> 11 \<le> ob"
    "\<And>ob. ob \<in> set (L i) \<Longrightarrow> object_ok (object_container ! i) (rg_obj r ob)"
    "\<And>j. j < 11 \<Longrightarrow> i \<noteq> j \<Longrightarrow> set (L i) \<inter> set (L j) = {}"
  using assms by (auto simp: reg_inv_def)

lemma reg_inv_name: "reg_inv r L \<Longrightarrow> length (ob_name (rg_obj r ob)) = 8"
  by (simp add: reg_inv_def)

text \<open>Objects that are in no container.\<close>

definition unregistered :: "nat \<Rightarrow> (nat \<Rightarrow> nat list) \<Rightarrow> bool" where
  "unregistered ob L \<longleftrightarrow> 11 \<le> ob \<and> (\<forall>i < 11. ob \<notin> set (L i))"

text \<open>Linking an object into its container, and unlinking it.\<close>

lemma insert_frame:
  assumes "ring m i xs" "x \<notin> set (i # xs) \<union> {ob}" 
  shows "nxt (rt_list_insert_after i ob m) x = nxt m x" "prv (rt_list_insert_after i ob m) x = prv m x"
proof -
  have "nxt m i \<in> set (i # xs)" using assms(1) by (cases xs) (auto simp: ring_def linked_def)
  then show "nxt (rt_list_insert_after i ob m) x = nxt m x" "prv (rt_list_insert_after i ob m) x = prv m x"
    using assms(2) by (auto simp: rt_list_insert_after_def Let_def set_nxt_def set_prv_def)
qed

lemma remove_frame:
  assumes "ring m i xs" "ob \<in> set xs" "x \<notin> set (i # xs)"
  shows "nxt (rt_list_remove ob m) x = nxt m x" "prv (rt_list_remove ob m) x = prv m x"
proof -
  obtain as bs where xs: "xs = as @ ob # bs" using assms(2) by (auto simp: in_set_conv_decomp)
  have l: "nxt m ob = hd (bs @ [i])" "prv m ob = last (i # as)"
    using ring_split(2) [of m i "as @ [ob]" bs] ring_split(3) [of m i as "ob # bs"] assms(1) xs by simp_all
  have s: "hd (bs @ [i]) \<in> set (i # xs)" "last (i # as) \<in> set (i # xs)"
    using xs last_in_set [of "i # as"] by (cases bs; auto simp del: last.simps)+
  have n: "x \<noteq> nxt m ob" "x \<noteq> prv m ob" "x \<noteq> ob" using assms(3) s l xs by auto
  have p: "prv m ob \<noteq> ob" "nxt m ob \<noteq> ob"
    using assms(1) l xs last_in_set [of "i # as"] by (auto simp: ring_def hd_append simp del: last.simps split: if_splits)
  show "nxt (rt_list_remove ob m) x = nxt m x" "prv (rt_list_remove ob m) x = prv m x"
    using n p by (auto simp: rt_list_remove_def Let_def set_nxt_def set_prv_def)
qed

lemma reg_inv_insert:
  assumes inv: "reg_inv r L" and i: "i < 11" and fresh: "unregistered ob L"
    and o: "object_ok (object_container ! i) x" "length (ob_name x) = 8"
  shows "reg_inv (r\<lparr>rg_obj := (rg_obj r)(ob := x), rg_list := rt_list_insert_after i ob (rg_list r)\<rparr>) (L(i := ob # L i))"
proof -
  note f = fresh [unfolded unregistered_def]
  note R = reg_invD [OF inv i]
  let ?m = "rt_list_insert_after i ob (rg_list r)"
  have mem: "ob \<notin> set (i # L i)" using f i by auto
  have here: "ring ?m i (ob # L i)" using insert_after_ring [of "rg_list r" i "[]" "L i" ob] R(1) mem by simp
  have other: "ring ?m j (L j)" if "j < 11" "j \<noteq> i" for j
  proof -
    have "ring ?m j (L j) = ring (rg_list r) j (L j)"
    proof (rule ring_frame)
      fix a assume a: "a \<in> set (j # L j)"
      have "a \<noteq> i" using that(2) reg_invD(2) [OF inv that(1), of i] a i by auto
      moreover have "a \<notin> set (L i)" using a that R(2) [of a] R(4) [OF that(1)] by auto
      moreover have "a \<noteq> ob" using a f that(1) by auto
      ultimately show "nxt ?m a = nxt (rg_list r) a \<and> prv ?m a = prv (rg_list r) a"
        using insert_frame [OF R(1), of a ob] by simp
    qed
    then show ?thesis using reg_invD(1) [OF inv that(1)] by simp
  qed
  have ne: "y \<noteq> ob" if "j < 11" "y \<in> set (L j)" for j y using f that by auto
  show ?thesis unfolding reg_inv_def
  proof (intro conjI allI impI, goal_cases)
    case (1 j)
    then show ?case using here other by (cases "j = i") simp_all
  next
    case (2 j)
    then show ?case using o(1) f ne [OF 2] reg_invD(2,3) [OF inv 2] by (cases "j = i") auto
  next
    case (3 j k)
    then show ?case using reg_invD(4) [OF inv] f by (cases "j = i"; cases "k = i") auto
  next
    case (4 y)
    then show ?case using o(2) reg_inv_name [OF inv] by simp
  qed
qed

lemma reg_inv_remove:
  assumes inv: "reg_inv r L" and i: "i < 11" and ob: "ob \<in> set (L i)"
  shows "reg_inv (rt_object_detach ob r) (L(i := remove1 ob (L i)))"
    "unregistered ob (L(i := remove1 ob (L i)))"
proof -
  note R = reg_invD [OF inv i]
  let ?m = "rt_list_remove ob (rg_list r)"
  obtain as bs where L: "L i = as @ ob # bs" using ob by (auto simp: in_set_conv_decomp)
  have d: "distinct (i # L i)" using R(1) by (simp add: ring_def)
  then have re: "remove1 ob (L i) = as @ bs" unfolding L by (simp add: remove1_append)
  have here: "ring ?m i (as @ bs)" using remove_ring(1) [of "rg_list r" i as ob bs] R(1) L by simp
  have other: "ring ?m j (L j)" if "j < 11" "j \<noteq> i" for j
  proof -
    have "ring ?m j (L j) = ring (rg_list r) j (L j)"
    proof (rule ring_frame)
      fix a assume a: "a \<in> set (j # L j)"
      have "a \<notin> set (i # L i)" using a that R(2) [of a] R(4) [OF that(1)] reg_invD(2) [OF inv that(1), of i] i by auto
      then show "nxt ?m a = nxt (rg_list r) a \<and> prv ?m a = prv (rg_list r) a"
        using remove_frame [OF R(1) ob] by simp
    qed
    then show ?thesis using reg_invD(1) [OF inv that(1)] by simp
  qed
  have gone: "ob \<notin> set (L j)" if "j < 11" "j \<noteq> i" for j using R(4) [OF that(1)] that ob by auto
  show "unregistered ob (L(i := remove1 ob (L i)))"
    unfolding unregistered_def re using R(2) [OF ob] gone d L by auto
  show "reg_inv (rt_object_detach ob r) (L(i := remove1 ob (L i)))"
    unfolding reg_inv_def re rt_object_detach_def
  proof (intro conjI allI impI, goal_cases)
    case (1 j)
    then show ?case using here other by (cases "j = i") simp_all
  next
    case (2 j)
    have "ob \<notin> set (as @ bs)" using d L by auto
    then show ?case using 2 gone [OF 2] L reg_invD(2,3) [OF inv 2] by (cases "j = i") auto
  next
    case (3 j k)
    then show ?case using reg_invD(4) [OF inv] L by (cases "j = i"; cases "k = i") fastforce+
  next
    case (4 y)
    then show ?case using reg_inv_name [OF inv] by simp
  qed
qed


section \<open>The loops over a container\<close>

text \<open>From the first node of a rest of the list.\<close>

lemma object_count_ok:
  "path m (ys @ [l]) \<Longrightarrow> l \<notin> set ys \<Longrightarrow> object_count m l (hd (ys @ [l])) k = Some (k + length ys)"
proof (induction ys arbitrary: k)
  case (Cons y ys)
  then have "nxt m y = hd (ys @ [l])" "path m (ys @ [l])" by (cases ys; auto simp: linked_def)+
  then show ?case using Cons by (subst object_count.simps) simp
qed (subst object_count.simps, simp)

lemma object_pointers_ok:
  "path m (ys @ [l]) \<Longrightarrow> l \<notin> set ys \<Longrightarrow> int (length ps) < n \<Longrightarrow>
   object_pointers m l n (hd (ys @ [l])) ps = Some (ps @ take (nat n - length ps) ys)"
proof (induction ys arbitrary: ps)
  case (Cons y ys)
  then have y: "nxt m y = hd (ys @ [l])" "path m (ys @ [l])" by (cases ys; auto simp: linked_def)+
  show ?case
  proof (cases "int (length ps + 1) \<ge> n")
    case True
    then have "nat n - length ps = 1" using Cons.prems(3) by linarith
    then show ?thesis using True Cons.prems by (subst object_pointers.simps) (simp add: Let_def)
  next
    case False
    then have "nat n - length ps = Suc (nat n - length (ps @ [y]))" by simp
    then show ?thesis using False Cons.prems Cons.IH [of "ps @ [y]"] y
      by (subst object_pointers.simps) (simp add: Let_def)
  qed
qed (subst object_pointers.simps, simp)

lemma object_absent_ok:
  "path m (ys @ [l]) \<Longrightarrow> l \<notin> set ys \<Longrightarrow> object_absent m l ob (hd (ys @ [l])) = RT_ASSERT (ob \<notin> set ys)"
proof (induction ys)
  case (Cons y ys)
  then have "nxt m y = hd (ys @ [l])" "path m (ys @ [l])" by (cases ys; auto simp: linked_def)+
  then show ?case using Cons by (subst object_absent.simps) (auto simp: RT_ASSERT_def)
qed (subst object_absent.simps, simp add: RT_ASSERT_def)

lemma object_find_loop_ok:
  "path (rg_list r) (ys @ [l]) \<Longrightarrow> l \<notin> set ys \<Longrightarrow> cstr src a xs \<Longrightarrow> \<forall>ob \<in> set ys. object_ok c (rg_obj r ob) \<Longrightarrow>
   object_find_loop r l src a (hd (ys @ [l])) = Some (find (\<lambda>ob. ob_name (rg_obj r ob) = name_of xs) ys)"
proof (induction ys)
  case (Cons y ys)
  then have y: "nxt (rg_list r) y = hd (ys @ [l])" "path (rg_list r) (ys @ [l])" by (cases ys; auto simp: linked_def)+
  obtain zs where "ob_name (rg_obj r y) = name_of zs" "0 \<notin> set zs" using Cons.prems(4) by (auto simp: object_ok_def)
  then obtain d where "rt_strncmp 0 (8 + a) 8 (ob_name (rg_obj r y) @ src) = Some d"
    "d = 0 \<longleftrightarrow> ob_name (rg_obj r y) = name_of xs" using name_compare Cons.prems(3) by blast
  then show ?case using Cons y by (subst object_find_loop.simps) auto
qed (subst object_find_loop.simps, simp)

lemma ring_start: "ring m l xs \<Longrightarrow> nxt m l = hd (xs @ [l]) \<and> path m (xs @ [l]) \<and> l \<notin> set xs"
  by (cases xs) (auto simp: ring_def linked_def)

text \<open>The operations on a registry whose containers hold L.\<close>

lemma get_length_ok:
  assumes "reg_inv r L" "i < 11"
  shows "rt_object_get_length (object_container ! i) r = Some (length (L i))"
  using object_count_ok [of "rg_list r" "L i" i 0] ring_start [OF reg_invD(1) [OF assms]] assms(2)
  by (simp add: rt_object_get_length_def get_information)

lemma get_pointers_ok:
  assumes "reg_inv r L" "i < 11"
  shows "rt_object_get_pointers (object_container ! i) n r = Some (take (nat n) (L i))"
  using object_pointers_ok [of "rg_list r" "L i" i "[]" n] ring_start [OF reg_invD(1) [OF assms]] assms(2)
  by (simp add: rt_object_get_pointers_def get_information)

text \<open>The registration runs the check that the kernel theories use, and then links the object.\<close>

definition registered_as :: "nat \<Rightarrow> nat \<Rightarrow> rt_uint8_t \<Rightarrow> rt_uint8_t list \<Rightarrow> registry \<Rightarrow> registry" where
  "registered_as i ob type name r =
     r\<lparr>rg_obj := (rg_obj r)(ob := (rg_obj r ob)\<lparr>ob_type := type, ob_name := name\<rparr>),
       rg_list := rt_list_insert_after i ob (rg_list r)\<rparr>"

lemma object_init_ok:
  assumes inv: "reg_inv r L" and i: "i < 11" and name: "cstr src a xs"
  shows "rt_object_init ob (object_container ! i) src a (r, s)
    = map_option (Pair (registered_as i ob (object_container ! i OR RT_Object_Class_Static) (name_of xs) r))
        (object_init_check (ob \<in> set (L i)) s)"
proof -
  note st = ring_start [OF reg_invD(1) [OF inv i]]
  have ab: "object_absent (rg_list r) i ob (nxt (rg_list r) i) = RT_ASSERT (ob \<notin> set (L i))"
    using object_absent_ok [of "rg_list r" "L i" i ob] st by simp
  have cp: "copy_name src a ((rg_obj r ob)\<lparr>ob_type := t\<rparr>) = Some ((rg_obj r ob)\<lparr>ob_type := t, ob_name := name_of xs\<rparr>)"
    for t using copy_name_ok [OF _ name, of "(rg_obj r ob)\<lparr>ob_type := t\<rparr>"] reg_inv_name [OF inv] by simp
  show ?thesis
    by (cases "rt_exit_critical (rt_enter_critical s)")
      (simp_all add: rt_object_init_def get_information [OF i] ab cp object_init_check_def Let_def
        registered_as_def RT_ASSERT_def)
qed

lemma registered_as_inv:
  assumes "reg_inv r L" "i < 11" "unregistered ob L" "0 \<notin> set xs"
    and "type = object_container ! i \<or> type = object_container ! i OR RT_Object_Class_Static"
  shows "reg_inv (registered_as i ob type (name_of xs) r) (L(i := ob # L i))"
  unfolding registered_as_def
proof (rule reg_inv_insert [OF assms(1-3)])
  show "object_ok (object_container ! i) ((rg_obj r ob)\<lparr>ob_type := type, ob_name := name_of xs\<rparr>)"
    using assms(4,5) container_class [OF assms(2)] by (auto simp: object_ok_def)
qed simp

lemma object_find_ok:
  assumes inv: "reg_inv r L" and i: "i < 11" and name: "cstr src a xs" and irq: "k_irq_nest s = 0"
  shows "rt_object_find src (Some a) (object_container ! i) (r, s)
    = map_option (Pair (find (\<lambda>ob. ob_name (rg_obj r ob) = name_of xs) (L i))) (object_init_check False s)"
proof -
  note st = ring_start [OF reg_invD(1) [OF inv i]]
  have "object_find_loop r i src a (nxt (rg_list r) i) = Some (find (\<lambda>ob. ob_name (rg_obj r ob) = name_of xs) (L i))"
    using object_find_loop_ok [of r "L i" i src a xs "object_container ! i"] st name reg_invD(3) [OF inv i] by simp
  then show ?thesis
    by (cases "rt_exit_critical (rt_enter_critical s)")
      (simp_all add: rt_object_find_def get_information [OF i] irq object_init_check_def Let_def RT_ASSERT_def)
qed


section \<open>Histories of the registry\<close>

definition registry_start :: registry where
  "registry_start = \<lparr>rg_obj = (\<lambda>_. \<lparr>ob_name = replicate RT_NAME_MAX 0, ob_type = 0, ob_flag = 0\<rparr>),
     rg_list = \<lparr>nxt = id, prv = id\<rparr>\<rparr>"

text \<open>
  L says which objects the containers hold.  Objects that are registered are given as new objects by
  the callers; the memory of an allocated object is new, and other code may write into the memory of
  objects that are not registered.
\<close>

inductive registry_run :: "registry \<Rightarrow> (nat \<Rightarrow> nat list) \<Rightarrow> bool" where
  start: "registry_run registry_start (\<lambda>_. [])"
| init: "registry_run r L \<Longrightarrow> i < 11 \<Longrightarrow> unregistered ob L \<Longrightarrow> cstr src a xs
    \<Longrightarrow> rt_object_init ob (object_container ! i) src a (r, s) = Some (r', s') \<Longrightarrow> registry_run r' (L(i := ob # L i))"
| allocate: "registry_run r L \<Longrightarrow> i < 11 \<Longrightarrow> unregistered ob L \<Longrightarrow> cstr src a xs
    \<Longrightarrow> rt_object_allocate (object_container ! i) src a (Some ob) (r, s) = Some (Some ob, r')
    \<Longrightarrow> registry_run r' (L(i := ob # L i))"
| detach: "registry_run r L \<Longrightarrow> i < 11 \<Longrightarrow> ob \<in> set (L i) \<Longrightarrow> registry_run (rt_object_detach ob r) (L(i := remove1 ob (L i)))"
| delete: "registry_run r L \<Longrightarrow> i < 11 \<Longrightarrow> ob \<in> set (L i) \<Longrightarrow> rt_object_delete ob r = Some r'
    \<Longrightarrow> registry_run r' (L(i := remove1 ob (L i)))"

lemma registry_run_inv: "registry_run r L \<Longrightarrow> reg_inv r L"
proof (induction rule: registry_run.induct)
  case start
  show ?case by (auto simp: reg_inv_def registry_start_def ring_empty)
next
  case (init r L i ob src a xs s r' s')
  have r': "r' = registered_as i ob (object_container ! i OR RT_Object_Class_Static) (name_of xs) r"
    using init(5) object_init_ok [OF init(6,2,4), of ob s] by auto
  show ?case unfolding r' by (rule registered_as_inv [OF init(6,2,3) cstr_nonzero [OF init(4)]]) simp
next
  case (allocate r L i ob src a xs s r')
  let ?x = "\<lparr>ob_name = replicate 8 0, ob_type = object_container ! i, ob_flag = 0\<rparr>"
  have "copy_name src a ?x = Some (?x\<lparr>ob_name := name_of xs\<rparr>)" by (rule copy_name_ok [OF _ allocate(4)]) simp
  then have r': "r' = r\<lparr>rg_obj := (rg_obj r)(ob := ?x\<lparr>ob_name := name_of xs\<rparr>), rg_list := rt_list_insert_after i ob (rg_list r)\<rparr>"
    using allocate(5) allocate(2) by (auto simp: rt_object_allocate_def get_information RT_ASSERT_def split: if_splits)
  show ?case unfolding r'
    by (rule reg_inv_insert [OF allocate(6,2,3)])
      (use container_class(2) [OF allocate(2)] cstr_nonzero [OF allocate(4)] in \<open>auto simp: object_ok_def\<close>)
next
  case (detach r L i ob)
  show ?case by (rule reg_inv_remove(1) [OF detach(4,2,3)])
next
  case (delete r L i ob r')
  have r': "r' = rt_object_detach ob r" using delete(4) by (auto simp: rt_object_delete_def RT_ASSERT_def split: if_splits)
  show ?case unfolding r' by (rule reg_inv_remove(1) [OF delete(5,2,3)])
qed


section \<open>Properties\<close>

text \<open>
  C33: classes of objects.  In every history of the registry, for every class: the length and the
  pointers that are reported are those of the registered objects, newest first; every object in the
  container has the class of the container as its type, static or not; and it is in no other container.
\<close>

theorem registry_classes:
  assumes "registry_run r L" "i < 11"
  shows "rt_object_get_length (object_container ! i) r = Some (length (L i))
    \<and> rt_object_get_pointers (object_container ! i) n r = Some (take (nat n) (L i)) \<and> distinct (L i)
    \<and> (\<forall>ob \<in> set (L i). rt_object_get_type ob r = object_container ! i)
    \<and> (\<forall>j < 11. i \<noteq> j \<longrightarrow> set (L i) \<inter> set (L j) = {})"
proof -
  note inv = registry_run_inv [OF assms(1)]
  note R = reg_invD [OF inv assms(2)]
  have "\<forall>ob \<in> set (L i). rt_object_get_type ob r = object_container ! i"
    using R(3) by (simp add: rt_object_get_type_def object_ok_def)
  then show ?thesis using get_length_ok [OF inv assms(2)] get_pointers_ok [OF inv assms(2)] R(1,4)
    by (simp add: ring_def)
qed

text \<open>
  C34: registration and lookup by name.  Registering a new object under a name runs the check for a second
  registration (which may reschedule) and gives a registry in which a lookup in its class finds it, and
  not an older object, exactly by the names with the same first eight characters; other lookups are
  as before, and so are all lookups once the object is detached.
\<close>

theorem registry_lookup:
  assumes "registry_run r L" "i < 11" "unregistered ob L" "cstr src a xs" "cstr dst b zs"
  shows "\<exists>r'. (\<forall>s. rt_object_init ob (object_container ! i) src a (r, s) = map_option (Pair r') (object_init_check False s))
    \<and> (\<forall>s. k_irq_nest s = 0 \<longrightarrow>
         (let old = find (\<lambda>o1. ob_name (rg_obj r o1) = name_of zs) (L i) in
          rt_object_find dst (Some b) (object_container ! i) (r, s) = map_option (Pair old) (object_init_check False s)
          \<and> rt_object_find dst (Some b) (object_container ! i) (r', s)
            = map_option (Pair (if name_of zs = name_of xs then Some ob else old)) (object_init_check False s)
          \<and> rt_object_find dst (Some b) (object_container ! i) (rt_object_detach ob r', s)
            = map_option (Pair old) (object_init_check False s)))"
proof -
  note inv = registry_run_inv [OF assms(1)]
  let ?r = "registered_as i ob (object_container ! i OR RT_Object_Class_Static) (name_of xs) r"
  have inv': "reg_inv ?r (L(i := ob # L i))"
    by (rule registered_as_inv [OF inv assms(2,3) cstr_nonzero [OF assms(4)]]) simp
  have inv'': "reg_inv (rt_object_detach ob ?r) ((L(i := ob # L i))(i := remove1 ob ((L(i := ob # L i)) i)))"
    by (rule reg_inv_remove(1) [OF inv' assms(2)]) simp
  have new: "ob \<notin> set (L i)" using assms(2,3) by (simp add: unregistered_def)
  have nm: "ob_name (rg_obj ?r ob) = name_of xs" "\<And>x. x \<noteq> ob \<Longrightarrow> rg_obj ?r x = rg_obj r x"
    "\<And>x. x \<noteq> ob \<Longrightarrow> rg_obj (rt_object_detach ob ?r) x = rg_obj r x"
    by (simp_all add: registered_as_def rt_object_detach_def)
  have same: "find (\<lambda>o1. ob_name (rg_obj q o1) = name_of zs) (L i) = find (\<lambda>o1. ob_name (rg_obj r o1) = name_of zs) (L i)"
    if "\<And>x. x \<noteq> ob \<Longrightarrow> rg_obj q x = rg_obj r x" for q
  proof (rule find_cong [OF refl])
    fix x assume "x \<in> set (L i)"
    then have "x \<noteq> ob" using new by auto
    then show "(ob_name (rg_obj q x) = name_of zs) = (ob_name (rg_obj r x) = name_of zs)" by (simp add: that)
  qed
  have "\<forall>s. rt_object_init ob (object_container ! i) src a (r, s) = map_option (Pair ?r) (object_init_check False s)"
    using object_init_ok [OF inv assms(2,4), of ob] new by simp
  moreover have "find (\<lambda>o1. ob_name (rg_obj ?r o1) = name_of zs) (ob # L i)
      = (if name_of zs = name_of xs then Some ob else find (\<lambda>o1. ob_name (rg_obj r o1) = name_of zs) (L i))"
    using nm(1) same [OF nm(2)] by auto
  ultimately show ?thesis
    using object_find_ok [OF inv assms(2,5)] object_find_ok [OF inv' assms(2,5)] object_find_ok [OF inv'' assms(2,5)]
      same [OF nm(3)]
    by (intro exI [of _ ?r]) (simp add: Let_def)
qed


text \<open>A kernel before its scheduler starts, and a registry with one semaphore, the object 20 named s.\<close>

definition k_boot :: kstate where
  "k_boot = k_sample\<lparr>k_current := None\<rparr>"

definition registry_sample :: registry where
  "registry_sample = registered_as 1 20 0x82 (name_of [115]) registry_start"

lemma boot_check: "object_init_check False k_boot = Some k_boot"
  by (simp add: object_init_check_def k_boot_def rt_enter_critical_def rt_exit_critical_def int16_def k_sample_def)

lemma registry_sample_run: "registry_run registry_sample ((\<lambda>_. [])(1 := [20]))"
proof -
  have c: "cstr [115, 0] 0 [115]" by (simp add: arr_get_def)
  have k: "object_container ! 1 = 2" by (simp add: object_container_def)
  have "rt_object_init 20 (object_container ! 1) [115, 0] 0 (registry_start, k_boot)
      = Some (registry_sample, k_boot)"
    using object_init_ok [OF registry_run_inv [OF registry_run.start], of 1 "[115, 0]" 0 "[115]" 20 k_boot] c k boot_check
    by (simp add: registry_sample_def)
  with registry_run.init [OF registry_run.start, of 1 20 "[115, 0]" 0 "[115]" k_boot] c
  show ?thesis by (simp add: unregistered_def)
qed

theorem registry_classes_witness:
  "rt_object_get_length 2 registry_sample = Some 1 \<and> rt_object_get_pointers 2 5 registry_sample = Some [20]
   \<and> rt_object_get_type 20 registry_sample = 2"
proof -
  have "object_container ! 1 = 2" by (simp add: object_container_def)
  then show ?thesis using registry_classes [OF registry_sample_run, of 1 5] by simp
qed

theorem registry_lookup_witness:
  "\<exists>r'. rt_object_init 30 2 [115, 0] 0 (registry_sample, k_boot) = Some (r', k_boot)
     \<and> rt_object_find [115, 0] (Some 0) 2 (registry_sample, k_boot) = Some (Some 20, k_boot)
     \<and> rt_object_find [115, 0] (Some 0) 2 (r', k_boot) = Some (Some 30, k_boot)"
proof -
  have c: "cstr [115, 0] 0 [115]" by (simp add: arr_get_def)
  have k: "object_container ! 1 = 2" "k_irq_nest k_boot = 0" by (simp_all add: object_container_def k_boot_def)
  have "ob_name (rg_obj registry_sample 20) = name_of [115]" by (simp add: registry_sample_def registered_as_def)
  then show ?thesis
    using registry_lookup [OF registry_sample_run, of 1 30, OF _ _ c c] k boot_check
    by (auto simp: unregistered_def Let_def)
qed

text \<open>
  The check of \<^verbatim>\<open>rt_object_init\<close> looks only into the container of the new class.  An object that is
  initialised a second time as another class is linked into two lists, and the loop over the first one
  does not end any more.
\<close>

lemma object_count_lost:
  assumes "nxt m x = y" "nxt m y = x" "x \<noteq> l" "y \<noteq> l"
  shows "object_count m l x k = None"
proof -
  let ?P = "\<lambda>m' l' p k n. m' = m \<longrightarrow> l' = l \<longrightarrow> p \<noteq> x \<and> p \<noteq> y"
  have "?P m l p k n" if "object_count m l p k = Some n" for p k n
  proof (rule object_count.raw_induct [where P = ?P, OF _ that], intro impI)
    fix f :: "list_mem \<Rightarrow> nat \<Rightarrow> nat \<Rightarrow> nat \<Rightarrow> nat option" and m' l' p k n
    assume IH: "\<And>m' l' p k n. f m' l' p k = Some n \<Longrightarrow> ?P m' l' p k n"
      and run: "(if p \<noteq> l' then f m' l' (nxt m' p) (k + 1) else Some k) = Some n" and eq: "m' = m" "l' = l"
    show "p \<noteq> x \<and> p \<noteq> y"
    proof (cases "p = l")
      case False
      then have "f m l (nxt m p) (k + 1) = Some n" using run eq by simp
      then have "nxt m p \<noteq> x \<and> nxt m p \<noteq> y" using IH by blast
      then show ?thesis using assms(1,2) by auto
    qed (use assms(3,4) in auto)
  qed
  then show ?thesis by (cases "object_count m l x k") auto
qed

lemma object_init_other_class_loops:
  "\<exists>r'. rt_object_init 20 1 [116, 0] 0 (registry_sample, k_boot) = Some (r', k_boot) \<and> rt_object_get_length 2 r' = None"
proof -
  have c: "cstr [116, 0] 0 [116]" by (simp add: arr_get_def)
  have k: "object_container ! 0 = 1" "rt_object_get_information 2 = Some 1"
    by (simp_all add: object_container_def rt_object_get_information_def)
  let ?r = "registered_as 0 20 0x81 (name_of [116]) registry_sample"
  have init: "rt_object_init 20 1 [116, 0] 0 (registry_sample, k_boot) = Some (?r, k_boot)"
    using object_init_ok [OF registry_run_inv [OF registry_sample_run] _ c, of 0 20 k_boot] k boot_check by simp
  have "nxt (rg_list ?r) 1 = 20" "nxt (rg_list ?r) 20 = 0" "nxt (rg_list ?r) 0 = 20"
    by (simp_all add: registered_as_def registry_sample_def registry_start_def rt_list_insert_after_def Let_def
        set_nxt_def set_prv_def)
  then have "rt_object_get_length 2 ?r = None"
    using object_count_lost [of "rg_list ?r" 20 0 1 0] by (simp add: rt_object_get_length_def k(2))
  then show ?thesis using init by blast
qed

end
