(* ===== verification/Device.thy ===== *)
theory Device
  imports Object Mutex
begin

text \<open>
  The device layer of src/device.c: devices are objects of the registry with an open count and flags,
  and the operations of a driver are function pointers.  The operations of the driver of a device are
  the argument \<open>ops\<close>: they may change the state, and \<^term>\<open>None\<close> is a NULL pointer.
\<close>

section \<open>Operations\<close>

abbreviation RT_Object_Class_Device :: rt_uint8_t where "RT_Object_Class_Device \<equiv> 0x09"
abbreviation RT_DEVICE_FLAG_STANDALONE :: rt_uint16_t where "RT_DEVICE_FLAG_STANDALONE \<equiv> 0x008"
abbreviation RT_DEVICE_FLAG_ACTIVATED :: rt_uint16_t where "RT_DEVICE_FLAG_ACTIVATED \<equiv> 0x010"
abbreviation RT_DEVICE_OFLAG_OPEN :: rt_uint16_t where "RT_DEVICE_OFLAG_OPEN \<equiv> 0x008"
abbreviation RT_DEVICE_OFLAG_MASK :: rt_uint16_t where "RT_DEVICE_OFLAG_MASK \<equiv> 0xf0f"
abbreviation RT_DEVICE_OFLAG_CLOSE :: rt_uint16_t where "RT_DEVICE_OFLAG_CLOSE \<equiv> 0x000"
abbreviation RT_ENOSYS :: rt_err_t where "RT_ENOSYS \<equiv> 6"
abbreviation RT_EBUSY :: rt_err_t where "RT_EBUSY \<equiv> 7"

text \<open>The callbacks are numbers of functions.\<close>

record rt_device =
  de_flag :: rt_uint16_t
  de_open_flag :: rt_uint16_t
  de_ref_count :: rt_uint8_t
  de_rx_indicate :: "nat option"
  de_tx_complete :: "nat option"

record dev_state =
  ds_reg :: registry
  ds_dev :: "nat \<Rightarrow> rt_device"
  ds_kernel :: kstate

record rt_device_ops =
  op_init :: "(dev_state \<Rightarrow> (rt_err_t \<times> dev_state) option) option"
  op_open :: "(rt_uint16_t \<Rightarrow> dev_state \<Rightarrow> (rt_err_t \<times> dev_state) option) option"
  op_close :: "(dev_state \<Rightarrow> (rt_err_t \<times> dev_state) option) option"
  op_read :: "(int \<Rightarrow> nat \<Rightarrow> nat \<Rightarrow> dev_state \<Rightarrow> (nat \<times> dev_state) option) option"
  op_write :: "(int \<Rightarrow> nat \<Rightarrow> nat \<Rightarrow> dev_state \<Rightarrow> (nat \<times> dev_state) option) option"
  op_control :: "(int \<Rightarrow> nat \<Rightarrow> dev_state \<Rightarrow> (rt_err_t \<times> dev_state) option) option"

definition upd_dev :: "nat \<Rightarrow> (rt_device \<Rightarrow> rt_device) \<Rightarrow> dev_state \<Rightarrow> dev_state" where
  "upd_dev d f st = st\<lparr>ds_dev := (ds_dev st)(d := f (ds_dev st d))\<rparr>"

definition dev_type_ok :: "nat \<Rightarrow> dev_state \<Rightarrow> bool" where
  "dev_type_ok d st \<longleftrightarrow> rt_object_get_type d (ds_reg st) = RT_Object_Class_Device"

definition rt_device_find :: "memory \<Rightarrow> nat option \<Rightarrow> dev_state \<Rightarrow> (nat option \<times> dev_state) option" where
  "rt_device_find src name st =
     map_option (\<lambda>(found, s). (found, st\<lparr>ds_kernel := s\<rparr>))
       (rt_object_find src name RT_Object_Class_Device (ds_reg st, ds_kernel st))"

text \<open>The second half of the registration: the name is not in use.\<close>

definition device_add :: "nat \<Rightarrow> memory \<Rightarrow> nat \<Rightarrow> rt_uint16_t \<Rightarrow> dev_state \<Rightarrow> (rt_err_t \<times> dev_state) option" where
  "device_add d src name flags st = do {
     (r, s) \<leftarrow> rt_object_init d RT_Object_Class_Device src name (ds_reg st, ds_kernel st);
     Some (RT_EOK, upd_dev d (\<lambda>v. v\<lparr>de_flag := flags, de_ref_count := 0, de_open_flag := 0\<rparr>)
                     (st\<lparr>ds_reg := r, ds_kernel := s\<rparr>))
   }"

definition rt_device_register ::
  "nat option \<Rightarrow> memory \<Rightarrow> nat \<Rightarrow> rt_uint16_t \<Rightarrow> dev_state \<Rightarrow> (rt_err_t \<times> dev_state) option" where
  "rt_device_register dev src name flags st =
     (case dev of
        None \<Rightarrow> Some (- RT_ERROR, st)
      | Some d \<Rightarrow> do {
          (found, st1) \<leftarrow> rt_device_find src (Some name) st;
          if found \<noteq> None then Some (- RT_ERROR, st1) else device_add d src name flags st1
        })"

definition rt_device_unregister :: "nat \<Rightarrow> dev_state \<Rightarrow> (rt_err_t \<times> dev_state) option" where
  "rt_device_unregister d st = do {
     RT_ASSERT (dev_type_ok d st);
     RT_ASSERT (rt_object_is_systemobject d (ds_reg st));
     Some (RT_EOK, st\<lparr>ds_reg := rt_object_detach d (ds_reg st)\<rparr>)
   }"

text \<open>The argument \<open>mem\<close> is the answer of \<^verbatim>\<open>rt_malloc\<close>; the memory of the device is cleared.\<close>

definition rt_device_create :: "nat option \<Rightarrow> dev_state \<Rightarrow> nat option \<times> dev_state" where
  "rt_device_create mem st =
     (case mem of
        None \<Rightarrow> (None, st)
      | Some d \<Rightarrow>
          (Some d, upd_dev d (\<lambda>_. \<lparr>de_flag = 0, de_open_flag = 0, de_ref_count = 0, de_rx_indicate = None, de_tx_complete = None\<rparr>)
             (st\<lparr>ds_reg := (ds_reg st)\<lparr>rg_obj := (rg_obj (ds_reg st))
                (d := \<lparr>ob_name = replicate RT_NAME_MAX 0, ob_type = 0, ob_flag = 0\<rparr>)\<rparr>\<rparr>)))"

text \<open>The release of the memory with \<^verbatim>\<open>rt_free\<close> is left to the heap.\<close>

definition rt_device_destroy :: "nat \<Rightarrow> dev_state \<Rightarrow> dev_state option" where
  "rt_device_destroy d st = do {
     RT_ASSERT (dev_type_ok d st);
     RT_ASSERT (\<not> rt_object_is_systemobject d (ds_reg st));
     Some (st\<lparr>ds_reg := rt_object_detach d (ds_reg st)\<rparr>)
   }"

definition rt_device_init :: "rt_device_ops \<Rightarrow> nat \<Rightarrow> dev_state \<Rightarrow> (rt_err_t \<times> dev_state) option" where
  "rt_device_init ops d st =
     (case op_init ops of
        None \<Rightarrow> Some (RT_EOK, st)
      | Some f \<Rightarrow>
          if de_flag (ds_dev st d) AND RT_DEVICE_FLAG_ACTIVATED = 0
          then do {
            (result, st1) \<leftarrow> f st;
            Some (result,
              if result \<noteq> RT_EOK then st1
              else upd_dev d (\<lambda>v. v\<lparr>de_flag := de_flag v OR RT_DEVICE_FLAG_ACTIVATED\<rparr>) st1)
          }
          else Some (RT_EOK, st))"

text \<open>The activation of a device that is opened for the first time.\<close>

definition device_activate :: "rt_device_ops \<Rightarrow> nat \<Rightarrow> dev_state \<Rightarrow> (rt_err_t \<times> dev_state) option" where
  "device_activate ops d st =
     (if de_flag (ds_dev st d) AND RT_DEVICE_FLAG_ACTIVATED = 0
      then do {
        (result, st1) \<leftarrow> (case op_init ops of None \<Rightarrow> Some (RT_EOK, st) | Some f \<Rightarrow> f st);
        Some (result,
          if result \<noteq> RT_EOK then st1
          else upd_dev d (\<lambda>v. v\<lparr>de_flag := de_flag v OR RT_DEVICE_FLAG_ACTIVATED\<rparr>) st1)
      }
      else Some (RT_EOK, st))"

text \<open>The driver is asked to open the device, and the open is counted.\<close>

definition device_do_open ::
  "rt_device_ops \<Rightarrow> nat \<Rightarrow> rt_uint16_t \<Rightarrow> dev_state \<Rightarrow> (rt_err_t \<times> dev_state) option" where
  "device_do_open ops d oflag st = do {
     (result, st1) \<leftarrow> (case op_open ops of
                          Some f \<Rightarrow> f oflag st
                        | None \<Rightarrow> Some (RT_EOK, upd_dev d (\<lambda>v. v\<lparr>de_open_flag := oflag AND RT_DEVICE_OFLAG_MASK\<rparr>) st));
     if result = RT_EOK \<or> result = - RT_ENOSYS
     then do {
       let st2 = upd_dev d (\<lambda>v. v\<lparr>de_open_flag := de_open_flag v OR RT_DEVICE_OFLAG_OPEN,
                                  de_ref_count := de_ref_count v + 1\<rparr>) st1;
       RT_ASSERT (de_ref_count (ds_dev st2 d) \<noteq> 0);
       Some (result, st2)
     }
     else Some (result, st1)
   }"

definition rt_device_open ::
  "rt_device_ops \<Rightarrow> nat \<Rightarrow> rt_uint16_t \<Rightarrow> dev_state \<Rightarrow> (rt_err_t \<times> dev_state) option" where
  "rt_device_open ops d oflag st = do {
     RT_ASSERT (dev_type_ok d st);
     (result, st1) \<leftarrow> device_activate ops d st;
     if result \<noteq> RT_EOK then Some (result, st1)
     else if de_flag (ds_dev st1 d) AND RT_DEVICE_FLAG_STANDALONE \<noteq> 0
             \<and> de_open_flag (ds_dev st1 d) AND RT_DEVICE_OFLAG_OPEN \<noteq> 0
     then Some (- RT_EBUSY, st1)
     else device_do_open ops d oflag st1
   }"

definition rt_device_close :: "rt_device_ops \<Rightarrow> nat \<Rightarrow> dev_state \<Rightarrow> (rt_err_t \<times> dev_state) option" where
  "rt_device_close ops d st = do {
     RT_ASSERT (dev_type_ok d st);
     if de_ref_count (ds_dev st d) = 0 then Some (- RT_ERROR, st)
     else do {
       let st1 = upd_dev d (\<lambda>v. v\<lparr>de_ref_count := de_ref_count v - 1\<rparr>) st;
       if de_ref_count (ds_dev st1 d) \<noteq> 0 then Some (RT_EOK, st1)
       else do {
         (result, st2) \<leftarrow> (case op_close ops of None \<Rightarrow> Some (RT_EOK, st1) | Some f \<Rightarrow> f st1);
         Some (result,
           if result = RT_EOK \<or> result = - RT_ENOSYS
           then upd_dev d (\<lambda>v. v\<lparr>de_open_flag := RT_DEVICE_OFLAG_CLOSE\<rparr>) st2 else st2)
       }
     }
   }"

text \<open>Reading and writing; \<open>buffer\<close> is an address, and the result is the number of bytes or blocks.\<close>

definition device_transfer ::
  "(int \<Rightarrow> nat \<Rightarrow> nat \<Rightarrow> dev_state \<Rightarrow> (nat \<times> dev_state) option) option \<Rightarrow> nat \<Rightarrow> int \<Rightarrow> nat \<Rightarrow> nat
   \<Rightarrow> dev_state \<Rightarrow> (nat \<times> dev_state) option" where
  "device_transfer f d pos buffer sz st = do {
     RT_ASSERT (dev_type_ok d st);
     if de_ref_count (ds_dev st d) = 0
     then Some (0, st\<lparr>ds_kernel := rt_set_errno (- RT_ERROR) (ds_kernel st)\<rparr>)
     else (case f of
             Some f \<Rightarrow> f pos buffer sz st
           | None \<Rightarrow> Some (0, st\<lparr>ds_kernel := rt_set_errno (- RT_ENOSYS) (ds_kernel st)\<rparr>))
   }"

definition rt_device_read ::
  "rt_device_ops \<Rightarrow> nat \<Rightarrow> int \<Rightarrow> nat \<Rightarrow> nat \<Rightarrow> dev_state \<Rightarrow> (nat \<times> dev_state) option" where
  "rt_device_read ops = device_transfer (op_read ops)"

definition rt_device_write ::
  "rt_device_ops \<Rightarrow> nat \<Rightarrow> int \<Rightarrow> nat \<Rightarrow> nat \<Rightarrow> dev_state \<Rightarrow> (nat \<times> dev_state) option" where
  "rt_device_write ops = device_transfer (op_write ops)"

definition rt_device_control ::
  "rt_device_ops \<Rightarrow> nat \<Rightarrow> int \<Rightarrow> nat \<Rightarrow> dev_state \<Rightarrow> (rt_err_t \<times> dev_state) option" where
  "rt_device_control ops d cmd arg st = do {
     RT_ASSERT (dev_type_ok d st);
     (case op_control ops of Some f \<Rightarrow> f cmd arg st | None \<Rightarrow> Some (- RT_ENOSYS, st))
   }"

definition rt_device_set_rx_indicate :: "nat \<Rightarrow> nat option \<Rightarrow> dev_state \<Rightarrow> (rt_err_t \<times> dev_state) option" where
  "rt_device_set_rx_indicate d f st = do {
     RT_ASSERT (dev_type_ok d st);
     Some (RT_EOK, upd_dev d (\<lambda>v. v\<lparr>de_rx_indicate := f\<rparr>) st)
   }"

definition rt_device_set_tx_complete :: "nat \<Rightarrow> nat option \<Rightarrow> dev_state \<Rightarrow> (rt_err_t \<times> dev_state) option" where
  "rt_device_set_tx_complete d f st = do {
     RT_ASSERT (dev_type_ok d st);
     Some (RT_EOK, upd_dev d (\<lambda>v. v\<lparr>de_tx_complete := f\<rparr>) st)
   }"


section \<open>Opening and closing\<close>

lemma upd_dev_simps [simp]:
  "ds_reg (upd_dev d f st) = ds_reg st" "ds_kernel (upd_dev d f st) = ds_kernel st"
  "ds_dev (upd_dev d f st) = (ds_dev st)(d := f (ds_dev st d))" "dev_type_ok e (upd_dev d f st) = dev_type_ok e st"
  by (simp_all add: upd_dev_def dev_type_ok_def)

text \<open>
  What the device layer relies on of a driver: its operations keep the open count, the registration
  and the standalone flag of their device, and they keep its open bit, with one exception: an open
  operation may set \<^verbatim>\<open>open_flag\<close> as it likes, as those of the serial, CAN and audio drivers do
  (\<^verbatim>\<open>dev->open_flag = oflag & 0xff\<close>); only when it fails on a device that is shared and open must
  the device stay marked as open.  The serial and audio drivers test the flags before they assign,
  and the CAN driver does not fail.
\<close>

definition dev_same :: "nat \<Rightarrow> dev_state \<Rightarrow> dev_state \<Rightarrow> bool" where
  "dev_same d st st' \<longleftrightarrow> dev_type_ok d st' = dev_type_ok d st
     \<and> de_ref_count (ds_dev st' d) = de_ref_count (ds_dev st d)
     \<and> de_flag (ds_dev st' d) AND RT_DEVICE_FLAG_STANDALONE = de_flag (ds_dev st d) AND RT_DEVICE_FLAG_STANDALONE
     \<and> de_open_flag (ds_dev st' d) AND RT_DEVICE_OFLAG_OPEN = de_open_flag (ds_dev st d) AND RT_DEVICE_OFLAG_OPEN"

definition dev_open :: "nat \<Rightarrow> dev_state \<Rightarrow> bool" where
  "dev_open d st \<longleftrightarrow> de_open_flag (ds_dev st d) AND RT_DEVICE_OFLAG_OPEN \<noteq> 0"

definition dev_standalone :: "nat \<Rightarrow> dev_state \<Rightarrow> bool" where
  "dev_standalone d st \<longleftrightarrow> de_flag (ds_dev st d) AND RT_DEVICE_FLAG_STANDALONE \<noteq> 0"

definition driver_opened :: "nat \<Rightarrow> dev_state \<Rightarrow> rt_err_t \<Rightarrow> dev_state \<Rightarrow> bool" where
  "driver_opened d st r st' \<longleftrightarrow> dev_type_ok d st' = dev_type_ok d st
     \<and> de_ref_count (ds_dev st' d) = de_ref_count (ds_dev st d)
     \<and> dev_standalone d st' = dev_standalone d st
     \<and> (r \<noteq> RT_EOK \<and> r \<noteq> - RT_ENOSYS \<and> dev_open d st \<and> \<not> dev_standalone d st \<longrightarrow> dev_open d st')"

definition driver_ok :: "nat \<Rightarrow> rt_device_ops \<Rightarrow> bool" where
  "driver_ok d ops \<longleftrightarrow>
     (\<forall>f st r st'. op_init ops = Some f \<longrightarrow> f st = Some (r, st') \<longrightarrow> dev_same d st st')
     \<and> (\<forall>f oflag st r st'. op_open ops = Some f \<longrightarrow> f oflag st = Some (r, st') \<longrightarrow> driver_opened d st r st')
     \<and> (\<forall>f st r st'. op_close ops = Some f \<longrightarrow> f st = Some (r, st') \<longrightarrow> dev_same d st st')
     \<and> (\<forall>f pos b n st r st'. op_read ops = Some f \<longrightarrow> f pos b n st = Some (r, st') \<longrightarrow> dev_same d st st')
     \<and> (\<forall>f pos b n st r st'. op_write ops = Some f \<longrightarrow> f pos b n st = Some (r, st') \<longrightarrow> dev_same d st st')
     \<and> (\<forall>f cmd arg st r st'. op_control ops = Some f \<longrightarrow> f cmd arg st = Some (r, st') \<longrightarrow> dev_same d st st')"


lemma driver_okD:
  assumes "driver_ok d ops"
  shows "op_init ops = Some f1 \<Longrightarrow> f1 st = Some (r, st') \<Longrightarrow> dev_same d st st'"
    "op_open ops = Some f2 \<Longrightarrow> f2 oflag st = Some (r, st') \<Longrightarrow> driver_opened d st r st'"
    "op_close ops = Some f3 \<Longrightarrow> f3 st = Some (r, st') \<Longrightarrow> dev_same d st st'"
    "op_read ops = Some f4 \<Longrightarrow> f4 pos b n st = Some (x, st') \<Longrightarrow> dev_same d st st'"
    "op_write ops = Some f5 \<Longrightarrow> f5 pos b n st = Some (x, st') \<Longrightarrow> dev_same d st st'"
    "op_control ops = Some f6 \<Longrightarrow> f6 cmd arg st = Some (r, st') \<Longrightarrow> dev_same d st st'"
  using assms by (simp_all only: driver_ok_def)

text \<open>
  The histories of a device: the operations of this layer, and whatever else keeps the fields above.
  The number counts the successful opens, less the closes.  An open succeeds when it is answered with
  \<^verbatim>\<open>RT_EOK\<close>, and also when the driver's open operation answers \<^verbatim>\<open>-RT_ENOSYS\<close>; the same answer from
  the init operation, which the watchdog and pulse encoder drivers give when they have none, is a
  failure.
\<close>

definition init_done :: "rt_device_ops \<Rightarrow> nat \<Rightarrow> dev_state \<Rightarrow> bool" where
  "init_done ops d st \<longleftrightarrow> de_flag (ds_dev st d) AND RT_DEVICE_FLAG_ACTIVATED \<noteq> 0
     \<or> (case op_init ops of None \<Rightarrow> True
        | Some f \<Rightarrow> (case f st of None \<Rightarrow> False | Some (e, st') \<Rightarrow> e = RT_EOK))"

definition open_counts :: "rt_device_ops \<Rightarrow> nat \<Rightarrow> dev_state \<Rightarrow> rt_err_t \<Rightarrow> bool" where
  "open_counts ops d st r \<longleftrightarrow> r = RT_EOK \<or> r = - RT_ENOSYS \<and> init_done ops d st"

inductive device_run :: "rt_device_ops \<Rightarrow> nat \<Rightarrow> dev_state \<Rightarrow> nat \<Rightarrow> bool" for ops d where
  start: "dev_type_ok d st \<Longrightarrow> de_ref_count (ds_dev st d) = 0 \<Longrightarrow> device_run ops d st 0"
| opened: "device_run ops d st n \<Longrightarrow> rt_device_open ops d oflag st = Some (r, st')
    \<Longrightarrow> device_run ops d st' (if open_counts ops d st r then n + 1 else n)"
| closing: "device_run ops d st n \<Longrightarrow> rt_device_close ops d st = Some (r, st') \<Longrightarrow> device_run ops d st' (n - 1)"
| initing: "device_run ops d st n \<Longrightarrow> rt_device_init ops d st = Some (r, st') \<Longrightarrow> device_run ops d st' n"
| reading: "device_run ops d st n \<Longrightarrow> rt_device_read ops d pos b k st = Some (x, st') \<Longrightarrow> device_run ops d st' n"
| writing: "device_run ops d st n \<Longrightarrow> rt_device_write ops d pos b k st = Some (x, st') \<Longrightarrow> device_run ops d st' n"
| controlling: "device_run ops d st n \<Longrightarrow> rt_device_control ops d cmd arg st = Some (r, st') \<Longrightarrow> device_run ops d st' n"
| indicate: "device_run ops d st n \<Longrightarrow> rt_device_set_rx_indicate d g st = Some (r, st') \<Longrightarrow> device_run ops d st' n"
| complete: "device_run ops d st n \<Longrightarrow> rt_device_set_tx_complete d g st = Some (r, st') \<Longrightarrow> device_run ops d st' n"
| other: "device_run ops d st n \<Longrightarrow> dev_same d st st' \<Longrightarrow> device_run ops d st' n"

definition dev_inv :: "nat \<Rightarrow> dev_state \<Rightarrow> nat \<Rightarrow> bool" where
  "dev_inv d st n \<longleftrightarrow> dev_type_ok d st \<and> unat (de_ref_count (ds_dev st d)) = n
     \<and> (0 < n \<longrightarrow> dev_open d st) \<and> (dev_standalone d st \<longrightarrow> n \<le> 1)"

lemma dev_same_refl: "dev_same d st st"
  by (simp add: dev_same_def)

lemma dev_same_trans: "dev_same d a b \<Longrightarrow> dev_same d b c \<Longrightarrow> dev_same d a c"
  by (simp add: dev_same_def)

lemma dev_same_inv: "dev_same d st st' \<Longrightarrow> dev_inv d st n \<Longrightarrow> dev_inv d st' n"
  by (simp add: dev_same_def dev_inv_def dev_open_def dev_standalone_def)

lemma dev_same_kernel: "dev_same d st (st\<lparr>ds_kernel := s\<rparr>)"
  by (simp add: dev_same_def dev_type_ok_def)

lemma activate_same: "dev_same d st (upd_dev d (\<lambda>v. v\<lparr>de_flag := de_flag v OR RT_DEVICE_FLAG_ACTIVATED\<rparr>) st)"
proof -
  have "(w OR 0x010) AND 0x008 = w AND 0x008" for w :: rt_uint16_t
    by (simp add: bit.conj_disj_distrib2)
  then show ?thesis by (simp add: dev_same_def)
qed

lemma device_init_same:
  assumes "driver_ok d ops" "rt_device_init ops d st = Some (r, st')"
  shows "dev_same d st st'"
proof (cases "op_init ops")
  case (Some f)
  have k: "f st = Some (x, st1) \<Longrightarrow> dev_same d st st1" for x st1 using driver_okD(1) [OF assms(1) Some] by blast
  show ?thesis using assms(2) k dev_same_trans [OF _ activate_same] dev_same_refl
    by (auto simp: rt_device_init_def Some split: if_splits Option.bind_splits)
qed (use assms(2) dev_same_refl in \<open>auto simp: rt_device_init_def\<close>)

lemma device_activate_same:
  assumes "driver_ok d ops" "device_activate ops d st = Some (r, st')"
  shows "dev_same d st st' \<and> (r = RT_EOK \<longleftrightarrow> init_done ops d st)"
proof (cases "op_init ops")
  case (Some f)
  have k: "f st = Some (x, st1) \<Longrightarrow> dev_same d st st1" for x st1
    using driver_okD(1) [OF assms(1) Some] by blast
  show ?thesis using assms(2) k dev_same_trans [OF _ activate_same] dev_same_refl
    by (auto simp: device_activate_def init_done_def Some split: if_splits Option.bind_splits)
qed (use assms(2) dev_same_refl activate_same in \<open>auto simp: device_activate_def init_done_def split: if_splits\<close>)

lemma device_transfer_same:
  assumes "\<And>g r st'. f = Some g \<Longrightarrow> g pos b k st = Some (r, st') \<Longrightarrow> dev_same d st st'"
    and "device_transfer f d pos b k st = Some (x, st')"
  shows "dev_same d st st'"
  using assms dev_same_kernel by (auto simp: device_transfer_def split: if_splits Option.bind_splits option.splits)

text \<open>An open that counts, and a close.\<close>

lemma count_Suc:
  fixes w :: rt_uint8_t
  assumes "w + 1 \<noteq> 0"
  shows "unat (w + 1) = Suc (unat w)"
proof -
  have "unat (w + 1) \<noteq> 0" using assms by (simp only: unat_eq_zero not_False_eq_True)
  moreover have "unat (w + 1) = (unat w + 1) mod 256" by (simp add: unat_word_ariths)
  moreover have "unat w < 256" using unsigned_less [of w] by simp
  ultimately show ?thesis by (cases "unat w = 255") auto
qed

lemma device_do_open_inv:
  assumes drv: "driver_ok d ops" and inv: "dev_inv d st n" and free: "\<not> (dev_standalone d st \<and> dev_open d st)"
    and run: "device_do_open ops d oflag st = Some (r, st')"
  shows "dev_inv d st' (if r = RT_EOK \<or> r = - RT_ENOSYS then n + 1 else n)"
proof -
  let ?op = "case op_open ops of Some f \<Rightarrow> f oflag st
    | None \<Rightarrow> Some (RT_EOK, upd_dev d (\<lambda>v. v\<lparr>de_open_flag := oflag AND RT_DEVICE_OFLAG_MASK\<rparr>) st)"
  obtain st1 where op: "?op = Some (r, st1)"
    and st': "st' = (if r = RT_EOK \<or> r = - RT_ENOSYS
      then upd_dev d (\<lambda>v. v\<lparr>de_open_flag := de_open_flag v OR RT_DEVICE_OFLAG_OPEN, de_ref_count := de_ref_count v + 1\<rparr>) st1
      else st1)" "r = RT_EOK \<or> r = - RT_ENOSYS \<longrightarrow> de_ref_count (ds_dev st1 d) + 1 \<noteq> 0"
    using run by (auto simp: device_do_open_def Let_def RT_ASSERT_def split: if_splits Option.bind_splits)
  have "dev_type_ok d st1 = dev_type_ok d st \<and> de_ref_count (ds_dev st1 d) = de_ref_count (ds_dev st d)
    \<and> dev_standalone d st1 = dev_standalone d st
    \<and> ((r = RT_EOK \<or> r = - RT_ENOSYS) \<or> (dev_open d st \<and> \<not> dev_standalone d st \<longrightarrow> dev_open d st1))"
  proof (cases "op_open ops")
    case (Some f)
    then have "f oflag st = Some (r, st1)" using op by simp
    then have "driver_opened d st r st1" by (rule driver_okD(2) [OF drv Some])
    then show ?thesis by (auto simp: driver_opened_def)
  next
    case None
    then have "st1 = upd_dev d (\<lambda>v. v\<lparr>de_open_flag := oflag AND RT_DEVICE_OFLAG_MASK\<rparr>) st" "r = RT_EOK"
      using op by auto
    then show ?thesis by (simp add: dev_standalone_def)
  qed
  then have keep: "dev_type_ok d st1 = dev_type_ok d st" "de_ref_count (ds_dev st1 d) = de_ref_count (ds_dev st d)"
    "dev_standalone d st1 = dev_standalone d st"
    "(r = RT_EOK \<or> r = - RT_ENOSYS) \<or> (dev_open d st \<and> \<not> dev_standalone d st \<longrightarrow> dev_open d st1)" by blast+
  show ?thesis
  proof (cases "r = RT_EOK \<or> r = - RT_ENOSYS")
    case True
    have "unat (de_ref_count (ds_dev st d) + 1) = Suc (unat (de_ref_count (ds_dev st d)))"
      using st'(2) True keep(2) by (intro count_Suc) auto
    moreover have "n = 0" if "dev_standalone d st" using that free inv by (auto simp: dev_inv_def)
    moreover have "(w OR 0x008) AND 0x008 \<noteq> 0" for w :: rt_uint16_t by (simp add: bit.conj_disj_distrib2)
    ultimately show ?thesis
      using inv keep(1-3) st'(1) True by (auto simp: dev_inv_def dev_open_def dev_standalone_def)
  next
    case False
    then show ?thesis using inv keep st'(1) free by (auto simp: dev_inv_def)
  qed
qed

lemma device_open_inv:
  assumes drv: "driver_ok d ops" and inv: "dev_inv d st n" and run: "rt_device_open ops d oflag st = Some (r, st')"
  shows "dev_inv d st' (if open_counts ops d st r then n + 1 else n)"
proof -
  obtain e st1 where a: "device_activate ops d st = Some (e, st1)"
    using run by (auto simp: rt_device_open_def split: Option.bind_splits)
  note s = device_activate_same [OF drv a]
  have inv1: "dev_inv d st1 n" using dev_same_inv s inv by blast
  consider (failed) "e \<noteq> RT_EOK" "r = e" "st' = st1"
    | (busy) "r = - RT_EBUSY" "st' = st1"
    | (asked) "e = RT_EOK" "\<not> (dev_standalone d st1 \<and> dev_open d st1)" "device_do_open ops d oflag st1 = Some (r, st')"
    using run a by (auto simp: rt_device_open_def dev_standalone_def dev_open_def RT_ASSERT_def split: if_splits)
  then show ?thesis
  proof cases
    case failed
    then show ?thesis using inv1 s by (auto simp: open_counts_def)
  next
    case busy
    then show ?thesis using inv1 by (simp add: open_counts_def)
  next
    case asked
    have "open_counts ops d st r \<longleftrightarrow> r = RT_EOK \<or> r = - RT_ENOSYS"
      using s asked(1) by (auto simp: open_counts_def)
    then show ?thesis using device_do_open_inv [OF drv inv1 asked(2,3)] by simp
  qed
qed

lemma device_close_inv:
  assumes drv: "driver_ok d ops" and inv: "dev_inv d st n" and run: "rt_device_close ops d st = Some (r, st')"
  shows "dev_inv d st' (n - 1)"
proof (cases "de_ref_count (ds_dev st d) = 0")
  case True
  then show ?thesis using inv run by (auto simp: rt_device_close_def dev_inv_def RT_ASSERT_def split: if_splits)
next
  case False
  let ?st1 = "upd_dev d (\<lambda>v. v\<lparr>de_ref_count := de_ref_count v - 1\<rparr>) st"
  have n: "unat (de_ref_count (ds_dev st d) - 1) = n - 1" using False inv by (simp add: unat_minus_one dev_inv_def)
  have inv1: "dev_inv d ?st1 (n - 1)" using inv n by (auto simp: dev_inv_def dev_open_def dev_standalone_def)
  show ?thesis
  proof (cases "de_ref_count (ds_dev st d) - 1 = 0")
    case last: True
    have n0: "n - 1 = 0" using n last by simp
    obtain st2 where st2: "(case op_close ops of None \<Rightarrow> Some (RT_EOK, ?st1) | Some f \<Rightarrow> f ?st1) = Some (r, st2)"
      "st' = (if r = RT_EOK \<or> r = - RT_ENOSYS then upd_dev d (\<lambda>v. v\<lparr>de_open_flag := RT_DEVICE_OFLAG_CLOSE\<rparr>) st2 else st2)"
      using run False last by (auto simp: rt_device_close_def Let_def RT_ASSERT_def split: if_splits Option.bind_splits)
    have "dev_same d ?st1 st2"
    proof (cases "op_close ops")
      case (Some f)
      then have "f ?st1 = Some (r, st2)" using st2(1) by simp
      then show ?thesis by (rule driver_okD(3) [OF drv Some])
    qed (use st2(1) dev_same_refl in simp)
    then have "dev_inv d st2 (n - 1)" using inv1 by (rule dev_same_inv)
    then show ?thesis using st2(2) n0 by (auto simp: dev_inv_def dev_standalone_def)
  next
    case more: False
    then show ?thesis using run False inv1 by (auto simp: rt_device_close_def Let_def RT_ASSERT_def split: if_splits)
  qed
qed

lemma device_run_inv:
  assumes drv: "driver_ok d ops" and run: "device_run ops d st n"
  shows "dev_inv d st n"
  using run
proof (induction rule: device_run.induct)
  case (start st)
  then show ?case by (simp add: dev_inv_def)
next
  case (opened st n oflag r st')
  then show ?case using device_open_inv [OF drv] by blast
next
  case (closing st n r st')
  then show ?case using device_close_inv [OF drv] by blast
next
  case (initing st n r st')
  then show ?case using dev_same_inv [OF device_init_same [OF drv]] by blast
next
  case (reading st n pos b k x st')
  have "dev_same d st st'"
    by (rule device_transfer_same [OF _ reading(2) [unfolded rt_device_read_def]]) (rule driver_okD(4) [OF drv])
  then show ?case using reading(3) by (rule dev_same_inv)
next
  case (writing st n pos b k x st')
  have "dev_same d st st'"
    by (rule device_transfer_same [OF _ writing(2) [unfolded rt_device_write_def]]) (rule driver_okD(5) [OF drv])
  then show ?case using writing(3) by (rule dev_same_inv)
next
  case (controlling st n cmd arg r st')
  have "dev_same d st st'"
  proof (cases "op_control ops")
    case (Some f)
    then have "f cmd arg st = Some (r, st')" using controlling(2) by (simp add: rt_device_control_def RT_ASSERT_def split: if_splits)
    then show ?thesis by (rule driver_okD(6) [OF drv Some])
  next
    case None
    then show ?thesis using controlling(2) dev_same_refl by (simp add: rt_device_control_def RT_ASSERT_def split: if_splits)
  qed
  then show ?case using controlling(3) by (rule dev_same_inv)
next
  case (indicate st n g r st')
  then show ?case by (auto simp: rt_device_set_rx_indicate_def dev_inv_def dev_open_def dev_standalone_def RT_ASSERT_def split: if_splits)
next
  case (complete st n g r st')
  then show ?case by (auto simp: rt_device_set_tx_complete_def dev_inv_def dev_open_def dev_standalone_def RT_ASSERT_def split: if_splits)
next
  case (other st n st')
  then show ?case using dev_same_inv by blast
qed


section \<open>Properties\<close>

text \<open>
  C35: opens and closes of a device balance.  In every history the open count is the number of
  successful opens less the closes; while it is positive the device is marked open; a standalone
  device is opened at most once at a time, and a further open is refused (with \<^verbatim>\<open>-RT_EBUSY\<close> while the
  device is activated); a closed device refuses to be closed and to be read.  What is asked of the
  driver: its operations keep the open count, the class and the standalone flag of their device;
  none but the open operation changes the open bit of \<^verbatim>\<open>open_flag\<close>, and an open operation that
  fails on an open, shared device leaves it marked open.
\<close>

theorem device_opens_balance:
  assumes "driver_ok d ops" "device_run ops d st n"
  shows "unat (de_ref_count (ds_dev st d)) = n \<and> n \<le> 255 \<and> (0 < n \<longrightarrow> dev_open d st) \<and> (dev_standalone d st \<longrightarrow> n \<le> 1)
    \<and> (n = 0 \<longrightarrow> rt_device_close ops d st = Some (- RT_ERROR, st)
         \<and> rt_device_read ops d pos b k st = Some (0, st\<lparr>ds_kernel := rt_set_errno (- RT_ERROR) (ds_kernel st)\<rparr>))
    \<and> (\<forall>oflag r st'. rt_device_open ops d oflag st = Some (r, st') \<and> dev_standalone d st' \<and> n = 1
         \<longrightarrow> \<not> open_counts ops d st r \<and> unat (de_ref_count (ds_dev st' d)) = 1)
    \<and> (dev_standalone d st \<and> n = 1 \<and> de_flag (ds_dev st d) AND RT_DEVICE_FLAG_ACTIVATED \<noteq> 0
         \<longrightarrow> rt_device_open ops d oflag st = Some (- RT_EBUSY, st))"
proof -
  have inv: "dev_inv d st n" by (rule device_run_inv [OF assms])
  then have d: "unat (de_ref_count (ds_dev st d)) = n" "0 < n \<longrightarrow> dev_open d st" "dev_standalone d st \<longrightarrow> n \<le> 1"
    "dev_type_ok d st" by (simp_all add: dev_inv_def)
  have "unat (de_ref_count (ds_dev st d)) < 2 ^ 8" using unsigned_less [of "de_ref_count (ds_dev st d)"] by simp
  then have "n \<le> 255" using d(1) by simp
  moreover have "de_ref_count (ds_dev st d) = 0" if "n = 0" using d(1) that by (simp add: unat_eq_zero)
  then have "n = 0 \<longrightarrow> rt_device_close ops d st = Some (- RT_ERROR, st)
         \<and> rt_device_read ops d pos b k st = Some (0, st\<lparr>ds_kernel := rt_set_errno (- RT_ERROR) (ds_kernel st)\<rparr>)"
    using d(4) by (simp add: rt_device_close_def rt_device_read_def device_transfer_def)
  moreover have "\<not> open_counts ops d st r \<and> unat (de_ref_count (ds_dev st' d)) = 1"
    if run: "rt_device_open ops d oflag st = Some (r, st')" "dev_standalone d st'" "n = 1" for oflag r st'
    using device_open_inv [OF assms(1) inv run(1)] run(2,3) by (auto simp: dev_inv_def split: if_splits)
  moreover have "rt_device_open ops d oflag st = Some (- RT_EBUSY, st)"
    if "dev_standalone d st" "n = 1" "de_flag (ds_dev st d) AND RT_DEVICE_FLAG_ACTIVATED \<noteq> 0"
    using that d(2,4) by (simp add: rt_device_open_def device_activate_def dev_standalone_def dev_open_def)
  ultimately show ?thesis using d(1-3) by blast
qed

text \<open>A standalone device, the object 20 of a registry of its own.\<close>

definition dev_sample :: dev_state where
  "dev_sample = \<lparr>ds_reg = registered_as 8 20 0x89 (name_of [115]) registry_start,
     ds_dev = (\<lambda>_. \<lparr>de_flag = RT_DEVICE_FLAG_STANDALONE, de_open_flag = 0, de_ref_count = 0, de_rx_indicate = None, de_tx_complete = None\<rparr>),
     ds_kernel = k_boot\<rparr>"

lemma dev_sample_type: "dev_type_ok 20 dev_sample"
  by (simp add: dev_type_ok_def dev_sample_def rt_object_get_type_def registered_as_def)

text \<open>
  A driver that treats the flags of its device as serial.c does with interrupt reception: the open
  operation refuses what the device cannot do and otherwise assigns \<^verbatim>\<open>open_flag\<close>, the close operation
  takes the reception flag back and deactivates the device.
\<close>

definition serial_ops :: "nat \<Rightarrow> rt_device_ops" where
  "serial_ops d = \<lparr>op_init = Some (\<lambda>st. Some (RT_EOK, st)),
     op_open = Some (\<lambda>oflag st.
       if oflag AND 0x100 \<noteq> 0 \<and> de_flag (ds_dev st d) AND 0x100 = 0 then Some (- 8, st)
       else Some (RT_EOK, upd_dev d (\<lambda>v. v\<lparr>de_open_flag := (oflag AND 0xff) OR (oflag AND 0x100)\<rparr>) st)),
     op_close = Some (\<lambda>st. Some (RT_EOK,
       upd_dev d (\<lambda>v. v\<lparr>de_open_flag := de_open_flag v AND NOT 0x100,
                        de_flag := de_flag v AND NOT RT_DEVICE_FLAG_ACTIVATED\<rparr>) st)),
     op_read = Some (\<lambda>pos b n st. Some (n, st)), op_write = Some (\<lambda>pos b n st. Some (n, st)),
     op_control = Some (\<lambda>cmd arg st. Some (RT_EOK, st))\<rparr>"

lemma serial_ops_ok: "driver_ok d (serial_ops d)"
proof -
  have "(w AND NOT 0x100) AND 0x008 = w AND 0x008" "(w AND NOT 0x010) AND 0x008 = w AND 0x008" for w :: rt_uint16_t
    by (simp_all add: and.assoc)
  then show ?thesis
    by (auto simp: driver_ok_def serial_ops_def dev_same_refl dev_same_def driver_opened_def dev_standalone_def
        dev_open_def split: if_splits)
qed

theorem device_opens_balance_witness:
  "\<exists>st. rt_device_open (serial_ops 20) 20 3 dev_sample = Some (RT_EOK, st)
     \<and> unat (de_ref_count (ds_dev st 20)) = 1 \<and> dev_open 20 st
     \<and> rt_device_open (serial_ops 20) 20 3 st = Some (- RT_EBUSY, st)"
proof -
  have run0: "device_run (serial_ops 20) 20 dev_sample 0"
    by (rule device_run.start [OF dev_sample_type]) (simp add: dev_sample_def)
  have "\<exists>st. rt_device_open (serial_ops 20) 20 3 dev_sample = Some (RT_EOK, st) \<and> dev_standalone 20 st
      \<and> de_flag (ds_dev st 20) AND RT_DEVICE_FLAG_ACTIVATED \<noteq> 0"
    using dev_sample_type
    by (auto simp: rt_device_open_def device_activate_def device_do_open_def serial_ops_def dev_sample_def Let_def
        dev_standalone_def dev_open_def RT_ASSERT_def)
  then obtain st where st: "rt_device_open (serial_ops 20) 20 3 dev_sample = Some (RT_EOK, st)"
    "dev_standalone 20 st" "de_flag (ds_dev st 20) AND RT_DEVICE_FLAG_ACTIVATED \<noteq> 0" by blast
  have "device_run (serial_ops 20) 20 st 1" using device_run.opened [OF run0 st(1)] by (simp add: open_counts_def)
  from device_opens_balance [OF serial_ops_ok this] st show ?thesis by auto
qed

text \<open>A kernel state in which a lookup leaves everything as it is: no interrupt, nobody more urgent is ready.\<close>

definition calm :: "kstate \<Rightarrow> bool" where
  "calm s \<longleftrightarrow> k_irq_nest s = 0 \<and> object_init_check False s = Some s"

text \<open>
  C36: names of devices.  Registering a new device fails when a registered device has the same first
  eight characters in its name, and nothing changes; otherwise it succeeds, the device is closed, a
  lookup of the name finds it, no other device can be registered under the name, and after it is
  unregistered the name is not found any more.
\<close>

theorem device_names_unique:
  assumes "registry_run (ds_reg st) L" "unregistered d L" "cstr src a xs" "calm (ds_kernel st)"
  shows "if \<exists>o1 \<in> set (L 8). ob_name (rg_obj (ds_reg st) o1) = name_of xs
    then rt_device_register (Some d) src a flags st = Some (- RT_ERROR, st)
    else \<exists>st'. rt_device_register (Some d) src a flags st = Some (RT_EOK, st')
      \<and> dev_type_ok d st' \<and> de_ref_count (ds_dev st' d) = 0 \<and> de_open_flag (ds_dev st' d) = 0
      \<and> rt_device_find src (Some a) st' = Some (Some d, st')
      \<and> (\<forall>e g. rt_device_register (Some e) src a g st' = Some (- RT_ERROR, st'))
      \<and> (\<exists>st''. rt_device_unregister d st' = Some (RT_EOK, st'') \<and> rt_device_find src (Some a) st'' = Some (None, st''))"
proof -
  have k: "object_container ! 8 = 9" "(8 :: nat) < 11" by (simp_all add: object_container_def)
  note calm = assms(4) [unfolded calm_def]
  note inv = registry_run_inv [OF assms(1)]
  have lookup: "rt_device_find src (Some a) t = Some (find (\<lambda>o1. ob_name (rg_obj (ds_reg t) o1) = name_of xs) (M 8), t)"
    if "reg_inv (ds_reg t) M" "ds_kernel t = ds_kernel st" for t M
    using object_find_ok [OF that(1) k(2) assms(3), of "ds_kernel st"] k(1) calm that(2)
    by (simp add: rt_device_find_def)
  note f = lookup [OF inv refl]
  show ?thesis
  proof (cases "\<exists>o1 \<in> set (L 8). ob_name (rg_obj (ds_reg st) o1) = name_of xs")
    case True
    then have "find (\<lambda>o1. ob_name (rg_obj (ds_reg st) o1) = name_of xs) (L 8) \<noteq> None" by (auto simp: find_None_iff)
    then show ?thesis using True f by (simp add: rt_device_register_def)
  next
    case False
    then have none: "find (\<lambda>o1. ob_name (rg_obj (ds_reg st) o1) = name_of xs) (L 8) = None" by (simp add: find_None_iff)
    have new: "d \<notin> set (L 8)" using assms(2) by (simp add: unregistered_def)
    let ?r = "registered_as 8 d (9 OR RT_Object_Class_Static) (name_of xs) (ds_reg st)"
    let ?st = "upd_dev d (\<lambda>v. v\<lparr>de_flag := flags, de_ref_count := 0, de_open_flag := 0\<rparr>) (st\<lparr>ds_reg := ?r\<rparr>)"
    have "rt_object_init d 9 src a (ds_reg st, ds_kernel st) = Some (?r, ds_kernel st)"
      using object_init_ok [OF inv k(2) assms(3), of d "ds_kernel st"] k(1) new calm by simp
    then have reg: "rt_device_register (Some d) src a flags st = Some (RT_EOK, ?st)"
      using f none by (simp add: rt_device_register_def device_add_def)
    have inv': "reg_inv (ds_reg ?st) (L(8 := d # L 8))"
      using registered_as_inv [OF inv k(2) assms(2) cstr_nonzero [OF assms(3)], of "9 OR RT_Object_Class_Static"] k(1) by simp
    have found: "rt_device_find src (Some a) ?st = Some (Some d, ?st)"
      using lookup [OF inv'] by (simp add: registered_as_def)
    have ty: "dev_type_ok d ?st" "rt_object_is_systemobject d (ds_reg ?st)"
      by (simp_all add: dev_type_ok_def rt_object_get_type_def rt_object_is_systemobject_def registered_as_def)
    let ?u = "?st\<lparr>ds_reg := rt_object_detach d ?r\<rparr>"
    have un: "rt_device_unregister d ?st = Some (RT_EOK, ?u)" using ty by (simp add: rt_device_unregister_def)
    have inv'': "reg_inv (ds_reg ?u) ((L(8 := d # L 8))(8 := remove1 d ((L(8 := d # L 8)) 8)))"
      using reg_inv_remove(1) [OF inv' k(2), of d] by simp
    have "find (\<lambda>o1. ob_name (rg_obj (ds_reg ?u) o1) = name_of xs) (L 8) = None"
      using False new by (auto simp: find_None_iff registered_as_def rt_object_detach_def split: if_splits)
    then have gone: "rt_device_find src (Some a) ?u = Some (None, ?u)" using lookup [OF inv''] by simp
    have "rt_device_register (Some e) src a g ?st = Some (- RT_ERROR, ?st)" for e g
      unfolding rt_device_register_def option.case found by simp
    then show ?thesis unfolding if_not_P [OF False] using reg ty(1) found un gone
      by (intro exI [of _ ?st]) auto
  qed
qed

theorem device_names_unique_witness:
  "\<exists>st'. rt_device_register (Some 30) [116, 0] 0 3 dev_sample = Some (RT_EOK, st')
     \<and> rt_device_find [116, 0] (Some 0) st' = Some (Some 30, st')"
proof -
  have c: "cstr [115, 0] 0 [115]" "cstr [116, 0] 0 [116]" by (simp_all add: arr_get_def)
  have k: "object_container ! 8 = 9" by (simp add: object_container_def)
  have "rt_object_init 20 (object_container ! 8) [115, 0] 0 (registry_start, k_boot) = Some (ds_reg dev_sample, k_boot)"
    using object_init_ok [OF registry_run_inv [OF registry_run.start], of 8 "[115, 0]" 0 "[115]" 20 k_boot] c(1) k boot_check
    by (simp add: dev_sample_def)
  then have run: "registry_run (ds_reg dev_sample) ((\<lambda>_. [])(8 := [20]))"
    using registry_run.init [OF registry_run.start, of 8 20 "[115, 0]" 0 "[115]" k_boot] c(1) by (simp add: unregistered_def)
  have "calm (ds_kernel dev_sample)" using boot_check by (simp add: calm_def dev_sample_def k_boot_def)
  moreover have "unregistered 30 ((\<lambda>_. [])(8 := [20]))" by (simp add: unregistered_def)
  moreover have "name_of [115] \<noteq> name_of [116]" by (simp add: name_of_def)
  moreover have "ob_name (rg_obj (ds_reg dev_sample) 20) = name_of [115]" by (simp add: dev_sample_def registered_as_def)
  ultimately show ?thesis using device_names_unique [OF run, of 30 "[116, 0]" 0 "[116]" 3] c(2) by auto
qed

text \<open>
  \<^verbatim>\<open>rt_device_destroy\<close> never returns.  A created device has no object class until it is registered, and the
  registration makes it a static object: both are assertions of this function.
\<close>

lemma device_destroy_fails:
  assumes "rt_device_create (Some d) st = (Some d, st1)"
  shows "rt_device_destroy d st1 = None"
    "rt_device_register (Some d) src a flags st1 = Some (RT_EOK, st2) \<Longrightarrow> rt_device_destroy d st2 = None"
proof -
  show "rt_device_destroy d st1 = None"
    using assms by (auto simp: rt_device_create_def rt_device_destroy_def dev_type_ok_def rt_object_get_type_def RT_ASSERT_def)
  assume "rt_device_register (Some d) src a flags st1 = Some (RT_EOK, st2)"
  then have "ob_type (rg_obj (ds_reg st2) d) = RT_Object_Class_Device OR RT_Object_Class_Static"
    by (auto simp: rt_device_register_def device_add_def rt_object_init_def copy_name_def Let_def
        split: Option.bind_splits if_splits)
  then show "rt_device_destroy d st2 = None"
    by (simp add: rt_device_destroy_def rt_object_is_systemobject_def RT_ASSERT_def)
qed

text \<open>
  When the driver's close operation reports an error, the count is zero but the device stays marked as
  open; a standalone device can then never be opened again.
\<close>

lemma device_close_error_sticks:
  assumes "rt_device_close ops d st = Some (e, st')" "e \<noteq> RT_EOK" "e \<noteq> - RT_ENOSYS" "de_ref_count (ds_dev st d) = 1"
    and "driver_ok d ops" "dev_standalone d st" "dev_open d st"
  shows "de_ref_count (ds_dev st' d) = 0" "rt_device_open ops d oflag st' = Some (r, st'') \<Longrightarrow> r \<noteq> RT_EOK"
proof -
  let ?st1 = "upd_dev d (\<lambda>v. v\<lparr>de_ref_count := de_ref_count v - 1\<rparr>) st"
  have "(case op_close ops of None \<Rightarrow> Some (RT_EOK, ?st1) | Some f \<Rightarrow> f ?st1) = Some (e, st')"
    using assms(1-4) by (auto simp: rt_device_close_def Let_def RT_ASSERT_def split: if_splits Option.bind_splits)
  then obtain f where "op_close ops = Some f" "f ?st1 = Some (e, st')" using assms(2) by (cases "op_close ops") auto
  then have "dev_same d ?st1 st'" by (rule driver_okD(3) [OF assms(5)])
  then have s: "de_ref_count (ds_dev st' d) = 0" "dev_standalone d st'" "dev_open d st'"
    using assms(4,6,7) by (simp_all add: dev_same_def dev_standalone_def dev_open_def)
  show "de_ref_count (ds_dev st' d) = 0" by (rule s(1))
  assume run: "rt_device_open ops d oflag st' = Some (r, st'')"
  then obtain x st2 where a: "device_activate ops d st' = Some (x, st2)"
    by (auto simp: rt_device_open_def split: Option.bind_splits)
  have "dev_same d st' st2" using device_activate_same [OF assms(5) a] by blast
  then have "dev_standalone d st2" "dev_open d st2" using s(2,3) by (simp_all add: dev_same_def dev_standalone_def dev_open_def)
  then show "r \<noteq> RT_EOK" using run a
    by (auto simp: rt_device_open_def dev_standalone_def dev_open_def RT_ASSERT_def split: if_splits)
qed

text \<open>
  The answer \<^verbatim>\<open>-RT_ENOSYS\<close> of \<^verbatim>\<open>rt_device_open\<close> does not tell whether the device is open: it is when the
  driver's open operation gave it, and it is not, and no init has taken place, when the init operation
  gave it.
\<close>

lemma device_open_enosys:
  assumes "dev_type_ok d st" "de_flag (ds_dev st d) = 0" "de_ref_count (ds_dev st d) = 0"
  shows "op_init ops = Some (\<lambda>st. Some (- RT_ENOSYS, st))
      \<Longrightarrow> rt_device_open ops d oflag st = Some (- RT_ENOSYS, st)"
    and "op_init ops = None \<Longrightarrow> op_open ops = Some (\<lambda>oflag st. Some (- RT_ENOSYS, st))
      \<Longrightarrow> \<exists>st'. rt_device_open ops d oflag st = Some (- RT_ENOSYS, st') \<and> de_ref_count (ds_dev st' d) = 1"
  using assms by (simp_all add: rt_device_open_def device_activate_def device_do_open_def Let_def)

text \<open>
  The lookup and the registration are two critical sections: when two threads register devices under one
  name and both look first, both succeed.
\<close>

lemma device_register_race:
  "\<exists>st1 st2. rt_device_find [116, 0] (Some 0) dev_sample = Some (None, dev_sample)
     \<and> device_add 30 [116, 0] 0 3 dev_sample = Some (RT_EOK, st1) \<and> device_add 40 [116, 0] 0 3 st1 = Some (RT_EOK, st2)
     \<and> ob_name (rg_obj (ds_reg st2) 30) = ob_name (rg_obj (ds_reg st2) 40)
     \<and> rt_object_get_pointers 9 5 (ds_reg st2) = Some [40, 30, 20]"
proof -
  have c: "cstr [116, 0] 0 [116]" by (simp add: arr_get_def)
  have k: "object_container ! 8 = 9" "(8 :: nat) < 11" by (simp_all add: object_container_def)
  let ?L = "(\<lambda>_. [])(8 := [20 :: nat])"
  let ?r0 = "registered_as 8 20 0x89 (name_of [115]) registry_start"
  let ?r1 = "registered_as 8 30 0x89 (name_of [116]) ?r0"
  let ?r2 = "registered_as 8 40 0x89 (name_of [116]) ?r1"
  have i0: "reg_inv ?r0 ?L"
    using registered_as_inv [OF registry_run_inv [OF registry_run.start] k(2), where ob = 20 and xs = "[115]" and type = "0x89"] k(1)
    by (simp add: unregistered_def)
  have i1: "reg_inv ?r1 (?L(8 := [30, 20]))"
    using registered_as_inv [OF i0 k(2), where ob = 30 and xs = "[116]" and type = "0x89"] k(1) by (simp add: unregistered_def)
  have i2: "reg_inv ?r2 (?L(8 := [40, 30, 20]))"
    using registered_as_inv [OF i1 k(2), where ob = 40 and xs = "[116]" and type = "0x89"] k(1) by (simp add: unregistered_def)
  have n: "ob_name (rg_obj ?r0 20) = name_of [115]" "name_of [115] \<noteq> name_of [116]"
    by (simp_all add: registered_as_def name_of_def)
  have f: "rt_device_find [116, 0] (Some 0) dev_sample = Some (None, dev_sample)"
    using object_find_ok [OF i0 k(2) c, of k_boot] k(1) n boot_check
    by (simp add: rt_device_find_def dev_sample_def k_boot_def)
  have a1: "rt_object_init 30 9 [116, 0] 0 (?r0, k_boot) = Some (?r1, k_boot)"
    using object_init_ok [OF i0 k(2) c, of 30 k_boot] k(1) boot_check by simp
  have a2: "rt_object_init 40 9 [116, 0] 0 (?r1, k_boot) = Some (?r2, k_boot)"
    using object_init_ok [OF i1 k(2) c, of 40 k_boot] k(1) boot_check by simp
  have p: "rt_object_get_pointers 9 5 ?r2 = Some [40, 30, 20]" using get_pointers_ok [OF i2 k(2), of 5] k(1) by simp
  have "ob_name (rg_obj ?r2 30) = ob_name (rg_obj ?r2 40)" by (simp add: registered_as_def)
  then show ?thesis using f a1 a2 p by (simp add: device_add_def dev_sample_def)
qed

end
