(* ===== verification/RingBlk.thy ===== *)
theory RingBlk
  imports Heap RtList
begin

text \<open>
  The ring block buffer of components/drivers/ipc/ringblk_buf.c: a ring of blocks of any size, each
  described by an entry of a fixed set that is on the free list or on the list of live blocks.
\<close>

section \<open>State\<close>

datatype rbb_status = RT_RBB_BLK_UNUSED | RT_RBB_BLK_INITED | RT_RBB_BLK_PUT | RT_RBB_BLK_GET

record rt_rbb_blk =
  blk_status :: rbb_status
  blk_size :: "24 word"
  blk_buf :: rt_uint32_t

text \<open>
  The two list heads are the nodes 0 and 1 and the list node of \<^verbatim>\<open>blk_set[i]\<close> is the node i + 2, by
  which a block is named.  \<open>rbb_links\<close> holds every node's \<^verbatim>\<open>next\<close>.
\<close>

abbreviation (input) blk_list :: nat where "blk_list \<equiv> 0"
abbreviation (input) free_list :: nat where "free_list \<equiv> 1"
abbreviation (input) blk_node :: "nat \<Rightarrow> nat" where "blk_node i \<equiv> i + 2"

record rt_rbb =
  rbb_buf :: rt_uint32_t
  rbb_buf_size :: rt_uint32_t
  rbb_blk_set :: "nat \<Rightarrow> rt_rbb_blk"
  rbb_blk_max_num :: nat
  rbb_tail :: nat
  rbb_links :: slist_mem

record rt_rbb_blk_queue =
  blkq_blocks :: "nat option"
  blkq_num :: nat

text \<open>\<^verbatim>\<open>rt_slist_entry\<close> of a node that is not in the block set gives no block.\<close>

definition rbb_blk :: "rt_rbb \<Rightarrow> nat \<Rightarrow> rt_rbb_blk option" where
  "rbb_blk r n = (if 2 \<le> n \<and> n < blk_node (rbb_blk_max_num r) then Some (rbb_blk_set r n) else None)"

definition rbb_set_status :: "nat \<Rightarrow> rbb_status \<Rightarrow> rt_rbb \<Rightarrow> rt_rbb" where
  "rbb_set_status n st r =
     r\<lparr>rbb_blk_set := (rbb_blk_set r)(n := (rbb_blk_set r n)\<lparr>blk_status := st\<rparr>)\<rparr>"


section \<open>Operations\<close>

text \<open>The structure whose memory had the contents r.\<close>

definition rt_rbb_init :: "rt_uint32_t \<Rightarrow> rt_uint32_t \<Rightarrow> nat \<Rightarrow> rt_rbb \<Rightarrow> rt_rbb" where
  "rt_rbb_init buf buf_size blk_max_num r =
     (let r1 = r\<lparr>rbb_buf := buf, rbb_buf_size := buf_size, rbb_blk_max_num := blk_max_num,
                 rbb_tail := blk_list,
                 rbb_links := rt_slist_init free_list (rt_slist_init blk_list (rbb_links r))\<rparr>
      in foldl (\<lambda>r i.
           let r' = rbb_set_status (blk_node i) RT_RBB_BLK_UNUSED r
           in r'\<lparr>rbb_links := rt_slist_insert free_list (blk_node i)
                                (rt_slist_init (blk_node i) (rbb_links r'))\<rparr>)
         r1 [0 ..< blk_max_num])"

definition find_empty_blk_in_set :: "rt_rbb \<Rightarrow> (nat option \<times> rt_rbb) option" where
  "find_empty_blk_in_set r =
     (case rbb_links r free_list of
        None \<Rightarrow> Some (None, r)
      | Some n \<Rightarrow> do {
          links \<leftarrow> rt_slist_remove free_list n (rbb_links r);
          blk \<leftarrow> rbb_blk r n;
          RT_ASSERT (blk_status blk = RT_RBB_BLK_UNUSED);
          Some (Some n, r\<lparr>rbb_links := links\<rparr>)
        })"

definition list_append :: "nat \<Rightarrow> rt_rbb \<Rightarrow> rt_rbb" where
  "list_append n r = r\<lparr>rbb_links := (rbb_links r)(rbb_tail r := Some n, n := None), rbb_tail := n\<rparr>"

definition list_remove :: "nat \<Rightarrow> rt_rbb \<Rightarrow> rt_rbb option" where
  "list_remove n r = do {
     node \<leftarrow> slist_find_pred (rbb_links r) n blk_list;
     Some (case rbb_links r node of
             None \<Rightarrow> r
           | Some q \<Rightarrow> r\<lparr>rbb_links := (rbb_links r)(node := rbb_links r q, n := None),
                         rbb_tail := (if rbb_tail r = n then node else rbb_tail r)\<rparr>)
   }"

text \<open>The block n gets the bytes from address a on.\<close>

definition blk_place :: "nat \<Rightarrow> rt_uint32_t \<Rightarrow> rt_uint32_t \<Rightarrow> rt_rbb \<Rightarrow> rt_rbb" where
  "blk_place n a sz r =
     (let r1 = list_append n r
      in r1\<lparr>rbb_blk_set := (rbb_blk_set r1)(n := \<lparr>blk_status = RT_RBB_BLK_INITED, blk_size = ucast sz, blk_buf = a\<rparr>)\<rparr>)"

definition blk_end :: "rt_rbb_blk \<Rightarrow> rt_uint32_t" where
  "blk_end b = blk_buf b + ucast (blk_size b)"

definition rt_rbb_blk_alloc :: "rt_uint32_t \<Rightarrow> rt_rbb \<Rightarrow> (nat option \<times> rt_rbb) option" where
  "rt_rbb_blk_alloc sz r0 = do {
     RT_ASSERT (sz < 2 ^ 24);
     (new_rbb, r) \<leftarrow> find_empty_blk_in_set r0;
     (case new_rbb of
        None \<Rightarrow> Some (None, r)
      | Some n \<Rightarrow>
         (case rbb_links r blk_list of
            Some first \<Rightarrow> do {
              head \<leftarrow> rbb_blk r first;
              tail \<leftarrow> rbb_blk r (rbb_tail r);
              Some (if blk_buf head \<le> blk_buf tail then
                      (let empty1 = (rbb_buf r + rbb_buf_size r) - blk_end tail;
                           empty2 = blk_buf head - rbb_buf r
                       in if sz \<le> empty1 then (Some n, blk_place n (blk_end tail) sz r)
                          else if sz \<le> empty2 then (Some n, blk_place n (rbb_buf r) sz r)
                          else (None, r))
                    else
                      (let empty1 = blk_buf head - blk_end tail
                       in if sz \<le> empty1 then (Some n, blk_place n (blk_end tail) sz r)
                          else (None, r)))
            }
          | None \<Rightarrow> Some (Some n, blk_place n (rbb_buf r) sz r)))
   }"

definition rt_rbb_blk_put :: "nat \<Rightarrow> rt_rbb \<Rightarrow> rt_rbb option" where
  "rt_rbb_blk_put n r = do {
     blk \<leftarrow> rbb_blk r n;
     RT_ASSERT (blk_status blk = RT_RBB_BLK_INITED);
     Some (rbb_set_status n RT_RBB_BLK_PUT r)
   }"

partial_function (option) blk_get_loop :: "rt_rbb \<Rightarrow> nat option \<Rightarrow> nat option option" where
  "blk_get_loop r node =
     (case node of
        None \<Rightarrow> Some None
      | Some n \<Rightarrow> do {
          blk \<leftarrow> rbb_blk r n;
          if blk_status blk = RT_RBB_BLK_PUT then Some (Some n) else blk_get_loop r (rbb_links r n)
        })"

definition rt_rbb_blk_get :: "rt_rbb \<Rightarrow> (nat option \<times> rt_rbb) option" where
  "rt_rbb_blk_get r =
     (if rbb_links r blk_list = None then Some (None, r)
      else do {
        block \<leftarrow> blk_get_loop r (rbb_links r blk_list);
        Some (block, case block of None \<Rightarrow> r | Some n \<Rightarrow> rbb_set_status n RT_RBB_BLK_GET r)
      })"

definition rt_rbb_blk_size :: "nat \<Rightarrow> rt_rbb \<Rightarrow> rt_uint32_t option" where
  "rt_rbb_blk_size n r = map_option (\<lambda>b. ucast (blk_size b)) (rbb_blk r n)"

definition rt_rbb_blk_buf :: "nat \<Rightarrow> rt_rbb \<Rightarrow> rt_uint32_t option" where
  "rt_rbb_blk_buf n r = map_option blk_buf (rbb_blk r n)"

definition rt_rbb_blk_free :: "nat \<Rightarrow> rt_rbb \<Rightarrow> rt_rbb option" where
  "rt_rbb_blk_free n r = do {
     blk \<leftarrow> rbb_blk r n;
     RT_ASSERT (blk_status blk \<noteq> RT_RBB_BLK_UNUSED);
     r1 \<leftarrow> list_remove n r;
     let r2 = rbb_set_status n RT_RBB_BLK_UNUSED r1;
     Some (r2\<lparr>rbb_links := rt_slist_insert free_list n (rbb_links r2)\<rparr>)
   }"

definition rt_rbb_get_buf_size :: "rt_rbb \<Rightarrow> rt_uint32_t" where
  "rt_rbb_get_buf_size r = rbb_buf_size r"


section \<open>Block queues\<close>

text \<open>
  The loop of \<^verbatim>\<open>rt_rbb_blk_queue_get\<close> reads \<^verbatim>\<open>rt_slist_next(node)\<close> of a NULL node once it has passed
  the last one; at0 is the word that the machine has at address 0.
\<close>

definition next_of :: "nat option \<Rightarrow> rt_rbb \<Rightarrow> nat option \<Rightarrow> nat option" where
  "next_of at0 r node = (case node of None \<Rightarrow> at0 | Some n \<Rightarrow> rbb_links r n)"

partial_function (option) blk_queue_get_loop ::
  "nat option \<Rightarrow> rt_uint32_t \<Rightarrow> nat option \<Rightarrow> nat option \<Rightarrow> nat option \<Rightarrow> rt_uint32_t
   \<Rightarrow> rt_rbb_blk_queue \<Rightarrow> rt_rbb \<Rightarrow> (rt_uint32_t \<times> rt_rbb_blk_queue \<times> rt_rbb) option" where
  "blk_queue_get_loop at0 queue_data_len node tmp last_block data_total_size blk_queue r =
     (case node of
        None \<Rightarrow> Some (data_total_size, blk_queue, r)
      | Some n \<Rightarrow> do {
          block \<leftarrow> rbb_blk r n;
          (case last_block of
             None \<Rightarrow>
               if blk_status block = RT_RBB_BLK_PUT then
                 blk_queue_get_loop at0 queue_data_len tmp (next_of at0 r tmp) (Some n)
                   (data_total_size + ucast (blk_size block))
                   (blk_queue\<lparr>blkq_blocks := Some n, blkq_num := 1\<rparr>) (rbb_set_status n RT_RBB_BLK_GET r)
               else
                 blk_queue_get_loop at0 queue_data_len tmp (next_of at0 r tmp) None data_total_size blk_queue r
           | Some l \<Rightarrow> do {
               last_blk \<leftarrow> rbb_blk r l;
               if blk_status block \<noteq> RT_RBB_BLK_PUT \<or> blk_buf last_blk > blk_buf block
                  \<or> data_total_size + ucast (blk_size block) > queue_data_len
               then Some (data_total_size, blk_queue, r)
               else
                 blk_queue_get_loop at0 queue_data_len tmp (next_of at0 r tmp) (Some n)
                   (data_total_size + ucast (blk_size block))
                   (blk_queue\<lparr>blkq_num := blkq_num blk_queue + 1\<rparr>) (rbb_set_status n RT_RBB_BLK_GET r)
             })
        })"

definition rt_rbb_blk_queue_get ::
  "nat option \<Rightarrow> rt_uint32_t \<Rightarrow> rt_rbb_blk_queue \<Rightarrow> rt_rbb
   \<Rightarrow> (rt_uint32_t \<times> rt_rbb_blk_queue \<times> rt_rbb) option" where
  "rt_rbb_blk_queue_get at0 queue_data_len blk_queue r =
     (case rbb_links r blk_list of
        None \<Rightarrow> Some (0, blk_queue, r)
      | Some n \<Rightarrow>
          blk_queue_get_loop at0 queue_data_len (Some n) (rbb_links r n) None 0 blk_queue r)"

primrec blk_queue_len_loop :: "rt_rbb \<Rightarrow> nat \<Rightarrow> nat option \<Rightarrow> rt_uint32_t \<Rightarrow> rt_uint32_t option" where
  "blk_queue_len_loop r 0 blk data_total_size = Some data_total_size"
| "blk_queue_len_loop r (Suc i) blk data_total_size = do {
     n \<leftarrow> blk;
     b \<leftarrow> rbb_blk r n;
     blk_queue_len_loop r i (rbb_links r n) (data_total_size + ucast (blk_size b))
   }"

definition rt_rbb_blk_queue_len :: "rt_rbb_blk_queue \<Rightarrow> rt_rbb \<Rightarrow> rt_uint32_t option" where
  "rt_rbb_blk_queue_len blk_queue r = blk_queue_len_loop r (blkq_num blk_queue) (blkq_blocks blk_queue) 0"

definition rt_rbb_blk_queue_buf :: "rt_rbb_blk_queue \<Rightarrow> rt_rbb \<Rightarrow> rt_uint32_t option" where
  "rt_rbb_blk_queue_buf blk_queue r = do { n \<leftarrow> blkq_blocks blk_queue; b \<leftarrow> rbb_blk r n; Some (blk_buf b) }"

primrec blk_queue_free_loop :: "nat \<Rightarrow> nat option \<Rightarrow> rt_rbb \<Rightarrow> rt_rbb option" where
  "blk_queue_free_loop 0 blk r = Some r"
| "blk_queue_free_loop (Suc i) blk r = do {
     n \<leftarrow> blk;
     b \<leftarrow> rbb_blk r n;
     let next_blk = rbb_links r n;
     r1 \<leftarrow> rt_rbb_blk_free n r;
     blk_queue_free_loop i next_blk r1
   }"

definition rt_rbb_blk_queue_free :: "rt_rbb_blk_queue \<Rightarrow> rt_rbb \<Rightarrow> rt_rbb option" where
  "rt_rbb_blk_queue_free blk_queue r = blk_queue_free_loop (blkq_num blk_queue) (blkq_blocks blk_queue) r"

partial_function (option) next_blk_queue_len_loop ::
  "rt_rbb \<Rightarrow> nat option \<Rightarrow> nat option \<Rightarrow> rt_uint32_t \<Rightarrow> rt_uint32_t option" where
  "next_blk_queue_len_loop r node last_block data_len =
     (case node of
        None \<Rightarrow> Some data_len
      | Some n \<Rightarrow> do {
          block \<leftarrow> rbb_blk r n;
          (case last_block of
             None \<Rightarrow>
               if blk_status block \<noteq> RT_RBB_BLK_PUT
               then next_blk_queue_len_loop r (rbb_links r n) None data_len
               else next_blk_queue_len_loop r (rbb_links r n) (Some n) (data_len + ucast (blk_size block))
           | Some l \<Rightarrow> do {
               last_blk \<leftarrow> rbb_blk r l;
               if blk_status block \<noteq> RT_RBB_BLK_PUT \<or> blk_buf last_blk > blk_buf block then Some data_len
               else next_blk_queue_len_loop r (rbb_links r n) (Some n) (data_len + ucast (blk_size block))
             })
        })"

definition rt_rbb_next_blk_queue_len :: "rt_rbb \<Rightarrow> rt_uint32_t option" where
  "rt_rbb_next_blk_queue_len r =
     (if rbb_links r blk_list = None then Some 0
      else next_blk_queue_len_loop r (rbb_links r blk_list) None 0)"

section \<open>Where the blocks lie\<close>

abbreviation blk_start :: "rt_rbb_blk \<Rightarrow> nat" where "blk_start b \<equiv> unat (blk_buf b)"
abbreviation blk_len :: "rt_rbb_blk \<Rightarrow> nat" where "blk_len b \<equiv> unat (blk_size b)"
abbreviation blk_stop :: "rt_rbb_blk \<Rightarrow> nat" where "blk_stop b \<equiv> blk_start b + blk_len b"

definition blks_apart :: "rt_rbb_blk \<Rightarrow> rt_rbb_blk \<Rightarrow> bool" where
  "blks_apart b c \<longleftrightarrow> blk_stop b \<le> blk_start c \<or> blk_stop c \<le> blk_start b"

text \<open>Blocks of at least a byte, one after the other, between the addresses lo and hi.\<close>

fun blks_between :: "nat \<Rightarrow> rt_rbb_blk list \<Rightarrow> nat \<Rightarrow> bool" where
  "blks_between lo [] hi \<longleftrightarrow> lo \<le> hi"
| "blks_between lo (b # bs) hi \<longleftrightarrow> lo \<le> blk_start b \<and> 0 < blk_len b \<and> blks_between (blk_stop b) bs hi"

text \<open>In list order the blocks go up to the end of the buffer and on from its start.\<close>

definition rbb_layout :: "nat \<Rightarrow> rt_rbb_blk list \<Rightarrow> nat \<Rightarrow> bool" where
  "rbb_layout lo bs hi \<longleftrightarrow> (\<exists>as cs. bs = as @ cs \<and> blks_between lo as hi
     \<and> (cs \<noteq> [] \<longrightarrow> as \<noteq> [] \<and> blks_between lo cs (blk_start (hd as))))"

lemma layout_between: "blks_between lo bs hi \<Longrightarrow> rbb_layout lo bs hi"
  unfolding rbb_layout_def by (intro exI [of _ bs] exI [of _ "[]"]) simp

lemma blks_between_le: "blks_between lo bs hi \<Longrightarrow> lo \<le> hi"
  by (induction bs arbitrary: lo) fastforce+

lemma blks_between_mono: "blks_between lo bs hi \<Longrightarrow> lo' \<le> lo \<Longrightarrow> hi \<le> hi' \<Longrightarrow> blks_between lo' bs hi'"
  by (induction bs arbitrary: lo lo') auto

lemma blks_between_mid:
  "blks_between lo (as @ b # bs) hi \<longleftrightarrow>
   blks_between lo as (blk_start b) \<and> 0 < blk_len b \<and> blks_between (blk_stop b) bs hi"
  by (induction as arbitrary: lo) auto

lemma blks_between_drop_mid: "blks_between lo (as @ b # bs) hi \<Longrightarrow> blks_between lo (as @ bs) hi"
proof (induction as arbitrary: lo)
  case Nil
  then show ?case using blks_between_mono [of "blk_stop b" bs hi lo hi] by simp
qed simp

lemma blks_between_in: "blks_between lo bs hi \<Longrightarrow> b \<in> set bs \<Longrightarrow> lo \<le> blk_start b \<and> 0 < blk_len b \<and> blk_stop b \<le> hi"
  by (induction bs arbitrary: lo) (use blks_between_le in fastforce)+

lemma blks_between_last: "blks_between lo bs hi \<Longrightarrow> bs \<noteq> [] \<Longrightarrow> blks_between lo bs (blk_stop (last bs))"
  using blks_between_mid [of lo "butlast bs" "last bs" "[]"] by simp

lemma blks_between_snoc:
  "blks_between lo bs h \<Longrightarrow> h \<le> blk_start b \<Longrightarrow> 0 < blk_len b \<Longrightarrow> blk_stop b \<le> hi \<Longrightarrow> blks_between lo (bs @ [b]) hi"
  using blks_between_mid [of lo bs b "[]" hi] blks_between_mono [of lo bs h lo "blk_start b"] by simp

lemma blks_between_ordered:
  "blks_between lo bs hi \<Longrightarrow> sorted_wrt (\<lambda>b c. blk_stop b \<le> blk_start c) bs"
  by (induction bs arbitrary: lo) (use blks_between_in in fastforce)+

lemma blks_between_sum: "blks_between lo bs hi \<Longrightarrow> lo + sum_list (map blk_len bs) \<le> hi"
  by (induction bs arbitrary: lo) fastforce+

lemma blks_between_cong:
  "(\<And>n. n \<in> set ns \<Longrightarrow> blk_buf (f n) = blk_buf (g n) \<and> blk_size (f n) = blk_size (g n)) \<Longrightarrow>
   blks_between lo (map f ns) hi = blks_between lo (map g ns) hi"
  by (induction ns arbitrary: lo) auto

text \<open>Blocks that do not meet and go up in memory lie one after the other.\<close>

lemma blks_between_ascending:
  assumes "sorted_wrt blks_apart bs" "sorted (map blk_start bs)"
    and "\<And>b. b \<in> set bs \<Longrightarrow> lo \<le> blk_start b \<and> 0 < blk_len b \<and> blk_stop b \<le> hi" and "lo \<le> hi"
  shows "blks_between lo bs hi"
  using assms
proof (induction bs arbitrary: lo)
  case (Cons b bs)
  have "blk_stop b \<le> blk_start c" if "c \<in> set bs" for c
    using Cons.prems(1,2) Cons.prems(3) [of c] that by (force simp: blks_apart_def)
  then have "blks_between (blk_stop b) bs hi" using Cons.prems by (intro Cons.IH) auto
  then show ?case using Cons.prems(3) [of b] by simp
qed simp

lemma layout_parts:
  assumes "rbb_layout lo bs hi" "bs \<noteq> []"
  shows "if blk_start (hd bs) \<le> blk_start (last bs) then blks_between lo bs hi
    else \<exists>as cs. bs = as @ cs \<and> as \<noteq> [] \<and> cs \<noteq> [] \<and> blks_between lo as hi
      \<and> blks_between lo cs (blk_start (hd bs))"
proof -
  obtain as cs where l: "bs = as @ cs" "blks_between lo as hi"
    "cs \<noteq> [] \<Longrightarrow> as \<noteq> [] \<and> blks_between lo cs (blk_start (hd as))"
    using assms(1) by (auto simp: rbb_layout_def)
  show ?thesis
  proof (cases "cs = []")
    case True
    then have b: "blks_between lo bs hi" using l by simp
    have "blk_start (hd bs) \<le> blk_start (last bs)"
    proof -
      obtain h ds where e: "bs = h # ds" using assms(2) by (cases bs) auto
      show ?thesis
      proof (cases "ds = []")
        case False
        then have "blk_stop h \<le> blk_start (last ds)" using blks_between_ordered [OF b] e by simp
        then show ?thesis using False e by simp
      qed (simp add: e)
    qed
    then show ?thesis using b by simp
  next
    case False
    then have c: "as \<noteq> []" "blks_between lo cs (blk_start (hd bs))" using l by auto
    have "last cs \<in> set cs" using False by simp
    then have "blk_start (last bs) < blk_start (hd bs)"
      using blks_between_in [OF c(2)] l(1) False by fastforce
    then show ?thesis using c l False by auto
  qed
qed

lemma layout_apart: "rbb_layout lo bs hi \<Longrightarrow> sorted_wrt blks_apart bs"
proof -
  assume "rbb_layout lo bs hi"
  then obtain as cs where l: "bs = as @ cs" "blks_between lo as hi"
    "cs \<noteq> [] \<Longrightarrow> as \<noteq> [] \<and> blks_between lo cs (blk_start (hd as))"
    by (auto simp: rbb_layout_def)
  have o: "sorted_wrt blks_apart ds" if "blks_between a ds e" for a ds e
    using sorted_wrt_mono_rel [OF _ blks_between_ordered [OF that]] by (auto simp: blks_apart_def)
  have "blks_apart b c" if bc: "b \<in> set as" "c \<in> set cs" for b c
  proof -
    have "cs \<noteq> []" using bc(2) by auto
    then have n: "as \<noteq> []" "blks_between lo cs (blk_start (hd as))" using l(3) by simp_all
    obtain a ds where "as = a # ds" using n(1) by (cases as) auto
    then have "b = hd as \<or> blk_stop (hd as) \<le> blk_start b"
      using blks_between_ordered [OF l(2)] bc(1) by auto
    then show ?thesis using blks_between_in [OF n(2) bc(2)] by (auto simp: blks_apart_def)
  qed
  moreover have "sorted_wrt blks_apart cs" using l(3) o by (cases "cs = []") auto
  ultimately show ?thesis using o [OF l(2)] l(1) by (simp add: sorted_wrt_append)
qed

lemma layout_in:
  assumes "rbb_layout lo bs hi" "b \<in> set bs"
  shows "lo \<le> blk_start b \<and> 0 < blk_len b \<and> blk_stop b \<le> hi"
proof -
  obtain as cs where l: "bs = as @ cs" "blks_between lo as hi"
    "cs \<noteq> [] \<Longrightarrow> as \<noteq> [] \<and> blks_between lo cs (blk_start (hd as))"
    using assms(1) by (auto simp: rbb_layout_def)
  show ?thesis
  proof (cases "b \<in> set as")
    case True
    then show ?thesis using blks_between_in [OF l(2)] by simp
  next
    case False
    then have b: "b \<in> set cs" using assms(2) l(1) by simp
    then have "cs \<noteq> []" by auto
    then have c: "as \<noteq> []" "blks_between lo cs (blk_start (hd as))" using l(3) by simp_all
    have "blk_start (hd as) \<le> hi" using blks_between_in [OF l(2), of "hd as"] c(1) by simp
    then show ?thesis using blks_between_in [OF c(2) b] by simp
  qed
qed

lemma layout_drop_mid:
  assumes "rbb_layout lo (us @ b # vs) hi"
  shows "rbb_layout lo (us @ vs) hi"
proof -
  obtain as cs where l: "us @ b # vs = as @ cs" "blks_between lo as hi"
    "cs \<noteq> [] \<Longrightarrow> as \<noteq> [] \<and> blks_between lo cs (blk_start (hd as))"
    using assms by (auto simp: rbb_layout_def)
  from l(1) consider ws where "as = us @ b # ws" "vs = ws @ cs" | ws where "us = as @ ws" "cs = ws @ b # vs"
    by (auto simp: append_eq_append_conv2 Cons_eq_append_conv)
  then show ?thesis
  proof cases
    case 1
    have k: "blks_between lo (us @ ws) hi" using l(2) 1(1) blks_between_drop_mid by simp
    show ?thesis
    proof (cases "cs = []")
      case True
      then show ?thesis using k 1(2) by (auto simp: rbb_layout_def)
    next
      case False
      then have c: "blks_between lo cs (blk_start (hd as))" using l(3) by simp
      show ?thesis
      proof (cases "us @ ws = []")
        case True
        then have "blks_between lo cs hi"
          using c 1(1) l(2) blks_between_in [OF l(2), of b] blks_between_mono [OF c, of lo hi] by simp
        then show ?thesis using True 1(2) by (auto simp: rbb_layout_def)
      next
        case nonempty: False
        have "blk_start (hd as) \<le> blk_start (hd (us @ ws))"
        proof (cases us)
          case Nil
          then have "hd ws \<in> set ws" using nonempty by simp
          then show ?thesis using blks_between_ordered [OF l(2)] 1(1) Nil nonempty by fastforce
        qed (use 1(1) in simp)
        then have "blks_between lo cs (blk_start (hd (us @ ws)))" using c blks_between_mono by blast
        then show ?thesis unfolding rbb_layout_def using k nonempty 1(2)
          by (intro exI [of _ "us @ ws"] exI [of _ cs]) simp
      qed
    qed
  next
    case 2
    then have c: "as \<noteq> []" "blks_between lo (ws @ b # vs) (blk_start (hd as))" using l(3) by simp_all
    from c(2) have "blks_between lo (ws @ vs) (blk_start (hd as))" by (rule blks_between_drop_mid)
    then show ?thesis unfolding rbb_layout_def using l(2) 2 c(1)
      by (intro exI [of _ as] exI [of _ "ws @ vs"]) simp
  qed
qed

lemma layout_cong:
  assumes "\<And>n. n \<in> set ns \<Longrightarrow> blk_buf (f n) = blk_buf (g n) \<and> blk_size (f n) = blk_size (g n)"
    and "rbb_layout lo (map f ns) hi"
  shows "rbb_layout lo (map g ns) hi"
proof -
  obtain as cs where l: "map f ns = as @ cs" "blks_between lo as hi"
    "cs \<noteq> [] \<Longrightarrow> as \<noteq> [] \<and> blks_between lo cs (blk_start (hd as))"
    using assms(2) by (auto simp: rbb_layout_def)
  from l(1) obtain ks ms where k: "ns = ks @ ms" "as = map f ks" "cs = map f ms"
    by (auto simp: map_eq_append_conv)
  have "blks_between lo (map g ks) hi" using l(2) k assms(1) blks_between_cong [of ks f g] by simp
  moreover have "ks \<noteq> [] \<and> blks_between lo (map g ms) (blk_start (hd (map g ks)))" if "ms \<noteq> []"
    using l(3) k that assms(1) blks_between_cong [of ms f g] by (cases ks) auto
  ultimately show ?thesis unfolding rbb_layout_def using k(1)
    by (intro exI [of _ "map g ks"] exI [of _ "map g ms"]) simp
qed

text \<open>The three places a new block can have.\<close>

lemma layout_after_tail:
  assumes "rbb_layout lo bs hi" "bs \<noteq> []" "0 < blk_len b" "blk_start b = blk_stop (last bs)"
    and "if blk_start (hd bs) \<le> blk_start (last bs) then blk_stop b \<le> hi else blk_stop b \<le> blk_start (hd bs)"
  shows "rbb_layout lo (bs @ [b]) hi"
proof (cases "blk_start (hd bs) \<le> blk_start (last bs)")
  case True
  then have "blks_between lo (bs @ [b]) hi"
    using layout_parts [OF assms(1,2)] blks_between_last [of lo bs hi] assms(2-5)
      blks_between_snoc [of lo bs "blk_stop (last bs)" b hi] by simp
  then show ?thesis by (auto simp: rbb_layout_def)
next
  case False
  then obtain as cs where s: "bs = as @ cs" "as \<noteq> []" "cs \<noteq> []" "blks_between lo as hi"
    "blks_between lo cs (blk_start (hd bs))"
    using layout_parts [OF assms(1,2)] by auto
  then have "blks_between lo (cs @ [b]) (blk_start (hd as))"
    using False assms(3-5) blks_between_last [of lo cs] blks_between_snoc [of lo cs "blk_stop (last cs)" b] by simp
  then show ?thesis unfolding rbb_layout_def using s by (intro exI [of _ as] exI [of _ "cs @ [b]"]) simp
qed

lemma layout_at_start:
  assumes "rbb_layout lo bs hi" "bs \<noteq> []" "0 < blk_len b" "blk_start (hd bs) \<le> blk_start (last bs)"
    "blk_start b = lo" "blk_stop b \<le> blk_start (hd bs)"
  shows "rbb_layout lo (bs @ [b]) hi"
proof -
  have "blks_between lo bs hi" using layout_parts [OF assms(1,2)] assms(4) by simp
  then show ?thesis unfolding rbb_layout_def using assms by (intro exI [of _ bs] exI [of _ "[b]"]) simp
qed

section \<open>The lists\<close>

lemma find_pred_split:
  "schain m l (us @ n # vs) \<Longrightarrow> n \<notin> set us \<Longrightarrow> slist_find_pred m n l = Some (last (l # us))"
proof (induction us arbitrary: l)
  case Nil
  then show ?case by (simp add: slist_find_pred.simps)
next
  case (Cons u us)
  then show ?case by (subst slist_find_pred.simps) auto
qed

lemma schain_next: "schain m l (us @ n # vs) \<Longrightarrow> m (last (l # us)) = Some n \<and> schain m n vs"
  by (induction us arbitrary: l) auto

lemma schain_drop_mid:
  "distinct (l # us @ n # vs) \<Longrightarrow> schain m l (us @ n # vs) \<Longrightarrow>
   schain (m(last (l # us) := m n, n := None)) l (us @ vs)"
proof (induction us arbitrary: l)
  case Nil
  show ?case
  proof (cases vs)
    case (Cons a list)
    define m' where "m' = m(l := m n, n := None)"
    have "schain m' a list = schain m a list" using Nil Cons by (intro schain_cong) (auto simp: m'_def)
    then have "schain m' l ([] @ vs)" using Nil Cons by (simp add: m'_def)
    moreover have "m(last (l # []) := m n, n := None) = m'" by (simp add: m'_def)
    ultimately show ?thesis by (simp only:)
  qed (use Nil in auto)
next
  case (Cons u us)
  have "last (u # us) \<in> set (u # us)" by (rule last_in_set) simp
  then have k: "last (u # us) \<noteq> l" using Cons.prems(1) by auto
  define m' where "m' = m(last (u # us) := m n, n := None)"
  have "schain m' u (us @ vs)" unfolding m'_def using Cons.prems by (intro Cons.IH) auto
  moreover have "m' l = Some u" using Cons.prems k by (auto simp: m'_def)
  moreover have "m(last (l # u # us) := m n, n := None) = m'" by (simp add: m'_def)
  ultimately show ?case by (simp only: append_Cons schain.simps)
qed

text \<open>
  xs are the live blocks in the order of their list and ys the free ones; an entry of the block set
  that is on neither list is unused and lost.
\<close>

definition rbb_holds :: "rt_rbb \<Rightarrow> nat list \<Rightarrow> nat list \<Rightarrow> bool" where
  "rbb_holds r xs ys \<longleftrightarrow>
     slist (rbb_links r) blk_list xs \<and> slist (rbb_links r) free_list ys
     \<and> set xs \<inter> set ys = {} \<and> set xs \<union> set ys \<subseteq> {2 ..< blk_node (rbb_blk_max_num r)}
     \<and> rbb_tail r = last (blk_list # xs)
     \<and> (\<forall>n \<in> {2 ..< blk_node (rbb_blk_max_num r)}.
          blk_status (rbb_blk_set r n) = RT_RBB_BLK_UNUSED \<longleftrightarrow> n \<notin> set xs)
     \<and> unat (rbb_buf r) + unat (rbb_buf_size r) < 2 ^ 32
     \<and> rbb_layout (unat (rbb_buf r)) (map (rbb_blk_set r) xs) (unat (rbb_buf r) + unat (rbb_buf_size r))"

lemma rbb_blk_member: "rbb_holds r xs ys \<Longrightarrow> n \<in> set xs \<union> set ys \<Longrightarrow> rbb_blk r n = Some (rbb_blk_set r n)"
  by (fastforce simp: rbb_holds_def rbb_blk_def)

lemma rbb_blk_set_status [simp]:
  "rbb_blk (rbb_set_status m st r) n
    = map_option (\<lambda>b. if n = m then b\<lparr>blk_status := st\<rparr> else b) (rbb_blk r n)"
  by (auto simp: rbb_blk_def rbb_set_status_def)

lemma set_status_fields [simp]:
  "rbb_links (rbb_set_status n st r) = rbb_links r" "rbb_tail (rbb_set_status n st r) = rbb_tail r"
  "rbb_buf (rbb_set_status n st r) = rbb_buf r" "rbb_buf_size (rbb_set_status n st r) = rbb_buf_size r"
  "rbb_blk_max_num (rbb_set_status n st r) = rbb_blk_max_num r"
  "rbb_blk_set (rbb_set_status n st r) k
    = (if k = n then (rbb_blk_set r n)\<lparr>blk_status := st\<rparr> else rbb_blk_set r k)"
  by (simp_all add: rbb_set_status_def)

lemma rbb_holds_parts:
  assumes "rbb_holds r xs ys"
  shows "slist (rbb_links r) blk_list xs" "slist (rbb_links r) free_list ys" "set xs \<inter> set ys = {}"
    "\<And>n. n \<in> set xs \<union> set ys \<Longrightarrow> 2 \<le> n \<and> n < blk_node (rbb_blk_max_num r)"
    "rbb_tail r = last (blk_list # xs)"
    "\<And>n. 2 \<le> n \<Longrightarrow> n < blk_node (rbb_blk_max_num r) \<Longrightarrow>
       blk_status (rbb_blk_set r n) = RT_RBB_BLK_UNUSED \<longleftrightarrow> n \<notin> set xs"
    "unat (rbb_buf r) + unat (rbb_buf_size r) < 2 ^ 32"
    "rbb_layout (unat (rbb_buf r)) (map (rbb_blk_set r) xs) (unat (rbb_buf r) + unat (rbb_buf_size r))"
  using assms by (fastforce simp: rbb_holds_def)+

lemma rbb_holdsI:
  assumes "slist (rbb_links r) blk_list xs" "slist (rbb_links r) free_list ys" "set xs \<inter> set ys = {}"
    "\<And>n. n \<in> set xs \<union> set ys \<Longrightarrow> 2 \<le> n \<and> n < blk_node (rbb_blk_max_num r)"
    "rbb_tail r = last (blk_list # xs)"
    "\<And>n. 2 \<le> n \<Longrightarrow> n < blk_node (rbb_blk_max_num r) \<Longrightarrow>
       blk_status (rbb_blk_set r n) = RT_RBB_BLK_UNUSED \<longleftrightarrow> n \<notin> set xs"
    "unat (rbb_buf r) + unat (rbb_buf_size r) < 2 ^ 32"
    "rbb_layout (unat (rbb_buf r)) (map (rbb_blk_set r) xs) (unat (rbb_buf r) + unat (rbb_buf_size r))"
  shows "rbb_holds r xs ys"
  unfolding rbb_holds_def using assms by auto

text \<open>A live block stays live under a change of its status.\<close>

lemma set_status_holds:
  assumes "rbb_holds r xs ys" "n \<in> set xs" "st \<noteq> RT_RBB_BLK_UNUSED"
  shows "rbb_holds (rbb_set_status n st r) xs ys"
  using assms layout_cong [of xs "rbb_blk_set r" "rbb_blk_set (rbb_set_status n st r)"]
  unfolding rbb_holds_def by auto

lemma rbb_find_empty:
  assumes h: "rbb_holds r xs ys"
  shows "\<exists>links. find_empty_blk_in_set r
      = Some (case ys of [] \<Rightarrow> (None, r) | n # _ \<Rightarrow> (Some n, r\<lparr>rbb_links := links\<rparr>))
    \<and> (\<forall>n ys'. ys = n # ys' \<longrightarrow> rbb_holds (r\<lparr>rbb_links := links\<rparr>) xs ys')"
proof (cases ys)
  case Nil
  then show ?thesis using rbb_holds_parts(2) [OF h] by (auto simp: find_empty_blk_in_set_def slist_def)
next
  case (Cons n ys')
  note p = rbb_holds_parts [OF h]
  have n: "rbb_links r free_list = Some n" "schain (rbb_links r) n ys'" using p(2) Cons by (auto simp: slist_def)
  have "slist_find_pred (rbb_links r) n free_list = Some free_list" using n by (simp add: slist_find_pred.simps)
  moreover have "rbb_blk r n = Some (rbb_blk_set r n)" using rbb_blk_member [OF h] Cons by simp
  moreover have "blk_status (rbb_blk_set r n) = RT_RBB_BLK_UNUSED" using p(3,4,6) Cons by fastforce
  moreover have "rbb_holds (r\<lparr>rbb_links := (rbb_links r)(free_list := rbb_links r n)\<rparr>) xs ys'"
  proof -
    have "free_list \<notin> set xs" using p(4) by fastforce
    moreover have "schain ((rbb_links r)(free_list := rbb_links r n)) free_list ys'"
      using p(2) n Cons by (cases ys') (auto simp: slist_def)
    ultimately show ?thesis using h Cons by (auto simp: rbb_holds_def slist_def)
  qed
  ultimately show ?thesis using n Cons by (auto simp: find_empty_blk_in_set_def rt_slist_remove_def)
qed

text \<open>A block that is on neither list is placed.\<close>

lemma blk_place_holds:
  assumes h: "rbb_holds r xs ys" and n: "2 \<le> n" "n < blk_node (rbb_blk_max_num r)" "n \<notin> set xs" "n \<notin> set ys"
    and l: "rbb_layout (unat (rbb_buf r))
      (map (rbb_blk_set r) xs @ [\<lparr>blk_status = RT_RBB_BLK_INITED, blk_size = ucast sz, blk_buf = a\<rparr>])
      (unat (rbb_buf r) + unat (rbb_buf_size r))"
  shows "rbb_holds (blk_place n a sz r) (xs @ [n]) ys"
proof -
  note p = rbb_holds_parts [OF h]
  have t: "last (blk_list # xs) \<notin> set (free_list # ys)"
  proof (cases "xs = []")
    case True
    then show ?thesis using p(4) by fastforce
  next
    case False
    then have "last xs \<in> set xs" by simp
    then have "last xs \<notin> set ys" using p(3) by blast
    then show ?thesis using p(4) [of "last xs"] \<open>last xs \<in> set xs\<close> False by auto
  qed
  have "slist ((rbb_links r)(rbb_tail r := Some n, n := None)) blk_list (xs @ [n])"
    using p(1) schain_snoc [of blk_list xs "rbb_links r" n] n unfolding p(5)
    by (auto simp: slist_def simp del: last.simps)
  moreover have "slist ((rbb_links r)(rbb_tail r := Some n, n := None)) free_list ys"
    using p(2) t n unfolding p(5) by (auto simp: slist_def simp del: last.simps)
  moreover have "map (rbb_blk_set (blk_place n a sz r)) (xs @ [n])
      = map (rbb_blk_set r) xs @ [\<lparr>blk_status = RT_RBB_BLK_INITED, blk_size = ucast sz, blk_buf = a\<rparr>]"
    using n by (auto simp: blk_place_def list_append_def Let_def)
  ultimately show ?thesis using p n l
    by (auto simp: rbb_holds_def blk_place_def list_append_def Let_def)
qed

lemma list_remove_holds:
  assumes h: "rbb_holds r (us @ n # vs) ys"
  shows "\<exists>r'. list_remove n r = Some r' \<and> rbb_blk_set r' = rbb_blk_set r
    \<and> rbb_holds (rbb_set_status n RT_RBB_BLK_UNUSED r') (us @ vs) ys
    \<and> (\<forall>k \<in> set vs. rbb_links r' k = rbb_links r k) \<and> rbb_blk_max_num r' = rbb_blk_max_num r"
proof -
  note p = rbb_holds_parts [OF h]
  have d: "distinct (blk_list # us @ n # vs)" "schain (rbb_links r) blk_list (us @ n # vs)"
    using p(1) by (auto simp: slist_def)
  define pr where "pr = last (blk_list # us)"
  have pn: "rbb_links r pr = Some n" using schain_next [OF d(2)] by (simp add: pr_def)
  have pm: "pr = blk_list \<or> pr \<in> set us"
    using last_in_set [of "blk_list # us"] by (auto simp: pr_def)
  let ?t = "if rbb_tail r = n then pr else rbb_tail r"
  let ?r = "r\<lparr>rbb_links := (rbb_links r)(pr := rbb_links r n, n := None), rbb_tail := ?t\<rparr>"
  have run: "list_remove n r = Some ?r"
    using find_pred_split [OF d(2)] d(1) pn by (auto simp: list_remove_def pr_def)
  have tail: "last (blk_list # us @ vs) = ?t"
  proof (cases "vs = []")
    case True
    then show ?thesis using p(5) by (simp add: pr_def)
  next
    case False
    then have "last vs \<in> set vs" by simp
    then have "last vs \<noteq> n" using d(1) by auto
    then show ?thesis using p(5) False by simp
  qed
  have live: "slist ((rbb_links r)(pr := rbb_links r n, n := None)) blk_list (us @ vs)"
    using schain_drop_mid [OF d] d(1) by (simp add: slist_def pr_def)
  have "pr \<notin> set (free_list # ys)" "n \<notin> set (free_list # ys)" using pm p(3,4) by fastforce+
  then have free: "slist ((rbb_links r)(pr := rbb_links r n, n := None)) free_list ys"
    using p(2) by (auto simp: slist_def)
  have "map (rbb_blk_set (rbb_set_status n RT_RBB_BLK_UNUSED ?r)) (us @ vs) = map (rbb_blk_set r) (us @ vs)"
    using d(1) by auto
  then have lay: "rbb_layout (unat (rbb_buf r)) (map (rbb_blk_set (rbb_set_status n RT_RBB_BLK_UNUSED ?r)) (us @ vs))
      (unat (rbb_buf r) + unat (rbb_buf_size r))"
    using p(8) layout_drop_mid by (metis list.simps(9) map_append)
  have "rbb_holds (rbb_set_status n RT_RBB_BLK_UNUSED ?r) (us @ vs) ys"
    by (rule rbb_holdsI) (use p(3,4,6,7) d(1) tail live free lay in \<open>auto simp del: map_append last.simps\<close>)
  moreover have "pr \<notin> set vs" using pm d(1) by auto
  ultimately show ?thesis using run d(1) by (intro exI [of _ ?r]) auto
qed

lemma rbb_free_ok:
  assumes h: "rbb_holds r (us @ n # vs) ys"
  shows "\<exists>r'. rt_rbb_blk_free n r = Some r' \<and> rbb_holds r' (us @ vs) (n # ys)
    \<and> (\<forall>k. k \<noteq> n \<longrightarrow> rbb_blk_set r' k = rbb_blk_set r k) \<and> (\<forall>k \<in> set vs. rbb_links r' k = rbb_links r k)
    \<and> rbb_blk_max_num r' = rbb_blk_max_num r"
proof -
  note p = rbb_holds_parts [OF h]
  have d: "distinct (us @ n # vs)" using p(1) by (auto simp: slist_def)
  obtain r1 where r1: "list_remove n r = Some r1" "rbb_blk_set r1 = rbb_blk_set r"
    "rbb_holds (rbb_set_status n RT_RBB_BLK_UNUSED r1) (us @ vs) ys"
    "\<And>k. k \<in> set vs \<Longrightarrow> rbb_links r1 k = rbb_links r k" "rbb_blk_max_num r1 = rbb_blk_max_num r"
    using list_remove_holds [OF h] by blast
  let ?r2 = "rbb_set_status n RT_RBB_BLK_UNUSED r1"
  let ?r = "?r2\<lparr>rbb_links := rt_slist_insert free_list n (rbb_links ?r2)\<rparr>"
  note q = rbb_holds_parts [OF r1(3)]
  have n: "2 \<le> n" "n < blk_node (rbb_blk_max_num r)" "n \<notin> set (us @ vs)" "n \<notin> set ys"
    using p(3) p(4) [of n] d by auto
  have f: "free_list \<notin> set (us @ vs)" "free_list \<notin> set vs" using q(4) by fastforce+
  have run: "rt_rbb_blk_free n r = Some ?r"
    using rbb_blk_member [OF h, of n] p(6) [of n] n r1(1) by (simp add: rt_rbb_blk_free_def)
  have "slist (rt_slist_insert free_list n (rbb_links r1)) free_list (n # ys)"
    using q(2) n slist_insert_ok [of "rbb_links r1" free_list ys n] by simp
  moreover have "slist (rt_slist_insert free_list n (rbb_links r1)) blk_list (us @ vs)"
    using q(1) n(1,3) f(1) by (auto simp: slist_def rt_slist_insert_def Let_def)
  ultimately have "rbb_holds ?r (us @ vs) (n # ys)"
    by (intro rbb_holdsI) (use q n r1(5) in \<open>auto simp del: map_append last.simps\<close>)
  moreover have "rbb_links ?r k = rbb_links r k" if "k \<in> set vs" for k
    using r1(4) [OF that] that f(2) n(3) by (auto simp: rt_slist_insert_def Let_def)
  ultimately show ?thesis using run r1(2,5) by (intro exI [of _ ?r]) simp
qed

section \<open>What each operation does\<close>

lemma rbb_put_ok:
  assumes h: "rbb_holds r xs ys" and run: "rt_rbb_blk_put n r = Some r'"
  shows "n \<in> set xs \<and> rbb_holds r' xs ys"
proof -
  have r': "2 \<le> n" "n < blk_node (rbb_blk_max_num r)" "blk_status (rbb_blk_set r n) = RT_RBB_BLK_INITED"
    "r' = rbb_set_status n RT_RBB_BLK_PUT r"
    using run by (auto simp: rt_rbb_blk_put_def rbb_blk_def bind_Some_iff split: if_splits)
  then have "n \<in> set xs" using rbb_holds_parts(6) [OF h, of n] by fastforce
  then show ?thesis using set_status_holds [OF h] r'(4) by simp
qed

lemma blk_get_run:
  "schain (rbb_links r) l zs \<Longrightarrow> (\<And>n. n \<in> set zs \<Longrightarrow> rbb_blk r n = Some (rbb_blk_set r n)) \<Longrightarrow>
   blk_get_loop r (rbb_links r l) = Some (List.find (\<lambda>n. blk_status (rbb_blk_set r n) = RT_RBB_BLK_PUT) zs)"
  by (induction zs arbitrary: l) (simp_all add: blk_get_loop.simps)

lemma rbb_get_ok:
  assumes h: "rbb_holds r xs ys"
  shows "\<exists>r'. rt_rbb_blk_get r = Some (List.find (\<lambda>n. blk_status (rbb_blk_set r n) = RT_RBB_BLK_PUT) xs, r')
    \<and> rbb_holds r' xs ys"
proof -
  have run: "blk_get_loop r (rbb_links r blk_list)
      = Some (List.find (\<lambda>n. blk_status (rbb_blk_set r n) = RT_RBB_BLK_PUT) xs)"
    using rbb_holds_parts(1) [OF h] rbb_blk_member [OF h] by (intro blk_get_run) (auto simp: slist_def)
  show ?thesis
  proof (cases "List.find (\<lambda>n. blk_status (rbb_blk_set r n) = RT_RBB_BLK_PUT) xs")
    case None
    then show ?thesis using run h by (auto simp: rt_rbb_blk_get_def)
  next
    case (Some n)
    then have "n \<in> set xs" by (auto simp: find_Some_iff)
    moreover from this have "rbb_links r blk_list \<noteq> None"
      using rbb_holds_parts(1) [OF h] by (cases xs) (auto simp: slist_def)
    ultimately show ?thesis using run Some set_status_holds [OF h] by (simp add: rt_rbb_blk_get_def)
  qed
qed

text \<open>Whether the buffer has room for sz bytes next to the live blocks bs.\<close>

definition rbb_room :: "nat \<Rightarrow> rt_rbb_blk list \<Rightarrow> nat \<Rightarrow> nat \<Rightarrow> bool" where
  "rbb_room lo bs hi sz \<longleftrightarrow>
     (if bs = [] then lo + sz \<le> hi
      else if blk_start (hd bs) \<le> blk_start (last bs)
      then blk_stop (last bs) + sz \<le> hi \<or> lo + sz \<le> blk_start (hd bs)
      else blk_stop (last bs) + sz \<le> blk_start (hd bs))"

lemma ucast_24: "sz < 2 ^ 24 \<Longrightarrow> unat (ucast sz :: 24 word) = unat sz" for sz :: rt_uint32_t
  by (simp add: unsigned_ucast_eq take_bit_eq_mod word_less_nat_alt)

lemma le_diff_word: "b \<le> a \<Longrightarrow> c \<le> a - b \<longleftrightarrow> unat b + unat c \<le> unat a" for a b c :: rt_uint32_t
  by (auto simp: word_le_nat_alt unat_sub)

lemma blk_end_stop: "blk_stop b < 2 ^ 32 \<Longrightarrow> unat (blk_end b) = blk_stop b"
proof -
  have "blk_len b < 2 ^ 24" using unsigned_less [of "blk_size b", where 'a = nat] by simp
  then have "unat (ucast (blk_size b) :: rt_uint32_t) = blk_len b"
    by (simp add: unsigned_ucast_eq take_bit_eq_mod)
  moreover assume "blk_stop b < 2 ^ 32"
  ultimately show ?thesis by (simp add: blk_end_def unat_word_ariths)
qed

lemma rbb_alloc_ok:
  assumes h: "rbb_holds r xs ys" and sz: "0 < sz" "sz < 2 ^ 24" and fit: "xs = [] \<Longrightarrow> sz \<le> rbb_buf_size r"
  shows "\<exists>r'. case ys of
      [] \<Rightarrow> rt_rbb_blk_alloc sz r = Some (None, r)
    | n # ys' \<Rightarrow>
        if rbb_room (unat (rbb_buf r)) (map (rbb_blk_set r) xs) (unat (rbb_buf r) + unat (rbb_buf_size r)) (unat sz)
        then rt_rbb_blk_alloc sz r = Some (Some n, r') \<and> rbb_holds r' (xs @ [n]) ys'
          \<and> blk_status (rbb_blk_set r' n) = RT_RBB_BLK_INITED \<and> blk_len (rbb_blk_set r' n) = unat sz
          \<and> (\<forall>k. k \<noteq> n \<longrightarrow> rbb_blk_set r' k = rbb_blk_set r k)
        else rt_rbb_blk_alloc sz r = Some (None, r') \<and> rbb_holds r' xs ys'
          \<and> rbb_blk_set r' = rbb_blk_set r"
proof (cases ys)
  case Nil
  then show ?thesis using rbb_find_empty [OF h] sz by (simp add: rt_rbb_blk_alloc_def)
next
  case (Cons n ys')
  obtain links where found: "find_empty_blk_in_set r = Some (Some n, r\<lparr>rbb_links := links\<rparr>)"
    "rbb_holds (r\<lparr>rbb_links := links\<rparr>) xs ys'"
    using rbb_find_empty [OF h] Cons by auto
  let ?r = "r\<lparr>rbb_links := links\<rparr>"
  note p = rbb_holds_parts [OF found(2)]
  define lo hi where "lo = unat (rbb_buf r)" and "hi = unat (rbb_buf r) + unat (rbb_buf_size r)"
  have n: "2 \<le> n" "n < blk_node (rbb_blk_max_num ?r)" "n \<notin> set xs" "n \<notin> set ys'"
    using rbb_holds_parts(2,3) [OF h] rbb_holds_parts(4) [OF h, of n] Cons by (auto simp: slist_def)
  let ?b = "\<lambda>a. \<lparr>blk_status = RT_RBB_BLK_INITED, blk_size = ucast sz, blk_buf = a\<rparr>"
  have b: "blk_len (?b a) = unat sz" "0 < unat sz" for a
    using ucast_24 [OF sz(2)] sz(1) by (simp_all add: word_less_nat_alt)
  have placed: "rbb_holds (blk_place n a sz ?r) (xs @ [n]) ys'
      \<and> blk_status (rbb_blk_set (blk_place n a sz ?r) n) = RT_RBB_BLK_INITED
      \<and> blk_len (rbb_blk_set (blk_place n a sz ?r) n) = unat sz
      \<and> (\<forall>k. k \<noteq> n \<longrightarrow> rbb_blk_set (blk_place n a sz ?r) k = rbb_blk_set r k)"
    if "rbb_layout lo (map (rbb_blk_set r) xs @ [?b a]) hi" for a
    using blk_place_holds [OF found(2) n, of sz a] that b(1)
    by (simp add: lo_def hi_def blk_place_def list_append_def Let_def)
  show ?thesis
  proof (cases xs)
    case Nil
    then have "blks_between lo [?b (rbb_buf r)] hi"
      using fit b by (simp add: lo_def hi_def word_le_nat_alt)
    then have "rbb_layout lo (map (rbb_blk_set r) xs @ [?b (rbb_buf r)]) hi"
      using Nil layout_between by simp
    then show ?thesis
      using placed found(1) sz Cons Nil fit p(1)
      by (auto simp: rt_rbb_blk_alloc_def rbb_room_def slist_def word_le_nat_alt)
  next
    case live: (Cons x zs)
    let ?bs = "map (rbb_blk_set r) xs"
    let ?h = "rbb_blk_set r (hd xs)" and ?t = "rbb_blk_set r (last xs)"
    have bs: "?bs \<noteq> []" "hd ?bs = ?h" "last ?bs = ?t" using live by (simp_all add: last_map)
    have lay: "rbb_layout lo ?bs hi" using p(8) by (simp add: lo_def hi_def)
    have ends: "lo \<le> blk_start ?h" "blk_stop ?t \<le> hi" "blk_start ?h \<le> hi" "hi < 2 ^ 32"
      using layout_in [OF lay, of ?h] layout_in [OF lay, of ?t] live p(7) by (auto simp: hi_def)
    have e: "unat (rbb_buf r + rbb_buf_size r) = hi" "unat (blk_end ?t) = blk_stop ?t"
      using ends blk_end_stop [of ?t] by (simp_all add: hi_def unat_word_ariths)
    have cmp: "sz \<le> rbb_buf r + rbb_buf_size r - blk_end ?t \<longleftrightarrow> blk_stop ?t + unat sz \<le> hi"
      "sz \<le> blk_buf ?h - rbb_buf r \<longleftrightarrow> lo + unat sz \<le> blk_start ?h"
      using le_diff_word [of "blk_end ?t" "rbb_buf r + rbb_buf_size r" sz] e ends
        le_diff_word [of "rbb_buf r" "blk_buf ?h" sz] by (simp_all add: word_le_nat_alt lo_def)
    have first: "rbb_links ?r blk_list = Some (hd xs)" using p(1) live by (simp add: slist_def)
    have blks: "rbb_blk ?r (hd xs) = Some ?h" "rbb_blk ?r (rbb_tail ?r) = Some ?t"
      using rbb_blk_member [OF found(2), of "hd xs"] rbb_blk_member [OF found(2), of "last xs"] p(5) live by simp_all
    have step: "rt_rbb_blk_alloc sz r = Some (if blk_buf ?h \<le> blk_buf ?t
          then if sz \<le> rbb_buf r + rbb_buf_size r - blk_end ?t then (Some n, blk_place n (blk_end ?t) sz ?r)
            else if sz \<le> blk_buf ?h - rbb_buf r then (Some n, blk_place n (rbb_buf r) sz ?r) else (None, ?r)
          else if sz \<le> blk_buf ?h - blk_end ?t then (Some n, blk_place n (blk_end ?t) sz ?r) else (None, ?r))"
      using first blks sz(2) by (simp add: rt_rbb_blk_alloc_def found(1) Let_def)
    have "lo + unat (rbb_buf_size r) = hi" by (simp add: lo_def hi_def)
    note names = lo_def [symmetric] this
    show ?thesis
    proof (cases "blk_start ?h \<le> blk_start ?t")
      case True
      let ?a = "if blk_stop ?t + unat sz \<le> hi then blk_end ?t else rbb_buf r"
      have room: "rbb_room lo ?bs hi (unat sz) \<longleftrightarrow> blk_stop ?t + unat sz \<le> hi \<or> lo + unat sz \<le> blk_start ?h"
        using True bs by (simp add: rbb_room_def)
      have run: "rt_rbb_blk_alloc sz r
          = Some (if rbb_room lo ?bs hi (unat sz) then (Some n, blk_place n ?a sz ?r) else (None, ?r))"
        unfolding step cmp room using True by (simp add: word_le_nat_alt)
      have "rbb_layout lo (?bs @ [?b ?a]) hi" if "rbb_room lo ?bs hi (unat sz)"
      proof (cases "blk_stop ?t + unat sz \<le> hi")
        case t: True
        then show ?thesis
          using layout_after_tail [OF lay bs(1), of "?b (blk_end ?t)"] b e True bs by simp
      next
        case False
        then show ?thesis
          using layout_at_start [OF lay bs(1), of "?b (rbb_buf r)"] b True that room bs by (simp add: lo_def)
      qed
      then show ?thesis using placed [of ?a] found(2) Cons
        by (cases "rbb_room lo ?bs hi (unat sz)") (simp_all only: run names list.case if_True if_False, auto)
    next
      case False
      obtain as cs where w: "?bs = as @ cs" "cs \<noteq> []" "blks_between lo cs (blk_start ?h)"
        using layout_parts [OF lay bs(1)] False bs by auto
      then have "?t \<in> set cs" using bs(3) by (metis last_appendR last_in_set)
      then have "blk_stop ?t \<le> blk_start ?h" using blks_between_in [OF w(3)] by simp
      then have c: "sz \<le> blk_buf ?h - blk_end ?t \<longleftrightarrow> blk_stop ?t + unat sz \<le> blk_start ?h"
        using le_diff_word [of "blk_end ?t" "blk_buf ?h" sz] e by (simp add: word_le_nat_alt)
      have room: "rbb_room lo ?bs hi (unat sz) \<longleftrightarrow> blk_stop ?t + unat sz \<le> blk_start ?h"
        using False bs by (simp add: rbb_room_def)
      have run: "rt_rbb_blk_alloc sz r
          = Some (if rbb_room lo ?bs hi (unat sz) then (Some n, blk_place n (blk_end ?t) sz ?r) else (None, ?r))"
        unfolding step c room using False by (simp add: word_le_nat_alt)
      have "rbb_layout lo (?bs @ [?b (blk_end ?t)]) hi" if "rbb_room lo ?bs hi (unat sz)"
        using layout_after_tail [OF lay bs(1), of "?b (blk_end ?t)"] b e False that room bs by simp
      then show ?thesis using placed [of "blk_end ?t"] found(2) Cons
        by (cases "rbb_room lo ?bs hi (unat sz)") (simp_all only: run names list.case if_True if_False, auto)
    qed
  qed
qed

section \<open>The next block queue\<close>

definition rbb_sizes :: "rt_rbb \<Rightarrow> nat list \<Rightarrow> rt_uint32_t" where
  "rbb_sizes r ns = sum_list (map (\<lambda>n. ucast (blk_size (rbb_blk_set r n))) ns)"

definition blks_got :: "nat list \<Rightarrow> rt_rbb \<Rightarrow> rt_rbb" where
  "blks_got = fold (\<lambda>n. rbb_set_status n RT_RBB_BLK_GET)"

text \<open>The blocks that go on with the queue whose last block is l and that has t bytes.\<close>

fun queue_run :: "rt_rbb \<Rightarrow> rt_uint32_t \<Rightarrow> nat \<Rightarrow> rt_uint32_t \<Rightarrow> nat list \<Rightarrow> nat list" where
  "queue_run r len l t [] = []"
| "queue_run r len l t (n # ns) =
     (if blk_status (rbb_blk_set r n) \<noteq> RT_RBB_BLK_PUT \<or> blk_buf (rbb_blk_set r l) > blk_buf (rbb_blk_set r n)
        \<or> t + ucast (blk_size (rbb_blk_set r n)) > len
      then [] else n # queue_run r len n (t + ucast (blk_size (rbb_blk_set r n))) ns)"

fun queue_from :: "rt_rbb \<Rightarrow> rt_uint32_t \<Rightarrow> nat list \<Rightarrow> nat list" where
  "queue_from r len [] = []"
| "queue_from r len (n # ns) =
     (if blk_status (rbb_blk_set r n) = RT_RBB_BLK_PUT
      then n # queue_run r len n (ucast (blk_size (rbb_blk_set r n))) ns else queue_from r len ns)"

definition queue_of :: "nat list \<Rightarrow> rt_rbb_blk_queue \<Rightarrow> rt_rbb_blk_queue" where
  "queue_of qs q = (case qs of [] \<Rightarrow> q | n # _ \<Rightarrow> q\<lparr>blkq_blocks := Some n, blkq_num := length qs\<rparr>)"

lemma queue_run_set_status:
  "n \<notin> set ns \<Longrightarrow> queue_run (rbb_set_status n st r) len l t ns = queue_run r len l t ns"
  by (induction ns arbitrary: l t) auto

lemma next_of_set_status [simp]: "next_of at0 (rbb_set_status n st r) = next_of at0 r"
  by (auto simp: next_of_def fun_eq_iff split: option.split)

lemma rbb_sizes_set_status [simp]: "rbb_sizes (rbb_set_status n st r) ns = rbb_sizes r ns"
  by (auto simp: rbb_sizes_def intro!: arg_cong [of _ _ sum_list])

lemma rbb_sizes_simps [simp]:
  "rbb_sizes r [] = 0" "rbb_sizes r (n # ns) = ucast (blk_size (rbb_blk_set r n)) + rbb_sizes r ns"
  by (simp_all add: rbb_sizes_def)

lemma queue_loop_run:
  assumes "schain (rbb_links r) p ns" "distinct ns"
    "\<And>n. n \<in> set (l # ns) \<Longrightarrow> rbb_blk r n = Some (rbb_blk_set r n)"
  shows "blk_queue_get_loop at0 len (rbb_links r p) (next_of at0 r (rbb_links r p)) (Some l) t q r
    = Some (t + rbb_sizes r (queue_run r len l t ns),
        q\<lparr>blkq_num := blkq_num q + length (queue_run r len l t ns)\<rparr>, blks_got (queue_run r len l t ns) r)"
  using assms
proof (induction ns arbitrary: p l t q r)
  case Nil
  then show ?case by (simp add: blk_queue_get_loop.simps blks_got_def)
next
  case (Cons n ns)
  let ?r = "rbb_set_status n RT_RBB_BLK_GET r" and ?t = "t + ucast (blk_size (rbb_blk_set r n))"
  have b: "rbb_blk r n = Some (rbb_blk_set r n)" "rbb_blk r l = Some (rbb_blk_set r l)" using Cons.prems(3) by simp_all
  have k: "rbb_links r p = Some n" "next_of at0 r (Some n) = rbb_links r n" using Cons.prems(1) by (simp_all add: next_of_def)
  have n: "n \<notin> set ns" using Cons.prems(2) by simp
  have "blk_queue_get_loop at0 len (rbb_links ?r n) (next_of at0 ?r (rbb_links ?r n)) (Some n) ?t
      (q\<lparr>blkq_num := blkq_num q + 1\<rparr>) ?r
    = Some (?t + rbb_sizes ?r (queue_run ?r len n ?t ns),
        (q\<lparr>blkq_num := blkq_num q + 1\<rparr>)\<lparr>blkq_num := blkq_num (q\<lparr>blkq_num := blkq_num q + 1\<rparr>)
           + length (queue_run ?r len n ?t ns)\<rparr>, blks_got (queue_run ?r len n ?t ns) ?r)"
    using Cons.prems n by (intro Cons.IH) auto
  then show ?case unfolding k
    by (subst blk_queue_get_loop.simps) (simp add: b k queue_run_set_status [OF n] blks_got_def)
qed

lemma queue_loop_from:
  assumes "schain (rbb_links r) p ns" "distinct ns"
    "\<And>n. n \<in> set ns \<Longrightarrow> rbb_blk r n = Some (rbb_blk_set r n)"
  shows "blk_queue_get_loop at0 len (rbb_links r p) (next_of at0 r (rbb_links r p)) None 0 q r
    = Some (rbb_sizes r (queue_from r len ns), queue_of (queue_from r len ns) q, blks_got (queue_from r len ns) r)"
  using assms
proof (induction ns arbitrary: p)
  case Nil
  then show ?case by (simp add: blk_queue_get_loop.simps blks_got_def queue_of_def)
next
  case (Cons n ns)
  let ?r = "rbb_set_status n RT_RBB_BLK_GET r" and ?t = "ucast (blk_size (rbb_blk_set r n)) :: rt_uint32_t"
  let ?q = "q\<lparr>blkq_blocks := Some n, blkq_num := 1\<rparr>"
  have b: "rbb_blk r n = Some (rbb_blk_set r n)" using Cons.prems(3) by simp
  have k: "rbb_links r p = Some n" "next_of at0 r (Some n) = rbb_links r n" using Cons.prems(1) by (simp_all add: next_of_def)
  have n: "n \<notin> set ns" using Cons.prems(2) by simp
  show ?case
  proof (cases "blk_status (rbb_blk_set r n) = RT_RBB_BLK_PUT")
    case True
    have "blk_queue_get_loop at0 len (rbb_links ?r n) (next_of at0 ?r (rbb_links ?r n)) (Some n) ?t ?q ?r
      = Some (?t + rbb_sizes ?r (queue_run ?r len n ?t ns),
          ?q\<lparr>blkq_num := blkq_num ?q + length (queue_run ?r len n ?t ns)\<rparr>, blks_got (queue_run ?r len n ?t ns) ?r)"
      using Cons.prems n by (intro queue_loop_run) auto
    then show ?thesis unfolding k using True
      by (subst blk_queue_get_loop.simps) (simp add: b k queue_run_set_status [OF n] blks_got_def queue_of_def)
  next
    case False
    then show ?thesis unfolding k using Cons
      by (subst blk_queue_get_loop.simps) (simp add: b k)
  qed
qed

lemma next_len_run:
  "schain (rbb_links r) p ns \<Longrightarrow> (\<And>n. n \<in> set (l # ns) \<Longrightarrow> rbb_blk r n = Some (rbb_blk_set r n)) \<Longrightarrow>
   next_blk_queue_len_loop r (rbb_links r p) (Some l) t = Some (t + rbb_sizes r (queue_run r (- 1) l t ns))"
proof (induction ns arbitrary: p l t)
  case Nil
  then show ?case by (simp add: next_blk_queue_len_loop.simps)
next
  case (Cons n ns)
  have b: "rbb_blk r n = Some (rbb_blk_set r n)" "rbb_blk r l = Some (rbb_blk_set r l)" using Cons.prems(2) by simp_all
  have le: "\<not> v > - 1" for v :: rt_uint32_t by (simp add: not_less)
  have "next_blk_queue_len_loop r (rbb_links r n) (Some n) (t + ucast (blk_size (rbb_blk_set r n)))
    = Some (t + ucast (blk_size (rbb_blk_set r n))
        + rbb_sizes r (queue_run r (- 1) n (t + ucast (blk_size (rbb_blk_set r n))) ns))"
    using Cons.prems by (intro Cons.IH) auto
  then show ?case using Cons.prems(1)
    by (subst next_blk_queue_len_loop.simps) (simp add: b le add.assoc)
qed

lemma next_len_from:
  "schain (rbb_links r) p ns \<Longrightarrow> (\<And>n. n \<in> set ns \<Longrightarrow> rbb_blk r n = Some (rbb_blk_set r n)) \<Longrightarrow>
   next_blk_queue_len_loop r (rbb_links r p) None 0 = Some (rbb_sizes r (queue_from r (- 1) ns))"
proof (induction ns arbitrary: p)
  case Nil
  then show ?case by (simp add: next_blk_queue_len_loop.simps)
next
  case (Cons n ns)
  have b: "rbb_blk r n = Some (rbb_blk_set r n)" using Cons.prems(2) by simp
  show ?case
  proof (cases "blk_status (rbb_blk_set r n) = RT_RBB_BLK_PUT")
    case True
    have "next_blk_queue_len_loop r (rbb_links r n) (Some n) (0 + ucast (blk_size (rbb_blk_set r n)))
      = Some (0 + ucast (blk_size (rbb_blk_set r n))
          + rbb_sizes r (queue_run r (- 1) n (0 + ucast (blk_size (rbb_blk_set r n))) ns))"
      using Cons.prems by (intro next_len_run) auto
    then show ?thesis using Cons.prems(1) True by (subst next_blk_queue_len_loop.simps) (simp add: b)
  next
    case False
    then show ?thesis using Cons by (subst next_blk_queue_len_loop.simps) (simp add: b)
  qed
qed

section \<open>What a block queue is\<close>

abbreviation blk_total :: "rt_rbb \<Rightarrow> nat list \<Rightarrow> nat" where
  "blk_total r ns \<equiv> sum_list (map (\<lambda>n. blk_len (rbb_blk_set r n)) ns)"

text \<open>
  Among the live blocks xs, qs is the next queue of at most len bytes: pre comes before the first
  block that was put, the blocks of qs were put and go up in memory, and post starts with a block
  that cannot be added.  A first block may be larger than len.
\<close>

definition rbb_queue :: "rt_rbb \<Rightarrow> nat \<Rightarrow> nat list \<Rightarrow> nat list \<Rightarrow> nat list \<Rightarrow> nat list \<Rightarrow> bool" where
  "rbb_queue r len xs pre qs post \<longleftrightarrow>
     xs = pre @ qs @ post
     \<and> (\<forall>n \<in> set pre. blk_status (rbb_blk_set r n) \<noteq> RT_RBB_BLK_PUT)
     \<and> (\<forall>n \<in> set qs. blk_status (rbb_blk_set r n) = RT_RBB_BLK_PUT)
     \<and> sorted (map (\<lambda>n. blk_start (rbb_blk_set r n)) qs)
     \<and> (1 < length qs \<longrightarrow> blk_total r qs \<le> len)
     \<and> (qs = [] \<longrightarrow> post = [])
     \<and> (qs \<noteq> [] \<and> post \<noteq> [] \<longrightarrow>
          blk_status (rbb_blk_set r (hd post)) \<noteq> RT_RBB_BLK_PUT
          \<or> blk_start (rbb_blk_set r (hd post)) < blk_start (rbb_blk_set r (last qs))
          \<or> len < blk_total r qs + blk_len (rbb_blk_set r (hd post)))"

lemma rbb_queue_subset: "rbb_queue r len xs pre qs post \<Longrightarrow> set qs \<subseteq> set xs"
proof -
  assume "rbb_queue r len xs pre qs post"
  then have "xs = pre @ qs @ post" by (simp add: rbb_queue_def)
  then show "set qs \<subseteq> set xs" by simp blast
qed

lemma layout_sum:
  assumes "rbb_layout lo bs hi" "lo \<le> hi"
  shows "lo + sum_list (map blk_len bs) \<le> hi"
proof -
  obtain as cs where l: "bs = as @ cs" "blks_between lo as hi"
    "cs \<noteq> [] \<Longrightarrow> as \<noteq> [] \<and> blks_between lo cs (blk_start (hd as))"
    using assms(1) by (auto simp: rbb_layout_def)
  show ?thesis
  proof (cases "cs = []")
    case True
    then show ?thesis using blks_between_sum [OF l(2)] l(1) by simp
  next
    case False
    then have c: "as \<noteq> []" "lo + sum_list (map blk_len cs) \<le> blk_start (hd as)"
      using l(3) blks_between_sum by simp_all
    then have "blks_between (blk_start (hd as)) as hi" using l(2) by (cases as) simp_all
    then show ?thesis using blks_between_sum c l(1) by fastforce
  qed
qed

lemma unat_blk_size: "unat (ucast (blk_size b) :: rt_uint32_t) = blk_len b"
proof -
  have "blk_len b < 2 ^ 24" using unsigned_less [of "blk_size b", where 'a = nat] by simp
  then show ?thesis by (simp add: unsigned_ucast_eq take_bit_eq_mod)
qed

lemma unat_rbb_sizes: "blk_total r ns < 2 ^ 32 \<Longrightarrow> unat (rbb_sizes r ns) = blk_total r ns"
  by (induction ns) (simp_all add: unat_word_ariths unat_blk_size)

lemma queue_run_spec:
  assumes "unat t + blk_total r ns < 2 ^ 32"
  shows "\<exists>post. ns = queue_run r len l t ns @ post
    \<and> (\<forall>n \<in> set (queue_run r len l t ns). blk_status (rbb_blk_set r n) = RT_RBB_BLK_PUT)
    \<and> sorted (map (\<lambda>n. blk_start (rbb_blk_set r n)) (l # queue_run r len l t ns))
    \<and> (queue_run r len l t ns \<noteq> [] \<longrightarrow> unat t + blk_total r (queue_run r len l t ns) \<le> unat len)
    \<and> (post \<noteq> [] \<longrightarrow> blk_status (rbb_blk_set r (hd post)) \<noteq> RT_RBB_BLK_PUT
        \<or> blk_start (rbb_blk_set r (hd post)) < blk_start (rbb_blk_set r (last (l # queue_run r len l t ns)))
        \<or> unat len < unat t + blk_total r (queue_run r len l t ns) + blk_len (rbb_blk_set r (hd post)))"
  using assms
proof (induction ns arbitrary: l t)
  case (Cons n ns)
  let ?t = "t + ucast (blk_size (rbb_blk_set r n))"
  have t: "unat ?t = unat t + blk_len (rbb_blk_set r n)"
    using Cons.prems by (simp add: unat_word_ariths unat_blk_size)
  show ?case
  proof (cases "queue_run r len l t (n # ns) = []")
    case True
    then show ?thesis using t by (auto simp: word_less_nat_alt split: if_splits)
  next
    case False
    then have go: "queue_run r len l t (n # ns) = n # queue_run r len n ?t ns"
      "blk_status (rbb_blk_set r n) = RT_RBB_BLK_PUT" "blk_start (rbb_blk_set r l) \<le> blk_start (rbb_blk_set r n)"
      "unat t + blk_len (rbb_blk_set r n) \<le> unat len"
      using t by (auto simp: word_less_nat_alt not_less split: if_splits)
    obtain post where p: "ns = queue_run r len n ?t ns @ post"
      "\<forall>n \<in> set (queue_run r len n ?t ns). blk_status (rbb_blk_set r n) = RT_RBB_BLK_PUT"
      "sorted (map (\<lambda>n. blk_start (rbb_blk_set r n)) (n # queue_run r len n ?t ns))"
      "queue_run r len n ?t ns \<noteq> [] \<longrightarrow> unat ?t + blk_total r (queue_run r len n ?t ns) \<le> unat len"
      "post \<noteq> [] \<longrightarrow> blk_status (rbb_blk_set r (hd post)) \<noteq> RT_RBB_BLK_PUT
        \<or> blk_start (rbb_blk_set r (hd post)) < blk_start (rbb_blk_set r (last (n # queue_run r len n ?t ns)))
        \<or> unat len < unat ?t + blk_total r (queue_run r len n ?t ns) + blk_len (rbb_blk_set r (hd post))"
      using Cons.IH [of ?t n] Cons.prems t by auto
    have "sorted (map (\<lambda>n. blk_start (rbb_blk_set r n)) (l # n # queue_run r len n ?t ns))"
      using p(3) go(3) by auto
    moreover have "unat t + blk_total r (n # queue_run r len n ?t ns) \<le> unat len"
      using p(4) go(4) t by (cases "queue_run r len n ?t ns = []") auto
    ultimately show ?thesis unfolding go(1) using p go(2) t
      by (intro exI [of _ post]) (auto simp: add.assoc)
  qed
qed simp

lemma queue_from_spec:
  "blk_total r ns < 2 ^ 32 \<Longrightarrow> \<exists>pre post. rbb_queue r (unat len) ns pre (queue_from r len ns) post"
proof (induction ns)
  case Nil
  then show ?case by (simp add: rbb_queue_def)
next
  case (Cons n ns)
  show ?case
  proof (cases "blk_status (rbb_blk_set r n) = RT_RBB_BLK_PUT")
    case True
    have "unat (ucast (blk_size (rbb_blk_set r n)) :: rt_uint32_t) + blk_total r ns < 2 ^ 32"
      using Cons.prems by (simp add: unat_blk_size)
    from queue_run_spec [OF this, of len n] obtain post where
      "ns = queue_run r len n (ucast (blk_size (rbb_blk_set r n))) ns @ post
        \<and> rbb_queue r (unat len) (n # ns) [] (n # queue_run r len n (ucast (blk_size (rbb_blk_set r n))) ns) post"
      unfolding rbb_queue_def using True by (elim exE) (auto simp: unat_blk_size)
    then show ?thesis using True by auto
  next
    case False
    obtain pre post where "rbb_queue r (unat len) ns pre (queue_from r len ns) post" using Cons by auto
    then have "rbb_queue r (unat len) (n # ns) (n # pre) (queue_from r len ns) post"
      using False by (auto simp: rbb_queue_def)
    then show ?thesis using False by auto
  qed
qed

text \<open>The blocks of a queue follow each other in memory, all inside the buffer.\<close>

lemma rbb_queue_between:
  assumes h: "rbb_holds r xs ys" and q: "rbb_queue r len xs pre qs post"
  shows "blks_between (unat (rbb_buf r)) (map (rbb_blk_set r) qs) (unat (rbb_buf r) + unat (rbb_buf_size r))"
proof (intro blks_between_ascending)
  note lay = rbb_holds_parts(8) [OF h]
  have xs: "xs = pre @ qs @ post" using q by (simp add: rbb_queue_def)
  show "sorted_wrt blks_apart (map (rbb_blk_set r) qs)"
    using layout_apart [OF lay] by (simp add: xs sorted_wrt_append)
  show "sorted (map blk_start (map (rbb_blk_set r) qs))" using q by (simp add: rbb_queue_def comp_def)
  show "unat (rbb_buf r) \<le> blk_start b \<and> 0 < blk_len b \<and> blk_stop b \<le> unat (rbb_buf r) + unat (rbb_buf_size r)"
    if "b \<in> set (map (rbb_blk_set r) qs)" for b
    using layout_in [OF lay, of b] that by (auto simp: xs)
qed simp

lemma live_total:
  assumes h: "rbb_holds r xs ys"
  shows "blk_total r xs \<le> unat (rbb_buf_size r)" "blk_total r xs < 2 ^ 32"
proof -
  show "blk_total r xs \<le> unat (rbb_buf_size r)"
    using layout_sum [OF rbb_holds_parts(8) [OF h]] by (simp add: comp_def)
  then show "blk_total r xs < 2 ^ 32" using rbb_holds_parts(7) [OF h] by linarith
qed

lemma queue_len_run:
  "schain (rbb_links r) p (qs @ vs) \<Longrightarrow> (\<And>n. n \<in> set qs \<Longrightarrow> rbb_blk r n = Some (rbb_blk_set r n)) \<Longrightarrow>
   blk_queue_len_loop r (length qs) (rbb_links r p) t = Some (t + rbb_sizes r qs)"
  by (induction qs arbitrary: p t) (simp_all add: add.assoc)

lemma queue_free_run:
  "rbb_holds r (us @ qs @ vs) ys \<Longrightarrow> (qs \<noteq> [] \<Longrightarrow> blk = Some (hd qs)) \<Longrightarrow>
   \<exists>r'. blk_queue_free_loop (length qs) blk r = Some r' \<and> rbb_holds r' (us @ vs) (rev qs @ ys)"
proof (induction qs arbitrary: r ys blk)
  case (Cons n qs)
  obtain r1 where r1: "rt_rbb_blk_free n r = Some r1" "rbb_holds r1 (us @ qs @ vs) (n # ys)"
    using rbb_free_ok [of r us n "qs @ vs" ys] Cons.prems(1) by auto
  have "schain (rbb_links r) n (qs @ vs)"
    using rbb_holds_parts(1) [OF Cons.prems(1)] schain_next [of "rbb_links r" blk_list us n "qs @ vs"]
    by (simp add: slist_def)
  then have "qs \<noteq> [] \<Longrightarrow> rbb_links r n = Some (hd qs)" by (cases qs) auto
  then obtain r' where "blk_queue_free_loop (length qs) (rbb_links r n) r1 = Some r'"
      "rbb_holds r' (us @ vs) (rev qs @ n # ys)"
    using Cons.IH [OF r1(2), of "rbb_links r n"] by blast
  then show ?case using rbb_blk_member [OF Cons.prems(1), of n] Cons.prems(2) r1(1) by simp
qed simp

lemma blks_got_holds:
  "rbb_holds r xs ys \<Longrightarrow> set qs \<subseteq> set xs \<Longrightarrow> rbb_holds (blks_got qs r) xs ys \<and> rbb_links (blks_got qs r) = rbb_links r
     \<and> rbb_sizes (blks_got qs r) ns = rbb_sizes r ns"
proof (induction qs arbitrary: r)
  case (Cons n qs)
  have "rbb_holds (rbb_set_status n RT_RBB_BLK_GET r) xs ys" using Cons.prems by (intro set_status_holds) auto
  then show ?case using Cons.IH [of "rbb_set_status n RT_RBB_BLK_GET r"] Cons.prems by (simp add: blks_got_def)
qed (simp add: blks_got_def)

lemma blks_got_set:
  "rbb_blk_set (blks_got qs r) k
    = (if k \<in> set qs then (rbb_blk_set r k)\<lparr>blk_status := RT_RBB_BLK_GET\<rparr> else rbb_blk_set r k)"
  by (induction qs arbitrary: r) (auto simp: blks_got_def)

lemma queue_get_run:
  assumes h: "rbb_holds r xs ys"
  shows "rt_rbb_blk_queue_get at0 len q r
    = Some (rbb_sizes r (queue_from r len xs), queue_of (queue_from r len xs) q, blks_got (queue_from r len xs) r)"
proof -
  note p = rbb_holds_parts(1) [OF h]
  have "blk_queue_get_loop at0 len (rbb_links r blk_list) (next_of at0 r (rbb_links r blk_list)) None 0 q r
    = Some (rbb_sizes r (queue_from r len xs), queue_of (queue_from r len xs) q, blks_got (queue_from r len xs) r)"
    using p rbb_blk_member [OF h] by (intro queue_loop_from) (auto simp: slist_def)
  then show ?thesis
    using p by (cases xs) (auto simp: rt_rbb_blk_queue_get_def next_of_def slist_def queue_of_def blks_got_def)
qed

lemma rbb_init_holds:
  assumes "unat buf + unat buf_size < 2 ^ 32"
  shows "rbb_holds (rt_rbb_init buf buf_size blk_max_num r) [] (rev (map blk_node [0 ..< blk_max_num]))"
proof -
  define f where "f = (\<lambda>r i. let r' = rbb_set_status (blk_node i) RT_RBB_BLK_UNUSED r
    in r'\<lparr>rbb_links := rt_slist_insert free_list (blk_node i) (rt_slist_init (blk_node i) (rbb_links r'))\<rparr>)"
  define r1 where "r1 = r\<lparr>rbb_buf := buf, rbb_buf_size := buf_size, rbb_blk_max_num := blk_max_num,
    rbb_tail := blk_list, rbb_links := rt_slist_init free_list (rt_slist_init blk_list (rbb_links r))\<rparr>"
  have "slist (rbb_links (foldl f r1 [0 ..< k])) free_list (rev (map blk_node [0 ..< k]))
    \<and> slist (rbb_links (foldl f r1 [0 ..< k])) blk_list []
    \<and> rbb_buf (foldl f r1 [0 ..< k]) = buf \<and> rbb_buf_size (foldl f r1 [0 ..< k]) = buf_size
    \<and> rbb_blk_max_num (foldl f r1 [0 ..< k]) = blk_max_num \<and> rbb_tail (foldl f r1 [0 ..< k]) = blk_list
    \<and> (\<forall>n \<in> {2 ..< blk_node k}. blk_status (rbb_blk_set (foldl f r1 [0 ..< k]) n) = RT_RBB_BLK_UNUSED)" for k
  proof (induction k)
    case 0
    then show ?case by (simp add: r1_def rt_slist_init_def slist_def)
  next
    case (Suc k)
    let ?r = "foldl f r1 [0 ..< k]"
    have n: "blk_node k \<notin> set (free_list # rev (map blk_node [0 ..< k]))" by auto
    have "slist (rt_slist_init (blk_node k) (rbb_links ?r)) free_list (rev (map blk_node [0 ..< k]))"
      using Suc n by (auto simp: slist_def rt_slist_init_def)
    from slist_insert_ok [OF this n] have "slist (rbb_links (f ?r k)) free_list (blk_node k # rev (map blk_node [0 ..< k]))"
      by (simp add: f_def Let_def)
    moreover have "slist (rbb_links (f ?r k)) blk_list []"
      using Suc by (simp add: f_def Let_def slist_def rt_slist_insert_def rt_slist_init_def)
    ultimately show ?case using Suc by (auto simp: f_def Let_def less_Suc_eq)
  qed
  note k = this [of blk_max_num]
  have "rt_rbb_init buf buf_size blk_max_num r = foldl f r1 [0 ..< blk_max_num]"
    by (simp only: rt_rbb_init_def r1_def f_def Let_def)
  then show ?thesis using k assms by (auto simp: rbb_holds_def rbb_layout_def)
qed


section \<open>Histories\<close>

datatype rbb_op =
    Alloc rt_uint32_t
  | Put nat
  | Get
  | Free nat
  | Queue_get rt_uint32_t rt_rbb_blk_queue
  | Queue_free rt_rbb_blk_queue

text \<open>
  One call; at0 is what \<open>next_of\<close> reads of a NULL node.  \<open>rbb_op_ok\<close>: the callers ask for at least a
  byte and for no more than the whole buffer, which the code does not check.
\<close>

definition rbb_step :: "nat option \<Rightarrow> rbb_op \<Rightarrow> rt_rbb \<Rightarrow> rt_rbb option" where
  "rbb_step at0 oper r =
     (case oper of
        Alloc sz \<Rightarrow> map_option snd (rt_rbb_blk_alloc sz r)
      | Put n \<Rightarrow> rt_rbb_blk_put n r
      | Get \<Rightarrow> map_option snd (rt_rbb_blk_get r)
      | Free n \<Rightarrow> rt_rbb_blk_free n r
      | Queue_get len q \<Rightarrow> map_option (snd \<circ> snd) (rt_rbb_blk_queue_get at0 len q r)
      | Queue_free q \<Rightarrow> rt_rbb_blk_queue_free q r)"

definition rbb_op_ok :: "rbb_op \<Rightarrow> rt_rbb \<Rightarrow> bool" where
  "rbb_op_ok oper r = (case oper of Alloc sz \<Rightarrow> 0 < sz \<and> sz \<le> rbb_buf_size r | _ \<Rightarrow> True)"

inductive rbb_reach :: "rt_rbb \<Rightarrow> rt_rbb \<Rightarrow> bool" for r0 where
  rbb_start: "rbb_reach r0 r0"
| rbb_call: "rbb_reach r0 r \<Longrightarrow> rbb_op_ok oper r \<Longrightarrow> rbb_step at0 oper r = Some r' \<Longrightarrow> rbb_reach r0 r'"

lemma rbb_free_any:
  assumes h: "rbb_holds r xs ys" and run: "rt_rbb_blk_free n r = Some r'"
  shows "\<exists>xs ys. rbb_holds r' xs ys"
proof -
  have "2 \<le> n" "n < blk_node (rbb_blk_max_num r)" "blk_status (rbb_blk_set r n) \<noteq> RT_RBB_BLK_UNUSED"
    using run by (auto simp: rt_rbb_blk_free_def rbb_blk_def bind_Some_iff split: if_splits)
  then have "n \<in> set xs" using rbb_holds_parts(6) [OF h, of n] by simp
  then obtain us vs where "xs = us @ n # vs" by (auto dest: split_list)
  then show ?thesis using rbb_free_ok [of r us n vs ys] h run by auto
qed

lemma rbb_queue_free_any:
  "rbb_holds r xs ys \<Longrightarrow> blk_queue_free_loop k blk r = Some r' \<Longrightarrow> \<exists>xs ys. rbb_holds r' xs ys"
proof (induction k arbitrary: blk r xs ys)
  case (Suc k)
  obtain n r1 where r1: "rt_rbb_blk_free n r = Some r1" "blk_queue_free_loop k (rbb_links r n) r1 = Some r'"
    using Suc.prems(2) by (auto simp: bind_Some_iff)
  obtain us vs where "rbb_holds r1 us vs" using rbb_free_any [OF Suc.prems(1) r1(1)] by blast
  then show ?case using Suc.IH r1(2) by blast
qed auto

lemma rbb_step_holds:
  assumes h: "rbb_holds r xs ys" and ok: "rbb_op_ok oper r" and run: "rbb_step at0 oper r = Some r'"
  shows "\<exists>xs ys. rbb_holds r' xs ys"
proof (cases oper)
  case (Alloc sz)
  then have sz: "0 < sz" "sz \<le> rbb_buf_size r" "sz < 2 ^ 24"
    using ok run by (auto simp: rbb_op_ok_def rbb_step_def rt_rbb_blk_alloc_def bind_Some_iff)
  from rbb_alloc_ok [OF h sz(1,3) sz(2)] show ?thesis
    using run Alloc h by (cases ys) (auto simp: rbb_step_def split: if_splits)
next
  case (Put n)
  then show ?thesis using rbb_put_ok [OF h] run by (auto simp: rbb_step_def)
next
  case Get
  obtain x r1 where "rt_rbb_blk_get r = Some (x, r1)" "rbb_holds r1 xs ys" using rbb_get_ok [OF h] by blast
  then show ?thesis using Get run by (auto simp: rbb_step_def)
next
  case (Free n)
  then show ?thesis using rbb_free_any [OF h] run by (simp add: rbb_step_def)
next
  case (Queue_get len q)
  obtain pre post where "rbb_queue r (unat len) xs pre (queue_from r len xs) post"
    using queue_from_spec [OF live_total(2) [OF h]] by blast
  then have "set (queue_from r len xs) \<subseteq> set xs" by (rule rbb_queue_subset)
  then have "rbb_holds (blks_got (queue_from r len xs) r) xs ys" using blks_got_holds [OF h] by blast
  then show ?thesis using Queue_get queue_get_run [OF h] run by (auto simp: rbb_step_def)
next
  case (Queue_free q)
  then show ?thesis using rbb_queue_free_any [OF h] run by (simp add: rbb_step_def rt_rbb_blk_queue_free_def)
qed

lemma rbb_reach_holds:
  "rbb_reach r0 r \<Longrightarrow> \<exists>xs ys. rbb_holds r0 xs ys \<Longrightarrow> \<exists>xs ys. rbb_holds r xs ys"
  by (induction rule: rbb_reach.induct) (use rbb_step_holds in blast)+

text \<open>The buffer of a structure does not move.\<close>

lemma blks_got_region:
  "rbb_buf (blks_got qs r) = rbb_buf r \<and> rbb_buf_size (blks_got qs r) = rbb_buf_size r"
  by (induction qs arbitrary: r) (simp_all add: blks_got_def)

lemma rbb_free_region:
  "rt_rbb_blk_free n r = Some r' \<Longrightarrow> rbb_buf r' = rbb_buf r \<and> rbb_buf_size r' = rbb_buf_size r"
  by (auto simp: rt_rbb_blk_free_def list_remove_def bind_Some_iff Let_def split: option.splits)

lemma queue_free_region:
  "blk_queue_free_loop k blk r = Some r' \<Longrightarrow> rbb_buf r' = rbb_buf r \<and> rbb_buf_size r' = rbb_buf_size r"
  by (induction k arbitrary: blk r) (auto simp: bind_Some_iff dest!: rbb_free_region)

lemma find_empty_region:
  "find_empty_blk_in_set r = Some (x, r') \<Longrightarrow> rbb_buf r' = rbb_buf r \<and> rbb_buf_size r' = rbb_buf_size r"
  by (auto simp: find_empty_blk_in_set_def bind_Some_iff split: option.splits)

lemma blk_place_region:
  "rbb_buf (blk_place n a sz r) = rbb_buf r" "rbb_buf_size (blk_place n a sz r) = rbb_buf_size r"
  by (simp_all add: blk_place_def list_append_def Let_def)

lemma rbb_alloc_region:
  assumes "rt_rbb_blk_alloc sz r = Some (x, r')"
  shows "rbb_buf r' = rbb_buf r \<and> rbb_buf_size r' = rbb_buf_size r"
proof -
  obtain y r1 where f: "find_empty_blk_in_set r = Some (y, r1)"
    using assms by (auto simp: rt_rbb_blk_alloc_def bind_Some_iff)
  have "rbb_buf r' = rbb_buf r1 \<and> rbb_buf_size r' = rbb_buf_size r1"
  proof (cases y)
    case None
    then show ?thesis using assms f by (auto simp: rt_rbb_blk_alloc_def bind_Some_iff)
  next
    case (Some n)
    then show ?thesis using assms f
      by (cases "rbb_links r1 blk_list")
        (auto simp: rt_rbb_blk_alloc_def bind_Some_iff Let_def blk_place_region split: if_splits)
  qed
  then show ?thesis using find_empty_region [OF f] by simp
qed

lemma rbb_step_region:
  assumes h: "rbb_holds r xs ys" and run: "rbb_step at0 oper r = Some r'"
  shows "rbb_buf r' = rbb_buf r \<and> rbb_buf_size r' = rbb_buf_size r"
proof (cases oper)
  case (Queue_get len q)
  then show ?thesis using run queue_get_run [OF h] blks_got_region by (auto simp: rbb_step_def)
next
  case (Queue_free q)
  then show ?thesis using run queue_free_region by (simp add: rbb_step_def rt_rbb_blk_queue_free_def)
next
  case (Alloc sz)
  then show ?thesis using run rbb_alloc_region by (auto simp: rbb_step_def)
next
  case (Free n)
  then show ?thesis using run rbb_free_region by (simp add: rbb_step_def)
next
  case (Put n)
  then show ?thesis using run by (auto simp: rbb_step_def rt_rbb_blk_put_def bind_Some_iff)
next
  case Get
  then show ?thesis using run
    by (auto simp: rbb_step_def rt_rbb_blk_get_def bind_Some_iff split: if_splits option.splits)
qed

lemma rbb_reach_region:
  "rbb_reach r0 r \<Longrightarrow> \<exists>xs ys. rbb_holds r0 xs ys \<Longrightarrow> rbb_buf r = rbb_buf r0 \<and> rbb_buf_size r = rbb_buf_size r0"
  by (induction rule: rbb_reach.induct) (use rbb_reach_holds rbb_step_region in metis)+

text \<open>A limit that is not reached does not matter.\<close>

lemma queue_run_limit:
  "unat t + blk_total r ns \<le> unat len \<Longrightarrow> queue_run r len l t ns = queue_run r (- 1) l t ns"
proof (induction ns arbitrary: l t)
  case (Cons n ns)
  have "unat len < 2 ^ 32" using unsigned_less [of len, where 'a = nat] by simp
  then have t: "unat (t + ucast (blk_size (rbb_blk_set r n))) = unat t + blk_len (rbb_blk_set r n)"
    using Cons.prems by (simp add: unat_word_ariths unat_blk_size)
  then have "\<not> t + ucast (blk_size (rbb_blk_set r n)) > len"
    using Cons.prems by (simp add: word_less_nat_alt not_less)
  moreover have "\<not> t + ucast (blk_size (rbb_blk_set r n)) > - 1" by (simp add: not_less)
  ultimately show ?case using Cons.IH [of "t + ucast (blk_size (rbb_blk_set r n))" n] Cons.prems t by simp
qed simp

lemma queue_from_limit: "blk_total r ns \<le> unat len \<Longrightarrow> queue_from r len ns = queue_from r (- 1) ns"
  by (induction ns) (simp_all add: queue_run_limit unat_blk_size)

lemma next_len_holds:
  assumes h: "rbb_holds r xs ys" and len: "rbb_buf_size r \<le> len"
  shows "rt_rbb_next_blk_queue_len r = Some (rbb_sizes r (queue_from r len xs))"
proof -
  note p = rbb_holds_parts(1) [OF h]
  have "queue_from r len xs = queue_from r (- 1) xs"
    using live_total(1) [OF h] len by (intro queue_from_limit) (simp add: word_le_nat_alt)
  moreover have "next_blk_queue_len_loop r (rbb_links r blk_list) None 0 = Some (rbb_sizes r (queue_from r (- 1) xs))"
    using p rbb_blk_member [OF h] by (intro next_len_from) (auto simp: slist_def)
  ultimately show ?thesis using p by (cases xs) (auto simp: rt_rbb_next_blk_queue_len_def slist_def)
qed


section \<open>Creation on a heap\<close>

text \<open>
  alloc and release are the operations of a heap.  The sizes of \<^verbatim>\<open>struct rt_rbb\<close> and \<^verbatim>\<open>struct rt_rbb_blk\<close>
  are 28 and 12 bytes; the result names the two blocks beside the structure, whose memory held r.
\<close>

definition and_then ::
  "('a outcome \<times> 'h) option \<Rightarrow> ('a \<Rightarrow> 'h \<Rightarrow> ('b outcome \<times> 'h) option) \<Rightarrow> ('b outcome \<times> 'h) option" where
  "and_then m f = do { (x, h) \<leftarrow> m; (case x of Blocked \<Rightarrow> Some (Blocked, h) | Returned v \<Rightarrow> f v h) }"

definition rt_rbb_create ::
  "(rt_uint32_t \<Rightarrow> 'h \<Rightarrow> (nat option outcome \<times> 'h) option) \<Rightarrow> (nat \<Rightarrow> 'h \<Rightarrow> (unit outcome \<times> 'h) option)
   \<Rightarrow> rt_uint32_t \<Rightarrow> rt_uint32_t \<Rightarrow> rt_rbb \<Rightarrow> 'h \<Rightarrow> ((nat \<times> nat \<times> rt_rbb) option outcome \<times> 'h) option" where
  "rt_rbb_create alloc release buf_size blk_max_num r h =
     and_then (alloc 28 h) (\<lambda>rbb h.
       case rbb of None \<Rightarrow> Some (Returned None, h)
       | Some rbb \<Rightarrow> and_then (alloc buf_size h) (\<lambda>buf h.
           case buf of None \<Rightarrow> and_then (release rbb h) (\<lambda>_ h. Some (Returned None, h))
           | Some buf \<Rightarrow> and_then (alloc (12 * blk_max_num) h) (\<lambda>blk_set h.
               case blk_set of
                 None \<Rightarrow> and_then (release buf h) (\<lambda>_ h. and_then (release rbb h) (\<lambda>_ h. Some (Returned None, h)))
               | Some blk_set \<Rightarrow>
                   Some (Returned (Some (rbb, blk_set, rt_rbb_init (word_of_nat buf) buf_size (unat blk_max_num) r)), h))))"

definition rt_rbb_destroy ::
  "(nat \<Rightarrow> 'h \<Rightarrow> (unit outcome \<times> 'h) option) \<Rightarrow> nat \<times> nat \<times> rt_rbb \<Rightarrow> 'h \<Rightarrow> (unit outcome \<times> 'h) option" where
  "rt_rbb_destroy release rb h =
     (case rb of (rbb, blk_set, r) \<Rightarrow>
        and_then (release (unat (rbb_buf r)) h) (\<lambda>_ h. and_then (release blk_set h) (\<lambda>_ h. release rbb h)))"

lemma rbb_init_region: "rbb_buf (rt_rbb_init buf buf_size n r) = buf" "rbb_buf_size (rt_rbb_init buf buf_size n r) = buf_size"
proof -
  have "rbb_buf (foldl (\<lambda>r i. let r' = rbb_set_status (blk_node i) RT_RBB_BLK_UNUSED r
      in r'\<lparr>rbb_links := rt_slist_insert free_list (blk_node i) (rt_slist_init (blk_node i) (rbb_links r'))\<rparr>) r ns) = rbb_buf r
    \<and> rbb_buf_size (foldl (\<lambda>r i. let r' = rbb_set_status (blk_node i) RT_RBB_BLK_UNUSED r
      in r'\<lparr>rbb_links := rt_slist_insert free_list (blk_node i) (rt_slist_init (blk_node i) (rbb_links r'))\<rparr>) r ns) = rbb_buf_size r"
    for ns r by (induction ns arbitrary: r) (simp_all add: Let_def)
  then show "rbb_buf (rt_rbb_init buf buf_size n r) = buf" "rbb_buf_size (rt_rbb_init buf buf_size n r) = buf_size"
    by (simp_all add: rt_rbb_init_def)
qed

context allocator
begin

lemma new_block_fresh: "new_block byte owns h L a len h' \<Longrightarrow> 0 < len \<Longrightarrow> (a, len) \<notin> L"
  by (force simp: new_block_def)

lemma release_one:
  assumes "owns h (insert (a, n) L)" "(a, n) \<notin> L"
  shows "\<exists>h'. release a h = Some (Returned (), h') \<and> owns h' L"
  using release_law [OF assms(1) insertI1] assms(2) by auto

lemma alloc_cases:
  assumes "owns h L" "sz \<noteq> 0" "unat sz \<le> 2 ^ 32 - 4"
  obtains h' where "alloc sz h = Some (Returned None, h')" "owns h' L"
  | h' a len where "alloc sz h = Some (Returned (Some a), h')" "owns h' (insert (a, len) L)" "(a, len) \<notin> L"
      "unat sz \<le> len" "a < 2 ^ 32"
proof -
  have "0 < unat sz" using assms(2) by (simp add: unat_gt_0)
  then show thesis
    using alloc_law [OF assms] that new_block_fresh by (fastforce simp: no_block_def new_block_def)
qed

text \<open>Either nothing is kept of the heap, or three blocks are, and destroying the ring gives them back.\<close>

lemma create_destroy:
  assumes o: "owns h L" and sz: "buf_size \<noteq> 0" "unat buf_size \<le> 2 ^ 32 - 4"
    "0 < unat blk_max_num" "12 * unat blk_max_num \<le> 2 ^ 32 - 4"
  shows "\<exists>x h'. rt_rbb_create alloc release buf_size blk_max_num r h = Some (Returned x, h')
    \<and> (case x of None \<Rightarrow> owns h' L
       | Some (rbb, blk_set, r') \<Rightarrow>
           \<exists>k1 k2 k3. 28 \<le> k1 \<and> unat buf_size \<le> k2 \<and> 12 * unat blk_max_num \<le> k3
             \<and> owns h' (insert (blk_set, k3) (insert (unat (rbb_buf r'), k2) (insert (rbb, k1) L)))
             \<and> (\<exists>h''. rt_rbb_destroy release (rbb, blk_set, r') h' = Some (Returned (), h'') \<and> owns h'' L))"
proof -
  have 28: "(28 :: rt_uint32_t) \<noteq> 0" "unat (28 :: rt_uint32_t) \<le> 2 ^ 32 - 4" by simp_all
  have u3: "unat (12 * blk_max_num) = 12 * unat blk_max_num" using sz(4) by (simp add: unat_word_ariths)
  then have s3: "12 * blk_max_num \<noteq> 0" "unat (12 * blk_max_num) \<le> 2 ^ 32 - 4"
    using sz(3,4) by (simp_all only: unat_gt_0 [symmetric])
  note run = rt_rbb_create_def and_then_def
  from o 28 show ?thesis
  proof (cases rule: alloc_cases)
    case (1 h1)
    then show ?thesis by (simp add: run)
  next
    case p: (2 h1 p k1)
    from p(2) sz(1,2) show ?thesis
    proof (cases rule: alloc_cases)
      case (1 h2)
      then show ?thesis using p release_one [of h2 p k1 L] by (auto simp: run)
    next
      case b: (2 h2 b k2)
      have ub: "unat (word_of_nat b :: rt_uint32_t) = b" using b(5) by (simp add: unat_of_nat)
      from b(2) s3 show ?thesis
      proof (cases rule: alloc_cases)
        case (1 h3)
        obtain h4 where h4: "release b h3 = Some (Returned (), h4)" "owns h4 (insert (p, k1) L)"
          using release_one [OF 1(2) b(3)] by blast
        then show ?thesis using p b 1 release_one [OF h4(2) p(3)] by (auto simp: run)
      next
        case m: (2 h3 m k3)
        let ?r = "rt_rbb_init (word_of_nat b) buf_size (unat blk_max_num) r"
        have d: "(b, k2) \<notin> insert (m, k3) (insert (p, k1) L)" using b(3) m(3) by auto
        obtain h4 where h4: "release b h3 = Some (Returned (), h4)" "owns h4 (insert (m, k3) (insert (p, k1) L))"
          using release_one [OF _ d, of h3] m(2) by (auto simp: insert_commute)
        obtain h5 where h5: "release m h4 = Some (Returned (), h5)" "owns h5 (insert (p, k1) L)"
          using release_one [OF h4(2)] m(3) by auto
        obtain h6 where h6: "release p h5 = Some (Returned (), h6)" "owns h6 L"
          using release_one [OF h5(2) p(3)] by blast
        have "rt_rbb_create alloc release buf_size blk_max_num r h = Some (Returned (Some (p, m, ?r)), h3)"
          using p b m by (simp add: run)
        moreover have "rt_rbb_destroy release (p, m, ?r) h3 = Some (Returned (), h6)"
          using h4 h5 h6 ub by (simp add: rt_rbb_destroy_def and_then_def rbb_init_region)
        ultimately show ?thesis using p(4) b(4) m(2,4) h6(2) ub u3
          by (intro exI [of _ "Some (p, m, ?r)"] exI [of _ h3]) (auto simp: rbb_init_region)
      qed
    qed
  qed
qed

end

section \<open>What the code does not check\<close>

definition rbb_run :: "rbb_op list \<Rightarrow> rt_rbb \<Rightarrow> rt_rbb option" where
  "rbb_run opers r = foldl (\<lambda>s oper. Option.bind s (rbb_step None oper)) (Some r) opers"

definition rbb_blank :: rt_rbb where
  "rbb_blank = \<lparr>rbb_buf = 0, rbb_buf_size = 0,
     rbb_blk_set = (\<lambda>_. \<lparr>blk_status = RT_RBB_BLK_UNUSED, blk_size = 0, blk_buf = 0\<rparr>),
     rbb_blk_max_num = 0, rbb_tail = 0, rbb_links = (\<lambda>_. None)\<rparr>"

definition blk_at :: "nat \<Rightarrow> rt_rbb option \<Rightarrow> (rbb_status \<times> 24 word \<times> rt_uint32_t) option" where
  "blk_at n r = map_option (\<lambda>b. (blk_status b, blk_size b, blk_buf b)) (Option.bind r (\<lambda>r. rbb_blk r n))"

text \<open>The equations that run calls on concrete structures.\<close>

lemmas rbb_eval = rbb_run_def rbb_step_def rt_rbb_blk_alloc_def find_empty_blk_in_set_def blk_place_def
  list_append_def list_remove_def rt_rbb_blk_put_def rt_rbb_blk_free_def rt_rbb_init_def rt_slist_init_def
  rt_slist_insert_def rt_slist_remove_def slist_find_pred.simps rbb_blk_def rbb_set_status_def blk_end_def
  Let_def rbb_blank_def blk_at_def rt_rbb_blk_queue_get_def blk_queue_get_loop.simps
  rt_rbb_blk_queue_buf_def next_of_def upt_rec

text \<open>
  A block of no bytes at the end of the free room makes a wrapped list look unwrapped: the next
  block gets the bytes of a live one.
\<close>

lemma rbb_empty_block_overlaps:
  "blk_at 4 (rbb_run [Alloc 4, Alloc 4, Free 5, Alloc 4, Alloc 0, Alloc 4] (rt_rbb_init 0x20000000 8 4 rbb_blank))
     = Some (RT_RBB_BLK_INITED, 4, 0x20000004)"
  "blk_at 2 (rbb_run [Alloc 4, Alloc 4, Free 5, Alloc 4, Alloc 0, Alloc 4] (rt_rbb_init 0x20000000 8 4 rbb_blank))
     = Some (RT_RBB_BLK_INITED, 4, 0x20000004)"
  by (simp_all add: rbb_eval)

text \<open>In an empty ring a block may be larger than the buffer.\<close>

lemma rbb_block_past_end:
  "blk_at 2 (rbb_run [Alloc 100] (rt_rbb_init 0x20000000 8 1 rbb_blank)) = Some (RT_RBB_BLK_INITED, 100, 0x20000000)"
  by (simp add: rbb_eval)

text \<open>
  An allocation without room loses the entry it took from the free list: with two entries, two
  blocks fit the buffer at first, and no longer after an allocation that failed.
\<close>

lemma rbb_failed_alloc_loses_entry:
  "map_option fst (Option.bind (rbb_run [Alloc 4] (rt_rbb_init 0x20000000 8 2 rbb_blank)) (rt_rbb_blk_alloc 4))
     = Some (Some 2)"
  "map_option fst (Option.bind (rbb_run [Alloc 8, Alloc 8, Free 3, Alloc 4] (rt_rbb_init 0x20000000 8 2 rbb_blank))
     (rt_rbb_blk_alloc 4)) = Some None"
  by (simp_all add: rbb_eval)

text \<open>The first block of a queue is not held against the limit.\<close>

lemma rbb_queue_exceeds_limit:
  "map_option fst (Option.bind (rbb_run [Alloc 8, Put 2] (rt_rbb_init 0x20000000 8 1 rbb_blank))
     (rt_rbb_blk_queue_get None 4 \<lparr>blkq_blocks = None, blkq_num = 0\<rparr>)) = Some 8"
  by (simp add: rbb_eval)

text \<open>
  A block freed between two others leaves a queue that is not contiguous in memory: blocks of 4 bytes
  at 0x20000000 and 0x20000008 are given as one queue of 8 bytes from 0x20000000.
\<close>

lemma rbb_queue_has_gap:
  "map_option (\<lambda>(total, q, r). (total, blkq_num q, rt_rbb_blk_queue_buf q r))
     (Option.bind (rbb_run [Alloc 4, Alloc 4, Alloc 4, Put 4, Put 2, Free 3] (rt_rbb_init 0x20000000 12 3 rbb_blank))
       (rt_rbb_blk_queue_get None 12 \<lparr>blkq_blocks = None, blkq_num = 0\<rparr>)) = Some (8, 2, Some 0x20000000)"
  "blk_at 2 (rbb_run [Alloc 4, Alloc 4, Alloc 4, Put 4, Put 2, Free 3] (rt_rbb_init 0x20000000 12 3 rbb_blank))
     = Some (RT_RBB_BLK_PUT, 4, 0x20000008)"
  by (simp_all add: rbb_eval)


text \<open>
  On the system heap, creating a ring and destroying it leaves the heap with the blocks it had; when
  the memory does not suffice, so does the creation alone.
\<close>

lemma rbb_create_on_system_heap:
  assumes "heap_owns lk h L" "buf_size \<noteq> 0" "unat buf_size \<le> 2 ^ 32 - 4"
    "0 < unat blk_max_num" "12 * unat blk_max_num \<le> 2 ^ 32 - 4"
  shows "\<exists>x h'. rt_rbb_create (rt_malloc lk) (\<lambda>a. rt_free lk (Some a)) buf_size blk_max_num r h = Some (Returned x, h')
    \<and> (case x of None \<Rightarrow> heap_owns lk h' L
       | Some rb \<Rightarrow> \<exists>h''. rt_rbb_destroy (\<lambda>a. rt_free lk (Some a)) rb h' = Some (Returned (), h'') \<and> heap_owns lk h'' L)"
proof -
  obtain x h' where c: "rt_rbb_create (rt_malloc lk) (\<lambda>a. rt_free lk (Some a)) buf_size blk_max_num r h = Some (Returned x, h')"
    "case x of None \<Rightarrow> heap_owns lk h' L
       | Some (rbb, blk_set, r') \<Rightarrow>
           \<exists>k1 k2 k3. 28 \<le> k1 \<and> unat buf_size \<le> k2 \<and> 12 * unat blk_max_num \<le> k3
             \<and> heap_owns lk h' (insert (blk_set, k3) (insert (unat (rbb_buf r'), k2) (insert (rbb, k1) L)))
             \<and> (\<exists>h''. rt_rbb_destroy (\<lambda>a. rt_free lk (Some a)) (rbb, blk_set, r') h' = Some (Returned (), h'')
                  \<and> heap_owns lk h'' L)"
    using system_heap.create_destroy [OF assms, of r] by blast
  then show ?thesis by (intro exI [of _ x] exI [of _ h']) (auto split: option.splits)
qed


section \<open>Properties\<close>

text \<open>
  C37: in every history of calls from rt_rbb_init, in which allocations ask for at least a byte and at
  most the buffer's size, the live blocks of a ring block buffer lie inside the buffer and no two of
  them share a byte, whatever the order in which blocks are put, got and freed, alone or by queues.
\<close>

theorem rbb_blocks_apart:
  assumes "unat buf + unat buf_size < 2 ^ 32" "rbb_reach (rt_rbb_init buf buf_size blk_max_num r0) r"
    and "rbb_blk r m = Some b" "blk_status b \<noteq> RT_RBB_BLK_UNUSED"
    and "rbb_blk r n = Some c" "blk_status c \<noteq> RT_RBB_BLK_UNUSED"
  shows "unat buf \<le> blk_start b \<and> blk_stop b \<le> unat buf + unat buf_size \<and> (m \<noteq> n \<longrightarrow> blks_apart b c)"
proof -
  have i: "\<exists>xs ys. rbb_holds (rt_rbb_init buf buf_size blk_max_num r0) xs ys" using rbb_init_holds [OF assms(1)] by blast
  obtain xs ys where h: "rbb_holds r xs ys" using rbb_reach_holds [OF assms(2) i] by blast
  note lay = rbb_holds_parts(8) [OF h]
  have reg: "rbb_buf r = buf" "rbb_buf_size r = buf_size" using rbb_reach_region [OF assms(2) i] rbb_init_region by simp_all
  have mn: "m \<in> set xs" "n \<in> set xs" "b = rbb_blk_set r m" "c = rbb_blk_set r n"
    using assms(3-6) rbb_holds_parts(6) [OF h] by (auto simp: rbb_blk_def split: if_splits)
  have "blks_apart b c" if "m \<noteq> n"
  proof -
    have "sorted_wrt (\<lambda>k l. blks_apart (rbb_blk_set r k) (rbb_blk_set r l)) xs"
      using layout_apart [OF lay] by (simp add: sorted_wrt_map)
    moreover have "distinct xs" using rbb_holds_parts(1) [OF h] by (simp add: slist_def)
    moreover have "blks_apart x y = blks_apart y x" for x y by (auto simp: blks_apart_def)
    ultimately show ?thesis using mn that
      by (metis in_set_conv_nth linorder_neqE_nat sorted_wrt_iff_nth_less)
  qed
  then show ?thesis using layout_in [OF lay, of b] mn reg by simp
qed

theorem rbb_blocks_apart_witness:
  "\<exists>r b c. rbb_reach (rt_rbb_init 0x20000000 8 2 rbb_blank) r \<and> rbb_blk r 3 = Some b \<and> rbb_blk r 2 = Some c
     \<and> blk_status b = RT_RBB_BLK_INITED \<and> blk_status c = RT_RBB_BLK_INITED \<and> blks_apart b c"
proof -
  have "\<exists>r r' b c. rbb_step None (Alloc 4) (rt_rbb_init 0x20000000 8 2 rbb_blank) = Some r
    \<and> 4 \<le> rbb_buf_size r \<and> rbb_step None (Alloc 4) r = Some r' \<and> rbb_blk r' 3 = Some b \<and> rbb_blk r' 2 = Some c
    \<and> blk_status b = RT_RBB_BLK_INITED \<and> blk_status c = RT_RBB_BLK_INITED"
    by (simp add: rbb_eval)
  then obtain r r' b c where k: "rbb_step None (Alloc 4) (rt_rbb_init 0x20000000 8 2 rbb_blank) = Some r"
    "4 \<le> rbb_buf_size r" "rbb_step None (Alloc 4) r = Some r'" "rbb_blk r' 3 = Some b" "rbb_blk r' 2 = Some c"
    "blk_status b = RT_RBB_BLK_INITED" "blk_status c = RT_RBB_BLK_INITED" by blast
  have o: "rbb_op_ok (Alloc 4) (rt_rbb_init 0x20000000 8 2 rbb_blank)" "rbb_op_ok (Alloc 4) r"
    using k(2) by (simp_all add: rbb_op_ok_def rbb_init_region)
  then have "rbb_reach (rt_rbb_init 0x20000000 8 2 rbb_blank) r'"
    using k(1,3) by (blast intro: rbb_reach.intros)
  then show ?thesis using rbb_blocks_apart [of "0x20000000" 8 2 rbb_blank r' 3 b 2 c] k by auto
qed

text \<open>
  What rt_rbb_blk_queue_get does: it takes the next run of blocks that were put and go up in memory, starting with
  the first that was put and ending where a block was not put, lies lower in memory or passes the limit.
  It returns the number of bytes of the run, of which rt_rbb_blk_queue_len then gives the same count,
  rt_rbb_next_blk_queue_len announced it when the limit is no less than the buffer, and
  rt_rbb_blk_queue_free gives all its blocks, and only these, back to the free list.  This is less
  than the header promises: the run may have gaps, and its first block may pass the limit, as the two
  lemmas on these cases show.
\<close>

lemma rbb_queue_run:
  assumes "rbb_holds r xs ys"
  shows "\<exists>pre qs post total r'. rt_rbb_blk_queue_get at0 len q r = Some (total, queue_of qs q, r')
    \<and> rbb_queue r (unat len) xs pre qs post \<and> unat total = blk_total r qs
    \<and> (\<forall>n. rbb_blk_set r' n
         = (if n \<in> set qs then (rbb_blk_set r n)\<lparr>blk_status := RT_RBB_BLK_GET\<rparr> else rbb_blk_set r n))
    \<and> (rbb_buf_size r \<le> len \<longrightarrow> rt_rbb_next_blk_queue_len r = Some total)
    \<and> (qs \<noteq> [] \<longrightarrow> rt_rbb_blk_queue_len (queue_of qs q) r' = Some total
         \<and> (\<exists>r''. rt_rbb_blk_queue_free (queue_of qs q) r' = Some r'' \<and> rbb_holds r'' (pre @ post) (rev qs @ ys)))"
proof -
  let ?qs = "queue_from r len xs"
  let ?r = "blks_got ?qs r"
  obtain pre post where q: "rbb_queue r (unat len) xs pre ?qs post"
    using queue_from_spec [OF live_total(2) [OF assms]] by blast
  then have xs: "xs = pre @ ?qs @ post" by (simp add: rbb_queue_def)
  have "blk_total r ?qs \<le> blk_total r xs" by (subst (2) xs) simp
  then have total: "unat (rbb_sizes r ?qs) = blk_total r ?qs"
    using live_total(2) [OF assms] by (intro unat_rbb_sizes) simp
  have got: "rbb_holds ?r xs ys" "rbb_links ?r = rbb_links r" "rbb_sizes ?r ?qs = rbb_sizes r ?qs"
    using blks_got_holds [OF assms rbb_queue_subset [OF q]] by blast+
  have "rt_rbb_blk_queue_len (queue_of ?qs q) ?r = Some (rbb_sizes r ?qs)
      \<and> (\<exists>r''. rt_rbb_blk_queue_free (queue_of ?qs q) ?r = Some r'' \<and> rbb_holds r'' (pre @ post) (rev ?qs @ ys))"
    if ne: "?qs \<noteq> []"
  proof
    have "hd ?qs # tl ?qs @ post = ?qs @ post" using ne by (cases ?qs) simp_all
    then have "pre @ hd ?qs # tl ?qs @ post = xs" using xs by (simp only:)
    then have "schain (rbb_links r) blk_list (pre @ hd ?qs # tl ?qs @ post)"
      using rbb_holds_parts(1) [OF assms] by (simp add: slist_def)
    then have "rbb_links ?r (last (blk_list # pre)) = Some (hd ?qs)" "schain (rbb_links ?r) (last (blk_list # pre)) (?qs @ post)"
      using schain_next [of "rbb_links r" blk_list pre "hd ?qs" "tl ?qs @ post"] ne unfolding got(2)
      by (cases ?qs; simp)+
    then show "rt_rbb_blk_queue_len (queue_of ?qs q) ?r = Some (rbb_sizes r ?qs)"
      using queue_len_run [of ?r "last (blk_list # pre)" ?qs post 0] rbb_blk_member [OF got(1)] rbb_queue_subset [OF q] got(3) ne
      by (cases ?qs) (auto simp: rt_rbb_blk_queue_len_def queue_of_def)
    show "\<exists>r''. rt_rbb_blk_queue_free (queue_of ?qs q) ?r = Some r'' \<and> rbb_holds r'' (pre @ post) (rev ?qs @ ys)"
      using queue_free_run [of ?r pre ?qs post ys "Some (hd ?qs)"] got(1) xs ne
      by (cases ?qs) (auto simp: rt_rbb_blk_queue_free_def queue_of_def)
  qed
  then show ?thesis
    using queue_get_run [OF assms, of at0 len q] q total next_len_holds [OF assms, of len] blks_got_set [of ?qs r]
    by (intro exI [of _ pre] exI [of _ ?qs] exI [of _ post] exI [of _ "rbb_sizes r ?qs"] exI [of _ ?r]) auto
qed

lemma rbb_queue_run_sample:
  "\<exists>r r' r''. rt_rbb_blk_queue_get None 8 \<lparr>blkq_blocks = None, blkq_num = 0\<rparr> r
         = Some (4, \<lparr>blkq_blocks = Some 3, blkq_num = 1\<rparr>, r')
     \<and> rt_rbb_blk_queue_free \<lparr>blkq_blocks = Some 3, blkq_num = 1\<rparr> r' = Some r'' \<and> rbb_holds r'' [] [3, 2]"
proof -
  have "rev (map blk_node [0 ..< 2]) = [3, 2]" by (simp add: upt_rec numeral_3_eq_3)
  moreover have "unat (0x20000000 :: rt_uint32_t) + unat (8 :: rt_uint32_t) < 2 ^ 32" by simp
  ultimately have i: "rbb_holds (rt_rbb_init 0x20000000 8 2 rbb_blank) [] [3, 2]"
    using rbb_init_holds [of "0x20000000" 8 2 rbb_blank] by (simp only:)
  then obtain r1 where r1: "rbb_holds r1 [3] [2]" "blk_status (rbb_blk_set r1 3) = RT_RBB_BLK_INITED"
    "blk_len (rbb_blk_set r1 3) = 4"
    using rbb_alloc_ok [OF i, of 4] by (auto simp: rbb_room_def rbb_init_region)
  let ?r = "rbb_set_status 3 RT_RBB_BLK_PUT r1" and ?q = "\<lparr>blkq_blocks = None, blkq_num = 0\<rparr>"
  have p: "rt_rbb_blk_put 3 r1 = Some ?r"
    using r1 rbb_blk_member [OF r1(1), of 3] by (simp add: rt_rbb_blk_put_def)
  from rbb_put_ok [OF r1(1) p] have h: "rbb_holds ?r [3] [2]" by simp
  obtain pre qs post t r' where q: "rt_rbb_blk_queue_get None 8 ?q ?r = Some (t, queue_of qs ?q, r')"
    "rbb_queue ?r (unat (8 :: rt_uint32_t)) [3] pre qs post" "unat t = blk_total ?r qs"
    "qs \<noteq> [] \<longrightarrow> (\<exists>r''. rt_rbb_blk_queue_free (queue_of qs ?q) r' = Some r'' \<and> rbb_holds r'' (pre @ post) (rev qs @ [2]))"
    using rbb_queue_run [OF h, of None 8 ?q] by blast
  have s: "pre = [] \<and> qs = [3] \<and> post = []" using q(2) by (auto simp: rbb_queue_def Cons_eq_append_conv)
  then have "unat t = unat (4 :: rt_uint32_t)" using q(3) r1(3) by simp
  then have "t = 4" by (rule unsigned_word_eqI)
  then show ?thesis using q(1,4) s by (auto simp: queue_of_def)
qed

end
