(* ===== verification/PowerMgr.thy ===== *)
theory PowerMgr
  imports Clock Samples
begin

text \<open>
  The power manager of components/drivers/pm/pm.c, which the idle thread calls, and the low-power
  timers of lptimer.c, in the configuration of src/rtconfig.h: modules request and release sleep
  modes, the manager picks a mode, and sleeps without ticks up to the next timeout.
\<close>

section \<open>State\<close>

abbreviation (input) PM_SLEEP_MODE_NONE :: rt_uint8_t where "PM_SLEEP_MODE_NONE \<equiv> 0"
abbreviation (input) PM_SLEEP_MODE_IDLE :: rt_uint8_t where "PM_SLEEP_MODE_IDLE \<equiv> 1"
abbreviation (input) PM_SLEEP_MODE_LIGHT :: rt_uint8_t where "PM_SLEEP_MODE_LIGHT \<equiv> 2"
abbreviation (input) PM_SLEEP_MODE_DEEP :: rt_uint8_t where "PM_SLEEP_MODE_DEEP \<equiv> 3"
abbreviation (input) PM_SLEEP_MODE_STANDBY :: rt_uint8_t where "PM_SLEEP_MODE_STANDBY \<equiv> 4"
abbreviation (input) PM_SLEEP_MODE_MAX :: nat where "PM_SLEEP_MODE_MAX \<equiv> 6"
abbreviation (input) PM_RUN_MODE_NORMAL_SPEED :: rt_uint8_t where "PM_RUN_MODE_NORMAL_SPEED \<equiv> 1"
abbreviation (input) PM_RUN_MODE_MAX :: nat where "PM_RUN_MODE_MAX \<equiv> 4"
abbreviation (input) PM_POWER_ID :: nat where "PM_POWER_ID \<equiv> 1"
abbreviation (input) PM_MODULE_MAX_ID :: nat where "PM_MODULE_MAX_ID \<equiv> 17"
abbreviation (input) RT_PM_FREQUENCY_PENDING :: rt_uint8_t where "RT_PM_FREQUENCY_PENDING \<equiv> 1"
abbreviation (input) RT_EIO :: rt_err_t where "RT_EIO \<equiv> 8"

text \<open>The configured and default values of the thresholds and modes.\<close>

abbreviation (input) PM_LIGHT_THRESHOLD_TIME :: rt_tick_t where "PM_LIGHT_THRESHOLD_TIME \<equiv> 5"
abbreviation (input) PM_DEEP_THRESHOLD_TIME :: rt_tick_t where "PM_DEEP_THRESHOLD_TIME \<equiv> 20"
abbreviation (input) PM_STANDBY_THRESHOLD_TIME :: rt_tick_t where "PM_STANDBY_THRESHOLD_TIME \<equiv> 100"
abbreviation (input) PM_BUSY_SLEEP_MODE :: rt_uint8_t where "PM_BUSY_SLEEP_MODE \<equiv> 1"
abbreviation (input) PM_SUSPEND_SLEEP_MODE :: rt_uint8_t where "PM_SUSPEND_SLEEP_MODE \<equiv> 1"
abbreviation (input) RT_PM_DEFAULT_SLEEP_MODE :: rt_uint8_t where "RT_PM_DEFAULT_SLEEP_MODE \<equiv> 0"
abbreviation (input) RT_PM_DEFAULT_DEEPSLEEP_MODE :: rt_uint8_t where "RT_PM_DEFAULT_DEEPSLEEP_MODE \<equiv> 3"

text \<open>Which operations the chip driver supplies; the others are NULL.\<close>

record rt_pm_ops =
  op_sleep :: bool
  op_run :: bool
  op_timer_start :: bool
  op_timer_stop :: bool
  op_timer_get_tick :: bool

text \<open>A device with its operations, again by which of them are there.\<close>

record rt_device_pm =
  pd_device :: nat
  pd_suspend :: bool
  pd_resume :: bool
  pd_frequency_change :: bool

record rt_pm_module =
  mo_req_status :: rt_uint8_t
  mo_busy_flag :: bool
  mo_timeout :: rt_uint32_t
  mo_start_time :: rt_uint32_t

text \<open>
  \<^verbatim>\<open>_pm\<close> with the other variables of the file: the default modes, \<^verbatim>\<open>_pm_init_flag\<close> and whether
  \<^verbatim>\<open>_pm_notify\<close> has a function.
\<close>

record rt_pm =
  pm_modes :: "rt_uint8_t list"
  pm_sleep_mode :: rt_uint8_t
  pm_run_mode :: rt_uint8_t
  pm_module_status :: "rt_pm_module list"
  pm_sleep_status :: "rt_uint32_t list list"
  pm_device_pm_number :: rt_uint8_t
  pm_device_pm :: "rt_device_pm list"
  pm_timer_mask :: rt_uint8_t
  pm_flags :: rt_uint8_t
  pm_ops :: "rt_pm_ops option"
  pm_default_sleep :: rt_uint8_t
  pm_default_deepsleep :: rt_uint8_t
  pm_init_flag :: bool
  pm_notify :: bool

text \<open>The calls to the chip driver, the devices and the notification function, in order.\<close>

datatype pm_event =
    Op_sleep rt_uint8_t | Op_run rt_uint8_t
  | Op_timer_start rt_tick_t | Op_timer_stop | Op_timer_get_tick
  | Dev_suspend nat rt_uint8_t | Dev_resume nat rt_uint8_t | Dev_frequency nat rt_uint8_t
  | Notify_enter rt_uint8_t | Notify_exit rt_uint8_t

text \<open>
  The manager, the calls so far, the low-power timers in the order of their list, and the kernel.
  What the callees answer is a parameter: the result of a suspend operation and the ticks that
  \<^verbatim>\<open>timer_get_tick\<close> reports, both from the calls so far.
\<close>

record pm_state =
  ps_pm :: rt_pm
  ps_log :: "pm_event list"
  ps_lptimers :: "tmid list"
  ps_k :: kstate

record pm_env =
  env_suspend :: "pm_event list \<Rightarrow> int"
  env_elapsed :: "pm_event list \<Rightarrow> rt_tick_t"

definition pm_call :: "pm_event list \<Rightarrow> pm_state \<Rightarrow> pm_state" where
  "pm_call es st = st\<lparr>ps_log := ps_log st @ es\<rparr>"

definition upd_pm :: "(rt_pm \<Rightarrow> rt_pm) \<Rightarrow> pm_state \<Rightarrow> pm_state" where
  "upd_pm f st = st\<lparr>ps_pm := f (ps_pm st)\<rparr>"


section \<open>Low-power timers\<close>

definition rt_lptimer_init ::
  "tmid \<Rightarrow> timeout_func \<Rightarrow> rt_tick_t \<Rightarrow> rt_uint8_t \<Rightarrow> pm_state \<Rightarrow> pm_state option" where
  "rt_lptimer_init i func time flag st = do {
     k \<leftarrow> rt_timer_init i func time flag (ps_k st);
     RT_ASSERT (i \<notin> set (ps_lptimers st));
     Some (st\<lparr>ps_k := k\<rparr>)
   }"

definition rt_lptimer_detach :: "tmid \<Rightarrow> pm_state \<Rightarrow> pm_state option" where
  "rt_lptimer_detach i st = do {
     k \<leftarrow> rt_timer_detach i (ps_k st);
     Some (st\<lparr>ps_k := k, ps_lptimers := remove1 i (ps_lptimers st)\<rparr>)
   }"

definition rt_lptimer_start :: "tmid \<Rightarrow> pm_state \<Rightarrow> pm_state option" where
  "rt_lptimer_start i st = do {
     let lps = remove1 i (ps_lptimers st);
     k \<leftarrow> rt_timer_start i (ps_k st);
     Some (st\<lparr>ps_k := k, ps_lptimers := i # lps\<rparr>)
   }"

definition rt_lptimer_stop :: "tmid \<Rightarrow> pm_state \<Rightarrow> (rt_err_t \<times> pm_state) option" where
  "rt_lptimer_stop i st = do {
     let lps = remove1 i (ps_lptimers st);
     (r, k) \<leftarrow> rt_timer_stop i (ps_k st);
     Some (if r = RT_EOK then RT_EOK else - RT_ERROR, st\<lparr>ps_k := k, ps_lptimers := lps\<rparr>)
   }"

definition rt_lptimer_control :: "tmid \<Rightarrow> timer_cmd \<Rightarrow> pm_state \<Rightarrow> (rt_uint32_t option \<times> pm_state) option" where
  "rt_lptimer_control i cmd st = do {
     (r, k) \<leftarrow> rt_timer_control i cmd (ps_k st);
     Some (r, st\<lparr>ps_k := k\<rparr>)
   }"

fun lptimer_scan :: "kstate \<Rightarrow> rt_tick_t \<Rightarrow> rt_tick_t \<Rightarrow> rt_tick_t \<Rightarrow> tmid list \<Rightarrow> rt_tick_t" where
  "lptimer_scan k cur_tick min_tick timeout_tick [] = timeout_tick"
| "lptimer_scan k cur_tick min_tick timeout_tick (i # is) =
     (let temp_tick = tm_timeout_tick (k_timer k i) - cur_tick
      in if tm_activated (k_timer k i) \<and> min_tick > temp_tick
         then lptimer_scan k cur_tick temp_tick (tm_timeout_tick (k_timer k i)) is
         else lptimer_scan k cur_tick min_tick timeout_tick is)"

definition rt_lptimer_next_timeout_tick :: "pm_state \<Rightarrow> rt_tick_t" where
  "rt_lptimer_next_timeout_tick st =
     lptimer_scan (ps_k st) (rt_tick_get (ps_k st)) RT_TICK_MAX RT_TICK_MAX (ps_lptimers st)"


section \<open>Requests\<close>

definition mode_inc :: "rt_uint8_t \<Rightarrow> rt_pm \<Rightarrow> rt_pm" where
  "mode_inc mode pm =
     (let i = unat mode
      in if pm_modes pm ! i < 255 then pm\<lparr>pm_modes := (pm_modes pm)[i := pm_modes pm ! i + 1]\<rparr> else pm)"

definition mode_dec :: "rt_uint8_t \<Rightarrow> rt_pm \<Rightarrow> rt_pm" where
  "mode_dec mode pm =
     (let i = unat mode
      in if pm_modes pm ! i > 0 then pm\<lparr>pm_modes := (pm_modes pm)[i := pm_modes pm ! i - 1]\<rparr> else pm)"

definition set_req_status :: "nat \<Rightarrow> rt_uint8_t \<Rightarrow> rt_pm \<Rightarrow> rt_pm" where
  "set_req_status n v pm =
     pm\<lparr>pm_module_status := (pm_module_status pm)[n := (pm_module_status pm ! n)\<lparr>mo_req_status := v\<rparr>]\<rparr>"

definition rt_pm_request :: "rt_uint8_t \<Rightarrow> rt_pm \<Rightarrow> rt_pm" where
  "rt_pm_request mode pm =
     (if \<not> pm_init_flag pm then pm
      else if unat mode > PM_SLEEP_MODE_MAX - 1 then pm
      else mode_inc mode pm)"

definition rt_pm_release :: "rt_uint8_t \<Rightarrow> rt_pm \<Rightarrow> rt_pm" where
  "rt_pm_release mode pm =
     (if \<not> pm_init_flag pm then pm
      else if unat mode > PM_SLEEP_MODE_MAX - 1 then pm
      else mode_dec mode pm)"

definition rt_pm_release_all :: "rt_uint8_t \<Rightarrow> rt_pm \<Rightarrow> rt_pm" where
  "rt_pm_release_all mode pm =
     (if \<not> pm_init_flag pm then pm
      else if unat mode > PM_SLEEP_MODE_MAX - 1 then pm
      else pm\<lparr>pm_modes := (pm_modes pm)[unat mode := 0]\<rparr>)"

definition rt_pm_module_request :: "rt_uint8_t \<Rightarrow> rt_uint8_t \<Rightarrow> rt_pm \<Rightarrow> rt_pm" where
  "rt_pm_module_request module_id mode pm =
     (if \<not> pm_init_flag pm then pm
      else if unat mode > PM_SLEEP_MODE_MAX - 1 then pm
      else if unat module_id > PM_MODULE_MAX_ID - 1 then pm
      else mode_inc mode (set_req_status (unat module_id) 1 pm))"

definition rt_pm_module_release :: "rt_uint8_t \<Rightarrow> rt_uint8_t \<Rightarrow> rt_pm \<Rightarrow> rt_pm" where
  "rt_pm_module_release module_id mode pm =
     (if \<not> pm_init_flag pm then pm
      else if unat mode > PM_SLEEP_MODE_MAX - 1 then pm
      else if unat module_id > PM_MODULE_MAX_ID - 1 then pm
      else let pm1 = mode_dec mode pm
           in if pm_modes pm1 ! unat mode = 0 then set_req_status (unat module_id) 0 pm1 else pm1)"

text \<open>The module number is not tested here: behind the last module it names foreign memory.\<close>

definition rt_pm_module_release_all :: "rt_uint8_t \<Rightarrow> rt_uint8_t \<Rightarrow> rt_pm \<Rightarrow> rt_pm option" where
  "rt_pm_module_release_all module_id mode pm =
     (if \<not> pm_init_flag pm then Some pm
      else if unat mode > PM_SLEEP_MODE_MAX - 1 then Some pm
      else do {
        RT_ASSERT (unat module_id < PM_MODULE_MAX_ID);
        Some (set_req_status (unat module_id) 0 (pm\<lparr>pm_modes := (pm_modes pm)[unat mode := 0]\<rparr>))
      })"

definition upd_sleep_status ::
  "rt_uint16_t \<Rightarrow> rt_uint8_t \<Rightarrow> (rt_uint32_t \<Rightarrow> rt_uint32_t) \<Rightarrow> rt_pm \<Rightarrow> rt_pm" where
  "upd_sleep_status module_id mode f pm =
     (let row = pm_sleep_status pm ! unat mode; len = unat module_id div 32
      in pm\<lparr>pm_sleep_status := (pm_sleep_status pm)[unat mode := row[len := f (row ! len)]]\<rparr>)"

definition rt_pm_sleep_request :: "rt_uint16_t \<Rightarrow> rt_uint8_t \<Rightarrow> rt_pm \<Rightarrow> rt_pm" where
  "rt_pm_sleep_request module_id mode pm =
     (if unat module_id \<ge> PM_MODULE_MAX_ID then pm
      else if unat mode \<ge> PM_SLEEP_MODE_MAX - 1 then pm
      else upd_sleep_status module_id mode (\<lambda>w. w OR push_bit (unat module_id mod 32) 1) pm)"

definition rt_pm_sleep_release :: "rt_uint16_t \<Rightarrow> rt_uint8_t \<Rightarrow> rt_pm \<Rightarrow> rt_pm" where
  "rt_pm_sleep_release module_id mode pm =
     (if unat module_id \<ge> PM_MODULE_MAX_ID then pm
      else if unat mode \<ge> PM_SLEEP_MODE_MAX - 1 then pm
      else upd_sleep_status module_id mode (\<lambda>w. w AND NOT (push_bit (unat module_id mod 32) 1)) pm)"

definition rt_pm_sleep_none_request :: "rt_uint16_t \<Rightarrow> rt_pm \<Rightarrow> rt_pm" where
  "rt_pm_sleep_none_request module_id = rt_pm_sleep_request module_id PM_SLEEP_MODE_NONE"

definition rt_pm_sleep_idle_request :: "rt_uint16_t \<Rightarrow> rt_pm \<Rightarrow> rt_pm" where
  "rt_pm_sleep_idle_request module_id = rt_pm_sleep_request module_id PM_SLEEP_MODE_IDLE"

definition rt_pm_sleep_light_request :: "rt_uint16_t \<Rightarrow> rt_pm \<Rightarrow> rt_pm" where
  "rt_pm_sleep_light_request module_id = rt_pm_sleep_request module_id PM_SLEEP_MODE_LIGHT"

definition rt_pm_sleep_none_release :: "rt_uint16_t \<Rightarrow> rt_pm \<Rightarrow> rt_pm" where
  "rt_pm_sleep_none_release module_id = rt_pm_sleep_release module_id PM_SLEEP_MODE_NONE"

definition rt_pm_sleep_idle_release :: "rt_uint16_t \<Rightarrow> rt_pm \<Rightarrow> rt_pm" where
  "rt_pm_sleep_idle_release module_id = rt_pm_sleep_release module_id PM_SLEEP_MODE_IDLE"

definition rt_pm_sleep_light_release :: "rt_uint16_t \<Rightarrow> rt_pm \<Rightarrow> rt_pm" where
  "rt_pm_sleep_light_release module_id = rt_pm_sleep_release module_id PM_SLEEP_MODE_LIGHT"

definition rt_pm_module_delay_sleep :: "rt_uint8_t \<Rightarrow> rt_tick_t \<Rightarrow> rt_tick_t \<Rightarrow> rt_pm \<Rightarrow> rt_pm" where
  "rt_pm_module_delay_sleep module_id timeout now pm =
     (if \<not> pm_init_flag pm then pm
      else if unat module_id > PM_MODULE_MAX_ID - 1 then pm
      else let n = unat module_id
           in pm\<lparr>pm_module_status := (pm_module_status pm)[n := (pm_module_status pm ! n)
                   \<lparr>mo_busy_flag := True, mo_timeout := timeout, mo_start_time := now\<rparr>]\<rparr>)"

definition rt_pm_notify_set :: "bool \<Rightarrow> rt_pm \<Rightarrow> rt_pm" where
  "rt_pm_notify_set notify pm = pm\<lparr>pm_notify := notify\<rparr>"

definition rt_pm_default_set :: "rt_uint8_t \<Rightarrow> rt_pm \<Rightarrow> rt_pm" where
  "rt_pm_default_set sleep_mode pm = pm\<lparr>pm_default_sleep := sleep_mode\<rparr>"

text \<open>The write and control operations of the device; the first byte written is the request.\<close>

definition rt_pm_device_write :: "int \<Rightarrow> rt_uint8_t list \<Rightarrow> rt_pm \<Rightarrow> rt_pm" where
  "rt_pm_device_write pos buffer pm =
     (case buffer of
        [] \<Rightarrow> pm
      | request # _ \<Rightarrow>
          if request = 1 then rt_pm_request (word_of_int pos) pm
          else if request = 0 then rt_pm_release (word_of_int pos) pm else pm)"

datatype pm_cmd = RT_PM_DEVICE_CTRL_REQUEST rt_uint32_t | RT_PM_DEVICE_CTRL_RELEASE rt_uint32_t | PM_CTRL_OTHER

definition rt_pm_device_control :: "pm_cmd \<Rightarrow> rt_pm \<Rightarrow> rt_pm" where
  "rt_pm_device_control cmd pm =
     (case cmd of
        RT_PM_DEVICE_CTRL_REQUEST mode \<Rightarrow> rt_pm_request (ucast mode) pm
      | RT_PM_DEVICE_CTRL_RELEASE mode \<Rightarrow> rt_pm_release (ucast mode) pm
      | PM_CTRL_OTHER \<Rightarrow> pm)"

section \<open>Devices\<close>

text \<open>
  The loops go over the first \<^verbatim>\<open>device_pm_number\<close> entries.  \<open>pm_entries\<close> fails when the memory
  behind \<^verbatim>\<open>device_pm\<close> holds fewer.
\<close>

definition pm_entries :: "rt_pm \<Rightarrow> rt_device_pm list option" where
  "pm_entries pm = fetch (pm_device_pm pm) 0 (unat (pm_device_pm_number pm))"

text \<open>The argument ok is whether the memory manager could enlarge the array.\<close>

definition rt_pm_device_register :: "bool \<Rightarrow> rt_device_pm \<Rightarrow> pm_state \<Rightarrow> pm_state option" where
  "rt_pm_device_register ok d st = do {
     RT_ASSERT (k_irq_nest (ps_k st) = 0);
     if ok then do {
       old \<leftarrow> pm_entries (ps_pm st);
       Some (upd_pm (\<lambda>pm. pm\<lparr>pm_device_pm := old @ [d], pm_device_pm_number := pm_device_pm_number pm + 1\<rparr>) st)
     } else Some st
   }"

text \<open>The entries behind the first one of the device move down by one; the last keeps no device.\<close>

fun pm_entry_remove :: "nat \<Rightarrow> rt_device_pm list \<Rightarrow> rt_device_pm list option" where
  "pm_entry_remove device [] = None"
| "pm_entry_remove device (d # ds) =
     (if pd_device d = device then Some ds else map_option ((#) d) (pm_entry_remove device ds))"

definition rt_pm_device_unregister :: "nat \<Rightarrow> pm_state \<Rightarrow> pm_state option" where
  "rt_pm_device_unregister device st = do {
     RT_ASSERT (k_irq_nest (ps_k st) = 0);
     ds \<leftarrow> pm_entries (ps_pm st);
     Some (case pm_entry_remove device ds of
             None \<Rightarrow> st
           | Some ds' \<Rightarrow>
               upd_pm (\<lambda>pm. pm\<lparr>pm_device_pm := ds', pm_device_pm_number := pm_device_pm_number pm - 1\<rparr>) st)
   }"

fun device_suspend_loop ::
  "pm_env \<Rightarrow> rt_uint8_t \<Rightarrow> rt_device_pm list \<Rightarrow> rt_err_t \<Rightarrow> pm_state \<Rightarrow> rt_err_t \<times> pm_state" where
  "device_suspend_loop env mode [] ret st = (ret, st)"
| "device_suspend_loop env mode (d # ds) ret st =
     (if pd_suspend d
      then let ret = env_suspend env (ps_log st);
               st1 = pm_call [Dev_suspend (pd_device d) mode] st
           in if ret \<noteq> RT_EOK then (ret, st1) else device_suspend_loop env mode ds ret st1
      else device_suspend_loop env mode ds ret st)"

definition pm_device_suspend :: "pm_env \<Rightarrow> rt_uint8_t \<Rightarrow> pm_state \<Rightarrow> (rt_err_t \<times> pm_state) option" where
  "pm_device_suspend env mode st = do {
     ds \<leftarrow> pm_entries (ps_pm st);
     Some (device_suspend_loop env mode ds RT_EOK st)
   }"

definition pm_device_resume :: "rt_uint8_t \<Rightarrow> pm_state \<Rightarrow> pm_state option" where
  "pm_device_resume mode st = do {
     ds \<leftarrow> pm_entries (ps_pm st);
     Some (pm_call (map (\<lambda>d. Dev_resume (pd_device d) mode) (filter pd_resume ds)) st)
   }"

definition pm_device_frequency_change :: "rt_uint8_t \<Rightarrow> pm_state \<Rightarrow> pm_state option" where
  "pm_device_frequency_change mode st = do {
     ds \<leftarrow> pm_entries (ps_pm st);
     Some (pm_call (map (\<lambda>d. Dev_frequency (pd_device d) mode) (filter pd_frequency_change ds)) st)
   }"


section \<open>The chip driver\<close>

definition pm_lptimer_start :: "rt_tick_t \<Rightarrow> pm_state \<Rightarrow> pm_state" where
  "pm_lptimer_start timeout st =
     (case pm_ops (ps_pm st) of
        None \<Rightarrow> st
      | Some ops \<Rightarrow> if op_timer_start ops then pm_call [Op_timer_start timeout] st else st)"

definition pm_lptimer_stop :: "pm_state \<Rightarrow> pm_state" where
  "pm_lptimer_stop st =
     (case pm_ops (ps_pm st) of
        None \<Rightarrow> st
      | Some ops \<Rightarrow> if op_timer_stop ops then pm_call [Op_timer_stop] st else st)"

definition pm_lptimer_get_timeout :: "pm_env \<Rightarrow> pm_state \<Rightarrow> rt_tick_t \<times> pm_state" where
  "pm_lptimer_get_timeout env st =
     (case pm_ops (ps_pm st) of
        None \<Rightarrow> (RT_TICK_MAX, st)
      | Some ops \<Rightarrow>
          if op_timer_get_tick ops then (env_elapsed env (ps_log st), pm_call [Op_timer_get_tick] st)
          else (RT_TICK_MAX, st))"

definition pm_sleep :: "rt_uint8_t \<Rightarrow> pm_state \<Rightarrow> pm_state" where
  "pm_sleep mode st =
     (case pm_ops (ps_pm st) of
        None \<Rightarrow> st
      | Some ops \<Rightarrow> if op_sleep ops then pm_call [Op_sleep mode] st else st)"

text \<open>The calls \<^verbatim>\<open>pm->ops->sleep\<close> and \<^verbatim>\<open>pm->ops->run\<close> without a test for NULL.\<close>

definition ops_sleep :: "rt_uint8_t \<Rightarrow> pm_state \<Rightarrow> pm_state option" where
  "ops_sleep mode st = do {
     ops \<leftarrow> pm_ops (ps_pm st);
     RT_ASSERT (op_sleep ops);
     Some (pm_call [Op_sleep mode] st)
   }"

definition ops_run :: "rt_uint8_t \<Rightarrow> pm_state \<Rightarrow> pm_state option" where
  "ops_run mode st = do {
     ops \<leftarrow> pm_ops (ps_pm st);
     RT_ASSERT (op_run ops);
     Some (pm_call [Op_run mode] st)
   }"

definition pm_notified :: "pm_event \<Rightarrow> pm_state \<Rightarrow> pm_state" where
  "pm_notified e st = (if pm_notify (ps_pm st) then pm_call [e] st else st)"


section \<open>Run modes\<close>

definition pm_frequency_scaling :: "pm_state \<Rightarrow> pm_state option" where
  "pm_frequency_scaling st =
     (if pm_flags (ps_pm st) AND RT_PM_FREQUENCY_PENDING \<noteq> 0
      then do {
        st1 \<leftarrow> ops_run (pm_run_mode (ps_pm st)) st;
        st2 \<leftarrow> pm_device_frequency_change (pm_run_mode (ps_pm st1)) st1;
        Some (upd_pm (\<lambda>pm. pm\<lparr>pm_flags := pm_flags pm AND NOT RT_PM_FREQUENCY_PENDING\<rparr>) st2)
      }
      else Some st)"

definition rt_pm_run_enter :: "rt_uint8_t \<Rightarrow> pm_state \<Rightarrow> (rt_err_t \<times> pm_state) option" where
  "rt_pm_run_enter mode st =
     (if \<not> pm_init_flag (ps_pm st) then Some (- RT_EIO, st)
      else if unat mode > PM_RUN_MODE_MAX then Some (- RT_EINVAL, st)
      else do {
        st1 \<leftarrow> (if mode < pm_run_mode (ps_pm st)
                then do { st1 \<leftarrow> ops_run mode st; pm_device_frequency_change mode st1 }
                else Some (upd_pm (\<lambda>pm. pm\<lparr>pm_flags := pm_flags pm OR RT_PM_FREQUENCY_PENDING\<rparr>) st));
        Some (RT_EOK, upd_pm (\<lambda>pm. pm\<lparr>pm_run_mode := mode\<rparr>) st1)
      })"


section \<open>Choosing a sleep mode\<close>

definition judge_sleep_mode :: "rt_pm \<Rightarrow> rt_uint8_t" where
  "judge_sleep_mode pm =
     (case List.find (\<lambda>index. list_ex (\<lambda>w. w \<noteq> 0) (pm_sleep_status pm ! index)) [0 ..< PM_SLEEP_MODE_MAX - 1] of
        Some index \<Rightarrow> word_of_nat index
      | None \<Rightarrow> word_of_nat PM_SLEEP_MODE_MAX)"

definition pm_select_sleep_mode :: "rt_pm \<Rightarrow> rt_uint8_t" where
  "pm_select_sleep_mode pm =
     (let request_mode = judge_sleep_mode pm;
          mode = (case List.find (\<lambda>index. pm_modes pm ! index \<noteq> 0) [0 ..< PM_SLEEP_MODE_MAX] of
                    Some index \<Rightarrow> word_of_nat index
                  | None \<Rightarrow> pm_default_deepsleep pm)
      in if request_mode < mode then request_mode else mode)"

text \<open>The loop over the modules ends at the first that is still busy.\<close>

fun check_idle_loop :: "rt_tick_t \<Rightarrow> rt_pm_module list \<Rightarrow> bool \<times> rt_pm_module list" where
  "check_idle_loop now [] = (True, [])"
| "check_idle_loop now (m # ms) =
     (let m' = (if mo_busy_flag m \<and> now - mo_start_time m > mo_timeout m
                then m\<lparr>mo_busy_flag := False, mo_timeout := 0\<rparr> else m)
      in if mo_busy_flag m' then (False, m' # ms)
         else let (r, ms') = check_idle_loop now ms in (r, m' # ms'))"

definition pm_device_check_idle :: "pm_state \<Rightarrow> bool \<times> pm_state" where
  "pm_device_check_idle st =
     (if \<not> pm_init_flag (ps_pm st) then (True, st)
      else let (r, ms) = check_idle_loop (rt_tick_get (ps_k st)) (pm_module_status (ps_pm st))
           in (r, upd_pm (\<lambda>pm. pm\<lparr>pm_module_status := ms\<rparr>) st))"

definition pm_timer_next_timeout_tick :: "rt_uint8_t \<Rightarrow> pm_state \<Rightarrow> rt_tick_t" where
  "pm_timer_next_timeout_tick mode st =
     (if mode = PM_SLEEP_MODE_LIGHT then rt_timer_next_timeout_tick (ps_k st)
      else if mode = PM_SLEEP_MODE_DEEP \<or> mode = PM_SLEEP_MODE_STANDBY then rt_lptimer_next_timeout_tick st
      else RT_TICK_MAX)"

text \<open>The function computes a mode from the thresholds and returns the mode that it was given.\<close>

definition pm_get_sleep_threshold_mode :: "rt_uint8_t \<Rightarrow> rt_tick_t \<Rightarrow> rt_pm \<Rightarrow> rt_uint8_t" where
  "pm_get_sleep_threshold_mode cur_mode timeout_tick pm =
     (if \<not> pm_init_flag pm then cur_mode
      else if unat cur_mode \<ge> PM_SLEEP_MODE_MAX then cur_mode
      else
        let sleep_mode =
          (if cur_mode = PM_SLEEP_MODE_LIGHT then
             (if timeout_tick < PM_LIGHT_THRESHOLD_TIME then PM_SLEEP_MODE_IDLE else cur_mode)
           else if cur_mode = PM_SLEEP_MODE_DEEP then
             (if timeout_tick < PM_LIGHT_THRESHOLD_TIME then PM_SLEEP_MODE_IDLE
              else if timeout_tick < PM_DEEP_THRESHOLD_TIME then PM_SLEEP_MODE_LIGHT else cur_mode)
           else if cur_mode = PM_SLEEP_MODE_STANDBY then
             (if timeout_tick < PM_LIGHT_THRESHOLD_TIME then PM_SLEEP_MODE_IDLE
              else if timeout_tick < PM_DEEP_THRESHOLD_TIME then PM_SLEEP_MODE_LIGHT
              else if timeout_tick < PM_STANDBY_THRESHOLD_TIME then PM_SLEEP_MODE_DEEP else cur_mode)
           else cur_mode)
        in cur_mode)"


section \<open>Sleeping\<close>

definition pm_set_mode :: "rt_uint8_t \<Rightarrow> pm_state \<Rightarrow> pm_state" where
  "pm_set_mode mode = upd_pm (\<lambda>pm. pm\<lparr>pm_sleep_mode := mode\<rparr>)"

definition pm_tickless :: "pm_state \<Rightarrow> bool" where
  "pm_tickless st \<longleftrightarrow> bit (pm_timer_mask (ps_pm st)) (unat (pm_sleep_mode (ps_pm st)))"

text \<open>
  The three parts of \<^verbatim>\<open>_pm_change_sleep_mode\<close>: the choice, the way into the sleep up to the timer,
  and the sleep with the way back.  user are the functions of the user's timers.
\<close>

definition pm_choose :: "pm_state \<Rightarrow> pm_state" where
  "pm_choose st =
     (let st1 = pm_set_mode (pm_select_sleep_mode (ps_pm st)) st;
          (idle, st2) = pm_device_check_idle st1
      in if \<not> idle \<and> PM_BUSY_SLEEP_MODE < pm_sleep_mode (ps_pm st2)
         then pm_set_mode PM_BUSY_SLEEP_MODE st2 else st2)"

definition pm_program :: "pm_state \<Rightarrow> pm_state" where
  "pm_program st =
     (if pm_tickless st
      then let timeout_tick = pm_timer_next_timeout_tick (pm_sleep_mode (ps_pm st)) st - rt_tick_get (ps_k st);
               st1 = pm_set_mode (pm_get_sleep_threshold_mode (pm_sleep_mode (ps_pm st)) timeout_tick (ps_pm st)) st
           in if pm_tickless st1
              then (if timeout_tick = RT_TICK_MAX then pm_lptimer_start RT_TICK_MAX st1
                    else pm_lptimer_start timeout_tick st1)
              else st1
      else st)"

definition pm_wake ::
  "pm_env \<Rightarrow> (nat \<Rightarrow> kstate \<Rightarrow> kstate option) \<Rightarrow> pm_state \<Rightarrow> pm_state option" where
  "pm_wake env user st = do {
     let (delta_tick, st1) =
       (if pm_tickless st
        then let (d, st1) = pm_lptimer_get_timeout env st;
                 st2 = pm_lptimer_stop st1
             in (d, if d \<noteq> 0 then st2\<lparr>ps_k := rt_tick_set (rt_tick_get (ps_k st2) + d) (ps_k st2)\<rparr> else st2)
        else (0, st));
     st2 \<leftarrow> pm_device_resume (pm_sleep_mode (ps_pm st1)) st1;
     let st3 = pm_notified (Notify_exit (pm_sleep_mode (ps_pm st2))) st2;
     if pm_tickless st3 \<and> delta_tick \<noteq> 0
     then do { k \<leftarrow> rt_timer_check user (ps_k st3); Some (st3\<lparr>ps_k := k\<rparr>) }
     else Some st3
   }"

definition pm_change_sleep_mode ::
  "pm_env \<Rightarrow> (nat \<Rightarrow> kstate \<Rightarrow> kstate option) \<Rightarrow> pm_state \<Rightarrow> pm_state option" where
  "pm_change_sleep_mode env user st = do {
     let st1 = pm_choose st;
     let mode = pm_sleep_mode (ps_pm st1);
     if mode = PM_SLEEP_MODE_NONE then ops_sleep PM_SLEEP_MODE_NONE st1
     else do {
       let st2 = pm_notified (Notify_enter mode) st1;
       (ret, st3) \<leftarrow> pm_device_suspend env mode st2;
       if ret \<noteq> RT_EOK
       then do {
         st4 \<leftarrow> pm_device_resume mode st3;
         let st5 = pm_notified (Notify_exit mode) st4;
         let st6 = (if PM_SUSPEND_SLEEP_MODE < mode then pm_set_mode PM_SUSPEND_SLEEP_MODE st5 else st5);
         ops_sleep (pm_sleep_mode (ps_pm st6)) st6
       }
       else do {
         let st4 = pm_program st3;
         pm_wake env user (pm_sleep (pm_sleep_mode (ps_pm st4)) st4)
       }
     }
   }"

definition rt_system_power_manager ::
  "pm_env \<Rightarrow> (nat \<Rightarrow> kstate \<Rightarrow> kstate option) \<Rightarrow> pm_state \<Rightarrow> pm_state option" where
  "rt_system_power_manager env user st =
     (if \<not> pm_init_flag (ps_pm st) then Some st
      else do { st1 \<leftarrow> pm_frequency_scaling st; pm_change_sleep_mode env user st1 })"

text \<open>\<^verbatim>\<open>rt_system_pm_init\<close>, whose last step before this is \<^verbatim>\<open>rt_device_register\<close> of \<^verbatim>\<open>pm\<close>.\<close>

definition rt_system_pm_init :: "rt_pm_ops option \<Rightarrow> rt_uint8_t \<Rightarrow> rt_pm \<Rightarrow> rt_pm option" where
  "rt_system_pm_init ops timer_mask pm = do {
     let pm1 = pm\<lparr>pm_modes := replicate PM_SLEEP_MODE_MAX 0, pm_sleep_mode := pm_default_sleep pm\<rparr>;
     ms \<leftarrow> arr_set (pm_modes pm1) (unat (pm_sleep_mode pm1)) 1;
     let pm2 = set_req_status PM_POWER_ID 1 (pm1\<lparr>pm_modes := ms\<rparr>);
     Some (pm2\<lparr>pm_run_mode := PM_RUN_MODE_NORMAL_SPEED, pm_timer_mask := timer_mask, pm_ops := ops,
               pm_device_pm := [], pm_device_pm_number := 0, pm_init_flag := True\<rparr>)
   }"

text \<open>The file's variables at the start.\<close>

definition pm_static :: rt_pm where
  "pm_static = \<lparr>pm_modes = replicate PM_SLEEP_MODE_MAX 0, pm_sleep_mode = 0, pm_run_mode = 0,
     pm_module_status = replicate PM_MODULE_MAX_ID
       \<lparr>mo_req_status = 0, mo_busy_flag = False, mo_timeout = 0, mo_start_time = 0\<rparr>,
     pm_sleep_status = replicate (PM_SLEEP_MODE_MAX - 1) [0], pm_device_pm_number = 0, pm_device_pm = [],
     pm_timer_mask = 0, pm_flags = 0, pm_ops = None, pm_default_sleep = RT_PM_DEFAULT_SLEEP_MODE,
     pm_default_deepsleep = RT_PM_DEFAULT_DEEPSLEEP_MODE, pm_init_flag = False, pm_notify = False\<rparr>"

definition rt_pm_get_sleep_mode :: "rt_pm \<Rightarrow> rt_uint8_t" where
  "rt_pm_get_sleep_mode pm = pm_sleep_mode pm"

definition rt_pm_module_get_status :: "rt_pm \<Rightarrow> rt_uint32_t" where
  "rt_pm_module_get_status pm =
     foldl (\<lambda>w index. if mo_req_status (pm_module_status pm ! index) = 1 then w OR push_bit index 1 else w)
       0 [0 ..< PM_MODULE_MAX_ID]"

section \<open>What is asked of the manager\<close>

datatype pm_op =
    Request rt_uint8_t | Release rt_uint8_t | Release_all rt_uint8_t
  | Module_request rt_uint8_t rt_uint8_t | Module_release rt_uint8_t rt_uint8_t
  | Module_release_all rt_uint8_t rt_uint8_t
  | Sleep_request rt_uint16_t rt_uint8_t | Sleep_release rt_uint16_t rt_uint8_t
  | Delay_sleep rt_uint8_t rt_tick_t rt_tick_t

definition pm_apply :: "pm_op \<Rightarrow> rt_pm \<Rightarrow> rt_pm option" where
  "pm_apply oper pm =
     (case oper of
        Request m \<Rightarrow> Some (rt_pm_request m pm)
      | Release m \<Rightarrow> Some (rt_pm_release m pm)
      | Release_all m \<Rightarrow> Some (rt_pm_release_all m pm)
      | Module_request n m \<Rightarrow> Some (rt_pm_module_request n m pm)
      | Module_release n m \<Rightarrow> Some (rt_pm_module_release n m pm)
      | Module_release_all n m \<Rightarrow> rt_pm_module_release_all n m pm
      | Sleep_request n m \<Rightarrow> Some (rt_pm_sleep_request n m pm)
      | Sleep_release n m \<Rightarrow> Some (rt_pm_sleep_release n m pm)
      | Delay_sleep n t now \<Rightarrow> Some (rt_pm_module_delay_sleep n t now pm))"

text \<open>
  The abstract state: for each mode the number of its outstanding requests, and which modules hold it.
  The counters of the code have 8 bits, so the histories are those with at most 255 outstanding
  requests of one mode; what happens beyond is \<open>pm_requests_saturate\<close>.
\<close>

record demand =
  d_count :: "nat \<Rightarrow> nat"
  d_held :: "(nat \<times> nat) set"

definition count_update :: "nat \<Rightarrow> (nat \<Rightarrow> nat) \<Rightarrow> demand \<Rightarrow> demand" where
  "count_update m f d = (if m < PM_SLEEP_MODE_MAX then d\<lparr>d_count := (d_count d)(m := f (d_count d m))\<rparr> else d)"

definition within_counters :: "demand \<Rightarrow> bool" where
  "within_counters d \<longleftrightarrow> (\<forall>m. d_count d m \<le> 255)"

definition demand_apply :: "pm_op \<Rightarrow> demand \<Rightarrow> demand" where
  "demand_apply oper d =
     (case oper of
        Request m \<Rightarrow> count_update (unat m) Suc d
      | Release m \<Rightarrow> count_update (unat m) (\<lambda>c. c - 1) d
      | Release_all m \<Rightarrow> count_update (unat m) (\<lambda>_. 0) d
      | Module_request n m \<Rightarrow> if unat n < PM_MODULE_MAX_ID then count_update (unat m) Suc d else d
      | Module_release n m \<Rightarrow> if unat n < PM_MODULE_MAX_ID then count_update (unat m) (\<lambda>c. c - 1) d else d
      | Module_release_all n m \<Rightarrow> count_update (unat m) (\<lambda>_. 0) d
      | Sleep_request n m \<Rightarrow>
          if unat n < PM_MODULE_MAX_ID \<and> unat m < PM_SLEEP_MODE_MAX - 1
          then d\<lparr>d_held := insert (unat m, unat n) (d_held d)\<rparr> else d
      | Sleep_release n m \<Rightarrow> d\<lparr>d_held := d_held d - {(unat m, unat n)}\<rparr>
      | Delay_sleep n t now \<Rightarrow> d)"

text \<open>The least mode that is requested or held; the default when nothing is asked.\<close>

definition demand_mode :: "nat \<Rightarrow> demand \<Rightarrow> nat" where
  "demand_mode deep d =
     min (if \<exists>m. 0 < d_count d m then LEAST m. 0 < d_count d m else deep)
         (if d_held d = {} then PM_SLEEP_MODE_MAX else LEAST m. \<exists>n. (m, n) \<in> d_held d)"

definition pm_demand :: "rt_pm \<Rightarrow> demand" where
  "pm_demand pm = \<lparr>d_count = (\<lambda>m. if m < PM_SLEEP_MODE_MAX then unat (pm_modes pm ! m) else 0),
     d_held = {(m, n). m < PM_SLEEP_MODE_MAX - 1 \<and> bit (pm_sleep_status pm ! m ! 0) n}\<rparr>"

definition pm_wf :: "rt_pm \<Rightarrow> bool" where
  "pm_wf pm \<longleftrightarrow> pm_init_flag pm \<and> length (pm_modes pm) = PM_SLEEP_MODE_MAX
     \<and> length (pm_module_status pm) = PM_MODULE_MAX_ID
     \<and> length (pm_sleep_status pm) = PM_SLEEP_MODE_MAX - 1
     \<and> (\<forall>row \<in> set (pm_sleep_status pm). length row = 1)"

lemma find_least: "P k \<Longrightarrow> k < n \<Longrightarrow> (\<And>j. j < k \<Longrightarrow> \<not> P j) \<Longrightarrow> List.find P [0 ..< n] = Some k"
  unfolding find_Some_iff by (intro exI [of _ k]) simp

lemma find_no: "(\<And>j. j < n \<Longrightarrow> \<not> P j) \<Longrightarrow> List.find P [0 ..< n] = None"
  by (simp add: find_None_iff)

lemma word_some_bit: "w \<noteq> 0 \<longleftrightarrow> (\<exists>n. bit w n)" for w :: rt_uint32_t
  using bit_word_eqI [of w 0] by auto

lemma pm_wf_row: "pm_wf pm \<Longrightarrow> m < PM_SLEEP_MODE_MAX - 1 \<Longrightarrow> pm_sleep_status pm ! m = [pm_sleep_status pm ! m ! 0]"
proof -
  assume "pm_wf pm" "m < PM_SLEEP_MODE_MAX - 1"
  then have "length (pm_sleep_status pm ! m) = 1" by (simp add: pm_wf_def)
  then show ?thesis by (cases "pm_sleep_status pm ! m") auto
qed

lemma unat_8: "n < 256 \<Longrightarrow> unat (word_of_nat n :: rt_uint8_t) = n"
  by (simp add: unat_of_nat)

lemma judge_is_held:
  assumes "pm_wf pm"
  shows "unat (judge_sleep_mode pm)
    = (if d_held (pm_demand pm) = {} then PM_SLEEP_MODE_MAX else LEAST m. \<exists>n. (m, n) \<in> d_held (pm_demand pm))"
proof -
  let ?d = "pm_demand pm"
  let ?P = "\<lambda>index. list_ex (\<lambda>w. w \<noteq> 0) (pm_sleep_status pm ! index)"
  have ex: "?P m \<longleftrightarrow> (\<exists>n. (m, n) \<in> d_held ?d)" if "m < 5" for m
  proof -
    have "pm_sleep_status pm ! m = [pm_sleep_status pm ! m ! 0]" using pm_wf_row [OF assms] that by simp
    then obtain w where w: "pm_sleep_status pm ! m = [w]" by blast
    then show ?thesis using that word_some_bit [of w] by (simp add: pm_demand_def)
  qed
  have bound: "m < 5" if "(m, n) \<in> d_held ?d" for m n using that by (auto simp: pm_demand_def)
  show ?thesis
  proof (cases "d_held ?d = {}")
    case True
    then have "List.find ?P [0 ..< 5] = None" using ex by (intro find_no) blast
    then show ?thesis using True by (simp add: judge_sleep_mode_def)
  next
    case False
    let ?L = "LEAST m. \<exists>n. (m, n) \<in> d_held ?d"
    obtain m0 n0 where "(m0, n0) \<in> d_held ?d" using False by auto
    then have L: "\<exists>n. (?L, n) \<in> d_held ?d" using LeastI [of "\<lambda>m. \<exists>n. (m, n) \<in> d_held ?d" m0] by blast
    then have L5: "?L < 5" using bound by blast
    have "List.find ?P [0 ..< 5] = Some ?L"
    proof (rule find_least)
      show "?P ?L" using L L5 ex by blast
      show "\<not> ?P j" if "j < ?L" for j
        using not_less_Least [OF that] ex [of j] that L5 by simp
    qed (rule L5)
    then show ?thesis using False L5 unat_8 [of ?L] by (simp add: judge_sleep_mode_def)
  qed
qed

lemma select_is_demand:
  assumes "pm_wf pm"
  shows "unat (pm_select_sleep_mode pm) = demand_mode (unat (pm_default_deepsleep pm)) (pm_demand pm)"
proof -
  let ?d = "pm_demand pm" and ?P = "\<lambda>index. pm_modes pm ! index \<noteq> 0"
  let ?mode = "case List.find ?P [0 ..< PM_SLEEP_MODE_MAX] of
      Some index \<Rightarrow> word_of_nat index | None \<Rightarrow> pm_default_deepsleep pm"
  have mode: "unat ?mode = (if \<exists>m. 0 < d_count ?d m then LEAST m. 0 < d_count ?d m else unat (pm_default_deepsleep pm))"
  proof (cases "\<exists>m. 0 < d_count ?d m")
    case False
    then have "d_count ?d j = 0" for j by simp
    then have "unat (pm_modes pm ! j) = 0" if "j < 6" for j
      using that by (metis (mono_tags, lifting) demand.select_convs(1) pm_demand_def)
    then have "\<not> ?P j" if "j < 6" for j using that by (simp add: unat_eq_zero)
    then have "List.find ?P [0 ..< 6] = None" by (rule find_no)
    then show ?thesis using False by simp
  next
    case True
    let ?L = "LEAST m. 0 < d_count ?d m"
    have "0 < d_count ?d ?L" using True by (rule LeastI_ex)
    then have L: "?L < 6" "?P ?L" by (auto simp: pm_demand_def unat_gt_0 split: if_splits)
    have "List.find ?P [0 ..< 6] = Some ?L"
    proof (rule find_least)
      show "\<not> ?P j" if "j < ?L" for j
        using not_less_Least [OF that] that L(1) by (auto simp: pm_demand_def unat_gt_0)
    qed (rule L)+
    then show ?thesis using True L(1) unat_8 [of ?L] by simp
  qed
  show ?thesis unfolding demand_mode_def judge_is_held [OF assms, symmetric] mode [symmetric]
    by (simp add: pm_select_sleep_mode_def Let_def word_less_nat_alt min_def)
qed

section \<open>The calls refine the demand\<close>

lemma one_more_word:
  fixes c :: rt_uint8_t
  assumes "Suc (unat c) \<le> 255"
  shows "unat (if c < 255 then c + 1 else c) = Suc (unat c)"
  using assms by (simp add: unat_word_ariths word_less_nat_alt)

lemma one_less_word: "unat (if c > 0 then c - 1 else c) = unat c - 1" for c :: rt_uint8_t
proof (cases "c > 0")
  case True
  then have "1 \<le> c" by (simp add: word_le_nat_alt word_less_nat_alt)
  then show ?thesis using True by (simp add: unat_sub)
qed (simp add: word_less_nat_alt)

lemma modes_update:
  assumes "pm_wf pm" "m < PM_SLEEP_MODE_MAX"
  shows "pm_wf (pm\<lparr>pm_modes := (pm_modes pm)[m := c]\<rparr>)
    \<and> pm_demand (pm\<lparr>pm_modes := (pm_modes pm)[m := c]\<rparr>) = count_update m (\<lambda>_. unat c) (pm_demand pm)"
  using assms by (auto simp: pm_wf_def pm_demand_def count_update_def fun_eq_iff)

lemma mode_inc_ok:
  assumes "pm_wf pm" "unat m < PM_SLEEP_MODE_MAX"
    and "within_counters (count_update (unat m) Suc (pm_demand pm))"
  shows "pm_wf (mode_inc m pm) \<and> pm_demand (mode_inc m pm) = count_update (unat m) Suc (pm_demand pm)"
proof -
  let ?c = "pm_modes pm ! unat m"
  have "mode_inc m pm = pm\<lparr>pm_modes := (pm_modes pm)[unat m := if ?c < 255 then ?c + 1 else ?c]\<rparr>"
    by (simp add: mode_inc_def Let_def)
  moreover have c: "d_count (pm_demand pm) (unat m) = unat ?c" using assms(2) by (simp add: pm_demand_def)
  moreover have "d_count (count_update (unat m) Suc (pm_demand pm)) (unat m) \<le> 255"
    using assms(3) by (simp only: within_counters_def)
  then have "Suc (unat ?c) \<le> 255" using assms(2) c by (simp add: count_update_def)
  ultimately show ?thesis
    using modes_update [OF assms(1,2)] one_more_word [of ?c] by (simp add: count_update_def)
qed

lemma mode_dec_ok:
  assumes "pm_wf pm" "unat m < PM_SLEEP_MODE_MAX"
  shows "pm_wf (mode_dec m pm) \<and> pm_demand (mode_dec m pm) = count_update (unat m) (\<lambda>c. c - 1) (pm_demand pm)"
proof -
  let ?c = "pm_modes pm ! unat m"
  have "mode_dec m pm = pm\<lparr>pm_modes := (pm_modes pm)[unat m := if ?c > 0 then ?c - 1 else ?c]\<rparr>"
    by (simp add: mode_dec_def Let_def)
  moreover have "d_count (pm_demand pm) (unat m) = unat ?c" using assms(2) by (simp add: pm_demand_def)
  ultimately show ?thesis
    using modes_update [OF assms] one_less_word [of ?c] by (simp add: count_update_def)
qed

lemma req_status_ok: "pm_wf pm \<Longrightarrow> pm_wf (set_req_status n v pm) \<and> pm_demand (set_req_status n v pm) = pm_demand pm"
  by (auto simp: set_req_status_def pm_wf_def pm_demand_def fun_eq_iff)

lemma sleep_status_ok:
  assumes "pm_wf pm" "unat n < PM_MODULE_MAX_ID" "unat m < PM_SLEEP_MODE_MAX - 1"
  shows "pm_wf (upd_sleep_status n m f pm)
    \<and> d_count (pm_demand (upd_sleep_status n m f pm)) = d_count (pm_demand pm)
    \<and> d_held (pm_demand (upd_sleep_status n m f pm))
        = {(k, i). if k = unat m then bit (f (pm_sleep_status pm ! k ! 0)) i else (k, i) \<in> d_held (pm_demand pm)}"
proof -
  have row: "length (pm_sleep_status pm ! unat m) = 1" using assms(1,3) by (simp add: pm_wf_def)
  have "pm_wf (upd_sleep_status n m f pm)"
    using assms row by (auto simp: pm_wf_def upd_sleep_status_def Let_def dest!: set_update_subset_insert [THEN subsetD])
  moreover have "pm_sleep_status (upd_sleep_status n m f pm) ! k ! 0
      = (if k = unat m then f (pm_sleep_status pm ! k ! 0) else pm_sleep_status pm ! k ! 0)" if "k < 5" for k
    using assms row that by (simp add: upd_sleep_status_def Let_def pm_wf_def)
  ultimately show ?thesis using assms(3) by (auto simp: pm_demand_def upd_sleep_status_def Let_def split: if_splits)
qed

lemma sleep_request_ok:
  assumes "pm_wf pm" "unat n < PM_MODULE_MAX_ID" "unat m < PM_SLEEP_MODE_MAX - 1"
  shows "pm_wf (rt_pm_sleep_request n m pm)
    \<and> pm_demand (rt_pm_sleep_request n m pm) = (pm_demand pm)\<lparr>d_held := insert (unat m, unat n) (d_held (pm_demand pm))\<rparr>"
proof -
  let ?f = "\<lambda>w :: rt_uint32_t. w OR push_bit (unat n mod 32) 1"
  have e: "rt_pm_sleep_request n m pm = upd_sleep_status n m ?f pm" using assms by (simp add: rt_pm_sleep_request_def)
  have b: "bit (?f w) i \<longleftrightarrow> bit w i \<or> i = unat n" for w i
    using assms(2) by (auto simp: bit_simps dest: bit_imp_le_length)
  have "d_held (pm_demand (upd_sleep_status n m ?f pm)) = insert (unat m, unat n) (d_held (pm_demand pm))"
    using sleep_status_ok [OF assms, of ?f] assms(3) unfolding b by (auto simp: pm_demand_def split: if_splits)
  then show ?thesis using sleep_status_ok [OF assms, of ?f] e by simp
qed

lemma sleep_release_ok:
  assumes "pm_wf pm" "unat n < PM_MODULE_MAX_ID" "unat m < PM_SLEEP_MODE_MAX - 1"
  shows "pm_wf (rt_pm_sleep_release n m pm)
    \<and> pm_demand (rt_pm_sleep_release n m pm) = (pm_demand pm)\<lparr>d_held := d_held (pm_demand pm) - {(unat m, unat n)}\<rparr>"
proof -
  let ?f = "\<lambda>w :: rt_uint32_t. w AND NOT (push_bit (unat n mod 32) 1)"
  have e: "rt_pm_sleep_release n m pm = upd_sleep_status n m ?f pm" using assms by (simp add: rt_pm_sleep_release_def)
  have b: "bit (?f w) i \<longleftrightarrow> bit w i \<and> i \<noteq> unat n" for w i
    using assms(2) by (auto simp: bit_simps dest: bit_imp_le_length)
  have "d_held (pm_demand (upd_sleep_status n m ?f pm)) = d_held (pm_demand pm) - {(unat m, unat n)}"
    using sleep_status_ok [OF assms, of ?f] assms(3) unfolding b by (auto simp: pm_demand_def split: if_splits)
  then show ?thesis using sleep_status_ok [OF assms, of ?f] e by simp
qed

text \<open>Only bits of existing modules are ever set.\<close>

definition held_ok :: "demand \<Rightarrow> bool" where
  "held_ok d \<longleftrightarrow> (\<forall>(m, n) \<in> d_held d. m < PM_SLEEP_MODE_MAX - 1 \<and> n < PM_MODULE_MAX_ID)"

lemma count_update_simps [simp]:
  "d_held (count_update m f d) = d_held d" "\<not> m < PM_SLEEP_MODE_MAX \<Longrightarrow> count_update m f d = d"
  by (simp_all add: count_update_def)

lemma deepsleep_simps [simp]:
  "pm_default_deepsleep (mode_inc m pm) = pm_default_deepsleep pm"
  "pm_default_deepsleep (mode_dec m pm) = pm_default_deepsleep pm"
  "pm_default_deepsleep (set_req_status n v pm) = pm_default_deepsleep pm"
  "pm_default_deepsleep (upd_sleep_status k m f pm) = pm_default_deepsleep pm"
  by (simp_all add: mode_inc_def mode_dec_def set_req_status_def upd_sleep_status_def Let_def)

lemma modes_zero:
  assumes "pm_wf pm" "unat m < PM_SLEEP_MODE_MAX"
  shows "pm_wf (pm\<lparr>pm_modes := (pm_modes pm)[unat m := 0]\<rparr>)
    \<and> pm_demand (pm\<lparr>pm_modes := (pm_modes pm)[unat m := 0]\<rparr>) = count_update (unat m) (\<lambda>_. 0) (pm_demand pm)"
  using modes_update [OF assms, of 0] by simp

lemma pm_apply_refines:
  assumes wf: "pm_wf pm" and held: "held_ok (pm_demand pm)" and run: "pm_apply oper pm = Some pm'"
    and few: "within_counters (demand_apply oper (pm_demand pm))"
  shows "pm_wf pm' \<and> held_ok (pm_demand pm') \<and> pm_demand pm' = demand_apply oper (pm_demand pm)
    \<and> pm_default_deepsleep pm' = pm_default_deepsleep pm"
proof -
  have init: "pm_init_flag pm" using wf by (simp add: pm_wf_def)
  have "pm_wf pm' \<and> pm_demand pm' = demand_apply oper (pm_demand pm)
    \<and> pm_default_deepsleep pm' = pm_default_deepsleep pm"
  proof (cases oper)
    case (Request m)
    then have "within_counters (count_update (unat m) Suc (pm_demand pm))"
      using few by (simp add: demand_apply_def)
    then show ?thesis using run wf init mode_inc_ok [OF wf, of m] Request
      by (cases "unat m < 6") (auto simp: pm_apply_def rt_pm_request_def demand_apply_def)
  next
    case (Release m)
    then show ?thesis using run wf init mode_dec_ok [OF wf, of m]
      by (cases "unat m < 6") (auto simp: pm_apply_def rt_pm_release_def demand_apply_def)
  next
    case (Release_all m)
    then show ?thesis using run wf init modes_zero [OF wf, of m]
      by (cases "unat m < 6") (auto simp: pm_apply_def rt_pm_release_all_def demand_apply_def)
  next
    case (Module_request n m)
    note q = req_status_ok [OF wf, of "unat n" 1]
    have "within_counters (count_update (unat m) Suc (pm_demand pm))" if "unat n < 17"
      using few that Module_request by (simp add: demand_apply_def)
    then show ?thesis using run wf init q mode_inc_ok [of "set_req_status (unat n) 1 pm" m] Module_request
      by (cases "unat m < 6"; cases "unat n < 17") (auto simp: pm_apply_def rt_pm_module_request_def demand_apply_def)
  next
    case (Module_release n m)
    show ?thesis using run wf init mode_dec_ok [OF wf, of m] req_status_ok [of "mode_dec m pm" "unat n" 0] Module_release
      by (cases "unat m < 6"; cases "unat n < 17")
        (auto simp: pm_apply_def rt_pm_module_release_def demand_apply_def Let_def split: if_splits)
  next
    case (Module_release_all n m)
    show ?thesis using run wf init modes_zero [OF wf, of m]
        req_status_ok [of "pm\<lparr>pm_modes := (pm_modes pm)[unat m := 0]\<rparr>" "unat n" 0] Module_release_all
      by (cases "unat m < 6")
        (auto simp: pm_apply_def rt_pm_module_release_all_def demand_apply_def bind_Some_iff split: if_splits)
  next
    case (Sleep_request n m)
    show ?thesis using run wf sleep_request_ok [OF wf, of n m] Sleep_request
      by (cases "unat m < 5"; cases "unat n < 17")
        (auto simp: pm_apply_def rt_pm_sleep_request_def demand_apply_def)
  next
    case (Sleep_release n m)
    have out: "(unat m, unat n) \<notin> d_held (pm_demand pm)" if "\<not> (unat m < 5 \<and> unat n < 17)"
      using held that by (auto simp: held_ok_def)
    show ?thesis using run wf sleep_release_ok [OF wf, of n m] Sleep_release out
      by (cases "unat m < 5"; cases "unat n < 17")
        (auto simp: pm_apply_def rt_pm_sleep_release_def demand_apply_def)
  next
    case (Delay_sleep n t now)
    then show ?thesis using run wf init
      by (cases "unat n < 17") (auto simp: pm_apply_def rt_pm_module_delay_sleep_def demand_apply_def pm_wf_def pm_demand_def Let_def fun_eq_iff)
  qed
  moreover have "held_ok (demand_apply oper (pm_demand pm))"
    using held by (cases oper) (auto simp: demand_apply_def held_ok_def)
  ultimately show ?thesis by simp
qed

section \<open>The manager's calls\<close>

lemma pm_call_call [simp]: "pm_call bs (pm_call as st) = pm_call (as @ bs) st"
  by (simp add: pm_call_def)

lemma pm_call_fields [simp]:
  "ps_pm (pm_call es st) = ps_pm st" "ps_k (pm_call es st) = ps_k st"
  "ps_lptimers (pm_call es st) = ps_lptimers st" "ps_log (pm_call es st) = ps_log st @ es"
  "pm_call [] st = st"
  by (simp_all add: pm_call_def)

fun sleep_modes :: "pm_event list \<Rightarrow> rt_uint8_t list" where
  "sleep_modes [] = []"
| "sleep_modes (Op_sleep m # es) = m # sleep_modes es"
| "sleep_modes (e # es) = sleep_modes es"

lemma sleep_modes_append [simp]: "sleep_modes (as @ bs) = sleep_modes as @ sleep_modes bs"
  by (induction as rule: sleep_modes.induct) auto

lemma sleep_modes_none [simp]:
  "sleep_modes (map (\<lambda>d. Dev_resume (f d) m) ds) = []" "sleep_modes (map (\<lambda>d. Dev_frequency (f d) m) ds) = []"
  "sleep_modes (map (\<lambda>d. Dev_suspend (f d) m) ds) = []"
  by (induction ds) auto

text \<open>What the manager leaves of its own state.\<close>

definition pm_same :: "rt_pm \<Rightarrow> rt_pm \<Rightarrow> bool" where
  "pm_same pm pm' \<longleftrightarrow> pm_modes pm' = pm_modes pm \<and> pm_sleep_status pm' = pm_sleep_status pm
     \<and> pm_default_deepsleep pm' = pm_default_deepsleep pm \<and> pm_init_flag pm' = pm_init_flag pm
     \<and> length (pm_module_status pm') = length (pm_module_status pm)"

lemma pm_same_refl [simp]: "pm_same pm pm"
  by (simp add: pm_same_def)

lemma pm_same_trans: "pm_same a b \<Longrightarrow> pm_same b c \<Longrightarrow> pm_same a c"
  by (simp add: pm_same_def)

lemma pm_same_demand: "pm_same pm pm' \<Longrightarrow> pm_demand pm' = pm_demand pm"
  by (auto simp: pm_same_def pm_demand_def fun_eq_iff)

lemma pm_same_wf: "pm_same pm pm' \<Longrightarrow> pm_wf pm \<Longrightarrow> pm_wf pm'"
  by (simp add: pm_same_def pm_wf_def)

lemma pm_set_mode_fields [simp]:
  "ps_log (pm_set_mode m st) = ps_log st" "ps_k (pm_set_mode m st) = ps_k st"
  "ps_lptimers (pm_set_mode m st) = ps_lptimers st" "ps_pm (pm_set_mode m st) = (ps_pm st)\<lparr>pm_sleep_mode := m\<rparr>"
  "pm_same (ps_pm st) (ps_pm (pm_set_mode m st))"
  by (simp_all add: pm_set_mode_def upd_pm_def pm_same_def)

lemma check_idle_length: "length (snd (check_idle_loop now ms)) = length ms"
  by (induction ms) (auto simp: Let_def split: prod.splits if_splits)

lemma check_idle_ok:
  "ps_log (snd (pm_device_check_idle st)) = ps_log st" "ps_k (snd (pm_device_check_idle st)) = ps_k st"
  "\<exists>ms. ps_pm (snd (pm_device_check_idle st)) = (ps_pm st)\<lparr>pm_module_status := ms\<rparr> \<and> length ms = length (pm_module_status (ps_pm st))"
  "ps_lptimers (snd (pm_device_check_idle st)) = ps_lptimers st"
  using check_idle_length [of "rt_tick_get (ps_k st)" "pm_module_status (ps_pm st)"]
  by (auto simp: pm_device_check_idle_def upd_pm_def Let_def split: prod.splits intro: exI [of _ "pm_module_status (ps_pm st)"])

lemma pm_choose_ok:
  obtains ms m where "pm_choose st = st\<lparr>ps_pm := (ps_pm st)\<lparr>pm_sleep_mode := m, pm_module_status := ms\<rparr>\<rparr>"
    "length ms = length (pm_module_status (ps_pm st))"
    "m = (if \<not> fst (pm_device_check_idle st) \<and> 1 < pm_select_sleep_mode (ps_pm st) then 1
          else pm_select_sleep_mode (ps_pm st))"
proof -
  let ?m = "pm_select_sleep_mode (ps_pm st)"
  let ?c = "pm_device_check_idle (pm_set_mode ?m st)"
  have f: "fst ?c = fst (pm_device_check_idle st)"
    by (auto simp: pm_device_check_idle_def upd_pm_def Let_def split: prod.splits)
  obtain ms where ms: "ps_pm (snd ?c) = (ps_pm (pm_set_mode ?m st))\<lparr>pm_module_status := ms\<rparr>"
    "length ms = length (pm_module_status (ps_pm st))"
    using check_idle_ok(3) [of "pm_set_mode ?m st"] by auto
  have c: "snd ?c = st\<lparr>ps_pm := (ps_pm st)\<lparr>pm_sleep_mode := ?m, pm_module_status := ms\<rparr>\<rparr>"
    using ms check_idle_ok [of "pm_set_mode ?m st"] by (intro pm_state.equality) simp_all
  show thesis
    by (rule that [of ms "if \<not> fst (pm_device_check_idle st) \<and> 1 < ?m then 1 else ?m"])
      (use c f ms(2) in \<open>auto simp: pm_choose_def pm_set_mode_def upd_pm_def Let_def split: prod.splits\<close>)
qed

lemma device_suspend_ok:
  "device_suspend_loop env mode ds ret st = (r, st') \<Longrightarrow> \<exists>es. st' = pm_call es st \<and> sleep_modes es = []"
proof (induction ds arbitrary: ret st)
  case (Cons d ds)
  show ?case
  proof (cases "pd_suspend d")
    case False
    then show ?thesis using Cons by simp
  next
    case True
    show ?thesis
    proof (cases "env_suspend env (ps_log st) = RT_EOK")
      case False
      then show ?thesis using True Cons.prems by (auto intro: exI [of _ "[Dev_suspend (pd_device d) mode]"])
    next
      case ok: True
      have "device_suspend_loop env mode ds RT_EOK (pm_call [Dev_suspend (pd_device d) mode] st) = (r, st')"
        using True ok Cons.prems by (simp add: Let_def)
      from Cons.IH [OF this] obtain es where
        "st' = pm_call es (pm_call [Dev_suspend (pd_device d) mode] st)" "sleep_modes es = []" by blast
      then show ?thesis by (auto intro: exI [of _ "Dev_suspend (pd_device d) mode # es"])
    qed
  qed
qed (auto intro: exI [of _ "[]"])

lemma pm_suspend_ok:
  assumes "pm_device_suspend env mode st = Some (r, st')"
  obtains es where "st' = pm_call es st" "sleep_modes es = []"
proof -
  obtain ds where "device_suspend_loop env mode ds RT_EOK st = (r, st')"
    using assms by (auto simp: pm_device_suspend_def bind_Some_iff)
  from device_suspend_ok [OF this] show thesis using that by blast
qed

lemma pm_resume_ok:
  assumes "pm_device_resume mode st = Some st'"
  obtains es where "st' = pm_call es st" "sleep_modes es = []"
  using assms by (auto simp: pm_device_resume_def bind_Some_iff)

lemma pm_notified_ok:
  assumes "sleep_modes [e] = []"
  obtains es where "pm_notified e st = pm_call es st" "sleep_modes es = []"
  using assms that [of "[e]"] that [of "[]"] by (cases "pm_notify (ps_pm st)") (auto simp: pm_notified_def)

lemma pm_program_eq:
  "pm_program st = (if pm_tickless st
     then pm_lptimer_start (pm_timer_next_timeout_tick (pm_sleep_mode (ps_pm st)) st - rt_tick_get (ps_k st)) st
     else st)"
proof -
  have thr: "pm_get_sleep_threshold_mode m t pm = m" for m t pm by (simp add: pm_get_sleep_threshold_mode_def)
  have set: "pm_set_mode (pm_sleep_mode (ps_pm st)) st = st" by (simp add: pm_set_mode_def upd_pm_def)
  show ?thesis unfolding pm_program_def thr set Let_def by simp
qed

lemma pm_start_ok: "\<exists>es. pm_lptimer_start t st = pm_call es st \<and> sleep_modes es = []"
  by (cases "\<exists>ops. pm_ops (ps_pm st) = Some ops \<and> op_timer_start ops")
    (auto simp: pm_lptimer_start_def split: option.splits
      intro: exI [of _ "[]"] exI [of _ "[Op_timer_start t]"])

lemma pm_program_ok: "\<exists>es. pm_program st = pm_call es st \<and> sleep_modes es = []"
  using pm_start_ok by (auto simp: pm_program_eq intro: exI [of _ "[]"])

lemma pm_stop_ok: "\<exists>es. pm_lptimer_stop st = pm_call es st \<and> sleep_modes es = []"
  by (cases "\<exists>ops. pm_ops (ps_pm st) = Some ops \<and> op_timer_stop ops")
    (auto simp: pm_lptimer_stop_def split: option.splits
      intro: exI [of _ "[]"] exI [of _ "[Op_timer_stop]"])

lemma pm_get_timeout_ok: "\<exists>es. snd (pm_lptimer_get_timeout env st) = pm_call es st \<and> sleep_modes es = []"
  by (cases "\<exists>ops. pm_ops (ps_pm st) = Some ops \<and> op_timer_get_tick ops")
    (auto simp: pm_lptimer_get_timeout_def split: option.splits
      intro: exI [of _ "[]"] exI [of _ "[Op_timer_get_tick]"])

text \<open>The part of \<open>pm_wake\<close> that reads the elapsed time and sets the tick.\<close>

definition pm_elapse :: "pm_env \<Rightarrow> pm_state \<Rightarrow> rt_tick_t \<times> pm_state" where
  "pm_elapse env st =
     (if pm_tickless st
      then let (d, st1) = pm_lptimer_get_timeout env st;
               st2 = pm_lptimer_stop st1
           in (d, if d \<noteq> 0 then st2\<lparr>ps_k := rt_tick_set (rt_tick_get (ps_k st2) + d) (ps_k st2)\<rparr> else st2)
      else (0, st))"

lemma pm_elapse_ok:
  "\<exists>es k. snd (pm_elapse env st) = (pm_call es st)\<lparr>ps_k := k\<rparr> \<and> sleep_modes es = []"
proof (cases "pm_tickless st")
  case False
  then show ?thesis by (intro exI [of _ "[]"] exI [of _ "ps_k st"]) (simp add: pm_elapse_def)
next
  case True
  obtain d st1 where g: "pm_lptimer_get_timeout env st = (d, st1)" by fastforce
  obtain es where es: "st1 = pm_call es st" "sleep_modes es = []" using pm_get_timeout_ok [of env st] g by auto
  obtain fs where fs: "pm_lptimer_stop st1 = pm_call fs st1" "sleep_modes fs = []" using pm_stop_ok by blast
  show ?thesis
    by (intro exI [of _ "es @ fs"]
        exI [of _ "if d \<noteq> 0 then rt_tick_set (rt_tick_get (ps_k st) + d) (ps_k st) else ps_k st"])
      (use True g es fs in \<open>simp add: pm_elapse_def\<close>)
qed

lemma pm_wake_eq:
  "pm_wake env user st = do {
     let (delta_tick, st1) = pm_elapse env st;
     st2 \<leftarrow> pm_device_resume (pm_sleep_mode (ps_pm st1)) st1;
     let st3 = pm_notified (Notify_exit (pm_sleep_mode (ps_pm st2))) st2;
     if pm_tickless st3 \<and> delta_tick \<noteq> 0
     then do { k \<leftarrow> rt_timer_check user (ps_k st3); Some (st3\<lparr>ps_k := k\<rparr>) }
     else Some st3
   }"
  by (simp only: pm_wake_def pm_elapse_def)

lemma pm_call_k: "pm_call es (st\<lparr>ps_k := k\<rparr>) = (pm_call es st)\<lparr>ps_k := k\<rparr>"
  by (simp add: pm_call_def)

lemma k_same: "\<exists>k. st = st\<lparr>ps_k := k\<rparr>"
  by (rule exI [of _ "ps_k st"]) simp

lemma pm_wake_ok:
  assumes "pm_wake env user st = Some st'"
  shows "\<exists>es k. st' = (pm_call es st)\<lparr>ps_k := k\<rparr> \<and> sleep_modes es = []"
proof -
  obtain d st1 where e: "pm_elapse env st = (d, st1)" by fastforce
  obtain as k1 where as: "st1 = (pm_call as st)\<lparr>ps_k := k1\<rparr>" "sleep_modes as = []"
    using pm_elapse_ok [of env st] e by auto
  obtain st2 where st2: "pm_device_resume (pm_sleep_mode (ps_pm st1)) st1 = Some st2"
    using assms e by (auto simp: pm_wake_eq bind_Some_iff)
  obtain bs where bs: "st2 = pm_call bs st1" "sleep_modes bs = []" by (rule pm_resume_ok [OF st2])
  obtain cs where cs: "pm_notified (Notify_exit (pm_sleep_mode (ps_pm st2))) st2 = pm_call cs st2" "sleep_modes cs = []"
    by (rule pm_notified_ok [of "Notify_exit (pm_sleep_mode (ps_pm st2))" st2]) simp_all
  have "\<exists>k. st' = (pm_call cs st2)\<lparr>ps_k := k\<rparr>"
    using assms e st2 cs
    by (auto simp: pm_wake_eq bind_Some_iff Let_def split: if_splits intro: k_same)
  then obtain k where "st' = (pm_call cs st2)\<lparr>ps_k := k\<rparr>" by blast
  then have "st' = (pm_call (as @ bs @ cs) st)\<lparr>ps_k := k\<rparr>" using as bs by (simp add: pm_call_k)
  then show ?thesis using as bs cs by (intro exI [of _ "as @ bs @ cs"] exI [of _ k]) simp
qed

text \<open>One run: it sleeps once, in the chosen mode unless a device could not be suspended.\<close>

lemma device_suspend_all_ok:
  assumes "\<forall>log. env_suspend env log = RT_EOK"
  shows "device_suspend_loop env mode ds RT_EOK st
    = (RT_EOK, pm_call (map (\<lambda>d. Dev_suspend (pd_device d) mode) (filter pd_suspend ds)) st)"
  using assms by (induction ds arbitrary: st) (simp_all add: Let_def)

lemma pm_change_ok:
  assumes run: "pm_change_sleep_mode env user st = Some st'"
    and drv: "pm_ops (ps_pm st) = Some drv" "op_sleep drv"
  shows "\<exists>es m. ps_log st' = ps_log st @ es \<and> sleep_modes es = [m] \<and> m \<le> pm_sleep_mode (ps_pm (pm_choose st))
    \<and> pm_same (ps_pm st) (ps_pm st')
    \<and> ((\<forall>log. env_suspend env log = RT_EOK) \<longrightarrow> m = pm_sleep_mode (ps_pm (pm_choose st)))"
proof -
  obtain ms mode where c: "pm_choose st = st\<lparr>ps_pm := (ps_pm st)\<lparr>pm_sleep_mode := mode, pm_module_status := ms\<rparr>\<rparr>"
    "length ms = length (pm_module_status (ps_pm st))"
    by (rule pm_choose_ok)
  let ?st1 = "pm_choose st"
  have m1: "pm_sleep_mode (ps_pm ?st1) = mode" "ps_log ?st1 = ps_log st" "pm_ops (ps_pm ?st1) = Some drv"
    "pm_same (ps_pm st) (ps_pm ?st1)"
    using c drv by (simp_all add: pm_same_def)
  show ?thesis
  proof (cases "mode = 0")
    case True
    then have "st' = pm_call [Op_sleep 0] ?st1"
      using run m1 drv by (simp add: pm_change_sleep_mode_def ops_sleep_def)
    then show ?thesis using m1 True by (intro exI [of _ "[Op_sleep 0]"] exI [of _ mode]) simp
  next
    case False
    obtain as where as: "pm_notified (Notify_enter mode) ?st1 = pm_call as ?st1" "sleep_modes as = []"
      by (rule pm_notified_ok [of "Notify_enter mode" ?st1]) simp_all
    obtain ret st3 where st3: "pm_device_suspend env mode (pm_call as ?st1) = Some (ret, st3)"
      using run False m1 as by (auto simp: pm_change_sleep_mode_def Let_def bind_Some_iff)
    obtain bs where bs: "st3 = pm_call bs (pm_call as ?st1)" "sleep_modes bs = []" by (rule pm_suspend_ok [OF st3])
    show ?thesis
    proof (cases "ret = RT_EOK")
      case ok: True
      obtain cs where cs: "pm_program st3 = pm_call cs st3" "sleep_modes cs = []" using pm_program_ok by blast
      let ?st4 = "pm_call cs st3"
      have m4: "pm_sleep_mode (ps_pm ?st4) = mode" "pm_ops (ps_pm ?st4) = Some drv" using bs m1 by simp_all
      then have "pm_sleep mode ?st4 = pm_call [Op_sleep mode] ?st4" using drv by (simp add: pm_sleep_def)
      then have "pm_wake env user (pm_call [Op_sleep mode] ?st4) = Some st'"
        using run False m1(1) as(1) st3 ok cs(1) m4(1) by (simp add: pm_change_sleep_mode_def Let_def)
      from pm_wake_ok [OF this] obtain ds k where ds: "st' = (pm_call ds (pm_call [Op_sleep mode] ?st4))\<lparr>ps_k := k\<rparr>"
        "sleep_modes ds = []" by blast
      then show ?thesis using bs as cs m1
        by (intro exI [of _ "as @ bs @ cs @ [Op_sleep mode] @ ds"] exI [of _ mode]) simp
    next
      case fail: False
      obtain st4 where st4: "pm_device_resume mode st3 = Some st4"
        using run False m1(1) as(1) st3 fail by (auto simp: pm_change_sleep_mode_def Let_def bind_Some_iff)
      obtain cs where cs: "st4 = pm_call cs st3" "sleep_modes cs = []" by (rule pm_resume_ok [OF st4])
      obtain ds where ds: "pm_notified (Notify_exit mode) st4 = pm_call ds st4" "sleep_modes ds = []"
        by (rule pm_notified_ok [of "Notify_exit mode" st4]) simp_all
      let ?m = "if 1 < mode then 1 else mode"
      let ?st6 = "if 1 < mode then pm_set_mode 1 (pm_call ds st4) else pm_call ds st4"
      have m6: "pm_sleep_mode (ps_pm ?st6) = ?m" "pm_ops (ps_pm ?st6) = Some drv" "ps_log ?st6 = ps_log st @ as @ bs @ cs @ ds"
        "pm_same (ps_pm st) (ps_pm ?st6)"
        using cs bs as m1 by (auto simp: pm_same_def)
      have "ops_sleep ?m ?st6 = Some st'"
        using run False m1(1) as(1) st3 fail st4 ds(1) m6(1) by (simp add: pm_change_sleep_mode_def Let_def split: if_splits)
      then have "st' = pm_call [Op_sleep ?m] ?st6" using m6(2) drv by (simp add: ops_sleep_def)
      moreover have "\<not> (\<forall>log. env_suspend env log = RT_EOK)"
      proof
        assume "\<forall>log. env_suspend env log = RT_EOK"
        note all = device_suspend_all_ok [OF this]
        show False using st3 fail by (auto simp: pm_device_suspend_def bind_Some_iff all)
      qed
      ultimately show ?thesis using as bs cs ds m1 m6
        by (intro exI [of _ "as @ bs @ cs @ ds @ [Op_sleep ?m]"] exI [of _ ?m]) auto
    qed
  qed
qed

section \<open>Histories\<close>

text \<open>
  The manager after \<^verbatim>\<open>rt_system_pm_init\<close> with what was asked of it since: calls, registrations, changes
  of the run mode, runs of the manager, and anything that happens in the rest of the kernel.
\<close>

inductive pm_reach :: "pm_state \<Rightarrow> demand \<Rightarrow> bool" where
  pm_start: "rt_system_pm_init ops timer_mask pm_static = Some pm \<Longrightarrow> ps_pm st = pm \<Longrightarrow>
    pm_reach st \<lparr>d_count = (\<lambda>_. 0)(0 := 1), d_held = {}\<rparr>"
| pm_asked: "pm_reach st d \<Longrightarrow> pm_apply oper (ps_pm st) = Some pm' \<Longrightarrow> within_counters (demand_apply oper d) \<Longrightarrow>
    pm_reach (st\<lparr>ps_pm := pm'\<rparr>) (demand_apply oper d)"
| pm_device: "pm_reach st d \<Longrightarrow>
    rt_pm_device_register ok dev st = Some st' \<or> rt_pm_device_unregister n st = Some st' \<Longrightarrow> pm_reach st' d"
| pm_notifies: "pm_reach st d \<Longrightarrow> pm_reach (upd_pm (rt_pm_notify_set b) st) d"
| pm_runs: "pm_reach st d \<Longrightarrow> rt_pm_run_enter mode st = Some (r, st') \<Longrightarrow> pm_reach st' d"
| pm_manages: "pm_reach st d \<Longrightarrow> rt_system_power_manager env user st = Some st' \<Longrightarrow> pm_reach st' d"
| pm_kernel: "pm_reach st d \<Longrightarrow> pm_reach (st\<lparr>ps_k := k, ps_lptimers := lps\<rparr>) d"

lemma pm_device_same:
  "rt_pm_device_register ok dev st = Some st' \<Longrightarrow> pm_same (ps_pm st) (ps_pm st')"
  "rt_pm_device_unregister n st = Some st' \<Longrightarrow> pm_same (ps_pm st) (ps_pm st')"
  by (auto simp: rt_pm_device_register_def rt_pm_device_unregister_def bind_Some_iff upd_pm_def pm_same_def
    split: if_splits option.splits)

lemma frequency_ok:
  assumes "pm_device_frequency_change mode st = Some st'"
  obtains es where "st' = pm_call es st" "sleep_modes es = []"
  using assms by (auto simp: pm_device_frequency_change_def bind_Some_iff)

lemma run_enter_same:
  assumes "rt_pm_run_enter mode st = Some (r, st')"
  shows "pm_same (ps_pm st) (ps_pm st')"
proof -
  have f: "ps_pm st2 = ps_pm st1" if "pm_device_frequency_change mode st1 = Some st2" for st1 st2
    using frequency_ok [OF that] by (metis pm_call_fields(1))
  show ?thesis using assms
    by (auto simp: rt_pm_run_enter_def ops_run_def bind_Some_iff upd_pm_def pm_same_def dest!: f split: if_splits)
qed

lemma scaling_same:
  assumes "pm_frequency_scaling st = Some st'"
  shows "pm_same (ps_pm st) (ps_pm st')" "pm_ops (ps_pm st') = pm_ops (ps_pm st)"
proof -
  have f: "ps_pm st2 = ps_pm st1" if "pm_device_frequency_change mode st1 = Some st2" for mode st1 st2
    using frequency_ok [OF that] by (metis pm_call_fields(1))
  show "pm_same (ps_pm st) (ps_pm st')" "pm_ops (ps_pm st') = pm_ops (ps_pm st)" using assms
    by (auto simp: pm_frequency_scaling_def ops_run_def bind_Some_iff upd_pm_def pm_same_def dest!: f split: if_splits)
qed

lemma scaling_ok:
  assumes "pm_frequency_scaling st = Some st'"
  shows "\<exists>es. ps_log st' = ps_log st @ es \<and> sleep_modes es = []"
    "fst (pm_device_check_idle st') = fst (pm_device_check_idle st)"
proof -
  have "\<exists>es f. st' = upd_pm (\<lambda>pm. pm\<lparr>pm_flags := f\<rparr>) (pm_call es st) \<and> sleep_modes es = []"
  proof (cases "pm_flags (ps_pm st) AND 1 = 0")
    case True
    then have "st' = upd_pm (\<lambda>pm. pm\<lparr>pm_flags := pm_flags (ps_pm st)\<rparr>) (pm_call [] st)"
      using assms by (simp add: pm_frequency_scaling_def upd_pm_def)
    then show ?thesis by fastforce
  next
    case False
    then obtain st2 where st2: "pm_device_frequency_change (pm_run_mode (ps_pm st)) (pm_call [Op_run (pm_run_mode (ps_pm st))] st) = Some st2"
      "st' = upd_pm (\<lambda>pm. pm\<lparr>pm_flags := pm_flags pm AND NOT 1\<rparr>) st2"
      using assms by (auto simp: pm_frequency_scaling_def ops_run_def bind_Some_iff)
    obtain es where es: "st2 = pm_call es (pm_call [Op_run (pm_run_mode (ps_pm st))] st)" "sleep_modes es = []"
      by (rule frequency_ok [OF st2(1)])
    have "st' = upd_pm (\<lambda>pm. pm\<lparr>pm_flags := pm_flags (ps_pm st) AND NOT 1\<rparr>) (pm_call (Op_run (pm_run_mode (ps_pm st)) # es) st)"
      using st2(2) es(1) by (simp add: upd_pm_def)
    then show ?thesis using es(2) by (intro exI [of _ "Op_run (pm_run_mode (ps_pm st)) # es"]) auto
  qed
  then obtain es f where e: "st' = upd_pm (\<lambda>pm. pm\<lparr>pm_flags := f\<rparr>) (pm_call es st)" "sleep_modes es = []" by blast
  then show "\<exists>es. ps_log st' = ps_log st @ es \<and> sleep_modes es = []" by (auto simp: upd_pm_def)
  show "fst (pm_device_check_idle st') = fst (pm_device_check_idle st)"
    by (auto simp: e(1) pm_device_check_idle_def upd_pm_def Let_def split: prod.splits)
qed

text \<open>The manager's state keeps its form also where the driver has no sleep operation.\<close>

lemma pm_change_same:
  assumes run: "pm_change_sleep_mode env user st = Some st'"
  shows "pm_same (ps_pm st) (ps_pm st')"
proof -
  obtain ms mode where c: "pm_choose st = st\<lparr>ps_pm := (ps_pm st)\<lparr>pm_sleep_mode := mode, pm_module_status := ms\<rparr>\<rparr>"
    "length ms = length (pm_module_status (ps_pm st))"
    by (rule pm_choose_ok)
  let ?st1 = "pm_choose st"
  have m1: "pm_sleep_mode (ps_pm ?st1) = mode" "pm_same (ps_pm st) (ps_pm ?st1)"
    using c by (simp_all add: pm_same_def)
  have called: "ps_pm st2 = ps_pm st1" if "ops_sleep m st1 = Some st2" for m st1 st2
    using that by (auto simp: ops_sleep_def bind_Some_iff)
  show ?thesis
  proof (cases "mode = 0")
    case True
    then show ?thesis using run m1 called by (auto simp: pm_change_sleep_mode_def Let_def)
  next
    case False
    obtain as where as: "pm_notified (Notify_enter mode) ?st1 = pm_call as ?st1"
      using pm_notified_ok [of "Notify_enter mode" ?st1] by auto
    obtain ret st3 where st3: "pm_device_suspend env mode (pm_call as ?st1) = Some (ret, st3)"
      using run False m1 as by (auto simp: pm_change_sleep_mode_def Let_def bind_Some_iff)
    obtain bs where bs: "st3 = pm_call bs (pm_call as ?st1)" by (rule pm_suspend_ok [OF st3])
    show ?thesis
    proof (cases "ret = RT_EOK")
      case True
      obtain cs where cs: "pm_program st3 = pm_call cs st3" using pm_program_ok by blast
      have "ps_pm (pm_sleep m st) = ps_pm st" for m st by (auto simp: pm_sleep_def split: option.splits)
      moreover obtain m st4 where "pm_wake env user (pm_sleep m st4) = Some st'" "st4 = pm_call cs st3"
        using run False m1(1) as st3 True cs by (auto simp: pm_change_sleep_mode_def Let_def)
      ultimately show ?thesis using pm_wake_ok [of env user "pm_sleep m st4" st'] bs m1(2) by auto
    next
      case fail: False
      obtain st4 where st4: "pm_device_resume mode st3 = Some st4"
        using run False m1(1) as st3 fail by (auto simp: pm_change_sleep_mode_def Let_def bind_Some_iff)
      obtain cs where cs: "st4 = pm_call cs st3" by (rule pm_resume_ok [OF st4])
      obtain ds where ds: "pm_notified (Notify_exit mode) st4 = pm_call ds st4"
        using pm_notified_ok [of "Notify_exit mode" st4] by auto
      let ?st6 = "if 1 < mode then pm_set_mode 1 (pm_call ds st4) else pm_call ds st4"
      have "pm_same (ps_pm st) (ps_pm ?st6)" using cs bs m1 by (auto simp: pm_same_def)
      moreover have "ops_sleep (pm_sleep_mode (ps_pm ?st6)) ?st6 = Some st'"
        using run False m1(1) as st3 fail st4 ds by (simp add: pm_change_sleep_mode_def Let_def split: if_splits)
      ultimately show ?thesis using called by metis
    qed
  qed
qed

lemma pm_init_demand:
  assumes "rt_system_pm_init ops timer_mask pm_static = Some pm"
  shows "pm_wf pm \<and> pm_demand pm = \<lparr>d_count = (\<lambda>_. 0)(0 := 1), d_held = {}\<rparr> \<and> pm_default_deepsleep pm = 3"
proof -
  have pm: "pm = (set_req_status 1 1 (pm_static\<lparr>pm_modes := (replicate 6 0)[0 := 1], pm_sleep_mode := 0\<rparr>))
      \<lparr>pm_run_mode := 1, pm_timer_mask := timer_mask, pm_ops := ops, pm_device_pm := [],
        pm_device_pm_number := 0, pm_init_flag := True\<rparr>"
    using assms by (simp add: rt_system_pm_init_def pm_static_def arr_set_def bind_Some_iff Let_def)
  have "pm_wf pm" by (simp add: pm pm_wf_def set_req_status_def pm_static_def)
  moreover have "pm_default_deepsleep pm = 3" by (simp add: pm set_req_status_def pm_static_def)
  moreover have "pm_modes pm ! m = (if m = 0 then 1 else 0)" if "m < 6" for m
    using that by (simp add: pm set_req_status_def nth_list_update)
  moreover have "pm_sleep_status pm ! m ! 0 = 0" if "m < 5" for m
    using that by (simp add: pm set_req_status_def pm_static_def)
  ultimately show ?thesis by (auto simp: pm_demand_def fun_eq_iff)
qed

lemma pm_same_keeps:
  assumes "pm_same pm pm'"
    and "pm_wf pm \<and> held_ok d \<and> pm_demand pm = d \<and> pm_default_deepsleep pm = 3"
  shows "pm_wf pm' \<and> held_ok d \<and> pm_demand pm' = d \<and> pm_default_deepsleep pm' = 3"
  using assms(2) pm_same_wf [OF assms(1)] pm_same_demand [OF assms(1)] assms(1) by (simp add: pm_same_def)

lemma pm_reach_inv:
  "pm_reach st d \<Longrightarrow> pm_wf (ps_pm st) \<and> held_ok d \<and> pm_demand (ps_pm st) = d \<and> pm_default_deepsleep (ps_pm st) = 3"
proof (induction rule: pm_reach.induct)
  case (pm_start ops timer_mask pm st)
  then show ?case using pm_init_demand by (simp add: held_ok_def)
next
  case (pm_asked st d oper pm')
  have i: "pm_wf (ps_pm st)" "held_ok (pm_demand (ps_pm st))" "pm_demand (ps_pm st) = d" "pm_default_deepsleep (ps_pm st) = 3"
    using pm_asked.IH by auto
  have few: "within_counters (demand_apply oper (pm_demand (ps_pm st)))" unfolding i(3) by (rule pm_asked(3))
  note q = pm_apply_refines [OF i(1,2) pm_asked(2) few, unfolded i(3,4)]
  then have "held_ok (demand_apply oper d)" by (elim conjE) (simp only:)
  then show ?case using q by simp
next
  case (pm_device st d ok dev st' n)
  then have "pm_same (ps_pm st) (ps_pm st')" using pm_device_same by blast
  then show ?case by (rule pm_same_keeps) (rule pm_device.IH)
next
  case (pm_notifies st d b)
  have "pm_same (ps_pm st) (ps_pm (upd_pm (rt_pm_notify_set b) st))"
    by (simp add: upd_pm_def rt_pm_notify_set_def pm_same_def)
  then show ?case by (rule pm_same_keeps) (rule pm_notifies.IH)
next
  case (pm_runs st d mode r st')
  then have "pm_same (ps_pm st) (ps_pm st')" using run_enter_same by blast
  then show ?case by (rule pm_same_keeps) (rule pm_runs.IH)
next
  case (pm_manages st d env user st')
  have "pm_same (ps_pm st) (ps_pm st')"
  proof (cases "pm_init_flag (ps_pm st)")
    case False
    then show ?thesis using pm_manages(2) by (simp add: rt_system_power_manager_def)
  next
    case True
    then obtain st1 where "pm_frequency_scaling st = Some st1" "pm_change_sleep_mode env user st1 = Some st'"
      using pm_manages(2) by (auto simp: rt_system_power_manager_def bind_Some_iff)
    then show ?thesis using scaling_same(1) pm_change_same pm_same_trans by blast
  qed
  then show ?case by (rule pm_same_keeps) (rule pm_manages.IH)
qed simp

text \<open>The chosen mode is no deeper than any mode that is asked for.\<close>

lemma demand_mode_least:
  "0 < d_count d m \<Longrightarrow> demand_mode deep d \<le> m" "(m, n) \<in> d_held d \<Longrightarrow> demand_mode deep d \<le> m"
proof -
  show "demand_mode deep d \<le> m" if "0 < d_count d m"
    using that Least_le [of "\<lambda>m. 0 < d_count d m" m] by (auto simp: demand_mode_def min_le_iff_disj)
  show "demand_mode deep d \<le> m" if "(m, n) \<in> d_held d"
  proof -
    have "(LEAST m. \<exists>n. (m, n) \<in> d_held d) \<le> m" using that by (intro Least_le) blast
    moreover have "d_held d \<noteq> {}" using that by blast
    ultimately show ?thesis by (simp add: demand_mode_def min_le_iff_disj)
  qed
qed

section \<open>Sleep up to the next timeout\<close>

text \<open>The order of the timers when the tick has moved on to, or towards, the first of them.\<close>

lemma timers_after_advance:
  assumes "timers_after b s" "\<And>i. i \<in> set (k_timers s Timer_list) \<Longrightarrow> unat n \<le> left_from b (tm_timeout_tick (k_timer s i))"
  shows "timers_after (b + n) s"
proof -
  let ?t = "\<lambda>i. tm_timeout_tick (k_timer s i)"
  have left: "left_from (b + n) (?t i) = left_from b (?t i) - unat n" if "i \<in> set (k_timers s Timer_list)" for i
  proof -
    have "?t i - (b + n) = (?t i - b) - n" by simp
    moreover have "n \<le> ?t i - b" using assms(2) [OF that] by (simp add: left_from_def word_le_nat_alt)
    ultimately show ?thesis using unat_sub [of n "?t i - b"] by (simp only: left_from_def)
  qed
  have "sorted (map (\<lambda>i. left_from (b + n) (?t i)) (k_timers s Timer_list))"
  proof -
    have "map (\<lambda>i. left_from (b + n) (?t i)) (k_timers s Timer_list)
        = map (\<lambda>c. c - unat n) (map (\<lambda>i. left_from b (?t i)) (k_timers s Timer_list))"
      using left by (simp add: comp_def)
    moreover have "sorted (map (\<lambda>i. left_from b (?t i)) (k_timers s Timer_list))" using assms(1) by (simp add: timers_after_def)
    moreover have "sorted (map (\<lambda>c. c - unat n) cs)" if "sorted cs" for cs :: "nat list"
      using that by (induction cs) (auto intro: diff_le_mono)
    ultimately show ?thesis by (simp only:)
  qed
  moreover have "left_from (b + n) (?t i) < 2 ^ 31 - 1" if "i \<in> set (k_timers s Timer_list)" for i
    using left [OF that] assms(1) that by (auto simp: timers_after_def)
  ultimately show ?thesis using assms(1) by (simp add: timers_after_def)
qed

lemma next_timeout_first:
  assumes "timers_after (k_tick s) s" "i \<in> set (k_timers s Timer_list)"
    "n \<le> rt_timer_next_timeout_tick s - k_tick s"
  shows "unat n \<le> left_from (k_tick s) (tm_timeout_tick (k_timer s i))"
proof -
  obtain j js where L: "k_timers s Timer_list = j # js" using assms(2) by (cases "k_timers s Timer_list") auto
  then have "unat n \<le> left_from (k_tick s) (tm_timeout_tick (k_timer s j))"
    using assms(3) by (simp add: rt_timer_next_timeout_tick_def timer_list_next_timeout_def left_from_def word_le_nat_alt)
  also have "\<dots> \<le> left_from (k_tick s) (tm_timeout_tick (k_timer s i))"
    using assms(1,2) L by (auto simp: timers_after_def)
  finally show ?thesis .
qed

text \<open>
  The kernel after n ticks of sleep, at most up to the first timer: the tick is set and the timers
  are checked, as \<^verbatim>\<open>_pm_change_sleep_mode\<close> does when n is not zero.
\<close>

lemma sleep_ticks_ok:
  fixes s :: kstate and n :: rt_tick_t
  defines "s1 \<equiv> if n \<noteq> 0 then s\<lparr>k_tick := k_tick s + n\<rparr> else s"
  assumes clk: "clock_inv s" and user: "user_quiet user" and le: "n \<le> rt_timer_next_timeout_tick s - k_tick s"
  shows "\<exists>s'. (if n \<noteq> 0 then rt_timer_check user s1 else Some s1) = Some s' \<and> k_tick s' = k_tick s + n \<and> clock_inv s'
      \<and> (\<forall>t. awake s t \<or> ThreadTimer t \<in> set (k_timers s Timer_list)
            \<and> tm_timeout_tick (k_timer s (ThreadTimer t)) = k_tick s + n \<longrightarrow> awake s' t)
      \<and> (\<forall>t. ThreadTimer t \<in> set (k_timers s Timer_list) \<longrightarrow> awake s' t
            \<or> ThreadTimer t \<in> set (k_timers s' Timer_list) \<and> k_timer s' (ThreadTimer t) = k_timer s (ThreadTimer t))"
proof -
  note ci = clk [unfolded clock_inv_def]
  have tick: "k_tick s1 = k_tick s + n" by (simp add: s1_def)
  have "timers_after (k_tick s + n) s"
    using ci next_timeout_first [of s _ n] le by (intro timers_after_advance) auto
  then have "timers_after (k_tick s + n) s1" by (auto simp: s1_def timers_after_def)
  then have srt: "timers_after (k_tick s1) s1" by (simp only: tick)
  have inv1: "kinv s1" using ci kinv_cong [of s1 s] by (simp add: s1_def)
  show ?thesis
  proof (cases "n = 0")
    case True
    have "tm_timeout_tick (k_timer s i) \<noteq> k_tick s" if "i \<in> set (k_timers s Timer_list)" for i
      using ci that by (auto simp: due_def filter_empty_conv)
    then show ?thesis using True clk by (intro exI [of _ s]) (auto simp: s1_def)
  next
    case False
    have per: "periods_ok s1" "k_current s1 \<noteq> None" using ci by (simp_all add: s1_def periods_ok_def)
    obtain s' where s': "rt_timer_check user s1 = Some s'" "check_ok s1 s'"
      using timer_check_ok [OF inv1 per(2) srt per(1) user] by blast
    note ck = s'(2) [unfolded check_ok_def]
    have "clock_inv s'" using ck by (simp add: clock_inv_def)
    moreover have "awake s1 t = awake s t" for t by (simp add: s1_def)
    moreover have "ThreadTimer t \<in> set (due s1) \<longleftrightarrow> ThreadTimer t \<in> set (k_timers s Timer_list)
        \<and> tm_timeout_tick (k_timer s (ThreadTimer t)) = k_tick s + n" for t
      by (auto simp: due_def s1_def)
    moreover have "k_timers s1 = k_timers s" "k_timer s1 = k_timer s" by (simp_all add: s1_def)
    ultimately show ?thesis using ck False s'(1) tick by (intro exI [of _ s']) auto
  qed
qed

definition pm_all_ops :: rt_pm_ops where
  "pm_all_ops = \<lparr>op_sleep = True, op_run = True, op_timer_start = True, op_timer_stop = True, op_timer_get_tick = True\<rparr>"

lemma pm_notified_eq: "\<exists>es. \<forall>st'. ps_pm st' = pm \<longrightarrow> pm_notified e st' = pm_call es st'"
  by (cases "pm_notify pm") (auto simp: pm_notified_def intro: exI [of _ "[e]"] exI [of _ "[]"])

lemma pm_light_sleep_ok:
  assumes clk: "clock_inv (ps_k st)" and user: "user_quiet user"
    and light: "pm_sleep_mode (ps_pm (pm_choose st)) = 2" and mask: "bit (pm_timer_mask (ps_pm st)) 2"
    and drv: "pm_ops (ps_pm st) = Some pm_all_ops" and devs: "pm_entries (ps_pm st) = Some ds"
    and susp: "\<forall>log. env_suspend env log = RT_EOK"
    and elapsed: "\<forall>log. env_elapsed env log \<le> rt_timer_next_timeout_tick (ps_k st) - k_tick (ps_k st)"
  shows "\<exists>as bs st'. pm_change_sleep_mode env user st = Some st'
    \<and> (let n = env_elapsed env (ps_log st @ as @ [Op_timer_start (rt_timer_next_timeout_tick (ps_k st) - k_tick (ps_k st)), Op_sleep 2])
       in k_tick (ps_k st') = k_tick (ps_k st) + n
        \<and> (\<forall>t. awake (ps_k st) t \<or> ThreadTimer t \<in> set (k_timers (ps_k st) Timer_list)
               \<and> tm_timeout_tick (k_timer (ps_k st) (ThreadTimer t)) = k_tick (ps_k st) + n \<longrightarrow> awake (ps_k st') t)
        \<and> (\<forall>t. ThreadTimer t \<in> set (k_timers (ps_k st) Timer_list) \<longrightarrow> awake (ps_k st') t
               \<or> ThreadTimer t \<in> set (k_timers (ps_k st') Timer_list)
                 \<and> k_timer (ps_k st') (ThreadTimer t) = k_timer (ps_k st) (ThreadTimer t)))
    \<and> clock_inv (ps_k st')
    \<and> ps_log st' = ps_log st @ as
        @ [Op_timer_start (rt_timer_next_timeout_tick (ps_k st) - k_tick (ps_k st)), Op_sleep 2, Op_timer_get_tick, Op_timer_stop] @ bs"
proof -
  let ?s = "ps_k st"
  define x where "x = rt_timer_next_timeout_tick ?s - k_tick ?s"
  obtain ms mode where c: "pm_choose st = st\<lparr>ps_pm := (ps_pm st)\<lparr>pm_sleep_mode := mode, pm_module_status := ms\<rparr>\<rparr>"
    by (rule pm_choose_ok)
  define pm where "pm = ps_pm (pm_choose st)"
  have pm: "pm_sleep_mode pm = 2" "bit (pm_timer_mask pm) 2" "pm_ops pm = Some pm_all_ops" "pm_entries pm = Some ds"
    using c light mask drv devs by (simp_all add: pm_def pm_entries_def)
  let ?st1 = "pm_choose st"
  have st1: "ps_pm ?st1 = pm" "ps_log ?st1 = ps_log st" "ps_k ?st1 = ?s" using c by (simp_all add: pm_def)
  obtain en where en: "\<And>st'. ps_pm st' = pm \<Longrightarrow> pm_notified (Notify_enter 2) st' = pm_call en st'"
    using pm_notified_eq [of pm "Notify_enter 2"] by blast
  obtain ex where ex: "\<And>st'. ps_pm st' = pm \<Longrightarrow> pm_notified (Notify_exit 2) st' = pm_call ex st'"
    using pm_notified_eq [of pm "Notify_exit 2"] by blast
  let ?as = "en @ map (\<lambda>d. Dev_suspend (pd_device d) 2) (filter pd_suspend ds)"
  let ?rs = "map (\<lambda>d. Dev_resume (pd_device d) 2) (filter pd_resume ds)"
  let ?st3 = "pm_call ?as ?st1"
  have e: "pm_notified (Notify_enter 2) ?st1 = pm_call en ?st1" by (rule en) (rule st1(1))
  have sus: "pm_device_suspend env 2 (pm_call en ?st1) = Some (RT_EOK, ?st3)"
    using pm(4) st1(1) device_suspend_all_ok [OF susp, of 2 ds "pm_call en ?st1"] by (simp add: pm_device_suspend_def)
  have tl: "pm_tickless st'" if "ps_pm st' = pm" for st' using that pm by (simp add: pm_tickless_def)
  let ?st4 = "pm_call [Op_timer_start x] ?st3"
  have prog: "pm_program ?st3 = ?st4"
    using pm st1 tl [of ?st3] by (simp add: pm_program_eq pm_timer_next_timeout_tick_def pm_lptimer_start_def
        pm_all_ops_def x_def rt_tick_get_def)
  let ?st5 = "pm_call [Op_sleep 2] ?st4"
  have slp: "pm_sleep 2 ?st4 = ?st5" using pm st1 by (simp add: pm_sleep_def pm_all_ops_def)
  have run: "pm_change_sleep_mode env user st = pm_wake env user ?st5"
    using pm st1 e sus prog slp by (simp add: pm_change_sleep_mode_def Let_def)
  define n where "n = env_elapsed env (ps_log ?st5)"
  define s1 where "s1 = (if n \<noteq> 0 then ?s\<lparr>k_tick := k_tick ?s + n\<rparr> else ?s)"
  let ?st6 = "(pm_call [Op_timer_get_tick, Op_timer_stop] ?st5)\<lparr>ps_k := s1\<rparr>"
  have p5: "ps_pm ?st5 = pm" "ps_k ?st5 = ?s" using st1 by simp_all
  have el: "pm_elapse env ?st5 = (n, ?st6)"
    using tl [OF p5(1)] pm p5 by (simp add: pm_elapse_def pm_lptimer_get_timeout_def pm_lptimer_stop_def pm_all_ops_def
        n_def s1_def rt_tick_set_def rt_tick_get_def pm_call_def)
  let ?st7 = "pm_call ?rs ?st6"
  have p6: "ps_pm ?st6 = pm" using p5 by simp
  have res: "pm_device_resume 2 ?st6 = Some ?st7" using p6 pm by (simp add: pm_device_resume_def)
  let ?st8 = "pm_call ex ?st7"
  have p7: "ps_pm ?st7 = pm" using p6 by simp
  have p8: "ps_pm ?st8 = pm" "ps_k ?st8 = s1" using p7 by simp_all
  have "st'\<lparr>ps_k := ps_k st'\<rparr> = st'" for st' :: pm_state by simp
  from this [of ?st8] have same: "?st8\<lparr>ps_k := s1\<rparr> = ?st8" by (simp only: p8(2))
  have wake: "pm_wake env user ?st5
      = (if n \<noteq> 0 then map_option (\<lambda>k. ?st8\<lparr>ps_k := k\<rparr>) (rt_timer_check user s1) else Some ?st8)"
    unfolding pm_wake_eq el using res p6 p7 p8 pm(1) ex [OF p7] tl [OF p8(1)]
    by (cases "rt_timer_check user s1") (simp_all add: Let_def)
  have log: "ps_log ?st8 = ps_log st @ ?as @ [Op_timer_start x, Op_sleep 2, Op_timer_get_tick, Op_timer_stop] @ ?rs @ ex"
    using st1 by simp
  have n_eq: "env_elapsed env (ps_log st @ ?as @ [Op_timer_start x, Op_sleep 2]) = n" using st1 by (simp add: n_def)
  have "n \<le> rt_timer_next_timeout_tick ?s - k_tick ?s" using elapsed by (simp add: n_def)
  then obtain s' where k: "(if n \<noteq> 0 then rt_timer_check user s1 else Some s1) = Some s'"
    and s': "k_tick s' = k_tick ?s + n" "clock_inv s'"
    "\<forall>t. awake ?s t \<or> ThreadTimer t \<in> set (k_timers ?s Timer_list)
        \<and> tm_timeout_tick (k_timer ?s (ThreadTimer t)) = k_tick ?s + n \<longrightarrow> awake s' t"
    "\<forall>t. ThreadTimer t \<in> set (k_timers ?s Timer_list) \<longrightarrow> awake s' t
        \<or> ThreadTimer t \<in> set (k_timers s' Timer_list) \<and> k_timer s' (ThreadTimer t) = k_timer ?s (ThreadTimer t)"
    using sleep_ticks_ok [OF clk user, of n] unfolding s1_def by auto
  have woken: "pm_wake env user ?st5 = Some (?st8\<lparr>ps_k := s'\<rparr>)" using wake k same by (auto split: if_splits)
  show ?thesis unfolding x_def [symmetric] Let_def run woken
    by (rule exI [of _ ?as], rule exI [of _ "?rs @ ex"], rule exI [of _ "?st8\<lparr>ps_k := s'\<rparr>"])
      (use s' n_eq log in auto)
qed

section \<open>The next low-power timer\<close>

lemma lptimer_scan_least:
  "let A = {i \<in> set is. tm_activated (k_timer k i)}; left = (\<lambda>i. tm_timeout_tick (k_timer k i) - cur_tick) in
   lptimer_scan k cur_tick min_tick timeout_tick is = timeout_tick \<and> (\<forall>i \<in> A. min_tick \<le> left i)
   \<or> (\<exists>i \<in> A. lptimer_scan k cur_tick min_tick timeout_tick is = tm_timeout_tick (k_timer k i)
        \<and> left i < min_tick \<and> (\<forall>j \<in> A. left i \<le> left j))"
proof (induction "is" arbitrary: min_tick timeout_tick)
  case (Cons i "is")
  let ?left = "tm_timeout_tick (k_timer k i) - cur_tick"
  show ?case
  proof (cases "tm_activated (k_timer k i) \<and> min_tick > ?left")
    case True
    then show ?thesis using Cons.IH [of ?left "tm_timeout_tick (k_timer k i)"]
      by (auto simp: Let_def intro: less_imp_le less_trans)
  next
    case False
    then show ?thesis using Cons.IH [of min_tick timeout_tick] by (auto simp: Let_def not_less intro: less_imp_le less_le_trans)
  qed
qed simp

text \<open>The active low-power timer that expires first; with none, the greatest tick.\<close>

lemma lptimer_next_least:
  assumes "i \<in> set (ps_lptimers st)" "tm_activated (k_timer (ps_k st) i)"
    "tm_timeout_tick (k_timer (ps_k st) i) - k_tick (ps_k st) < RT_TICK_MAX"
  shows "\<exists>j \<in> set (ps_lptimers st). tm_activated (k_timer (ps_k st) j)
    \<and> rt_lptimer_next_timeout_tick st = tm_timeout_tick (k_timer (ps_k st) j)
    \<and> tm_timeout_tick (k_timer (ps_k st) j) - k_tick (ps_k st) \<le> tm_timeout_tick (k_timer (ps_k st) i) - k_tick (ps_k st)"
  using lptimer_scan_least [of "ps_lptimers st" "ps_k st" "k_tick (ps_k st)" RT_TICK_MAX RT_TICK_MAX] assms
  by (auto simp: rt_lptimer_next_timeout_tick_def rt_tick_get_def Let_def not_less [symmetric])


section \<open>What the code does not do\<close>

text \<open>The thresholds have no effect.\<close>

lemma pm_threshold_ignored: "pm_get_sleep_threshold_mode mode timeout_tick pm = mode"
  by (simp add: pm_get_sleep_threshold_mode_def)

text \<open>
  Without a timer the manager programs the rest of the tick range instead of no timeout: at the last
  tick before the wrap-around it sleeps for no tick.
\<close>

lemma pm_no_timer_not_endless:
  assumes "k_timers (ps_k st) Timer_list = []"
  shows "pm_timer_next_timeout_tick 2 st - rt_tick_get (ps_k st) = RT_TICK_MAX - k_tick (ps_k st)"
    and "k_tick (ps_k st) = RT_TICK_MAX \<Longrightarrow> pm_timer_next_timeout_tick 2 st - rt_tick_get (ps_k st) = 0"
  using assms by (simp_all add: pm_timer_next_timeout_tick_def rt_timer_next_timeout_tick_def
    timer_list_next_timeout_def rt_tick_get_def)

text \<open>The 256th request is forgotten: the counters stay as they are, so 255 releases undo 256 requests.\<close>

lemma pm_requests_saturate:
  assumes "pm_modes pm ! unat m = 255" "unat m < PM_SLEEP_MODE_MAX" "pm_wf pm"
  shows "rt_pm_request m pm = pm" "d_count (demand_apply (Request m) (pm_demand pm)) (unat m) = 256"
  using assms by (auto simp: rt_pm_request_def mode_inc_def Let_def pm_wf_def demand_apply_def count_update_def
      pm_demand_def list_update_same_conv)

text \<open>\<^verbatim>\<open>rt_pm_module_release_all\<close> accepts any module number, and \<^verbatim>\<open>rt_pm_run_enter\<close> the mode after the last.\<close>

lemma pm_release_all_foreign_module:
  "pm_init_flag pm \<Longrightarrow> rt_pm_module_release_all 17 0 pm = None"
  by (simp add: rt_pm_module_release_all_def)

lemma pm_run_mode_past_last:
  "pm_init_flag (ps_pm st) \<Longrightarrow> pm_run_mode (ps_pm st) \<le> 4 \<Longrightarrow>
   \<exists>st'. rt_pm_run_enter 4 st = Some (RT_EOK, st') \<and> pm_run_mode (ps_pm st') = 4"
  by (auto simp: rt_pm_run_enter_def upd_pm_def)

text \<open>A driver without \<^verbatim>\<open>timer_get_tick\<close> makes every sleep with a timer turn the tick back by one.\<close>

lemma pm_tick_goes_back:
  assumes "pm_tickless st" "pm_ops (ps_pm st) = Some ops" "\<not> op_timer_get_tick ops"
  shows "k_tick (ps_k (snd (pm_elapse env st))) = k_tick (ps_k st) - 1"
  using assms by (auto simp: pm_elapse_def pm_lptimer_get_timeout_def pm_lptimer_stop_def rt_tick_set_def rt_tick_get_def)


section \<open>Properties\<close>

text \<open>
  The least time to the next timeout for which a mode is meant to be used (Kconfig and rtconfig.h:
  5 ticks for light sleep, 20 for deep sleep, 100 for standby); the other modes have none.
\<close>

definition mode_threshold :: "nat \<Rightarrow> rt_tick_t" where
  "mode_threshold m = (if m = 2 then PM_LIGHT_THRESHOLD_TIME else if m = 3 then PM_DEEP_THRESHOLD_TIME
     else if m = 4 then PM_STANDBY_THRESHOLD_TIME else 0)"

definition timeout_far :: "nat \<Rightarrow> pm_state \<Rightarrow> bool" where
  "timeout_far m st \<longleftrightarrow> bit (pm_timer_mask (ps_pm st)) m
     \<longrightarrow> mode_threshold m \<le> pm_timer_next_timeout_tick (word_of_nat m) st - k_tick (ps_k st)"

text \<open>
  C40: in every history of the power manager, in which modules request, release and hold modes (with
  at most 255 requests of one mode outstanding, the range of its counters), each run of the
  manager by the idle thread calls the sleep operation once, never with a mode deeper than one of
  which a request is outstanding or which a module holds at that time; and with the least such mode
  (deep sleep when nothing is asked) when no module is busy, all devices can be suspended, and the
  thresholds do not ask for a lighter one: the mode sleeps with ticks, or the next timeout is at
  least the threshold of the mode away.
\<close>

theorem pm_sleeps_no_deeper:
  assumes "pm_reach st d" "pm_ops (ps_pm st) = Some drv" "op_sleep drv"
    and "rt_system_power_manager env user st = Some st'"
  shows "\<exists>es m. ps_log st' = ps_log st @ es \<and> sleep_modes es = [m]
    \<and> (\<forall>k. 0 < d_count d k \<longrightarrow> unat m \<le> k) \<and> (\<forall>(k, n) \<in> d_held d. unat m \<le> k)
    \<and> (fst (pm_device_check_idle st) \<and> (\<forall>log. env_suspend env log = RT_EOK) \<and> timeout_far (demand_mode 3 d) st
         \<longrightarrow> unat m = demand_mode 3 d)"
proof -
  note inv = pm_reach_inv [OF assms(1)]
  then have "pm_init_flag (ps_pm st)" by (simp add: pm_wf_def)
  then obtain st1 where st1: "pm_frequency_scaling st = Some st1" "pm_change_sleep_mode env user st1 = Some st'"
    using assms(4) by (auto simp: rt_system_power_manager_def bind_Some_iff)
  note sc = scaling_ok [OF st1(1)]
  have drv: "pm_ops (ps_pm st1) = Some drv" using scaling_same(2) [OF st1(1)] assms(2) by simp
  obtain as where as: "ps_log st1 = ps_log st @ as" "sleep_modes as = []" using sc(1) by blast
  obtain es m where es: "ps_log st' = ps_log st1 @ es" "sleep_modes es = [m]" "m \<le> pm_sleep_mode (ps_pm (pm_choose st1))"
    "(\<forall>log. env_suspend env log = RT_EOK) \<longrightarrow> m = pm_sleep_mode (ps_pm (pm_choose st1))"
    using pm_change_ok [OF st1(2) drv assms(3)] by blast
  obtain ms mode where c: "pm_choose st1 = st1\<lparr>ps_pm := (ps_pm st1)\<lparr>pm_sleep_mode := mode, pm_module_status := ms\<rparr>\<rparr>"
    "mode = (if \<not> fst (pm_device_check_idle st1) \<and> 1 < pm_select_sleep_mode (ps_pm st1) then 1
          else pm_select_sleep_mode (ps_pm st1))"
    by (rule pm_choose_ok)
  have "unat (pm_select_sleep_mode (ps_pm st1)) = demand_mode 3 d"
    using select_is_demand [of "ps_pm st1"] pm_same_keeps [OF scaling_same(1) [OF st1(1)] inv] by simp
  then have "unat mode \<le> demand_mode 3 d" "fst (pm_device_check_idle st) \<Longrightarrow> unat mode = demand_mode 3 d"
    using c(2) sc(2) by (auto simp: word_less_nat_alt)
  moreover have "unat m \<le> unat mode" using es(3) c(1) by (simp add: word_le_nat_alt)
  ultimately have le: "unat m \<le> demand_mode 3 d"
    and eq: "fst (pm_device_check_idle st) \<and> (\<forall>log. env_suspend env log = RT_EOK) \<Longrightarrow> unat m = demand_mode 3 d"
    using es(4) c(1) by auto
  have "unat m \<le> k" if "0 < d_count d k" for k using le demand_mode_least(1) [OF that, of 3] by simp
  moreover have "unat m \<le> k" if "(k, n) \<in> d_held d" for k n using le demand_mode_least(2) [OF that, of 3] by simp
  ultimately show ?thesis using as es(1,2) eq by (intro exI [of _ "as @ es"] exI [of _ m]) auto
qed

text \<open>A manager that is asked for light sleep, in the kernel of Samples, whose thread 7 waits until tick 105.\<close>

definition pm_sample :: pm_state where
  "pm_sample = \<lparr>ps_pm = (set_req_status 1 1 (pm_static\<lparr>pm_modes := [0, 0, 1, 0, 0, 0], pm_sleep_mode := 0\<rparr>))
      \<lparr>pm_run_mode := 1, pm_timer_mask := 4, pm_ops := Some pm_all_ops, pm_device_pm := [],
        pm_device_pm_number := 0, pm_init_flag := True\<rparr>,
     ps_log = [], ps_lptimers = [], ps_k = k_sample\<rparr>"

definition env_sample :: pm_env where
  "env_sample = \<lparr>env_suspend = (\<lambda>_. RT_EOK), env_elapsed = (\<lambda>_. 5)\<rparr>"

lemma pm_sample_reached: "pm_reach pm_sample \<lparr>d_count = (\<lambda>_. 0)(2 := 1), d_held = {}\<rparr>"
proof -
  let ?pm = "\<lambda>ms. (ps_pm pm_sample)\<lparr>pm_modes := ms\<rparr>"
  let ?st = "\<lambda>ms. pm_sample\<lparr>ps_pm := ?pm ms\<rparr>"
  have init: "rt_system_pm_init (Some pm_all_ops) 4 pm_static = Some (?pm [1, 0, 0, 0, 0, 0])"
    by (simp add: rt_system_pm_init_def pm_sample_def pm_static_def set_req_status_def arr_set_def eval_nat_numeral)
  then have r0: "pm_reach (?st [1, 0, 0, 0, 0, 0]) \<lparr>d_count = (\<lambda>_. 0)(0 := 1), d_held = {}\<rparr>"
    by (rule pm_start) simp
  let ?d = "demand_apply (Release 0) \<lparr>d_count = (\<lambda>_. 0)(0 := 1), d_held = {}\<rparr>"
  have few: "within_counters ?d" "within_counters (demand_apply (Request 2) ?d)"
    by (simp_all add: within_counters_def demand_apply_def count_update_def)
  have i: "pm_init_flag (?pm ms)" for ms by (simp add: pm_sample_def)
  have "pm_apply (Release 0) (?pm [1, 0, 0, 0, 0, 0]) = Some (?pm [0, 0, 0, 0, 0, 0])"
    using i by (simp add: pm_apply_def rt_pm_release_def mode_dec_def Let_def)
  from pm_asked [OF r0, of "Release 0" "?pm [0, 0, 0, 0, 0, 0]"] this few(1)
  have r1: "pm_reach (?st [0, 0, 0, 0, 0, 0]) ?d" by simp
  have "pm_apply (Request 2) (?pm [0, 0, 0, 0, 0, 0]) = Some (?pm [0, 0, 1, 0, 0, 0])"
    using i by (simp add: pm_apply_def rt_pm_request_def mode_inc_def Let_def)
  from pm_asked [OF r1, of "Request 2" "?pm [0, 0, 1, 0, 0, 0]"] this few(2)
  have r2: "pm_reach (?st [0, 0, 1, 0, 0, 0]) (demand_apply (Request 2) ?d)" by simp
  have "?st [0, 0, 1, 0, 0, 0] = pm_sample" by (simp add: pm_sample_def set_req_status_def)
  moreover have "demand_apply (Request 2) ?d
      = \<lparr>d_count = (\<lambda>_. 0)(2 := 1), d_held = {}\<rparr>"
    by (simp add: demand_apply_def count_update_def fun_eq_iff)
  ultimately show ?thesis using r2 by simp
qed

lemma pm_sample_demand: "demand_mode 3 \<lparr>d_count = (\<lambda>_. 0)(2 := 1), d_held = {}\<rparr> = 2"
proof -
  have "(LEAST m :: nat. 0 < ((\<lambda>_. 0)(2 := 1 :: nat)) m) = 2" by (rule Least_equality) (auto split: if_splits)
  then show ?thesis by (simp add: demand_mode_def)
qed

lemma pm_sample_idle: "fst (pm_device_check_idle pm_sample)"
proof -
  have idle: "check_idle_loop now ms = (True, ms)" if "\<forall>m \<in> set ms. \<not> mo_busy_flag m" for now ms
    using that by (induction ms) (auto simp: Let_def)
  have "\<forall>m \<in> set (pm_module_status (ps_pm pm_sample)). \<not> mo_busy_flag m"
    by (auto simp: pm_sample_def set_req_status_def pm_static_def dest!: set_update_subset_insert [THEN subsetD])
  then show ?thesis using idle by (simp add: pm_device_check_idle_def)
qed

lemma pm_sample_facts:
  "pm_sleep_mode (ps_pm (pm_choose pm_sample)) = 2" "bit (pm_timer_mask (ps_pm pm_sample)) 2"
  "pm_ops (ps_pm pm_sample) = Some pm_all_ops" "pm_entries (ps_pm pm_sample) = Some []"
  "pm_frequency_scaling pm_sample = Some pm_sample" "pm_init_flag (ps_pm pm_sample)"
  "\<forall>log. env_suspend env_sample log = RT_EOK"
  "\<forall>log. env_elapsed env_sample log \<le> rt_timer_next_timeout_tick (ps_k pm_sample) - k_tick (ps_k pm_sample)"
proof -
  have "unat (pm_select_sleep_mode (ps_pm pm_sample)) = unat (2 :: rt_uint8_t)"
    using select_is_demand [of "ps_pm pm_sample"] pm_reach_inv [OF pm_sample_reached] pm_sample_demand by simp
  then have sel: "pm_select_sleep_mode (ps_pm pm_sample) = 2" by (rule unsigned_word_eqI)
  obtain ms m where "pm_choose pm_sample = pm_sample\<lparr>ps_pm := (ps_pm pm_sample)\<lparr>pm_sleep_mode := m, pm_module_status := ms\<rparr>\<rparr>"
    "m = (if \<not> fst (pm_device_check_idle pm_sample) \<and> 1 < pm_select_sleep_mode (ps_pm pm_sample) then 1
          else pm_select_sleep_mode (ps_pm pm_sample))"
    by (rule pm_choose_ok)
  then show "pm_sleep_mode (ps_pm (pm_choose pm_sample)) = 2" using sel pm_sample_idle by simp
  show "bit (pm_timer_mask (ps_pm pm_sample)) 2" by (simp add: pm_sample_def)
  show "pm_ops (ps_pm pm_sample) = Some pm_all_ops" "pm_init_flag (ps_pm pm_sample)"
    "pm_entries (ps_pm pm_sample) = Some []" "pm_frequency_scaling pm_sample = Some pm_sample"
    by (simp_all add: pm_sample_def pm_entries_def fetch_def pm_frequency_scaling_def pm_static_def set_req_status_def)
  show "\<forall>log. env_suspend env_sample log = RT_EOK" by (simp add: env_sample_def)
  show "\<forall>log. env_elapsed env_sample log \<le> rt_timer_next_timeout_tick (ps_k pm_sample) - k_tick (ps_k pm_sample)"
    by (simp add: env_sample_def pm_sample_def rt_timer_next_timeout_tick_def timer_list_next_timeout_def timers_sample_def)
qed

lemma pm_sample_clock: "clock_inv (ps_k pm_sample)" "user_quiet (\<lambda>_. Some)"
  using clock_sample(1,4) by (simp_all add: pm_sample_def)

theorem pm_sleeps_no_deeper_witness:
  "\<exists>st' es. rt_system_power_manager env_sample (\<lambda>_. Some) pm_sample = Some st'
     \<and> ps_log st' = ps_log pm_sample @ es \<and> sleep_modes es = [2]"
proof -
  obtain st' where st': "pm_change_sleep_mode env_sample (\<lambda>_. Some) pm_sample = Some st'"
    using pm_light_sleep_ok [OF pm_sample_clock pm_sample_facts(1-4,7,8)] by blast
  then have run: "rt_system_power_manager env_sample (\<lambda>_. Some) pm_sample = Some st'"
    using pm_sample_facts(5,6) by (simp add: rt_system_power_manager_def)
  have drv: "op_sleep pm_all_ops" by (simp add: pm_all_ops_def)
  have far: "timeout_far (demand_mode 3 \<lparr>d_count = (\<lambda>_. 0)(2 := 1), d_held = {}\<rparr>) pm_sample"
    unfolding pm_sample_demand
    by (simp add: timeout_far_def mode_threshold_def pm_timer_next_timeout_tick_def pm_sample_def
        rt_timer_next_timeout_tick_def timer_list_next_timeout_def timers_sample_def)
  obtain es m where es: "ps_log st' = ps_log pm_sample @ es" "sleep_modes es = [m]"
    "fst (pm_device_check_idle pm_sample) \<and> (\<forall>log. env_suspend env_sample log = RT_EOK)
       \<and> timeout_far (demand_mode 3 \<lparr>d_count = (\<lambda>_. 0)(2 := 1), d_held = {}\<rparr>) pm_sample
      \<longrightarrow> unat m = demand_mode 3 \<lparr>d_count = (\<lambda>_. 0)(2 := 1), d_held = {}\<rparr>"
    using pm_sleeps_no_deeper [OF pm_sample_reached pm_sample_facts(3) drv run] by (elim exE conjE) (rule that)
  then have "unat m = 2" using far pm_sample_facts(7) pm_sample_idle pm_sample_demand by simp
  then have "unat m = unat (2 :: rt_uint8_t)" by simp
  then have "m = 2" by (rule unsigned_word_eqI)
  then show ?thesis using run es by blast
qed

end
