(* ===== verification/Shell.thy ===== *)
theory Shell
  imports Prelude "HOL-Library.Sublist"
begin

text \<open>
  The command shell of components/finsh: the line editor of \<^verbatim>\<open>finsh_thread_entry\<close> with its history
  (shell.c), the splitting of a line into arguments, the search for the command and the completion
  of names (msh.c), and the number tests of msh_parse.c.  What is printed is left out; a command is
  known by its number and is handed its arguments as strings.
\<close>

section \<open>Strings\<close>

type_synonym cchar = rt_uint8_t

text \<open>The functions of the C library on arrays of bytes; without a NUL in the array they fail.\<close>

fun c_strlen :: "cchar list \<Rightarrow> nat option" where
  "c_strlen [] = None"
| "c_strlen (c # cs) = (if c = 0 then Some 0 else map_option Suc (c_strlen cs))"

text \<open>Whether \<^verbatim>\<open>strncmp\<close> is 0.\<close>

fun strncmp_eq :: "cchar list \<Rightarrow> cchar list \<Rightarrow> nat \<Rightarrow> bool option" where
  "strncmp_eq a b 0 = Some True"
| "strncmp_eq (c # a) (d # b) (Suc n) = (if c \<noteq> d then Some False else if c = 0 then Some True else strncmp_eq a b n)"
| "strncmp_eq _ _ (Suc n) = None"

text \<open>The string at an offset of an array, as a called function reads it.\<close>

definition c_string :: "cchar list \<Rightarrow> nat \<Rightarrow> cchar list option" where
  "c_string buf off = do { n \<leftarrow> c_strlen (drop off buf); fetch buf off n }"

definition memmove :: "cchar list \<Rightarrow> nat \<Rightarrow> nat \<Rightarrow> nat \<Rightarrow> cchar list option" where
  "memmove buf dst src n = do { xs \<leftarrow> fetch buf src n; blit buf dst xs }"

text \<open>The n bytes that \<^verbatim>\<open>rt_strncpy\<close> writes.\<close>

fun strncpy_bytes :: "cchar list \<Rightarrow> nat \<Rightarrow> cchar list option" where
  "strncpy_bytes src 0 = Some []"
| "strncpy_bytes [] (Suc n) = None"
| "strncpy_bytes (c # src) (Suc n) =
     (if c = 0 then Some (replicate (Suc n) 0) else map_option ((#) c) (strncpy_bytes src n))"

abbreviation (input) is_blank :: "cchar \<Rightarrow> bool" where "is_blank c \<equiv> c = 0x20 \<or> c = 0x09"
abbreviation (input) DQUOTE :: cchar where "DQUOTE \<equiv> 0x22"
abbreviation (input) BACKSLASH :: cchar  where "BACKSLASH \<equiv> 0x5c"

abbreviation FINSH_CMD_SIZE :: nat where "FINSH_CMD_SIZE \<equiv> 80"
abbreviation FINSH_ARG_MAX :: nat where "FINSH_ARG_MAX \<equiv> 10"
abbreviation FINSH_HISTORY_LINES :: nat where "FINSH_HISTORY_LINES \<equiv> 5"


section \<open>Splitting a line\<close>

text \<open>
  The loops of \<^verbatim>\<open>msh_split\<close>.  ptr is always cmd + position, and cmd is an offset of the line.
\<close>

function strip_blanks :: "nat \<Rightarrow> nat \<Rightarrow> nat \<Rightarrow> cchar list \<Rightarrow> (nat \<times> cchar list) option" where
  "strip_blanks cmd len position buf = do {
     c \<leftarrow> arr_get buf (cmd + position);
     if is_blank c \<and> position < len
     then do { buf1 \<leftarrow> arr_set buf (cmd + position) 0; strip_blanks cmd len (position + 1) buf1 }
     else Some (position, buf)
   }"
  by pat_completeness auto
termination by (relation "measure (\<lambda>(cmd, len, position, buf). len - position)") auto

function skip_string :: "nat \<Rightarrow> nat \<Rightarrow> nat \<Rightarrow> cchar list \<Rightarrow> nat option" where
  "skip_string cmd len position buf = do {
     c \<leftarrow> arr_get buf (cmd + position);
     if c \<noteq> DQUOTE \<and> position < len
     then if c = BACKSLASH
       then do {
         d \<leftarrow> arr_get buf (cmd + position + 1);
         skip_string cmd len (if d = DQUOTE then position + 2 else position + 1) buf
       }
       else skip_string cmd len (position + 1) buf
     else Some position
   }"
  by pat_completeness auto
termination by (relation "measure (\<lambda>(cmd, len, position, buf). len - position)") auto

function skip_word :: "nat \<Rightarrow> nat \<Rightarrow> nat \<Rightarrow> cchar list \<Rightarrow> nat option" where
  "skip_word cmd len position buf = do {
     c \<leftarrow> arr_get buf (cmd + position);
     if \<not> is_blank c \<and> position < len then skip_word cmd len (position + 1) buf else Some position
   }"
  by pat_completeness auto
termination by (relation "measure (\<lambda>(cmd, len, position, buf). len - position)") auto

declare strip_blanks.simps [simp del] skip_string.simps [simp del] skip_word.simps [simp del]

text \<open>The result is argv as offsets, and the line with a NUL behind each argument.\<close>

function split_loop :: "nat \<Rightarrow> nat \<Rightarrow> nat \<Rightarrow> nat list \<Rightarrow> cchar list \<Rightarrow> (nat list \<times> cchar list) option" where
  "split_loop cmd len position argv buf =
     (if position < len then do {
        (p1, b1) \<leftarrow> strip_blanks cmd len position buf;
        if length argv \<ge> FINSH_ARG_MAX then Some (argv, b1)
        else if p1 \<ge> len then Some (argv, b1)
        else do {
          c \<leftarrow> arr_get b1 (cmd + p1);
          if c = DQUOTE then do {
            p2 \<leftarrow> skip_string cmd len (p1 + 1) b1;
            if p2 \<ge> len then Some (argv @ [cmd + p1 + 1], b1)
            else do {
              b2 \<leftarrow> arr_set b1 (cmd + p2) 0;
              split_loop cmd len (p2 + 1) (argv @ [cmd + p1 + 1]) b2
            }
          }
          else do {
            p2 \<leftarrow> skip_word cmd len p1 b1;
            if p2 \<ge> len then Some (argv @ [cmd + p1], b1)
            else split_loop cmd len p2 (argv @ [cmd + p1]) b1
          }
        }
      } else Some (argv, buf))"
  by pat_completeness auto
termination by (relation "measure (\<lambda>(cmd, len, position, argv, buf). FINSH_ARG_MAX - length argv)") auto

declare split_loop.simps [simp del]

definition msh_split :: "nat \<Rightarrow> nat \<Rightarrow> cchar list \<Rightarrow> (nat list \<times> cchar list) option" where
  "msh_split cmd len buf = split_loop cmd len 0 [] buf"


section \<open>Commands\<close>

text \<open>The table of commands, in its order: \<^verbatim>\<open>name\<close> without its NUL, and the number of \<^verbatim>\<open>func\<close>.\<close>

record finsh_syscall =
  sc_name :: "cchar list"
  sc_func :: nat

fun msh_get_cmd :: "finsh_syscall list \<Rightarrow> cchar list \<Rightarrow> nat \<Rightarrow> nat option option" where
  "msh_get_cmd [] cmd len = Some None"
| "msh_get_cmd (index # table) cmd len = do {
     same \<leftarrow> strncmp_eq (sc_name index @ [0]) cmd len;
     if same then do {
       c \<leftarrow> arr_get (sc_name index @ [0]) len;
       if c = 0 then Some (Some (sc_func index)) else msh_get_cmd table cmd len
     }
     else msh_get_cmd table cmd len
   }"

text \<open>What becomes of a line: nothing, a call of a command with its arguments, or the name that was not found.\<close>

datatype exec_result = Exec_nothing | Exec_call nat "cchar list list" | Exec_not_found "cchar list"

fun c_strings :: "cchar list \<Rightarrow> nat list \<Rightarrow> cchar list list option" where
  "c_strings buf [] = Some []"
| "c_strings buf (p # ps) = do { s \<leftarrow> c_string buf p; ss \<leftarrow> c_strings buf ps; Some (s # ss) }"

text \<open>\<^verbatim>\<open>_msh_exec_cmd\<close>; the result None stands for \<^verbatim>\<open>-RT_ERROR\<close>.  The loop for the first word is that of \<open>skip_word\<close>.\<close>

definition msh_exec_cmd ::
  "finsh_syscall list \<Rightarrow> cchar list \<Rightarrow> nat \<Rightarrow> nat \<Rightarrow> (exec_result option \<times> cchar list) option" where
  "msh_exec_cmd table buf cmd len = do {
     cmd0_size \<leftarrow> skip_word cmd len 0 buf;
     if cmd0_size = 0 then Some (None, buf)
     else do {
       cmd_func \<leftarrow> msh_get_cmd table (drop cmd buf) cmd0_size;
       case cmd_func of
         None \<Rightarrow> Some (None, buf)
       | Some f \<Rightarrow> do {
           (argv, buf1) \<leftarrow> msh_split cmd len buf;
           if argv = [] then Some (None, buf1)
           else do { args \<leftarrow> c_strings buf1 argv; Some (Some (Exec_call f args), buf1) }
         }
     }
   }"

function strim :: "cchar list \<Rightarrow> nat \<Rightarrow> nat \<Rightarrow> (nat \<times> nat) option" where
  "strim buf cmd len =
     (if len > 0 then do { c \<leftarrow> arr_get buf cmd; if is_blank c then strim buf (cmd + 1) (len - 1) else Some (cmd, len) }
      else Some (cmd, len))"
  by pat_completeness auto
termination by (relation "measure (\<lambda>(buf, cmd, len). len)") auto

text \<open>The name that is reported ends at the first space.\<close>

function first_space :: "cchar list \<Rightarrow> nat \<Rightarrow> nat option" where
  "first_space buf tcmd = do {
     c \<leftarrow> arr_get buf tcmd;
     if c \<noteq> 0x20 \<and> c \<noteq> 0 then first_space buf (tcmd + 1) else Some tcmd
   }"
  by pat_completeness auto
termination
  by (relation "measure (\<lambda>(buf, tcmd). length buf - tcmd)") (auto simp: arr_get_def split: if_splits)

declare strim.simps [simp del] first_space.simps [simp del]

definition msh_exec :: "finsh_syscall list \<Rightarrow> cchar list \<Rightarrow> nat \<Rightarrow> (exec_result \<times> cchar list) option" where
  "msh_exec table line len = do {
     (cmd, len1) \<leftarrow> strim line 0 len;
     if len1 = 0 then Some (Exec_nothing, line)
     else do {
       (r, buf) \<leftarrow> msh_exec_cmd table line cmd len1;
       case r of
         Some x \<Rightarrow> Some (x, buf)
       | None \<Rightarrow> do {
           tcmd \<leftarrow> first_space buf cmd;
           buf1 \<leftarrow> arr_set buf tcmd 0;
           name \<leftarrow> c_string buf1 cmd;
           Some (Exec_not_found name, buf1)
         }
     }
   }"

section \<open>Completion\<close>

fun str_common :: "cchar list \<Rightarrow> cchar list \<Rightarrow> nat option" where
  "str_common (c # str1) (d # str2) = (if c \<noteq> 0 \<and> d \<noteq> 0 \<and> c = d then map_option Suc (str_common str1 str2) else Some 0)"
| "str_common _ _ = None"

text \<open>The loop over the commands; \<^verbatim>\<open>name_ptr\<close> with its NUL, or NULL at the start.\<close>

fun completion_loop ::
  "cchar list \<Rightarrow> nat \<Rightarrow> finsh_syscall list \<Rightarrow> cchar list option \<Rightarrow> nat \<Rightarrow> (cchar list option \<times> nat) option" where
  "completion_loop pre n [] name_ptr min_length = Some (name_ptr, min_length)"
| "completion_loop pre n (index # table) name_ptr min_length = do {
     let cmd_name = sc_name index @ [0];
     same \<leftarrow> strncmp_eq pre cmd_name n;
     if same then do {
       name_ptr1 \<leftarrow> (if min_length = 0 then Some cmd_name else name_ptr);
       min_length1 \<leftarrow> (if min_length = 0 then c_strlen cmd_name else Some min_length);
       common \<leftarrow> str_common name_ptr1 cmd_name;
       completion_loop pre n table (Some name_ptr1) (if common < min_length1 then common else min_length1)
     }
     else completion_loop pre n table name_ptr min_length
   }"

definition msh_auto_complete :: "finsh_syscall list \<Rightarrow> cchar list \<Rightarrow> cchar list option" where
  "msh_auto_complete table pre = do {
     c \<leftarrow> arr_get pre 0;
     if c = 0 then Some pre
     else do {
       n \<leftarrow> c_strlen pre;
       (name_ptr, min_length) \<leftarrow> completion_loop pre n table None 0;
       case name_ptr of
         None \<Rightarrow> Some pre
       | Some name \<Rightarrow> do { xs \<leftarrow> strncpy_bytes name min_length; blit pre 0 xs }
     }
   }"


section \<open>The line editor\<close>

datatype input_stat = WAIT_NORMAL | WAIT_SPEC_KEY | WAIT_FUNC_KEY

record finsh_shell =
  sh_stat :: input_stat
  sh_echo_mode :: bool
  sh_prompt_mode :: bool
  sh_current_history :: rt_uint16_t
  sh_history_count :: rt_uint16_t
  sh_cmd_history :: "cchar list list"
  sh_line :: "cchar list"
  sh_line_position :: rt_uint16_t
  sh_line_curpos :: rt_uint16_t

text \<open>The structure as \<^verbatim>\<open>finsh_system_init\<close> allocates it and \<^verbatim>\<open>finsh_thread_entry\<close> starts with it.\<close>

definition finsh_start :: finsh_shell where
  "finsh_start = \<lparr>sh_stat = WAIT_NORMAL, sh_echo_mode = True, sh_prompt_mode = True,
     sh_current_history = 0, sh_history_count = 0,
     sh_cmd_history = replicate FINSH_HISTORY_LINES (replicate FINSH_CMD_SIZE 0),
     sh_line = replicate (FINSH_CMD_SIZE + 1) 0, sh_line_position = 0, sh_line_curpos = 0\<rparr>"

definition set_line :: "cchar list \<Rightarrow> rt_uint16_t \<Rightarrow> rt_uint16_t \<Rightarrow> finsh_shell \<Rightarrow> finsh_shell" where
  "set_line line position curpos sh = sh\<lparr>sh_line := line, sh_line_position := position, sh_line_curpos := curpos\<rparr>"

text \<open>A row of the history with the first \<^verbatim>\<open>line_position\<close> bytes of the line.\<close>

definition history_row :: "finsh_shell \<Rightarrow> cchar list option" where
  "history_row sh = do {
     xs \<leftarrow> fetch (sh_line sh) 0 (unat (sh_line_position sh));
     blit (replicate FINSH_CMD_SIZE 0) 0 xs
   }"

definition shell_push_history :: "finsh_shell \<Rightarrow> finsh_shell option" where
  "shell_push_history sh = do {
     sh1 \<leftarrow>
       (if sh_line_position sh \<noteq> 0 then
          if unat (sh_history_count sh) \<ge> FINSH_HISTORY_LINES then
            if sh_cmd_history sh ! (FINSH_HISTORY_LINES - 1) \<noteq> take FINSH_CMD_SIZE (sh_line sh) then do {
              row \<leftarrow> history_row sh;
              Some (sh\<lparr>sh_cmd_history := tl (sh_cmd_history sh) @ [row],
                       sh_history_count := word_of_nat FINSH_HISTORY_LINES\<rparr>)
            }
            else Some sh
          else
            if sh_history_count sh = 0
               \<or> sh_cmd_history sh ! (unat (sh_history_count sh) - 1) \<noteq> take FINSH_CMD_SIZE (sh_line sh) then do {
              row \<leftarrow> history_row sh;
              Some (sh\<lparr>sh_cmd_history := (sh_cmd_history sh)[unat (sh_history_count sh) := row],
                       sh_history_count := sh_history_count sh + 1\<rparr>)
            }
            else Some sh
        else Some sh);
     Some (sh1\<lparr>sh_current_history := sh_history_count sh1\<rparr>)
   }"

definition load_history :: "rt_uint16_t \<Rightarrow> finsh_shell \<Rightarrow> finsh_shell option" where
  "load_history n sh = do {
     row \<leftarrow> arr_get (sh_cmd_history sh) (unat n);
     line \<leftarrow> blit (sh_line sh) 0 row;
     len \<leftarrow> c_strlen line;
     Some (set_line line (word_of_nat len) (word_of_nat len) (sh\<lparr>sh_current_history := n\<rparr>))
   }"

text \<open>The four keys that are sent as three bytes.\<close>

definition finsh_func_key :: "cchar \<Rightarrow> finsh_shell \<Rightarrow> finsh_shell option" where
  "finsh_func_key ch sh =
     (if ch = 0x41 then
        if sh_current_history sh > 0 then load_history (sh_current_history sh - 1) sh else Some sh
      else if ch = 0x42 then
        if int (unat (sh_current_history sh)) < int (unat (sh_history_count sh)) - 1
        then load_history (sh_current_history sh + 1) sh
        else if sh_history_count sh \<noteq> 0 then load_history (sh_history_count sh - 1) sh else Some sh
      else if ch = 0x44 then
        if sh_line_curpos sh \<noteq> 0 then Some (sh\<lparr>sh_line_curpos := sh_line_curpos sh - 1\<rparr>) else Some sh
      else
        if sh_line_curpos sh < sh_line_position sh
        then do { c \<leftarrow> arr_get (sh_line sh) (unat (sh_line_curpos sh)); Some (sh\<lparr>sh_line_curpos := sh_line_curpos sh + 1\<rparr>) }
        else Some sh)"

definition finsh_tab :: "finsh_syscall list \<Rightarrow> finsh_shell \<Rightarrow> finsh_shell option" where
  "finsh_tab table sh = do {
     line \<leftarrow> msh_auto_complete table (sh_line sh);
     len \<leftarrow> c_strlen line;
     Some (set_line line (word_of_nat len) (word_of_nat len) sh)
   }"

definition finsh_backspace :: "finsh_shell \<Rightarrow> finsh_shell option" where
  "finsh_backspace sh =
     (if sh_line_curpos sh = 0 then Some sh
      else do {
        let position = sh_line_position sh - 1;
        let curpos = sh_line_curpos sh - 1;
        line \<leftarrow> (if position > curpos
                  then memmove (sh_line sh) (unat curpos) (unat curpos + 1) (unat position - unat curpos)
                  else Some (sh_line sh));
        line1 \<leftarrow> arr_set line (unat position) 0;
        Some (set_line line1 position curpos sh)
      })"

definition finsh_enter :: "finsh_syscall list \<Rightarrow> finsh_shell \<Rightarrow> (exec_result \<times> finsh_shell) option" where
  "finsh_enter table sh = do {
     sh1 \<leftarrow> shell_push_history sh;
     (r, line) \<leftarrow> msh_exec table (sh_line sh1) (unat (sh_line_position sh1));
     Some (r, set_line (replicate (FINSH_CMD_SIZE + 1) 0) 0 0 sh1)
   }"

definition finsh_insert :: "cchar \<Rightarrow> finsh_shell \<Rightarrow> finsh_shell option" where
  "finsh_insert ch sh = do {
     let position = (if unat (sh_line_position sh) \<ge> FINSH_CMD_SIZE then 0 else sh_line_position sh);
     let curpos = sh_line_curpos sh;
     line \<leftarrow> (if curpos < position
               then do {
                 line \<leftarrow> memmove (sh_line sh) (unat curpos + 1) (unat curpos) (unat position - unat curpos);
                 arr_set line (unat curpos) ch
               }
               else arr_set (sh_line sh) (unat position) ch);
     Some (if unat (position + 1) \<ge> FINSH_CMD_SIZE then set_line line 0 0 sh
           else set_line line (position + 1) (curpos + 1) sh)
   }"

text \<open>One turn of the loop of \<^verbatim>\<open>finsh_thread_entry\<close>, for the byte ch that was read.\<close>

definition finsh_plain :: "finsh_syscall list \<Rightarrow> cchar \<Rightarrow> finsh_shell \<Rightarrow> (exec_result option \<times> finsh_shell) option" where
  "finsh_plain table ch sh =
     (if ch = 0 \<or> ch = 0xff then Some (None, sh)
      else if ch = 0x09 then map_option (Pair None) (finsh_tab table sh)
      else if ch = 0x7f \<or> ch = 0x08 then map_option (Pair None) (finsh_backspace sh)
      else if ch = 0x0d \<or> ch = 0x0a then map_option (map_prod Some id) (finsh_enter table sh)
      else map_option (Pair None) (finsh_insert ch sh))"

definition finsh_char :: "finsh_syscall list \<Rightarrow> cchar \<Rightarrow> finsh_shell \<Rightarrow> (exec_result option \<times> finsh_shell) option" where
  "finsh_char table ch sh =
     (if ch = 0x1b then Some (None, sh\<lparr>sh_stat := WAIT_SPEC_KEY\<rparr>)
      else if sh_stat sh = WAIT_SPEC_KEY then
        if ch = 0x5b then Some (None, sh\<lparr>sh_stat := WAIT_FUNC_KEY\<rparr>)
        else finsh_plain table ch (sh\<lparr>sh_stat := WAIT_NORMAL\<rparr>)
      else if sh_stat sh = WAIT_FUNC_KEY then
        let sh1 = sh\<lparr>sh_stat := WAIT_NORMAL\<rparr>
        in if ch = 0x41 \<or> ch = 0x42 \<or> ch = 0x44 \<or> ch = 0x43 then map_option (Pair None) (finsh_func_key ch sh1)
           else finsh_plain table ch sh1
      else finsh_plain table ch sh)"

text \<open>The bytes of the device in turn, with the results of the lines.\<close>

fun finsh_run :: "finsh_syscall list \<Rightarrow> cchar list \<Rightarrow> finsh_shell \<Rightarrow> (exec_result list \<times> finsh_shell) option" where
  "finsh_run table [] sh = Some ([], sh)"
| "finsh_run table (ch # chs) sh = do {
     (r, sh1) \<leftarrow> finsh_char table ch sh;
     (rs, sh2) \<leftarrow> finsh_run table chs sh1;
     Some (case r of None \<Rightarrow> rs | Some x \<Rightarrow> x # rs, sh2)
   }"

text \<open>
  The settings.  The modes are bit fields of one bit.  \<^verbatim>\<open>finsh_set_prompt\<close> keeps a copy of the prompt
  when there is memory for it (ok); \<^verbatim>\<open>finsh_get_prompt\<close> builds the text in a static buffer.
\<close>

abbreviation RT_CONSOLEBUF_SIZE :: nat where "RT_CONSOLEBUF_SIZE \<equiv> 256"

definition finsh_set_prompt_mode :: "rt_uint32_t \<Rightarrow> finsh_shell \<Rightarrow> finsh_shell" where
  "finsh_set_prompt_mode mode sh = sh\<lparr>sh_prompt_mode := bit mode 0\<rparr>"

definition finsh_get_prompt_mode :: "finsh_shell \<Rightarrow> rt_uint32_t" where
  "finsh_get_prompt_mode sh = (if sh_prompt_mode sh then 1 else 0)"

definition finsh_set_echo :: "rt_uint32_t \<Rightarrow> finsh_shell \<Rightarrow> finsh_shell" where
  "finsh_set_echo echo sh = sh\<lparr>sh_echo_mode := bit (ucast echo :: rt_uint8_t) 0\<rparr>"

definition finsh_get_echo :: "finsh_shell \<Rightarrow> rt_uint32_t" where
  "finsh_get_echo sh = (if sh_echo_mode sh then 1 else 0)"

definition finsh_set_prompt :: "bool \<Rightarrow> cchar list option \<Rightarrow> cchar list option" where
  "finsh_set_prompt ok prompt = (if ok then prompt else None)"

definition finsh_get_prompt :: "cchar list option \<Rightarrow> finsh_shell \<Rightarrow> cchar list \<Rightarrow> cchar list option" where
  "finsh_get_prompt custom sh buf =
     (if \<not> sh_prompt_mode sh then arr_set buf 0 0
      else do {
        buf1 \<leftarrow> (case custom of
                   Some prompt \<Rightarrow> do { xs \<leftarrow> strncpy_bytes (prompt @ [0]) RT_CONSOLEBUF_SIZE; blit buf 0 xs }
                 | None \<Rightarrow> blit buf 0 [0x6d, 0x73, 0x68, 0x20, 0]);
        n \<leftarrow> c_strlen buf1;
        blit buf1 n [0x3e, 0]
      })"


section \<open>Numbers\<close>

text \<open>The tests of msh_parse.c, on the bytes before the NUL; None is a NULL pointer.\<close>

definition c_isdigit :: "cchar \<Rightarrow> bool" where "c_isdigit c \<longleftrightarrow> 0x30 \<le> c \<and> c \<le> 0x39"
definition c_tolower :: "cchar \<Rightarrow> cchar" where "c_tolower c = (if 0x41 \<le> c \<and> c \<le> 0x5a then c + 0x20 else c)"
definition c_isxdigit :: "cchar \<Rightarrow> bool" where
  "c_isxdigit c \<longleftrightarrow> c_isdigit c \<or> 0x61 \<le> c \<and> c \<le> 0x66 \<or> 0x41 \<le> c \<and> c \<le> 0x46"

definition msh_isint :: "cchar list option \<Rightarrow> bool" where
  "msh_isint strvalue =
     (case strvalue of
        None \<Rightarrow> False
      | Some [] \<Rightarrow> False
      | Some (c # cs) \<Rightarrow> list_all c_isdigit (if c = 0x2b \<or> c = 0x2d then cs else c # cs))"

definition msh_ishex :: "cchar list option \<Rightarrow> bool" where
  "msh_ishex strvalue =
     (case strvalue of
        Some (c # d # cs) \<Rightarrow> c = 0x30 \<and> d = 0x78 \<and> list_all (\<lambda>c. c_isxdigit (c_tolower c)) cs
      | _ \<Rightarrow> False)"

definition msh_strtohex :: "cchar list \<Rightarrow> rt_uint32_t" where
  "msh_strtohex strvalue =
     foldl (\<lambda>value ch. let c = c_tolower ch
                       in value * 16 + (if c_isdigit c then ucast c - 0x30 else ucast c - 0x61 + 10))
       0 (drop 2 strvalue)"

section \<open>Words of a line\<close>

text \<open>
  A line of words, each with the blanks before it: a bare word, or a word in quotation marks, in
  which a quotation mark has a backslash before it.
\<close>

datatype arg_word = Bare "cchar list" | Quoted "cchar list"

fun arg_text :: "arg_word \<Rightarrow> cchar list" where
  "arg_text (Bare w) = w"
| "arg_text (Quoted w) = w"

fun render :: "arg_word \<Rightarrow> cchar list" where
  "render (Bare w) = w"
| "render (Quoted w) = DQUOTE # w @ [DQUOTE]"

text \<open>What the word looks like after the split, and where it starts.\<close>

fun cut_word :: "arg_word \<Rightarrow> cchar list" where
  "cut_word (Bare w) = w"
| "cut_word (Quoted w) = DQUOTE # w @ [0]"

fun word_start :: "arg_word \<Rightarrow> nat" where
  "word_start (Bare w) = 0"
| "word_start (Quoted w) = 1"

fun is_bare :: "arg_word \<Rightarrow> bool" where
  "is_bare (Bare w) = True"
| "is_bare (Quoted w) = False"

fun quoted_ok :: "cchar list \<Rightarrow> bool" where
  "quoted_ok [] = True"
| "quoted_ok [c] = (c \<noteq> DQUOTE \<and> c \<noteq> BACKSLASH)"
| "quoted_ok (c # d # cs) =
     (c \<noteq> DQUOTE \<and> (if c = BACKSLASH \<and> d = DQUOTE then quoted_ok cs else quoted_ok (d # cs)))"

fun word_ok :: "arg_word \<Rightarrow> bool" where
  "word_ok (Bare w) = (w \<noteq> [] \<and> (\<forall>c \<in> set w. \<not> is_blank c) \<and> hd w \<noteq> DQUOTE \<and> 0 \<notin> set w)"
| "word_ok (Quoted w) = (quoted_ok w \<and> 0 \<notin> set w)"

fun spaced :: "bool \<Rightarrow> (cchar list \<times> arg_word) list \<Rightarrow> bool" where
  "spaced after_bare [] = True"
| "spaced after_bare ((bl, w) # ws) \<longleftrightarrow>
     (\<forall>c \<in> set bl. is_blank c) \<and> (after_bare \<longrightarrow> bl \<noteq> []) \<and> word_ok w \<and> spaced (is_bare w) ws"

definition line_text :: "(cchar list \<times> arg_word) list \<Rightarrow> cchar list" where
  "line_text ws = concat (map (\<lambda>(bl, w). bl @ render w) ws)"

definition cut_text :: "(cchar list \<times> arg_word) list \<Rightarrow> cchar list" where
  "cut_text ws = concat (map (\<lambda>(bl, w). replicate (length bl) 0 @ cut_word w) ws)"

fun word_starts :: "nat \<Rightarrow> (cchar list \<times> arg_word) list \<Rightarrow> nat list" where
  "word_starts p [] = []"
| "word_starts p ((bl, w) # ws) =
     (p + length bl + word_start w) # word_starts (p + length bl + length (render w)) ws"

lemma text_simps [simp]:
  "line_text [] = []" "line_text ((bl, w) # ws) = bl @ render w @ line_text ws"
  "cut_text [] = []" "cut_text ((bl, w) # ws) = replicate (length bl) 0 @ cut_word w @ cut_text ws"
  by (simp_all add: line_text_def cut_text_def)

lemma length_cut_word [simp]: "length (cut_word w) = length (render w)"
  by (cases w) auto

lemma arr_mid [simp]:
  "arr_get (pre @ c # rest) (length pre) = Some c"
  "arr_set (pre @ c # rest) (length pre) x = Some (pre @ x # rest)"
  by (simp_all add: arr_get_def arr_set_def)

lemma arr_at:
  assumes "n = length pre"
  shows "arr_get (pre @ c # rest) n = Some c" "arr_set (pre @ c # rest) n x = Some (pre @ x # rest)"
  using assms by simp_all

text \<open>The loops on a line that is given in parts.\<close>

lemma strip_blanks_ok:
  assumes "\<forall>c \<in> set bl. is_blank c" "cmd + pos = length pre" "pos + length bl \<le> len"
    and "rest \<noteq> []" "pos + length bl = len \<or> \<not> is_blank (hd rest)"
  shows "strip_blanks cmd len pos (pre @ bl @ rest) = Some (pos + length bl, pre @ replicate (length bl) 0 @ rest)"
  using assms
proof (induction bl arbitrary: pre pos)
  case Nil
  then obtain c rs where "rest = c # rs" by (cases rest) auto
  then show ?case using Nil by (subst strip_blanks.simps) (auto simp: arr_at)
next
  case (Cons b bl)
  have "strip_blanks cmd len (pos + 1) ((pre @ [0]) @ bl @ rest)
      = Some (pos + 1 + length bl, (pre @ [0]) @ replicate (length bl) 0 @ rest)"
    by (rule Cons.IH) (use Cons.prems in auto)
  then show ?case using Cons.prems by (subst strip_blanks.simps) (simp add: arr_at)
qed

lemma skip_word_ok:
  assumes "\<forall>c \<in> set w. \<not> is_blank c" "cmd + pos = length pre" "pos + length w \<le> len"
    and "rest \<noteq> []" "pos + length w = len \<or> is_blank (hd rest)"
  shows "skip_word cmd len pos (pre @ w @ rest) = Some (pos + length w)"
  using assms
proof (induction w arbitrary: pre pos)
  case Nil
  then obtain c rs where "rest = c # rs" by (cases rest) auto
  then show ?case using Nil by (subst skip_word.simps) (auto simp: arr_at)
next
  case (Cons c w)
  have "skip_word cmd len (pos + 1) ((pre @ [c]) @ w @ rest) = Some (pos + 1 + length w)"
    by (rule Cons.IH) (use Cons.prems in auto)
  then show ?case using Cons.prems by (subst skip_word.simps) (simp add: arr_at)
qed

lemma skip_string_ok:
  assumes "quoted_ok w" "cmd + pos = length pre" "pos + length w < len"
  shows "skip_string cmd len pos (pre @ w @ DQUOTE # rest) = Some (pos + length w)"
  using assms
proof (induction w arbitrary: pre pos rule: quoted_ok.induct)
  case 1
  then show ?case by (subst skip_string.simps) (simp add: arr_at)
next
  case (2 c)
  have "skip_string cmd len (pos + 1) ((pre @ [c]) @ DQUOTE # rest) = Some (pos + 1)"
    using 2 by (subst skip_string.simps) (simp add: arr_at del: append_assoc)
  then show ?case using 2 by (subst skip_string.simps) (simp add: arr_at)
next
  case (3 c d cs)
  have get: "arr_get (pre @ c # d # cs @ DQUOTE # rest) (Suc (cmd + pos)) = Some d"
    using 3(4) arr_mid(1) [of "pre @ [c]" d] by simp
  show ?case
  proof (cases "c = BACKSLASH \<and> d = DQUOTE")
    case True
    have "skip_string cmd len (pos + 2) ((pre @ [c, d]) @ cs @ DQUOTE # rest) = Some (pos + 2 + length cs)"
      by (rule 3(1)) (use True 3 in auto)
    then show ?thesis using True 3 get by (subst skip_string.simps) (simp add: arr_at)
  next
    case False
    have "skip_string cmd len (pos + 1) ((pre @ [c]) @ (d # cs) @ DQUOTE # rest) = Some (pos + 1 + length (d # cs))"
      by (rule 3(2)) (use False 3 in auto)
    then show ?thesis using False 3 get by (subst skip_string.simps) (auto simp: arr_at)
  qed
qed

lemma line_text_pos: "spaced p ws \<Longrightarrow> ws \<noteq> [] \<Longrightarrow> line_text ws \<noteq> []"
  by (induction p ws rule: spaced.induct) (auto elim: word_ok.elims)

lemma hd_blank: "\<forall>c \<in> set bl. is_blank c \<Longrightarrow> bl \<noteq> [] \<Longrightarrow> is_blank (hd bl)"
  by (cases bl) auto

lemma spaced_next:
  assumes "spaced True ws" "\<forall>c \<in> set tr. is_blank c" "line_text ws @ tr \<noteq> []"
  shows "is_blank (hd (line_text ws @ tr @ rest))"
  using assms hd_blank by (cases ws) (force simp: hd_append)+

lemma split_loop_ok:
  assumes "spaced p ws" "length argv + length ws \<le> FINSH_ARG_MAX" "cmd + pos = length pre"
    and "\<forall>c \<in> set tr. is_blank c" "len = pos + length (line_text ws) + length tr"
  shows "split_loop cmd len pos argv (pre @ line_text ws @ tr @ 0 # rest)
    = Some (argv @ word_starts (cmd + pos) ws, pre @ cut_text ws @ replicate (length tr) 0 @ 0 # rest)"
  using assms
proof (induction p ws arbitrary: pre pos argv rule: spaced.induct)
  case (1 p)
  then show ?case using strip_blanks_ok [of tr cmd pos pre len "0 # rest"]
    by (subst split_loop.simps) auto
next
  case (2 p bl w ws)
  let ?R = "line_text ws @ tr @ 0 # rest"
  let ?p1 = "pos + length bl"
  let ?b1 = "pre @ replicate (length bl) 0 @ render w @ ?R"
  have w: "render w \<noteq> []" "\<not> is_blank (hd (render w))" using 2(2) by (cases w; auto)+
  have strip: "strip_blanks cmd len pos (pre @ bl @ render w @ ?R) = Some (?p1, ?b1)"
    by (rule strip_blanks_ok) (use 2 w in \<open>auto simp: hd_append\<close>)
  have len: "pos < len" "?p1 < len" "length argv < FINSH_ARG_MAX" using 2 w by (cases "render w"; simp)+
  show ?case
  proof (cases w)
    case (Bare s)
    obtain c s' where s: "s = c # s'" "c \<noteq> DQUOTE" using 2(2) Bare by (cases s) auto
    have get: "arr_get ?b1 (cmd + ?p1) = Some c"
      using s(1) 2(4) Bare arr_at(1) [of "cmd + ?p1" "pre @ replicate (length bl) 0" c "s' @ ?R"] by simp
    have skip: "skip_word cmd len ?p1 ((pre @ replicate (length bl) 0) @ s @ ?R) = Some (?p1 + length s)"
    proof (rule skip_word_ok)
      show "?p1 + length s = len \<or> is_blank (hd ?R)"
        using spaced_next [of ws tr "0 # rest"] 2(2,5,6) Bare by (cases "line_text ws @ tr = []") auto
    qed (use 2 Bare in auto)
    show ?thesis
    proof (cases "line_text ws @ tr = []")
      case True
      then have "ws = []" "tr = []" using line_text_pos [of "is_bare w" ws] 2(2) by auto
      then show ?thesis using strip get skip s len 2 Bare by (subst split_loop.simps) simp
    next
      case False
      have "split_loop cmd len (?p1 + length s) (argv @ [cmd + ?p1]) ((pre @ replicate (length bl) 0 @ s) @ ?R)
          = Some ((argv @ [cmd + ?p1]) @ word_starts (cmd + (?p1 + length s)) ws,
              (pre @ replicate (length bl) 0 @ s) @ cut_text ws @ replicate (length tr) 0 @ 0 # rest)"
        by (rule 2(1)) (use 2 Bare in auto)
      moreover have "\<not> ?p1 + length s \<ge> len" using False 2(6) Bare by auto
      ultimately show ?thesis using strip get skip s len Bare by (subst split_loop.simps) (simp add: add.assoc)
    qed
  next
    case (Quoted s)
    have get: "arr_get ?b1 (cmd + ?p1) = Some DQUOTE"
      using 2(4) Quoted arr_at(1) [of "cmd + ?p1" "pre @ replicate (length bl) 0" DQUOTE "s @ DQUOTE # ?R"] by simp
    have skip: "skip_string cmd len (?p1 + 1) ((pre @ replicate (length bl) 0 @ [DQUOTE]) @ s @ DQUOTE # ?R) = Some (?p1 + 1 + length s)"
      by (rule skip_string_ok) (use 2 Quoted in auto)
    have set0: "arr_set ((pre @ replicate (length bl) 0 @ DQUOTE # s) @ DQUOTE # ?R) (cmd + (?p1 + 1 + length s)) 0
        = Some ((pre @ replicate (length bl) 0 @ DQUOTE # s) @ 0 # ?R)"
      using 2(4) by (intro arr_at(2)) simp
    have "split_loop cmd len (?p1 + 1 + length s + 1) (argv @ [cmd + ?p1 + 1]) ((pre @ replicate (length bl) 0 @ DQUOTE # s @ [0]) @ ?R)
        = Some ((argv @ [cmd + ?p1 + 1]) @ word_starts (cmd + (?p1 + 1 + length s + 1)) ws,
            (pre @ replicate (length bl) 0 @ DQUOTE # s @ [0]) @ cut_text ws @ replicate (length tr) 0 @ 0 # rest)"
      by (rule 2(1)) (use 2 Quoted in auto)
    moreover have "\<not> ?p1 + 1 + length s \<ge> len" using 2(6) Quoted by auto
    ultimately show ?thesis using strip get skip set0 len Quoted by (subst split_loop.simps) (simp add: add.assoc)
  qed
qed

text \<open>The arguments read back.\<close>

lemma c_strlen_ok: "0 \<notin> set w \<Longrightarrow> c_strlen (w @ 0 # rest) = Some (length w)"
  by (induction w) auto

lemma c_string_ok:
  assumes "0 \<notin> set w" "n = length pre"
  shows "c_string (pre @ w @ 0 # rest) n = Some w"
  using assms by (simp add: c_string_def c_strlen_ok fetch_def)

lemma word_ok_nonzero: "word_ok w \<Longrightarrow> 0 \<notin> set (arg_text w)"
  by (cases w) auto

lemma cut_text_zero:
  assumes "spaced True ws"
  shows "\<exists>zs. cut_text ws @ replicate n 0 @ 0 # rest = 0 # zs"
proof (cases ws)
  case Nil
  then show ?thesis by (cases n) auto
next
  case (Cons x ws')
  then show ?thesis using assms by (cases x; cases "fst x") auto
qed

lemma c_strings_ok:
  assumes "spaced p ws" "n = length pre"
  shows "c_strings (pre @ cut_text ws @ replicate k 0 @ 0 # rest) (word_starts n ws)
    = Some (map (arg_text \<circ> snd) ws)"
  using assms
proof (induction p ws arbitrary: pre n rule: spaced.induct)
  case (2 p bl w ws)
  let ?R = "cut_text ws @ replicate k 0 @ 0 # rest"
  have "c_strings ((pre @ replicate (length bl) 0 @ cut_word w) @ ?R) (word_starts (n + length bl + length (render w)) ws)
      = Some (map (arg_text \<circ> snd) ws)"
    by (rule 2(1)) (use 2 in auto)
  moreover have "c_string (pre @ replicate (length bl) 0 @ cut_word w @ ?R) (n + length bl + word_start w) = Some (arg_text w)"
  proof (cases w)
    case (Bare s)
    then obtain zs where "?R = 0 # zs" using cut_text_zero [of ws k rest] 2(2) by auto
    then show ?thesis using Bare 2 c_string_ok [of s "n + length bl" "pre @ replicate (length bl) 0" zs] by simp
  next
    case (Quoted s)
    then show ?thesis
      using 2 c_string_ok [of s "n + length bl + 1" "pre @ replicate (length bl) 0 @ [DQUOTE]" ?R] by simp
  qed
  ultimately show ?case by simp
qed simp

section \<open>The command of a line\<close>

lemma strncmp_prefix1: "0 \<notin> set w \<Longrightarrow> strncmp_eq (name @ [0]) (w @ rest) (length w) = Some (prefix w name)"
proof (induction w arbitrary: name)
  case (Cons c w)
  then show ?case by (cases name) auto
qed simp

lemma strncmp_prefix2: "0 \<notin> set w \<Longrightarrow> strncmp_eq (w @ rest) (name @ [0]) (length w) = Some (prefix w name)"
proof (induction w arbitrary: name)
  case (Cons c w)
  then show ?case by (cases name) auto
qed simp

definition names_ok :: "finsh_syscall list \<Rightarrow> bool" where
  "names_ok table \<longleftrightarrow> (\<forall>i \<in> set table. 0 \<notin> set (sc_name i) \<and> length (sc_name i) < FINSH_CMD_SIZE)"

text \<open>The first command of the name.\<close>

lemma get_cmd_ok:
  assumes "names_ok table" "0 \<notin> set w"
  shows "msh_get_cmd table (w @ rest) (length w) = Some (map_option sc_func (List.find (\<lambda>i. sc_name i = w) table))"
  using assms(1)
proof (induction table)
  case (Cons i table)
  have nz: "0 \<notin> set (sc_name i)" using Cons.prems by (simp add: names_ok_def)
  have IH: "msh_get_cmd table (w @ rest) (length w) = Some (map_option sc_func (List.find (\<lambda>i. sc_name i = w) table))"
    using Cons by (simp add: names_ok_def)
  show ?case
  proof (cases "prefix w (sc_name i)")
    case True
    then obtain v where v: "sc_name i = w @ v" by (auto elim: prefixE)
    have "arr_get ((w @ v) @ [0]) (length w) = Some (if v = [] then 0 else hd v)"
      by (cases v) (simp_all add: arr_at)
    moreover have "v \<noteq> [] \<Longrightarrow> hd v \<noteq> 0" using nz v hd_in_set by fastforce
    ultimately show ?thesis using strncmp_prefix1 [OF assms(2), of "sc_name i" rest] v IH by auto
  next
    case False
    then have "sc_name i \<noteq> w" by auto
    then show ?thesis using strncmp_prefix1 [OF assms(2), of "sc_name i" rest] False IH by simp
  qed
qed simp

lemma strim_ok:
  assumes "\<forall>c \<in> set bl. is_blank c" "cmd = length pre" "length bl \<le> len"
    and "length bl = len \<or> rest \<noteq> [] \<and> \<not> is_blank (hd rest)"
  shows "strim (pre @ bl @ rest) cmd len = Some (cmd + length bl, len - length bl)"
  using assms
proof (induction bl arbitrary: pre cmd len)
  case Nil
  then show ?case by (subst strim.simps) (cases rest; auto)
next
  case (Cons b bl)
  have "strim ((pre @ [b]) @ bl @ rest) (cmd + 1) (len - 1) = Some (cmd + 1 + length bl, len - 1 - length bl)"
    by (rule Cons.IH) (use Cons.prems in auto)
  then show ?case using Cons.prems by (subst strim.simps) simp
qed

text \<open>A line whose first word names a command calls it with the words.\<close>

lemma msh_exec_words:
  assumes "names_ok table" "spaced False ((bl, Bare w) # ws)" "length ws < FINSH_ARG_MAX"
    and "\<forall>c \<in> set tr. is_blank c" "len = length (line_text ((bl, Bare w) # ws)) + length tr"
    and "List.find (\<lambda>i. sc_name i = w) table = Some i"
  shows "\<exists>buf. msh_exec table (line_text ((bl, Bare w) # ws) @ tr @ 0 # rest) len
    = Some (Exec_call (sc_func i) (w # map (arg_text \<circ> snd) ws), buf)"
proof -
  let ?R = "line_text ws @ tr @ 0 # rest"
  have w: "w \<noteq> []" "\<forall>c \<in> set w. \<not> is_blank c" "0 \<notin> set w" using assms(2) by auto
  let ?len = "len - length bl"
  have strim: "strim ([] @ bl @ w @ ?R) 0 len = Some (0 + length bl, ?len)"
    by (rule strim_ok) (use assms w in auto)
  have skip: "skip_word (length bl) ?len 0 (bl @ w @ ?R) = Some (0 + length w)"
  proof (rule skip_word_ok)
    show "0 + length w = ?len \<or> is_blank (hd ?R)"
      using spaced_next [of ws tr "0 # rest"] assms by (cases "line_text ws @ tr = []") auto
  qed (use w assms in auto)
  have get: "msh_get_cmd table (drop (length bl) (bl @ w @ ?R)) (length w) = Some (Some (sc_func i))"
    using get_cmd_ok [OF assms(1) w(3)] assms(6) by simp
  have split: "split_loop (length bl) ?len 0 [] (bl @ line_text (([], Bare w) # ws) @ tr @ 0 # rest)
      = Some ([] @ word_starts (length bl + 0) (([], Bare w) # ws),
          bl @ cut_text (([], Bare w) # ws) @ replicate (length tr) 0 @ 0 # rest)"
    by (rule split_loop_ok [of False]) (use assms in auto)
  moreover have "c_strings (bl @ cut_text (([], Bare w) # ws) @ replicate (length tr) 0 @ 0 # rest)
      (word_starts (length bl) (([], Bare w) # ws)) = Some (map (arg_text \<circ> snd) (([], Bare w) # ws))"
    by (rule c_strings_ok [of False]) (use assms in auto)
  moreover have "?len \<noteq> 0" using assms w by simp
  ultimately show ?thesis using strim skip get w(1)
    by (auto simp: msh_exec_def msh_exec_cmd_def msh_split_def bind_Some_iff)
qed

section \<open>Lines never fail\<close>

text \<open>
  A line whose byte at cmd + len is its NUL: no loop runs past it, and every argument is ended by a
  NUL at or before it.
\<close>

definition ended :: "nat \<Rightarrow> cchar list \<Rightarrow> bool" where
  "ended n buf \<longleftrightarrow> n < length buf \<and> buf ! n = 0"

lemma ended_get: "ended n buf \<Longrightarrow> k \<le> n \<Longrightarrow> arr_get buf k = Some (buf ! k)"
  by (simp add: ended_def arr_get_def)

lemma ended_set: "ended n buf \<Longrightarrow> k \<le> n \<Longrightarrow> \<exists>buf'. arr_set buf k 0 = Some buf' \<and> ended n buf'"
  by (auto simp: ended_def arr_set_def nth_list_update)

lemma strip_blanks_total:
  "ended (cmd + len) buf \<Longrightarrow> pos \<le> len \<Longrightarrow>
   \<exists>p1 buf'. strip_blanks cmd len pos buf = Some (p1, buf') \<and> ended (cmd + len) buf' \<and> p1 \<le> len"
proof (induction cmd len pos buf rule: strip_blanks.induct)
  case (1 cmd len pos buf)
  note get = ended_get [OF 1(2), of "cmd + pos"]
  obtain buf1 where "arr_set buf (cmd + pos) 0 = Some buf1" "ended (cmd + len) buf1"
    using ended_set [OF 1(2), of "cmd + pos"] 1(3) by auto
  then show ?case using 1 get by (subst strip_blanks.simps) auto
qed

lemma skip_string_total:
  "ended (cmd + len) buf \<Longrightarrow> pos \<le> len \<Longrightarrow> \<exists>p. skip_string cmd len pos buf = Some p \<and> p \<le> len"
proof (induction cmd len pos buf rule: skip_string.induct)
  case (1 cmd len pos buf)
  note get = ended_get [OF 1(3), of "cmd + pos"] ended_get [OF 1(3), of "cmd + pos + 1"]
  have e: "buf ! (cmd + len) = 0" using 1(3) by (simp add: ended_def)
  show ?case
  proof (cases "buf ! (cmd + pos) \<noteq> DQUOTE \<and> pos < len")
    case stop: False
    then show ?thesis using 1(4) get by (subst skip_string.simps) auto
  next
    case go: True
    show ?thesis
    proof (cases "buf ! (cmd + pos) = BACKSLASH")
      case True
      let ?p = "if buf ! (cmd + pos + 1) = DQUOTE then pos + 2 else pos + 1"
      have "?p \<le> len" using go e by (cases "pos + 1 = len") auto
      then have "\<exists>p. skip_string cmd len ?p buf = Some p \<and> p \<le> len"
        using 1(1) [of "buf ! (cmd + pos)" "buf ! (cmd + pos + 1)"] get go True 1(3) by simp
      then show ?thesis using get go True by (subst skip_string.simps) simp
    next
      case False
      then have "\<exists>p. skip_string cmd len (pos + 1) buf = Some p \<and> p \<le> len"
        using 1(2) [of "buf ! (cmd + pos)"] get go 1(3) by simp
      then show ?thesis using get go False by (subst skip_string.simps) simp
    qed
  qed
qed

lemma skip_word_total:
  "ended (cmd + len) buf \<Longrightarrow> pos \<le> len \<Longrightarrow> \<exists>p. skip_word cmd len pos buf = Some p \<and> p \<le> len"
proof (induction cmd len pos buf rule: skip_word.induct)
  case (1 cmd len pos buf)
  then show ?case using ended_get [OF 1(2), of "cmd + pos"] by (subst skip_word.simps) auto
qed

lemma split_loop_total:
  "ended (cmd + len) buf \<Longrightarrow> pos \<le> len \<Longrightarrow> \<forall>a \<in> set argv. a \<le> cmd + len \<Longrightarrow>
   \<exists>argv' buf'. split_loop cmd len pos argv buf = Some (argv', buf') \<and> ended (cmd + len) buf' \<and> (\<forall>a \<in> set argv'. a \<le> cmd + len)"
proof (induction cmd len pos argv buf rule: split_loop.induct)
  case (1 cmd len pos argv buf)
  obtain p1 b1 where strip: "strip_blanks cmd len pos buf = Some (p1, b1)" "ended (cmd + len) b1" "p1 \<le> len"
    using strip_blanks_total [OF 1(3,4)] by blast
  note get = ended_get [OF strip(2), of "cmd + p1"]
  show ?case
  proof (cases "pos < len \<and> length argv < FINSH_ARG_MAX \<and> p1 < len")
    case False
    then show ?thesis using 1(3-5) strip by (subst split_loop.simps) auto
  next
    case go: True
    show ?thesis
    proof (cases "b1 ! (cmd + p1) = DQUOTE")
      case True
      obtain p2 where p2: "skip_string cmd len (p1 + 1) b1 = Some p2" "p2 \<le> len"
        using skip_string_total [OF strip(2), of "p1 + 1"] go by auto
      obtain b2 where b2: "arr_set b1 (cmd + p2) 0 = Some b2" "ended (cmd + len) b2"
        using ended_set [OF strip(2), of "cmd + p2"] p2 by auto
      have rec: "p2 < len \<Longrightarrow> \<exists>argv' buf'. split_loop cmd len (p2 + 1) (argv @ [cmd + p1 + 1]) b2 = Some (argv', buf')
          \<and> ended (cmd + len) buf' \<and> (\<forall>a \<in> set argv'. a \<le> cmd + len)"
        using 1(1) [of "(p1, b1)" p1 b1 "b1 ! (cmd + p1)" p2 b2] go True strip p2 b2 get 1(5) by auto
      then show ?thesis using go True strip p2 b2 get 1(5)
        by (cases "p2 < len") (subst split_loop.simps; fastforce)+
    next
      case False
      obtain p2 where p2: "skip_word cmd len p1 b1 = Some p2" "p2 \<le> len"
        using skip_word_total [OF strip(2), of p1] go by auto
      have rec: "p2 < len \<Longrightarrow> \<exists>argv' buf'. split_loop cmd len p2 (argv @ [cmd + p1]) b1 = Some (argv', buf')
          \<and> ended (cmd + len) buf' \<and> (\<forall>a \<in> set argv'. a \<le> cmd + len)"
        using 1(2) [of "(p1, b1)" p1 b1 "b1 ! (cmd + p1)" p2] go False strip p2 get 1(5) by auto
      then show ?thesis using go False strip p2 get 1(5)
        by (cases "p2 < len") (subst split_loop.simps; fastforce)+
    qed
  qed
qed

lemma c_strlen_total: "0 \<in> set buf \<Longrightarrow> \<exists>n. c_strlen buf = Some n \<and> n < length buf"
  by (induction buf) auto

lemma c_string_total: "ended n buf \<Longrightarrow> k \<le> n \<Longrightarrow> \<exists>s. c_string buf k = Some s"
proof -
  assume a: "ended n buf" "k \<le> n"
  then have "drop k buf ! (n - k) \<in> set (drop k buf)" by (intro nth_mem) (auto simp: ended_def intro: diff_less_mono)
  then have "0 \<in> set (drop k buf)" using a by (simp add: ended_def)
  from c_strlen_total [OF this] show ?thesis by (auto simp: c_string_def fetch_def)
qed

lemma c_strings_total: "ended n buf \<Longrightarrow> \<forall>a \<in> set ps. a \<le> n \<Longrightarrow> \<exists>ss. c_strings buf ps = Some ss"
proof (induction ps)
  case (Cons p ps)
  then obtain ss where "c_strings buf ps = Some ss" by auto
  moreover obtain s where "c_string buf p = Some s" using c_string_total [OF Cons(2), of p] Cons(3) by auto
  ultimately show ?case by simp
qed simp

lemma first_space_total: "ended n buf \<Longrightarrow> k \<le> n \<Longrightarrow> \<exists>p. first_space buf k = Some p \<and> p \<le> n"
proof (induction buf k rule: first_space.induct)
  case (1 buf k)
  then show ?case using ended_get [OF 1(2,3)]
    by (subst first_space.simps) (cases "k = n"; auto simp: ended_def)
qed

lemma strim_total: "ended (cmd + len) buf \<Longrightarrow>
  \<exists>cmd' len'. strim buf cmd len = Some (cmd', len') \<and> cmd' + len' = cmd + len"
proof (induction buf cmd len rule: strim.induct)
  case (1 buf cmd len)
  then show ?case using ended_get [OF 1(2), of cmd] by (subst strim.simps) auto
qed

lemma msh_exec_cmd_total:
  assumes "names_ok table" "ended (cmd + len) buf" "\<forall>k < cmd + len. buf ! k \<noteq> 0"
  shows "\<exists>r buf'. msh_exec_cmd table buf cmd len = Some (r, buf') \<and> ended (cmd + len) buf'"
proof -
  obtain n where n: "skip_word cmd len 0 buf = Some n" "n \<le> len" using skip_word_total [OF assms(2), of 0] by auto
  have L: "cmd + len < length buf" using assms(2) by (simp add: ended_def)
  let ?w = "take n (drop cmd buf)"
  have "0 \<notin> set ?w" using assms(3) n L by (auto simp: in_set_conv_nth)
  moreover have "length ?w = n" using n L by simp
  ultimately have get: "\<exists>f. msh_get_cmd table (drop cmd buf) n = Some f"
    using get_cmd_ok [OF assms(1), of ?w "drop n (drop cmd buf)"] by (auto simp del: drop_drop)
  obtain argv b1 where sp: "msh_split cmd len buf = Some (argv, b1)" "ended (cmd + len) b1" "\<forall>a \<in> set argv. a \<le> cmd + len"
    using split_loop_total [OF assms(2), of 0 "[]"] by (auto simp: msh_split_def)
  then obtain ss where "c_strings b1 argv = Some ss" using c_strings_total by blast
  then show ?thesis using n get sp assms(2) by (auto simp: msh_exec_cmd_def split: option.splits)
qed

lemma msh_exec_total:
  assumes "names_ok table" "ended len line" "\<forall>k < len. line ! k \<noteq> 0"
  shows "\<exists>r buf. msh_exec table line len = Some (r, buf)"
proof -
  obtain cmd len1 where st: "strim line 0 len = Some (cmd, len1)" "cmd + len1 = len"
    using strim_total [of 0 len line] assms(2) by auto
  obtain r buf where ex: "msh_exec_cmd table line cmd len1 = Some (r, buf)" "ended len buf"
    using msh_exec_cmd_total [of table cmd len1 line] assms st(2) by auto
  obtain p where p: "first_space buf cmd = Some p" "p \<le> len" using first_space_total [OF ex(2), of cmd] st(2) by auto
  obtain b1 where b1: "arr_set buf p 0 = Some b1" "ended len b1" using ended_set [OF ex(2) p(2)] by blast
  obtain name where "c_string b1 cmd = Some name" using c_string_total [OF b1(2), of cmd] st(2) by auto
  then show ?thesis using st ex p b1 by (auto simp: msh_exec_def split: option.splits)
qed

section \<open>What is completed\<close>

text \<open>The longest common prefix of all names that start with the text.\<close>

definition complete_name :: "cchar list list \<Rightarrow> cchar list \<Rightarrow> cchar list" where
  "complete_name names t =
     (if t = [] then t else case filter (prefix t) names of
        [] \<Rightarrow> t
      | m # ms \<Rightarrow> foldl longest_common_prefix m ms)"

lemma foldl_common_prefix:
  "prefix q (foldl longest_common_prefix m ms) \<longleftrightarrow> (\<forall>x \<in> set (m # ms). prefix q x)"
proof (induction ms arbitrary: m)
  case (Cons x ms)
  have "prefix q (longest_common_prefix m x) \<longleftrightarrow> prefix q m \<and> prefix q x"
    using longest_common_prefix_prefix1 longest_common_prefix_prefix2 longest_common_prefix_max_prefix
    by (meson prefix_order.trans)
  then show ?case using Cons by auto
qed simp

lemma complete_name_longest:
  assumes "t \<noteq> []" "m \<in> set names" "prefix t m"
  shows "prefix q (complete_name names t) \<longleftrightarrow> (\<forall>x \<in> set names. prefix t x \<longrightarrow> prefix q x)"
proof (cases "filter (prefix t) names")
  case Nil
  then show ?thesis using assms by (auto simp: filter_empty_conv)
next
  case (Cons x xs)
  have "set (x # xs) = {y \<in> set names. prefix t y}" using Cons [symmetric] by auto
  then show ?thesis using assms(1) Cons foldl_common_prefix [of q x xs] by (auto simp: complete_name_def)
qed

lemma str_common_ok:
  "0 \<notin> set a \<Longrightarrow> 0 \<notin> set b \<Longrightarrow> str_common (a @ [0]) (b @ [0]) = Some (length (longest_common_prefix a b))"
proof (induction a arbitrary: b)
  case Nil
  then show ?case by (cases b) auto
next
  case (Cons x xs)
  then show ?case by (cases b) auto
qed

lemma common_prefix_take: "longest_common_prefix (take k xs) ys = take k (longest_common_prefix xs ys)"
proof (induction xs ys arbitrary: k rule: longest_common_prefix.induct)
  case (1 x xs y ys)
  then show ?case by (cases k) auto
qed auto

lemma common_prefix_is_take: "longest_common_prefix xs ys = take (length (longest_common_prefix xs ys)) xs"
  by (induction xs ys rule: longest_common_prefix.induct) auto

lemma common_prefix_self [simp]: "longest_common_prefix xs xs = xs"
  by (induction xs) auto

lemma tab_loop_ok:
  assumes "names_ok table" "t \<noteq> []" "0 \<notin> set t" "0 \<notin> set m" "k \<le> length m" "prefix t (take k m)"
  shows "\<exists>k'. completion_loop (t @ rest) (length t) table (Some (m @ [0])) k = Some (Some (m @ [0]), k')
    \<and> k' \<le> length m \<and> take k' m = foldl longest_common_prefix (take k m) (filter (prefix t) (map sc_name table))"
  using assms
proof (induction table arbitrary: k)
  case (Cons i table)
  let ?n = "sc_name i"
  have same: "strncmp_eq (t @ rest) (?n @ [0]) (length t) = Some (prefix t ?n)"
    by (rule strncmp_prefix2) (rule Cons.prems(3))
  have ok: "names_ok table" "0 \<notin> set ?n" using Cons.prems(1) by (simp_all add: names_ok_def)
  show ?case
  proof (cases "prefix t ?n")
    case False
    then show ?thesis using Cons.IH [OF ok(1) Cons.prems(2-)] same by simp
  next
    case True
    let ?c = "length (longest_common_prefix m ?n)" and ?acc = "longest_common_prefix (take k m) ?n"
    have acc: "?acc = take (min k ?c) m"
      by (subst common_prefix_take, subst common_prefix_is_take) simp
    have pre: "prefix t ?acc" using longest_common_prefix_max_prefix Cons.prems(6) True by blast
    have "\<exists>k'. completion_loop (t @ rest) (length t) table (Some (m @ [0])) (min k ?c) = Some (Some (m @ [0]), k')
      \<and> k' \<le> length m \<and> take k' m = foldl longest_common_prefix (take (min k ?c) m) (filter (prefix t) (map sc_name table))"
      by (rule Cons.IH) (use ok Cons.prems pre acc in auto)
    moreover have "k \<noteq> 0" using Cons.prems(2,6) by (cases k) auto
    moreover have "(if ?c < k then ?c else k) = min k ?c" by (simp add: min_def)
    ultimately show ?thesis using same True str_common_ok [OF Cons.prems(4) ok(2)] acc by simp
  qed
qed simp

lemma completion_loop_start:
  assumes "names_ok table" "t \<noteq> []" "0 \<notin> set t"
  shows "completion_loop (t @ rest) (length t) table None 0 = Some (None, 0) \<and> filter (prefix t) (map sc_name table) = []
    \<or> (\<exists>m ms k. completion_loop (t @ rest) (length t) table None 0 = Some (Some (m @ [0]), k) \<and> 0 \<notin> set m
        \<and> filter (prefix t) (map sc_name table) = m # ms \<and> k \<le> length m \<and> take k m = foldl longest_common_prefix m ms)"
  using assms(1)
proof (induction table)
  case (Cons i table)
  let ?n = "sc_name i"
  have same: "strncmp_eq (t @ rest) (?n @ [0]) (length t) = Some (prefix t ?n)"
    by (rule strncmp_prefix2) (rule assms(3))
  have ok: "names_ok table" "0 \<notin> set ?n" using Cons.prems(1) by (simp_all add: names_ok_def)
  show ?case
  proof (cases "prefix t ?n")
    case True
    have "str_common (?n @ [0]) (?n @ [0]) = Some (length ?n)"
      using str_common_ok [OF ok(2) ok(2)] by simp
    then show ?thesis
      using tab_loop_ok [OF ok(1) assms(2,3) ok(2) order_refl, of rest] True same c_strlen_ok [OF ok(2), of "[]"] ok(2)
      by auto
  qed (use Cons.IH [OF ok(1)] same in auto)
qed simp

lemma strncpy_take: "0 \<notin> set m \<Longrightarrow> k \<le> length m \<Longrightarrow> strncpy_bytes (m @ [0]) k = Some (take k m)"
proof (induction k arbitrary: m)
  case (Suc k)
  then show ?case by (cases m) auto
qed simp

definition padded :: "nat \<Rightarrow> cchar list \<Rightarrow> cchar list" where
  "padded n t = t @ replicate (n - length t) 0"

lemma padded_zero: "length t < n \<Longrightarrow> padded n t = t @ 0 # replicate (n - Suc (length t)) 0"
  by (simp add: padded_def replicate_Suc [symmetric] Suc_diff_Suc del: replicate_Suc)

lemma c_strlen_padded: "0 \<notin> set t \<Longrightarrow> length t < n \<Longrightarrow> c_strlen (padded n t) = Some (length t)"
  by (simp add: padded_zero c_strlen_ok)

lemma length_padded: "length t \<le> n \<Longrightarrow> length (padded n t) = n"
  by (simp add: padded_def)

lemma complete_name_ok:
  assumes "names_ok table" "0 \<notin> set t" "length t < FINSH_CMD_SIZE"
  shows "prefix t (complete_name (map sc_name table) t)" "0 \<notin> set (complete_name (map sc_name table) t)"
    "length (complete_name (map sc_name table) t) < FINSH_CMD_SIZE"
proof -
  let ?c = "complete_name (map sc_name table) t"
  have "?c = t \<or> (t \<noteq> [] \<and> (\<exists>m \<in> sc_name ` set table. prefix ?c m \<and> prefix t m))"
  proof (cases "t = [] \<or> filter (prefix t) (map sc_name table) = []")
    case True
    then show ?thesis by (auto simp: complete_name_def)
  next
    case False
    then obtain m where m: "m \<in> set (map sc_name table)" "prefix t m" by (auto simp: filter_empty_conv)
    then have "prefix ?c m" using complete_name_longest [OF _ m, of ?c] False by auto
    then show ?thesis using m False by auto
  qed
  moreover have "prefix t ?c" if "t \<noteq> []" "m \<in> sc_name ` set table" "prefix t m" for m
    using complete_name_longest [of t m "map sc_name table" t] that by auto
  ultimately show "prefix t ?c" "0 \<notin> set ?c" "length ?c < FINSH_CMD_SIZE"
    using assms by (auto simp: names_ok_def dest: set_mono_prefix prefix_length_le) (fastforce dest: set_mono_prefix prefix_length_le)+
qed

lemma auto_complete_ok:
  assumes "names_ok table" "0 \<notin> set t" "length t < FINSH_CMD_SIZE"
  shows "msh_auto_complete table (padded (FINSH_CMD_SIZE + 1) t)
    = Some (padded (FINSH_CMD_SIZE + 1) (complete_name (map sc_name table) t))"
proof (cases t)
  case Nil
  then show ?thesis by (simp add: msh_auto_complete_def padded_def arr_get_def complete_name_def)
next
  case (Cons c t')
  let ?rest = "replicate (FINSH_CMD_SIZE + 1 - length t) (0 :: cchar)"
  have len: "c_strlen (t @ ?rest) = Some (length t)"
    using c_strlen_padded [OF assms(2), of "FINSH_CMD_SIZE + 1"] assms(3) by (simp add: padded_def)
  have get: "arr_get (t @ ?rest) 0 = Some c" "c \<noteq> 0" using Cons assms(2) by (auto simp: arr_get_def)
  note nm = complete_name_ok [OF assms]
  from completion_loop_start [OF assms(1) _ assms(2), of ?rest] Cons
  consider (none) "completion_loop (t @ ?rest) (length t) table None 0 = Some (None, 0)" "filter (prefix t) (map sc_name table) = []"
    | (some) m ms k where "completion_loop (t @ ?rest) (length t) table None 0 = Some (Some (m @ [0]), k)" "0 \<notin> set m"
        "filter (prefix t) (map sc_name table) = m # ms" "k \<le> length m" "take k m = foldl longest_common_prefix m ms"
    by blast
  then show ?thesis
  proof cases
    case none
    then show ?thesis using Cons get len by (simp add: msh_auto_complete_def padded_def complete_name_def)
  next
    case some
    have c: "complete_name (map sc_name table) t = take k m" using some(3,5) Cons by (simp add: complete_name_def)
    have "drop (length (take k m)) (t @ ?rest) = replicate (FINSH_CMD_SIZE + 1 - length (take k m)) 0"
      using nm(1,3) prefix_length_le [OF nm(1)] unfolding c by simp
    then have "blit (t @ ?rest) 0 (take k m) = Some (padded (FINSH_CMD_SIZE + 1) (take k m))"
      using nm(3) assms(3) unfolding c by (simp add: blit_def padded_def del: length_take)
    then show ?thesis using some get len strncpy_take [OF some(2,4)] unfolding c
      by (simp add: msh_auto_complete_def padded_def)
  qed
qed

section \<open>The editor that the shell implements\<close>

text \<open>
  The text before and behind the cursor, the last commands, and the place among them.
\<close>

record editor =
  ed_left :: "cchar list"
  ed_right :: "cchar list"
  ed_history :: "cchar list list"
  ed_current :: nat
  ed_stat :: input_stat

datatype key =
    Key_none | Key_char cchar | Key_back | Key_tab | Key_enter
  | Key_up | Key_down | Key_left | Key_right

definition plain_key :: "cchar \<Rightarrow> key" where
  "plain_key ch =
     (if ch = 0 \<or> ch = 0xff then Key_none else if ch = 0x09 then Key_tab
      else if ch = 0x7f \<or> ch = 0x08 then Key_back
      else if ch = 0x0d \<or> ch = 0x0a then Key_enter else Key_char ch)"

text \<open>An arrow key is the three bytes escape, left bracket, and A, B, C or D.\<close>

definition decode_key :: "input_stat \<Rightarrow> cchar \<Rightarrow> input_stat \<times> key" where
  "decode_key stat ch =
     (if ch = 0x1b then (WAIT_SPEC_KEY, Key_none)
      else case stat of
        WAIT_NORMAL \<Rightarrow> (WAIT_NORMAL, plain_key ch)
      | WAIT_SPEC_KEY \<Rightarrow> if ch = 0x5b then (WAIT_FUNC_KEY, Key_none) else (WAIT_NORMAL, plain_key ch)
      | WAIT_FUNC_KEY \<Rightarrow>
          (WAIT_NORMAL, if ch = 0x41 then Key_up else if ch = 0x42 then Key_down
             else if ch = 0x44 then Key_left else if ch = 0x43 then Key_right else plain_key ch))"

definition ed_push :: "cchar list \<Rightarrow> cchar list list \<Rightarrow> cchar list list" where
  "ed_push t hs =
     (if t = [] \<or> hs \<noteq> [] \<and> last hs = t then hs
      else (if length hs \<ge> FINSH_HISTORY_LINES then tl hs else hs) @ [t])"

definition ed_load :: "nat \<Rightarrow> editor \<Rightarrow> editor" where
  "ed_load n e = e\<lparr>ed_left := ed_history e ! n, ed_right := [], ed_current := n\<rparr>"

text \<open>
  A key gives the line that is entered, if any.  The editor has no answer to a character that would
  fill the line.
\<close>

fun ed_key :: "cchar list list \<Rightarrow> key \<Rightarrow> editor \<Rightarrow> (cchar list option \<times> editor) option" where
  "ed_key names Key_none e = Some (None, e)"
| "ed_key names (Key_char c) e =
     (if length (ed_left e @ ed_right e) + 1 < FINSH_CMD_SIZE then Some (None, e\<lparr>ed_left := ed_left e @ [c]\<rparr>) else None)"
| "ed_key names Key_back e = Some (None, e\<lparr>ed_left := butlast (ed_left e)\<rparr>)"
| "ed_key names Key_tab e = Some (None, e\<lparr>ed_left := complete_name names (ed_left e @ ed_right e), ed_right := []\<rparr>)"
| "ed_key names Key_enter e =
     (let hs = ed_push (ed_left e @ ed_right e) (ed_history e)
      in Some (Some (ed_left e @ ed_right e), e\<lparr>ed_left := [], ed_right := [], ed_history := hs, ed_current := length hs\<rparr>))"
| "ed_key names Key_up e = Some (None, if ed_current e = 0 then e else ed_load (ed_current e - 1) e)"
| "ed_key names Key_down e =
     Some (None, if ed_history e = [] then e else ed_load (min (ed_current e + 1) (length (ed_history e) - 1)) e)"
| "ed_key names Key_left e =
     Some (None, if ed_left e = [] then e
                 else e\<lparr>ed_left := butlast (ed_left e), ed_right := last (ed_left e) # ed_right e\<rparr>)"
| "ed_key names Key_right e =
     Some (None, case ed_right e of [] \<Rightarrow> e | c # cs \<Rightarrow> e\<lparr>ed_left := ed_left e @ [c], ed_right := cs\<rparr>)"

definition ed_start :: editor where
  "ed_start = \<lparr>ed_left = [], ed_right = [], ed_history = [], ed_current = 0, ed_stat = WAIT_NORMAL\<rparr>"

definition ed_char :: "cchar list list \<Rightarrow> cchar \<Rightarrow> editor \<Rightarrow> (cchar list option \<times> editor) option" where
  "ed_char names ch e = (let (stat, k) = decode_key (ed_stat e) ch in ed_key names k (e\<lparr>ed_stat := stat\<rparr>))"

fun ed_run :: "cchar list list \<Rightarrow> cchar list \<Rightarrow> editor \<Rightarrow> (cchar list list \<times> editor) option" where
  "ed_run names [] e = Some ([], e)"
| "ed_run names (ch # chs) e = do {
     (t, e1) \<leftarrow> ed_char names ch e;
     (ts, e2) \<leftarrow> ed_run names chs e1;
     Some (case t of None \<Rightarrow> ts | Some x \<Rightarrow> x # ts, e2)
   }"

text \<open>What the code does with a line that is entered.\<close>

definition exec_of :: "finsh_syscall list \<Rightarrow> cchar list \<Rightarrow> exec_result" where
  "exec_of table t = fst (the (msh_exec table (padded (FINSH_CMD_SIZE + 1) t) (length t)))"

definition text_ok :: "cchar list \<Rightarrow> bool" where
  "text_ok t \<longleftrightarrow> 0 \<notin> set t \<and> length t < FINSH_CMD_SIZE"

text \<open>The shell holds the editor's text, cursor and history.\<close>

definition line_rep :: "finsh_shell \<Rightarrow> editor \<Rightarrow> bool" where
  "line_rep sh e \<longleftrightarrow> text_ok (ed_left e @ ed_right e)
     \<and> sh_line sh = padded (FINSH_CMD_SIZE + 1) (ed_left e @ ed_right e)
     \<and> unat (sh_line_position sh) = length (ed_left e @ ed_right e) \<and> unat (sh_line_curpos sh) = length (ed_left e)"

definition history_rep :: "finsh_shell \<Rightarrow> editor \<Rightarrow> bool" where
  "history_rep sh e \<longleftrightarrow> length (ed_history e) \<le> FINSH_HISTORY_LINES \<and> ed_current e \<le> length (ed_history e)
     \<and> unat (sh_history_count sh) = length (ed_history e) \<and> unat (sh_current_history sh) = ed_current e
     \<and> length (sh_cmd_history sh) = FINSH_HISTORY_LINES
     \<and> (\<forall>i < length (ed_history e). sh_cmd_history sh ! i = padded FINSH_CMD_SIZE (ed_history e ! i))
     \<and> (\<forall>t \<in> set (ed_history e). t \<noteq> [] \<and> text_ok t)"

definition shell_rep :: "finsh_shell \<Rightarrow> editor \<Rightarrow> bool" where
  "shell_rep sh e \<longleftrightarrow> line_rep sh e \<and> history_rep sh e \<and> sh_stat sh = ed_stat e"

lemma shell_start_rep: "shell_rep finsh_start ed_start"
  by (simp add: shell_rep_def line_rep_def history_rep_def finsh_start_def ed_start_def padded_def text_ok_def)

lemma set_line_fields [simp]:
  "sh_line (set_line l p c sh) = l" "sh_line_position (set_line l p c sh) = p" "sh_line_curpos (set_line l p c sh) = c"
  "sh_stat (set_line l p c sh) = sh_stat sh" "sh_cmd_history (set_line l p c sh) = sh_cmd_history sh"
  "sh_history_count (set_line l p c sh) = sh_history_count sh"
  "sh_current_history (set_line l p c sh) = sh_current_history sh"
  by (simp_all add: set_line_def)

text \<open>Positions as numbers.\<close>

lemma unat16_of_nat: "n < 2 ^ 16 \<Longrightarrow> unat (word_of_nat n :: rt_uint16_t) = n"
  by (simp add: unat_of_nat take_bit_eq_mod)

lemma unat16_plus: "unat (w :: rt_uint16_t) < 1000 \<Longrightarrow> unat (w + 1) = unat w + 1"
  by (simp add: unat_plus_simple [THEN iffD1] word_le_nat_alt unat_word_ariths)

lemma unat16_minus: "(w :: rt_uint16_t) \<noteq> 0 \<Longrightarrow> unat (w - 1) = unat w - 1"
  by (simp add: unat_minus_one)

lemma finsh_insert_ok:
  assumes "line_rep sh e" "c \<noteq> 0" "length (ed_left e @ ed_right e) + 1 < FINSH_CMD_SIZE"
  shows "\<exists>line p q. finsh_insert c sh = Some (set_line line p q sh)
    \<and> line_rep (set_line line p q sh) (e\<lparr>ed_left := ed_left e @ [c]\<rparr>)"
proof -
  let ?l = "ed_left e" and ?r = "ed_right e"
  note rep = assms(1) [unfolded line_rep_def text_ok_def]
  have pos: "unat (sh_line_position sh) = length ?l + length ?r" "unat (sh_line_curpos sh) = length ?l" using rep by simp_all
  let ?zs = "replicate (FINSH_CMD_SIZE - Suc (length ?l + length ?r)) (0 :: cchar)"
  have line: "sh_line sh = ?l @ ?r @ 0 # 0 # ?zs"
    using rep assms(3) by (simp add: padded_def replicate_Suc [symmetric] Suc_diff_Suc del: replicate_Suc)
  have line': "padded (FINSH_CMD_SIZE + 1) (?l @ c # ?r) = ?l @ c # ?r @ 0 # ?zs"
    using assms(3) by (simp add: padded_def replicate_Suc [symmetric] Suc_diff_Suc del: replicate_Suc)
  have new: "(if sh_line_curpos sh < sh_line_position sh
      then do { line \<leftarrow> memmove (sh_line sh) (unat (sh_line_curpos sh) + 1) (unat (sh_line_curpos sh))
                   (unat (sh_line_position sh) - unat (sh_line_curpos sh));
                arr_set line (unat (sh_line_curpos sh)) c }
      else arr_set (sh_line sh) (unat (sh_line_position sh)) c) = Some (?l @ c # ?r @ 0 # ?zs)"
  proof (cases ?r)
    case Nil
    then show ?thesis using pos line by (simp add: word_less_nat_alt arr_at)
  next
    case (Cons d ds)
    have "fetch (sh_line sh) (length ?l) (length ?r) = Some ?r" unfolding line by (simp add: fetch_def)
    moreover have "blit (sh_line sh) (length ?l + 1) ?r = Some (?l @ d # ?r @ 0 # ?zs)"
      unfolding line using Cons by (simp add: blit_def)
    ultimately have "memmove (sh_line sh) (length ?l + 1) (length ?l) (length ?r) = Some (?l @ d # ?r @ 0 # ?zs)"
      by (simp add: memmove_def)
    then show ?thesis using pos Cons by (simp add: word_less_nat_alt arr_at)
  qed
  have p: "unat (sh_line_position sh + 1) = length ?l + length ?r + 1" "unat (sh_line_curpos sh + 1) = length ?l + 1"
    using pos assms(3) unat16_plus by simp_all
  have "finsh_insert c sh = Some (set_line (?l @ c # ?r @ 0 # ?zs) (sh_line_position sh + 1) (sh_line_curpos sh + 1) sh)"
    using new p(1) pos assms(3) by (simp add: finsh_insert_def Let_def)
  moreover have "line_rep (set_line (?l @ c # ?r @ 0 # ?zs) (sh_line_position sh + 1) (sh_line_curpos sh + 1) sh)
      (e\<lparr>ed_left := ?l @ [c]\<rparr>)"
    using rep p line' assms by (simp add: line_rep_def text_ok_def)
  ultimately show ?thesis by blast
qed

lemma finsh_backspace_ok:
  assumes "line_rep sh e"
  shows "\<exists>line p q. finsh_backspace sh = Some (set_line line p q sh)
    \<and> line_rep (set_line line p q sh) (e\<lparr>ed_left := butlast (ed_left e)\<rparr>)"
proof (cases "ed_left e" rule: rev_cases)
  case Nil
  then have "finsh_backspace sh = Some sh" using assms by (simp add: finsh_backspace_def line_rep_def unat_eq_0)
  moreover have "set_line (sh_line sh) (sh_line_position sh) (sh_line_curpos sh) sh = sh" by (simp add: set_line_def)
  ultimately show ?thesis using assms Nil
    by (intro exI [of _ "sh_line sh"] exI [of _ "sh_line_position sh"] exI [of _ "sh_line_curpos sh"]) (simp add: line_rep_def)
next
  case (snoc l x)
  let ?r = "ed_right e"
  note rep = assms [unfolded line_rep_def text_ok_def]
  have nz: "sh_line_curpos sh \<noteq> 0" "sh_line_position sh \<noteq> 0" using rep snoc by (auto simp: unat_eq_0 [symmetric] simp del: unat_eq_0)
  have pos: "unat (sh_line_position sh - 1) = length l + length ?r" "unat (sh_line_curpos sh - 1) = length l"
    using rep snoc unat16_minus nz by simp_all
  let ?zs = "replicate (FINSH_CMD_SIZE - (length l + length ?r)) (0 :: cchar)"
  have line: "sh_line sh = l @ x # ?r @ ?zs" using rep snoc by (simp add: padded_def)
  have "length l + length ?r \<le> FINSH_CMD_SIZE" using rep snoc by simp
  then have "FINSH_CMD_SIZE + 1 - (length l + length ?r) = Suc (FINSH_CMD_SIZE - (length l + length ?r))" by arith
  then have line': "padded (FINSH_CMD_SIZE + 1) (l @ ?r) = l @ ?r @ 0 # ?zs" by (simp add: padded_def)
  have moved: "\<exists>z. (if sh_line_position sh - 1 > sh_line_curpos sh - 1
      then memmove (sh_line sh) (unat (sh_line_curpos sh - 1)) (unat (sh_line_curpos sh - 1) + 1)
             (unat (sh_line_position sh - 1) - unat (sh_line_curpos sh - 1))
      else Some (sh_line sh)) = Some (l @ ?r @ z # ?zs)"
  proof (cases ?r rule: rev_cases)
    case Nil
    then show ?thesis using pos line by (simp add: word_less_nat_alt)
  next
    case (snoc ds d)
    have "fetch (sh_line sh) (length l + 1) (length ?r) = Some ?r" unfolding line by (simp add: fetch_def)
    moreover have "blit (sh_line sh) (length l) ?r = Some (l @ ?r @ d # ?zs)"
      unfolding line using snoc by (simp add: blit_def)
    ultimately have "memmove (sh_line sh) (length l) (length l + 1) (length ?r) = Some (l @ ?r @ d # ?zs)"
      by (simp add: memmove_def)
    then show ?thesis using pos snoc by (auto simp: word_less_nat_alt)
  qed
  then obtain z where z: "(if sh_line_position sh - 1 > sh_line_curpos sh - 1
      then memmove (sh_line sh) (unat (sh_line_curpos sh - 1)) (unat (sh_line_curpos sh - 1) + 1)
             (unat (sh_line_position sh - 1) - unat (sh_line_curpos sh - 1))
      else Some (sh_line sh)) = Some (l @ ?r @ z # ?zs)" by blast
  have "arr_set (l @ ?r @ z # ?zs) (length l + length ?r) 0 = Some (l @ ?r @ 0 # ?zs)"
    using arr_at(2) [of "length l + length ?r" "l @ ?r" z] by simp
  then have "finsh_backspace sh = Some (set_line (l @ ?r @ 0 # ?zs) (sh_line_position sh - 1) (sh_line_curpos sh - 1) sh)"
    using nz z pos by (simp add: finsh_backspace_def Let_def)
  moreover have "line_rep (set_line (l @ ?r @ 0 # ?zs) (sh_line_position sh - 1) (sh_line_curpos sh - 1) sh)
      (e\<lparr>ed_left := butlast (ed_left e)\<rparr>)"
    using rep snoc pos line' by (simp add: line_rep_def text_ok_def)
  ultimately show ?thesis by blast
qed

lemma finsh_left_ok:
  assumes "line_rep sh e"
  shows "\<exists>q. finsh_func_key 0x44 sh = Some (sh\<lparr>sh_line_curpos := q\<rparr>)
    \<and> line_rep (sh\<lparr>sh_line_curpos := q\<rparr>) (if ed_left e = [] then e
         else e\<lparr>ed_left := butlast (ed_left e), ed_right := last (ed_left e) # ed_right e\<rparr>)"
proof (cases "ed_left e" rule: rev_cases)
  case Nil
  then have "finsh_func_key 0x44 sh = Some (sh\<lparr>sh_line_curpos := sh_line_curpos sh\<rparr>)"
    using assms by (simp add: finsh_func_key_def line_rep_def unat_eq_0)
  then show ?thesis using assms Nil by (intro exI [of _ "sh_line_curpos sh"]) simp
next
  case (snoc l x)
  have nz: "sh_line_curpos sh \<noteq> 0" using assms snoc by (auto simp: line_rep_def)
  then show ?thesis using assms snoc unat16_minus [OF nz]
    by (intro exI [of _ "sh_line_curpos sh - 1"]) (simp add: finsh_func_key_def line_rep_def)
qed

lemma finsh_right_ok:
  assumes "line_rep sh e"
  shows "\<exists>q. finsh_func_key 0x43 sh = Some (sh\<lparr>sh_line_curpos := q\<rparr>)
    \<and> line_rep (sh\<lparr>sh_line_curpos := q\<rparr>) (case ed_right e of [] \<Rightarrow> e
         | c # cs \<Rightarrow> e\<lparr>ed_left := ed_left e @ [c], ed_right := cs\<rparr>)"
proof (cases "ed_right e")
  case Nil
  then have "finsh_func_key 0x43 sh = Some (sh\<lparr>sh_line_curpos := sh_line_curpos sh\<rparr>)"
    using assms by (simp add: finsh_func_key_def line_rep_def word_less_nat_alt)
  then show ?thesis using assms Nil by (intro exI [of _ "sh_line_curpos sh"]) simp
next
  case (Cons c cs)
  have len: "length (ed_left e) < FINSH_CMD_SIZE" using assms by (simp add: line_rep_def text_ok_def)
  then have "unat (sh_line_curpos sh + 1) = length (ed_left e) + 1"
    using assms unat16_plus [of "sh_line_curpos sh"] by (simp add: line_rep_def)
  moreover have "arr_get (sh_line sh) (length (ed_left e)) = Some c"
    using assms Cons by (simp add: line_rep_def padded_def arr_at)
  ultimately show ?thesis using assms Cons
    by (intro exI [of _ "sh_line_curpos sh + 1"]) (simp add: finsh_func_key_def line_rep_def word_less_nat_alt)
qed

lemma load_history_ok:
  assumes "line_rep sh e" "history_rep sh e" "k < length (ed_history e)" "unat n = k"
  shows "\<exists>line p. load_history n sh = Some (set_line line p p (sh\<lparr>sh_current_history := n\<rparr>))
    \<and> line_rep (set_line line p p (sh\<lparr>sh_current_history := n\<rparr>)) (ed_load k e)"
proof -
  let ?t = "ed_history e ! k"
  have t: "text_ok ?t" using assms(2,3) by (auto simp: history_rep_def)
  have "arr_get (sh_cmd_history sh) k = Some (padded FINSH_CMD_SIZE ?t)"
    using assms(2,3) by (auto simp: history_rep_def arr_get_def)
  moreover have "blit (sh_line sh) 0 (padded FINSH_CMD_SIZE ?t) = Some (padded (FINSH_CMD_SIZE + 1) ?t)"
  proof -
    let ?old = "ed_left e @ ed_right e"
    have L: "length (sh_line sh) = FINSH_CMD_SIZE + 1" "sh_line sh ! FINSH_CMD_SIZE = 0"
      using assms(1) by (auto simp: line_rep_def text_ok_def padded_def nth_append)
    then have "drop FINSH_CMD_SIZE (sh_line sh) = [0]"
      by (intro nth_equalityI) auto
    moreover have "length ?t < FINSH_CMD_SIZE" using t by (simp add: text_ok_def)
    then have "FINSH_CMD_SIZE + 1 - length ?t = FINSH_CMD_SIZE - length ?t + 1" by arith
    then have "padded (FINSH_CMD_SIZE + 1) ?t = padded FINSH_CMD_SIZE ?t @ [0]"
      by (simp add: padded_def replicate_append_same)
    moreover have "length (padded FINSH_CMD_SIZE ?t) = FINSH_CMD_SIZE" using t by (simp add: length_padded text_ok_def)
    ultimately show ?thesis using L by (simp add: blit_def)
  qed
  moreover have "c_strlen (padded (FINSH_CMD_SIZE + 1) ?t) = Some (length ?t)"
    using t by (intro c_strlen_padded) (auto simp: text_ok_def)
  moreover have "unat (word_of_nat (length ?t) :: rt_uint16_t) = length ?t"
    using t by (intro unat16_of_nat) (simp add: text_ok_def)
  ultimately show ?thesis using t assms(4)
    by (intro exI [of _ "padded (FINSH_CMD_SIZE + 1) ?t"] exI [of _ "word_of_nat (length ?t)"])
      (simp add: load_history_def line_rep_def ed_load_def)
qed

lemma load_history_rep:
  assumes "shell_rep sh e" "k < length (ed_history e)" "unat n = k"
  shows "\<exists>sh'. load_history n sh = Some sh' \<and> shell_rep sh' (ed_load k e)"
  using load_history_ok [of sh e k n] assms by (auto simp: shell_rep_def history_rep_def ed_load_def)

lemma finsh_up_ok:
  assumes "shell_rep sh e"
  shows "\<exists>sh'. finsh_func_key 0x41 sh = Some sh' \<and> shell_rep sh' (if ed_current e = 0 then e else ed_load (ed_current e - 1) e)"
proof (cases "sh_current_history sh = 0")
  case True
  then show ?thesis using assms by (auto simp: finsh_func_key_def shell_rep_def history_rep_def)
next
  case False
  then have "unat (sh_current_history sh - 1) = ed_current e - 1" "0 < ed_current e" "0 < sh_current_history sh"
    using assms unat16_minus [OF False] False word_gt_0 [of "sh_current_history sh"] unat_gt_0 [of "sh_current_history sh"]
    by (simp_all add: shell_rep_def history_rep_def)
  moreover have "ed_current e \<le> length (ed_history e)" using assms by (simp add: shell_rep_def history_rep_def)
  ultimately show ?thesis using load_history_rep [OF assms, of "ed_current e - 1" "sh_current_history sh - 1"]
    by (simp add: finsh_func_key_def)
qed

lemma finsh_down_ok:
  assumes "shell_rep sh e"
  shows "\<exists>sh'. finsh_func_key 0x42 sh = Some sh' \<and> shell_rep sh' (if ed_history e = [] then e
    else ed_load (min (ed_current e + 1) (length (ed_history e) - 1)) e)"
proof -
  have c: "unat (sh_history_count sh) = length (ed_history e)" "unat (sh_current_history sh) = ed_current e"
    "ed_current e \<le> length (ed_history e)" "length (ed_history e) \<le> FINSH_HISTORY_LINES"
    using assms by (simp_all add: shell_rep_def history_rep_def)
  show ?thesis
  proof (cases "ed_current e + 1 < length (ed_history e)")
    case True
    have "unat (sh_current_history sh + 1) = ed_current e + 1"
      using c unat16_plus [of "sh_current_history sh"] by simp
    moreover have "min (ed_current e + 1) (length (ed_history e) - 1) = ed_current e + 1" using True by simp
    ultimately show ?thesis using True c load_history_rep [OF assms, of "ed_current e + 1" "sh_current_history sh + 1"]
      by (auto simp: finsh_func_key_def)
  next
    case False
    show ?thesis
    proof (cases "ed_history e = []")
      case True
      then have "sh_history_count sh = 0" "sh_current_history sh = 0" using c by (simp_all add: unat_eq_0)
      then show ?thesis using True assms by (simp add: finsh_func_key_def)
    next
      case ne: False
      then have nz: "sh_history_count sh \<noteq> 0" using c by auto
      have "min (ed_current e + 1) (length (ed_history e) - 1) = length (ed_history e) - 1" using False by simp
      moreover have "unat (sh_history_count sh - 1) = length (ed_history e) - 1" using c unat16_minus [OF nz] by simp
      ultimately show ?thesis using ne nz False c
          load_history_rep [OF assms, of "length (ed_history e) - 1" "sh_history_count sh - 1"]
        by (auto simp: finsh_func_key_def)
    qed
  qed
qed

lemma finsh_tab_ok:
  assumes "names_ok table" "line_rep sh e"
  shows "\<exists>line p. finsh_tab table sh = Some (set_line line p p sh)
    \<and> line_rep (set_line line p p sh) (e\<lparr>ed_left := complete_name (map sc_name table) (ed_left e @ ed_right e), ed_right := []\<rparr>)"
proof -
  let ?t = "ed_left e @ ed_right e" and ?c = "complete_name (map sc_name table) (ed_left e @ ed_right e)"
  have t: "0 \<notin> set ?t" "length ?t < FINSH_CMD_SIZE" using assms(2) by (simp_all add: line_rep_def text_ok_def)
  note c = complete_name_ok [OF assms(1) t]
  have "unat (word_of_nat (length ?c) :: rt_uint16_t) = length ?c" using c(3) by (intro unat16_of_nat) simp
  moreover have "c_strlen (padded (FINSH_CMD_SIZE + 1) ?c) = Some (length ?c)" using c by (intro c_strlen_padded) auto
  ultimately show ?thesis using auto_complete_ok [OF assms(1) t] assms(2) c
    by (intro exI [of _ "padded (FINSH_CMD_SIZE + 1) ?c"] exI [of _ "word_of_nat (length ?c)"])
      (simp add: finsh_tab_def line_rep_def text_ok_def)
qed

text \<open>The history.\<close>

lemma padded_inj:
  assumes "0 \<notin> set s" "0 \<notin> set t" "length s < n" "length t < n"
  shows "padded n s = padded n t \<longleftrightarrow> s = t"
proof
  assume "padded n s = padded n t"
  moreover have "takeWhile ((\<noteq>) 0) (padded n u) = u" if "0 \<notin> set u" "length u < n" for u
    using that padded_zero [OF that(2)] by (subst padded_zero [OF that(2)], subst takeWhile_append2) auto
  ultimately show "s = t" using assms by metis
qed simp

lemma padded_take: "text_ok t \<Longrightarrow> take FINSH_CMD_SIZE (padded (FINSH_CMD_SIZE + 1) t) = padded FINSH_CMD_SIZE t"
  by (auto simp: padded_def text_ok_def)

lemma history_row_ok:
  assumes "line_rep sh e"
  shows "history_row sh = Some (padded FINSH_CMD_SIZE (ed_left e @ ed_right e))"
proof -
  let ?t = "ed_left e @ ed_right e"
  have t: "length ?t < FINSH_CMD_SIZE" "sh_line sh = padded (FINSH_CMD_SIZE + 1) ?t" "unat (sh_line_position sh) = length ?t"
    using assms by (simp_all add: line_rep_def text_ok_def)
  have "fetch (sh_line sh) 0 (length ?t) = Some ?t" unfolding t(2) using t(1) by (simp add: fetch_def padded_def)
  moreover have "blit (replicate FINSH_CMD_SIZE 0) 0 ?t = Some (padded FINSH_CMD_SIZE ?t)"
    using t(1) by (simp add: blit_def padded_def)
  ultimately show ?thesis unfolding history_row_def t(3) by simp
qed

lemma last_row:
  assumes "history_rep sh e" "text_ok t" "ed_history e \<noteq> []"
  shows "sh_cmd_history sh ! (length (ed_history e) - 1) = padded FINSH_CMD_SIZE t \<longleftrightarrow> last (ed_history e) = t"
proof -
  have "last (ed_history e) \<in> set (ed_history e)" using assms(3) by simp
  then have "text_ok (last (ed_history e))" using assms(1) by (simp add: history_rep_def)
  moreover have "sh_cmd_history sh ! (length (ed_history e) - 1) = padded FINSH_CMD_SIZE (last (ed_history e))"
    using assms(1,3) by (simp add: history_rep_def last_conv_nth)
  ultimately show ?thesis using assms(2) padded_inj [of "last (ed_history e)" t FINSH_CMD_SIZE] by (simp add: text_ok_def)
qed

lemma push_history_ok:
  assumes "line_rep sh e" "history_rep sh e"
  shows "\<exists>rows n. shell_push_history sh = Some (sh\<lparr>sh_cmd_history := rows, sh_history_count := n, sh_current_history := n\<rparr>)
    \<and> history_rep (sh\<lparr>sh_cmd_history := rows, sh_history_count := n, sh_current_history := n\<rparr>)
        (e\<lparr>ed_history := ed_push (ed_left e @ ed_right e) (ed_history e),
           ed_current := length (ed_push (ed_left e @ ed_right e) (ed_history e))\<rparr>)"
proof -
  let ?t = "ed_left e @ ed_right e" and ?hs = "ed_history e" and ?rows = "sh_cmd_history sh" and ?n = "sh_history_count sh"
  have t: "text_ok ?t" "unat (sh_line_position sh) = length ?t" using assms(1) by (simp_all add: line_rep_def)
  have z: "sh_line_position sh = 0 \<longleftrightarrow> ?t = []" using t(2) by (metis length_0_conv unat_eq_0)
  have cmp: "take FINSH_CMD_SIZE (sh_line sh) = padded FINSH_CMD_SIZE ?t"
    using padded_take [OF t(1)] assms(1) by (simp add: line_rep_def)
  have h: "length ?hs \<le> FINSH_HISTORY_LINES" "unat ?n = length ?hs" "length ?rows = FINSH_HISTORY_LINES"
    "\<And>i. i < length ?hs \<Longrightarrow> ?rows ! i = padded FINSH_CMD_SIZE (?hs ! i)" "\<forall>u \<in> set ?hs. u \<noteq> [] \<and> text_ok u"
    using assms(2) by (simp_all add: history_rep_def)
  note row = history_row_ok [OF assms(1)]
  have same: "sh\<lparr>sh_cmd_history := ?rows, sh_history_count := ?n, sh_current_history := ?n\<rparr> = sh\<lparr>sh_current_history := ?n\<rparr>"
    by simp
  show ?thesis
  proof (cases "?t = [] \<or> ?hs \<noteq> [] \<and> last ?hs = ?t")
    case True
    have "shell_push_history sh = Some (sh\<lparr>sh_current_history := ?n\<rparr>)"
    proof (cases "?t = []")
      case False
      then have hs: "?hs \<noteq> []" "last ?hs = ?t" using True by auto
      then have "?rows ! (length ?hs - 1) = padded FINSH_CMD_SIZE ?t" using last_row [OF assms(2) t(1) hs(1)] by simp
      moreover have "?n \<noteq> 0" using hs(1) h(2) by auto
      ultimately show ?thesis using False z cmp h(1,2) by (auto simp: shell_push_history_def)
    qed (simp add: shell_push_history_def z)
    moreover have "ed_push ?t ?hs = ?hs" using True by (simp add: ed_push_def)
    ultimately show ?thesis using assms(2) same
      by (intro exI [of _ ?rows] exI [of _ ?n]) (simp add: history_rep_def)
  next
    case False
    then have ne: "?t \<noteq> []" "?hs \<noteq> [] \<longrightarrow> ?rows ! (length ?hs - 1) \<noteq> padded FINSH_CMD_SIZE ?t"
      using last_row [OF assms(2) t(1)] by auto
    have push: "ed_push ?t ?hs = (if length ?hs \<ge> FINSH_HISTORY_LINES then tl ?hs else ?hs) @ [?t]"
      using False unfolding ed_push_def by (simp only: if_False)
    show ?thesis
    proof (cases "length ?hs = FINSH_HISTORY_LINES")
      case True
      let ?rows' = "tl ?rows @ [padded FINSH_CMD_SIZE ?t]" and ?n' = "word_of_nat FINSH_HISTORY_LINES :: rt_uint16_t"
      have "shell_push_history sh = Some (sh\<lparr>sh_cmd_history := ?rows', sh_history_count := ?n', sh_current_history := ?n'\<rparr>)"
        using True ne z cmp h(2) row by (auto simp: shell_push_history_def)
      moreover have "?rows' ! i = padded FINSH_CMD_SIZE ((tl ?hs @ [?t]) ! i)" if "i < FINSH_HISTORY_LINES" for i
        using that True h(3,4) by (auto simp: nth_append nth_tl)
      moreover have "\<forall>u \<in> set (tl ?hs @ [?t]). u \<noteq> [] \<and> text_ok u"
        using h(5) t(1) ne(1) list.set_sel(2) [of ?hs] by (cases ?hs) auto
      ultimately show ?thesis using push True h(3) t(1) ne(1)
        by (intro exI [of _ ?rows'] exI [of _ ?n']) (simp add: history_rep_def)
    next
      case False
      then have lt: "length ?hs < FINSH_HISTORY_LINES" using h(1) by simp
      let ?rows' = "?rows[length ?hs := padded FINSH_CMD_SIZE ?t]" and ?n' = "?n + 1"
      have "unat ?n' = length ?hs + 1" using lt h(2) unat16_plus [of ?n] by simp
      moreover have "?n = 0 \<longleftrightarrow> ?hs = []" using h(2) by (metis length_0_conv unat_eq_0)
      then have "shell_push_history sh = Some (sh\<lparr>sh_cmd_history := ?rows', sh_history_count := ?n', sh_current_history := ?n'\<rparr>)"
        using lt ne z cmp h(2) row by (auto simp: shell_push_history_def)
      moreover have "?rows' ! i = padded FINSH_CMD_SIZE ((?hs @ [?t]) ! i)" if "i < length ?hs + 1" for i
        using that lt h(3,4) by (auto simp: nth_append nth_list_update)
      ultimately show ?thesis using push lt h(3,5) t(1) ne(1)
        by (intro exI [of _ ?rows'] exI [of _ ?n']) (simp add: history_rep_def)
    qed
  qed
qed

lemma finsh_enter_ok:
  assumes "names_ok table" "shell_rep sh e"
  shows "\<exists>sh'. finsh_enter table sh = Some (exec_of table (ed_left e @ ed_right e), sh')
    \<and> shell_rep sh' (snd (the (ed_key names Key_enter e)))"
proof -
  let ?t = "ed_left e @ ed_right e"
  have t: "text_ok ?t" "unat (sh_line_position sh) = length ?t" "sh_line sh = padded (FINSH_CMD_SIZE + 1) ?t"
    using assms(2) by (simp_all add: shell_rep_def line_rep_def)
  obtain rows n where p: "shell_push_history sh = Some (sh\<lparr>sh_cmd_history := rows, sh_history_count := n, sh_current_history := n\<rparr>)"
    "history_rep (sh\<lparr>sh_cmd_history := rows, sh_history_count := n, sh_current_history := n\<rparr>)
        (e\<lparr>ed_history := ed_push ?t (ed_history e), ed_current := length (ed_push ?t (ed_history e))\<rparr>)"
    using push_history_ok [of sh e] assms(2) unfolding shell_rep_def by blast
  have "ended (length ?t) (padded (FINSH_CMD_SIZE + 1) ?t)"
    using t(1) by (simp add: ended_def padded_def text_ok_def nth_append)
  moreover have "\<forall>k < length ?t. padded (FINSH_CMD_SIZE + 1) ?t ! k \<noteq> 0"
    using t(1) by (auto simp: padded_def text_ok_def nth_append) (metis nth_append nth_mem Un_iff set_append length_append)+
  ultimately obtain r buf where ex: "msh_exec table (padded (FINSH_CMD_SIZE + 1) ?t) (length ?t) = Some (r, buf)"
    using msh_exec_total [OF assms(1)] by blast
  then have "exec_of table ?t = r" by (simp add: exec_of_def)
  moreover have "finsh_enter table sh = Some (r, set_line (replicate (FINSH_CMD_SIZE + 1) 0) 0 0
      (sh\<lparr>sh_cmd_history := rows, sh_history_count := n, sh_current_history := n\<rparr>))"
    using p(1) ex t(2,3) by (simp add: finsh_enter_def)
  ultimately show ?thesis using p(2) assms(2)
    by (auto simp: shell_rep_def line_rep_def history_rep_def padded_def text_ok_def Let_def)
qed

text \<open>One byte, and all of them.\<close>

lemma finsh_plain_ok:
  assumes "names_ok table" "shell_rep sh e" "ed_key (map sc_name table) (plain_key ch) e = Some (t, e')"
  shows "\<exists>sh'. finsh_plain table ch sh = Some (map_option (exec_of table) t, sh') \<and> shell_rep sh' e'"
proof -
  have rep: "line_rep sh e" "history_rep sh e" "sh_stat sh = ed_stat e" using assms(2) by (simp_all add: shell_rep_def)
  have set_line: "history_rep (set_line l p q sh) (e\<lparr>ed_left := u, ed_right := v\<rparr>)"
    "history_rep (set_line l p q sh) (e\<lparr>ed_left := u\<rparr>)" for l p q u v
    using rep(2) by (simp_all add: history_rep_def)
  consider "ch = 0 \<or> ch = 0xff" | "ch = 0x09" | "ch = 0x7f \<or> ch = 0x08" | "ch = 0x0d \<or> ch = 0x0a"
    | "plain_key ch = Key_char ch" "ch \<noteq> 0" "finsh_plain table ch sh = map_option (Pair None) (finsh_insert ch sh)"
    unfolding plain_key_def finsh_plain_def by argo
  then show ?thesis
  proof cases
    case 1
    then show ?thesis using assms by (auto simp: plain_key_def finsh_plain_def)
  next
    case 2
    then show ?thesis using assms(3) finsh_tab_ok [OF assms(1) rep(1)] set_line rep(3)
      by (auto simp: plain_key_def finsh_plain_def shell_rep_def)
  next
    case 3
    then show ?thesis using assms(3) finsh_backspace_ok [OF rep(1)] set_line rep(3)
      by (auto simp: plain_key_def finsh_plain_def shell_rep_def)
  next
    case 4
    then show ?thesis using assms(3) finsh_enter_ok [OF assms(1,2), of "map sc_name table"]
      by (auto simp: plain_key_def finsh_plain_def Let_def)
  next
    case 5
    then show ?thesis using assms(3) finsh_insert_ok [OF rep(1) 5(2)] set_line rep(3)
      by (auto simp: shell_rep_def split: if_splits)
  qed
qed

lemma finsh_char_ok:
  assumes "names_ok table" "shell_rep sh e" "ed_char (map sc_name table) ch e = Some (t, e')"
  shows "\<exists>sh'. finsh_char table ch sh = Some (map_option (exec_of table) t, sh') \<and> shell_rep sh' e'"
proof -
  have st: "sh_stat sh = ed_stat e" using assms(2) by (simp add: shell_rep_def)
  have rep: "shell_rep (sh\<lparr>sh_stat := s\<rparr>) (e\<lparr>ed_stat := s\<rparr>)" for s
    using assms(2) by (simp add: shell_rep_def line_rep_def history_rep_def)
  have line: "line_rep (sh\<lparr>sh_stat := s\<rparr>) (e\<lparr>ed_stat := s\<rparr>)" for s using rep by (simp add: shell_rep_def)
  have plain: "\<exists>sh'. finsh_plain table ch (sh\<lparr>sh_stat := s\<rparr>) = Some (map_option (exec_of table) t, sh') \<and> shell_rep sh' e'"
    if "ed_key (map sc_name table) (plain_key ch) (e\<lparr>ed_stat := s\<rparr>) = Some (t, e')" for s
    using finsh_plain_ok [OF assms(1) rep that] .
  have same: "sh_stat sh = WAIT_NORMAL \<Longrightarrow> sh\<lparr>sh_stat := WAIT_NORMAL\<rparr> = sh" by simp
  have hist: "history_rep (s1\<lparr>sh_line_curpos := q\<rparr>) (e1\<lparr>ed_left := u, ed_right := v\<rparr>) = history_rep s1 e1"
    "history_rep (s1\<lparr>sh_line_curpos := q\<rparr>) e1 = history_rep s1 e1" for s1 q u v e1
    by (simp_all add: history_rep_def)
  have arrow: "\<exists>sh'. map_option (Pair None) (finsh_func_key ch (sh\<lparr>sh_stat := WAIT_NORMAL\<rparr>)) = Some (map_option (exec_of table) t, sh')
      \<and> shell_rep sh' e'"
    if "ed_stat e = WAIT_FUNC_KEY" "ch = 0x41 \<or> ch = 0x42 \<or> ch = 0x44 \<or> ch = 0x43"
  proof -
    let ?sh = "sh\<lparr>sh_stat := WAIT_NORMAL\<rparr>" and ?e = "e\<lparr>ed_stat := WAIT_NORMAL\<rparr>"
    have r: "shell_rep ?sh ?e" "line_rep ?sh ?e" "history_rep ?sh ?e" using rep [of WAIT_NORMAL] by (simp_all add: shell_rep_def)
    show ?thesis using that(2)
    proof (elim disjE)
      assume "ch = 0x41"
      then show ?thesis using assms(3) that(1) finsh_up_ok [OF r(1)]
        by (auto simp: ed_char_def decode_key_def)
    next
      assume "ch = 0x42"
      then show ?thesis using assms(3) that(1) finsh_down_ok [OF r(1)]
        by (auto simp: ed_char_def decode_key_def)
    next
      assume "ch = 0x44"
      then show ?thesis using assms(3) that(1) finsh_left_ok [OF r(2)] r(3) hist
        by (auto simp: ed_char_def decode_key_def shell_rep_def)
    next
      assume "ch = 0x43"
      then show ?thesis using assms(3) that(1) finsh_right_ok [OF r(2)] r(3) hist
        by (auto simp: ed_char_def decode_key_def shell_rep_def split: list.splits)
    qed
  qed
  show ?thesis
  proof (cases "ch = 0x1b")
    case True
    then show ?thesis using assms(3) rep by (auto simp: finsh_char_def ed_char_def decode_key_def)
  next
    case no: False
    show ?thesis
    proof (cases "ed_stat e")
      case WAIT_NORMAL
      then show ?thesis using assms no st plain [of WAIT_NORMAL] same
        by (simp add: finsh_char_def ed_char_def decode_key_def)
    next
      case WAIT_SPEC_KEY
      then show ?thesis using assms(3) no st plain [of WAIT_NORMAL] rep
        by (auto simp: finsh_char_def ed_char_def decode_key_def split: if_splits)
    next
      case WAIT_FUNC_KEY
      then show ?thesis using assms(3) no st plain [of WAIT_NORMAL] arrow
        by (cases "ch = 0x41 \<or> ch = 0x42 \<or> ch = 0x44 \<or> ch = 0x43")
          (simp_all add: finsh_char_def ed_char_def decode_key_def)
    qed
  qed
qed

lemma finsh_run_ok:
  assumes "names_ok table" "shell_rep sh e" "ed_run (map sc_name table) chs e = Some (ts, e')"
  shows "\<exists>sh'. finsh_run table chs sh = Some (map (exec_of table) ts, sh') \<and> shell_rep sh' e'"
  using assms(2,3)
proof (induction chs arbitrary: sh e ts)
  case (Cons ch chs)
  obtain t e1 ts1 where e1: "ed_char (map sc_name table) ch e = Some (t, e1)"
    "ed_run (map sc_name table) chs e1 = Some (ts1, e')" "ts = (case t of None \<Rightarrow> ts1 | Some x \<Rightarrow> x # ts1)"
    using Cons.prems(2) by (auto simp: bind_Some_iff)
  obtain sh1 where sh1: "finsh_char table ch sh = Some (map_option (exec_of table) t, sh1)" "shell_rep sh1 e1"
    using finsh_char_ok [OF assms(1) Cons.prems(1) e1(1)] by blast
  obtain sh2 where "finsh_run table chs sh1 = Some (map (exec_of table) ts1, sh2)" "shell_rep sh2 e'"
    using Cons.IH [OF sh1(2) e1(2)] by blast
  then show ?case using sh1(1) e1(3) by (cases t) auto
qed simp

text \<open>Typing.\<close>

lemma ed_run_append:
  "ed_run names (as @ bs) e = do { (ts, e1) \<leftarrow> ed_run names as e; (us, e2) \<leftarrow> ed_run names bs e1; Some (ts @ us, e2) }"
proof (induction as arbitrary: e)
  case (Cons a as)
  show ?case
  proof (cases "ed_char names a e")
    case (Some r)
    then show ?thesis
      by (cases r; cases "fst r"; cases "ed_run names as (snd r)";
          cases "ed_run names bs (snd (the (ed_run names as (snd r))))") (auto simp: Cons.IH)
  qed simp
next
  case Nil
  show ?case by (cases "ed_run names bs e") auto
qed

abbreviation printable :: "cchar \<Rightarrow> bool" where "printable c \<equiv> 0x20 \<le> c \<and> c < 0x7f"

lemma printable_key:
  assumes "printable c"
  shows "plain_key c = Key_char c" "c \<noteq> 0x1b" "c \<noteq> 0"
proof -
  have "c \<notin> {0, 0xff, 0x09, 0x7f, 0x08, 0x0d, 0x0a, 0x1b}" using assms by (auto simp: word_less_nat_alt word_le_nat_alt)
  then show "plain_key c = Key_char c" "c \<noteq> 0x1b" "c \<noteq> 0" by (auto simp: plain_key_def)
qed

lemma ed_type_text:
  assumes "\<forall>c \<in> set t. printable c" "ed_stat e = WAIT_NORMAL" "length (ed_left e @ ed_right e) + length t < FINSH_CMD_SIZE"
  shows "ed_run names t e = Some ([], e\<lparr>ed_left := ed_left e @ t\<rparr>)"
  using assms
proof (induction t arbitrary: e)
  case (Cons c t)
  have "ed_char names c e = Some (None, e\<lparr>ed_left := ed_left e @ [c]\<rparr>)"
    using Cons.prems printable_key [of c] by (simp add: ed_char_def decode_key_def)
  moreover have "ed_run names t (e\<lparr>ed_left := ed_left e @ [c]\<rparr>) = Some ([], e\<lparr>ed_left := ed_left e @ [c] @ t\<rparr>)"
    using Cons.IH [of "e\<lparr>ed_left := ed_left e @ [c]\<rparr>"] Cons.prems by simp
  ultimately show ?case by simp
qed simp

lemma ed_enter:
  assumes "ed_stat e = WAIT_NORMAL"
  shows "\<exists>e'. ed_run names [0x0d] e = Some ([ed_left e @ ed_right e], e')"
  using assms by (simp add: ed_char_def decode_key_def plain_key_def Let_def)

section \<open>Full lines\<close>

text \<open>
  The 80th character empties the line and keeps its bytes: a short command typed next is called with
  the old bytes behind its last argument.
\<close>

definition full_line :: "cchar list \<Rightarrow> finsh_shell \<Rightarrow> bool" where
  "full_line t sh \<longleftrightarrow> sh_line sh = t @ [0] \<and> sh_line_position sh = 0 \<and> sh_line_curpos sh = 0
     \<and> sh_stat sh = WAIT_NORMAL \<and> sh_history_count sh = 0 \<and> length (sh_cmd_history sh) = FINSH_HISTORY_LINES"

lemma finsh_run_append:
  "finsh_run table as sh = Some (rs, sh1) \<Longrightarrow> finsh_run table bs sh1 = Some (us, sh2) \<Longrightarrow>
   finsh_run table (as @ bs) sh = Some (rs @ us, sh2)"
  by (induction as arbitrary: sh rs) (auto simp: bind_Some_iff split: option.splits)

lemma finsh_run_fails:
  "finsh_run table as sh = Some (rs, sh1) \<Longrightarrow> finsh_run table bs sh1 = None \<Longrightarrow> finsh_run table (as @ bs) sh = None"
  by (induction as arbitrary: sh rs) (auto simp: bind_Some_iff bind_eq_None_conv)

lemma finsh_fill_line:
  assumes "names_ok table" "length t = FINSH_CMD_SIZE" "\<forall>c \<in> set t. printable c"
  shows "\<exists>sh. finsh_run table t finsh_start = Some ([], sh) \<and> full_line t sh"
proof -
  obtain u c where t: "t = u @ [c]" using assms(2) by (cases t rule: rev_cases) auto
  let ?e = "ed_start\<lparr>ed_left := u\<rparr>"
  have "ed_run (map sc_name table) u ed_start = Some ([], ?e)"
    using ed_type_text [of u ed_start] assms(2,3) t by (simp add: ed_start_def)
  then obtain sh where sh: "finsh_run table u finsh_start = Some ([], sh)" "shell_rep sh ?e"
    using finsh_run_ok [OF assms(1) shell_start_rep] by fastforce
  have u: "length u = 79" using assms(2) t by simp
  note rep = sh(2) [unfolded shell_rep_def line_rep_def history_rep_def]
  have c: "plain_key c = Key_char c" "c \<noteq> 0x1b" using printable_key [of c] assms(3) t by auto
  have stat: "sh_stat sh = WAIT_NORMAL" using rep by (simp add: ed_start_def)
  have ins: "finsh_char table c sh = map_option (Pair None) (finsh_insert c sh)"
    using c stat by (auto simp: finsh_char_def finsh_plain_def plain_key_def split: if_splits)
  have pos: "unat (sh_line_position sh) = 79" "unat (sh_line_curpos sh) = 79" "sh_line sh = u @ [0, 0]"
    using rep u by (simp_all add: ed_start_def padded_def eval_nat_numeral)
  have "unat (sh_line_position sh + 1) = FINSH_CMD_SIZE" using pos(1) unat16_plus [of "sh_line_position sh"] by simp
  then have "finsh_insert c sh = Some (set_line (u @ [c, 0]) 0 0 sh)"
    using pos u by (simp add: finsh_insert_def word_less_nat_alt Let_def arr_at)
  then have "finsh_run table t finsh_start = Some ([], set_line (u @ [c, 0]) 0 0 sh)"
    using finsh_run_append [OF sh(1), of "[c]" "[]"] ins t by simp
  then show ?thesis using rep t stat by (auto simp: full_line_def ed_start_def unat_eq_0)
qed

lemma finsh_full_line_stale:
  assumes "names_ok table" "length t = FINSH_CMD_SIZE" "\<forall>c \<in> set t. printable c"
    and "List.find (\<lambda>i. sc_name i = [0x6c, 0x73]) table = Some i"
  shows "\<exists>sh. finsh_run table (t @ [0x6c, 0x73, 0x0d]) finsh_start
    = Some ([Exec_call (sc_func i) [0x6c # 0x73 # drop 2 t]], sh)"
proof -
  obtain sh where sh: "finsh_run table t finsh_start = Some ([], sh)" "full_line t sh"
    using finsh_fill_line [OF assms(1-3)] by blast
  obtain a b u where t: "t = a # b # u" using assms(2) by (cases t; cases "tl t") auto
  note f = sh(2) [unfolded full_line_def t]
  let ?l = "0x6c # 0x73 # u @ [0]"
  let ?sh = "set_line ?l 2 2 sh"
  have "0 \<notin> set (0x6c # 0x73 # u)" using assms(3) t printable_key(3) by auto
  then have str: "c_string ?l 0 = Some (0x6c # 0x73 # u)" using c_string_ok [of "0x6c # 0x73 # u" 0 "[]" "[]"] by simp
  have two: "finsh_run table [0x6c, 0x73] sh = Some ([], ?sh)"
    using f by (simp add: finsh_char_def finsh_plain_def finsh_insert_def arr_set_def set_line_def)
  obtain sh1 where push: "shell_push_history ?sh = Some sh1" "sh_line sh1 = ?l" "unat (sh_line_position sh1) = 2"
    using f by (auto simp: shell_push_history_def history_row_def fetch_def blit_def)
  have skip: "skip_word 0 2 0 ?l = Some 2"
    using skip_word_ok [of "[0x6c, 0x73]" 0 0 "[]" 2 "u @ [0]"] by simp
  have "msh_get_cmd table ?l 2 = Some (Some (sc_func i))"
    using get_cmd_ok [OF assms(1), of "[0x6c, 0x73]" "u @ [0]"] assms(4) by (simp flip: numeral_2_eq_2)
  moreover have "msh_split 0 2 ?l = Some ([0], ?l)"
    using skip by (simp add: msh_split_def split_loop.simps [of 0 2 0] strip_blanks.simps [of 0 2 0] arr_get_def)
  moreover have "strim ?l 0 2 = Some (0, 2)" by (simp add: strim.simps arr_get_def)
  ultimately have "msh_exec table ?l 2 = Some (Exec_call (sc_func i) [0x6c # 0x73 # u], ?l)"
    using skip str by (simp add: msh_exec_def msh_exec_cmd_def)
  then have "\<exists>sh2. finsh_run table [0x0d] ?sh = Some ([Exec_call (sc_func i) [0x6c # 0x73 # u]], sh2)"
    using push f by (simp add: finsh_char_def finsh_plain_def finsh_enter_def)
  then show ?thesis using finsh_run_append [OF sh(1)] finsh_run_append [OF two] t by fastforce
qed

text \<open>
  A tab finds the old bytes, puts both positions behind the line, and after one more character and
  two backspaces the shell moves 65456 bytes over what lies behind the line.
\<close>

lemma finsh_full_line_tab_corrupts:
  assumes "names_ok table" "length t = FINSH_CMD_SIZE" "\<forall>c \<in> set t. printable c"
  shows "finsh_run table (t @ [0x09, 0x61, 0x7f, 0x7f]) finsh_start = None"
proof -
  obtain sh where sh: "finsh_run table t finsh_start = Some ([], sh)" "full_line t sh"
    using finsh_fill_line [OF assms] by blast
  obtain a u where t: "t = a # u" using assms(2) by (cases t) auto
  have u: "length u = 79" using t assms(2) by simp
  note f = sh(2) [unfolded full_line_def t]
  have nz: "0 \<notin> set t" using assms(3) printable_key(3) by blast
  have "filter (prefix t) (map sc_name table) = []"
    using assms(1,2) prefix_length_le [of t] by (fastforce simp: names_ok_def filter_empty_conv)
  then have "completion_loop (t @ [0]) (length t) table None 0 = Some (None, 0)"
    using completion_loop_start [OF assms(1) _ nz, of "[0]"] t by auto
  then have "msh_auto_complete table (t @ [0]) = Some (t @ [0])"
    using c_strlen_ok [OF nz, of "[]"] nz t by (simp add: msh_auto_complete_def arr_get_def)
  then have "finsh_tab table sh = Some (set_line (t @ [0]) 80 80 sh)"
    using c_strlen_ok [OF nz, of "[]"] f t assms(2) by (simp add: finsh_tab_def)
  then have tab: "finsh_char table 0x09 sh = Some (None, set_line (t @ [0]) 80 80 sh)"
    using f by (simp add: finsh_char_def finsh_plain_def)
  have ins: "finsh_char table 0x61 (set_line (t @ [0]) 80 80 sh) = Some (None, set_line (0x61 # u @ [0]) 1 81 (set_line (t @ [0]) 80 80 sh))"
    using f t by (simp add: finsh_char_def finsh_plain_def finsh_insert_def arr_set_def)
  have bsp: "finsh_char table 0x7f (set_line (0x61 # u @ [0]) 1 81 s) = Some (None, set_line (0 # u @ [0]) 0 80 (set_line (0x61 # u @ [0]) 1 81 s))"
    if "sh_stat s = WAIT_NORMAL" for s
    using that by (simp add: finsh_char_def finsh_plain_def finsh_backspace_def arr_set_def)
  have m1: "unat (- 1 :: rt_uint16_t) = 65535" by (simp add: unsigned_minus_1_eq_mask mask_eq_exp_minus_1)
  have fail: "finsh_char table 0x7f (set_line (0 # u @ [0]) 0 80 s) = None" if "sh_stat s = WAIT_NORMAL" for s
    using that u m1 by (simp add: finsh_char_def finsh_plain_def finsh_backspace_def memmove_def fetch_def Let_def)
  have "finsh_run table [0x09, 0x61, 0x7f, 0x7f] sh = None" using tab ins bsp fail f by simp
  then show ?thesis by (rule finsh_run_fails [OF sh(1)])
qed

section \<open>Prompt and numbers\<close>

lemma strncpy_pad: "0 \<notin> set p \<Longrightarrow> strncpy_bytes (p @ [0]) (length p + n) = Some (p @ replicate n 0)"
  by (induction p) (cases n; auto)+

lemma finsh_prompt_ok:
  assumes "0 \<notin> set p" "length p < RT_CONSOLEBUF_SIZE" "length buf = RT_CONSOLEBUF_SIZE + 1" "sh_prompt_mode sh"
  shows "\<exists>buf'. finsh_get_prompt (Some p) sh buf = Some buf' \<and> c_string buf' 0 = Some (p @ [0x3e])"
proof -
  let ?zs = "replicate (RT_CONSOLEBUF_SIZE - Suc (length p)) (0 :: cchar)"
  have "strncpy_bytes (p @ [0]) RT_CONSOLEBUF_SIZE = Some (p @ 0 # ?zs)"
    using strncpy_pad [OF assms(1), of "Suc (length ?zs)"] assms(2) by simp
  moreover obtain x where x: "drop RT_CONSOLEBUF_SIZE buf = [x]"
    using assms(3) by (metis (no_types, lifting) add_diff_cancel_left' length_drop length_Suc_conv length_0_conv One_nat_def)
  ultimately have "blit buf 0 (p @ 0 # ?zs) = Some ((p @ 0 # ?zs) @ [x])" using assms(2,3) by (simp add: blit_def)
  moreover have "blit ((p @ 0 # ?zs) @ [x]) (length p) [0x3e, 0] = Some (p @ [0x3e] @ 0 # tl (?zs @ [x]))"
    by (cases ?zs) (simp_all add: blit_def)
  ultimately show ?thesis
    using assms \<open>strncpy_bytes _ _ = _\<close> c_strlen_ok [OF assms(1)] c_string_ok [of "p @ [0x3e]" 0 "[]" "tl (?zs @ [x])"]
    by (simp add: finsh_get_prompt_def)
qed

text \<open>A prompt of 256 or more bytes leaves no room for the NUL behind its \<^verbatim>\<open>></\<close>.\<close>

lemma finsh_prompt_overflows:
  assumes "0 \<notin> set p" "RT_CONSOLEBUF_SIZE \<le> length p" "length buf = RT_CONSOLEBUF_SIZE + 1" "buf ! RT_CONSOLEBUF_SIZE = 0"
    and "sh_prompt_mode sh"
  shows "finsh_get_prompt (Some p) sh buf = None"
proof -
  have "strncpy_bytes (p @ [0]) RT_CONSOLEBUF_SIZE = Some (take RT_CONSOLEBUF_SIZE p)"
    by (rule strncpy_take) (use assms in auto)
  moreover have "drop RT_CONSOLEBUF_SIZE buf = [0]"
    using assms(3,4) by (intro nth_equalityI) auto
  ultimately have "blit buf 0 (take RT_CONSOLEBUF_SIZE p) = Some (take RT_CONSOLEBUF_SIZE p @ [0])"
    using assms(2,3) by (simp add: blit_def)
  moreover have "0 \<notin> set (take RT_CONSOLEBUF_SIZE p)" using assms(1) by (auto dest: in_set_takeD)
  ultimately show ?thesis
    using assms \<open>strncpy_bytes _ _ = _\<close> c_strlen_ok [of "take RT_CONSOLEBUF_SIZE p" "[]"]
    by (simp add: finsh_get_prompt_def blit_def)
qed

text \<open>Only the lowest bit of a mode counts.\<close>

lemma finsh_prompt_mode_two: "\<not> sh_prompt_mode (finsh_set_prompt_mode 2 sh)"
  by (simp add: finsh_set_prompt_mode_def bit_simps)

lemma msh_isint_sign: "msh_isint (Some [0x2b])"
  by (simp add: msh_isint_def)

text \<open>The value of a hexadecimal number of up to eight digits.\<close>

definition hex_digit :: "cchar \<Rightarrow> nat" where
  "hex_digit ch = (let c = c_tolower ch in if c_isdigit c then unat c - 48 else unat c - 97 + 10)"

lemma hex_digit_value:
  assumes "c_isxdigit (c_tolower ch)"
  shows "hex_digit ch < 16"
    "unat (if c_isdigit (c_tolower ch) then ucast (c_tolower ch) - 0x30 else ucast (c_tolower ch) - 0x61 + 10 :: rt_uint32_t)
      = hex_digit ch"
proof -
  let ?c = "c_tolower ch"
  have "unat ?c < 2 ^ 8" using unsigned_less [of ?c] by simp
  then have u: "unat (ucast ?c :: rt_uint32_t) = unat ?c" by (simp add: unsigned_ucast_eq take_bit_nat_eq_self)
  have "\<not> (0x41 \<le> ?c \<and> ?c \<le> 0x46)"
  proof (cases "0x41 \<le> ch \<and> ch \<le> 0x5a")
    case True
    then have "unat (ch + 0x20) = unat ch + 32" "65 \<le> unat ch" by (auto simp: word_le_nat_alt unat_plus_if')
    then show ?thesis using True by (simp add: c_tolower_def word_le_nat_alt)
  next
    case False
    then have "?c = ch" by (simp add: c_tolower_def)
    moreover have "ch \<le> 0x46 \<Longrightarrow> ch \<le> 0x5a" by (simp add: word_le_nat_alt)
    ultimately show ?thesis using False by auto
  qed
  then consider "c_isdigit ?c" "48 \<le> unat ?c" "unat ?c \<le> 57" | "\<not> c_isdigit ?c" "97 \<le> unat ?c" "unat ?c \<le> 102"
    using assms by (auto simp: c_isxdigit_def c_isdigit_def word_le_nat_alt)
  then have "hex_digit ch < 16 \<and> unat (if c_isdigit ?c then ucast ?c - 0x30 else ucast ?c - 0x61 + 10 :: rt_uint32_t) = hex_digit ch"
  proof cases
    case 1
    then show ?thesis using u by (simp add: hex_digit_def unat_sub word_le_nat_alt)
  next
    case 2
    then show ?thesis using u by (simp add: hex_digit_def unat_sub word_le_nat_alt)
  qed
  then show "hex_digit ch < 16"
    "unat (if c_isdigit ?c then ucast ?c - 0x30 else ucast ?c - 0x61 + 10 :: rt_uint32_t) = hex_digit ch" by blast+
qed

lemma msh_strtohex_value:
  assumes "msh_ishex (Some s)" "length s \<le> 10"
  shows "unat (msh_strtohex s) = foldl (\<lambda>v ch. v * 16 + hex_digit ch) 0 (drop 2 s)"
proof -
  let ?f = "\<lambda>value ch. let c = c_tolower ch
                in value * 16 + (if c_isdigit c then ucast c - 0x30 else ucast c - 0x61 + 10 :: rt_uint32_t)"
  let ?g = "\<lambda>v ch. v * 16 + hex_digit ch"
  have hex: "unat (foldl ?f 0 ds) = foldl ?g 0 ds \<and> foldl ?g 0 ds < 16 ^ length ds"
    if "list_all (\<lambda>c. c_isxdigit (c_tolower c)) ds" "length ds \<le> 8" for ds
    using that
  proof (induction ds rule: rev_induct)
    case (snoc d ds)
    let ?v = "foldl ?f 0 ds" and ?n = "foldl ?g 0 ds" and ?d = "hex_digit d"
    have IH: "unat ?v = ?n" "?n < 16 ^ length ds" using snoc by auto
    note d = hex_digit_value [of d]
    have dx: "c_isxdigit (c_tolower d)" using snoc.prems by simp
    have "(16 :: nat) ^ length ds \<le> 16 ^ 7" using snoc.prems(2) by (intro power_increasing) auto
    then have b: "?n < 16 ^ 7" using IH(2) by linarith
    then have "unat (?v * 16) = ?n * 16" using IH(1) by (subst unat_mult_lem [THEN iffD1]) simp_all
    moreover have "?n * 16 + ?d < 2 ^ 32" using b d(1) [OF dx] by simp
    ultimately have "unat (?f ?v d) = ?n * 16 + ?d"
      using d(2) [OF dx] unat_add_lem [of "?v * 16", THEN iffD1] by (simp add: Let_def)
    then show ?case using IH(2) d(1) [OF dx] by simp
  qed simp
  obtain c d cs where "s = c # d # cs" "list_all (\<lambda>c. c_isxdigit (c_tolower c)) cs"
    using assms(1) by (auto simp: msh_ishex_def split: list.splits)
  then show ?thesis using hex [of cs] assms(2) by (simp add: msh_strtohex_def)
qed

section \<open>Properties\<close>

text \<open>
  C38: the line editor refines an editor on two lists, the text before and the text behind the
  cursor, for a command table whose names are shorter than a line.  Whatever bytes arrive, as long
  as no character is typed that would fill the line of 80 bytes, no access leaves the buffers; the
  buffer holds the text, with NULs behind it, the positions are the length of the text and the place
  of the cursor, the history holds the last five commands without repetitions in a row, arrow keys
  fetch them, a tab completes the text to the longest common prefix of the names that start with it,
  and each line is executed with the text that was edited.
\<close>

theorem line_editor_refines:
  assumes "names_ok table" "ed_run (map sc_name table) chs ed_start = Some (ts, e)"
  shows "\<exists>sh. finsh_run table chs finsh_start = Some (map (exec_of table) ts, sh)
    \<and> sh_line sh = padded (FINSH_CMD_SIZE + 1) (ed_left e @ ed_right e)
    \<and> unat (sh_line_position sh) = length (ed_left e @ ed_right e) \<and> unat (sh_line_curpos sh) = length (ed_left e)
    \<and> unat (sh_history_count sh) = length (ed_history e)
    \<and> (\<forall>i < length (ed_history e). c_string (sh_cmd_history sh ! i) 0 = Some (ed_history e ! i))"
proof -
  obtain sh where sh: "finsh_run table chs finsh_start = Some (map (exec_of table) ts, sh)" "shell_rep sh e"
    using finsh_run_ok [OF assms(1) shell_start_rep assms(2)] by blast
  have "c_string (padded FINSH_CMD_SIZE t) 0 = Some t" if "text_ok t" for t
    using that c_string_ok [of t 0 "[]"] by (simp add: text_ok_def padded_zero)
  then have "\<forall>i < length (ed_history e). c_string (sh_cmd_history sh ! i) 0 = Some (ed_history e ! i)"
    using sh(2) by (simp add: shell_rep_def history_rep_def)
  then show ?thesis using sh by (auto simp: shell_rep_def line_rep_def history_rep_def)
qed

text \<open>
  C39: a command that is typed is called with the words that were typed.  After any bytes (that filled
  no line) that left an empty line and no arrow key half read, a line of a command's name and up to nine words, bare or in quotation marks and
  apart by blanks, calls the first command of that name with exactly these words as arguments.
\<close>

theorem typed_command_runs:
  assumes "names_ok table" "ed_run (map sc_name table) chs ed_start = Some (ts, e)"
    and "ed_left e @ ed_right e = []" "ed_stat e = WAIT_NORMAL"
    and "spaced False ((bl, Bare w) # ws)" "length ws < FINSH_ARG_MAX" "\<forall>c \<in> set tr. c = 0x20"
    and "\<forall>c \<in> set (line_text ((bl, Bare w) # ws)). printable c"
    and "length (line_text ((bl, Bare w) # ws) @ tr) < FINSH_CMD_SIZE"
    and "List.find (\<lambda>i. sc_name i = w) table = Some i"
  shows "\<exists>sh. finsh_run table (chs @ line_text ((bl, Bare w) # ws) @ tr @ [0x0d]) finsh_start
    = Some (map (exec_of table) ts @ [Exec_call (sc_func i) (w # map (arg_text \<circ> snd) ws)], sh)"
proof -
  let ?t = "line_text ((bl, Bare w) # ws) @ tr"
  obtain sh where sh: "finsh_run table chs finsh_start = Some (map (exec_of table) ts, sh)" "shell_rep sh e"
    using finsh_run_ok [OF assms(1) shell_start_rep assms(2)] by blast
  have pr: "\<forall>c \<in> set ?t. printable c" using assms(7,8) by auto
  have "ed_run (map sc_name table) ?t e = Some ([], e\<lparr>ed_left := ?t\<rparr>)"
    using ed_type_text [OF pr assms(4)] assms(3,9) by simp
  moreover obtain e' where "ed_run (map sc_name table) [0x0d] (e\<lparr>ed_left := ?t\<rparr>) = Some ([?t], e')"
    using ed_enter [of "e\<lparr>ed_left := ?t\<rparr>" "map sc_name table"] assms(3,4) by auto
  ultimately have "ed_run (map sc_name table) (?t @ [0x0d]) e = Some ([?t], e')" by (simp only: ed_run_append) simp
  then obtain sh' where sh': "finsh_run table (?t @ [0x0d]) sh = Some (map (exec_of table) [?t], sh')"
    using finsh_run_ok [OF assms(1) sh(2)] by blast
  have "\<forall>c \<in> set tr. is_blank c" using assms(7) by simp
  from msh_exec_words [OF assms(1,5,6) this refl assms(10), of "replicate (FINSH_CMD_SIZE + 1 - Suc (length ?t)) 0"]
  obtain buf where "msh_exec table (?t @ 0 # replicate (FINSH_CMD_SIZE + 1 - Suc (length ?t)) 0) (length ?t)
      = Some (Exec_call (sc_func i) (w # map (arg_text \<circ> snd) ws), buf)"
    unfolding append_assoc length_append by blast
  then have "exec_of table ?t = Exec_call (sc_func i) (w # map (arg_text \<circ> snd) ws)"
    unfolding exec_of_def padded_zero [OF trans_less_add1 [OF assms(9)]] by simp
  then show ?thesis using finsh_run_append [OF sh(1) sh'] by simp
qed

text \<open>Two commands; the line is typed as lx, corrected, and fetched again.\<close>

definition table_sample :: "finsh_syscall list" where
  "table_sample = [\<lparr>sc_name = [0x6c, 0x73], sc_func = 7\<rparr>, \<lparr>sc_name = [0x65, 0x63, 0x68, 0x6f], sc_func = 3\<rparr>]"

lemma table_sample_ok: "names_ok table_sample"
  by (simp add: names_ok_def table_sample_def)

theorem line_editor_refines_witness:
  "\<exists>sh. finsh_run table_sample [0x6c, 0x78, 0x08, 0x09, 0x0d, 0x1b, 0x5b, 0x41, 0x1b, 0x5b, 0x44] finsh_start
      = Some ([exec_of table_sample [0x6c, 0x73]], sh)
    \<and> sh_line sh = padded (FINSH_CMD_SIZE + 1) [0x6c, 0x73] \<and> unat (sh_line_curpos sh) = 1"
proof -
  have "ed_run (map sc_name table_sample) [0x6c, 0x78, 0x08, 0x09, 0x0d, 0x1b, 0x5b, 0x41, 0x1b, 0x5b, 0x44] ed_start
      = Some ([[0x6c, 0x73]], \<lparr>ed_left = [0x6c], ed_right = [0x73], ed_history = [[0x6c, 0x73]], ed_current = 0, ed_stat = WAIT_NORMAL\<rparr>)"
    by (simp add: table_sample_def ed_start_def ed_char_def decode_key_def plain_key_def complete_name_def ed_push_def ed_load_def)
  from line_editor_refines [OF table_sample_ok this] show ?thesis by auto
qed

theorem typed_command_runs_witness:
  "\<exists>sh. finsh_run table_sample ([0x65, 0x63, 0x68, 0x6f, 0x20, 0x22, 0x61, 0x20, 0x62, 0x22, 0x20, 0x63, 0x20, 0x0d]) finsh_start
    = Some ([Exec_call 3 [[0x65, 0x63, 0x68, 0x6f], [0x61, 0x20, 0x62], [0x63]]], sh)"
proof -
  have "List.find (\<lambda>i. sc_name i = [0x65, 0x63, 0x68, 0x6f]) table_sample = Some \<lparr>sc_name = [0x65, 0x63, 0x68, 0x6f], sc_func = 3\<rparr>"
    by (simp add: table_sample_def)
  from typed_command_runs [OF table_sample_ok _ _ _ _ _ _ _ _ this, of "[]" "[]" ed_start "[]"
      "[([0x20], Quoted [0x61, 0x20, 0x62]), ([0x20], Bare [0x63])]" "[0x20]"]
  show ?thesis by (simp add: ed_start_def)
qed

end
