(* ===== verification/Spec2Isabelle.thy ===== *)
theory Spec2Isabelle
  imports ThreadProps Tick RtList RingBuffer Ffs Sem MutexProps ThreadEnd Event MsgQueue Clock Mem CTime
    Mempool WaitQueue DataQueue Workqueue KString Memheap Heap Object Device RingBlk
    PowerMgr Shell
begin

text \<open>
  RT-Thread for the M2L31KI board, as configured in src/rtconfig.h: one processor, 32 priorities,
  1000 ticks in a second, hard timers, assertions on (\<^verbatim>\<open>RT_DEBUG\<close>).

  The program.  The kernel (src/rt-thread/src) is a set of objects that share one state: the
  scheduler keeps a queue of ready threads for each priority; threads wait in the queues of
  semaphores, mutexes, events, mailboxes, message queues and memory pools, each with a timer of its
  own that ends the wait; the tick interrupt drives the time slices and the timer list.  The driver
  IPC utilities (src/rt-thread/components/drivers/ipc) build completions, wait queues, data queues,
  work queues and ring buffers on top of it.  The small memory heap gives out the memory of all of
  them, and the C library part converts calendar time.

  The state.  \<^verbatim>\<open>KState.kstate\<close> is the whole kernel state: the control blocks by number (threads,
  timers, IPC objects, memory pools, driver objects), the queues of threads by the list head they
  are linked in (\<^verbatim>\<open>head\<close>: ready queues, waiting queues, the list of ended threads), the timer list
  in its order, the ready bit mask, the current thread, the tick, and the nesting counters.  A
  thread's node \<^verbatim>\<open>tlist\<close> is its field \<^verbatim>\<open>th_tlist\<close>, the head of the list it is linked in.  The pointer
  structure of these lists is modelled on its own in RtList, which shows that the functions of
  rtservice.h on it are the list operations used everywhere else.

  Operations.  Each function is one definition on \<^verbatim>\<open>kstate\<close> (or on the record of its object).  The
  result \<^term>\<open>None\<close> is a failed assertion, a NULL dereference, an access outside an array or a loop
  that does not end; returned error codes are values.  A section with interrupts disabled is one
  step.  A blocking call is split at its suspension: it returns \<^verbatim>\<open>Blocked\<close>, and a second definition
  (\<^verbatim>\<open>..._resume\<close>, \<^verbatim>\<open>..._woken\<close>) is what the function does when the thread runs again; the histories
  of the objects interleave these parts with everything else.

  Theories and sources.
  \<^item> Prelude: types, error values, assertions, copies of runs of bytes.
  \<^item> Ffs: \<^verbatim>\<open>__rt_ffs\<close> and its table (kservice.c), equal to the least set bit.
  \<^item> RtList: the circular and the singly linked lists of rtservice.h as pointer operations, refined
    by operations on lists.
  \<^item> KState: the records of rtdef.h and of the driver headers, and the kernel state.  Samples: a
    well-formed state with running, ready, waiting and sleeping threads, used by the witnesses.
  \<^item> Sched: scheduler.c and irq.c; the invariant of the queues, and that \<^verbatim>\<open>rt_schedule\<close> leaves the
    most urgent thread running.  Timer, Tick, Clock: timer.c and clock.c; the order of the timer list
    under wrap-around of the 32-bit tick, the expiry loop, the tick interrupt, and that every timed
    wait ends in time.  Thread, ThreadProps: thread.c; \<^verbatim>\<open>kinv\<close> is the invariant of scheduler, timers
    and threads together that every operation of the development keeps.  ThreadEnd: the end of a
    thread in thread.c and idle.c, with the clean-up of what it holds and waits for.
  \<^item> IpcCore: what all waiting shares: suspending in a queue, starting the timer, waking.  Sem, Mutex
    with MutexInv and MutexProps, Event, Mailbox, MsgQueue: ipc.c, object by object.  Each has its
    invariant, its behaviour on every branch, and a theorem on all histories: units are balanced,
    priorities are inherited, no wake-up is lost, messages arrive in order; message queues, whose
    calls run outside critical sections while they copy, refine an abstract queue in every
    interleaving of their sections.
  \<^item> Mempool: mempool.c; a block is never given out twice.  Mem: mem.c, the small memory heap; its
    blocks partition the memory and are combined when they are freed.  Memheap: memheap.c, heaps over
    separate regions of memory, each with a semaphore; the same properties over doubly linked headers.
  \<^item> KString: the memory and string functions of kservice.c; the word-wise copies equal byte loops.
  \<^item> Heap: the system heap of kservice.c under its mutex, and the functions built on it, as clients of
    the interface \<^verbatim>\<open>allocator\<close>; interpreted for the system heap and for the memory heap objects.
  \<^item> Object, Device: object.c and device.c; the registry of objects by class and name, whose
    re-initialisation check is the one the kernel theories use, and the devices on top of it.
  \<^item> Circular, Fifo: arrays used in a circle, and the interface \<^verbatim>\<open>bounded_fifo\<close> of a bounded queue
    with what any sequence of its operations conserves; interpreted for the ring buffer
    (RingBuffer: ringbuffer.c), the mailbox and the data queue.
  \<^item> RingBlk: ringblk_buf.c, blocks of any size in a ring; live blocks share no byte; what a
    block queue is, where that is less than its header promises.
  \<^item> Completion, WaitQueue, DataQueue, Workqueue: completion.c, waitqueue.c, dataqueue.c, workqueue.c.
  \<^item> PowerMgr: pm.c and lptimer.c, the power manager that the idle thread calls; its calls refine what is
    asked for each sleep mode, and a run never sleeps deeper than a mode that is asked for (while no
    mode is asked for more than 255 times at once, where its counter stops).
  \<^item> Shell: shell.c, msh.c and msh_parse.c of components/finsh; the line editor refines an editor on the
    text before and behind the cursor, and a typed command is called with the words typed.
  \<^item> CTime: ctime.c; the conversions agree with the calendar given by the lengths of its months.

  Bounds and termination.  The tick, sizes and indices have the width of the source (32, 16 or 15
  bits).  The order of two ticks is meaningful when they are less than 2 ^ 31 - 1 apart; the
  theorems on time state this as a hypothesis on the timer list, and \<^verbatim>\<open>timeout_ok\<close> is the range of
  timeouts that \<^verbatim>\<open>rt_timer_control\<close> accepts.  Loops whose end depends on the state are partial
  functions, and where they end it is proved (waking all waiters, the timer check, the idle loop
  over ended threads, the scan of an event's waiters, cancelling all work, the search and the
  combination of heap blocks); the timer check of a periodic timer with time zero does not end, which
  is a theorem as well.

  Parameters.  Code outside the sources, or supplied by the user, is an argument: timeout, notify,
  wake, work, cleanup and hook functions, the answers of the object and memory allocators, the
  initial stack pointer computed by the processor port, the operations of device drivers and of the
  power driver, and the time zone.

  Not modelled.  The second half of scheduler.c, timer.c and thread.c for several processors and
  cpu.c are not compiled here, nor are slab.c, soft timers, the POSIX clocks of ctime.c, modules and
  the smart kernel.  In the kernel theories the registration of an object appears as a flag of its
  control block; Object relates that flag to the lists of object.c.  Hooks that only observe, trace
  output and shell commands have no effect on the modelled state.  signal.c runs handlers on a stack
  that the processor port builds.  Alarms, pipes and the flash abstraction layer are left out, and
  of the shell the console device, the password check, scripts and the commands themselves.  Context switches, interrupt entry and the chip drivers under src/libraries, src/board and
  src/rt-thread/libcpu are assembly or register accesses whose meaning is that of the hardware.
  LVGL and rt_vsnprintf_full under src/packages are third-party packages, and so are the file
  systems, network stacks and libraries under src/rt-thread/components.
\<close>

end
